(* ===== verification/Prelude.thy ===== *)
theory Prelude
  imports Main "HOL-Library.Word"
begin

unbundle bit_operations_syntax

text \<open>
  Shared vocabulary of the development: the machine integers of the C++ sources, the outcome
  type of an operation that may hit a failed assertion, alignment arithmetic, and the generic
  list lemmas the component theories use.

  Unsigned 32-bit quantities (\<^verbatim>\<open>uint32_t\<close>, \<^verbatim>\<open>unsigned int\<close>) are natural numbers below \<open>2 ^ 32\<close>;
  every addition and subtraction of the sources is written with the wrapping operations below,
  so an overflow is visible in the model. Signed 32-bit quantities are integers.
\<close>

section \<open>Machine integers\<close>

type_synonym u32 = nat
type_synonym u64 = nat
type_synonym i32 = int
type_synonym addr = int

definition u32_add :: "u32 \<Rightarrow> u32 \<Rightarrow> u32" where
  "u32_add a b = (a + b) mod 2 ^ 32"

definition u32_sub :: "u32 \<Rightarrow> u32 \<Rightarrow> u32" where
  "u32_sub a b = (a + 2 ^ 32 - b mod 2 ^ 32) mod 2 ^ 32"

definition u32_mul :: "u32 \<Rightarrow> u32 \<Rightarrow> u32" where
  "u32_mul a b = (a * b) mod 2 ^ 32"

text \<open>\<^verbatim>\<open>size_t\<close>, on 64-bit targets.\<close>

definition u64_add :: "u64 \<Rightarrow> u64 \<Rightarrow> u64" where
  "u64_add a b = (a + b) mod 2 ^ 64"

definition u64_sub :: "u64 \<Rightarrow> u64 \<Rightarrow> u64" where
  "u64_sub a b = (a + 2 ^ 64 - b mod 2 ^ 64) mod 2 ^ 64"

definition u32_of_int :: "int \<Rightarrow> u32" where
  "u32_of_int i = nat (i mod 2 ^ 32)"

definition i32_of_u32 :: "u32 \<Rightarrow> i32" where
  "i32_of_u32 a = (if a mod 2 ^ 32 < 2 ^ 31 then int (a mod 2 ^ 32)
                   else int (a mod 2 ^ 32) - 2 ^ 32)"

text \<open>The mask \<open>x & ~(m - 1)\<close> of the sources, computed on 32-bit words.\<close>

definition u32_clear_low :: "u32 \<Rightarrow> u32 \<Rightarrow> u32" where
  "u32_clear_low x m = unat ((of_nat x :: 32 word) AND NOT ((of_nat m :: 32 word) - 1))"

named_theorems u32_simps \<open>wrapping arithmetic that does not wrap\<close>

lemma u32_add_nowrap [u32_simps]: "a + b < 2 ^ 32 \<Longrightarrow> u32_add a b = a + b"
  by (simp add: u32_add_def)

lemma u32_sub_nowrap [u32_simps]:
  assumes "b \<le> a" "a < 2 ^ 32"
  shows "u32_sub a b = a - b"
proof -
  have "a + 2 ^ 32 - b = (a - b) + 2 ^ 32"
    using assms by simp
  then have "u32_sub a b = ((a - b) + 2 ^ 32) mod 2 ^ 32"
    using assms by (simp only: u32_sub_def) simp
  also have "\<dots> = a - b"
    using assms by (simp only: mod_add_self2) simp
  finally show ?thesis .
qed

lemma u32_add_sub_one: "0 < a + b \<Longrightarrow> a + b \<le> 2 ^ 32 \<Longrightarrow> u32_sub (u32_add a b) 1 = a + b - 1"
  by (cases "a + b = 2 ^ 32") (auto simp: u32_add_def u32_sub_nowrap, simp add: u32_sub_def)

lemma u32_mul_nowrap [u32_simps]: "a * b < 2 ^ 32 \<Longrightarrow> u32_mul a b = a * b"
  by (simp add: u32_mul_def)

lemma u32_add_less [simp]: "u32_add a b < 2 ^ 32"
  by (simp add: u32_add_def)

lemma u32_sub_less [simp]: "u32_sub a b < 2 ^ 32"
  by (simp add: u32_sub_def)

lemma i32_of_u32_small [u32_simps]: "a < 2 ^ 31 \<Longrightarrow> i32_of_u32 a = int a"
  by (simp add: i32_of_u32_def)

lemma u32_of_int_small [u32_simps]: "0 \<le> i \<Longrightarrow> i < 2 ^ 32 \<Longrightarrow> u32_of_int i = nat i"
  by (simp add: u32_of_int_def)

section \<open>Alignment\<close>

lemma word_clear_low: "(w :: 32 word) AND NOT (mask k) = push_bit k (drop_bit k w)"
  by (rule bit_word_eqI) (auto simp: bit_simps)

lemma unat_clear_low: "unat ((w :: 32 word) AND NOT (mask k)) = unat w div 2 ^ k * 2 ^ k"
proof -
  have small: "take_bit 32 (unat w) = unat w"
    using unsigned_less [of w, where ?'a = nat] by (simp add: take_bit_nat_eq_self)
  have "unat (push_bit k (drop_bit k w)) = take_bit 32 (unat w div 2 ^ k * 2 ^ k)"
    by (subst unsigned_push_bit_eq, subst unsigned_drop_bit_eq)
      (simp only: push_bit_eq_mult drop_bit_eq_div, simp add: small)
  moreover have "unat w div 2 ^ k * 2 ^ k < 2 ^ 32"
    by (rule le_less_trans [OF div_times_less_eq_dividend]) (use unsigned_less [of w, where ?'a = nat] in simp)
  ultimately show ?thesis
    by (simp add: word_clear_low take_bit_eq_mod)
qed

lemma u32_clear_low_eq:
  assumes "x < 2 ^ 32"
  shows "u32_clear_low x (2 ^ k) = x div 2 ^ k * 2 ^ k"
proof -
  have "((of_nat (2 ^ k) :: 32 word) - 1) = mask k"
    by (simp add: mask_eq_exp_minus_1)
  then show ?thesis
    using assms by (simp add: u32_clear_low_def unat_clear_low unat_of_nat)
qed

lemma div_mult_round_up:
  fixes x m :: nat
  assumes "0 < m"
  shows "x \<le> (x + m - 1) div m * m" and "(x + m - 1) div m * m < x + m"
proof -
  have "(x + m - 1) div m * m + (x + m - 1) mod m = x + m - 1"
    by simp
  moreover have "(x + m - 1) mod m < m"
    using assms by simp
  ultimately show "x \<le> (x + m - 1) div m * m" and "(x + m - 1) div m * m < x + m"
    using assms by linarith+
qed

lemma round_up_least:
  fixes x y m :: nat
  assumes "0 < m" "m dvd y" "x \<le> y"
  shows "(x + m - 1) div m * m \<le> y"
proof -
  from \<open>m dvd y\<close> obtain j where j: "y = j * m" by (auto simp: dvd_def mult.commute)
  have "(x + m - 1) div m \<le> (j * m + (m - 1)) div m"
    using assms j by (intro div_le_mono) simp
  also have "\<dots> = j"
    using assms(1) by (simp only: div_mult_self3 [OF neq0_conv [THEN iffD2]]) simp
  finally show ?thesis using j by simp
qed

text \<open>\<^verbatim>\<open>std::has_single_bit\<close>.\<close>

fun has_single_bit :: "nat \<Rightarrow> bool" where
  "has_single_bit n = (if n \<le> 1 then n = 1 else even n \<and> has_single_bit (n div 2))"

declare has_single_bit.simps [simp del]

lemma has_single_bit_power: "has_single_bit n \<longleftrightarrow> (\<exists>k. n = 2 ^ k)"
proof (induction n rule: has_single_bit.induct)
  case (1 n)
  show ?case
  proof (cases "n \<le> 1")
    case True
    have "n = 2 ^ k \<Longrightarrow> n = 1" for k using True zero_less_power [of "2 :: nat" k] by linarith
    with True show ?thesis by (auto simp: has_single_bit.simps [of n] intro: exI [of _ 0])
  next
    case False
    have "n = 2 ^ k \<Longrightarrow> even n \<and> n div 2 = 2 ^ (k - 1)" for k using False by (cases k) auto
    moreover have "even n \<Longrightarrow> n div 2 = 2 ^ k \<Longrightarrow> n = 2 ^ Suc k" for k by auto
    moreover have "has_single_bit n \<longleftrightarrow> even n \<and> has_single_bit (n div 2)"
      using False by (simp add: has_single_bit.simps [of n])
    ultimately show ?thesis using 1 [OF False] by blast
  qed
qed

section \<open>Outcomes with failed assertions\<close>

text \<open>
  The sources assert with \<^verbatim>\<open>DCHECK\<close>, \<^verbatim>\<open>CHECK\<close> and \<^verbatim>\<open>NOTREACHED\<close>. The model is the build in which
  assertions are on: a failed one ends the operation with an error value, and so does the use of
  a null pointer. An operation that loops forever has the value \<open>Inl Never_returns\<close>.
\<close>

datatype cxx_error = DCHECK_failed | CHECK_failed | NOTREACHED_hit | Null_dereference | Never_returns

type_synonym 'a res = "cxx_error + 'a"

definition res_bind :: "'a res \<Rightarrow> ('a \<Rightarrow> 'b res) \<Rightarrow> 'b res" where
  "res_bind m f = (case m of Inl e \<Rightarrow> Inl e | Inr x \<Rightarrow> f x)"

definition dcheck :: "bool \<Rightarrow> 'a res \<Rightarrow> 'a res" where
  "dcheck b k = (if b then k else Inl DCHECK_failed)"

lemma res_bind_simps [simp]:
  "res_bind (Inl e) f = Inl e"
  "res_bind (Inr x) f = f x"
  by (simp_all add: res_bind_def)

lemma res_bind_Inr_iff: "res_bind m f = Inr y \<longleftrightarrow> (\<exists>x. m = Inr x \<and> f x = Inr y)"
  by (cases m) simp_all

lemma res_bind_InrE [elim]:
  assumes "res_bind m f = Inr y"
  obtains x where "m = Inr x" "f x = Inr y"
  using assms by (auto simp: res_bind_Inr_iff)

lemma dcheck_True [simp]: "dcheck True k = k"
  by (simp add: dcheck_def)

lemma dcheck_False [simp]: "dcheck False k = Inl DCHECK_failed"
  by (simp add: dcheck_def)

lemma dcheck_Inr_iff: "dcheck b k = Inr y \<longleftrightarrow> b \<and> k = Inr y"
  by (simp add: dcheck_def)

lemma res_bind_cong [fundef_cong]:
  assumes "m = m'" "\<And>x. m' = Inr x \<Longrightarrow> f x = f' x"
  shows "res_bind m f = res_bind m' f'"
  using assms by (cases m') simp_all

lemma dcheck_cong [fundef_cong]:
  assumes "b = b'" "b' \<Longrightarrow> k = k'"
  shows "dcheck b k = dcheck b' k'"
  using assms by (simp add: dcheck_def)

lemmas res_simps = res_bind_Inr_iff dcheck_Inr_iff

text \<open>The outcome of a loop defined as a partial function.\<close>

definition returning :: "'a res option \<Rightarrow> 'a res" where
  "returning r = (case r of None \<Rightarrow> Inl Never_returns | Some x \<Rightarrow> x)"

lemma returning_simps [simp]: "returning (Some x) = x" "returning None = Inl Never_returns"
  by (simp_all add: returning_def)

section \<open>Regions of memory\<close>

definition regions_disjoint :: "nat \<Rightarrow> nat \<Rightarrow> nat \<Rightarrow> nat \<Rightarrow> bool" where
  "regions_disjoint o1 s1 o2 s2 \<longleftrightarrow> o1 + s1 \<le> o2 \<or> o2 + s2 \<le> o1"

end
