(* ===== verification/Id_Allocator.thy ===== *)
theory Id_Allocator
  imports Prelude "HOL-Library.Sublist"
begin

text \<open>
  \<^verbatim>\<open>gpu/command_buffer/common/id_allocator.{h,cc}\<close>: allocation of resource ids. The used ids are
  kept as a map from the first to the last id of each maximal range; the map is modelled as the
  list of its entries in the order of their keys, and an iterator as a split of that list.
\<close>

section \<open>Data\<close>

type_synonym id_ranges = "(u32 \<times> u32) list"

definition kInvalidResource :: u32 where
  "kInvalidResource = 0"

definition new_IdAllocator :: id_ranges where
  "new_IdAllocator = [(0, 0)]"

text \<open>\<^verbatim>\<open>lower_bound\<close>: the entries before and from the first key that is not smaller.\<close>

definition lower_bound :: "u32 \<Rightarrow> id_ranges \<Rightarrow> id_ranges \<times> id_ranges" where
  "lower_bound i m = (takeWhile (\<lambda>e. fst e < i) m, dropWhile (\<lambda>e. fst e < i) m)"

section \<open>Operations\<close>

text \<open>The loop of \<^verbatim>\<open>AllocateIDRange\<close>: the entries before \<open>current\<close>, \<open>current\<close>, and those from \<open>next\<close> on.\<close>

fun find_gap :: "u32 \<Rightarrow> id_ranges \<Rightarrow> u32 \<times> u32 \<Rightarrow> id_ranges \<Rightarrow> id_ranges \<times> (u32 \<times> u32) \<times> id_ranges" where
  "find_gap rng before current [] = (before, current, [])"
| "find_gap rng before current (nxt # rest) =
     (if u32_sub (fst nxt) (snd current) > rng then (before, current, nxt # rest)
      else find_gap rng (before @ [current]) nxt rest)"

text \<open>Extending \<open>current\<close> up to \<open>last_id\<close>, merging with the next range when they meet.\<close>

definition extend_range :: "id_ranges \<Rightarrow> u32 \<times> u32 \<Rightarrow> id_ranges \<Rightarrow> u32 \<Rightarrow> id_ranges" where
  "extend_range before current rest last_id =
     (case rest of
        nxt # rest' \<Rightarrow>
          if u32_sub (fst nxt) 1 = last_id then before @ (fst current, snd nxt) # rest'
          else before @ (fst current, last_id) # rest
      | [] \<Rightarrow> before @ [(fst current, last_id)])"

definition IdAllocator_AllocateIDRange :: "u32 \<Rightarrow> id_ranges \<Rightarrow> (u32 \<times> id_ranges) res" where
  "IdAllocator_AllocateIDRange rng m =
     dcheck (rng > 0)
       (case find_gap rng [] (hd m) (tl m) of (before, current, rest) \<Rightarrow>
          let first_id = u32_add (snd current) 1;
              last_id = u32_sub (u32_add first_id rng) 1
          in if first_id = 0 \<or> last_id < first_id then Inr (kInvalidResource, m)
             else Inr (first_id, extend_range before current rest last_id))"

definition IdAllocator_AllocateID :: "id_ranges \<Rightarrow> (u32 \<times> id_ranges) res" where
  "IdAllocator_AllocateID m = IdAllocator_AllocateIDRange 1 m"

definition prepends :: "id_ranges \<Rightarrow> u32 \<Rightarrow> bool" where
  "prepends rest i \<longleftrightarrow> rest \<noteq> [] \<and> u32_sub (fst (hd rest)) 1 = i"

definition IdAllocator_AllocateIDAtOrAbove :: "u32 \<Rightarrow> id_ranges \<Rightarrow> (u32 \<times> id_ranges) res" where
  "IdAllocator_AllocateIDAtOrAbove desired_id m =
     (if desired_id = 0 \<or> desired_id = 1 then IdAllocator_AllocateIDRange 1 m
      else case lower_bound desired_id m of (pre, post) \<Rightarrow>
        (case (if post = [] \<or> fst (hd post) > desired_id then (butlast pre, last pre, post)
               else (pre, hd post, tl post)) of (before, current, rest) \<Rightarrow>
           dcheck (desired_id \<ge> fst current)
             (if u32_sub desired_id 1 \<le> snd current
              then (let last_id = u32_add (snd current) 1
                    in if last_id = 0 then IdAllocator_AllocateIDRange 1 m
                       else Inr (last_id, extend_range before current rest last_id))
              else if prepends rest desired_id
              then Inr (desired_id, before @ current # (desired_id, snd (hd rest)) # tl rest)
              else Inr (desired_id, before @ current # (desired_id, desired_id) # rest))))"

definition IdAllocator_MarkAsUsed :: "u32 \<Rightarrow> id_ranges \<Rightarrow> (bool \<times> id_ranges) res" where
  "IdAllocator_MarkAsUsed i m =
     dcheck (i \<noteq> 0)
       (case lower_bound i m of (pre, post) \<Rightarrow>
          if post \<noteq> [] \<and> fst (hd post) = i then Inr (False, m)
          else let before = butlast pre; current = last pre
               in if snd current \<ge> i then Inr (False, m)
                  else dcheck (fst current < i \<and> snd current < i)
                    (if u32_add (snd current) 1 = i then Inr (True, extend_range before current post i)
                     else if prepends post i
                     then Inr (True, before @ current # (i, snd (hd post)) # tl post)
                     else Inr (True, before @ current # (i, i) # post)))"

text \<open>One round of the loop of \<^verbatim>\<open>FreeIDRange\<close>: \<open>None\<close> when it returns.\<close>

definition free_round :: "u32 \<Rightarrow> u32 \<Rightarrow> id_ranges \<Rightarrow> id_ranges res option" where
  "free_round first_id last_id m =
     (case lower_bound last_id m of (pre, post) \<Rightarrow>
        (case (if post = [] \<or> fst (hd post) > last_id then (butlast pre, last pre, post)
               else (pre, hd post, tl post)) of (before, current, rest) \<Rightarrow>
           if snd current < first_id then None
           else if fst current \<ge> first_id
           then Some (Inr (if last_id < snd current
                           then before @ (u32_add last_id 1, snd current) # rest else before @ rest))
           else if snd current \<le> last_id then Some (Inr (before @ (fst current, u32_sub first_id 1) # rest))
           else Some (dcheck (fst current < first_id \<and> snd current > last_id)
                  (Inr (before @ (fst current, u32_sub first_id 1) #
                          (u32_add last_id 1, snd current) # rest)))))"

partial_function (option) free_loop :: "u32 \<Rightarrow> u32 \<Rightarrow> id_ranges \<Rightarrow> id_ranges res option" where
  "free_loop first_id last_id m =
     (case free_round first_id last_id m of
        None \<Rightarrow> Some (Inr m)
      | Some r \<Rightarrow> (case r of Inl e \<Rightarrow> Some (Inl e) | Inr m' \<Rightarrow> free_loop first_id last_id m'))"

definition IdAllocator_FreeIDRange :: "u32 \<Rightarrow> u32 \<Rightarrow> id_ranges \<Rightarrow> id_ranges res" where
  "IdAllocator_FreeIDRange first_id rng m =
     (if rng = 0 \<or> (first_id = 0 \<and> rng = 1) then Inr m
      else let f = (if first_id = 0 then 1 else first_id);
               r = (if first_id = 0 then u32_sub rng 1 else rng);
               last_id = u32_sub (u32_add f r) 1;
               last_id' = (if last_id < f then 2 ^ 32 - 1 else last_id)
           in returning (free_loop f last_id' m))"

definition IdAllocator_FreeID :: "u32 \<Rightarrow> id_ranges \<Rightarrow> id_ranges res" where
  "IdAllocator_FreeID i m = IdAllocator_FreeIDRange i 1 m"

definition IdAllocator_InUse :: "u32 \<Rightarrow> id_ranges \<Rightarrow> bool" where
  "IdAllocator_InUse i m =
     (if i = kInvalidResource then False
      else case lower_bound i m of (pre, post) \<Rightarrow>
        if post \<noteq> [] \<and> fst (hd post) = i then True else snd (last pre) \<ge> i)"

section \<open>Invariant and abstraction\<close>

definition ida_inv :: "id_ranges \<Rightarrow> bool" where
  "ida_inv m \<longleftrightarrow> m \<noteq> [] \<and> fst (hd m) = 0 \<and> (\<forall>e \<in> set m. fst e \<le> snd e \<and> snd e < 2 ^ 32) \<and>
     sorted_wrt (\<lambda>x y. snd x + 1 < fst y) m"

definition ids :: "id_ranges \<Rightarrow> nat set" where
  "ids m = (\<Union>e \<in> set m. {fst e..snd e})"

text \<open>The ids that are allocated: 0 is always in a range and never given out.\<close>

definition used :: "id_ranges \<Rightarrow> nat set" where
  "used m = ids m - {0}"

lemma ids_simps [simp]:
  "ids [] = {}" "ids (e # m) = {fst e..snd e} \<union> ids m" "ids (m @ m') = ids m \<union> ids m'"
  by (auto simp: ids_def)

lemma ids_mem: "i \<in> ids m \<longleftrightarrow> (\<exists>e \<in> set m. fst e \<le> i \<and> i \<le> snd e)"
  by (auto simp: ids_def)

lemma new_IdAllocator_inv: "ida_inv new_IdAllocator" "used new_IdAllocator = {}"
  by (simp_all add: ida_inv_def new_IdAllocator_def used_def)

lemma ida_inv_hd: "ida_inv m \<Longrightarrow> 0 \<in> ids m"
  by (cases m) (auto simp: ida_inv_def)

text \<open>An entry of the list against its neighbours.\<close>

lemma ida_inv_split:
  assumes "ida_inv (xs @ e # ys)"
  shows "fst e \<le> snd e" "snd e < 2 ^ 32" "\<And>x. x \<in> set xs \<Longrightarrow> snd x + 1 < fst e" "\<And>y. y \<in> set ys \<Longrightarrow> snd e + 1 < fst y"
    "\<And>y. y \<in> set (xs @ ys) \<Longrightarrow> fst y \<le> snd y \<and> snd y < 2 ^ 32"
  using assms by (auto simp: ida_inv_def sorted_wrt_append)

text \<open>Replacing the entry after \<open>xs\<close> by other entries in its place.\<close>

lemma ida_inv_replace:
  assumes "ida_inv (xs @ e # ys)" "zs \<noteq> []" "fst (hd zs) = fst e"
    and "sorted_wrt (\<lambda>x y. snd x + 1 < fst y) zs" "\<forall>z \<in> set zs. fst z \<le> snd z \<and> snd z < 2 ^ 32"
    and "\<forall>z \<in> set zs. \<forall>y \<in> set ys'. snd z + 1 < fst y" "\<forall>z \<in> set zs. fst e \<le> fst z" "suffix ys' ys"
  shows "ida_inv (xs @ zs @ ys')"
proof -
  from assms(8) obtain us where ys: "ys = us @ ys'" by (auto simp: suffix_def)
  have "fst (hd (xs @ zs @ ys')) = 0"
    using assms(1-3) by (cases xs) (auto simp: ida_inv_def)
  moreover have "sorted_wrt (\<lambda>x y. snd x + 1 < fst y) (xs @ zs @ ys')"
  proof -
    have srt: "sorted_wrt (\<lambda>x y. snd x + 1 < fst y) xs" "sorted_wrt (\<lambda>x y. snd x + 1 < fst y) ys'"
      and xy: "\<forall>x \<in> set xs. \<forall>y \<in> set ys'. snd x + 1 < fst y"
      using assms(1) ys by (auto simp: ida_inv_def sorted_wrt_append)
    have "snd x + 1 < fst z" if "x \<in> set xs" "z \<in> set zs" for x z
      using ida_inv_split(3) [OF assms(1) that(1)] assms(7) that(2) by fastforce
    with srt xy assms(4,6) show ?thesis by (auto simp: sorted_wrt_append)
  qed
  ultimately show ?thesis
    using assms(1,2,5) ys by (auto simp: ida_inv_def)
qed

lemma ids_gap:
  assumes "ida_inv (xs @ e # ys)" "snd e < i" "ys = [] \<or> i < fst (hd ys)"
  shows "i \<notin> ids (xs @ e # ys)"
proof -
  note sp = ida_inv_split [OF assms(1)]
  have "i < fst y" if "y \<in> set ys" for y
  proof (cases ys)
    case (Cons z zs)
    have "ida_inv ((xs @ [e]) @ z # zs)" using assms(1) Cons by simp
    from ida_inv_split(4) [OF this] ida_inv_split(1) [OF this] that Cons assms(3) show ?thesis by fastforce
  qed (use that in simp)
  moreover have "snd x < i" if "x \<in> set xs" for x
    using sp(1) sp(3) [OF that] assms(2) by linarith
  ultimately show ?thesis
    using assms(2) by (force simp: ids_mem)
qed

section \<open>Allocation\<close>

lemma u32_pred:
  "0 < a \<Longrightarrow> a < 2 ^ 32 \<Longrightarrow> u32_sub a 1 = a - 1"
  "0 < a \<Longrightarrow> a < 2 ^ 32 \<Longrightarrow> u32_sub a (Suc 0) = a - 1"
  by (simp_all add: u32_sub_nowrap)

text \<open>Extending a range into the free ids after it.\<close>

lemma extend_range_spec:
  assumes "ida_inv (xs @ e # ys)" "snd e < l" "l < 2 ^ 32" "ys = [] \<or> l < fst (hd ys)"
  shows "ida_inv (extend_range xs e ys l)" "ids (extend_range xs e ys l) = ids (xs @ e # ys) \<union> {snd e + 1..l}"
proof -
  note sp = ida_inv_split [OF assms(1)]
  show "ida_inv (extend_range xs e ys l)"
  proof (cases ys)
    case Nil
    with ida_inv_replace [OF assms(1), of "[(fst e, l)]" "[]"] sp(1) assms show ?thesis
      by (simp add: extend_range_def)
  next
    case (Cons y zs)
    have y: "fst y \<le> snd y" "snd y < 2 ^ 32" "0 < fst y" and z: "z \<in> set zs \<Longrightarrow> snd y + 1 < fst z" for z
      using sp(4) [of y] sp(5) [of y] ida_inv_split(4) [of "xs @ [e]" y zs z] assms(1) Cons by auto
    show ?thesis
    proof (cases "fst y - 1 = l")
      case True
      then have "extend_range xs e ys l = xs @ [(fst e, snd y)] @ zs"
        using Cons y by (simp add: extend_range_def u32_pred)
      then show ?thesis
        using ida_inv_replace [OF assms(1), of "[(fst e, snd y)]" zs] sp(1) sp(4) [of y] y z Cons
        by (simp add: suffix_ConsI)
    next
      case False
      then have "extend_range xs e ys l = xs @ [(fst e, l)] @ ys"
        using Cons y by (simp add: extend_range_def u32_pred)
      moreover have "l + 1 < fst w" if "w \<in> set ys" for w
        using that Cons z [of w] False assms(4) y by fastforce
      ultimately show ?thesis
        using ida_inv_replace [OF assms(1), of "[(fst e, l)]" ys] sp(1) assms(2,3) by simp
    qed
  qed
  show "ids (extend_range xs e ys l) = ids (xs @ e # ys) \<union> {snd e + 1..l}"
  proof (cases ys)
    case Nil
    then show ?thesis using sp(1) assms(2) by (auto simp: extend_range_def)
  next
    case (Cons y zs)
    have y: "fst y \<le> snd y" "snd y < 2 ^ 32" "snd e + 1 < fst y"
      using sp(4) [of y] sp(5) [of y] Cons by auto
    show ?thesis
    proof (cases "fst y - 1 = l")
      case True
      then have x: "extend_range xs e ys l = xs @ (fst e, snd y) # zs"
        using Cons y by (simp add: extend_range_def u32_pred)
      have "{fst e..snd y} = {fst e..snd e} \<union> {snd e + 1..l} \<union> {fst y..snd y}"
        using True y sp(1) by (auto)
      then show ?thesis unfolding x using Cons by (simp add: Un_ac)
    next
      case False
      then have x: "extend_range xs e ys l = xs @ (fst e, l) # ys"
        using Cons y by (simp add: extend_range_def u32_pred)
      have "{fst e..l} = {fst e..snd e} \<union> {snd e + 1..l}" using sp(1) assms(2) by auto
      then show ?thesis unfolding x by (simp add: Un_ac)
    qed
  qed
qed

lemma find_gap_split:
  assumes "ida_inv (before @ current # rest)" "find_gap r before current rest = (xs, e, ys)" "0 < r"
    "\<And>j. 0 < j \<Longrightarrow> j \<le> snd current \<Longrightarrow> {j..<j + r} \<inter> ids (before @ current # rest) \<noteq> {}"
  shows "before @ current # rest = xs @ e # ys \<and> (ys = [] \<or> snd e + r < fst (hd ys)) \<and>
    (\<forall>j. 0 < j \<and> j \<le> snd e \<longrightarrow> {j..<j + r} \<inter> ids (before @ current # rest) \<noteq> {})"
  using assms
proof (induction rest arbitrary: before current)
  case Nil
  then show ?case by auto
next
  case (Cons nxt rest)
  note sp = ida_inv_split [OF Cons.prems(1)]
  have n: "snd current + 1 < fst nxt" "fst nxt \<le> snd nxt" "snd nxt < 2 ^ 32" using sp(4) [of nxt] sp(5) [of nxt] by auto
  have sub: "u32_sub (fst nxt) (snd current) = fst nxt - snd current" using n by (simp add: u32_sub_nowrap)
  show ?case
  proof (cases "u32_sub (fst nxt) (snd current) > r")
    case True
    with Cons.prems sub n show ?thesis by auto
  next
    case False
    have ids: "{j..<j + r} \<inter> ids (before @ current # nxt # rest) \<noteq> {}" if "0 < j" "j \<le> snd nxt" for j
    proof (cases "j \<le> snd current")
      case True
      with Cons.prems(4) that show ?thesis by blast
    next
      case gt: False
      define i where "i = max j (fst nxt)"
      have "i \<in> {j..<j + r}" using gt False sub n Cons.prems(3) that by (auto simp: i_def)
      moreover have "i \<in> ids (before @ current # nxt # rest)" using that n by (auto simp: i_def)
      ultimately show ?thesis by blast
    qed
    from False Cons.prems(2) have f: "find_gap r (before @ [current]) nxt rest = (xs, e, ys)" by simp
    have inv: "ida_inv ((before @ [current]) @ nxt # rest)" using Cons.prems(1) by simp
    have "(before @ [current]) @ nxt # rest = before @ current # nxt # rest" by simp
    with Cons.IH [OF inv f Cons.prems(3)] ids show ?thesis by metis
  qed
qed

theorem AllocateIDRange_spec:
  assumes "ida_inv m" "0 < r" "r < 2 ^ 32"
  obtains (fail) "IdAllocator_AllocateIDRange r m = Inr (0, m)"
      "\<And>j. 0 < j \<Longrightarrow> j + r \<le> 2 ^ 32 \<Longrightarrow> {j..<j + r} \<inter> used m \<noteq> {}"
  | (ok) i m' where "IdAllocator_AllocateIDRange r m = Inr (i, m')" "0 < i" "i + r \<le> 2 ^ 32" "ida_inv m'"
      "{i..<i + r} \<inter> used m = {}" "used m' = used m \<union> {i..<i + r}"
      "\<And>j. 0 < j \<Longrightarrow> j < i \<Longrightarrow> {j..<j + r} \<inter> used m \<noteq> {}"
proof -
  obtain c cs where m: "m = c # cs" using assms(1) by (cases m) (auto simp: ida_inv_def)
  obtain xs e ys where g: "find_gap r [] c cs = (xs, e, ys)" by (metis prod_cases3)
  have c0: "fst c = 0" using assms(1) m by (simp add: ida_inv_def)
  have start: "{j..<j + r} \<inter> ids ([] @ c # cs) \<noteq> {}" if "0 < j" "j \<le> snd c" for j
  proof -
    have "j \<in> {j..<j + r} \<inter> ids ([] @ c # cs)" using that c0 assms(2) by simp
    then show ?thesis by blast
  qed
  have m': "[] @ c # cs = m" using m by simp
  from find_gap_split [OF _ g assms(2) start, unfolded m'] assms(1)
  have sp: "m = xs @ e # ys" "ys = [] \<or> snd e + r < fst (hd ys)"
    and least: "\<And>j. 0 < j \<Longrightarrow> j \<le> snd e \<Longrightarrow> {j..<j + r} \<inter> ids m \<noteq> {}" by blast+
  have used: "{j..<j + r} \<inter> used m = {j..<j + r} \<inter> ids m" if "0 < j" for j using that by (auto simp: used_def)
  note e = ida_inv_split(1,2) [OF assms(1) [unfolded sp(1)]]
  let ?f = "u32_add (snd e) 1" and ?l = "u32_sub (u32_add (u32_add (snd e) 1) r) 1"
  have val: "IdAllocator_AllocateIDRange r m =
      (if ?f = 0 \<or> ?l < ?f then Inr (0, m) else Inr (?f, extend_range xs e ys ?l))"
    using assms(2) g m by (simp add: IdAllocator_AllocateIDRange_def Let_def kInvalidResource_def)
  show thesis
  proof (cases "snd e + 1 + r \<le> 2 ^ 32")
    case True
    then have f: "?f = snd e + 1" using assms(2) by (simp add: u32_add_nowrap)
    have l: "?l = snd e + r" using u32_add_sub_one [of "snd e + 1" r] True f by simp
    have lt: "snd e < snd e + r" "snd e + r < 2 ^ 32" using True assms(2) by auto
    note ext = extend_range_spec [OF assms(1) [unfolded sp(1)] lt sp(2)]
    have "i \<notin> ids m" if "snd e < i" "i \<le> snd e + r" for i
      using ids_gap [OF assms(1) [unfolded sp(1)], of i] that sp by auto
    then have dis: "{snd e + 1..<snd e + 1 + r} \<inter> used m = {}" by (auto simp: used_def)
    have "{snd e + 1..snd e + r} = {snd e + 1..<snd e + 1 + r}" by auto
    then have "used (extend_range xs e ys ?l) = used m \<union> {snd e + 1..<snd e + 1 + r}"
      using ext(2) sp(1) l by (auto simp: used_def)
    with val f l lt True ext(1) dis least used show thesis
      by (intro ok [of "snd e + 1" "extend_range xs e ys ?l"]) auto
  next
    case False
    have "?f = 0 \<or> ?l < ?f"
    proof (cases "snd e + 1 = 2 ^ 32")
      case True
      then show ?thesis by (simp add: u32_add_def)
    next
      case ne: False
      then have "?f = snd e + 1" using e by (simp add: u32_add_nowrap)
      moreover have "u32_add (snd e + 1) r = snd e + 1 + r - 2 ^ 32"
        using False e assms(3) ne by (simp add: u32_add_def mod_if)
      ultimately show ?thesis using False assms(3) ne e by (simp add: u32_pred)
    qed
    moreover have "{j..<j + r} \<inter> used m \<noteq> {}" if "0 < j" "j + r \<le> 2 ^ 32" for j
      using least [OF that(1)] used [OF that(1)] that False by auto
    ultimately show thesis using fail val by simp
  qed
qed

section \<open>Lookup and single ids\<close>

lemma lower_bound_split:
  assumes "lower_bound i m = (pre, post)"
  shows "m = pre @ post" "\<forall>e \<in> set pre. fst e < i" "post = [] \<or> i \<le> fst (hd post)"
proof -
  have pre: "pre = takeWhile (\<lambda>e. fst e < i) m" and post: "post = dropWhile (\<lambda>e. fst e < i) m"
    using assms by (simp_all add: lower_bound_def)
  show "m = pre @ post" by (simp add: pre post)
  show "\<forall>e \<in> set pre. fst e < i" unfolding pre by (blast dest: set_takeWhileD)
  show "post = [] \<or> i \<le> fst (hd post)"
    using hd_dropWhile [of "\<lambda>e. fst e < i" m] unfolding post by force
qed

text \<open>For a valid id the entry before the bound exists, and is the only one that may hold the id.\<close>

lemma lower_bound_valid:
  assumes "lower_bound i m = (pre, post)" "ida_inv m" "0 < i"
  obtains xs e where "pre = xs @ [e]" "m = xs @ e # post" "fst e < i"
    "(i \<in> ids m) \<longleftrightarrow> i \<le> snd e \<or> (post \<noteq> [] \<and> fst (hd post) = i)"
proof -
  note lb = lower_bound_split [OF assms(1)]
  have "pre \<noteq> []"
  proof
    assume "pre = []"
    with lb(1,3) assms(2,3) show False by (auto simp: ida_inv_def)
  qed
  then obtain xs e where pre: "pre = xs @ [e]" by (metis append_butlast_last_id)
  have m: "m = xs @ e # post" using lb(1) pre by simp
  note sp = ida_inv_split [OF assms(2) [unfolded m]]
  have "i \<notin> ids m" if "snd e < i" "\<not> (post \<noteq> [] \<and> fst (hd post) = i)"
    using ids_gap [OF assms(2) [unfolded m] that(1)] that(2) lb(3) m by auto
  moreover have "i \<in> ids m" if "i \<le> snd e" using that lb(2) pre m by auto
  moreover have "i \<in> ids m" if "post \<noteq> []" "fst (hd post) = i"
  proof -
    have "hd post \<in> set (xs @ post)" using that(1) by simp
    from sp(5) [OF this] that m show ?thesis by (auto simp: ids_mem intro!: bexI [of _ "hd post"])
  qed
  ultimately have "(i \<in> ids m) \<longleftrightarrow> i \<le> snd e \<or> (post \<noteq> [] \<and> fst (hd post) = i)" by (meson not_le)
  with that pre m lb(2) show thesis by simp
qed

theorem InUse_iff:
  assumes "ida_inv m"
  shows "IdAllocator_InUse i m \<longleftrightarrow> i \<in> used m"
proof (cases "i = 0")
  case False
  then have "0 < i" by simp
  obtain pre post where lb: "lower_bound i m = (pre, post)" by fastforce
  obtain xs e where "pre = xs @ [e]" "(i \<in> ids m) \<longleftrightarrow> i \<le> snd e \<or> (post \<noteq> [] \<and> fst (hd post) = i)"
    by (rule lower_bound_valid [OF lb assms \<open>0 < i\<close>])
  with lb False show ?thesis by (auto simp: IdAllocator_InUse_def kInvalidResource_def used_def)
qed (simp add: IdAllocator_InUse_def kInvalidResource_def used_def)

text \<open>A new range between two others.\<close>

lemma insert_range_inv:
  assumes "ida_inv (xs @ e # ys)" "snd e + 1 < a" "a \<le> b" "b < 2 ^ 32" "suffix ys' ys"
    "\<forall>y \<in> set ys'. b + 1 < fst y"
  shows "ida_inv (xs @ e # (a, b) # ys')"
proof -
  note sp = ida_inv_split [OF assms(1)]
  have "snd e + 1 < fst y" if "y \<in> set ys'" for y
    using that assms(2,3,6) by fastforce
  with ida_inv_replace [OF assms(1), of "[e, (a, b)]" ys'] sp(1,2) assms(2-6) show ?thesis by simp
qed

lemma insert_single_spec:
  assumes "ida_inv (xs @ e # ys)" "snd e + 1 < i" "i < 2 ^ 32" "ys = [] \<or> i < fst (hd ys)"
    and "m' = (if prepends ys i then xs @ e # (i, snd (hd ys)) # tl ys else xs @ e # (i, i) # ys)"
  shows "ida_inv m'" "ids m' = insert i (ids (xs @ e # ys))"
proof -
  note sp = ida_inv_split [OF assms(1)]
  have "ida_inv m' \<and> ids m' = insert i (ids (xs @ e # ys))"
  proof (cases ys)
    case Nil
    then have "m' = xs @ e # (i, i) # ys" using assms(5) by (simp add: prepends_def)
    with Nil insert_range_inv [OF assms(1,2) le_refl assms(3), of "[]"] show ?thesis by auto
  next
    case (Cons y zs)
    have y: "fst y \<le> snd y" "snd y < 2 ^ 32" "0 < fst y" "i < fst y" and z: "z \<in> set zs \<Longrightarrow> snd y + 1 < fst z" for z
      using sp(4) [of y] sp(5) [of y] ida_inv_split(4) [of "xs @ [e]" y zs z] assms(1,4) Cons by auto
    show ?thesis
    proof (cases "fst y - 1 = i")
      case True
      then have m': "m' = xs @ e # (i, snd y) # zs"
        using Cons assms(5) y by (simp add: prepends_def u32_pred)
      have "ida_inv m'" unfolding m'
        by (rule insert_range_inv [OF assms(1,2)]) (use Cons y z in \<open>auto simp: suffix_def\<close>)
      moreover have "{i..snd y} = insert i {fst y..snd y}" using True y by auto
      ultimately show ?thesis using Cons by (simp add: m')
    next
      case False
      then have m': "m' = xs @ e # (i, i) # ys"
        using Cons assms(5) y by (simp add: prepends_def u32_pred)
      have "i + 1 < fst w" if "w \<in> set ys" for w
        using that Cons z [of w] y False by fastforce
      then have "ida_inv m'" unfolding m' using assms(3) by (intro insert_range_inv [OF assms(1,2)]) auto
      then show ?thesis by (auto simp: m')
    qed
  qed
  then show "ida_inv m'" "ids m' = insert i (ids (xs @ e # ys))" by auto
qed

theorem MarkAsUsed_spec:
  assumes "ida_inv m" "0 < i" "i < 2 ^ 32"
  shows "\<exists>m'. IdAllocator_MarkAsUsed i m = Inr (i \<notin> used m, m') \<and> ida_inv m' \<and> used m' = insert i (used m)"
proof -
  obtain pre post where lb: "lower_bound i m = (pre, post)" by fastforce
  obtain xs e where pre: "pre = xs @ [e]" "m = xs @ e # post" "fst e < i"
    and mem: "(i \<in> ids m) \<longleftrightarrow> i \<le> snd e \<or> (post \<noteq> [] \<and> fst (hd post) = i)"
    by (rule lower_bound_valid [OF lb assms(1,2)])
  note inv = assms(1) [unfolded pre(2)]
  have used: "i \<in> used m \<longleftrightarrow> i \<in> ids m" using assms(2) by (simp add: used_def)
  show ?thesis
  proof (cases "i \<in> ids m")
    case True
    then have "IdAllocator_MarkAsUsed i m = Inr (False, m)"
      using mem lb pre assms(2) by (auto simp: IdAllocator_MarkAsUsed_def Let_def)
    with True used assms(1) show ?thesis by auto
  next
    case False
    with mem have ns: "snd e < i" "\<not> (post \<noteq> [] \<and> fst (hd post) = i)" by auto
    with lower_bound_split(3) [OF lb] have gap: "post = [] \<or> i < fst (hd post)" by auto
    have le: "snd e + 1 < 2 ^ 32" using ns(1) assms(3) by simp
    let ?m1 = "extend_range xs e post i"
      and ?m2 = "if prepends post i then xs @ e # (i, snd (hd post)) # tl post else xs @ e # (i, i) # post"
    have val: "IdAllocator_MarkAsUsed i m = Inr (True, if snd e + 1 = i then ?m1 else ?m2)"
      using lb pre ns assms(2) le by (auto simp: IdAllocator_MarkAsUsed_def Let_def u32_add_nowrap)
    have spec: "ida_inv (if snd e + 1 = i then ?m1 else ?m2) \<and>
        ids (if snd e + 1 = i then ?m1 else ?m2) = insert i (ids m)"
    proof (cases "snd e + 1 = i")
      case True
      with extend_range_spec [OF inv ns(1) assms(3) gap] pre(2) show ?thesis by auto
    next
      case ne: False
      then have "snd e + 1 < i" using ns(1) by simp
      from insert_single_spec [OF inv this assms(3) gap refl] ne pre(2) show ?thesis by simp
    qed
    then have "used (if snd e + 1 = i then ?m1 else ?m2) = insert i (used m)"
      using assms(2) unfolding used_def by auto
    with val spec False used show ?thesis
      by (intro exI [of _ "if snd e + 1 = i then ?m1 else ?m2"]) simp
  qed
qed

text \<open>The last range that starts at or before an id.\<close>

lemma upto_split:
  assumes "lower_bound l m = (pre, post)" "ida_inv m" "0 < l"
    "(if post = [] \<or> fst (hd post) > l then (butlast pre, last pre, post) else (pre, hd post, tl post)) = (xs, e, ys)"
  shows "m = xs @ e # ys" "fst e \<le> l" "ys = [] \<or> l < fst (hd ys)"
proof -
  obtain xs0 e0 where pre: "pre = xs0 @ [e0]" "m = xs0 @ e0 # post" "fst e0 < l"
    by (rule lower_bound_valid [OF assms(1-3)])
  show "m = xs @ e # ys" using assms(4) pre lower_bound_split(1) [OF assms(1)] by (auto split: if_splits)
  show "fst e \<le> l" using assms(4) pre by (auto split: if_splits)
  show "ys = [] \<or> l < fst (hd ys)"
  proof (cases "post = [] \<or> fst (hd post) > l")
    case False
    then obtain p ps where post: "post = p # ps" "l = fst p"
      using lower_bound_split(3) [OF assms(1)] by (cases post) auto
    have "ida_inv ((xs0 @ [e0]) @ p # ps)" using assms(2) pre(2) post by simp
    from ida_inv_split(1,4) [OF this] False assms(4) post show ?thesis by (cases ps) fastforce+
  qed (use assms(4) in auto)
qed

theorem AllocateIDAtOrAbove_spec:
  assumes "ida_inv m" "1 < d" "d < 2 ^ 32"
  shows "(\<exists>i m'. IdAllocator_AllocateIDAtOrAbove d m = Inr (i, m') \<and> d \<le> i \<and> i < 2 ^ 32 \<and> i \<notin> used m \<and>
      (\<forall>j. d \<le> j \<and> j < i \<longrightarrow> j \<in> used m) \<and> ida_inv m' \<and> used m' = insert i (used m)) \<or>
    (IdAllocator_AllocateIDAtOrAbove d m = IdAllocator_AllocateIDRange 1 m \<and> {d..<2 ^ 32} \<subseteq> used m)"
proof -
  obtain pre post where lb: "lower_bound d m = (pre, post)" by fastforce
  have d0: "0 < d" using assms(2) by simp
  define trip where "trip = (if post = [] \<or> fst (hd post) > d then (butlast pre, last pre, post) else (pre, hd post, tl post))"
  obtain xs e ys where t: "trip = (xs, e, ys)" by (metis prod_cases3)
  note sp = upto_split [OF lb assms(1) d0 t [unfolded trip_def]]
  note inv = assms(1) [unfolded sp(1)] and es = ida_inv_split(1,2) [OF assms(1) [unfolded sp(1)]]
  have nz: "\<And>j. j \<noteq> 0 \<Longrightarrow> j \<in> used m \<longleftrightarrow> j \<in> ids m" by (simp add: used_def)
  have val: "IdAllocator_AllocateIDAtOrAbove d m =
      (if d - 1 \<le> snd e then (if u32_add (snd e) 1 = 0 then IdAllocator_AllocateIDRange 1 m
                              else Inr (u32_add (snd e) 1, extend_range xs e ys (u32_add (snd e) 1)))
       else Inr (d, if prepends ys d then xs @ e # (d, snd (hd ys)) # tl ys else xs @ e # (d, d) # ys))"
    using assms(2,3) lb t sp(2)
    by (simp add: IdAllocator_AllocateIDAtOrAbove_def trip_def [symmetric] Let_def u32_pred)
  show ?thesis
  proof (cases "d - 1 \<le> snd e")
    case True
    show ?thesis
    proof (cases "snd e + 1 = 2 ^ 32")
      case full: True
      have "{d..<2 ^ 32} \<subseteq> ids m" using full sp(1,2) by auto
      with nz assms(2) val True full show ?thesis by (auto simp: u32_add_def)
    next
      case False
      with es have f: "u32_add (snd e) 1 = snd e + 1" "snd e + 1 < 2 ^ 32" by (simp_all add: u32_add_nowrap)
      have gap: "ys = [] \<or> snd e + 1 < fst (hd ys)"
        using ida_inv_split(4) [OF inv, of "hd ys"] by (cases ys) auto
      note ext = extend_range_spec [OF inv _ f(2) gap]
      have "snd e + 1 \<notin> ids m" using ids_gap [OF inv _ gap] sp(1) by simp
      moreover have "j \<in> ids m" if "d \<le> j" "j < snd e + 1" for j using that sp(1,2) by auto
      moreover have "used (extend_range xs e ys (snd e + 1)) = insert (snd e + 1) (used m)"
        using ext(2) sp(1) by (auto simp: used_def)
      ultimately show ?thesis
        using val True f ext(1) nz assms(2)
        by (intro disjI1 exI [of _ "snd e + 1"] exI [of _ "extend_range xs e ys (snd e + 1)"]) auto
    qed
  next
    case False
    then have lt: "snd e + 1 < d" using assms(2) by simp
    let ?m' = "if prepends ys d then xs @ e # (d, snd (hd ys)) # tl ys else xs @ e # (d, d) # ys"
    note ins = insert_single_spec [OF inv lt assms(3) sp(3) refl]
    have "d \<notin> ids m" using ids_gap [OF inv _ sp(3)] lt sp(1) by simp
    moreover have "used ?m' = insert d (used m)" using ins(2) sp(1) d0 unfolding used_def by auto
    moreover have "IdAllocator_AllocateIDAtOrAbove d m = Inr (d, ?m')" using val False by (simp only: if_False)
    ultimately show ?thesis using ins(1) nz d0 assms(3)
      by (intro disjI1 exI [of _ d] exI [of _ ?m']) (auto simp del: if_split)
  qed
qed

section \<open>Freeing\<close>

lemma ids_after:
  assumes "ida_inv (xs @ e # ys)" "ys = [] \<or> l < fst (hd ys)"
  shows "i \<in> ids ys \<Longrightarrow> l < i" "y \<in> set ys \<Longrightarrow> l < fst y"
proof -
  show b: "l < fst y" if "y \<in> set ys" for y
  proof (cases ys)
    case (Cons z zs)
    have "ida_inv ((xs @ [e]) @ z # zs)" using assms(1) Cons by simp
    from ida_inv_split(1,4) [OF this] that Cons assms(2) show ?thesis by fastforce
  qed (use that in simp)
  show "l < i" if i: "i \<in> ids ys" for i using i b by (fastforce simp: ids_mem)
qed

lemma ids_before:
  assumes "ida_inv (xs @ e # ys)"
  shows "i \<in> ids xs \<Longrightarrow> i + 1 < fst e"
  using ida_inv_split(3) [OF assms] by (fastforce simp: ids_mem)

lemma ida_inv_drop:
  assumes "ida_inv (xs @ e # ys)" "xs \<noteq> []"
  shows "ida_inv (xs @ ys)"
  using assms by (cases xs) (auto simp: ida_inv_def sorted_wrt_append)

lemma ida_inv_cut:
  assumes "ida_inv (xs @ e # ys)" "xs \<noteq> []" "fst e \<le> a" "a \<le> snd e"
  shows "ida_inv (xs @ (a, snd e) # ys)"
proof -
  note sp = ida_inv_split [OF assms(1)]
  have "snd x + 1 < a" if "x \<in> set xs" for x using sp(3) [OF that] assms(3) by simp
  then show ?thesis
    using assms sp by (cases xs) (auto simp: ida_inv_def sorted_wrt_append)
qed

lemma ida_inv_nonzero: "ida_inv (xs @ e # ys) \<Longrightarrow> 0 < fst e \<Longrightarrow> xs \<noteq> []"
  by (auto simp: ida_inv_def)

text \<open>One round frees the part of one range, and the last round finds nothing to free.\<close>

lemma free_round_spec:
  assumes "ida_inv m" "0 < f" "f \<le> l" "l < 2 ^ 32"
  shows "(free_round f l m = None \<and> ids m \<inter> {f..l} = {}) \<or>
    (\<exists>m'. free_round f l m = Some (Inr m') \<and> ida_inv m' \<and> ids m' - {f..l} = ids m - {f..l} \<and>
      card (ids m' \<inter> {f..l}) < card (ids m \<inter> {f..l}))"
proof -
  obtain pre post where lb: "lower_bound l m = (pre, post)" by fastforce
  define trip where "trip = (if post = [] \<or> fst (hd post) > l then (butlast pre, last pre, post) else (pre, hd post, tl post))"
  obtain xs e ys where t: "trip = (xs, e, ys)" by (metis prod_cases3)
  have l0: "0 < l" using assms(2,3) by simp
  note sp = upto_split [OF lb assms(1) l0 t [unfolded trip_def]]
  note inv = assms(1) [unfolded sp(1)]
  note es = ida_inv_split(1,2) [OF inv] and after = ids_after [OF inv sp(3)] and before = ids_before [OF inv]
  have sub: "u32_sub f 1 = f - 1" "f - 1 < f" using assms by (simp_all add: u32_pred)
  have val: "free_round f l m =
      (if snd e < f then None
       else if f \<le> fst e then Some (Inr (if l < snd e then xs @ (u32_add l 1, snd e) # ys else xs @ ys))
       else if snd e \<le> l then Some (Inr (xs @ (fst e, f - 1) # ys))
       else Some (Inr (xs @ (fst e, f - 1) # (u32_add l 1, snd e) # ys)))"
    using lb t sub by (auto simp: free_round_def trip_def [symmetric])
  have step: "card (ids m' \<inter> {f..l}) < card (ids m \<inter> {f..l})" if "ids m' \<inter> {f..l} \<subset> ids m \<inter> {f..l}" for m'
    using that by (intro psubset_card_mono) auto
  consider (none) "snd e < f" | (erase) "f \<le> fst e" "snd e \<le> l" | (tail) "f \<le> fst e" "l < snd e"
    | (trunc) "fst e < f" "f \<le> snd e" "snd e \<le> l" | (split) "fst e < f" "l < snd e" by linarith
  then show ?thesis
  proof cases
    case none
    have "ids m \<inter> {f..l} = {}" using none sp(1) after(1) before es by (fastforce dest: after(1) before)
    with none val show ?thesis by simp
  next
    case erase
    have "xs \<noteq> []" using ida_inv_nonzero [OF inv] erase assms(2) by simp
    note i' = ida_inv_drop [OF inv this]
    have "fst e \<in> ids m \<inter> {f..l}" "fst e \<notin> ids (xs @ ys)"
      using erase es sp(1,2) before [of "fst e"] after(1) [of "fst e"] by auto
    moreover have "ids (xs @ ys) \<subseteq> ids m" using sp(1) by auto
    ultimately have "ids (xs @ ys) \<inter> {f..l} \<subset> ids m \<inter> {f..l}" by blast
    moreover have "ids (xs @ ys) - {f..l} = ids m - {f..l}" using erase sp(1) by auto
    moreover have "free_round f l m = Some (Inr (xs @ ys))" using erase es val by simp
    ultimately show ?thesis using i' step [of "xs @ ys"] by blast
  next
    case tail
    have u: "u32_add l 1 = l + 1" using tail es by (simp add: u32_add_nowrap)
    let ?m' = "xs @ (l + 1, snd e) # ys"
    have "xs \<noteq> []" using ida_inv_nonzero [OF inv] tail assms(2) by simp
    note i' = ida_inv_cut [OF inv this, of "l + 1"]
    have "fst e \<in> ids m \<inter> {f..l}" "fst e \<notin> ids ?m'"
      using tail es sp(1,2) before [of "fst e"] after(1) [of "fst e"] by auto
    moreover have "ids ?m' \<subseteq> ids m" using sp(1,2) by auto
    ultimately have "ids ?m' \<inter> {f..l} \<subset> ids m \<inter> {f..l}" by blast
    moreover have "ids ?m' - {f..l} = ids m - {f..l}" using tail sp(1,2) by auto
    moreover have "free_round f l m = Some (Inr ?m')" using tail es val u by simp
    moreover have "ida_inv ?m'" using i' tail sp(2) by simp
    ultimately show ?thesis using step [of ?m'] by blast
  next
    case trunc
    let ?m' = "xs @ (fst e, f - 1) # ys"
    have i': "ida_inv ?m'"
      using ida_inv_replace [OF inv, of "[(fst e, f - 1)]" ys] after(2) trunc assms by fastforce
    have "f \<in> ids m \<inter> {f..l}" "f \<notin> ids ?m'"
      using trunc es sp(1) before [of f] after(1) [of f] sub assms by auto
    moreover have "ids ?m' \<subseteq> ids m" using trunc sp(1) by auto
    ultimately have "ids ?m' \<inter> {f..l} \<subset> ids m \<inter> {f..l}" by blast
    moreover have "ids ?m' - {f..l} = ids m - {f..l}" using trunc sp(1) sub by auto
    moreover have "free_round f l m = Some (Inr ?m')" using trunc val by simp
    ultimately show ?thesis using i' step [of ?m'] by blast
  next
    case split
    have u: "u32_add l 1 = l + 1" using split es by (simp add: u32_add_nowrap)
    let ?m' = "xs @ (fst e, f - 1) # (l + 1, snd e) # ys"
    have "ida_inv (xs @ [(fst e, f - 1), (l + 1, snd e)] @ ys)"
      by (rule ida_inv_replace [OF inv]) (use split es assms ida_inv_split(4) [OF inv] after(2) in fastforce)+
    then have i': "ida_inv ?m'" by simp
    have "f \<in> ids m \<inter> {f..l}" "f \<notin> ids ?m'"
      using split es sp(1) before [of f] after(1) [of f] sub assms by auto
    moreover have "ids ?m' \<subseteq> ids m" using split sp(1) assms by auto
    ultimately have "ids ?m' \<inter> {f..l} \<subset> ids m \<inter> {f..l}" by blast
    moreover have "ids ?m' - {f..l} = ids m - {f..l}" using split sp(1) sub assms by auto
    moreover have "free_round f l m = Some (Inr ?m')" using split val u assms(3) by simp
    ultimately show ?thesis using i' step [of ?m'] by blast
  qed
qed

lemma free_loop_returns:
  assumes "ida_inv m" "0 < f" "f \<le> l" "l < 2 ^ 32"
  shows "\<exists>m'. free_loop f l m = Some (Inr m') \<and> ida_inv m' \<and> ids m' = ids m - {f..l}"
  using assms(1)
proof (induction "card (ids m \<inter> {f..l})" arbitrary: m rule: less_induct)
  case less
  note unf = free_loop.simps [of f l m]
  from free_round_spec [OF less.prems assms(2-4)] show ?case
  proof
    assume "free_round f l m = None \<and> ids m \<inter> {f..l} = {}"
    with less.prems show ?thesis by (subst unf) auto
  next
    assume "\<exists>m'. free_round f l m = Some (Inr m') \<and> ida_inv m' \<and> ids m' - {f..l} = ids m - {f..l} \<and>
      card (ids m' \<inter> {f..l}) < card (ids m \<inter> {f..l})"
    then obtain m1 where m1: "free_round f l m = Some (Inr m1)" "ida_inv m1" "ids m1 - {f..l} = ids m - {f..l}"
      "card (ids m1 \<inter> {f..l}) < card (ids m \<inter> {f..l})" by blast
    from less.hyps [OF m1(4,2)] obtain m' where "free_loop f l m1 = Some (Inr m')" "ida_inv m'" "ids m' = ids m1 - {f..l}"
      by blast
    with m1 show ?thesis by (subst unf) auto
  qed
qed

theorem FreeIDRange_spec:
  assumes "ida_inv m" "first_id < 2 ^ 32" "rng < 2 ^ 32"
  shows "\<exists>m'. IdAllocator_FreeIDRange first_id rng m = Inr m' \<and> ida_inv m' \<and>
    used m' = used m - {first_id..<first_id + rng}"
proof (cases "rng = 0 \<or> (first_id = 0 \<and> rng = 1)")
  case True
  with assms(1) show ?thesis by (auto simp: IdAllocator_FreeIDRange_def used_def)
next
  case False
  define f where "f = (if first_id = 0 then 1 else first_id)"
  define r where "r = (if first_id = 0 then u32_sub rng 1 else rng)"
  define l where "l = (if u32_sub (u32_add f r) 1 < f then 2 ^ 32 - 1 else u32_sub (u32_add f r) 1)"
  have f: "0 < f" "f < 2 ^ 32" using assms(2) by (auto simp: f_def)
  have r: "0 < r" "r < 2 ^ 32" "f + r = first_id + rng"
    using False assms(3) by (auto simp: r_def f_def u32_pred)
  have l: "l = min (f + r - 1) (2 ^ 32 - 1)"
  proof (cases "f + r \<le> 2 ^ 32")
    case True
    with u32_add_sub_one [of f r] f have "u32_sub (u32_add f r) 1 = f + r - 1" by simp
    with True f r(1) show ?thesis by (auto simp: l_def)
  next
    case gt: False
    then have "u32_add f r = f + r - 2 ^ 32" using f r by (simp add: u32_add_def mod_if)
    moreover from this gt f r have "u32_sub (u32_add f r) 1 = f + r - 2 ^ 32 - 1" by (simp add: u32_pred)
    ultimately show ?thesis using gt f r by (auto simp: l_def)
  qed
  have fl: "f \<le> l" "l < 2 ^ 32" using l f r by auto
  obtain m' where m': "free_loop f l m = Some (Inr m')" "ida_inv m'" "ids m' = ids m - {f..l}"
    using free_loop_returns [OF assms(1) f(1) fl] by blast
  have "IdAllocator_FreeIDRange first_id rng m = returning (free_loop f l m)"
    using False by (simp only: IdAllocator_FreeIDRange_def Let_def f_def r_def l_def if_False)
  then have "IdAllocator_FreeIDRange first_id rng m = Inr m'" using m'(1) by simp
  moreover have "used m' = used m - {first_id..<first_id + rng}"
  proof -
    have "i < 2 ^ 32" if "i \<in> ids m" for i using that assms(1) by (force simp: ids_mem ida_inv_def)
    then have "ids m - {f..l} - {0} = ids m - {first_id..<first_id + rng} - {0}"
      using l r(3) by (auto simp: f_def split: if_splits) force+
    then show ?thesis using m'(3) by (auto simp: used_def)
  qed
  ultimately show ?thesis using m'(2) by blast
qed

section \<open>The interface\<close>

text \<open>
  What the users of an id allocator rely on, over the set of ids in use: allocation gives a
  fresh id or, when all are in use, 0; freeing gives back exactly one id.
\<close>

locale id_pool =
  fixes alloc :: "'m \<Rightarrow> (u32 \<times> 'm) res" and free :: "u32 \<Rightarrow> 'm \<Rightarrow> 'm res"
    and in_use :: "u32 \<Rightarrow> 'm \<Rightarrow> bool" and inv :: "'m \<Rightarrow> bool"
  assumes alloc: "inv m \<Longrightarrow> \<exists>i m'. alloc m = Inr (i, m') \<and> inv m' \<and>
      ((i = 0 \<and> m' = m \<and> (\<forall>j. 0 < j \<and> j < 2 ^ 32 \<longrightarrow> in_use j m)) \<or>
       (0 < i \<and> i < 2 ^ 32 \<and> \<not> in_use i m \<and> (\<forall>j. in_use j m' \<longleftrightarrow> j = i \<or> in_use j m)))"
    and free: "inv m \<Longrightarrow> i < 2 ^ 32 \<Longrightarrow>
      \<exists>m'. free i m = Inr m' \<and> inv m' \<and> (\<forall>j. in_use j m' \<longleftrightarrow> in_use j m \<and> j \<noteq> i)"
begin

lemma alloc_fresh:
  assumes "inv m" "alloc m = Inr (i, m')" "i \<noteq> 0"
  shows "inv m'" "0 < i" "i < 2 ^ 32" "\<not> in_use i m" "in_use j m' \<longleftrightarrow> j = i \<or> in_use j m"
  using alloc [OF assms(1)] assms(2,3) by auto

lemma alloc_free_round_trip:
  assumes "inv m" "alloc m = Inr (i, m1)" "i \<noteq> 0"
  shows "\<exists>m2. free i m1 = Inr m2 \<and> inv m2 \<and> (\<forall>j. in_use j m2 \<longleftrightarrow> in_use j m)"
  using free [OF alloc_fresh(1,3) [OF assms]] alloc_fresh(4,5) [OF assms] by auto

lemma alloc_again:
  assumes "inv m" "alloc m = Inr (i, m1)" "i \<noteq> 0" "alloc m1 = Inr (k, m2)" "k \<noteq> 0"
  shows "i \<noteq> k" "in_use i m2" "in_use k m2"
  using alloc_fresh [OF assms(1-3)] alloc_fresh(4,5) [OF alloc_fresh(1) [OF assms(1-3)] assms(4,5)] by auto

end

interpretation ida: id_pool IdAllocator_AllocateID IdAllocator_FreeID IdAllocator_InUse ida_inv
proof
  fix m assume m: "ida_inv m"
  show "\<exists>i m'. IdAllocator_AllocateID m = Inr (i, m') \<and> ida_inv m' \<and>
      ((i = 0 \<and> m' = m \<and> (\<forall>j. 0 < j \<and> j < 2 ^ 32 \<longrightarrow> IdAllocator_InUse j m)) \<or>
       (0 < i \<and> i < 2 ^ 32 \<and> \<not> IdAllocator_InUse i m \<and>
        (\<forall>j. IdAllocator_InUse j m' \<longleftrightarrow> j = i \<or> IdAllocator_InUse j m)))"
  proof (rule AllocateIDRange_spec [OF m, of 1])
    assume "IdAllocator_AllocateIDRange 1 m = Inr (0, m)"
      and full: "\<And>j. 0 < j \<Longrightarrow> j + 1 \<le> 2 ^ 32 \<Longrightarrow> {j..<j + 1} \<inter> used m \<noteq> {}"
    moreover have "j \<in> used m" if "0 < j" "j < 2 ^ 32" for j using full [of j] that by auto
    ultimately show ?thesis using m by (simp add: IdAllocator_AllocateID_def InUse_iff)
  next
    fix i m'
    assume a: "IdAllocator_AllocateIDRange 1 m = Inr (i, m')" "0 < i" "i + 1 \<le> 2 ^ 32" "ida_inv m'"
      "{i..<i + 1} \<inter> used m = {}" "used m' = used m \<union> {i..<i + 1}"
    then have "i < 2 ^ 32" "i \<notin> used m" by auto
    with a m show ?thesis by (auto simp: IdAllocator_AllocateID_def InUse_iff)
  qed simp_all
next
  fix m and i :: nat assume "ida_inv m" "i < 2 ^ 32"
  from FreeIDRange_spec [OF this, of 1] this(1)
  show "\<exists>m'. IdAllocator_FreeID i m = Inr m' \<and> ida_inv m' \<and>
      (\<forall>j. IdAllocator_InUse j m' \<longleftrightarrow> IdAllocator_InUse j m \<and> j \<noteq> i)"
    by (fastforce simp: IdAllocator_FreeID_def InUse_iff)
qed

end
