(* ===== verification/Gpu_Buffer.thy ===== *)
theory Gpu_Buffer
  imports Prelude
begin

text \<open>
  \<^verbatim>\<open>gpu/command_buffer/common/buffer.{h,cc}\<close> and
  \<^verbatim>\<open>gpu/command_buffer/service/transfer_buffer_manager.{h,cc}\<close>: the memory client and service
  share, the bounds checks on it, and the registry that gives a transfer buffer its id.

  Memory is an explicit store: a list of blocks of bytes, one per backing. A
  \<^verbatim>\<open>scoped_refptr<Buffer>\<close> is a record with the position of its block in the store, so two holders
  of the same buffer see each other's writes. Blocks are never removed from the store: a buffer
  that is destroyed in the registry stays valid for whoever still holds a reference. The
  addresses of the blocks are not modelled (\<^verbatim>\<open>new char[]\<close> returns memory aligned for any entry).
\<close>

section \<open>Bytes\<close>

type_synonym bytes = "nat list"
type_synonym heap = "bytes list"

text \<open>A pointer into the store: a block and an offset in bytes.\<close>

type_synonym pointer = "nat \<times> nat"

text \<open>\<^verbatim>\<open>memcpy\<close> of four bytes to and from a \<^verbatim>\<open>uint32_t\<close>, little endian.\<close>

definition StoreU32Unaligned :: "u32 \<Rightarrow> bytes" where
  "StoreU32Unaligned v = [v mod 256, v div 2 ^ 8 mod 256, v div 2 ^ 16 mod 256, v div 2 ^ 24 mod 256]"

definition LoadU32Unaligned :: "bytes \<Rightarrow> u32" where
  "LoadU32Unaligned bs =
     (case bs of b0 # b1 # b2 # b3 # _ \<Rightarrow> b0 + 2 ^ 8 * b1 + 2 ^ 16 * b2 + 2 ^ 24 * b3 | _ \<Rightarrow> 0)"

definition read_bytes :: "heap \<Rightarrow> pointer \<Rightarrow> nat \<Rightarrow> bytes" where
  "read_bytes hp p n = take n (drop (snd p) (hp ! fst p))"

definition overwrite :: "'a list \<Rightarrow> nat \<Rightarrow> 'a list \<Rightarrow> 'a list" where
  "overwrite xs i ys = take i xs @ ys @ drop (i + length ys) xs"

definition write_bytes :: "heap \<Rightarrow> pointer \<Rightarrow> bytes \<Rightarrow> heap" where
  "write_bytes hp p bs = hp[fst p := overwrite (hp ! fst p) (snd p) bs]"

lemma Load_Store_U32:
  assumes "v < 2 ^ 32"
  shows "LoadU32Unaligned (StoreU32Unaligned v @ bs) = v"
proof -
  define a b c where "a = v div 256" and "b = a div 256" and "c = b div 256"
  have d: "v div 2 ^ 8 = a" "v div 2 ^ 16 = b" "v div 2 ^ 24 = c"
    by (simp_all add: a_def b_def c_def div_mult2_eq [symmetric])
  have "c mod 256 = c"
    using assms by (simp add: d(3) [symmetric] less_mult_imp_div_less)
  moreover have "v = v mod 256 + 256 * a" "a = a mod 256 + 256 * b" "b = b mod 256 + 256 * c"
    by (simp_all add: a_def b_def c_def)
  ultimately show ?thesis
    by (simp add: LoadU32Unaligned_def StoreU32Unaligned_def d del: power_numeral) simp
qed

lemma length_StoreU32 [simp]: "length (StoreU32Unaligned v) = 4"
  by (simp add: StoreU32Unaligned_def)

lemma LoadU32_take: "LoadU32Unaligned (take 4 bs) = LoadU32Unaligned bs"
  by (auto simp: LoadU32Unaligned_def take_Cons' split: list.splits)

lemma length_overwrite [simp]: "i + length ys \<le> length xs \<Longrightarrow> length (overwrite xs i ys) = length xs"
  by (simp add: overwrite_def)

lemma overwrite_same:
  "i + length ys \<le> length xs \<Longrightarrow> take (length ys) (drop i (overwrite xs i ys)) = ys"
  by (simp add: overwrite_def)

lemma overwrite_nth:
  assumes "i + length ys \<le> length xs" "j < length xs"
  shows "overwrite xs i ys ! j = (if i \<le> j \<and> j < i + length ys then ys ! (j - i) else xs ! j)"
  using assms by (auto simp: overwrite_def nth_append)

lemma overwrite_other:
  assumes "i + length ys \<le> length xs" "regions_disjoint i (length ys) j n"
  shows "take n (drop j (overwrite xs i ys)) = take n (drop j xs)"
  by (rule nth_equalityI) (use assms in \<open>auto simp: overwrite_nth regions_disjoint_def\<close>)

lemma read_write_same:
  assumes "fst p < length hp" "snd p + length bs \<le> length (hp ! fst p)"
  shows "read_bytes (write_bytes hp p bs) p (length bs) = bs"
  using assms by (simp add: read_bytes_def write_bytes_def overwrite_same)

lemma read_write_other:
  assumes "snd p + length bs \<le> length (hp ! fst p)"
    and "fst p = fst q \<Longrightarrow> regions_disjoint (snd p) (length bs) (snd q) n"
  shows "read_bytes (write_bytes hp p bs) q n = read_bytes hp q n"
  using assms by (cases "fst p < length hp"; cases "fst p = fst q")
    (auto simp: read_bytes_def write_bytes_def overwrite_other list_update_beyond)

section \<open>Buffer\<close>

record gpu_buffer =
  buf_memory :: nat
  buf_size :: u32

definition Buffer_GetDataAddress :: "gpu_buffer \<Rightarrow> u32 \<Rightarrow> u32 \<Rightarrow> pointer option" where
  "Buffer_GetDataAddress b data_offset data_size =
     (if \<not> data_offset + data_size < 2 ^ 32 \<or> data_offset + data_size > buf_size b then None
      else Some (buf_memory b, data_offset))"

definition Buffer_GetRemainingSize :: "gpu_buffer \<Rightarrow> u32 \<Rightarrow> u32" where
  "Buffer_GetRemainingSize b data_offset =
     (if data_offset > buf_size b then 0 else u32_sub (buf_size b) data_offset)"

text \<open>The pointer with the value stored through \<^verbatim>\<open>data_size\<close>.\<close>

definition Buffer_GetDataAddressAndSize :: "gpu_buffer \<Rightarrow> u32 \<Rightarrow> (pointer \<times> u32) option" where
  "Buffer_GetDataAddressAndSize b data_offset =
     (if data_offset > buf_size b then None
      else Some ((buf_memory b, data_offset), Buffer_GetRemainingSize b data_offset))"

text \<open>\<^verbatim>\<open>MakeMemoryBuffer\<close>: a new block in the store (its contents are not initialised by the code).\<close>

definition MakeMemoryBuffer :: "u32 \<Rightarrow> heap \<Rightarrow> gpu_buffer \<times> heap" where
  "MakeMemoryBuffer sz hp = (\<lparr>buf_memory = length hp, buf_size = sz\<rparr>, hp @ [replicate sz 0])"

definition buffer_ok :: "heap \<Rightarrow> gpu_buffer \<Rightarrow> bool" where
  "buffer_ok hp b \<longleftrightarrow> buf_memory b < length hp \<and> length (hp ! buf_memory b) = buf_size b \<and> buf_size b < 2 ^ 32"

lemma GetDataAddress_in_bounds:
  assumes "Buffer_GetDataAddress b off sz = Some p" "buffer_ok hp b"
  shows "fst p = buf_memory b \<and> snd p = off \<and> fst p < length hp \<and> off + sz \<le> length (hp ! fst p)"
  using assms by (auto simp: Buffer_GetDataAddress_def buffer_ok_def split: if_splits)

lemma GetDataAddress_iff:
  "buf_size b < 2 ^ 32 \<Longrightarrow> (\<exists>p. Buffer_GetDataAddress b off sz = Some p) \<longleftrightarrow> off + sz \<le> buf_size b"
  by (auto simp: Buffer_GetDataAddress_def)

lemma GetDataAddressAndSize_agrees:
  assumes "buf_size b < 2 ^ 32" "Buffer_GetDataAddressAndSize b off = Some (p, n)"
  shows "Buffer_GetDataAddress b off n = Some p \<and> (\<forall>m > n. Buffer_GetDataAddress b off m = None)"
  using assms by (auto simp: Buffer_GetDataAddressAndSize_def Buffer_GetDataAddress_def
      Buffer_GetRemainingSize_def u32_sub_nowrap split: if_splits)

lemma buffer_ok_write [simp]:
  "snd p + length bs \<le> length (hp ! fst p) \<Longrightarrow> buffer_ok (write_bytes hp p bs) b \<longleftrightarrow> buffer_ok hp b"
  by (cases "fst p < length hp") (auto simp: buffer_ok_def write_bytes_def nth_list_update)

lemma buffer_ok_append [simp]: "buffer_ok hp b \<Longrightarrow> buffer_ok (hp @ hps) b"
  by (auto simp: buffer_ok_def nth_append)

lemma MakeMemoryBuffer_ok: "sz < 2 ^ 32 \<Longrightarrow> MakeMemoryBuffer sz hp = (b, hp') \<Longrightarrow> buffer_ok hp' b"
  by (auto simp: MakeMemoryBuffer_def buffer_ok_def)

section \<open>TransferBufferManager\<close>

text \<open>\<^verbatim>\<open>registered_buffers_\<close> is a \<^verbatim>\<open>base::flat_map\<close>: an association list with distinct keys.\<close>

record transfer_buffer_manager =
  registered_buffers :: "(i32 \<times> gpu_buffer) list"
  shared_memory_bytes_allocated :: nat

definition new_TransferBufferManager :: transfer_buffer_manager where
  "new_TransferBufferManager = \<lparr>registered_buffers = [], shared_memory_bytes_allocated = 0\<rparr>"

definition TransferBufferManager_RegisterTransferBuffer ::
  "i32 \<Rightarrow> gpu_buffer \<Rightarrow> transfer_buffer_manager \<Rightarrow> bool \<times> transfer_buffer_manager" where
  "TransferBufferManager_RegisterTransferBuffer bid buffer m =
     (if bid \<le> 0 then (False, m)
      else if map_of (registered_buffers m) bid \<noteq> None then (False, m)
      else (True, m\<lparr>shared_memory_bytes_allocated := shared_memory_bytes_allocated m + buf_size buffer,
                     registered_buffers := (bid, buffer) # registered_buffers m\<rparr>))"

definition TransferBufferManager_DestroyTransferBuffer ::
  "i32 \<Rightarrow> transfer_buffer_manager \<Rightarrow> transfer_buffer_manager res" where
  "TransferBufferManager_DestroyTransferBuffer bid m =
     (case map_of (registered_buffers m) bid of
        None \<Rightarrow> Inr m
      | Some b \<Rightarrow>
          dcheck (shared_memory_bytes_allocated m \<ge> buf_size b)
            (Inr (m\<lparr>shared_memory_bytes_allocated := shared_memory_bytes_allocated m - buf_size b,
                    registered_buffers := filter (\<lambda>e. fst e \<noteq> bid) (registered_buffers m)\<rparr>)))"

definition TransferBufferManager_GetTransferBuffer ::
  "i32 \<Rightarrow> transfer_buffer_manager \<Rightarrow> gpu_buffer option" where
  "TransferBufferManager_GetTransferBuffer bid m =
     (if bid = 0 then None else map_of (registered_buffers m) bid)"

text \<open>The destructor drops the buffers one by one and then asserts that no byte is left.\<close>

fun drop_registered :: "(i32 \<times> gpu_buffer) list \<Rightarrow> nat \<Rightarrow> nat res" where
  "drop_registered [] n = dcheck (n = 0) (Inr n)"
| "drop_registered (e # es) n = dcheck (n \<ge> buf_size (snd e)) (drop_registered es (n - buf_size (snd e)))"

definition delete_TransferBufferManager :: "transfer_buffer_manager \<Rightarrow> nat res" where
  "delete_TransferBufferManager m = drop_registered (registered_buffers m) (shared_memory_bytes_allocated m)"

subsection \<open>Invariant and laws\<close>

definition tbm_inv :: "transfer_buffer_manager \<Rightarrow> bool" where
  "tbm_inv m \<longleftrightarrow> distinct (map fst (registered_buffers m)) \<and> (\<forall>e \<in> set (registered_buffers m). 0 < fst e) \<and>
     shared_memory_bytes_allocated m = sum_list (map (buf_size \<circ> snd) (registered_buffers m))"

lemma sum_list_remove:
  "distinct (map fst es) \<Longrightarrow> map_of es k = Some b \<Longrightarrow>
     sum_list (map (buf_size \<circ> snd) es) =
       buf_size b + sum_list (map (buf_size \<circ> snd) (filter (\<lambda>e. fst e \<noteq> k) es))"
proof (induction es)
  case (Cons e es)
  show ?case
  proof (cases "fst e = k")
    case True
    with Cons.prems(1) have "filter (\<lambda>e. fst e \<noteq> k) es = es"
      by (auto simp: filter_id_conv image_iff)
    with True Cons.prems show ?thesis by simp
  qed (use Cons in auto)
qed simp

lemma map_of_filter_ne: "map_of (filter (\<lambda>e. fst e \<noteq> k) es) = (map_of es)(k := None)"
  by (induction es) auto

lemma new_TransferBufferManager_inv: "tbm_inv new_TransferBufferManager"
  by (simp add: tbm_inv_def new_TransferBufferManager_def)

lemma RegisterTransferBuffer_spec:
  assumes "tbm_inv m" "TransferBufferManager_RegisterTransferBuffer bid b m = (ok, m')"
  shows "tbm_inv m'" "ok \<longleftrightarrow> 0 < bid \<and> TransferBufferManager_GetTransferBuffer bid m = None"
    "TransferBufferManager_GetTransferBuffer k m' =
       (if ok \<and> k = bid then Some b else TransferBufferManager_GetTransferBuffer k m)"
  using assms
  by (auto simp: tbm_inv_def TransferBufferManager_RegisterTransferBuffer_def
      TransferBufferManager_GetTransferBuffer_def map_of_eq_None_iff split: if_splits)

lemma DestroyTransferBuffer_spec:
  assumes "tbm_inv m"
  shows "\<exists>m'. TransferBufferManager_DestroyTransferBuffer bid m = Inr m' \<and> tbm_inv m' \<and>
    (\<forall>k. TransferBufferManager_GetTransferBuffer k m' =
       (if k = bid then None else TransferBufferManager_GetTransferBuffer k m))"
proof (cases "map_of (registered_buffers m) bid")
  case None
  with assms show ?thesis
    by (auto simp: TransferBufferManager_DestroyTransferBuffer_def TransferBufferManager_GetTransferBuffer_def)
next
  case (Some b)
  have "sum_list (map (buf_size \<circ> snd) (registered_buffers m)) = buf_size b +
      sum_list (map (buf_size \<circ> snd) (filter (\<lambda>e. fst e \<noteq> bid) (registered_buffers m)))"
    using sum_list_remove [OF _ Some] assms by (simp add: tbm_inv_def)
  moreover have "distinct (map fst (filter (\<lambda>e. fst e \<noteq> bid) (registered_buffers m)))"
    using assms by (simp add: tbm_inv_def distinct_map_filter)
  ultimately show ?thesis
    using Some assms
    by (auto simp: TransferBufferManager_DestroyTransferBuffer_def TransferBufferManager_GetTransferBuffer_def
        tbm_inv_def map_of_filter_ne)
qed

lemma drop_registered_returns:
  "n = sum_list (map (buf_size \<circ> snd) es) \<Longrightarrow> drop_registered es n = Inr 0"
  by (induction es arbitrary: n) auto

lemma delete_TransferBufferManager_returns:
  "tbm_inv m \<Longrightarrow> delete_TransferBufferManager m = Inr 0"
  by (simp add: tbm_inv_def delete_TransferBufferManager_def drop_registered_returns)

text \<open>
  The interface the service and the decoders rely on: a registry of buffers by id, with lookup,
  insertion of fresh positive ids and removal.
\<close>

locale buffer_registry =
  fixes reg :: "i32 \<Rightarrow> gpu_buffer \<Rightarrow> 'm \<Rightarrow> bool \<times> 'm"
    and destroy :: "i32 \<Rightarrow> 'm \<Rightarrow> 'm res"
    and get :: "i32 \<Rightarrow> 'm \<Rightarrow> gpu_buffer option"
    and inv :: "'m \<Rightarrow> bool"
  assumes reg_inv: "inv m \<Longrightarrow> inv (snd (reg bid b m))"
    and reg_ok: "inv m \<Longrightarrow> fst (reg bid b m) \<longleftrightarrow> 0 < bid \<and> get bid m = None"
    and reg_get: "inv m \<Longrightarrow> get k (snd (reg bid b m)) = (if fst (reg bid b m) \<and> k = bid then Some b else get k m)"
    and destroy_get: "inv m \<Longrightarrow> \<exists>m'. destroy bid m = Inr m' \<and> inv m' \<and> get bid m' = None \<and> (\<forall>k. k \<noteq> bid \<longrightarrow> get k m' = get k m)"
begin

lemma reg_destroy_round_trip:
  assumes "inv m" "0 < bid" "get bid m = None"
  shows "\<exists>m'. destroy bid (snd (reg bid b m)) = Inr m' \<and> inv m' \<and> (\<forall>k. get k m' = get k m)"
proof -
  obtain m' where "destroy bid (snd (reg bid b m)) = Inr m'" "inv m'" "get bid m' = None"
    "\<forall>k. k \<noteq> bid \<longrightarrow> get k m' = get k (snd (reg bid b m))"
    using destroy_get [OF reg_inv [OF assms(1)]] by blast
  moreover from this(3,4) have "get k m' = get k m" for k
    using reg_get [OF assms(1), of k bid b] assms(3) by (cases "k = bid") auto
  ultimately show ?thesis by blast
qed

lemma reg_twice:
  assumes "inv m" "fst (reg bid b m)"
  shows "\<not> fst (reg bid c (snd (reg bid b m)))" "get bid (snd (reg bid b m)) = Some b"
proof -
  show "get bid (snd (reg bid b m)) = Some b" using reg_get [OF assms(1), of bid bid b] assms(2) by simp
  then show "\<not> fst (reg bid c (snd (reg bid b m)))" using reg_ok [OF reg_inv [OF assms(1)]] by simp
qed

end

interpretation tbm: buffer_registry TransferBufferManager_RegisterTransferBuffer
  TransferBufferManager_DestroyTransferBuffer TransferBufferManager_GetTransferBuffer tbm_inv
proof
  fix m bid b k
  assume m: "tbm_inv m"
  let ?r = "TransferBufferManager_RegisterTransferBuffer bid b m"
  note spec = RegisterTransferBuffer_spec [OF m, of bid b "fst ?r" "snd ?r"]
  show "tbm_inv (snd ?r)" using spec by simp
  show "fst ?r \<longleftrightarrow> 0 < bid \<and> TransferBufferManager_GetTransferBuffer bid m = None" using spec by simp
  show "TransferBufferManager_GetTransferBuffer k (snd ?r) =
      (if fst ?r \<and> k = bid then Some b else TransferBufferManager_GetTransferBuffer k m)"
    using spec(3) [of k] by simp
  show "\<exists>m'. TransferBufferManager_DestroyTransferBuffer bid m = Inr m' \<and> tbm_inv m' \<and>
      TransferBufferManager_GetTransferBuffer bid m' = None \<and>
      (\<forall>k. k \<noteq> bid \<longrightarrow> TransferBufferManager_GetTransferBuffer k m' = TransferBufferManager_GetTransferBuffer k m)"
    using DestroyTransferBuffer_spec [OF m, of bid] by auto
qed

end
