(* ===== verification/Command_Format.thy ===== *)
theory Command_Format
  imports Gpu_Buffer
begin

text \<open>
  \<^verbatim>\<open>gpu/command_buffer/common/cmd_buffer_common.{h,cc}\<close>: the format of the command stream. A
  command is a header entry with its size in entries and its id, followed by its arguments, one
  32-bit entry each. Each \<^verbatim>\<open>Init\<close> of a command structure is the list of entries it stores at the
  command's address; the readers of the decoder take the fields back from the memory.
\<close>

section \<open>Entries and headers\<close>

datatype arg_flags = kFixed | kAtLeastN

definition ComputeNumEntries :: "nat \<Rightarrow> u32" where
  "ComputeNumEntries size_in_bytes = ((size_in_bytes + 4 - 1) div 4) mod 2 ^ 32"

definition RoundSizeToMultipleOfEntries :: "nat \<Rightarrow> nat" where
  "RoundSizeToMultipleOfEntries size_in_bytes = ComputeNumEntries size_in_bytes * 4"

definition kCommandBufferEntrySize :: nat where
  "kCommandBufferEntrySize = 4"

definition kMaxSize :: i32 where
  "kMaxSize = 2 ^ 21 - 1"

record command_header =
  hdr_size :: nat
  hdr_command :: nat

text \<open>The bit-fields keep the low 21 and 11 bits of what is stored in them.\<close>

definition CommandHeader_Init :: "u32 \<Rightarrow> i32 \<Rightarrow> command_header res" where
  "CommandHeader_Init command sz =
     dcheck (sz \<le> kMaxSize)
       (Inr \<lparr>hdr_size = u32_of_int sz mod 2 ^ 21, hdr_command = command mod 2 ^ 11\<rparr>)"

text \<open>The header as the entry it occupies: the size in the low 21 bits.\<close>

definition header_entry :: "command_header \<Rightarrow> u32" where
  "header_entry h = hdr_size h + 2 ^ 21 * hdr_command h"

definition value_header :: "u32 \<Rightarrow> command_header" where
  "value_header e = \<lparr>hdr_size = e mod 2 ^ 21, hdr_command = e div 2 ^ 21 mod 2 ^ 11\<rparr>"

text \<open>Entry \<open>i\<close> after a pointer to entries, and storing entries there.\<close>

definition read_entry :: "heap \<Rightarrow> pointer \<Rightarrow> nat \<Rightarrow> u32" where
  "read_entry hp p i = LoadU32Unaligned (read_bytes hp (fst p, snd p + 4 * i) 4)"

definition write_entries :: "heap \<Rightarrow> pointer \<Rightarrow> u32 list \<Rightarrow> heap" where
  "write_entries hp p es = write_bytes hp p (concat (map StoreU32Unaligned es))"

section \<open>Common commands\<close>

datatype command_id = kNoop | kSetToken | kSetBucketSize | kSetBucketData | kSetBucketDataImmediate
  | kGetBucketStart | kGetBucketData | kInsertFenceSync

definition COMMON_COMMAND_BUFFER_CMDS :: "command_id list" where
  "COMMON_COMMAND_BUFFER_CMDS = [kNoop, kSetToken, kSetBucketSize, kSetBucketData,
     kSetBucketDataImmediate, kGetBucketStart, kGetBucketData, kInsertFenceSync]"

fun kCmdId :: "command_id \<Rightarrow> nat" where
  "kCmdId kNoop = 0"
| "kCmdId kSetToken = 1"
| "kCmdId kSetBucketSize = 2"
| "kCmdId kSetBucketData = 3"
| "kCmdId kSetBucketDataImmediate = 4"
| "kCmdId kGetBucketStart = 5"
| "kCmdId kGetBucketData = 6"
| "kCmdId kInsertFenceSync = 7"

definition kLastCommonId :: nat where
  "kLastCommonId = 255"

fun command_name :: "command_id \<Rightarrow> string" where
  "command_name kNoop = ''Noop''"
| "command_name kSetToken = ''SetToken''"
| "command_name kSetBucketSize = ''SetBucketSize''"
| "command_name kSetBucketData = ''SetBucketData''"
| "command_name kSetBucketDataImmediate = ''SetBucketDataImmediate''"
| "command_name kGetBucketStart = ''GetBucketStart''"
| "command_name kGetBucketData = ''GetBucketData''"
| "command_name kInsertFenceSync = ''InsertFenceSync''"

definition GetCommandName :: "int \<Rightarrow> string" where
  "GetCommandName command_id =
     (if 0 \<le> command_id \<and> command_id < int (length COMMON_COMMAND_BUFFER_CMDS)
      then command_name (COMMON_COMMAND_BUFFER_CMDS ! nat command_id) else ''*unknown-command*'')"

text \<open>\<^verbatim>\<open>sizeof\<close> and \<^verbatim>\<open>kArgFlags\<close> of the command structures.\<close>

fun sizeof_command :: "command_id \<Rightarrow> nat" where
  "sizeof_command kNoop = 4"
| "sizeof_command kSetToken = 8"
| "sizeof_command kSetBucketSize = 12"
| "sizeof_command kSetBucketData = 24"
| "sizeof_command kSetBucketDataImmediate = 16"
| "sizeof_command kGetBucketStart = 28"
| "sizeof_command kGetBucketData = 24"
| "sizeof_command kInsertFenceSync = 12"

fun kArgFlags :: "command_id \<Rightarrow> arg_flags" where
  "kArgFlags kNoop = kAtLeastN"
| "kArgFlags kSetBucketDataImmediate = kAtLeastN"
| "kArgFlags _ = kFixed"

text \<open>\<^verbatim>\<open>SetCmd\<close> and \<^verbatim>\<open>SetCmdBySize\<close>: the header of a fixed command, or of one with data after it.\<close>

definition CommandHeader_SetCmd :: "command_id \<Rightarrow> command_header res" where
  "CommandHeader_SetCmd c =
     CommandHeader_Init (kCmdId c) (i32_of_u32 (ComputeNumEntries (sizeof_command c)))"

definition CommandHeader_SetCmdBySize :: "command_id \<Rightarrow> u32 \<Rightarrow> command_header res" where
  "CommandHeader_SetCmdBySize c size_of_data_in_bytes =
     CommandHeader_Init (kCmdId c)
       (i32_of_u32 (ComputeNumEntries (sizeof_command c + size_of_data_in_bytes)))"

definition CommandHeader_SetCmdByTotalSize :: "command_id \<Rightarrow> u32 \<Rightarrow> command_header res" where
  "CommandHeader_SetCmdByTotalSize c size_in_bytes =
     dcheck (size_in_bytes \<ge> sizeof_command c)
       (CommandHeader_Init (kCmdId c) (i32_of_u32 (ComputeNumEntries size_in_bytes)))"

definition Noop_Init :: "u32 \<Rightarrow> u32 list res" where
  "Noop_Init skip_count =
     dcheck (skip_count > 0)
       (res_bind (CommandHeader_Init (kCmdId kNoop) (i32_of_u32 skip_count))
         (\<lambda>h. Inr [header_entry h]))"

definition SetToken_Init :: "u32 \<Rightarrow> u32 list res" where
  "SetToken_Init token = res_bind (CommandHeader_SetCmd kSetToken) (\<lambda>h. Inr [header_entry h, token])"

definition SetBucketSize_Init :: "u32 \<Rightarrow> u32 \<Rightarrow> u32 list res" where
  "SetBucketSize_Init bucket_id sz =
     res_bind (CommandHeader_SetCmd kSetBucketSize) (\<lambda>h. Inr [header_entry h, bucket_id, sz])"

definition SetBucketData_Init :: "u32 \<Rightarrow> u32 \<Rightarrow> u32 \<Rightarrow> u32 \<Rightarrow> u32 \<Rightarrow> u32 list res" where
  "SetBucketData_Init bucket_id offset sz shared_memory_id shared_memory_offset =
     res_bind (CommandHeader_SetCmd kSetBucketData)
       (\<lambda>h. Inr [header_entry h, bucket_id, offset, sz, shared_memory_id, shared_memory_offset])"

definition SetBucketDataImmediate_Init :: "u32 \<Rightarrow> u32 \<Rightarrow> u32 \<Rightarrow> u32 list res" where
  "SetBucketDataImmediate_Init bucket_id offset sz =
     res_bind (CommandHeader_SetCmdBySize kSetBucketDataImmediate sz)
       (\<lambda>h. Inr [header_entry h, bucket_id, offset, sz])"

definition GetBucketStart_Init :: "u32 \<Rightarrow> u32 \<Rightarrow> u32 \<Rightarrow> u32 \<Rightarrow> u32 \<Rightarrow> u32 \<Rightarrow> u32 list res" where
  "GetBucketStart_Init bucket_id result_memory_id result_memory_offset
       data_memory_size data_memory_id data_memory_offset =
     res_bind (CommandHeader_SetCmd kGetBucketStart)
       (\<lambda>h. Inr [header_entry h, bucket_id, result_memory_id, result_memory_offset,
                  data_memory_size, data_memory_id, data_memory_offset])"

definition GetBucketData_Init :: "u32 \<Rightarrow> u32 \<Rightarrow> u32 \<Rightarrow> u32 \<Rightarrow> u32 \<Rightarrow> u32 list res" where
  "GetBucketData_Init bucket_id offset sz shared_memory_id shared_memory_offset =
     res_bind (CommandHeader_SetCmd kGetBucketData)
       (\<lambda>h. Inr [header_entry h, bucket_id, offset, sz, shared_memory_id, shared_memory_offset])"

definition InsertFenceSync_Init :: "u64 \<Rightarrow> u32 list res" where
  "InsertFenceSync_Init release_count =
     res_bind (CommandHeader_SetCmd kInsertFenceSync)
       (\<lambda>h. Inr [header_entry h, release_count mod 2 ^ 32, release_count div 2 ^ 32 mod 2 ^ 32])"

definition InsertFenceSync_release_count :: "u32 \<Rightarrow> u32 \<Rightarrow> u64" where
  "InsertFenceSync_release_count release_count_0 release_count_1 =
     (release_count_1 * 2 ^ 32 + release_count_0) mod 2 ^ 64"

text \<open>
  The addresses after a command (\<^verbatim>\<open>cmd_buffer_common.h\<close>), and \<^verbatim>\<open>Set\<close>, which initialises a command in
  place and returns the address of the next one.
\<close>

definition ImmediateDataAddress :: "command_id \<Rightarrow> pointer \<Rightarrow> pointer res" where
  "ImmediateDataAddress c cmd =
     dcheck (kArgFlags c = kAtLeastN) (Inr (fst cmd, snd cmd + sizeof_command c))"

definition NextCmdAddress :: "command_id \<Rightarrow> pointer \<Rightarrow> pointer" where
  "NextCmdAddress c cmd = (fst cmd, snd cmd + sizeof_command c)"

definition NextImmediateCmdAddress :: "command_id \<Rightarrow> pointer \<Rightarrow> u32 \<Rightarrow> pointer" where
  "NextImmediateCmdAddress c cmd size_of_data_in_bytes =
     (fst cmd, snd cmd + sizeof_command c + RoundSizeToMultipleOfEntries size_of_data_in_bytes)"

definition NextImmediateCmdAddressTotalSize :: "command_id \<Rightarrow> pointer \<Rightarrow> u32 \<Rightarrow> pointer res" where
  "NextImmediateCmdAddressTotalSize c cmd total_size_in_bytes =
     dcheck (total_size_in_bytes \<ge> sizeof_command c)
       (Inr (fst cmd, snd cmd + RoundSizeToMultipleOfEntries total_size_in_bytes))"

definition cmd_set :: "u32 list res \<Rightarrow> heap \<Rightarrow> pointer \<Rightarrow> pointer \<Rightarrow> (pointer \<times> heap) res" where
  "cmd_set init hp cmd next_cmd = res_bind init (\<lambda>es. Inr (next_cmd, write_entries hp cmd es))"

definition Noop_Set :: "heap \<Rightarrow> pointer \<Rightarrow> u32 \<Rightarrow> (pointer \<times> heap) res" where
  "Noop_Set hp cmd skip_count =
     cmd_set (Noop_Init skip_count) hp cmd (NextImmediateCmdAddress kNoop cmd (u32_mul skip_count 4))"

definition SetToken_Set :: "heap \<Rightarrow> pointer \<Rightarrow> u32 \<Rightarrow> (pointer \<times> heap) res" where
  "SetToken_Set hp cmd token = cmd_set (SetToken_Init token) hp cmd (NextCmdAddress kSetToken cmd)"

definition SetBucketSize_Set :: "heap \<Rightarrow> pointer \<Rightarrow> u32 \<Rightarrow> u32 \<Rightarrow> (pointer \<times> heap) res" where
  "SetBucketSize_Set hp cmd bucket_id sz =
     cmd_set (SetBucketSize_Init bucket_id sz) hp cmd (NextCmdAddress kSetBucketSize cmd)"

definition SetBucketData_Set ::
  "heap \<Rightarrow> pointer \<Rightarrow> u32 \<Rightarrow> u32 \<Rightarrow> u32 \<Rightarrow> u32 \<Rightarrow> u32 \<Rightarrow> (pointer \<times> heap) res" where
  "SetBucketData_Set hp cmd bucket_id offset sz shared_memory_id shared_memory_offset =
     cmd_set (SetBucketData_Init bucket_id offset sz shared_memory_id shared_memory_offset) hp cmd
       (NextCmdAddress kSetBucketData cmd)"

definition SetBucketDataImmediate_Set ::
  "heap \<Rightarrow> pointer \<Rightarrow> u32 \<Rightarrow> u32 \<Rightarrow> u32 \<Rightarrow> (pointer \<times> heap) res" where
  "SetBucketDataImmediate_Set hp cmd bucket_id offset sz =
     cmd_set (SetBucketDataImmediate_Init bucket_id offset sz) hp cmd
       (NextImmediateCmdAddress kSetBucketDataImmediate cmd sz)"

definition GetBucketStart_Set ::
  "heap \<Rightarrow> pointer \<Rightarrow> u32 \<Rightarrow> u32 \<Rightarrow> u32 \<Rightarrow> u32 \<Rightarrow> u32 \<Rightarrow> u32 \<Rightarrow> (pointer \<times> heap) res" where
  "GetBucketStart_Set hp cmd bucket_id result_memory_id result_memory_offset
       data_memory_size data_memory_id data_memory_offset =
     cmd_set (GetBucketStart_Init bucket_id result_memory_id result_memory_offset
                data_memory_size data_memory_id data_memory_offset) hp cmd
       (NextCmdAddress kGetBucketStart cmd)"

definition GetBucketData_Set ::
  "heap \<Rightarrow> pointer \<Rightarrow> u32 \<Rightarrow> u32 \<Rightarrow> u32 \<Rightarrow> u32 \<Rightarrow> u32 \<Rightarrow> (pointer \<times> heap) res" where
  "GetBucketData_Set hp cmd bucket_id offset sz shared_memory_id shared_memory_offset =
     cmd_set (GetBucketData_Init bucket_id offset sz shared_memory_id shared_memory_offset) hp cmd
       (NextCmdAddress kGetBucketData cmd)"

definition InsertFenceSync_Set :: "heap \<Rightarrow> pointer \<Rightarrow> u64 \<Rightarrow> (pointer \<times> heap) res" where
  "InsertFenceSync_Set hp cmd release_count =
     cmd_set (InsertFenceSync_Init release_count) hp cmd (NextCmdAddress kInsertFenceSync cmd)"

section \<open>Round trips\<close>

lemma header_round_trip:
  assumes "hdr_size h < 2 ^ 21" "hdr_command h < 2 ^ 11"
  shows "value_header (header_entry h) = h" "header_entry h < 2 ^ 32"
proof -
  have "(hdr_size h + 2 ^ 21 * hdr_command h) div 2 ^ 21 = hdr_command h"
    using assms by (simp add: div_add1_eq)
  with assms show "value_header (header_entry h) = h"
    by (simp add: value_header_def header_entry_def)
  show "header_entry h < 2 ^ 32" using assms by (simp add: header_entry_def)
qed

lemma entry_round_trip: "e < 2 ^ 32 \<Longrightarrow> header_entry (value_header e) = e"
  by (simp add: value_header_def header_entry_def less_mult_imp_div_less)

lemma CommandHeader_Init_entry:
  assumes "CommandHeader_Init c sz = Inr h"
  shows "value_header (header_entry h) = h" "header_entry h < 2 ^ 32"
  by (rule header_round_trip; use assms in \<open>auto simp: CommandHeader_Init_def res_simps\<close>)+

lemma CommandHeader_Init_fields:
  assumes "c < 2 ^ 11" "0 \<le> sz" "sz \<le> kMaxSize"
  shows "CommandHeader_Init c sz = Inr \<lparr>hdr_size = nat sz, hdr_command = c\<rparr>"
  using assms by (simp add: CommandHeader_Init_def kMaxSize_def u32_of_int_small)

lemma CommandHeader_SetCmd_fields:
  "CommandHeader_SetCmd c = Inr \<lparr>hdr_size = sizeof_command c div 4, hdr_command = kCmdId c\<rparr>"
  by (cases c) (simp_all add: CommandHeader_SetCmd_def CommandHeader_Init_def kMaxSize_def
      ComputeNumEntries_def i32_of_u32_def u32_of_int_def)

lemma ComputeNumEntries_bounds:
  assumes "n + 3 < 2 ^ 34"
  shows "n \<le> 4 * ComputeNumEntries n" "4 * ComputeNumEntries n < n + 4"
proof -
  have "(n + 4 - 1) div 4 < 2 ^ 32" using assms by (simp add: less_mult_imp_div_less)
  then have "ComputeNumEntries n = (n + 4 - 1) div 4" by (simp add: ComputeNumEntries_def)
  then show "n \<le> 4 * ComputeNumEntries n" "4 * ComputeNumEntries n < n + 4"
    using div_mult_round_up [of 4 n] by simp_all
qed

lemma release_count_round_trip:
  assumes "c < 2 ^ 64"
  shows "InsertFenceSync_release_count (c mod 2 ^ 32) (c div 2 ^ 32 mod 2 ^ 32) = c"
proof -
  have "c div 2 ^ 32 mod 2 ^ 32 = c div 2 ^ 32" using assms by (simp add: less_mult_imp_div_less)
  moreover have "c div 2 ^ 32 * 2 ^ 32 + c mod 2 ^ 32 = c" by (rule div_mult_mod_eq)
  ultimately show ?thesis using assms by (simp add: InsertFenceSync_release_count_def)
qed

lemma length_store_entries [simp]: "length (concat (map StoreU32Unaligned es)) = 4 * length es"
  by (induction es) auto

lemma drop_store_entries:
  "drop (4 * i) (concat (map StoreU32Unaligned es)) = concat (map StoreU32Unaligned (drop i es))"
proof (induction i arbitrary: es)
  case (Suc i)
  then show ?case by (cases es) (auto simp: drop_Cons')
qed simp

lemma take_drop_overwrite:
  assumes "i + length ys \<le> length xs" "k + n \<le> length ys"
  shows "take n (drop (i + k) (overwrite xs i ys)) = take n (drop k ys)"
  using assms by (simp add: overwrite_def)

lemma read_write_entries:
  assumes "fst p < length hp" "snd p + 4 * length es \<le> length (hp ! fst p)" "i < length es" "es ! i < 2 ^ 32"
  shows "read_entry (write_entries hp p es) p i = es ! i"
proof -
  let ?bs = "concat (map StoreU32Unaligned es)"
  have "read_bytes (write_entries hp p es) (fst p, snd p + 4 * i) 4 = take 4 (drop (4 * i) ?bs)"
    using assms(1-3) by (simp add: read_bytes_def write_entries_def write_bytes_def take_drop_overwrite)
  also have "drop (4 * i) ?bs = StoreU32Unaligned (es ! i) @ concat (map StoreU32Unaligned (drop (Suc i) es))"
    using assms(3) by (simp add: drop_store_entries Cons_nth_drop_Suc [symmetric])
  finally show ?thesis
    using assms(4) by (simp add: read_entry_def LoadU32_take Load_Store_U32 [of _ "[]", simplified])
qed

lemma read_write_entries_other:
  assumes "snd p + 4 * length es \<le> length (hp ! fst p)"
    and "fst p = fst q \<Longrightarrow> regions_disjoint (snd p) (4 * length es) (snd q + 4 * i) 4"
  shows "read_entry (write_entries hp p es) q i = read_entry hp q i"
  using assms by (simp add: read_entry_def write_entries_def read_write_other)

text \<open>
  The length a reader takes from the header of a command leads to the address that \<^verbatim>\<open>Set\<close>
  returned: the stream can be parsed command by command.
\<close>

definition parsed_next :: "heap \<Rightarrow> pointer \<Rightarrow> pointer" where
  "parsed_next hp cmd = (fst cmd, snd cmd + 4 * hdr_size (value_header (read_entry hp cmd 0)))"

lemma header_entry_at:
  assumes "fst p < length hp" "snd p + 4 * length es \<le> length (hp ! fst p)" "es = header_entry h # as"
    and "hdr_size h < 2 ^ 21" "hdr_command h < 2 ^ 11"
  shows "value_header (read_entry (write_entries hp p es) p 0) = h"
  using read_write_entries [OF assms(1,2), of 0] header_round_trip [OF assms(4,5)] assms(3) by simp

lemma cmd_set_next:
  assumes "init = Inr es" "es = header_entry h # as" "hdr_size h < 2 ^ 21" "hdr_command h < 2 ^ 11"
    and "fst cmd < length hp" "snd cmd + 4 * length es \<le> length (hp ! fst cmd)"
    and "cmd_set init hp cmd nxt = Inr (p, hp')"
  shows "value_header (read_entry hp' cmd 0) = h \<and> parsed_next hp' cmd = (fst cmd, snd cmd + 4 * hdr_size h) \<and> p = nxt"
  using header_entry_at [OF assms(5,6,2-4)] assms(1,7) by (auto simp: cmd_set_def parsed_next_def)

lemma kCmdId_bounds: "kCmdId c < 2 ^ 11" "sizeof_command c div 4 < 2 ^ 21" "4 * (sizeof_command c div 4) = sizeof_command c"
  by (cases c; simp)+

lemma fixed_set_next:
  assumes "init = Inr es" "es = header_entry \<lparr>hdr_size = sizeof_command c div 4, hdr_command = kCmdId c\<rparr> # as"
    and "fst cmd < length hp" "snd cmd + 4 * length es \<le> length (hp ! fst cmd)"
    and "cmd_set init hp cmd (NextCmdAddress c cmd) = Inr (p, hp')"
  shows "hdr_command (value_header (read_entry hp' cmd 0)) = kCmdId c \<and> p = parsed_next hp' cmd"
  using cmd_set_next [OF assms(1,2) _ _ assms(3-5)] kCmdId_bounds [of c] by (simp add: NextCmdAddress_def)

lemma SetToken_Set_next:
  assumes "fst cmd < length hp" "snd cmd + 8 \<le> length (hp ! fst cmd)" "SetToken_Set hp cmd t = Inr (p, hp')"
  shows "hdr_command (value_header (read_entry hp' cmd 0)) = kCmdId kSetToken \<and> p = parsed_next hp' cmd"
proof -
  let ?h = "\<lparr>hdr_size = sizeof_command kSetToken div 4, hdr_command = kCmdId kSetToken\<rparr>"
  have "SetToken_Init t = Inr (header_entry ?h # [t])" by (simp only: SetToken_Init_def CommandHeader_SetCmd_fields res_bind_simps)
  moreover have "snd cmd + 4 * length (header_entry ?h # [t]) \<le> length (hp ! fst cmd)" using assms(2) by simp
  ultimately show ?thesis
    using assms(3) by (intro fixed_set_next [OF _ refl assms(1)]) (simp_all only: SetToken_Set_def)
qed

lemma SetBucketDataImmediate_Set_next:
  assumes "fst cmd < length hp" "snd cmd + 16 \<le> length (hp ! fst cmd)" "sz \<le> 4 * (2 ^ 21 - 1) - 16"
    and "SetBucketDataImmediate_Set hp cmd b off sz = Inr (p, hp')"
  shows "hdr_command (value_header (read_entry hp' cmd 0)) = kCmdId kSetBucketDataImmediate \<and> p = parsed_next hp' cmd"
proof -
  let ?n = "ComputeNumEntries (16 + sz)"
  have n: "?n = 4 + ComputeNumEntries sz"
    using assms(3) by (simp add: ComputeNumEntries_def)
  have "4 * ?n < 16 + sz + 4" using assms(3) by (intro ComputeNumEntries_bounds) simp
  then have small: "?n < 2 ^ 21" using assms(3) by simp
  then have "int ?n \<le> 2 ^ 21 - 1" by simp
  then have h: "CommandHeader_SetCmdBySize kSetBucketDataImmediate sz =
      Inr \<lparr>hdr_size = ?n, hdr_command = kCmdId kSetBucketDataImmediate\<rparr>"
    using small by (simp add: CommandHeader_SetCmdBySize_def CommandHeader_Init_fields kMaxSize_def i32_of_u32_small)
  let ?h = "\<lparr>hdr_size = ?n, hdr_command = kCmdId kSetBucketDataImmediate\<rparr>"
  have "SetBucketDataImmediate_Init b off sz = Inr (header_entry ?h # [b, off, sz])"
    by (simp only: SetBucketDataImmediate_Init_def h res_bind_simps)
  from cmd_set_next [OF this refl _ _ assms(1) _ assms(4) [unfolded SetBucketDataImmediate_Set_def]] assms(2) small
  have "value_header (read_entry hp' cmd 0) = ?h" "parsed_next hp' cmd = (fst cmd, snd cmd + 4 * ?n)"
    "p = NextImmediateCmdAddress kSetBucketDataImmediate cmd sz" by simp_all
  then show ?thesis
    by (simp add: NextImmediateCmdAddress_def RoundSizeToMultipleOfEntries_def n)
qed

text \<open>
  For \<^verbatim>\<open>Noop\<close> the two differ: \<^verbatim>\<open>skip_count\<close> counts the header, \<^verbatim>\<open>NextImmediateCmdAddress\<close> adds the header
  again, and the returned address is one entry too far.
\<close>

lemma Noop_Set_beyond:
  assumes "fst cmd < length hp" "snd cmd + 4 \<le> length (hp ! fst cmd)" "0 < n" "n < 2 ^ 21"
  obtains p hp' where "Noop_Set hp cmd n = Inr (p, hp')" "parsed_next hp' cmd = (fst cmd, snd cmd + 4 * n)"
    "p = (fst cmd, snd cmd + 4 * n + 4)"
proof -
  have "int n \<le> kMaxSize" using assms(4) by (simp add: kMaxSize_def)
  then have h: "Noop_Init n = Inr [header_entry \<lparr>hdr_size = n, hdr_command = 0\<rparr>]"
    using assms(3,4) CommandHeader_Init_fields [of 0 "int n"] by (simp add: Noop_Init_def i32_of_u32_small)
  have m: "u32_mul n 4 = n * 4" using assms(4) by (simp add: u32_mul_nowrap)
  have r: "RoundSizeToMultipleOfEntries (n * 4) = n * 4"
    using assms(4) by (simp add: RoundSizeToMultipleOfEntries_def ComputeNumEntries_def)
  obtain p hp' where s: "Noop_Set hp cmd n = Inr (p, hp')" by (simp add: Noop_Set_def cmd_set_def h)
  from cmd_set_next [OF h refl _ _ assms(1) _ s [unfolded Noop_Set_def]] assms(2,4)
  have "parsed_next hp' cmd = (fst cmd, snd cmd + 4 * n)" "p = (fst cmd, snd cmd + 4 * n + 4)"
    by (simp_all add: NextImmediateCmdAddress_def m r)
  with s show thesis by (rule that)
qed

end
