(* ===== verification/Command_Buffer.thy ===== *)
theory Command_Buffer
  imports Prelude
begin

text \<open>
  \<^verbatim>\<open>gpu/command_buffer/common/constants.h\<close>, \<^verbatim>\<open>command_buffer.h\<close> and \<^verbatim>\<open>command_buffer_shared.h\<close>: the
  error codes, the state a service reports to its client, and the four-slot mechanism by which
  the two processes exchange it without locks.
\<close>

section \<open>Errors and state\<close>

datatype gpu_error = kNoError | kInvalidSize | kOutOfBounds | kUnknownCommand | kInvalidArguments
  | kLostContext | kGenericError | kDeferCommandUntilLater | kDeferLaterCommands

definition IsError :: "gpu_error \<Rightarrow> bool" where
  "IsError e \<longleftrightarrow> e \<noteq> kNoError \<and> e \<noteq> kDeferCommandUntilLater \<and> e \<noteq> kDeferLaterCommands"

datatype context_lost_reason = kGuilty | kInnocent | kUnknown | kOutOfMemory | kMakeCurrentFailed
  | kGpuChannelLost | kInvalidGpuMessage

record cb_state =
  st_get_offset :: i32
  st_token :: i32
  st_release_count :: u64
  st_error :: gpu_error
  st_context_lost_reason :: context_lost_reason
  st_generation :: u32
  st_set_get_buffer_count :: u32

definition new_State :: cb_state where
  "new_State = \<lparr>st_get_offset = 0, st_token = -1, st_release_count = 0, st_error = kNoError,
     st_context_lost_reason = kUnknown, st_generation = 0, st_set_get_buffer_count = 0\<rparr>"

definition InRange :: "i32 \<Rightarrow> i32 \<Rightarrow> i32 \<Rightarrow> bool" where
  "InRange start stop v = (if start \<le> stop then start \<le> v \<and> v \<le> stop else start \<le> v \<or> v \<le> stop)"

text \<open>
  On offsets of a ring of \<open>n\<close> entries \<^verbatim>\<open>InRange\<close> says that walking forward from \<open>start\<close> one meets
  the value no later than the end.
\<close>

lemma InRange_cyclic:
  assumes "0 \<le> start" "start < n" "0 \<le> stop" "stop < n" "0 \<le> v" "v < n"
  shows "InRange start stop v \<longleftrightarrow> (v - start) mod n \<le> (stop - start) mod n"
proof -
  have m: "(x - start) mod n = (if start \<le> x then x - start else x - start + n)" if "0 \<le> x" "x < n" for x
  proof (cases "start \<le> x")
    case False
    then have "(x - start + n) mod n = x - start + n" using that assms by (intro mod_pos_pos_trivial) auto
    with False show ?thesis by simp
  qed (use that assms in \<open>simp add: mod_pos_pos_trivial\<close>)
  show ?thesis using assms m [of v] m [of stop] by (auto simp: InRange_def)
qed

section \<open>The shared state\<close>

text \<open>
  The flags \<^verbatim>\<open>reading_\<close>, \<^verbatim>\<open>latest_\<close> and \<^verbatim>\<open>slots_\<close> hold only the array indices \<open>0\<close> and \<open>1\<close>.
\<close>

datatype slot_index = Slot0 | Slot1

fun flip :: "slot_index \<Rightarrow> slot_index" where
  "flip Slot0 = Slot1"
| "flip Slot1 = Slot0"

lemma flip_neq [simp]: "flip i \<noteq> i" "i \<noteq> flip i"
  by (cases i; simp)+

record 's shared_state =
  ss_states :: "slot_index \<Rightarrow> slot_index \<Rightarrow> 's"
  ss_reading :: slot_index
  ss_latest :: slot_index
  ss_slots :: "slot_index \<Rightarrow> slot_index"

definition SharedState_Initialize :: "'s \<Rightarrow> 's shared_state" where
  "SharedState_Initialize s0 = \<lparr>ss_states = (\<lambda>_ _. s0), ss_reading = Slot0, ss_latest = Slot0,
     ss_slots = (\<lambda>_. Slot0)\<rparr>"

definition set_state :: "slot_index \<Rightarrow> slot_index \<Rightarrow> 's \<Rightarrow> 's shared_state \<Rightarrow> 's shared_state" where
  "set_state i j s ss = ss\<lparr>ss_states := (ss_states ss)(i := (ss_states ss i)(j := s))\<rparr>"

text \<open>\<^verbatim>\<open>Write\<close> and \<^verbatim>\<open>Read\<close> run without interference.\<close>

definition SharedState_Write :: "'s \<Rightarrow> 's shared_state \<Rightarrow> 's shared_state" where
  "SharedState_Write s ss =
     (let towrite = flip (ss_reading ss);
          index = flip (ss_slots ss towrite);
          ss1 = set_state towrite index s ss
      in ss1\<lparr>ss_slots := (ss_slots ss1)(towrite := index), ss_latest := towrite\<rparr>)"

definition generation_newer :: "u32 \<Rightarrow> u32 \<Rightarrow> bool" where
  "generation_newer a b \<longleftrightarrow> u32_sub a b < 2 ^ 31"

definition SharedState_Read :: "cb_state \<Rightarrow> cb_state shared_state \<Rightarrow> cb_state \<times> cb_state shared_state" where
  "SharedState_Read s ss =
     (let toread = ss_latest ss;
          ss1 = ss\<lparr>ss_reading := toread\<rparr>;
          index = ss_slots ss1 toread
      in (if generation_newer (st_generation (ss_states ss1 toread index)) (st_generation s)
          then ss_states ss1 toread index else s, ss1))"

lemma Read_after_Write:
  "fst (SharedState_Read s (SharedState_Write w ss)) =
     (if generation_newer (st_generation w) (st_generation s) then w else s)"
  by (simp add: SharedState_Read_def SharedState_Write_def set_state_def Let_def)

text \<open>A generation that is ahead by less than half the range counts as newer across the wrap.\<close>

lemma generation_newer_advance:
  assumes "g < 2 ^ 32" "k < 2 ^ 31"
  shows "generation_newer (u32_add g k) g"
proof -
  have "u32_sub (u32_add g k) g = k"
  proof (cases "g + k < 2 ^ 32")
    case True
    with assms show ?thesis by (simp add: u32_add_nowrap u32_sub_nowrap)
  next
    case False
    with assms have "u32_add g k = g + k - 2 ^ 32"
      by (simp add: u32_add_def mod_if)
    moreover have "(g + k - 2 ^ 32 + 2 ^ 32 - g) mod 2 ^ 32 = k" using False assms by simp
    ultimately show ?thesis using assms by (simp add: u32_sub_def)
  qed
  with assms(2) show ?thesis by (simp add: generation_newer_def)
qed

lemma generation_newer_stale:
  assumes "g < 2 ^ 32" "0 < k" "k < 2 ^ 31"
  shows "\<not> generation_newer g (u32_add g k)"
proof (cases "g + k < 2 ^ 32")
  case True
  then have "u32_sub g (u32_add g k) = 2 ^ 32 - k"
    using assms by (simp add: u32_add_nowrap u32_sub_def)
  with assms show ?thesis by (simp add: generation_newer_def)
next
  case False
  with assms have "u32_add g k = g + k - 2 ^ 32" by (simp add: u32_add_def mod_if)
  moreover have "g + k - 2 ^ 32 < 2 ^ 32" using assms by simp
  ultimately have "u32_sub g (u32_add g k) = (2 ^ 32 - k + 2 ^ 32) mod 2 ^ 32"
    using False assms by (simp add: u32_sub_def)
  also have "\<dots> = 2 ^ 32 - k" using assms by (simp only: mod_add_self2) simp
  finally show ?thesis using assms by (simp add: generation_newer_def)
qed

subsection \<open>Writer and reader interleaved\<close>

text \<open>
  The two processes step independently between the atomic accesses. Writing and reading a slot
  takes time: a process is inside its access from the step that fixes its index to the step
  that ends the access.
\<close>

datatype writer_pc = W_idle | W_picked slot_index | W_writing slot_index slot_index
  | W_written slot_index slot_index | W_published slot_index

datatype reader_pc = R_idle | R_picked slot_index | R_announced slot_index | R_reading slot_index slot_index

record 's ss_config =
  cf_shared :: "'s shared_state"
  cf_writer :: writer_pc
  cf_reader :: reader_pc

inductive ss_step :: "'s ss_config \<Rightarrow> 's ss_config \<Rightarrow> bool" where
  w_pick: "cf_writer c = W_idle \<Longrightarrow>
    ss_step c (c\<lparr>cf_writer := W_picked (flip (ss_reading (cf_shared c)))\<rparr>)"
| w_begin: "cf_writer c = W_picked p \<Longrightarrow>
    ss_step c (c\<lparr>cf_writer := W_writing p (flip (ss_slots (cf_shared c) p))\<rparr>)"
| w_end: "cf_writer c = W_writing p i \<Longrightarrow>
    ss_step c (c\<lparr>cf_shared := set_state p i s (cf_shared c), cf_writer := W_written p i\<rparr>)"
| w_slot: "cf_writer c = W_written p i \<Longrightarrow>
    ss_step c (c\<lparr>cf_shared := (cf_shared c)\<lparr>ss_slots := (ss_slots (cf_shared c))(p := i)\<rparr>,
                 cf_writer := W_published p\<rparr>)"
| w_latest: "cf_writer c = W_published p \<Longrightarrow>
    ss_step c (c\<lparr>cf_shared := (cf_shared c)\<lparr>ss_latest := p\<rparr>, cf_writer := W_idle\<rparr>)"
| r_pick: "cf_reader c = R_idle \<Longrightarrow>
    ss_step c (c\<lparr>cf_reader := R_picked (ss_latest (cf_shared c))\<rparr>)"
| r_announce: "cf_reader c = R_picked p \<Longrightarrow>
    ss_step c (c\<lparr>cf_shared := (cf_shared c)\<lparr>ss_reading := p\<rparr>, cf_reader := R_announced p\<rparr>)"
| r_begin: "cf_reader c = R_announced p \<Longrightarrow>
    ss_step c (c\<lparr>cf_reader := R_reading p (ss_slots (cf_shared c) p)\<rparr>)"
| r_end: "cf_reader c = R_reading p i \<Longrightarrow> ss_step c (c\<lparr>cf_reader := R_idle\<rparr>)"

inductive ss_reachable :: "'s \<Rightarrow> 's ss_config \<Rightarrow> bool" for s0 :: 's where
  ss_start: "ss_reachable s0 \<lparr>cf_shared = SharedState_Initialize s0, cf_writer = W_idle, cf_reader = R_idle\<rparr>"
| ss_next: "ss_reachable s0 c \<Longrightarrow> ss_step c c' \<Longrightarrow> ss_reachable s0 c'"

fun writer_ok :: "'s shared_state \<Rightarrow> writer_pc \<Rightarrow> bool" where
  "writer_ok ss (W_writing p i) \<longleftrightarrow> i = flip (ss_slots ss p)"
| "writer_ok ss (W_written p i) \<longleftrightarrow> i = flip (ss_slots ss p)"
| "writer_ok ss _ \<longleftrightarrow> True"

text \<open>The pair of slots the writer is going to change.\<close>

fun writer_pair :: "writer_pc \<Rightarrow> slot_index option" where
  "writer_pair (W_picked p) = Some p"
| "writer_pair (W_writing p i) = Some p"
| "writer_pair (W_written p i) = Some p"
| "writer_pair _ = None"

fun reader_ok :: "'s shared_state \<Rightarrow> writer_pc \<Rightarrow> reader_pc \<Rightarrow> bool" where
  "reader_ok ss w (R_announced p) \<longleftrightarrow> ss_reading ss = p"
| "reader_ok ss w (R_reading p i) \<longleftrightarrow> ss_reading ss = p \<and> (writer_pair w = Some p \<longrightarrow> i = ss_slots ss p)"
| "reader_ok ss w _ \<longleftrightarrow> True"

definition ss_inv :: "'s ss_config \<Rightarrow> bool" where
  "ss_inv c \<longleftrightarrow> writer_ok (cf_shared c) (cf_writer c) \<and> reader_ok (cf_shared c) (cf_writer c) (cf_reader c)"

lemma ss_step_inv:
  assumes "ss_step c c'" "ss_inv c"
  shows "ss_inv c'"
  using assms
  by (cases rule: ss_step.cases; cases "cf_reader c"; cases "cf_writer c")
    (auto simp: ss_inv_def set_state_def)

lemma ss_reachable_inv: "ss_reachable s0 c \<Longrightarrow> ss_inv c"
  by (induction rule: ss_reachable.induct) (simp_all add: ss_inv_def [of "\<lparr>cf_shared = _, cf_writer = _, cf_reader = _\<rparr>"] ss_step_inv)

text \<open>The two processes are never inside the same slot.\<close>

lemma ss_no_tearing:
  "ss_reachable s0 c \<Longrightarrow> cf_writer c = W_writing p i \<Longrightarrow> cf_reader c = R_reading q j \<Longrightarrow> (p, i) \<noteq> (q, j)"
  using ss_reachable_inv [of s0 c] by (auto simp: ss_inv_def)

text \<open>Run back to back, the steps of each process are the operations above.\<close>

lemma ss_write_run:
  assumes "cf_writer c = W_idle"
  shows "ss_step\<^sup>*\<^sup>* c (c\<lparr>cf_shared := SharedState_Write s (cf_shared c)\<rparr>)"
proof -
  let ?s = "cf_shared c" and ?p = "flip (ss_reading (cf_shared c))"
  let ?i = "flip (ss_slots ?s ?p)"
  define c1 where "c1 = c\<lparr>cf_writer := W_picked ?p\<rparr>"
  define c2 where "c2 = c\<lparr>cf_writer := W_writing ?p ?i\<rparr>"
  define c3 where "c3 = c\<lparr>cf_shared := set_state ?p ?i s ?s, cf_writer := W_written ?p ?i\<rparr>"
  define c4 where "c4 = c\<lparr>cf_shared := (set_state ?p ?i s ?s)\<lparr>ss_slots := (ss_slots (set_state ?p ?i s ?s))(?p := ?i)\<rparr>,
      cf_writer := W_published ?p\<rparr>"
  have "ss_step c c1" using w_pick [OF assms] by (simp add: c1_def)
  moreover have "ss_step c1 c2" using w_begin [of c1 ?p] by (simp add: c1_def c2_def)
  moreover have "ss_step c2 c3" using w_end [of c2 ?p ?i s] by (simp add: c2_def c3_def)
  moreover have "ss_step c3 c4" using w_slot [of c3 ?p ?i] by (simp add: c3_def c4_def)
  moreover have "ss_step c4 (c\<lparr>cf_shared := SharedState_Write s ?s\<rparr>)"
  proof -
    have "c\<lparr>cf_shared := x\<rparr> = c\<lparr>cf_shared := x, cf_writer := W_idle\<rparr>" for x
      using assms by (cases c) simp
    then show ?thesis
      using w_latest [of c4 ?p] by (simp add: c4_def SharedState_Write_def Let_def set_state_def)
  qed
  ultimately show ?thesis by (meson converse_rtranclp_into_rtranclp rtranclp.rtrancl_refl)
qed

end
