(* ===== verification/Command_Buffer_Service.thy ===== *)
theory Command_Buffer_Service
  imports Command_Format Command_Buffer
begin

text \<open>
  \<^verbatim>\<open>gpu/command_buffer/service/command_buffer_service.{h,cc}\<close>: the service end of a command buffer.
  It keeps the get and put offsets, hands slices of the ring of commands to a handler and
  publishes its state.

  The handler (\<^verbatim>\<open>AsyncAPIInterface\<close>) and the service's client (\<^verbatim>\<open>CommandBufferServiceClient\<close>) are
  interfaces: records of functions over the service and a state of their own. Operations act on
  the pair of both states, since the callbacks may call back into the service.
\<close>

section \<open>Data\<close>

record service =
  sv_tbm :: transfer_buffer_manager
  sv_state :: cb_state
  sv_put_offset :: i32
  sv_num_entries :: i32
  sv_ring_buffer :: "gpu_buffer option"
  sv_buffer :: "pointer option"
  sv_shared_state :: "cb_state shared_state option"
  sv_scheduled :: bool
  sv_paused :: bool
  sv_heap :: heap
  sv_next_buffer_id :: i32

type_synonym 'c world = "service \<times> 'c"

record 'c service_client =
  OnCommandBatchProcessed_op :: "'c world \<Rightarrow> bool \<times> 'c world"
  OnParseError_op :: "'c world \<Rightarrow> 'c world"

record 'c async_api =
  BeginDecoding_op :: "'c world \<Rightarrow> 'c world"
  EndDecoding_op :: "'c world \<Rightarrow> 'c world"
  DoCommands_op :: "nat \<Rightarrow> pointer \<Rightarrow> int \<Rightarrow> 'c world \<Rightarrow> (gpu_error \<times> int \<times> 'c world) res"

text \<open>
  \<open>OnCommandBatchProcessed_op\<close> returns whether execution is to be paused. The last argument of
  \<open>DoCommands_op\<close> is the number of entries that may be processed, its second result the number
  of entries it did process.
\<close>

definition kParseCommandsSliceSmall :: nat where
  "kParseCommandsSliceSmall = 20"

definition kParseCommandsSliceLarge :: nat where
  "kParseCommandsSliceLarge = 100"

definition GetCommandBufferSliceSize :: "bool \<Rightarrow> nat" where
  "GetCommandBufferSliceSize increased_slice =
     (if increased_slice then kParseCommandsSliceLarge else kParseCommandsSliceSmall)"

definition new_CommandBufferService :: "heap \<Rightarrow> i32 \<Rightarrow> service" where
  "new_CommandBufferService hp next_id =
     \<lparr>sv_tbm = new_TransferBufferManager, sv_state = new_State\<lparr>st_token := 0\<rparr>, sv_put_offset = 0,
      sv_num_entries = 0, sv_ring_buffer = None, sv_buffer = None, sv_shared_state = None,
      sv_scheduled = True, sv_paused = False, sv_heap = hp, sv_next_buffer_id = next_id\<rparr>"

section \<open>Operations on the service alone\<close>

definition Service_UpdateState :: "service \<Rightarrow> service" where
  "Service_UpdateState s =
     (let st = (sv_state s)\<lparr>st_generation := u32_add (st_generation (sv_state s)) 1\<rparr>
      in s\<lparr>sv_state := st, sv_shared_state := map_option (SharedState_Write st) (sv_shared_state s)\<rparr>)"

definition Service_SetToken :: "i32 \<Rightarrow> service \<Rightarrow> service" where
  "Service_SetToken token s = Service_UpdateState (s\<lparr>sv_state := (sv_state s)\<lparr>st_token := token\<rparr>\<rparr>)"

definition Service_SetReleaseCount :: "u64 \<Rightarrow> service \<Rightarrow> service" where
  "Service_SetReleaseCount release_count s =
     Service_UpdateState (s\<lparr>sv_state := (sv_state s)\<lparr>st_release_count := release_count\<rparr>\<rparr>)"

definition Service_SetContextLostReason :: "context_lost_reason \<Rightarrow> service \<Rightarrow> service" where
  "Service_SetContextLostReason reason s = s\<lparr>sv_state := (sv_state s)\<lparr>st_context_lost_reason := reason\<rparr>\<rparr>"

definition Service_SetScheduled :: "bool \<Rightarrow> service \<Rightarrow> service" where
  "Service_SetScheduled scheduled s = s\<lparr>sv_scheduled := scheduled\<rparr>"

definition Service_GetTransferBuffer :: "i32 \<Rightarrow> service \<Rightarrow> gpu_buffer option" where
  "Service_GetTransferBuffer bid s = TransferBufferManager_GetTransferBuffer bid (sv_tbm s)"

definition Service_RegisterTransferBuffer :: "i32 \<Rightarrow> gpu_buffer \<Rightarrow> service \<Rightarrow> bool \<times> service" where
  "Service_RegisterTransferBuffer bid buffer s =
     (case TransferBufferManager_RegisterTransferBuffer bid buffer (sv_tbm s) of
        (ok, m) \<Rightarrow> (ok, s\<lparr>sv_tbm := m\<rparr>))"

definition Service_DestroyTransferBuffer :: "i32 \<Rightarrow> service \<Rightarrow> service res" where
  "Service_DestroyTransferBuffer bid s =
     res_bind (TransferBufferManager_DestroyTransferBuffer bid (sv_tbm s)) (\<lambda>m. Inr (s\<lparr>sv_tbm := m\<rparr>))"

definition Service_GetSharedMemoryBytesAllocated :: "service \<Rightarrow> nat" where
  "Service_GetSharedMemoryBytesAllocated s = shared_memory_bytes_allocated (sv_tbm s)"

text \<open>\<^verbatim>\<open>sizeof(CommandBufferSharedState)\<close>: four states of 32 bytes and four flags.\<close>

definition sizeof_SharedState :: nat where
  "sizeof_SharedState = 144"

definition Service_SetSharedStateBuffer :: "nat \<Rightarrow> cb_state shared_state \<Rightarrow> service \<Rightarrow> service res" where
  "Service_SetSharedStateBuffer backing_size ss s =
     dcheck (backing_size \<ge> sizeof_SharedState)
       (Inr (Service_UpdateState (s\<lparr>sv_shared_state := Some ss\<rparr>)))"

definition Service_SetGetBuffer :: "i32 \<Rightarrow> service \<Rightarrow> service res" where
  "Service_SetGetBuffer transfer_buffer_id s =
     dcheck (sv_put_offset s = st_get_offset (sv_state s) \<or> st_error (sv_state s) \<noteq> kNoError)
       (let s1 = s\<lparr>sv_put_offset := 0,
                   sv_state := (sv_state s)\<lparr>st_get_offset := 0,
                     st_set_get_buffer_count := u32_add (st_set_get_buffer_count (sv_state s)) 1\<rparr>\<rparr>
        in case Service_GetTransferBuffer transfer_buffer_id s1 of
             Some b \<Rightarrow>
               dcheck (buf_size b mod 4 = 0)
                 (Inr (Service_UpdateState
                    (s1\<lparr>sv_num_entries := i32_of_u32 (buf_size b div 4), sv_buffer := Some (buf_memory b, 0),
                        sv_ring_buffer := Some b\<rparr>)))
           | None \<Rightarrow>
               Inr (Service_UpdateState (s1\<lparr>sv_num_entries := 0, sv_buffer := None, sv_ring_buffer := None\<rparr>)))"

section \<open>Operations that call the client\<close>

definition Service_SetParseError :: "'c service_client \<Rightarrow> gpu_error \<Rightarrow> 'c world \<Rightarrow> 'c world" where
  "Service_SetParseError cl e w =
     (if st_error (sv_state (fst w)) = kNoError
      then OnParseError_op cl ((fst w)\<lparr>sv_state := (sv_state (fst w))\<lparr>st_error := e\<rparr>\<rparr>, snd w)
      else w)"

definition Service_CreateTransferBufferWithId ::
  "'c service_client \<Rightarrow> u32 \<Rightarrow> i32 \<Rightarrow> 'c world \<Rightarrow> gpu_buffer option \<times> 'c world" where
  "Service_CreateTransferBufferWithId cl sz bid w =
     (case MakeMemoryBuffer sz (sv_heap (fst w)) of (buffer, hp) \<Rightarrow>
        (case Service_RegisterTransferBuffer bid buffer ((fst w)\<lparr>sv_heap := hp\<rparr>) of (ok, s1) \<Rightarrow>
           if \<not> ok then (None, Service_SetParseError cl kOutOfBounds (s1, snd w))
           else (Some buffer, (s1, snd w))))"

text \<open>\<^verbatim>\<open>GetNextBufferId\<close>: the global sequence number, counting from 0, plus one.\<close>

definition GetNextBufferId :: "service \<Rightarrow> i32 \<times> service" where
  "GetNextBufferId s = (sv_next_buffer_id s + 1, s\<lparr>sv_next_buffer_id := sv_next_buffer_id s + 1\<rparr>)"

definition Service_CreateTransferBuffer ::
  "'c service_client \<Rightarrow> u32 \<Rightarrow> 'c world \<Rightarrow> gpu_buffer option \<times> i32 \<times> 'c world" where
  "Service_CreateTransferBuffer cl sz w =
     (case GetNextBufferId (fst w) of (bid, s1) \<Rightarrow>
        (case Service_CreateTransferBufferWithId cl sz bid (s1, snd w) of
           (None, w1) \<Rightarrow> (None, -1, w1)
         | (Some b, w1) \<Rightarrow> (Some b, bid, w1)))"

definition Service_ShouldYield :: "'c service_client \<Rightarrow> 'c world \<Rightarrow> bool \<times> 'c world" where
  "Service_ShouldYield cl w = OnCommandBatchProcessed_op cl w"

text \<open>
  The loop of \<^verbatim>\<open>Flush\<close>. A handler that neither fails nor advances makes it run forever, so its
  value is \<open>None\<close> when it does not return. \<open>stop\<close> is the local \<^verbatim>\<open>end\<close>.
\<close>

definition advance_get :: "int \<Rightarrow> service \<Rightarrow> service" where
  "advance_get entries_processed s =
     s\<lparr>sv_state := (sv_state s)\<lparr>st_get_offset := st_get_offset (sv_state s) + entries_processed\<rparr>\<rparr>"

definition wrap_get :: "service \<Rightarrow> service" where
  "wrap_get s = (if st_get_offset (sv_state s) = sv_num_entries s
                 then s\<lparr>sv_state := (sv_state s)\<lparr>st_get_offset := 0\<rparr>\<rparr> else s)"

definition entry_pointer :: "pointer option \<Rightarrow> i32 \<Rightarrow> pointer" where
  "entry_pointer buffer i = (case buffer of Some p \<Rightarrow> (fst p, snd p + 4 * nat i) | None \<Rightarrow> (0, 0))"

text \<open>
  One round of the loop: \<open>Inl\<close> to go on with a new end and a new state, \<open>Inr\<close> when the loop is left,
  by its condition, by one of its \<^verbatim>\<open>break\<close>s or by a failed assertion.
\<close>

definition Service_Flush_round ::
  "'c service_client \<Rightarrow> 'c async_api \<Rightarrow> nat \<Rightarrow> i32 \<Rightarrow> 'c world \<Rightarrow> (i32 \<times> 'c world) + 'c world res" where
  "Service_Flush_round cl handler slice_sz stop w =
     (if sv_put_offset (fst w) = st_get_offset (sv_state (fst w)) then Inr (Inr w)
      else case DoCommands_op handler slice_sz
                  (entry_pointer (sv_buffer (fst w)) (st_get_offset (sv_state (fst w))))
                  (stop - st_get_offset (sv_state (fst w))) w of
        Inl e \<Rightarrow> Inr (Inl e)
      | Inr (error, entries_processed, s0, c1) \<Rightarrow>
          (let s1 = advance_get entries_processed s0;
               stop1 = (if st_get_offset (sv_state s1) = sv_num_entries s1 then sv_put_offset s1 else stop);
               w2 = (wrap_get s1, c1)
           in if \<not> st_get_offset (sv_state s1) \<le> sv_num_entries s1 then Inr (Inl DCHECK_failed)
              else if IsError error then Inr (Inr (Service_SetParseError cl error w2))
              else (case OnCommandBatchProcessed_op cl w2 of (pause, w3) \<Rightarrow>
                      if pause then Inr (Inr ((fst w3)\<lparr>sv_paused := True\<rparr>, snd w3))
                      else if \<not> sv_scheduled (fst w3) then Inr (Inr w3)
                      else Inl (stop1, w3))))"

partial_function (option) Service_Flush_loop ::
  "'c service_client \<Rightarrow> 'c async_api \<Rightarrow> nat \<Rightarrow> i32 \<Rightarrow> 'c world \<Rightarrow> 'c world res option" where
  "Service_Flush_loop cl handler slice_sz stop w =
     (case Service_Flush_round cl handler slice_sz stop w of
        Inl p \<Rightarrow> Service_Flush_loop cl handler slice_sz (fst p) (snd p)
      | Inr r \<Rightarrow> Some r)"

definition Service_Flush ::
  "'c service_client \<Rightarrow> 'c async_api \<Rightarrow> nat \<Rightarrow> i32 \<Rightarrow> 'c world \<Rightarrow> 'c world res option" where
  "Service_Flush cl handler slice_sz put_offset w =
     (if put_offset < 0 \<or> put_offset \<ge> sv_num_entries (fst w)
      then Some (Inr (Service_SetParseError cl kOutOfBounds w))
      else let s = (fst w)\<lparr>sv_put_offset := put_offset\<rparr>
           in if sv_buffer s = None then Some (Inl DCHECK_failed)
              else if st_error (sv_state s) \<noteq> kNoError then Some (Inr (s, snd w))
              else if \<not> sv_scheduled s then Some (Inl DCHECK_failed)
              else let w1 = BeginDecoding_op handler (s\<lparr>sv_paused := False\<rparr>, snd w)
                   in if st_error (sv_state (fst w1)) \<noteq> kNoError
                      then Some (Inr (EndDecoding_op handler w1))
                      else map_option (map_sum id (EndDecoding_op handler))
                             (Service_Flush_loop cl handler slice_sz
                                (if sv_put_offset (fst w1) < st_get_offset (sv_state (fst w1))
                                 then sv_num_entries (fst w1) else sv_put_offset (fst w1)) w1))"

section \<open>The invariant of the service\<close>

text \<open>
  The registered buffers lie in the store, the ring is one of them in entries, and the get and
  put offsets are positions in it.
\<close>

definition ring_ok :: "service \<Rightarrow> bool" where
  "ring_ok s \<longleftrightarrow> (case sv_ring_buffer s of
       None \<Rightarrow> sv_num_entries s = 0 \<and> sv_buffer s = None
     | Some b \<Rightarrow> buffer_ok (sv_heap s) b \<and> buf_size b mod 4 = 0 \<and>
         sv_num_entries s = int (buf_size b div 4) \<and> sv_buffer s = Some (buf_memory b, 0))"

definition offsets_ok :: "service \<Rightarrow> bool" where
  "offsets_ok s \<longleftrightarrow>
     0 \<le> sv_put_offset s \<and> (sv_put_offset s < sv_num_entries s \<or> sv_put_offset s = 0) \<and>
     0 \<le> st_get_offset (sv_state s) \<and>
     (st_get_offset (sv_state s) < sv_num_entries s \<or> st_get_offset (sv_state s) = 0)"

definition registry_ok :: "service \<Rightarrow> bool" where
  "registry_ok s \<longleftrightarrow> tbm_inv (sv_tbm s) \<and> (\<forall>e \<in> set (registered_buffers (sv_tbm s)). buffer_ok (sv_heap s) (snd e))"

definition sv_inv :: "service \<Rightarrow> bool" where
  "sv_inv s \<longleftrightarrow> ring_ok s \<and> offsets_ok s \<and> registry_ok s"

text \<open>What a handler or a callback of the client leaves alone.\<close>

definition sv_frame :: "service \<Rightarrow> service \<Rightarrow> bool" where
  "sv_frame s s' \<longleftrightarrow> sv_put_offset s' = sv_put_offset s \<and> sv_num_entries s' = sv_num_entries s \<and>
     st_get_offset (sv_state s') = st_get_offset (sv_state s) \<and> sv_buffer s' = sv_buffer s \<and>
     sv_ring_buffer s' = sv_ring_buffer s \<and> sv_tbm s' = sv_tbm s \<and>
     st_set_get_buffer_count (sv_state s') = st_set_get_buffer_count (sv_state s) \<and>
     map length (sv_heap s') = map length (sv_heap s)"

lemma sv_frame_refl [simp]: "sv_frame s s"
  by (simp add: sv_frame_def)

lemma sv_frame_trans [trans]: "sv_frame s t \<Longrightarrow> sv_frame t u \<Longrightarrow> sv_frame s u"
  by (simp add: sv_frame_def)

lemma buffer_ok_lengths:
  assumes "map length hp' = map length hp"
  shows "buffer_ok hp' b \<longleftrightarrow> buffer_ok hp b"
proof -
  have "length hp' = length hp" using assms by (metis length_map)
  moreover have "i < length hp \<Longrightarrow> length (hp' ! i) = length (hp ! i)" for i
    using assms by (metis calculation nth_map)
  ultimately show ?thesis by (auto simp: buffer_ok_def)
qed

lemma sv_inv_frame:
  assumes "sv_frame s s'" "sv_inv s"
  shows "sv_inv s'"
proof -
  have "buffer_ok (sv_heap s') b = buffer_ok (sv_heap s) b" for b
    using assms(1) by (intro buffer_ok_lengths) (simp add: sv_frame_def)
  with assms show ?thesis
    by (simp add: sv_frame_def sv_inv_def ring_ok_def offsets_ok_def registry_ok_def split: option.splits)
qed

lemma UpdateState_facts [simp]:
  "sv_frame s (Service_UpdateState s)" "sv_heap (Service_UpdateState s) = sv_heap s"
  "st_error (sv_state (Service_UpdateState s)) = st_error (sv_state s)"
  "st_token (sv_state (Service_UpdateState s)) = st_token (sv_state s)"
  "sv_scheduled (Service_UpdateState s) = sv_scheduled s"
  "st_release_count (sv_state (Service_UpdateState s)) = st_release_count (sv_state s)"
  by (simp_all add: sv_frame_def Service_UpdateState_def Let_def)

lemma UpdateState_inv [simp]: "sv_inv (Service_UpdateState s) \<longleftrightarrow> sv_inv s"
  by (rule iffI; erule sv_inv_frame [rotated]) (auto simp: sv_frame_def Service_UpdateState_def Let_def)

lemma new_CommandBufferService_inv: "sv_inv (new_CommandBufferService hp i)"
  by (simp add: sv_inv_def ring_ok_def offsets_ok_def registry_ok_def new_CommandBufferService_def
      new_State_def new_TransferBufferManager_def tbm_inv_def)

lemma SetToken_frame: "sv_frame s (Service_SetToken t s)" "st_token (sv_state (Service_SetToken t s)) = t"
  by (simp_all add: Service_SetToken_def sv_frame_def Service_UpdateState_def Let_def)

lemma SetReleaseCount_frame:
  "sv_frame s (Service_SetReleaseCount c s)" "st_release_count (sv_state (Service_SetReleaseCount c s)) = c"
  by (simp_all add: Service_SetReleaseCount_def sv_frame_def Service_UpdateState_def Let_def)

lemma GetTransferBuffer_ok: "registry_ok s \<Longrightarrow> Service_GetTransferBuffer bid s = Some b \<Longrightarrow> buffer_ok (sv_heap s) b"
  by (auto simp: registry_ok_def Service_GetTransferBuffer_def TransferBufferManager_GetTransferBuffer_def
      split: if_splits dest!: map_of_SomeD)

lemma SetGetBuffer_spec:
  assumes "Service_SetGetBuffer bid s = Inr s'" "sv_inv s"
  shows "sv_inv s'" "st_get_offset (sv_state s') = 0" "sv_put_offset s' = 0"
    "sv_ring_buffer s' = Service_GetTransferBuffer bid s"
    "st_set_get_buffer_count (sv_state s') = u32_add (st_set_get_buffer_count (sv_state s)) 1"
proof -
  let ?s1 = "s\<lparr>sv_put_offset := 0, sv_state := (sv_state s)\<lparr>st_get_offset := 0,
       st_set_get_buffer_count := u32_add (st_set_get_buffer_count (sv_state s)) 1\<rparr>\<rparr>"
  have g: "Service_GetTransferBuffer bid ?s1 = Service_GetTransferBuffer bid s"
    by (simp add: Service_GetTransferBuffer_def)
  consider (none) "Service_GetTransferBuffer bid s = None"
      "s' = Service_UpdateState (?s1\<lparr>sv_num_entries := 0, sv_buffer := None, sv_ring_buffer := None\<rparr>)"
    | (some) b where "Service_GetTransferBuffer bid s = Some b" "buf_size b mod 4 = 0"
      "s' = Service_UpdateState (?s1\<lparr>sv_num_entries := i32_of_u32 (buf_size b div 4),
          sv_buffer := Some (buf_memory b, 0), sv_ring_buffer := Some b\<rparr>)"
    using assms(1) g by (auto simp: Service_SetGetBuffer_def Let_def res_simps split: option.splits)
  then have "sv_inv s' \<and> st_get_offset (sv_state s') = 0 \<and> sv_put_offset s' = 0 \<and>
    sv_ring_buffer s' = Service_GetTransferBuffer bid s \<and>
    st_set_get_buffer_count (sv_state s') = u32_add (st_set_get_buffer_count (sv_state s)) 1"
  proof cases
    case none
    with assms(2) show ?thesis
      by (simp add: sv_inv_def ring_ok_def offsets_ok_def registry_ok_def Service_UpdateState_def Let_def)
  next
    case (some b)
    have ok: "buffer_ok (sv_heap s) b" using some(1) assms(2) by (auto simp: sv_inv_def intro: GetTransferBuffer_ok)
    then have "buf_size b div 4 < 2 ^ 31" by (simp add: buffer_ok_def less_mult_imp_div_less)
    with ok some assms(2) show ?thesis
      by (simp add: sv_inv_def ring_ok_def offsets_ok_def registry_ok_def Service_UpdateState_def Let_def i32_of_u32_small)
  qed
  then show "sv_inv s'" "st_get_offset (sv_state s') = 0" "sv_put_offset s' = 0"
    "sv_ring_buffer s' = Service_GetTransferBuffer bid s"
    "st_set_get_buffer_count (sv_state s') = u32_add (st_set_get_buffer_count (sv_state s)) 1" by blast+
qed

lemma DestroyTransferBuffer_inv:
  assumes "sv_inv s"
  shows "\<exists>s'. Service_DestroyTransferBuffer bid s = Inr s' \<and> sv_inv s' \<and> sv_ring_buffer s' = sv_ring_buffer s"
proof -
  obtain m where m: "TransferBufferManager_DestroyTransferBuffer bid (sv_tbm s) = Inr m" "tbm_inv m"
    using DestroyTransferBuffer_spec [of "sv_tbm s" bid] assms by (auto simp: sv_inv_def registry_ok_def)
  moreover from m(1) have "set (registered_buffers m) \<subseteq> set (registered_buffers (sv_tbm s))"
    by (auto simp: TransferBufferManager_DestroyTransferBuffer_def res_simps split: option.splits)
  ultimately show ?thesis
    using assms by (auto simp: Service_DestroyTransferBuffer_def sv_inv_def ring_ok_def offsets_ok_def registry_ok_def
        split: option.splits)
qed

lemma CreateTransferBufferWithId_inv:
  assumes "sv_inv (fst w)" "sz < 2 ^ 32" "Service_CreateTransferBufferWithId cl sz bid w = (b, w')"
    and "\<And>w. sv_inv (fst w) \<Longrightarrow> sv_inv (fst (Service_SetParseError cl kOutOfBounds w))"
  shows "sv_inv (fst w')"
proof -
  let ?hp = "sv_heap (fst w) @ [replicate sz 0]"
    and ?b = "\<lparr>buf_memory = length (sv_heap (fst w)), buf_size = sz\<rparr>"
  obtain ok m where r: "TransferBufferManager_RegisterTransferBuffer bid ?b (sv_tbm (fst w)) = (ok, m)"
    by fastforce
  let ?s1 = "(fst w)\<lparr>sv_heap := ?hp, sv_tbm := m\<rparr>"
  have bok: "buffer_ok ?hp ?b" using assms(2) by (simp add: buffer_ok_def)
  have "tbm_inv m" using r assms(1) by (auto simp: sv_inv_def registry_ok_def intro: RegisterTransferBuffer_spec)
  moreover have "set (registered_buffers m) \<subseteq> insert (bid, ?b) (set (registered_buffers (sv_tbm (fst w))))"
    using r by (auto simp: TransferBufferManager_RegisterTransferBuffer_def split: if_splits)
  ultimately have "registry_ok ?s1"
    using assms(1) bok by (fastforce simp: registry_ok_def sv_inv_def)
  then have "sv_inv ?s1"
    using assms(1) by (auto simp: sv_inv_def ring_ok_def offsets_ok_def split: option.splits)
  then show ?thesis
    using assms(3) r assms(4) [of "(?s1, snd w)"]
    by (auto simp: Service_CreateTransferBufferWithId_def MakeMemoryBuffer_def Service_RegisterTransferBuffer_def
        split: if_splits)
qed

section \<open>The handler's contract and the flush loop\<close>

text \<open>The end of the run of entries from the get offset, and how many entries are left.\<close>

definition loop_stop :: "service \<Rightarrow> i32" where
  "loop_stop s = (if sv_put_offset s < st_get_offset (sv_state s) then sv_num_entries s else sv_put_offset s)"

definition entries_left :: "service \<Rightarrow> nat" where
  "entries_left s = nat (if sv_put_offset s < st_get_offset (sv_state s)
     then sv_num_entries s - st_get_offset (sv_state s) + sv_put_offset s
     else sv_put_offset s - st_get_offset (sv_state s))"

lemma entries_left_0: "sv_inv s \<Longrightarrow> entries_left s = 0 \<longleftrightarrow> sv_put_offset s = st_get_offset (sv_state s)"
  by (auto simp: sv_inv_def offsets_ok_def entries_left_def)

lemma advance_wrap:
  assumes "sv_inv s" "sv_put_offset s \<noteq> st_get_offset (sv_state s)" "0 \<le> m"
    "m \<le> loop_stop s - st_get_offset (sv_state s)"
  shows "st_get_offset (sv_state (advance_get m s)) \<le> sv_num_entries (advance_get m s)"
    "sv_inv (wrap_get (advance_get m s))"
    "(if st_get_offset (sv_state (advance_get m s)) = sv_num_entries (advance_get m s)
      then sv_put_offset (advance_get m s) else loop_stop s) = loop_stop (wrap_get (advance_get m s))"
    "int (entries_left (wrap_get (advance_get m s))) = int (entries_left s) - m"
  using assms
  by (auto simp: sv_inv_def offsets_ok_def ring_ok_def registry_ok_def advance_get_def wrap_get_def loop_stop_def
      entries_left_def split: option.splits if_splits)

text \<open>
  What the service relies on: a handler and a client that leave the ring and the offsets alone,
  and a handler that does not claim to have processed more entries than it was given. \<open>dinv\<close> is an
  invariant of service and handler together; it has to hold again when the service has advanced
  its get offset over what was processed.
\<close>

locale service_handler =
  fixes cl :: "'c service_client" and handler :: "'c async_api" and dinv einv :: "'c world \<Rightarrow> bool"
  assumes dinv_paused: "dinv w \<Longrightarrow> dinv ((fst w)\<lparr>sv_paused := b\<rparr>, snd w)"
    and dinv_einv: "dinv w \<Longrightarrow> einv w"
    and einv_error: "einv w \<Longrightarrow> IsError err \<Longrightarrow> einv ((fst w)\<lparr>sv_state := (sv_state (fst w))\<lparr>st_error := err\<rparr>\<rparr>, snd w)"
    and begin_frame: "sv_inv (fst w) \<Longrightarrow> dinv w \<Longrightarrow>
      sv_frame (fst w) (fst (BeginDecoding_op handler w)) \<and> dinv (BeginDecoding_op handler w)"
    and end_frame: "sv_inv (fst w) \<Longrightarrow> einv w \<Longrightarrow>
      sv_frame (fst w) (fst (EndDecoding_op handler w)) \<and> einv (EndDecoding_op handler w)"
    and do_frame: "sv_inv (fst w) \<Longrightarrow> dinv w \<Longrightarrow> 0 \<le> n \<Longrightarrow>
      st_get_offset (sv_state (fst w)) + n \<le> sv_num_entries (fst w) \<Longrightarrow>
      p = entry_pointer (sv_buffer (fst w)) (st_get_offset (sv_state (fst w))) \<Longrightarrow>
      n = loop_stop (fst w) - st_get_offset (sv_state (fst w)) \<Longrightarrow>
      \<exists>e m w'. DoCommands_op handler k p n w = Inr (e, m, w') \<and> sv_frame (fst w) (fst w') \<and>
        einv (wrap_get (advance_get m (fst w')), snd w') \<and>
        (\<not> IsError e \<longrightarrow> dinv (wrap_get (advance_get m (fst w')), snd w')) \<and> 0 \<le> m \<and> m \<le> n"
    and batch_frame: "sv_inv (fst w) \<Longrightarrow> dinv w \<Longrightarrow> OnCommandBatchProcessed_op cl w = (b, w') \<Longrightarrow>
      sv_frame (fst w) (fst w') \<and> dinv w'"
    and parse_error_frame: "sv_inv (fst w) \<Longrightarrow> einv w \<Longrightarrow>
      sv_frame (fst w) (fst (OnParseError_op cl w)) \<and> einv (OnParseError_op cl w)"

text \<open>
  A handler that makes progress: what it accepts it consumes, and neither it nor the client
  pauses the service.
\<close>

locale live_service_handler = service_handler cl handler dinv einv
  for cl :: "'c service_client" and handler :: "'c async_api" and dinv einv :: "'c world \<Rightarrow> bool" +
  assumes begin_scheduled: "sv_scheduled (fst (BeginDecoding_op handler w)) = sv_scheduled (fst w)"
    and do_progress: "sv_inv (fst w) \<Longrightarrow> dinv w \<Longrightarrow> 0 < n \<Longrightarrow> 0 < k \<Longrightarrow>
      DoCommands_op handler k p n w = Inr (e, m, w') \<Longrightarrow> \<not> IsError e \<Longrightarrow> 0 < m"
    and do_scheduled: "sv_inv (fst w) \<Longrightarrow> dinv w \<Longrightarrow> 0 \<le> n \<Longrightarrow> DoCommands_op handler k p n w = Inr (e, m, w') \<Longrightarrow>
      sv_scheduled (fst w') = sv_scheduled (fst w)"
    and batch_continues: "OnCommandBatchProcessed_op cl w = (False, w)"
    and parse_error_kept: "st_error (sv_state (fst (OnParseError_op cl w))) = st_error (sv_state (fst w))"
    and end_error: "st_error (sv_state (fst (EndDecoding_op handler w))) = st_error (sv_state (fst w))"
    and end_dinv: "sv_inv (fst w) \<Longrightarrow> dinv w \<Longrightarrow> dinv (EndDecoding_op handler w)"

lemma out_of_bounds_error: "IsError kOutOfBounds"
  by (simp add: IsError_def)

context service_handler
begin

lemma SetParseError_keeps:
  assumes "sv_inv (fst w)" "einv w" "IsError e"
  shows "sv_inv (fst (Service_SetParseError cl e w)) \<and> einv (Service_SetParseError cl e w) \<and>
    sv_frame (fst w) (fst (Service_SetParseError cl e w))"
proof (cases "st_error (sv_state (fst w)) = kNoError")
  case True
  let ?w = "((fst w)\<lparr>sv_state := (sv_state (fst w))\<lparr>st_error := e\<rparr>\<rparr>, snd w)"
  have f: "sv_frame (fst w) (fst ?w)" by (simp add: sv_frame_def)
  have "sv_inv (fst ?w)" "einv ?w" using sv_inv_frame [OF f assms(1)] einv_error [OF assms(2,3)] by simp_all
  from parse_error_frame [OF this] sv_inv_frame [OF _ this(1)] sv_frame_trans [OF f]
  have "sv_inv (fst (OnParseError_op cl ?w)) \<and> einv (OnParseError_op cl ?w) \<and> sv_frame (fst w) (fst (OnParseError_op cl ?w))"
    by blast
  with True show ?thesis by (simp add: Service_SetParseError_def)
qed (use assms in \<open>simp add: Service_SetParseError_def\<close>)

text \<open>One round of the loop: the state after it, before the client is asked.\<close>

lemma loop_round:
  assumes "sv_inv (fst w)" "dinv w" "sv_put_offset (fst w) \<noteq> st_get_offset (sv_state (fst w))"
  obtains e m s1 c1 where
    "DoCommands_op handler k (entry_pointer (sv_buffer (fst w)) (st_get_offset (sv_state (fst w))))
       (loop_stop (fst w) - st_get_offset (sv_state (fst w))) w = Inr (e, m, (s1, c1))"
    "sv_frame (fst w) s1" "0 \<le> m" "m \<le> loop_stop (fst w) - st_get_offset (sv_state (fst w))"
    "st_get_offset (sv_state (advance_get m s1)) \<le> sv_num_entries (advance_get m s1)"
    "sv_inv (wrap_get (advance_get m s1))" "einv (wrap_get (advance_get m s1), c1)"
    "\<not> IsError e \<longrightarrow> dinv (wrap_get (advance_get m s1), c1)"
    "(if st_get_offset (sv_state (advance_get m s1)) = sv_num_entries (advance_get m s1)
      then sv_put_offset (advance_get m s1) else loop_stop (fst w)) = loop_stop (wrap_get (advance_get m s1))"
    "int (entries_left (wrap_get (advance_get m s1))) = int (entries_left (fst w)) - m"
proof -
  let ?n = "loop_stop (fst w) - st_get_offset (sv_state (fst w))"
  have n: "0 \<le> ?n" "st_get_offset (sv_state (fst w)) + ?n \<le> sv_num_entries (fst w)"
    using assms(1,3) by (auto simp: sv_inv_def offsets_ok_def loop_stop_def ring_ok_def split: option.splits)
  obtain e m s1 c1 where d: "DoCommands_op handler k (entry_pointer (sv_buffer (fst w)) (st_get_offset (sv_state (fst w)))) ?n w = Inr (e, m, (s1, c1))"
    "sv_frame (fst w) s1" "einv (wrap_get (advance_get m s1), c1)" "\<not> IsError e \<longrightarrow> dinv (wrap_get (advance_get m s1), c1)" "0 \<le> m" "m \<le> ?n"
    using do_frame [OF assms(1,2) n refl refl, of k] by auto
  have eq: "loop_stop s1 = loop_stop (fst w)" "entries_left s1 = entries_left (fst w)"
    "st_get_offset (sv_state s1) = st_get_offset (sv_state (fst w))" "sv_put_offset s1 = sv_put_offset (fst w)"
    using d(2) by (auto simp: sv_frame_def loop_stop_def entries_left_def)
  have "sv_put_offset s1 \<noteq> st_get_offset (sv_state s1)" "m \<le> loop_stop s1 - st_get_offset (sv_state s1)"
    using eq assms(3) d(6) by simp_all
  note aw = advance_wrap [OF sv_inv_frame [OF d(2) assms(1)] this(1) d(5) this(2), unfolded eq]
  show thesis by (rule that [OF d(1,2,5,6) aw(1,2) d(3,4) aw(3,4)])
qed

lemma batch_keeps:
  assumes "sv_inv (fst w)" "dinv w" "OnCommandBatchProcessed_op cl w = (b, w')"
  shows "sv_inv (fst w')" "dinv w'" "loop_stop (fst w') = loop_stop (fst w)"
    "sv_inv ((fst w')\<lparr>sv_paused := True\<rparr>)" "dinv ((fst w')\<lparr>sv_paused := True\<rparr>, snd w')"
proof -
  from batch_frame [OF assms] have f: "sv_frame (fst w) (fst w')" and d: "dinv w'" by auto
  from sv_inv_frame [OF f assms(1)] show i: "sv_inv (fst w')" .
  show "dinv w'" by (rule d)
  show "loop_stop (fst w') = loop_stop (fst w)" using f by (simp add: sv_frame_def loop_stop_def)
  show "sv_inv ((fst w')\<lparr>sv_paused := True\<rparr>)" by (rule sv_inv_frame [OF _ i]) (simp add: sv_frame_def)
  show "dinv ((fst w')\<lparr>sv_paused := True\<rparr>, snd w')" by (rule dinv_paused [OF d])
qed

lemma round_keeps:
  assumes "sv_inv (fst w)" "dinv w"
  shows "Service_Flush_round cl handler k (loop_stop (fst w)) w = Inl (stop, w') \<Longrightarrow>
      sv_inv (fst w') \<and> dinv w' \<and> stop = loop_stop (fst w')"
    and "Service_Flush_round cl handler k (loop_stop (fst w)) w = Inr r \<Longrightarrow>
      \<exists>w'. r = Inr w' \<and> sv_inv (fst w') \<and> einv w'"
proof -
  have "(\<exists>w'. Service_Flush_round cl handler k (loop_stop (fst w)) w = Inl (loop_stop (fst w'), w') \<and> sv_inv (fst w') \<and> dinv w') \<or>
    (\<exists>w'. Service_Flush_round cl handler k (loop_stop (fst w)) w = Inr (Inr w') \<and> sv_inv (fst w') \<and> einv w')"
  proof (cases "sv_put_offset (fst w) = st_get_offset (sv_state (fst w))")
    case True
    with assms dinv_einv [OF assms(2)] show ?thesis by (intro disjI2 exI [of _ w]) (simp add: Service_Flush_round_def)
  next
    case False
    obtain e m s1 c1 where d: "DoCommands_op handler k (entry_pointer (sv_buffer (fst w)) (st_get_offset (sv_state (fst w))))
       (loop_stop (fst w) - st_get_offset (sv_state (fst w))) w = Inr (e, m, (s1, c1))"
      and le: "st_get_offset (sv_state (advance_get m s1)) \<le> sv_num_entries (advance_get m s1)"
      and inv: "sv_inv (wrap_get (advance_get m s1))" "einv (wrap_get (advance_get m s1), c1)"
        "\<not> IsError e \<longrightarrow> dinv (wrap_get (advance_get m s1), c1)"
      and stop: "(if st_get_offset (sv_state (advance_get m s1)) = sv_num_entries (advance_get m s1)
      then sv_put_offset (advance_get m s1) else loop_stop (fst w)) = loop_stop (wrap_get (advance_get m s1))"
      by (rule loop_round [OF assms False])
    let ?w2 = "(wrap_get (advance_get m s1), c1)"
    have inv2: "sv_inv (fst ?w2)" using inv by simp
    obtain b w3 where b: "OnCommandBatchProcessed_op cl ?w2 = (b, w3)" by (cases "OnCommandBatchProcessed_op cl ?w2")
    show ?thesis
    proof (cases "IsError e")
      case True
      then have "Service_Flush_round cl handler k (loop_stop (fst w)) w = Inr (Inr (Service_SetParseError cl e ?w2))"
        using False d le by (simp add: Service_Flush_round_def Let_def)
      with SetParseError_keeps [OF inv2 inv(2) True] show ?thesis by blast
    next
      case ne: False
      note bk = batch_keeps [OF inv2 mp [OF inv(3) ne] b]
      have "Service_Flush_round cl handler k (loop_stop (fst w)) w =
          (if b then Inr (Inr ((fst w3)\<lparr>sv_paused := True\<rparr>, snd w3))
           else if \<not> sv_scheduled (fst w3) then Inr (Inr w3) else Inl (loop_stop (fst w3), w3))"
        using False d le b stop bk(3) ne by (simp add: Service_Flush_round_def Let_def)
      note eq = this
      consider b | "\<not> b" "\<not> sv_scheduled (fst w3)" | "\<not> b" "sv_scheduled (fst w3)" by blast
      then show ?thesis
      proof cases
        case 1
        with bk(4) dinv_einv [OF bk(5)] eq show ?thesis
          by (intro disjI2 exI [of _ "((fst w3)\<lparr>sv_paused := True\<rparr>, snd w3)"]) simp
      next
        case 2
        with bk(1) dinv_einv [OF bk(2)] eq show ?thesis by (intro disjI2 exI [of _ w3]) simp
      next
        case 3
        with bk eq show ?thesis by (intro disjI1 exI [of _ w3]) simp
      qed
    qed
  qed
  then show "Service_Flush_round cl handler k (loop_stop (fst w)) w = Inl (stop, w') \<Longrightarrow>
      sv_inv (fst w') \<and> dinv w' \<and> stop = loop_stop (fst w')"
    "Service_Flush_round cl handler k (loop_stop (fst w)) w = Inr r \<Longrightarrow>
      \<exists>w'. r = Inr w' \<and> sv_inv (fst w') \<and> einv w'" by auto
qed

lemma Flush_loop_safe:
  assumes "Service_Flush_loop cl handler k stop w = Some r" "sv_inv (fst w)" "dinv w" "stop = loop_stop (fst w)"
  shows "\<exists>w'. r = Inr w' \<and> sv_inv (fst w') \<and> einv w'"
proof -
  let ?P = "\<lambda>cl' handler' k stop w r. cl' = cl \<longrightarrow> handler' = handler \<longrightarrow> sv_inv (fst w) \<longrightarrow> dinv w \<longrightarrow>
      stop = loop_stop (fst w) \<longrightarrow> (\<exists>w'. r = Inr w' \<and> sv_inv (fst w') \<and> einv w')"
  have "?P cl handler k stop w r"
  proof (rule Service_Flush_loop.raw_induct [where P = ?P, OF _ assms(1)], intro impI)
    fix loop cl' handler' k stop w r
    assume IH: "\<And>cl' handler' k stop w r. loop cl' handler' k stop w = Some r \<Longrightarrow> ?P cl' handler' k stop w r"
      and step: "(case Service_Flush_round cl' handler' k stop w of
          Inl p \<Rightarrow> loop cl' handler' k (fst p) (snd p) | Inr r \<Rightarrow> Some r) = Some r"
      and eq: "cl' = cl" "handler' = handler" and w: "sv_inv (fst w)" "dinv w" "stop = loop_stop (fst w)"
    show "\<exists>w'. r = Inr w' \<and> sv_inv (fst w') \<and> einv w'"
    proof (cases "Service_Flush_round cl handler k stop w")
      case (Inl p)
      with step eq have "loop cl' handler' k (fst p) (snd p) = Some r" by simp
      from IH [OF this] round_keeps(1) [OF w(1,2), of k "fst p" "snd p"] Inl w(3) eq show ?thesis by simp
    next
      case (Inr r')
      with step eq have "r' = r" by simp
      with round_keeps(2) [OF w(1,2), of k r] Inr w(3) show ?thesis by simp
    qed
  qed
  with assms show ?thesis by blast
qed

end

lemma sv_inv_set_put:
  assumes "sv_inv s" "0 \<le> put" "put < sv_num_entries s"
  shows "sv_inv (s\<lparr>sv_put_offset := put, sv_paused := p\<rparr>)" "sv_inv (s\<lparr>sv_put_offset := put\<rparr>)"
  using assms by (auto simp: sv_inv_def ring_ok_def offsets_ok_def registry_ok_def split: option.splits)

context service_handler
begin

text \<open>A flush that returns did not fail an assertion and kept the invariant.\<close>

theorem Flush_safe:
  assumes "Service_Flush cl handler k put w = Some r" "sv_inv (fst w)" "einv w" "sv_scheduled (fst w)"
    "0 \<le> put \<Longrightarrow> put < sv_num_entries (fst w) \<Longrightarrow> dinv ((fst w)\<lparr>sv_put_offset := put\<rparr>, snd w)"
  shows "\<exists>w'. r = Inr w' \<and> sv_inv (fst w') \<and> einv w'"
proof (cases "put < 0 \<or> put \<ge> sv_num_entries (fst w)")
  case True
  with assms(1) have "r = Inr (Service_SetParseError cl kOutOfBounds w)" by (simp add: Service_Flush_def)
  with SetParseError_keeps [OF assms(2,3) out_of_bounds_error] show ?thesis by blast
next
  case False
  let ?s = "(fst w)\<lparr>sv_put_offset := put\<rparr>"
  let ?w0 = "(?s\<lparr>sv_paused := False\<rparr>, snd w)"
  let ?w1 = "BeginDecoding_op handler ?w0"
  have buf: "sv_buffer ?s \<noteq> None" using False assms(2) by (auto simp: sv_inv_def ring_ok_def split: option.splits)
  have i0: "sv_inv (fst ?w0)" "sv_inv ?s" and d0: "dinv ?w0" "dinv (?s, snd w)"
    using False sv_inv_set_put(1) [OF assms(2), of put False] sv_inv_set_put(2) [OF assms(2), of put]
      assms(5) dinv_paused [of "(?s, snd w)" False] by auto
  from begin_frame [OF i0(1) d0(1)] have i1: "sv_inv (fst ?w1)" and d1: "dinv ?w1"
    using sv_inv_frame [OF _ i0(1)] by blast+
  consider (err) "st_error (sv_state ?s) \<noteq> kNoError" "r = Inr (?s, snd w)"
    | (lost) "r = Inr (EndDecoding_op handler ?w1)"
    | (loop) r0 where "Service_Flush_loop cl handler k (loop_stop (fst ?w1)) ?w1 = Some r0"
        "r = map_sum id (EndDecoding_op handler) r0"
    using assms(1,4) False buf
    by (auto simp: Service_Flush_def Let_def loop_stop_def split: if_splits)
  then show ?thesis
  proof cases
    case err
    with i0(2) dinv_einv [OF d0(2)] show ?thesis by auto
  next
    case lost
    with end_frame [OF i1 dinv_einv [OF d1]] sv_inv_frame [OF _ i1] show ?thesis by blast
  next
    case (loop r0)
    from Flush_loop_safe [OF loop(1) i1 d1 refl] obtain w2
      where w2: "r0 = Inr w2" "sv_inv (fst w2)" "einv w2" by blast
    with loop(2) have "r = Inr (EndDecoding_op handler w2)" by simp
    with end_frame [OF w2(2,3)] sv_inv_frame [OF _ w2(2)] show ?thesis by blast
  qed
qed

end

context live_service_handler
begin

text \<open>The service has caught up with the put offset.\<close>

definition caught_up :: "i32 \<Rightarrow> 'c world \<Rightarrow> bool" where
  "caught_up put w \<longleftrightarrow> st_get_offset (sv_state (fst w)) = put \<and> sv_put_offset (fst w) = put \<and> dinv w"

lemma caught_up_end:
  assumes "caught_up put w" "sv_inv (fst w)"
  shows "caught_up put (EndDecoding_op handler w)"
  using assms end_frame [OF assms(2) dinv_einv] end_dinv [OF assms(2)]
  by (auto simp: caught_up_def sv_frame_def)

text \<open>The loop ends: every round consumes entries, and it stops at the put offset or at an error.\<close>

lemma Flush_loop_returns:
  assumes "sv_inv (fst w)" "dinv w" "sv_scheduled (fst w)" "0 < k"
  shows "\<exists>w'. Service_Flush_loop cl handler k (loop_stop (fst w)) w = Some (Inr w') \<and>
    (caught_up (sv_put_offset (fst w)) w' \<or> st_error (sv_state (fst w')) \<noteq> kNoError) \<and>
    sv_inv (fst w') \<and> einv w'"
  using assms
proof (induction "entries_left (fst w)" arbitrary: w rule: less_induct)
  case less
  note unf = Service_Flush_loop.simps [of cl handler k "loop_stop (fst w)" w]
  show ?case
  proof (cases "sv_put_offset (fst w) = st_get_offset (sv_state (fst w))")
    case True
    then have "Service_Flush_loop cl handler k (loop_stop (fst w)) w = Some (Inr w)"
      by (subst unf) (simp add: Service_Flush_round_def)
    with True less.prems dinv_einv [OF less.prems(2)] show ?thesis by (auto simp: caught_up_def)
  next
    case False
    obtain e m s1 c1 where d: "DoCommands_op handler k (entry_pointer (sv_buffer (fst w)) (st_get_offset (sv_state (fst w))))
       (loop_stop (fst w) - st_get_offset (sv_state (fst w))) w = Inr (e, m, (s1, c1))" and fr: "sv_frame (fst w) s1"
      and le: "st_get_offset (sv_state (advance_get m s1)) \<le> sv_num_entries (advance_get m s1)"
      and inv: "sv_inv (wrap_get (advance_get m s1))" "einv (wrap_get (advance_get m s1), c1)"
        "\<not> IsError e \<longrightarrow> dinv (wrap_get (advance_get m s1), c1)"
      and stop: "(if st_get_offset (sv_state (advance_get m s1)) = sv_num_entries (advance_get m s1)
      then sv_put_offset (advance_get m s1) else loop_stop (fst w)) = loop_stop (wrap_get (advance_get m s1))"
      and left: "int (entries_left (wrap_get (advance_get m s1))) = int (entries_left (fst w)) - m"
      by (rule loop_round [OF less.prems(1,2) False])
    let ?w2 = "(wrap_get (advance_get m s1), c1)"
    have "0 \<le> loop_stop (fst w) - st_get_offset (sv_state (fst w))"
      using less.prems(1) by (auto simp: sv_inv_def offsets_ok_def loop_stop_def)
    then have sch: "sv_scheduled (fst ?w2)"
      using do_scheduled [OF less.prems(1,2) _ d] less.prems(3) by (simp add: wrap_get_def advance_get_def)
    have put: "sv_put_offset (fst ?w2) = sv_put_offset (fst w)"
      using fr by (simp add: wrap_get_def advance_get_def sv_frame_def)
    have r: "Service_Flush_round cl handler k (loop_stop (fst w)) w =
        (if IsError e then Inr (Inr (Service_SetParseError cl e ?w2)) else Inl (loop_stop (fst ?w2), ?w2))"
      using False d le stop sch by (simp add: Service_Flush_round_def Let_def batch_continues)
    show ?thesis
    proof (cases "IsError e")
      case True
      then have e: "Service_Flush_loop cl handler k (loop_stop (fst w)) w = Some (Inr (Service_SetParseError cl e ?w2))"
        by (subst unf) (simp add: r)
      have i2: "sv_inv (fst ?w2)" using inv by simp
      have "st_error (sv_state (fst (Service_SetParseError cl e ?w2))) \<noteq> kNoError"
        using True by (auto simp: Service_SetParseError_def parse_error_kept IsError_def)
      with e SetParseError_keeps [OF i2 inv(2) True] show ?thesis by blast
    next
      case ne: False
      have "0 < loop_stop (fst w) - st_get_offset (sv_state (fst w))"
        using False less.prems(1) by (auto simp: sv_inv_def offsets_ok_def loop_stop_def)
      from do_progress [OF less.prems(1,2) this less.prems(4) d ne] left
      have "entries_left (fst ?w2) < entries_left (fst w)" by simp
      from less.hyps [OF this _ mp [OF inv(3) ne] sch less.prems(4)] inv(1)
      obtain w' where "Service_Flush_loop cl handler k (loop_stop (fst ?w2)) ?w2 = Some (Inr w')"
        "caught_up (sv_put_offset (fst ?w2)) w' \<or> st_error (sv_state (fst w')) \<noteq> kNoError"
        "sv_inv (fst w')" "einv w'" by auto
      moreover have "Service_Flush_loop cl handler k (loop_stop (fst w)) w =
          Service_Flush_loop cl handler k (loop_stop (fst ?w2)) ?w2"
        by (subst unf) (simp add: r ne)
      ultimately show ?thesis using put by metis
    qed
  qed
qed

theorem Flush_returns:
  assumes "sv_inv (fst w)" "einv w" "sv_scheduled (fst w)" "0 < k"
    "0 \<le> put \<Longrightarrow> put < sv_num_entries (fst w) \<Longrightarrow> dinv ((fst w)\<lparr>sv_put_offset := put\<rparr>, snd w)"
  shows "\<exists>w'. Service_Flush cl handler k put w = Some (Inr w') \<and> sv_inv (fst w') \<and> einv w' \<and>
    (caught_up put w' \<or> st_error (sv_state (fst w')) \<noteq> kNoError)"
proof -
  have "\<exists>w'. Service_Flush cl handler k put w = Some (Inr w') \<and>
    (caught_up put w' \<or> st_error (sv_state (fst w')) \<noteq> kNoError)"
  proof (cases "put < 0 \<or> put \<ge> sv_num_entries (fst w)")
    case True
    have "st_error (sv_state (fst (Service_SetParseError cl kOutOfBounds w))) \<noteq> kNoError"
      by (simp add: Service_SetParseError_def parse_error_kept)
    with True show ?thesis by (simp add: Service_Flush_def)
  next
    case False
    let ?s = "(fst w)\<lparr>sv_put_offset := put\<rparr>"
    let ?w0 = "(?s\<lparr>sv_paused := False\<rparr>, snd w)"
    let ?w1 = "BeginDecoding_op handler ?w0"
    have buf: "sv_buffer ?s \<noteq> None" using False assms(1) by (auto simp: sv_inv_def ring_ok_def split: option.splits)
    have i0: "sv_inv (fst ?w0)" and d0: "dinv ?w0"
      using False sv_inv_set_put(1) [OF assms(1), of put False] assms(5) dinv_paused [of "(?s, snd w)" False] by auto
    from begin_frame [OF i0 d0] have f1: "sv_frame (fst ?w0) (fst ?w1)" and d1: "dinv ?w1" by auto
    note i1 = sv_inv_frame [OF f1 i0]
    have p1: "sv_put_offset (fst ?w1) = put" using f1 by (simp add: sv_frame_def)
    have sch: "sv_scheduled (fst ?w1)" using assms(3) by (simp add: begin_scheduled)
    note expand = Service_Flush_def [of cl handler k put w] Let_def
    show ?thesis
    proof (cases "st_error (sv_state (fst w)) \<noteq> kNoError")
      case True
      with False buf show ?thesis by (simp add: expand)
    next
      case ok: False
      show ?thesis
      proof (cases "st_error (sv_state (fst ?w1)) \<noteq> kNoError")
        case True
        then have "Service_Flush cl handler k put w = Some (Inr (EndDecoding_op handler ?w1))"
          using False buf ok assms(3) by (simp add: expand)
        moreover have "st_error (sv_state (fst (EndDecoding_op handler ?w1))) \<noteq> kNoError"
          using True by (simp add: end_error)
        ultimately show ?thesis by blast
      next
        case ok1: False
        obtain w2 where w2: "Service_Flush_loop cl handler k (loop_stop (fst ?w1)) ?w1 = Some (Inr w2)"
          "caught_up put w2 \<or> st_error (sv_state (fst w2)) \<noteq> kNoError" "sv_inv (fst w2)"
          using Flush_loop_returns [OF i1 d1 sch assms(4)] p1 by auto
        have "Service_Flush cl handler k put w = Some (Inr (EndDecoding_op handler w2))"
          using False buf ok ok1 assms(3) w2(1) by (simp add: expand loop_stop_def)
        moreover have "caught_up put (EndDecoding_op handler w2) \<or>
            st_error (sv_state (fst (EndDecoding_op handler w2))) \<noteq> kNoError"
          using w2(2) caught_up_end [OF _ w2(3)] by (auto simp: end_error)
        ultimately show ?thesis by blast
      qed
    qed
  qed
  with Flush_safe [OF _ assms(1-3,5), of k] show ?thesis by fastforce
qed

end

end
