(* ===== verification/Common_Decoder.thy ===== *)
theory Common_Decoder
  imports Command_Buffer_Service
begin

text \<open>
  \<^verbatim>\<open>gpu/command_buffer/service/common_decoder.{h,cc}\<close> and the command loop
  \<^verbatim>\<open>GLES2DecoderImpl::DoCommandsImpl\<close> of \<^verbatim>\<open>gles2_cmd_decoder.cc\<close>: reading commands from shared
  memory, checking them, and executing the commands common to all decoders (tokens, buckets,
  fence syncs).

  The commands of the graphics API itself are a table that is an argument of the loop, and so is
  \<^verbatim>\<open>DecoderClient::OnFenceSyncRelease\<close>.
\<close>

section \<open>Buckets\<close>

text \<open>The null \<^verbatim>\<open>data_\<close> of an empty bucket is \<open>None\<close>.\<close>

record bucket =
  bkt_size :: nat
  bkt_data :: "bytes option"

definition new_Bucket :: bucket where
  "new_Bucket = \<lparr>bkt_size = 0, bkt_data = None\<rparr>"

definition Bucket_OffsetSizeValid :: "bucket \<Rightarrow> nat \<Rightarrow> nat \<Rightarrow> bool" where
  "Bucket_OffsetSizeValid b offset sz \<longleftrightarrow> offset + sz < 2 ^ 64 \<and> offset + sz \<le> bkt_size b"

text \<open>The bytes a caller may read behind the pointer; \<open>None\<close> is the null pointer.\<close>

definition Bucket_GetData :: "bucket \<Rightarrow> nat \<Rightarrow> nat \<Rightarrow> bytes option" where
  "Bucket_GetData b offset sz =
     (if Bucket_OffsetSizeValid b offset sz then map_option (\<lambda>d. take sz (drop offset d)) (bkt_data b)
      else None)"

definition Bucket_SetSize :: "nat \<Rightarrow> bucket \<Rightarrow> bucket" where
  "Bucket_SetSize sz b =
     (if sz \<noteq> bkt_size b then \<lparr>bkt_size = sz, bkt_data = (if sz = 0 then None else Some (replicate sz 0))\<rparr>
      else b)"

text \<open>\<open>src\<close> holds the \<open>sz\<close> bytes that are copied.\<close>

definition Bucket_SetData :: "bytes \<Rightarrow> nat \<Rightarrow> nat \<Rightarrow> bucket \<Rightarrow> bool \<times> bucket" where
  "Bucket_SetData src offset sz b =
     (if Bucket_OffsetSizeValid b offset sz
      then (True, b\<lparr>bkt_data := map_option (\<lambda>d. overwrite d offset (take sz src)) (bkt_data b)\<rparr>)
      else (False, b))"

text \<open>The C string is given without its terminating NUL.\<close>

definition Bucket_SetFromString :: "bytes option \<Rightarrow> bucket \<Rightarrow> bucket" where
  "Bucket_SetFromString str b =
     (case str of
        None \<Rightarrow> Bucket_SetSize 0 b
      | Some cs \<Rightarrow>
          snd (Bucket_SetData (cs @ [0]) 0 (length cs + 1) (Bucket_SetSize (length cs + 1) b)))"

definition Bucket_GetAsString :: "bucket \<Rightarrow> bytes option" where
  "Bucket_GetAsString b = (if bkt_size b = 0 then None else Bucket_GetData b 0 (bkt_size b - 1))"

section \<open>Decoder state\<close>

record 'x decoder =
  dc_buckets :: "(u32 \<times> bucket) list"
  dc_max_bucket_size :: nat
  dc_commands_to_process :: int
  dc_current_decoder_error :: gpu_error
  dc_api :: 'x

definition kDefaultMaxBucketSize :: nat where
  "kDefaultMaxBucketSize = 2 ^ 30"

definition new_decoder :: "'x \<Rightarrow> 'x decoder" where
  "new_decoder x = \<lparr>dc_buckets = [], dc_max_bucket_size = kDefaultMaxBucketSize, dc_commands_to_process = 0,
     dc_current_decoder_error = kNoError, dc_api = x\<rparr>"

type_synonym 'x dworld = "'x decoder world"

definition CommonDecoder_GetBucket :: "u32 \<Rightarrow> 'x decoder \<Rightarrow> bucket option" where
  "CommonDecoder_GetBucket bucket_id d = map_of (dc_buckets d) bucket_id"

definition put_bucket :: "u32 \<Rightarrow> bucket \<Rightarrow> 'x decoder \<Rightarrow> 'x decoder" where
  "put_bucket bucket_id b d =
     d\<lparr>dc_buckets := (bucket_id, b) # filter (\<lambda>e. fst e \<noteq> bucket_id) (dc_buckets d)\<rparr>"

definition CommonDecoder_CreateBucket :: "u32 \<Rightarrow> 'x decoder \<Rightarrow> bucket \<times> 'x decoder" where
  "CommonDecoder_CreateBucket bucket_id d =
     (case CommonDecoder_GetBucket bucket_id d of
        Some b \<Rightarrow> (b, d)
      | None \<Rightarrow> (new_Bucket, put_bucket bucket_id new_Bucket d))"

definition CommonDecoder_GetAddressAndCheckSize :: "u32 \<Rightarrow> u32 \<Rightarrow> u32 \<Rightarrow> service \<Rightarrow> pointer option" where
  "CommonDecoder_GetAddressAndCheckSize shm_id data_offset data_size s =
     (case Service_GetTransferBuffer (i32_of_u32 shm_id) s of
        None \<Rightarrow> None
      | Some buffer \<Rightarrow> Buffer_GetDataAddress buffer data_offset data_size)"

definition CommonDecoder_GetAddressAndSize :: "u32 \<Rightarrow> u32 \<Rightarrow> u32 \<Rightarrow> service \<Rightarrow> (pointer \<times> u32) option" where
  "CommonDecoder_GetAddressAndSize shm_id data_offset minimum_size s =
     (case Service_GetTransferBuffer (i32_of_u32 shm_id) s of
        None \<Rightarrow> None
      | Some buffer \<Rightarrow>
          if Buffer_GetRemainingSize buffer data_offset < minimum_size then None
          else Buffer_GetDataAddressAndSize buffer data_offset)"

definition CommonDecoder_GetSharedMemorySize :: "u32 \<Rightarrow> u32 \<Rightarrow> service \<Rightarrow> u32" where
  "CommonDecoder_GetSharedMemorySize shm_id offset s =
     (case Service_GetTransferBuffer (i32_of_u32 shm_id) s of
        None \<Rightarrow> 0
      | Some buffer \<Rightarrow> Buffer_GetRemainingSize buffer offset)"

section \<open>The common commands\<close>

text \<open>Entry \<open>i\<close> of the command at \<open>cmd\<close>, as the fields of its structure are read.\<close>

definition arg :: "'x dworld \<Rightarrow> pointer \<Rightarrow> nat \<Rightarrow> u32" where
  "arg w cmd i = read_entry (sv_heap (fst w)) cmd i"

definition HandleNoop :: "u32 \<Rightarrow> pointer \<Rightarrow> 'x dworld \<Rightarrow> gpu_error \<times> 'x dworld" where
  "HandleNoop immediate_data_size cmd w = (kNoError, w)"

definition HandleSetToken :: "u32 \<Rightarrow> pointer \<Rightarrow> 'x dworld \<Rightarrow> gpu_error \<times> 'x dworld" where
  "HandleSetToken immediate_data_size cmd w =
     (kNoError, (Service_SetToken (i32_of_u32 (arg w cmd 1)) (fst w), snd w))"

definition HandleSetBucketSize :: "u32 \<Rightarrow> pointer \<Rightarrow> 'x dworld \<Rightarrow> gpu_error \<times> 'x dworld" where
  "HandleSetBucketSize immediate_data_size cmd w =
     (let bucket_id = arg w cmd 1; sz = arg w cmd 2
      in if sz > dc_max_bucket_size (snd w) then (kOutOfBounds, w)
         else case CommonDecoder_CreateBucket bucket_id (snd w) of
           (b, d) \<Rightarrow> (kNoError, (fst w, put_bucket bucket_id (Bucket_SetSize sz b) d)))"

text \<open>The end of both commands that fill a bucket.\<close>

definition set_bucket_data :: "u32 \<Rightarrow> bytes \<Rightarrow> u32 \<Rightarrow> u32 \<Rightarrow> 'x dworld \<Rightarrow> gpu_error \<times> 'x dworld" where
  "set_bucket_data bucket_id src offset sz w =
     (case CommonDecoder_GetBucket bucket_id (snd w) of
        None \<Rightarrow> (kInvalidArguments, w)
      | Some b \<Rightarrow>
          (case Bucket_SetData src offset sz b of (ok, b1) \<Rightarrow>
             if \<not> ok then (kInvalidArguments, w)
             else (kNoError, (fst w, put_bucket bucket_id b1 (snd w)))))"

definition HandleSetBucketData :: "u32 \<Rightarrow> pointer \<Rightarrow> 'x dworld \<Rightarrow> gpu_error \<times> 'x dworld" where
  "HandleSetBucketData immediate_data_size cmd w =
     (let bucket_id = arg w cmd 1; offset = arg w cmd 2; sz = arg w cmd 3
      in case CommonDecoder_GetAddressAndCheckSize (arg w cmd 4) (arg w cmd 5) sz (fst w) of
           None \<Rightarrow> (kInvalidArguments, w)
         | Some data \<Rightarrow> set_bucket_data bucket_id (read_bytes (sv_heap (fst w)) data sz) offset sz w)"

definition HandleSetBucketDataImmediate :: "u32 \<Rightarrow> pointer \<Rightarrow> 'x dworld \<Rightarrow> gpu_error \<times> 'x dworld" where
  "HandleSetBucketDataImmediate immediate_data_size cmd w =
     (let bucket_id = arg w cmd 1; offset = arg w cmd 2; sz = arg w cmd 3;
          data = (fst cmd, snd cmd + sizeof_command kSetBucketDataImmediate)
      in if sz > immediate_data_size then (kInvalidArguments, w)
         else set_bucket_data bucket_id (read_bytes (sv_heap (fst w)) data sz) offset sz w)"

definition store_heap :: "pointer \<Rightarrow> bytes \<Rightarrow> 'x dworld \<Rightarrow> 'x dworld" where
  "store_heap p bs w = ((fst w)\<lparr>sv_heap := write_bytes (sv_heap (fst w)) p bs\<rparr>, snd w)"

definition HandleGetBucketStart :: "u32 \<Rightarrow> pointer \<Rightarrow> 'x dworld \<Rightarrow> gpu_error \<times> 'x dworld" where
  "HandleGetBucketStart immediate_data_size cmd w =
     (let bucket_id = arg w cmd 1;
          result = CommonDecoder_GetAddressAndCheckSize (arg w cmd 2) (arg w cmd 3) 4 (fst w);
          data_memory_size = arg w cmd 4; data_memory_id = arg w cmd 5; data_memory_offset = arg w cmd 6;
          wanted = (data_memory_size \<noteq> 0 \<or> data_memory_id \<noteq> 0 \<or> data_memory_offset \<noteq> 0);
          data = (if wanted then CommonDecoder_GetAddressAndCheckSize data_memory_id data_memory_offset
                                    data_memory_size (fst w)
                  else None)
      in if wanted \<and> data = None then (kInvalidArguments, w)
         else case result of
           None \<Rightarrow> (kInvalidArguments, w)
         | Some rp \<Rightarrow>
             if LoadU32Unaligned (read_bytes (sv_heap (fst w)) rp 4) \<noteq> 0 then (kInvalidArguments, w)
             else case CommonDecoder_GetBucket bucket_id (snd w) of
               None \<Rightarrow> (kInvalidArguments, w)
             | Some b \<Rightarrow>
                 (let bucket_size = bkt_size b mod 2 ^ 32;
                      w1 = store_heap rp (StoreU32Unaligned bucket_size) w;
                      sz = min data_memory_size bucket_size
                  in case data of
                       None \<Rightarrow> (kNoError, w1)
                     | Some dp \<Rightarrow>
                         (kNoError, (case Bucket_GetData b 0 sz of
                                       Some bs \<Rightarrow> store_heap dp bs w1
                                     | None \<Rightarrow> w1))))"

definition HandleGetBucketData :: "u32 \<Rightarrow> pointer \<Rightarrow> 'x dworld \<Rightarrow> gpu_error \<times> 'x dworld" where
  "HandleGetBucketData immediate_data_size cmd w =
     (let bucket_id = arg w cmd 1; offset = arg w cmd 2; sz = arg w cmd 3
      in case CommonDecoder_GetAddressAndCheckSize (arg w cmd 4) (arg w cmd 5) sz (fst w) of
           None \<Rightarrow> (kInvalidArguments, w)
         | Some dp \<Rightarrow>
             (case CommonDecoder_GetBucket bucket_id (snd w) of
                None \<Rightarrow> (kInvalidArguments, w)
              | Some b \<Rightarrow>
                  (case Bucket_GetData b offset sz of
                     None \<Rightarrow> (kInvalidArguments, w)
                   | Some bs \<Rightarrow> (kNoError, store_heap dp bs w))))"

definition ExitCommandProcessingEarly :: "'x decoder \<Rightarrow> 'x decoder" where
  "ExitCommandProcessingEarly d = d\<lparr>dc_commands_to_process := 0\<rparr>"

definition HandleInsertFenceSync ::
  "(u64 \<Rightarrow> 'x dworld \<Rightarrow> 'x dworld) \<Rightarrow> u32 \<Rightarrow> pointer \<Rightarrow> 'x dworld \<Rightarrow> gpu_error \<times> 'x dworld" where
  "HandleInsertFenceSync OnFenceSyncRelease immediate_data_size cmd w =
     (let w1 = OnFenceSyncRelease (InsertFenceSync_release_count (arg w cmd 1) (arg w cmd 2)) w
      in (kNoError, (fst w1, ExitCommandProcessingEarly (snd w1))))"

fun common_handler ::
  "(u64 \<Rightarrow> 'x dworld \<Rightarrow> 'x dworld) \<Rightarrow> command_id \<Rightarrow> u32 \<Rightarrow> pointer \<Rightarrow> 'x dworld \<Rightarrow> gpu_error \<times> 'x dworld" where
  "common_handler f kNoop = HandleNoop"
| "common_handler f kSetToken = HandleSetToken"
| "common_handler f kSetBucketSize = HandleSetBucketSize"
| "common_handler f kSetBucketData = HandleSetBucketData"
| "common_handler f kSetBucketDataImmediate = HandleSetBucketDataImmediate"
| "common_handler f kGetBucketStart = HandleGetBucketStart"
| "common_handler f kGetBucketData = HandleGetBucketData"
| "common_handler f kInsertFenceSync = HandleInsertFenceSync f"

text \<open>An entry of a table of commands, and the check of the number of arguments against it.\<close>

record 'x command_info =
  ci_handler :: "u32 \<Rightarrow> pointer \<Rightarrow> 'x dworld \<Rightarrow> gpu_error \<times> 'x dworld"
  ci_arg_flags :: arg_flags
  ci_arg_count :: nat

definition common_command_info :: "(u64 \<Rightarrow> 'x dworld \<Rightarrow> 'x dworld) \<Rightarrow> 'x command_info list" where
  "common_command_info f =
     map (\<lambda>c. \<lparr>ci_handler = common_handler f c, ci_arg_flags = kArgFlags c,
               ci_arg_count = sizeof_command c div 4 - 1\<rparr>) COMMON_COMMAND_BUFFER_CMDS"

definition run_command :: "'x command_info \<Rightarrow> nat \<Rightarrow> pointer \<Rightarrow> 'x dworld \<Rightarrow> gpu_error \<times> 'x dworld" where
  "run_command info arg_count cmd w =
     (if ci_arg_flags info = kFixed \<and> arg_count = ci_arg_count info \<or>
         ci_arg_flags info = kAtLeastN \<and> arg_count \<ge> ci_arg_count info
      then ci_handler info (u32_mul (u32_sub arg_count (ci_arg_count info)) 4) cmd w
      else (kInvalidArguments, w))"

definition DoCommonCommand ::
  "(u64 \<Rightarrow> 'x dworld \<Rightarrow> 'x dworld) \<Rightarrow> nat \<Rightarrow> nat \<Rightarrow> pointer \<Rightarrow> 'x dworld \<Rightarrow> gpu_error \<times> 'x dworld" where
  "DoCommonCommand f command arg_count cmd w =
     (if command < length (common_command_info f)
      then run_command (common_command_info f ! command) arg_count cmd w
      else (kUnknownCommand, w))"

section \<open>The command loop\<close>

definition kFirstGLES2Command :: nat where
  "kFirstGLES2Command = kLastCommonId + 1"

definition do_command ::
  "(u64 \<Rightarrow> 'x dworld \<Rightarrow> 'x dworld) \<Rightarrow> 'x command_info list \<Rightarrow> nat \<Rightarrow> nat \<Rightarrow> pointer \<Rightarrow> 'x dworld \<Rightarrow>
     gpu_error \<times> 'x dworld" where
  "do_command f command_info command arg_count cmd w =
     (let command_index = u32_sub command kFirstGLES2Command
      in if command_index < length command_info
         then run_command (command_info ! command_index) arg_count cmd w
         else DoCommonCommand f command arg_count cmd w)"

text \<open>An error recorded by the decoder replaces a successful result.\<close>

definition take_decoder_error :: "gpu_error \<times> 'x dworld \<Rightarrow> gpu_error \<times> 'x dworld" where
  "take_decoder_error r =
     (if fst r = kNoError \<and> dc_current_decoder_error (snd (snd r)) \<noteq> kNoError
      then (dc_current_decoder_error (snd (snd r)),
            (fst (snd r), (snd (snd r))\<lparr>dc_current_decoder_error := kNoError\<rparr>))
      else r)"

definition count_command :: "'x dworld \<Rightarrow> 'x dworld" where
  "count_command w = (fst w, (snd w)\<lparr>dc_commands_to_process := dc_commands_to_process (snd w) - 1\<rparr>)"

function DoCommandsImpl_loop ::
  "(u64 \<Rightarrow> 'x dworld \<Rightarrow> 'x dworld) \<Rightarrow> 'x command_info list \<Rightarrow> pointer \<Rightarrow> nat \<Rightarrow> nat \<Rightarrow> 'x dworld \<Rightarrow>
     gpu_error \<times> nat \<times> 'x dworld" where
  "DoCommandsImpl_loop f command_info buffer num_entries process_pos w =
     (if \<not> process_pos < num_entries then (kNoError, process_pos, w)
      else if dc_commands_to_process (snd w) = 0 then (kNoError, process_pos, count_command w)
      else
        let w0 = count_command w;
            cmd = (fst buffer, snd buffer + 4 * process_pos);
            sz = hdr_size (value_header (arg w0 cmd 0));
            command = hdr_command (value_header (arg w0 cmd 0))
        in if sz = 0 then (kInvalidSize, process_pos, w0)
           else if sz + process_pos > num_entries then (kOutOfBounds, process_pos, w0)
           else (let r = take_decoder_error (do_command f command_info command (sz - 1) cmd w0)
                 in if fst r = kNoError
                    then DoCommandsImpl_loop f command_info buffer num_entries (process_pos + sz) (snd r)
                    else if fst r \<noteq> kDeferCommandUntilLater then (fst r, process_pos + sz, snd r)
                    else (fst r, process_pos, snd r)))"
  by pat_completeness auto
termination
  by (relation "measure (\<lambda>(f, ci, b, n, pos, w). n - pos)") auto

declare DoCommandsImpl_loop.simps [simp del]

definition DoCommandsImpl ::
  "(u64 \<Rightarrow> 'x dworld \<Rightarrow> 'x dworld) \<Rightarrow> 'x command_info list \<Rightarrow> nat \<Rightarrow> pointer \<Rightarrow> int \<Rightarrow> 'x dworld \<Rightarrow>
     (gpu_error \<times> int \<times> 'x dworld) res" where
  "DoCommandsImpl f command_info num_commands buffer num_entries w =
     (case DoCommandsImpl_loop f command_info buffer (nat num_entries) 0
             (fst w, (snd w)\<lparr>dc_commands_to_process := int num_commands\<rparr>) of
        (result, process_pos, w1) \<Rightarrow> Inr (result, int process_pos, w1))"

section \<open>Invariant of the decoder\<close>

definition bucket_ok :: "bucket \<Rightarrow> bool" where
  "bucket_ok b \<longleftrightarrow> (case bkt_data b of None \<Rightarrow> bkt_size b = 0 | Some d \<Rightarrow> 0 < length d \<and> length d = bkt_size b) \<and>
     bkt_size b < 2 ^ 32"

definition decoder_inv :: "'x dworld \<Rightarrow> bool" where
  "decoder_inv w \<longleftrightarrow> (\<forall>e \<in> set (dc_buckets (snd w)). bucket_ok (snd e)) \<and> dc_max_bucket_size (snd w) < 2 ^ 32 \<and>
     dc_current_decoder_error (snd w) \<in> {kNoError, kLostContext}"

text \<open>A step of the decoder: it keeps the service's ring, offsets and schedule, and the invariant.\<close>

definition decoder_step :: "'x dworld \<Rightarrow> 'x dworld \<Rightarrow> bool" where
  "decoder_step w w' \<longleftrightarrow> sv_frame (fst w) (fst w') \<and> sv_scheduled (fst w') = sv_scheduled (fst w) \<and> decoder_inv w'"

lemma decoder_step_refl: "decoder_inv w \<Longrightarrow> decoder_step w w"
  by (simp add: decoder_step_def)

lemma decoder_step_trans: "decoder_step w w1 \<Longrightarrow> decoder_step w1 w2 \<Longrightarrow> decoder_step w w2"
  by (auto simp: decoder_step_def intro: sv_frame_trans)

lemma new_Bucket_ok: "bucket_ok new_Bucket"
  by (simp add: bucket_ok_def new_Bucket_def)

lemma SetSize_ok: "bucket_ok b \<Longrightarrow> sz < 2 ^ 32 \<Longrightarrow> bucket_ok (Bucket_SetSize sz b)"
  by (auto simp: bucket_ok_def Bucket_SetSize_def split: option.splits)

lemma SetData_ok:
  assumes "bucket_ok b" "Bucket_SetData src offset sz b = (ok, b')"
  shows "bucket_ok b'"
proof (cases "Bucket_OffsetSizeValid b offset sz")
  case True
  show ?thesis
  proof (cases "bkt_data b")
    case None
    with True assms show ?thesis by (auto simp: Bucket_SetData_def bucket_ok_def)
  next
    case (Some d)
    with assms(1) have d: "0 < length d" "length d = bkt_size b" "bkt_size b < 2 ^ 32"
      by (simp_all add: bucket_ok_def del: length_greater_0_conv)
    have "length (overwrite d offset (take sz src)) = length d"
      using True d by (intro length_overwrite) (auto simp: Bucket_OffsetSizeValid_def)
    moreover have "b' = b\<lparr>bkt_data := Some (overwrite d offset (take sz src))\<rparr>"
      using True Some assms(2) by (simp add: Bucket_SetData_def)
    ultimately show ?thesis using d by (simp add: bucket_ok_def del: length_greater_0_conv)
  qed
qed (use assms in \<open>simp add: Bucket_SetData_def\<close>)

lemma GetData_length: "Bucket_GetData b offset sz = Some bs \<Longrightarrow> bucket_ok b \<Longrightarrow> length bs = sz"
  by (auto simp: Bucket_GetData_def Bucket_OffsetSizeValid_def bucket_ok_def split: if_splits option.splits)

lemma GetBucket_ok: "decoder_inv w \<Longrightarrow> CommonDecoder_GetBucket i (snd w) = Some b \<Longrightarrow> bucket_ok b"
  by (auto simp: decoder_inv_def CommonDecoder_GetBucket_def dest!: map_of_SomeD)

lemma put_bucket_inv: "decoder_inv w \<Longrightarrow> bucket_ok b \<Longrightarrow> decoder_inv (s, put_bucket i b (snd w))"
  by (auto simp: decoder_inv_def put_bucket_def)

lemma GetBucket_put: "CommonDecoder_GetBucket j (put_bucket i b d) = (if j = i then Some b else CommonDecoder_GetBucket j d)"
  by (simp add: CommonDecoder_GetBucket_def put_bucket_def map_of_filter_ne)

text \<open>Memory safety: a checked address can hold what is stored there.\<close>

lemma checked_address_in_bounds:
  assumes "CommonDecoder_GetAddressAndCheckSize shm off sz s = Some p" "registry_ok s"
  shows "fst p < length (sv_heap s) \<and> snd p + sz \<le> length (sv_heap s ! fst p)"
proof -
  from assms(1) obtain b where b: "Service_GetTransferBuffer (i32_of_u32 shm) s = Some b"
    "Buffer_GetDataAddress b off sz = Some p"
    by (auto simp: CommonDecoder_GetAddressAndCheckSize_def split: option.splits)
  from GetDataAddress_in_bounds [OF b(2) GetTransferBuffer_ok [OF assms(2) b(1)]] show ?thesis by auto
qed

lemma map_length_write:
  "snd p + length bs \<le> length (hp ! fst p) \<Longrightarrow> map length (write_bytes hp p bs) = map length hp"
  by (cases "fst p < length hp") (simp_all add: write_bytes_def map_update list_update_same_conv list_update_beyond)

lemma store_heap_step:
  "snd p + length bs \<le> length (sv_heap (fst w) ! fst p) \<Longrightarrow> decoder_inv w \<Longrightarrow> decoder_step w (store_heap p bs w)"
  by (simp add: decoder_step_def store_heap_def sv_frame_def map_length_write decoder_inv_def)

lemma length_write_nth:
  "snd p + length bs \<le> length (hp ! fst p) \<Longrightarrow> length (write_bytes hp p bs ! i) = length (hp ! i)"
  by (cases "i < length hp"; cases "fst p = i") (auto simp: write_bytes_def nth_list_update list_update_beyond)

section \<open>The common commands keep the invariant\<close>

lemma set_bucket_data_step:
  assumes "set_bucket_data i src offset sz w = (e, w')" "decoder_inv w"
  shows "decoder_step w w'"
proof (cases "CommonDecoder_GetBucket i (snd w)")
  case None
  with assms show ?thesis by (simp add: set_bucket_data_def decoder_step_refl)
next
  case (Some b)
  obtain ok b1 where b1: "Bucket_SetData src offset sz b = (ok, b1)" by fastforce
  have "bucket_ok b1" by (rule SetData_ok [OF GetBucket_ok [OF assms(2) Some] b1])
  with assms Some b1 show ?thesis
    by (auto simp: set_bucket_data_def decoder_step_def put_bucket_inv split: if_splits)
qed

lemma HandleSetBucketSize_step:
  assumes "HandleSetBucketSize n cmd w = (e, w')" "decoder_inv w"
  shows "decoder_step w w'"
proof -
  obtain b d where c: "CommonDecoder_CreateBucket (arg w cmd 1) (snd w) = (b, d)" by fastforce
  have b: "bucket_ok b" "decoder_inv (fst w, d)"
    using c assms(2) GetBucket_ok [OF assms(2)] put_bucket_inv [OF assms(2) new_Bucket_ok]
    by (auto simp: CommonDecoder_CreateBucket_def new_Bucket_ok decoder_inv_def [of "(fst w, snd w)"] split: option.splits)
  have "decoder_inv (fst w, put_bucket i (Bucket_SetSize sz b) d)" if "sz < 2 ^ 32" for i sz
    using put_bucket_inv [OF b(2) SetSize_ok [OF b(1) that]] by simp
  moreover have "dc_max_bucket_size (snd w) < 2 ^ 32" using assms(2) by (simp add: decoder_inv_def)
  ultimately show ?thesis
    using assms c by (auto simp: HandleSetBucketSize_def Let_def decoder_step_def split: if_splits)
qed

lemma HandleGetBucketData_step:
  assumes "HandleGetBucketData n cmd w = (e, w')" "decoder_inv w" "registry_ok (fst w)"
  shows "decoder_step w w'"
proof -
  have "decoder_step w (store_heap dp bs w)"
    if "CommonDecoder_GetAddressAndCheckSize i off sz (fst w) = Some dp"
      "CommonDecoder_GetBucket k (snd w) = Some b" "Bucket_GetData b o2 sz = Some bs" for i off sz dp k b o2 bs
    using checked_address_in_bounds [OF that(1) assms(3)] GetData_length [OF that(3) GetBucket_ok [OF assms(2) that(2)]]
    by (intro store_heap_step assms(2)) simp
  then show ?thesis
    using assms(1,2) by (auto simp: HandleGetBucketData_def Let_def decoder_step_refl split: option.splits)
qed

lemma HandleGetBucketStart_step:
  assumes "HandleGetBucketStart n cmd w = (e, w')" "decoder_inv w" "registry_ok (fst w)"
  shows "decoder_step w w'"
proof -
  have two: "decoder_step w (store_heap dp bs (store_heap rp (StoreU32Unaligned v) w))"
    and one: "decoder_step w (store_heap rp (StoreU32Unaligned v) w)"
    if r: "CommonDecoder_GetAddressAndCheckSize i1 o1 4 (fst w) = Some rp"
      and d: "CommonDecoder_GetAddressAndCheckSize i2 o2 sz (fst w) = Some dp"
      and b: "CommonDecoder_GetBucket k (snd w) = Some b" "Bucket_GetData b 0 (min sz v) = Some bs"
    for i1 o1 rp i2 o2 sz dp k b bs v
  proof -
    let ?w1 = "store_heap rp (StoreU32Unaligned v) w"
    have rp: "snd rp + length (StoreU32Unaligned v) \<le> length (sv_heap (fst w) ! fst rp)"
      using checked_address_in_bounds [OF r assms(3)] by simp
    show one: "decoder_step w ?w1" by (rule store_heap_step [OF rp assms(2)])
    have "length bs \<le> sz" using GetData_length [OF b(2) GetBucket_ok [OF assms(2) b(1)]] by simp
    then have "snd dp + length bs \<le> length (sv_heap (fst ?w1) ! fst dp)"
      using checked_address_in_bounds [OF d assms(3)] rp by (simp add: store_heap_def length_write_nth)
    from store_heap_step [OF this] one show "decoder_step w (store_heap dp bs ?w1)"
      by (meson decoder_step_def decoder_step_trans)
  qed
  have one': "decoder_step w (store_heap rp (StoreU32Unaligned v) w)"
    if "CommonDecoder_GetAddressAndCheckSize i1 o1 4 (fst w) = Some rp" for i1 o1 rp v
    using checked_address_in_bounds [OF that assms(3)] by (intro store_heap_step assms(2)) simp
  show ?thesis
    using assms(1,2) two one'
    by (auto simp: HandleGetBucketStart_def Let_def decoder_step_refl split: if_splits option.splits)
qed

definition fence_ok :: "(u64 \<Rightarrow> 'x dworld \<Rightarrow> 'x dworld) \<Rightarrow> bool" where
  "fence_ok f \<longleftrightarrow> (\<forall>c w. sv_inv (fst w) \<longrightarrow> decoder_inv w \<longrightarrow> decoder_step w (f c w))"

lemma SetToken_scheduled: "sv_scheduled (Service_SetToken t s) = sv_scheduled s"
  by (simp add: Service_SetToken_def)

lemma common_handler_step:
  assumes "common_handler f c n cmd w = (e, w')" "sv_inv (fst w)" "decoder_inv w" "fence_ok f"
  shows "decoder_step w w'" "e \<noteq> kDeferCommandUntilLater" "e \<noteq> kDeferLaterCommands"
proof -
  have reg: "registry_ok (fst w)" using assms(2) by (simp add: sv_inv_def)
  show "decoder_step w w'"
  proof (cases c)
    case kSetToken
    with assms(1,3) show ?thesis
      by (auto simp: HandleSetToken_def decoder_step_def SetToken_frame SetToken_scheduled decoder_inv_def)
  next
    case kInsertFenceSync
    from assms(2-4) have "decoder_step w (f (InsertFenceSync_release_count (arg w cmd 1) (arg w cmd 2)) w)"
      unfolding fence_ok_def by blast
    then show ?thesis
      using kInsertFenceSync assms(1)
      by (auto simp: HandleInsertFenceSync_def ExitCommandProcessingEarly_def decoder_step_def decoder_inv_def Let_def)
  qed (use assms(1,3) reg in \<open>auto simp: HandleNoop_def HandleSetBucketData_def HandleSetBucketDataImmediate_def Let_def decoder_step_refl
      intro: HandleSetBucketSize_step HandleGetBucketData_step HandleGetBucketStart_step set_bucket_data_step
      split: option.splits if_splits\<close>)
  show "e \<noteq> kDeferCommandUntilLater" "e \<noteq> kDeferLaterCommands"
    using assms(1)
    by (cases c; auto simp: HandleNoop_def HandleSetToken_def HandleInsertFenceSync_def HandleSetBucketSize_def HandleSetBucketData_def
        HandleSetBucketDataImmediate_def HandleGetBucketStart_def HandleGetBucketData_def set_bucket_data_def
        Let_def split: option.splits if_splits prod.splits)+
qed

section \<open>The decoder as a handler of the service\<close>

text \<open>
  What a concrete decoder adds to the common commands: its table of commands, what happens when
  decoding begins and ends, and its client's reaction to a fence sync.
\<close>

record 'x decoder_api =
  da_command_info :: "'x command_info list"
  da_OnFenceSyncRelease :: "u64 \<Rightarrow> 'x dworld \<Rightarrow> 'x dworld"
  da_BeginDecoding :: "'x dworld \<Rightarrow> 'x dworld"
  da_EndDecoding :: "'x dworld \<Rightarrow> 'x dworld"

definition decoder_handler :: "'x decoder_api \<Rightarrow> 'x decoder async_api" where
  "decoder_handler A = \<lparr>BeginDecoding_op = da_BeginDecoding A, EndDecoding_op = da_EndDecoding A,
     DoCommands_op = DoCommandsImpl (da_OnFenceSyncRelease A) (da_command_info A)\<rparr>"

text \<open>The contract of a command: it keeps the ring, and it is never put off.\<close>

definition info_ok :: "'x command_info \<Rightarrow> bool" where
  "info_ok info \<longleftrightarrow> (\<forall>n cmd w e w'. sv_inv (fst w) \<longrightarrow> decoder_inv w \<longrightarrow> ci_handler info n cmd w = (e, w') \<longrightarrow>
     decoder_step w w' \<and> e \<noteq> kDeferCommandUntilLater)"

lemma run_command_step:
  assumes "info_ok info" "run_command info k cmd w = (e, w')" "sv_inv (fst w)" "decoder_inv w"
  shows "decoder_step w w' \<and> e \<noteq> kDeferCommandUntilLater"
proof (cases "ci_arg_flags info = kFixed \<and> k = ci_arg_count info \<or> ci_arg_flags info = kAtLeastN \<and> k \<ge> ci_arg_count info")
  case True
  with assms(2) have "ci_handler info (u32_mul (u32_sub k (ci_arg_count info)) 4) cmd w = (e, w')"
    by (simp only: run_command_def if_True)
  with assms(1,3,4) show ?thesis unfolding info_ok_def by blast
next
  case False
  then have "run_command info k cmd w = (kInvalidArguments, w)" unfolding run_command_def by (simp only: if_False)
  with assms(2,4) show ?thesis by (simp add: decoder_step_refl)
qed

lemma common_info_ok: "fence_ok f \<Longrightarrow> i < length (common_command_info f) \<Longrightarrow> info_ok (common_command_info f ! i)"
  unfolding info_ok_def
  by (auto simp: common_command_info_def dest: common_handler_step)

lemma do_command_step:
  assumes "do_command f ci command k cmd w = (e, w')" "fence_ok f" "\<forall>i \<in> set ci. info_ok i"
    "sv_inv (fst w)" "decoder_inv w"
  shows "decoder_step w w' \<and> e \<noteq> kDeferCommandUntilLater"
proof (cases "u32_sub command kFirstGLES2Command < length ci")
  case True
  then have "info_ok (ci ! u32_sub command kFirstGLES2Command)" using assms(3) by simp
  with True assms(1,4,5) show ?thesis by (auto simp: do_command_def Let_def dest: run_command_step)
next
  case False
  then have "DoCommonCommand f command k cmd w = (e, w')" using assms(1) by (simp add: do_command_def Let_def)
  then show ?thesis
    using run_command_step [OF common_info_ok [OF assms(2)] _ assms(4,5)] assms(5)
    by (auto simp: DoCommonCommand_def decoder_step_refl split: if_splits)
qed

lemma take_decoder_error_step:
  assumes "decoder_step w (snd r)" "fst r \<noteq> kDeferCommandUntilLater"
  shows "decoder_step w (snd (take_decoder_error r)) \<and> fst (take_decoder_error r) \<noteq> kDeferCommandUntilLater"
  using assms by (auto simp: take_decoder_error_def decoder_step_def decoder_inv_def)

lemma count_command_step: "decoder_inv w \<Longrightarrow> decoder_step w (count_command w)"
  by (simp add: count_command_def decoder_step_def decoder_inv_def)

lemma DoCommandsImpl_loop_step:
  assumes "DoCommandsImpl_loop f ci buffer n pos w = (e, pos', w')" "fence_ok f" "\<forall>i \<in> set ci. info_ok i"
    "sv_inv (fst w)" "decoder_inv w" "pos \<le> n"
  shows "decoder_step w w' \<and> pos \<le> pos' \<and> pos' \<le> n \<and>
    (\<not> IsError e \<longrightarrow> 0 < dc_commands_to_process (snd w) \<longrightarrow> pos < n \<longrightarrow> pos < pos')"
  using assms
proof (induction f ci buffer n pos w rule: DoCommandsImpl_loop.induct)
  case (1 f ci buffer n pos w)
  note unf = DoCommandsImpl_loop.simps [of f ci buffer n pos w]
  let ?w0 = "count_command w" and ?cmd = "(fst buffer, snd buffer + 4 * pos)"
  let ?sz = "hdr_size (value_header (arg ?w0 ?cmd 0))"
    and ?command = "hdr_command (value_header (arg ?w0 ?cmd 0))"
  note c0 = count_command_step [OF "1.prems"(5)]
  then have i0: "sv_inv (fst ?w0)" "decoder_inv ?w0"
    using sv_inv_frame [OF _ "1.prems"(4)] by (auto simp: decoder_step_def)
  consider (stop) "\<not> pos < n" | (zero) "pos < n" "dc_commands_to_process (snd w) = 0"
    | (bad) "pos < n" "dc_commands_to_process (snd w) \<noteq> 0" "?sz = 0 \<or> ?sz + pos > n"
    | (run) "pos < n" "dc_commands_to_process (snd w) \<noteq> 0" "?sz \<noteq> 0" "?sz + pos \<le> n" by linarith
  then show ?case
  proof cases
    case stop
    with "1.prems" show ?thesis by (simp add: unf decoder_step_refl)
  next
    case zero
    with "1.prems" c0 show ?thesis by (simp add: unf)
  next
    case bad
    with "1.prems"(1) have "pos' = pos" "w' = ?w0" "IsError e" by (auto simp: unf Let_def IsError_def split: if_splits)
    with c0 "1.prems"(6) show ?thesis by simp
  next
    case run
    define r where "r = take_decoder_error (do_command f ci ?command (?sz - 1) ?cmd ?w0)"
    have "decoder_step ?w0 (snd r) \<and> fst r \<noteq> kDeferCommandUntilLater" unfolding r_def
      using do_command_step [OF surjective_pairing "1.prems"(2,3) i0] by (intro take_decoder_error_step) blast+
    then have r: "decoder_step ?w0 (snd r)" "fst r \<noteq> kDeferCommandUntilLater" by auto
    note wr = decoder_step_trans [OF c0 r(1)]
    have eq: "DoCommandsImpl_loop f ci buffer n pos w =
       (if fst r = kNoError then DoCommandsImpl_loop f ci buffer n (pos + ?sz) (snd r) else (fst r, pos + ?sz, snd r))"
      using run r(2) by (simp add: unf Let_def r_def)
    show ?thesis
    proof (cases "fst r = kNoError")
      case True
      have "sv_inv (fst (snd r))" "decoder_inv (snd r)"
        using wr sv_inv_frame [OF _ "1.prems"(4)] by (auto simp: decoder_step_def)
      have "decoder_step (snd r) w' \<and> pos + ?sz \<le> pos' \<and> pos' \<le> n"
        using "1.IH" [OF _ _ refl refl refl refl _ _ r_def] True run eq "1.prems"(1-3)
          \<open>sv_inv (fst (snd r))\<close> \<open>decoder_inv (snd r)\<close> by auto
      with decoder_step_trans [OF wr, of w'] run show ?thesis by auto
    next
      case False
      with eq "1.prems"(1) have "pos' = pos + ?sz" "w' = snd r" by simp_all
      with wr run show ?thesis by simp
    qed
  qed
qed

lemma decoder_inv_reset: "decoder_inv w \<Longrightarrow> decoder_step w (fst w, (snd w)\<lparr>dc_commands_to_process := n\<rparr>)"
  by (simp add: decoder_step_def decoder_inv_def)

lemma DoCommandsImpl_step:
  assumes "fence_ok f" "\<forall>i \<in> set ci. info_ok i" "sv_inv (fst w)" "decoder_inv w" "0 \<le> n"
  shows "\<exists>e m w'. DoCommandsImpl f ci k p n w = Inr (e, m, w') \<and> decoder_step w w' \<and> 0 \<le> m \<and> m \<le> n \<and>
    (\<not> IsError e \<longrightarrow> 0 < k \<longrightarrow> 0 < n \<longrightarrow> 0 < m)"
proof -
  let ?w = "(fst w, (snd w)\<lparr>dc_commands_to_process := int k\<rparr>)"
  obtain e pos w' where l: "DoCommandsImpl_loop f ci p (nat n) 0 ?w = (e, pos, w')" by (metis prod_cases3)
  note r = decoder_inv_reset [OF assms(4), of "int k"]
  have "decoder_inv ?w" using r by (simp add: decoder_step_def)
  from DoCommandsImpl_loop_step [OF l assms(1,2) _ this] assms(3)
  have "decoder_step ?w w' \<and> pos \<le> nat n \<and> (\<not> IsError e \<longrightarrow> 0 < k \<longrightarrow> 0 < nat n \<longrightarrow> 0 < pos)" by simp
  with decoder_step_trans [OF r] l assms(5) show ?thesis
    by (auto simp: DoCommandsImpl_def)
qed

section \<open>Decoders that keep the contract\<close>

locale decoder_contract =
  fixes A :: "'x decoder_api"
  assumes commands_ok: "info \<in> set (da_command_info A) \<Longrightarrow> info_ok info"
    and fence: "fence_ok (da_OnFenceSyncRelease A)"
    and begin_step: "sv_inv (fst w) \<Longrightarrow> decoder_inv w \<Longrightarrow> decoder_step w (da_BeginDecoding A w)"
    and begin_sched: "sv_scheduled (fst (da_BeginDecoding A w)) = sv_scheduled (fst w)"
    and end_step: "sv_inv (fst w) \<Longrightarrow> decoder_inv w \<Longrightarrow> decoder_step w (da_EndDecoding A w)"
    and end_err: "st_error (sv_state (fst (da_EndDecoding A w))) = st_error (sv_state (fst w))"

end
