(* ===== verification/Command_Buffer_Direct.thy ===== *)
theory Command_Buffer_Direct
  imports Common_Decoder
begin

text \<open>
  The \<^verbatim>\<open>CommandBuffer\<close> interface of \<^verbatim>\<open>common/command_buffer.h\<close>, as the client library uses it, and its
  in-process implementation \<^verbatim>\<open>gpu/command_buffer/service/command_buffer_direct.{h,cc}\<close>, which drives
  a \<^verbatim>\<open>CommandBufferService\<close> and a decoder synchronously.
\<close>

section \<open>The interface\<close>

text \<open>
  The virtual functions, over a state of the other side; \<open>cb_Store\<close> stands for a store of bytes
  through the mapped memory of a transfer buffer. \<open>cb_CreateTransferBuffer\<close> returns the buffer
  and the id that the source stores through a pointer.
\<close>

record 'w command_buffer =
  cb_GetLastState :: "'w \<Rightarrow> cb_state \<times> 'w"
  cb_Flush :: "i32 \<Rightarrow> 'w \<Rightarrow> 'w res"
  cb_OrderingBarrier :: "i32 \<Rightarrow> 'w \<Rightarrow> 'w res"
  cb_WaitForTokenInRange :: "i32 \<Rightarrow> i32 \<Rightarrow> 'w \<Rightarrow> (cb_state \<times> 'w) res"
  cb_WaitForGetOffsetInRange :: "u32 \<Rightarrow> i32 \<Rightarrow> i32 \<Rightarrow> 'w \<Rightarrow> (cb_state \<times> 'w) res"
  cb_SetGetBuffer :: "i32 \<Rightarrow> 'w \<Rightarrow> 'w res"
  cb_CreateTransferBuffer :: "u32 \<Rightarrow> 'w \<Rightarrow> gpu_buffer option \<times> i32 \<times> 'w"
  cb_DestroyTransferBuffer :: "i32 \<Rightarrow> 'w \<Rightarrow> 'w res"
  cb_ForceLostContext :: "context_lost_reason \<Rightarrow> 'w \<Rightarrow> 'w"
  cb_Store :: "pointer \<Rightarrow> bytes \<Rightarrow> 'w \<Rightarrow> 'w"

section \<open>CommandBufferDirect\<close>

definition Direct_OnCommandBatchProcessed :: "'c world \<Rightarrow> bool \<times> 'c world" where
  "Direct_OnCommandBatchProcessed w = (False, w)"

definition Direct_OnParseError :: "'c world \<Rightarrow> 'c world" where
  "Direct_OnParseError w = w"

definition Direct_client :: "'c service_client" where
  "Direct_client = \<lparr>OnCommandBatchProcessed_op = Direct_OnCommandBatchProcessed,
                    OnParseError_op = Direct_OnParseError\<rparr>"

definition Direct_GetLastState :: "'c world \<Rightarrow> cb_state \<times> 'c world" where
  "Direct_GetLastState w =
     (let s = Service_UpdateState (fst w) in (sv_state s, (s, snd w)))"

definition Direct_WaitForTokenInRange :: "i32 \<Rightarrow> i32 \<Rightarrow> 'c world \<Rightarrow> (cb_state \<times> 'c world) res" where
  "Direct_WaitForTokenInRange start stop w =
     (case Direct_GetLastState w of (state, w1) \<Rightarrow>
        dcheck (st_error state \<noteq> kNoError \<or> InRange start stop (st_token state)) (Inr (state, w1)))"

definition Direct_WaitForGetOffsetInRange ::
  "u32 \<Rightarrow> i32 \<Rightarrow> i32 \<Rightarrow> 'c world \<Rightarrow> (cb_state \<times> 'c world) res" where
  "Direct_WaitForGetOffsetInRange set_get_buffer_count start stop w =
     (case Direct_GetLastState w of (state, w1) \<Rightarrow>
        dcheck (st_error state \<noteq> kNoError \<or>
                (InRange start stop (st_get_offset state) \<and>
                 set_get_buffer_count = st_set_get_buffer_count state)) (Inr (state, w1)))"

text \<open>The handler that was set with \<^verbatim>\<open>set_handler\<close> is an argument; so is the slice of the service.\<close>

definition Direct_Flush :: "'c async_api \<Rightarrow> nat \<Rightarrow> i32 \<Rightarrow> 'c world \<Rightarrow> 'c world res" where
  "Direct_Flush handler slice_sz put_offset w =
     (case Direct_GetLastState w of (state, w1) \<Rightarrow>
        if st_error state \<noteq> kNoError then Inr w1
        else returning (Service_Flush Direct_client handler slice_sz put_offset w1))"

definition Direct_OrderingBarrier :: "'c async_api \<Rightarrow> nat \<Rightarrow> i32 \<Rightarrow> 'c world \<Rightarrow> 'c world res" where
  "Direct_OrderingBarrier handler slice_sz put_offset w = Direct_Flush handler slice_sz put_offset w"

definition Direct_SetGetBuffer :: "i32 \<Rightarrow> 'c world \<Rightarrow> 'c world res" where
  "Direct_SetGetBuffer transfer_buffer_id w =
     res_bind (Service_SetGetBuffer transfer_buffer_id (fst w)) (\<lambda>s. Inr (s, snd w))"

definition Direct_CreateTransferBuffer :: "u32 \<Rightarrow> 'c world \<Rightarrow> gpu_buffer option \<times> i32 \<times> 'c world" where
  "Direct_CreateTransferBuffer sz w = Service_CreateTransferBuffer Direct_client sz w"

definition Direct_DestroyTransferBuffer :: "i32 \<Rightarrow> 'c world \<Rightarrow> 'c world res" where
  "Direct_DestroyTransferBuffer bid w =
     res_bind (Service_DestroyTransferBuffer bid (fst w)) (\<lambda>s. Inr (s, snd w))"

definition Direct_ForceLostContext :: "context_lost_reason \<Rightarrow> 'c world \<Rightarrow> 'c world" where
  "Direct_ForceLostContext reason w =
     Service_SetParseError Direct_client kLostContext (Service_SetContextLostReason reason (fst w), snd w)"

definition Direct_OnDescheduleUntilFinished :: "'c world \<Rightarrow> 'c world" where
  "Direct_OnDescheduleUntilFinished w = (Service_SetScheduled False (fst w), snd w)"

definition Direct_OnRescheduleAfterFinished :: "'c world \<Rightarrow> 'c world" where
  "Direct_OnRescheduleAfterFinished w = (Service_SetScheduled True (fst w), snd w)"

definition Direct_CreateTransferBufferWithId :: "u32 \<Rightarrow> i32 \<Rightarrow> 'c world \<Rightarrow> gpu_buffer option \<times> 'c world" where
  "Direct_CreateTransferBufferWithId sz bid w = Service_CreateTransferBufferWithId Direct_client sz bid w"

definition store_shared :: "pointer \<Rightarrow> bytes \<Rightarrow> 'c world \<Rightarrow> 'c world" where
  "store_shared p bs w = ((fst w)\<lparr>sv_heap := write_bytes (sv_heap (fst w)) p bs\<rparr>, snd w)"

definition CommandBufferDirect :: "'c async_api \<Rightarrow> nat \<Rightarrow> 'c world command_buffer" where
  "CommandBufferDirect handler slice_sz =
     \<lparr>cb_GetLastState = Direct_GetLastState,
      cb_Flush = Direct_Flush handler slice_sz,
      cb_OrderingBarrier = Direct_OrderingBarrier handler slice_sz,
      cb_WaitForTokenInRange = Direct_WaitForTokenInRange,
      cb_WaitForGetOffsetInRange = Direct_WaitForGetOffsetInRange,
      cb_SetGetBuffer = Direct_SetGetBuffer,
      cb_CreateTransferBuffer = Direct_CreateTransferBuffer,
      cb_DestroyTransferBuffer = Direct_DestroyTransferBuffer,
      cb_ForceLostContext = Direct_ForceLostContext,
      cb_Store = store_shared\<rparr>"

section \<open>A decoder behind the direct command buffer\<close>

sublocale decoder_contract \<subseteq> direct: live_service_handler Direct_client "decoder_handler A" decoder_inv decoder_inv
proof
  fix w w' :: "'x dworld" and n k p e m b err
  have infos: "\<forall>i \<in> set (da_command_info A). info_ok i" using commands_ok by blast
  note dstep = DoCommandsImpl_step [OF fence infos]
  show "decoder_inv w" if "decoder_inv w" using that .
  show "decoder_inv ((fst w)\<lparr>sv_paused := b\<rparr>, snd w)" if "decoder_inv w" using that by (simp add: decoder_inv_def)
  show "decoder_inv ((fst w)\<lparr>sv_state := (sv_state (fst w))\<lparr>st_error := err\<rparr>\<rparr>, snd w)" if "decoder_inv w"
    using that by (simp add: decoder_inv_def)
  show "sv_frame (fst w) (fst (BeginDecoding_op (decoder_handler A) w)) \<and> decoder_inv (BeginDecoding_op (decoder_handler A) w)"
    if "sv_inv (fst w)" "decoder_inv w"
    using begin_step [OF that] by (simp add: decoder_handler_def decoder_step_def)
  show "sv_frame (fst w) (fst (EndDecoding_op (decoder_handler A) w)) \<and> decoder_inv (EndDecoding_op (decoder_handler A) w)"
    if "sv_inv (fst w)" "decoder_inv w"
    using end_step [OF that] by (simp add: decoder_handler_def decoder_step_def)
  show "\<exists>e m w'. DoCommands_op (decoder_handler A) k p n w = Inr (e, m, w') \<and> sv_frame (fst w) (fst w') \<and>
      decoder_inv (wrap_get (advance_get m (fst w')), snd w') \<and>
      (\<not> IsError e \<longrightarrow> decoder_inv (wrap_get (advance_get m (fst w')), snd w')) \<and> 0 \<le> m \<and> m \<le> n"
    if "sv_inv (fst w)" "decoder_inv w" "0 \<le> n"
    using dstep [OF that, of k p] by (auto simp: decoder_handler_def decoder_step_def decoder_inv_def)
  show "sv_frame (fst w) (fst w') \<and> decoder_inv w'" if "decoder_inv w" "OnCommandBatchProcessed_op Direct_client w = (b, w')"
    using that by (auto simp: Direct_client_def Direct_OnCommandBatchProcessed_def)
  show "sv_frame (fst w) (fst (OnParseError_op Direct_client w)) \<and> decoder_inv (OnParseError_op Direct_client w)"
    if "decoder_inv w" using that by (simp add: Direct_client_def Direct_OnParseError_def)
  show "sv_scheduled (fst (BeginDecoding_op (decoder_handler A) w)) = sv_scheduled (fst w)"
    by (simp add: decoder_handler_def begin_sched)
  show "0 < m" if "sv_inv (fst w)" "decoder_inv w" "0 < n" "0 < k"
    "DoCommands_op (decoder_handler A) k p n w = Inr (e, m, w')" "\<not> IsError e"
    using dstep [OF that(1,2), of n k p] that(3-6) by (auto simp: decoder_handler_def)
  show "sv_scheduled (fst w') = sv_scheduled (fst w)" if "sv_inv (fst w)" "decoder_inv w" "0 \<le> n"
    "DoCommands_op (decoder_handler A) k p n w = Inr (e, m, w')"
    using dstep [OF that(1-3), of k p] that(4) by (auto simp: decoder_handler_def decoder_step_def)
  show "OnCommandBatchProcessed_op Direct_client w = (False, w)"
    by (simp add: Direct_client_def Direct_OnCommandBatchProcessed_def)
  show "st_error (sv_state (fst (OnParseError_op Direct_client w))) = st_error (sv_state (fst w))"
    by (simp add: Direct_client_def Direct_OnParseError_def)
  show "st_error (sv_state (fst (EndDecoding_op (decoder_handler A) w))) = st_error (sv_state (fst w))"
    by (simp add: decoder_handler_def end_err)
  show "decoder_inv (EndDecoding_op (decoder_handler A) w)" if "sv_inv (fst w)" "decoder_inv w"
    using end_step [OF that] by (simp add: decoder_handler_def decoder_step_def)
qed

text \<open>
  The decoder of the common commands alone, hosted by \<^verbatim>\<open>CommandBufferDirect\<close>, whose
  \<^verbatim>\<open>OnFenceSyncRelease\<close> is not implemented and does nothing.
\<close>

definition common_api :: "'x decoder_api" where
  "common_api = \<lparr>da_command_info = [], da_OnFenceSyncRelease = (\<lambda>_ w. w), da_BeginDecoding = (\<lambda>w. w),
     da_EndDecoding = (\<lambda>w. w)\<rparr>"

interpretation common: decoder_contract common_api
  by unfold_locales (auto simp: common_api_def fence_ok_def decoder_step_refl)

end
