(* ===== verification/Token_Interface.thy ===== *)
theory Token_Interface
  imports Prelude
begin

text \<open>
  The part of \<^verbatim>\<open>CommandBufferHelper\<close> that the client-side allocators (\<^verbatim>\<open>RingBuffer\<close>,
  \<^verbatim>\<open>FencedAllocator\<close>) call: the four token operations of \<^verbatim>\<open>cmd_buffer_helper.h\<close>. The allocators
  are modelled over this record of operations, and the locale states what they rely on. The
  theory \<open>Cmd_Buffer_Helper\<close> provides the operations, and \<open>Helper_Ring\<close> interprets the locale.
\<close>

record 'h token_ops =
  HasTokenPassed_op :: "i32 \<Rightarrow> 'h \<Rightarrow> bool \<times> 'h"
  WaitForToken_op :: "i32 \<Rightarrow> 'h \<Rightarrow> 'h res"
  RefreshCachedToken_op :: "'h \<Rightarrow> 'h"
  HasCachedTokenPassed_op :: "i32 \<Rightarrow> 'h \<Rightarrow> bool"

locale token_source =
  fixes ops :: "'h token_ops"
    and tok_inv :: "'h \<Rightarrow> bool"
    and passed :: "'h \<Rightarrow> i32 \<Rightarrow> bool"
  assumes has_token:
      "tok_inv h \<Longrightarrow> HasTokenPassed_op ops t h = (b, h') \<Longrightarrow>
         tok_inv h' \<and> (b \<longrightarrow> passed h' t) \<and> (\<forall>u. passed h u \<longrightarrow> passed h' u)"
    and wait_token:
      "tok_inv h \<Longrightarrow> WaitForToken_op ops t h = Inr h' \<Longrightarrow>
         tok_inv h' \<and> passed h' t \<and> (\<forall>u. passed h u \<longrightarrow> passed h' u)"
    and refresh_token:
      "tok_inv h \<Longrightarrow> tok_inv (RefreshCachedToken_op ops h) \<and>
         (\<forall>u. passed h u \<longrightarrow> passed (RefreshCachedToken_op ops h) u)"
    and cached_token:
      "tok_inv h \<Longrightarrow> HasCachedTokenPassed_op ops t h \<Longrightarrow> passed h t"

text \<open>A source whose waits always come back: no assertion fails while waiting.\<close>

locale live_token_source = token_source ops tok_inv passed
  for ops :: "'h token_ops" and tok_inv :: "'h \<Rightarrow> bool" and passed :: "'h \<Rightarrow> i32 \<Rightarrow> bool" +
  assumes wait_returns: "tok_inv h \<Longrightarrow> 0 \<le> t \<Longrightarrow> \<exists>h'. WaitForToken_op ops t h = Inr h'"

end
