(* ===== verification/Cmd_Buffer_Helper.thy ===== *)
theory Cmd_Buffer_Helper
  imports Command_Buffer_Direct Token_Interface
begin

text \<open>
  \<^verbatim>\<open>gpu/command_buffer/client/cmd_buffer_helper.{h,cc}\<close>: the client end of a command buffer. It
  allocates the ring, gives out space for commands, flushes, and tracks the service's progress
  by get offset and by token. Every operation acts on the helper and on the state of the other
  side, reached through a \<open>command_buffer\<close>.

  The clock is read in one place, \<^verbatim>\<open>PeriodicFlushCheck\<close>: whether the delay since the last flush has
  passed is the argument \<open>due\<close> of the operations that may check it.
\<close>

section \<open>Data\<close>

record helper =
  ch_ring_buffer_id :: i32
  ch_ring_buffer_size :: u32
  ch_ring_buffer :: "gpu_buffer option"
  ch_entries :: "pointer option"
  ch_total_entry_count :: i32
  ch_immediate_entry_count :: i32
  ch_token :: i32
  ch_put :: i32
  ch_cached_last_token_read :: i32
  ch_cached_get_offset :: i32
  ch_set_get_buffer_count :: u32
  ch_service_on_old_buffer :: bool
  ch_commands_issued :: int
  ch_usable :: bool
  ch_context_lost :: bool
  ch_flush_automatically :: bool
  ch_last_flush_put :: i32
  ch_last_ordering_barrier_put :: i32
  ch_flush_generation :: u32

type_synonym 'w hworld = "helper \<times> 'w"

definition new_CommandBufferHelper :: helper where
  "new_CommandBufferHelper =
     \<lparr>ch_ring_buffer_id = -1, ch_ring_buffer_size = 0, ch_ring_buffer = None, ch_entries = None,
      ch_total_entry_count = 0, ch_immediate_entry_count = 0, ch_token = 0, ch_put = 0,
      ch_cached_last_token_read = 0, ch_cached_get_offset = 0, ch_set_get_buffer_count = 0,
      ch_service_on_old_buffer = False, ch_commands_issued = 0, ch_usable = True,
      ch_context_lost = False, ch_flush_automatically = True, ch_last_flush_put = 0,
      ch_last_ordering_barrier_put = 0, ch_flush_generation = 0\<rparr>"

definition kCommandsPerFlushCheck :: int where
  "kCommandsPerFlushCheck = 100"

definition kAutoFlushSmall :: int where
  "kAutoFlushSmall = 16"

definition kAutoFlushBig :: int where
  "kAutoFlushBig = 2"

section \<open>Operations\<close>

definition Helper_HaveRingBuffer :: "helper \<Rightarrow> bool res" where
  "Helper_HaveRingBuffer h =
     dcheck (ch_usable h \<or> ch_ring_buffer h = None) (Inr (ch_ring_buffer h \<noteq> None))"

text \<open>The two steps of \<^verbatim>\<open>CalcImmediateEntries\<close>: the contiguous entries, and the limit of automatic flushing.\<close>

definition contiguous_entries :: "helper \<Rightarrow> i32" where
  "contiguous_entries h =
     (let curr_get = ch_cached_get_offset h
      in if curr_get > ch_put h then curr_get - ch_put h - 1
         else ch_total_entry_count h - ch_put h - (if curr_get = 0 then 1 else 0))"

definition flush_limited :: "int \<Rightarrow> helper \<Rightarrow> i32 \<Rightarrow> i32" where
  "flush_limited waiting_count h n =
     (let limit = ch_total_entry_count h div
                    (if ch_cached_get_offset h = ch_last_flush_put h then kAutoFlushSmall else kAutoFlushBig);
          pending = (ch_put h + ch_total_entry_count h - ch_last_ordering_barrier_put h) mod ch_total_entry_count h
      in if pending > 0 \<and> pending \<ge> limit then 0
         else (let limit1 = limit - pending;
                   limit2 = (if limit1 < waiting_count then waiting_count else limit1)
               in if n > limit2 then limit2 else n))"

definition Helper_CalcImmediateEntries :: "int \<Rightarrow> helper \<Rightarrow> helper res" where
  "Helper_CalcImmediateEntries waiting_count h =
     dcheck (waiting_count \<ge> 0)
       (res_bind (Helper_HaveRingBuffer h) (\<lambda>have_ring.
          if \<not> have_ring then Inr (h\<lparr>ch_immediate_entry_count := 0\<rparr>)
          else Inr (h\<lparr>ch_immediate_entry_count :=
                 (if ch_flush_automatically h then flush_limited waiting_count h (contiguous_entries h)
                  else contiguous_entries h)\<rparr>)))"

definition Helper_SetAutomaticFlushes :: "bool \<Rightarrow> helper \<Rightarrow> helper res" where
  "Helper_SetAutomaticFlushes enabled h =
     Helper_CalcImmediateEntries 0 (h\<lparr>ch_flush_automatically := enabled\<rparr>)"

definition Helper_IsContextLost :: "'w command_buffer \<Rightarrow> 'w hworld \<Rightarrow> bool \<times> 'w hworld" where
  "Helper_IsContextLost cb x =
     (if \<not> ch_context_lost (fst x)
      then (case cb_GetLastState cb (snd x) of (st, w) \<Rightarrow>
              (IsError (st_error st), ((fst x)\<lparr>ch_context_lost := IsError (st_error st)\<rparr>, w)))
      else (True, x))"

definition Helper_SetGetBuffer ::
  "'w command_buffer \<Rightarrow> i32 \<Rightarrow> gpu_buffer option \<Rightarrow> 'w hworld \<Rightarrow> 'w hworld res" where
  "Helper_SetGetBuffer cb bid buffer x =
     res_bind (cb_SetGetBuffer cb bid (snd x)) (\<lambda>w.
       let h = (fst x)\<lparr>ch_entries := (case buffer of Some b \<Rightarrow> Some (buf_memory b, 0) | None \<Rightarrow> None),
                      ch_total_entry_count :=
                        (if buffer \<noteq> None then i32_of_u32 (ch_ring_buffer_size (fst x) div 4) else 0),
                      ch_ring_buffer := buffer, ch_ring_buffer_id := bid,
                      ch_set_get_buffer_count := u32_add (ch_set_get_buffer_count (fst x)) 1,
                      ch_put := 0, ch_last_flush_put := 0, ch_last_ordering_barrier_put := 0,
                      ch_cached_get_offset := 0, ch_service_on_old_buffer := True\<rparr>
       in res_bind (Helper_CalcImmediateEntries 0 h) (\<lambda>h1. Inr (h1, w)))"

definition Helper_AllocateRingBuffer :: "'w command_buffer \<Rightarrow> 'w hworld \<Rightarrow> (bool \<times> 'w hworld) res" where
  "Helper_AllocateRingBuffer cb x =
     (if \<not> ch_usable (fst x) then Inr (False, x)
      else res_bind (Helper_HaveRingBuffer (fst x)) (\<lambda>have_ring.
        if have_ring then Inr (True, x)
        else (case cb_CreateTransferBuffer cb (ch_ring_buffer_size (fst x)) (snd x) of (buffer, bid, w) \<Rightarrow>
          if bid < 0
          then res_bind (Helper_CalcImmediateEntries 0 ((fst x)\<lparr>ch_usable := False, ch_context_lost := True\<rparr>))
                 (\<lambda>h. Inr (False, (h, w)))
          else res_bind (Helper_SetGetBuffer cb bid buffer (fst x, w)) (\<lambda>y. Inr (True, y)))))"

definition wrap_put :: "helper \<Rightarrow> helper" where
  "wrap_put h = (if ch_put h = ch_total_entry_count h then h\<lparr>ch_put := 0\<rparr> else h)"

definition Helper_Flush :: "'w command_buffer \<Rightarrow> 'w hworld \<Rightarrow> 'w hworld res" where
  "Helper_Flush cb x =
     (let h = wrap_put (fst x)
      in res_bind (Helper_HaveRingBuffer h) (\<lambda>have_ring.
           if have_ring
           then (let h1 = h\<lparr>ch_last_flush_put := ch_put h, ch_last_ordering_barrier_put := ch_put h\<rparr>
                 in res_bind (cb_Flush cb (ch_put h1) (snd x)) (\<lambda>w.
                      res_bind (Helper_CalcImmediateEntries 0
                                  (h1\<lparr>ch_flush_generation := u32_add (ch_flush_generation h1) 1\<rparr>))
                        (\<lambda>h2. Inr (h2, w))))
           else Inr (h, snd x)))"

definition Helper_FlushLazy :: "'w command_buffer \<Rightarrow> 'w hworld \<Rightarrow> 'w hworld res" where
  "Helper_FlushLazy cb x =
     (if ch_put (fst x) = ch_last_flush_put (fst x) \<and> ch_put (fst x) = ch_last_ordering_barrier_put (fst x)
      then Inr x else Helper_Flush cb x)"

definition Helper_OrderingBarrier :: "'w command_buffer \<Rightarrow> 'w hworld \<Rightarrow> 'w hworld res" where
  "Helper_OrderingBarrier cb x =
     (let h = wrap_put (fst x)
      in res_bind (Helper_HaveRingBuffer h) (\<lambda>have_ring.
           if have_ring
           then (let h1 = h\<lparr>ch_last_ordering_barrier_put := ch_put h\<rparr>
                 in res_bind (cb_OrderingBarrier cb (ch_put h1) (snd x)) (\<lambda>w.
                      res_bind (Helper_CalcImmediateEntries 0
                                  (h1\<lparr>ch_flush_generation := u32_add (ch_flush_generation h1) 1\<rparr>))
                        (\<lambda>h2. Inr (h2, w))))
           else Inr (h, snd x)))"

definition Helper_FreeRingBuffer :: "'w command_buffer \<Rightarrow> 'w hworld \<Rightarrow> 'w hworld res" where
  "Helper_FreeRingBuffer cb x =
     res_bind (Helper_HaveRingBuffer (fst x)) (\<lambda>have_ring.
       if have_ring
       then res_bind (Helper_OrderingBarrier cb x) (\<lambda>y.
              res_bind (cb_DestroyTransferBuffer cb (ch_ring_buffer_id (fst y)) (snd y)) (\<lambda>w.
                res_bind (Helper_Flush cb (fst y, w)) (\<lambda>z. Helper_SetGetBuffer cb (-1) None z)))
       else Inr x)"

text \<open>\<^verbatim>\<open>Initialize\<close> succeeds (\<open>True\<close>) or ends in \<^verbatim>\<open>kFatalFailure\<close>.\<close>

definition Helper_Initialize :: "'w command_buffer \<Rightarrow> u32 \<Rightarrow> 'w hworld \<Rightarrow> (bool \<times> 'w hworld) res" where
  "Helper_Initialize cb ring_buffer_size x =
     Helper_AllocateRingBuffer cb ((fst x)\<lparr>ch_ring_buffer_size := ring_buffer_size\<rparr>, snd x)"

definition Helper_UpdateCachedState :: "cb_state \<Rightarrow> helper \<Rightarrow> helper" where
  "Helper_UpdateCachedState state h =
     (let old = (st_set_get_buffer_count state \<noteq> ch_set_get_buffer_count h)
      in h\<lparr>ch_service_on_old_buffer := old,
           ch_cached_get_offset := (if old then 0 else st_get_offset state),
           ch_cached_last_token_read := st_token state,
           ch_context_lost := (ch_context_lost h \<or> IsError (st_error state))\<rparr>)"

definition Helper_WaitForGetOffsetInRange ::
  "'w command_buffer \<Rightarrow> i32 \<Rightarrow> i32 \<Rightarrow> 'w hworld \<Rightarrow> (bool \<times> 'w hworld) res" where
  "Helper_WaitForGetOffsetInRange cb start stop x =
     dcheck (start \<ge> 0 \<and> start \<le> ch_total_entry_count (fst x))
       (dcheck (stop \<ge> 0 \<and> stop \<le> ch_total_entry_count (fst x))
         (res_bind (cb_WaitForGetOffsetInRange cb (ch_set_get_buffer_count (fst x)) start stop (snd x))
           (\<lambda>(st, w). let h = Helper_UpdateCachedState st (fst x)
                      in Inr (\<not> ch_context_lost h, (h, w)))))"

definition Helper_PeriodicFlushCheck :: "'w command_buffer \<Rightarrow> bool \<Rightarrow> 'w hworld \<Rightarrow> 'w hworld res" where
  "Helper_PeriodicFlushCheck cb due x = (if due then Helper_Flush cb x else Inr x)"

definition Helper_Finish :: "'w command_buffer \<Rightarrow> 'w hworld \<Rightarrow> (bool \<times> 'w hworld) res" where
  "Helper_Finish cb x =
     (if ch_put (fst x) = ch_cached_get_offset (fst x) \<and> \<not> ch_service_on_old_buffer (fst x)
      then Inr (\<not> ch_context_lost (fst x), x)
      else res_bind (Helper_FlushLazy cb x) (\<lambda>y.
        res_bind (Helper_WaitForGetOffsetInRange cb (ch_put (fst y)) (ch_put (fst y)) y) (\<lambda>(ok, z).
          if \<not> ok then Inr (False, z)
          else dcheck (ch_cached_get_offset (fst z) = ch_put (fst z))
                 (res_bind (Helper_CalcImmediateEntries 0 (fst z)) (\<lambda>h. Inr (True, (h, snd z)))))))"

definition Helper_RefreshCachedToken :: "'w command_buffer \<Rightarrow> 'w hworld \<Rightarrow> 'w hworld" where
  "Helper_RefreshCachedToken cb x =
     (case cb_GetLastState cb (snd x) of (st, w) \<Rightarrow> (Helper_UpdateCachedState st (fst x), w))"

definition Helper_HasTokenPassed :: "'w command_buffer \<Rightarrow> i32 \<Rightarrow> 'w hworld \<Rightarrow> bool \<times> 'w hworld" where
  "Helper_HasTokenPassed cb token x =
     (if token > ch_token (fst x) then (True, x)
      else if token \<le> ch_cached_last_token_read (fst x) then (True, x)
      else (let y = Helper_RefreshCachedToken cb x
            in (token \<le> ch_cached_last_token_read (fst y), y)))"

definition Helper_HasCachedTokenPassed :: "i32 \<Rightarrow> helper \<Rightarrow> bool" where
  "Helper_HasCachedTokenPassed token h =
     (if token > ch_token h then True else token \<le> ch_cached_last_token_read h)"

definition Helper_WaitForToken :: "'w command_buffer \<Rightarrow> i32 \<Rightarrow> 'w hworld \<Rightarrow> 'w hworld res" where
  "Helper_WaitForToken cb token x =
     dcheck (token \<ge> 0)
       (case Helper_HasTokenPassed cb token x of (passed, y) \<Rightarrow>
          if passed then Inr y
          else res_bind (Helper_FlushLazy cb y) (\<lambda>z.
            res_bind (cb_WaitForTokenInRange cb token (ch_token (fst z)) (snd z)) (\<lambda>(st, w).
              Inr (Helper_UpdateCachedState st (fst z), w))))"

text \<open>\<^verbatim>\<open>entries_[put_]\<close>, and storing the entries of a command there.\<close>

definition entry_address :: "helper \<Rightarrow> i32 \<Rightarrow> pointer" where
  "entry_address h i = entry_pointer (ch_entries h) i"

definition store_command :: "'w command_buffer \<Rightarrow> pointer \<Rightarrow> u32 list res \<Rightarrow> 'w \<Rightarrow> 'w res" where
  "store_command cb p init w =
     res_bind init (\<lambda>es. Inr (cb_Store cb p (concat (map StoreU32Unaligned es)) w))"

text \<open>The loop that fills the end of the ring with \<^verbatim>\<open>Noop\<close>s.\<close>

function fill_noops :: "'w command_buffer \<Rightarrow> i32 \<Rightarrow> 'w hworld \<Rightarrow> 'w hworld res" where
  "fill_noops cb num_entries x =
     (if num_entries > 0
      then (let num_to_skip = min kMaxSize num_entries
            in res_bind (store_command cb (entry_address (fst x) (ch_put (fst x)))
                           (Noop_Init (u32_of_int num_to_skip)) (snd x))
                 (\<lambda>w. fill_noops cb (num_entries - num_to_skip)
                        ((fst x)\<lparr>ch_put := ch_put (fst x) + num_to_skip\<rparr>, w)))
      else Inr x)"
  by pat_completeness auto
termination
  by (relation "measure (\<lambda>(cb, n, x). nat n)") (auto simp: kMaxSize_def min_def)

declare fill_noops.simps [simp del]

text \<open>The first half of \<^verbatim>\<open>WaitForAvailableEntries\<close>, wrapping the ring; \<open>False\<close> is its early return.\<close>

definition Helper_wrap_ring :: "'w command_buffer \<Rightarrow> 'w hworld \<Rightarrow> (bool \<times> 'w hworld) res" where
  "Helper_wrap_ring cb x =
     dcheck (1 \<le> ch_put (fst x))
       (res_bind
         (let curr_get = ch_cached_get_offset (fst x)
          in if curr_get > ch_put (fst x) \<or> curr_get = 0
             then res_bind (Helper_FlushLazy cb x) (\<lambda>y.
                    res_bind (Helper_WaitForGetOffsetInRange cb 1 (ch_put (fst y)) y) (\<lambda>(ok, z).
                      if \<not> ok then Inr (False, z)
                      else dcheck (ch_cached_get_offset (fst z) \<le> ch_put (fst z))
                             (dcheck (ch_cached_get_offset (fst z) \<noteq> 0) (Inr (True, z)))))
             else Inr (True, x))
         (\<lambda>(ok, y).
            if \<not> ok then Inr (False, y)
            else res_bind (fill_noops cb (ch_total_entry_count (fst y) - ch_put (fst y)) y) (\<lambda>z.
                   Inr (True, ((fst z)\<lparr>ch_put := 0\<rparr>, snd z)))))"

text \<open>Its second half, getting the entries once the ring is wrapped.\<close>

definition Helper_wait_room :: "'w command_buffer \<Rightarrow> i32 \<Rightarrow> 'w hworld \<Rightarrow> 'w hworld res" where
  "Helper_wait_room cb count x =
     res_bind (Helper_FlushLazy cb x) (\<lambda>y.
       res_bind (Helper_CalcImmediateEntries count (fst y)) (\<lambda>h.
         if ch_immediate_entry_count h < count
         then res_bind (Helper_WaitForGetOffsetInRange cb ((ch_put h + count + 1) mod ch_total_entry_count h)
                          (ch_put h) (h, snd y)) (\<lambda>(ok, z).
                if \<not> ok then Inr z
                else res_bind (Helper_CalcImmediateEntries count (fst z)) (\<lambda>h2.
                  if ch_immediate_entry_count h2 < count
                  then res_bind (Helper_FreeRingBuffer cb (h2, cb_ForceLostContext cb kGuilty (snd z))) (\<lambda>v.
                         Inr ((fst v)\<lparr>ch_usable := False, ch_context_lost := True\<rparr>, snd v))
                  else Inr (h2, snd z)))
         else Inr (h, snd y)))"

text \<open>The entries without flushing, from the cached get offset and then from the service's; else \<open>Helper_wait_room\<close>.\<close>

definition Helper_claim_room :: "'w command_buffer \<Rightarrow> i32 \<Rightarrow> 'w hworld \<Rightarrow> 'w hworld res" where
  "Helper_claim_room cb count x =
     res_bind (Helper_CalcImmediateEntries count (fst x)) (\<lambda>h.
       res_bind
         (if ch_immediate_entry_count h < count
          then (let z = Helper_RefreshCachedToken cb (h, snd x)
                in res_bind (Helper_CalcImmediateEntries count (fst z)) (\<lambda>h1. Inr (h1, snd z)))
          else Inr (h, snd x))
         (\<lambda>z. if ch_immediate_entry_count (fst z) < count then Helper_wait_room cb count z else Inr z))"

definition Helper_WaitForAvailableEntries :: "'w command_buffer \<Rightarrow> i32 \<Rightarrow> 'w hworld \<Rightarrow> 'w hworld res" where
  "Helper_WaitForAvailableEntries cb count x =
     res_bind (Helper_AllocateRingBuffer cb x) (\<lambda>(allocated, x1).
       if \<not> allocated then Inr x1
       else res_bind (Helper_HaveRingBuffer (fst x1)) (\<lambda>have_ring. dcheck have_ring
         (res_bind
           (if ch_put (fst x1) + count > ch_total_entry_count (fst x1) then Helper_wrap_ring cb x1
            else Inr (True, x1))
           (\<lambda>(ok, y). if \<not> ok then Inr y else Helper_claim_room cb count y))))"

definition Helper_GetTotalFreeEntriesNoWaiting :: "helper \<Rightarrow> i32" where
  "Helper_GetTotalFreeEntriesNoWaiting h =
     (let current_get_offset = ch_cached_get_offset h
      in if current_get_offset > ch_put h then current_get_offset - ch_put h - 1
         else current_get_offset + ch_total_entry_count h - ch_put h - (if current_get_offset = 0 then 1 else 0))"

text \<open>\<^verbatim>\<open>GetSpace\<close>: \<open>None\<close> is the null pointer.\<close>

definition Helper_take_space :: "i32 \<Rightarrow> helper \<Rightarrow> (pointer option \<times> helper) res" where
  "Helper_take_space entries h =
     dcheck (entries \<le> ch_immediate_entry_count h)
       (let h1 = h\<lparr>ch_put := ch_put h + entries,
                   ch_immediate_entry_count := ch_immediate_entry_count h - entries\<rparr>
        in dcheck (ch_put h1 \<le> ch_total_entry_count h1) (Inr (Some (entry_address h (ch_put h)), h1)))"

definition Helper_GetSpace ::
  "'w command_buffer \<Rightarrow> bool \<Rightarrow> i32 \<Rightarrow> 'w hworld \<Rightarrow> (pointer option \<times> 'w hworld) res" where
  "Helper_GetSpace cb due entries x =
     (let h = (fst x)\<lparr>ch_commands_issued := ch_commands_issued (fst x) + 1\<rparr>
      in res_bind
        (if ch_flush_automatically h \<and> ch_commands_issued h mod kCommandsPerFlushCheck = 0
         then Helper_PeriodicFlushCheck cb due (h, snd x) else Inr (h, snd x))
        (\<lambda>y. res_bind
           (if entries > ch_immediate_entry_count (fst y) then Helper_WaitForAvailableEntries cb entries y
            else Inr y)
           (\<lambda>z. if entries > ch_immediate_entry_count (fst z) then Inr (None, z)
                else res_bind (Helper_take_space entries (fst z)) (\<lambda>(p, h2). Inr (p, (h2, snd z))))))"

text \<open>\<^verbatim>\<open>GetCmdSpace\<close>, \<^verbatim>\<open>GetImmediateCmdSpace\<close> and \<^verbatim>\<open>GetImmediateCmdSpaceTotalSize\<close>.\<close>

definition Helper_GetCmdSpace ::
  "'w command_buffer \<Rightarrow> bool \<Rightarrow> command_id \<Rightarrow> 'w hworld \<Rightarrow> (pointer option \<times> 'w hworld) res" where
  "Helper_GetCmdSpace cb due c x = Helper_GetSpace cb due (i32_of_u32 (ComputeNumEntries (sizeof_command c))) x"

definition Helper_GetImmediateCmdSpace ::
  "'w command_buffer \<Rightarrow> bool \<Rightarrow> command_id \<Rightarrow> nat \<Rightarrow> 'w hworld \<Rightarrow> (pointer option \<times> 'w hworld) res" where
  "Helper_GetImmediateCmdSpace cb due c data_space x =
     Helper_GetSpace cb due (i32_of_u32 (ComputeNumEntries (sizeof_command c + data_space))) x"

definition Helper_GetImmediateCmdSpaceTotalSize ::
  "'w command_buffer \<Rightarrow> bool \<Rightarrow> nat \<Rightarrow> 'w hworld \<Rightarrow> (pointer option \<times> 'w hworld) res" where
  "Helper_GetImmediateCmdSpaceTotalSize cb due total_space x =
     Helper_GetSpace cb due (i32_of_u32 (ComputeNumEntries total_space)) x"

text \<open>A command is initialised in the space it got, if it got any.\<close>

definition emit ::
  "'w command_buffer \<Rightarrow> (pointer option \<times> 'w hworld) res \<Rightarrow> u32 list res \<Rightarrow> 'w hworld res" where
  "emit cb space init =
     res_bind space (\<lambda>(p, x). case p of
         None \<Rightarrow> Inr x
       | Some q \<Rightarrow> res_bind (store_command cb q init (snd x)) (\<lambda>w. Inr (fst x, w)))"

definition Helper_InsertToken :: "'w command_buffer \<Rightarrow> bool \<Rightarrow> 'w hworld \<Rightarrow> (i32 \<times> 'w hworld) res" where
  "Helper_InsertToken cb due x =
     res_bind (Helper_GetCmdSpace cb due kSetToken x) (\<lambda>(p, y). case p of
         None \<Rightarrow> Inr (ch_token (fst y), y)
       | Some q \<Rightarrow>
           (let token = (ch_token (fst y) + 1) mod 2 ^ 31
            in res_bind (store_command cb q (SetToken_Init (u32_of_int token)) (snd y)) (\<lambda>w.
                 let z = ((fst y)\<lparr>ch_token := token\<rparr>, w)
                 in if token = 0
                    then res_bind (Helper_Finish cb z) (\<lambda>(finished, v).
                           dcheck (\<not> finished \<or> ch_cached_last_token_read (fst v) = 0) (Inr (ch_token (fst v), v)))
                    else Inr (token, z))))"

definition Helper_Noop :: "'w command_buffer \<Rightarrow> bool \<Rightarrow> u32 \<Rightarrow> 'w hworld \<Rightarrow> 'w hworld res" where
  "Helper_Noop cb due skip_count x =
     emit cb (Helper_GetImmediateCmdSpace cb due kNoop (u32_sub skip_count 1 * 4) x) (Noop_Init skip_count)"

definition Helper_SetToken :: "'w command_buffer \<Rightarrow> bool \<Rightarrow> u32 \<Rightarrow> 'w hworld \<Rightarrow> 'w hworld res" where
  "Helper_SetToken cb due token x = emit cb (Helper_GetCmdSpace cb due kSetToken x) (SetToken_Init token)"

definition Helper_SetBucketSize :: "'w command_buffer \<Rightarrow> bool \<Rightarrow> u32 \<Rightarrow> u32 \<Rightarrow> 'w hworld \<Rightarrow> 'w hworld res" where
  "Helper_SetBucketSize cb due bucket_id sz x =
     emit cb (Helper_GetCmdSpace cb due kSetBucketSize x) (SetBucketSize_Init bucket_id sz)"

definition Helper_SetBucketData ::
  "'w command_buffer \<Rightarrow> bool \<Rightarrow> u32 \<Rightarrow> u32 \<Rightarrow> u32 \<Rightarrow> u32 \<Rightarrow> u32 \<Rightarrow> 'w hworld \<Rightarrow> 'w hworld res" where
  "Helper_SetBucketData cb due bucket_id offset sz shared_memory_id shared_memory_offset x =
     emit cb (Helper_GetCmdSpace cb due kSetBucketData x)
       (SetBucketData_Init bucket_id offset sz shared_memory_id shared_memory_offset)"

definition Helper_SetBucketDataImmediate ::
  "'w command_buffer \<Rightarrow> bool \<Rightarrow> u32 \<Rightarrow> u32 \<Rightarrow> bytes \<Rightarrow> u32 \<Rightarrow> 'w hworld \<Rightarrow> 'w hworld res" where
  "Helper_SetBucketDataImmediate cb due bucket_id offset data sz x =
     res_bind (Helper_GetImmediateCmdSpace cb due kSetBucketDataImmediate sz x) (\<lambda>(p, y). case p of
         None \<Rightarrow> Inr y
       | Some q \<Rightarrow>
           res_bind (store_command cb q (SetBucketDataImmediate_Init bucket_id offset sz) (snd y)) (\<lambda>w.
             Inr (fst y, cb_Store cb (fst q, snd q + sizeof_command kSetBucketDataImmediate) (take sz data) w)))"

definition Helper_GetBucketStart ::
  "'w command_buffer \<Rightarrow> bool \<Rightarrow> u32 \<Rightarrow> u32 \<Rightarrow> u32 \<Rightarrow> u32 \<Rightarrow> u32 \<Rightarrow> u32 \<Rightarrow> 'w hworld \<Rightarrow> 'w hworld res" where
  "Helper_GetBucketStart cb due bucket_id result_memory_id result_memory_offset
       data_memory_size data_memory_id data_memory_offset x =
     emit cb (Helper_GetCmdSpace cb due kGetBucketStart x)
       (GetBucketStart_Init bucket_id result_memory_id result_memory_offset
          data_memory_size data_memory_id data_memory_offset)"

definition Helper_GetBucketData ::
  "'w command_buffer \<Rightarrow> bool \<Rightarrow> u32 \<Rightarrow> u32 \<Rightarrow> u32 \<Rightarrow> u32 \<Rightarrow> u32 \<Rightarrow> 'w hworld \<Rightarrow> 'w hworld res" where
  "Helper_GetBucketData cb due bucket_id offset sz shared_memory_id shared_memory_offset x =
     emit cb (Helper_GetCmdSpace cb due kGetBucketData x)
       (GetBucketData_Init bucket_id offset sz shared_memory_id shared_memory_offset)"

definition Helper_InsertFenceSync ::
  "'w command_buffer \<Rightarrow> bool \<Rightarrow> ('w \<Rightarrow> u64 \<times> 'w) \<Rightarrow> 'w hworld \<Rightarrow> (u64 \<times> 'w hworld) res" where
  "Helper_InsertFenceSync cb due sync_token_generator x =
     res_bind (Helper_GetCmdSpace cb due kInsertFenceSync x) (\<lambda>(p, y). case p of
         None \<Rightarrow> Inr (0, y)
       | Some q \<Rightarrow>
           (case sync_token_generator (snd y) of (release_count, w) \<Rightarrow>
              res_bind (store_command cb q (InsertFenceSync_Init release_count) w) (\<lambda>w1.
                Inr (release_count, (fst y, w1)))))"

text \<open>The token operations the memory managers use.\<close>

definition helper_token_ops :: "'w command_buffer \<Rightarrow> 'w hworld token_ops" where
  "helper_token_ops cb =
     \<lparr>HasTokenPassed_op = Helper_HasTokenPassed cb, WaitForToken_op = Helper_WaitForToken cb,
      RefreshCachedToken_op = Helper_RefreshCachedToken cb,
      HasCachedTokenPassed_op = (\<lambda>t x. Helper_HasCachedTokenPassed t (fst x))\<rparr>"

end
