(* ===== verification/Command_Stream.thy ===== *)
theory Command_Stream
  imports Command_Buffer_Direct
begin

text \<open>
  What a client writes into the ring of \<^verbatim>\<open>cmd_buffer_helper.cc\<close>, as the service reads it: the stream of
  commands between the get and the put offset, and the value of the token once all of it has been
  executed. The decoder of the common commands, run by \<^verbatim>\<open>CommandBufferService::Flush\<close>, is shown to
  lead to that token or to an error.
\<close>

section \<open>The stream\<close>

text \<open>Entry \<open>i\<close> of the memory of the ring.\<close>

definition ring_entry :: "bytes \<Rightarrow> nat \<Rightarrow> u32" where
  "ring_entry mem i = LoadU32Unaligned (take 4 (drop (4 * i) mem))"

text \<open>The shared memory a command may store to, and whether an id names a given block.\<close>

definition cmd_targets :: "(nat \<Rightarrow> u32) \<Rightarrow> nat \<Rightarrow> u32 list" where
  "cmd_targets a command =
     (if command = kCmdId kGetBucketStart then [a 2, a 5]
      else if command = kCmdId kGetBucketData then [a 4] else [])"

definition names_block :: "transfer_buffer_manager \<Rightarrow> nat \<Rightarrow> u32 \<Rightarrow> bool" where
  "names_block m blk i \<longleftrightarrow>
     (case TransferBufferManager_GetTransferBuffer (i32_of_u32 i) m of Some b \<Rightarrow> buf_memory b = blk | None \<Rightarrow> False)"

definition token_after :: "(nat \<Rightarrow> u32) \<Rightarrow> nat \<Rightarrow> i32 \<Rightarrow> i32" where
  "token_after a command tok = (if command = kCmdId kSetToken then i32_of_u32 (a 1) else tok)"

text \<open>A command is at least as long as its arguments.\<close>

definition args_fit :: "command_header \<Rightarrow> bool" where
  "args_fit h \<longleftrightarrow> (\<forall>c \<in> set COMMON_COMMAND_BUFFER_CMDS. hdr_command h = kCmdId c \<longrightarrow> sizeof_command c \<le> 4 * hdr_size h)"

text \<open>
  \<open>stream mem named n put pos tok final\<close>: from entry \<open>pos\<close> of a ring of \<open>n\<close> entries to entry \<open>put\<close> there
  are whole commands, none of which stores into the ring, and they take the token from \<open>tok\<close> to
  \<open>final\<close>.
\<close>

inductive stream :: "bytes \<Rightarrow> (u32 \<Rightarrow> bool) \<Rightarrow> nat \<Rightarrow> nat \<Rightarrow> nat \<Rightarrow> i32 \<Rightarrow> i32 \<Rightarrow> bool"
  for mem named n put where
  stream_end: "stream mem named n put put tok tok"
| stream_cmd: "pos \<noteq> put \<Longrightarrow> h = value_header (ring_entry mem pos) \<Longrightarrow> 0 < hdr_size h \<Longrightarrow> args_fit h \<Longrightarrow>
    pos + hdr_size h \<le> (if put < pos then n else put) \<Longrightarrow>
    \<forall>i \<in> set (cmd_targets (\<lambda>i. ring_entry mem (pos + i)) (hdr_command h)). \<not> named i \<Longrightarrow>
    stream mem named n put (if pos + hdr_size h = n then 0 else pos + hdr_size h)
      (token_after (\<lambda>i. ring_entry mem (pos + i)) (hdr_command h) tok) final \<Longrightarrow>
    stream mem named n put pos tok final"

inductive_cases stream_cases: "stream mem named n put pos tok final"

lemma stream_at_put: "stream mem named n put put tok final \<Longrightarrow> final = tok"
  by (erule stream_cases) auto

lemma stream_step:
  assumes "stream mem named n put pos tok final" "pos \<noteq> put" "h = value_header (ring_entry mem pos)"
  shows "0 < hdr_size h" "args_fit h" "pos + hdr_size h \<le> (if put < pos then n else put)"
    "\<forall>i \<in> set (cmd_targets (\<lambda>i. ring_entry mem (pos + i)) (hdr_command h)). \<not> named i"
    "stream mem named n put (if pos + hdr_size h = n then 0 else pos + hdr_size h)
      (token_after (\<lambda>i. ring_entry mem (pos + i)) (hdr_command h) tok) final"
proof -
  from assms(1) have "0 < hdr_size h \<and> args_fit h \<and> pos + hdr_size h \<le> (if put < pos then n else put) \<and>
    (\<forall>i \<in> set (cmd_targets (\<lambda>i. ring_entry mem (pos + i)) (hdr_command h)). \<not> named i) \<and>
    stream mem named n put (if pos + hdr_size h = n then 0 else pos + hdr_size h)
      (token_after (\<lambda>i. ring_entry mem (pos + i)) (hdr_command h) tok) final"
  proof cases
    case stream_end
    with assms(2) show ?thesis by blast
  next
    case (stream_cmd g)
    from stream_cmd(3-7) show ?thesis unfolding stream_cmd(2) assms(3) [symmetric] by blast
  qed
  then show "0 < hdr_size h" "args_fit h" "pos + hdr_size h \<le> (if put < pos then n else put)"
    "\<forall>i \<in> set (cmd_targets (\<lambda>i. ring_entry mem (pos + i)) (hdr_command h)). \<not> named i"
    "stream mem named n put (if pos + hdr_size h = n then 0 else pos + hdr_size h)
      (token_after (\<lambda>i. ring_entry mem (pos + i)) (hdr_command h) tok) final" by blast+
qed

lemma arg_ring_entry: "arg w (blk, 4 * pos) i = ring_entry (sv_heap (fst w) ! blk) (pos + i)"
  by (simp add: arg_def read_entry_def read_bytes_def ring_entry_def add_mult_distrib2)

section \<open>Appending a command to the stream\<close>

definition unread :: "nat \<Rightarrow> nat \<Rightarrow> nat \<Rightarrow> nat" where
  "unread n put pos = (if pos \<le> put then put - pos else put + n - pos)"

lemma args_fit_size: "args_fit h \<Longrightarrow> hdr_command h = kCmdId c \<Longrightarrow> sizeof_command c \<le> 4 * hdr_size h"
  by (cases c) (simp_all add: args_fit_def COMMON_COMMAND_BUFFER_CMDS_def)

lemma cmd_targets_cong:
  assumes "\<And>i. i < hdr_size h \<Longrightarrow> a i = b i" "args_fit h"
  shows "cmd_targets a (hdr_command h) = cmd_targets b (hdr_command h)"
    "token_after a (hdr_command h) tok = token_after b (hdr_command h) tok"
proof -
  have "a 2 = b 2 \<and> a 5 = b 5" if "hdr_command h = kCmdId kGetBucketStart"
    using args_fit_size [OF assms(2) that] assms(1) by simp
  moreover have "a 4 = b 4" if "hdr_command h = kCmdId kGetBucketData"
    using args_fit_size [OF assms(2) that] assms(1) by simp
  ultimately show "cmd_targets a (hdr_command h) = cmd_targets b (hdr_command h)"
    unfolding cmd_targets_def by simp
  have "a 1 = b 1" if "hdr_command h = kCmdId kSetToken"
    using args_fit_size [OF assms(2) that] assms(1) by simp
  then show "token_after a (hdr_command h) tok = token_after b (hdr_command h) tok"
    unfolding token_after_def by simp
qed

lemma stream_append:
  assumes "stream mem named n put pos tok mid" "put < n" "pos < n" "0 < sz" "put + sz \<le> n" "unread n put pos + sz < n"
    and same: "\<And>e. e < put \<or> put + sz \<le> e \<Longrightarrow> ring_entry mem' e = ring_entry mem e"
    and new: "h = value_header (ring_entry mem' put)" "hdr_size h = sz" "args_fit h"
      "\<forall>i \<in> set (cmd_targets (\<lambda>i. ring_entry mem' (put + i)) (hdr_command h)). \<not> named i"
    and put': "put' = (if put + sz = n then 0 else put + sz)"
  shows "stream mem' named n put' pos tok (token_after (\<lambda>i. ring_entry mem' (put + i)) (hdr_command h) mid)"
  using assms(1,3,6)
proof (induction rule: stream.induct)
  case (stream_end tok)
  have ne: "put \<noteq> put'" using put' assms(4) stream_end.prems by (auto simp: unread_def)
  have le: "put + hdr_size h \<le> (if put' < put then n else put')"
    using put' assms(2,4,5) new(2) stream_end.prems by (auto simp: unread_def)
  have "(if put + hdr_size h = n then 0 else put + hdr_size h) = put'" using put' new(2) by simp
  then show ?case
    using stream.stream_end [of mem' named n put']
    by (intro stream_cmd [OF ne new(1) _ new(3) le new(4)]) (use assms(4) new(2) in simp_all)
next
  case (stream_cmd pos g tok final)
  have u: "put < pos \<Longrightarrow> put + sz < pos" using stream_cmd.prems(2) by (auto simp: unread_def split: if_splits)
  have e: "ring_entry mem' (pos + i) = ring_entry mem (pos + i)" if "i < hdr_size g" for i
    using that stream_cmd.hyps(5) u by (intro same) (auto split: if_splits)
  have g: "g = value_header (ring_entry mem' pos)" using e [of 0] stream_cmd.hyps(2,3) by simp
  note c = cmd_targets_cong [OF e stream_cmd.hyps(4)]
  have ne: "pos \<noteq> put'" using put' stream_cmd.hyps(1) stream_cmd.prems u assms(5) by (auto simp: unread_def split: if_splits)
  have le: "pos + hdr_size g \<le> (if put' < pos then n else put')"
    using put' stream_cmd.hyps(5) u ne stream_cmd.prems assms(5) by (auto simp: unread_def split: if_splits)
  let ?nx = "if pos + hdr_size g = n then 0 else pos + hdr_size g"
  have nx: "?nx < n" "unread n put ?nx + sz < n"
    using stream_cmd.hyps(1,5) stream_cmd.prems assms(2) by (auto simp: unread_def split: if_splits)
  show ?case
    by (rule stream.stream_cmd [OF ne g stream_cmd.hyps(3,4) le])
      (use stream_cmd.hyps(6) stream_cmd.IH [OF nx] c in simp_all)
qed

section \<open>What one command does to the ring and the token\<close>

lemma store_heap_other:
  "fst p \<noteq> blk \<Longrightarrow> sv_heap (fst (store_heap p bs w)) ! blk = sv_heap (fst w) ! blk"
  by (simp add: store_heap_def write_bytes_def)

lemma store_heap_state [simp]:
  "sv_state (fst (store_heap p bs w)) = sv_state (fst w)" "snd (store_heap p bs w) = snd w"
  by (simp_all add: store_heap_def)

lemma checked_address_block:
  assumes "CommonDecoder_GetAddressAndCheckSize i off sz s = Some p" "\<not> names_block (sv_tbm s) blk i"
  shows "fst p \<noteq> blk"
  using assms
  by (auto simp: CommonDecoder_GetAddressAndCheckSize_def Service_GetTransferBuffer_def names_block_def
      Buffer_GetDataAddress_def split: option.splits if_splits)

lemma HandleGetBucketStart_block:
  assumes "HandleGetBucketStart n cmd w = (e, w')"
    and "\<not> names_block (sv_tbm (fst w)) blk (arg w cmd 2)" "\<not> names_block (sv_tbm (fst w)) blk (arg w cmd 5)"
  shows "sv_heap (fst w') ! blk = sv_heap (fst w) ! blk \<and> sv_state (fst w') = sv_state (fst w)"
  using assms
  by (auto simp: HandleGetBucketStart_def Let_def store_heap_other dest!: checked_address_block
      split: if_splits option.splits)

lemma HandleGetBucketData_block:
  assumes "HandleGetBucketData n cmd w = (e, w')" "\<not> names_block (sv_tbm (fst w)) blk (arg w cmd 4)"
  shows "sv_heap (fst w') ! blk = sv_heap (fst w) ! blk \<and> sv_state (fst w') = sv_state (fst w)"
  using assms
  by (auto simp: HandleGetBucketData_def Let_def store_heap_other dest!: checked_address_block
      split: if_splits option.splits)

lemma set_bucket_data_service: "set_bucket_data i src off sz w = (e, w') \<Longrightarrow> fst w' = fst w"
  by (auto simp: set_bucket_data_def split: option.splits if_splits prod.splits)

lemma SetToken_state:
  "sv_heap (Service_SetToken t s) = sv_heap s" "st_error (sv_state (Service_SetToken t s)) = st_error (sv_state s)"
  by (simp_all add: Service_SetToken_def)

text \<open>\<open>OnFenceSyncRelease\<close> of \<^verbatim>\<open>CommandBufferDirect\<close> does nothing.\<close>

abbreviation (input) no_fence :: "u64 \<Rightarrow> 'x dworld \<Rightarrow> 'x dworld" where
  "no_fence \<equiv> \<lambda>_ w. w"

lemma common_handler_ring:
  assumes "common_handler no_fence c n cmd w = (e, w')"
    and "\<forall>i \<in> set (cmd_targets (arg w cmd) (kCmdId c)). \<not> names_block (sv_tbm (fst w)) blk i"
  shows "sv_heap (fst w') ! blk = sv_heap (fst w) ! blk"
    "st_token (sv_state (fst w')) = token_after (arg w cmd) (kCmdId c) (st_token (sv_state (fst w)))"
    "st_error (sv_state (fst w')) = st_error (sv_state (fst w))"
    "e = kNoError \<or> IsError e"
proof -
  have "sv_heap (fst w') ! blk = sv_heap (fst w) ! blk \<and>
    st_token (sv_state (fst w')) = token_after (arg w cmd) (kCmdId c) (st_token (sv_state (fst w))) \<and>
    st_error (sv_state (fst w')) = st_error (sv_state (fst w))"
  proof (cases c)
    case kGetBucketStart
    with assms HandleGetBucketStart_block [of n cmd w e w' blk] show ?thesis
      by (simp add: cmd_targets_def token_after_def)
  next
    case kGetBucketData
    with assms HandleGetBucketData_block [of n cmd w e w' blk] show ?thesis
      by (simp add: cmd_targets_def token_after_def)
  next
    case kSetBucketData
    with assms show ?thesis
      by (auto simp: token_after_def HandleSetBucketData_def Let_def dest: set_bucket_data_service split: option.splits)
  next
    case kSetBucketDataImmediate
    with assms show ?thesis
      by (auto simp: token_after_def HandleSetBucketDataImmediate_def Let_def dest: set_bucket_data_service split: if_splits)
  next
    case kSetBucketSize
    with assms show ?thesis
      by (auto simp: token_after_def HandleSetBucketSize_def Let_def split: if_splits prod.splits)
  qed (use assms in \<open>auto simp: token_after_def HandleNoop_def HandleSetToken_def HandleInsertFenceSync_def Let_def
      SetToken_state SetToken_frame\<close>)
  then show "sv_heap (fst w') ! blk = sv_heap (fst w) ! blk"
    "st_token (sv_state (fst w')) = token_after (arg w cmd) (kCmdId c) (st_token (sv_state (fst w)))"
    "st_error (sv_state (fst w')) = st_error (sv_state (fst w))" by auto
  show "e = kNoError \<or> IsError e"
    using common_handler_step(2,3) assms(1)
    by (cases c; auto simp: IsError_def HandleNoop_def HandleSetToken_def HandleInsertFenceSync_def HandleSetBucketSize_def HandleSetBucketData_def
        HandleSetBucketDataImmediate_def HandleGetBucketStart_def HandleGetBucketData_def set_bucket_data_def
        Let_def split: option.splits if_splits prod.splits)
qed

lemma common_table:
  assumes "command < length (common_command_info f)"
  obtains c where "command = kCmdId c"
    "common_command_info f ! command = \<lparr>ci_handler = common_handler f c, ci_arg_flags = kArgFlags c,
       ci_arg_count = sizeof_command c div 4 - 1\<rparr>"
proof -
  have "command = kCmdId (COMMON_COMMAND_BUFFER_CMDS ! command)"
    using assms by (auto simp: common_command_info_def COMMON_COMMAND_BUFFER_CMDS_def less_Suc_eq)
  moreover have "common_command_info f ! command = \<lparr>ci_handler = common_handler f (COMMON_COMMAND_BUFFER_CMDS ! command),
      ci_arg_flags = kArgFlags (COMMON_COMMAND_BUFFER_CMDS ! command),
      ci_arg_count = sizeof_command (COMMON_COMMAND_BUFFER_CMDS ! command) div 4 - 1\<rparr>"
    using assms by (simp add: common_command_info_def)
  ultimately show thesis by (rule that)
qed

lemma do_command_ring:
  assumes "do_command no_fence [] command k cmd w = (e, w')"
    and "\<forall>i \<in> set (cmd_targets (arg w cmd) command). \<not> names_block (sv_tbm (fst w)) blk i"
  shows "sv_heap (fst w') ! blk = sv_heap (fst w) ! blk"
    "e = kNoError \<Longrightarrow> st_token (sv_state (fst w')) = token_after (arg w cmd) command (st_token (sv_state (fst w)))"
    "st_error (sv_state (fst w')) = st_error (sv_state (fst w))"
    "e = kNoError \<or> IsError e"
proof -
  have d: "DoCommonCommand no_fence command k cmd w = (e, w')" using assms(1) by (simp add: do_command_def Let_def)
  consider (unknown) "e = kUnknownCommand" "w' = w" | (bad) "e = kInvalidArguments" "w' = w"
    | (run) c n where "command = kCmdId c" "common_handler no_fence c n cmd w = (e, w')"
  proof (cases "command < length (common_command_info no_fence :: 'a command_info list)")
    case True
    obtain c where c: "command = kCmdId c" "common_command_info no_fence ! command =
        \<lparr>ci_handler = common_handler (no_fence :: u64 \<Rightarrow> 'a dworld \<Rightarrow> 'a dworld) c, ci_arg_flags = kArgFlags c,
          ci_arg_count = sizeof_command c div 4 - 1\<rparr>"
      by (rule common_table [OF True])
    have "run_command (common_command_info no_fence ! command) k cmd w = (e, w')"
      using d True by (simp only: DoCommonCommand_def if_True)
    then have "(e, w') = (kInvalidArguments, w) \<or> (\<exists>n. common_handler no_fence c n cmd w = (e, w'))"
      unfolding run_command_def c(2) command_info.select_convs by (metis (full_types))
    with that(2,3) c(1) show thesis by blast
  next
    case False
    with d that(1) show thesis by (simp add: DoCommonCommand_def)
  qed
  then have "sv_heap (fst w') ! blk = sv_heap (fst w) ! blk \<and>
    (e = kNoError \<longrightarrow> st_token (sv_state (fst w')) = token_after (arg w cmd) command (st_token (sv_state (fst w)))) \<and>
    st_error (sv_state (fst w')) = st_error (sv_state (fst w)) \<and> (e = kNoError \<or> IsError e)"
  proof cases
    case (run c n)
    from common_handler_ring [OF run(2) assms(2) [unfolded run(1)]] run(1) show ?thesis by blast
  qed (simp_all add: IsError_def)
  then show "sv_heap (fst w') ! blk = sv_heap (fst w) ! blk"
    "e = kNoError \<Longrightarrow> st_token (sv_state (fst w')) = token_after (arg w cmd) command (st_token (sv_state (fst w)))"
    "st_error (sv_state (fst w')) = st_error (sv_state (fst w))"
    "e = kNoError \<or> IsError e" by blast+
qed

section \<open>The decoder loop on a stream\<close>

lemma take_decoder_error_ring:
  "fst (snd (take_decoder_error r)) = fst (snd r)"
  "fst (take_decoder_error r) = kNoError \<Longrightarrow> take_decoder_error r = r"
  by (auto simp: take_decoder_error_def split: if_splits)

lemma take_decoder_error_IsError:
  "fst r = kNoError \<or> IsError (fst r) \<Longrightarrow> decoder_inv (snd r) \<Longrightarrow>
     fst (take_decoder_error r) = kNoError \<or> IsError (fst (take_decoder_error r))"
  by (auto simp: take_decoder_error_def decoder_inv_def IsError_def)

lemma count_command_service [simp]: "fst (count_command w) = fst w"
  by (simp add: count_command_def)

text \<open>The stream from entry \<open>g + pos\<close>, in the memory and with the token of a state.\<close>

definition streaming_from :: "nat \<Rightarrow> nat \<Rightarrow> nat \<Rightarrow> i32 \<Rightarrow> nat \<Rightarrow> service \<Rightarrow> bool" where
  "streaming_from blk n put final p s \<longleftrightarrow>
     stream (sv_heap s ! blk) (names_block (sv_tbm s) blk) n put (if p = n then 0 else p) (st_token (sv_state s)) final"

lemma DoCommandsImpl_loop_stream:
  assumes "DoCommandsImpl_loop no_fence [] (blk, 4 * g) m pos w = (e, pos', w')"
    and "sv_inv (fst w)" "decoder_inv w" "pos \<le> m" "g + m = (if put < g then n else put)" "put < n" "g < n"
    and "streaming_from blk n put final (g + pos) (fst w)"
  shows "st_error (sv_state (fst w')) = st_error (sv_state (fst w)) \<and>
    (\<not> IsError e \<longrightarrow> streaming_from blk n put final (g + pos') (fst w'))"
  using assms
proof (induction "no_fence :: u64 \<Rightarrow> 'a dworld \<Rightarrow> 'a dworld" "[] :: 'a command_info list" "(blk, 4 * g)" m pos w
    rule: DoCommandsImpl_loop.induct)
  case (1 m pos w)
  note unf = DoCommandsImpl_loop.simps [of no_fence "[]" "(blk, 4 * g)" m pos w]
  let ?w0 = "count_command w" and ?cmd = "(blk, 4 * g + 4 * pos)"
  let ?mem = "sv_heap (fst w) ! blk" and ?named = "names_block (sv_tbm (fst w)) blk"
  have a: "arg ?w0 ?cmd = (\<lambda>i. ring_entry ?mem (g + pos + i))"
    using arg_ring_entry [of ?w0 blk "g + pos"] by (simp add: add_mult_distrib2 fun_eq_iff)
  let ?h = "value_header (ring_entry ?mem (g + pos))"
  have fence: "fence_ok (no_fence :: u64 \<Rightarrow> 'a dworld \<Rightarrow> 'a dworld)"
    by (simp add: fence_ok_def decoder_step_refl)
  show ?case
  proof (cases "pos < m \<and> dc_commands_to_process (snd w) \<noteq> 0")
    case False
    with "1.prems"(1,8) show ?thesis by (auto simp: unf split: if_splits)
  next
    case True
    from True "1.prems"(5,6) have lt: "g + pos < n" "g + pos \<noteq> put" "(if put < g + pos then n else put) = g + m"
      by (auto split: if_splits)
    from "1.prems"(8) lt(1) have "stream ?mem ?named n put (g + pos) (st_token (sv_state (fst w))) final"
      by (simp add: streaming_from_def)
    note st = stream_step [OF this lt(2) refl, unfolded lt(3)]
    have hd: "0 < hdr_size ?h" "g + pos + hdr_size ?h \<le> g + m"
      and tg: "\<forall>i \<in> set (cmd_targets (arg ?w0 ?cmd) (hdr_command ?h)). \<not> ?named i"
      and rest: "stream ?mem ?named n put (if g + pos + hdr_size ?h = n then 0 else g + pos + hdr_size ?h)
        (token_after (arg ?w0 ?cmd) (hdr_command ?h) (st_token (sv_state (fst w)))) final"
      unfolding a by (rule st(1,3-5))+
    define d where "d = do_command no_fence [] (hdr_command ?h) (hdr_size ?h - 1) ?cmd ?w0"
    define r where "r = take_decoder_error d"
    note c0 = count_command_step [OF "1.prems"(3)]
    then have i0: "sv_inv (fst ?w0)" "decoder_inv ?w0" using "1.prems"(2) by (auto simp: decoder_step_def)
    have dc: "do_command no_fence [] (hdr_command ?h) (hdr_size ?h - 1) ?cmd ?w0 = (fst d, snd d)" by (simp add: d_def)
    note dr = do_command_ring [OF dc, of blk, simplified, OF tg]
    have ds: "decoder_step ?w0 (snd d)" "fst d \<noteq> kDeferCommandUntilLater"
      using do_command_step [OF dc fence _ i0] by auto
    have rs: "decoder_step ?w0 (snd r)" "fst r \<noteq> kDeferCommandUntilLater"
      using take_decoder_error_step [OF ds] by (auto simp: r_def)
    have re: "fst r = kNoError \<or> IsError (fst r)" unfolding r_def
      using take_decoder_error_IsError [OF dr(4)] ds(1) by (simp add: decoder_step_def)
    have eq: "DoCommandsImpl_loop no_fence [] (blk, 4 * g) m pos w =
       (if fst r = kNoError then DoCommandsImpl_loop no_fence [] (blk, 4 * g) m (pos + hdr_size ?h) (snd r)
        else (fst r, pos + hdr_size ?h, snd r))"
      using True hd rs(2) fun_cong [OF a, of 0] by (simp add: unf Let_def r_def d_def)
    have err: "st_error (sv_state (fst (snd r))) = st_error (sv_state (fst w))"
      using dr(3) by (simp add: r_def take_decoder_error_ring(1))
    show ?thesis
    proof (cases "fst r = kNoError")
      case noerr: True
      then have "r = d" unfolding r_def by (rule take_decoder_error_ring(2))
      have tbm: "sv_tbm (fst (snd r)) = sv_tbm (fst w)" using rs(1) by (simp add: decoder_step_def sv_frame_def)
      have heap: "sv_heap (fst (snd r)) ! blk = ?mem"
        and tok: "st_token (sv_state (fst (snd r))) = token_after (arg ?w0 ?cmd) (hdr_command ?h) (st_token (sv_state (fst w)))"
        using dr(1,2) noerr \<open>r = d\<close> by simp_all
      have st: "streaming_from blk n put final (g + (pos + hdr_size ?h)) (fst (snd r))"
        unfolding streaming_from_def tbm heap tok add.assoc [symmetric] by (rule rest)
      have i1: "sv_inv (fst (snd r))" "decoder_inv (snd r)"
        using rs(1) sv_inv_frame [OF _ i0(1)] by (auto simp: decoder_step_def)
      have l: "DoCommandsImpl_loop no_fence [] (blk, 4 * g) m (pos + hdr_size ?h) (snd r) = (e, pos', w')"
        using eq noerr "1.prems"(1) by simp
      have sz: "hdr_size (value_header (arg ?w0 ?cmd 0)) = hdr_size ?h" "hdr_command (value_header (arg ?w0 ?cmd 0)) = hdr_command ?h"
        by (simp_all add: a)
      have "st_error (sv_state (fst w')) = st_error (sv_state (fst (snd r))) \<and>
        (\<not> IsError e \<longrightarrow> streaming_from blk n put final (g + pos') (fst w'))"
        by (rule "1.hyps" [where xd = r and x = ?w0 and xa = ?cmd and xb = "hdr_size ?h" and xc = "hdr_command ?h"])
          (use True hd sz r_def d_def noerr l i1 "1.prems"(5-7) st in \<open>simp_all\<close>)
      with err show ?thesis by simp
    next
      case False
      with eq "1.prems"(1) have "e = fst r" "w' = snd r" by simp_all
      with False re err show ?thesis by simp
    qed
  qed
qed

section \<open>Flushing a stream\<close>

text \<open>What a flush leaves alone, and the invariants of the service and its decoder around one.\<close>

definition ring_frame :: "service \<Rightarrow> service \<Rightarrow> bool" where
  "ring_frame s0 s \<longleftrightarrow> sv_ring_buffer s = sv_ring_buffer s0 \<and> sv_num_entries s = sv_num_entries s0 \<and>
     sv_buffer s = sv_buffer s0 \<and> sv_tbm s = sv_tbm s0 \<and> sv_scheduled s = sv_scheduled s0 \<and>
     st_set_get_buffer_count (sv_state s) = st_set_get_buffer_count (sv_state s0) \<and>
     map length (sv_heap s) = map length (sv_heap s0)"

definition error_ok :: "service \<Rightarrow> bool" where
  "error_ok s \<longleftrightarrow> st_error (sv_state s) = kNoError \<or> IsError (st_error (sv_state s))"

definition quiet :: "service \<Rightarrow> 'x dworld \<Rightarrow> bool" where
  "quiet s0 w \<longleftrightarrow> decoder_inv w \<and> error_ok (fst w) \<and> ring_frame s0 (fst w)"

definition stream_at :: "i32 \<Rightarrow> service \<Rightarrow> bool" where
  "stream_at final s \<longleftrightarrow> (\<exists>blk. sv_buffer s = Some (blk, 0) \<and>
     streaming_from blk (nat (sv_num_entries s)) (nat (sv_put_offset s)) final (nat (st_get_offset (sv_state s))) s)"

definition streaming :: "service \<Rightarrow> i32 \<Rightarrow> 'x dworld \<Rightarrow> bool" where
  "streaming s0 final w \<longleftrightarrow> quiet s0 w \<and> stream_at final (fst w)"

lemma ring_frame_sv_frame:
  "sv_frame s s' \<Longrightarrow> sv_scheduled s' = sv_scheduled s \<Longrightarrow> ring_frame s0 s \<Longrightarrow> ring_frame s0 s'"
  by (simp add: sv_frame_def ring_frame_def)

lemma ring_frame_advance [simp]: "ring_frame s0 (wrap_get (advance_get m s)) \<longleftrightarrow> ring_frame s0 s"
  by (simp add: ring_frame_def wrap_get_def advance_get_def)

lemma error_ok_advance [simp]: "error_ok (wrap_get (advance_get m s)) \<longleftrightarrow> error_ok s"
  by (simp add: error_ok_def wrap_get_def advance_get_def)

lemma paused_irrelevant [simp]:
  "error_ok (s\<lparr>sv_paused := b\<rparr>) \<longleftrightarrow> error_ok s"
  "ring_frame s0 (s\<lparr>sv_paused := b\<rparr>) \<longleftrightarrow> ring_frame s0 s" "stream_at final (s\<lparr>sv_paused := b\<rparr>) \<longleftrightarrow> stream_at final s"
  by (simp_all add: error_ok_def ring_frame_def stream_at_def streaming_from_def)

lemma stream_at_advance:
  assumes "sv_buffer s = Some (blk, 0)" "streaming_from blk (nat (sv_num_entries s)) (nat (sv_put_offset s)) final
      (nat (st_get_offset (sv_state s) + m)) s" "0 \<le> st_get_offset (sv_state s)" "0 \<le> m"
  shows "stream_at final (wrap_get (advance_get m s))"
  using assms by (auto simp: stream_at_def wrap_get_def advance_get_def streaming_from_def)

lemma common_fence_ok: "fence_ok (no_fence :: u64 \<Rightarrow> 'x dworld \<Rightarrow> 'x dworld)"
  by (simp add: fence_ok_def decoder_step_refl)

text \<open>One call of \<^verbatim>\<open>DoCommands\<close> on a run of the stream.\<close>

lemma DoCommandsImpl_streaming:
  fixes w :: "'x dworld"
  assumes "sv_inv (fst w)" "streaming s0 final w" "n = loop_stop (fst w) - st_get_offset (sv_state (fst w))"
    and "p = entry_pointer (sv_buffer (fst w)) (st_get_offset (sv_state (fst w)))"
  shows "\<exists>e m w'. DoCommandsImpl no_fence [] k p n w = Inr (e, m, w') \<and> sv_frame (fst w) (fst w') \<and>
    quiet s0 (wrap_get (advance_get m (fst w')), snd w') \<and>
    (\<not> IsError e \<longrightarrow> streaming s0 final (wrap_get (advance_get m (fst w')), snd w')) \<and> 0 \<le> m \<and> m \<le> n"
proof -
  let ?s = "fst w" and ?w1 = "(fst w, (snd w)\<lparr>dc_commands_to_process := int k\<rparr>)"
  let ?get = "st_get_offset (sv_state (fst w))"
  have q: "decoder_inv w" "error_ok ?s" "ring_frame s0 ?s" and st: "stream_at final ?s"
    using assms(2) by (auto simp: streaming_def quiet_def)
  have off: "0 \<le> ?get" "0 \<le> sv_put_offset ?s" "0 \<le> n"
    using assms(1,3) by (auto simp: sv_inv_def offsets_ok_def loop_stop_def)
  from DoCommandsImpl_step [OF common_fence_ok _ assms(1) q(1) off(3), of "[]" k p] obtain e m w'
    where d: "DoCommandsImpl no_fence [] k p n w = Inr (e, m, w')" "decoder_step w w'" "0 \<le> m" "m \<le> n" by auto
  from d(1) have l: "DoCommandsImpl_loop no_fence [] p (nat n) 0 ?w1 = (e, nat m, w')"
    by (auto simp: DoCommandsImpl_def split: prod.splits)
  have fr: "sv_frame ?s (fst w')" "sv_scheduled (fst w') = sv_scheduled ?s" "decoder_inv w'"
    using d(2) by (auto simp: decoder_step_def)
  have rf: "ring_frame s0 (fst w')" by (rule ring_frame_sv_frame [OF fr(1,2) q(3)])
  from st obtain blk where blk: "sv_buffer ?s = Some (blk, 0)"
    "streaming_from blk (nat (sv_num_entries ?s)) (nat (sv_put_offset ?s)) final (nat ?get) ?s"
    by (auto simp: stream_at_def)
  have p: "p = (blk, 4 * nat ?get)" by (simp add: assms(4) blk(1) entry_pointer_def)
  have same: "sv_buffer (fst w') = Some (blk, 0)" "sv_num_entries (fst w') = sv_num_entries ?s"
    "sv_put_offset (fst w') = sv_put_offset ?s" "st_get_offset (sv_state (fst w')) = ?get"
    using fr(1) blk(1) by (auto simp: sv_frame_def)
  have out: "st_error (sv_state (fst w')) = st_error (sv_state ?s) \<and> (\<not> IsError e \<longrightarrow>
      streaming_from blk (nat (sv_num_entries ?s)) (nat (sv_put_offset ?s)) final (nat ?get + nat m) (fst w'))"
  proof (cases "sv_put_offset ?s = ?get")
    case True
    then have "n = 0" by (simp add: assms(3) loop_stop_def)
    with l d(3,4) have "fst w' = ?s" "m = 0" by (auto simp: DoCommandsImpl_loop.simps)
    with blk(2) show ?thesis by simp
  next
    case False
    then have lt: "sv_put_offset ?s < sv_num_entries ?s" "?get < sv_num_entries ?s"
      using assms(1) by (auto simp: sv_inv_def offsets_ok_def)
    have "nat ?get + nat n = (if nat (sv_put_offset ?s) < nat ?get then nat (sv_num_entries ?s) else nat (sv_put_offset ?s))"
      using off lt by (auto simp: assms(3) loop_stop_def)
    with DoCommandsImpl_loop_stream [OF l [unfolded p], of "nat (sv_put_offset ?s)" "nat (sv_num_entries ?s)" final]
      blk(2) lt off assms(1) q(1) show ?thesis by (simp add: decoder_inv_def)
  qed
  then have "quiet s0 (wrap_get (advance_get m (fst w')), snd w')"
    using rf fr(3) q(2) by (simp add: quiet_def decoder_inv_def error_ok_def [of "fst w'"] error_ok_def [of ?s])
  moreover have "stream_at final (wrap_get (advance_get m (fst w')))" if "\<not> IsError e"
    by (rule stream_at_advance [OF same(1)]) (use out that off d(3) same in \<open>simp_all add: nat_add_distrib\<close>)
  ultimately show ?thesis using d fr by (auto simp: streaming_def)
qed

interpretation tokens: live_service_handler Direct_client "decoder_handler common_api"
  "streaming s0 final" "quiet s0" for s0 :: service and final :: i32
proof
  fix w w' :: "'x dworld" and n k p e m b err
  note defs = decoder_handler_def common_api_def Direct_client_def
  show "streaming s0 final ((fst w)\<lparr>sv_paused := b\<rparr>, snd w)" if "streaming s0 final w"
    using that by (simp add: streaming_def quiet_def decoder_inv_def)
  show "quiet s0 w" if "streaming s0 final w" using that by (simp add: streaming_def)
  show "quiet s0 ((fst w)\<lparr>sv_state := (sv_state (fst w))\<lparr>st_error := err\<rparr>\<rparr>, snd w)" if "quiet s0 w" "IsError err"
    using that by (simp add: quiet_def decoder_inv_def error_ok_def ring_frame_def)
  show "\<exists>e m w'. DoCommands_op (decoder_handler common_api) k p n w = Inr (e, m, w') \<and> sv_frame (fst w) (fst w') \<and>
      quiet s0 (wrap_get (advance_get m (fst w')), snd w') \<and>
      (\<not> IsError e \<longrightarrow> streaming s0 final (wrap_get (advance_get m (fst w')), snd w')) \<and> 0 \<le> m \<and> m \<le> n"
    if "sv_inv (fst w)" "streaming s0 final w" "p = entry_pointer (sv_buffer (fst w)) (st_get_offset (sv_state (fst w)))"
      "n = loop_stop (fst w) - st_get_offset (sv_state (fst w))"
    using DoCommandsImpl_streaming [OF that(1,2,4,3), of k] by (simp add: defs)
  have dstep: "\<exists>e m w'. DoCommandsImpl no_fence [] k p n w = Inr (e, m, w') \<and> decoder_step w w' \<and> 0 \<le> m \<and> m \<le> n \<and>
      (\<not> IsError e \<longrightarrow> 0 < k \<longrightarrow> 0 < n \<longrightarrow> 0 < m)" if "sv_inv (fst w)" "streaming s0 final w" "0 \<le> n"
    by (rule DoCommandsImpl_step) (use that common_fence_ok in \<open>simp_all add: streaming_def quiet_def\<close>)
  show "0 < m" if "sv_inv (fst w)" "streaming s0 final w" "0 < n" "0 < k"
    "DoCommands_op (decoder_handler common_api) k p n w = Inr (e, m, w')" "\<not> IsError e"
    using dstep that by (auto simp: defs)
  show "sv_scheduled (fst w') = sv_scheduled (fst w)" if "sv_inv (fst w)" "streaming s0 final w" "0 \<le> n"
    "DoCommands_op (decoder_handler common_api) k p n w = Inr (e, m, w')"
    using dstep [OF that(1-3)] that(4) by (auto simp: defs decoder_step_def)
qed (auto simp: decoder_handler_def common_api_def Direct_client_def Direct_OnCommandBatchProcessed_def
    Direct_OnParseError_def)

text \<open>
  A flush of a stream by \<^verbatim>\<open>CommandBufferDirect\<close>: it returns, the ring stays in place, and either the
  service is in an error state or it has executed the whole stream and holds its last token.
\<close>

lemma Flush_stream:
  fixes w :: "'x dworld"
  assumes "sv_inv (fst w)" "quiet s0 w" "sv_scheduled (fst w)" "0 < k"
    and "0 \<le> put \<Longrightarrow> put < sv_num_entries (fst w) \<Longrightarrow> stream_at final ((fst w)\<lparr>sv_put_offset := put\<rparr>)"
  shows "\<exists>w'. Service_Flush Direct_client (decoder_handler common_api) k put w = Some (Inr w') \<and>
    sv_inv (fst w') \<and> quiet s0 w' \<and>
    (st_error (sv_state (fst w')) = kNoError \<longrightarrow>
       st_get_offset (sv_state (fst w')) = put \<and> sv_put_offset (fst w') = put \<and> st_token (sv_state (fst w')) = final)"
proof -
  have "streaming s0 final ((fst w)\<lparr>sv_put_offset := put\<rparr>, snd w)" if "0 \<le> put" "put < sv_num_entries (fst w)"
    using assms(2) assms(5) [OF that]
    by (simp add: streaming_def quiet_def decoder_inv_def error_ok_def ring_frame_def)
  from tokens.Flush_returns [OF assms(1-4) this] obtain w' where
    w': "Service_Flush Direct_client (decoder_handler common_api) k put w = Some (Inr w')" "sv_inv (fst w')" "quiet s0 w'"
      "tokens.caught_up s0 final put w' \<or> st_error (sv_state (fst w')) \<noteq> kNoError" by auto
  have "st_token (sv_state (fst w')) = final" if "tokens.caught_up s0 final put w'"
  proof -
    from that obtain blk where c: "streaming_from blk (nat (sv_num_entries (fst w'))) (nat put) final (nat put) (fst w')"
      "sv_put_offset (fst w') = put" by (auto simp: tokens.caught_up_def streaming_def stream_at_def)
    have "(if nat put = nat (sv_num_entries (fst w')) then 0 else nat put) = nat put"
      using w'(2) c(2) by (auto simp: sv_inv_def offsets_ok_def)
    from stream_at_put [OF c(1) [unfolded streaming_from_def this]] show ?thesis by simp
  qed
  with w'(4) have "st_error (sv_state (fst w')) = kNoError \<longrightarrow>
      st_get_offset (sv_state (fst w')) = put \<and> sv_put_offset (fst w') = put \<and> st_token (sv_state (fst w')) = final"
    unfolding tokens.caught_up_def by blast
  with w'(1-3) show ?thesis by blast
qed

end
