(* ===== verification/Ring_Buffer.thy ===== *)
theory Ring_Buffer
  imports Token_Interface
begin

text \<open>
  \<^verbatim>\<open>gpu/command_buffer/client/ring_buffer.{h,cc}\<close>: a ring of memory blocks in which allocations
  are freed pending a token.
\<close>

section \<open>Data\<close>

datatype rb_state = RB_IN_USE | RB_PADDING | RB_FREE_PENDING_TOKEN

record rb_block =
  blk_offset :: u32
  blk_size :: u32
  blk_token :: u32
  blk_state :: rb_state

record ring_buffer =
  rb_blocks :: "rb_block list"
  rb_base_offset :: u32
  rb_size :: u32
  rb_free_offset :: u32
  rb_in_use_offset :: u32
  rb_alignment :: u32
  rb_num_used_blocks :: u32
  rb_base :: addr

definition mk_block :: "u32 \<Rightarrow> u32 \<Rightarrow> rb_state \<Rightarrow> rb_block" where
  "mk_block off sz st = \<lparr>blk_offset = off, blk_size = sz, blk_token = 0, blk_state = st\<rparr>"

definition new_RingBuffer :: "u32 \<Rightarrow> addr \<Rightarrow> u32 \<Rightarrow> u32 \<Rightarrow> ring_buffer" where
  "new_RingBuffer buffer_size buffer_memory alignment base_offset =
     \<lparr>rb_blocks = [], rb_base_offset = base_offset,
      rb_size = u32_sub buffer_size base_offset,
      rb_free_offset = 0, rb_in_use_offset = 0, rb_alignment = alignment,
      rb_num_used_blocks = 0, rb_base = buffer_memory\<rparr>"

section \<open>Operations\<close>

definition RingBuffer_GetPointer :: "ring_buffer \<Rightarrow> u32 \<Rightarrow> addr" where
  "RingBuffer_GetPointer rb offset = rb_base rb + int offset"

definition RingBuffer_GetOffset :: "ring_buffer \<Rightarrow> addr \<Rightarrow> u32" where
  "RingBuffer_GetOffset rb pointer = u32_of_int (pointer - rb_base rb)"

definition RingBuffer_RoundToAlignment :: "ring_buffer \<Rightarrow> u32 \<Rightarrow> u32" where
  "RingBuffer_RoundToAlignment rb sz =
     u32_clear_low (u32_sub (u32_add sz (rb_alignment rb)) 1) (rb_alignment rb)"

definition RingBuffer_FreeOldestBlock ::
  "'h token_ops \<Rightarrow> ring_buffer \<Rightarrow> 'h \<Rightarrow> (ring_buffer \<times> 'h) res" where
  "RingBuffer_FreeOldestBlock ops rb h =
     (case rb_blocks rb of
        [] \<Rightarrow> Inl DCHECK_failed
      | block # rest \<Rightarrow>
          dcheck (blk_state block \<noteq> RB_IN_USE)
            (res_bind
              (if blk_state block = RB_FREE_PENDING_TOKEN
               then WaitForToken_op ops (i32_of_u32 (blk_token block)) h else Inr h)
              (\<lambda>h1.
                let in_use1 = u32_add (rb_in_use_offset rb) (blk_size block);
                    in_use2 = (if in_use1 = rb_size rb then 0 else in_use1);
                    empty = (in_use2 = rb_free_offset rb)
                in Inr (rb\<lparr>rb_in_use_offset := (if empty then 0 else in_use2),
                           rb_free_offset := (if empty then 0 else rb_free_offset rb),
                           rb_blocks := rest\<rparr>, h1))))"

lemma FreeOldestBlock_blocks:
  "RingBuffer_FreeOldestBlock ops rb h = Inr (rb', h') \<Longrightarrow>
     rb_blocks rb \<noteq> [] \<and> rb_blocks rb' = tl (rb_blocks rb)"
  by (auto simp: RingBuffer_FreeOldestBlock_def Let_def res_simps split: list.splits)

text \<open>The loop that opens \<^verbatim>\<open>GetLargestFreeSizeNoWaitingInternal\<close>.\<close>

function RingBuffer_FreePassedBlocks ::
  "'h token_ops \<Rightarrow> ring_buffer \<Rightarrow> 'h \<Rightarrow> (ring_buffer \<times> 'h) res" where
  "RingBuffer_FreePassedBlocks ops rb h =
     (case rb_blocks rb of
        [] \<Rightarrow> Inr (rb, h)
      | block # rest \<Rightarrow>
          (case HasTokenPassed_op ops (i32_of_u32 (blk_token block)) h of (passed, h1) \<Rightarrow>
             if \<not> passed \<or> blk_state block = RB_IN_USE then Inr (rb, h1)
             else res_bind (RingBuffer_FreeOldestBlock ops rb h1)
                    (\<lambda>s. RingBuffer_FreePassedBlocks ops (fst s) (snd s))))"
  by pat_completeness auto
termination
proof (relation "measure (\<lambda>(ops, rb, h). length (rb_blocks rb))", goal_cases)
  case (2 ops rb h block rest passed h1 s)
  then have "length (rb_blocks (fst s)) < length (rb_blocks rb)"
    using FreeOldestBlock_blocks [of ops rb h1 "fst s" "snd s"] by (cases "rb_blocks rb") auto
  then show ?case by (simp add: case_prod_beta)
qed simp

declare RingBuffer_FreePassedBlocks.simps [simp del]

definition RingBuffer_GetLargestFreeSizeNoWaitingInternal ::
  "'h token_ops \<Rightarrow> ring_buffer \<Rightarrow> 'h \<Rightarrow> (u32 \<times> ring_buffer \<times> 'h) res" where
  "RingBuffer_GetLargestFreeSizeNoWaitingInternal ops rb h =
     res_bind (RingBuffer_FreePassedBlocks ops rb h)
       (\<lambda>(rb, h).
         if rb_free_offset rb = rb_in_use_offset rb then
           if rb_blocks rb = []
           then dcheck (rb_free_offset rb = 0) (Inr (rb_size rb, rb, h))
           else Inr (0, rb, h)
         else if rb_free_offset rb > rb_in_use_offset rb
         then Inr (max (u32_sub (rb_size rb) (rb_free_offset rb)) (rb_in_use_offset rb), rb, h)
         else Inr (u32_sub (rb_in_use_offset rb) (rb_free_offset rb), rb, h))"

definition RingBuffer_GetLargestFreeSizeNoWaiting ::
  "'h token_ops \<Rightarrow> ring_buffer \<Rightarrow> 'h \<Rightarrow> (u32 \<times> ring_buffer \<times> 'h) res" where
  "RingBuffer_GetLargestFreeSizeNoWaiting ops rb h =
     res_bind (RingBuffer_GetLargestFreeSizeNoWaitingInternal ops rb h)
       (\<lambda>(sz, rb, h).
         dcheck (sz = RingBuffer_RoundToAlignment rb sz) (Inr (sz, rb, h)))"

definition RingBuffer_GetTotalFreeSizeNoWaiting ::
  "'h token_ops \<Rightarrow> ring_buffer \<Rightarrow> 'h \<Rightarrow> (u32 \<times> ring_buffer \<times> 'h) res" where
  "RingBuffer_GetTotalFreeSizeNoWaiting ops rb h =
     res_bind (RingBuffer_GetLargestFreeSizeNoWaitingInternal ops rb h)
       (\<lambda>(largest_free_size, rb, h).
         if rb_free_offset rb > rb_in_use_offset rb
         then Inr (u32_add (u32_sub (rb_size rb) (rb_free_offset rb)) (rb_in_use_offset rb), rb, h)
         else Inr (largest_free_size, rb, h))"

definition RingBuffer_GetLargestFreeOrPendingSize :: "ring_buffer \<Rightarrow> u32" where
  "RingBuffer_GetLargestFreeOrPendingSize rb = u32_sub (rb_size rb) (rb_size rb mod rb_alignment rb)"

definition RingBuffer_GetUsedSize ::
  "'h token_ops \<Rightarrow> ring_buffer \<Rightarrow> 'h \<Rightarrow> (u32 \<times> ring_buffer \<times> 'h) res" where
  "RingBuffer_GetUsedSize ops rb h =
     res_bind (RingBuffer_GetLargestFreeSizeNoWaiting ops rb h)
       (\<lambda>(sz, rb, h). Inr (u32_sub (rb_size rb) sz, rb, h))"

text \<open>
  Whatever a token query and the freeing of the oldest block both keep is kept by the loop.
\<close>

lemma FreePassedBlocks_invariant:
  assumes "RingBuffer_FreePassedBlocks ops rb h = Inr (rb', h')" "P rb h"
    and has: "\<And>rb h t b h1. P rb h \<Longrightarrow> HasTokenPassed_op ops t h = (b, h1) \<Longrightarrow> P rb h1"
    and free: "\<And>rb h rb1 h1. P rb h \<Longrightarrow> RingBuffer_FreeOldestBlock ops rb h = Inr (rb1, h1) \<Longrightarrow> P rb1 h1"
  shows "P rb' h'"
  using assms
proof (induction ops rb h rule: RingBuffer_FreePassedBlocks.induct)
  case (1 ops rb h)
  note unfold = RingBuffer_FreePassedBlocks.simps [of ops rb h]
  show ?case
  proof (cases "rb_blocks rb")
    case Nil
    with "1.prems"(1,2) show ?thesis by (simp add: unfold)
  next
    case (Cons block rest)
    obtain p h1 where p: "HasTokenPassed_op ops (i32_of_u32 (blk_token block)) h = (p, h1)"
      by fastforce
    then have P1: "P rb h1" using "1.prems"(2,3) by blast
    show ?thesis
    proof (cases "\<not> p \<or> blk_state block = RB_IN_USE")
      case True
      with "1.prems"(1) Cons p P1 show ?thesis by (simp add: unfold)
    next
      case False
      with "1.prems"(1) Cons p obtain s
        where f: "RingBuffer_FreeOldestBlock ops rb h1 = Inr s"
          and r: "RingBuffer_FreePassedBlocks ops (fst s) (snd s) = Inr (rb', h')"
        by (auto simp: unfold res_simps)
      from f P1 "1.prems"(4) have "P (fst s) (snd s)" by (cases s) auto
      from "1.IH" [OF Cons p [symmetric] False f r this "1.prems"(3,4)] show ?thesis .
    qed
  qed
qed

lemma FreePassedBlocks_length:
  assumes "RingBuffer_FreePassedBlocks ops rb h = Inr (rb', h')"
  shows "length (rb_blocks rb') \<le> length (rb_blocks rb)"
  by (rule FreePassedBlocks_invariant [OF assms, where P = "\<lambda>r h. length (rb_blocks r) \<le> length (rb_blocks rb)"])
    (auto dest: FreeOldestBlock_blocks)

lemma LargestInternal_blocks:
  "RingBuffer_GetLargestFreeSizeNoWaitingInternal ops rb h = Inr (n, rb', h') \<Longrightarrow>
     RingBuffer_FreePassedBlocks ops rb h = Inr (rb', h')"
  by (auto simp: RingBuffer_GetLargestFreeSizeNoWaitingInternal_def res_simps split: if_splits)

text \<open>The loop of \<^verbatim>\<open>Alloc\<close> that waits until there is enough room.\<close>

function RingBuffer_WaitForRoom ::
  "'h token_ops \<Rightarrow> u32 \<Rightarrow> ring_buffer \<Rightarrow> 'h \<Rightarrow> (ring_buffer \<times> 'h) res" where
  "RingBuffer_WaitForRoom ops sz rb h =
     res_bind (RingBuffer_GetLargestFreeSizeNoWaitingInternal ops rb h)
       (\<lambda>s. if sz > fst s
            then res_bind (RingBuffer_FreeOldestBlock ops (fst (snd s)) (snd (snd s)))
                   (\<lambda>t. RingBuffer_WaitForRoom ops sz (fst t) (snd t))
            else Inr (snd s))"
  by pat_completeness auto
termination
proof (relation "measure (\<lambda>(ops, sz, rb, h). length (rb_blocks rb))", goal_cases)
  case (2 ops sz rb h s t)
  then have "length (rb_blocks (fst (snd s))) \<le> length (rb_blocks rb)"
    using FreePassedBlocks_length
      [OF LargestInternal_blocks [of ops rb h "fst s" "fst (snd s)" "snd (snd s)"]] by simp
  moreover have "length (rb_blocks (fst t)) < length (rb_blocks (fst (snd s)))"
    using 2 FreeOldestBlock_blocks [of ops "fst (snd s)" "snd (snd s)" "fst t" "snd t"]
    by (cases "rb_blocks (fst (snd s))") auto
  ultimately show ?case by (simp add: case_prod_beta)
qed simp

declare RingBuffer_WaitForRoom.simps [simp del]

lemma WaitForRoom_cases:
  assumes "RingBuffer_WaitForRoom ops sz rb h = Inr (rb', h')"
  obtains (enough) n where "RingBuffer_GetLargestFreeSizeNoWaitingInternal ops rb h = Inr (n, rb', h')"
      "sz \<le> n"
  | (wait) n rb1 h1 rb2 h2
    where "RingBuffer_GetLargestFreeSizeNoWaitingInternal ops rb h = Inr (n, rb1, h1)" "n < sz"
      "RingBuffer_FreeOldestBlock ops rb1 h1 = Inr (rb2, h2)"
      "RingBuffer_WaitForRoom ops sz rb2 h2 = Inr (rb', h')"
proof -
  from assms obtain n rb1 h1
    where l: "RingBuffer_GetLargestFreeSizeNoWaitingInternal ops rb h = Inr (n, rb1, h1)"
      and more: "n < sz \<Longrightarrow> res_bind (RingBuffer_FreeOldestBlock ops rb1 h1)
                (\<lambda>t. RingBuffer_WaitForRoom ops sz (fst t) (snd t)) = Inr (rb', h')"
      and stop: "\<not> n < sz \<Longrightarrow> (rb1, h1) = (rb', h')"
    by (simp only: RingBuffer_WaitForRoom.simps [of ops sz rb h] res_bind_Inr_iff)
      (auto split: if_splits)
  then show thesis
    by (cases "n < sz") (auto simp: res_simps intro: enough wait)
qed

lemma WaitForRoom_induct [consumes 1, case_names enough wait]:
  assumes "RingBuffer_WaitForRoom ops sz rb h = Inr (rb', h')"
    and "\<And>rb h n. RingBuffer_GetLargestFreeSizeNoWaitingInternal ops rb h = Inr (n, rb', h') \<Longrightarrow>
           sz \<le> n \<Longrightarrow> Q rb h"
    and "\<And>rb h n rb1 h1 rb2 h2.
           RingBuffer_GetLargestFreeSizeNoWaitingInternal ops rb h = Inr (n, rb1, h1) \<Longrightarrow> n < sz \<Longrightarrow>
           RingBuffer_FreeOldestBlock ops rb1 h1 = Inr (rb2, h2) \<Longrightarrow>
           RingBuffer_WaitForRoom ops sz rb2 h2 = Inr (rb', h') \<Longrightarrow> Q rb2 h2 \<Longrightarrow> Q rb h"
  shows "Q rb h"
  using assms
proof (induction ops sz rb h rule: RingBuffer_WaitForRoom.induct)
  case (1 ops sz rb h)
  from "1.prems"(1) show ?case
  proof (cases rule: WaitForRoom_cases)
    case (enough n)
    then show ?thesis by (rule "1.prems"(2))
  next
    case (wait n rb1 h1 rb2 h2)
    have "Q rb2 h2"
      using "1.IH" [OF wait(1) _ _ _ "1.prems"(2,3), of "(rb2, h2)"] wait(2-4) by simp
    with wait show ?thesis by (rule "1.prems"(3))
  qed
qed

lemma WaitForRoom_invariant:
  assumes "RingBuffer_WaitForRoom ops sz rb h = Inr (rb', h')" "P rb h"
    and has: "\<And>rb h t b h1. P rb h \<Longrightarrow> HasTokenPassed_op ops t h = (b, h1) \<Longrightarrow> P rb h1"
    and free: "\<And>rb h rb1 h1. P rb h \<Longrightarrow> RingBuffer_FreeOldestBlock ops rb h = Inr (rb1, h1) \<Longrightarrow> P rb1 h1"
  shows "P rb' h'"
  using assms(1,2)
proof (induction rule: WaitForRoom_induct)
  case (enough rb h n)
  show ?case
    by (rule FreePassedBlocks_invariant [where P = P, OF LargestInternal_blocks [OF enough(1)] enough(3)])
      (erule (1) has, erule (1) free)
next
  case (wait rb h n rb1 h1 rb2 h2)
  have "P rb1 h1"
    by (rule FreePassedBlocks_invariant [where P = P, OF LargestInternal_blocks [OF wait(1)] wait(6)])
      (erule (1) has, erule (1) free)
  then show ?case using wait(3,5) free by blast
qed

definition RingBuffer_PlaceBlock :: "u32 \<Rightarrow> ring_buffer \<Rightarrow> addr \<times> ring_buffer" where
  "RingBuffer_PlaceBlock sz rb =
     (let rb1 = (if u32_add sz (rb_free_offset rb) > rb_size rb
                 then rb\<lparr>rb_blocks := rb_blocks rb @
                            [mk_block (rb_free_offset rb)
                               (u32_sub (rb_size rb) (rb_free_offset rb)) RB_PADDING],
                          rb_free_offset := 0\<rparr>
                 else rb);
          offset = rb_free_offset rb1;
          free1 = u32_add (rb_free_offset rb1) sz
      in (RingBuffer_GetPointer rb1 (u32_add offset (rb_base_offset rb1)),
          rb1\<lparr>rb_blocks := rb_blocks rb1 @ [mk_block offset sz RB_IN_USE],
              rb_num_used_blocks := u32_add (rb_num_used_blocks rb1) 1,
              rb_free_offset := (if free1 = rb_size rb1 then 0 else free1)\<rparr>))"

definition RingBuffer_Alloc ::
  "'h token_ops \<Rightarrow> u32 \<Rightarrow> ring_buffer \<Rightarrow> 'h \<Rightarrow> (addr \<times> ring_buffer \<times> 'h) res" where
  "RingBuffer_Alloc ops sz rb h =
     dcheck (sz \<le> rb_size rb)
       (let size1 = RingBuffer_RoundToAlignment rb (if sz = 0 then 1 else sz)
        in dcheck (size1 \<le> rb_size rb)
             (res_bind (RingBuffer_WaitForRoom ops size1 rb h)
               (\<lambda>(rb1, h1). case RingBuffer_PlaceBlock size1 rb1 of
                  (p, rb2) \<Rightarrow> Inr (p, rb2, h1))))"

text \<open>The reverse search of \<^verbatim>\<open>FreePendingToken\<close> and \<^verbatim>\<open>DiscardBlock\<close>: the last index whose
  block starts at the offset.\<close>

fun rfind_block :: "u32 \<Rightarrow> rb_block list \<Rightarrow> nat option" where
  "rfind_block offset [] = None"
| "rfind_block offset (b # bs) =
     (case rfind_block offset bs of
        Some i \<Rightarrow> Some (Suc i)
      | None \<Rightarrow> if blk_offset b = offset then Some 0 else None)"

definition RingBuffer_FreePendingToken ::
  "addr \<Rightarrow> u32 \<Rightarrow> ring_buffer \<Rightarrow> ring_buffer res" where
  "RingBuffer_FreePendingToken pointer token rb =
     (let offset = u32_sub (RingBuffer_GetOffset rb pointer) (rb_base_offset rb)
      in dcheck (rb_blocks rb \<noteq> [])
           (case rfind_block offset (rb_blocks rb) of
              None \<Rightarrow> Inl NOTREACHED_hit
            | Some i \<Rightarrow>
                (let block = rb_blocks rb ! i
                 in dcheck (blk_state block = RB_IN_USE)
                      (Inr (rb\<lparr>rb_blocks := (rb_blocks rb)[i :=
                                  block\<lparr>blk_token := token, blk_state := RB_FREE_PENDING_TOKEN\<rparr>],
                               rb_num_used_blocks := u32_sub (rb_num_used_blocks rb) 1\<rparr>)))))"

text \<open>The two trimming loops of \<^verbatim>\<open>DiscardBlock\<close>, on the blocks and the offset each one moves.\<close>

function trim_back :: "rb_block list \<Rightarrow> u32 \<Rightarrow> rb_block list \<times> u32" where
  "trim_back bs free =
     (if bs \<noteq> [] \<and> blk_state (last bs) = RB_PADDING
      then trim_back (butlast bs) (blk_offset (last bs)) else (bs, free))"
  by pat_completeness auto
termination
  by (relation "measure (\<lambda>(bs, free). length bs)") auto

declare trim_back.simps [simp del]

fun trim_front :: "rb_block list \<Rightarrow> u32 \<Rightarrow> rb_block list \<times> u32" where
  "trim_front [] in_use = ([], in_use)"
| "trim_front (b # bs) in_use =
     (if blk_state b = RB_PADDING
      then (case bs of [] \<Rightarrow> ([], in_use) | c # _ \<Rightarrow> trim_front bs (blk_offset c))
      else (b # bs, in_use))"

definition RingBuffer_DiscardBlock :: "addr \<Rightarrow> ring_buffer \<Rightarrow> ring_buffer res" where
  "RingBuffer_DiscardBlock pointer rb =
     (let offset = u32_sub (RingBuffer_GetOffset rb pointer) (rb_base_offset rb)
      in dcheck (rb_blocks rb \<noteq> [])
           (case rfind_block offset (rb_blocks rb) of
              None \<Rightarrow> Inl NOTREACHED_hit
            | Some i \<Rightarrow>
                (let block = rb_blocks rb ! i
                 in dcheck (blk_state block \<noteq> RB_PADDING)
                      (let used = (if blk_state block = RB_IN_USE
                                   then u32_sub (rb_num_used_blocks rb) 1
                                   else rb_num_used_blocks rb);
                           blocks1 = (rb_blocks rb)[i := block\<lparr>blk_state := RB_PADDING\<rparr>]
                       in case trim_back blocks1 (rb_free_offset rb) of (blocks2, free2) \<Rightarrow>
                          case trim_front blocks2 (rb_in_use_offset rb) of (blocks3, in_use3) \<Rightarrow>
                            Inr (rb\<lparr>rb_blocks := blocks3, rb_num_used_blocks := used,
                                    rb_in_use_offset := (if blocks3 = [] then 0 else in_use3),
                                    rb_free_offset := (if blocks3 = [] then 0 else free2)\<rparr>)))))"

definition RingBuffer_ShrinkLastBlock :: "u32 \<Rightarrow> ring_buffer \<Rightarrow> ring_buffer res" where
  "RingBuffer_ShrinkLastBlock new_size rb =
     (if rb_blocks rb = [] then Inr rb
      else let block = last (rb_blocks rb)
           in dcheck (new_size < blk_size block)
                (dcheck (blk_state block = RB_IN_USE)
                  (let new_size1 = RingBuffer_RoundToAlignment rb (max new_size 1)
                   in if new_size1 = blk_size block then Inr rb
                      else Inr (rb\<lparr>rb_free_offset := u32_add (blk_offset block) new_size1,
                                   rb_blocks := butlast (rb_blocks rb) @
                                                  [block\<lparr>blk_size := new_size1\<rparr>]\<rparr>))))"

section \<open>The ring invariant\<close>

definition is_pow2 :: "u32 \<Rightarrow> bool" where
  "is_pow2 n \<longleftrightarrow> (\<exists>k<32. n = 2 ^ k)"

definition total_size :: "rb_block list \<Rightarrow> nat" where
  "total_size bs = sum_list (map blk_size bs)"

definition used_blocks :: "rb_block list \<Rightarrow> nat" where
  "used_blocks bs = length (filter (\<lambda>b. blk_state b = RB_IN_USE) bs)"

text \<open>Consecutive blocks of a ring of \<open>n\<close> bytes, from offset \<open>p\<close> to offset \<open>q\<close>.\<close>

fun rb_chain :: "nat \<Rightarrow> nat \<Rightarrow> rb_block list \<Rightarrow> nat \<Rightarrow> bool" where
  "rb_chain n p [] q \<longleftrightarrow> p = q"
| "rb_chain n p (b # bs) q \<longleftrightarrow>
     blk_offset b = p \<and> 0 < blk_size b \<and> p + blk_size b \<le> n \<and>
     rb_chain n (if p + blk_size b = n then 0 else p + blk_size b) bs q"

definition blk_ok :: "nat \<Rightarrow> rb_block \<Rightarrow> bool" where
  "blk_ok al b \<longleftrightarrow> al dvd blk_offset b \<and>
     (blk_state b \<noteq> RB_PADDING \<longrightarrow> al dvd blk_size b) \<and>
     (blk_state b = RB_FREE_PENDING_TOKEN \<longrightarrow> blk_token b < 2 ^ 31)"

definition rb_core :: "nat \<Rightarrow> nat \<Rightarrow> nat \<Rightarrow> rb_block list \<Rightarrow> nat \<Rightarrow> bool" where
  "rb_core n al p bs q \<longleftrightarrow> p < n \<and> q < n \<and> al dvd q \<and> rb_chain n p bs q \<and>
     total_size bs \<le> n \<and> list_all (blk_ok al) bs"

definition rb_inv :: "ring_buffer \<Rightarrow> bool" where
  "rb_inv rb \<longleftrightarrow>
     is_pow2 (rb_alignment rb) \<and> rb_size rb \<le> 2 ^ 31 \<and>
     rb_base_offset rb + rb_size rb < 2 ^ 32 \<and>
     rb_core (rb_size rb) (rb_alignment rb) (rb_in_use_offset rb) (rb_blocks rb) (rb_free_offset rb) \<and>
     (rb_blocks rb = [] \<longrightarrow> rb_in_use_offset rb = 0 \<and> rb_free_offset rb = 0) \<and>
     rb_num_used_blocks rb = used_blocks (rb_blocks rb)"

lemma total_size_simps [simp]:
  "total_size [] = 0" "total_size (b # bs) = blk_size b + total_size bs"
  "total_size (xs @ ys) = total_size xs + total_size ys"
  by (simp_all add: total_size_def)

lemma used_blocks_simps [simp]:
  "used_blocks [] = 0"
  "used_blocks (b # bs) = (if blk_state b = RB_IN_USE then 1 else 0) + used_blocks bs"
  "used_blocks (xs @ ys) = used_blocks xs + used_blocks ys"
  by (simp_all add: used_blocks_def)

lemma mk_block_sel [simp]:
  "blk_offset (mk_block off sz st) = off" "blk_size (mk_block off sz st) = sz"
  "blk_state (mk_block off sz st) = st" "blk_token (mk_block off sz st) = 0"
  by (simp_all add: mk_block_def)

lemma rb_chain_append:
  "rb_chain n p (xs @ ys) q \<longleftrightarrow> (\<exists>m. rb_chain n p xs m \<and> rb_chain n m ys q)"
  by (induction xs arbitrary: p) auto

lemma rb_chain_pos: "rb_chain n p bs q \<Longrightarrow> b \<in> set bs \<Longrightarrow> 0 < blk_size b \<and> blk_size b \<le> total_size bs"
  by (induction bs arbitrary: p) (auto simp: trans_le_add2)

lemma rb_chain_empty_iff: "rb_chain n p bs q \<Longrightarrow> total_size bs = 0 \<longleftrightarrow> bs = []"
  by (cases bs) auto

lemma rb_chain_length: "rb_chain n p bs q \<Longrightarrow> length bs \<le> total_size bs"
  by (induction bs arbitrary: p) fastforce+

lemma used_le_length: "used_blocks bs \<le> length bs"
  by (simp add: used_blocks_def)

lemma rb_chain_end:
  assumes "rb_chain n p bs q" "p < n" "total_size bs \<le> n"
  shows "q = (if p + total_size bs < n then p + total_size bs else p + total_size bs - n)"
  using assms
proof (induction bs arbitrary: p)
  case Nil
  then show ?case by simp
next
  case (Cons b bs)
  let ?p = "if p + blk_size b = n then 0 else p + blk_size b"
  have "q = (if ?p + total_size bs < n then ?p + total_size bs else ?p + total_size bs - n)"
    using Cons.prems by (intro Cons.IH) auto
  with Cons.prems show ?case by (auto split: if_splits)
qed

text \<open>Where the blocks of a ring lie: after the start, or, past the wrap, before the end.\<close>

lemma rb_chain_bounds:
  assumes "rb_chain n p bs q" "p < n" "total_size bs \<le> n" "b \<in> set bs"
  shows "(p \<le> blk_offset b \<and> blk_offset b + blk_size b \<le> p + total_size bs \<and>
            blk_offset b + blk_size b \<le> n) \<or>
         (n < p + total_size bs \<and> blk_offset b + blk_size b \<le> p + total_size bs - n)"
  using assms
proof (induction bs arbitrary: p)
  case Nil
  then show ?case by simp
next
  case (Cons c bs)
  let ?p = "if p + blk_size c = n then 0 else p + blk_size c"
  show ?case
  proof (cases "b = c")
    case True
    with Cons.prems show ?thesis by auto
  next
    case False
    with Cons.prems have b: "b \<in> set bs" by simp
    from Cons.prems have c: "rb_chain n ?p bs q" "?p < n" "total_size bs < n"
      by auto
    have "(?p \<le> blk_offset b \<and> blk_offset b + blk_size b \<le> ?p + total_size bs \<and>
            blk_offset b + blk_size b \<le> n) \<or>
         (n < ?p + total_size bs \<and> blk_offset b + blk_size b \<le> ?p + total_size bs - n)"
      using Cons.IH [OF c(1,2) _ b] c(3) by simp
    moreover have "0 < total_size bs"
      using rb_chain_pos [OF c(1) b] by simp
    ultimately show ?thesis
      using Cons.prems by (auto split: if_splits)
  qed
qed

lemma rb_chain_distinct:
  assumes "rb_chain n p bs q" "p < n" "total_size bs \<le> n"
  shows "distinct (map blk_offset bs)"
  using assms
proof (induction bs arbitrary: p)
  case Nil
  then show ?case by simp
next
  case (Cons c bs)
  let ?p = "if p + blk_size c = n then 0 else p + blk_size c"
  from Cons.prems have c: "rb_chain n ?p bs q" "?p < n" "total_size bs < n"
    by auto
  have "blk_offset b \<noteq> p" if b: "b \<in> set bs" for b
    using rb_chain_bounds [OF c(1,2) _ b] c(3) rb_chain_pos [OF c(1) b] Cons.prems
    by (auto split: if_splits)
  then have "blk_offset c \<notin> set (map blk_offset bs)"
    using Cons.prems by fastforce
  then show ?case using Cons.IH [OF c(1,2)] c(3) by simp
qed

section \<open>Preservation\<close>

lemma rb_core_Cons:
  assumes "rb_core n al p (b # bs) q"
  shows "rb_core n al (if p + blk_size b = n then 0 else p + blk_size b) bs q"
    and "(if p + blk_size b = n then 0 else p + blk_size b) = q \<longleftrightarrow> bs = []"
proof -
  let ?p = "if p + blk_size b = n then 0 else p + blk_size b"
  from assms show core: "rb_core n al ?p bs q"
    by (auto simp: rb_core_def)
  from assms have "total_size bs < n" by (auto simp: rb_core_def)
  with core have "q = (if ?p + total_size bs < n then ?p + total_size bs else ?p + total_size bs - n)"
    by (intro rb_chain_end) (auto simp: rb_core_def)
  with \<open>total_size bs < n\<close> have "?p = q \<longleftrightarrow> total_size bs = 0"
    using core by (auto simp: rb_core_def)
  also have "\<dots> \<longleftrightarrow> bs = []"
    using core by (intro rb_chain_empty_iff) (auto simp: rb_core_def)
  finally show "?p = q \<longleftrightarrow> bs = []" .
qed

lemma rb_core_reset: "0 < n \<Longrightarrow> rb_core n al 0 [] 0"
  by (simp add: rb_core_def)

lemma FreeOldestBlock_inv:
  assumes "RingBuffer_FreeOldestBlock ops rb h = Inr (rb', h')" "rb_inv rb"
  shows "rb_inv rb'"
proof -
  from assms(1) obtain b bs h1 where bs: "rb_blocks rb = b # bs" and st: "blk_state b \<noteq> RB_IN_USE"
    by (auto simp: RingBuffer_FreeOldestBlock_def res_simps split: list.splits)
  let ?n = "rb_size rb" and ?p = "rb_in_use_offset rb"
  let ?p' = "if ?p + blk_size b = ?n then 0 else ?p + blk_size b"
  from assms(2) bs have core: "rb_core ?n (rb_alignment rb) ?p (b # bs) (rb_free_offset rb)"
    and "?n < 2 ^ 32"
    by (auto simp: rb_inv_def)
  then have add: "u32_add ?p (blk_size b) = ?p + blk_size b"
    by (intro u32_add_nowrap) (auto simp: rb_core_def)
  have rb': "rb' = rb\<lparr>rb_in_use_offset := (if bs = [] then 0 else ?p'),
      rb_free_offset := (if bs = [] then 0 else rb_free_offset rb), rb_blocks := bs\<rparr>"
    using assms(1) bs rb_core_Cons(2) [OF core]
    by (auto simp: RingBuffer_FreeOldestBlock_def Let_def res_simps add)
  show ?thesis
    using assms(2) bs st rb_core_Cons(1) [OF core]
    by (cases "bs = []") (auto simp: rb' rb_inv_def rb_core_reset rb_core_def)
qed

definition rb_room :: "ring_buffer \<Rightarrow> nat" where
  "rb_room rb = (if rb_free_offset rb = rb_in_use_offset rb
                 then if rb_blocks rb = [] then rb_size rb else 0
                 else if rb_free_offset rb > rb_in_use_offset rb
                 then max (rb_size rb - rb_free_offset rb) (rb_in_use_offset rb)
                 else rb_in_use_offset rb - rb_free_offset rb)"

lemma rb_inv_dest:
  assumes "rb_inv rb"
  shows "rb_core (rb_size rb) (rb_alignment rb) (rb_in_use_offset rb) (rb_blocks rb) (rb_free_offset rb)"
    and "rb_in_use_offset rb < rb_size rb" "rb_free_offset rb < rb_size rb"
    and "rb_size rb \<le> 2 ^ 31" "rb_base_offset rb + rb_size rb < 2 ^ 32"
    and "rb_blocks rb = [] \<Longrightarrow> rb_in_use_offset rb = 0 \<and> rb_free_offset rb = 0"
    and "rb_num_used_blocks rb = used_blocks (rb_blocks rb)"
    and "is_pow2 (rb_alignment rb)"
  using assms by (auto simp: rb_inv_def rb_core_def)

lemma LargestInternal_eq:
  assumes "RingBuffer_FreePassedBlocks ops rb h = Inr (rb', h')" "rb_inv rb'"
  shows "RingBuffer_GetLargestFreeSizeNoWaitingInternal ops rb h = Inr (rb_room rb', rb', h')"
  using assms(1) rb_inv_dest [OF assms(2)]
  by (auto simp: RingBuffer_GetLargestFreeSizeNoWaitingInternal_def rb_room_def u32_simps)

lemma FreePassedBlocks_inv:
  assumes "RingBuffer_FreePassedBlocks ops rb h = Inr (rb', h')" "rb_inv rb"
  shows "rb_inv rb'"
  by (rule FreePassedBlocks_invariant [OF assms(1), where P = "\<lambda>r h. rb_inv r"])
    (use assms(2) FreeOldestBlock_inv in auto)

lemma LargestInternal_inv:
  assumes "RingBuffer_GetLargestFreeSizeNoWaitingInternal ops rb h = Inr (m, rb', h')" "rb_inv rb"
  shows "rb_inv rb'" "m = rb_room rb'"
  using FreePassedBlocks_inv [OF LargestInternal_blocks [OF assms(1)] assms(2)]
    LargestInternal_eq [OF LargestInternal_blocks [OF assms(1)]] assms(1) by auto

lemma WaitForRoom_inv:
  assumes "RingBuffer_WaitForRoom ops sz rb h = Inr (rb', h')" "rb_inv rb"
  shows "rb_inv rb'"
  by (rule WaitForRoom_invariant [OF assms(1), where P = "\<lambda>r h. rb_inv r"])
    (use assms(2) FreeOldestBlock_inv in auto)

lemma WaitForRoom_room:
  assumes "RingBuffer_WaitForRoom ops sz rb h = Inr (rb', h')" "rb_inv rb"
  shows "sz \<le> rb_room rb'"
  using assms
proof (induction rule: WaitForRoom_induct)
  case (enough rb h n)
  then show ?case using LargestInternal_inv(2) [OF enough(1,3)] by simp
next
  case (wait rb h n rb1 h1 rb2 h2)
  from FreeOldestBlock_inv [OF wait(3) LargestInternal_inv(1) [OF wait(1,6)]]
  show ?case by (rule wait(5))
qed

text \<open>The rounding of an allocation size.\<close>

lemma RoundToAlignment_eq:
  assumes "is_pow2 (rb_alignment rb)" "sz \<le> 2 ^ 31" "0 < sz"
  shows "RingBuffer_RoundToAlignment rb sz =
           (sz + rb_alignment rb - 1) div rb_alignment rb * rb_alignment rb"
proof -
  from assms(1) obtain k where k: "k < 32" "rb_alignment rb = 2 ^ k"
    by (auto simp: is_pow2_def)
  then have "(2 :: nat) ^ k \<le> 2 ^ 31" by (intro power_increasing) auto
  then have le: "sz + 2 ^ k \<le> 2 ^ 32" "0 < sz + 2 ^ k"
    using assms(2,3) by auto
  then have "u32_sub (u32_add sz (2 ^ k)) 1 = sz + 2 ^ k - 1" and "sz + 2 ^ k - 1 < 2 ^ 32"
    by (rule u32_add_sub_one [rotated]) (use le in linarith)+
  then show ?thesis by (simp add: RingBuffer_RoundToAlignment_def k u32_clear_low_eq)
qed

lemma RoundToAlignment_bounds:
  assumes "rb_inv rb" "sz \<le> rb_size rb" "0 < sz"
  shows "rb_alignment rb dvd RingBuffer_RoundToAlignment rb sz"
    and "sz \<le> RingBuffer_RoundToAlignment rb sz"
    and "RingBuffer_RoundToAlignment rb sz < sz + rb_alignment rb"
    and "rb_alignment rb dvd m \<Longrightarrow> sz \<le> m \<Longrightarrow> RingBuffer_RoundToAlignment rb sz \<le> m"
proof -
  have al: "0 < rb_alignment rb" using assms(1) by (auto simp: rb_inv_def is_pow2_def)
  have eq: "RingBuffer_RoundToAlignment rb sz =
      (sz + rb_alignment rb - 1) div rb_alignment rb * rb_alignment rb"
    using assms by (intro RoundToAlignment_eq) (auto simp: rb_inv_def)
  show "rb_alignment rb dvd RingBuffer_RoundToAlignment rb sz"
    and "sz \<le> RingBuffer_RoundToAlignment rb sz"
    and "RingBuffer_RoundToAlignment rb sz < sz + rb_alignment rb"
    and "rb_alignment rb dvd m \<Longrightarrow> sz \<le> m \<Longrightarrow> RingBuffer_RoundToAlignment rb sz \<le> m"
    using div_mult_round_up [OF al] round_up_least [OF al] by (simp_all add: eq)
qed

text \<open>Placing a block where there is room.\<close>

lemma used_blocks_less:
  assumes "rb_core n al p bs q"
  shows "used_blocks bs \<le> n"
  using assms used_le_length [of bs] rb_chain_length by (fastforce simp: rb_core_def)

lemma rb_core_snoc:
  assumes "rb_core n al p bs q" "al dvd sz" "0 < sz" "q + sz \<le> n" "total_size bs + sz \<le> n"
  shows "rb_core n al p (bs @ [mk_block q sz RB_IN_USE]) (if q + sz = n then 0 else q + sz)"
  using assms by (auto simp: rb_core_def rb_chain_append blk_ok_def)

lemma rb_core_pad:
  assumes "rb_core n al p bs q" "total_size bs + (n - q) \<le> n"
  shows "rb_core n al p (bs @ [mk_block q (n - q) RB_PADDING]) 0"
  using assms by (auto simp: rb_core_def rb_chain_append blk_ok_def)

lemma rb_room_place:
  assumes "rb_inv rb" "0 < sz" "sz \<le> rb_room rb"
  shows "rb_free_offset rb + sz \<le> rb_size rb \<Longrightarrow> total_size (rb_blocks rb) + sz \<le> rb_size rb"
    and "rb_size rb < rb_free_offset rb + sz \<Longrightarrow>
      sz \<le> rb_in_use_offset rb \<and> rb_in_use_offset rb < rb_free_offset rb \<and>
      total_size (rb_blocks rb) = rb_free_offset rb - rb_in_use_offset rb"
proof -
  note d = rb_inv_dest [OF assms(1)]
  have e: "rb_free_offset rb =
     (if rb_in_use_offset rb + total_size (rb_blocks rb) < rb_size rb
      then rb_in_use_offset rb + total_size (rb_blocks rb)
      else rb_in_use_offset rb + total_size (rb_blocks rb) - rb_size rb)"
    using d(1) by (intro rb_chain_end) (auto simp: rb_core_def)
  have t: "total_size (rb_blocks rb) \<le> rb_size rb" using d(1) by (simp add: rb_core_def)
  show "total_size (rb_blocks rb) + sz \<le> rb_size rb" if "rb_free_offset rb + sz \<le> rb_size rb"
    using assms(2,3) e t d(2,3,6) that by (auto simp: rb_room_def split: if_splits)
  show "sz \<le> rb_in_use_offset rb \<and> rb_in_use_offset rb < rb_free_offset rb \<and>
      total_size (rb_blocks rb) = rb_free_offset rb - rb_in_use_offset rb"
    if "rb_size rb < rb_free_offset rb + sz"
    using assms(2,3) e t d(2,3,6) that by (auto simp: rb_room_def split: if_splits)
qed

lemma PlaceBlock_eq:
  assumes "rb_inv rb" "0 < sz" "sz \<le> rb_room rb"
  shows "RingBuffer_PlaceBlock sz rb =
    (let off = (if rb_size rb < rb_free_offset rb + sz then 0 else rb_free_offset rb)
     in (rb_base rb + int (rb_base_offset rb + off),
         rb\<lparr>rb_blocks := rb_blocks rb @
               (if rb_size rb < rb_free_offset rb + sz
                then [mk_block (rb_free_offset rb) (rb_size rb - rb_free_offset rb) RB_PADDING] else []) @
               [mk_block off sz RB_IN_USE],
             rb_num_used_blocks := rb_num_used_blocks rb + 1,
             rb_free_offset := (if off + sz = rb_size rb then 0 else off + sz)\<rparr>))"
proof -
  note d = rb_inv_dest [OF assms(1)]
  have "sz \<le> rb_size rb"
    using assms(3) d(2,3) by (auto simp: rb_room_def split: if_splits)
  moreover have "rb_num_used_blocks rb \<le> rb_size rb"
    using used_blocks_less [OF d(1)] d(7) by simp
  ultimately show ?thesis
    using d(2-5) rb_room_place(2) [OF assms]
    by (auto simp: RingBuffer_PlaceBlock_def RingBuffer_GetPointer_def Let_def u32_simps add.commute)
qed

lemma PlaceBlock_inv:
  assumes "rb_inv rb" "0 < sz" "rb_alignment rb dvd sz" "sz \<le> rb_room rb"
  shows "rb_inv (snd (RingBuffer_PlaceBlock sz rb))"
proof (cases "rb_size rb < rb_free_offset rb + sz")
  case True
  note d = rb_inv_dest [OF assms(1)]
  note r = rb_room_place(2) [OF assms(1,2,4) True]
  have "rb_core (rb_size rb) (rb_alignment rb) (rb_in_use_offset rb)
      (rb_blocks rb @ [mk_block (rb_free_offset rb) (rb_size rb - rb_free_offset rb) RB_PADDING]) 0"
    using d(1-3) r by (intro rb_core_pad) auto
  from rb_core_snoc [OF this assms(3,2)] r d(2,3) assms(1) True
  show ?thesis by (auto simp: PlaceBlock_eq [OF assms(1,2,4)] rb_inv_def Let_def)
next
  case False
  then have "total_size (rb_blocks rb) + sz \<le> rb_size rb"
    using rb_room_place(1) [OF assms(1,2,4)] by simp
  from rb_core_snoc [OF rb_inv_dest(1) [OF assms(1)] assms(3,2) _ this] False assms(1)
  show ?thesis by (simp add: PlaceBlock_eq [OF assms(1,2,4)] rb_inv_def Let_def)
qed

text \<open>The placed block is disjoint from every block of the ring.\<close>

lemma room_disjoint:
  assumes "rb_inv rb" "0 < sz" "sz \<le> rb_room rb" "b \<in> set (rb_blocks rb)"
    and "off = (if rb_size rb < rb_free_offset rb + sz then 0 else rb_free_offset rb)"
  shows "regions_disjoint (blk_offset b) (blk_size b) off sz" "off + sz \<le> rb_size rb"
proof -
  note d = rb_inv_dest [OF assms(1)]
  let ?n = "rb_size rb" and ?p = "rb_in_use_offset rb" and ?t = "total_size (rb_blocks rb)"
  have c: "rb_chain ?n ?p (rb_blocks rb) (rb_free_offset rb)" "?t \<le> ?n"
    using d(1) by (auto simp: rb_core_def)
  note e = rb_chain_end [OF c(1) d(2) c(2)] and bnd = rb_chain_bounds [OF c(1) d(2) c(2) assms(4)]
  note r = rb_room_place [OF assms(1-3)]
  show "regions_disjoint (blk_offset b) (blk_size b) off sz"
  proof (cases "?n < rb_free_offset rb + sz")
    case True
    with r(2) assms(5) bnd d(2,3) show ?thesis by (auto simp: regions_disjoint_def)
  next
    case False
    then have off: "off = rb_free_offset rb" and t: "?t + sz \<le> ?n" using r(1) assms(5) by auto
    show ?thesis
    proof (cases "?p + ?t < ?n")
      case True
      with e bnd off show ?thesis by (auto simp: regions_disjoint_def)
    next
      case False
      with e off have "off = ?p + ?t - ?n" by simp
      with bnd t False show ?thesis unfolding regions_disjoint_def by linarith
    qed
  qed
  show "off + sz \<le> ?n"
    using r(2) assms(5) d(2,3) by (auto split: if_splits)
qed

text \<open>Changing the state of one block.\<close>

lemma rb_chain_update:
  "blk_offset c = blk_offset (bs ! i) \<Longrightarrow> blk_size c = blk_size (bs ! i) \<Longrightarrow>
     rb_chain n p (bs[i := c]) q = rb_chain n p bs q"
  by (induction bs arbitrary: i p) (auto split: nat.splits)

lemma total_size_update:
  "blk_size c = blk_size (bs ! i) \<Longrightarrow> total_size (bs[i := c]) = total_size bs"
  by (induction bs arbitrary: i) (auto split: nat.splits)

lemma used_blocks_pos:
  "i < length bs \<Longrightarrow> blk_state (bs ! i) = RB_IN_USE \<Longrightarrow> 0 < used_blocks bs"
  by (auto simp: used_blocks_def filter_empty_conv intro!: bexI [of _ "bs ! i"])

lemma used_blocks_update:
  assumes "i < length bs" "blk_state c \<noteq> RB_IN_USE"
  shows "used_blocks (bs[i := c]) =
           used_blocks bs - (if blk_state (bs ! i) = RB_IN_USE then 1 else 0)"
proof -
  have "bs = take i bs @ (bs ! i) # drop (Suc i) bs"
    using assms(1) by (rule id_take_nth_drop)
  then have "used_blocks bs = used_blocks (take i bs) +
      (if blk_state (bs ! i) = RB_IN_USE then 1 else 0) + used_blocks (drop (Suc i) bs)"
    by (metis add.assoc used_blocks_simps(2,3))
  moreover have "used_blocks (bs[i := c]) = used_blocks (take i bs) + used_blocks (drop (Suc i) bs)"
    using assms by (simp add: upd_conv_take_nth_drop)
  ultimately show ?thesis by simp
qed

lemma rb_core_update:
  assumes "rb_core n al p bs q" "i < length bs" "blk_offset c = blk_offset (bs ! i)"
    "blk_size c = blk_size (bs ! i)" "blk_ok al c"
  shows "rb_core n al p (bs[i := c]) q"
  using assms
  by (auto simp: rb_core_def rb_chain_update total_size_update list_all_length nth_list_update)

lemma rfind_block_Some:
  "rfind_block off bs = Some i \<Longrightarrow> i < length bs \<and> blk_offset (bs ! i) = off"
  by (induction bs arbitrary: i) (auto split: option.splits if_splits)

lemma rfind_block_None: "rfind_block off bs = None \<longleftrightarrow> (\<forall>b \<in> set bs. blk_offset b \<noteq> off)"
  by (induction bs) (auto split: option.splits)

lemma rfind_block_unique:
  assumes "distinct (map blk_offset bs)" "i < length bs"
  shows "rfind_block (blk_offset (bs ! i)) bs = Some i"
proof -
  have "rfind_block (blk_offset (bs ! i)) bs \<noteq> None"
    using assms(2) by (auto simp: rfind_block_None)
  then obtain j where j: "rfind_block (blk_offset (bs ! i)) bs = Some j" by blast
  from rfind_block_Some [OF j] assms have "j = i"
    by (metis length_map nth_eq_iff_index_eq nth_map)
  with j show ?thesis by simp
qed

lemma FreePendingToken_inv:
  assumes "RingBuffer_FreePendingToken pointer token rb = Inr rb'" "rb_inv rb" "token < 2 ^ 31"
  shows "rb_inv rb'"
proof -
  from assms(1) obtain i where i: "i < length (rb_blocks rb)"
    and st: "blk_state (rb_blocks rb ! i) = RB_IN_USE"
    and rb': "rb' = rb\<lparr>rb_blocks := (rb_blocks rb)[i := (rb_blocks rb ! i)
        \<lparr>blk_token := token, blk_state := RB_FREE_PENDING_TOKEN\<rparr>],
        rb_num_used_blocks := u32_sub (rb_num_used_blocks rb) 1\<rparr>"
    by (auto simp: RingBuffer_FreePendingToken_def Let_def res_simps
        dest: rfind_block_Some split: option.splits)
  note d = rb_inv_dest [OF assms(2)]
  have "blk_ok (rb_alignment rb) (rb_blocks rb ! i)"
    using d(1) i by (auto simp: rb_core_def list_all_length)
  with assms(3) st have "rb_core (rb_size rb) (rb_alignment rb) (rb_in_use_offset rb)
      (rb_blocks rb') (rb_free_offset rb)"
    unfolding rb' by (simp, intro rb_core_update [OF d(1) i]) (auto simp: blk_ok_def)
  moreover have "u32_sub (rb_num_used_blocks rb) 1 = rb_num_used_blocks rb - 1"
    using used_blocks_pos [OF i st] used_blocks_less [OF d(1)] d(4,7)
    by (intro u32_sub_nowrap) (auto simp: rb')
  ultimately show ?thesis
    using assms(2) used_blocks_update [OF i] st i d(7) by (auto simp: rb' rb_inv_def)
qed

lemma rb_core_butlast:
  assumes "rb_core n al p bs q" "bs \<noteq> []"
  shows "rb_core n al p (butlast bs) (blk_offset (last bs))"
proof -
  from assms(2) obtain cs c where bs: "bs = cs @ [c]" by (metis append_butlast_last_id)
  from assms(1) show ?thesis
    unfolding bs by (auto simp: rb_core_def rb_chain_append blk_ok_def)
qed

lemma trim_back_core:
  "rb_core n al p bs q \<Longrightarrow> trim_back bs q = (bs', q') \<Longrightarrow>
     rb_core n al p bs' q' \<and> used_blocks bs' = used_blocks bs"
proof (induction bs q rule: trim_back.induct)
  case (1 bs q)
  show ?case
  proof (cases "bs \<noteq> [] \<and> blk_state (last bs) = RB_PADDING")
    case True
    then have "used_blocks (butlast bs @ [last bs]) = used_blocks (butlast bs)"
      by (simp del: append_butlast_last_id)
    with True have "used_blocks (butlast bs) = used_blocks bs" by simp
    with True 1 show ?thesis by (auto simp: trim_back.simps [of bs q] rb_core_butlast)
  next
    case False
    with 1 show ?thesis by (auto simp: trim_back.simps [of bs q])
  qed
qed

lemma trim_front_core:
  "rb_core n al p bs q \<Longrightarrow> trim_front bs p = (bs', p') \<Longrightarrow>
     used_blocks bs' = used_blocks bs \<and> (bs' \<noteq> [] \<longrightarrow> rb_core n al p' bs' q)"
proof (induction bs p rule: trim_front.induct)
  case (2 b bs p)
  show ?case
  proof (cases "blk_state b = RB_PADDING \<and> bs \<noteq> []")
    case True
    then obtain c cs where bs: "bs = c # cs" by (cases bs) auto
    from 2(2) bs have "rb_core n al (blk_offset c) bs q"
      by (auto simp: rb_core_def split: if_splits)
    from "2.IH" [OF _ bs this] True 2(3) bs show ?thesis by simp
  next
    case False
    with 2 show ?thesis by (auto split: list.splits if_splits)
  qed
qed simp

lemma DiscardBlock_inv:
  assumes "RingBuffer_DiscardBlock pointer rb = Inr rb'" "rb_inv rb"
  shows "rb_inv rb'"
proof -
  note d = rb_inv_dest [OF assms(2)]
  from assms(1) obtain i bs2 free2 bs3 in_use3
    where i: "i < length (rb_blocks rb)"
      and t2: "trim_back ((rb_blocks rb)[i := (rb_blocks rb ! i)\<lparr>blk_state := RB_PADDING\<rparr>])
                 (rb_free_offset rb) = (bs2, free2)"
      and t3: "trim_front bs2 (rb_in_use_offset rb) = (bs3, in_use3)"
      and rb': "rb' = rb\<lparr>rb_blocks := bs3, rb_num_used_blocks :=
          (if blk_state (rb_blocks rb ! i) = RB_IN_USE then u32_sub (rb_num_used_blocks rb) 1
           else rb_num_used_blocks rb),
          rb_in_use_offset := (if bs3 = [] then 0 else in_use3),
          rb_free_offset := (if bs3 = [] then 0 else free2)\<rparr>"
    by (auto simp: RingBuffer_DiscardBlock_def Let_def res_simps
        dest: rfind_block_Some split: option.splits prod.splits)
  let ?c = "(rb_blocks rb ! i)\<lparr>blk_state := RB_PADDING\<rparr>"
  have "blk_ok (rb_alignment rb) (rb_blocks rb ! i)"
    using d(1) i by (auto simp: rb_core_def list_all_length)
  then have "rb_core (rb_size rb) (rb_alignment rb) (rb_in_use_offset rb)
      ((rb_blocks rb)[i := ?c]) (rb_free_offset rb)"
    by (intro rb_core_update [OF d(1) i]) (auto simp: blk_ok_def)
  note c2 = trim_back_core [OF this t2]
  note c3 = trim_front_core [OF conjunct1 [OF c2] t3]
  have used: "rb_num_used_blocks rb' = used_blocks bs3"
    using c2 c3 used_blocks_update [OF i, of ?c] used_blocks_pos [OF i] used_blocks_less [OF d(1)] d(4,7)
    by (auto simp: rb' u32_simps)
  have "rb_core (rb_size rb) (rb_alignment rb) (rb_in_use_offset rb') bs3 (rb_free_offset rb')"
    using c3 d(2) by (cases "bs3 = []") (auto simp: rb' rb_core_reset)
  with used assms(2) show ?thesis by (auto simp: rb' rb_inv_def)
qed

lemma ShrinkLastBlock_inv:
  assumes "RingBuffer_ShrinkLastBlock new_size rb = Inr rb'" "rb_inv rb"
  shows "rb_inv rb'"
proof (cases "rb' = rb")
  case False
  note d = rb_inv_dest [OF assms(2)]
  from False assms(1) obtain bs c sz
    where bs: "rb_blocks rb = bs @ [c]" and lt: "new_size < blk_size c"
      and st: "blk_state c = RB_IN_USE"
      and sz: "sz = RingBuffer_RoundToAlignment rb (max new_size 1)" "sz \<noteq> blk_size c"
      and rb': "rb' = rb\<lparr>rb_free_offset := u32_add (blk_offset c) sz,
          rb_blocks := bs @ [c\<lparr>blk_size := sz\<rparr>]\<rparr>"
    by (auto simp: RingBuffer_ShrinkLastBlock_def Let_def res_simps split: if_splits)
      (metis append_butlast_last_id)
  from d(1) bs st have c: "blk_offset c + blk_size c \<le> rb_size rb" "rb_alignment rb dvd blk_size c"
    "rb_alignment rb dvd blk_offset c" "total_size bs + blk_size c \<le> rb_size rb"
    by (auto simp: rb_core_def rb_chain_append blk_ok_def)
  have r: "rb_alignment rb dvd sz" "0 < sz" "sz \<le> blk_size c"
    using RoundToAlignment_bounds [OF assms(2), of "max new_size 1"] c lt
    by (auto simp: sz(1) max_def Suc_le_eq split: if_splits)
  with c sz(2) d(4) have "u32_add (blk_offset c) sz = blk_offset c + sz" "blk_offset c + sz < rb_size rb"
    by (auto intro: u32_add_nowrap)
  then have "rb_core (rb_size rb) (rb_alignment rb) (rb_in_use_offset rb) (rb_blocks rb') (rb_free_offset rb')"
    using d(1) bs c r by (auto simp: rb' rb_core_def rb_chain_append blk_ok_def)
  then show ?thesis
    using assms(2) bs st by (auto simp: rb' rb_inv_def)
qed (use assms in simp)

section \<open>Allocation over a token source\<close>

definition reusable :: "(i32 \<Rightarrow> bool) \<Rightarrow> rb_block \<Rightarrow> bool" where
  "reusable passed b \<longleftrightarrow> blk_state b = RB_PADDING \<or>
     (blk_state b = RB_FREE_PENDING_TOKEN \<and> passed (i32_of_u32 (blk_token b)))"

definition same_frame :: "ring_buffer \<Rightarrow> ring_buffer \<Rightarrow> bool" where
  "same_frame rb rb' \<longleftrightarrow> rb_size rb' = rb_size rb \<and> rb_alignment rb' = rb_alignment rb \<and>
     rb_base_offset rb' = rb_base_offset rb \<and> rb_base rb' = rb_base rb"

lemma FreeOldestBlock_frame:
  "RingBuffer_FreeOldestBlock ops rb h = Inr (rb', h') \<Longrightarrow>
     same_frame rb rb' \<and> rb_num_used_blocks rb' = rb_num_used_blocks rb"
  by (auto simp: RingBuffer_FreeOldestBlock_def same_frame_def Let_def res_simps split: list.splits)

lemma GetOffset_GetPointer:
  assumes "rb_base_offset rb + off < 2 ^ 32"
  shows "u32_sub (RingBuffer_GetOffset rb (rb_base rb + int (rb_base_offset rb + off))) (rb_base_offset rb) = off"
proof -
  have "u32_of_int (int (rb_base_offset rb + off)) = rb_base_offset rb + off"
    using assms by (subst u32_of_int_small) auto
  then show ?thesis
    using assms by (simp add: RingBuffer_GetOffset_def u32_sub_nowrap)
qed

lemma Alloc_InrE:
  assumes "RingBuffer_Alloc ops sz rb h = Inr (p, rb', h')"
    and "n = RingBuffer_RoundToAlignment rb (max 1 sz)"
  obtains rb1 where "sz \<le> rb_size rb" "n \<le> rb_size rb"
    "RingBuffer_WaitForRoom ops n rb h = Inr (rb1, h')" "RingBuffer_PlaceBlock n rb1 = (p, rb')"
proof -
  have "(if sz = 0 then 1 else sz) = max 1 sz" by simp
  with assms(1) have "dcheck (sz \<le> rb_size rb) (dcheck (n \<le> rb_size rb)
      (res_bind (RingBuffer_WaitForRoom ops n rb h)
        (\<lambda>(rb1, h1). case RingBuffer_PlaceBlock n rb1 of (p, rb2) \<Rightarrow> Inr (p, rb2, h1)))) = Inr (p, rb', h')"
    by (simp only: RingBuffer_Alloc_def Let_def assms(2))
  then show thesis
    by (auto simp: res_simps case_prod_beta intro!: that prod_eqI)
qed

lemma PlaceBlock_facts:
  assumes "RingBuffer_PlaceBlock n rb = (p, rb')" "rb_inv rb" "0 < n" "n \<le> rb_room rb"
    and "off = (if rb_size rb < rb_free_offset rb + n then 0 else rb_free_offset rb)"
  shows "p = rb_base rb + int (rb_base_offset rb + off)"
    and "off + n \<le> rb_size rb" "rb_base_offset rb + off < 2 ^ 32" "rb_alignment rb dvd off"
    and "last (rb_blocks rb') = mk_block off n RB_IN_USE"
    and "set (rb_blocks rb) \<subseteq> set (butlast (rb_blocks rb'))"
proof -
  note pe = PlaceBlock_eq [OF assms(2-4), folded assms(5)]
  show "p = rb_base rb + int (rb_base_offset rb + off)"
    and "last (rb_blocks rb') = mk_block off n RB_IN_USE"
    and "set (rb_blocks rb) \<subseteq> set (butlast (rb_blocks rb'))"
    using pe assms(1) by (auto simp: Let_def butlast_append)
  show le: "off + n \<le> rb_size rb"
    using rb_room_place(2) [OF assms(2-4)] rb_inv_dest(2) [OF assms(2)] assms(5) by auto
  then show "rb_base_offset rb + off < 2 ^ 32"
    using rb_inv_dest(5) [OF assms(2)] by simp
  show "rb_alignment rb dvd off"
    using rb_inv_dest(1) [OF assms(2)] by (auto simp: assms(5) rb_core_def)
qed

context token_source
begin

text \<open>What the loops of the ring buffer do to the ring: they drop reusable blocks from the front.\<close>

definition dropped :: "ring_buffer \<Rightarrow> 'h \<Rightarrow> ring_buffer \<Rightarrow> 'h \<Rightarrow> bool" where
  "dropped rb h rb' h' \<longleftrightarrow> rb_inv rb' \<and> tok_inv h' \<and> same_frame rb rb' \<and>
     (\<forall>u. passed h u \<longrightarrow> passed h' u) \<and>
     (\<exists>bs. rb_blocks rb = bs @ rb_blocks rb' \<and> (\<forall>b \<in> set bs. reusable (passed h') b))"

lemma dropped_refl: "rb_inv rb \<Longrightarrow> tok_inv h \<Longrightarrow> dropped rb h rb h"
  by (simp add: dropped_def same_frame_def)

lemma reusable_mono: "reusable (passed h) b \<Longrightarrow> \<forall>u. passed h u \<longrightarrow> passed h' u \<Longrightarrow> reusable (passed h') b"
  by (auto simp: reusable_def)

lemma dropped_has:
  assumes "dropped rb h rb1 h1" "HasTokenPassed_op ops t h1 = (b, h2)"
  shows "dropped rb h rb1 h2"
  using assms has_token [of h1 t b h2] by (fastforce simp: dropped_def intro: reusable_mono)

lemma dropped_free:
  assumes "dropped rb h rb1 h1" "RingBuffer_FreeOldestBlock ops rb1 h1 = Inr (rb2, h2)"
  shows "dropped rb h rb2 h2"
proof -
  from assms(2) obtain c cs where c: "rb_blocks rb1 = c # cs" "rb_blocks rb2 = cs"
    using FreeOldestBlock_blocks by (cases "rb_blocks rb1") fastforce+
  have st: "blk_state c \<noteq> RB_IN_USE"
    and w: "if blk_state c = RB_FREE_PENDING_TOKEN
            then WaitForToken_op ops (i32_of_u32 (blk_token c)) h1 = Inr h2 else h1 = h2"
    using assms(2) c(1) by (auto simp: RingBuffer_FreeOldestBlock_def Let_def res_simps split: if_splits)
  have m: "tok_inv h2 \<and> (\<forall>u. passed h1 u \<longrightarrow> passed h2 u) \<and> reusable (passed h2) c"
  proof (cases "blk_state c = RB_FREE_PENDING_TOKEN")
    case True
    with w assms(1) wait_token [of h1 "i32_of_u32 (blk_token c)" h2] show ?thesis
      by (simp add: dropped_def reusable_def)
  next
    case False
    with st have "blk_state c = RB_PADDING" by (cases "blk_state c") auto
    with w assms(1) show ?thesis by (simp add: dropped_def reusable_def)
  qed
  obtain bs where bs: "rb_blocks rb = bs @ rb_blocks rb1" "\<forall>b \<in> set bs. reusable (passed h1) b"
    using assms(1) by (auto simp: dropped_def)
  have "\<forall>b \<in> set (bs @ [c]). reusable (passed h2) b"
    using bs(2) m reusable_mono by auto
  moreover have "rb_blocks rb = (bs @ [c]) @ rb_blocks rb2"
    using bs(1) c by simp
  moreover have "rb_inv rb2" "same_frame rb rb2"
    using FreeOldestBlock_inv [OF assms(2)] FreeOldestBlock_frame [OF assms(2)] assms(1)
    by (auto simp: dropped_def same_frame_def)
  ultimately show ?thesis
    using m assms(1) by (auto simp: dropped_def)
qed

lemma WaitForRoom_dropped:
  assumes "RingBuffer_WaitForRoom ops sz rb h = Inr (rb', h')" "rb_inv rb" "tok_inv h"
  shows "dropped rb h rb' h'"
  by (rule WaitForRoom_invariant [OF assms(1), where P = "dropped rb h"])
    (auto intro: dropped_refl assms dropped_has dropped_free)

theorem Alloc_safe:
  assumes "RingBuffer_Alloc ops sz rb h = Inr (p, rb', h')" "rb_inv rb" "tok_inv h"
    and "off = u32_sub (RingBuffer_GetOffset rb p) (rb_base_offset rb)"
    and "n = RingBuffer_RoundToAlignment rb (max 1 sz)"
  shows "rb_inv rb'" "tok_inv h'"
    and "rb_alignment rb dvd off" "sz \<le> n" "off + n \<le> rb_size rb"
    and "last (rb_blocks rb') = mk_block off n RB_IN_USE"
    and "b \<in> set (rb_blocks rb) \<Longrightarrow> \<not> reusable (passed h') b \<Longrightarrow>
           regions_disjoint (blk_offset b) (blk_size b) off n"
    and "b \<in> set (rb_blocks rb) \<Longrightarrow> \<not> reusable (passed h') b \<Longrightarrow> b \<in> set (butlast (rb_blocks rb'))"
proof -
  from Alloc_InrE [OF assms(1,5)] obtain rb1 where sz: "sz \<le> rb_size rb"
    and w: "RingBuffer_WaitForRoom ops n rb h = Inr (rb1, h')"
    and pl: "RingBuffer_PlaceBlock n rb1 = (p, rb')" by blast
  have dr: "dropped rb h rb1 h'" by (rule WaitForRoom_dropped [OF w assms(2,3)])
  then have inv1: "rb_inv rb1" and fr: "same_frame rb rb1" and "tok_inv h'" by (auto simp: dropped_def)
  from \<open>tok_inv h'\<close> show "tok_inv h'" .
  have "max 1 sz \<le> rb_size rb" using sz rb_inv_dest(3) [OF assms(2)] by simp
  then have n: "0 < n" "rb_alignment rb1 dvd n" and "sz \<le> n"
    using RoundToAlignment_bounds(1,2) [OF assms(2), of "max 1 sz", folded assms(5)] fr
    by (auto simp: same_frame_def less_max_iff_disj)
  from \<open>sz \<le> n\<close> show "sz \<le> n" .
  note room = WaitForRoom_room [OF w assms(2)]
  show "rb_inv rb'" using PlaceBlock_inv [OF inv1 n room] pl by simp
  note f = PlaceBlock_facts [OF pl inv1 n(1) room refl]
  have off: "off = (if rb_size rb1 < rb_free_offset rb1 + n then 0 else rb_free_offset rb1)"
    using f(1) GetOffset_GetPointer [OF f(3)] fr
    by (simp add: assms(4) same_frame_def RingBuffer_GetOffset_def)
  show "off + n \<le> rb_size rb" "last (rb_blocks rb') = mk_block off n RB_IN_USE"
    "rb_alignment rb dvd off"
    using f(2,4,5) fr by (simp_all only: off same_frame_def)
  have keep: "b \<in> set (rb_blocks rb1)"
    if "b \<in> set (rb_blocks rb)" "\<not> reusable (passed h') b"
    using dr that by (auto simp: dropped_def)
  show "regions_disjoint (blk_offset b) (blk_size b) off n" "b \<in> set (butlast (rb_blocks rb'))"
    if "b \<in> set (rb_blocks rb)" "\<not> reusable (passed h') b"
    using room_disjoint(1) [OF inv1 n(1) room keep [OF that] off] keep [OF that] f(6) by auto
qed

lemma RingBuffer_Alloc_frame:
  assumes "RingBuffer_Alloc ops sz rb h = Inr (p, rb', h')" "rb_inv rb" "tok_inv h"
  shows "same_frame rb rb'" "\<forall>u. passed h u \<longrightarrow> passed h' u"
proof -
  from Alloc_InrE [OF assms(1) refl] obtain rb1 n where w: "RingBuffer_WaitForRoom ops n rb h = Inr (rb1, h')"
    and pl: "RingBuffer_PlaceBlock n rb1 = (p, rb')" by metis
  have d: "dropped rb h rb1 h'" by (rule WaitForRoom_dropped [OF w assms(2,3)])
  then show "\<forall>u. passed h u \<longrightarrow> passed h' u" by (simp add: dropped_def)
  have "same_frame rb1 rb'" using pl by (auto simp: RingBuffer_PlaceBlock_def Let_def same_frame_def split: if_splits)
  with d show "same_frame rb rb'" by (auto simp: dropped_def same_frame_def)
qed

lemma RingBuffer_Alloc_pointer:
  assumes "RingBuffer_Alloc ops sz rb h = Inr (p, rb', h')" "rb_inv rb" "tok_inv h"
    and "off = u32_sub (RingBuffer_GetOffset rb p) (rb_base_offset rb)"
  shows "p = rb_base rb + int (rb_base_offset rb + off)"
proof -
  define n where "n = RingBuffer_RoundToAlignment rb (max 1 sz)"
  from Alloc_InrE [OF assms(1) n_def] obtain rb1 where w: "RingBuffer_WaitForRoom ops n rb h = Inr (rb1, h')"
    and pl: "RingBuffer_PlaceBlock n rb1 = (p, rb')" "sz \<le> rb_size rb" by blast
  have d: "dropped rb h rb1 h'" by (rule WaitForRoom_dropped [OF w assms(2,3)])
  have "0 < n" using RoundToAlignment_bounds(2) [OF assms(2), of "max 1 sz"] rb_inv_dest(3) [OF assms(2)] pl(2)
    by (simp add: n_def less_max_iff_disj)
  note pf = PlaceBlock_facts(1,3) [OF pl(1) _ this WaitForRoom_room [OF w assms(2)] refl]
  show ?thesis
    using pf d GetOffset_GetPointer [of rb1]
    by (fastforce simp: assms(4) dropped_def same_frame_def RingBuffer_GetOffset_def)
qed

lemma RingBuffer_Alloc_nonempty: "RingBuffer_Alloc ops sz rb h = Inr (p, rb', h') \<Longrightarrow> rb_blocks rb' \<noteq> []"
  by (auto elim!: Alloc_InrE [OF _ refl] simp: RingBuffer_PlaceBlock_def Let_def)

end

text \<open>With a live token source an allocation returns whenever no block is in use.\<close>

lemma reusable_all_free:
  assumes "rb_inv rb" "rb_num_used_blocks rb = 0" "b \<in> set (rb_blocks rb)"
  shows "blk_state b \<noteq> RB_IN_USE"
  using assms by (auto simp: rb_inv_def used_blocks_def filter_empty_conv)

context live_token_source
begin

lemma FreeOldestBlock_returns:
  assumes "rb_inv rb" "tok_inv h" "rb_num_used_blocks rb = 0" "rb_blocks rb \<noteq> []"
  shows "\<exists>s. RingBuffer_FreeOldestBlock ops rb h = Inr s"
proof -
  from assms(4) obtain c cs where c: "rb_blocks rb = c # cs" by (cases "rb_blocks rb") auto
  have st: "blk_state c \<noteq> RB_IN_USE" using reusable_all_free [OF assms(1,3)] c by simp
  have "blk_ok (rb_alignment rb) c" using assms(1) c by (simp add: rb_inv_def rb_core_def)
  then have "\<exists>h'. WaitForToken_op ops (i32_of_u32 (blk_token c)) h = Inr h'"
    if "blk_state c = RB_FREE_PENDING_TOKEN"
    using that by (intro wait_returns [OF assms(2)]) (simp add: blk_ok_def u32_simps)
  then show ?thesis
    using st c by (auto simp: RingBuffer_FreeOldestBlock_def Let_def)
qed

definition idle :: "ring_buffer \<Rightarrow> 'h \<Rightarrow> bool" where
  "idle rb h \<longleftrightarrow> rb_inv rb \<and> tok_inv h \<and> rb_num_used_blocks rb = 0"

lemma idle_has: "idle rb h \<Longrightarrow> HasTokenPassed_op ops t h = (b, h1) \<Longrightarrow> idle rb h1"
  using has_token by (fastforce simp: idle_def)

lemma idle_free:
  assumes "idle rb h" "RingBuffer_FreeOldestBlock ops rb h = Inr (rb1, h1)"
  shows "idle rb1 h1"
  using dropped_free [OF dropped_refl assms(2)] FreeOldestBlock_frame [OF assms(2)] assms(1)
  by (auto simp: idle_def dropped_def)

lemma FreePassedBlocks_returns:
  "idle rb h \<Longrightarrow> \<exists>s. RingBuffer_FreePassedBlocks ops rb h = Inr s"
proof (induction "length (rb_blocks rb)" arbitrary: rb h rule: less_induct)
  case less
  note unfold = RingBuffer_FreePassedBlocks.simps [of ops rb h]
  show ?case
  proof (cases "rb_blocks rb")
    case Nil
    then show ?thesis by (simp add: unfold)
  next
    case (Cons c cs)
    obtain p h1 where p: "HasTokenPassed_op ops (i32_of_u32 (blk_token c)) h = (p, h1)"
      by fastforce
    have i1: "idle rb h1" by (rule idle_has [OF less.prems p])
    then obtain rb2 h2 where f: "RingBuffer_FreeOldestBlock ops rb h1 = Inr (rb2, h2)"
      using FreeOldestBlock_returns [of rb h1] Cons by (fastforce simp: idle_def)
    have "length (rb_blocks rb2) < length (rb_blocks rb)"
      using FreeOldestBlock_blocks [OF f] Cons by simp
    then have "\<exists>s. RingBuffer_FreePassedBlocks ops rb2 h2 = Inr s"
      by (rule less.hyps) (rule idle_free [OF i1 f])
    then show ?thesis using Cons p f by (auto simp: unfold)
  qed
qed

lemma FreePassedBlocks_idle:
  assumes "RingBuffer_FreePassedBlocks ops rb h = Inr (rb', h')" "idle rb h"
  shows "idle rb' h'"
  by (rule FreePassedBlocks_invariant [where P = idle, OF assms]) (erule (1) idle_has, erule (1) idle_free)

lemma WaitForRoom_returns:
  "idle rb h \<Longrightarrow> n \<le> rb_size rb \<Longrightarrow> \<exists>s. RingBuffer_WaitForRoom ops n rb h = Inr s"
proof (induction "length (rb_blocks rb)" arbitrary: rb h rule: less_induct)
  case less
  note unfold = RingBuffer_WaitForRoom.simps [of ops n rb h]
  obtain rb1 h1 where f: "RingBuffer_FreePassedBlocks ops rb h = Inr (rb1, h1)"
    using FreePassedBlocks_returns [OF less.prems(1)] by (auto simp: prod_eq_iff)
  have i1: "idle rb1 h1" by (rule FreePassedBlocks_idle [OF f less.prems(1)])
  then have l: "RingBuffer_GetLargestFreeSizeNoWaitingInternal ops rb h = Inr (rb_room rb1, rb1, h1)"
    by (intro LargestInternal_eq [OF f]) (simp add: idle_def)
  have sz: "rb_size rb1 = rb_size rb"
    by (rule FreePassedBlocks_invariant [where P = "\<lambda>r h. rb_size r = rb_size rb", OF f])
      (auto dest: FreeOldestBlock_frame simp: same_frame_def)
  show ?case
  proof (cases "rb_room rb1 < n")
    case True
    have "rb_blocks rb1 \<noteq> []"
    proof
      assume "rb_blocks rb1 = []"
      with i1 have "rb_room rb1 = rb_size rb1" by (simp add: rb_room_def idle_def rb_inv_def)
      with True less.prems(2) sz show False by simp
    qed
    with i1 obtain rb2 h2 where o: "RingBuffer_FreeOldestBlock ops rb1 h1 = Inr (rb2, h2)"
      using FreeOldestBlock_returns [of rb1 h1] by (fastforce simp: idle_def)
    have "length (rb_blocks rb2) < length (rb_blocks rb)"
      using FreeOldestBlock_blocks [OF o] FreePassedBlocks_length [OF f]
      by (cases "rb_blocks rb1") auto
    then have "\<exists>s. RingBuffer_WaitForRoom ops n rb2 h2 = Inr s"
      by (rule less.hyps)
        (use idle_free [OF i1 o] FreeOldestBlock_frame [OF o] less.prems(2) sz in
         \<open>simp_all add: same_frame_def\<close>)
    then show ?thesis using l o True by (auto simp: unfold)
  next
    case False
    then show ?thesis using l by (simp add: unfold)
  qed
qed

theorem Alloc_returns:
  assumes "rb_inv rb" "tok_inv h" "rb_num_used_blocks rb = 0"
    and "sz \<le> RingBuffer_GetLargestFreeOrPendingSize rb" "rb_alignment rb \<le> rb_size rb"
  shows "\<exists>p rb' h'. RingBuffer_Alloc ops sz rb h = Inr (p, rb', h')"
proof -
  let ?al = "rb_alignment rb" and ?n = "rb_size rb"
  have al: "0 < ?al" using assms(1) by (auto simp: rb_inv_def is_pow2_def)
  have "?n < 2 ^ 32" using rb_inv_dest(4) [OF assms(1)] by simp
  then have m: "RingBuffer_GetLargestFreeOrPendingSize rb = ?n - ?n mod ?al"
    by (simp add: RingBuffer_GetLargestFreeOrPendingSize_def u32_sub_nowrap)
  have "?al dvd ?n - ?n mod ?al" and "?al \<le> ?n - ?n mod ?al"
    using al assms(5) by (auto simp: minus_mod_eq_mult_div Suc_le_eq div_greater_zero_iff)
  then have "max 1 sz \<le> ?n - ?n mod ?al" using assms(4) m al by simp
  then have "RingBuffer_RoundToAlignment rb (max 1 sz) \<le> ?n - ?n mod ?al"
    by (intro RoundToAlignment_bounds(4) [OF assms(1)])
      (use \<open>?al dvd ?n - ?n mod ?al\<close> in \<open>auto simp: less_max_iff_disj\<close>)
  then have "RingBuffer_RoundToAlignment rb (max 1 sz) \<le> ?n" by simp
  moreover from this have "\<exists>s. RingBuffer_WaitForRoom ops (RingBuffer_RoundToAlignment rb (max 1 sz)) rb h = Inr s"
    using assms(1-3) by (intro WaitForRoom_returns) (simp_all add: idle_def)
  moreover have "sz \<le> ?n" using assms(4) m by simp
  moreover have "(if sz = 0 then 1 else sz) = max 1 sz" by simp
  ultimately show ?thesis
    by (auto simp: RingBuffer_Alloc_def Let_def split: prod.splits)
qed

end

section \<open>Sizes, and the histories of a ring\<close>

lemma new_RingBuffer_inv:
  assumes "base_offset < buffer_size" "buffer_size - base_offset \<le> 2 ^ 31" "buffer_size < 2 ^ 32"
    "is_pow2 alignment"
  shows "rb_inv (new_RingBuffer buffer_size buffer_memory alignment base_offset)"
  using assms by (auto simp: new_RingBuffer_def rb_inv_def rb_core_def u32_simps)

lemma GetTotalFreeSize_eq:
  assumes "RingBuffer_GetTotalFreeSizeNoWaiting ops rb h = Inr (n, rb', h')" "rb_inv rb"
  shows "rb_inv rb'" "n + total_size (rb_blocks rb') = rb_size rb'"
proof -
  from assms(1) obtain m where l: "RingBuffer_GetLargestFreeSizeNoWaitingInternal ops rb h = Inr (m, rb', h')"
    and n: "n = (if rb_free_offset rb' > rb_in_use_offset rb'
      then u32_add (u32_sub (rb_size rb') (rb_free_offset rb')) (rb_in_use_offset rb') else m)"
    by (auto simp: RingBuffer_GetTotalFreeSizeNoWaiting_def res_simps split: if_splits)
  show inv: "rb_inv rb'" by (rule LargestInternal_inv(1) [OF l assms(2)])
  note d = rb_inv_dest [OF inv]
  have c: "rb_chain (rb_size rb') (rb_in_use_offset rb') (rb_blocks rb') (rb_free_offset rb')"
    "total_size (rb_blocks rb') \<le> rb_size rb'"
    using d(1) by (auto simp: rb_core_def)
  have "n = (if rb_free_offset rb' > rb_in_use_offset rb'
      then rb_size rb' - rb_free_offset rb' + rb_in_use_offset rb' else rb_room rb')"
    using n LargestInternal_inv(2) [OF l assms(2)] d(2-4) by (auto simp: u32_simps)
  then show "n + total_size (rb_blocks rb') = rb_size rb'"
    using rb_chain_end [OF c(1) d(2) c(2)] rb_chain_empty_iff [OF c(1)] c(2) d(2,3)
    by (auto simp: rb_room_def split: if_splits)
qed

lemma rb_room_aligned:
  assumes "rb_inv rb" "rb_alignment rb dvd rb_size rb"
  shows "rb_alignment rb dvd rb_room rb"
proof -
  have "rb_alignment rb dvd rb_in_use_offset rb"
    using assms(1) by (cases "rb_blocks rb") (auto simp: rb_inv_def rb_core_def blk_ok_def)
  moreover have "rb_alignment rb dvd rb_free_offset rb"
    using assms(1) by (auto simp: rb_inv_def rb_core_def)
  ultimately show ?thesis
    using assms(2) by (auto simp: rb_room_def max_def dvd_diff_nat)
qed

lemma RoundToAlignment_aligned:
  assumes "rb_inv rb" "rb_alignment rb dvd n" "n \<le> rb_size rb"
  shows "RingBuffer_RoundToAlignment rb n = n"
proof (cases "n = 0")
  case True
  obtain k where k: "k < 32" "rb_alignment rb = 2 ^ k"
    using assms(1) by (auto simp: rb_inv_def is_pow2_def)
  then have "(2 :: nat) ^ k < 2 ^ 32" by (intro power_strict_increasing) auto
  then have "u32_sub (u32_add 0 (2 ^ k)) 1 = 2 ^ k - 1" and "(2 :: nat) ^ k - 1 < 2 ^ 32"
    by (auto intro: u32_add_sub_one [of 0, simplified])
  then show ?thesis
    using True by (simp add: RingBuffer_RoundToAlignment_def k u32_clear_low_eq)
next
  case False
  then show ?thesis
    using RoundToAlignment_bounds(2) [OF assms(1,3)] RoundToAlignment_bounds(4) [OF assms(1,3) _ assms(2)]
    by simp
qed

lemma GetLargestFreeSize_returns:
  assumes "RingBuffer_FreePassedBlocks ops rb h = Inr (rb', h')" "rb_inv rb"
    and "rb_alignment rb' dvd rb_size rb'"
  shows "RingBuffer_GetLargestFreeSizeNoWaiting ops rb h = Inr (rb_room rb', rb', h')"
proof -
  have inv: "rb_inv rb'" by (rule FreePassedBlocks_inv [OF assms(1,2)])
  have "rb_room rb' \<le> rb_size rb'"
    using rb_inv_dest(2,3) [OF inv] by (auto simp: rb_room_def)
  then show ?thesis
    using LargestInternal_eq [OF assms(1) inv] RoundToAlignment_aligned [OF inv]
      rb_room_aligned [OF inv assms(3)]
    by (simp add: RingBuffer_GetLargestFreeSizeNoWaiting_def)
qed

lemma FreePendingToken_live:
  assumes "rb_inv rb" "i < length (rb_blocks rb)" "blk_state (rb_blocks rb ! i) = RB_IN_USE"
    and "p = RingBuffer_GetPointer rb (u32_add (blk_offset (rb_blocks rb ! i)) (rb_base_offset rb))"
  shows "RingBuffer_FreePendingToken p token rb =
    Inr (rb\<lparr>rb_blocks := (rb_blocks rb)[i := (rb_blocks rb ! i)
              \<lparr>blk_token := token, blk_state := RB_FREE_PENDING_TOKEN\<rparr>],
            rb_num_used_blocks := rb_num_used_blocks rb - 1\<rparr>)"
proof -
  note d = rb_inv_dest [OF assms(1)]
  let ?b = "rb_blocks rb ! i"
  have c: "rb_chain (rb_size rb) (rb_in_use_offset rb) (rb_blocks rb) (rb_free_offset rb)"
    "total_size (rb_blocks rb) \<le> rb_size rb"
    using d(1) by (auto simp: rb_core_def)
  have "blk_offset ?b < rb_size rb"
    using rb_chain_bounds [OF c(1) d(2) c(2) nth_mem [OF assms(2)]]
      rb_chain_pos [OF c(1) nth_mem [OF assms(2)]] c(2) d(2) by auto
  then have lt: "rb_base_offset rb + blk_offset ?b < 2 ^ 32" using d(5) by simp
  then have "p = rb_base rb + int (rb_base_offset rb + blk_offset ?b)"
    by (simp add: assms(4) RingBuffer_GetPointer_def u32_add_nowrap add.commute)
  then have "u32_sub (RingBuffer_GetOffset rb p) (rb_base_offset rb) = blk_offset ?b"
    using GetOffset_GetPointer [OF lt] by simp
  moreover have "rfind_block (blk_offset ?b) (rb_blocks rb) = Some i"
    by (rule rfind_block_unique [OF rb_chain_distinct [OF c(1) d(2) c(2)] assms(2)])
  moreover have "u32_sub (rb_num_used_blocks rb) 1 = rb_num_used_blocks rb - 1"
    using used_blocks_pos [OF assms(2,3)] used_blocks_less [OF d(1)] d(4,7)
    by (intro u32_sub_nowrap) auto
  moreover have "rb_blocks rb \<noteq> []" using assms(2) by auto
  ultimately show ?thesis
    using assms(3) by (simp add: RingBuffer_FreePendingToken_def Let_def)
qed

text \<open>No two blocks of a ring overlap.\<close>

definition blocks_disjoint :: "rb_block list \<Rightarrow> bool" where
  "blocks_disjoint bs \<longleftrightarrow>
     sorted_wrt (\<lambda>b c. regions_disjoint (blk_offset b) (blk_size b) (blk_offset c) (blk_size c)) bs"

lemma rb_chain_disjoint:
  assumes "rb_chain n p bs q" "p < n" "total_size bs \<le> n"
  shows "blocks_disjoint bs"
  using assms
proof (induction bs arbitrary: p)
  case Nil
  then show ?case by (simp add: blocks_disjoint_def)
next
  case (Cons c bs)
  let ?p = "if p + blk_size c = n then 0 else p + blk_size c"
  from Cons.prems have c: "rb_chain n ?p bs q" "?p < n" "total_size bs < n"
    by auto
  have "regions_disjoint (blk_offset c) (blk_size c) (blk_offset b) (blk_size b)"
    if b: "b \<in> set bs" for b
    using rb_chain_bounds [OF c(1,2) _ b] c(3) rb_chain_pos [OF c(1) b] Cons.prems
    by (auto simp: regions_disjoint_def split: if_splits)
  then show ?case using Cons.IH [OF c(1,2)] c(3) by (simp add: blocks_disjoint_def)
qed

text \<open>
  The histories of a ring buffer: any sequence of its operations from the constructor. The
  helper's state may change arbitrarily between two operations.
\<close>

inductive rb_history :: "'h token_ops \<Rightarrow> ring_buffer \<Rightarrow> bool" for ops where
  create: "\<lbrakk>base_offset < buffer_size; buffer_size - base_offset \<le> 2 ^ 31; buffer_size < 2 ^ 32;
            is_pow2 alignment\<rbrakk> \<Longrightarrow>
     rb_history ops (new_RingBuffer buffer_size buffer_memory alignment base_offset)"
| alloc: "rb_history ops rb \<Longrightarrow> RingBuffer_Alloc ops sz rb h = Inr (p, rb', h') \<Longrightarrow> rb_history ops rb'"
| free: "rb_history ops rb \<Longrightarrow> token < 2 ^ 31 \<Longrightarrow>
     RingBuffer_FreePendingToken p token rb = Inr rb' \<Longrightarrow> rb_history ops rb'"
| discard: "rb_history ops rb \<Longrightarrow> RingBuffer_DiscardBlock p rb = Inr rb' \<Longrightarrow> rb_history ops rb'"
| shrink: "rb_history ops rb \<Longrightarrow> RingBuffer_ShrinkLastBlock sz rb = Inr rb' \<Longrightarrow> rb_history ops rb'"
| query: "rb_history ops rb \<Longrightarrow>
     RingBuffer_GetLargestFreeSizeNoWaiting ops rb h = Inr (n, rb', h') \<Longrightarrow> rb_history ops rb'"
| query_total: "rb_history ops rb \<Longrightarrow>
     RingBuffer_GetTotalFreeSizeNoWaiting ops rb h = Inr (n, rb', h') \<Longrightarrow> rb_history ops rb'"

lemma Alloc_inv:
  assumes "RingBuffer_Alloc ops sz rb h = Inr (p, rb', h')" "rb_inv rb"
  shows "rb_inv rb'"
proof -
  let ?n = "RingBuffer_RoundToAlignment rb (max 1 sz)"
  from Alloc_InrE [OF assms(1) refl] obtain rb1 where sz: "sz \<le> rb_size rb"
    and w: "RingBuffer_WaitForRoom ops ?n rb h = Inr (rb1, h')"
    and pl: "RingBuffer_PlaceBlock ?n rb1 = (p, rb')" by blast
  have "max 1 sz \<le> rb_size rb" using sz rb_inv_dest(3) [OF assms(2)] by simp
  moreover have "rb_alignment rb1 = rb_alignment rb"
    by (rule WaitForRoom_invariant [OF w, where P = "\<lambda>r h. rb_alignment r = rb_alignment rb"])
      (auto dest: FreeOldestBlock_frame simp: same_frame_def)
  ultimately have "0 < ?n" "rb_alignment rb1 dvd ?n"
    using RoundToAlignment_bounds(1,2) [OF assms(2), of "max 1 sz"] by (auto simp: less_max_iff_disj)
  then show ?thesis
    using PlaceBlock_inv [OF WaitForRoom_inv [OF w assms(2)] _ _ WaitForRoom_room [OF w assms(2)]] pl
    by simp
qed

lemma GetLargest_inv:
  "RingBuffer_GetLargestFreeSizeNoWaiting ops rb h = Inr (n, rb', h') \<Longrightarrow> rb_inv rb \<Longrightarrow> rb_inv rb'"
  by (auto simp: RingBuffer_GetLargestFreeSizeNoWaiting_def res_simps dest: LargestInternal_inv(1))

lemma rb_history_inv: "rb_history ops rb \<Longrightarrow> rb_inv rb"
  by (induction rule: rb_history.induct)
    (auto intro: new_RingBuffer_inv Alloc_inv FreePendingToken_inv DiscardBlock_inv
      ShrinkLastBlock_inv GetLargest_inv GetTotalFreeSize_eq(1))

end
