(* ===== verification/Fenced_Allocator.thy ===== *)
theory Fenced_Allocator
  imports Token_Interface
begin

text \<open>
  \<^verbatim>\<open>gpu/command_buffer/client/fenced_allocator.{h,cc}\<close>: first-fit allocation in a fixed range of
  offsets, with blocks that are freed pending a token.
\<close>

section \<open>Data\<close>

datatype fa_state = FA_IN_USE | FA_FREE | FA_FREE_PENDING_TOKEN

record fa_block =
  fa_state :: fa_state
  fa_offset :: u32
  fa_size :: u32
  fa_token :: i32

record fenced_allocator =
  fa_blocks :: "fa_block list"
  fa_bytes_in_use :: u32

definition kInvalidOffset :: u32 where
  "kInvalidOffset = 0xffffffff"

definition kAllocAlignment :: u32 where
  "kAllocAlignment = 16"

definition kUnusedToken :: i32 where
  "kUnusedToken = 0"

definition RoundDown :: "u32 \<Rightarrow> u32" where
  "RoundDown sz = u32_clear_low sz kAllocAlignment"

definition RoundUp :: "u32 \<Rightarrow> u32 option" where
  "RoundUp sz = (if sz + (kAllocAlignment - 1) < 2 ^ 32
                 then Some (u32_clear_low (sz + (kAllocAlignment - 1)) kAllocAlignment) else None)"

definition new_FencedAllocator :: "u32 \<Rightarrow> fenced_allocator" where
  "new_FencedAllocator sz =
     \<lparr>fa_blocks = [\<lparr>fa_state = FA_FREE, fa_offset = 0, fa_size = RoundDown sz,
                     fa_token = kUnusedToken\<rparr>],
      fa_bytes_in_use = 0\<rparr>"

section \<open>Operations\<close>

text \<open>\<^verbatim>\<open>erase\<close> and \<^verbatim>\<open>insert\<close> of a \<^verbatim>\<open>std::vector\<close> at an index.\<close>

definition erase_at :: "nat \<Rightarrow> 'a list \<Rightarrow> 'a list" where
  "erase_at i xs = take i xs @ drop (Suc i) xs"

definition insert_at :: "nat \<Rightarrow> 'a \<Rightarrow> 'a list \<Rightarrow> 'a list" where
  "insert_at i x xs = take i xs @ x # drop i xs"

definition FencedAllocator_CollapseFreeBlock :: "nat \<Rightarrow> fenced_allocator \<Rightarrow> nat \<times> fenced_allocator" where
  "FencedAllocator_CollapseFreeBlock index a =
     (let bs = fa_blocks a;
          bs1 = (if index + 1 < length bs \<and> fa_state (bs ! (index + 1)) = FA_FREE
                 then erase_at (index + 1)
                        (bs[index := (bs ! index)\<lparr>fa_size :=
                           u32_add (fa_size (bs ! index)) (fa_size (bs ! (index + 1)))\<rparr>])
                 else bs)
      in if index > 0 \<and> fa_state (bs1 ! (index - 1)) = FA_FREE
         then (index - 1, a\<lparr>fa_blocks := erase_at index
                 (bs1[index - 1 := (bs1 ! (index - 1))\<lparr>fa_size :=
                    u32_add (fa_size (bs1 ! (index - 1))) (fa_size (bs1 ! index))\<rparr>])\<rparr>)
         else (index, a\<lparr>fa_blocks := bs1\<rparr>))"

definition set_free :: "nat \<Rightarrow> fenced_allocator \<Rightarrow> fenced_allocator" where
  "set_free index a =
     a\<lparr>fa_blocks := (fa_blocks a)[index := (fa_blocks a ! index)\<lparr>fa_state := FA_FREE\<rparr>]\<rparr>"

definition FencedAllocator_WaitForTokenAndFreeBlock ::
  "'h token_ops \<Rightarrow> nat \<Rightarrow> fenced_allocator \<Rightarrow> 'h \<Rightarrow> (nat \<times> fenced_allocator \<times> 'h) res" where
  "FencedAllocator_WaitForTokenAndFreeBlock ops index a h =
     dcheck (fa_state (fa_blocks a ! index) = FA_FREE_PENDING_TOKEN)
       (res_bind (WaitForToken_op ops (fa_token (fa_blocks a ! index)) h)
         (\<lambda>h1. case FencedAllocator_CollapseFreeBlock index (set_free index a) of
            (j, a1) \<Rightarrow> Inr (j, a1, h1)))"

definition FencedAllocator_AllocInBlock ::
  "nat \<Rightarrow> u32 \<Rightarrow> fenced_allocator \<Rightarrow> (u32 \<times> fenced_allocator) res" where
  "FencedAllocator_AllocInBlock index sz a =
     (let block = fa_blocks a ! index
      in dcheck (fa_size block \<ge> sz)
           (dcheck (fa_state block = FA_FREE)
             (let offset = fa_offset block;
                  used = u32_add (fa_bytes_in_use a) sz
              in if fa_size block = sz
                 then Inr (offset, a\<lparr>fa_blocks := (fa_blocks a)[index := block\<lparr>fa_state := FA_IN_USE\<rparr>],
                                     fa_bytes_in_use := used\<rparr>)
                 else (let newblock = \<lparr>fa_state = FA_FREE, fa_offset = u32_add offset sz,
                                        fa_size = u32_sub (fa_size block) sz, fa_token = kUnusedToken\<rparr>
                       in Inr (offset, a\<lparr>fa_blocks := insert_at (index + 1) newblock
                                  ((fa_blocks a)[index := block\<lparr>fa_state := FA_IN_USE, fa_size := sz\<rparr>]),
                                  fa_bytes_in_use := used\<rparr>)))))"

text \<open>The first loop of \<^verbatim>\<open>Alloc\<close>: the first free block that is big enough.\<close>

fun find_free_block :: "u32 \<Rightarrow> fa_block list \<Rightarrow> nat option" where
  "find_free_block sz [] = None"
| "find_free_block sz (b # bs) =
     (if fa_state b = FA_FREE \<and> fa_size b \<ge> sz then Some 0
      else map_option Suc (find_free_block sz bs))"

definition pending_count :: "fa_block list \<Rightarrow> nat" where
  "pending_count bs = length (filter (\<lambda>b. fa_state b = FA_FREE_PENDING_TOKEN) bs)"

lemma pending_count_simps [simp]:
  "pending_count [] = 0"
  "pending_count (b # bs) = (if fa_state b = FA_FREE_PENDING_TOKEN then 1 else 0) + pending_count bs"
  "pending_count (xs @ ys) = pending_count xs + pending_count ys"
  by (simp_all add: pending_count_def)

text \<open>
  Freeing the block between \<open>xs\<close> and \<open>ys\<close> and collapsing it with its neighbours, as a
  function on the three parts of the block list.
\<close>

definition free_after :: "fa_block list \<Rightarrow> nat" where
  "free_after ys = (case ys of [] \<Rightarrow> 0 | c # _ \<Rightarrow> if fa_state c = FA_FREE then fa_size c else 0)"

definition drop_free :: "fa_block list \<Rightarrow> fa_block list" where
  "drop_free ys = (case ys of [] \<Rightarrow> [] | c # cs \<Rightarrow> if fa_state c = FA_FREE then cs else ys)"

definition collapsed :: "fa_block list \<Rightarrow> fa_block \<Rightarrow> fa_block list \<Rightarrow> fa_block list \<times> fa_block" where
  "collapsed xs b ys =
     (let sz = (if ys \<noteq> [] \<and> fa_state (hd ys) = FA_FREE then u32_add (fa_size b) (fa_size (hd ys))
                else fa_size b)
      in if xs \<noteq> [] \<and> fa_state (last xs) = FA_FREE
         then (butlast xs, (last xs)\<lparr>fa_size := u32_add (fa_size (last xs)) sz\<rparr>)
         else (xs, b\<lparr>fa_size := sz\<rparr>))"

lemma collapse_eq:
  assumes "fa_blocks a = xs @ b # ys"
  shows "FencedAllocator_CollapseFreeBlock (length xs) a =
    (case collapsed xs b ys of (xs', c) \<Rightarrow>
       (length xs', a\<lparr>fa_blocks := xs' @ c # drop_free ys\<rparr>))"
  by (cases ys; cases xs rule: rev_cases)
    (simp_all add: assms FencedAllocator_CollapseFreeBlock_def collapsed_def drop_free_def Let_def
      erase_at_def nth_append list_update_append)

lemma split_at:
  assumes "i < length bs"
  shows "bs = take i bs @ bs ! i # drop (Suc i) bs" "length (take i bs) = i"
  using assms by (auto simp: id_take_nth_drop)

lemma set_free_split:
  "fa_blocks a = xs @ b # ys \<Longrightarrow>
     set_free (length xs) a = a\<lparr>fa_blocks := xs @ b\<lparr>fa_state := FA_FREE\<rparr> # ys\<rparr>"
  by (simp add: set_free_def list_update_append)

lemma pending_collapsed:
  assumes "collapsed xs (b\<lparr>fa_state := FA_FREE\<rparr>) ys = (xs', c)"
  shows "pending_count (xs' @ c # drop_free ys) = pending_count xs + pending_count ys"
proof -
  have "pending_count (drop_free ys) = pending_count ys"
    by (auto simp: drop_free_def split: list.splits)
  moreover have "pending_count xs' = pending_count xs \<and> fa_state c = FA_FREE"
    using assms by (cases xs rule: rev_cases) (auto simp: collapsed_def Let_def split: if_splits)
  ultimately show ?thesis by simp
qed

lemma pending_collapse_less:
  assumes "i < length (fa_blocks a)" "fa_state (fa_blocks a ! i) = FA_FREE_PENDING_TOKEN"
    and "FencedAllocator_CollapseFreeBlock i (set_free i a) = (j, a')"
  shows "pending_count (fa_blocks a') < pending_count (fa_blocks a)"
proof -
  let ?xs = "take i (fa_blocks a)" and ?ys = "drop (Suc i) (fa_blocks a)" and ?b = "fa_blocks a ! i"
  note sp = split_at [OF assms(1)]
  obtain xs' c where c: "collapsed ?xs (?b\<lparr>fa_state := FA_FREE\<rparr>) ?ys = (xs', c)" by fastforce
  have "set_free i a = a\<lparr>fa_blocks := ?xs @ ?b\<lparr>fa_state := FA_FREE\<rparr> # ?ys\<rparr>"
    using set_free_split [OF sp(1)] sp(2) by simp
  then have "FencedAllocator_CollapseFreeBlock i (set_free i a) =
      (length xs', (set_free i a)\<lparr>fa_blocks := xs' @ c # drop_free ?ys\<rparr>)"
    using collapse_eq [of "set_free i a" ?xs "?b\<lparr>fa_state := FA_FREE\<rparr>" ?ys] sp(2) c by simp
  with assms(3) have "fa_blocks a' = xs' @ c # drop_free ?ys" by auto
  with pending_collapsed [OF c] have "pending_count (fa_blocks a') = pending_count ?xs + pending_count ?ys"
    by simp
  moreover have "pending_count (fa_blocks a) = pending_count ?xs + 1 + pending_count ?ys"
    using assms(2) by (subst sp(1)) simp
  ultimately show ?thesis by simp
qed

lemma WaitForTokenAndFreeBlock_pending:
  assumes "FencedAllocator_WaitForTokenAndFreeBlock ops i a h = Inr (j, a', h')" "i < length (fa_blocks a)"
  shows "pending_count (fa_blocks a') < pending_count (fa_blocks a)"
  using assms pending_collapse_less [OF assms(2)]
  by (cases "FencedAllocator_CollapseFreeBlock i (set_free i a)")
    (auto simp: FencedAllocator_WaitForTokenAndFreeBlock_def res_simps)

text \<open>The second loop of \<^verbatim>\<open>Alloc\<close>: wait for pending blocks in order.\<close>

function FencedAllocator_AllocWaiting ::
  "'h token_ops \<Rightarrow> nat \<Rightarrow> u32 \<Rightarrow> fenced_allocator \<Rightarrow> 'h \<Rightarrow> (u32 \<times> fenced_allocator \<times> 'h) res" where
  "FencedAllocator_AllocWaiting ops i sz a h =
     (if i < length (fa_blocks a) then
        if fa_state (fa_blocks a ! i) \<noteq> FA_FREE_PENDING_TOKEN
        then FencedAllocator_AllocWaiting ops (i + 1) sz a h
        else res_bind (FencedAllocator_WaitForTokenAndFreeBlock ops i a h)
               (\<lambda>s. if fa_size (fa_blocks (fst (snd s)) ! fst s) \<ge> sz
                    then res_bind (FencedAllocator_AllocInBlock (fst s) sz (fst (snd s)))
                           (\<lambda>(offset, a2). Inr (offset, a2, snd (snd s)))
                    else FencedAllocator_AllocWaiting ops (fst s + 1) sz (fst (snd s)) (snd (snd s)))
      else Inr (kInvalidOffset, a, h))"
  by pat_completeness auto
termination
proof (relation "measures [\<lambda>(ops, i, sz, a, h). pending_count (fa_blocks a),
                           \<lambda>(ops, i, sz, a, h). length (fa_blocks a) - i]", goal_cases)
  case (3 ops i sz a h s)
  then show ?case
    using WaitForTokenAndFreeBlock_pending [of ops i a h "fst s" "fst (snd s)" "snd (snd s)"]
    by (simp add: case_prod_beta)
qed auto

declare FencedAllocator_AllocWaiting.simps [simp del]

definition FencedAllocator_Alloc ::
  "'h token_ops \<Rightarrow> u32 \<Rightarrow> fenced_allocator \<Rightarrow> 'h \<Rightarrow> (u32 \<times> fenced_allocator \<times> 'h) res" where
  "FencedAllocator_Alloc ops sz a h =
     (if sz = 0 then Inr (kInvalidOffset, a, h)
      else case RoundUp sz of
          None \<Rightarrow> Inr (kInvalidOffset, a, h)
        | Some aligned_size \<Rightarrow>
            (case find_free_block aligned_size (fa_blocks a) of
               Some i \<Rightarrow> res_bind (FencedAllocator_AllocInBlock i aligned_size a)
                           (\<lambda>(offset, a1). Inr (offset, a1, h))
             | None \<Rightarrow> FencedAllocator_AllocWaiting ops 0 aligned_size a h))"

text \<open>\<^verbatim>\<open>std::lower_bound\<close> over the offsets: the first block that does not start before the offset.\<close>

definition FencedAllocator_GetBlockByOffset :: "u32 \<Rightarrow> fenced_allocator \<Rightarrow> nat res" where
  "FencedAllocator_GetBlockByOffset offset a =
     (let i = length (takeWhile (\<lambda>b. fa_offset b < offset) (fa_blocks a))
      in if i = length (fa_blocks a) then Inl CHECK_failed else Inr i)"

definition FencedAllocator_Free :: "u32 \<Rightarrow> fenced_allocator \<Rightarrow> fenced_allocator res" where
  "FencedAllocator_Free offset a =
     res_bind (FencedAllocator_GetBlockByOffset offset a)
       (\<lambda>index. let block = fa_blocks a ! index
          in dcheck (fa_state block \<noteq> FA_FREE)
               (dcheck (fa_offset block = offset)
                 (let a1 = (if fa_state block = FA_IN_USE
                            then a\<lparr>fa_bytes_in_use := u32_sub (fa_bytes_in_use a) (fa_size block)\<rparr>
                            else a)
                  in Inr (snd (FencedAllocator_CollapseFreeBlock index (set_free index a1))))))"

definition FencedAllocator_FreePendingToken :: "u32 \<Rightarrow> i32 \<Rightarrow> fenced_allocator \<Rightarrow> fenced_allocator res" where
  "FencedAllocator_FreePendingToken offset token a =
     res_bind (FencedAllocator_GetBlockByOffset offset a)
       (\<lambda>index. let block = fa_blocks a ! index
          in dcheck (fa_offset block = offset)
               (let a1 = (if fa_state block = FA_IN_USE
                          then a\<lparr>fa_bytes_in_use := u32_sub (fa_bytes_in_use a) (fa_size block)\<rparr>
                          else a)
                in Inr (a1\<lparr>fa_blocks := (fa_blocks a1)[index := block
                             \<lparr>fa_state := FA_FREE_PENDING_TOKEN, fa_token := token\<rparr>]\<rparr>)))"

text \<open>The loop of \<^verbatim>\<open>FreeUnused\<close>.\<close>

function FreeUnused_from ::
  "'h token_ops \<Rightarrow> 'h \<Rightarrow> nat \<Rightarrow> fenced_allocator \<Rightarrow> fenced_allocator" where
  "FreeUnused_from ops h i a =
     (if i < length (fa_blocks a) then
        if fa_state (fa_blocks a ! i) = FA_FREE_PENDING_TOKEN \<and>
           HasCachedTokenPassed_op ops (fa_token (fa_blocks a ! i)) h
        then (case FencedAllocator_CollapseFreeBlock i (set_free i a) of
                (j, a1) \<Rightarrow> FreeUnused_from ops h j a1)
        else FreeUnused_from ops h (i + 1) a
      else a)"
  by pat_completeness auto
termination
proof (relation "measures [\<lambda>(ops, h, i, a). pending_count (fa_blocks a),
                           \<lambda>(ops, h, i, a). length (fa_blocks a) - i]", goal_cases)
  case (2 ops h i a j a1)
  then show ?case
    using pending_collapse_less [of i a j a1] by (simp add: 2(3) [symmetric])
qed auto

declare FreeUnused_from.simps [simp del]

definition FencedAllocator_FreeUnused ::
  "'h token_ops \<Rightarrow> fenced_allocator \<Rightarrow> 'h \<Rightarrow> fenced_allocator \<times> 'h" where
  "FencedAllocator_FreeUnused ops a h =
     (let h1 = RefreshCachedToken_op ops h in (FreeUnused_from ops h1 0 a, h1))"

definition FencedAllocator_GetLargestFreeSize ::
  "'h token_ops \<Rightarrow> fenced_allocator \<Rightarrow> 'h \<Rightarrow> u32 \<times> fenced_allocator \<times> 'h" where
  "FencedAllocator_GetLargestFreeSize ops a h =
     (case FencedAllocator_FreeUnused ops a h of (a1, h1) \<Rightarrow>
        (fold (\<lambda>b m. if fa_state b = FA_FREE then max m (fa_size b) else m) (fa_blocks a1) 0, a1, h1))"

text \<open>The loop of \<^verbatim>\<open>GetLargestFreeOrPendingSize\<close>, over \<open>(max_size, current_size)\<close>.\<close>

fun largest_free_or_pending :: "u32 \<Rightarrow> u32 \<Rightarrow> fa_block list \<Rightarrow> u32" where
  "largest_free_or_pending max_size current_size [] = max max_size current_size"
| "largest_free_or_pending max_size current_size (b # bs) =
     (if fa_state b = FA_IN_USE
      then largest_free_or_pending (max max_size current_size) 0 bs
      else largest_free_or_pending max_size (u32_add current_size (fa_size b)) bs)"

definition FencedAllocator_GetLargestFreeOrPendingSize :: "fenced_allocator \<Rightarrow> u32" where
  "FencedAllocator_GetLargestFreeOrPendingSize a = largest_free_or_pending 0 0 (fa_blocks a)"

definition FencedAllocator_GetFreeSize ::
  "'h token_ops \<Rightarrow> fenced_allocator \<Rightarrow> 'h \<Rightarrow> u32 \<times> fenced_allocator \<times> 'h" where
  "FencedAllocator_GetFreeSize ops a h =
     (case FencedAllocator_FreeUnused ops a h of (a1, h1) \<Rightarrow>
        (fold (\<lambda>b n. if fa_state b = FA_FREE then u32_add n (fa_size b) else n) (fa_blocks a1) 0, a1, h1))"

text \<open>The loop of \<^verbatim>\<open>CheckConsistency\<close> over adjacent blocks.\<close>

fun consistent_blocks :: "fa_block list \<Rightarrow> bool" where
  "consistent_blocks (b # c # bs) =
     (if fa_offset c \<le> fa_offset b then False
      else if fa_offset c \<noteq> u32_add (fa_offset b) (fa_size b) then False
      else if fa_state b = FA_FREE \<and> fa_state c = FA_FREE then False
      else consistent_blocks (c # bs))"
| "consistent_blocks _ = True"

definition FencedAllocator_CheckConsistency :: "fenced_allocator \<Rightarrow> bool" where
  "FencedAllocator_CheckConsistency a = (if length (fa_blocks a) < 1 then False
                                         else consistent_blocks (fa_blocks a))"

definition FencedAllocator_InUseOrFreePending :: "fenced_allocator \<Rightarrow> bool" where
  "FencedAllocator_InUseOrFreePending a \<longleftrightarrow>
     length (fa_blocks a) \<noteq> 1 \<or> fa_state (fa_blocks a ! 0) \<noteq> FA_FREE"

definition FencedAllocator_GetBlockStatusForTest :: "u32 \<Rightarrow> fenced_allocator \<Rightarrow> (fa_state \<times> i32 option) res" where
  "FencedAllocator_GetBlockStatusForTest offset a =
     res_bind (FencedAllocator_GetBlockByOffset offset a)
       (\<lambda>index. let block = fa_blocks a ! index
          in Inr (fa_state block,
                  if fa_state block = FA_FREE_PENDING_TOKEN then Some (fa_token block) else None))"

text \<open>The destructor asserts that nothing is in use; blocks may still be pending.\<close>

definition delete_FencedAllocator :: "fenced_allocator \<Rightarrow> unit res" where
  "delete_FencedAllocator a = dcheck (fa_bytes_in_use a = 0) (Inr ())"

section \<open>\<open>FencedAllocatorWrapper\<close>: the same operations over pointers\<close>

record fa_wrapper =
  fw_allocator :: fenced_allocator
  fw_base :: addr

text \<open>A null pointer is \<open>None\<close>.\<close>

definition FencedAllocatorWrapper_GetPointer :: "fa_wrapper \<Rightarrow> u32 \<Rightarrow> addr option" where
  "FencedAllocatorWrapper_GetPointer w offset =
     (if offset = kInvalidOffset then None else Some (fw_base w + int offset))"

definition FencedAllocatorWrapper_GetOffset :: "fa_wrapper \<Rightarrow> addr option \<Rightarrow> u32" where
  "FencedAllocatorWrapper_GetOffset w pointer =
     (case pointer of Some p \<Rightarrow> u32_of_int (p - fw_base w) | None \<Rightarrow> kInvalidOffset)"

definition FencedAllocatorWrapper_Alloc ::
  "'h token_ops \<Rightarrow> u32 \<Rightarrow> fa_wrapper \<Rightarrow> 'h \<Rightarrow> (addr option \<times> fa_wrapper \<times> 'h) res" where
  "FencedAllocatorWrapper_Alloc ops sz w h =
     res_bind (FencedAllocator_Alloc ops sz (fw_allocator w) h)
       (\<lambda>(offset, a, h1). Inr (FencedAllocatorWrapper_GetPointer w offset, w\<lparr>fw_allocator := a\<rparr>, h1))"

definition FencedAllocatorWrapper_Free :: "addr option \<Rightarrow> fa_wrapper \<Rightarrow> fa_wrapper res" where
  "FencedAllocatorWrapper_Free pointer w =
     dcheck (pointer \<noteq> None)
       (res_bind (FencedAllocator_Free (FencedAllocatorWrapper_GetOffset w pointer) (fw_allocator w))
         (\<lambda>a. Inr (w\<lparr>fw_allocator := a\<rparr>)))"

definition FencedAllocatorWrapper_FreePendingToken ::
  "addr option \<Rightarrow> i32 \<Rightarrow> fa_wrapper \<Rightarrow> fa_wrapper res" where
  "FencedAllocatorWrapper_FreePendingToken pointer token w =
     dcheck (pointer \<noteq> None)
       (res_bind (FencedAllocator_FreePendingToken (FencedAllocatorWrapper_GetOffset w pointer) token
                    (fw_allocator w))
         (\<lambda>a. Inr (w\<lparr>fw_allocator := a\<rparr>)))"

definition new_FencedAllocatorWrapper :: "u32 \<Rightarrow> addr \<Rightarrow> fa_wrapper" where
  "new_FencedAllocatorWrapper sz base = \<lparr>fw_allocator = new_FencedAllocator sz, fw_base = base\<rparr>"

definition FencedAllocatorWrapper_AllocTyped ::
  "'h token_ops \<Rightarrow> u32 \<Rightarrow> u32 \<Rightarrow> fa_wrapper \<Rightarrow> 'h \<Rightarrow> (addr option \<times> fa_wrapper \<times> 'h) res" where
  "FencedAllocatorWrapper_AllocTyped ops sizeof_T count w h =
     FencedAllocatorWrapper_Alloc ops (count * sizeof_T mod 2 ^ 32) w h"

definition FencedAllocatorWrapper_FreeUnused :: "'h token_ops \<Rightarrow> fa_wrapper \<Rightarrow> 'h \<Rightarrow> fa_wrapper \<times> 'h" where
  "FencedAllocatorWrapper_FreeUnused ops w h =
     (case FencedAllocator_FreeUnused ops (fw_allocator w) h of (a, h1) \<Rightarrow> (w\<lparr>fw_allocator := a\<rparr>, h1))"

definition FencedAllocatorWrapper_GetLargestFreeSize :: "'h token_ops \<Rightarrow> fa_wrapper \<Rightarrow> 'h \<Rightarrow> u32 \<times> fa_wrapper \<times> 'h" where
  "FencedAllocatorWrapper_GetLargestFreeSize ops w h =
     (case FencedAllocator_GetLargestFreeSize ops (fw_allocator w) h of (n, a, h1) \<Rightarrow> (n, w\<lparr>fw_allocator := a\<rparr>, h1))"

definition FencedAllocatorWrapper_GetLargestFreeOrPendingSize :: "fa_wrapper \<Rightarrow> u32" where
  "FencedAllocatorWrapper_GetLargestFreeOrPendingSize w = FencedAllocator_GetLargestFreeOrPendingSize (fw_allocator w)"

definition FencedAllocatorWrapper_GetFreeSize :: "'h token_ops \<Rightarrow> fa_wrapper \<Rightarrow> 'h \<Rightarrow> u32 \<times> fa_wrapper \<times> 'h" where
  "FencedAllocatorWrapper_GetFreeSize ops w h =
     (case FencedAllocator_GetFreeSize ops (fw_allocator w) h of (n, a, h1) \<Rightarrow> (n, w\<lparr>fw_allocator := a\<rparr>, h1))"

definition FencedAllocatorWrapper_CheckConsistency :: "fa_wrapper \<Rightarrow> bool" where
  "FencedAllocatorWrapper_CheckConsistency w = FencedAllocator_CheckConsistency (fw_allocator w)"

definition FencedAllocatorWrapper_InUseOrFreePending :: "fa_wrapper \<Rightarrow> bool" where
  "FencedAllocatorWrapper_InUseOrFreePending w = FencedAllocator_InUseOrFreePending (fw_allocator w)"

definition FencedAllocatorWrapper_bytes_in_use :: "fa_wrapper \<Rightarrow> u32" where
  "FencedAllocatorWrapper_bytes_in_use w = fa_bytes_in_use (fw_allocator w)"

definition FencedAllocatorWrapper_GetPointerStatusForTest ::
  "addr option \<Rightarrow> fa_wrapper \<Rightarrow> (fa_state \<times> i32 option) res" where
  "FencedAllocatorWrapper_GetPointerStatusForTest pointer w =
     FencedAllocator_GetBlockStatusForTest (FencedAllocatorWrapper_GetOffset w pointer) (fw_allocator w)"

section \<open>The invariant\<close>

definition span :: "fa_block list \<Rightarrow> nat" where
  "span bs = sum_list (map fa_size bs)"

fun fa_chain :: "nat \<Rightarrow> fa_block list \<Rightarrow> bool" where
  "fa_chain p [] \<longleftrightarrow> True"
| "fa_chain p (b # bs) \<longleftrightarrow> fa_offset b = p \<and> fa_chain (p + fa_size b) bs"

definition fa_block_ok :: "fa_block \<Rightarrow> bool" where
  "fa_block_ok b \<longleftrightarrow> 0 < fa_size b \<and> 16 dvd fa_size b \<and>
     (fa_state b = FA_FREE_PENDING_TOKEN \<longrightarrow> 0 \<le> fa_token b)"

fun no_adjacent_free :: "fa_block list \<Rightarrow> bool" where
  "no_adjacent_free (b # c # bs) \<longleftrightarrow>
     \<not> (fa_state b = FA_FREE \<and> fa_state c = FA_FREE) \<and> no_adjacent_free (c # bs)"
| "no_adjacent_free _ \<longleftrightarrow> True"

definition used_bytes :: "fa_block list \<Rightarrow> nat" where
  "used_bytes bs = sum_list (map fa_size (filter (\<lambda>b. fa_state b = FA_IN_USE) bs))"

definition fa_inv :: "nat \<Rightarrow> fenced_allocator \<Rightarrow> bool" where
  "fa_inv n a \<longleftrightarrow> 0 < n \<and> n < 2 ^ 32 \<and> span (fa_blocks a) = n \<and> fa_chain 0 (fa_blocks a) \<and>
     list_all fa_block_ok (fa_blocks a) \<and> no_adjacent_free (fa_blocks a) \<and>
     fa_bytes_in_use a = used_bytes (fa_blocks a)"

text \<open>The abstraction: the blocks that are not free, in order.\<close>

definition occupied :: "fenced_allocator \<Rightarrow> fa_block list" where
  "occupied a = filter (\<lambda>b. fa_state b \<noteq> FA_FREE) (fa_blocks a)"

lemma span_simps [simp]:
  "span [] = 0" "span (b # bs) = fa_size b + span bs" "span (xs @ ys) = span xs + span ys"
  by (simp_all add: span_def)

lemma used_bytes_simps [simp]:
  "used_bytes [] = 0"
  "used_bytes (b # bs) = (if fa_state b = FA_IN_USE then fa_size b else 0) + used_bytes bs"
  "used_bytes (xs @ ys) = used_bytes xs + used_bytes ys"
  by (simp_all add: used_bytes_def)

lemma used_bytes_le: "used_bytes bs \<le> span bs"
  by (induction bs) auto

lemma fa_chain_append [simp]:
  "fa_chain p (xs @ ys) \<longleftrightarrow> fa_chain p xs \<and> fa_chain (p + span xs) ys"
  by (induction xs arbitrary: p) (auto simp: add.assoc)

lemma no_adjacent_free_Cons:
  "no_adjacent_free (b # bs) \<longleftrightarrow>
     no_adjacent_free bs \<and> \<not> (fa_state b = FA_FREE \<and> bs \<noteq> [] \<and> fa_state (hd bs) = FA_FREE)"
  by (cases bs) auto

lemma no_adjacent_free_append:
  "no_adjacent_free (xs @ ys) \<longleftrightarrow> no_adjacent_free xs \<and> no_adjacent_free ys \<and>
     \<not> (xs \<noteq> [] \<and> ys \<noteq> [] \<and> fa_state (last xs) = FA_FREE \<and> fa_state (hd ys) = FA_FREE)"
  by (induction xs) (auto simp: no_adjacent_free_Cons)

lemma fa_inv_bounds:
  assumes "fa_inv n a" "fa_blocks a = xs @ b # ys"
  shows "fa_offset b = span xs" "span xs + fa_size b + span ys = n" "0 < fa_size b" "n < 2 ^ 32"
  using assms by (auto simp: fa_inv_def fa_block_ok_def)

lemma new_FencedAllocator_inv:
  assumes "16 \<le> sz" "sz < 2 ^ 32"
  shows "fa_inv (sz div 16 * 16) (new_FencedAllocator sz)"
proof -
  have "RoundDown sz = sz div 16 * 16"
    using u32_clear_low_eq [OF assms(2), of 4] by (simp add: RoundDown_def kAllocAlignment_def)
  moreover have "0 < sz div 16" using assms(1) by (simp add: div_greater_zero_iff)
  moreover have "sz div 16 * 16 < 2 ^ 32"
    by (rule le_less_trans [OF div_times_less_eq_dividend assms(2)])
  ultimately show ?thesis
    by (simp add: new_FencedAllocator_def fa_inv_def fa_block_ok_def)
qed

subsection \<open>Collapsing\<close>

text \<open>
  Freeing the block between \<open>xs\<close> and \<open>ys\<close> keeps the ring of offsets and removes exactly
  that block from the occupied ones.
\<close>

lemma collapsed_cases:
  assumes "collapsed xs b ys = (xs', c)" "fa_size b + span xs + span ys < 2 ^ 32"
  obtains (alone) "xs' = xs" "c = b\<lparr>fa_size := fa_size b + free_after ys\<rparr>"
      "xs = [] \<or> fa_state (last xs) \<noteq> FA_FREE"
  | (merged) p where "xs = xs' @ [p]" "fa_state p = FA_FREE"
      "c = p\<lparr>fa_size := fa_size p + fa_size b + free_after ys\<rparr>"
proof -
  have le: "fa_size b + (span xs + free_after ys) < 2 ^ 32"
    using assms(2) by (cases ys) (auto simp: free_after_def)
  have fa: "(if ys \<noteq> [] \<and> fa_state (hd ys) = FA_FREE then u32_add (fa_size b) (fa_size (hd ys))
      else fa_size b) = fa_size b + free_after ys"
    using le by (cases ys) (auto simp: free_after_def u32_add_nowrap)
  show thesis
  proof (cases "xs \<noteq> [] \<and> fa_state (last xs) = FA_FREE")
    case True
    then obtain zs z where xs: "xs = zs @ [z]" by (cases xs rule: rev_cases) auto
    with le have "u32_add (fa_size z) (fa_size b + free_after ys) = fa_size z + fa_size b + free_after ys"
      by (simp add: u32_add_nowrap)
    with True assms(1) fa xs show thesis by (intro merged [of z]) (auto simp: collapsed_def Let_def)
  next
    case False
    with assms(1) fa show thesis by (intro alone) (auto simp: collapsed_def Let_def split: if_splits)
  qed
qed

lemma drop_free_facts:
  "span (drop_free ys) + free_after ys = span ys"
  "used_bytes (drop_free ys) = used_bytes ys"
  "filter (\<lambda>b. fa_state b \<noteq> FA_FREE) (drop_free ys) = filter (\<lambda>b. fa_state b \<noteq> FA_FREE) ys"
  "no_adjacent_free ys \<Longrightarrow> no_adjacent_free (drop_free ys) \<and> (drop_free ys \<noteq> [] \<longrightarrow> fa_state (hd (drop_free ys)) \<noteq> FA_FREE)"
  "list_all fa_block_ok ys \<Longrightarrow> list_all fa_block_ok (drop_free ys)"
  "fa_chain p ys \<Longrightarrow> fa_chain (p + free_after ys) (drop_free ys)"
  "list_all fa_block_ok ys \<Longrightarrow> 16 dvd free_after ys"
  by (cases ys; auto simp: drop_free_def free_after_def no_adjacent_free_Cons fa_block_ok_def)+

lemma free_and_collapse:
  assumes "fa_blocks a = xs @ b # ys" "fa_state b = FA_FREE" "fa_offset b = span xs"
    and "span xs + fa_size b + span ys < 2 ^ 32"
    and "FencedAllocator_CollapseFreeBlock (length xs) a = (j, a')"
  shows "\<exists>xs' c. fa_blocks a' = xs' @ c # drop_free ys \<and> j = length xs' \<and> fa_state c = FA_FREE \<and>
    fa_bytes_in_use a' = fa_bytes_in_use a \<and>
    (xs' = xs \<and> (xs = [] \<or> fa_state (last xs) \<noteq> FA_FREE) \<and>
       fa_size c = fa_size b + free_after ys \<and> fa_offset c = fa_offset b \<or>
     (\<exists>p. xs = xs' @ [p] \<and> fa_state p = FA_FREE \<and>
       fa_size c = fa_size p + fa_size b + free_after ys \<and> fa_offset c = fa_offset p))"
proof -
  obtain xs' c where c: "collapsed xs b ys = (xs', c)" by fastforce
  have "fa_blocks a' = xs' @ c # drop_free ys" "j = length xs'" "fa_bytes_in_use a' = fa_bytes_in_use a"
    using collapse_eq [OF assms(1)] c assms(5) by auto
  moreover from assms(4) have "fa_size b + span xs + span ys < 2 ^ 32" by simp
  ultimately show ?thesis
    using assms(2) by (cases rule: collapsed_cases [OF c]) auto
qed

lemma free_block_inv:
  assumes inv: "fa_inv n a" and bs: "fa_blocks a = xs @ b # ys" and st: "fa_state b \<noteq> FA_FREE"
    and "fa_blocks a1 = xs @ b\<lparr>fa_state := FA_FREE\<rparr> # ys"
    and "fa_bytes_in_use a1 = used_bytes xs + used_bytes ys"
    and "FencedAllocator_CollapseFreeBlock (length xs) a1 = (j, a')"
  shows "fa_inv n a'"
    and "occupied a' = filter (\<lambda>b. fa_state b \<noteq> FA_FREE) xs @ filter (\<lambda>b. fa_state b \<noteq> FA_FREE) ys"
    and "j < length (fa_blocks a')" "fa_state (fa_blocks a' ! j) = FA_FREE"
proof -
  note bd = fa_inv_bounds [OF inv bs]
  obtain xs' c where c: "fa_blocks a' = xs' @ c # drop_free ys" "j = length xs'" "fa_state c = FA_FREE"
    "fa_bytes_in_use a' = used_bytes xs + used_bytes ys"
    and k: "xs' = xs \<and> (xs = [] \<or> fa_state (last xs) \<noteq> FA_FREE) \<and>
       fa_size c = fa_size b + free_after ys \<and> fa_offset c = fa_offset b \<or>
     (\<exists>p. xs = xs' @ [p] \<and> fa_state p = FA_FREE \<and>
       fa_size c = fa_size p + fa_size b + free_after ys \<and> fa_offset c = fa_offset p)"
    using free_and_collapse [OF assms(4) _ _ _ assms(6)] bd assms(5) by auto
  have ok: "list_all fa_block_ok (xs @ b # ys)" "no_adjacent_free (xs @ b # ys)" "fa_chain 0 (xs @ b # ys)"
    using inv bs by (auto simp: fa_inv_def)
  note df = drop_free_facts [where ys = ys]
  have cs: "fa_block_ok c" using k ok(1) c(3) df(7) by (auto simp: fa_block_ok_def)
  show "fa_inv n a'"
  proof -
    consider (alone) "xs' = xs" "xs = [] \<or> fa_state (last xs) \<noteq> FA_FREE"
        "fa_size c = fa_size b + free_after ys" "fa_offset c = fa_offset b"
      | (merged) p where "xs = xs' @ [p]" "fa_state p = FA_FREE"
        "fa_size c = fa_size p + fa_size b + free_after ys" "fa_offset c = fa_offset p"
      using k by blast
    then show ?thesis
    proof cases
      case alone
      with c ok df cs bd show ?thesis
        by (auto simp: fa_inv_def no_adjacent_free_append no_adjacent_free_Cons add.assoc [symmetric])
    next
      case merged
      with c ok df cs bd show ?thesis
        by (auto simp: fa_inv_def no_adjacent_free_append no_adjacent_free_Cons add.assoc [symmetric])
    qed
  qed
  show "occupied a' = filter (\<lambda>b. fa_state b \<noteq> FA_FREE) xs @ filter (\<lambda>b. fa_state b \<noteq> FA_FREE) ys"
    using k c df(3) by (auto simp: occupied_def)
  show "j < length (fa_blocks a')" "fa_state (fa_blocks a' ! j) = FA_FREE"
    using c by auto
qed

subsection \<open>The operations keep the invariant\<close>

lemma nth_split:
  assumes "i < length bs"
  obtains xs ys where "bs = xs @ bs ! i # ys" "i = length xs"
  using split_at [OF assms] by metis

lemma AllocInBlock_split:
  assumes inv: "fa_inv n a" and bs: "fa_blocks a = xs @ b # ys"
    and "fa_state b = FA_FREE" "0 < sz" "16 dvd sz" "sz \<le> fa_size b"
  shows "\<exists>a' rest. FencedAllocator_AllocInBlock (length xs) sz a = Inr (fa_offset b, a') \<and>
    fa_inv n a' \<and>
    fa_blocks a' = xs @ b\<lparr>fa_state := FA_IN_USE, fa_size := sz\<rparr> # rest \<and>
    filter (\<lambda>b. fa_state b \<noteq> FA_FREE) rest = filter (\<lambda>b. fa_state b \<noteq> FA_FREE) ys"
proof -
  note bd = fa_inv_bounds [OF inv bs]
  have ok: "list_all fa_block_ok (xs @ b # ys)" "no_adjacent_free (xs @ b # ys)" "fa_chain 0 (xs @ b # ys)"
    "fa_bytes_in_use a = used_bytes (xs @ b # ys)" "0 < n"
    using inv bs by (auto simp: fa_inv_def)
  have "used_bytes xs + used_bytes ys + sz < 2 ^ 32"
    using used_bytes_le [of xs] used_bytes_le [of ys] bd(2,4) assms(6) by linarith
  then have used: "u32_add (fa_bytes_in_use a) sz = used_bytes xs + used_bytes ys + sz"
    using ok(4) assms(3) by (simp add: u32_add_nowrap)
  show ?thesis
  proof (cases "fa_size b = sz")
    case True
    then have "FencedAllocator_AllocInBlock (length xs) sz a = Inr (fa_offset b,
        a\<lparr>fa_blocks := xs @ b\<lparr>fa_state := FA_IN_USE, fa_size := sz\<rparr> # ys,
          fa_bytes_in_use := used_bytes xs + used_bytes ys + sz\<rparr>)"
      using assms(3) bs used by (auto simp: FencedAllocator_AllocInBlock_def Let_def list_update_append)
    with True ok bd assms(4,5) show ?thesis
      by (auto simp: fa_inv_def no_adjacent_free_append no_adjacent_free_Cons fa_block_ok_def)
  next
    case False
    let ?nb = "\<lparr>fa_state = FA_FREE, fa_offset = fa_offset b + sz, fa_size = fa_size b - sz,
                 fa_token = kUnusedToken\<rparr>"
    have "u32_add (fa_offset b) sz = fa_offset b + sz" "u32_sub (fa_size b) sz = fa_size b - sz"
      using bd assms(6) by (auto intro!: u32_add_nowrap u32_sub_nowrap)
    then have "FencedAllocator_AllocInBlock (length xs) sz a = Inr (fa_offset b,
        a\<lparr>fa_blocks := xs @ b\<lparr>fa_state := FA_IN_USE, fa_size := sz\<rparr> # ?nb # ys,
          fa_bytes_in_use := used_bytes xs + used_bytes ys + sz\<rparr>)"
      using assms(3,6) bs used False
      by (auto simp: FencedAllocator_AllocInBlock_def Let_def list_update_append insert_at_def)
    moreover have "ys = [] \<or> fa_state (hd ys) \<noteq> FA_FREE"
      using ok(2) assms(3) by (auto simp: no_adjacent_free_append no_adjacent_free_Cons)
    ultimately show ?thesis
      using False ok bd assms(4-6)
      by (auto simp: fa_inv_def no_adjacent_free_append no_adjacent_free_Cons fa_block_ok_def dvd_diff_nat)
  qed
qed

lemma fa_chain_less: "fa_chain p xs \<Longrightarrow> list_all fa_block_ok xs \<Longrightarrow> b \<in> set xs \<Longrightarrow>
    p \<le> fa_offset b \<and> fa_offset b + fa_size b \<le> p + span xs \<and> fa_offset b < p + span xs"
  by (induction xs arbitrary: p) (auto simp: fa_block_ok_def, fastforce+)

lemma GetBlockByOffset_split:
  assumes "fa_inv n a" "fa_blocks a = xs @ b # ys"
  shows "FencedAllocator_GetBlockByOffset (fa_offset b) a = Inr (length xs)"
proof -
  have "fa_offset x < fa_offset b" if "x \<in> set xs" for x
    using fa_chain_less [of 0 xs x] that assms by (auto simp: fa_inv_def)
  then have "takeWhile (\<lambda>c. fa_offset c < fa_offset b) (xs @ b # ys) = xs"
    by (simp add: takeWhile_append2)
  then show ?thesis
    using assms(2) by (simp add: FencedAllocator_GetBlockByOffset_def Let_def)
qed

lemma GetBlockByOffset_Inr:
  assumes "FencedAllocator_GetBlockByOffset offset a = Inr i"
  shows "i < length (fa_blocks a)"
proof -
  have "length (takeWhile (\<lambda>b. fa_offset b < offset) (fa_blocks a)) \<le> length (fa_blocks a)"
    by (rule length_takeWhile_le)
  with assms show ?thesis
    by (auto simp: FencedAllocator_GetBlockByOffset_def Let_def split: if_splits)
qed

text \<open>\<^verbatim>\<open>Free\<close> of an occupied block returns, and removes exactly that block.\<close>

lemma Free_split:
  assumes inv: "fa_inv n a" and bs: "fa_blocks a = xs @ b # ys" and st: "fa_state b \<noteq> FA_FREE"
  shows "\<exists>a'. FencedAllocator_Free (fa_offset b) a = Inr a' \<and> fa_inv n a' \<and>
    occupied a' = filter (\<lambda>b. fa_state b \<noteq> FA_FREE) xs @ filter (\<lambda>b. fa_state b \<noteq> FA_FREE) ys"
proof -
  let ?a1 = "if fa_state b = FA_IN_USE
    then a\<lparr>fa_bytes_in_use := u32_sub (fa_bytes_in_use a) (fa_size b)\<rparr> else a"
  obtain j a' where c: "FencedAllocator_CollapseFreeBlock (length xs) (set_free (length xs) ?a1) = (j, a')"
    by fastforce
  have "fa_bytes_in_use a = used_bytes (xs @ b # ys)" using inv bs by (simp add: fa_inv_def)
  moreover have "used_bytes (xs @ b # ys) < 2 ^ 32"
    using used_bytes_le [of "xs @ b # ys"] fa_inv_bounds [OF inv bs] by simp
  ultimately have used: "fa_bytes_in_use (set_free (length xs) ?a1) = used_bytes xs + used_bytes ys"
    by (auto simp: set_free_def u32_sub_nowrap)
  have sf: "fa_blocks (set_free (length xs) ?a1) = xs @ b\<lparr>fa_state := FA_FREE\<rparr> # ys"
    using bs by (simp add: set_free_def)
  have "FencedAllocator_Free (fa_offset b) a = Inr a'"
    using GetBlockByOffset_split [OF inv bs] bs st c
    by (auto simp: FencedAllocator_Free_def Let_def split: if_splits)
  with free_block_inv(1,2) [OF inv bs st sf used c] show ?thesis by blast
qed

lemma FreePendingToken_split:
  assumes inv: "fa_inv n a" and bs: "fa_blocks a = xs @ b # ys" and "0 \<le> token"
  shows "\<exists>a'. FencedAllocator_FreePendingToken (fa_offset b) token a = Inr a' \<and> fa_inv n a' \<and>
    fa_blocks a' = xs @ b\<lparr>fa_state := FA_FREE_PENDING_TOKEN, fa_token := token\<rparr> # ys"
proof -
  have "fa_bytes_in_use a = used_bytes (xs @ b # ys)" using inv bs by (simp add: fa_inv_def)
  moreover have "used_bytes (xs @ b # ys) < 2 ^ 32"
    using used_bytes_le [of "xs @ b # ys"] fa_inv_bounds [OF inv bs] by simp
  ultimately have "FencedAllocator_FreePendingToken (fa_offset b) token a =
      Inr (a\<lparr>fa_blocks := xs @ b\<lparr>fa_state := FA_FREE_PENDING_TOKEN, fa_token := token\<rparr> # ys,
             fa_bytes_in_use := used_bytes xs + used_bytes ys\<rparr>)"
    using GetBlockByOffset_split [OF inv bs] bs
    by (auto simp: FencedAllocator_FreePendingToken_def Let_def u32_sub_nowrap)
  with inv bs assms(3) show ?thesis
    by (auto simp: fa_inv_def no_adjacent_free_append no_adjacent_free_Cons fa_block_ok_def)
qed

lemma Free_inv:
  assumes "FencedAllocator_Free offset a = Inr a'" "fa_inv n a"
  shows "fa_inv n a'"
proof -
  from assms(1) obtain i where i: "FencedAllocator_GetBlockByOffset offset a = Inr i"
    and st: "fa_state (fa_blocks a ! i) \<noteq> FA_FREE" and off: "fa_offset (fa_blocks a ! i) = offset"
    by (auto simp: FencedAllocator_Free_def Let_def res_simps)
  obtain xs ys where "fa_blocks a = xs @ fa_blocks a ! i # ys"
    by (rule nth_split [OF GetBlockByOffset_Inr [OF i]])
  from Free_split [OF assms(2) this st] off assms(1) show ?thesis by auto
qed

lemma fa_FreePendingToken_inv:
  assumes "FencedAllocator_FreePendingToken offset token a = Inr a'" "fa_inv n a" "0 \<le> token"
  shows "fa_inv n a'"
proof -
  from assms(1) obtain i where i: "FencedAllocator_GetBlockByOffset offset a = Inr i"
    and off: "fa_offset (fa_blocks a ! i) = offset"
    by (auto simp: FencedAllocator_FreePendingToken_def Let_def res_simps)
  obtain xs ys where "fa_blocks a = xs @ fa_blocks a ! i # ys"
    by (rule nth_split [OF GetBlockByOffset_Inr [OF i]])
  from FreePendingToken_split [OF assms(2) this assms(3)] off assms(1) show ?thesis by auto
qed

subsection \<open>Waiting for pending blocks\<close>

lemma WaitForTokenAndFreeBlock_split:
  assumes "FencedAllocator_WaitForTokenAndFreeBlock ops i a h = Inr (j, a', h')"
    and inv: "fa_inv n a" and bs: "fa_blocks a = xs @ b # ys" and "i = length xs"
  shows "fa_state b = FA_FREE_PENDING_TOKEN" "WaitForToken_op ops (fa_token b) h = Inr h'"
    and "fa_inv n a'" "j < length (fa_blocks a')" "fa_state (fa_blocks a' ! j) = FA_FREE"
    and "occupied a' = filter (\<lambda>b. fa_state b \<noteq> FA_FREE) xs @ filter (\<lambda>b. fa_state b \<noteq> FA_FREE) ys"
proof -
  from assms(1,4) bs show st: "fa_state b = FA_FREE_PENDING_TOKEN"
    and "WaitForToken_op ops (fa_token b) h = Inr h'"
    by (auto simp: FencedAllocator_WaitForTokenAndFreeBlock_def res_simps case_prod_beta)
  from assms(1,4) have c: "FencedAllocator_CollapseFreeBlock (length xs) (set_free (length xs) a) = (j, a')"
    by (cases "FencedAllocator_CollapseFreeBlock (length xs) (set_free (length xs) a)")
      (auto simp: FencedAllocator_WaitForTokenAndFreeBlock_def res_simps)
  have "fa_bytes_in_use (set_free (length xs) a) = used_bytes xs + used_bytes ys"
    using inv bs st by (simp add: set_free_def fa_inv_def)
  with free_block_inv [OF inv bs _ _ _ c] set_free_split [OF bs] st
  show "fa_inv n a'" "j < length (fa_blocks a')" "fa_state (fa_blocks a' ! j) = FA_FREE"
    "occupied a' = filter (\<lambda>b. fa_state b \<noteq> FA_FREE) xs @ filter (\<lambda>b. fa_state b \<noteq> FA_FREE) ys"
    by simp_all
qed

text \<open>Whatever freeing a pending block keeps holds when the waiting loop ends.\<close>

lemma AllocWaiting_outcome:
  assumes "FencedAllocator_AllocWaiting ops i sz a h = Inr (off, a', h')" "P a h"
    and "\<And>i a h j a1 h1. P a h \<Longrightarrow> i < length (fa_blocks a) \<Longrightarrow>
           FencedAllocator_WaitForTokenAndFreeBlock ops i a h = Inr (j, a1, h1) \<Longrightarrow> P a1 h1"
  shows "off = kInvalidOffset \<and> P a' h' \<or>
    (\<exists>j a1 i0 a0 h0. P a0 h0 \<and> i0 < length (fa_blocks a0) \<and>
       FencedAllocator_WaitForTokenAndFreeBlock ops i0 a0 h0 = Inr (j, a1, h') \<and> P a1 h' \<and>
       FencedAllocator_AllocInBlock j sz a1 = Inr (off, a') \<and> sz \<le> fa_size (fa_blocks a1 ! j))"
  using assms
proof (induction ops i sz a h rule: FencedAllocator_AllocWaiting.induct)
  case (1 ops i sz a h)
  note unfold = FencedAllocator_AllocWaiting.simps [of ops i sz a h]
  show ?case
  proof (cases "i < length (fa_blocks a)")
    case False
    with "1.prems"(1,2) show ?thesis by (simp add: unfold)
  next
    case i: True
    show ?thesis
    proof (cases "fa_state (fa_blocks a ! i) = FA_FREE_PENDING_TOKEN")
      case False
      from "1.prems"(1) i False have "FencedAllocator_AllocWaiting ops (i + 1) sz a h = Inr (off, a', h')"
        by (simp add: unfold)
      from "1.IH"(1) [OF i False this "1.prems"(2,3)] show ?thesis .
    next
      case True
      with "1.prems"(1) i obtain j a1 h1
        where w: "FencedAllocator_WaitForTokenAndFreeBlock ops i a h = Inr (j, a1, h1)"
          and fits: "sz \<le> fa_size (fa_blocks a1 ! j) \<Longrightarrow>
            res_bind (FencedAllocator_AllocInBlock j sz a1) (\<lambda>(o1, a2). Inr (o1, a2, h1)) = Inr (off, a', h')"
          and more: "\<not> sz \<le> fa_size (fa_blocks a1 ! j) \<Longrightarrow>
            FencedAllocator_AllocWaiting ops (j + 1) sz a1 h1 = Inr (off, a', h')"
        by (auto simp: unfold res_simps split: if_splits)
      have P1: "P a1 h1" by (rule "1.prems"(3) [OF "1.prems"(2) i w])
      show ?thesis
      proof (cases "sz \<le> fa_size (fa_blocks a1 ! j)")
        case True
        from fits [OF True] have "FencedAllocator_AllocInBlock j sz a1 = Inr (off, a')" "h1 = h'"
          by (auto simp: res_simps)
        with True P1 w i "1.prems"(2) show ?thesis by blast
      next
        case False
        from "1.IH"(2) [OF i _ w] True False more [OF False] P1 "1.prems"(3) show ?thesis
          by simp
      qed
    qed
  qed
qed

subsection \<open>Allocation\<close>

lemma RoundUp_Some:
  assumes "RoundUp sz = Some m" "0 < sz"
  shows "16 dvd m" "sz \<le> m" "m < sz + 16" "m < 2 ^ 32"
proof -
  from assms(1) have lt: "sz + 15 < 2 ^ 32" and m: "m = (sz + 15) div 16 * 16"
    using u32_clear_low_eq [of "sz + 15" 4]
    by (auto simp: RoundUp_def kAllocAlignment_def split: if_splits)
  have "m = (sz + 16 - 1) div 16 * 16" using m by simp
  then show "16 dvd m" "sz \<le> m" "m < sz + 16"
    using div_mult_round_up [of 16 sz] by simp_all
  show "m < 2 ^ 32" using m lt by simp
qed

lemma RoundUp_aligned:
  assumes "16 dvd m" "m < 2 ^ 32" "0 < sz" "sz \<le> m"
  shows "\<exists>k. RoundUp sz = Some k \<and> k \<le> m"
proof -
  from assms(1) obtain j where j: "m = 16 * j" by (auto simp: dvd_def)
  with assms(2) have "j \<le> 268435455" by simp
  with j have "m \<le> 4294967280" by simp
  then have lt: "sz + 15 < 2 ^ 32" using assms(4) by simp
  then have "RoundUp sz = Some ((sz + 15) div 16 * 16)"
    using u32_clear_low_eq [of "sz + 15" 4] by (simp add: RoundUp_def kAllocAlignment_def add.commute)
  moreover have "(sz + 15) div 16 * 16 \<le> m"
    using round_up_least [of 16 m sz] assms by (simp add: add.commute)
  ultimately show ?thesis by blast
qed

lemma find_free_block_Some:
  "find_free_block sz bs = Some i \<Longrightarrow>
     i < length bs \<and> fa_state (bs ! i) = FA_FREE \<and> sz \<le> fa_size (bs ! i)"
  by (induction bs arbitrary: i) (auto split: if_splits)

lemma find_free_block_None:
  "find_free_block sz bs = None \<longleftrightarrow> (\<forall>b \<in> set bs. fa_state b = FA_FREE \<longrightarrow> fa_size b < sz)"
  by (induction bs) auto

lemma fa_Alloc_outcome:
  assumes "FencedAllocator_Alloc ops sz a h = Inr (off, a', h')" "fa_inv n a" "P a h"
    and step: "\<And>i a h j a1 h1. fa_inv n a \<Longrightarrow> P a h \<Longrightarrow> i < length (fa_blocks a) \<Longrightarrow>
           FencedAllocator_WaitForTokenAndFreeBlock ops i a h = Inr (j, a1, h1) \<Longrightarrow> P a1 h1"
  obtains (failed) "off = kInvalidOffset" "fa_inv n a'" "P a' h'"
  | (placed) m xs b ys a1 where "0 < sz" "RoundUp sz = Some m" "fa_inv n a1" "P a1 h'"
      "fa_blocks a1 = xs @ b # ys" "fa_state b = FA_FREE" "m \<le> fa_size b"
      "FencedAllocator_AllocInBlock (length xs) m a1 = Inr (off, a')"
proof -
  let ?Q = "\<lambda>a h. fa_inv n a \<and> P a h"
  have stepQ: "?Q a1 h1" if q: "?Q a h" and i: "i < length (fa_blocks a)"
    and w: "FencedAllocator_WaitForTokenAndFreeBlock ops i a h = Inr (j, a1, h1)" for i a h j a1 h1
  proof -
    obtain xs ys where "fa_blocks a = xs @ fa_blocks a ! i # ys" "i = length xs"
      by (rule nth_split [OF i])
    from WaitForTokenAndFreeBlock_split(3) [OF w _ this] q step [OF _ _ i w] show ?thesis by blast
  qed
  show thesis
  proof (cases "sz = 0 \<or> RoundUp sz = None")
    case True
    then have "FencedAllocator_Alloc ops sz a h = Inr (kInvalidOffset, a, h)"
      by (auto simp: FencedAllocator_Alloc_def)
    with assms(1-3) failed show thesis by simp
  next
    case False
    then obtain m where sz: "0 < sz" and m: "RoundUp sz = Some m" by auto
    show thesis
    proof (cases "find_free_block m (fa_blocks a)")
      case (Some i)
      with assms(1) sz m have al: "FencedAllocator_AllocInBlock i m a = Inr (off, a')" "h' = h"
        by (auto simp: FencedAllocator_Alloc_def res_simps)
      note f = find_free_block_Some [OF Some]
      obtain xs ys where "fa_blocks a = xs @ fa_blocks a ! i # ys" "i = length xs"
        by (rule nth_split [OF conjunct1 [OF f]])
      then show thesis using placed [OF sz m assms(2)] assms(3) f al by auto
    next
      case None
      with assms(1) sz m have "FencedAllocator_AllocWaiting ops 0 m a h = Inr (off, a', h')"
        by (simp add: FencedAllocator_Alloc_def)
      note out = AllocWaiting_outcome [where P = ?Q, OF this conjI [OF assms(2,3)]]
      have "off = kInvalidOffset \<and> ?Q a' h' \<or>
        (\<exists>j a1 i0 a0 h0. ?Q a0 h0 \<and> i0 < length (fa_blocks a0) \<and>
           FencedAllocator_WaitForTokenAndFreeBlock ops i0 a0 h0 = Inr (j, a1, h') \<and> ?Q a1 h' \<and>
           FencedAllocator_AllocInBlock j m a1 = Inr (off, a') \<and> m \<le> fa_size (fa_blocks a1 ! j))"
        by (rule out, rule stepQ)
      then consider "off = kInvalidOffset" "?Q a' h'"
        | j a1 i0 a0 h0 where "?Q a0 h0" "i0 < length (fa_blocks a0)"
          "FencedAllocator_WaitForTokenAndFreeBlock ops i0 a0 h0 = Inr (j, a1, h')" "?Q a1 h'"
          "FencedAllocator_AllocInBlock j m a1 = Inr (off, a')" "m \<le> fa_size (fa_blocks a1 ! j)"
        by blast
      then show thesis
      proof cases
        case 1
        then show thesis using failed by blast
      next
        case (2 j a1 i0 a0 h0)
        obtain us vs where "fa_blocks a0 = us @ fa_blocks a0 ! i0 # vs" "i0 = length us"
          by (rule nth_split [OF 2(2)])
        note w = WaitForTokenAndFreeBlock_split(4,5) [OF 2(3) conjunct1 [OF 2(1)] this]
        obtain xs ys where "fa_blocks a1 = xs @ fa_blocks a1 ! j # ys" "j = length xs"
          by (rule nth_split [OF w(1)])
        then show thesis using placed [OF sz m] 2(4-6) w(2) by auto
      qed
    qed
  qed
qed

lemma fa_Alloc_inv:
  assumes "FencedAllocator_Alloc ops sz a h = Inr (off, a', h')" "fa_inv n a"
  shows "fa_inv n a'"
proof (rule fa_Alloc_outcome [where P = "\<lambda>a h. True", OF assms TrueI TrueI])
  fix m xs b ys a1
  assume placed: "0 < sz" "RoundUp sz = Some m" "fa_inv n a1" True
      "fa_blocks a1 = xs @ b # ys" "fa_state b = FA_FREE" "m \<le> fa_size b"
      "FencedAllocator_AllocInBlock (length xs) m a1 = Inr (off, a')"
  note r = RoundUp_Some [OF placed(2,1)]
  show ?thesis
    using AllocInBlock_split [OF placed(3,5,6) _ r(1) placed(7)] r placed(1,8) by auto
qed

text \<open>The blocks of an allocator do not overlap.\<close>

lemma fa_disjoint:
  assumes "fa_inv n a" "fa_blocks a = xs @ b # ys" "c \<in> set (xs @ ys)"
  shows "regions_disjoint (fa_offset c) (fa_size c) (fa_offset b) (fa_size b)"
proof -
  from assms(1,2) have "fa_chain 0 xs" "list_all fa_block_ok xs" "list_all fa_block_ok ys"
    "fa_chain (fa_offset b + fa_size b) ys" "fa_offset b = span xs"
    by (auto simp: fa_inv_def)
  then show ?thesis
    using fa_chain_less [of 0 xs c] fa_chain_less [of "fa_offset b + fa_size b" ys c] assms(3)
    by (auto simp: regions_disjoint_def)
qed

definition fa_reusable :: "(i32 \<Rightarrow> bool) \<Rightarrow> fa_block \<Rightarrow> bool" where
  "fa_reusable passed b \<longleftrightarrow> fa_state b = FA_FREE_PENDING_TOKEN \<and> passed (fa_token b)"

context token_source
begin

definition reclaimed :: "fenced_allocator \<Rightarrow> 'h \<Rightarrow> fenced_allocator \<Rightarrow> 'h \<Rightarrow> bool" where
  "reclaimed a0 h0 a h \<longleftrightarrow> tok_inv h \<and> (\<forall>u. passed h0 u \<longrightarrow> passed h u) \<and>
     set (occupied a) \<subseteq> set (occupied a0) \<and>
     (\<forall>b \<in> set (occupied a0). b \<in> set (occupied a) \<or> fa_reusable (passed h) b)"

lemma reclaimed_refl: "tok_inv h \<Longrightarrow> reclaimed a h a h"
  by (simp add: reclaimed_def)

lemma reclaimed_step:
  assumes "fa_inv n a" "reclaimed a0 h0 a h" "i < length (fa_blocks a)"
    and w: "FencedAllocator_WaitForTokenAndFreeBlock ops i a h = Inr (j, a1, h1)"
  shows "reclaimed a0 h0 a1 h1"
proof -
  obtain xs ys where bs: "fa_blocks a = xs @ fa_blocks a ! i # ys" "i = length xs"
    by (rule nth_split [OF assms(3)])
  note s = WaitForTokenAndFreeBlock_split [OF w assms(1) bs]
  have t: "tok_inv h1" "passed h1 (fa_token (fa_blocks a ! i))" "\<forall>u. passed h u \<longrightarrow> passed h1 u"
    using wait_token [OF _ s(2)] assms(2) by (auto simp: reclaimed_def)
  have "set (occupied a) = insert (fa_blocks a ! i) (set (occupied a1))"
    using s(1) by (subst occupied_def, subst bs(1)) (auto simp: s(6))
  then show ?thesis
    using assms(2) t s(1) by (auto simp: reclaimed_def fa_reusable_def)
qed

theorem fa_Alloc_safe:
  assumes "FencedAllocator_Alloc ops sz a h = Inr (off, a', h')" "fa_inv n a" "tok_inv h"
    and "off \<noteq> kInvalidOffset"
  shows "\<exists>m nb. RoundUp sz = Some m \<and> nb \<in> set (occupied a') \<and> fa_state nb = FA_IN_USE \<and>
    fa_offset nb = off \<and> fa_size nb = m \<and> off + m \<le> n \<and>
    (\<forall>b \<in> set (occupied a). fa_reusable (passed h') b \<or>
       (b \<in> set (occupied a') \<and> regions_disjoint (fa_offset b) (fa_size b) off m))"
proof (rule fa_Alloc_outcome [where P = "reclaimed a h", OF assms(1,2) reclaimed_refl [OF assms(3)] reclaimed_step])
  assume "off = kInvalidOffset"
  with assms(4) show ?thesis by simp
next
  fix m xs b ys a1
  assume placed: "0 < sz" "RoundUp sz = Some m" "fa_inv n a1" "reclaimed a h a1 h'"
      "fa_blocks a1 = xs @ b # ys" "fa_state b = FA_FREE" "m \<le> fa_size b"
      "FencedAllocator_AllocInBlock (length xs) m a1 = Inr (off, a')"
  note r = RoundUp_Some [OF placed(2,1)]
  let ?nb = "b\<lparr>fa_state := FA_IN_USE, fa_size := m\<rparr>"
  have "0 < m" using r placed(1) by simp
  from AllocInBlock_split [OF placed(3,5,6) this r(1) placed(7)] placed(8) obtain rest
    where off: "off = fa_offset b" and inv: "fa_inv n a'" and bs: "fa_blocks a' = xs @ ?nb # rest"
      and rest: "filter (\<lambda>b. fa_state b \<noteq> FA_FREE) rest = filter (\<lambda>b. fa_state b \<noteq> FA_FREE) ys"
    by auto
  have occ: "occupied a1 = filter (\<lambda>b. fa_state b \<noteq> FA_FREE) xs @ filter (\<lambda>b. fa_state b \<noteq> FA_FREE) rest"
    "occupied a' = filter (\<lambda>b. fa_state b \<noteq> FA_FREE) xs @ ?nb # filter (\<lambda>b. fa_state b \<noteq> FA_FREE) rest"
    using placed(5,6) bs rest by (simp_all add: occupied_def)
  have "regions_disjoint (fa_offset c) (fa_size c) off m" if "c \<in> set (occupied a1)" for c
    using fa_disjoint [OF inv bs, of c] that occ(1) off by auto
  moreover have "off + m \<le> n" using fa_inv_bounds [OF inv bs] off by simp
  ultimately show ?thesis
    using occ off placed(2,4) by (intro exI [of _ m] exI [of _ ?nb]) (auto simp: reclaimed_def)
qed

lemma fa_Alloc_frame:
  assumes "FencedAllocator_Alloc ops sz a h = Inr (off, a', h')" "fa_inv n a" "tok_inv h"
  shows "tok_inv h'" "passed h u \<Longrightarrow> passed h' u"
proof -
  have "tok_inv h' \<and> (\<forall>u. passed h u \<longrightarrow> passed h' u)"
    by (rule fa_Alloc_outcome [where P = "reclaimed a h", OF assms(1,2) reclaimed_refl [OF assms(3)] reclaimed_step])
      (auto simp: reclaimed_def)
  then show "tok_inv h'" "passed h u \<Longrightarrow> passed h' u" by blast+
qed

end

subsection \<open>When an allocation succeeds\<close>

text \<open>
  The largest run of blocks that are free or pending, in unbounded arithmetic; it is what
  \<^verbatim>\<open>GetLargestFreeOrPendingSize\<close> computes, and freeing pending blocks does not change it.
\<close>

fun run_max :: "nat \<Rightarrow> nat \<Rightarrow> fa_block list \<Rightarrow> nat" where
  "run_max mx acc [] = max mx acc"
| "run_max mx acc (b # bs) =
     (if fa_state b = FA_IN_USE then run_max (max mx acc) 0 bs else run_max mx (acc + fa_size b) bs)"

lemma largest_free_or_pending_eq:
  "acc + span bs < 2 ^ 32 \<Longrightarrow> largest_free_or_pending mx acc bs = run_max mx acc bs"
  by (induction bs arbitrary: mx acc) (auto simp: u32_add_nowrap)

lemma run_max_le: "run_max mx acc bs \<le> max mx (acc + span bs)"
proof (induction bs arbitrary: mx acc)
  case (Cons b bs)
  show ?case using Cons.IH [of "max mx acc" 0] Cons.IH [of mx "acc + fa_size b"]
    by (simp add: add.assoc) linarith
qed simp

lemma run_max_ge: "mx \<le> run_max mx acc bs \<and> acc \<le> run_max mx acc bs"
proof (induction bs arbitrary: mx acc)
  case (Cons b bs)
  show ?case using Cons.IH [of "max mx acc" 0] Cons.IH [of mx "acc + fa_size b"] by (simp add: add.assoc)
qed simp

lemma run_max_dvd:
  "list_all fa_block_ok bs \<Longrightarrow> 16 dvd mx \<Longrightarrow> 16 dvd acc \<Longrightarrow> 16 dvd run_max mx acc bs"
  by (induction bs arbitrary: mx acc) (auto simp: fa_block_ok_def max_def)

lemma run_max_append_cong:
  "(\<And>mx acc. run_max mx acc ys = run_max mx acc zs) \<Longrightarrow> run_max mx acc (xs @ ys) = run_max mx acc (xs @ zs)"
  by (induction xs arbitrary: mx acc) auto

lemma run_max_mem:
  "fa_state b = FA_FREE \<Longrightarrow> b \<in> set bs \<Longrightarrow> fa_size b \<le> run_max mx acc bs"
proof (induction bs arbitrary: mx acc)
  case (Cons c cs)
  then show ?case
    using run_max_ge [of "acc + fa_size c" mx cs] run_max_ge [of mx "acc + fa_size c" cs]
    by auto
qed simp

lemma run_max_drop_free: "run_max mx (acc + free_after ys) (drop_free ys) = run_max mx acc ys"
  by (cases ys) (auto simp: drop_free_def free_after_def)

lemma GetLargestFreeOrPendingSize_eq:
  "fa_inv n a \<Longrightarrow> FencedAllocator_GetLargestFreeOrPendingSize a = run_max 0 0 (fa_blocks a)"
  by (auto simp: FencedAllocator_GetLargestFreeOrPendingSize_def fa_inv_def intro!: largest_free_or_pending_eq)

lemma GetLargestFreeOrPendingSize_bounds:
  assumes "fa_inv n a"
  shows "FencedAllocator_GetLargestFreeOrPendingSize a \<le> n" "16 dvd FencedAllocator_GetLargestFreeOrPendingSize a"
  using assms run_max_le [of 0 0 "fa_blocks a"] run_max_dvd [of "fa_blocks a" 0 0]
  by (auto simp: GetLargestFreeOrPendingSize_eq [OF assms] fa_inv_def)

text \<open>Freeing and collapsing a pending block, seen on the parts of the list.\<close>

lemma WaitForTokenAndFreeBlock_parts:
  assumes "FencedAllocator_WaitForTokenAndFreeBlock ops (length xs) a h = Inr (j, a', h')"
    and inv: "fa_inv n a" and bs: "fa_blocks a = xs @ b # ys"
  obtains xs' c where "fa_blocks a' = xs' @ c # drop_free ys" "j = length xs'" "fa_state c = FA_FREE"
    "xs' = xs \<and> (xs = [] \<or> fa_state (last xs) \<noteq> FA_FREE) \<and> fa_size c = fa_size b + free_after ys \<or>
     (\<exists>p. xs = xs' @ [p] \<and> fa_state p = FA_FREE \<and> fa_size c = fa_size p + fa_size b + free_after ys)"
proof -
  from assms(1) have c: "FencedAllocator_CollapseFreeBlock (length xs) (set_free (length xs) a) = (j, a')"
    by (cases "FencedAllocator_CollapseFreeBlock (length xs) (set_free (length xs) a)")
      (auto simp: FencedAllocator_WaitForTokenAndFreeBlock_def res_simps)
  have "fa_blocks (set_free (length xs) a) = xs @ b\<lparr>fa_state := FA_FREE\<rparr> # ys"
    using set_free_split [OF bs] by simp
  from free_and_collapse [OF this _ _ _ c] fa_inv_bounds [OF inv bs] that show thesis by auto
qed

lemma WaitForTokenAndFreeBlock_run_max:
  assumes w: "FencedAllocator_WaitForTokenAndFreeBlock ops i a h = Inr (j, a', h')"
    and inv: "fa_inv n a" and i: "i < length (fa_blocks a)"
  shows "run_max 0 0 (fa_blocks a') = run_max 0 0 (fa_blocks a)"
proof -
  obtain xs ys where bs: "fa_blocks a = xs @ fa_blocks a ! i # ys" "i = length xs"
    by (rule nth_split [OF i])
  have st: "fa_state (fa_blocks a ! i) = FA_FREE_PENDING_TOKEN"
    by (rule WaitForTokenAndFreeBlock_split(1) [OF w inv bs])
  obtain xs' c where a': "fa_blocks a' = xs' @ c # drop_free ys" "fa_state c = FA_FREE"
    and k: "xs' = xs \<and> fa_size c = fa_size (fa_blocks a ! i) + free_after ys \<or>
     (\<exists>p. xs = xs' @ [p] \<and> fa_state p = FA_FREE \<and>
        fa_size c = fa_size p + fa_size (fa_blocks a ! i) + free_after ys)"
    by (rule WaitForTokenAndFreeBlock_parts [OF w [unfolded bs(2)] inv bs(1)]) (auto simp: bs(2))
  have c: "run_max mx acc (c # drop_free ys) = run_max mx (acc + (fa_size c - free_after ys)) ys" for mx acc
    using run_max_drop_free [of mx "acc + (fa_size c - free_after ys)" ys] a'(2) k by (auto simp: add.assoc)
  have "run_max 0 0 (xs' @ c # drop_free ys) = run_max 0 0 (xs @ fa_blocks a ! i # ys)"
    using k
  proof
    assume k: "xs' = xs \<and> fa_size c = fa_size (fa_blocks a ! i) + free_after ys"
    then show ?thesis using c st run_max_append_cong [of "c # drop_free ys" "fa_blocks a ! i # ys" 0 0 xs]
      by simp
  next
    assume "\<exists>p. xs = xs' @ [p] \<and> fa_state p = FA_FREE \<and>
        fa_size c = fa_size p + fa_size (fa_blocks a ! i) + free_after ys"
    then obtain p where "xs = xs' @ [p]" "fa_state p = FA_FREE"
        "fa_size c = fa_size p + fa_size (fa_blocks a ! i) + free_after ys" by blast
    then show ?thesis
      using c st run_max_append_cong [of "c # drop_free ys" "p # fa_blocks a ! i # ys" 0 0 xs']
      by (simp add: add.assoc)
  qed
  with a'(1) bs(1) show ?thesis by simp
qed

text \<open>An allocation that succeeds fits in the largest free or pending run.\<close>

lemma Alloc_Some_fits:
  assumes "FencedAllocator_Alloc ops sz a h = Inr (off, a', h')" "fa_inv n a" "off \<noteq> kInvalidOffset"
  shows "0 < sz \<and> sz \<le> FencedAllocator_GetLargestFreeOrPendingSize a"
proof (rule fa_Alloc_outcome [where P = "\<lambda>a1 h. run_max 0 0 (fa_blocks a1) = run_max 0 0 (fa_blocks a)",
      OF assms(1,2) refl])
  show "run_max 0 0 (fa_blocks a2) = run_max 0 0 (fa_blocks a)"
    if "fa_inv n a1" "run_max 0 0 (fa_blocks a1) = run_max 0 0 (fa_blocks a)" "i < length (fa_blocks a1)"
      "FencedAllocator_WaitForTokenAndFreeBlock ops i a1 h = Inr (j, a2, h1)" for i a1 h j a2 h1
    using WaitForTokenAndFreeBlock_run_max [OF that(4,1,3)] that(2) by simp
next
  fix m xs b ys a1
  assume p: "0 < sz" "RoundUp sz = Some m" "run_max 0 0 (fa_blocks a1) = run_max 0 0 (fa_blocks a)"
    "fa_blocks a1 = xs @ b # ys" "fa_state b = FA_FREE" "m \<le> fa_size b"
  have "sz \<le> fa_size b" using RoundUp_Some(2) [OF p(2,1)] p(6) by simp
  also have "\<dots> \<le> run_max 0 0 (fa_blocks a1)" by (rule run_max_mem [OF p(5)]) (simp add: p(4))
  finally show ?thesis using p(1,3) GetLargestFreeOrPendingSize_eq [OF assms(2)] by simp
qed (use assms(3) in simp)

text \<open>
  Conversely the waiting loop reaches every run: \<open>can m acc bs\<close> says that a scan over \<open>bs\<close> that
  frees each pending block, with \<open>acc\<close> free bytes just before, meets a block of \<open>m\<close> bytes.
\<close>

fun can :: "nat \<Rightarrow> nat \<Rightarrow> fa_block list \<Rightarrow> bool" where
  "can m acc [] \<longleftrightarrow> False"
| "can m acc (b # bs) \<longleftrightarrow>
     (if fa_state b = FA_IN_USE then can m 0 bs
      else fa_state b = FA_FREE_PENDING_TOKEN \<and> m \<le> acc + fa_size b + free_after bs \<or>
           can m (acc + fa_size b) bs)"

lemma can_drop_free: "can m (acc + free_after ys) (drop_free ys) \<longleftrightarrow> can m acc ys"
  by (cases ys) (auto simp: drop_free_def free_after_def)

lemma run_max_can:
  assumes "m \<le> run_max mx acc bs" "mx < m" "acc + free_after bs < m" "no_adjacent_free bs"
    "\<forall>b \<in> set bs. fa_state b = FA_FREE \<longrightarrow> fa_size b < m"
  shows "can m acc bs"
  using assms
proof (induction bs arbitrary: mx acc)
  case (Cons b bs)
  have fa: "free_after bs < m" using Cons.prems(2,5) by (auto simp: free_after_def split: list.splits)
  show ?case
  proof (cases "fa_state b")
    case FA_IN_USE
    with Cons.prems fa show ?thesis
      using Cons.IH [of "max mx acc" 0] by (auto simp: no_adjacent_free_Cons)
  next
    case FA_FREE
    then have "free_after bs = 0" using Cons.prems(4) by (cases bs) (auto simp: free_after_def)
    with FA_FREE Cons.prems show ?thesis
      using Cons.IH [of mx "acc + fa_size b"] by (auto simp: no_adjacent_free_Cons free_after_def)
  next
    case FA_FREE_PENDING_TOKEN
    with Cons.prems show ?thesis
      using Cons.IH [of mx "acc + fa_size b"]
      by (cases "m \<le> acc + fa_size b + free_after bs") (simp_all add: no_adjacent_free_Cons)
  qed
qed simp

definition trailing :: "fa_block list \<Rightarrow> nat" where
  "trailing xs = (if xs \<noteq> [] \<and> fa_state (last xs) = FA_FREE then fa_size (last xs) else 0)"

lemma AllocInBlock_succeeds:
  assumes "fa_inv n a" "fa_blocks a = xs @ b # ys" "fa_state b = FA_FREE" "0 < m" "16 dvd m" "m \<le> fa_size b"
  shows "\<exists>off a'. FencedAllocator_AllocInBlock (length xs) m a = Inr (off, a') \<and> off \<noteq> kInvalidOffset"
proof -
  obtain j where "m = 16 * j" using assms(5) by (auto simp: dvd_def)
  with assms(4) have "16 \<le> m" by simp
  with fa_inv_bounds [OF assms(1,2)] assms(6) have "fa_offset b \<noteq> kInvalidOffset"
    by (simp add: kInvalidOffset_def)
  with AllocInBlock_split [OF assms] show ?thesis by blast
qed

context live_token_source
begin

lemma WaitForTokenAndFreeBlock_returns:
  assumes "fa_inv n a" "tok_inv h" "fa_blocks a = xs @ b # ys" "fa_state b = FA_FREE_PENDING_TOKEN"
  obtains j a' h' where "FencedAllocator_WaitForTokenAndFreeBlock ops (length xs) a h = Inr (j, a', h')" "tok_inv h'"
proof -
  have "0 \<le> fa_token b" using assms by (auto simp: fa_inv_def fa_block_ok_def)
  from wait_returns [OF assms(2) this] obtain h' where h': "WaitForToken_op ops (fa_token b) h = Inr h'" by blast
  moreover from wait_token [OF assms(2) h'] have "tok_inv h'" by blast
  ultimately show thesis
    using that [of _ _ h'] assms(3,4)
    by (cases "FencedAllocator_CollapseFreeBlock (length xs) (set_free (length xs) a)")
      (auto simp: FencedAllocator_WaitForTokenAndFreeBlock_def)
qed

lemma AllocWaiting_succeeds:
  assumes "fa_inv n a" "tok_inv h" "fa_blocks a = xs @ rs" "i = length xs" "0 < m" "16 dvd m"
    and "can m (trailing xs) rs"
  shows "\<exists>off a' h'. FencedAllocator_AllocWaiting ops i m a h = Inr (off, a', h') \<and> off \<noteq> kInvalidOffset"
  using assms
proof (induction "length rs" arbitrary: i a h xs rs rule: less_induct)
  case less
  note unf = FencedAllocator_AllocWaiting.simps [of ops i m a h]
  from less.prems(7) obtain b bs where rs: "rs = b # bs" by (cases rs) auto
  have len: "i < length (fa_blocks a)" and nth: "fa_blocks a ! i = b"
    using less.prems(3,4) rs by auto
  note bs = less.prems(3) [unfolded rs]
  show ?case
  proof (cases "fa_state b = FA_FREE_PENDING_TOKEN")
    case False
    have "fa_state b = FA_FREE \<Longrightarrow> trailing xs = 0"
      using less.prems(1) bs by (auto simp: fa_inv_def trailing_def no_adjacent_free_append)
    then have "can m (trailing (xs @ [b])) bs"
      using less.prems(7) rs False by (cases "fa_state b") (auto simp: trailing_def)
    from less.hyps [of bs a h "xs @ [b]" "i + 1", OF _ less.prems(1,2) _ _ less.prems(5,6) this]
    have "\<exists>off a' h'. FencedAllocator_AllocWaiting ops (i + 1) m a h = Inr (off, a', h') \<and> off \<noteq> kInvalidOffset"
      using rs bs less.prems(4) by simp
    moreover have "FencedAllocator_AllocWaiting ops i m a h = FencedAllocator_AllocWaiting ops (i + 1) m a h"
      using False len nth by (subst unf) simp
    ultimately show ?thesis by simp
  next
    case True
    obtain j a1 h1 where w: "FencedAllocator_WaitForTokenAndFreeBlock ops (length xs) a h = Inr (j, a1, h1)"
      and t: "tok_inv h1"
      by (rule WaitForTokenAndFreeBlock_returns [OF less.prems(1,2) bs True])
    have inv: "fa_inv n a1" by (rule WaitForTokenAndFreeBlock_split(3) [OF w less.prems(1) bs refl])
    obtain xs' c where a1: "fa_blocks a1 = xs' @ c # drop_free bs" "j = length xs'" "fa_state c = FA_FREE"
      and k: "xs' = xs \<and> (xs = [] \<or> fa_state (last xs) \<noteq> FA_FREE) \<and> fa_size c = fa_size b + free_after bs \<or>
     (\<exists>p. xs = xs' @ [p] \<and> fa_state p = FA_FREE \<and> fa_size c = fa_size p + fa_size b + free_after bs)"
      by (rule WaitForTokenAndFreeBlock_parts [OF w less.prems(1) bs])
    have cs: "fa_size c = trailing xs + fa_size b + free_after bs"
      using k by (auto simp: trailing_def)
    show ?thesis
    proof (cases "m \<le> fa_size c")
      case True
      from AllocInBlock_succeeds [OF inv a1(1,3) less.prems(5,6) True] True
      show ?thesis using w \<open>fa_state b = FA_FREE_PENDING_TOKEN\<close> len nth less.prems(4) a1(1,2)
        by (subst unf) auto
    next
      case False
      have "can m (trailing xs + fa_size b) bs"
        using less.prems(7) rs True False cs by auto
      then have "can m (trailing (xs' @ [c])) (drop_free bs)"
        using can_drop_free [of m "trailing xs + fa_size b" bs] a1(3) cs by (simp add: trailing_def)
      moreover have "length (drop_free bs) < length rs"
        using rs by (auto simp: drop_free_def split: list.splits)
      ultimately have "\<exists>off a' h'. FencedAllocator_AllocWaiting ops (j + 1) m a1 h1 = Inr (off, a', h') \<and> off \<noteq> kInvalidOffset"
        using less.hyps [of "drop_free bs" a1 h1 "xs' @ [c]" "j + 1", OF _ inv t _ _ less.prems(5,6)] a1 by simp
      then show ?thesis using w True False len nth less.prems(4) a1(1,2)
        by (subst unf) simp
    qed
  qed
qed

lemma fa_Alloc_returns:
  assumes inv: "fa_inv n a" and tk: "tok_inv h" and sz: "0 < sz"
    and le: "sz \<le> FencedAllocator_GetLargestFreeOrPendingSize a"
  shows "\<exists>off a' h'. FencedAllocator_Alloc ops sz a h = Inr (off, a', h') \<and> off \<noteq> kInvalidOffset"
proof -
  let ?L = "FencedAllocator_GetLargestFreeOrPendingSize a"
  note L = GetLargestFreeOrPendingSize_bounds [OF inv]
  have "?L < 2 ^ 32" using L(1) inv by (simp add: fa_inv_def)
  from RoundUp_aligned [OF L(2) this sz le] obtain m where m: "RoundUp sz = Some m" "m \<le> ?L" by blast
  note r = RoundUp_Some [OF m(1) sz]
  have m0: "0 < m" using r(2) sz by simp
  show ?thesis
  proof (cases "find_free_block m (fa_blocks a)")
    case (Some i)
    note f = find_free_block_Some [OF Some]
    obtain xs ys where "fa_blocks a = xs @ fa_blocks a ! i # ys" "i = length xs"
      by (rule nth_split [OF conjunct1 [OF f]])
    with AllocInBlock_succeeds [OF inv _ _ m0 r(1)] f Some sz m show ?thesis
      by (fastforce simp: FencedAllocator_Alloc_def)
  next
    case None
    then have "\<forall>b \<in> set (fa_blocks a). fa_state b = FA_FREE \<longrightarrow> fa_size b < m"
      by (simp add: find_free_block_None)
    moreover from this have "free_after (fa_blocks a) < m"
      using m0 by (auto simp: free_after_def split: list.splits)
    ultimately have "can m 0 (fa_blocks a)"
      using run_max_can [of m 0 0 "fa_blocks a"] m(2) m0 inv GetLargestFreeOrPendingSize_eq [OF inv]
      by (simp add: fa_inv_def)
    with AllocWaiting_succeeds [OF inv tk, of "[]" "fa_blocks a" 0 m] None sz m r(1) m0 show ?thesis
      by (simp add: FencedAllocator_Alloc_def trailing_def)
  qed
qed


end

subsection \<open>Reclaiming without waiting\<close>

definition cached_reusable :: "'h token_ops \<Rightarrow> 'h \<Rightarrow> fa_block \<Rightarrow> bool" where
  "cached_reusable ops h b \<longleftrightarrow>
     fa_state b = FA_FREE_PENDING_TOKEN \<and> HasCachedTokenPassed_op ops (fa_token b) h"

lemma collapse_parts:
  assumes c: "FencedAllocator_CollapseFreeBlock (length xs) (set_free (length xs) a) = (j, a')"
    and inv: "fa_inv n a" and bs: "fa_blocks a = xs @ b # ys" and st: "fa_state b = FA_FREE_PENDING_TOKEN"
  shows "fa_inv n a'"
    "occupied a' = filter (\<lambda>b. fa_state b \<noteq> FA_FREE) xs @ filter (\<lambda>b. fa_state b \<noteq> FA_FREE) ys"
    "\<exists>xs' zs. fa_blocks a' = xs' @ zs \<and> j = length xs' \<and> set xs' \<subseteq> set xs"
proof -
  have sf: "fa_blocks (set_free (length xs) a) = xs @ b\<lparr>fa_state := FA_FREE\<rparr> # ys"
    using set_free_split [OF bs] by simp
  have "fa_bytes_in_use (set_free (length xs) a) = used_bytes xs + used_bytes ys"
    using inv bs st by (simp add: set_free_def fa_inv_def)
  with free_block_inv(1,2) [OF inv bs _ sf _ c] st
  show "fa_inv n a'" "occupied a' = filter (\<lambda>b. fa_state b \<noteq> FA_FREE) xs @ filter (\<lambda>b. fa_state b \<noteq> FA_FREE) ys"
    by simp_all
  show "\<exists>xs' zs. fa_blocks a' = xs' @ zs \<and> j = length xs' \<and> set xs' \<subseteq> set xs"
    using free_and_collapse [OF sf _ _ _ c] fa_inv_bounds [OF inv bs] by fastforce
qed

lemma FreeUnused_from_effect:
  assumes "fa_inv n a" "fa_blocks a = xs @ ys" "i = length xs" "\<forall>b \<in> set xs. \<not> cached_reusable ops h b"
  shows "fa_inv n (FreeUnused_from ops h i a) \<and>
    occupied (FreeUnused_from ops h i a) = filter (\<lambda>b. \<not> cached_reusable ops h b) (occupied a)"
  using assms
proof (induction ops h i a arbitrary: xs ys rule: FreeUnused_from.induct)
  case (1 ops h i a)
  note unf = FreeUnused_from.simps [of ops h i a]
  show ?case
  proof (cases ys)
    case Nil
    then have "filter (\<lambda>b. \<not> cached_reusable ops h b) (occupied a) = occupied a"
      using "1.prems"(2,4) by (intro filter_True) (auto simp: occupied_def)
    with Nil "1.prems" show ?thesis by (subst (1 2) unf) simp
  next
    case (Cons b zs)
    have i: "i < length (fa_blocks a)" and b: "fa_blocks a ! i = b" using "1.prems"(2,3) Cons by auto
    note bs = "1.prems"(2) [unfolded Cons]
    show ?thesis
    proof (cases "cached_reusable ops h b")
      case True
      then have c: "fa_state (fa_blocks a ! i) = FA_FREE_PENDING_TOKEN \<and>
          HasCachedTokenPassed_op ops (fa_token (fa_blocks a ! i)) h" by (simp add: cached_reusable_def b)
      obtain j a1 where j: "FencedAllocator_CollapseFreeBlock i (set_free i a) = (j, a1)" by fastforce
      note cp = collapse_parts [OF j [unfolded "1.prems"(3)] "1.prems"(1) bs conjunct1 [OF c [unfolded b]]]
      obtain xs' ws where p: "fa_blocks a1 = xs' @ ws" "j = length xs'" "set xs' \<subseteq> set xs" using cp(3) by blast
      have "\<forall>b \<in> set xs'. \<not> cached_reusable ops h b" using p(3) "1.prems"(4) by blast
      from "1.IH"(1) [OF i c j [symmetric] cp(1) p(1,2) this]
      have "fa_inv n (FreeUnused_from ops h j a1) \<and>
        occupied (FreeUnused_from ops h j a1) = filter (\<lambda>b. \<not> cached_reusable ops h b) (occupied a1)" .
      moreover have "FreeUnused_from ops h i a = FreeUnused_from ops h j a1" using i c j by (subst unf) simp
      moreover have "filter (\<lambda>b. \<not> cached_reusable ops h b) (occupied a1) =
          filter (\<lambda>b. \<not> cached_reusable ops h b) (occupied a)"
        using True cp(2) by (simp add: occupied_def bs)
      ultimately show ?thesis by simp
    next
      case False
      then have c: "\<not> (fa_state (fa_blocks a ! i) = FA_FREE_PENDING_TOKEN \<and>
          HasCachedTokenPassed_op ops (fa_token (fa_blocks a ! i)) h)" by (simp add: cached_reusable_def b)
      have "\<forall>b \<in> set (xs @ [b]). \<not> cached_reusable ops h b" using False "1.prems"(4) by simp
      from "1.IH"(2) [OF i c "1.prems"(1) _ _ this, of zs] bs "1.prems"(3)
      have "fa_inv n (FreeUnused_from ops h (i + 1) a) \<and>
        occupied (FreeUnused_from ops h (i + 1) a) = filter (\<lambda>b. \<not> cached_reusable ops h b) (occupied a)" by simp
      moreover have "FreeUnused_from ops h i a = FreeUnused_from ops h (i + 1) a" using i c by (subst unf) auto
      ultimately show ?thesis by simp
    qed
  qed
qed

lemma FreeUnused_effect:
  assumes "FencedAllocator_FreeUnused ops a h = (a', h')" "fa_inv n a"
  shows "fa_inv n a'" "h' = RefreshCachedToken_op ops h"
    "occupied a' = filter (\<lambda>b. \<not> cached_reusable ops h' b) (occupied a)"
  using assms FreeUnused_from_effect [OF assms(2), of "[]" "fa_blocks a" 0 ops "RefreshCachedToken_op ops h"]
  by (auto simp: FencedAllocator_FreeUnused_def Let_def)

context token_source
begin

lemma FreeUnused_safe:
  assumes "FencedAllocator_FreeUnused ops a h = (a', h')" "fa_inv n a" "tok_inv h"
  shows "fa_inv n a'" "tok_inv h'" "passed h u \<Longrightarrow> passed h' u"
    "b \<in> set (occupied a) \<Longrightarrow> b \<in> set (occupied a') \<or> fa_reusable (passed h') b"
    "set (occupied a') \<subseteq> set (occupied a)"
proof -
  note e = FreeUnused_effect [OF assms(1,2)] and r = refresh_token [OF assms(3)]
  show "fa_inv n a'" "tok_inv h'" "passed h u \<Longrightarrow> passed h' u" using e(1,2) r by auto
  show "b \<in> set (occupied a) \<Longrightarrow> b \<in> set (occupied a') \<or> fa_reusable (passed h') b" "set (occupied a') \<subseteq> set (occupied a)"
    using e(2,3) r cached_token by (auto simp: cached_reusable_def fa_reusable_def)
qed

end

subsection \<open>Queries\<close>

lemma consistent_blocks_ok:
  "fa_chain p bs \<Longrightarrow> list_all fa_block_ok bs \<Longrightarrow> no_adjacent_free bs \<Longrightarrow> p + span bs < 2 ^ 32 \<Longrightarrow>
     consistent_blocks bs"
  by (induction bs arbitrary: p rule: consistent_blocks.induct)
    (auto simp: u32_add_nowrap fa_block_ok_def add.assoc)

lemma fa_inv_consistent:
  assumes "fa_inv n a"
  shows "FencedAllocator_CheckConsistency a"
proof -
  from assms have "fa_blocks a \<noteq> []" by (auto simp: fa_inv_def)
  with assms consistent_blocks_ok [of 0 "fa_blocks a"] show ?thesis
    by (cases "fa_blocks a") (auto simp: fa_inv_def FencedAllocator_CheckConsistency_def)
qed

lemma fold_free_size:
  "x + span bs < 2 ^ 32 \<Longrightarrow>
     fold (\<lambda>b m. if fa_state b = FA_FREE then u32_add m (fa_size b) else m) bs x =
       x + sum_list (map fa_size (filter (\<lambda>b. fa_state b = FA_FREE) bs))"
  by (induction bs arbitrary: x) (auto simp: u32_add_nowrap)

lemma span_split:
  "span bs = sum_list (map fa_size (filter (\<lambda>b. fa_state b = FA_FREE) bs)) +
     sum_list (map fa_size (filter (\<lambda>b. fa_state b \<noteq> FA_FREE) bs))"
  by (induction bs) auto

lemma fa_GetFreeSize_eq:
  assumes "FencedAllocator_GetFreeSize ops a h = (m, a', h')" "fa_inv n a"
  shows "m + span (occupied a') = n"
proof -
  obtain a1 h1 where f: "FencedAllocator_FreeUnused ops a h = (a1, h1)" by fastforce
  note inv = FreeUnused_effect(1) [OF f assms(2)]
  then have "span (fa_blocks a1) = n" "n < 2 ^ 32" by (auto simp: fa_inv_def)
  with assms(1) f span_split [of "fa_blocks a1"] fold_free_size [of 0 "fa_blocks a1"] show ?thesis
    by (auto simp: FencedAllocator_GetFreeSize_def occupied_def span_def)
qed

lemma fold_max_free:
  fixes bs :: "fa_block list"
  defines "f \<equiv> \<lambda>b m. if fa_state b = FA_FREE then max m (fa_size b) else m"
  shows "x \<le> fold f bs x \<and> (\<forall>b \<in> set bs. fa_state b = FA_FREE \<longrightarrow> fa_size b \<le> fold f bs x) \<and>
    (fold f bs x = x \<or> (\<exists>b \<in> set bs. fa_state b = FA_FREE \<and> fa_size b = fold f bs x))"
proof (induction bs arbitrary: x)
  case (Cons b bs)
  show ?case using Cons.IH [of "f b x"] by (auto simp: f_def max_def split: if_splits)
qed simp

text \<open>\<^verbatim>\<open>GetLargestFreeSize\<close> bytes can then be allocated without waiting.\<close>

lemma GetLargestFreeSize_mem:
  assumes "FencedAllocator_GetLargestFreeSize ops a h = (m, a', h')"
  shows "m = 0 \<or> (\<exists>b \<in> set (fa_blocks a'). fa_state b = FA_FREE \<and> fa_size b = m)"
    "\<forall>b \<in> set (fa_blocks a'). fa_state b = FA_FREE \<longrightarrow> fa_size b \<le> m"
  using assms fold_max_free [of 0 "fa_blocks a'"]
  by (auto simp: FencedAllocator_GetLargestFreeSize_def split: prod.splits)

lemma find_free_block_exists:
  "b \<in> set bs \<Longrightarrow> fa_state b = FA_FREE \<Longrightarrow> m \<le> fa_size b \<Longrightarrow> \<exists>i. find_free_block m bs = Some i"
  by (metis find_free_block_None not_le option.exhaust)

lemma GetLargestFreeSize_allocatable:
  assumes g: "FencedAllocator_GetLargestFreeSize ops a h = (m, a', h')" and inv: "fa_inv n a"
    and sz: "0 < sz" "sz \<le> m"
  shows "\<exists>off a2. FencedAllocator_Alloc ops sz a' h' = Inr (off, a2, h') \<and> off \<noteq> kInvalidOffset"
proof -
  obtain a1 h1 where f: "FencedAllocator_FreeUnused ops a h = (a1, h1)" by fastforce
  then have "a1 = a'" using g by (auto simp: FencedAllocator_GetLargestFreeSize_def)
  with FreeUnused_effect(1) [OF f inv] have inv': "fa_inv n a'" by simp
  obtain b where b: "b \<in> set (fa_blocks a')" "fa_state b = FA_FREE" "fa_size b = m"
    using GetLargestFreeSize_mem(1) [OF g] sz by auto
  then obtain us vs where uv: "fa_blocks a' = us @ b # vs" by (meson split_list)
  have "16 dvd m" using inv' b by (auto simp: fa_inv_def fa_block_ok_def list_all_iff)
  moreover have "m < 2 ^ 32" using fa_inv_bounds [OF inv' uv] b by simp
  ultimately obtain k where k: "RoundUp sz = Some k" "k \<le> m" using RoundUp_aligned sz by blast
  note r = RoundUp_Some [OF k(1) sz(1)]
  obtain i where i: "find_free_block k (fa_blocks a') = Some i"
    using find_free_block_exists [OF b(1,2)] b(3) k(2) by auto
  note fi = find_free_block_Some [OF i]
  obtain xs ys where "fa_blocks a' = xs @ fa_blocks a' ! i # ys" "i = length xs"
    by (rule nth_split [OF conjunct1 [OF fi]])
  with AllocInBlock_succeeds [OF inv', of xs "fa_blocks a' ! i" ys k] fi r sz i k(1) show ?thesis
    by (fastforce simp: FencedAllocator_Alloc_def)
qed

lemma InUseOrFreePending_iff:
  assumes "fa_inv n a"
  shows "FencedAllocator_InUseOrFreePending a \<longleftrightarrow> occupied a \<noteq> []"
proof (cases "fa_blocks a")
  case Nil
  with assms show ?thesis by (auto simp: fa_inv_def)
next
  case (Cons b bs)
  with assms have "no_adjacent_free (b # bs)" by (simp add: fa_inv_def)
  with Cons show ?thesis
    by (cases bs) (auto simp: FencedAllocator_InUseOrFreePending_def occupied_def filter_empty_conv)
qed

subsection \<open>Freeing what was allocated\<close>

lemma occupied_split:
  assumes "fa_inv n a" "b \<in> set (occupied a)"
  obtains xs ys where "fa_blocks a = xs @ b # ys" "fa_state b \<noteq> FA_FREE"
    "occupied a = filter (\<lambda>b. fa_state b \<noteq> FA_FREE) xs @ b # filter (\<lambda>b. fa_state b \<noteq> FA_FREE) ys"
    "b \<notin> set xs \<union> set ys"
proof -
  from assms(2) have b: "b \<in> set (fa_blocks a)" "fa_state b \<noteq> FA_FREE" by (auto simp: occupied_def)
  then obtain xs ys where bs: "fa_blocks a = xs @ b # ys" by (meson split_list)
  have "b \<notin> set (xs @ ys)"
    using fa_disjoint [OF assms(1) bs, of b] fa_inv_bounds(3) [OF assms(1) bs] by (auto simp: regions_disjoint_def)
  with bs b that show thesis by (auto simp: occupied_def)
qed

lemma Free_occupied:
  assumes "fa_inv n a" "b \<in> set (occupied a)"
  shows "\<exists>a'. FencedAllocator_Free (fa_offset b) a = Inr a' \<and> fa_inv n a' \<and>
    occupied a' = remove1 b (occupied a)"
proof -
  obtain xs ys where s: "fa_blocks a = xs @ b # ys" "fa_state b \<noteq> FA_FREE"
    "occupied a = filter (\<lambda>b. fa_state b \<noteq> FA_FREE) xs @ b # filter (\<lambda>b. fa_state b \<noteq> FA_FREE) ys"
    "b \<notin> set xs \<union> set ys"
    by (rule occupied_split [OF assms])
  from Free_split [OF assms(1) s(1,2)] s(3,4) show ?thesis by (auto simp: remove1_append)
qed

lemma FreePendingToken_occupied:
  assumes "fa_inv n a" "b \<in> set (occupied a)" "0 \<le> token"
  shows "\<exists>a'. FencedAllocator_FreePendingToken (fa_offset b) token a = Inr a' \<and> fa_inv n a' \<and>
    set (occupied a') = insert (b\<lparr>fa_state := FA_FREE_PENDING_TOKEN, fa_token := token\<rparr>)
                          (set (occupied a) - {b})"
proof -
  obtain xs ys where s: "fa_blocks a = xs @ b # ys" "fa_state b \<noteq> FA_FREE"
    "occupied a = filter (\<lambda>b. fa_state b \<noteq> FA_FREE) xs @ b # filter (\<lambda>b. fa_state b \<noteq> FA_FREE) ys"
    "b \<notin> set xs \<union> set ys"
    by (rule occupied_split [OF assms(1,2)])
  from FreePendingToken_split [OF assms(1) s(1) assms(3)] obtain a' where
    a': "FencedAllocator_FreePendingToken (fa_offset b) token a = Inr a'" "fa_inv n a'"
      "fa_blocks a' = xs @ b\<lparr>fa_state := FA_FREE_PENDING_TOKEN, fa_token := token\<rparr> # ys" by blast
  then have "set (occupied a') = insert (b\<lparr>fa_state := FA_FREE_PENDING_TOKEN, fa_token := token\<rparr>)
       (set (occupied a) - {b})"
    using s(3,4) by (auto simp: occupied_def)
  with a'(1,2) show ?thesis by blast
qed

lemma GetBlockStatus_occupied:
  assumes "fa_inv n a" "b \<in> set (occupied a)"
  shows "FencedAllocator_GetBlockStatusForTest (fa_offset b) a =
    Inr (fa_state b, if fa_state b = FA_FREE_PENDING_TOKEN then Some (fa_token b) else None)"
proof -
  obtain xs ys where "fa_blocks a = xs @ b # ys" by (rule occupied_split [OF assms])
  with GetBlockByOffset_split [OF assms(1) this] show ?thesis
    by (simp add: FencedAllocator_GetBlockStatusForTest_def Let_def)
qed

subsection \<open>Histories\<close>

inductive fa_history :: "'h token_ops \<Rightarrow> u32 \<Rightarrow> fenced_allocator \<times> 'h \<Rightarrow> bool"
  for ops :: "'h token_ops" and sz :: u32 where
  fh_new: "fa_history ops sz (new_FencedAllocator sz, h)"
| fh_alloc: "fa_history ops sz (a, h) \<Longrightarrow> FencedAllocator_Alloc ops n a h = Inr (off, a', h') \<Longrightarrow>
    fa_history ops sz (a', h')"
| fh_free: "fa_history ops sz (a, h) \<Longrightarrow> FencedAllocator_Free off a = Inr a' \<Longrightarrow> fa_history ops sz (a', h)"
| fh_pending: "fa_history ops sz (a, h) \<Longrightarrow> FencedAllocator_FreePendingToken off token a = Inr a' \<Longrightarrow>
    0 \<le> token \<Longrightarrow> fa_history ops sz (a', h)"
| fh_unused: "fa_history ops sz (a, h) \<Longrightarrow> FencedAllocator_FreeUnused ops a h = (a', h') \<Longrightarrow>
    fa_history ops sz (a', h')"
| fh_other: "fa_history ops sz (a, h) \<Longrightarrow> fa_history ops sz (a, h')"

lemma fa_history_inv:
  assumes "fa_history ops sz s" "16 \<le> sz" "sz < 2 ^ 32"
  shows "fa_inv (sz div 16 * 16) (fst s)"
  using assms
  by (induction rule: fa_history.induct)
    (auto intro: new_FencedAllocator_inv fa_Alloc_inv Free_inv fa_FreePendingToken_inv FreeUnused_effect(1))

end
