(* ===== verification/Helper_Ring.thy ===== *)
theory Helper_Ring
  imports Cmd_Buffer_Helper Command_Stream Ring_Buffer Fenced_Allocator
begin

text \<open>
  The helper of \<^verbatim>\<open>cmd_buffer_helper.cc\<close> driving a \<^verbatim>\<open>CommandBufferDirect\<close> with the decoder of the common
  commands: the invariant that links the client's ring to the service's, and that every
  operation of the helper keeps it, returns, and hands out only entries that the service has
  finished with.
\<close>

section \<open>The link between helper and service\<close>

text \<open>How many entries lie from \<open>c\<close> up to the put offset.\<close>

definition behind :: "i32 \<Rightarrow> i32 \<Rightarrow> i32 \<Rightarrow> i32" where
  "behind n put c = (if c \<le> put then put - c else put - c + n)"

definition wrapped :: "i32 \<Rightarrow> i32 \<Rightarrow> i32" where
  "wrapped n put = (if put = n then 0 else put)"

text \<open>What holds of the helper's memory in any state, lost contexts included.\<close>

definition mem_linked :: "helper \<Rightarrow> service \<Rightarrow> bool" where
  "mem_linked h s \<longleftrightarrow> (case ch_ring_buffer h of
       None \<Rightarrow> ch_immediate_entry_count h = 0 \<and> st_set_get_buffer_count (sv_state s) = ch_set_get_buffer_count h
     | Some b \<Rightarrow> buffer_ok (sv_heap s) b \<and> ch_entries h = Some (buf_memory b, 0) \<and>
         ch_total_entry_count h = int (buf_size b div 4) \<and> 0 < ch_total_entry_count h \<and>
         sv_ring_buffer s = Some b \<and> sv_num_entries s = ch_total_entry_count h \<and>
         st_set_get_buffer_count (sv_state s) = ch_set_get_buffer_count h \<and>
         0 \<le> ch_cached_get_offset h \<and> ch_cached_get_offset h < ch_total_entry_count h \<and>
         0 \<le> ch_put h \<and> ch_put h \<le> ch_total_entry_count h \<and>
         ch_put h + ch_immediate_entry_count h \<le> ch_total_entry_count h)"

text \<open>
  While there is no error, client and service agree on the ring; the client's idea of the get
  offset lies behind the service's; the entries it may still hand out end before it; and the
  unread entries are a stream of commands that ends with the last token inserted.
\<close>

definition ring_linked :: "helper \<Rightarrow> service \<Rightarrow> bool" where
  "ring_linked h s \<longleftrightarrow>
     st_get_offset (sv_state s) = ch_last_ordering_barrier_put h \<and> sv_put_offset s = ch_last_ordering_barrier_put h \<and>
     behind (ch_total_entry_count h) (ch_put h) (st_get_offset (sv_state s))
       \<le> behind (ch_total_entry_count h) (ch_put h) (ch_cached_get_offset h) \<and>
     behind (ch_total_entry_count h) (ch_put h) (ch_cached_get_offset h) < ch_total_entry_count h \<and>
     behind (ch_total_entry_count h) (ch_put h) (ch_cached_get_offset h) + ch_immediate_entry_count h
       < ch_total_entry_count h \<and>
     stream_at (ch_token h) (s\<lparr>sv_put_offset := wrapped (ch_total_entry_count h) (ch_put h)\<rparr>)"

definition linked :: "'x dworld hworld \<Rightarrow> bool" where
  "linked x \<longleftrightarrow>
     sv_inv (fst (snd x)) \<and> decoder_inv (snd x) \<and> error_ok (fst (snd x)) \<and> sv_scheduled (fst (snd x)) \<and>
     (ch_usable (fst x) \<or> ch_ring_buffer (fst x) = None) \<and> mem_linked (fst x) (fst (snd x)) \<and>
     (ch_context_lost (fst x) \<longrightarrow> st_error (sv_state (fst (snd x))) \<noteq> kNoError) \<and>
     0 \<le> ch_token (fst x) \<and> ch_token (fst x) < 2 ^ 31 \<and>
     (st_error (sv_state (fst (snd x))) = kNoError \<longrightarrow>
        (if ch_ring_buffer (fst x) = None
         then st_token (sv_state (fst (snd x))) = ch_token (fst x) \<and>
           sv_put_offset (fst (snd x)) = st_get_offset (sv_state (fst (snd x)))
         else ring_linked (fst x) (fst (snd x))))"

text \<open>The cached token is one that the service has reached, and the service's token was inserted.\<close>

definition tokens_linked :: "'x dworld hworld \<Rightarrow> bool" where
  "tokens_linked x \<longleftrightarrow> linked x \<and> (st_error (sv_state (fst (snd x))) = kNoError \<longrightarrow>
     ch_cached_last_token_read (fst x) \<le> st_token (sv_state (fst (snd x))) \<and>
     st_token (sv_state (fst (snd x))) \<le> ch_token (fst x))"

text \<open>
  A token has passed when the service was seen to have reached it, when it is from before the
  counter wrapped, or when the context is lost and nothing will be executed any more.
\<close>

definition token_passed :: "'x dworld hworld \<Rightarrow> i32 \<Rightarrow> bool" where
  "token_passed x t \<longleftrightarrow> ch_context_lost (fst x) \<or> t > ch_token (fst x) \<or> t \<le> ch_cached_last_token_read (fst x)"

abbreviation direct :: "nat \<Rightarrow> 'x dworld command_buffer" where
  "direct k \<equiv> CommandBufferDirect (decoder_handler common_api) k"

text \<open>A command buffer in use does not forget an error, and keeps its memory.\<close>

abbreviation failed :: "'c world \<Rightarrow> bool" where
  "failed w \<equiv> st_error (sv_state (fst w)) \<noteq> kNoError"

abbreviation onward :: "'c world \<Rightarrow> 'c world \<Rightarrow> bool" where
  "onward w w' \<equiv> (failed w \<longrightarrow> failed w') \<and> length (sv_heap (fst w')) = length (sv_heap (fst w))"

section \<open>Calculating the immediate entries\<close>

lemma contiguous_entries_eq:
  assumes "0 \<le> ch_cached_get_offset h" "ch_cached_get_offset h < ch_total_entry_count h"
    "0 \<le> ch_put h" "ch_put h \<le> ch_total_entry_count h"
  shows "contiguous_entries h = min (ch_total_entry_count h - 1 -
    behind (ch_total_entry_count h) (ch_put h) (ch_cached_get_offset h)) (ch_total_entry_count h - ch_put h)"
  using assms by (auto simp: contiguous_entries_def behind_def Let_def)

lemma flush_limited_le:
  assumes "0 < ch_total_entry_count h"
  shows "flush_limited c h m \<le> max 0 m"
proof -
  have "0 \<le> (ch_put h + ch_total_entry_count h - ch_last_ordering_barrier_put h) mod ch_total_entry_count h"
    using assms by simp
  then show ?thesis by (auto simp: flush_limited_def Let_def)
qed

lemma flush_limited_caught_up:
  assumes "0 \<le> c" "c \<le> m" "0 < ch_total_entry_count h" "wrapped (ch_total_entry_count h) (ch_put h) = ch_last_ordering_barrier_put h"
  shows "c \<le> flush_limited c h m"
proof -
  have "(ch_put h + ch_total_entry_count h - ch_last_ordering_barrier_put h) mod ch_total_entry_count h = 0"
    using assms(4) by (auto simp: wrapped_def split: if_splits)
  with assms(1,2) show ?thesis by (auto simp: flush_limited_def Let_def)
qed

text \<open>The result of \<^verbatim>\<open>CalcImmediateEntries\<close> with a ring: never more than is contiguous and free.\<close>

definition immediate :: "int \<Rightarrow> helper \<Rightarrow> i32" where
  "immediate c h = (if ch_ring_buffer h = None then 0
     else if ch_flush_automatically h then flush_limited c h (contiguous_entries h) else contiguous_entries h)"

lemma CalcImmediateEntries_eq:
  assumes "0 \<le> c" "ch_usable h \<or> ch_ring_buffer h = None"
  shows "Helper_CalcImmediateEntries c h = Inr (h\<lparr>ch_immediate_entry_count := immediate c h\<rparr>)"
  using assms by (auto simp: Helper_CalcImmediateEntries_def Helper_HaveRingBuffer_def immediate_def)

lemma immediate_bounds:
  assumes "mem_linked h s" "ch_ring_buffer h \<noteq> None"
  shows "ch_put h + immediate c h \<le> ch_total_entry_count h"
    "behind (ch_total_entry_count h) (ch_put h) (ch_cached_get_offset h) < ch_total_entry_count h \<Longrightarrow>
     behind (ch_total_entry_count h) (ch_put h) (ch_cached_get_offset h) + immediate c h < ch_total_entry_count h"
proof -
  from assms have b: "0 \<le> ch_cached_get_offset h" "ch_cached_get_offset h < ch_total_entry_count h"
    "0 \<le> ch_put h" "ch_put h \<le> ch_total_entry_count h" by (auto simp: mem_linked_def)
  have "immediate c h \<le> max 0 (contiguous_entries h)"
    using flush_limited_le [of h c "contiguous_entries h"] b assms(2) by (auto simp: immediate_def)
  with contiguous_entries_eq [OF b] b(4) show "ch_put h + immediate c h \<le> ch_total_entry_count h"
    "behind (ch_total_entry_count h) (ch_put h) (ch_cached_get_offset h) < ch_total_entry_count h \<Longrightarrow>
     behind (ch_total_entry_count h) (ch_put h) (ch_cached_get_offset h) + immediate c h < ch_total_entry_count h"
    by auto
qed

lemma linked_immediate:
  assumes "linked (h, w)"
  shows "linked (h\<lparr>ch_immediate_entry_count := immediate c h\<rparr>, w)"
proof (cases "ch_ring_buffer h")
  case None
  with assms show ?thesis by (simp add: linked_def mem_linked_def immediate_def)
next
  case (Some b)
  from assms have m: "mem_linked h (fst w)" by (simp add: linked_def Let_def)
  with Some immediate_bounds [OF m, of c] assms show ?thesis
    by (auto simp: linked_def mem_linked_def ring_linked_def)
qed

lemma immediate_irrelevant [simp]: "immediate c (h\<lparr>ch_immediate_entry_count := i\<rparr>) = immediate c h"
  by (simp add: immediate_def flush_limited_def contiguous_entries_def Let_def)

lemma linked_zero:
  assumes "linked (h, w)"
  shows "linked (h\<lparr>ch_immediate_entry_count := 0\<rparr>, w)"
  using assms by (auto simp: linked_def mem_linked_def ring_linked_def split: option.splits)

lemma linked_recalc: "linked (h\<lparr>ch_immediate_entry_count := 0\<rparr>, w) \<Longrightarrow> linked (h\<lparr>ch_immediate_entry_count := immediate c h\<rparr>, w)"
  using linked_immediate [of "h\<lparr>ch_immediate_entry_count := 0\<rparr>" w c] by simp

text \<open>\<^verbatim>\<open>CalcImmediateEntries\<close> on a linked helper.\<close>

lemma linked_Calc:
  assumes "linked (h\<lparr>ch_immediate_entry_count := 0\<rparr>, w)" "0 \<le> c"
  shows "Helper_CalcImmediateEntries c h = Inr (h\<lparr>ch_immediate_entry_count := immediate c h\<rparr>)"
  using assms by (intro CalcImmediateEntries_eq) (auto simp: linked_def Let_def)

section \<open>Flushing\<close>

lemma behind_self [simp]: "behind n put put = 0"
  by (simp add: behind_def)

lemma behind_wrapped:
  assumes "0 \<le> c" "c < n" "behind n put c < n"
  shows "behind n (wrapped n put) c = behind n put c"
  using assms by (auto simp: behind_def wrapped_def)

lemma behind_bounds: "0 \<le> c \<Longrightarrow> c < n \<Longrightarrow> 0 \<le> put \<Longrightarrow> put \<le> n \<Longrightarrow> 0 \<le> behind n put c"
  by (auto simp: behind_def)

text \<open>
  After a flush: the service is in an error state, or it has read everything the client wrote.
\<close>

definition drained :: "'x dworld hworld \<Rightarrow> bool" where
  "drained x \<longleftrightarrow> (st_error (sv_state (fst (snd x))) = kNoError \<longrightarrow>
     st_token (sv_state (fst (snd x))) = ch_token (fst x) \<and>
     (ch_ring_buffer (fst x) \<noteq> None \<longrightarrow> st_get_offset (sv_state (fst (snd x))) = ch_put (fst x) \<and>
        ch_put (fst x) < ch_total_entry_count (fst x)))"

text \<open>What a flush keeps of the helper.\<close>

definition flushed :: "helper \<Rightarrow> helper \<Rightarrow> bool" where
  "flushed h h' \<longleftrightarrow> ch_token h' = ch_token h \<and> ch_ring_buffer h' = ch_ring_buffer h \<and>
     ch_ring_buffer_id h' = ch_ring_buffer_id h \<and> ch_ring_buffer_size h' = ch_ring_buffer_size h \<and>
     ch_total_entry_count h' = ch_total_entry_count h \<and> ch_usable h' = ch_usable h \<and>
     ch_context_lost h' = ch_context_lost h \<and> ch_cached_last_token_read h' = ch_cached_last_token_read h \<and>
     ch_cached_get_offset h' = ch_cached_get_offset h \<and> ch_flush_automatically h' = ch_flush_automatically h \<and>
     (ch_put h' = ch_put h \<or> ch_put h' = wrapped (ch_total_entry_count h) (ch_put h))"

lemma flushed_refl: "flushed h h"
  by (simp add: flushed_def)

lemma stream_at_UpdateState [simp]:
  "stream_at f ((Service_UpdateState s)\<lparr>sv_put_offset := p\<rparr>) \<longleftrightarrow> stream_at f (s\<lparr>sv_put_offset := p\<rparr>)"
  by (simp add: stream_at_def streaming_from_def Service_UpdateState_def Let_def)

lemma ring_frame_refl: "ring_frame s s"
  by (simp add: ring_frame_def)

lemma stream_at_caught_up:
  assumes "sv_inv s" "sv_ring_buffer s = Some b" "st_get_offset (sv_state s) = p" "st_token (sv_state s) = f"
  shows "stream_at f (s\<lparr>sv_put_offset := p\<rparr>)"
proof -
  have "(if nat p = nat (sv_num_entries s) then 0 else nat p) = nat p"
    using assms(1,3) by (auto simp: sv_inv_def offsets_ok_def)
  moreover have "sv_buffer s = Some (buf_memory b, 0)"
    using assms(1,2) by (auto simp: sv_inv_def ring_ok_def)
  ultimately show ?thesis using assms(3,4) by (auto simp: stream_at_def streaming_from_def intro: stream_end)
qed

text \<open>The service's side of a flush by a linked helper.\<close>

lemma Direct_Flush_linked:
  assumes "linked (h, w)" "ch_ring_buffer h \<noteq> None" "0 < k"
  shows "\<exists>w'. Direct_Flush (decoder_handler common_api) k (wrapped (ch_total_entry_count h) (ch_put h)) w = Inr w' \<and>
    sv_inv (fst w') \<and> decoder_inv w' \<and> error_ok (fst w') \<and> ring_frame (fst w) (fst w') \<and>
    (st_error (sv_state (fst w)) \<noteq> kNoError \<longrightarrow> st_error (sv_state (fst w')) \<noteq> kNoError) \<and>
    (st_error (sv_state (fst w')) = kNoError \<longrightarrow>
       st_get_offset (sv_state (fst w')) = wrapped (ch_total_entry_count h) (ch_put h) \<and>
       sv_put_offset (fst w') = wrapped (ch_total_entry_count h) (ch_put h) \<and> st_token (sv_state (fst w')) = ch_token h)"
proof -
  let ?s = "fst w" and ?w1 = "(Service_UpdateState (fst w), snd w)" and ?p = "wrapped (ch_total_entry_count h) (ch_put h)"
  have l: "sv_inv ?s" "decoder_inv w" "error_ok ?s" "sv_scheduled ?s"
    and st: "st_error (sv_state ?s) = kNoError \<Longrightarrow> stream_at (ch_token h) (?s\<lparr>sv_put_offset := ?p\<rparr>)"
    using assms(1,2) by (auto simp: linked_def ring_linked_def)
  have u: "sv_inv (fst ?w1)" "decoder_inv ?w1" "error_ok (fst ?w1)" "ring_frame ?s (fst ?w1)"
    using l ring_frame_sv_frame [OF UpdateState_facts(1,5) ring_frame_refl, of ?s]
    by (simp_all add: decoder_inv_def error_ok_def)
  show ?thesis
  proof (cases "st_error (sv_state ?s) = kNoError")
    case False
    with u show ?thesis by (auto simp: Direct_Flush_def Direct_GetLastState_def Let_def)
  next
    case True
    have "quiet ?s ?w1" using u by (simp add: quiet_def)
    from Flush_stream [OF u(1) this, of k ?p "ch_token h"] l(4) assms(3) st [OF True] obtain w' where
      w': "Service_Flush Direct_client (decoder_handler common_api) k ?p ?w1 = Some (Inr w')" "sv_inv (fst w')" "quiet ?s w'"
        "st_error (sv_state (fst w')) = kNoError \<longrightarrow> st_get_offset (sv_state (fst w')) = ?p \<and>
           sv_put_offset (fst w') = ?p \<and> st_token (sv_state (fst w')) = ch_token h" by auto
    with True show ?thesis by (simp add: Direct_Flush_def Direct_GetLastState_def Let_def quiet_def)
  qed
qed

text \<open>A helper whose service has just been flushed is linked again.\<close>

lemma linked_after_flush:
  assumes "linked (h, w)" "ch_ring_buffer h \<noteq> None" "0 < k"
    and "h1 = (wrap_put h)\<lparr>ch_last_flush_put := lf, ch_last_ordering_barrier_put := ch_put (wrap_put h), ch_flush_generation := g\<rparr>"
    and "Direct_Flush (decoder_handler common_api) k (ch_put (wrap_put h)) w = Inr w'"
  shows "linked (h1, w') \<and> drained (h1, w') \<and> onward w w'"
proof -
  have p: "ch_put (wrap_put h) = wrapped (ch_total_entry_count h) (ch_put h)" by (simp add: wrap_put_def wrapped_def)
  have f: "sv_inv (fst w')" "decoder_inv w'" "error_ok (fst w')" "ring_frame (fst w) (fst w')"
    "st_error (sv_state (fst w)) \<noteq> kNoError \<longrightarrow> st_error (sv_state (fst w')) \<noteq> kNoError"
    and ok: "st_error (sv_state (fst w')) = kNoError \<Longrightarrow>
       st_get_offset (sv_state (fst w')) = wrapped (ch_total_entry_count h) (ch_put h) \<and>
       sv_put_offset (fst w') = wrapped (ch_total_entry_count h) (ch_put h) \<and> st_token (sv_state (fst w')) = ch_token h"
    using Direct_Flush_linked [OF assms(1-3)] assms(5) p by auto
  obtain b where b: "ch_ring_buffer h = Some b" using assms(2) by blast
  have l: "sv_scheduled (fst w)" "ch_usable h" "mem_linked h (fst w)" "0 \<le> ch_token h" "ch_token h < 2 ^ 31"
    "ch_context_lost h \<longrightarrow> st_error (sv_state (fst w)) \<noteq> kNoError"
    "st_error (sv_state (fst w)) = kNoError \<Longrightarrow> ring_linked h (fst w)"
    using assms(1) b by (auto simp: linked_def)
  have h1: "ch_ring_buffer h1 = Some b" "ch_put h1 = wrapped (ch_total_entry_count h) (ch_put h)"
    "ch_total_entry_count h1 = ch_total_entry_count h" "ch_token h1 = ch_token h" "ch_usable h1"
    "ch_context_lost h1 = ch_context_lost h" "ch_last_ordering_barrier_put h1 = wrapped (ch_total_entry_count h) (ch_put h)"
    "ch_cached_get_offset h1 = ch_cached_get_offset h" "ch_immediate_entry_count h1 = ch_immediate_entry_count h"
    using b l(2) by (simp_all add: assms(4) wrap_put_def wrapped_def)
  have "buffer_ok (sv_heap (fst w')) c \<longleftrightarrow> buffer_ok (sv_heap (fst w)) c" for c
    using f(4) by (intro buffer_ok_lengths) (simp add: ring_frame_def)
  then have m: "mem_linked h1 (fst w')"
    using l(3) b f(4) by (auto simp: mem_linked_def ring_frame_def assms(4) wrap_put_def wrapped_def)
  have lt: "wrapped (ch_total_entry_count h) (ch_put h) < ch_total_entry_count h"
    using l(3) b by (auto simp: mem_linked_def wrapped_def)
  have bd: "0 \<le> ch_cached_get_offset h" "ch_cached_get_offset h < ch_total_entry_count h" "0 \<le> ch_put h" "ch_put h \<le> ch_total_entry_count h"
    using l(3) b by (auto simp: mem_linked_def)
  have "ring_linked h1 (fst w')" if e: "st_error (sv_state (fst w')) = kNoError"
  proof -
    have r: "ring_linked h (fst w)" using l(7) f(5) e by auto
    then have bh: "behind (ch_total_entry_count h) (ch_put h) (ch_cached_get_offset h) < ch_total_entry_count h"
      by (simp add: ring_linked_def)
    note bw = behind_wrapped [OF bd(1,2) bh]
    have ww: "wrapped (ch_total_entry_count h) (wrapped (ch_total_entry_count h) (ch_put h)) = wrapped (ch_total_entry_count h) (ch_put h)"
      using lt by (simp add: wrapped_def)
    have "sv_ring_buffer (fst w') = Some b" using m h1(1) by (auto simp: mem_linked_def)
    from stream_at_caught_up [OF f(1) this] ok [OF e]
    have "stream_at (ch_token h) ((fst w')\<lparr>sv_put_offset := wrapped (ch_total_entry_count h) (ch_put h)\<rparr>)" by blast
    then show ?thesis
      using r ok [OF e] behind_bounds [OF bd] by (simp add: ring_linked_def h1 bw ww)
  qed
  with f m l h1 ok lt have "linked (h1, w')" by (simp add: linked_def ring_frame_def)
  moreover have "drained (h1, w')" using ok lt by (simp add: drained_def h1)
  moreover have "length (sv_heap (fst w')) = length (sv_heap (fst w))"
    using f(4) map_eq_imp_length_eq [of length _ length] by (auto simp: ring_frame_def)
  ultimately show ?thesis using f(5) by blast
qed

lemma drained_immediate [simp]: "drained (h\<lparr>ch_immediate_entry_count := i\<rparr>, w) \<longleftrightarrow> drained (h, w)"
  by (simp add: drained_def)

text \<open>\<^verbatim>\<open>Flush\<close> and \<^verbatim>\<open>OrderingBarrier\<close> differ in one field.\<close>

lemma linked_wrap_put: "linked (h, w) \<Longrightarrow> ch_ring_buffer h = None \<Longrightarrow> linked (wrap_put h, w) \<and> drained (wrap_put h, w)"
  by (auto simp: linked_def drained_def wrap_put_def mem_linked_def)

lemma linked_HaveRingBuffer: "linked (h, w) \<Longrightarrow> Helper_HaveRingBuffer h = Inr (ch_ring_buffer h \<noteq> None)"
  by (auto simp: linked_def Helper_HaveRingBuffer_def)

lemma Helper_Flush_linked:
  assumes "linked (h, w)" "0 < k"
  shows "\<exists>h' w'. Helper_Flush (direct k) (h, w) = Inr (h', w') \<and> linked (h', w') \<and> drained (h', w') \<and> flushed h h' \<and>
    onward w w' \<and> (ch_ring_buffer h \<noteq> None \<longrightarrow> ch_put h' = wrapped (ch_total_entry_count h) (ch_put h) \<and>
       ch_last_ordering_barrier_put h' = ch_put h')"
proof -
  have hr: "Helper_HaveRingBuffer (wrap_put h) = Inr (ch_ring_buffer h \<noteq> None)"
    using linked_HaveRingBuffer [OF assms(1)] by (auto simp: Helper_HaveRingBuffer_def wrap_put_def)
  show ?thesis
  proof (cases "ch_ring_buffer h = None")
    case True
    with hr linked_wrap_put [OF assms(1) True] show ?thesis
      by (simp add: Helper_Flush_def) (auto simp: flushed_def wrap_put_def wrapped_def)
  next
    case False
    let ?h1 = "(wrap_put h)\<lparr>ch_last_flush_put := ch_put (wrap_put h), ch_last_ordering_barrier_put := ch_put (wrap_put h),
        ch_flush_generation := u32_add (ch_flush_generation (wrap_put h)) 1\<rparr>"
    have p: "ch_put (wrap_put h) = wrapped (ch_total_entry_count h) (ch_put h)" by (simp add: wrap_put_def wrapped_def)
    obtain w' where w': "Direct_Flush (decoder_handler common_api) k (ch_put (wrap_put h)) w = Inr w'"
      using Direct_Flush_linked [OF assms(1) False assms(2)] p by auto
    have l: "linked (?h1, w') \<and> drained (?h1, w') \<and> onward w w'"
      by (rule linked_after_flush [OF assms(1) False assms(2) refl w'])
    have "Helper_Flush (direct k) (h, w) = Inr (?h1\<lparr>ch_immediate_entry_count := immediate 0 ?h1\<rparr>, w')"
      using hr False w' linked_Calc [OF linked_zero [OF conjunct1 [OF l]], of 0]
      by (simp add: Helper_Flush_def Let_def CommandBufferDirect_def)
    moreover have "linked (?h1\<lparr>ch_immediate_entry_count := immediate 0 ?h1\<rparr>, w')"
      "drained (?h1\<lparr>ch_immediate_entry_count := immediate 0 ?h1\<rparr>, w')"
      using l linked_immediate [of ?h1 w' 0] by (blast, simp only: drained_immediate)
    moreover have "flushed h (?h1\<lparr>ch_immediate_entry_count := immediate 0 ?h1\<rparr>)"
      by (simp add: flushed_def wrap_put_def wrapped_def)
    ultimately show ?thesis using False p l by (intro exI conjI impI) (assumption | simp)+
  qed
qed

lemma Helper_OrderingBarrier_linked:
  assumes "linked (h, w)" "0 < k"
  shows "\<exists>h' w'. Helper_OrderingBarrier (direct k) (h, w) = Inr (h', w') \<and> linked (h', w') \<and> drained (h', w') \<and> flushed h h' \<and>
    onward w w'"
proof -
  have hr: "Helper_HaveRingBuffer (wrap_put h) = Inr (ch_ring_buffer h \<noteq> None)"
    using linked_HaveRingBuffer [OF assms(1)] by (auto simp: Helper_HaveRingBuffer_def wrap_put_def)
  show ?thesis
  proof (cases "ch_ring_buffer h = None")
    case True
    with hr linked_wrap_put [OF assms(1) True] show ?thesis
      by (simp add: Helper_OrderingBarrier_def) (auto simp: flushed_def wrap_put_def wrapped_def)
  next
    case False
    let ?h1 = "(wrap_put h)\<lparr>ch_last_flush_put := ch_last_flush_put h, ch_last_ordering_barrier_put := ch_put (wrap_put h),
        ch_flush_generation := u32_add (ch_flush_generation (wrap_put h)) 1\<rparr>"
    have p: "ch_put (wrap_put h) = wrapped (ch_total_entry_count h) (ch_put h)" by (simp add: wrap_put_def wrapped_def)
    obtain w' where w': "Direct_Flush (decoder_handler common_api) k (ch_put (wrap_put h)) w = Inr w'"
      using Direct_Flush_linked [OF assms(1) False assms(2)] p by auto
    have l: "linked (?h1, w') \<and> drained (?h1, w') \<and> onward w w'"
      by (rule linked_after_flush [OF assms(1) False assms(2) refl w'])
    have e: "(wrap_put h)\<lparr>ch_last_ordering_barrier_put := ch_put (wrap_put h),
        ch_flush_generation := u32_add (ch_flush_generation (wrap_put h)) 1\<rparr> = ?h1"
      by (cases h) (simp add: wrap_put_def)
    have "Helper_OrderingBarrier (direct k) (h, w) = Inr (?h1\<lparr>ch_immediate_entry_count := immediate 0 ?h1\<rparr>, w')"
      using hr False w' linked_Calc [OF linked_zero [OF conjunct1 [OF l]], of 0] e
      by (simp add: Helper_OrderingBarrier_def Let_def CommandBufferDirect_def Direct_OrderingBarrier_def)
    moreover have "linked (?h1\<lparr>ch_immediate_entry_count := immediate 0 ?h1\<rparr>, w')"
      "drained (?h1\<lparr>ch_immediate_entry_count := immediate 0 ?h1\<rparr>, w')"
      using l linked_immediate [of ?h1 w' 0] by (blast, simp only: drained_immediate)
    moreover have "flushed h (?h1\<lparr>ch_immediate_entry_count := immediate 0 ?h1\<rparr>)"
      by (simp add: flushed_def wrap_put_def wrapped_def)
    ultimately show ?thesis using l by blast
  qed
qed

lemma Helper_FlushLazy_linked:
  assumes "linked (h, w)" "0 < k"
  shows "\<exists>h' w'. Helper_FlushLazy (direct k) (h, w) = Inr (h', w') \<and> linked (h', w') \<and> drained (h', w') \<and> flushed h h' \<and>
    onward w w' \<and> (ch_ring_buffer h \<noteq> None \<longrightarrow> ch_last_ordering_barrier_put h' = ch_put h')"
proof (cases "ch_put h = ch_last_flush_put h \<and> ch_put h = ch_last_ordering_barrier_put h")
  case True
  then have e: "Helper_FlushLazy (direct k) (h, w) = Inr (h, w)" by (simp add: Helper_FlushLazy_def)
  have "drained (h, w)"
  proof (cases "ch_ring_buffer h = None")
    case False
    have "ch_put h < ch_total_entry_count h" and "stream_at (ch_token h) ((fst w)\<lparr>sv_put_offset := ch_put h\<rparr>)"
      if "st_error (sv_state (fst w)) = kNoError"
    proof -
      from that assms(1) False have r: "ring_linked h (fst w)" and i: "sv_inv (fst w)" and m: "mem_linked h (fst w)"
        by (auto simp: linked_def)
      from r True have "st_get_offset (sv_state (fst w)) = ch_put h" by (simp add: ring_linked_def)
      with i m False show "ch_put h < ch_total_entry_count h"
        by (auto simp: sv_inv_def offsets_ok_def mem_linked_def)
      then have "wrapped (ch_total_entry_count h) (ch_put h) = ch_put h" by (simp add: wrapped_def)
      with r show "stream_at (ch_token h) ((fst w)\<lparr>sv_put_offset := ch_put h\<rparr>)" by (simp add: ring_linked_def)
    qed
    moreover have "f = st_token (sv_state (fst w))"
      if "stream_at f ((fst w)\<lparr>sv_put_offset := p\<rparr>)" "st_get_offset (sv_state (fst w)) = p" "p < sv_num_entries (fst w)" "0 \<le> p" for f p
    proof -
      have "nat p \<noteq> nat (sv_num_entries (fst w))" using that(3,4) by simp
      with that(1,2) show ?thesis by (auto simp: stream_at_def streaming_from_def dest: stream_at_put)
    qed
    ultimately show ?thesis
      using assms(1) False True
      by (auto simp: drained_def linked_def ring_linked_def mem_linked_def)
  qed (use assms(1) in \<open>simp add: drained_def linked_def\<close>)
  with e assms(1) True flushed_refl show ?thesis by (auto intro!: exI [of _ h] exI [of _ w])
next
  case False
  then have "Helper_FlushLazy (direct k) (h, w) = Helper_Flush (direct k) (h, w)" by (simp only: Helper_FlushLazy_def fst_conv if_False)
  with Helper_Flush_linked [OF assms] show ?thesis by metis
qed

section \<open>Reading the service's state\<close>

text \<open>What an update of the cached state keeps of the helper.\<close>

definition updated :: "service \<Rightarrow> helper \<Rightarrow> helper \<Rightarrow> bool" where
  "updated s h h' \<longleftrightarrow> ch_token h' = ch_token h \<and> ch_ring_buffer h' = ch_ring_buffer h \<and>
     ch_ring_buffer_id h' = ch_ring_buffer_id h \<and> ch_ring_buffer_size h' = ch_ring_buffer_size h \<and>
     ch_total_entry_count h' = ch_total_entry_count h \<and> ch_usable h' = ch_usable h \<and> ch_put h' = ch_put h \<and>
     ch_flush_automatically h' = ch_flush_automatically h \<and>
     ch_last_ordering_barrier_put h' = ch_last_ordering_barrier_put h \<and>
     ch_cached_last_token_read h' = st_token (sv_state s) \<and>
     (ch_context_lost h' \<longleftrightarrow> ch_context_lost h \<or> IsError (st_error (sv_state s))) \<and>
     (ch_ring_buffer h \<noteq> None \<longrightarrow> ch_cached_get_offset h' = st_get_offset (sv_state s) \<and> \<not> ch_service_on_old_buffer h')"

lemma UpdateCachedState_linked:
  assumes "linked (h, w)"
  defines "h' \<equiv> Helper_UpdateCachedState (sv_state (Service_UpdateState (fst w))) h"
    and "w' \<equiv> (Service_UpdateState (fst w), snd w)"
  shows "linked (h', w')" "updated (fst w) h h'" "drained (h, w) \<Longrightarrow> drained (h', w')"
    "st_error (sv_state (fst w')) = st_error (sv_state (fst w))"
proof -
  have s: "sv_ring_buffer (fst w') = sv_ring_buffer (fst w)" "sv_num_entries (fst w') = sv_num_entries (fst w)"
    "sv_put_offset (fst w') = sv_put_offset (fst w)" "st_get_offset (sv_state (fst w')) = st_get_offset (sv_state (fst w))"
    "st_set_get_buffer_count (sv_state (fst w')) = st_set_get_buffer_count (sv_state (fst w))"
    "sv_heap (fst w') = sv_heap (fst w)" "st_token (sv_state (fst w')) = st_token (sv_state (fst w))"
    "sv_scheduled (fst w') = sv_scheduled (fst w)" and e: "st_error (sv_state (fst w')) = st_error (sv_state (fst w))"
    using UpdateState_facts(1) [of "fst w"] by (simp_all add: w'_def sv_frame_def)
  show "st_error (sv_state (fst w')) = st_error (sv_state (fst w))" by (rule e)
  have l: "sv_inv (fst w)" "decoder_inv w" "error_ok (fst w)" "sv_scheduled (fst w)"
    "ch_usable h \<or> ch_ring_buffer h = None" "mem_linked h (fst w)" "0 \<le> ch_token h" "ch_token h < 2 ^ 31"
    and lost: "ch_context_lost h \<longrightarrow> st_error (sv_state (fst w)) \<noteq> kNoError"
    and ok: "st_error (sv_state (fst w)) = kNoError \<longrightarrow>
        (if ch_ring_buffer h = None then st_token (sv_state (fst w)) = ch_token h \<and>
           sv_put_offset (fst w) = st_get_offset (sv_state (fst w)) else ring_linked h (fst w))"
    using assms(1) by (auto simp: linked_def)
  have w: "sv_inv (fst w')" "decoder_inv w'" "error_ok (fst w')"
    using l e by (simp_all add: w'_def decoder_inv_def error_ok_def)
  have hs: "Helper_UpdateCachedState (sv_state (fst w')) h = h'" by (simp add: h'_def w'_def)
  have eq: "st_set_get_buffer_count (sv_state (fst w')) = ch_set_get_buffer_count h" if "ch_ring_buffer h \<noteq> None"
    using that l(6) s(5) by (auto simp: mem_linked_def)
  show u: "updated (fst w) h h'"
    using eq s e by (auto simp: updated_def hs [symmetric] Helper_UpdateCachedState_def Let_def)
  have get: "0 \<le> st_get_offset (sv_state (fst w))" "st_get_offset (sv_state (fst w)) < ch_total_entry_count h" if "ch_ring_buffer h \<noteq> None"
    using that l(1,6) by (auto simp: sv_inv_def offsets_ok_def mem_linked_def)
  have same: "ch_entries h' = ch_entries h" "ch_set_get_buffer_count h' = ch_set_get_buffer_count h"
    "ch_immediate_entry_count h' = ch_immediate_entry_count h"
    by (simp_all add: hs [symmetric] Helper_UpdateCachedState_def Let_def)
  have m: "mem_linked h' (fst w')"
    using l(6) u get s same by (auto simp: mem_linked_def updated_def split: option.splits)
  have "ring_linked h' (fst w')" if "ring_linked h (fst w)" "ch_ring_buffer h \<noteq> None"
    using that u s same by (auto simp: ring_linked_def updated_def w'_def)
  with l w m lost ok u s e show "linked (h', w')" by (auto simp: linked_def updated_def IsError_def)
  show "drained (h', w')" if "drained (h, w)" using that u s e by (auto simp: drained_def updated_def)
qed

lemma RefreshCachedToken_eq:
  "Helper_RefreshCachedToken (direct k) (h, w) =
     (Helper_UpdateCachedState (sv_state (Service_UpdateState (fst w))) h, (Service_UpdateState (fst w), snd w))"
  by (simp add: Helper_RefreshCachedToken_def CommandBufferDirect_def Direct_GetLastState_def Let_def)

lemma RefreshCachedToken_linked:
  assumes "linked (h, w)" "Helper_RefreshCachedToken (direct k) (h, w) = (h', w')"
  shows "linked (h', w')" "updated (fst w) h h'" "drained (h, w) \<Longrightarrow> drained (h', w')"
    "st_error (sv_state (fst w')) = st_error (sv_state (fst w))" "st_token (sv_state (fst w')) = st_token (sv_state (fst w))"
  using UpdateCachedState_linked [OF assms(1)] assms(2) by (auto simp: RefreshCachedToken_eq)

text \<open>Waiting for a get offset, once the stream has been flushed.\<close>

lemma WaitForGetOffsetInRange_linked:
  assumes "linked (h, w)" "ch_ring_buffer h \<noteq> None"
    and "0 \<le> start" "start \<le> ch_total_entry_count h" "0 \<le> stop" "stop \<le> ch_total_entry_count h"
    and "st_error (sv_state (fst w)) = kNoError \<Longrightarrow> InRange start stop (st_get_offset (sv_state (fst w)))"
  shows "\<exists>h' w'. Helper_WaitForGetOffsetInRange (direct k) start stop (h, w) = Inr (\<not> ch_context_lost h', (h', w')) \<and>
    linked (h', w') \<and> updated (fst w) h h' \<and> (drained (h, w) \<longrightarrow> drained (h', w')) \<and>
    st_error (sv_state (fst w')) = st_error (sv_state (fst w)) \<and> st_token (sv_state (fst w')) = st_token (sv_state (fst w))"
proof -
  let ?s = "Service_UpdateState (fst w)"
  have c: "st_set_get_buffer_count (sv_state ?s) = ch_set_get_buffer_count h"
    using assms(1,2) UpdateState_facts(1) [of "fst w"] by (auto simp: linked_def mem_linked_def sv_frame_def)
  have "st_get_offset (sv_state ?s) = st_get_offset (sv_state (fst w))"
    using UpdateState_facts(1) [of "fst w"] by (simp add: sv_frame_def)
  with assms(3-7) c UpdateCachedState_linked [OF assms(1)] show ?thesis
    by (auto simp: Helper_WaitForGetOffsetInRange_def CommandBufferDirect_def Direct_WaitForGetOffsetInRange_def
        Direct_GetLastState_def Let_def dcheck_def)
qed

lemma InRange_stop: "InRange start stop stop"
  by (simp add: InRange_def)

text \<open>\<^verbatim>\<open>Finish\<close>: it returns, and tells whether the service has executed everything.\<close>

lemma linked_lost: "linked (h, w) \<Longrightarrow> st_error (sv_state (fst w)) = kNoError \<Longrightarrow> \<not> ch_context_lost h"
  by (simp add: linked_def)

lemma updated_lost: "linked (h, w) \<Longrightarrow> updated (fst w) h h' \<Longrightarrow> ch_context_lost h' \<longleftrightarrow> st_error (sv_state (fst w)) \<noteq> kNoError"
  by (auto simp: linked_def updated_def error_ok_def IsError_def)

section \<open>Tokens\<close>

lemma drained_tokens:
  assumes "linked (h, w)" "drained (h, w)" "st_error (sv_state (fst w)) = kNoError \<Longrightarrow> ch_cached_last_token_read h \<le> ch_token h"
  shows "tokens_linked (h, w)"
  using assms by (auto simp: tokens_linked_def drained_def)

lemma updated_tokens:
  assumes "tokens_linked (h, w)" "linked (h', w')" "updated (fst w) h h'"
    "st_error (sv_state (fst w')) = st_error (sv_state (fst w))" "st_token (sv_state (fst w')) = st_token (sv_state (fst w))"
  shows "tokens_linked (h', w') \<and> (\<forall>u. token_passed (h, w) u \<longrightarrow> token_passed (h', w') u)"
  using assms updated_lost [OF _ assms(3)]
  by (auto simp: tokens_linked_def token_passed_def updated_def)

lemma HasTokenPassed_linked:
  assumes "tokens_linked (h, w)" "Helper_HasTokenPassed (direct k) t (h, w) = (b, (h', w'))"
  shows "tokens_linked (h', w') \<and> (b \<longrightarrow> token_passed (h', w') t) \<and> (\<forall>u. token_passed (h, w) u \<longrightarrow> token_passed (h', w') u)"
    and "\<not> b \<Longrightarrow> t \<le> ch_token h' \<and> ch_cached_last_token_read h' < t \<and> ch_token h' = ch_token h"
proof -
  obtain h1 w1 where r: "Helper_RefreshCachedToken (direct k) (h, w) = (h1, w1)" by (rule prod.exhaust)
  have l: "linked (h, w)" using assms(1) by (simp add: tokens_linked_def)
  note rl = RefreshCachedToken_linked [OF l r]
  note u = updated_tokens [OF assms(1) rl(1,2,4,5)]
  have tok: "ch_token h1 = ch_token h" using rl(2) by (simp add: updated_def)
  consider (seen) "h' = h" "w' = w" "b" "token_passed (h, w) t"
    | (ask) "h' = h1" "w' = w1" "b \<longleftrightarrow> t \<le> ch_cached_last_token_read h1" "t \<le> ch_token h"
    using assms(2) r by (auto simp: Helper_HasTokenPassed_def token_passed_def Let_def split: if_splits)
  then have "(tokens_linked (h', w') \<and> (b \<longrightarrow> token_passed (h', w') t) \<and> (\<forall>u. token_passed (h, w) u \<longrightarrow> token_passed (h', w') u)) \<and>
    (\<not> b \<longrightarrow> t \<le> ch_token h' \<and> ch_cached_last_token_read h' < t \<and> ch_token h' = ch_token h)"
  proof cases
    case seen
    with assms(1) show ?thesis by blast
  next
    case ask
    then have "b \<longrightarrow> token_passed (h', w') t" by (simp add: token_passed_def)
    with ask u tok show ?thesis by auto
  qed
  then show "tokens_linked (h', w') \<and> (b \<longrightarrow> token_passed (h', w') t) \<and> (\<forall>u. token_passed (h, w) u \<longrightarrow> token_passed (h', w') u)"
    "\<not> b \<Longrightarrow> t \<le> ch_token h' \<and> ch_cached_last_token_read h' < t \<and> ch_token h' = ch_token h" by blast+
qed

lemma HasTokenPassed_heap:
  "Helper_HasTokenPassed (direct k) t (h, w) = (b, (h', w')) \<Longrightarrow> sv_heap (fst w') = sv_heap (fst w)"
  by (auto simp: Helper_HasTokenPassed_def RefreshCachedToken_eq Let_def split: if_splits)

text \<open>
  \<^verbatim>\<open>WaitForToken\<close> on a token that has not passed: a flush, and a wait that the assertion of
  \<^verbatim>\<open>CommandBufferDirect\<close> never catches out.
\<close>

lemma WaitForToken_linked:
  assumes "tokens_linked (h, w)" "0 \<le> t" "0 < k"
  shows "\<exists>h' w'. Helper_WaitForToken (direct k) t (h, w) = Inr (h', w') \<and> tokens_linked (h', w') \<and> token_passed (h', w') t \<and>
    (\<forall>u. token_passed (h, w) u \<longrightarrow> token_passed (h', w') u) \<and> length (sv_heap (fst w')) = length (sv_heap (fst w))"
proof -
  obtain b h1 w1 where p: "Helper_HasTokenPassed (direct k) t (h, w) = (b, (h1, w1))" by (metis surj_pair)
  note hp = HasTokenPassed_linked [OF assms(1) p]
  show ?thesis
  proof (cases b)
    case True
    with p hp(1) assms(2) HasTokenPassed_heap [OF p] show ?thesis by (auto simp: Helper_WaitForToken_def)
  next
    case False
    have l1: "linked (h1, w1)" using hp(1) by (simp add: tokens_linked_def)
    obtain h2 w2 where f: "Helper_FlushLazy (direct k) (h1, w1) = Inr (h2, w2)" "linked (h2, w2)" "drained (h2, w2)" "flushed h1 h2"
      "length (sv_heap (fst w2)) = length (sv_heap (fst w1))"
      using Helper_FlushLazy_linked [OF l1 assms(3)] by blast
    let ?w3 = "(Service_UpdateState (fst w2), snd w2)"
      and ?h3 = "Helper_UpdateCachedState (sv_state (Service_UpdateState (fst w2))) h2"
    note u = UpdateCachedState_linked [OF f(2)]
    have tok: "ch_token h2 = ch_token h1" using f(4) by (simp add: flushed_def)
    have ir: "st_error (sv_state (fst w2)) \<noteq> kNoError \<or> InRange t (ch_token h2) (st_token (sv_state (fst w2)))"
      using f(3) hp(2) [OF False] tok by (auto simp: drained_def InRange_def)
    then have eq: "Helper_WaitForToken (direct k) t (h, w) = Inr (?h3, ?w3)"
      using p False f(1) assms(2)
      by (simp add: Helper_WaitForToken_def CommandBufferDirect_def [of _ k] Direct_WaitForTokenInRange_def
          Direct_GetLastState_def Let_def dcheck_def)
    have cached: "ch_cached_last_token_read ?h3 = st_token (sv_state (fst w2))" "ch_token ?h3 = ch_token h1"
      using u(2) tok by (simp_all add: updated_def)
    have lost: "ch_context_lost ?h3 \<longleftrightarrow> st_error (sv_state (fst w2)) \<noteq> kNoError"
      by (rule updated_lost [OF f(2) u(2)])
    have st: "st_token (sv_state (fst w2)) = ch_token h1" if "st_error (sv_state (fst w2)) = kNoError"
      using f(3) that tok by (simp add: drained_def)
    have "tokens_linked (?h3, ?w3)"
      using drained_tokens [OF u(1) u(3) [OF f(3)]] cached st u(4) by simp
    moreover have "token_passed (?h3, ?w3) t" "\<forall>u. token_passed (h1, w1) u \<longrightarrow> token_passed (?h3, ?w3) u"
      using lost st hp(2) [OF False] cached l1 f(4) by (auto simp: token_passed_def flushed_def linked_def)
    moreover have "length (sv_heap (fst ?w3)) = length (sv_heap (fst w))"
      using f(5) HasTokenPassed_heap [OF p] by simp
    ultimately show ?thesis using eq hp(1) by blast
  qed
qed

lemma slice_pos: "0 < GetCommandBufferSliceSize b"
  by (simp add: GetCommandBufferSliceSize_def kParseCommandsSliceSmall_def kParseCommandsSliceLarge_def)

text \<open>
  The helper is a source of tokens for the memory managers, whichever slice the service uses. A
  manager that holds buffers also relies on the service's memory to stay: at least the \<open>n\<close> blocks
  there are.
\<close>

definition tokens_above :: "nat \<Rightarrow> 'x dworld hworld \<Rightarrow> bool" where
  "tokens_above n x \<longleftrightarrow> tokens_linked x \<and> n \<le> length (sv_heap (fst (snd x)))"

interpretation direct_tokens: live_token_source
  "helper_token_ops (direct (GetCommandBufferSliceSize b))" "tokens_above n" "token_passed" for b n
proof
  fix x x' :: "'x dworld hworld" and t bb
  note ops = helper_token_ops_def tokens_above_def
  let ?k = "GetCommandBufferSliceSize b"
  show "tokens_above n x' \<and> (bb \<longrightarrow> token_passed x' t) \<and> (\<forall>u. token_passed x u \<longrightarrow> token_passed x' u)"
    if "tokens_above n x" "HasTokenPassed_op (helper_token_ops (direct ?k)) t x = (bb, x')"
    using HasTokenPassed_linked(1) [of "fst x" "snd x" ?k t bb "fst x'" "snd x'"]
      HasTokenPassed_heap [of ?k t "fst x" "snd x" bb "fst x'" "snd x'"] that by (simp add: ops)
  have wait: "\<exists>x'. WaitForToken_op (helper_token_ops (direct ?k)) t x = Inr x' \<and> tokens_above n x' \<and> token_passed x' t \<and>
      (\<forall>u. token_passed x u \<longrightarrow> token_passed x' u)" if a: "tokens_above n x" and t: "0 \<le> t"
  proof -
    have "tokens_linked (fst x, snd x)" using a by (simp add: ops)
    then obtain h' w' where "Helper_WaitForToken (direct ?k) t (fst x, snd x) = Inr (h', w')" "tokens_linked (h', w')"
      "token_passed (h', w') t" "\<forall>u. token_passed (fst x, snd x) u \<longrightarrow> token_passed (h', w') u"
      "length (sv_heap (fst w')) = length (sv_heap (fst (snd x)))"
      using WaitForToken_linked [OF _ t slice_pos] by blast
    with a show ?thesis by (intro exI [of _ "(h', w')"]) (simp add: ops)
  qed
  show "tokens_above n x' \<and> token_passed x' t \<and> (\<forall>u. token_passed x u \<longrightarrow> token_passed x' u)"
    if "tokens_above n x" "WaitForToken_op (helper_token_ops (direct ?k)) t x = Inr x'"
  proof -
    have "0 \<le> t" using that(2) by (auto simp: ops Helper_WaitForToken_def res_simps)
    with wait that show ?thesis by fastforce
  qed
  show "\<exists>x'. WaitForToken_op (helper_token_ops (direct ?k)) t x = Inr x'" if "tokens_above n x" "0 \<le> t"
    using wait [OF that] by blast
  obtain h1 w1 where r: "Helper_RefreshCachedToken (direct ?k) x = (h1, w1)" by (rule prod.exhaust)
  show "tokens_above n (RefreshCachedToken_op (helper_token_ops (direct ?k)) x) \<and>
      (\<forall>u. token_passed x u \<longrightarrow> token_passed (RefreshCachedToken_op (helper_token_ops (direct ?k)) x) u)"
    if "tokens_above n x"
  proof -
    have l: "linked (fst x, snd x)" using that by (simp add: tokens_above_def tokens_linked_def)
    note rl = RefreshCachedToken_linked [OF l, of ?k h1 w1]
    have "sv_heap (fst w1) = sv_heap (fst (snd x))" using r RefreshCachedToken_eq [of ?k "fst x" "snd x"] by auto
    with updated_tokens [of "fst x" "snd x" h1 w1] rl r that show ?thesis by (simp add: ops)
  qed
  show "token_passed x t" if "HasCachedTokenPassed_op (helper_token_ops (direct ?k)) t x"
    using that by (auto simp: ops Helper_HasCachedTokenPassed_def token_passed_def split: if_splits)
qed

end
