(* ===== verification/Helper_Space.thy ===== *)
theory Helper_Space
  imports Helper_Ring
begin

text \<open>
  Space in the ring: allocating the ring, wrapping it and \<^verbatim>\<open>WaitForAvailableEntries\<close>
  (\<^verbatim>\<open>cmd_buffer_helper.cc\<close>), and that a command written at the put offset extends the stream.
\<close>

section \<open>Writing a command at the put offset\<close>

lemma behind_add:
  assumes "0 \<le> c" "c < n" "0 \<le> put" "0 \<le> e" "put + e \<le> n" "behind n put c + e < n"
  shows "behind n (put + e) c = behind n put c + e"
  using assms by (auto simp: behind_def)

lemma unread_behind:
  "0 \<le> c \<Longrightarrow> c < n \<Longrightarrow> 0 \<le> put \<Longrightarrow> put \<le> n \<Longrightarrow> unread (nat n) (nat put) (nat c) = nat (behind n put c)"
  by (auto simp: unread_def behind_def nat_diff_distrib nat_add_distrib)

lemma ring_entry_overwrite:
  assumes "off + length bs \<le> length mem" "4 * i + 4 \<le> off \<or> off + length bs \<le> 4 * i"
  shows "ring_entry (overwrite mem off bs) i = ring_entry mem i"
  using overwrite_other [OF assms(1), of "4 * i" 4] assms(2) by (auto simp: ring_entry_def regions_disjoint_def)

lemma stream_at_commit:
  assumes "stream_at mid (s\<lparr>sv_put_offset := put\<rparr>)" "sv_inv s" "sv_ring_buffer s = Some b"
    and "0 \<le> put" "0 < e" "put + e \<le> n" "n = sv_num_entries s" "st_get_offset (sv_state s) < n"
    and "behind n put (st_get_offset (sv_state s)) + e < n"
    and mem': "mem' = overwrite (sv_heap s ! buf_memory b) (4 * nat put) bs" "length bs \<le> 4 * nat e"
    and new: "hdr = value_header (ring_entry mem' (nat put))" "hdr_size hdr = nat e" "args_fit hdr"
      "\<forall>i \<in> set (cmd_targets (\<lambda>i. ring_entry mem' (nat put + i)) (hdr_command hdr)). \<not> names_block (sv_tbm s) (buf_memory b) i"
  shows "stream_at (token_after (\<lambda>i. ring_entry mem' (nat put + i)) (hdr_command hdr) mid)
    (s\<lparr>sv_heap := write_bytes (sv_heap s) (buf_memory b, 4 * nat put) bs, sv_put_offset := wrapped n (put + e)\<rparr>)"
proof -
  let ?get = "st_get_offset (sv_state s)" and ?mem = "sv_heap s ! buf_memory b"
  have r: "buffer_ok (sv_heap s) b" "n = int (buf_size b div 4)" "sv_buffer s = Some (buf_memory b, 0)" "0 \<le> ?get"
    using assms(2,3,7) by (auto simp: sv_inv_def ring_ok_def offsets_ok_def)
  have g: "(if nat ?get = nat n then 0 else nat ?get) = nat ?get" using assms(8) r(4) by auto
  note g = this this [unfolded assms(7)]
  from assms(1) r(3) assms(7)
  have st: "stream ?mem (names_block (sv_tbm s) (buf_memory b)) (nat n) (nat put) (nat ?get) (st_token (sv_state s)) mid"
    by (auto simp: stream_at_def streaming_from_def g)
  have len: "4 * nat put + 4 * nat e \<le> length ?mem" using r(1,2) assms(4-6) by (auto simp: buffer_ok_def)
  have same: "ring_entry mem' i = ring_entry ?mem i" if "i < nat put \<or> nat put + nat e \<le> i" for i
    unfolding mem'(1) using that len mem'(2) by (intro ring_entry_overwrite) auto
  have heap: "write_bytes (sv_heap s) (buf_memory b, 4 * nat put) bs ! buf_memory b = mem'"
    using r(1) by (simp add: write_bytes_def mem'(1) buffer_ok_def)
  have p': "nat (wrapped n (put + e)) = (if nat put + nat e = nat n then 0 else nat put + nat e)"
    using assms(4-6) by (auto simp: wrapped_def nat_add_distrib)
  have "unread (nat n) (nat put) (nat ?get) + nat e < nat n"
    using unread_behind [of ?get n put] behind_bounds [of ?get n put] assms(4-6,8,9) r(4) by auto
  then have "stream mem' (names_block (sv_tbm s) (buf_memory b)) (nat n) (nat (wrapped n (put + e))) (nat ?get)
      (st_token (sv_state s)) (token_after (\<lambda>i. ring_entry mem' (nat put + i)) (hdr_command hdr) mid)"
    by (intro stream_append [OF st _ _ _ _ _ same new p']) (use assms(4-6,8) r(4) in auto)
  then show ?thesis
    using r(3) assms(7) by (auto simp: stream_at_def streaming_from_def g heap)
qed

text \<open>The helper after a command was written and the put offset moved past it.\<close>

lemma linked_commit:
  assumes l: "linked (h\<lparr>ch_immediate_entry_count := 0\<rparr>, w)" and b: "ch_ring_buffer h = Some b"
    and e: "0 < e" "ch_put h + e \<le> ch_total_entry_count h"
      "st_error (sv_state (fst w)) = kNoError \<Longrightarrow>
         behind (ch_total_entry_count h) (ch_put h) (ch_cached_get_offset h) + e < ch_total_entry_count h"
    and mem': "mem' = overwrite (sv_heap (fst w) ! buf_memory b) (4 * nat (ch_put h)) bs" "length bs \<le> 4 * nat e"
    and new: "hdr = value_header (ring_entry mem' (nat (ch_put h)))" "hdr_size hdr = nat e" "args_fit hdr"
      "\<forall>i \<in> set (cmd_targets (\<lambda>i. ring_entry mem' (nat (ch_put h) + i)) (hdr_command hdr)).
         \<not> names_block (sv_tbm (fst w)) (buf_memory b) i"
    and t: "t = token_after (\<lambda>i. ring_entry mem' (nat (ch_put h) + i)) (hdr_command hdr) (ch_token h)" "0 \<le> t" "t < 2 ^ 31"
  shows "linked (h\<lparr>ch_put := ch_put h + e, ch_immediate_entry_count := 0, ch_token := t\<rparr>,
    store_shared (buf_memory b, 4 * nat (ch_put h)) bs w)"
proof -
  let ?s = "fst w" and ?w' = "store_shared (buf_memory b, 4 * nat (ch_put h)) bs w"
  let ?n = "ch_total_entry_count h"
  have m: "buffer_ok (sv_heap ?s) b" "ch_entries h = Some (buf_memory b, 0)" "?n = int (buf_size b div 4)"
    "0 < ?n" "sv_ring_buffer ?s = Some b" "sv_num_entries ?s = ?n"
    "st_set_get_buffer_count (sv_state ?s) = ch_set_get_buffer_count h"
    "0 \<le> ch_cached_get_offset h" "ch_cached_get_offset h < ?n" "0 \<le> ch_put h" "ch_put h \<le> ?n"
    and i: "sv_inv ?s" "decoder_inv w" "error_ok ?s" "sv_scheduled ?s" "ch_usable h"
      "ch_context_lost h \<longrightarrow> st_error (sv_state ?s) \<noteq> kNoError"
    and r: "st_error (sv_state ?s) = kNoError \<Longrightarrow> ring_linked (h\<lparr>ch_immediate_entry_count := 0\<rparr>) ?s"
    using l b by (auto simp: linked_def mem_linked_def)
  have len: "4 * nat (ch_put h) + length bs \<le> length (sv_heap ?s ! buf_memory b)"
    using m(1,3,10) e(1,2) mem'(2) by (auto simp: buffer_ok_def)
  have fr: "sv_frame ?s (fst ?w')"
    using map_length_write [of "(buf_memory b, 4 * nat (ch_put h))" bs "sv_heap ?s"] len
    by (simp add: store_shared_def sv_frame_def)
  have bo: "buffer_ok (sv_heap (fst ?w')) b"
    using buffer_ok_lengths [of "sv_heap (fst ?w')" "sv_heap ?s" b] fr m(1) by (simp add: sv_frame_def)
  have "ring_linked (h\<lparr>ch_put := ch_put h + e, ch_immediate_entry_count := 0, ch_token := t\<rparr>) (fst ?w')"
    if err: "st_error (sv_state ?s) = kNoError"
  proof -
    let ?get = "st_get_offset (sv_state ?s)"
    have rl: "?get = ch_last_ordering_barrier_put h" "sv_put_offset ?s = ch_last_ordering_barrier_put h"
      "behind ?n (ch_put h) ?get \<le> behind ?n (ch_put h) (ch_cached_get_offset h)"
      and st: "stream_at (ch_token h) (?s\<lparr>sv_put_offset := wrapped ?n (ch_put h)\<rparr>)"
      using r [OF err] by (auto simp: ring_linked_def)
    have get: "0 \<le> ?get" "?get < ?n" using i(1) m(4,6) by (auto simp: sv_inv_def offsets_ok_def)
    have be: "behind ?n (ch_put h) ?get + e < ?n" using rl(3) e(3) [OF err] by simp
    have "wrapped ?n (ch_put h) = ch_put h" using e(1,2) by (simp add: wrapped_def)
    note sc = stream_at_commit [OF st [unfolded this] i(1) m(5,10) e(1,2) m(6) [symmetric] get(2) be mem' new]
    have ba: "behind ?n (ch_put h + e) ?get = behind ?n (ch_put h) ?get + e"
      "behind ?n (ch_put h + e) (ch_cached_get_offset h) = behind ?n (ch_put h) (ch_cached_get_offset h) + e"
      using behind_add [OF get m(10) _ e(2) be] behind_add [OF m(8,9,10) _ e(2) e(3) [OF err]] e(1) by simp_all
    show ?thesis
      using rl e(3) [OF err] sc ba [unfolded rl(1)] by (simp add: ring_linked_def store_shared_def t(1))
  qed
  moreover have "mem_linked (h\<lparr>ch_put := ch_put h + e, ch_immediate_entry_count := 0, ch_token := t\<rparr>) (fst ?w')"
    using b m e(1,2) bo fr by (simp add: mem_linked_def sv_frame_def)
  moreover have "st_error (sv_state (fst ?w')) = st_error (sv_state ?s)" "sv_scheduled (fst ?w')" "snd ?w' = snd w"
    using i(4) by (simp_all add: store_shared_def)
  ultimately show ?thesis
    using i sv_inv_frame [OF fr i(1)] b t(2,3) by (simp add: linked_def error_ok_def decoder_inv_def)
qed

section \<open>Commands as entries\<close>

lemma ring_entry_stored:
  assumes "4 * put + length (concat (map StoreU32Unaligned es) @ rest) \<le> length mem" "i < length es" "es ! i < 2 ^ 32"
  shows "ring_entry (overwrite mem (4 * put) (concat (map StoreU32Unaligned es) @ rest)) (put + i) = es ! i"
proof -
  let ?bs = "concat (map StoreU32Unaligned es)"
  have "take 4 (drop (4 * put + 4 * i) (overwrite mem (4 * put) (?bs @ rest))) = take 4 (drop (4 * i) (?bs @ rest))"
    using assms(1,2) by (intro take_drop_overwrite) (simp_all only: length_append length_store_entries; linarith)+
  also have "drop (4 * i) (?bs @ rest) = StoreU32Unaligned (es ! i) @ concat (map StoreU32Unaligned (drop (Suc i) es)) @ rest"
    using assms(2) by (simp add: drop_store_entries Cons_nth_drop_Suc [symmetric])
  finally show ?thesis
    using assms(3) by (simp add: ring_entry_def add_mult_distrib2 LoadU32_take Load_Store_U32 [of _ "[]", simplified])
qed

text \<open>A common command, its entries and possibly immediate data after them, written at the put offset.\<close>

lemma linked_emit:
  assumes l: "linked (h\<lparr>ch_immediate_entry_count := 0\<rparr>, w)" and b: "ch_ring_buffer h = Some b"
    and e: "0 < e" "ch_put h + e \<le> ch_total_entry_count h"
      "st_error (sv_state (fst w)) = kNoError \<Longrightarrow>
         behind (ch_total_entry_count h) (ch_put h) (ch_cached_get_offset h) + e < ch_total_entry_count h"
    and es: "es = header_entry \<lparr>hdr_size = nat e, hdr_command = kCmdId c\<rparr> # as" "4 * length es = sizeof_command c"
      "nat e < 2 ^ 21" "\<forall>v \<in> set as. v < 2 ^ 32" "length rest + 4 * length es \<le> 4 * nat e"
    and tg: "\<forall>i \<in> set (cmd_targets (\<lambda>i. es ! i) (kCmdId c)). \<not> names_block (sv_tbm (fst w)) (buf_memory b) i"
    and t: "t = token_after (\<lambda>i. es ! i) (kCmdId c) (ch_token h)" "0 \<le> t" "t < 2 ^ 31"
  shows "linked (h\<lparr>ch_put := ch_put h + e, ch_immediate_entry_count := 0, ch_token := t\<rparr>,
    store_shared (buf_memory b, 4 * nat (ch_put h)) (concat (map StoreU32Unaligned es) @ rest) w)"
proof -
  let ?h = "\<lparr>hdr_size = nat e, hdr_command = kCmdId c\<rparr>" and ?bs = "concat (map StoreU32Unaligned es) @ rest"
  define mem' where "mem' = overwrite (sv_heap (fst w) ! buf_memory b) (4 * nat (ch_put h)) ?bs"
  have hr: "value_header (header_entry ?h) = ?h" "header_entry ?h < 2 ^ 32"
    using header_round_trip [of ?h] es(3) kCmdId_bounds(1) [of c] by simp_all
  have m: "buffer_ok (sv_heap (fst w)) b" "ch_total_entry_count h = int (buf_size b div 4)" "0 \<le> ch_put h"
    using l b by (auto simp: linked_def mem_linked_def)
  have len: "4 * nat (ch_put h) + length ?bs \<le> length (sv_heap (fst w) ! buf_memory b)" "length ?bs \<le> 4 * nat e"
    using m e(1,2) es(5) by (auto simp: buffer_ok_def)
  have v: "es ! i < 2 ^ 32" if "i < length es" for i
    using es(1,4) hr(2) that nth_mem [OF that] by auto
  have re: "ring_entry mem' (nat (ch_put h) + i) = es ! i" if "i < length es" for i
    unfolding mem'_def by (rule ring_entry_stored [OF len(1) that v [OF that]])
  have fit: "args_fit ?h" using es(2,5) by (auto simp: args_fit_def) (cases c; auto simp: COMMON_COMMAND_BUFFER_CMDS_def)
  define g where "g = \<lparr>hdr_size = length es, hdr_command = kCmdId c\<rparr>"
  have fg: "args_fit g" using es(2) by (cases c) (auto simp: args_fit_def g_def COMMON_COMMAND_BUFFER_CMDS_def)
  have cong: "cmd_targets (\<lambda>i. ring_entry mem' (nat (ch_put h) + i)) (kCmdId c) = cmd_targets (\<lambda>i. es ! i) (kCmdId c)"
    "token_after (\<lambda>i. ring_entry mem' (nat (ch_put h) + i)) (kCmdId c) tk = token_after (\<lambda>i. es ! i) (kCmdId c) tk" for tk
    using cmd_targets_cong [OF _ fg, of "\<lambda>i. ring_entry mem' (nat (ch_put h) + i)" "\<lambda>i. es ! i"] re by (simp_all add: g_def)
  have h: "?h = value_header (ring_entry mem' (nat (ch_put h)))" using re [of 0] es(1) hr(1) by simp
  show ?thesis
    by (rule linked_commit [OF l b e mem'_def len(2) h _ fit]) (use cong tg t in simp_all)
qed

section \<open>Allocating the ring\<close>

text \<open>A service that got more memory and is otherwise where it was.\<close>

definition grown :: "service \<Rightarrow> service \<Rightarrow> bool" where
  "grown s s' \<longleftrightarrow> sv_ring_buffer s' = sv_ring_buffer s \<and> sv_num_entries s' = sv_num_entries s \<and> sv_buffer s' = sv_buffer s \<and>
     sv_put_offset s' = sv_put_offset s \<and> sv_scheduled s' = sv_scheduled s \<and>
     st_get_offset (sv_state s') = st_get_offset (sv_state s) \<and> st_token (sv_state s') = st_token (sv_state s) \<and>
     st_set_get_buffer_count (sv_state s') = st_set_get_buffer_count (sv_state s) \<and> (\<exists>blks. sv_heap s' = sv_heap s @ blks)"

text \<open>A transfer buffer is created and registered, or the context is lost.\<close>

lemma Direct_CreateTransferBuffer_cases:
  fixes w :: "'x dworld"
  assumes "Direct_CreateTransferBuffer sz w = (bo, bid, w')" "sv_inv (fst w)" "error_ok (fst w)" "sz < 2 ^ 32"
  obtains (new) b where "bo = Some b" "0 < bid" "buf_size b = sz" "buf_memory b = length (sv_heap (fst w))"
      "sv_inv (fst w')" "error_ok (fst w')" "snd w' = snd w" "buffer_ok (sv_heap (fst w')) b"
      "Service_GetTransferBuffer bid (fst w') = Some b" "sv_state (fst w') = sv_state (fst w)"
      "sv_scheduled (fst w') = sv_scheduled (fst w)" "sv_put_offset (fst w') = sv_put_offset (fst w)"
      "grown (fst w) (fst w')" "length (sv_heap (fst w')) = Suc (length (sv_heap (fst w)))"
      "\<forall>k. Service_GetTransferBuffer k (fst w') = (if k = bid then Some b else Service_GetTransferBuffer k (fst w))"
  | (lost) "bo = None" "bid = -1" "sv_inv (fst w')" "error_ok (fst w')" "snd w' = snd w"
      "st_error (sv_state (fst w')) \<noteq> kNoError" "sv_scheduled (fst w') = sv_scheduled (fst w)"
      "st_set_get_buffer_count (sv_state (fst w')) = st_set_get_buffer_count (sv_state (fst w))"
      "grown (fst w) (fst w')"
proof -
  let ?s1 = "(fst w)\<lparr>sv_next_buffer_id := sv_next_buffer_id (fst w) + 1\<rparr>" and ?id = "sv_next_buffer_id (fst w) + 1"
  let ?b = "\<lparr>buf_memory = length (sv_heap (fst w)), buf_size = sz\<rparr>" and ?hp = "sv_heap (fst w) @ [replicate sz 0]"
  obtain bo1 w1 where c: "Service_CreateTransferBufferWithId Direct_client sz ?id (?s1, snd w) = (bo1, w1)"
    by (rule prod.exhaust)
  obtain ok m where r: "TransferBufferManager_RegisterTransferBuffer ?id ?b (sv_tbm (fst w)) = (ok, m)"
    by (rule prod.exhaust)
  let ?s2 = "?s1\<lparr>sv_heap := ?hp, sv_tbm := m\<rparr>"
  have i1: "sv_inv ?s1" using assms(2) by (auto simp: sv_inv_def ring_ok_def offsets_ok_def registry_ok_def split: option.splits)
  have pe: "sv_inv (fst (Service_SetParseError Direct_client kOutOfBounds v))" if "sv_inv (fst v)" for v :: "'x dworld"
    using that sv_inv_frame [of "fst v" "fst (Service_SetParseError Direct_client kOutOfBounds v)"]
    by (auto simp: Service_SetParseError_def Direct_client_def Direct_OnParseError_def sv_frame_def)
  have inv: "sv_inv (fst w1)"
    by (rule CreateTransferBufferWithId_inv [OF _ assms(4) c]) (use i1 pe in auto)
  have w1: "(bo1, w1) = (if ok then (Some ?b, (?s2, snd w))
      else (None, Service_SetParseError Direct_client kOutOfBounds (?s2, snd w)))"
    using c r by (auto simp: Service_CreateTransferBufferWithId_def MakeMemoryBuffer_def Service_RegisterTransferBuffer_def)
  have out: "(bo, bid, w') = (case bo1 of None \<Rightarrow> (None, -1, w1) | Some b \<Rightarrow> (Some b, ?id, w1))"
    using assms(1) c by (auto simp: Direct_CreateTransferBuffer_def Service_CreateTransferBuffer_def GetNextBufferId_def
        split: option.splits)
  show thesis
  proof (cases ok)
    case True
    have t: "tbm_inv (sv_tbm (fst w))" using assms(2) by (simp add: sv_inv_def registry_ok_def)
    note sp = RegisterTransferBuffer_spec [OF t r]
    from True w1 out have e: "bo = Some ?b" "bid = ?id" "w' = (?s2, snd w)" "w1 = (?s2, snd w)" by auto
    have "Service_GetTransferBuffer ?id ?s2 = Some ?b" using sp(3) [of ?id] True by (simp add: Service_GetTransferBuffer_def)
    moreover have "Service_GetTransferBuffer k ?s2 = (if k = ?id then Some ?b else Service_GetTransferBuffer k (fst w))" for k
      using sp(3) [of k] True by (auto simp: Service_GetTransferBuffer_def)
    ultimately show thesis
      using True sp(2) e inv assms(3,4) by (intro new [of ?b]) (auto simp: buffer_ok_def error_ok_def grown_def)
  next
    case False
    with w1 out have e: "bo = None" "bid = -1" "w' = Service_SetParseError Direct_client kOutOfBounds (?s2, snd w)" "w1 = w'" by auto
    then show thesis
      using inv assms(3) by (intro lost)
        (auto simp: Service_SetParseError_def Direct_client_def Direct_OnParseError_def error_ok_def IsError_def grown_def)
  qed
qed

text \<open>\<^verbatim>\<open>SetGetBuffer\<close> with a buffer, on both sides.\<close>

lemma Helper_SetGetBuffer_linked:
  fixes w :: "'x dworld"
  assumes "sv_inv (fst w)" "decoder_inv w" "error_ok (fst w)" "sv_scheduled (fst w)" "ch_usable h"
    and "Service_GetTransferBuffer bid (fst w) = Some b" "buf_size b = ch_ring_buffer_size h" "4 dvd buf_size b" "0 < buf_size b"
    and "sv_put_offset (fst w) = st_get_offset (sv_state (fst w)) \<or> st_error (sv_state (fst w)) \<noteq> kNoError"
    and "st_set_get_buffer_count (sv_state (fst w)) = ch_set_get_buffer_count h"
    and "ch_context_lost h \<longrightarrow> st_error (sv_state (fst w)) \<noteq> kNoError" "0 \<le> ch_token h" "ch_token h < 2 ^ 31"
    and "st_error (sv_state (fst w)) = kNoError \<longrightarrow> st_token (sv_state (fst w)) = ch_token h"
  shows "\<exists>h' w'. Helper_SetGetBuffer (direct k) bid (Some b) (h, w) = Inr (h', w') \<and> linked (h', w') \<and>
    ch_ring_buffer h' = Some b \<and> ch_total_entry_count h' = int (buf_size b div 4) \<and> ch_token h' = ch_token h \<and>
    ch_cached_last_token_read h' = ch_cached_last_token_read h \<and> drained (h', w') \<and>
    st_error (sv_state (fst w')) = st_error (sv_state (fst w)) \<and> ch_ring_buffer_size h' = ch_ring_buffer_size h"
proof -
  have m4: "buf_size b mod 4 = 0" using assms(8) by presburger
  let ?s1 = "(fst w)\<lparr>sv_put_offset := 0, sv_state := (sv_state (fst w))\<lparr>st_get_offset := 0,
       st_set_get_buffer_count := u32_add (st_set_get_buffer_count (sv_state (fst w))) 1\<rparr>\<rparr>"
  let ?s2 = "Service_UpdateState (?s1\<lparr>sv_num_entries := i32_of_u32 (buf_size b div 4), sv_buffer := Some (buf_memory b, 0),
       sv_ring_buffer := Some b\<rparr>)"
  have g: "Service_GetTransferBuffer bid ?s1 = Some b" using assms(6) by (simp add: Service_GetTransferBuffer_def)
  have sg: "Service_SetGetBuffer bid (fst w) = Inr ?s2"
    using assms(10) g m4 by (simp add: Service_SetGetBuffer_def Let_def dcheck_def)
  note sp = SetGetBuffer_spec [OF sg assms(1)]
  have bo: "buffer_ok (sv_heap (fst w)) b" using assms(1,6) by (auto simp: sv_inv_def intro: GetTransferBuffer_ok)
  then have sm: "buf_size b div 4 < 2 ^ 31" by (simp add: buffer_ok_def less_mult_imp_div_less)
  have n0: "0 < buf_size b div 4" using assms(8,9) by (auto elim!: dvdE)
  define h1 where "h1 = h\<lparr>ch_entries := Some (buf_memory b, 0), ch_total_entry_count := i32_of_u32 (ch_ring_buffer_size h div 4),
     ch_ring_buffer := Some b, ch_ring_buffer_id := bid, ch_set_get_buffer_count := u32_add (ch_set_get_buffer_count h) 1,
     ch_put := 0, ch_last_flush_put := 0, ch_last_ordering_barrier_put := 0, ch_cached_get_offset := 0,
     ch_service_on_old_buffer := True\<rparr>"
  have tot: "i32_of_u32 (ch_ring_buffer_size h div 4) = int (buf_size b div 4)"
    using sm assms(7) by (simp add: i32_of_u32_small)
  have f: "sv_heap ?s2 = sv_heap (fst w)" "sv_num_entries ?s2 = int (buf_size b div 4)" "sv_ring_buffer ?s2 = Some b"
    "sv_scheduled ?s2 = sv_scheduled (fst w)" "st_error (sv_state ?s2) = st_error (sv_state (fst w))"
    "st_token (sv_state ?s2) = st_token (sv_state (fst w))"
    using sm by (simp_all add: Service_UpdateState_def Let_def i32_of_u32_small)
  have st: "stream_at (ch_token h) (?s2\<lparr>sv_put_offset := 0\<rparr>)" if "st_error (sv_state (fst w)) = kNoError"
    by (rule stream_at_caught_up [OF sp(1) f(3) sp(2)]) (use that assms(15) f(6) in simp)
  have "linked (h1\<lparr>ch_immediate_entry_count := 0\<rparr>, (?s2, snd w))"
    using sp f bo n0 assms(2-5,11-14) st
    by (auto simp: linked_def mem_linked_def ring_linked_def h1_def tot wrapped_def decoder_inv_def error_ok_def)
  note l = this
  have "Helper_SetGetBuffer (direct k) bid (Some b) (h, w) = Inr (h1\<lparr>ch_immediate_entry_count := immediate 0 h1\<rparr>, (?s2, snd w))"
    using linked_Calc [OF l, of 0] sg
    by (simp add: Helper_SetGetBuffer_def CommandBufferDirect_def Direct_SetGetBuffer_def Let_def h1_def)
  moreover have "drained (h1, (?s2, snd w))" using sp f n0 assms(15) by (auto simp: drained_def h1_def tot)
  ultimately show ?thesis
    using linked_recalc [OF l, of 0] f(5) by (intro exI conjI) (assumption | simp add: h1_def tot)+
qed

text \<open>The size the helper was initialised with makes a ring.\<close>

definition ring_sized :: "helper \<Rightarrow> bool" where
  "ring_sized h \<longleftrightarrow> 4 dvd ch_ring_buffer_size h \<and> 0 < ch_ring_buffer_size h \<and> ch_ring_buffer_size h < 2 ^ 32"

lemma Helper_AllocateRingBuffer_linked:
  assumes "linked (h, w)" "ring_sized h"
  shows "\<exists>ok h' w'. Helper_AllocateRingBuffer (direct k) (h, w) = Inr (ok, (h', w')) \<and> linked (h', w') \<and>
    ch_token h' = ch_token h \<and> ch_cached_last_token_read h' = ch_cached_last_token_read h \<and>
    ch_ring_buffer_size h' = ch_ring_buffer_size h \<and> (failed w \<longrightarrow> failed w') \<and>
    (ch_ring_buffer h \<noteq> None \<longrightarrow> ok \<and> h' = h \<and> w' = w) \<and>
    (ok \<longrightarrow> ch_ring_buffer h' \<noteq> None \<and> st_error (sv_state (fst w')) = st_error (sv_state (fst w)) \<and>
       (ch_ring_buffer h = None \<longrightarrow> ch_total_entry_count h' = int (ch_ring_buffer_size h div 4) \<and> drained (h', w'))) \<and>
    (\<not> ok \<longrightarrow> ch_ring_buffer h' = None \<and> \<not> ch_usable h') \<and> (\<not> ok \<and> ch_usable h \<longrightarrow> failed w')"
proof (cases "ch_usable h \<and> ch_ring_buffer h = None")
  case False
  with assms(1) have "Helper_AllocateRingBuffer (direct k) (h, w) = Inr (ch_usable h, (h, w))"
    by (auto simp: Helper_AllocateRingBuffer_def Helper_HaveRingBuffer_def)
  with False assms(1) show ?thesis by (auto simp: linked_def)
next
  case True
  have i: "sv_inv (fst w)" "decoder_inv w" "error_ok (fst w)" "sv_scheduled (fst w)" "0 \<le> ch_token h" "ch_token h < 2 ^ 31"
    "ch_context_lost h \<longrightarrow> st_error (sv_state (fst w)) \<noteq> kNoError"
    "st_set_get_buffer_count (sv_state (fst w)) = ch_set_get_buffer_count h"
    and ok: "st_error (sv_state (fst w)) = kNoError \<longrightarrow> st_token (sv_state (fst w)) = ch_token h \<and>
       sv_put_offset (fst w) = st_get_offset (sv_state (fst w))"
    using assms(1) True by (auto simp: linked_def mem_linked_def)
  obtain bo bid w1 where c: "Direct_CreateTransferBuffer (ch_ring_buffer_size h) w = (bo, bid, w1)" by (metis surj_pair)
  have sz: "ch_ring_buffer_size h < 2 ^ 32" using assms(2) by (simp add: ring_sized_def)
  note unf = Helper_AllocateRingBuffer_def CommandBufferDirect_def Helper_HaveRingBuffer_def
  show ?thesis
  proof (rule Direct_CreateTransferBuffer_cases [OF c i(1,3) sz])
    fix b
    assume n: "bo = Some b" "0 < bid" "buf_size b = ch_ring_buffer_size h" "sv_inv (fst w1)" "error_ok (fst w1)" "snd w1 = snd w"
      "Service_GetTransferBuffer bid (fst w1) = Some b" "sv_state (fst w1) = sv_state (fst w)"
      "sv_scheduled (fst w1) = sv_scheduled (fst w)" "sv_put_offset (fst w1) = sv_put_offset (fst w)"
    obtain h' w' where s: "Helper_SetGetBuffer (direct k) bid (Some b) (h, w1) = Inr (h', w')" "linked (h', w')"
      "ch_ring_buffer h' = Some b" "ch_total_entry_count h' = int (buf_size b div 4)" "ch_token h' = ch_token h"
      "ch_cached_last_token_read h' = ch_cached_last_token_read h" "drained (h', w')"
      "st_error (sv_state (fst w')) = st_error (sv_state (fst w1))" "ch_ring_buffer_size h' = ch_ring_buffer_size h"
      using Helper_SetGetBuffer_linked [of w1 h bid b k] n i ok True assms(2)
      by (auto simp: ring_sized_def decoder_inv_def)
    have "Helper_AllocateRingBuffer (direct k) (h, w) = Inr (True, (h', w'))"
      using True c n(1,2) s(1) by (simp add: unf)
    with s n(3,8) True show ?thesis by auto
  next
    assume n: "bo = None" "bid = -1" "sv_inv (fst w1)" "error_ok (fst w1)" "snd w1 = snd w"
      "st_error (sv_state (fst w1)) \<noteq> kNoError" "sv_scheduled (fst w1) = sv_scheduled (fst w)"
      "st_set_get_buffer_count (sv_state (fst w1)) = st_set_get_buffer_count (sv_state (fst w))"
    let ?h1 = "h\<lparr>ch_usable := False, ch_context_lost := True\<rparr>"
    have "linked (?h1\<lparr>ch_immediate_entry_count := 0\<rparr>, w1)"
      using n i True by (simp add: linked_def mem_linked_def decoder_inv_def)
    moreover have "Helper_AllocateRingBuffer (direct k) (h, w) = Inr (False, (?h1\<lparr>ch_immediate_entry_count := 0\<rparr>, w1))"
      using True c n(2) by (simp add: unf Helper_CalcImmediateEntries_def)
    ultimately show ?thesis using n(6) True by (intro exI conjI) (assumption | simp)+
  qed
qed

section \<open>Wrapping the ring\<close>

text \<open>The entries a linked helper may still hand out.\<close>

lemma linked_entries:
  assumes "linked (h, w)" "ch_ring_buffer h = Some b"
  shows "ch_put h + ch_immediate_entry_count h \<le> ch_total_entry_count h"
    "\<not> failed w \<Longrightarrow> behind (ch_total_entry_count h) (ch_put h) (ch_cached_get_offset h) + ch_immediate_entry_count h
       < ch_total_entry_count h"
    "\<not> failed w \<Longrightarrow> behind (ch_total_entry_count h) (ch_put h) (ch_cached_get_offset h) < ch_total_entry_count h"
    "0 \<le> ch_put h" "ch_put h \<le> ch_total_entry_count h" "0 \<le> ch_cached_get_offset h"
    "ch_cached_get_offset h < ch_total_entry_count h" "0 < ch_total_entry_count h" "entry_address h (ch_put h) = (buf_memory b, 4 * nat (ch_put h))"
    "0 \<le> ch_token h" "ch_token h < 2 ^ 31" "ch_usable h"
  using assms by (auto simp: linked_def mem_linked_def ring_linked_def entry_address_def entry_pointer_def)

lemma linked_set_immediate:
  assumes "linked (h\<lparr>ch_immediate_entry_count := 0\<rparr>, w)" "ch_ring_buffer h \<noteq> None"
    and "ch_put h + i \<le> ch_total_entry_count h"
    and "\<not> failed w \<Longrightarrow> behind (ch_total_entry_count h) (ch_put h) (ch_cached_get_offset h) + i < ch_total_entry_count h"
  shows "linked (h\<lparr>ch_immediate_entry_count := i\<rparr>, w)"
  using assms by (auto simp: linked_def mem_linked_def ring_linked_def)

text \<open>A \<^verbatim>\<open>Noop\<close> over \<open>n\<close> entries.\<close>

lemma linked_noop:
  assumes l: "linked (h\<lparr>ch_immediate_entry_count := 0\<rparr>, w)" and b: "ch_ring_buffer h = Some b"
    and e: "0 < e" "e \<le> kMaxSize" "ch_put h + e \<le> ch_total_entry_count h"
      "\<not> failed w \<Longrightarrow> behind (ch_total_entry_count h) (ch_put h) (ch_cached_get_offset h) + e < ch_total_entry_count h"
  shows "\<exists>w'. store_command (direct k) (entry_address h (ch_put h)) (Noop_Init (u32_of_int e)) w = Inr w' \<and>
    linked (h\<lparr>ch_put := ch_put h + e, ch_immediate_entry_count := 0\<rparr>, w') \<and>
    sv_state (fst w') = sv_state (fst w)"
proof -
  let ?es = "[header_entry \<lparr>hdr_size = nat e, hdr_command = kCmdId kNoop\<rparr>]"
  have u: "u32_of_int e = nat e" "i32_of_u32 (nat e) = e"
    using e(1,2) by (simp_all add: u32_of_int_small kMaxSize_def i32_of_u32_small)
  have i: "Noop_Init (u32_of_int e) = Inr ?es"
    using e(1,2) u CommandHeader_Init_fields [of "kCmdId kNoop" e] kCmdId_bounds(1) [of kNoop] by (simp add: Noop_Init_def)
  have a: "entry_address h (ch_put h) = (buf_memory b, 4 * nat (ch_put h))"
    using linked_entries(9) [OF l] b by (simp add: entry_address_def)
  have "linked (h\<lparr>ch_put := ch_put h + e, ch_immediate_entry_count := 0, ch_token := ch_token h\<rparr>,
      store_shared (buf_memory b, 4 * nat (ch_put h)) (concat (map StoreU32Unaligned ?es) @ []) w)"
    by (rule linked_emit [OF l b e(1,3,4) refl])
      (use e(1,2) linked_entries(10,11) [OF l] b in
        \<open>auto simp: kMaxSize_def cmd_targets_def token_after_def COMMON_COMMAND_BUFFER_CMDS_def\<close>)
  then show ?thesis by (simp add: store_command_def i a CommandBufferDirect_def store_shared_def)
qed

lemma fill_noops_linked:
  assumes "linked (h\<lparr>ch_immediate_entry_count := 0\<rparr>, w)" "ch_ring_buffer h \<noteq> None"
    and "num = ch_total_entry_count h - ch_put h" "\<not> failed w \<Longrightarrow> 0 < ch_cached_get_offset h \<and> ch_cached_get_offset h \<le> ch_put h"
  shows "\<exists>w'. fill_noops (direct k) num (h, w) = Inr (h\<lparr>ch_put := ch_total_entry_count h\<rparr>, w') \<and>
    linked (h\<lparr>ch_put := ch_total_entry_count h, ch_immediate_entry_count := 0\<rparr>, w') \<and> sv_state (fst w') = sv_state (fst w)"
  using assms
proof (induction "nat num" arbitrary: num h w rule: less_induct)
  case less
  obtain b where b: "ch_ring_buffer h = Some b" using less.prems(2) by blast
  note le = linked_entries [OF less.prems(1), of b, simplified]
  show ?case
  proof (cases "0 < num")
    case False
    have "ch_put h = ch_total_entry_count h" using False less.prems(3) le(5) b by simp
    then have "h\<lparr>ch_put := ch_total_entry_count h\<rparr> = h" by (cases h) simp
    with False less.prems(1) show ?thesis by (simp add: fill_noops.simps)
  next
    case True
    define e where "e = min kMaxSize num"
    have e: "0 < e" "e \<le> kMaxSize" "e \<le> num" using True by (simp_all add: e_def kMaxSize_def)
    have be: "behind (ch_total_entry_count h) (ch_put h) (ch_cached_get_offset h) + e < ch_total_entry_count h" if "\<not> failed w"
      using less.prems(3,4) that e(3) by (auto simp: behind_def)
    have pe: "ch_put h + e \<le> ch_total_entry_count h" using e(3) less.prems(3) by simp
    obtain w1 where w1: "store_command (direct k) (entry_address h (ch_put h)) (Noop_Init (u32_of_int e)) w = Inr w1"
      "linked (h\<lparr>ch_put := ch_put h + e, ch_immediate_entry_count := 0\<rparr>, w1)" "sv_state (fst w1) = sv_state (fst w)"
      using linked_noop [OF less.prems(1) b e(1,2) pe be] by blast
    let ?h1 = "h\<lparr>ch_put := ch_put h + e\<rparr>"
    have "\<exists>w'. fill_noops (direct k) (num - e) (?h1, w1) = Inr (?h1\<lparr>ch_put := ch_total_entry_count ?h1\<rparr>, w') \<and>
      linked (?h1\<lparr>ch_put := ch_total_entry_count ?h1, ch_immediate_entry_count := 0\<rparr>, w') \<and> sv_state (fst w') = sv_state (fst w1)"
      by (rule less.hyps) (use e w1 less.prems in auto)
    with w1 True show ?thesis by (auto simp: fill_noops.simps [of _ num] e_def [symmetric])
  qed
qed

text \<open>The put offset behind the last entry and the one at the first are the same place.\<close>

lemma linked_put_zero:
  assumes "linked (h\<lparr>ch_put := ch_total_entry_count h, ch_immediate_entry_count := 0\<rparr>, w)" "ch_ring_buffer h \<noteq> None"
  shows "linked (h\<lparr>ch_put := 0, ch_immediate_entry_count := 0\<rparr>, w)"
proof -
  obtain b where b: "ch_ring_buffer h = Some b" using assms(2) by blast
  have "behind n 0 c = behind n n c" if "0 \<le> c" "c < n" "behind n n c < n" for n c
    using behind_wrapped [OF that] by (simp add: wrapped_def)
  then have "ring_linked (h\<lparr>ch_put := 0, ch_immediate_entry_count := 0\<rparr>) (fst w)"
    if "ring_linked (h\<lparr>ch_put := ch_total_entry_count h, ch_immediate_entry_count := 0\<rparr>) (fst w)"
      "0 \<le> st_get_offset (sv_state (fst w))" "st_get_offset (sv_state (fst w)) < ch_total_entry_count h"
      "0 \<le> ch_cached_get_offset h" "ch_cached_get_offset h < ch_total_entry_count h"
    using that by (auto simp: ring_linked_def wrapped_def)
  then show ?thesis
    using assms(1) b by (auto simp: linked_def mem_linked_def sv_inv_def offsets_ok_def)
qed

section \<open>Waiting for entries\<close>

text \<open>
  A helper that can hand out space: linked, with its tokens, and with a ring of the size it was
  initialised with, if it has one.
\<close>

definition ready :: "'x dworld hworld \<Rightarrow> bool" where
  "ready x \<longleftrightarrow> tokens_linked x \<and> ring_sized (fst x) \<and>
     (ch_ring_buffer (fst x) \<noteq> None \<longrightarrow> ch_total_entry_count (fst x) = int (ch_ring_buffer_size (fst x) div 4)) \<and>
     (ch_usable (fst x) \<or> failed (snd x))"

definition kept :: "helper \<Rightarrow> helper \<Rightarrow> bool" where
  "kept h h' \<longleftrightarrow> ch_token h' = ch_token h \<and> ch_ring_buffer h' = ch_ring_buffer h \<and>
     ch_total_entry_count h' = ch_total_entry_count h \<and> ch_ring_buffer_size h' = ch_ring_buffer_size h"

lemma kept_relations:
  "flushed h h' \<Longrightarrow> kept h h'" "updated s h h' \<Longrightarrow> kept h h'" "kept h h"
  "kept h h' \<Longrightarrow> kept h' h'' \<Longrightarrow> kept h h''"
  "kept h (h'\<lparr>ch_immediate_entry_count := i\<rparr>) \<longleftrightarrow> kept h h'" "kept h (h'\<lparr>ch_put := p\<rparr>) \<longleftrightarrow> kept h h'"
  by (simp_all add: kept_def flushed_def updated_def)

lemma ready_linked: "ready (h, w) \<Longrightarrow> linked (h, w)"
  by (simp add: ready_def tokens_linked_def)

lemma ready_drained:
  assumes "ready (h, w)" "linked (h', w')" "drained (h', w')" "kept h h'" "ch_usable h' = ch_usable h"
    and "failed w \<longrightarrow> failed w'" "\<not> failed w' \<Longrightarrow> ch_cached_last_token_read h' \<le> ch_token h"
  shows "ready (h', w')"
  using assms drained_tokens [OF assms(2,3)] by (auto simp: ready_def kept_def ring_sized_def)

lemma ready_immediate: "ready (h, w) \<Longrightarrow> ready (h\<lparr>ch_immediate_entry_count := immediate c h\<rparr>, w)"
  using linked_immediate [of h w c] by (auto simp: ready_def tokens_linked_def ring_sized_def)

lemma ready_recalc:
  "ready (h\<lparr>ch_immediate_entry_count := 0\<rparr>, w) \<Longrightarrow> ready (h\<lparr>ch_immediate_entry_count := immediate c h\<rparr>, w)"
  using ready_immediate [of "h\<lparr>ch_immediate_entry_count := 0\<rparr>" w c] by simp

lemma ready_Calc:
  assumes "ready (h\<lparr>ch_immediate_entry_count := 0\<rparr>, w)" "0 \<le> c"
  shows "Helper_CalcImmediateEntries c h = Inr (h\<lparr>ch_immediate_entry_count := immediate c h\<rparr>)"
  by (rule linked_Calc [OF ready_linked [OF assms(1)] assms(2)])

lemma ready_zero: "ready (h, w) \<Longrightarrow> ready (h\<lparr>ch_immediate_entry_count := 0\<rparr>, w)"
  using linked_zero [of h w] by (auto simp: ready_def tokens_linked_def ring_sized_def)

lemma ready_cached: "ready (h, w) \<Longrightarrow> \<not> failed w \<Longrightarrow> ch_cached_last_token_read h \<le> ch_token h"
  by (simp add: ready_def tokens_linked_def)

lemma FlushLazy_ready:
  assumes "ready (h, w)" "0 < k"
  shows "\<exists>h' w'. Helper_FlushLazy (direct k) (h, w) = Inr (h', w') \<and> ready (h', w') \<and> drained (h', w') \<and> flushed h h' \<and>
    (failed w \<longrightarrow> failed w') \<and> (ch_ring_buffer h \<noteq> None \<longrightarrow> ch_last_ordering_barrier_put h' = ch_put h')"
proof -
  obtain h' w' where f: "Helper_FlushLazy (direct k) (h, w) = Inr (h', w')" "linked (h', w')" "drained (h', w')" "flushed h h'"
    "failed w \<longrightarrow> failed w'" "ch_ring_buffer h \<noteq> None \<longrightarrow> ch_last_ordering_barrier_put h' = ch_put h'"
    using Helper_FlushLazy_linked [OF ready_linked [OF assms(1)] assms(2)] by blast
  have "ready (h', w')"
    by (rule ready_drained [OF assms(1) f(2,3)])
      (use f(4,5) ready_cached [OF assms(1)] kept_relations(1) [OF f(4)] in \<open>auto simp: flushed_def\<close>)
  with f show ?thesis by blast
qed

lemma Flush_ready:
  assumes "ready (h, w)" "0 < k"
  shows "\<exists>h' w'. Helper_Flush (direct k) (h, w) = Inr (h', w') \<and> ready (h', w') \<and> drained (h', w') \<and> flushed h h' \<and>
    (failed w \<longrightarrow> failed w')"
proof -
  obtain h' w' where f: "Helper_Flush (direct k) (h, w) = Inr (h', w')" "linked (h', w')" "drained (h', w')" "flushed h h'"
    "failed w \<longrightarrow> failed w'"
    using Helper_Flush_linked [OF ready_linked [OF assms(1)] assms(2)] by blast
  have "ready (h', w')"
    by (rule ready_drained [OF assms(1) f(2,3)])
      (use f(4,5) ready_cached [OF assms(1)] kept_relations(1) [OF f(4)] in \<open>auto simp: flushed_def\<close>)
  with f show ?thesis by blast
qed

text \<open>Waiting for a range of get offsets that the drained service is in.\<close>

lemma WaitForGetOffset_ready:
  assumes "ready (h, w)" "drained (h, w)" "ch_ring_buffer h \<noteq> None"
    and "0 \<le> start" "start \<le> ch_total_entry_count h" "0 \<le> stop" "stop \<le> ch_total_entry_count h"
    and "\<not> failed w \<Longrightarrow> stop = ch_put h"
  shows "\<exists>h' w'. Helper_WaitForGetOffsetInRange (direct k) start stop (h, w) = Inr (\<not> failed w', (h', w')) \<and>
    ready (h', w') \<and> updated (fst w) h h' \<and> drained (h', w') \<and> (failed w' \<longleftrightarrow> failed w)"
proof -
  have ir: "InRange start stop (st_get_offset (sv_state (fst w)))" if "st_error (sv_state (fst w)) = kNoError"
    using assms(2,3,8) that InRange_stop by (simp add: drained_def)
  obtain h' w' where g: "Helper_WaitForGetOffsetInRange (direct k) start stop (h, w) = Inr (\<not> ch_context_lost h', (h', w'))"
    "linked (h', w')" "updated (fst w) h h'" "drained (h', w')" "st_error (sv_state (fst w')) = st_error (sv_state (fst w))"
    using WaitForGetOffsetInRange_linked [OF ready_linked [OF assms(1)] assms(3-7) ir] assms(2) by blast
  have "ch_context_lost h' = failed w'" using updated_lost [OF ready_linked [OF assms(1)] g(3)] g(5) by simp
  moreover have "ready (h', w')"
    by (rule ready_drained [OF assms(1) g(2,4)])
      (use g(3,5) kept_relations(2) [OF g(3)] assms(2) in \<open>auto simp: updated_def drained_def\<close>)
  ultimately show ?thesis using g by (intro exI [of _ h'] exI [of _ w']) simp
qed

text \<open>Once the cached get offset is the put offset, everything up to the end of the ring is free.\<close>

lemma immediate_room:
  assumes "ready (h, w)" "ch_ring_buffer h \<noteq> None" "ch_cached_get_offset h = ch_put h"
    "ch_last_ordering_barrier_put h = ch_put h" "0 < c" "ch_put h + c \<le> ch_total_entry_count h" "c < ch_total_entry_count h"
  shows "c \<le> immediate c h"
proof -
  obtain b where b: "ch_ring_buffer h = Some b" using assms(2) by blast
  note le = linked_entries [OF ready_linked [OF assms(1)] b]
  have "c \<le> contiguous_entries h"
    using contiguous_entries_eq [OF le(6,7,4,5)] assms(3,6,7) by simp
  with flush_limited_caught_up [of c "contiguous_entries h" h] assms(4-6) b le(8) show ?thesis
    by (simp add: immediate_def wrapped_def)
qed

lemma wrap_ring_ready:
  assumes "ready (h, w)" "ch_ring_buffer h \<noteq> None" "0 < k" "1 \<le> ch_put h"
  shows "\<exists>ok h' w'. Helper_wrap_ring (direct k) (h, w) = Inr (ok, (h', w')) \<and> kept h h' \<and> (failed w \<longrightarrow> failed w') \<and>
    (if ok then ready (h'\<lparr>ch_immediate_entry_count := 0\<rparr>, w') \<and> ch_put h' = 0 else ready (h', w') \<and> failed w')"
proof -
  obtain b where b: "ch_ring_buffer h = Some b" using assms(2) by blast
  note le = linked_entries [OF ready_linked [OF assms(1)] b]
  have fill: "\<exists>w2. fill_noops (direct k) (ch_total_entry_count h1 - ch_put h1) (h1, w1) = Inr (h1\<lparr>ch_put := ch_total_entry_count h1\<rparr>, w2) \<and>
      ready (h1\<lparr>ch_put := 0, ch_immediate_entry_count := 0\<rparr>, w2) \<and> (failed w2 \<longleftrightarrow> failed w1)"
    if r: "ready (h1, w1)" "ch_ring_buffer h1 \<noteq> None"
      "\<not> failed w1 \<Longrightarrow> 0 < ch_cached_get_offset h1 \<and> ch_cached_get_offset h1 \<le> ch_put h1" for h1 :: helper and w1 :: "'a dworld"
  proof -
    obtain w2 where w2: "fill_noops (direct k) (ch_total_entry_count h1 - ch_put h1) (h1, w1) = Inr (h1\<lparr>ch_put := ch_total_entry_count h1\<rparr>, w2)"
      "linked (h1\<lparr>ch_put := ch_total_entry_count h1, ch_immediate_entry_count := 0\<rparr>, w2)" "sv_state (fst w2) = sv_state (fst w1)"
      using fill_noops_linked [OF linked_zero [OF ready_linked [OF r(1)]] r(2) refl r(3)] by blast
    with linked_put_zero [OF w2(2) r(2)] r(1) show ?thesis by (simp add: ready_def tokens_linked_def ring_sized_def)
  qed
  show ?thesis
  proof (cases "ch_cached_get_offset h > ch_put h \<or> ch_cached_get_offset h = 0")
    case False
    then obtain w2 where "fill_noops (direct k) (ch_total_entry_count h - ch_put h) (h, w) = Inr (h\<lparr>ch_put := ch_total_entry_count h\<rparr>, w2)"
      "ready (h\<lparr>ch_put := 0, ch_immediate_entry_count := 0\<rparr>, w2)" "failed w2 \<longleftrightarrow> failed w"
      using fill [OF assms(1,2)] le(6) by auto
    with False assms(4) kept_relations(3,6) show ?thesis by (simp add: Helper_wrap_ring_def Let_def) blast
  next
    case True
    obtain h1 w1 where f: "Helper_FlushLazy (direct k) (h, w) = Inr (h1, w1)" "ready (h1, w1)" "drained (h1, w1)" "flushed h h1"
      "failed w \<longrightarrow> failed w1" using FlushLazy_ready [OF assms(1,3)] by blast
    have k1: "kept h h1" by (rule kept_relations(1) [OF f(4)])
    then have r1: "ch_ring_buffer h1 = Some b" "ch_total_entry_count h1 = ch_total_entry_count h" using b by (simp_all add: kept_def)
    note le1 = linked_entries [OF ready_linked [OF f(2)] r1(1)]
    obtain h2 w2 where g: "Helper_WaitForGetOffsetInRange (direct k) 1 (ch_put h1) (h1, w1) = Inr (\<not> failed w2, (h2, w2))"
      "ready (h2, w2)" "updated (fst w1) h1 h2" "drained (h2, w2)" "failed w2 \<longleftrightarrow> failed w1"
      using WaitForGetOffset_ready [OF f(2,3), of 1 "ch_put h1" k] r1 le1(4,5,8) by auto
    have k2: "kept h h2" by (rule kept_relations(4) [OF k1 kept_relations(2) [OF g(3)]])
    show ?thesis
    proof (cases "failed w2")
      case failed: True
      with True assms(4) f(1) g kept_relations k2 show ?thesis by (simp add: Helper_wrap_ring_def Let_def) blast
    next
      case ok: False
      then have "\<not> failed w" using f(5) g(5) by blast
      then have "ch_put h \<noteq> ch_total_entry_count h" using le(3,7) True by (auto simp: behind_def)
      then have p: "ch_put h2 = ch_put h" using f(4) g(3) by (auto simp: flushed_def updated_def wrapped_def)
      have c: "ch_cached_get_offset h2 = ch_put h2"
        using ok g(3,4,5) r1 f(3) by (auto simp: updated_def drained_def)
      obtain w3 where "fill_noops (direct k) (ch_total_entry_count h2 - ch_put h2) (h2, w2) = Inr (h2\<lparr>ch_put := ch_total_entry_count h2\<rparr>, w3)"
        "ready (h2\<lparr>ch_put := 0, ch_immediate_entry_count := 0\<rparr>, w3)" "failed w3 \<longleftrightarrow> failed w2"
        using fill [OF g(2)] k2 b c p assms(4) by (auto simp: kept_def)
      with True ok assms(4) f(1,5) g(1,5) kept_relations(6) k2 c p show ?thesis
        by (simp add: Helper_wrap_ring_def Let_def) blast
    qed
  qed
qed

lemma wait_room_ready:
  assumes "ready (h, w)" "ch_ring_buffer h \<noteq> None" "0 < k"
    and "0 < c" "ch_put h + c \<le> ch_total_entry_count h" "c < ch_total_entry_count h"
  shows "\<exists>h' w'. Helper_wait_room (direct k) c (h, w) = Inr (h', w') \<and> ready (h', w') \<and> kept h h' \<and>
    (failed w \<longrightarrow> failed w') \<and> (c \<le> ch_immediate_entry_count h' \<or> failed w')"
proof -
  obtain h1 w1 where f: "Helper_FlushLazy (direct k) (h, w) = Inr (h1, w1)" "ready (h1, w1)" "drained (h1, w1)" "flushed h h1"
    "failed w \<longrightarrow> failed w1" "ch_last_ordering_barrier_put h1 = ch_put h1"
    using FlushLazy_ready [OF assms(1,3)] assms(2) by blast
  have k1: "kept h h1" by (rule kept_relations(1) [OF f(4)])
  have p1: "ch_put h1 = ch_put h" using f(4) assms(4,5) by (auto simp: flushed_def wrapped_def)
  let ?h2 = "h1\<lparr>ch_immediate_entry_count := immediate c h1\<rparr>"
  have r2: "ready (?h2, w1)" by (rule ready_immediate [OF f(2)])
  have calc: "Helper_CalcImmediateEntries c h1 = Inr ?h2" using ready_Calc [OF ready_zero [OF f(2)]] assms(4) by simp
  show ?thesis
  proof (cases "immediate c h1 < c")
    case False
    with f calc r2 k1 kept_relations(5) show ?thesis by (simp add: Helper_wait_room_def)
  next
    case True
    obtain b where b: "ch_ring_buffer ?h2 = Some b" using assms(2) k1 by (auto simp: kept_def)
    note le = linked_entries [OF ready_linked [OF r2] b]
    let ?start = "(ch_put h1 + c + 1) mod ch_total_entry_count h1"
    have st: "0 \<le> ?start" "?start \<le> ch_total_entry_count h1"
      using le(8) by (auto intro: less_imp_le)
    obtain h3 w3 where g: "Helper_WaitForGetOffsetInRange (direct k) ?start (ch_put h1) (?h2, w1) = Inr (\<not> failed w3, (h3, w3))"
      "ready (h3, w3)" "updated (fst w1) ?h2 h3" "drained (h3, w3)" "failed w3 \<longleftrightarrow> failed w1"
      using WaitForGetOffset_ready [OF r2, of ?start "ch_put h1" k] f(3) b st le(4,5) by auto
    have k3: "kept h h3" by (rule kept_relations(4) [OF k1]) (use g(3) in \<open>simp add: kept_def updated_def\<close>)
    let ?h4 = "h3\<lparr>ch_immediate_entry_count := immediate c h3\<rparr>"
    have calc3: "Helper_CalcImmediateEntries c h3 = Inr ?h4" using ready_Calc [OF ready_zero [OF g(2)]] assms(4) by simp
    have r4: "ready (?h4, w3)" by (rule ready_immediate [OF g(2)])
    have room: "c \<le> immediate c h3" if "\<not> failed w3"
    proof (rule immediate_room [OF g(2)])
      show "ch_cached_get_offset h3 = ch_put h3" "ch_last_ordering_barrier_put h3 = ch_put h3"
        using g(3,5) f(3,6) that b by (auto simp: updated_def drained_def)
      have "ch_put h3 = ch_put h" using g(3) p1 by (simp add: updated_def)
      then show "ch_ring_buffer h3 \<noteq> None" "ch_put h3 + c \<le> ch_total_entry_count h3" "c < ch_total_entry_count h3"
        using k3 assms(2,5,6) by (simp_all add: kept_def)
    qed (rule assms(4))
    show ?thesis
    proof (cases "failed w3")
      case failed: True
      with True f g k3 calc show ?thesis by (simp add: Helper_wait_room_def)
    next
      case ok: False
      with True f g k3 calc calc3 r4 room [OF ok] kept_relations(5) show ?thesis by (simp add: Helper_wait_room_def)
    qed
  qed
qed

lemma claim_room_ready:
  assumes "ready (h\<lparr>ch_immediate_entry_count := 0\<rparr>, w)" "ch_ring_buffer h = Some b" "0 < k"
    and "0 < c" "ch_put h + c \<le> ch_total_entry_count h" "c < ch_total_entry_count h"
  shows "\<exists>h' w'. Helper_claim_room (direct k) c (h, w) = Inr (h', w') \<and> ready (h', w') \<and> kept h h' \<and>
    (failed w \<longrightarrow> failed w') \<and> (c \<le> ch_immediate_entry_count h' \<or> failed w')"
proof -
  let ?h3 = "h\<lparr>ch_immediate_entry_count := immediate c h\<rparr>"
  have c3: "Helper_CalcImmediateEntries c h = Inr ?h3" "ready (?h3, w)"
    using ready_Calc [OF assms(1)] ready_recalc [OF assms(1)] assms(4) by simp_all
  show ?thesis
  proof (cases "immediate c h < c")
    case False
    with c3 kept_relations(3,5) show ?thesis by (simp add: Helper_claim_room_def)
  next
    case short: True
    obtain h4 w4 where rf: "Helper_RefreshCachedToken (direct k) (?h3, w) = (h4, w4)" by (rule prod.exhaust)
    note rl = RefreshCachedToken_linked [OF ready_linked [OF c3(2)] rf]
    have r4: "ready (h4, w4)"
      using updated_tokens [OF _ rl(1,2,4,5)] c3(2) rl(2,4) by (auto simp: ready_def updated_def ring_sized_def)
    let ?h5 = "h4\<lparr>ch_immediate_entry_count := immediate c h4\<rparr>"
    have c5: "Helper_CalcImmediateEntries c h4 = Inr ?h5" "ready (?h5, w4)"
      using ready_Calc [OF ready_zero [OF r4]] ready_immediate [OF r4] assms(4) by simp_all
    have u: "kept h ?h5" "ch_put ?h5 = ch_put h" using rl(2) by (simp_all add: kept_def updated_def)
    have e: "Helper_claim_room (direct k) c (h, w) =
        (if immediate c h4 < c then Helper_wait_room (direct k) c (?h5, w4) else Inr (?h5, w4))"
      using c3(1) short rf c5(1) by (simp add: Helper_claim_room_def)
    show ?thesis
    proof (cases "immediate c h4 < c")
      case False
      with e c5(2) u rl(4) show ?thesis by simp
    next
      case True
      have p: "ch_ring_buffer ?h5 \<noteq> None" "ch_put ?h5 + c \<le> ch_total_entry_count ?h5" "c < ch_total_entry_count ?h5"
        using u assms(2,5,6) by (auto simp: kept_def)
      obtain h6 w6 where
        "Helper_wait_room (direct k) c (?h5, w4) = Inr (h6, w6)" "ready (h6, w6)" "kept ?h5 h6"
        "failed w4 \<longrightarrow> failed w6" "c \<le> ch_immediate_entry_count h6 \<or> failed w6"
        using wait_room_ready [OF c5(2) p(1) assms(3,4) p(2,3)] by blast
      with True e rl(4) kept_relations(4) [OF u(1)] show ?thesis by (intro exI [of _ h6] exI [of _ w6]) auto
    qed
  qed
qed

text \<open>
  \<^verbatim>\<open>WaitForAvailableEntries\<close> returns with the entries, or in a lost context. The branch that forces a
  lost context because the entries do not suffice after waiting is never taken.
\<close>

lemma AllocateRingBuffer_ready:
  assumes "ready (h, w)"
  shows "\<exists>ok h' w'. Helper_AllocateRingBuffer (direct k) (h, w) = Inr (ok, (h', w')) \<and> ready (h', w') \<and>
    ch_token h' = ch_token h \<and> ch_ring_buffer_size h' = ch_ring_buffer_size h \<and> (failed w \<longrightarrow> failed w') \<and>
    (ok \<longrightarrow> ch_ring_buffer h' \<noteq> None) \<and> (\<not> ok \<longrightarrow> failed w')"
proof -
  have l: "linked (h, w)" "ring_sized h" "ch_usable h \<or> failed w" using assms by (simp_all add: ready_def tokens_linked_def)
  obtain ok h' w' where a: "Helper_AllocateRingBuffer (direct k) (h, w) = Inr (ok, (h', w'))" "linked (h', w')"
    "ch_token h' = ch_token h" "ch_cached_last_token_read h' = ch_cached_last_token_read h"
    "ch_ring_buffer_size h' = ch_ring_buffer_size h" "failed w \<longrightarrow> failed w'"
    "ch_ring_buffer h \<noteq> None \<longrightarrow> ok \<and> h' = h \<and> w' = w"
    "ok \<longrightarrow> ch_ring_buffer h' \<noteq> None \<and> st_error (sv_state (fst w')) = st_error (sv_state (fst w)) \<and>
       (ch_ring_buffer h = None \<longrightarrow> ch_total_entry_count h' = int (ch_ring_buffer_size h div 4) \<and> drained (h', w'))"
    "\<not> ok \<longrightarrow> ch_ring_buffer h' = None \<and> \<not> ch_usable h'" "\<not> ok \<and> ch_usable h \<longrightarrow> failed w'"
    using Helper_AllocateRingBuffer_linked [OF l(1,2), of k] by (elim exE conjE)
  have lost: "failed w'" if "\<not> ok" using a(6,10) l(3) that by blast
  have "ready (h', w')"
  proof (cases "ch_ring_buffer h = None \<and> ok")
    case True
    with a have "tokens_linked (h', w')" using drained_tokens [of h' w'] ready_cached [OF assms] by auto
    moreover have "ch_usable h'" using a(2,8) True by (auto simp: linked_def)
    ultimately show ?thesis using True a l(2) by (simp add: ready_def ring_sized_def)
  next
    case False
    show ?thesis
    proof (cases ok)
      case True
      with False a(7) assms show ?thesis by simp
    next
      case no: False
      with lost a(2,5,9) l(2) show ?thesis by (simp add: ready_def tokens_linked_def ring_sized_def)
    qed
  qed
  with a lost show ?thesis by blast
qed

lemma WaitForAvailableEntries_ready:
  assumes "ready (h, w)" "0 < k" "0 < c" "c < int (ch_ring_buffer_size h div 4)"
  shows "\<exists>h' w'. Helper_WaitForAvailableEntries (direct k) c (h, w) = Inr (h', w') \<and> ready (h', w') \<and>
    ch_token h' = ch_token h \<and> ch_ring_buffer_size h' = ch_ring_buffer_size h \<and> (failed w \<longrightarrow> failed w') \<and>
    (c \<le> ch_immediate_entry_count h' \<or> failed w')"
proof -
  obtain ok h1 w1 where a: "Helper_AllocateRingBuffer (direct k) (h, w) = Inr (ok, (h1, w1))" "ready (h1, w1)"
    "ch_token h1 = ch_token h" "ch_ring_buffer_size h1 = ch_ring_buffer_size h" "failed w \<longrightarrow> failed w1"
    "ok \<longrightarrow> ch_ring_buffer h1 \<noteq> None" "\<not> ok \<longrightarrow> failed w1"
    using AllocateRingBuffer_ready [OF assms(1), of k] by blast
  show ?thesis
  proof (cases ok)
    case False
    with a show ?thesis by (simp add: Helper_WaitForAvailableEntries_def)
  next
    case True
    with a(6) obtain b where b: "ch_ring_buffer h1 = Some b" by blast
    have n: "ch_total_entry_count h1 = int (ch_ring_buffer_size h div 4)" using a(2,4) b by (simp add: ready_def)
    have hv: "Helper_HaveRingBuffer h1 = Inr True" using linked_HaveRingBuffer [OF ready_linked [OF a(2)]] b by simp
    note le = linked_entries [OF ready_linked [OF a(2)] b]
    let ?wrap = "if ch_put h1 + c > ch_total_entry_count h1 then Helper_wrap_ring (direct k) (h1, w1) else Inr (True, (h1, w1))"
    obtain ok2 h2 w2 where v: "?wrap = Inr (ok2, (h2, w2))" "kept h1 h2" "failed w1 \<longrightarrow> failed w2"
      "if ok2 then ready (h2\<lparr>ch_immediate_entry_count := 0\<rparr>, w2) \<and> ch_put h2 + c \<le> ch_total_entry_count h2
       else ready (h2, w2) \<and> failed w2"
    proof (cases "ch_put h1 + c > ch_total_entry_count h1")
      case False
      with that [of True h1 w1] ready_zero [OF a(2)] kept_relations(3) show thesis by simp
    next
      case wrap: True
      have "1 \<le> ch_put h1" using wrap n assms(4) by linarith
      from wrap_ring_ready [OF a(2) _ assms(2) this] b obtain ok2 h2 w2 where
        "Helper_wrap_ring (direct k) (h1, w1) = Inr (ok2, (h2, w2))" "kept h1 h2" "failed w1 \<longrightarrow> failed w2"
        "if ok2 then ready (h2\<lparr>ch_immediate_entry_count := 0\<rparr>, w2) \<and> ch_put h2 = 0 else ready (h2, w2) \<and> failed w2" by blast
      with wrap that [of ok2 h2 w2] n assms(4) show thesis by (auto simp: kept_def split: if_splits)
    qed
    have tk: "ch_token h2 = ch_token h" "ch_ring_buffer_size h2 = ch_ring_buffer_size h" "ch_ring_buffer h2 = Some b"
      "ch_total_entry_count h2 = ch_total_entry_count h1" using v(2) a(3,4) b by (simp_all add: kept_def)
    show ?thesis
    proof (cases ok2)
      case False
      with a(1) True hv v a(5) tk show ?thesis by (simp add: Helper_WaitForAvailableEntries_def)
    next
      case ok2: True
      have r2: "ready (h2\<lparr>ch_immediate_entry_count := 0\<rparr>, w2)" "ch_put h2 + c \<le> ch_total_entry_count h2"
        using v(4) ok2 by simp_all
      from claim_room_ready [OF this(1) _ assms(2,3) this(2)] n assms(4) tk obtain h3 w3 where
        "Helper_claim_room (direct k) c (h2, w2) = Inr (h3, w3)" "ready (h3, w3)" "kept h2 h3"
        "failed w2 \<longrightarrow> failed w3" "c \<le> ch_immediate_entry_count h3 \<or> failed w3" by auto
      moreover have "Helper_WaitForAvailableEntries (direct k) c (h, w) = Helper_claim_room (direct k) c (h2, w2)"
        using a(1) True hv v(1) ok2 by (simp add: Helper_WaitForAvailableEntries_def)
      ultimately show ?thesis using a(5) v(3) tk by (intro exI [of _ h3] exI [of _ w3]) (auto simp: kept_def)
    qed
  qed
qed

end
