(* ===== verification/Helper_Commands.thy ===== *)
theory Helper_Commands
  imports Helper_Space
begin

text \<open>
  \<^verbatim>\<open>GetSpace\<close> and the commands the helper writes into the space (\<^verbatim>\<open>cmd_buffer_helper.{h,cc}\<close>): space is only
  handed out where the service does not read any more; the helper stays ready after every command;
  tokens count up and wrap with everything executed. Transfer buffers come and go beside it, and
  \<^verbatim>\<open>Initialize\<close> starts it.
\<close>

section \<open>Handing out space\<close>

lemma ready_commands_issued [simp]: "ready (h\<lparr>ch_commands_issued := n\<rparr>, w) \<longleftrightarrow> ready (h, w)"
  by (cases "ch_ring_buffer h") (simp_all add: ready_def tokens_linked_def linked_def mem_linked_def ring_linked_def ring_sized_def)

lemma linked_no_ring: "linked (h, w) \<Longrightarrow> ch_ring_buffer h = None \<Longrightarrow> ch_immediate_entry_count h = 0"
  by (simp add: linked_def mem_linked_def)

text \<open>
  What \<^verbatim>\<open>GetSpace\<close> returns: nothing, and the context is lost; or the address of the put offset of a
  helper \<open>h1\<close> that had the entries to give, which it then takes.
\<close>

definition space_taken :: "helper \<Rightarrow> i32 \<Rightarrow> 'x dworld \<Rightarrow> pointer \<times> helper \<Rightarrow> helper \<Rightarrow> gpu_buffer \<Rightarrow> bool" where
  "space_taken h e w' r h1 b \<longleftrightarrow> ready (h1, w') \<and> ch_token h1 = ch_token h \<and> ch_ring_buffer_size h1 = ch_ring_buffer_size h \<and>
     ch_ring_buffer h1 = Some b \<and> e \<le> ch_immediate_entry_count h1 \<and> fst r = (buf_memory b, 4 * nat (ch_put h1)) \<and>
     snd r = h1\<lparr>ch_put := ch_put h1 + e, ch_immediate_entry_count := ch_immediate_entry_count h1 - e\<rparr>"

lemma GetSpace_ready:
  assumes "ready (h, w)" "0 < k" "0 < e" "e < int (ch_ring_buffer_size h div 4)"
  shows "\<exists>p h' w'. Helper_GetSpace (direct k) due e (h, w) = Inr (p, (h', w')) \<and> (failed w \<longrightarrow> failed w') \<and>
    (case p of None \<Rightarrow> ready (h', w') \<and> failed w' \<and> ch_token h' = ch_token h \<and> ch_ring_buffer_size h' = ch_ring_buffer_size h
     | Some q \<Rightarrow> \<exists>h1 b. space_taken h e w' (q, h') h1 b)"
proof -
  let ?h0 = "h\<lparr>ch_commands_issued := ch_commands_issued h + 1\<rparr>"
  let ?check = "if ch_flush_automatically ?h0 \<and> ch_commands_issued ?h0 mod kCommandsPerFlushCheck = 0
      then Helper_PeriodicFlushCheck (direct k) due (?h0, w) else Inr (?h0, w)"
  obtain h1 w1 where c: "?check = Inr (h1, w1)" "ready (h1, w1)" "kept h h1" "failed w \<longrightarrow> failed w1"
  proof (cases "ch_flush_automatically ?h0 \<and> ch_commands_issued ?h0 mod kCommandsPerFlushCheck = 0 \<and> due")
    case True
    obtain h1 w1 where f: "Helper_Flush (direct k) (?h0, w) = Inr (h1, w1)" "ready (h1, w1)" "flushed ?h0 h1" "failed w \<longrightarrow> failed w1"
      using Flush_ready [of ?h0 w k] assms(1,2) by auto
    have "kept h h1" using f(3) by (simp add: kept_def flushed_def)
    with True f that show thesis by (simp add: Helper_PeriodicFlushCheck_def)
  next
    case False
    with that [of ?h0 w] assms(1) show thesis by (auto simp: Helper_PeriodicFlushCheck_def kept_def)
  qed
  let ?wait = "if e > ch_immediate_entry_count h1 then Helper_WaitForAvailableEntries (direct k) e (h1, w1) else Inr (h1, w1)"
  have sz: "e < int (ch_ring_buffer_size h1 div 4)" using assms(4) c(3) by (simp add: kept_def)
  obtain h2 w2 where v: "?wait = Inr (h2, w2)" "ready (h2, w2)" "ch_token h2 = ch_token h"
    "ch_ring_buffer_size h2 = ch_ring_buffer_size h" "failed w1 \<longrightarrow> failed w2" "e \<le> ch_immediate_entry_count h2 \<or> failed w2"
  proof (cases "e > ch_immediate_entry_count h1")
    case True
    with WaitForAvailableEntries_ready [OF c(2) assms(2,3) sz] that c(3) show thesis by (auto simp: kept_def)
  next
    case False
    with that [of h1 w1] c(2,3) show thesis by (simp add: kept_def)
  qed
  have eq: "Helper_GetSpace (direct k) due e (h, w) =
      (if e > ch_immediate_entry_count h2 then Inr (None, (h2, w2))
       else res_bind (Helper_take_space e h2) (\<lambda>(p, h3). Inr (p, (h3, w2))))"
    by (simp only: Helper_GetSpace_def Let_def fst_conv snd_conv c(1) v(1) res_bind_simps)
  show ?thesis
  proof (cases "e > ch_immediate_entry_count h2")
    case True
    with eq v c(4) show ?thesis by auto
  next
    case False
    then have "ch_ring_buffer h2 \<noteq> None" using linked_no_ring [OF ready_linked [OF v(2)]] assms(3) by auto
    then obtain b where b: "ch_ring_buffer h2 = Some b" by blast
    note le = linked_entries [OF ready_linked [OF v(2)] b]
    let ?h3 = "h2\<lparr>ch_put := ch_put h2 + e, ch_immediate_entry_count := ch_immediate_entry_count h2 - e\<rparr>"
    have "Helper_take_space e h2 = Inr (Some (buf_memory b, 4 * nat (ch_put h2)), ?h3)"
      using False le(1,9) by (simp add: Helper_take_space_def Let_def)
    with eq False have "Helper_GetSpace (direct k) due e (h, w) = Inr (Some (buf_memory b, 4 * nat (ch_put h2)), (?h3, w2))" by simp
    moreover have "space_taken h e w2 ((buf_memory b, 4 * nat (ch_put h2)), ?h3) h2 b"
      using False v b by (simp add: space_taken_def)
    ultimately show ?thesis using c(4) v(5) by (intro exI conjI) (assumption | auto)+
  qed
qed

text \<open>
  The space is inside the ring and is not unread: counted from the service's get offset, every
  entry of it comes at or after the client's put offset.
\<close>

lemma space_taken_safe:
  assumes "space_taken h e w' (q, h') h1 b" "0 < e"
  shows "buffer_ok (sv_heap (fst w')) b" "fst q = buf_memory b" "snd q + 4 * nat e \<le> buf_size b"
    "\<not> failed w' \<Longrightarrow> ch_put h1 \<le> i \<Longrightarrow> i < ch_put h1 + e \<Longrightarrow>
       behind (ch_total_entry_count h1) (ch_put h1) (st_get_offset (sv_state (fst w')))
         \<le> (i - st_get_offset (sv_state (fst w'))) mod ch_total_entry_count h1"
proof -
  have r: "ready (h1, w')" "ch_ring_buffer h1 = Some b" "e \<le> ch_immediate_entry_count h1"
    and q: "q = (buf_memory b, 4 * nat (ch_put h1))" using assms(1) by (simp_all add: space_taken_def)
  note l = ready_linked [OF r(1)] and le = linked_entries [OF ready_linked [OF r(1)] r(2)]
  from l r(2) have m: "buffer_ok (sv_heap (fst w')) b" "ch_total_entry_count h1 = int (buf_size b div 4)"
    by (auto simp: linked_def mem_linked_def)
  show "buffer_ok (sv_heap (fst w')) b" "fst q = buf_memory b" using m q by simp_all
  show "snd q + 4 * nat e \<le> buf_size b" using q le(1,4) m(2) r(3) assms(2) by auto
  assume ok: "\<not> failed w'" and i: "ch_put h1 \<le> i" "i < ch_put h1 + e"
  let ?n = "ch_total_entry_count h1" and ?get = "st_get_offset (sv_state (fst w'))"
  have g: "0 \<le> ?get" "?get < ?n" "behind ?n (ch_put h1) ?get \<le> behind ?n (ch_put h1) (ch_cached_get_offset h1)"
    using l r(2) ok by (auto simp: linked_def sv_inv_def offsets_ok_def mem_linked_def ring_linked_def)
  have b: "0 \<le> behind ?n (ch_put h1) ?get" "behind ?n (ch_put h1) ?get + (i - ch_put h1) < ?n"
    using behind_bounds [OF g(1,2) le(4,5)] le(2) [OF ok] g(3) r(3) i(2) by linarith+
  have "(i - ?get) mod ?n = (behind ?n (ch_put h1) ?get + (i - ch_put h1)) mod ?n"
    by (simp add: behind_def) (simp add: algebra_simps flip: mod_add_self2 [of "i - ?get"])
  also have "\<dots> = behind ?n (ch_put h1) ?get + (i - ch_put h1)" using b i(1) by (intro mod_pos_pos_trivial) linarith+
  finally show "behind ?n (ch_put h1) ?get \<le> (i - ?get) mod ?n" using i(1) by simp
qed

section \<open>Commands in the space\<close>

text \<open>A common command written into the space that was taken for it.\<close>

lemma space_taken_emit:
  assumes sp: "space_taken h e w (q, h') h1 b" and "0 < e"
    and es: "es = header_entry \<lparr>hdr_size = nat e, hdr_command = kCmdId c\<rparr> # as" "4 * length es = sizeof_command c"
      "nat e < 2 ^ 21" "\<forall>v \<in> set as. v < 2 ^ 32" "length rest + 4 * length es \<le> 4 * nat e"
    and tg: "\<forall>i \<in> set (cmd_targets (\<lambda>i. es ! i) (kCmdId c)). \<not> names_block (sv_tbm (fst w)) (buf_memory b) i"
    and t: "t = token_after (\<lambda>i. es ! i) (kCmdId c) (ch_token h)" "0 \<le> t" "t < 2 ^ 31"
  shows "linked (h'\<lparr>ch_token := t\<rparr>, store_shared q (concat (map StoreU32Unaligned es) @ rest) w)"
proof -
  have r: "ready (h1, w)" "ch_ring_buffer h1 = Some b" "e \<le> ch_immediate_entry_count h1" "ch_token h1 = ch_token h"
    and q: "q = (buf_memory b, 4 * nat (ch_put h1))"
    and h': "h' = h1\<lparr>ch_put := ch_put h1 + e, ch_immediate_entry_count := ch_immediate_entry_count h1 - e\<rparr>"
    using sp by (simp_all add: space_taken_def)
  note l = ready_linked [OF r(1)]
  note le = linked_entries [OF l r(2)]
  let ?n = "ch_total_entry_count h1" and ?bs = "concat (map StoreU32Unaligned es) @ rest"
  have pe: "ch_put h1 + e \<le> ?n" using le(1) r(3) by simp
  have be: "behind ?n (ch_put h1) (ch_cached_get_offset h1) + e < ?n" if "st_error (sv_state (fst w)) = kNoError"
    using le(2) that r(3) by simp
  have t1: "t = token_after (\<lambda>i. es ! i) (kCmdId c) (ch_token h1)" using t(1) r(4) by simp
  let ?h2 = "h1\<lparr>ch_put := ch_put h1 + e, ch_token := t\<rparr>" and ?w2 = "store_shared q ?bs w"
  have z: "linked (h1\<lparr>ch_put := ch_put h1 + e, ch_immediate_entry_count := 0, ch_token := t\<rparr>, ?w2)"
    unfolding q by (rule linked_emit [OF linked_zero [OF l] r(2) assms(2) pe be es tg t1 t(2,3)])
  have eq: "h1\<lparr>ch_put := ch_put h1 + e, ch_immediate_entry_count := 0, ch_token := t\<rparr> = ?h2\<lparr>ch_immediate_entry_count := 0\<rparr>"
    "h'\<lparr>ch_token := t\<rparr> = ?h2\<lparr>ch_immediate_entry_count := ch_immediate_entry_count h1 - e\<rparr>" by (simp_all add: h')
  have f2: "failed ?w2 \<longleftrightarrow> failed w" by (simp add: store_shared_def)
  have ba: "behind ?n (ch_put h1 + e) (ch_cached_get_offset h1) = behind ?n (ch_put h1) (ch_cached_get_offset h1) + e" if "\<not> failed w"
    using behind_add [OF le(6,7,4) _ pe be] assms(2) that by simp
  show ?thesis
    unfolding eq(2) by (rule linked_set_immediate [OF z [unfolded eq(1)]]) (use r(2,3) le(1,2) ba f2 in auto)
qed

text \<open>A command that is not a token: the helper is ready again.\<close>

lemma emit_ready:
  assumes "ready (h, w)" "0 < k" "c \<noteq> kSetToken" "e = int (sizeof_command c div 4)" "e < int (ch_ring_buffer_size h div 4)"
    and "init = Inr es" "es = header_entry \<lparr>hdr_size = sizeof_command c div 4, hdr_command = kCmdId c\<rparr> # as"
      "4 * length es = sizeof_command c" "\<forall>v \<in> set as. v < 2 ^ 32" "cmd_targets (\<lambda>i. es ! i) (kCmdId c) = []"
  shows "\<exists>h' w'. emit (direct k) (Helper_GetSpace (direct k) due e (h, w)) init = Inr (h', w') \<and> ready (h', w') \<and>
    ch_token h' = ch_token h \<and> (failed w \<longrightarrow> failed w')"
proof -
  have e0: "0 < e" "nat e = sizeof_command c div 4" "nat e < 2 ^ 21"
    using assms(4,7,8) by (cases c; simp)+
  obtain p h' w' where g: "Helper_GetSpace (direct k) due e (h, w) = Inr (p, (h', w'))" "failed w \<longrightarrow> failed w'"
    "case p of None \<Rightarrow> ready (h', w') \<and> failed w' \<and> ch_token h' = ch_token h \<and> ch_ring_buffer_size h' = ch_ring_buffer_size h
     | Some q \<Rightarrow> \<exists>h1 b. space_taken h e w' (q, h') h1 b"
    using GetSpace_ready [OF assms(1,2) e0(1) assms(5), of due] by blast
  show ?thesis
  proof (cases p)
    case None
    with g show ?thesis by (simp add: emit_def)
  next
    case (Some q)
    with g(3) obtain h1 b where sp: "space_taken h e w' (q, h') h1 b" by auto
    let ?w2 = "store_shared q (concat (map StoreU32Unaligned es) @ []) w'"
    have tk: "0 \<le> ch_token h" "ch_token h < 2 ^ 31" using ready_linked [OF assms(1)] by (simp_all add: linked_def)
    have len: "length es = nat e" using assms(8) by (simp add: e0(2) flip: assms(8))
    have ta: "ch_token h = token_after (\<lambda>i. es ! i) (kCmdId c) (ch_token h)"
      using assms(3) by (cases c) (simp_all add: token_after_def)
    have l: "linked (h'\<lparr>ch_token := ch_token h\<rparr>, ?w2)"
      by (rule space_taken_emit [OF sp e0(1) assms(7) [folded e0(2)] assms(8) e0(3) assms(9) _ _ ta tk])
        (use len assms(10) in auto)
    have h': "h'\<lparr>ch_token := ch_token h\<rparr> = h'" "ch_token h' = ch_token h"
      and f: "sv_state (fst ?w2) = sv_state (fst w')" using sp by (auto simp: space_taken_def store_shared_def)
    have "ready (h', ?w2)"
      using sp l f unfolding h'(1) by (auto simp: space_taken_def ready_def tokens_linked_def ring_sized_def)
    moreover have "emit (direct k) (Helper_GetSpace (direct k) due e (h, w)) init = Inr (h', ?w2)"
      using g(1) Some assms(6) by (simp add: emit_def store_command_def CommandBufferDirect_def)
    ultimately show ?thesis using h'(2) g(2) f by (intro exI [of _ h'] exI [of _ ?w2]) simp
  qed
qed

text \<open>The commands of the helper that do not name memory for the service to write to.\<close>

lemma Helper_SetBucketSize_ready:
  assumes "ready (h, w)" "0 < k" "3 < int (ch_ring_buffer_size h div 4)" "bucket_id < 2 ^ 32" "sz < 2 ^ 32"
  shows "\<exists>h' w'. Helper_SetBucketSize (direct k) due bucket_id sz (h, w) = Inr (h', w') \<and> ready (h', w') \<and>
    ch_token h' = ch_token h \<and> (failed w \<longrightarrow> failed w')"
proof -
  have n: "i32_of_u32 (ComputeNumEntries (sizeof_command kSetBucketSize)) = 3"
    by (simp add: ComputeNumEntries_def i32_of_u32_def)
  show ?thesis
    unfolding Helper_SetBucketSize_def Helper_GetCmdSpace_def n
    by (rule emit_ready [OF assms(1,2), of kSetBucketSize, where as = "[bucket_id, sz]"])
      (use assms(3-5) in \<open>auto simp: SetBucketSize_Init_def CommandHeader_SetCmd_fields cmd_targets_def\<close>)
qed

lemma Helper_SetBucketData_ready:
  assumes "ready (h, w)" "0 < k" "6 < int (ch_ring_buffer_size h div 4)" "\<forall>v \<in> {bid, off, sz, shm, shm_off}. v < 2 ^ 32"
  shows "\<exists>h' w'. Helper_SetBucketData (direct k) due bid off sz shm shm_off (h, w) = Inr (h', w') \<and> ready (h', w') \<and>
    ch_token h' = ch_token h \<and> (failed w \<longrightarrow> failed w')"
proof -
  have n: "i32_of_u32 (ComputeNumEntries (sizeof_command kSetBucketData)) = 6"
    by (simp add: ComputeNumEntries_def i32_of_u32_def)
  show ?thesis
    unfolding Helper_SetBucketData_def Helper_GetCmdSpace_def n
    by (rule emit_ready [OF assms(1,2), of kSetBucketData, where as = "[bid, off, sz, shm, shm_off]"])
      (use assms(3,4) in \<open>auto simp: SetBucketData_Init_def CommandHeader_SetCmd_fields cmd_targets_def\<close>)
qed

section \<open>Inserting tokens\<close>

text \<open>\<^verbatim>\<open>Finish\<close> on a helper with something to execute.\<close>

lemma Finish_pending:
  assumes "linked (h, w)" "ch_ring_buffer h = Some b" "0 < k" "\<not> failed w"
    "ch_put h \<noteq> ch_cached_get_offset h \<or> ch_service_on_old_buffer h"
  shows "\<exists>h' w'. Helper_Finish (direct k) (h, w) = Inr (\<not> failed w', (h', w')) \<and> linked (h', w') \<and> drained (h', w') \<and>
    kept h h' \<and> ch_usable h' = ch_usable h \<and> ch_cached_last_token_read h' = st_token (sv_state (fst w'))"
proof -
  obtain h1 w1 where f: "Helper_FlushLazy (direct k) (h, w) = Inr (h1, w1)" "linked (h1, w1)" "drained (h1, w1)" "flushed h h1"
    using Helper_FlushLazy_linked [OF assms(1,3)] by blast
  have b1: "ch_ring_buffer h1 = Some b" "ch_usable h1 = ch_usable h" using f(4) assms(2) by (simp_all add: flushed_def)
  note le = linked_entries [OF f(2) b1(1)]
  have ir: "InRange (ch_put h1) (ch_put h1) (st_get_offset (sv_state (fst w1)))" if "st_error (sv_state (fst w1)) = kNoError"
    using f(3) b1 that InRange_stop by (simp add: drained_def)
  obtain h2 w2 where g: "Helper_WaitForGetOffsetInRange (direct k) (ch_put h1) (ch_put h1) (h1, w1) = Inr (\<not> ch_context_lost h2, (h2, w2))"
    "linked (h2, w2)" "updated (fst w1) h1 h2" "drained (h2, w2)" "st_error (sv_state (fst w2)) = st_error (sv_state (fst w1))"
    "st_token (sv_state (fst w2)) = st_token (sv_state (fst w1))"
    using WaitForGetOffsetInRange_linked [OF f(2) _ le(4,5,4,5) ir] f(3) b1(1) by blast
  have lost: "ch_context_lost h2 \<longleftrightarrow> failed w2" using updated_lost [OF f(2) g(3)] g(5) by simp
  have k2: "kept h h2" "ch_usable h2 = ch_usable h"
    using kept_relations(4) [OF kept_relations(1) [OF f(4)] kept_relations(2) [OF g(3)]] g(3) b1 by (simp_all add: updated_def)
  have c2: "ch_cached_last_token_read h2 = st_token (sv_state (fst w2))" using g(3,6) by (simp add: updated_def)
  have eq: "Helper_Finish (direct k) (h, w) = (if failed w2 then Inr (False, (h2, w2))
      else dcheck (ch_cached_get_offset h2 = ch_put h2) (res_bind (Helper_CalcImmediateEntries 0 h2) (\<lambda>h. Inr (True, (h, w2)))))"
    using assms(5) f(1) g(1) lost by (auto simp: Helper_Finish_def)
  show ?thesis
  proof (cases "failed w2")
    case True
    with eq g(2,4) k2 c2 show ?thesis by (intro exI [of _ h2] exI [of _ w2]) simp
  next
    case False
    have "ch_cached_get_offset h2 = ch_put h2" using False g(3,5) f(3) b1 by (auto simp: updated_def drained_def)
    with eq False linked_Calc [OF linked_zero [OF g(2)], of 0]
    have "Helper_Finish (direct k) (h, w) = Inr (True, (h2\<lparr>ch_immediate_entry_count := immediate 0 h2\<rparr>, w2))" by simp
    with False linked_immediate [OF g(2)] g(4) k2 c2 kept_relations(5) show ?thesis
      by (intro exI [of _ "h2\<lparr>ch_immediate_entry_count := immediate 0 h2\<rparr>"] exI [of _ w2]) simp
  qed
qed

text \<open>The token command in its space: linked with the new token.\<close>

text \<open>A helper that has seen the get offset reach the put offset has nothing pending.\<close>

lemma caught_up_drained:
  assumes "linked (h, w)" "ch_ring_buffer h = Some b" "ch_put h = ch_cached_get_offset h"
  shows "drained (h, w)"
proof (cases "failed w")
  case True
  then show ?thesis by (simp add: drained_def)
next
  case False
  let ?g = "st_get_offset (sv_state (fst w))"
  have l: "ring_linked h (fst w)" "sv_inv (fst w)" "mem_linked h (fst w)" using assms(1,2) False by (auto simp: linked_def)
  have r: "sv_num_entries (fst w) = ch_total_entry_count h" "ch_cached_get_offset h < ch_total_entry_count h" "0 \<le> ch_put h"
    "0 < ch_total_entry_count h" using l(3) assms(2) by (simp_all add: mem_linked_def)
  have "0 \<le> ?g" "?g < ch_total_entry_count h" using l(2) r by (auto simp: sv_inv_def offsets_ok_def)
  moreover have "behind (ch_total_entry_count h) (ch_put h) ?g \<le> 0"
    using l(1) assms(3) unfolding ring_linked_def by (metis behind_self)
  ultimately have g: "?g = ch_put h" using r(3) by (auto simp: behind_def split: if_splits)
  have "stream_at (ch_token h) ((fst w)\<lparr>sv_put_offset := ch_put h\<rparr>)"
    using l(1) r(2) assms(3) by (simp add: ring_linked_def wrapped_def)
  moreover have "nat (ch_cached_get_offset h) \<noteq> nat (ch_total_entry_count h)" using r(2,4) by simp
  ultimately have "st_token (sv_state (fst w)) = ch_token h"
    using g r assms(3) by (auto simp: stream_at_def streaming_from_def dest!: stream_at_put)
  with g r(2) assms(3) show ?thesis by (simp add: drained_def)
qed

lemma Finish_returns:
  assumes "linked (h, w)" "ch_ring_buffer h = Some b" "0 < k" "\<not> failed w"
  shows "\<exists>h' w'. Helper_Finish (direct k) (h, w) = Inr (\<not> failed w', (h', w')) \<and> linked (h', w') \<and> drained (h', w') \<and> ch_token h' = ch_token h"
proof (cases "ch_put h \<noteq> ch_cached_get_offset h \<or> ch_service_on_old_buffer h")
  case True
  from Finish_pending [OF assms True] show ?thesis by (auto simp: kept_def)
next
  case False
  then have "Helper_Finish (direct k) (h, w) = Inr (\<not> ch_context_lost h, (h, w))" by (simp add: Helper_Finish_def)
  moreover have "\<not> ch_context_lost h" using assms(1,4) by (simp add: linked_lost)
  ultimately show ?thesis using caught_up_drained [OF assms(1,2)] False assms(1,4) by (intro exI [of _ h] exI [of _ w]) simp
qed

lemma SetToken_linked:
  assumes "space_taken h 2 w (q, h') h1 b" "0 \<le> t" "t < 2 ^ 31"
  shows "\<exists>w'. store_command (direct k) q (SetToken_Init (u32_of_int t)) w = Inr w' \<and>
    linked (h'\<lparr>ch_token := t\<rparr>, w') \<and> sv_state (fst w') = sv_state (fst w)"
proof -
  let ?es = "[header_entry \<lparr>hdr_size = 2, hdr_command = kCmdId kSetToken\<rparr>, u32_of_int t]"
  have u: "u32_of_int t = nat t" "i32_of_u32 (nat t) = t" using assms(2,3) by (simp_all add: u32_of_int_small i32_of_u32_small)
  have "linked (h'\<lparr>ch_token := t\<rparr>, store_shared q (concat (map StoreU32Unaligned ?es) @ []) w)"
    by (rule space_taken_emit [OF assms(1), where c = kSetToken and as = "[u32_of_int t]"])
      (use assms(2,3) u in \<open>auto simp: cmd_targets_def token_after_def\<close>)
  then show ?thesis
    by (simp add: store_command_def SetToken_Init_def CommandHeader_SetCmd_fields CommandBufferDirect_def store_shared_def)
qed

lemma GetCmdSpace_SetToken:
  assumes "ready (h, w)" "0 < k" "2 < int (ch_ring_buffer_size h div 4)"
  shows "\<exists>p h' w'. Helper_GetCmdSpace (direct k) due kSetToken (h, w) = Inr (p, (h', w')) \<and> (failed w \<longrightarrow> failed w') \<and>
    (case p of None \<Rightarrow> ready (h', w') \<and> failed w' \<and> ch_token h' = ch_token h \<and> ch_ring_buffer_size h' = ch_ring_buffer_size h
     | Some q \<Rightarrow> \<exists>h1 b. space_taken h 2 w' (q, h') h1 b)"
proof -
  have n: "i32_of_u32 (ComputeNumEntries (sizeof_command kSetToken)) = 2" by (simp add: ComputeNumEntries_def i32_of_u32_def)
  show ?thesis unfolding Helper_GetCmdSpace_def n by (rule GetSpace_ready [OF assms(1,2) _ assms(3)]) simp
qed

text \<open>\<^verbatim>\<open>InsertToken\<close> while the counter does not wrap: the next token, unless the context is lost.\<close>

lemma InsertToken_ready:
  assumes "ready (h, w)" "0 < k" "2 < int (ch_ring_buffer_size h div 4)" "ch_token h + 1 < 2 ^ 31"
  shows "\<exists>t h' w'. Helper_InsertToken (direct k) due (h, w) = Inr (t, (h', w')) \<and> ready (h', w') \<and> (failed w \<longrightarrow> failed w') \<and>
    ch_token h' = t \<and> (t = ch_token h + 1 \<or> t = ch_token h \<and> failed w')"
proof -
  obtain p h1 w1 where g: "Helper_GetCmdSpace (direct k) due kSetToken (h, w) = Inr (p, (h1, w1))" "failed w \<longrightarrow> failed w1"
    "case p of None \<Rightarrow> ready (h1, w1) \<and> failed w1 \<and> ch_token h1 = ch_token h \<and> ch_ring_buffer_size h1 = ch_ring_buffer_size h
     | Some q \<Rightarrow> \<exists>h2 b. space_taken h 2 w1 (q, h1) h2 b"
    using GetCmdSpace_SetToken [OF assms(1-3), of due] by blast
  show ?thesis
  proof (cases p)
    case None
    with g show ?thesis by (simp add: Helper_InsertToken_def)
  next
    case (Some q)
    with g(3) obtain h2 b where sp: "space_taken h 2 w1 (q, h1) h2 b" by auto
    have tk: "0 \<le> ch_token h" using ready_linked [OF assms(1)] by (simp add: linked_def)
    let ?t = "ch_token h + 1"
    have t: "(ch_token h1 + 1) mod 2 ^ 31 = ?t" "?t \<noteq> 0" using sp assms(4) tk by (auto simp: space_taken_def)
    obtain w2 where w2: "store_command (direct k) q (SetToken_Init (u32_of_int ?t)) w1 = Inr w2"
      "linked (h1\<lparr>ch_token := ?t\<rparr>, w2)" "sv_state (fst w2) = sv_state (fst w1)"
      using SetToken_linked [OF sp, of ?t k] tk assms(4) by auto
    have "ready (h1\<lparr>ch_token := ?t\<rparr>, w2)"
      using sp w2(2,3) by (auto simp: space_taken_def ready_def tokens_linked_def ring_sized_def)
    moreover have "Helper_InsertToken (direct k) due (h, w) = Inr (?t, (h1\<lparr>ch_token := ?t\<rparr>, w2))"
      using g(1) Some w2(1) t by (simp add: Helper_InsertToken_def Let_def)
    ultimately show ?thesis
      using g(2) w2(3) by (intro exI [of _ ?t] exI [of _ "h1\<lparr>ch_token := ?t\<rparr>"] exI [of _ w2]) simp
  qed
qed

text \<open>
  \<^verbatim>\<open>InsertToken\<close> when the counter wraps: it finishes, so that no token from before is still awaited,
  and its assertion on the last token read holds.
\<close>

lemma InsertToken_wraps:
  assumes "ready (h, w)" "0 < k" "2 < int (ch_ring_buffer_size h div 4)" "ch_token h = 2 ^ 31 - 1"
    and "Helper_GetCmdSpace (direct k) due kSetToken (h, w) = Inr (p, y)" "\<not> failed (snd y)"
  shows "\<exists>h' w'. Helper_InsertToken (direct k) due (h, w) = Inr (0, (h', w')) \<and> ready (h', w') \<and> ch_token h' = 0 \<and>
    (\<not> failed w' \<longrightarrow> ch_cached_last_token_read h' = 0 \<and> st_token (sv_state (fst w')) = 0)"
proof -
  obtain h1 w1 where y: "y = (h1, w1)" by (rule prod.exhaust)
  obtain q h2 b where p: "p = Some q" and sp: "space_taken h 2 w1 (q, h1) h2 b"
    using GetCmdSpace_SetToken [OF assms(1-3), of due] assms(5,6) y by (auto split: option.splits)
  have t: "(ch_token h1 + 1) mod 2 ^ 31 = 0" using sp assms(4) by (auto simp: space_taken_def)
  obtain w2 where w2: "store_command (direct k) q (SetToken_Init (u32_of_int 0)) w1 = Inr w2"
    "linked (h1\<lparr>ch_token := 0\<rparr>, w2)" "sv_state (fst w2) = sv_state (fst w1)"
    using SetToken_linked [OF sp, of 0 k] by auto
  let ?h2 = "h1\<lparr>ch_token := 0\<rparr>"
  have r: "ready (h2, w1)" "ch_ring_buffer h2 = Some b" "2 \<le> ch_immediate_entry_count h2" "ch_ring_buffer h1 = Some b"
    "ch_put h1 = ch_put h2 + 2" "ch_cached_get_offset h1 = ch_cached_get_offset h2" "ch_total_entry_count h1 = ch_total_entry_count h2"
    using sp by (simp_all add: space_taken_def)
  note le = linked_entries [OF ready_linked [OF r(1)] r(2)]
  have ok: "\<not> failed w1" "\<not> failed w2" using assms(6) y w2(3) by simp_all
  have ne: "ch_put h1 \<noteq> ch_cached_get_offset h1"
    using le(2) [OF ok(1)] le(4,6) r(3,5,6) by (auto simp: behind_def split: if_splits)
  obtain h3 w3 where f: "Helper_Finish (direct k) (?h2, w2) = Inr (\<not> failed w3, (h3, w3))" "linked (h3, w3)" "drained (h3, w3)"
    "kept ?h2 h3" "ch_usable h3 = ch_usable h1" "ch_cached_last_token_read h3 = st_token (sv_state (fst w3))"
    using Finish_pending [OF w2(2) _ assms(2) ok(2)] r(4) ne by auto
  have z: "ch_cached_last_token_read h3 = 0" "st_token (sv_state (fst w3)) = 0" if "\<not> failed w3"
    using f(3,4,6) that by (simp_all add: drained_def kept_def)
  have "ready (h3, w3)"
    using drained_tokens [OF f(2,3)] z f(2,4,5) sp
    by (auto simp: ready_def kept_def space_taken_def ring_sized_def linked_def)
  moreover have "Helper_InsertToken (direct k) due (h, w) = Inr (0, (h3, w3))"
    using assms(5) y p w2(1) t f(1,4) z by (simp add: Helper_InsertToken_def Let_def kept_def)
  ultimately show ?thesis using z f(4) by (intro exI [of _ h3] exI [of _ w3]) (simp add: kept_def)
qed

section \<open>Creating and destroying transfer buffers\<close>

lemma stream_mono:
  assumes "stream mem named n put pos tok final" "\<And>i. named' i \<Longrightarrow> named i"
  shows "stream mem named' n put pos tok final"
  using assms(1) by induction (use assms(2) in \<open>auto intro: stream.intros\<close>)

text \<open>A linked helper stays linked when the service gets memory, or fewer ids name the ring.\<close>

lemma linked_grown:
  assumes l: "linked (h, w)" and g: "grown (fst w) (fst w')" "sv_inv (fst w')" "error_ok (fst w')" "snd w' = snd w" "failed w \<longrightarrow> failed w'"
    and nb: "\<And>b i. \<not> failed w' \<Longrightarrow> sv_ring_buffer (fst w) = Some b \<Longrightarrow> names_block (sv_tbm (fst w')) (buf_memory b) i \<Longrightarrow>
      names_block (sv_tbm (fst w)) (buf_memory b) i"
  shows "linked (h, w')"
proof -
  obtain blks where hp: "sv_heap (fst w') = sv_heap (fst w) @ blks" using g(1) by (auto simp: grown_def)
  have s: "sv_ring_buffer (fst w') = sv_ring_buffer (fst w)" "sv_num_entries (fst w') = sv_num_entries (fst w)"
    "sv_buffer (fst w') = sv_buffer (fst w)" "sv_put_offset (fst w') = sv_put_offset (fst w)" "sv_scheduled (fst w') = sv_scheduled (fst w)"
    "st_get_offset (sv_state (fst w')) = st_get_offset (sv_state (fst w))" "st_token (sv_state (fst w')) = st_token (sv_state (fst w))"
    "st_set_get_buffer_count (sv_state (fst w')) = st_set_get_buffer_count (sv_state (fst w))" using g(1) by (simp_all add: grown_def)
  have i: "sv_inv (fst w)" "decoder_inv w" "sv_scheduled (fst w)" "ch_usable h \<or> ch_ring_buffer h = None" "mem_linked h (fst w)"
    "ch_context_lost h \<longrightarrow> failed w" "0 \<le> ch_token h" "ch_token h < 2 ^ 31"
    and ok: "\<not> failed w \<Longrightarrow> (if ch_ring_buffer h = None then st_token (sv_state (fst w)) = ch_token h \<and>
       sv_put_offset (fst w) = st_get_offset (sv_state (fst w)) else ring_linked h (fst w))"
    using l by (auto simp: linked_def)
  have m: "mem_linked h (fst w')"
    using i(5) s hp by (auto simp: mem_linked_def buffer_ok_def nth_append split: option.splits)
  have "ring_linked h (fst w')" if e: "\<not> failed w'" and r: "ch_ring_buffer h = Some b" and rl: "ring_linked h (fst w)" for b
  proof -
    have rb: "sv_ring_buffer (fst w) = Some b" "buffer_ok (sv_heap (fst w)) b" using i(5) r by (simp_all add: mem_linked_def)
    then have bf: "sv_buffer (fst w) = Some (buf_memory b, 0)" "buf_memory b < length (sv_heap (fst w))"
      using i(1) by (auto simp: sv_inv_def ring_ok_def buffer_ok_def)
    have "stream_at (ch_token h) ((fst w')\<lparr>sv_put_offset := p\<rparr>)" if "stream_at (ch_token h) ((fst w)\<lparr>sv_put_offset := p\<rparr>)" for p
    proof -
      have un: "stream_at f (t\<lparr>sv_put_offset := p\<rparr>) \<longleftrightarrow> stream (sv_heap t ! buf_memory b) (names_block (sv_tbm t) (buf_memory b))
          (nat (sv_num_entries t)) (nat p) (if nat (st_get_offset (sv_state t)) = nat (sv_num_entries t) then 0
            else nat (st_get_offset (sv_state t))) (st_token (sv_state t)) f"
        if "sv_buffer t = Some (buf_memory b, 0)" for t f using that by (simp add: stream_at_def streaming_from_def)
      have mem: "sv_heap (fst w') ! buf_memory b = sv_heap (fst w) ! buf_memory b" using hp bf(2) by (simp add: nth_append)
      have bf': "sv_buffer (fst w') = Some (buf_memory b, 0)" using s(3) bf(1) by simp
      show ?thesis
        unfolding un [OF bf'] mem s(2,6,7) by (rule stream_mono [OF that [unfolded un [OF bf(1)]] nb [OF e rb(1)]])
    qed
    with rl s(4,6) show ?thesis by (auto simp: ring_linked_def)
  qed
  with i m ok g s show ?thesis by (auto simp: linked_def decoder_inv_def)
qed

lemma tokens_service:
  assumes "tokens_linked (h, w)"
  shows "linked (h, w)" "sv_inv (fst w)" "error_ok (fst w)"
proof -
  show l: "linked (h, w)" using assms by (simp add: tokens_linked_def)
  then show "sv_inv (fst w)" "error_ok (fst w)" by (simp_all add: linked_def)
qed

lemma Create_tokens:
  fixes w :: "'x dworld"
  assumes "tokens_linked (h, w)" "sz < 2 ^ 32" "Direct_CreateTransferBuffer sz w = (bo, bid, w')"
  shows "tokens_linked (h, w')" "length (sv_heap (fst w)) \<le> length (sv_heap (fst w'))"
    "bid = -1 \<or> 0 \<le> bid \<and> (\<exists>b. bo = Some b \<and> buf_size b = sz \<and> buf_memory b = length (sv_heap (fst w)) \<and>
       length (sv_heap (fst w')) = Suc (length (sv_heap (fst w))))"
proof -
  note l = tokens_service(1) [OF assms(1)] and i = tokens_service(2,3) [OF assms(1)]
  have all: "tokens_linked (h, w') \<and> length (sv_heap (fst w)) \<le> length (sv_heap (fst w')) \<and>
    (bid = -1 \<or> 0 \<le> bid \<and> (\<exists>b. bo = Some b \<and> buf_size b = sz \<and> buf_memory b = length (sv_heap (fst w)) \<and>
       length (sv_heap (fst w')) = Suc (length (sv_heap (fst w)))))"
  proof (rule Direct_CreateTransferBuffer_cases [OF assms(3) i assms(2)])
    fix b
    assume n: "bo = Some b" "0 < bid" "buf_size b = sz" "buf_memory b = length (sv_heap (fst w))" "sv_inv (fst w')" "error_ok (fst w')"
      "snd w' = snd w" "sv_state (fst w') = sv_state (fst w)" "grown (fst w) (fst w')"
      "length (sv_heap (fst w')) = Suc (length (sv_heap (fst w)))"
      "\<forall>k. Service_GetTransferBuffer k (fst w') = (if k = bid then Some b else Service_GetTransferBuffer k (fst w))"
    have "names_block (sv_tbm (fst w)) (buf_memory rb) j"
      if "sv_ring_buffer (fst w) = Some rb" "names_block (sv_tbm (fst w')) (buf_memory rb) j" for rb j
    proof -
      have "buf_memory rb < length (sv_heap (fst w))" using i(1) that(1) by (auto simp: sv_inv_def ring_ok_def buffer_ok_def)
      with that(2) n(4,11) show ?thesis
        by (auto simp: names_block_def Service_GetTransferBuffer_def split: option.splits if_splits)
    qed
    then have "linked (h, w')" by (intro linked_grown [OF l n(9,5,6,7)]) (use n(8) in auto)
    with assms(1) n show ?thesis by (simp add: tokens_linked_def)
  next
    assume n: "bo = None" "bid = -1" "sv_inv (fst w')" "error_ok (fst w')" "snd w' = snd w" "failed w'" "grown (fst w) (fst w')"
    have "linked (h, w')" by (rule linked_grown [OF l n(7,3,4,5)]) (use n(6) in auto)
    with n show ?thesis by (auto simp: tokens_linked_def grown_def)
  qed
  then show "tokens_linked (h, w')" "length (sv_heap (fst w)) \<le> length (sv_heap (fst w'))"
    "bid = -1 \<or> 0 \<le> bid \<and> (\<exists>b. bo = Some b \<and> buf_size b = sz \<and> buf_memory b = length (sv_heap (fst w)) \<and>
       length (sv_heap (fst w')) = Suc (length (sv_heap (fst w))))" by blast+
qed

lemma Destroy_tokens:
  assumes "tokens_linked (h, w)"
  shows "\<exists>w'. Direct_DestroyTransferBuffer bid w = Inr w' \<and> tokens_linked (h, w') \<and> sv_heap (fst w') = sv_heap (fst w) \<and>
    sv_state (fst w') = sv_state (fst w)"
proof -
  note l = tokens_service [OF assms]
  obtain m where m: "TransferBufferManager_DestroyTransferBuffer bid (sv_tbm (fst w)) = Inr m" "tbm_inv m"
    "\<forall>k. TransferBufferManager_GetTransferBuffer k m = (if k = bid then None else TransferBufferManager_GetTransferBuffer k (sv_tbm (fst w)))"
    using DestroyTransferBuffer_spec [of "sv_tbm (fst w)" bid] l(2) by (auto simp: sv_inv_def registry_ok_def)
  let ?w = "((fst w)\<lparr>sv_tbm := m\<rparr>, snd w)"
  have d: "Direct_DestroyTransferBuffer bid w = Inr ?w" by (simp add: Direct_DestroyTransferBuffer_def Service_DestroyTransferBuffer_def m(1))
  have "set (registered_buffers m) \<subseteq> set (registered_buffers (sv_tbm (fst w)))"
    using m(1) by (auto simp: TransferBufferManager_DestroyTransferBuffer_def dcheck_Inr_iff split: option.splits)
  then have i: "sv_inv (fst ?w)"
    using l(2) m(2) by (auto simp: sv_inv_def ring_ok_def offsets_ok_def registry_ok_def split: option.splits)
  have "linked (h, ?w)"
    by (rule linked_grown [OF l(1) _ i])
      (use l(3) m(3) in \<open>auto simp: grown_def error_ok_def names_block_def split: option.splits if_splits\<close>)
  with d assms show ?thesis by (simp add: tokens_linked_def)
qed

lemma OrderingBarrier_tokens:
  assumes "tokens_linked (h, w)" "0 < k"
  shows "\<exists>h' w'. Helper_OrderingBarrier (direct k) (h, w) = Inr (h', w') \<and> tokens_linked (h', w') \<and>
    length (sv_heap (fst w')) = length (sv_heap (fst w)) \<and> (\<forall>u. token_passed (h, w) u \<longrightarrow> token_passed (h', w') u)"
proof -
  have l: "linked (h, w)" using assms(1) by (simp add: tokens_linked_def)
  obtain h' w' where f: "Helper_OrderingBarrier (direct k) (h, w) = Inr (h', w')" "linked (h', w')" "drained (h', w')" "flushed h h'"
    "onward w w'" using Helper_OrderingBarrier_linked [OF l assms(2)] by blast
  have "tokens_linked (h', w')"
    using drained_tokens [OF f(2,3)] f(4,5) assms(1) by (auto simp: flushed_def tokens_linked_def)
  with f show ?thesis by (auto simp: token_passed_def flushed_def)
qed

section \<open>The start\<close>

text \<open>A new helper over a new service, initialised with a ring of whole entries, is ready.\<close>

lemma Initialize_ready:
  assumes "ring_sized (h\<lparr>ch_ring_buffer_size := n\<rparr>)" "h = new_CommandBufferHelper"
    and "sv_inv (fst w)" "decoder_inv w" "\<not> failed w" "sv_scheduled (fst w)" "sv_put_offset (fst w) = st_get_offset (sv_state (fst w))"
    and "st_token (sv_state (fst w)) = 0" "st_set_get_buffer_count (sv_state (fst w)) = 0"
  shows "\<exists>ok h' w'. Helper_Initialize (direct k) n (h, w) = Inr (ok, (h', w')) \<and> ready (h', w') \<and> ch_ring_buffer_size h' = n \<and>
    (ok \<longrightarrow> ch_ring_buffer h' \<noteq> None) \<and> (\<not> ok \<longrightarrow> failed w')"
proof -
  have "ready (h\<lparr>ch_ring_buffer_size := n\<rparr>, w)"
    using assms by (simp add: ready_def tokens_linked_def linked_def mem_linked_def new_CommandBufferHelper_def error_ok_def)
  from AllocateRingBuffer_ready [OF this, of k] show ?thesis
    by (auto simp: Helper_Initialize_def)
qed

end
