(* ===== verification/Mapped_Memory.thy ===== *)
theory Mapped_Memory
  imports Helper_Commands Fenced_Allocator
begin

text \<open>
  \<^verbatim>\<open>gpu/command_buffer/client/mapped_memory.{h,cc}\<close>: \<^verbatim>\<open>MemoryChunk\<close>, a transfer buffer with a
  \<^verbatim>\<open>FencedAllocatorWrapper\<close> over it; \<^verbatim>\<open>MappedMemoryManager\<close>, which allocates from its chunks and adds
  chunks as needed; and \<^verbatim>\<open>ScopedMappedMemoryPtr\<close>.

  A mapped pointer is an address. Where the operating system maps the memory of a buffer is the
  parameter \<open>place\<close>, from blocks of the store to addresses. The \<^verbatim>\<open>option\<close> argument of
  \<^verbatim>\<open>CreateTransferBuffer\<close> is dropped, as \<^verbatim>\<open>CommandBufferDirect\<close> does not read it.
\<close>

section \<open>MemoryChunk\<close>

record memory_chunk =
  mc_shm_id :: i32
  mc_shm :: gpu_buffer
  mc_allocator :: fa_wrapper

definition new_MemoryChunk :: "(nat \<Rightarrow> addr) \<Rightarrow> i32 \<Rightarrow> gpu_buffer \<Rightarrow> memory_chunk" where
  "new_MemoryChunk place shm_id shm =
     \<lparr>mc_shm_id = shm_id, mc_shm = shm,
      mc_allocator = new_FencedAllocatorWrapper (buf_size shm) (place (buf_memory shm))\<rparr>"

definition MemoryChunk_GetLargestFreeSizeWithoutWaiting ::
  "'h token_ops \<Rightarrow> memory_chunk \<Rightarrow> 'h \<Rightarrow> u32 \<times> memory_chunk \<times> 'h" where
  "MemoryChunk_GetLargestFreeSizeWithoutWaiting ops c h =
     (case FencedAllocatorWrapper_GetLargestFreeSize ops (mc_allocator c) h of (n, a, h1) \<Rightarrow>
        (n, c\<lparr>mc_allocator := a\<rparr>, h1))"

definition MemoryChunk_GetLargestFreeSizeWithWaiting :: "memory_chunk \<Rightarrow> u32" where
  "MemoryChunk_GetLargestFreeSizeWithWaiting c = FencedAllocatorWrapper_GetLargestFreeOrPendingSize (mc_allocator c)"

definition MemoryChunk_GetSize :: "memory_chunk \<Rightarrow> u32" where
  "MemoryChunk_GetSize c = buf_size (mc_shm c)"

definition MemoryChunk_Alloc ::
  "'h token_ops \<Rightarrow> u32 \<Rightarrow> memory_chunk \<Rightarrow> 'h \<Rightarrow> (addr option \<times> memory_chunk \<times> 'h) res" where
  "MemoryChunk_Alloc ops sz c h =
     res_bind (FencedAllocatorWrapper_Alloc ops sz (mc_allocator c) h) (\<lambda>(p, a, h1).
       Inr (p, c\<lparr>mc_allocator := a\<rparr>, h1))"

definition MemoryChunk_GetOffset :: "memory_chunk \<Rightarrow> addr option \<Rightarrow> u32" where
  "MemoryChunk_GetOffset c pointer = FencedAllocatorWrapper_GetOffset (mc_allocator c) pointer"

definition MemoryChunk_Free :: "addr \<Rightarrow> memory_chunk \<Rightarrow> memory_chunk res" where
  "MemoryChunk_Free pointer c =
     res_bind (FencedAllocatorWrapper_Free (Some pointer) (mc_allocator c)) (\<lambda>a. Inr (c\<lparr>mc_allocator := a\<rparr>))"

text \<open>The parameter of \<^verbatim>\<open>MemoryChunk::FreePendingToken\<close> is unsigned, that of the allocator signed.\<close>

definition MemoryChunk_FreePendingToken :: "addr \<Rightarrow> u32 \<Rightarrow> memory_chunk \<Rightarrow> memory_chunk res" where
  "MemoryChunk_FreePendingToken pointer token c =
     res_bind (FencedAllocatorWrapper_FreePendingToken (Some pointer) (i32_of_u32 token) (mc_allocator c))
       (\<lambda>a. Inr (c\<lparr>mc_allocator := a\<rparr>))"

definition MemoryChunk_FreeUnused :: "'h token_ops \<Rightarrow> memory_chunk \<Rightarrow> 'h \<Rightarrow> memory_chunk \<times> 'h" where
  "MemoryChunk_FreeUnused ops c h =
     (case FencedAllocatorWrapper_FreeUnused ops (mc_allocator c) h of (a, h1) \<Rightarrow> (c\<lparr>mc_allocator := a\<rparr>, h1))"

definition MemoryChunk_GetFreeSize :: "'h token_ops \<Rightarrow> memory_chunk \<Rightarrow> 'h \<Rightarrow> u32 \<times> memory_chunk \<times> 'h" where
  "MemoryChunk_GetFreeSize ops c h =
     (case FencedAllocatorWrapper_GetFreeSize ops (mc_allocator c) h of (n, a, h1) \<Rightarrow> (n, c\<lparr>mc_allocator := a\<rparr>, h1))"

definition MemoryChunk_IsInChunk :: "(nat \<Rightarrow> addr) \<Rightarrow> addr \<Rightarrow> memory_chunk \<Rightarrow> bool" where
  "MemoryChunk_IsInChunk place pointer c \<longleftrightarrow>
     pointer \<ge> place (buf_memory (mc_shm c)) \<and> pointer < place (buf_memory (mc_shm c)) + int (buf_size (mc_shm c))"

definition MemoryChunk_InUseOrFreePending :: "memory_chunk \<Rightarrow> bool" where
  "MemoryChunk_InUseOrFreePending c = FencedAllocatorWrapper_InUseOrFreePending (mc_allocator c)"

definition MemoryChunk_bytes_in_use :: "memory_chunk \<Rightarrow> u32" where
  "MemoryChunk_bytes_in_use c = FencedAllocatorWrapper_bytes_in_use (mc_allocator c)"

definition MemoryChunk_GetPointerStatusForTest :: "addr \<Rightarrow> memory_chunk \<Rightarrow> (fa_state \<times> i32 option) res" where
  "MemoryChunk_GetPointerStatusForTest pointer c =
     FencedAllocatorWrapper_GetPointerStatusForTest (Some pointer) (mc_allocator c)"

text \<open>The destructor runs that of the allocator.\<close>

definition delete_MemoryChunk :: "memory_chunk \<Rightarrow> unit res" where
  "delete_MemoryChunk c = delete_FencedAllocator (fw_allocator (mc_allocator c))"

section \<open>MappedMemoryManager\<close>

record mapped_memory_manager =
  mm_chunk_size_multiple :: u32
  mm_chunks :: "memory_chunk list"
  mm_allocated_memory :: u64
  mm_max_free_bytes :: u64
  mm_max_allocated_bytes :: u64

definition kNoLimit :: u64 where
  "kNoLimit = 0"

definition new_MappedMemoryManager :: "u64 \<Rightarrow> mapped_memory_manager" where
  "new_MappedMemoryManager unused_memory_reclaim_limit =
     \<lparr>mm_chunk_size_multiple = kAllocAlignment, mm_chunks = [], mm_allocated_memory = 0,
      mm_max_free_bytes = unused_memory_reclaim_limit, mm_max_allocated_bytes = kNoLimit\<rparr>"

definition MappedMemoryManager_set_chunk_size_multiple ::
  "u32 \<Rightarrow> mapped_memory_manager \<Rightarrow> mapped_memory_manager res" where
  "MappedMemoryManager_set_chunk_size_multiple multiple m =
     dcheck (has_single_bit multiple)
       (dcheck (multiple \<ge> kAllocAlignment) (Inr (m\<lparr>mm_chunk_size_multiple := multiple\<rparr>)))"

definition MappedMemoryManager_set_max_allocated_bytes ::
  "u64 \<Rightarrow> mapped_memory_manager \<Rightarrow> mapped_memory_manager" where
  "MappedMemoryManager_set_max_allocated_bytes max_allocated_bytes m =
     m\<lparr>mm_max_allocated_bytes := max_allocated_bytes\<rparr>"

definition MappedMemoryManager_bytes_in_use :: "mapped_memory_manager \<Rightarrow> u64" where
  "MappedMemoryManager_bytes_in_use m = fold (\<lambda>c n. u64_add n (MemoryChunk_bytes_in_use c)) (mm_chunks m) 0"

text \<open>What \<^verbatim>\<open>Alloc\<close> returns and stores through its pointers: the memory, \<^verbatim>\<open>*shm_id\<close> and \<^verbatim>\<open>*shm_offset\<close>.\<close>

type_synonym mapped = "addr \<times> i32 \<times> u32"

text \<open>Allocating from a chosen chunk.\<close>

definition alloc_in_chunk :: "'h token_ops \<Rightarrow> u32 \<Rightarrow> memory_chunk \<Rightarrow> 'h \<Rightarrow> (mapped \<times> memory_chunk \<times> 'h) res" where
  "alloc_in_chunk ops sz c h =
     res_bind (MemoryChunk_Alloc ops sz c h) (\<lambda>(mem, c1, h1). case mem of
         None \<Rightarrow> Inl DCHECK_failed
       | Some p \<Rightarrow> Inr ((p, mc_shm_id c1, MemoryChunk_GetOffset c1 mem), c1, h1))"

text \<open>
  The first loop of \<^verbatim>\<open>Alloc\<close>: reclaim in each chunk in turn and take the first that has room;
  \<open>total_bytes_in_use\<close> is accumulated.
\<close>

fun alloc_without_waiting ::
  "'h token_ops \<Rightarrow> u32 \<Rightarrow> u64 \<Rightarrow> memory_chunk list \<Rightarrow> 'h \<Rightarrow> (mapped option \<times> u64 \<times> memory_chunk list \<times> 'h) res" where
  "alloc_without_waiting ops sz in_use [] h = Inr (None, in_use, [], h)"
| "alloc_without_waiting ops sz in_use (c # cs) h =
     (case MemoryChunk_FreeUnused ops c h of (c1, h1) \<Rightarrow>
        (case MemoryChunk_GetLargestFreeSizeWithoutWaiting ops c1 h1 of (largest, c2, h2) \<Rightarrow>
           if largest \<ge> sz
           then res_bind (alloc_in_chunk ops sz c2 h2) (\<lambda>(r, c3, h3).
                  Inr (Some r, u64_add in_use (MemoryChunk_bytes_in_use c1), c3 # cs, h3))
           else res_bind (alloc_without_waiting ops sz (u64_add in_use (MemoryChunk_bytes_in_use c1)) cs h2)
                  (\<lambda>(r, t, cs1, h3). Inr (r, t, c2 # cs1, h3))))"

text \<open>The second loop, over chunks that have room once pending blocks are waited for.\<close>

fun alloc_with_waiting ::
  "'h token_ops \<Rightarrow> u32 \<Rightarrow> memory_chunk list \<Rightarrow> 'h \<Rightarrow> (mapped option \<times> memory_chunk list \<times> 'h) res" where
  "alloc_with_waiting ops sz [] h = Inr (None, [], h)"
| "alloc_with_waiting ops sz (c # cs) h =
     (if MemoryChunk_GetLargestFreeSizeWithWaiting c \<ge> sz
      then res_bind (alloc_in_chunk ops sz c h) (\<lambda>(r, c1, h1). Inr (Some r, c1 # cs, h1))
      else res_bind (alloc_with_waiting ops sz cs h) (\<lambda>(r, cs1, h1). Inr (r, c # cs1, h1)))"

text \<open>Both loops, under the condition on the memory there is.\<close>

definition alloc_from_chunks ::
  "'h token_ops \<Rightarrow> u32 \<Rightarrow> mapped_memory_manager \<Rightarrow> 'h \<Rightarrow> (mapped option \<times> mapped_memory_manager \<times> 'h) res" where
  "alloc_from_chunks ops sz m h =
     (if sz \<le> mm_allocated_memory m
      then res_bind (alloc_without_waiting ops sz 0 (mm_chunks m) h) (\<lambda>(r, total_bytes_in_use, cs, h1).
             if r = None \<and> mm_max_free_bytes m \<noteq> kNoLimit \<and>
                u64_sub (mm_allocated_memory m) total_bytes_in_use \<ge> mm_max_free_bytes m
             then res_bind (alloc_with_waiting ops sz cs h1) (\<lambda>(r, cs1, h2). Inr (r, m\<lparr>mm_chunks := cs1\<rparr>, h2))
             else Inr (r, m\<lparr>mm_chunks := cs\<rparr>, h1))
      else Inr (None, m, h))"

text \<open>
  The size of a new chunk. The sum is computed in \<^verbatim>\<open>uint32_t\<close> before the checked number is assigned,
  so \<^verbatim>\<open>AssignIfValid\<close> never fails and a wrap-around goes unnoticed.
\<close>

definition new_chunk_size :: "u32 \<Rightarrow> mapped_memory_manager \<Rightarrow> u32" where
  "new_chunk_size sz m =
     u32_clear_low (u32_sub (u32_add sz (mm_chunk_size_multiple m)) 1) (mm_chunk_size_multiple m)"

definition alloc_new_chunk ::
  "'w command_buffer \<Rightarrow> (nat \<Rightarrow> addr) \<Rightarrow> u32 \<Rightarrow> mapped_memory_manager \<Rightarrow> 'w hworld \<Rightarrow>
     (mapped option \<times> mapped_memory_manager \<times> 'w hworld) res" where
  "alloc_new_chunk cb place sz m x =
     (case cb_CreateTransferBuffer cb (new_chunk_size sz m) (snd x) of (shm, bid, w) \<Rightarrow>
        if bid < 0 then Inr (None, m, (fst x, w))
        else (case shm of
            None \<Rightarrow> Inl DCHECK_failed
          | Some b \<Rightarrow>
              (let mc = new_MemoryChunk place bid b
               in res_bind (alloc_in_chunk (helper_token_ops cb) sz mc (fst x, w)) (\<lambda>(r, mc1, x1).
                    Inr (Some r,
                         m\<lparr>mm_allocated_memory := u64_add (mm_allocated_memory m) (MemoryChunk_GetSize mc),
                           mm_chunks := mm_chunks m @ [mc1]\<rparr>, x1)))))"

definition MappedMemoryManager_Alloc ::
  "'w command_buffer \<Rightarrow> (nat \<Rightarrow> addr) \<Rightarrow> u32 \<Rightarrow> mapped_memory_manager \<Rightarrow> 'w hworld \<Rightarrow>
     (mapped option \<times> mapped_memory_manager \<times> 'w hworld) res" where
  "MappedMemoryManager_Alloc cb place sz m x =
     res_bind (alloc_from_chunks (helper_token_ops cb) sz m x) (\<lambda>(r, m1, x1).
       if r \<noteq> None then Inr (r, m1, x1)
       else if mm_max_allocated_bytes m1 \<noteq> kNoLimit \<and> u64_add (mm_allocated_memory m1) sz > mm_max_allocated_bytes m1
       then Inr (None, m1, x1)
       else alloc_new_chunk cb place sz m1 x1)"

text \<open>Applying an operation to the first chunk that contains a pointer.\<close>

fun in_chunk ::
  "(nat \<Rightarrow> addr) \<Rightarrow> addr \<Rightarrow> (memory_chunk \<Rightarrow> memory_chunk res) \<Rightarrow> memory_chunk list \<Rightarrow> memory_chunk list res" where
  "in_chunk place pointer f [] = Inl NOTREACHED_hit"
| "in_chunk place pointer f (c # cs) =
     (if MemoryChunk_IsInChunk place pointer c then res_bind (f c) (\<lambda>c1. Inr (c1 # cs))
      else res_bind (in_chunk place pointer f cs) (\<lambda>cs1. Inr (c # cs1)))"

definition MappedMemoryManager_Free ::
  "(nat \<Rightarrow> addr) \<Rightarrow> addr \<Rightarrow> mapped_memory_manager \<Rightarrow> mapped_memory_manager res" where
  "MappedMemoryManager_Free place pointer m =
     res_bind (in_chunk place pointer (MemoryChunk_Free pointer) (mm_chunks m)) (\<lambda>cs. Inr (m\<lparr>mm_chunks := cs\<rparr>))"

definition MappedMemoryManager_FreePendingToken ::
  "(nat \<Rightarrow> addr) \<Rightarrow> addr \<Rightarrow> i32 \<Rightarrow> mapped_memory_manager \<Rightarrow> mapped_memory_manager res" where
  "MappedMemoryManager_FreePendingToken place pointer token m =
     res_bind (in_chunk place pointer (MemoryChunk_FreePendingToken pointer (u32_of_int token)) (mm_chunks m))
       (\<lambda>cs. Inr (m\<lparr>mm_chunks := cs\<rparr>))"

text \<open>The loop of \<^verbatim>\<open>FreeUnused\<close>, over the chunks that are left and \<open>allocated_memory_\<close>.\<close>

fun free_unused_chunks ::
  "'w command_buffer \<Rightarrow> memory_chunk list \<Rightarrow> u64 \<Rightarrow> 'w hworld \<Rightarrow> (memory_chunk list \<times> u64 \<times> 'w hworld) res" where
  "free_unused_chunks cb [] allocated x = Inr ([], allocated, x)"
| "free_unused_chunks cb (c # cs) allocated x =
     (case MemoryChunk_FreeUnused (helper_token_ops cb) c x of (c1, x1) \<Rightarrow>
        if MemoryChunk_bytes_in_use c1 = 0
        then res_bind (if MemoryChunk_InUseOrFreePending c1 then Helper_OrderingBarrier cb x1 else Inr x1) (\<lambda>x2.
               res_bind (cb_DestroyTransferBuffer cb (mc_shm_id c1) (snd x2)) (\<lambda>w.
                 res_bind (delete_MemoryChunk c1) (\<lambda>_.
                   free_unused_chunks cb cs (u64_sub allocated (MemoryChunk_GetSize c1)) (fst x2, w))))
        else res_bind (free_unused_chunks cb cs allocated x1) (\<lambda>(cs1, a, x2). Inr (c1 # cs1, a, x2)))"

definition MappedMemoryManager_FreeUnused ::
  "'w command_buffer \<Rightarrow> mapped_memory_manager \<Rightarrow> 'w hworld \<Rightarrow> (mapped_memory_manager \<times> 'w hworld) res" where
  "MappedMemoryManager_FreeUnused cb m x =
     res_bind (free_unused_chunks cb (mm_chunks m) (mm_allocated_memory m) x) (\<lambda>(cs, a, x1).
       Inr (m\<lparr>mm_chunks := cs, mm_allocated_memory := a\<rparr>, x1))"

fun destroy_chunks :: "'w command_buffer \<Rightarrow> memory_chunk list \<Rightarrow> 'w hworld \<Rightarrow> 'w hworld res" where
  "destroy_chunks cb [] x = Inr x"
| "destroy_chunks cb (c # cs) x =
     res_bind (cb_DestroyTransferBuffer cb (mc_shm_id c) (snd x)) (\<lambda>w. destroy_chunks cb cs (fst x, w))"

text \<open>The destructor's body, and then the destructors of the chunks.\<close>

fun delete_chunks :: "memory_chunk list \<Rightarrow> unit res" where
  "delete_chunks [] = Inr ()"
| "delete_chunks (c # cs) = res_bind (delete_MemoryChunk c) (\<lambda>_. delete_chunks cs)"

definition delete_MappedMemoryManager :: "'w command_buffer \<Rightarrow> mapped_memory_manager \<Rightarrow> 'w hworld \<Rightarrow> 'w hworld res" where
  "delete_MappedMemoryManager cb m x =
     res_bind (Helper_OrderingBarrier cb x) (\<lambda>x1.
       res_bind (destroy_chunks cb (mm_chunks m) x1) (\<lambda>x2.
         res_bind (delete_chunks (mm_chunks m)) (\<lambda>_. Inr x2)))"

definition MappedMemoryManager_GetPointerStatusForTest ::
  "(nat \<Rightarrow> addr) \<Rightarrow> addr \<Rightarrow> mapped_memory_manager \<Rightarrow> (fa_state \<times> i32 option) res" where
  "MappedMemoryManager_GetPointerStatusForTest place pointer m =
     (case List.find (MemoryChunk_IsInChunk place pointer) (mm_chunks m) of
        Some c \<Rightarrow> MemoryChunk_GetPointerStatusForTest pointer c
      | None \<Rightarrow> Inr (FA_FREE, None))"

section \<open>ScopedMappedMemoryPtr\<close>

record scoped_mapped_ptr =
  sp_buffer :: "addr option"
  sp_size :: u32
  sp_shm_id :: i32
  sp_shm_offset :: u32
  sp_flush_after_release :: bool

definition ScopedMappedMemoryPtr_SetFlushAfterRelease :: "bool \<Rightarrow> scoped_mapped_ptr \<Rightarrow> scoped_mapped_ptr" where
  "ScopedMappedMemoryPtr_SetFlushAfterRelease flush_after_release p = p\<lparr>sp_flush_after_release := flush_after_release\<rparr>"

definition ScopedMappedMemoryPtr_valid :: "scoped_mapped_ptr \<Rightarrow> bool" where
  "ScopedMappedMemoryPtr_valid p \<longleftrightarrow> sp_buffer p \<noteq> None"

definition ScopedMappedMemoryPtr_Release ::
  "'w command_buffer \<Rightarrow> bool \<Rightarrow> (nat \<Rightarrow> addr) \<Rightarrow> scoped_mapped_ptr \<Rightarrow> mapped_memory_manager \<Rightarrow> 'w hworld \<Rightarrow>
     (scoped_mapped_ptr \<times> mapped_memory_manager \<times> 'w hworld) res" where
  "ScopedMappedMemoryPtr_Release cb due place p m x =
     (case sp_buffer p of
        None \<Rightarrow> Inr (p, m, x)
      | Some buffer \<Rightarrow>
          res_bind (Helper_InsertToken cb due x) (\<lambda>(token, x1).
            res_bind (MappedMemoryManager_FreePendingToken place buffer token m) (\<lambda>m1.
              let p1 = p\<lparr>sp_buffer := None, sp_size := 0, sp_shm_id := 0, sp_shm_offset := 0\<rparr>
              in if sp_flush_after_release p1
                 then res_bind (Helper_Flush cb x1) (\<lambda>x2. Inr (p1, m1, x2))
                 else Inr (p1, m1, x1))))"

definition ScopedMappedMemoryPtr_Reset ::
  "'w command_buffer \<Rightarrow> bool \<Rightarrow> (nat \<Rightarrow> addr) \<Rightarrow> u32 \<Rightarrow> scoped_mapped_ptr \<Rightarrow> mapped_memory_manager \<Rightarrow> 'w hworld \<Rightarrow>
     (scoped_mapped_ptr \<times> mapped_memory_manager \<times> 'w hworld) res" where
  "ScopedMappedMemoryPtr_Reset cb due place new_size p m x =
     res_bind (ScopedMappedMemoryPtr_Release cb due place p m x) (\<lambda>(p1, m1, x1).
       if new_size \<noteq> 0
       then res_bind (MappedMemoryManager_Alloc cb place new_size m1 x1) (\<lambda>(r, m2, x2).
              Inr (case r of
                  None \<Rightarrow> p1\<lparr>sp_buffer := None, sp_size := 0\<rparr>
                | Some (a, i, off) \<Rightarrow> p1\<lparr>sp_buffer := Some a, sp_size := new_size, sp_shm_id := i, sp_shm_offset := off\<rparr>,
                m2, x2))
       else Inr (p1, m1, x1))"

definition new_ScopedMappedMemoryPtr ::
  "'w command_buffer \<Rightarrow> bool \<Rightarrow> (nat \<Rightarrow> addr) \<Rightarrow> u32 \<Rightarrow> mapped_memory_manager \<Rightarrow> 'w hworld \<Rightarrow>
     (scoped_mapped_ptr \<times> mapped_memory_manager \<times> 'w hworld) res" where
  "new_ScopedMappedMemoryPtr cb due place sz m x =
     ScopedMappedMemoryPtr_Reset cb due place sz
       \<lparr>sp_buffer = None, sp_size = 0, sp_shm_id = 0, sp_shm_offset = 0, sp_flush_after_release = False\<rparr> m x"

definition delete_ScopedMappedMemoryPtr ::
  "'w command_buffer \<Rightarrow> bool \<Rightarrow> (nat \<Rightarrow> addr) \<Rightarrow> scoped_mapped_ptr \<Rightarrow> mapped_memory_manager \<Rightarrow> 'w hworld \<Rightarrow>
     (scoped_mapped_ptr \<times> mapped_memory_manager \<times> 'w hworld) res" where
  "delete_ScopedMappedMemoryPtr cb due place p m x = ScopedMappedMemoryPtr_Release cb due place p m x"

section \<open>What the manager relies on\<close>

text \<open>
  A command buffer whose helper gives tokens, and which creates and destroys transfer buffers:
  \<open>inv n\<close> is its invariant with at least \<open>n\<close> blocks of memory in use, and a new buffer has a block
  of its own.
\<close>

locale buffer_source =
  fixes cb :: "'w command_buffer" and inv :: "nat \<Rightarrow> 'w hworld \<Rightarrow> bool" and passed :: "'w hworld \<Rightarrow> i32 \<Rightarrow> bool"
  assumes tokens: "live_token_source (helper_token_ops cb) (inv n) passed"
    and create: "inv n (h, w) \<Longrightarrow> sz < 2 ^ 32 \<Longrightarrow> cb_CreateTransferBuffer cb sz w = (bo, bid, w') \<Longrightarrow>
      inv n (h, w') \<and> (\<forall>u. passed (h, w) u \<longrightarrow> passed (h, w') u) \<and>
      (bid = -1 \<or> 0 \<le> bid \<and> (\<exists>b. bo = Some b \<and> buf_size b = sz \<and> n \<le> buf_memory b \<and> inv (Suc (buf_memory b)) (h, w')))"
    and destroy: "inv n (h, w) \<Longrightarrow>
      \<exists>w'. cb_DestroyTransferBuffer cb bid w = Inr w' \<and> inv n (h, w') \<and> (\<forall>u. passed (h, w) u \<longrightarrow> passed (h, w') u)"
    and barrier: "inv n x \<Longrightarrow> \<exists>x'. Helper_OrderingBarrier cb x = Inr x' \<and> inv n x' \<and> (\<forall>u. passed x u \<longrightarrow> passed x' u)"

sublocale buffer_source \<subseteq> tok: live_token_source "helper_token_ops cb" "inv n" passed for n
  by (rule tokens)

section \<open>The invariant\<close>

abbreviation chunk_allocator :: "memory_chunk \<Rightarrow> fenced_allocator" where
  "chunk_allocator c \<equiv> fw_allocator (mc_allocator c)"

definition chunk_ok :: "(nat \<Rightarrow> addr) \<Rightarrow> memory_chunk \<Rightarrow> bool" where
  "chunk_ok place c \<longleftrightarrow> 16 \<le> buf_size (mc_shm c) \<and> buf_size (mc_shm c) < 2 ^ 32 \<and>
     fw_base (mc_allocator c) = place (buf_memory (mc_shm c)) \<and>
     fa_inv (buf_size (mc_shm c) div 16 * 16) (chunk_allocator c)"

text \<open>
  Every chunk is well formed and has a block of its own among the first \<open>n\<close>, \<open>allocated_memory_\<close> is the
  sum of their sizes, and the multiple is a power of two.
\<close>

definition mm_inv :: "(nat \<Rightarrow> addr) \<Rightarrow> nat \<Rightarrow> mapped_memory_manager \<Rightarrow> bool" where
  "mm_inv place n m \<longleftrightarrow> list_all (chunk_ok place) (mm_chunks m) \<and>
     distinct (map (buf_memory \<circ> mc_shm) (mm_chunks m)) \<and> (\<forall>c \<in> set (mm_chunks m). buf_memory (mc_shm c) < n) \<and>
     mm_allocated_memory m = sum_list (map MemoryChunk_GetSize (mm_chunks m)) mod 2 ^ 64 \<and>
     (\<exists>k \<ge> 4. k < 32 \<and> mm_chunk_size_multiple m = 2 ^ k)"

text \<open>
  How a chunk changes while others allocate: it stays the same buffer, and a block is only lost when
  it was pending a token that has passed.
\<close>

definition evolved :: "(nat \<Rightarrow> addr) \<Rightarrow> (i32 \<Rightarrow> bool) \<Rightarrow> memory_chunk \<Rightarrow> memory_chunk \<Rightarrow> bool" where
  "evolved place passed c c' \<longleftrightarrow> mc_shm c' = mc_shm c \<and> mc_shm_id c' = mc_shm_id c \<and> chunk_ok place c' \<and>
     (\<forall>b \<in> set (occupied (chunk_allocator c)). b \<in> set (occupied (chunk_allocator c')) \<or> fa_reusable passed b)"

text \<open>A chunk that has given out memory of \<open>sz\<close> bytes: apart from every block that it still holds.\<close>

definition gave :: "(nat \<Rightarrow> addr) \<Rightarrow> (i32 \<Rightarrow> bool) \<Rightarrow> u32 \<Rightarrow> mapped \<Rightarrow> memory_chunk \<Rightarrow> memory_chunk \<Rightarrow> bool" where
  "gave place passed sz r c c' \<longleftrightarrow> evolved place passed c c' \<and>
     (case r of (p, bid, off) \<Rightarrow> bid = mc_shm_id c \<and> p = place (buf_memory (mc_shm c)) + int off \<and>
        off + sz \<le> buf_size (mc_shm c) \<and>
        (\<exists>nb \<in> set (occupied (chunk_allocator c')). fa_state nb = FA_IN_USE \<and> fa_offset nb = off \<and> sz \<le> fa_size nb) \<and>
        (\<forall>b \<in> set (occupied (chunk_allocator c)). fa_reusable passed b \<or>
           b \<in> set (occupied (chunk_allocator c')) \<and> regions_disjoint (fa_offset b) (fa_size b) off sz))"

lemma evolved_refl: "chunk_ok place c \<Longrightarrow> evolved place P c c"
  by (simp add: evolved_def)

lemma evolved_mono: "evolved place P c c' \<Longrightarrow> (\<And>u. P u \<Longrightarrow> Q u) \<Longrightarrow> evolved place Q c c'"
  by (auto simp: evolved_def fa_reusable_def)

lemma evolved_trans: "evolved place P c c' \<Longrightarrow> evolved place P c' c'' \<Longrightarrow> evolved place P c c''"
  by (auto simp: evolved_def)

lemma evolved_gave: "evolved place P c c' \<Longrightarrow> gave place P sz r c' c'' \<Longrightarrow> gave place P sz r c c''"
  by (auto simp: gave_def evolved_def)

lemma list_evolved_mono:
  "list_all2 (evolved place P) cs cs' \<Longrightarrow> (\<And>u. P u \<Longrightarrow> Q u) \<Longrightarrow> list_all2 (evolved place Q) cs cs'"
  by (erule list_all2_mono) (blast intro: evolved_mono)

lemma list_evolved_refl: "list_all (chunk_ok place) cs \<Longrightarrow> list_all2 (evolved place P) cs cs"
  by (induction cs) (auto intro: evolved_refl)

lemma list_evolved_same:
  "list_all2 (evolved place P) cs cs' \<Longrightarrow> map mc_shm cs' = map mc_shm cs \<and> map mc_shm_id cs' = map mc_shm_id cs \<and>
     list_all (chunk_ok place) cs'"
  by (induction rule: list_all2_induct) (auto simp: evolved_def)

section \<open>Chunks\<close>

context token_source
begin

lemma chunk_FreeUnused:
  assumes "MemoryChunk_FreeUnused ops c h = (c', h')" "chunk_ok place c" "tok_inv h"
  shows "tok_inv h'" "evolved place (passed h') c c'" "passed h u \<Longrightarrow> passed h' u"
    "MemoryChunk_bytes_in_use c' = MemoryChunk_bytes_in_use c"
proof -
  obtain a where a: "FencedAllocator_FreeUnused ops (chunk_allocator c) h = (a, h')" "c' = c\<lparr>mc_allocator := (mc_allocator c)\<lparr>fw_allocator := a\<rparr>\<rparr>"
    using assms(1) by (auto simp: MemoryChunk_FreeUnused_def FencedAllocatorWrapper_FreeUnused_def split: prod.splits)
  have inv: "fa_inv (buf_size (mc_shm c) div 16 * 16) (chunk_allocator c)" using assms(2) by (simp add: chunk_ok_def)
  note s = FreeUnused_safe [OF a(1) inv assms(3)] and e = FreeUnused_effect [OF a(1) inv]
  show "tok_inv h'" "passed h u \<Longrightarrow> passed h' u" using s by blast+
  show "evolved place (passed h') c c'" using a(2) s assms(2) by (auto simp: evolved_def chunk_ok_def)
  have "used_bytes (filter (\<lambda>b. fa_state b \<noteq> FA_FREE) bs) = used_bytes bs" for bs by (induction bs) auto
  then have "used_bytes (fa_blocks b) = used_bytes (occupied b)" for b by (simp add: occupied_def)
  moreover have "used_bytes (filter (\<lambda>b. \<not> cached_reusable ops h' b) bs) = used_bytes bs" for bs
    by (induction bs) (auto simp: cached_reusable_def)
  ultimately have "used_bytes (fa_blocks a) = used_bytes (fa_blocks (chunk_allocator c))" using e(3) by metis
  then show "MemoryChunk_bytes_in_use c' = MemoryChunk_bytes_in_use c"
    using a(2) e(1) inv by (simp add: MemoryChunk_bytes_in_use_def FencedAllocatorWrapper_bytes_in_use_def fa_inv_def)
qed

lemma chunk_GetLargest:
  assumes "MemoryChunk_GetLargestFreeSizeWithoutWaiting ops c h = (n, c', h')" "chunk_ok place c" "tok_inv h"
  shows "tok_inv h'" "evolved place (passed h') c c'" "passed h u \<Longrightarrow> passed h' u"
    "0 < sz \<Longrightarrow> sz \<le> n \<Longrightarrow> \<exists>p c'' h''. MemoryChunk_Alloc ops sz c' h' = Inr (Some p, c'', h'')"
proof -
  obtain a where a: "FencedAllocator_GetLargestFreeSize ops (chunk_allocator c) h = (n, a, h')"
    "c' = c\<lparr>mc_allocator := (mc_allocator c)\<lparr>fw_allocator := a\<rparr>\<rparr>"
    using assms(1)
    by (auto simp: MemoryChunk_GetLargestFreeSizeWithoutWaiting_def FencedAllocatorWrapper_GetLargestFreeSize_def split: prod.splits)
  then have f: "MemoryChunk_FreeUnused ops c h = (c', h')"
    by (auto simp: FencedAllocator_GetLargestFreeSize_def MemoryChunk_FreeUnused_def FencedAllocatorWrapper_FreeUnused_def
        split: prod.splits)
  note s = chunk_FreeUnused [OF f assms(2,3)]
  show "tok_inv h'" "evolved place (passed h') c c'" "passed h u \<Longrightarrow> passed h' u" using s by blast+
  have inv: "fa_inv (buf_size (mc_shm c) div 16 * 16) (chunk_allocator c)" using assms(2) by (simp add: chunk_ok_def)
  show "\<exists>p c'' h''. MemoryChunk_Alloc ops sz c' h' = Inr (Some p, c'', h'')" if "0 < sz" "sz \<le> n"
    using GetLargestFreeSize_allocatable [OF a(1) inv that] a(2)
    by (auto simp: MemoryChunk_Alloc_def FencedAllocatorWrapper_Alloc_def FencedAllocatorWrapper_GetPointer_def)
qed

lemma chunk_Alloc_gave:
  assumes "MemoryChunk_Alloc ops sz c h = Inr (Some p, c', h')" "chunk_ok place c" "tok_inv h"
  shows "tok_inv h'" "passed h u \<Longrightarrow> passed h' u"
    "alloc_in_chunk ops sz c h = Inr ((p, mc_shm_id c, MemoryChunk_GetOffset c' (Some p)), c', h')"
    "gave place (passed h') sz (p, mc_shm_id c, MemoryChunk_GetOffset c' (Some p)) c c'"
proof -
  let ?n = "buf_size (mc_shm c) div 16 * 16"
  obtain off a where a: "FencedAllocator_Alloc ops sz (chunk_allocator c) h = Inr (off, a, h')" "off \<noteq> kInvalidOffset"
    "p = fw_base (mc_allocator c) + int off" "c' = c\<lparr>mc_allocator := (mc_allocator c)\<lparr>fw_allocator := a\<rparr>\<rparr>"
    using assms(1) by (auto simp: MemoryChunk_Alloc_def FencedAllocatorWrapper_Alloc_def FencedAllocatorWrapper_GetPointer_def
        res_simps split: if_splits)
  have inv: "fa_inv ?n (chunk_allocator c)" "?n \<le> buf_size (mc_shm c)" "?n < 2 ^ 32" using assms(2) by (simp_all add: chunk_ok_def fa_inv_def)
  show "tok_inv h'" "passed h u \<Longrightarrow> passed h' u" using fa_Alloc_frame [OF a(1) inv(1) assms(3)] by blast+
  obtain k nb where k: "RoundUp sz = Some k" "nb \<in> set (occupied a)" "fa_state nb = FA_IN_USE" "fa_offset nb = off" "fa_size nb = k"
    "off + k \<le> ?n" "\<forall>b \<in> set (occupied (chunk_allocator c)). fa_reusable (passed h') b \<or>
       (b \<in> set (occupied a) \<and> regions_disjoint (fa_offset b) (fa_size b) off k)"
    using fa_Alloc_safe [OF a(1) inv(1) assms(3) a(2)] by blast
  have "0 < sz" using a(1,2) by (auto simp: FencedAllocator_Alloc_def split: if_splits)
  from RoundUp_Some(2) [OF k(1) this] have sz: "sz \<le> k" by simp
  have o: "MemoryChunk_GetOffset c' (Some p) = off"
    using a(3,4) k(6) inv(3) by (simp add: MemoryChunk_GetOffset_def FencedAllocatorWrapper_GetOffset_def u32_of_int_small)
  show "alloc_in_chunk ops sz c h = Inr ((p, mc_shm_id c, MemoryChunk_GetOffset c' (Some p)), c', h')"
    using assms(1) a(4) by (simp add: alloc_in_chunk_def)
  have "evolved place (passed h') c c'"
    using k(7) a(4) assms(2) fa_Alloc_inv [OF a(1) inv(1)] by (auto simp: evolved_def chunk_ok_def)
  moreover have "regions_disjoint x y off k \<Longrightarrow> regions_disjoint x y off sz" for x y using sz by (auto simp: regions_disjoint_def)
  ultimately show "gave place (passed h') sz (p, mc_shm_id c, MemoryChunk_GetOffset c' (Some p)) c c'"
    using a(3,4) assms(2) k inv(2) sz o by (auto simp: gave_def chunk_ok_def)
qed

end

section \<open>Allocating\<close>

text \<open>One chunk of a list gives out the memory, or none; the others go on holding what they hold.\<close>

definition gave_in ::
  "(nat \<Rightarrow> addr) \<Rightarrow> (i32 \<Rightarrow> bool) \<Rightarrow> u32 \<Rightarrow> mapped option \<Rightarrow> memory_chunk list \<Rightarrow> memory_chunk list \<Rightarrow> bool" where
  "gave_in place P sz r cs cs' \<longleftrightarrow> list_all2 (evolved place P) cs cs' \<and>
     (\<forall>g. r = Some g \<longrightarrow> (\<exists>i < length cs. gave place P sz g (cs ! i) (cs' ! i)))"

lemma gave_in_None: "gave_in place P sz None cs cs' \<longleftrightarrow> list_all2 (evolved place P) cs cs'"
  by (simp add: gave_in_def)

lemma gave_in_here:
  assumes "gave place P sz g c c'" "list_all (chunk_ok place) cs"
  shows "gave_in place P sz (Some g) (c # cs) (c' # cs)"
proof -
  have "evolved place P c c'" using assms(1) by (simp add: gave_def)
  moreover have "\<exists>i < length (c # cs). gave place P sz g ((c # cs) ! i) ((c' # cs) ! i)"
    using assms(1) by (intro exI [of _ 0]) simp
  ultimately show ?thesis using list_evolved_refl [OF assms(2)] by (simp add: gave_in_def)
qed

lemma gave_in_later:
  assumes "evolved place P c c'" "gave_in place P sz r cs cs'"
  shows "gave_in place P sz r (c # cs) (c' # cs')"
proof -
  have "\<exists>i < length (c # cs). gave place P sz g ((c # cs) ! i) ((c' # cs') ! i)" if "r = Some g" for g
  proof -
    from assms(2) that obtain i where "i < length cs" "gave place P sz g (cs ! i) (cs' ! i)" by (auto simp: gave_in_def)
    then show ?thesis by (intro exI [of _ "Suc i"]) simp
  qed
  with assms show ?thesis by (auto simp: gave_in_def)
qed

lemma gave_in_trans:
  assumes "list_all2 (evolved place P) cs cs1" "gave_in place P sz r cs1 cs'"
  shows "gave_in place P sz r cs cs'"
proof -
  have "list_all2 (evolved place P) cs cs'"
    using assms by (auto simp: gave_in_def intro: list_all2_trans [OF evolved_trans])
  moreover have "gave place P sz g (cs ! i) (cs' ! i)" if "i < length cs" "gave place P sz g (cs1 ! i) (cs' ! i)" for g i
    using evolved_gave [OF list_all2_nthD [OF assms(1) that(1)] that(2)] .
  ultimately show ?thesis
    using assms(2) list_all2_lengthD [OF assms(1)] unfolding gave_in_def by metis
qed

context token_source
begin

lemma alloc_without_waiting_gave:
  assumes "list_all (chunk_ok place) cs" "tok_inv h" "0 < sz"
  shows "\<exists>r t cs' h'. alloc_without_waiting ops sz n cs h = Inr (r, t, cs', h') \<and> tok_inv h' \<and>
    (\<forall>u. passed h u \<longrightarrow> passed h' u) \<and> gave_in place (passed h') sz r cs cs'"
  using assms
proof (induction cs arbitrary: n h)
  case Nil
  then show ?case by (simp add: gave_in_def)
next
  case (Cons c cs)
  obtain c1 h1 where f: "MemoryChunk_FreeUnused ops c h = (c1, h1)" by (rule prod.exhaust)
  obtain l c2 h2 where g: "MemoryChunk_GetLargestFreeSizeWithoutWaiting ops c1 h1 = (l, c2, h2)" by (metis surj_pair)
  have ok: "chunk_ok place c" "list_all (chunk_ok place) cs" using Cons.prems(1) by simp_all
  note fs = chunk_FreeUnused [OF f ok(1) Cons.prems(2)]
  have ok1: "chunk_ok place c1" using fs(2) by (simp add: evolved_def)
  note gs = chunk_GetLargest [OF g ok1 fs(1)]
  have e: "evolved place (passed h2) c c2" by (rule evolved_trans [OF evolved_mono [OF fs(2) gs(3)] gs(2)])
  show ?case
  proof (cases "sz \<le> l")
    case True
    from gs(4) [OF Cons.prems(3) True] obtain p c3 h3 where a: "MemoryChunk_Alloc ops sz c2 h2 = Inr (Some p, c3, h3)" by blast
    have ok2: "chunk_ok place c2" using e by (simp add: evolved_def)
    note as = chunk_Alloc_gave [OF a ok2 gs(1)]
    have "gave_in place (passed h3) sz (Some (p, mc_shm_id c2, MemoryChunk_GetOffset c3 (Some p))) (c # cs) (c3 # cs)"
      by (rule gave_in_here [OF evolved_gave [OF evolved_mono [OF e as(2)] as(4)] ok(2)])
    with f g True as(1-3) fs(3) gs(3) show ?thesis by simp
  next
    case False
    obtain r t cs' h3 where r: "alloc_without_waiting ops sz (u64_add n (MemoryChunk_bytes_in_use c1)) cs h2 = Inr (r, t, cs', h3)"
      "tok_inv h3" "\<forall>u. passed h2 u \<longrightarrow> passed h3 u" "gave_in place (passed h3) sz r cs cs'"
      using Cons.IH [OF ok(2) gs(1) Cons.prems(3)] by blast
    have "gave_in place (passed h3) sz r (c # cs) (c2 # cs')"
      using r(3) by (intro gave_in_later [OF evolved_mono [OF e] r(4)]) blast
    with f g False r fs(3) gs(3) show ?thesis by simp
  qed
qed

end

context live_token_source
begin

lemma chunk_Alloc_returns:
  assumes "chunk_ok place c" "tok_inv h" "0 < sz" "sz \<le> MemoryChunk_GetLargestFreeSizeWithWaiting c"
  shows "\<exists>p c' h'. MemoryChunk_Alloc ops sz c h = Inr (Some p, c', h')"
proof -
  have inv: "fa_inv (buf_size (mc_shm c) div 16 * 16) (chunk_allocator c)" using assms(1) by (simp add: chunk_ok_def)
  have "sz \<le> FencedAllocator_GetLargestFreeOrPendingSize (chunk_allocator c)"
    using assms(4) by (simp add: MemoryChunk_GetLargestFreeSizeWithWaiting_def FencedAllocatorWrapper_GetLargestFreeOrPendingSize_def)
  from fa_Alloc_returns [OF inv assms(2,3) this] show ?thesis
    by (auto simp: MemoryChunk_Alloc_def FencedAllocatorWrapper_Alloc_def FencedAllocatorWrapper_GetPointer_def)
qed

lemma alloc_with_waiting_gave:
  assumes "list_all (chunk_ok place) cs" "tok_inv h" "0 < sz"
  shows "\<exists>r cs' h'. alloc_with_waiting ops sz cs h = Inr (r, cs', h') \<and> tok_inv h' \<and>
    (\<forall>u. passed h u \<longrightarrow> passed h' u) \<and> gave_in place (passed h') sz r cs cs'"
  using assms
proof (induction cs arbitrary: h)
  case Nil
  then show ?case by (simp add: gave_in_def)
next
  case (Cons c cs)
  have ok: "chunk_ok place c" "list_all (chunk_ok place) cs" using Cons.prems(1) by simp_all
  show ?case
  proof (cases "sz \<le> MemoryChunk_GetLargestFreeSizeWithWaiting c")
    case True
    from chunk_Alloc_returns [OF ok(1) Cons.prems(2,3) True] obtain p c1 h1 where
      a: "MemoryChunk_Alloc ops sz c h = Inr (Some p, c1, h1)" by blast
    note as = chunk_Alloc_gave [OF a ok(1) Cons.prems(2)]
    from gave_in_here [OF as(4) ok(2)] True as(1-3) show ?thesis by simp
  next
    case False
    obtain r cs' h1 where r: "alloc_with_waiting ops sz cs h = Inr (r, cs', h1)" "tok_inv h1"
      "\<forall>u. passed h u \<longrightarrow> passed h1 u" "gave_in place (passed h1) sz r cs cs'"
      using Cons.IH [OF ok(2) Cons.prems(2,3)] by blast
    with gave_in_later [OF evolved_refl [OF ok(1)] r(4)] False show ?thesis by simp
  qed
qed

lemma alloc_from_chunks_gave:
  assumes "list_all (chunk_ok place) (mm_chunks m)" "tok_inv h" "0 < sz"
  shows "\<exists>r cs' h'. alloc_from_chunks ops sz m h = Inr (r, m\<lparr>mm_chunks := cs'\<rparr>, h') \<and> tok_inv h' \<and>
    (\<forall>u. passed h u \<longrightarrow> passed h' u) \<and> gave_in place (passed h') sz r (mm_chunks m) cs'"
proof (cases "sz \<le> mm_allocated_memory m")
  case False
  with assms list_evolved_refl [OF assms(1)] show ?thesis
    by (intro exI [of _ None] exI [of _ "mm_chunks m"] exI [of _ h]) (simp add: alloc_from_chunks_def gave_in_def)
next
  case True
  obtain r t cs1 h1 where r: "alloc_without_waiting ops sz 0 (mm_chunks m) h = Inr (r, t, cs1, h1)" "tok_inv h1"
    "\<forall>u. passed h u \<longrightarrow> passed h1 u" "gave_in place (passed h1) sz r (mm_chunks m) cs1"
    using alloc_without_waiting_gave [OF assms] by blast
  show ?thesis
  proof (cases "r = None \<and> mm_max_free_bytes m \<noteq> kNoLimit \<and> u64_sub (mm_allocated_memory m) t \<ge> mm_max_free_bytes m")
    case False
    with True r show ?thesis by (auto simp: alloc_from_chunks_def)
  next
    case wait: True
    with r(4) have e: "list_all2 (evolved place (passed h1)) (mm_chunks m) cs1" by (simp add: gave_in_None)
    then have ok: "list_all (chunk_ok place) cs1" using list_evolved_same by blast
    obtain r2 cs2 h2 where w: "alloc_with_waiting ops sz cs1 h1 = Inr (r2, cs2, h2)" "tok_inv h2"
      "\<forall>u. passed h1 u \<longrightarrow> passed h2 u" "gave_in place (passed h2) sz r2 cs1 cs2"
      using alloc_with_waiting_gave [OF ok r(2) assms(3)] by blast
    have "gave_in place (passed h2) sz r2 (mm_chunks m) cs2"
      using w(3) by (intro gave_in_trans [OF list_evolved_mono [OF e] w(4)]) blast
    with True r wait w show ?thesis by (auto simp: alloc_from_chunks_def)
  qed
qed

end

text \<open>A new chunk: the size rounded up to the multiple, and nothing allocated in it.\<close>

lemma new_chunk_size_eq:
  assumes "mm_inv place n m" "0 < sz" "sz + mm_chunk_size_multiple m \<le> 2 ^ 32"
  shows "sz \<le> new_chunk_size sz m" "16 dvd new_chunk_size sz m" "new_chunk_size sz m < 2 ^ 32"
proof -
  let ?k = "mm_chunk_size_multiple m"
  obtain k where k: "4 \<le> k" "?k = 2 ^ k" using assms(1) by (auto simp: mm_inv_def)
  have k0: "0 < ?k" using k by simp
  have "u32_sub (u32_add sz ?k) 1 = sz + ?k - 1" using u32_add_sub_one [of sz ?k] assms(2,3) by simp
  then have e: "new_chunk_size sz m = (sz + ?k - 1) div ?k * ?k"
    using u32_clear_low_eq [of "sz + ?k - 1" k] assms(2,3) k(2) by (simp add: new_chunk_size_def)
  have "(16 :: nat) dvd 2 ^ k" using le_imp_power_dvd [OF k(1), of "2 :: nat"] by simp
  with e k(2) show "16 dvd new_chunk_size sz m" by simp
  have "(sz + ?k - 1) div ?k * ?k \<le> sz + ?k - 1" by simp
  with e assms(2,3) show "new_chunk_size sz m < 2 ^ 32" by linarith
  show "sz \<le> new_chunk_size sz m" using div_mult_round_up(1) [OF k0, of sz] e by simp
qed

lemma new_MemoryChunk_ok:
  assumes "buf_size b < 2 ^ 32" "16 dvd buf_size b" "0 < buf_size b"
  shows "chunk_ok place (new_MemoryChunk place bid b)" "occupied (chunk_allocator (new_MemoryChunk place bid b)) = []"
    "MemoryChunk_GetLargestFreeSizeWithWaiting (new_MemoryChunk place bid b) = buf_size b"
    "mc_shm (new_MemoryChunk place bid b) = b" "mc_shm_id (new_MemoryChunk place bid b) = bid"
proof -
  have b: "16 \<le> buf_size b" "buf_size b div 16 * 16 = buf_size b" using assms(2,3) by (auto elim!: dvdE)
  have r: "RoundDown (buf_size b) = buf_size b"
    using u32_clear_low_eq [OF assms(1), of 4] b(2) by (simp add: RoundDown_def kAllocAlignment_def)
  note d = new_MemoryChunk_def new_FencedAllocatorWrapper_def
  show "chunk_ok place (new_MemoryChunk place bid b)"
    using new_FencedAllocator_inv [OF b(1) assms(1)] b assms(1) by (simp add: chunk_ok_def d)
  show "occupied (chunk_allocator (new_MemoryChunk place bid b)) = []" by (simp add: d occupied_def new_FencedAllocator_def)
  show "MemoryChunk_GetLargestFreeSizeWithWaiting (new_MemoryChunk place bid b) = buf_size b"
    using r assms(1) by (simp add: d MemoryChunk_GetLargestFreeSizeWithWaiting_def u32_add_def new_FencedAllocator_def
        FencedAllocatorWrapper_GetLargestFreeOrPendingSize_def FencedAllocator_GetLargestFreeOrPendingSize_def)
  show "mc_shm (new_MemoryChunk place bid b) = b" "mc_shm_id (new_MemoryChunk place bid b) = bid" by (simp_all add: d)
qed

lemma mm_inv_evolved:
  assumes "mm_inv place n m" "list_all2 (evolved place P) (mm_chunks m) cs"
  shows "mm_inv place n (m\<lparr>mm_chunks := cs\<rparr>)"
proof -
  have e: "map mc_shm cs = map mc_shm (mm_chunks m)" "list_all (chunk_ok place) cs"
    using list_evolved_same [OF assms(2)] by simp_all
  have sh: "set (map mc_shm cs) = set (map mc_shm (mm_chunks m))" using e(1) by simp
  have "map (f \<circ> mc_shm) cs = map (f \<circ> mc_shm) (mm_chunks m)" for f :: "gpu_buffer \<Rightarrow> nat"
    using e(1) by (simp flip: map_map)
  from this [of buf_memory] this [of buf_size]
  have "map (buf_memory \<circ> mc_shm) cs = map (buf_memory \<circ> mc_shm) (mm_chunks m)"
    "map MemoryChunk_GetSize cs = map MemoryChunk_GetSize (mm_chunks m)"
    by (simp_all add: comp_def MemoryChunk_GetSize_def [abs_def])
  moreover have "\<forall>c \<in> set cs. buf_memory (mc_shm c) < n"
  proof
    fix c assume "c \<in> set cs"
    then have "mc_shm c \<in> set (map mc_shm (mm_chunks m))" using sh by auto
    with assms(1) show "buf_memory (mc_shm c) < n" by (auto simp: mm_inv_def)
  qed
  ultimately show ?thesis using assms(1) e(2) by (simp add: mm_inv_def)
qed

lemma delete_MemoryChunk_idle: "MemoryChunk_bytes_in_use c = 0 \<Longrightarrow> delete_MemoryChunk c = Inr ()"
  by (simp add: delete_MemoryChunk_def delete_FencedAllocator_def MemoryChunk_bytes_in_use_def FencedAllocatorWrapper_bytes_in_use_def)

context buffer_source
begin

lemma alloc_new_chunk_gave:
  assumes "mm_inv place n m" "inv n (h, w)" "0 < sz" "sz + mm_chunk_size_multiple m \<le> 2 ^ 32"
  shows "\<exists>r m' x' n' new. alloc_new_chunk cb place sz m (h, w) = Inr (r, m', x') \<and> n \<le> n' \<and> inv n' x' \<and> mm_inv place n' m' \<and>
    (\<forall>u. passed (h, w) u \<longrightarrow> passed x' u) \<and> (\<forall>c \<in> set new. chunk_ok place c \<and> occupied (chunk_allocator c) = []) \<and>
    gave_in place (passed x') sz r (mm_chunks m @ new) (mm_chunks m')"
proof -
  note ns = new_chunk_size_eq [OF assms(1,3,4)]
  obtain bo bid w' where c: "cb_CreateTransferBuffer cb (new_chunk_size sz m) w = (bo, bid, w')" by (metis surj_pair)
  note cr = create [OF assms(2) ns(3) c]
  have ok: "list_all (chunk_ok place) (mm_chunks m)" using assms(1) by (simp add: mm_inv_def)
  show ?thesis
  proof (cases "bid < 0")
    case True
    with c cr assms(1) list_evolved_refl [OF ok] show ?thesis
      by (intro exI [of _ None] exI [of _ m] exI [of _ "(h, w')"] exI [of _ n] exI [of _ "[]"])
        (simp add: alloc_new_chunk_def gave_in_def)
  next
    case False
    with cr obtain b where b: "bo = Some b" "buf_size b = new_chunk_size sz m" "n \<le> buf_memory b" "inv (Suc (buf_memory b)) (h, w')"
      by auto
    let ?c = "new_MemoryChunk place bid b" and ?n = "Suc (buf_memory b)"
    have bs: "buf_size b < 2 ^ 32" "16 dvd buf_size b" "0 < buf_size b" using ns b(2) assms(3) by simp_all
    note nc = new_MemoryChunk_ok [OF bs, of place bid]
    have le: "sz \<le> MemoryChunk_GetLargestFreeSizeWithWaiting ?c" using ns(1) nc(3) b(2) by simp
    from tok.chunk_Alloc_returns [OF nc(1) b(4) assms(3) le] obtain p c' x' where
      a: "MemoryChunk_Alloc (helper_token_ops cb) sz ?c (h, w') = Inr (Some p, c', x')" by blast
    note ag = tok.chunk_Alloc_gave [OF a nc(1) b(4)]
    let ?g = "(p, mc_shm_id ?c, MemoryChunk_GetOffset c' (Some p))"
    let ?m = "m\<lparr>mm_allocated_memory := u64_add (mm_allocated_memory m) (MemoryChunk_GetSize ?c), mm_chunks := mm_chunks m @ [c']\<rparr>"
    have e: "evolved place (passed x') ?c c'" using ag(4) by (simp add: gave_def)
    have l: "list_all2 (evolved place (passed x')) (mm_chunks m @ [?c]) (mm_chunks m @ [c'])"
      using list_evolved_refl [OF ok] e by (simp add: list_all2_appendI)
    have "gave_in place (passed x') sz (Some ?g) (mm_chunks m @ [?c]) (mm_chunks ?m)"
      using l ag(4) by (auto simp: gave_in_def nth_append intro!: exI [of _ "length (mm_chunks m)"])
    moreover have "mm_inv place ?n ?m"
      using assms(1) b(3) e nc(4) bs
      by (auto simp: mm_inv_def evolved_def u64_add_def mod_add_left_eq MemoryChunk_GetSize_def less_Suc_eq_le)
    moreover have "alloc_new_chunk cb place sz m (h, w) = Inr (Some ?g, ?m, x')"
      using c False b(1) ag(3) by (simp add: alloc_new_chunk_def Let_def)
    moreover have "\<forall>u. passed (h, w) u \<longrightarrow> passed x' u" using cr ag(2) by blast
    ultimately show ?thesis
      using ag(1) b(3) nc(1,2) by (intro exI [of _ "Some ?g"] exI [of _ ?m] exI [of _ x'] exI [of _ ?n] exI [of _ "[?c]"]) simp
  qed
qed

lemma Alloc_gave:
  assumes "mm_inv place n m" "inv n x" "0 < sz" "sz + mm_chunk_size_multiple m \<le> 2 ^ 32"
  shows "\<exists>r m' x' n' new. MappedMemoryManager_Alloc cb place sz m x = Inr (r, m', x') \<and> n \<le> n' \<and> inv n' x' \<and> mm_inv place n' m' \<and>
    (\<forall>u. passed x u \<longrightarrow> passed x' u) \<and> (\<forall>c \<in> set new. chunk_ok place c \<and> occupied (chunk_allocator c) = []) \<and>
    gave_in place (passed x') sz r (mm_chunks m @ new) (mm_chunks m')"
proof -
  have ok: "list_all (chunk_ok place) (mm_chunks m)" using assms(1) by (simp add: mm_inv_def)
  obtain r cs x1 where f: "alloc_from_chunks (helper_token_ops cb) sz m x = Inr (r, m\<lparr>mm_chunks := cs\<rparr>, x1)" "inv n x1"
    "\<forall>u. passed x u \<longrightarrow> passed x1 u" "gave_in place (passed x1) sz r (mm_chunks m) cs"
    using tok.alloc_from_chunks_gave [OF ok assms(2,3)] by blast
  let ?m = "m\<lparr>mm_chunks := cs\<rparr>"
  have e: "list_all2 (evolved place (passed x1)) (mm_chunks m) cs" using f(4) by (simp add: gave_in_def)
  have i: "mm_inv place n ?m" by (rule mm_inv_evolved [OF assms(1) e])
  let ?full = "mm_max_allocated_bytes m \<noteq> kNoLimit \<and> u64_add (mm_allocated_memory m) sz > mm_max_allocated_bytes m"
  show ?thesis
  proof (cases "r \<noteq> None \<or> ?full")
    case True
    then have "MappedMemoryManager_Alloc cb place sz m x = Inr (r, ?m, x1)"
      using f(1) by (cases r) (auto simp: MappedMemoryManager_Alloc_def)
    with f i show ?thesis
      by (intro exI [of _ r] exI [of _ ?m] exI [of _ x1] exI [of _ n] exI [of _ "[]"]) simp
  next
    case False
    obtain h1 w1 where x1: "x1 = (h1, w1)" by (rule prod.exhaust)
    have eq: "MappedMemoryManager_Alloc cb place sz m x = alloc_new_chunk cb place sz ?m (h1, w1)"
      using f(1) False x1 by (auto simp: MappedMemoryManager_Alloc_def)
    obtain r2 m' x' n' new where a: "alloc_new_chunk cb place sz ?m (h1, w1) = Inr (r2, m', x')" "n \<le> n'" "inv n' x'" "mm_inv place n' m'"
      "\<forall>u. passed (h1, w1) u \<longrightarrow> passed x' u" "\<forall>c \<in> set new. chunk_ok place c \<and> occupied (chunk_allocator c) = []"
      "gave_in place (passed x') sz r2 (mm_chunks ?m @ new) (mm_chunks m')"
      using alloc_new_chunk_gave [OF i, of h1 w1 sz] f(2) x1 assms(3,4) by auto
    have mono: "passed x1 u \<Longrightarrow> passed x' u" for u using a(5) x1 by blast
    have "list_all2 (evolved place (passed x')) new new" using a(6) by (intro list_evolved_refl) (simp add: list_all_iff)
    with list_evolved_mono [OF e mono] have "list_all2 (evolved place (passed x')) (mm_chunks m @ new) (mm_chunks ?m @ new)"
      by (simp add: list_all2_appendI)
    from gave_in_trans [OF this a(7)] eq a f(3) x1 show ?thesis by auto
  qed
qed

lemma free_unused_chunks_returns:
  assumes "list_all (chunk_ok place) cs" "inv n x"
  shows "\<exists>cs' x'. free_unused_chunks cb cs a x =
      Inr (filter (\<lambda>c. MemoryChunk_bytes_in_use c \<noteq> 0) cs',
           foldl u64_sub a (map MemoryChunk_GetSize (filter (\<lambda>c. MemoryChunk_bytes_in_use c = 0) cs)), x') \<and>
    inv n x' \<and> (\<forall>u. passed x u \<longrightarrow> passed x' u) \<and> list_all2 (evolved place (passed x')) cs cs' \<and>
    list_all2 (\<lambda>c c'. MemoryChunk_bytes_in_use c' = MemoryChunk_bytes_in_use c) cs cs'"
  using assms
proof (induction cs arbitrary: a x)
  case Nil
  then show ?case by simp
next
  case (Cons c cs)
  have ok: "chunk_ok place c" "list_all (chunk_ok place) cs" using Cons.prems(1) by simp_all
  obtain c1 x1 where f: "MemoryChunk_FreeUnused (helper_token_ops cb) c x = (c1, x1)" by (rule prod.exhaust)
  note fs = tok.chunk_FreeUnused [OF f ok(1) Cons.prems(2)]
  let ?drop = "MemoryChunk_bytes_in_use c1 = 0"
  let ?bar = "if MemoryChunk_InUseOrFreePending c1 then Helper_OrderingBarrier cb x1 else Inr x1"
  obtain x2 where b: "?bar = Inr x2" "inv n x2" "\<forall>u. passed x1 u \<longrightarrow> passed x2 u"
    using barrier [OF fs(1)] fs(1) by (cases "MemoryChunk_InUseOrFreePending c1") auto
  obtain w where d: "cb_DestroyTransferBuffer cb (mc_shm_id c1) (snd x2) = Inr w" "inv n (fst x2, w)"
    "\<forall>u. passed x2 u \<longrightarrow> passed (fst x2, w) u"
    using destroy [of n "fst x2" "snd x2" "mc_shm_id c1"] b(2) by auto
  define x3 where "x3 = (if ?drop then (fst x2, w) else x1)"
  define a3 where "a3 = (if ?drop then u64_sub a (MemoryChunk_GetSize c1) else a)"
  have i3: "inv n x3" "\<forall>u. passed x1 u \<longrightarrow> passed x3 u" using fs(1) b(3) d by (auto simp: x3_def)
  obtain cs' x' where r: "free_unused_chunks cb cs a3 x3 = Inr (filter (\<lambda>c. MemoryChunk_bytes_in_use c \<noteq> 0) cs',
       foldl u64_sub a3 (map MemoryChunk_GetSize (filter (\<lambda>c. MemoryChunk_bytes_in_use c = 0) cs)), x')" "inv n x'"
    "\<forall>u. passed x3 u \<longrightarrow> passed x' u" "list_all2 (evolved place (passed x')) cs cs'"
    "list_all2 (\<lambda>c c'. MemoryChunk_bytes_in_use c' = MemoryChunk_bytes_in_use c) cs cs'"
    using Cons.IH [OF ok(2) i3(1), of a3] by blast
  have e: "evolved place (passed x') c c1" using evolved_mono [OF fs(2)] i3(2) r(3) by blast
  have sz: "MemoryChunk_GetSize c1 = MemoryChunk_GetSize c" using fs(2) by (simp add: evolved_def MemoryChunk_GetSize_def)
  have "free_unused_chunks cb (c # cs) a x = Inr (filter (\<lambda>c. MemoryChunk_bytes_in_use c \<noteq> 0) (c1 # cs'),
      foldl u64_sub a (map MemoryChunk_GetSize (filter (\<lambda>c. MemoryChunk_bytes_in_use c = 0) (c # cs))), x')"
    using f b(1) d(1) r(1) fs(4) sz delete_MemoryChunk_idle [of c1] by (cases ?drop) (simp_all add: x3_def a3_def)
  moreover have "\<forall>u. passed x u \<longrightarrow> passed x' u" using fs(3) i3(2) r(3) by blast
  ultimately show ?case
    using r(2,4,5) e fs(4) by (intro exI [of _ "c1 # cs'"] exI [of _ x']) simp
qed

lemma destroy_chunks_returns:
  assumes "inv n x"
  shows "\<exists>x'. destroy_chunks cb cs x = Inr x' \<and> inv n x'"
  using assms
proof (induction cs arbitrary: x)
  case (Cons c cs)
  obtain w where "cb_DestroyTransferBuffer cb (mc_shm_id c) (snd x) = Inr w" "inv n (fst x, w)"
    using destroy [of n "fst x" "snd x" "mc_shm_id c"] Cons.prems by auto
  with Cons.IH show ?case by simp
qed simp

lemma delete_manager_returns:
  assumes "inv n x" "\<forall>c \<in> set (mm_chunks m). MemoryChunk_bytes_in_use c = 0"
  shows "\<exists>x'. delete_MappedMemoryManager cb m x = Inr x' \<and> inv n x'"
proof -
  obtain x1 where "Helper_OrderingBarrier cb x = Inr x1" "inv n x1" using barrier [OF assms(1)] by blast
  moreover from this obtain x2 where "destroy_chunks cb (mm_chunks m) x1 = Inr x2" "inv n x2" using destroy_chunks_returns by blast
  moreover have "delete_chunks cs = Inr ()" if "\<forall>c \<in> set cs. MemoryChunk_bytes_in_use c = 0" for cs
    using that by (induction cs) (auto simp: delete_MemoryChunk_idle)
  ultimately show ?thesis using assms(2) by (simp add: delete_MappedMemoryManager_def)
qed

end

section \<open>Freeing\<close>

text \<open>\<^verbatim>\<open>FreeUnused\<close> keeps the invariant: what it takes off \<^verbatim>\<open>allocated_memory_\<close> is what it destroys.\<close>

lemma foldl_u64_sub:
  "foldl u64_sub ((a + sum_list xs) mod 2 ^ 64) xs = a mod 2 ^ 64"
proof (induction xs)
  case (Cons x xs)
  have "u64_sub ((a + (x + sum_list xs)) mod 2 ^ 64) x = (a + sum_list xs) mod 2 ^ 64"
  proof -
    have "u64_sub (y mod 2 ^ 64) x = (y - x) mod 2 ^ 64" if "x \<le> y" for y
    proof -
      have "int (u64_sub (y mod 2 ^ 64) x) = (int (y mod 2 ^ 64) + 2 ^ 64 - int (x mod 2 ^ 64)) mod 2 ^ 64"
        by (simp add: u64_sub_def zmod_int of_nat_diff less_imp_le_nat trans_le_add2)
      also have "\<dots> = (int (y mod 2 ^ 64) - int (x mod 2 ^ 64)) mod 2 ^ 64"
        using mod_add_self2 [of "int (y mod 2 ^ 64) - int (x mod 2 ^ 64)" "2 ^ 64"] by (simp only: diff_add_eq)
      also have "\<dots> = (int y - int x) mod 2 ^ 64" by (simp add: zmod_int mod_diff_eq)
      also have "\<dots> = int ((y - x) mod 2 ^ 64)" using that by (simp add: zmod_int of_nat_diff)
      finally show ?thesis by (simp only: of_nat_eq_iff)
    qed
    from this [of "a + (x + sum_list xs)"] show ?thesis by simp
  qed
  with Cons show ?case by simp
qed simp

lemma sum_list_filter_split:
  fixes f :: "'a \<Rightarrow> nat"
  shows "sum_list (map f (filter P xs)) + sum_list (map f (filter (\<lambda>x. \<not> P x) xs)) = sum_list (map f xs)"
  by (induction xs) auto

lemma mm_inv_FreeUnused:
  assumes "mm_inv place n m" "list_all2 (evolved place P) (mm_chunks m) cs"
    "list_all2 (\<lambda>c c'. MemoryChunk_bytes_in_use c' = MemoryChunk_bytes_in_use c) (mm_chunks m) cs"
  shows "mm_inv place n (m\<lparr>mm_chunks := filter (\<lambda>c. MemoryChunk_bytes_in_use c \<noteq> 0) cs,
    mm_allocated_memory := foldl u64_sub (mm_allocated_memory m)
      (map MemoryChunk_GetSize (filter (\<lambda>c. MemoryChunk_bytes_in_use c = 0) (mm_chunks m)))\<rparr>)"
proof -
  let ?used = "\<lambda>c. MemoryChunk_bytes_in_use c \<noteq> 0"
  have i: "mm_inv place n (m\<lparr>mm_chunks := cs\<rparr>)" by (rule mm_inv_evolved [OF assms(1,2)])
  have "map MemoryChunk_GetSize (filter ?used bs) = map MemoryChunk_GetSize (filter ?used as)"
    if "list_all2 (evolved place P) as bs" "list_all2 (\<lambda>c c'. MemoryChunk_bytes_in_use c' = MemoryChunk_bytes_in_use c) as bs" for as bs
    using that by (induction as arbitrary: bs) (auto simp: list_all2_Cons1 evolved_def MemoryChunk_GetSize_def)
  from this [OF assms(2,3)]
  have "map MemoryChunk_GetSize (filter ?used cs) = map MemoryChunk_GetSize (filter ?used (mm_chunks m))" .
  then have "foldl u64_sub (mm_allocated_memory m) (map MemoryChunk_GetSize (filter (\<lambda>c. \<not> ?used c) (mm_chunks m)))
      = sum_list (map MemoryChunk_GetSize (filter ?used cs)) mod 2 ^ 64"
    using assms(1) foldl_u64_sub [of "sum_list (map MemoryChunk_GetSize (filter ?used cs))"
        "map MemoryChunk_GetSize (filter (\<lambda>c. \<not> ?used c) (mm_chunks m))"]
      sum_list_filter_split [of MemoryChunk_GetSize ?used "mm_chunks m"] by (simp add: mm_inv_def)
  with i show ?thesis by (auto simp: mm_inv_def list_all_iff distinct_map_filter)
qed

text \<open>The chunks are mapped apart from each other.\<close>

definition apart :: "(nat \<Rightarrow> addr) \<Rightarrow> memory_chunk list \<Rightarrow> bool" where
  "apart place cs \<longleftrightarrow> (\<forall>c \<in> set cs. \<forall>d \<in> set cs. buf_memory (mc_shm c) \<noteq> buf_memory (mc_shm d) \<longrightarrow>
     place (buf_memory (mc_shm c)) + int (buf_size (mc_shm c)) \<le> place (buf_memory (mc_shm d)) \<or>
     place (buf_memory (mc_shm d)) + int (buf_size (mc_shm d)) \<le> place (buf_memory (mc_shm c)))"

lemma in_chunk_found:
  assumes "\<forall>d \<in> set xs. \<not> MemoryChunk_IsInChunk place p d" "MemoryChunk_IsInChunk place p c"
  shows "in_chunk place p f (xs @ c # ys) = res_bind (f c) (\<lambda>c1. Inr (xs @ c1 # ys))"
    "List.find (MemoryChunk_IsInChunk place p) (xs @ c # ys) = Some c"
  using assms by (induction xs) (cases "f c"; simp)+

text \<open>The pointer to a block that was given out leads back to its chunk.\<close>

lemma block_in_chunk:
  assumes "mm_inv place n m" "apart place (mm_chunks m)" "mm_chunks m = xs @ c # ys" "b \<in> set (occupied (chunk_allocator c))"
  defines "p \<equiv> place (buf_memory (mc_shm c)) + int (fa_offset b)"
  shows "\<forall>d \<in> set xs. \<not> MemoryChunk_IsInChunk place p d" "MemoryChunk_IsInChunk place p c"
    "MemoryChunk_GetOffset c (Some p) = fa_offset b" "FencedAllocatorWrapper_GetOffset (mc_allocator c) (Some p) = fa_offset b"
proof -
  have ok: "chunk_ok place c" using assms(1,3) by (simp add: mm_inv_def)
  then have inv: "fa_inv (buf_size (mc_shm c) div 16 * 16) (chunk_allocator c)" by (simp add: chunk_ok_def)
  obtain us vs where "fa_blocks (chunk_allocator c) = us @ b # vs" by (rule occupied_split [OF inv assms(4)])
  from fa_inv_bounds [OF inv this] have "fa_offset b < buf_size (mc_shm c) div 16 * 16" by linarith
  also have "\<dots> \<le> buf_size (mc_shm c)" by simp
  finally have lt: "fa_offset b < buf_size (mc_shm c)" .
  then show "MemoryChunk_IsInChunk place p c" by (simp add: MemoryChunk_IsInChunk_def p_def)
  have "buf_memory (mc_shm c) \<notin> (buf_memory \<circ> mc_shm) ` set xs" using assms(1,3) by (auto simp: mm_inv_def)
  then have "buf_memory (mc_shm d) \<noteq> buf_memory (mc_shm c)" if "d \<in> set xs" for d using that by (metis comp_apply image_eqI)
  with assms(2,3) lt show "\<forall>d \<in> set xs. \<not> MemoryChunk_IsInChunk place p d"
    by (fastforce simp: apart_def MemoryChunk_IsInChunk_def p_def)
  show "FencedAllocatorWrapper_GetOffset (mc_allocator c) (Some p) = fa_offset b"
    using ok lt by (simp add: FencedAllocatorWrapper_GetOffset_def p_def chunk_ok_def u32_of_int_small)
  then show "MemoryChunk_GetOffset c (Some p) = fa_offset b" by (simp add: MemoryChunk_GetOffset_def)
qed

lemma mm_inv_replace:
  assumes "mm_inv place n m" "mm_chunks m = xs @ c # ys" "chunk_ok place c'" "mc_shm c' = mc_shm c"
  shows "mm_inv place n (m\<lparr>mm_chunks := xs @ c' # ys\<rparr>)"
  using assms by (simp add: mm_inv_def MemoryChunk_GetSize_def)

lemma mm_Free_returns:
  assumes "mm_inv place n m" "apart place (mm_chunks m)" "mm_chunks m = xs @ c # ys" "b \<in> set (occupied (chunk_allocator c))"
  shows "\<exists>c'. MappedMemoryManager_Free place (place (buf_memory (mc_shm c)) + int (fa_offset b)) m = Inr (m\<lparr>mm_chunks := xs @ c' # ys\<rparr>) \<and>
    mm_inv place n (m\<lparr>mm_chunks := xs @ c' # ys\<rparr>) \<and> mc_shm c' = mc_shm c \<and> mc_shm_id c' = mc_shm_id c \<and>
    occupied (chunk_allocator c') = remove1 b (occupied (chunk_allocator c))"
proof -
  note bc = block_in_chunk [OF assms]
  have ok: "chunk_ok place c" using assms(1,3) by (simp add: mm_inv_def)
  then obtain a where a: "FencedAllocator_Free (fa_offset b) (chunk_allocator c) = Inr a" "fa_inv (buf_size (mc_shm c) div 16 * 16) a"
    "occupied a = remove1 b (occupied (chunk_allocator c))"
    using Free_occupied [OF _ assms(4)] by (auto simp: chunk_ok_def)
  let ?c = "c\<lparr>mc_allocator := (mc_allocator c)\<lparr>fw_allocator := a\<rparr>\<rparr>"
  have "chunk_ok place ?c" using ok a(2) by (simp add: chunk_ok_def)
  with mm_inv_replace [OF assms(1,3) this] in_chunk_found(1) [OF bc(1,2)] bc(4) a assms(3) show ?thesis
    by (intro exI [of _ ?c]) (simp add: MappedMemoryManager_Free_def MemoryChunk_Free_def FencedAllocatorWrapper_Free_def)
qed

lemma mm_FreePendingToken_returns:
  assumes "mm_inv place n m" "apart place (mm_chunks m)" "mm_chunks m = xs @ c # ys" "b \<in> set (occupied (chunk_allocator c))"
    and "0 \<le> t" "t < 2 ^ 31"
  shows "\<exists>c'. MappedMemoryManager_FreePendingToken place (place (buf_memory (mc_shm c)) + int (fa_offset b)) t m =
      Inr (m\<lparr>mm_chunks := xs @ c' # ys\<rparr>) \<and>
    mm_inv place n (m\<lparr>mm_chunks := xs @ c' # ys\<rparr>) \<and> mc_shm c' = mc_shm c \<and> mc_shm_id c' = mc_shm_id c \<and>
    set (occupied (chunk_allocator c')) =
      insert (b\<lparr>fa_state := FA_FREE_PENDING_TOKEN, fa_token := t\<rparr>) (set (occupied (chunk_allocator c)) - {b})"
proof -
  note bc = block_in_chunk [OF assms(1-4)]
  have ok: "chunk_ok place c" using assms(1,3) by (simp add: mm_inv_def)
  have t: "i32_of_u32 (u32_of_int t) = t" using assms(5,6) by (simp add: u32_of_int_small i32_of_u32_small)
  from ok obtain a where a: "FencedAllocator_FreePendingToken (fa_offset b) t (chunk_allocator c) = Inr a"
    "fa_inv (buf_size (mc_shm c) div 16 * 16) a"
    "set (occupied a) = insert (b\<lparr>fa_state := FA_FREE_PENDING_TOKEN, fa_token := t\<rparr>) (set (occupied (chunk_allocator c)) - {b})"
    using FreePendingToken_occupied [OF _ assms(4,5)] by (auto simp: chunk_ok_def)
  let ?c = "c\<lparr>mc_allocator := (mc_allocator c)\<lparr>fw_allocator := a\<rparr>\<rparr>"
  have "chunk_ok place ?c" using ok a(2) by (simp add: chunk_ok_def)
  with mm_inv_replace [OF assms(1,3) this] in_chunk_found(1) [OF bc(1,2)] bc(4) a assms(3) t show ?thesis
    by (intro exI [of _ ?c])
      (simp add: MappedMemoryManager_FreePendingToken_def MemoryChunk_FreePendingToken_def FencedAllocatorWrapper_FreePendingToken_def)
qed

section \<open>The direct command buffer as a source of buffers\<close>

interpretation direct_buffers: buffer_source "direct (GetCommandBufferSliceSize s)" tokens_above token_passed for s
proof (rule buffer_source.intro)
  fix n sz bo bid h and w w' :: "'x dworld" and x :: "'x dworld hworld"
  let ?cb = "direct (GetCommandBufferSliceSize s) :: 'x dworld command_buffer"
  show "live_token_source (helper_token_ops ?cb) (tokens_above n) token_passed" by (rule direct_tokens.live_token_source_axioms)
  show "tokens_above n (h, w') \<and> (\<forall>u. token_passed (h, w) u \<longrightarrow> token_passed (h, w') u) \<and>
      (bid = -1 \<or> 0 \<le> bid \<and> (\<exists>b. bo = Some b \<and> buf_size b = sz \<and> n \<le> buf_memory b \<and> tokens_above (Suc (buf_memory b)) (h, w')))"
    if "tokens_above n (h, w)" "sz < 2 ^ 32" "cb_CreateTransferBuffer ?cb sz w = (bo, bid, w')"
    using Create_tokens [of h w sz bo bid w'] that by (fastforce simp: tokens_above_def CommandBufferDirect_def token_passed_def)
  show "\<exists>w'. cb_DestroyTransferBuffer ?cb bid w = Inr w' \<and> tokens_above n (h, w') \<and> (\<forall>u. token_passed (h, w) u \<longrightarrow> token_passed (h, w') u)"
    if "tokens_above n (h, w)"
    using Destroy_tokens [of h w bid] that by (fastforce simp: tokens_above_def CommandBufferDirect_def token_passed_def)
  show "\<exists>x'. Helper_OrderingBarrier ?cb x = Inr x' \<and> tokens_above n x' \<and> (\<forall>u. token_passed x u \<longrightarrow> token_passed x' u)"
    if "tokens_above n x"
  proof -
    have "tokens_linked (fst x, snd x)" using that by (simp add: tokens_above_def)
    from OrderingBarrier_tokens [OF this slice_pos] that show ?thesis by (fastforce simp: tokens_above_def)
  qed
qed

end
