(* ===== verification/Transfer_Buffer.thy ===== *)
theory Transfer_Buffer
  imports Mapped_Memory Ring_Buffer
begin

text \<open>
  \<^verbatim>\<open>gpu/command_buffer/client/transfer_buffer.{h,cc}\<close>: \<^verbatim>\<open>TransferBuffer\<close>, one transfer buffer with an area
  for results at its start and a \<^verbatim>\<open>RingBuffer\<close> behind it, which grows and shrinks with what is
  allocated; and \<^verbatim>\<open>ScopedTransferBufferPtr\<close>.

  \<^verbatim>\<open>base::bits\<close> is not part of the sources: the two functions used of it are the record \<open>base_bits\<close>,
  an argument of the operations that call them, and \<open>bits_ok\<close> is what their documentation says.
\<close>

section \<open>Data\<close>

record base_bits =
  bits_AlignUp :: "u32 \<Rightarrow> u32 \<Rightarrow> u32"
  bits_Log2Ceiling :: "u32 \<Rightarrow> int"

record transfer_buffer =
  tb_ring_buffer :: "ring_buffer option"
  tb_previous_ring_buffers :: "ring_buffer list"
  tb_result_size :: u32
  tb_default_buffer_size :: u32
  tb_min_buffer_size :: u32
  tb_max_buffer_size :: u32
  tb_last_allocated_size :: u32
  tb_high_water_mark :: u32
  tb_alignment :: u32
  tb_bytes_since_last_shrink :: u32
  tb_buffer :: "gpu_buffer option"
  tb_buffer_id :: i32
  tb_result_buffer :: "addr option"
  tb_result_shm_offset :: u32
  tb_usable :: bool
  tb_outstanding_result_pointer :: bool

definition kShrinkThreshold :: u32 where
  "kShrinkThreshold = 120"

definition new_TransferBuffer :: transfer_buffer where
  "new_TransferBuffer =
     \<lparr>tb_ring_buffer = None, tb_previous_ring_buffers = [], tb_result_size = 0, tb_default_buffer_size = 0,
      tb_min_buffer_size = 0, tb_max_buffer_size = 0, tb_last_allocated_size = 0, tb_high_water_mark = 0,
      tb_alignment = 0, tb_bytes_since_last_shrink = 0, tb_buffer = None, tb_buffer_id = -1,
      tb_result_buffer = None, tb_result_shm_offset = 0, tb_usable = True, tb_outstanding_result_pointer = False\<rparr>"

section \<open>Operations\<close>

definition TransferBuffer_HaveBuffer :: "transfer_buffer \<Rightarrow> bool res" where
  "TransferBuffer_HaveBuffer tb =
     dcheck (tb_buffer_id tb = -1 \<or> tb_buffer tb \<noteq> None) (Inr (tb_buffer_id tb \<noteq> -1))"

text \<open>\<^verbatim>\<open>ring_buffer_->\<close>, and the same for an operation that changes the ring.\<close>

definition the_ring :: "transfer_buffer \<Rightarrow> (ring_buffer \<Rightarrow> 'a res) \<Rightarrow> 'a res" where
  "the_ring tb f = (case tb_ring_buffer tb of None \<Rightarrow> Inl Null_dereference | Some rb \<Rightarrow> f rb)"

definition change_ring :: "(ring_buffer \<Rightarrow> ring_buffer res) \<Rightarrow> transfer_buffer \<Rightarrow> transfer_buffer res" where
  "change_ring f tb = the_ring tb (\<lambda>rb. res_bind (f rb) (\<lambda>rb1. Inr (tb\<lparr>tb_ring_buffer := Some rb1\<rparr>)))"

definition query_ring ::
  "(ring_buffer \<Rightarrow> 'h \<Rightarrow> (u32 \<times> ring_buffer \<times> 'h) res) \<Rightarrow> transfer_buffer \<Rightarrow> 'h \<Rightarrow> (u32 \<times> transfer_buffer \<times> 'h) res" where
  "query_ring f tb h =
     res_bind (TransferBuffer_HaveBuffer tb) (\<lambda>have_buffer.
       if have_buffer
       then the_ring tb (\<lambda>rb. res_bind (f rb h) (\<lambda>(n, rb1, h1). Inr (n, tb\<lparr>tb_ring_buffer := Some rb1\<rparr>, h1)))
       else Inr (0, tb, h))"

definition TransferBuffer_GetOffset :: "addr \<Rightarrow> transfer_buffer \<Rightarrow> u32 res" where
  "TransferBuffer_GetOffset pointer tb = the_ring tb (\<lambda>rb. Inr (RingBuffer_GetOffset rb pointer))"

definition TransferBuffer_DiscardBlock :: "addr \<Rightarrow> transfer_buffer \<Rightarrow> transfer_buffer res" where
  "TransferBuffer_DiscardBlock p = change_ring (RingBuffer_DiscardBlock p)"

definition TransferBuffer_FreePendingToken :: "addr \<Rightarrow> u32 \<Rightarrow> transfer_buffer \<Rightarrow> transfer_buffer res" where
  "TransferBuffer_FreePendingToken p token = change_ring (RingBuffer_FreePendingToken p token)"

definition TransferBuffer_GetSize :: "transfer_buffer \<Rightarrow> u32 res" where
  "TransferBuffer_GetSize tb =
     res_bind (TransferBuffer_HaveBuffer tb) (\<lambda>have_buffer.
       if have_buffer then the_ring tb (\<lambda>rb. Inr (RingBuffer_GetLargestFreeOrPendingSize rb)) else Inr 0)"

definition TransferBuffer_GetFreeSize :: "'h token_ops \<Rightarrow> transfer_buffer \<Rightarrow> 'h \<Rightarrow> (u32 \<times> transfer_buffer \<times> 'h) res" where
  "TransferBuffer_GetFreeSize ops = query_ring (RingBuffer_GetLargestFreeSizeNoWaiting ops)"

definition TransferBuffer_GetFragmentedFreeSize ::
  "'h token_ops \<Rightarrow> transfer_buffer \<Rightarrow> 'h \<Rightarrow> (u32 \<times> transfer_buffer \<times> 'h) res" where
  "TransferBuffer_GetFragmentedFreeSize ops = query_ring (RingBuffer_GetTotalFreeSizeNoWaiting ops)"

definition TransferBuffer_ShrinkLastBlock :: "u32 \<Rightarrow> transfer_buffer \<Rightarrow> transfer_buffer res" where
  "TransferBuffer_ShrinkLastBlock new_size = change_ring (RingBuffer_ShrinkLastBlock new_size)"

definition TransferBuffer_GetMaxSize :: "transfer_buffer \<Rightarrow> u32" where
  "TransferBuffer_GetMaxSize tb = u32_sub (tb_max_buffer_size tb) (tb_result_size tb)"

definition TransferBuffer_GetCurrentMaxAllocationWithoutRealloc :: "transfer_buffer \<Rightarrow> u32 res" where
  "TransferBuffer_GetCurrentMaxAllocationWithoutRealloc tb =
     res_bind (TransferBuffer_HaveBuffer tb) (\<lambda>have_buffer.
       if have_buffer then the_ring tb (\<lambda>rb. Inr (RingBuffer_GetLargestFreeOrPendingSize rb)) else Inr 0)"

text \<open>The two loops of \<^verbatim>\<open>GetPreviousRingBufferUsedBytes\<close>.\<close>

fun drop_idle_rings :: "'h token_ops \<Rightarrow> ring_buffer list \<Rightarrow> 'h \<Rightarrow> (ring_buffer list \<times> 'h) res" where
  "drop_idle_rings ops [] h = Inr ([], h)"
| "drop_idle_rings ops (rb # rbs) h =
     res_bind (RingBuffer_GetUsedSize ops rb h) (\<lambda>(used, rb1, h1).
       if used = 0 then drop_idle_rings ops rbs h1 else Inr (rb1 # rbs, h1))"

fun used_in_rings :: "'h token_ops \<Rightarrow> u32 \<Rightarrow> ring_buffer list \<Rightarrow> 'h \<Rightarrow> (u32 \<times> ring_buffer list \<times> 'h) res" where
  "used_in_rings ops n [] h = Inr (n, [], h)"
| "used_in_rings ops n (rb # rbs) h =
     res_bind (RingBuffer_GetUsedSize ops rb h) (\<lambda>(used, rb1, h1).
       res_bind (used_in_rings ops (u32_add n used) rbs h1) (\<lambda>(m, rbs1, h2). Inr (m, rb1 # rbs1, h2)))"

definition TransferBuffer_GetPreviousRingBufferUsedBytes ::
  "'h token_ops \<Rightarrow> transfer_buffer \<Rightarrow> 'h \<Rightarrow> (u32 \<times> transfer_buffer \<times> 'h) res" where
  "TransferBuffer_GetPreviousRingBufferUsedBytes ops tb h =
     res_bind (drop_idle_rings ops (tb_previous_ring_buffers tb) h) (\<lambda>(rbs, h1).
       res_bind (used_in_rings ops 0 rbs h1) (\<lambda>(n, rbs1, h2). Inr (n, tb\<lparr>tb_previous_ring_buffers := rbs1\<rparr>, h2)))"

text \<open>
  \<^verbatim>\<open>Free\<close>. The comment on reentrancy concerns a command buffer that calls back; the one here does not,
  and the check after the call is as in the source.
\<close>

definition TransferBuffer_Free :: "'w command_buffer \<Rightarrow> transfer_buffer \<Rightarrow> 'w hworld \<Rightarrow> (transfer_buffer \<times> 'w hworld) res" where
  "TransferBuffer_Free cb tb x =
     dcheck (\<not> tb_outstanding_result_pointer tb)
       (res_bind (TransferBuffer_HaveBuffer tb) (\<lambda>have_buffer.
          if \<not> have_buffer then Inr (tb, x)
          else res_bind (Helper_OrderingBarrier cb x) (\<lambda>x1.
            res_bind (cb_DestroyTransferBuffer cb (tb_buffer_id tb) (snd x1)) (\<lambda>w.
              res_bind (TransferBuffer_HaveBuffer tb) (\<lambda>still.
                if \<not> still then Inr (tb, (fst x1, w))
                else the_ring tb (\<lambda>rb. dcheck (rb_num_used_blocks rb = 0)
                  (res_bind (TransferBuffer_GetPreviousRingBufferUsedBytes (helper_token_ops cb)
                      (tb\<lparr>tb_buffer_id := -1, tb_result_shm_offset := 0,
                          tb_previous_ring_buffers := tb_previous_ring_buffers tb @ [rb], tb_ring_buffer := None,
                          tb_last_allocated_size := 0\<rparr>) (fst x1, w)) (\<lambda>(n, tb1, x2).
                    Inr (tb1\<lparr>tb_high_water_mark := n, tb_bytes_since_last_shrink := 0, tb_result_buffer := None,
                             tb_buffer := None\<rparr>, x2)))))))))"

text \<open>The loop of \<^verbatim>\<open>AllocateRingBuffer\<close>; \<open>None\<close> when it does not end.\<close>

partial_function (option) allocate_ring_loop ::
  "base_bits \<Rightarrow> 'w command_buffer \<Rightarrow> (nat \<Rightarrow> addr) \<Rightarrow> u32 \<Rightarrow> transfer_buffer \<Rightarrow> 'w hworld \<Rightarrow>
     (transfer_buffer \<times> 'w hworld) res option" where
  "allocate_ring_loop bits cb place sz tb x =
     (if sz \<ge> tb_min_buffer_size tb
      then (case cb_CreateTransferBuffer cb sz (snd x) of (buffer, bid, w) \<Rightarrow>
              if bid \<noteq> -1
              then Some (case buffer of
                  None \<Rightarrow> Inl DCHECK_failed
                | Some b \<Rightarrow> Inr (tb\<lparr>tb_last_allocated_size := sz, tb_buffer := Some b,
                     tb_ring_buffer := Some (new_RingBuffer (buf_size b) (place (buf_memory b)) (tb_alignment tb) (tb_result_size tb)),
                     tb_buffer_id := bid, tb_result_buffer := Some (place (buf_memory b)), tb_result_shm_offset := 0,
                     tb_bytes_since_last_shrink := 0\<rparr>, (fst x, w)))
              else allocate_ring_loop bits cb place (sz div 2)
                     (tb\<lparr>tb_max_buffer_size := bits_AlignUp bits (sz div 2) (tb_alignment tb)\<rparr>) (fst x, w))
      else Some (Inr (tb\<lparr>tb_usable := False\<rparr>, x)))"

definition TransferBuffer_AllocateRingBuffer ::
  "base_bits \<Rightarrow> 'w command_buffer \<Rightarrow> (nat \<Rightarrow> addr) \<Rightarrow> u32 \<Rightarrow> transfer_buffer \<Rightarrow> 'w hworld \<Rightarrow> (transfer_buffer \<times> 'w hworld) res" where
  "TransferBuffer_AllocateRingBuffer bits cb place sz tb x = returning (allocate_ring_loop bits cb place sz tb x)"

definition ComputePOTSize :: "base_bits \<Rightarrow> u32 \<Rightarrow> u32" where
  "ComputePOTSize bits dimension = (if dimension = 0 then 0 else 2 ^ nat (min 31 (bits_Log2Ceiling bits dimension)))"

text \<open>The size that \<^verbatim>\<open>ReallocateRingBuffer\<close> asks for.\<close>

definition needed_buffer_size :: "base_bits \<Rightarrow> u32 \<Rightarrow> bool \<Rightarrow> transfer_buffer \<Rightarrow> u32" where
  "needed_buffer_size bits sz have_buffer tb =
     (let needed = max (ComputePOTSize bits (u32_add sz (tb_result_size tb))) (tb_min_buffer_size tb);
          needed1 = (if \<not> have_buffer then max needed (tb_default_buffer_size tb) else needed)
      in min needed1 (tb_max_buffer_size tb))"

definition TransferBuffer_ReallocateRingBuffer ::
  "base_bits \<Rightarrow> 'w command_buffer \<Rightarrow> (nat \<Rightarrow> addr) \<Rightarrow> u32 \<Rightarrow> bool \<Rightarrow> transfer_buffer \<Rightarrow> 'w hworld \<Rightarrow>
     (transfer_buffer \<times> 'w hworld) res" where
  "TransferBuffer_ReallocateRingBuffer bits cb place sz shrink tb x =
     dcheck (\<not> shrink \<or> \<not> tb_outstanding_result_pointer tb)
       (dcheck (ComputePOTSize bits (u32_add sz (tb_result_size tb)) mod tb_alignment tb = 0)
         (res_bind (TransferBuffer_HaveBuffer tb) (\<lambda>have_buffer.
            let needed = needed_buffer_size bits sz have_buffer tb;
                current_size = (case tb_buffer tb of Some b \<Rightarrow> if have_buffer then buf_size b else 0 | None \<Rightarrow> 0)
            in if current_size = needed then Inr (tb, x)
               else if tb_usable tb \<and> (shrink \<or> needed > current_size)
               then dcheck (\<not> tb_outstanding_result_pointer tb)
                      (res_bind (if have_buffer then TransferBuffer_Free cb tb x else Inr (tb, x)) (\<lambda>(tb1, x1).
                         TransferBuffer_AllocateRingBuffer bits cb place needed tb1 x1))
               else Inr (tb, x))))"

definition TransferBuffer_Initialize ::
  "base_bits \<Rightarrow> 'w command_buffer \<Rightarrow> (nat \<Rightarrow> addr) \<Rightarrow> u32 \<Rightarrow> u32 \<Rightarrow> u32 \<Rightarrow> u32 \<Rightarrow> u32 \<Rightarrow> transfer_buffer \<Rightarrow> 'w hworld \<Rightarrow>
     (bool \<times> transfer_buffer \<times> 'w hworld) res" where
  "TransferBuffer_Initialize bits cb place default_buffer_size result_size min_buffer_size max_buffer_size alignment tb x =
     (let tb1 = tb\<lparr>tb_result_size := result_size, tb_alignment := alignment,
                   tb_default_buffer_size := bits_AlignUp bits default_buffer_size alignment,
                   tb_min_buffer_size := bits_AlignUp bits min_buffer_size alignment,
                   tb_max_buffer_size := bits_AlignUp bits max_buffer_size alignment\<rparr>
      in res_bind (TransferBuffer_ReallocateRingBuffer bits cb place
                     (u32_sub (tb_default_buffer_size tb1) result_size) False tb1 x) (\<lambda>(tb2, x2).
           res_bind (TransferBuffer_HaveBuffer tb2) (\<lambda>have_buffer. Inr (have_buffer, tb2, x2))))"

text \<open>\<^verbatim>\<open>ShrinkOrExpandRingBufferIfNecessary\<close>: the resizing, once the high water mark is known.\<close>

definition resize_ring ::
  "base_bits \<Rightarrow> 'w command_buffer \<Rightarrow> (nat \<Rightarrow> addr) \<Rightarrow> u32 \<Rightarrow> u32 \<Rightarrow> transfer_buffer \<Rightarrow> 'w hworld \<Rightarrow>
     (transfer_buffer \<times> 'w hworld) res" where
  "resize_ring bits cb place size_to_allocate available_size tb x =
     (if size_to_allocate > available_size
      then TransferBuffer_ReallocateRingBuffer bits cb place (tb_high_water_mark tb) False tb x
      else if tb_bytes_since_last_shrink tb > u32_mul (tb_high_water_mark tb) kShrinkThreshold
      then res_bind (TransferBuffer_ReallocateRingBuffer bits cb place
                       (u32_add (tb_high_water_mark tb) (tb_high_water_mark tb div 4)) True
                       (tb\<lparr>tb_bytes_since_last_shrink := 0\<rparr>) x) (\<lambda>(tb1, x1).
             res_bind (TransferBuffer_GetPreviousRingBufferUsedBytes (helper_token_ops cb) tb1 x1) (\<lambda>(n, tb2, x2).
               Inr (tb2\<lparr>tb_high_water_mark := u32_add size_to_allocate n\<rparr>, x2)))
      else Inr (tb, x))"

definition TransferBuffer_ShrinkOrExpandRingBufferIfNecessary ::
  "base_bits \<Rightarrow> 'w command_buffer \<Rightarrow> (nat \<Rightarrow> addr) \<Rightarrow> u32 \<Rightarrow> transfer_buffer \<Rightarrow> 'w hworld \<Rightarrow>
     (transfer_buffer \<times> 'w hworld) res" where
  "TransferBuffer_ShrinkOrExpandRingBufferIfNecessary bits cb place size_to_allocate tb x =
     dcheck (\<not> tb_outstanding_result_pointer tb)
       (res_bind (TransferBuffer_HaveBuffer tb) (\<lambda>have_buffer.
          res_bind (if have_buffer then the_ring tb (\<lambda>rb. Inr (rb_num_used_blocks rb > 0)) else Inr False) (\<lambda>busy.
            if busy then Inr (tb, x)
            else res_bind (TransferBuffer_GetFreeSize (helper_token_ops cb) tb x) (\<lambda>(available_size, tb1, x1).
              res_bind (TransferBuffer_GetPreviousRingBufferUsedBytes (helper_token_ops cb) tb1 x1) (\<lambda>(previous, tb2, x2).
                resize_ring bits cb place size_to_allocate available_size
                  (tb2\<lparr>tb_high_water_mark := max (tb_high_water_mark tb2)
                     (u32_add (u32_add (u32_sub (tb_last_allocated_size tb2) available_size) size_to_allocate) previous)\<rparr>) x2)))))"

definition ring_alloc ::
  "'h token_ops \<Rightarrow> u32 \<Rightarrow> transfer_buffer \<Rightarrow> 'h \<Rightarrow> (addr \<times> transfer_buffer \<times> 'h) res" where
  "ring_alloc ops sz tb h =
     the_ring tb (\<lambda>rb. res_bind (RingBuffer_Alloc ops sz rb h) (\<lambda>(p, rb1, h1).
       Inr (p, tb\<lparr>tb_ring_buffer := Some rb1,
                  tb_bytes_since_last_shrink := u32_add (tb_bytes_since_last_shrink tb) sz\<rparr>, h1)))"

text \<open>\<^verbatim>\<open>AllocUpTo\<close> returns the memory with the size stored through \<^verbatim>\<open>size_allocated\<close>.\<close>

definition TransferBuffer_AllocUpTo ::
  "base_bits \<Rightarrow> 'w command_buffer \<Rightarrow> (nat \<Rightarrow> addr) \<Rightarrow> u32 \<Rightarrow> transfer_buffer \<Rightarrow> 'w hworld \<Rightarrow>
     ((addr \<times> u32) option \<times> transfer_buffer \<times> 'w hworld) res" where
  "TransferBuffer_AllocUpTo bits cb place sz tb x =
     res_bind (TransferBuffer_ShrinkOrExpandRingBufferIfNecessary bits cb place sz tb x) (\<lambda>(tb1, x1).
       res_bind (TransferBuffer_HaveBuffer tb1) (\<lambda>have_buffer.
         if \<not> have_buffer then Inr (None, tb1, x1)
         else the_ring tb1 (\<lambda>rb.
           let size_allocated = min (RingBuffer_GetLargestFreeOrPendingSize rb) sz
           in res_bind (ring_alloc (helper_token_ops cb) size_allocated tb1 x1) (\<lambda>(p, tb2, x2).
                Inr (Some (p, size_allocated), tb2, x2)))))"

definition TransferBuffer_Alloc ::
  "base_bits \<Rightarrow> 'w command_buffer \<Rightarrow> (nat \<Rightarrow> addr) \<Rightarrow> u32 \<Rightarrow> transfer_buffer \<Rightarrow> 'w hworld \<Rightarrow>
     (addr option \<times> transfer_buffer \<times> 'w hworld) res" where
  "TransferBuffer_Alloc bits cb place sz tb x =
     res_bind (TransferBuffer_ShrinkOrExpandRingBufferIfNecessary bits cb place sz tb x) (\<lambda>(tb1, x1).
       res_bind (TransferBuffer_HaveBuffer tb1) (\<lambda>have_buffer.
         if \<not> have_buffer then Inr (None, tb1, x1)
         else the_ring tb1 (\<lambda>rb.
           if sz > RingBuffer_GetLargestFreeOrPendingSize rb then Inr (None, tb1, x1)
           else res_bind (ring_alloc (helper_token_ops cb) sz tb1 x1) (\<lambda>(p, tb2, x2). Inr (Some p, tb2, x2)))))"

definition TransferBuffer_AcquireResultBuffer ::
  "base_bits \<Rightarrow> 'w command_buffer \<Rightarrow> (nat \<Rightarrow> addr) \<Rightarrow> transfer_buffer \<Rightarrow> 'w hworld \<Rightarrow>
     (addr option \<times> transfer_buffer \<times> 'w hworld) res" where
  "TransferBuffer_AcquireResultBuffer bits cb place tb x =
     dcheck (\<not> tb_outstanding_result_pointer tb)
       (res_bind (TransferBuffer_ReallocateRingBuffer bits cb place (tb_result_size tb) False tb x) (\<lambda>(tb1, x1).
          Inr (tb_result_buffer tb1, tb1\<lparr>tb_outstanding_result_pointer := True\<rparr>, x1)))"

definition TransferBuffer_ReleaseResultBuffer :: "transfer_buffer \<Rightarrow> transfer_buffer res" where
  "TransferBuffer_ReleaseResultBuffer tb =
     dcheck (tb_outstanding_result_pointer tb) (Inr (tb\<lparr>tb_outstanding_result_pointer := False\<rparr>))"

definition TransferBuffer_GetResultOffset :: "transfer_buffer \<Rightarrow> i32 res" where
  "TransferBuffer_GetResultOffset tb =
     dcheck (tb_outstanding_result_pointer tb) (Inr (i32_of_u32 (tb_result_shm_offset tb)))"

definition TransferBuffer_GetShmId ::
  "base_bits \<Rightarrow> 'w command_buffer \<Rightarrow> (nat \<Rightarrow> addr) \<Rightarrow> transfer_buffer \<Rightarrow> 'w hworld \<Rightarrow> (i32 \<times> transfer_buffer \<times> 'w hworld) res" where
  "TransferBuffer_GetShmId bits cb place tb x =
     res_bind (TransferBuffer_ReallocateRingBuffer bits cb place (tb_result_size tb) False tb x) (\<lambda>(tb1, x1).
       Inr (tb_buffer_id tb1, tb1, x1))"

definition delete_TransferBuffer :: "'w command_buffer \<Rightarrow> transfer_buffer \<Rightarrow> 'w hworld \<Rightarrow> (transfer_buffer \<times> 'w hworld) res" where
  "delete_TransferBuffer cb tb x = TransferBuffer_Free cb tb x"

section \<open>ScopedTransferBufferPtr\<close>

record scoped_transfer_ptr =
  stp_buffer :: "addr option"
  stp_size :: u32

definition ScopedTransferBufferPtr_move :: "scoped_transfer_ptr \<Rightarrow> scoped_transfer_ptr \<times> scoped_transfer_ptr" where
  "ScopedTransferBufferPtr_move other =
     (\<lparr>stp_buffer = stp_buffer other, stp_size = stp_size other\<rparr>, other\<lparr>stp_buffer := None, stp_size := 0\<rparr>)"

definition ScopedTransferBufferPtr_Release ::
  "'w command_buffer \<Rightarrow> bool \<Rightarrow> scoped_transfer_ptr \<Rightarrow> transfer_buffer \<Rightarrow> 'w hworld \<Rightarrow>
     (scoped_transfer_ptr \<times> transfer_buffer \<times> 'w hworld) res" where
  "ScopedTransferBufferPtr_Release cb due p tb x =
     (case stp_buffer p of
        None \<Rightarrow> Inr (p, tb, x)
      | Some buffer \<Rightarrow>
          res_bind (Helper_InsertToken cb due x) (\<lambda>(token, x1).
            res_bind (TransferBuffer_FreePendingToken buffer (u32_of_int token) tb) (\<lambda>tb1.
              Inr (p\<lparr>stp_buffer := None, stp_size := 0\<rparr>, tb1, x1))))"

definition ScopedTransferBufferPtr_Discard ::
  "scoped_transfer_ptr \<Rightarrow> transfer_buffer \<Rightarrow> (scoped_transfer_ptr \<times> transfer_buffer) res" where
  "ScopedTransferBufferPtr_Discard p tb =
     (case stp_buffer p of
        None \<Rightarrow> Inr (p, tb)
      | Some buffer \<Rightarrow>
          res_bind (TransferBuffer_DiscardBlock buffer tb) (\<lambda>tb1. Inr (p\<lparr>stp_buffer := None, stp_size := 0\<rparr>, tb1)))"

definition ScopedTransferBufferPtr_Reset ::
  "base_bits \<Rightarrow> 'w command_buffer \<Rightarrow> (nat \<Rightarrow> addr) \<Rightarrow> bool \<Rightarrow> u32 \<Rightarrow> scoped_transfer_ptr \<Rightarrow> transfer_buffer \<Rightarrow> 'w hworld \<Rightarrow>
     (scoped_transfer_ptr \<times> transfer_buffer \<times> 'w hworld) res" where
  "ScopedTransferBufferPtr_Reset bits cb place due new_size p tb x =
     res_bind (ScopedTransferBufferPtr_Release cb due p tb x) (\<lambda>(p1, tb1, x1).
       res_bind (TransferBuffer_AllocUpTo bits cb place new_size tb1 x1) (\<lambda>(r, tb2, x2).
         Inr (case r of
             None \<Rightarrow> p1\<lparr>stp_buffer := None\<rparr>
           | Some (a, n) \<Rightarrow> p1\<lparr>stp_buffer := Some a, stp_size := n\<rparr>, tb2, x2)))"

definition ScopedTransferBufferPtr_Shrink ::
  "u32 \<Rightarrow> scoped_transfer_ptr \<Rightarrow> transfer_buffer \<Rightarrow> (scoped_transfer_ptr \<times> transfer_buffer) res" where
  "ScopedTransferBufferPtr_Shrink new_size p tb =
     res_bind (TransferBuffer_HaveBuffer tb) (\<lambda>have_buffer.
       if \<not> have_buffer \<or> new_size \<ge> stp_size p then Inr (p, tb)
       else res_bind (TransferBuffer_ShrinkLastBlock new_size tb) (\<lambda>tb1. Inr (p\<lparr>stp_size := new_size\<rparr>, tb1)))"

definition ScopedTransferBufferPtr_BelongsToBuffer :: "addr \<Rightarrow> scoped_transfer_ptr \<Rightarrow> bool" where
  "ScopedTransferBufferPtr_BelongsToBuffer memory p =
     (case stp_buffer p of
        None \<Rightarrow> False
      | Some start \<Rightarrow> memory \<ge> start \<and> memory \<le> start + int (stp_size p))"

text \<open>The constructor that allocates, and the destructor.\<close>

definition new_ScopedTransferBufferPtr ::
  "base_bits \<Rightarrow> 'w command_buffer \<Rightarrow> (nat \<Rightarrow> addr) \<Rightarrow> bool \<Rightarrow> u32 \<Rightarrow> transfer_buffer \<Rightarrow> 'w hworld \<Rightarrow>
     (scoped_transfer_ptr \<times> transfer_buffer \<times> 'w hworld) res" where
  "new_ScopedTransferBufferPtr bits cb place due sz tb x =
     ScopedTransferBufferPtr_Reset bits cb place due sz \<lparr>stp_buffer = None, stp_size = 0\<rparr> tb x"

definition delete_ScopedTransferBufferPtr ::
  "'w command_buffer \<Rightarrow> bool \<Rightarrow> scoped_transfer_ptr \<Rightarrow> transfer_buffer \<Rightarrow> 'w hworld \<Rightarrow> (transfer_buffer \<times> 'w hworld) res" where
  "delete_ScopedTransferBufferPtr cb due p tb x =
     res_bind (ScopedTransferBufferPtr_Release cb due p tb x) (\<lambda>(p1, tb1, x1). Inr (tb1, x1))"

definition ScopedTransferBufferPtr_valid :: "scoped_transfer_ptr \<Rightarrow> bool" where
  "ScopedTransferBufferPtr_valid p \<longleftrightarrow> stp_buffer p \<noteq> None"

definition ScopedTransferBufferArray_num_elements :: "nat \<Rightarrow> scoped_transfer_ptr \<Rightarrow> u32" where
  "ScopedTransferBufferArray_num_elements elem_size p = stp_size p div elem_size"

section \<open>ScopedResultPtr\<close>

text \<open>\<open>srp_owner\<close> is whether \<^verbatim>\<open>transfer_buffer_\<close> is set; a pointer that was moved from has none.\<close>

record scoped_result_ptr =
  srp_result :: "addr option"
  srp_owner :: bool

definition new_ScopedResultPtr ::
  "base_bits \<Rightarrow> 'w command_buffer \<Rightarrow> (nat \<Rightarrow> addr) \<Rightarrow> transfer_buffer \<Rightarrow> 'w hworld \<Rightarrow>
     (scoped_result_ptr \<times> transfer_buffer \<times> 'w hworld) res" where
  "new_ScopedResultPtr bits cb place tb x =
     res_bind (TransferBuffer_AcquireResultBuffer bits cb place tb x) (\<lambda>(p, tb1, x1).
       Inr (\<lparr>srp_result = p, srp_owner = True\<rparr>, tb1, x1))"

definition delete_ScopedResultPtr :: "scoped_result_ptr \<Rightarrow> transfer_buffer \<Rightarrow> transfer_buffer res" where
  "delete_ScopedResultPtr p tb = (if srp_owner p then TransferBuffer_ReleaseResultBuffer tb else Inr tb)"

definition ScopedResultPtr_move :: "scoped_result_ptr \<Rightarrow> scoped_result_ptr \<times> scoped_result_ptr" where
  "ScopedResultPtr_move other = (\<lparr>srp_result = srp_result other, srp_owner = srp_owner other\<rparr>, other\<lparr>srp_result := None, srp_owner := False\<rparr>)"

section \<open>What is assumed of the bit operations\<close>

definition bits_ok :: "base_bits \<Rightarrow> bool" where
  "bits_ok bits \<longleftrightarrow>
     (\<forall>n k. k < 32 \<longrightarrow> n + 2 ^ k \<le> 2 ^ 32 \<longrightarrow> bits_AlignUp bits n (2 ^ k) = (n + 2 ^ k - 1) div 2 ^ k * 2 ^ k) \<and>
     (\<forall>n k. 0 < n \<longrightarrow> n < 2 ^ 32 \<longrightarrow> 2 ^ k < 2 * n \<longrightarrow> n \<le> 2 ^ k \<longrightarrow> bits_Log2Ceiling bits n = int k)"

lemma ex_log2_ceiling: "0 < n \<Longrightarrow> \<exists>k. 2 ^ k < 2 * n \<and> n \<le> 2 ^ k" for n :: nat
proof (induction n)
  case (Suc n)
  show ?case
  proof (cases "n = 0")
    case True
    then show ?thesis by (intro exI [of _ 0]) simp
  next
    case False
    with Suc.IH obtain k where "2 ^ k < 2 * n" "n \<le> 2 ^ k" by auto
    then show ?thesis by (cases "n = 2 ^ k") (auto intro: exI [of _ "Suc k"] exI [of _ k])
  qed
qed simp

text \<open>\<^verbatim>\<open>ComputePOTSize\<close> is the least power of two that is large enough, unless that has 33 bits.\<close>

lemma ComputePOTSize_eq:
  assumes "bits_ok bits" "0 < n" "n \<le> 2 ^ 31"
  shows "\<exists>k \<le> 31. ComputePOTSize bits n = 2 ^ k \<and> n \<le> 2 ^ k \<and> 2 ^ k < 2 * n"
proof -
  from ex_log2_ceiling [OF assms(2)] obtain k where k: "2 ^ k < 2 * n" "n \<le> 2 ^ k" by blast
  have "(2 :: nat) ^ k < 2 ^ 32" using k(1) assms(3) by simp
  then have "k \<le> 31" using power_less_imp_less_exp [of "2 :: nat" k 32] by simp
  moreover have "bits_Log2Ceiling bits n = int k" using assms k by (simp add: bits_ok_def)
  ultimately show ?thesis using assms(2) k by (intro exI [of _ k]) (simp add: ComputePOTSize_def min_def)
qed

lemma ComputePOTSize_large:
  assumes "bits_ok bits" "2 ^ 31 < n" "n < 2 ^ 32"
  shows "ComputePOTSize bits n = 2 ^ 31"
proof -
  have "bits_Log2Ceiling bits n = int 32" using assms by (intro bits_ok_def [THEN iffD1, THEN conjunct2, rule_format]) auto
  then show ?thesis using assms(2) by (simp add: ComputePOTSize_def)
qed

section \<open>Idle rings\<close>

text \<open>A ring with no block in use, whose size is a multiple of its alignment.\<close>

definition idle_ring :: "ring_buffer \<Rightarrow> bool" where
  "idle_ring rb \<longleftrightarrow> rb_inv rb \<and> rb_num_used_blocks rb = 0 \<and> rb_alignment rb dvd rb_size rb"

text \<open>What queries do to a ring: they drop blocks that are reusable.\<close>

definition ring_dropped :: "(i32 \<Rightarrow> bool) \<Rightarrow> ring_buffer \<Rightarrow> ring_buffer \<Rightarrow> bool" where
  "ring_dropped P rb rb' \<longleftrightarrow> same_frame rb rb' \<and> (\<forall>b \<in> set (rb_blocks rb). b \<in> set (rb_blocks rb') \<or> reusable P b)"

lemma ring_dropped_refl: "ring_dropped P rb rb"
  by (simp add: ring_dropped_def same_frame_def)

lemma ring_dropped_trans:
  assumes "ring_dropped P rb rb'" "ring_dropped Q rb' rb''" "\<And>u. P u \<Longrightarrow> Q u"
  shows "ring_dropped Q rb rb''"
  using assms by (fastforce simp: ring_dropped_def same_frame_def reusable_def)

context live_token_source
begin

lemma GetLargest_idle:
  assumes "idle_ring rb" "tok_inv h"
  shows "\<exists>n rb' h'. RingBuffer_GetLargestFreeSizeNoWaiting ops rb h = Inr (n, rb', h') \<and> n \<le> rb_size rb \<and>
    idle_ring rb' \<and> tok_inv h' \<and> (\<forall>u. passed h u \<longrightarrow> passed h' u) \<and> ring_dropped (passed h') rb rb'"
proof -
  have i: "idle rb h" "rb_inv rb" using assms by (simp_all add: idle_ring_def idle_def)
  from FreePassedBlocks_returns [OF i(1)] obtain rb' h' where f: "RingBuffer_FreePassedBlocks ops rb h = Inr (rb', h')" by auto
  have d: "dropped rb h rb' h'"
    by (rule FreePassedBlocks_invariant [OF f, where P = "dropped rb h"]) (auto intro: dropped_refl i(2) assms dropped_has dropped_free)
  have i': "idle rb' h'" by (rule FreePassedBlocks_idle [OF f i(1)])
  have s: "same_frame rb rb'" "rb_inv rb'" using d by (simp_all add: dropped_def)
  have "rb_alignment rb' dvd rb_size rb'" using s(1) assms(1) by (simp add: same_frame_def idle_ring_def)
  with GetLargestFreeSize_returns [OF f i(2) this] i' d
  show ?thesis
    using rb_inv_dest(2,3) [OF s(2)] s(1)
    by (intro exI [of _ "rb_room rb'"] exI [of _ rb'] exI [of _ h'])
      (auto simp: idle_ring_def idle_def dropped_def ring_dropped_def rb_room_def same_frame_def)
qed

lemma GetUsedSize_idle:
  assumes "idle_ring rb" "tok_inv h"
  shows "\<exists>n rb' h'. RingBuffer_GetUsedSize ops rb h = Inr (n, rb', h') \<and> n \<le> rb_size rb \<and>
    idle_ring rb' \<and> rb_size rb' = rb_size rb \<and> tok_inv h' \<and> (\<forall>u. passed h u \<longrightarrow> passed h' u)"
proof -
  from GetLargest_idle [OF assms] obtain n rb' h' where l: "RingBuffer_GetLargestFreeSizeNoWaiting ops rb h = Inr (n, rb', h')"
    "n \<le> rb_size rb" "idle_ring rb'" "tok_inv h'" "\<forall>u. passed h u \<longrightarrow> passed h' u" "rb_size rb' = rb_size rb"
    by (auto simp: ring_dropped_def same_frame_def)
  have "rb_size rb < 2 ^ 32" using assms(1) by (auto simp: idle_ring_def rb_inv_def)
  with l show ?thesis by (simp add: RingBuffer_GetUsedSize_def u32_sub_nowrap)
qed

lemma drop_idle_rings_returns:
  assumes "list_all idle_ring rbs" "tok_inv h"
  shows "\<exists>rbs' h'. drop_idle_rings ops rbs h = Inr (rbs', h') \<and> list_all idle_ring rbs' \<and>
    sum_list (map rb_size rbs') \<le> sum_list (map rb_size rbs) \<and> tok_inv h' \<and> (\<forall>u. passed h u \<longrightarrow> passed h' u)"
  using assms
proof (induction rbs arbitrary: h)
  case (Cons rb rbs)
  have i: "idle_ring rb" "list_all idle_ring rbs" using Cons.prems(1) by simp_all
  obtain n rb' h1 where u: "RingBuffer_GetUsedSize ops rb h = Inr (n, rb', h1)" "idle_ring rb'" "rb_size rb' = rb_size rb"
    "tok_inv h1" "\<forall>u. passed h u \<longrightarrow> passed h1 u"
    using GetUsedSize_idle [OF i(1) Cons.prems(2)] by blast
  show ?case
  proof (cases "n = 0")
    case True
    obtain rbs' h' where "drop_idle_rings ops rbs h1 = Inr (rbs', h')" "list_all idle_ring rbs'"
      "sum_list (map rb_size rbs') \<le> sum_list (map rb_size rbs)" "tok_inv h'" "\<forall>u. passed h1 u \<longrightarrow> passed h' u"
      using Cons.IH [OF i(2) u(4)] by blast
    with u True show ?thesis by (intro exI [of _ rbs'] exI [of _ h']) simp
  next
    case False
    with u i(2) show ?thesis by (intro exI [of _ "rb' # rbs"] exI [of _ h1]) simp
  qed
qed simp

lemma used_in_rings_returns:
  assumes "list_all idle_ring rbs" "tok_inv h"
  shows "\<exists>n rbs' h'. used_in_rings ops a rbs h = Inr (n, rbs', h') \<and> n \<le> a + sum_list (map rb_size rbs) \<and>
    list_all idle_ring rbs' \<and> map rb_size rbs' = map rb_size rbs \<and> tok_inv h' \<and> (\<forall>u. passed h u \<longrightarrow> passed h' u)"
  using assms
proof (induction rbs arbitrary: a h)
  case (Cons rb rbs)
  have i: "idle_ring rb" "list_all idle_ring rbs" using Cons.prems(1) by simp_all
  obtain k rb' h1 where u: "RingBuffer_GetUsedSize ops rb h = Inr (k, rb', h1)" "k \<le> rb_size rb" "idle_ring rb'" "rb_size rb' = rb_size rb"
    "tok_inv h1" "\<forall>u. passed h u \<longrightarrow> passed h1 u"
    using GetUsedSize_idle [OF i(1) Cons.prems(2)] by blast
  obtain n rbs' h' where r: "used_in_rings ops (u32_add a k) rbs h1 = Inr (n, rbs', h')" "n \<le> u32_add a k + sum_list (map rb_size rbs)"
    "list_all idle_ring rbs'" "map rb_size rbs' = map rb_size rbs" "tok_inv h'" "\<forall>u. passed h1 u \<longrightarrow> passed h' u"
    using Cons.IH [OF i(2) u(5)] by blast
  have "u32_add a k \<le> a + rb_size rb" using u(2) mod_less_eq_dividend [of "a + k" "2 ^ 32"] by (simp add: u32_add_def)
  with u r show ?case by (intro exI [of _ n] exI [of _ "rb' # rbs'"] exI [of _ h']) simp
qed simp

lemma GetPrevious_returns:
  assumes "list_all idle_ring (tb_previous_ring_buffers tb)" "tok_inv h"
  shows "\<exists>n rbs h'. TransferBuffer_GetPreviousRingBufferUsedBytes ops tb h = Inr (n, tb\<lparr>tb_previous_ring_buffers := rbs\<rparr>, h') \<and>
    n \<le> sum_list (map rb_size (tb_previous_ring_buffers tb)) \<and>
    sum_list (map rb_size rbs) \<le> sum_list (map rb_size (tb_previous_ring_buffers tb)) \<and>
    list_all idle_ring rbs \<and> tok_inv h' \<and> (\<forall>u. passed h u \<longrightarrow> passed h' u)"
proof -
  obtain rbs1 h1 where d: "drop_idle_rings ops (tb_previous_ring_buffers tb) h = Inr (rbs1, h1)" "list_all idle_ring rbs1"
    "sum_list (map rb_size rbs1) \<le> sum_list (map rb_size (tb_previous_ring_buffers tb))" "tok_inv h1" "\<forall>u. passed h u \<longrightarrow> passed h1 u"
    using drop_idle_rings_returns [OF assms] by blast
  obtain n rbs h' where u: "used_in_rings ops 0 rbs1 h1 = Inr (n, rbs, h')" "n \<le> sum_list (map rb_size rbs1)" "list_all idle_ring rbs"
    "map rb_size rbs = map rb_size rbs1" "tok_inv h'" "\<forall>u. passed h1 u \<longrightarrow> passed h' u"
    using used_in_rings_returns [OF d(2,4), of 0] by auto
  from d u show ?thesis
    by (intro exI [of _ n] exI [of _ rbs] exI [of _ h']) (simp add: TransferBuffer_GetPreviousRingBufferUsedBytes_def)
qed

end

section \<open>The invariant of the transfer buffer\<close>

text \<open>The ring of the current buffer: it lies behind the result area and ends where the buffer does.\<close>

definition ring_at :: "(nat \<Rightarrow> addr) \<Rightarrow> transfer_buffer \<Rightarrow> gpu_buffer \<Rightarrow> ring_buffer \<Rightarrow> bool" where
  "ring_at place tb b rb \<longleftrightarrow> rb_inv rb \<and> rb_alignment rb = tb_alignment tb \<and> rb_base rb = place (buf_memory b) \<and>
     rb_base_offset rb = tb_result_size tb \<and> tb_result_size tb + rb_size rb = buf_size b \<and> tb_alignment tb dvd rb_size rb"

text \<open>The sizes it was initialised with, while it is usable.\<close>

definition tb_sizes :: "transfer_buffer \<Rightarrow> bool" where
  "tb_sizes tb \<longleftrightarrow> is_pow2 (tb_min_buffer_size tb) \<and> is_pow2 (tb_max_buffer_size tb) \<and> is_pow2 (tb_default_buffer_size tb) \<and>
     tb_alignment tb \<le> tb_min_buffer_size tb \<and> tb_result_size tb < tb_min_buffer_size tb \<and>
     tb_min_buffer_size tb \<le> tb_max_buffer_size tb"

definition tb_inv :: "(nat \<Rightarrow> addr) \<Rightarrow> nat \<Rightarrow> transfer_buffer \<Rightarrow> bool" where
  "tb_inv place n tb \<longleftrightarrow> is_pow2 (tb_alignment tb) \<and> 0 < tb_result_size tb \<and> tb_alignment tb dvd tb_result_size tb \<and>
     list_all idle_ring (tb_previous_ring_buffers tb) \<and> (tb_usable tb \<longrightarrow> tb_sizes tb) \<and>
     (if tb_buffer_id tb = -1
      then tb_buffer tb = None \<and> tb_ring_buffer tb = None \<and> tb_result_buffer tb = None \<and> tb_last_allocated_size tb = 0
      else (\<exists>b rb. tb_buffer tb = Some b \<and> tb_ring_buffer tb = Some rb \<and> ring_at place tb b rb \<and>
              tb_result_buffer tb = Some (place (buf_memory b)) \<and> tb_last_allocated_size tb = buf_size b \<and> buf_memory b < n))"

text \<open>No block of the current ring is in use.\<close>

definition tb_idle :: "transfer_buffer \<Rightarrow> bool" where
  "tb_idle tb \<longleftrightarrow> (\<forall>rb. tb_ring_buffer tb = Some rb \<longrightarrow> rb_num_used_blocks rb = 0)"

lemma tb_inv_have: "tb_inv place n tb \<Longrightarrow> TransferBuffer_HaveBuffer tb = Inr (tb_buffer_id tb \<noteq> -1)"
  by (auto simp: tb_inv_def TransferBuffer_HaveBuffer_def split: if_splits)

lemma tb_inv_mono: "tb_inv place n tb \<Longrightarrow> n \<le> n' \<Longrightarrow> tb_inv place n' tb"
  by (auto simp: tb_inv_def)

text \<open>How the operations move a transfer buffer: its ring is the same one with fewer blocks, or it lies in a new block of memory.\<close>

definition tb_moved :: "(i32 \<Rightarrow> bool) \<Rightarrow> nat \<Rightarrow> transfer_buffer \<Rightarrow> transfer_buffer \<Rightarrow> bool" where
  "tb_moved P n tb tb' \<longleftrightarrow> tb_alignment tb' = tb_alignment tb \<and> tb_result_size tb' = tb_result_size tb \<and>
     tb_outstanding_result_pointer tb' = tb_outstanding_result_pointer tb \<and>
     ((\<exists>rb rb'. tb_buffer tb' = tb_buffer tb \<and> tb_ring_buffer tb = Some rb \<and> tb_ring_buffer tb' = Some rb' \<and> ring_dropped P rb rb') \<or>
      (\<forall>b. tb_buffer tb' = Some b \<longrightarrow> n \<le> buf_memory b))"

lemma tb_moved_refl: "tb_inv place n tb \<Longrightarrow> tb_moved P m tb tb"
  by (auto simp: tb_moved_def tb_inv_def intro: ring_dropped_refl split: if_splits)

lemma tb_moved_trans:
  assumes "tb_moved P n tb tb'" "tb_moved Q n' tb' tb''" "\<And>u. P u \<Longrightarrow> Q u" "n \<le> n'"
  shows "tb_moved Q n tb tb''"
proof -
  have f: "tb_alignment tb'' = tb_alignment tb \<and> tb_result_size tb'' = tb_result_size tb \<and>
    tb_outstanding_result_pointer tb'' = tb_outstanding_result_pointer tb" using assms(1,2) by (simp add: tb_moved_def)
  consider (fresh) "\<forall>b. tb_buffer tb'' = Some b \<longrightarrow> n' \<le> buf_memory b"
    | (same) rb1 rb2 where "tb_buffer tb'' = tb_buffer tb'" "tb_ring_buffer tb' = Some rb1" "tb_ring_buffer tb'' = Some rb2" "ring_dropped Q rb1 rb2"
    using assms(2) by (auto simp: tb_moved_def)
  then show ?thesis
  proof cases
    case fresh
    with f assms(4) show ?thesis by (auto simp: tb_moved_def intro: le_trans)
  next
    case (same rb1 rb2)
    have "(\<exists>rb. tb_buffer tb' = tb_buffer tb \<and> tb_ring_buffer tb = Some rb \<and> ring_dropped P rb rb1) \<or>
      (\<forall>b. tb_buffer tb' = Some b \<longrightarrow> n \<le> buf_memory b)"
      using assms(1) same(2) by (auto simp: tb_moved_def)
    with f same ring_dropped_trans [OF _ same(4) assms(3)] show ?thesis by (auto simp: tb_moved_def)
  qed
qed

lemma ring_at_dropped:
  assumes "ring_at place tb b rb" "ring_dropped P rb rb'" "rb_inv rb'"
    "tb_alignment tb' = tb_alignment tb" "tb_result_size tb' = tb_result_size tb"
  shows "ring_at place tb' b rb'"
  using assms by (simp add: ring_at_def ring_dropped_def same_frame_def)

text \<open>The ring of a new buffer.\<close>

lemma new_ring_at:
  assumes "is_pow2 (tb_alignment tb)" "tb_alignment tb dvd tb_result_size tb" "tb_alignment tb dvd buf_size b"
    "tb_result_size tb < buf_size b" "buf_size b \<le> 2 ^ 31"
    and "rb = new_RingBuffer (buf_size b) (place (buf_memory b)) (tb_alignment tb) (tb_result_size tb)"
  shows "ring_at place tb b rb" "rb_num_used_blocks rb = 0"
proof -
  have s: "buf_size b < 2 ^ 32" using assms(5) by simp
  have "u32_sub (buf_size b) (tb_result_size tb) = buf_size b - tb_result_size tb" using assms(4) s by (intro u32_sub_nowrap) auto
  moreover have "rb_inv rb" unfolding assms(6) by (rule new_RingBuffer_inv) (use assms(1,4,5) s in auto)
  ultimately show "ring_at place tb b rb" using assms(2-4) by (simp add: ring_at_def assms(6) new_RingBuffer_def dvd_diff_nat)
  show "rb_num_used_blocks rb = 0" by (simp add: assms(6) new_RingBuffer_def)
qed

context buffer_source
begin

text \<open>What an operation promises that starts from an idle transfer buffer.\<close>

definition tb_step :: "(nat \<Rightarrow> addr) \<Rightarrow> nat \<Rightarrow> transfer_buffer \<Rightarrow> 'w hworld \<Rightarrow> transfer_buffer \<Rightarrow> 'w hworld \<Rightarrow> bool" where
  "tb_step place n tb x tb' x' \<longleftrightarrow> (\<exists>n'. n \<le> n' \<and> inv n' x' \<and> tb_inv place n' tb' \<and> tb_idle tb' \<and>
     (\<forall>u. passed x u \<longrightarrow> passed x' u) \<and> tb_moved (passed x') n tb tb')"

lemma tb_step_trans:
  assumes "tb_step place n tb x tb' x'" "\<And>n'. n \<le> n' \<Longrightarrow> inv n' x' \<Longrightarrow> tb_inv place n' tb' \<Longrightarrow> tb_step place n' tb' x' tb'' x''"
  shows "tb_step place n tb x tb'' x''"
proof -
  from assms(1) obtain n' where n': "n \<le> n'" "inv n' x'" "tb_inv place n' tb'" "\<forall>u. passed x u \<longrightarrow> passed x' u" "tb_moved (passed x') n tb tb'"
    by (auto simp: tb_step_def)
  from assms(2) [OF n'(1-3)] obtain n'' where n'': "n' \<le> n''" "inv n'' x''" "tb_inv place n'' tb''" "tb_idle tb''"
    "\<forall>u. passed x' u \<longrightarrow> passed x'' u" "tb_moved (passed x'') n' tb' tb''" by (auto simp: tb_step_def)
  from tb_moved_trans [OF n'(5) n''(6) _ n'(1)] n' n'' show ?thesis by (auto simp: tb_step_def intro: le_trans)
qed

lemma tb_step_same:
  assumes "tb_step place n tb x tb' x'" "tb_step place n tb' x' tb'' x''"
  shows "tb_step place n tb x tb'' x''"
proof -
  from assms(1) have s1: "\<forall>u. passed x u \<longrightarrow> passed x' u" "tb_moved (passed x') n tb tb'" by (auto simp: tb_step_def)
  from assms(2) obtain n'' where s2: "n \<le> n''" "inv n'' x''" "tb_inv place n'' tb''" "tb_idle tb''"
    "\<forall>u. passed x' u \<longrightarrow> passed x'' u" "tb_moved (passed x'') n tb' tb''" by (auto simp: tb_step_def)
  from tb_moved_trans [OF s1(2) s2(6) _ le_refl] s1 s2 show ?thesis by (auto simp: tb_step_def)
qed

lemma GetPrevious_step:
  assumes "tb_inv place n tb" "inv n x" "tb_idle tb"
  shows "\<exists>k rbs x'. TransferBuffer_GetPreviousRingBufferUsedBytes (helper_token_ops cb) tb x = Inr (k, tb\<lparr>tb_previous_ring_buffers := rbs\<rparr>, x') \<and>
    k \<le> sum_list (map rb_size (tb_previous_ring_buffers tb)) \<and>
    sum_list (map rb_size rbs) \<le> sum_list (map rb_size (tb_previous_ring_buffers tb)) \<and>
    inv n x' \<and> tb_inv place n (tb\<lparr>tb_previous_ring_buffers := rbs\<rparr>) \<and>
    tb_step place n tb x (tb\<lparr>tb_previous_ring_buffers := rbs\<rparr>) x'"
proof -
  have l: "list_all idle_ring (tb_previous_ring_buffers tb)" using assms(1) by (simp add: tb_inv_def)
  from tok.GetPrevious_returns [OF l assms(2)] obtain k rbs x' where
    g: "TransferBuffer_GetPreviousRingBufferUsedBytes (helper_token_ops cb) tb x = Inr (k, tb\<lparr>tb_previous_ring_buffers := rbs\<rparr>, x')"
      "k \<le> sum_list (map rb_size (tb_previous_ring_buffers tb))"
      "sum_list (map rb_size rbs) \<le> sum_list (map rb_size (tb_previous_ring_buffers tb))" "list_all idle_ring rbs" "inv n x'"
      "\<forall>u. passed x u \<longrightarrow> passed x' u" by blast
  let ?tb = "tb\<lparr>tb_previous_ring_buffers := rbs\<rparr>"
  have "tb_inv place n ?tb"
    using assms(1) g(4) by (cases "tb_buffer_id tb = -1") (simp_all add: tb_inv_def tb_sizes_def ring_at_def)
  moreover have "tb_moved P m tb ?tb" for P m using tb_moved_refl [OF assms(1), of P m] by (simp add: tb_moved_def)
  moreover have "tb_idle ?tb" using assms(3) by (simp add: tb_idle_def)
  ultimately show ?thesis using g by (auto simp: tb_step_def)
qed

lemma GetFreeSize_step:
  assumes "tb_inv place n tb" "inv n x" "tb_idle tb"
  shows "\<exists>k r x'. TransferBuffer_GetFreeSize (helper_token_ops cb) tb x = Inr (k, tb\<lparr>tb_ring_buffer := r\<rparr>, x') \<and>
    k \<le> tb_last_allocated_size tb \<and> inv n x' \<and> tb_inv place n (tb\<lparr>tb_ring_buffer := r\<rparr>) \<and>
    tb_idle (tb\<lparr>tb_ring_buffer := r\<rparr>) \<and> tb_step place n tb x (tb\<lparr>tb_ring_buffer := r\<rparr>) x'"
proof (cases "tb_buffer_id tb = -1")
  case True
  with assms(1) have "tb_ring_buffer tb = None" by (simp add: tb_inv_def)
  then have "tb\<lparr>tb_ring_buffer := None\<rparr> = tb" by simp
  moreover have "tb_step place n tb x tb x" using assms tb_moved_refl [OF assms(1)] by (auto simp: tb_step_def)
  ultimately show ?thesis
    using True assms tb_inv_have [OF assms(1)]
    by (intro exI [of _ 0] exI [of _ None] exI [of _ x]) (simp add: TransferBuffer_GetFreeSize_def query_ring_def)
next
  case False
  with assms(1) obtain b rb where b: "tb_buffer tb = Some b" "tb_ring_buffer tb = Some rb" "ring_at place tb b rb"
    "tb_last_allocated_size tb = buf_size b" "buf_memory b < n" "tb_result_buffer tb = Some (place (buf_memory b))" by (auto simp: tb_inv_def)
  have "idle_ring rb" using b(2,3) assms(3) by (simp add: idle_ring_def ring_at_def tb_idle_def)
  from tok.GetLargest_idle [OF this assms(2)] obtain k rb' x' where
    g: "RingBuffer_GetLargestFreeSizeNoWaiting (helper_token_ops cb) rb x = Inr (k, rb', x')" "k \<le> rb_size rb" "idle_ring rb'" "inv n x'"
      "\<forall>u. passed x u \<longrightarrow> passed x' u" "ring_dropped (passed x') rb rb'" by blast
  let ?tb = "tb\<lparr>tb_ring_buffer := Some rb'\<rparr>"
  have "ring_at place ?tb b rb'" by (rule ring_at_dropped [OF b(3) g(6)]) (use g(3) in \<open>simp_all add: idle_ring_def\<close>)
  then have i: "tb_inv place n ?tb" using assms(1) False b by (simp add: tb_inv_def tb_sizes_def)
  have d: "tb_idle ?tb" using g(3) by (simp add: tb_idle_def idle_ring_def)
  have "tb_moved (passed x') n tb ?tb" using b g(6) by (simp add: tb_moved_def)
  with i d g have "tb_step place n tb x ?tb x'" by (auto simp: tb_step_def)
  moreover have "k \<le> tb_last_allocated_size tb" using g(2) b(3,4) by (simp add: ring_at_def)
  ultimately show ?thesis
    using False b(2) g i d tb_inv_have [OF assms(1)]
    by (intro exI [of _ k] exI [of _ "Some rb'"] exI [of _ x']) (simp add: TransferBuffer_GetFreeSize_def query_ring_def the_ring_def)
qed

end

section \<open>Freeing and allocating the ring\<close>

lemma is_pow2_pos: "is_pow2 k \<Longrightarrow> 0 < k"
  by (auto simp: is_pow2_def)

lemma is_pow2_half:
  assumes "is_pow2 sz" "is_pow2 al" "al \<le> sz div 2"
  shows "is_pow2 (sz div 2)" "al dvd sz div 2"
proof -
  obtain k j where k: "k < 32" "sz = 2 ^ k" "j < 32" "al = 2 ^ j" using assms(1,2) by (auto simp: is_pow2_def)
  then obtain i where i: "k = Suc i" using assms(3) by (cases k) auto
  with k show "is_pow2 (sz div 2)" by (auto simp: is_pow2_def)
  have "j \<le> i" using assms(3) k i by simp
  with k i show "al dvd sz div 2" by (simp add: le_imp_power_dvd)
qed

lemma is_pow2_dvd:
  assumes "is_pow2 al" "is_pow2 sz" "al \<le> sz"
  shows "al dvd sz"
  using assms by (auto simp: is_pow2_def le_imp_power_dvd)

lemma is_pow2_le: "is_pow2 sz \<Longrightarrow> sz \<le> 2 ^ 31"
  using power_increasing [of _ 31 "2 :: nat"] by (fastforce simp: is_pow2_def)

lemma AlignUp_multiple:
  assumes "bits_ok bits" "is_pow2 al" "al dvd sz" "sz \<le> 2 ^ 31"
  shows "bits_AlignUp bits sz al = sz"
proof -
  obtain k where k: "k < 32" "al = 2 ^ k" using assms(2) by (auto simp: is_pow2_def)
  have "al \<le> 2 ^ 31" by (rule is_pow2_le [OF assms(2)])
  then have "bits_AlignUp bits sz al = (sz + al - 1) div al * al" using assms(1,4) k by (simp add: bits_ok_def)
  moreover have "(sz + al - 1) div al * al = sz"
    using round_up_least [of al sz sz] div_mult_round_up(1) [of al sz] is_pow2_pos [OF assms(2)] assms(3) by simp
  ultimately show ?thesis by simp
qed

context buffer_source
begin

lemma Free_step:
  assumes "tb_inv place n tb" "inv n x" "tb_idle tb" "tb_buffer_id tb \<noteq> -1" "\<not> tb_outstanding_result_pointer tb"
  shows "\<exists>tb' x'. TransferBuffer_Free cb tb x = Inr (tb', x') \<and> inv n x' \<and> tb_inv place n tb' \<and> tb_buffer_id tb' = -1 \<and>
    tb_step place n tb x tb' x' \<and> tb_usable tb' = tb_usable tb \<and> tb_min_buffer_size tb' = tb_min_buffer_size tb \<and>
    tb_max_buffer_size tb' = tb_max_buffer_size tb \<and> tb_default_buffer_size tb' = tb_default_buffer_size tb"
proof -
  obtain b rb where b: "tb_buffer tb = Some b" "tb_ring_buffer tb = Some rb" "ring_at place tb b rb"
    using assms(1,4) by (auto simp: tb_inv_def)
  have idle: "idle_ring rb" "rb_num_used_blocks rb = 0" using b(2,3) assms(3) by (simp_all add: idle_ring_def ring_at_def tb_idle_def)
  obtain x1 where o: "Helper_OrderingBarrier cb x = Inr x1" "inv n x1" "\<forall>u. passed x u \<longrightarrow> passed x1 u" using barrier [OF assms(2)] by blast
  obtain w where d: "cb_DestroyTransferBuffer cb (tb_buffer_id tb) (snd x1) = Inr w" "inv n (fst x1, w)" "\<forall>u. passed x1 u \<longrightarrow> passed (fst x1, w) u"
    using destroy [of n "fst x1" "snd x1" "tb_buffer_id tb"] o(2) by auto
  let ?tb1 = "tb\<lparr>tb_buffer_id := -1, tb_result_shm_offset := 0, tb_previous_ring_buffers := tb_previous_ring_buffers tb @ [rb],
    tb_ring_buffer := None, tb_last_allocated_size := 0\<rparr>"
  have "list_all idle_ring (tb_previous_ring_buffers ?tb1)" using assms(1) idle(1) by (simp add: tb_inv_def)
  from tok.GetPrevious_returns [OF this d(2)] obtain k rbs x2 where
    g: "TransferBuffer_GetPreviousRingBufferUsedBytes (helper_token_ops cb) ?tb1 (fst x1, w) = Inr (k, ?tb1\<lparr>tb_previous_ring_buffers := rbs\<rparr>, x2)"
      "list_all idle_ring rbs" "inv n x2" "\<forall>u. passed (fst x1, w) u \<longrightarrow> passed x2 u" by blast
  let ?tb2 = "?tb1\<lparr>tb_previous_ring_buffers := rbs, tb_high_water_mark := k, tb_bytes_since_last_shrink := 0, tb_result_buffer := None, tb_buffer := None\<rparr>"
  have f: "TransferBuffer_Free cb tb x = Inr (?tb2, x2)"
    using assms(4,5) o(1) d(1) b(2) idle(2) g(1) tb_inv_have [OF assms(1)] by (simp add: TransferBuffer_Free_def the_ring_def)
  have i: "tb_inv place n ?tb2" using assms(1) g(2) by (simp add: tb_inv_def tb_sizes_def)
  have "tb_step place n tb x ?tb2 x2"
    unfolding tb_step_def using i g(3,4) o(3) d(3) by (intro exI [of _ n]) (simp add: tb_idle_def tb_moved_def)
  with f i g(3) show ?thesis by (intro exI [of _ ?tb2] exI [of _ x2]) simp
qed

lemma allocate_ring_loop_step:
  assumes "bits_ok bits" "tb_inv place n (tb\<lparr>tb_usable := False\<rparr>)" "inv n x" "tb_buffer_id tb = -1" "0 < tb_min_buffer_size tb"
    "tb_min_buffer_size tb \<le> sz \<Longrightarrow> is_pow2 sz \<and> sz \<le> tb_max_buffer_size tb \<and> tb_sizes tb"
  shows "\<exists>tb' x'. allocate_ring_loop bits cb place sz tb x = Some (Inr (tb', x')) \<and> tb_step place n tb x tb' x' \<and>
    (if tb_buffer_id tb' = -1 then \<not> tb_usable tb'
     else tb_usable tb' = tb_usable tb \<and>
       (\<exists>b. tb_buffer tb' = Some b \<and> tb_min_buffer_size tb \<le> buf_size b \<and> buf_size b \<le> sz \<and> n \<le> buf_memory b))"
  using assms(2-)
proof (induction sz arbitrary: tb x rule: less_induct)
  case (less sz)
  have none: "tb_buffer tb = None" "tb_ring_buffer tb = None" using less.prems(1,3) by (simp_all add: tb_inv_def)
  have al: "is_pow2 (tb_alignment tb)" "0 < tb_result_size tb" "tb_alignment tb dvd tb_result_size tb" using less.prems(1) by (simp_all add: tb_inv_def)
  show ?case
  proof (cases "tb_min_buffer_size tb \<le> sz")
    case False
    then have "allocate_ring_loop bits cb place sz tb x = Some (Inr (tb\<lparr>tb_usable := False\<rparr>, x))"
      by (simp add: allocate_ring_loop.simps [of bits cb place sz tb x])
    moreover have "tb_step place n tb x (tb\<lparr>tb_usable := False\<rparr>) x"
      unfolding tb_step_def using less.prems(1,2) none by (intro exI [of _ n]) (simp add: tb_moved_def tb_idle_def)
    ultimately show ?thesis using less.prems(3) by (intro exI [of _ "tb\<lparr>tb_usable := False\<rparr>"] exI [of _ x]) simp
  next
    case True
    note s = less.prems(5) [OF True]
    have sz: "sz \<le> 2 ^ 31" "sz < 2 ^ 32" using is_pow2_le [of sz] s by simp_all
    have le: "tb_alignment tb \<le> sz" "tb_result_size tb < sz" using s True by (auto simp: tb_sizes_def)
    obtain bo bid w where c: "cb_CreateTransferBuffer cb sz (snd x) = (bo, bid, w)" by (metis surj_pair)
    note cr = create [of n "fst x" "snd x", OF _ sz(2) c]
    have cr': "inv n (fst x, w)" "\<forall>u. passed x u \<longrightarrow> passed (fst x, w) u" using cr less.prems(2) by simp_all
    show ?thesis
    proof (cases "bid = -1")
      case True
      let ?tb = "tb\<lparr>tb_max_buffer_size := bits_AlignUp bits (sz div 2) (tb_alignment tb)\<rparr>"
      have l: "allocate_ring_loop bits cb place sz tb x = allocate_ring_loop bits cb place (sz div 2) ?tb (fst x, w)"
        using \<open>tb_min_buffer_size tb \<le> sz\<close> c True by (simp add: allocate_ring_loop.simps [of bits cb place sz tb x])
      have i: "tb_inv place n (?tb\<lparr>tb_usable := False\<rparr>)" using less.prems(1,3) by (simp add: tb_inv_def)
      have h: "is_pow2 (sz div 2) \<and> sz div 2 \<le> tb_max_buffer_size ?tb \<and> tb_sizes ?tb" if "tb_min_buffer_size ?tb \<le> sz div 2"
      proof -
        have "tb_alignment tb \<le> sz div 2" using that s by (auto simp: tb_sizes_def)
        with al s have p: "is_pow2 (sz div 2)" "tb_alignment tb dvd sz div 2" using is_pow2_half by auto
        then have "bits_AlignUp bits (sz div 2) (tb_alignment tb) = sz div 2"
          using AlignUp_multiple [OF assms(1) al(1)] sz by simp
        with p that s show ?thesis by (auto simp: tb_sizes_def)
      qed
      have lt: "sz div 2 < sz" using \<open>tb_min_buffer_size tb \<le> sz\<close> less.prems(4) by simp
      have p: "tb_buffer_id ?tb = -1" "0 < tb_min_buffer_size ?tb" using less.prems(3,4) by simp_all
      from less.IH [OF lt i cr'(1) p h] obtain tb' x' where
        r: "allocate_ring_loop bits cb place (sz div 2) ?tb (fst x, w) = Some (Inr (tb', x'))" "tb_step place n ?tb (fst x, w) tb' x'"
          "if tb_buffer_id tb' = -1 then \<not> tb_usable tb' else tb_usable tb' = tb_usable ?tb \<and>
            (\<exists>b. tb_buffer tb' = Some b \<and> tb_min_buffer_size ?tb \<le> buf_size b \<and> buf_size b \<le> sz div 2 \<and> n \<le> buf_memory b)"
        by blast
      have "tb_step place n tb x tb' x'" using r(2) cr'(2) none by (auto simp: tb_step_def tb_moved_def)
      with l r(1,3) show ?thesis by (intro exI [of _ tb'] exI [of _ x']) (auto split: if_splits)
    next
      case False
      with cr less.prems(2) obtain b where b: "bo = Some b" "buf_size b = sz" "n \<le> buf_memory b" "inv (Suc (buf_memory b)) (fst x, w)" by auto
      define rb where "rb = new_RingBuffer (buf_size b) (place (buf_memory b)) (tb_alignment tb) (tb_result_size tb)"
      let ?tb = "tb\<lparr>tb_last_allocated_size := sz, tb_buffer := Some b, tb_ring_buffer := Some rb,
                     tb_buffer_id := bid, tb_result_buffer := Some (place (buf_memory b)), tb_result_shm_offset := 0,
                     tb_bytes_since_last_shrink := 0\<rparr>"
      have l: "allocate_ring_loop bits cb place sz tb x = Some (Inr (?tb, (fst x, w)))"
        using \<open>tb_min_buffer_size tb \<le> sz\<close> c False b(1) rb_def by (simp add: allocate_ring_loop.simps [of bits cb place sz tb x])
      have r: "ring_at place tb b rb" "rb_num_used_blocks rb = 0"
        using new_ring_at [where place = place, OF al(1,3) _ _ _ rb_def] is_pow2_dvd [OF al(1)] s le sz b(2) by auto
      have "tb_inv place (Suc (buf_memory b)) ?tb"
        using less.prems(1) False r(1) b(2) s by (simp add: tb_inv_def ring_at_def tb_sizes_def)
      then have "tb_step place n tb x ?tb (fst x, w)"
        unfolding tb_step_def using b(3,4) cr'(2) r(2) by (intro exI [of _ "Suc (buf_memory b)"]) (simp add: tb_moved_def tb_idle_def)
      with l False b \<open>tb_min_buffer_size tb \<le> sz\<close> show ?thesis by (intro exI [of _ ?tb] exI [of _ "(fst x, w)"]) simp
    qed
  qed
qed

end

section \<open>Reallocating\<close>

lemma ComputePOTSize_pow2:
  assumes "bits_ok bits" "is_pow2 al" "al \<le> n" "n < 2 ^ 32"
  shows "is_pow2 (ComputePOTSize bits n)" "al dvd ComputePOTSize bits n"
proof -
  have "is_pow2 (ComputePOTSize bits n) \<and> al \<le> ComputePOTSize bits n"
  proof (cases "n \<le> 2 ^ 31")
    case True
    from ComputePOTSize_eq [OF assms(1) _ True] is_pow2_pos [OF assms(2)] assms(3) obtain k where
      "k \<le> 31" "ComputePOTSize bits n = 2 ^ k" "n \<le> 2 ^ k" by auto
    with assms(3) show ?thesis by (auto simp: is_pow2_def)
  next
    case False
    then show ?thesis using ComputePOTSize_large [OF assms(1) _ assms(4)] is_pow2_le [OF assms(2)]
      by (auto simp: is_pow2_def intro: exI [of _ 31])
  qed
  then show "is_pow2 (ComputePOTSize bits n)" "al dvd ComputePOTSize bits n" using is_pow2_dvd [OF assms(2)] by auto
qed

lemma needed_buffer_size_pow2:
  assumes "tb_sizes tb" "is_pow2 (ComputePOTSize bits (u32_add sz (tb_result_size tb)))"
  shows "is_pow2 (needed_buffer_size bits sz h tb)" "tb_min_buffer_size tb \<le> needed_buffer_size bits sz h tb"
    "needed_buffer_size bits sz h tb \<le> tb_max_buffer_size tb"
  using assms by (auto simp: needed_buffer_size_def Let_def tb_sizes_def max_def min_def)

lemma tb_inv_counters [simp]:
  "tb_inv place n (tb\<lparr>tb_high_water_mark := k\<rparr>) = tb_inv place n tb" "tb_inv place n (tb\<lparr>tb_bytes_since_last_shrink := k\<rparr>) = tb_inv place n tb"
  "tb_idle (tb\<lparr>tb_high_water_mark := k\<rparr>) = tb_idle tb" "tb_idle (tb\<lparr>tb_bytes_since_last_shrink := k\<rparr>) = tb_idle tb"
  by (simp_all add: tb_inv_def tb_idle_def tb_sizes_def ring_at_def)

lemma tb_moved_counters [simp]:
  "tb_moved P n (tb\<lparr>tb_high_water_mark := k\<rparr>) tb' = tb_moved P n tb tb'" "tb_moved P n (tb\<lparr>tb_bytes_since_last_shrink := k\<rparr>) tb' = tb_moved P n tb tb'"
  "tb_moved P n tb (tb'\<lparr>tb_high_water_mark := k\<rparr>) = tb_moved P n tb tb'"
  by (simp_all add: tb_moved_def)

context buffer_source
begin

lemma tb_step_counters [simp]:
  "tb_step place n (tb\<lparr>tb_high_water_mark := k\<rparr>) x tb' x' = tb_step place n tb x tb' x'"
  "tb_step place n (tb\<lparr>tb_bytes_since_last_shrink := k\<rparr>) x tb' x' = tb_step place n tb x tb' x'"
  "tb_step place n tb x (tb'\<lparr>tb_high_water_mark := k\<rparr>) x' = tb_step place n tb x tb' x'"
  by (simp_all add: tb_step_def)

lemma tb_step_refl: "tb_inv place n tb \<Longrightarrow> inv n x \<Longrightarrow> tb_idle tb \<Longrightarrow> tb_step place n tb x tb x"
  using tb_moved_refl by (fastforce simp: tb_step_def)

text \<open>A resize of an idle transfer buffer returns; one that has no buffer has one afterwards, or is unusable.\<close>

lemma Reallocate_step:
  assumes "bits_ok bits" "tb_inv place n tb" "inv n x" "tb_idle tb" "\<not> tb_outstanding_result_pointer tb" "sz + tb_result_size tb < 2 ^ 32"
  shows "\<exists>tb' x'. TransferBuffer_ReallocateRingBuffer bits cb place sz shrink tb x = Inr (tb', x') \<and> tb_step place n tb x tb' x' \<and>
    (tb_usable tb \<longrightarrow> (if tb_buffer_id tb' = -1 then \<not> tb_usable tb'
       else \<exists>b. tb_buffer tb' = Some b \<and> (tb_buffer tb' = tb_buffer tb \<or>
         tb_min_buffer_size tb \<le> buf_size b \<and> buf_size b \<le> needed_buffer_size bits sz (tb_buffer_id tb \<noteq> -1) tb)))"
proof -
  let ?pot = "ComputePOTSize bits (u32_add sz (tb_result_size tb))" and ?h = "tb_buffer_id tb \<noteq> -1"
  define needed where "needed = needed_buffer_size bits sz ?h tb"
  define cur where "cur = (case tb_buffer tb of Some b \<Rightarrow> if ?h then buf_size b else 0 | None \<Rightarrow> 0)"
  have al: "is_pow2 (tb_alignment tb)" "tb_alignment tb \<le> tb_result_size tb" using assms(2) by (auto simp: tb_inv_def dvd_imp_le)
  have pot: "is_pow2 ?pot" "tb_alignment tb dvd ?pot"
    using ComputePOTSize_pow2 [OF assms(1) al(1), of "u32_add sz (tb_result_size tb)"] al(2) assms(6) by (simp_all add: u32_add_nowrap)
  have unf: "TransferBuffer_ReallocateRingBuffer bits cb place sz shrink tb x =
    (if cur = needed then Inr (tb, x) else if tb_usable tb \<and> (shrink \<or> needed > cur)
     then res_bind (if ?h then TransferBuffer_Free cb tb x else Inr (tb, x)) (\<lambda>(tb1, x1). TransferBuffer_AllocateRingBuffer bits cb place needed tb1 x1)
     else Inr (tb, x))"
    using assms(5) pot(2) tb_inv_have [OF assms(2)]
    by (simp add: TransferBuffer_ReallocateRingBuffer_def Let_def cur_def needed_def mod_eq_0_iff_dvd cong: if_cong)
  show ?thesis
  proof (cases "cur \<noteq> needed \<and> tb_usable tb \<and> (shrink \<or> needed > cur)")
    case False
    then have r: "TransferBuffer_ReallocateRingBuffer bits cb place sz shrink tb x = Inr (tb, x)" unfolding unf by auto
    have "\<not> (tb_usable tb \<and> \<not> ?h)"
    proof
      assume u: "tb_usable tb \<and> \<not> ?h"
      then have s: "tb_sizes tb" "cur = 0" using assms(2) by (simp_all add: tb_inv_def cur_def)
      from s(1) have "0 < tb_min_buffer_size tb" by (simp add: tb_sizes_def is_pow2_pos)
      with needed_buffer_size_pow2(2) [OF s(1) pot(1), of ?h, folded needed_def] False u s(2) show False by auto
    qed
    moreover have "?h \<Longrightarrow> \<exists>b. tb_buffer tb = Some b" using assms(2) by (auto simp: tb_inv_def)
    ultimately show ?thesis using r tb_step_refl [OF assms(2-4)] by auto
  next
    case True
    then have s: "tb_sizes tb" using assms(2) by (simp add: tb_inv_def)
    obtain tb1 x1 where f: "(if ?h then TransferBuffer_Free cb tb x else Inr (tb, x)) = Inr (tb1, x1)" "inv n x1" "tb_inv place n tb1"
      "tb_buffer_id tb1 = -1" "tb_step place n tb x tb1 x1" "tb_usable tb1 = tb_usable tb" "tb_min_buffer_size tb1 = tb_min_buffer_size tb"
      "tb_max_buffer_size tb1 = tb_max_buffer_size tb"
    proof (cases ?h)
      case True
      then show thesis using Free_step [OF assms(2-4) True assms(5)] that by auto
    next
      case False
      then show thesis using assms(2,3) tb_step_refl [OF assms(2-4)] by (intro that [of tb x]) simp_all
    qed
    note n = needed_buffer_size_pow2 [OF s pot(1), of ?h, folded needed_def]
    have s1: "tb_sizes tb1" using f(3,6) True by (simp add: tb_inv_def)
    have "tb_inv place n (tb1\<lparr>tb_usable := False\<rparr>)" using f(3,4) by (simp add: tb_inv_def)
    from allocate_ring_loop_step [OF assms(1) this f(2,4), of needed] n s1 f(7,8) obtain tb' x' where
      l: "allocate_ring_loop bits cb place needed tb1 x1 = Some (Inr (tb', x'))" "tb_step place n tb1 x1 tb' x'"
        "if tb_buffer_id tb' = -1 then \<not> tb_usable tb' else tb_usable tb' = tb_usable tb1 \<and>
          (\<exists>b. tb_buffer tb' = Some b \<and> tb_min_buffer_size tb1 \<le> buf_size b \<and> buf_size b \<le> needed \<and> n \<le> buf_memory b)"
      by (auto simp: tb_sizes_def is_pow2_pos)
    have "TransferBuffer_ReallocateRingBuffer bits cb place sz shrink tb x = Inr (tb', x')"
      unfolding unf using True f(1) l(1) by (simp add: TransferBuffer_AllocateRingBuffer_def)
    moreover have "tb_step place n tb x tb' x'"
      by (rule tb_step_same [OF f(5) l(2)])
    ultimately show ?thesis using l(3) f(7) unfolding needed_def by (intro exI [of _ tb'] exI [of _ x']) (auto split: if_splits)
  qed
qed

end

section \<open>Allocating\<close>

text \<open>
  Memory handed out: \<open>k\<close> bytes behind the result area and inside the buffer, held by a block of the ring, apart
  from every block of the ring as it was whose token has not passed; or in a new block of memory.
\<close>

definition tb_gave :: "(nat \<Rightarrow> addr) \<Rightarrow> (i32 \<Rightarrow> bool) \<Rightarrow> nat \<Rightarrow> transfer_buffer \<Rightarrow> addr \<Rightarrow> u32 \<Rightarrow> transfer_buffer \<Rightarrow> bool" where
  "tb_gave place P n tb p k tb' \<longleftrightarrow> (\<exists>b rb' off m. tb_buffer tb' = Some b \<and> tb_ring_buffer tb' = Some rb' \<and>
     p = place (buf_memory b) + int (tb_result_size tb + off) \<and> tb_result_size tb + off + k \<le> buf_size b \<and>
     tb_alignment tb dvd off \<and> k \<le> m \<and> mk_block off m RB_IN_USE \<in> set (rb_blocks rb') \<and>
     (n \<le> buf_memory b \<or> tb_buffer tb' = tb_buffer tb \<and>
       (\<forall>rb. tb_ring_buffer tb = Some rb \<longrightarrow> (\<forall>c \<in> set (rb_blocks rb). reusable P c \<or>
          c \<in> set (rb_blocks rb') \<and> regions_disjoint (blk_offset c) (blk_size c) off m))))"

context buffer_source
begin

lemma ring_alloc_gave:
  assumes "tb_inv place n tb" "inv n x" "tb_ring_buffer tb = Some rb" "ring_alloc (helper_token_ops cb) k tb x = Inr (p, tb', x')"
  shows "inv n x'" "tb_inv place n tb'" "\<forall>u. passed x u \<longrightarrow> passed x' u" "tb_gave place (passed x') l tb p k tb'"
    "tb_buffer tb' = tb_buffer tb"
proof -
  obtain b where b: "tb_buffer tb = Some b" "ring_at place tb b rb" "tb_buffer_id tb \<noteq> -1" "tb_result_buffer tb = Some (place (buf_memory b))"
    "tb_last_allocated_size tb = buf_size b" "buf_memory b < n"
    using assms(1,3) by (cases "tb_buffer_id tb = -1") (auto simp: tb_inv_def)
  have rb: "rb_inv rb" using b(2) by (simp add: ring_at_def)
  from assms(3,4) obtain rb' where a: "RingBuffer_Alloc (helper_token_ops cb) k rb x = Inr (p, rb', x')"
    and tb': "tb' = tb\<lparr>tb_ring_buffer := Some rb', tb_bytes_since_last_shrink := u32_add (tb_bytes_since_last_shrink tb) k\<rparr>"
    by (auto simp: ring_alloc_def the_ring_def res_simps)
  define off where "off = u32_sub (RingBuffer_GetOffset rb p) (rb_base_offset rb)"
  define m where "m = RingBuffer_RoundToAlignment rb (max 1 k)"
  note s = tok.Alloc_safe [OF a rb assms(2) off_def m_def] and f = tok.RingBuffer_Alloc_frame [OF a rb assms(2)]
  show "inv n x'" "\<forall>u. passed x u \<longrightarrow> passed x' u" by (rule s(2), rule f(2))
  have "ring_at place tb' b rb'" using b(2) f(1) s(1) by (simp add: ring_at_def same_frame_def tb')
  with assms(1) b show i: "tb_inv place n tb'" by (simp add: tb_inv_def tb' tb_sizes_def ring_at_def)
  show "tb_buffer tb' = tb_buffer tb" by (simp add: tb')
  have "p = place (buf_memory b) + int (tb_result_size tb + off)"
    using tok.RingBuffer_Alloc_pointer [OF a rb assms(2) off_def] b(2) by (simp add: ring_at_def)
  moreover have "mk_block off m RB_IN_USE \<in> set (rb_blocks rb')"
    using s(6) last_in_set [OF tok.RingBuffer_Alloc_nonempty [OF a]] by simp
  moreover have "tb_result_size tb + off + k \<le> buf_size b" using s(4,5) b(2) by (simp add: ring_at_def)
  moreover have "\<forall>c \<in> set (rb_blocks rb). reusable (passed x') c \<or> c \<in> set (rb_blocks rb') \<and> regions_disjoint (blk_offset c) (blk_size c) off m"
    using s(7,8) in_set_butlastD by metis
  ultimately show "tb_gave place (passed x') l tb p k tb'"
    using b(1,2) assms(3) s(3,4) by (auto simp: tb_gave_def tb' ring_at_def)
qed

end


lemma tb_gave_after:
  assumes "tb_moved P n tb tb1" "tb_gave place Q m tb1 p k tb'" "tb_buffer tb' = tb_buffer tb1" "\<And>u. P u \<Longrightarrow> Q u" "n \<le> m"
  shows "tb_gave place Q n tb p k tb'"
proof -
  from assms(2) obtain b rb' off l where g: "tb_buffer tb' = Some b" "tb_ring_buffer tb' = Some rb'"
    "p = place (buf_memory b) + int (tb_result_size tb1 + off)" "tb_result_size tb1 + off + k \<le> buf_size b"
    "tb_alignment tb1 dvd off" "k \<le> l" "mk_block off l RB_IN_USE \<in> set (rb_blocks rb')"
    and safe: "m \<le> buf_memory b \<or> tb_buffer tb' = tb_buffer tb1 \<and> (\<forall>rb. tb_ring_buffer tb1 = Some rb \<longrightarrow>
      (\<forall>c \<in> set (rb_blocks rb). reusable Q c \<or> c \<in> set (rb_blocks rb') \<and> regions_disjoint (blk_offset c) (blk_size c) off l))"
    unfolding tb_gave_def by (elim exE conjE) blast
  have f: "tb_result_size tb1 = tb_result_size tb" "tb_alignment tb1 = tb_alignment tb" using assms(1) by (simp_all add: tb_moved_def)
  have "n \<le> buf_memory b \<or> tb_buffer tb' = tb_buffer tb \<and> (\<forall>rb. tb_ring_buffer tb = Some rb \<longrightarrow>
      (\<forall>c \<in> set (rb_blocks rb). reusable Q c \<or> c \<in> set (rb_blocks rb') \<and> regions_disjoint (blk_offset c) (blk_size c) off l))"
  proof (cases "n \<le> buf_memory b")
    case False
    with assms(1,3) g(1) obtain rb rb1 where d: "tb_buffer tb1 = tb_buffer tb" "tb_ring_buffer tb = Some rb" "tb_ring_buffer tb1 = Some rb1"
      "ring_dropped P rb rb1" by (auto simp: tb_moved_def)
    have "reusable P c \<Longrightarrow> reusable Q c" for c using assms(4) by (auto simp: reusable_def)
    with d safe False assms(3,5) show ?thesis by (fastforce simp: ring_dropped_def)
  qed simp
  with g f show ?thesis unfolding tb_gave_def by (intro exI [of _ b] exI [of _ rb'] exI [of _ off] exI [of _ l]) simp
qed

text \<open>What the sizes have to satisfy for the unsigned sums of the heuristics not to wrap.\<close>

definition tb_bounded :: "u32 \<Rightarrow> transfer_buffer \<Rightarrow> bool" where
  "tb_bounded sz tb \<longleftrightarrow> tb_high_water_mark tb + tb_last_allocated_size tb + sz + tb_result_size tb +
     sum_list (map rb_size (tb_previous_ring_buffers tb)) \<le> 2 ^ 31"

context buffer_source
begin

lemma resize_ring_step:
  assumes "bits_ok bits" "tb_inv place n tb" "inv n x" "tb_idle tb" "\<not> tb_outstanding_result_pointer tb"
    "tb_high_water_mark tb + tb_result_size tb \<le> 2 ^ 31"
  shows "\<exists>tb' x'. resize_ring bits cb place sz avail tb x = Inr (tb', x') \<and> tb_step place n tb x tb' x'"
proof -
  have hw: "u32_add (tb_high_water_mark tb) (tb_high_water_mark tb div 4) = tb_high_water_mark tb + tb_high_water_mark tb div 4"
    using assms(6) by (intro u32_add_nowrap) simp
  consider (grow) "avail < sz" | (shrink) "\<not> avail < sz" "tb_bytes_since_last_shrink tb > u32_mul (tb_high_water_mark tb) kShrinkThreshold"
    | (keep) "\<not> avail < sz" "\<not> tb_bytes_since_last_shrink tb > u32_mul (tb_high_water_mark tb) kShrinkThreshold" by blast
  then show ?thesis
  proof cases
    case grow
    have "tb_high_water_mark tb + tb_result_size tb < 2 ^ 32" using assms(6) by simp
    from Reallocate_step [OF assms(1-5) this, of False] grow show ?thesis by (auto simp: resize_ring_def)
  next
    case shrink
    let ?tb = "tb\<lparr>tb_bytes_since_last_shrink := 0\<rparr>"
    have "tb_high_water_mark tb + tb_high_water_mark tb div 4 + tb_result_size ?tb < 2 ^ 32" using assms(6) by simp
    from Reallocate_step [OF assms(1) _ assms(3) _ _ this, of place True] assms(2,4,5) obtain tb1 x1 where
      r: "TransferBuffer_ReallocateRingBuffer bits cb place (tb_high_water_mark tb + tb_high_water_mark tb div 4) True ?tb x = Inr (tb1, x1)"
        "tb_step place n tb x tb1 x1" by auto
    from r(2) obtain n1 where n1: "n \<le> n1" "inv n1 x1" "tb_inv place n1 tb1" "tb_idle tb1" "\<forall>u. passed x u \<longrightarrow> passed x1 u"
      "tb_moved (passed x1) n tb tb1" by (auto simp: tb_step_def)
    from GetPrevious_step [OF n1(3,2,4)] obtain k rbs x2 where
      p: "TransferBuffer_GetPreviousRingBufferUsedBytes (helper_token_ops cb) tb1 x1 = Inr (k, tb1\<lparr>tb_previous_ring_buffers := rbs\<rparr>, x2)"
        "inv n1 x2" "tb_inv place n1 (tb1\<lparr>tb_previous_ring_buffers := rbs\<rparr>)" "tb_step place n1 tb1 x1 (tb1\<lparr>tb_previous_ring_buffers := rbs\<rparr>) x2" by blast
    let ?tb2 = "tb1\<lparr>tb_previous_ring_buffers := rbs, tb_high_water_mark := u32_add sz k\<rparr>"
    have m: "tb_moved (passed x2) n1 tb1 (tb1\<lparr>tb_previous_ring_buffers := rbs\<rparr>)" "\<forall>u. passed x1 u \<longrightarrow> passed x2 u"
      "tb_idle (tb1\<lparr>tb_previous_ring_buffers := rbs\<rparr>)" using p(4) by (auto simp: tb_step_def)
    have "tb_moved (passed x2) n tb (tb1\<lparr>tb_previous_ring_buffers := rbs\<rparr>)" by (rule tb_moved_trans [OF n1(6) m(1) _ n1(1)]) (use m(2) in blast)
    then have "tb_step place n tb x (tb1\<lparr>tb_previous_ring_buffers := rbs\<rparr>) x2"
      unfolding tb_step_def using n1(1,5) p(2,3) m(2,3) by (intro exI [of _ n1]) blast
    then have "tb_step place n tb x ?tb2 x2" by simp
    moreover have "resize_ring bits cb place sz avail tb x = Inr (?tb2, x2)" using shrink r(1) p(1) hw by (simp add: resize_ring_def)
    ultimately show ?thesis by blast
  next
    case keep
    with tb_step_refl [OF assms(2-4)] show ?thesis by (auto simp: resize_ring_def)
  qed
qed

lemma ShrinkOrExpand_step:
  assumes "bits_ok bits" "tb_inv place n tb" "inv n x" "tb_idle tb" "\<not> tb_outstanding_result_pointer tb" "tb_bounded sz tb"
  shows "\<exists>tb' x'. TransferBuffer_ShrinkOrExpandRingBufferIfNecessary bits cb place sz tb x = Inr (tb', x') \<and> tb_step place n tb x tb' x'"
proof -
  from GetFreeSize_step [OF assms(2-4)] obtain av r x1 where
    g: "TransferBuffer_GetFreeSize (helper_token_ops cb) tb x = Inr (av, tb\<lparr>tb_ring_buffer := r\<rparr>, x1)" "av \<le> tb_last_allocated_size tb"
      "inv n x1" "tb_inv place n (tb\<lparr>tb_ring_buffer := r\<rparr>)" "tb_idle (tb\<lparr>tb_ring_buffer := r\<rparr>)" "tb_step place n tb x (tb\<lparr>tb_ring_buffer := r\<rparr>) x1" by blast
  let ?tb1 = "tb\<lparr>tb_ring_buffer := r\<rparr>"
  from GetPrevious_step [OF g(4,3,5)] obtain k rbs x2 where
    p: "TransferBuffer_GetPreviousRingBufferUsedBytes (helper_token_ops cb) ?tb1 x1 = Inr (k, ?tb1\<lparr>tb_previous_ring_buffers := rbs\<rparr>, x2)"
      "k \<le> sum_list (map rb_size (tb_previous_ring_buffers tb))" "inv n x2" "tb_inv place n (?tb1\<lparr>tb_previous_ring_buffers := rbs\<rparr>)"
      "tb_step place n ?tb1 x1 (?tb1\<lparr>tb_previous_ring_buffers := rbs\<rparr>) x2" by auto
  let ?tb2 = "?tb1\<lparr>tb_previous_ring_buffers := rbs\<rparr>"
  let ?hw = "max (tb_high_water_mark tb) (tb_last_allocated_size tb - av + sz + k)"
  have b: "tb_high_water_mark tb + tb_last_allocated_size tb + sz + tb_result_size tb + k \<le> 2 ^ 31" using assms(6) p(2) by (simp add: tb_bounded_def)
  have "u32_add (u32_add (u32_sub (tb_last_allocated_size tb) av) sz) k = tb_last_allocated_size tb - av + sz + k"
    using b g(2) by (simp add: u32_simps)
  then have eq: "tb_high_water_mark (?tb2\<lparr>tb_high_water_mark := max (tb_high_water_mark ?tb2)
      (u32_add (u32_add (u32_sub (tb_last_allocated_size ?tb2) av) sz) k)\<rparr>) = ?hw" by simp
  have d: "tb_idle ?tb2" using g(5) by (simp add: tb_idle_def)
  have hw: "?hw + tb_result_size tb \<le> 2 ^ 31" using b by (auto simp: max_def)
  let ?tb3 = "?tb2\<lparr>tb_high_water_mark := ?hw\<rparr>"
  have "\<exists>tb' x'. resize_ring bits cb place sz av ?tb3 x2 = Inr (tb', x') \<and> tb_step place n ?tb3 x2 tb' x'"
    by (rule resize_ring_step) (use assms(1,5) p(3,4) d hw in simp_all)
  then obtain tb' x' where s: "resize_ring bits cb place sz av ?tb3 x2 = Inr (tb', x')" "tb_step place n ?tb2 x2 tb' x'" by auto
  have busy: "(if tb_buffer_id tb \<noteq> -1 then the_ring tb (\<lambda>rb. Inr (rb_num_used_blocks rb > 0)) else Inr False) = Inr False"
    using assms(2,4) by (auto simp: tb_inv_def tb_idle_def the_ring_def split: if_splits)
  have "TransferBuffer_ShrinkOrExpandRingBufferIfNecessary bits cb place sz tb x = Inr (tb', x')"
    using assms(5) busy g(1) p(1) s(1) eq tb_inv_have [OF assms(2)]
    by (simp add: TransferBuffer_ShrinkOrExpandRingBufferIfNecessary_def del: max_less_iff_conj)
  moreover have "tb_step place n tb x tb' x'" by (rule tb_step_same [OF tb_step_same [OF g(6) p(5)] s(2)])
  ultimately show ?thesis by blast
qed

end

context buffer_source
begin

lemma ring_alloc_returns:
  assumes "tb_inv place n tb" "inv n x" "tb_idle tb" "tb_ring_buffer tb = Some rb" "k \<le> RingBuffer_GetLargestFreeOrPendingSize rb"
  shows "\<exists>p tb' x'. ring_alloc (helper_token_ops cb) k tb x = Inr (p, tb', x')"
proof -
  obtain b where b: "ring_at place tb b rb" using assms(1,4) by (auto simp: tb_inv_def split: if_splits)
  have rb: "rb_inv rb" "rb_num_used_blocks rb = 0" using b assms(3,4) by (simp_all add: ring_at_def tb_idle_def)
  have "rb_alignment rb \<le> rb_size rb" using b rb_inv_dest(3) [OF rb(1)] by (simp add: ring_at_def dvd_imp_le)
  from tok.Alloc_returns [OF rb(1) assms(2) rb(2) assms(5) this] assms(4) show ?thesis
    by (auto simp: ring_alloc_def the_ring_def)
qed

lemma ring_largest:
  assumes "ring_at place tb b rb"
  shows "RingBuffer_GetLargestFreeOrPendingSize rb = buf_size b - tb_result_size tb"
proof -
  have "rb_size rb \<le> 2 ^ 31" "tb_alignment tb dvd rb_size rb" using assms by (simp_all add: ring_at_def rb_inv_def)
  then have "RingBuffer_GetLargestFreeOrPendingSize rb = rb_size rb"
    using assms by (simp add: RingBuffer_GetLargestFreeOrPendingSize_def ring_at_def u32_sub_nowrap)
  with assms show ?thesis by (auto simp: ring_at_def)
qed

text \<open>
  \<^verbatim>\<open>AllocUpTo\<close> on an idle transfer buffer: it returns; it gives as much of what is asked for as the
  buffer has; and it gives nothing only when there is no buffer.
\<close>

lemma AllocUpTo_gave:
  assumes "bits_ok bits" "tb_inv place n tb" "inv n x" "tb_idle tb" "\<not> tb_outstanding_result_pointer tb" "tb_bounded sz tb"
  shows "\<exists>r tb' x' n'. TransferBuffer_AllocUpTo bits cb place sz tb x = Inr (r, tb', x') \<and> n \<le> n' \<and> inv n' x' \<and> tb_inv place n' tb' \<and>
    (\<forall>u. passed x u \<longrightarrow> passed x' u) \<and>
    (case r of None \<Rightarrow> tb_buffer_id tb' = -1
     | Some (p, k) \<Rightarrow> tb_gave place (passed x') n tb p k tb' \<and>
         (\<forall>b. tb_buffer tb' = Some b \<longrightarrow> k = min (buf_size b - tb_result_size tb) sz))"
proof -
  from ShrinkOrExpand_step [OF assms] obtain tb1 x1 n1 where
    s: "TransferBuffer_ShrinkOrExpandRingBufferIfNecessary bits cb place sz tb x = Inr (tb1, x1)" "n \<le> n1" "inv n1 x1"
      "tb_inv place n1 tb1" "tb_idle tb1" "\<forall>u. passed x u \<longrightarrow> passed x1 u" "tb_moved (passed x1) n tb tb1" by (auto simp: tb_step_def)
  note hv = tb_inv_have [OF s(4)]
  show ?thesis
  proof (cases "tb_buffer_id tb1 = -1")
    case True
    with s hv show ?thesis
      by (intro exI [of _ None] exI [of _ tb1] exI [of _ x1] exI [of _ n1]) (simp add: TransferBuffer_AllocUpTo_def)
  next
    case False
    with s(4) obtain b rb where b: "tb_buffer tb1 = Some b" "tb_ring_buffer tb1 = Some rb" "ring_at place tb1 b rb" by (auto simp: tb_inv_def)
    let ?k = "min (RingBuffer_GetLargestFreeOrPendingSize rb) sz"
    from ring_alloc_returns [OF s(4,3,5) b(2), of ?k] obtain p tb2 x2 where
      a: "ring_alloc (helper_token_ops cb) ?k tb1 x1 = Inr (p, tb2, x2)" by auto
    note g = ring_alloc_gave [OF s(4,3) b(2) a]
    have "tb_gave place (passed x2) n tb p ?k tb2"
      by (rule tb_gave_after [OF s(7) g(4) g(5) _ le_refl]) (use g(3) in blast)
    moreover have "?k = min (buf_size b - tb_result_size tb) sz"
      using ring_largest [OF b(3)] s(7) by (simp add: tb_moved_def)
    moreover have "TransferBuffer_AllocUpTo bits cb place sz tb x = Inr (Some (p, ?k), tb2, x2)"
      using s(1) hv False b(2) a by (simp add: TransferBuffer_AllocUpTo_def the_ring_def)
    ultimately show ?thesis
      using s g(1-3) g(5) b(1) by (intro exI [of _ "Some (p, ?k)"] exI [of _ tb2] exI [of _ x2] exI [of _ n1]) simp
  qed
qed

text \<open>\<^verbatim>\<open>Alloc\<close> gives all that is asked for or nothing.\<close>

lemma TransferBuffer_Alloc_gave:
  assumes "bits_ok bits" "tb_inv place n tb" "inv n x" "tb_idle tb" "\<not> tb_outstanding_result_pointer tb" "tb_bounded sz tb"
  shows "\<exists>r tb' x' n'. TransferBuffer_Alloc bits cb place sz tb x = Inr (r, tb', x') \<and> n \<le> n' \<and> inv n' x' \<and> tb_inv place n' tb' \<and>
    (\<forall>u. passed x u \<longrightarrow> passed x' u) \<and>
    (case r of None \<Rightarrow> (\<forall>b. tb_buffer tb' = Some b \<longrightarrow> buf_size b < tb_result_size tb + sz)
     | Some p \<Rightarrow> tb_gave place (passed x') n tb p sz tb')"
proof -
  from ShrinkOrExpand_step [OF assms] obtain tb1 x1 n1 where
    s: "TransferBuffer_ShrinkOrExpandRingBufferIfNecessary bits cb place sz tb x = Inr (tb1, x1)" "n \<le> n1" "inv n1 x1"
      "tb_inv place n1 tb1" "tb_idle tb1" "\<forall>u. passed x u \<longrightarrow> passed x1 u" "tb_moved (passed x1) n tb tb1" by (auto simp: tb_step_def)
  note hv = tb_inv_have [OF s(4)]
  show ?thesis
  proof (cases "tb_buffer_id tb1 = -1")
    case True
    with s(4) have "tb_buffer tb1 = None" by (simp add: tb_inv_def)
    with True s hv show ?thesis
      by (intro exI [of _ None] exI [of _ tb1] exI [of _ x1] exI [of _ n1]) (simp add: TransferBuffer_Alloc_def)
  next
    case False
    with s(4) obtain b rb where b: "tb_buffer tb1 = Some b" "tb_ring_buffer tb1 = Some rb" "ring_at place tb1 b rb" by (auto simp: tb_inv_def)
    have l: "RingBuffer_GetLargestFreeOrPendingSize rb = buf_size b - tb_result_size tb" "tb_result_size tb \<le> buf_size b"
      using ring_largest [OF b(3)] s(7) b(3) by (auto simp: tb_moved_def ring_at_def)
    show ?thesis
    proof (cases "sz > RingBuffer_GetLargestFreeOrPendingSize rb")
      case True
      with s hv False b l show ?thesis
        by (intro exI [of _ None] exI [of _ tb1] exI [of _ x1] exI [of _ n1]) (auto simp: TransferBuffer_Alloc_def the_ring_def)
    next
      case fits: False
      from ring_alloc_returns [OF s(4,3,5) b(2), of sz] fits obtain p tb2 x2 where
        a: "ring_alloc (helper_token_ops cb) sz tb1 x1 = Inr (p, tb2, x2)" by auto
      note g = ring_alloc_gave [OF s(4,3) b(2) a]
      have "tb_gave place (passed x2) n tb p sz tb2"
        by (rule tb_gave_after [OF s(7) g(4) g(5) _ le_refl]) (use g(3) in blast)
      moreover have "TransferBuffer_Alloc bits cb place sz tb x = Inr (Some p, tb2, x2)"
        using s(1) hv False b(2) a fits by (simp add: TransferBuffer_Alloc_def the_ring_def)
      ultimately show ?thesis
        using s g(1-3) by (intro exI [of _ "Some p"] exI [of _ tb2] exI [of _ x2] exI [of _ n1]) simp
    qed
  qed
qed

end

section \<open>Results\<close>

text \<open>While a result pointer is out the buffer does not change: it could only by failing an assertion.\<close>

lemma Reallocate_outstanding:
  assumes "tb_outstanding_result_pointer tb" "TransferBuffer_ReallocateRingBuffer bits cb place sz shrink tb x = Inr (tb', x')"
  shows "tb' = tb" "x' = x"
  using assms by (auto simp: TransferBuffer_ReallocateRingBuffer_def Let_def res_simps split: if_splits)

text \<open>A block of the ring, in bytes from the start of the buffer, is behind the result area.\<close>

lemma ring_behind_results:
  assumes "ring_at place tb b rb" "c \<in> set (rb_blocks rb)"
  shows "regions_disjoint 0 (tb_result_size tb) (rb_base_offset rb + blk_offset c) (blk_size c)"
    "rb_base_offset rb + blk_offset c + blk_size c \<le> buf_size b"
proof -
  have r: "rb_inv rb" using assms(1) by (simp add: ring_at_def)
  note d = rb_inv_dest [OF r]
  have c: "rb_chain (rb_size rb) (rb_in_use_offset rb) (rb_blocks rb) (rb_free_offset rb)" "total_size (rb_blocks rb) \<le> rb_size rb"
    using d(1) by (auto simp: rb_core_def)
  have "blk_offset c + blk_size c \<le> rb_size rb"
    using rb_chain_bounds [OF c(1) d(2) c(2) assms(2)] d(2) c(2) by auto
  with assms(1) show "regions_disjoint 0 (tb_result_size tb) (rb_base_offset rb + blk_offset c) (blk_size c)"
    "rb_base_offset rb + blk_offset c + blk_size c \<le> buf_size b" by (auto simp: ring_at_def regions_disjoint_def)
qed

context buffer_source
begin

lemma AcquireResultBuffer_returns:
  assumes "bits_ok bits" "tb_inv place n tb" "inv n x" "tb_idle tb" "\<not> tb_outstanding_result_pointer tb" "2 * tb_result_size tb < 2 ^ 32"
  shows "\<exists>p tb' x' n'. TransferBuffer_AcquireResultBuffer bits cb place tb x = Inr (p, tb', x') \<and> n \<le> n' \<and> inv n' x' \<and> tb_inv place n' tb' \<and>
    tb_outstanding_result_pointer tb' \<and> tb_result_size tb' = tb_result_size tb \<and>
    (case p of None \<Rightarrow> tb_buffer_id tb' = -1
     | Some a \<Rightarrow> \<exists>b. tb_buffer tb' = Some b \<and> a = place (buf_memory b) \<and> tb_result_size tb < buf_size b)"
proof -
  have "tb_result_size tb + tb_result_size tb < 2 ^ 32" using assms(6) by simp
  from Reallocate_step [OF assms(1-5) this, of False] obtain tb1 x1 n1 where
    r: "TransferBuffer_ReallocateRingBuffer bits cb place (tb_result_size tb) False tb x = Inr (tb1, x1)" "n \<le> n1" "inv n1 x1"
      "tb_inv place n1 tb1" "tb_moved (passed x1) n tb tb1" by (auto simp: tb_step_def)
  let ?tb = "tb1\<lparr>tb_outstanding_result_pointer := True\<rparr>"
  have a: "TransferBuffer_AcquireResultBuffer bits cb place tb x = Inr (tb_result_buffer tb1, ?tb, x1)"
    using assms(5) r(1) by (simp add: TransferBuffer_AcquireResultBuffer_def)
  have rs: "tb_result_size tb1 = tb_result_size tb" using r(5) by (simp add: tb_moved_def)
  have i: "tb_inv place n1 ?tb" using r(4) by (cases "tb_buffer_id tb1 = -1") (simp_all add: tb_inv_def tb_sizes_def ring_at_def)
  have "case tb_result_buffer tb1 of None \<Rightarrow> tb_buffer_id ?tb = -1
     | Some a \<Rightarrow> \<exists>b. tb_buffer ?tb = Some b \<and> a = place (buf_memory b) \<and> tb_result_size tb < buf_size b"
  proof (cases "tb_buffer_id tb1 = -1")
    case True
    with r(4) show ?thesis by (simp add: tb_inv_def)
  next
    case False
    with r(4) obtain b rb where b: "tb_buffer tb1 = Some b" "ring_at place tb1 b rb" "tb_result_buffer tb1 = Some (place (buf_memory b))"
      by (auto simp: tb_inv_def)
    moreover have "0 < rb_size rb" using b(2) rb_inv_dest(3) [of rb] by (simp add: ring_at_def)
    ultimately show ?thesis using rs by (auto simp: ring_at_def)
  qed
  with a i r rs show ?thesis
    by (intro exI [of _ "tb_result_buffer tb1"] exI [of _ ?tb] exI [of _ x1] exI [of _ n1]) simp
qed

text \<open>Initialisation with sizes that are powers of two.\<close>

lemma TransferBuffer_Initialize_returns:
  assumes "bits_ok bits" "inv n x" "is_pow2 al" "0 < res" "al dvd res" "is_pow2 dflt" "is_pow2 mn" "is_pow2 mx"
    "al \<le> mn" "res < mn" "mn \<le> dflt" "dflt \<le> mx"
  shows "\<exists>ok tb x'. TransferBuffer_Initialize bits cb place dflt res mn mx al new_TransferBuffer x = Inr (ok, tb, x') \<and>
    (\<exists>n' \<ge> n. inv n' x' \<and> tb_inv place n' tb) \<and> tb_idle tb \<and>
    (if ok then \<exists>b. tb_buffer tb = Some b \<and> mn \<le> buf_size b \<and> buf_size b \<le> mx \<and> n \<le> buf_memory b else \<not> tb_usable tb)"
proof -
  let ?tb = "new_TransferBuffer\<lparr>tb_result_size := res, tb_alignment := al, tb_default_buffer_size := dflt, tb_min_buffer_size := mn, tb_max_buffer_size := mx\<rparr>"
  have up: "bits_AlignUp bits k al = k" if "is_pow2 k" "al \<le> k" for k
    using AlignUp_multiple [OF assms(1,3) is_pow2_dvd [OF assms(3) that] is_pow2_le [OF that(1)]] .
  have ups: "bits_AlignUp bits dflt al = dflt" "bits_AlignUp bits mn al = mn" "bits_AlignUp bits mx al = mx"
    using assms by (auto intro: up)
  have "tb_inv place n ?tb" using assms by (simp add: tb_inv_def new_TransferBuffer_def tb_sizes_def)
  moreover have "tb_idle ?tb" "\<not> tb_outstanding_result_pointer ?tb" by (simp_all add: tb_idle_def new_TransferBuffer_def)
  moreover have d: "dflt < 2 ^ 32" using is_pow2_le [OF assms(6)] by simp
  then have s: "u32_sub dflt res = dflt - res" using assms(10,11) by (simp add: u32_sub_nowrap)
  moreover have "dflt - res + tb_result_size ?tb < 2 ^ 32" using d assms(10,11) by simp
  ultimately obtain tb x' where r: "TransferBuffer_ReallocateRingBuffer bits cb place (dflt - res) False ?tb x = Inr (tb, x')" "tb_step place n ?tb x tb x'"
    and o: "tb_usable ?tb \<longrightarrow> (if tb_buffer_id tb = -1 then \<not> tb_usable tb
       else \<exists>b. tb_buffer tb = Some b \<and> (tb_buffer tb = tb_buffer ?tb \<or>
         tb_min_buffer_size ?tb \<le> buf_size b \<and> buf_size b \<le> needed_buffer_size bits (dflt - res) (tb_buffer_id ?tb \<noteq> -1) ?tb))"
    using Reallocate_step [OF assms(1) _ assms(2), of place ?tb "dflt - res" False] by blast
  obtain n' where n': "n \<le> n'" "inv n' x'" "tb_inv place n' tb" "tb_idle tb" "tb_moved (passed x') n ?tb tb" using r(2) by (auto simp: tb_step_def)
  have ini: "TransferBuffer_Initialize bits cb place dflt res mn mx al new_TransferBuffer x = Inr (tb_buffer_id tb \<noteq> -1, tb, x')"
    using r(1) s tb_inv_have [OF n'(3)] by (simp add: TransferBuffer_Initialize_def ups Let_def)
  have mx: "needed_buffer_size bits (dflt - res) h ?tb \<le> mx" for h by (simp add: needed_buffer_size_def Let_def)
  have "if tb_buffer_id tb \<noteq> -1 then \<exists>b. tb_buffer tb = Some b \<and> mn \<le> buf_size b \<and> buf_size b \<le> mx \<and> n \<le> buf_memory b else \<not> tb_usable tb"
    using o n'(5) mx [of "tb_buffer_id ?tb \<noteq> -1"] by (auto simp: new_TransferBuffer_def tb_moved_def split: if_splits)
  with ini n' show ?thesis by (intro exI [of _ "tb_buffer_id tb \<noteq> -1"] exI [of _ tb] exI [of _ x']) auto
qed

end

section \<open>Scoped pointers\<close>

text \<open>
  \<^verbatim>\<open>ScopedTransferBufferPtr::BelongsToBuffer\<close> holds of every byte of the allocation and of one more: of two allocations that lie
  next to each other, the first byte of the second belongs to both.
\<close>

lemma neighbours_share_a_byte:
  assumes "stp_buffer p = Some a" "stp_buffer q = Some (a + int (stp_size p))"
  shows "{m. ScopedTransferBufferPtr_BelongsToBuffer m p} = insert (a + int (stp_size p)) {a..<a + int (stp_size p)} \<and>
    {m. ScopedTransferBufferPtr_BelongsToBuffer m p} \<inter> {m. ScopedTransferBufferPtr_BelongsToBuffer m q} = {a + int (stp_size p)}"
  using assms by (auto simp: ScopedTransferBufferPtr_BelongsToBuffer_def)

end
