(* ===== verification/Sync_Token.thy ===== *)
theory Sync_Token
  imports Prelude
begin

text \<open>
  \<^verbatim>\<open>gpu/command_buffer/common/sync_token.{h,cc}\<close>: \<^verbatim>\<open>SyncToken\<close>, the name of a release on a command buffer, and
  \<^verbatim>\<open>ReduceSyncTokens\<close>.

  \<^verbatim>\<open>base::IdType\<close> is not part of the sources: the value of a default constructed \<^verbatim>\<open>CommandBufferId\<close> or
  \<^verbatim>\<open>SequenceId\<close> and the generators of ids and order numbers are the record \<open>base_ids\<close>, an argument of the operations
  that use them, over a type of generator states.
\<close>

section \<open>Data\<close>

record 'g base_ids =
  bi_null_command_buffer :: u64
  bi_null_sequence :: u32
  bi_next_order :: "'g \<Rightarrow> u32 \<times> 'g"
  bi_next_sequence :: "'g \<Rightarrow> u32 \<times> 'g"

text \<open>\<^verbatim>\<open>CommandBufferNamespace\<close>, an \<^verbatim>\<open>int8_t\<close>.\<close>

definition ns_INVALID :: int where
  "ns_INVALID = -1"

definition NUM_COMMAND_BUFFER_NAMESPACES :: int where
  "NUM_COMMAND_BUFFER_NAMESPACES = 5"

type_synonym client_id = "int \<times> u64"

record sync_token =
  tk_verified_flush :: bool
  tk_namespace_id :: int
  tk_command_buffer_id :: u64
  tk_release_count :: u64

section \<open>Operations\<close>

definition new_SyncToken :: "'g base_ids \<Rightarrow> sync_token" where
  "new_SyncToken ids = \<lparr>tk_verified_flush = False, tk_namespace_id = ns_INVALID,
     tk_command_buffer_id = bi_null_command_buffer ids, tk_release_count = 0\<rparr>"

definition SyncToken_of :: "int \<Rightarrow> u64 \<Rightarrow> u64 \<Rightarrow> sync_token" where
  "SyncToken_of namespace_id command_buffer_id release_count =
     \<lparr>tk_verified_flush = False, tk_namespace_id = namespace_id, tk_command_buffer_id = command_buffer_id,
      tk_release_count = release_count\<rparr>"

definition SyncToken_Set :: "int \<Rightarrow> u64 \<Rightarrow> u64 \<Rightarrow> sync_token \<Rightarrow> sync_token" where
  "SyncToken_Set namespace_id command_buffer_id release_count t =
     t\<lparr>tk_namespace_id := namespace_id, tk_command_buffer_id := command_buffer_id, tk_release_count := release_count\<rparr>"

definition SyncToken_Clear :: "'g base_ids \<Rightarrow> sync_token \<Rightarrow> sync_token" where
  "SyncToken_Clear ids t =
     t\<lparr>tk_verified_flush := False, tk_namespace_id := ns_INVALID,
       tk_command_buffer_id := bi_null_command_buffer ids, tk_release_count := 0\<rparr>"

definition SyncToken_SetVerifyFlush :: "sync_token \<Rightarrow> sync_token" where
  "SyncToken_SetVerifyFlush t = t\<lparr>tk_verified_flush := True\<rparr>"

definition SyncToken_HasData :: "sync_token \<Rightarrow> bool" where
  "SyncToken_HasData t \<longleftrightarrow> tk_namespace_id t \<noteq> ns_INVALID"

definition SyncToken_GetClientId :: "sync_token \<Rightarrow> client_id" where
  "SyncToken_GetClientId t = (tk_namespace_id t, tk_command_buffer_id t)"

text \<open>The defaulted three-way comparison is lexicographic in the order of the members.\<close>

definition SyncToken_less :: "sync_token \<Rightarrow> sync_token \<Rightarrow> bool" where
  "SyncToken_less s t \<longleftrightarrow>
     (if tk_verified_flush s \<noteq> tk_verified_flush t then tk_verified_flush t
      else if tk_namespace_id s \<noteq> tk_namespace_id t then tk_namespace_id s < tk_namespace_id t
      else if tk_command_buffer_id s \<noteq> tk_command_buffer_id t then tk_command_buffer_id s < tk_command_buffer_id t
      else tk_release_count s < tk_release_count t)"

text \<open>The body of the loop of \<^verbatim>\<open>ReduceSyncTokens\<close>: \<^verbatim>\<open>find_if\<close> and what is done at the iterator.\<close>

fun reduce_token :: "sync_token list \<Rightarrow> sync_token \<Rightarrow> sync_token list" where
  "reduce_token [] next_token = [next_token]"
| "reduce_token (token # reduced) next_token =
     (if tk_namespace_id next_token = tk_namespace_id token \<and> tk_command_buffer_id next_token = tk_command_buffer_id token
      then (if tk_release_count token < tk_release_count next_token then next_token else token) # reduced
      else token # reduce_token reduced next_token)"

definition ReduceSyncTokens :: "sync_token list \<Rightarrow> sync_token list" where
  "ReduceSyncTokens tokens = foldl reduce_token [] tokens"

section \<open>Reducing keeps the waits\<close>

text \<open>Every token is released when each client has released \<open>rel\<close>.\<close>

definition all_released :: "(client_id \<Rightarrow> u64) \<Rightarrow> sync_token list \<Rightarrow> bool" where
  "all_released rel tokens \<longleftrightarrow> list_all (\<lambda>t. tk_release_count t \<le> rel (SyncToken_GetClientId t)) tokens"

lemma all_released_simps [simp]:
  "all_released rel []"
  "all_released rel (t # ts) \<longleftrightarrow> tk_release_count t \<le> rel (SyncToken_GetClientId t) \<and> all_released rel ts"
  by (simp_all add: all_released_def)

lemma reduce_token_clients:
  "set (map SyncToken_GetClientId (reduce_token ts t)) = insert (SyncToken_GetClientId t) (set (map SyncToken_GetClientId ts))"
  "distinct (map SyncToken_GetClientId ts) \<Longrightarrow> distinct (map SyncToken_GetClientId (reduce_token ts t))"
  by (induction ts) (auto simp: SyncToken_GetClientId_def split: if_splits)

lemma reduce_token_released:
  "all_released rel (reduce_token ts t) \<longleftrightarrow> all_released rel ts \<and> tk_release_count t \<le> rel (SyncToken_GetClientId t)"
  by (induction ts) (auto simp: SyncToken_GetClientId_def)

lemma reduce_token_subset: "set (reduce_token ts t) \<subseteq> insert t (set ts)"
  by (induction ts) auto

lemma reduce_spec:
  shows "all_released rel (foldl reduce_token acc ts) \<longleftrightarrow> all_released rel acc \<and> all_released rel ts"
    and "distinct (map SyncToken_GetClientId acc) \<Longrightarrow> distinct (map SyncToken_GetClientId (foldl reduce_token acc ts))"
    and "set (foldl reduce_token acc ts) \<subseteq> set acc \<union> set ts"
proof -
  show "all_released rel (foldl reduce_token acc ts) \<longleftrightarrow> all_released rel acc \<and> all_released rel ts"
    by (induction ts arbitrary: acc) (auto simp: reduce_token_released)
  show "distinct (map SyncToken_GetClientId acc) \<Longrightarrow> distinct (map SyncToken_GetClientId (foldl reduce_token acc ts))"
    by (induction ts arbitrary: acc) (simp_all add: reduce_token_clients(2))
  show "set (foldl reduce_token acc ts) \<subseteq> set acc \<union> set ts"
  proof (induction ts arbitrary: acc)
    case (Cons t ts)
    then show ?case using reduce_token_subset [of acc t] Cons.IH [of "reduce_token acc t"] by auto
  qed simp
qed

lemma SyncToken_Clear_no_data [simp]: "\<not> SyncToken_HasData (SyncToken_Clear ids t)" "\<not> SyncToken_HasData (new_SyncToken ids)"
  by (simp_all add: SyncToken_HasData_def SyncToken_Clear_def new_SyncToken_def)

end
