(* ===== verification/Sync_Point.thy ===== *)
theory Sync_Point
  imports Sync_Token "HOL-Library.Product_Lexorder" "HOL-Library.Multiset"
begin

text \<open>
  \<^verbatim>\<open>gpu/command_buffer/service/sync_point_manager.{h,cc}\<close>: \<^verbatim>\<open>SyncPointOrderData\<close>, the order numbers of a sequence of tasks;
  \<^verbatim>\<open>SyncPointClientState\<close>, the releases of a command buffer and who waits for them; \<^verbatim>\<open>SyncPointManager\<close>.

  The objects are reference counted and refer to each other, so the model has a store of them: an order
  data is found under its sequence id, a client state under its position in the list of all that were
  created. A destroyed object stays in the store, as it stays in memory while something refers to it.

  A \<^verbatim>\<open>base::OnceClosure\<close> is a value of an arbitrary type. Operations that run closures do so after they
  have given up their lock; in the model they return the list of the closures they run, in order. A
  \<^verbatim>\<open>std::priority_queue\<close> is the list of its elements from the top on; the standard leaves open the order of elements that
  compare equal. Each operation holds its locks from its first access to its last, so that it is one
  step. Thread checkers, tracing and metrics are left out.
\<close>

section \<open>Data\<close>

datatype release_cause = kExplicitClientRelease | kTaskCompletionRelease | kForceRelease

record order_fence =
  of_order_num :: u32
  of_fence_release :: u64
  of_client_state :: nat
  of_callback_id :: u64

definition fence_key :: "order_fence \<Rightarrow> u32 \<times> u64" where
  "fence_key f = (of_order_num f, of_fence_release f)"

record order_data =
  od_current_order_num :: u32
  od_paused :: bool
  od_destroyed :: bool
  od_processed_order_num :: u32
  od_last_unprocessed_order_num :: u32
  od_unprocessed_order_nums :: "u32 list"
  od_order_fence_queue :: "order_fence list"

definition new_SyncPointOrderData :: order_data where
  "new_SyncPointOrderData =
     \<lparr>od_current_order_num = 0, od_paused = False, od_destroyed = False, od_processed_order_num = 0,
      od_last_unprocessed_order_num = 0, od_unprocessed_order_nums = [], od_order_fence_queue = []\<rparr>"

record 'c release_callback =
  rc_release_count :: u64
  rc_callback_closure :: 'c
  rc_callback_id :: u64

record 'c client_state =
  cs_order_data :: "u32 option"
  cs_namespace_id :: int
  cs_command_buffer_id :: u64
  cs_destroyed :: bool
  cs_fence_sync_release :: u64
  cs_client_fence_sync_release :: u64
  cs_release_callback_queue :: "'c release_callback list"

definition new_SyncPointClientState :: "u32 option \<Rightarrow> int \<Rightarrow> u64 \<Rightarrow> 'c client_state" where
  "new_SyncPointClientState order_data namespace_id command_buffer_id =
     \<lparr>cs_order_data = order_data, cs_namespace_id = namespace_id, cs_command_buffer_id = command_buffer_id,
      cs_destroyed = False, cs_fence_sync_release = 0, cs_client_fence_sync_release = 0, cs_release_callback_queue = []\<rparr>"

text \<open>The manager, with the store of the objects that refer to it. \<open>spm_order_data_map\<close> has the keys of \<^verbatim>\<open>order_data_map_\<close>.\<close>

record ('c, 'g) sync_points =
  spm_generators :: 'g
  spm_next_callback_id :: u64
  spm_order_data :: "u32 \<Rightarrow> order_data option"
  spm_client_states :: "'c client_state list"
  spm_client_state_maps :: "client_id \<Rightarrow> nat option"
  spm_order_data_map :: "u32 list"
  spm_graph_validation_enabled :: bool
  spm_suppress_fatal_log_for_testing :: bool

definition new_SyncPointManager :: "'g base_ids \<Rightarrow> 'g \<Rightarrow> bool \<Rightarrow> ('c, 'g) sync_points" where
  "new_SyncPointManager ids g graph_validation_enabled =
     \<lparr>spm_generators = snd (bi_next_order ids g), spm_next_callback_id = 1, spm_order_data = (\<lambda>_. None),
      spm_client_states = [], spm_client_state_maps = (\<lambda>_. None), spm_order_data_map = [],
      spm_graph_validation_enabled = graph_validation_enabled, spm_suppress_fatal_log_for_testing = False\<rparr>"

section \<open>Access to the objects\<close>

definition with_order :: "u32 \<Rightarrow> ('c, 'g) sync_points \<Rightarrow> (order_data \<Rightarrow> 'a res) \<Rightarrow> 'a res" where
  "with_order s m f = (case spm_order_data m s of None \<Rightarrow> Inl Null_dereference | Some od \<Rightarrow> f od)"

definition put_order :: "u32 \<Rightarrow> order_data \<Rightarrow> ('c, 'g) sync_points \<Rightarrow> ('c, 'g) sync_points" where
  "put_order s od m = m\<lparr>spm_order_data := (spm_order_data m)(s := Some od)\<rparr>"

definition with_state :: "nat \<Rightarrow> ('c, 'g) sync_points \<Rightarrow> ('c client_state \<Rightarrow> 'a res) \<Rightarrow> 'a res" where
  "with_state i m f = (if i < length (spm_client_states m) then f (spm_client_states m ! i) else Inl Null_dereference)"

definition put_state :: "nat \<Rightarrow> 'c client_state \<Rightarrow> ('c, 'g) sync_points \<Rightarrow> ('c, 'g) sync_points" where
  "put_state i cs m = m\<lparr>spm_client_states := (spm_client_states m)[i := cs]\<rparr>"

definition GenerateCallbackId :: "('c, 'g) sync_points \<Rightarrow> u64 \<times> ('c, 'g) sync_points" where
  "GenerateCallbackId m = (spm_next_callback_id m, m\<lparr>spm_next_callback_id := u64_add (spm_next_callback_id m) 1\<rparr>)"

definition SyncPointManager_GenerateOrderNumber :: "'g base_ids \<Rightarrow> ('c, 'g) sync_points \<Rightarrow> u32 \<times> ('c, 'g) sync_points" where
  "SyncPointManager_GenerateOrderNumber ids m =
     (case bi_next_order ids (spm_generators m) of (n, g) \<Rightarrow> (n, m\<lparr>spm_generators := g\<rparr>))"

definition GetSyncPointClientState :: "int \<Rightarrow> u64 \<Rightarrow> ('c, 'g) sync_points \<Rightarrow> nat option res" where
  "GetSyncPointClientState namespace_id command_buffer_id m =
     (if namespace_id \<ge> 0
      then dcheck (namespace_id < NUM_COMMAND_BUFFER_NAMESPACES) (Inr (spm_client_state_maps m (namespace_id, command_buffer_id)))
      else Inr None)"

definition GetSyncPointOrderData :: "u32 \<Rightarrow> ('c, 'g) sync_points \<Rightarrow> u32 option" where
  "GetSyncPointOrderData sequence_id m = (if sequence_id \<in> set (spm_order_data_map m) then Some sequence_id else None)"

section \<open>SyncPointClientState\<close>

definition SyncPointClientState_sequence_id :: "'c client_state \<Rightarrow> u32 res" where
  "SyncPointClientState_sequence_id cs = (case cs_order_data cs of None \<Rightarrow> Inl Null_dereference | Some s \<Rightarrow> Inr s)"

definition DestroyAndReturnCallbacks :: "'c client_state \<Rightarrow> ('c list \<times> 'c client_state) res" where
  "DestroyAndReturnCallbacks cs =
     dcheck (\<not> cs_destroyed cs)
       (Inr (map rc_callback_closure (cs_release_callback_queue cs),
             cs\<lparr>cs_destroyed := True, cs_release_callback_queue := [], cs_fence_sync_release := 2 ^ 64 - 1\<rparr>))"

definition IsFenceSyncReleased :: "u64 \<Rightarrow> 'c client_state \<Rightarrow> bool" where
  "IsFenceSyncReleased release cs \<longleftrightarrow> release \<le> cs_fence_sync_release cs"

text \<open>
  \<^verbatim>\<open>SyncPointOrderData::ValidateReleaseOrderNumber\<close>, called for the client state \<open>i\<close>. It returns the id of the
  callback, or 0.
\<close>

definition ValidateReleaseOrderNumber ::
  "u32 \<Rightarrow> nat \<Rightarrow> u32 \<Rightarrow> u64 \<Rightarrow> ('c, 'g) sync_points \<Rightarrow> (u64 \<times> ('c, 'g) sync_points) res" where
  "ValidateReleaseOrderNumber s i wait_order_num fence_release m =
     with_order s m (\<lambda>od.
       if od_destroyed od then Inr (0, m)
       else if spm_graph_validation_enabled m then Inr (GenerateCallbackId m)
       else case od_unprocessed_order_nums od of
         [] \<Rightarrow> Inr (0, m)
       | front # rest \<Rightarrow>
           if wait_order_num \<le> front then Inr (0, m)
           else (let expected_order_num = min (last (front # rest)) wait_order_num
                 in case GenerateCallbackId m of (callback_id, m1) \<Rightarrow>
                      Inr (callback_id, put_order s
                        (od\<lparr>od_order_fence_queue := insort_key fence_key
                             \<lparr>of_order_num = expected_order_num, of_fence_release = fence_release, of_client_state = i,
                              of_callback_id = callback_id\<rparr> (od_order_fence_queue od)\<rparr>) m1)))"

definition WaitForRelease ::
  "nat \<Rightarrow> u64 \<Rightarrow> u32 \<Rightarrow> 'c \<Rightarrow> ('c, 'g) sync_points \<Rightarrow> (bool \<times> ('c, 'g) sync_points) res" where
  "WaitForRelease i release wait_order_num callback m =
     with_state i m (\<lambda>cs.
       if release \<le> cs_fence_sync_release cs then Inr (False, m)
       else res_bind (SyncPointClientState_sequence_id cs) (\<lambda>s.
         res_bind (ValidateReleaseOrderNumber s i wait_order_num release m) (\<lambda>(callback_id, m1).
           if callback_id \<noteq> 0
           then Inr (True, put_state i
                  (cs\<lparr>cs_release_callback_queue := insort_key rc_release_count
                       \<lparr>rc_release_count = release, rc_callback_closure = callback, rc_callback_id = callback_id\<rparr>
                       (cs_release_callback_queue cs)\<rparr>) m1)
           else Inr (False, m1))))"

text \<open>
  \<^verbatim>\<open>EnsureFenceSyncReleased\<close> of a client state. \<^verbatim>\<open>LOG(DFATAL)\<close> ends the program where assertions are on, unless the
  test flag of the manager is set.
\<close>

definition EnsureFenceSyncReleased ::
  "bool \<Rightarrow> u64 \<Rightarrow> release_cause \<Rightarrow> 'c client_state \<Rightarrow> ('c list \<times> 'c client_state) res" where
  "EnsureFenceSyncReleased suppress_fatal release cause cs =
     dcheck (suppress_fatal \<or>
             \<not> ((cause = kExplicitClientRelease \<and> release \<le> cs_client_fence_sync_release cs) \<or>
                (cause = kTaskCompletionRelease \<and> release < cs_client_fence_sync_release cs)))
       (let cs1 = (if cause = kExplicitClientRelease \<or> cause = kTaskCompletionRelease
                   then cs\<lparr>cs_client_fence_sync_release := release\<rparr> else cs)
        in if release \<le> cs_fence_sync_release cs1
           then dcheck (case cs_release_callback_queue cs1 of [] \<Rightarrow> True | c # _ \<Rightarrow> rc_release_count c > release) (Inr ([], cs1))
           else Inr (map rc_callback_closure (takeWhile (\<lambda>c. rc_release_count c \<le> release) (cs_release_callback_queue cs1)),
                     cs1\<lparr>cs_fence_sync_release := release,
                         cs_release_callback_queue := dropWhile (\<lambda>c. rc_release_count c \<le> release) (cs_release_callback_queue cs1)\<rparr>))"

text \<open>
  \<^verbatim>\<open>EnsureWaitReleased\<close>: the callbacks that it pops and that are not the one looked for are put back. Were there several
  to match, the last would be run.
\<close>

definition EnsureWaitReleased ::
  "u64 \<Rightarrow> u64 \<Rightarrow> nat \<Rightarrow> ('c, 'g) sync_points \<Rightarrow> ('c list \<times> ('c, 'g) sync_points) res" where
  "EnsureWaitReleased release callback_id i m =
     with_state i m (\<lambda>cs.
       dcheck (\<not> spm_graph_validation_enabled m)
         (if release \<le> cs_fence_sync_release cs then Inr ([], m)
          else let is_it = (\<lambda>c. rc_release_count c = release \<and> rc_callback_id c = callback_id);
                   popped = takeWhile (\<lambda>c. rc_release_count c \<le> release) (cs_release_callback_queue cs);
                   rest = dropWhile (\<lambda>c. rc_release_count c \<le> release) (cs_release_callback_queue cs);
                   found = filter is_it popped
               in Inr (if found = [] then [] else [rc_callback_closure (last found)],
                       put_state i (cs\<lparr>cs_release_callback_queue :=
                         foldl (\<lambda>q c. insort_key rc_release_count c q) rest (filter (\<lambda>c. \<not> is_it c) popped)\<rparr>) m)))"

section \<open>SyncPointOrderData\<close>

definition RemoveSyncPointOrderData :: "u32 \<Rightarrow> ('c, 'g) sync_points \<Rightarrow> ('c, 'g) sync_points res" where
  "RemoveSyncPointOrderData s m =
     with_order s m (\<lambda>od. dcheck (od_destroyed od)
       (dcheck (s \<in> set (spm_order_data_map m)) (Inr (m\<lparr>spm_order_data_map := remove1 s (spm_order_data_map m)\<rparr>))))"

definition SyncPointOrderData_Destroy :: "u32 \<Rightarrow> ('c, 'g) sync_points \<Rightarrow> ('c, 'g) sync_points res" where
  "SyncPointOrderData_Destroy s m =
     with_order s m (\<lambda>od. dcheck (\<not> od_destroyed od)
       (RemoveSyncPointOrderData s (put_order s (od\<lparr>od_destroyed := True, od_order_fence_queue := []\<rparr>) m)))"

definition GenerateUnprocessedOrderNumber ::
  "'g base_ids \<Rightarrow> u32 \<Rightarrow> ('c, 'g) sync_points \<Rightarrow> (u32 \<times> ('c, 'g) sync_points) res" where
  "GenerateUnprocessedOrderNumber ids s m =
     with_order s m (\<lambda>od. dcheck (\<not> od_destroyed od)
       (case SyncPointManager_GenerateOrderNumber ids m of (n, m1) \<Rightarrow>
          Inr (n, put_order s (od\<lparr>od_last_unprocessed_order_num := n,
                                  od_unprocessed_order_nums := od_unprocessed_order_nums od @ [n]\<rparr>) m1)))"

definition BeginProcessingOrderNumber :: "u32 \<Rightarrow> u32 \<Rightarrow> ('c, 'g) sync_points \<Rightarrow> ('c, 'g) sync_points res" where
  "BeginProcessingOrderNumber order_num s m =
     with_order s m (\<lambda>od. dcheck (order_num \<ge> od_current_order_num od)
       (dcheck (order_num > od_processed_order_num od)
         (dcheck (order_num \<le> od_last_unprocessed_order_num od)
           (Inr (put_order s (od\<lparr>od_current_order_num := order_num, od_paused := False\<rparr>) m)))))"

definition PauseProcessingOrderNumber :: "u32 \<Rightarrow> u32 \<Rightarrow> ('c, 'g) sync_points \<Rightarrow> ('c, 'g) sync_points res" where
  "PauseProcessingOrderNumber order_num s m =
     with_order s m (\<lambda>od. dcheck (od_current_order_num od = order_num)
       (dcheck (\<not> od_paused od) (Inr (put_order s (od\<lparr>od_paused := True\<rparr>) m))))"

definition IsProcessingOrderNumber :: "order_data \<Rightarrow> bool" where
  "IsProcessingOrderNumber od \<longleftrightarrow> \<not> od_paused od \<and> od_current_order_num od > od_processed_order_num od"

text \<open>The fences of \<^verbatim>\<open>FinishProcessingOrderNumber\<close> that are due, and their release one after the other.\<close>

definition fence_due :: "u32 \<Rightarrow> order_fence \<Rightarrow> bool" where
  "fence_due next_order_num f \<longleftrightarrow> next_order_num = 0 \<or> of_order_num f < next_order_num"

fun ensure_releases :: "order_fence list \<Rightarrow> ('c, 'g) sync_points \<Rightarrow> ('c list \<times> ('c, 'g) sync_points) res" where
  "ensure_releases [] m = Inr ([], m)"
| "ensure_releases (f # fs) m =
     res_bind (EnsureWaitReleased (of_fence_release f) (of_callback_id f) (of_client_state f) m) (\<lambda>(run, m1).
       res_bind (ensure_releases fs m1) (\<lambda>(run1, m2). Inr (run @ run1, m2)))"

definition FinishProcessingOrderNumber ::
  "u32 \<Rightarrow> u32 \<Rightarrow> ('c, 'g) sync_points \<Rightarrow> ('c list \<times> ('c, 'g) sync_points) res" where
  "FinishProcessingOrderNumber order_num s m =
     with_order s m (\<lambda>od. dcheck (od_current_order_num od = order_num)
       (dcheck (\<not> od_paused od)
         (dcheck (order_num > od_processed_order_num od)
           (case od_unprocessed_order_nums od of
              [] \<Rightarrow> Inl DCHECK_failed
            | front # rest \<Rightarrow> dcheck (order_num = front)
                (let od1 = od\<lparr>od_processed_order_num := order_num, od_unprocessed_order_nums := rest\<rparr>
                 in if spm_graph_validation_enabled m then Inr ([], put_order s od1 m)
                    else (let next_order_num = (case rest of [] \<Rightarrow> 0 | n # _ \<Rightarrow> n);
                              due = takeWhile (fence_due next_order_num) (od_order_fence_queue od1)
                          in ensure_releases due (put_order s
                               (od1\<lparr>od_order_fence_queue := dropWhile (fence_due next_order_num) (od_order_fence_queue od1)\<rparr>) m)))))))"

section \<open>SyncPointManager\<close>

definition CreateSyncPointOrderData :: "'g base_ids \<Rightarrow> ('c, 'g) sync_points \<Rightarrow> (u32 \<times> ('c, 'g) sync_points) res" where
  "CreateSyncPointOrderData ids m =
     (case bi_next_sequence ids (spm_generators m) of (s, g) \<Rightarrow>
        dcheck (s \<notin> set (spm_order_data_map m))
          (Inr (s, (put_order s new_SyncPointOrderData m)\<lparr>spm_generators := g, spm_order_data_map := s # spm_order_data_map m\<rparr>)))"

definition CreateSyncPointClientState ::
  "int \<Rightarrow> u64 \<Rightarrow> u32 \<Rightarrow> ('c, 'g) sync_points \<Rightarrow> (nat \<times> ('c, 'g) sync_points) res" where
  "CreateSyncPointClientState namespace_id command_buffer_id sequence_id m =
     (let i = length (spm_client_states m)
      in dcheck (namespace_id \<ge> 0)
           (dcheck (namespace_id < NUM_COMMAND_BUFFER_NAMESPACES)
             (if spm_client_state_maps m (namespace_id, command_buffer_id) \<noteq> None then Inl CHECK_failed
              else Inr (i, m\<lparr>spm_client_states := spm_client_states m @
                               [new_SyncPointClientState (GetSyncPointOrderData sequence_id m) namespace_id command_buffer_id],
                             spm_client_state_maps := (spm_client_state_maps m)((namespace_id, command_buffer_id) \<mapsto> i)\<rparr>))))"

definition DestroySyncPointClientState :: "nat \<Rightarrow> ('c, 'g) sync_points \<Rightarrow> ('c list \<times> ('c, 'g) sync_points) res" where
  "DestroySyncPointClientState i m =
     with_state i m (\<lambda>cs. res_bind (DestroyAndReturnCallbacks cs) (\<lambda>(callbacks, cs1).
       dcheck (cs_namespace_id cs1 \<ge> 0)
         (dcheck (cs_namespace_id cs1 < NUM_COMMAND_BUFFER_NAMESPACES)
           (dcheck (spm_client_state_maps m (cs_namespace_id cs1, cs_command_buffer_id cs1) \<noteq> None)
             (Inr (callbacks, (put_state i cs1 m)
               \<lparr>spm_client_state_maps := (spm_client_state_maps m)((cs_namespace_id cs1, cs_command_buffer_id cs1) := None)\<rparr>))))))"

definition SyncPointManager_EnsureFenceSyncReleased ::
  "sync_token \<Rightarrow> release_cause \<Rightarrow> ('c, 'g) sync_points \<Rightarrow> ('c list \<times> ('c, 'g) sync_points) res" where
  "SyncPointManager_EnsureFenceSyncReleased release cause m =
     (if cause = kForceRelease \<and> \<not> spm_graph_validation_enabled m then Inl NOTREACHED_hit
      else res_bind (GetSyncPointClientState (tk_namespace_id release) (tk_command_buffer_id release) m) (\<lambda>client_state.
        case client_state of
          None \<Rightarrow> Inr ([], m)
        | Some i \<Rightarrow> with_state i m (\<lambda>cs.
            res_bind (EnsureFenceSyncReleased (spm_suppress_fatal_log_for_testing m) (tk_release_count release) cause cs)
              (\<lambda>(run, cs1). Inr (run, put_state i cs1 m)))))"

definition IsSyncTokenReleased :: "sync_token \<Rightarrow> ('c, 'g) sync_points \<Rightarrow> bool res" where
  "IsSyncTokenReleased sync_token m =
     res_bind (GetSyncPointClientState (tk_namespace_id sync_token) (tk_command_buffer_id sync_token) m) (\<lambda>release_state.
       case release_state of
         None \<Rightarrow> Inr True
       | Some i \<Rightarrow> with_state i m (\<lambda>cs. Inr (IsFenceSyncReleased (tk_release_count sync_token) cs)))"

definition GetSyncTokenReleaseSequenceId :: "'g base_ids \<Rightarrow> sync_token \<Rightarrow> ('c, 'g) sync_points \<Rightarrow> u32 res" where
  "GetSyncTokenReleaseSequenceId ids sync_token m =
     res_bind (GetSyncPointClientState (tk_namespace_id sync_token) (tk_command_buffer_id sync_token) m) (\<lambda>client_state.
       case client_state of
         None \<Rightarrow> Inr (bi_null_sequence ids)
       | Some i \<Rightarrow> with_state i m SyncPointClientState_sequence_id)"

definition order_num_of :: "(order_data \<Rightarrow> u32) \<Rightarrow> ('c, 'g) sync_points \<Rightarrow> u32 \<Rightarrow> u32" where
  "order_num_of f m s = (case spm_order_data m s of None \<Rightarrow> 0 | Some od \<Rightarrow> f od)"

definition GetProcessedOrderNum :: "('c, 'g) sync_points \<Rightarrow> u32" where
  "GetProcessedOrderNum m = fold (\<lambda>s n. max n (order_num_of od_processed_order_num m s)) (spm_order_data_map m) 0"

definition GetUnprocessedOrderNum :: "('c, 'g) sync_points \<Rightarrow> u32" where
  "GetUnprocessedOrderNum m = fold (\<lambda>s n. max n (order_num_of od_last_unprocessed_order_num m s)) (spm_order_data_map m) 0"

definition SyncPointManager_Wait ::
  "'g base_ids \<Rightarrow> sync_token \<Rightarrow> u32 \<Rightarrow> u32 \<Rightarrow> 'c \<Rightarrow> ('c, 'g) sync_points \<Rightarrow> (bool \<times> ('c, 'g) sync_points) res" where
  "SyncPointManager_Wait ids sync_token sequence_id wait_order_num callback m =
     res_bind (GetSyncTokenReleaseSequenceId ids sync_token m) (\<lambda>s.
       if sequence_id = s then Inr (False, m)
       else res_bind (GetSyncPointClientState (tk_namespace_id sync_token) (tk_command_buffer_id sync_token) m) (\<lambda>release_state.
         case release_state of
           None \<Rightarrow> Inr (False, m)
         | Some i \<Rightarrow> WaitForRelease i (tk_release_count sync_token) wait_order_num callback m))"
section \<open>What is assumed of the generators\<close>

text \<open>Order numbers and sequence ids increase; \<open>lo\<close> and \<open>ls\<close> are the last ones that were generated.\<close>

definition base_ids_ok :: "'g base_ids \<Rightarrow> ('g \<Rightarrow> nat) \<Rightarrow> ('g \<Rightarrow> nat) \<Rightarrow> bool" where
  "base_ids_ok ids lo ls \<longleftrightarrow>
     (\<forall>g n g'. bi_next_order ids g = (n, g') \<longrightarrow> lo g < n \<and> lo g' = n \<and> ls g' = ls g) \<and>
     (\<forall>g s g'. bi_next_sequence ids g = (s, g') \<longrightarrow> ls g < s \<and> ls g' = s \<and> lo g' = lo g \<and> s \<noteq> bi_null_sequence ids)"

section \<open>The invariant\<close>

text \<open>
  The order numbers of a sequence that are not processed increase, and each fence is in their range: not
  before the first and not behind the last.
\<close>

definition od_ok :: "nat \<Rightarrow> order_data \<Rightarrow> bool" where
  "od_ok n od \<longleftrightarrow> sorted_wrt (<) (od_unprocessed_order_nums od) \<and>
     (\<forall>u \<in> set (od_unprocessed_order_nums od). od_processed_order_num od < u \<and> u \<le> od_last_unprocessed_order_num od) \<and>
     od_processed_order_num od \<le> od_last_unprocessed_order_num od \<and> od_last_unprocessed_order_num od \<le> n \<and>
     sorted (map fence_key (od_order_fence_queue od)) \<and>
     (\<forall>f \<in> set (od_order_fence_queue od). od_unprocessed_order_nums od \<noteq> [] \<and>
        hd (od_unprocessed_order_nums od) \<le> of_order_num f \<and> of_order_num f \<le> last (od_unprocessed_order_nums od)) \<and>
     (od_destroyed od \<longrightarrow> od_order_fence_queue od = [])"

definition cs_ok :: "u64 \<Rightarrow> 'c client_state \<Rightarrow> bool" where
  "cs_ok n cs \<longleftrightarrow> sorted (map rc_release_count (cs_release_callback_queue cs)) \<and>
     (\<forall>c \<in> set (cs_release_callback_queue cs). cs_fence_sync_release cs < rc_release_count c \<and> rc_callback_id c < n) \<and>
     distinct (map rc_callback_id (cs_release_callback_queue cs)) \<and>
     (cs_destroyed cs \<longrightarrow> cs_release_callback_queue cs = [])"

definition orders_ok :: "('g \<Rightarrow> nat) \<Rightarrow> ('g \<Rightarrow> nat) \<Rightarrow> ('c, 'g) sync_points \<Rightarrow> bool" where
  "orders_ok lo ls m \<longleftrightarrow>
     (\<forall>s od. spm_order_data m s = Some od \<longrightarrow> s \<le> ls (spm_generators m) \<and> od_ok (lo (spm_generators m)) od \<and>
        (\<forall>f \<in> set (od_order_fence_queue od). of_client_state f < length (spm_client_states m)) \<and>
        (spm_graph_validation_enabled m \<longrightarrow> od_order_fence_queue od = [])) \<and>
     (\<forall>s \<in> set (spm_order_data_map m). spm_order_data m s \<noteq> None)"

definition states_ok :: "('c, 'g) sync_points \<Rightarrow> bool" where
  "states_ok m \<longleftrightarrow>
     (\<forall>cs \<in> set (spm_client_states m). cs_ok (spm_next_callback_id m) cs \<and>
        (\<forall>s. cs_order_data cs = Some s \<longrightarrow> spm_order_data m s \<noteq> None)) \<and>
     (\<forall>k i. spm_client_state_maps m k = Some i \<longrightarrow> i < length (spm_client_states m) \<and>
        k = (cs_namespace_id (spm_client_states m ! i), cs_command_buffer_id (spm_client_states m ! i)) \<and>
        \<not> cs_destroyed (spm_client_states m ! i))"

text \<open>The fence \<open>f\<close> is there for the callback \<open>c\<close> of the client state \<open>i\<close>.\<close>

definition answers :: "order_fence \<Rightarrow> nat \<Rightarrow> 'c release_callback \<Rightarrow> bool" where
  "answers f i c \<longleftrightarrow> of_client_state f = i \<and> of_fence_release f = rc_release_count c \<and> of_callback_id f = rc_callback_id c"

definition alive :: "('c, 'g) sync_points \<Rightarrow> u32 \<Rightarrow> bool" where
  "alive m s \<longleftrightarrow> (\<exists>od. spm_order_data m s = Some od \<and> \<not> od_destroyed od)"

definition fences_of :: "('c, 'g) sync_points \<Rightarrow> u32 \<Rightarrow> order_fence set" where
  "fences_of m s = (case spm_order_data m s of None \<Rightarrow> {} | Some od \<Rightarrow> set (od_order_fence_queue od))"

text \<open>Each callback that waits has a fence among those of the sequence that is to release it.\<close>

definition fenced :: "(u32 \<Rightarrow> order_fence set) \<Rightarrow> ('c, 'g) sync_points \<Rightarrow> bool" where
  "fenced F m \<longleftrightarrow>
     (\<forall>i < length (spm_client_states m). \<forall>s. cs_order_data (spm_client_states m ! i) = Some s \<longrightarrow> alive m s \<longrightarrow>
        (\<forall>c \<in> set (cs_release_callback_queue (spm_client_states m ! i)). \<exists>f \<in> F s. answers f i c))"

definition sp_inv :: "('g \<Rightarrow> nat) \<Rightarrow> ('g \<Rightarrow> nat) \<Rightarrow> ('c, 'g) sync_points \<Rightarrow> bool" where
  "sp_inv lo ls m \<longleftrightarrow> orders_ok lo ls m \<and> states_ok m \<and> (\<not> spm_graph_validation_enabled m \<longrightarrow> fenced (fences_of m) m)"

text \<open>The closures that wait, with those that run and those that wait afterwards.\<close>

definition waiting :: "('c, 'g) sync_points \<Rightarrow> 'c multiset" where
  "waiting m = (\<Sum>cs \<leftarrow> spm_client_states m. image_mset rc_callback_closure (mset (cs_release_callback_queue cs)))"

section \<open>Queues\<close>

lemma takeWhile_sorted:
  fixes k :: "'a \<Rightarrow> 'b :: linorder"
  assumes "sorted (map k xs)" "\<And>x y. k x \<le> k y \<Longrightarrow> P y \<Longrightarrow> P x"
  shows "takeWhile P xs = filter P xs" "dropWhile P xs = filter (\<lambda>x. \<not> P x) xs"
proof -
  have "\<not> P y" if "y \<in> set (dropWhile P xs)" for y
    using that assms(1)
  proof (induction xs)
    case (Cons x xs)
    then show ?case using assms(2) [of x y] set_dropWhileD by (cases "P x") force+
  qed simp
  moreover have "P y" if "y \<in> set (takeWhile P xs)" for y using set_takeWhileD [OF that] by simp
  moreover have "filter Q xs = filter Q (takeWhile P xs) @ filter Q (dropWhile P xs)" for Q
    by (metis filter_append takeWhile_dropWhile_id)
  ultimately show "takeWhile P xs = filter P xs" "dropWhile P xs = filter (\<lambda>x. \<not> P x) xs"
    by (simp_all add: filter_empty_conv filter_id_conv)
qed

lemma sorted_filter_keys: "sorted (map k xs) \<Longrightarrow> sorted (map k (filter P xs))"
  by (induction xs) auto

lemma foldl_insort:
  fixes k :: "'a \<Rightarrow> 'b :: linorder"
  shows "sorted (map k q) \<Longrightarrow> sorted (map k (foldl (\<lambda>q c. insort_key k c q) q xs))"
    and "mset (foldl (\<lambda>q c. insort_key k c q) q xs) = mset xs + mset q"
  by (induction xs arbitrary: q) (simp_all add: sorted_insort_key)

lemma mset_partition3:
  "mset xs = mset (filter P (filter Q xs)) + mset (filter (\<lambda>x. \<not> P x) (filter Q xs)) + mset (filter (\<lambda>x. \<not> Q x) xs)"
  by (induction xs) auto

lemma distinct_map_part:
  assumes "distinct (map k xs)" "mset xs = A + mset ys"
  shows "distinct (map k ys)"
proof -
  obtain zs where "mset zs = A" using ex_mset by blast
  then have "mset (map k xs) = mset (map k (zs @ ys))" using assms(2) by simp
  from mset_eq_imp_distinct_iff [OF this] assms(1) show ?thesis by simp
qed

lemma filter_key_unique:
  assumes "distinct (map k xs)" "\<And>x. P x \<Longrightarrow> k x = a"
  shows "filter P xs = [] \<or> (\<exists>x. filter P xs = [x])"
  using assms(1)
proof (induction xs)
  case (Cons x xs)
  then show ?case
  proof (cases "P x")
    case True
    then have "filter P xs = []" using Cons.prems assms(2) by (force simp: filter_empty_conv)
    with True show ?thesis by simp
  qed simp
qed simp
section \<open>Changes of one client state\<close>

definition closures :: "'c client_state \<Rightarrow> 'c multiset" where
  "closures cs = image_mset rc_callback_closure (mset (cs_release_callback_queue cs))"

definition same_client :: "'c client_state \<Rightarrow> 'c client_state \<Rightarrow> bool" where
  "same_client cs cs' \<longleftrightarrow> cs_order_data cs' = cs_order_data cs \<and> cs_namespace_id cs' = cs_namespace_id cs \<and>
     cs_command_buffer_id cs' = cs_command_buffer_id cs \<and> cs_destroyed cs' = cs_destroyed cs"

lemma put_state_simps [simp]:
  "spm_generators (put_state i cs m) = spm_generators m" "spm_next_callback_id (put_state i cs m) = spm_next_callback_id m"
  "spm_order_data (put_state i cs m) = spm_order_data m" "spm_client_states (put_state i cs m) = (spm_client_states m)[i := cs]"
  "spm_client_state_maps (put_state i cs m) = spm_client_state_maps m" "spm_order_data_map (put_state i cs m) = spm_order_data_map m"
  "spm_graph_validation_enabled (put_state i cs m) = spm_graph_validation_enabled m"
  "alive (put_state i cs m) s = alive m s" "fences_of (put_state i cs m) = fences_of m"
  by (simp_all add: put_state_def alive_def fences_of_def fun_eq_iff)

lemma put_order_simps [simp]:
  "spm_generators (put_order s od m) = spm_generators m" "spm_next_callback_id (put_order s od m) = spm_next_callback_id m"
  "spm_order_data (put_order s od m) = (spm_order_data m)(s := Some od)" "spm_client_states (put_order s od m) = spm_client_states m"
  "spm_client_state_maps (put_order s od m) = spm_client_state_maps m" "spm_order_data_map (put_order s od m) = spm_order_data_map m"
  "spm_graph_validation_enabled (put_order s od m) = spm_graph_validation_enabled m" "waiting (put_order s od m) = waiting m"
  by (simp_all add: put_order_def waiting_def)

lemma sum_list_replace:
  fixes f :: "'a \<Rightarrow> 'b :: comm_monoid_add"
  shows "i < length xs \<Longrightarrow> (\<Sum>x \<leftarrow> xs[i := y]. f x) + f (xs ! i) = (\<Sum>x \<leftarrow> xs. f x) + f y"
proof (induction xs arbitrary: i)
  case (Cons x xs)
  show ?case
  proof (cases i)
    case 0
    then show ?thesis by (simp add: ac_simps)
  next
    case (Suc j)
    with Cons.prems Cons.IH [of j] show ?thesis by (simp add: add.assoc)
  qed
qed simp

lemma waiting_put_state:
  assumes "i < length (spm_client_states m)"
  shows "waiting (put_state i cs m) + closures (spm_client_states m ! i) = waiting m + closures cs"
  using sum_list_replace [OF assms, of closures cs] by (simp add: waiting_def closures_def cong: map_cong)

lemma waiting_takes:
  assumes "i < length (spm_client_states m)" "closures (spm_client_states m ! i) = mset run + closures cs"
  shows "waiting m = mset run + waiting (put_state i cs m)"
  using waiting_put_state [OF assms(1), of cs] assms(2) by (simp add: ac_simps)

lemma states_ok_nth: "states_ok m \<Longrightarrow> i < length (spm_client_states m) \<Longrightarrow> cs_ok (spm_next_callback_id m) (spm_client_states m ! i)"
  by (simp add: states_ok_def)

lemma states_ok_put:
  assumes "states_ok m" "i < length (spm_client_states m)" "cs_ok (spm_next_callback_id m) cs" "same_client (spm_client_states m ! i) cs"
  shows "states_ok (put_state i cs m)"
proof -
  let ?ok = "\<lambda>cs. cs_ok (spm_next_callback_id m) cs \<and> (\<forall>s. cs_order_data cs = Some s \<longrightarrow> spm_order_data m s \<noteq> None)"
  have "spm_client_states m ! i \<in> set (spm_client_states m)" using assms(2) by simp
  then have "?ok (spm_client_states m ! i)" using assms(1) unfolding states_ok_def by blast
  then have "?ok cs" using assms(3,4) by (simp add: same_client_def)
  then have "\<forall>cs' \<in> set ((spm_client_states m)[i := cs]). ?ok cs'"
    using assms(1) set_update_subset_insert [of "spm_client_states m" i cs] by (auto simp: states_ok_def)
  moreover have "cs_namespace_id ((spm_client_states m)[i := cs] ! j) = cs_namespace_id (spm_client_states m ! j)"
    "cs_command_buffer_id ((spm_client_states m)[i := cs] ! j) = cs_command_buffer_id (spm_client_states m ! j)"
    "cs_destroyed ((spm_client_states m)[i := cs] ! j) = cs_destroyed (spm_client_states m ! j)" if "j < length (spm_client_states m)" for j
    using assms(2,4) that by (cases "j = i"; simp add: same_client_def)+
  ultimately show ?thesis using assms(1) unfolding states_ok_def by simp
qed

lemma fenced_put_state:
  assumes "fenced F m" "i < length (spm_client_states m)" "same_client (spm_client_states m ! i) cs"
    and "\<And>c s. c \<in> set (cs_release_callback_queue cs) \<Longrightarrow> cs_order_data cs = Some s \<Longrightarrow> alive m s \<Longrightarrow>
      c \<in> set (cs_release_callback_queue (spm_client_states m ! i)) \<or> (\<exists>f \<in> F s. answers f i c)"
  shows "fenced F (put_state i cs m)"
proof -
  have "\<exists>f \<in> F s. answers f j c"
    if "j < length (spm_client_states m)" "cs_order_data ((spm_client_states m)[i := cs] ! j) = Some s" "alive m s"
      "c \<in> set (cs_release_callback_queue ((spm_client_states m)[i := cs] ! j))" for j s c
  proof (cases "j = i")
    case True
    then have c: "c \<in> set (cs_release_callback_queue cs)" "cs_order_data cs = Some s" "cs_order_data (spm_client_states m ! i) = Some s"
      using that assms(2,3) by (simp_all add: same_client_def)
    from assms(4) [OF c(1,2) that(3)] show ?thesis
    proof
      assume "c \<in> set (cs_release_callback_queue (spm_client_states m ! i))"
      with assms(1,2) c(3) that(3) True show ?thesis by (simp add: fenced_def)
    qed (simp add: True)
  next
    case False
    with that assms(1) show ?thesis by (simp add: fenced_def)
  qed
  then show ?thesis by (simp add: fenced_def)
qed

lemma sp_inv_put_state:
  assumes "sp_inv lo ls m" "i < length (spm_client_states m)" "cs_ok (spm_next_callback_id m) cs"
    "same_client (spm_client_states m ! i) cs" "set (cs_release_callback_queue cs) \<subseteq> set (cs_release_callback_queue (spm_client_states m ! i))"
  shows "sp_inv lo ls (put_state i cs m)"
proof -
  have "orders_ok lo ls (put_state i cs m)" using assms(1) by (simp add: sp_inv_def orders_ok_def)
  moreover have "states_ok (put_state i cs m)" using states_ok_put [OF _ assms(2-4)] assms(1) by (simp add: sp_inv_def)
  moreover have "fenced (fences_of m) (put_state i cs m)" if "fenced (fences_of m) m"
    by (rule fenced_put_state [OF that assms(2,4)]) (use assms(5) in auto)
  ultimately show ?thesis using assms(1) by (simp add: sp_inv_def)
qed

section \<open>Releases\<close>

text \<open>A release runs the callbacks that wait for it or for less, in the order of what they wait for.\<close>

lemma EnsureFenceSyncReleased_ok:
  assumes "EnsureFenceSyncReleased quiet release cause cs = Inr (run, cs')" "cs_ok n cs"
  shows "cs_ok n cs'" "same_client cs cs'" "closures cs = mset run + closures cs'"
    "cs_fence_sync_release cs' = max release (cs_fence_sync_release cs)"
    "run = map rc_callback_closure (filter (\<lambda>c. rc_release_count c \<le> release) (cs_release_callback_queue cs))"
    "cs_release_callback_queue cs' = filter (\<lambda>c. release < rc_release_count c) (cs_release_callback_queue cs)"
proof -
  define q where "q = cs_release_callback_queue cs"
  have s: "sorted (map rc_release_count q)" "\<forall>c \<in> set q. cs_fence_sync_release cs < rc_release_count c"
    using assms(2) by (simp_all add: cs_ok_def q_def)
  have tw: "takeWhile (\<lambda>c. rc_release_count c \<le> release) q = filter (\<lambda>c. rc_release_count c \<le> release) q"
    "dropWhile (\<lambda>c. rc_release_count c \<le> release) q = filter (\<lambda>c. release < rc_release_count c) q"
    using takeWhile_sorted [OF s(1), of "\<lambda>c. rc_release_count c \<le> release"] by (simp_all add: not_le)
  define cs1 where "cs1 = (if cause = kExplicitClientRelease \<or> cause = kTaskCompletionRelease
                   then cs\<lparr>cs_client_fence_sync_release := release\<rparr> else cs)"
  have c1: "cs_fence_sync_release cs1 = cs_fence_sync_release cs" "cs_release_callback_queue cs1 = q" "same_client cs cs1"
    by (simp_all add: cs1_def q_def same_client_def)
  have e: "(run, cs') = (if release \<le> cs_fence_sync_release cs then ([], cs1)
      else (map rc_callback_closure (filter (\<lambda>c. rc_release_count c \<le> release) q),
            cs1\<lparr>cs_fence_sync_release := release, cs_release_callback_queue := filter (\<lambda>c. release < rc_release_count c) q\<rparr>))"
    using assms(1) unfolding EnsureFenceSyncReleased_def Let_def cs1_def [symmetric] c1 tw by (auto simp: res_simps split: if_splits)
  have fx: "cs_fence_sync_release cs' = max release (cs_fence_sync_release cs)" and
    r: "run = map rc_callback_closure (filter (\<lambda>c. rc_release_count c \<le> release) q)" and
    q': "cs_release_callback_queue cs' = filter (\<lambda>c. release < rc_release_count c) q" and sc: "same_client cs cs'"
  proof -
    have none: "filter (\<lambda>c. rc_release_count c \<le> release) q = []" "filter (\<lambda>c. release < rc_release_count c) q = q"
      if "release \<le> cs_fence_sync_release cs"
      using that s(2) by (auto simp: filter_empty_conv filter_id_conv)
    show "cs_fence_sync_release cs' = max release (cs_fence_sync_release cs)" using e c1(1) by (auto split: if_splits)
    show "run = map rc_callback_closure (filter (\<lambda>c. rc_release_count c \<le> release) q)" using e none by (auto split: if_splits)
    show "cs_release_callback_queue cs' = filter (\<lambda>c. release < rc_release_count c) q" using e none c1(2) by (auto split: if_splits)
    show "same_client cs cs'" using e c1(3) by (auto simp: same_client_def split: if_splits)
  qed
  show "cs_ok n cs'"
    using assms(2) sc q' fx sorted_filter_keys [OF s(1)] distinct_map_filter [of rc_callback_id q]
    by (auto simp: cs_ok_def same_client_def q_def)
  have "mset q = mset (filter (\<lambda>c. rc_release_count c \<le> release) q) + mset (filter (\<lambda>c. release < rc_release_count c) q)"
    by (induction q) auto
  then show "closures cs = mset run + closures cs'"
    by (simp add: closures_def r q' flip: q_def) (metis image_mset_union mset_filter)
  show "same_client cs cs'" by (rule sc)
  show "cs_fence_sync_release cs' = max release (cs_fence_sync_release cs)" by (rule fx)
  show "run = map rc_callback_closure (filter (\<lambda>c. rc_release_count c \<le> release) (cs_release_callback_queue cs))"
    "cs_release_callback_queue cs' = filter (\<lambda>c. release < rc_release_count c) (cs_release_callback_queue cs)"
    using r q' by (simp_all add: q_def)
qed
lemma EnsureWaitReleased_ok:
  assumes "EnsureWaitReleased release callback_id i m = Inr (run, m')" "states_ok m"
  shows "i < length (spm_client_states m)"
    "\<exists>cs. m' = put_state i cs m \<and> cs_ok (spm_next_callback_id m) cs \<and> same_client (spm_client_states m ! i) cs \<and>
      set (cs_release_callback_queue cs) =
        {c \<in> set (cs_release_callback_queue (spm_client_states m ! i)). \<not> (rc_release_count c = release \<and> rc_callback_id c = callback_id)} \<and>
      closures (spm_client_states m ! i) = mset run + closures cs"
proof -
  show i: "i < length (spm_client_states m)"
    using assms(1) by (simp add: EnsureWaitReleased_def with_state_def split: if_splits)
  define cs where "cs = spm_client_states m ! i"
  define q where "q = cs_release_callback_queue cs"
  have ok: "cs_ok (spm_next_callback_id m) cs" using states_ok_nth [OF assms(2) i] by (simp add: cs_def)
  then have s: "sorted (map rc_release_count q)" "\<forall>c \<in> set q. cs_fence_sync_release cs < rc_release_count c"
    "distinct (map rc_callback_id q)" by (simp_all add: cs_ok_def q_def)
  let ?hit = "\<lambda>c. rc_release_count c = release \<and> rc_callback_id c = callback_id"
  have "\<exists>cs'. m' = put_state i cs' m \<and> cs_ok (spm_next_callback_id m) cs' \<and> same_client cs cs' \<and>
      set (cs_release_callback_queue cs') = {c \<in> set q. \<not> ?hit c} \<and> closures cs = mset run + closures cs'"
  proof (cases "release \<le> cs_fence_sync_release cs")
    case True
    have "run = [] \<and> m' = m" using assms(1) i True by (auto simp: EnsureWaitReleased_def with_state_def cs_def res_simps)
    moreover have "put_state i cs m = m" by (simp add: put_state_def cs_def)
    moreover have "\<not> ?hit c" if "c \<in> set q" for c using s(2) that True by auto
    ultimately show ?thesis using ok by (intro exI [of _ cs]) (auto simp: same_client_def q_def)
  next
    case False
    let ?low = "\<lambda>c :: 'a release_callback. rc_release_count c \<le> release"
    have tw: "takeWhile ?low q = filter ?low q" "dropWhile ?low q = filter (\<lambda>c. \<not> ?low c) q"
      using takeWhile_sorted [OF s(1), of ?low] by simp_all
    define q' where "q' = foldl (\<lambda>q c. insort_key rc_release_count c q) (filter (\<lambda>c. \<not> ?low c) q) (filter (\<lambda>c. \<not> ?hit c) (filter ?low q))"
    have found: "filter ?hit (filter ?low q) = [] \<or> (\<exists>c. filter ?hit (filter ?low q) = [c])"
      by (rule filter_key_unique [where k = rc_callback_id and a = callback_id]) (use s(3) distinct_map_filter in auto)
    have e: "run = map rc_callback_closure (filter ?hit (filter ?low q))" "m' = put_state i (cs\<lparr>cs_release_callback_queue := q'\<rparr>) m"
      using assms(1) i False found
      unfolding EnsureWaitReleased_def with_state_def Let_def cs_def [symmetric] q_def [symmetric] tw
      by (auto simp: res_simps q'_def)
    have mq: "mset q' = mset (filter (\<lambda>c. \<not> ?hit c) (filter ?low q)) + mset (filter (\<lambda>c. \<not> ?low c) q)"
      unfolding q'_def by (rule foldl_insort(2))
    then have split: "mset q = mset (filter ?hit (filter ?low q)) + mset q'" using mset_partition3 [of q ?hit ?low] by (simp only: add.assoc)
    have set: "set q' = {c \<in> set q. \<not> ?hit c}"
    proof -
      have "set q' = set_mset (mset q')" by simp
      also have "\<dots> = {c \<in> set q. \<not> ?hit c}" unfolding mq by auto
      finally show ?thesis .
    qed
    have "sorted (map rc_release_count q')" unfolding q'_def by (rule foldl_insort(1)) (rule sorted_filter_keys [OF s(1)])
    moreover have "distinct (map rc_callback_id q')" by (rule distinct_map_part [OF s(3) split])
    ultimately have "cs_ok (spm_next_callback_id m) (cs\<lparr>cs_release_callback_queue := q'\<rparr>)"
      using ok set by (auto simp: cs_ok_def q_def)
    moreover have "closures cs = mset run + closures (cs\<lparr>cs_release_callback_queue := q'\<rparr>)"
      using arg_cong [OF split, of "image_mset rc_callback_closure"] by (simp add: closures_def e(1) flip: q_def)
    ultimately show ?thesis using e(2) set by (intro exI [of _ "cs\<lparr>cs_release_callback_queue := q'\<rparr>"]) (simp add: same_client_def)
  qed
  then show "\<exists>cs. m' = put_state i cs m \<and> cs_ok (spm_next_callback_id m) cs \<and> same_client (spm_client_states m ! i) cs \<and>
      set (cs_release_callback_queue cs) = {c \<in> set (cs_release_callback_queue (spm_client_states m ! i)). \<not> ?hit c} \<and>
      closures (spm_client_states m ! i) = mset run + closures cs" by (simp add: cs_def q_def)
qed
section \<open>Waits\<close>

text \<open>A change of one order data.\<close>

lemma orders_ok_put:
  assumes "orders_ok lo ls m" "spm_order_data m s \<noteq> None" "od_ok (lo (spm_generators m)) od"
    "\<forall>f \<in> set (od_order_fence_queue od). of_client_state f < length (spm_client_states m)"
    "spm_graph_validation_enabled m \<longrightarrow> od_order_fence_queue od = []"
  shows "orders_ok lo ls (put_order s od m)"
  using assms by (auto simp: orders_ok_def)

lemma states_ok_put_order: "states_ok m \<Longrightarrow> states_ok (put_order s od m)"
  unfolding states_ok_def by simp

lemma orders_ok_get:
  assumes "orders_ok lo ls m" "spm_order_data m s = Some od"
  shows "od_ok (lo (spm_generators m)) od" "\<forall>f \<in> set (od_order_fence_queue od). of_client_state f < length (spm_client_states m)"
    "spm_graph_validation_enabled m \<Longrightarrow> od_order_fence_queue od = []" "s \<le> ls (spm_generators m)"
  using assms by (auto simp: orders_ok_def)

lemma fenced_put_order:
  assumes "fenced F m" "\<And>t. alive (put_order s od m) t \<Longrightarrow> F t \<subseteq> G t \<and> alive m t"
  shows "fenced G (put_order s od m)"
  using assms unfolding fenced_def put_order_simps by blast

lemma sp_inv_put_order:
  assumes "sp_inv lo ls m" "spm_order_data m s = Some od" "od_ok (lo (spm_generators m)) od'"
    "od_order_fence_queue od' = od_order_fence_queue od" "od_destroyed od' = od_destroyed od"
  shows "sp_inv lo ls (put_order s od' m)"
proof -
  have o: "orders_ok lo ls m" using assms(1) by (simp add: sp_inv_def)
  have "fences_of (put_order s od' m) = fences_of m" using assms(2,4) by (auto simp: fences_of_def fun_eq_iff)
  moreover have "alive (put_order s od' m) t \<Longrightarrow> alive m t" for t using assms(2,5) by (auto simp: alive_def split: if_splits)
  ultimately have "fenced (fences_of m) m \<Longrightarrow> fenced (fences_of (put_order s od' m)) (put_order s od' m)"
    by (auto intro: fenced_put_order)
  then show ?thesis
    using orders_ok_put [OF o, of s od'] orders_ok_get(2,3) [OF o assms(2)] assms states_ok_put_order by (auto simp: sp_inv_def)
qed

lemma cs_ok_later: "cs_ok n cs \<Longrightarrow> n \<le> n' \<Longrightarrow> cs_ok n' cs"
  by (auto simp: cs_ok_def)

text \<open>A fence of a wait: the wait is behind the first number that is not processed.\<close>

lemma od_ok_fence:
  assumes "od_ok n od" "od_unprocessed_order_nums od = front # rest" "front < w" "\<not> od_destroyed od" "of_order_num f = min (last (front # rest)) w"
  shows "od_ok n (od\<lparr>od_order_fence_queue := insort_key fence_key f (od_order_fence_queue od)\<rparr>)"
proof -
  have "front \<le> last (front # rest)" using assms(1,2) by (auto simp: od_ok_def less_imp_le)
  then show ?thesis using assms by (auto simp: od_ok_def sorted_insort_key set_insort_key)
qed

text \<open>The callback is queued in the client state, once its id is generated and its fence is set.\<close>

definition add_callback :: "nat \<Rightarrow> 'c release_callback \<Rightarrow> ('c, 'g) sync_points \<Rightarrow> ('c, 'g) sync_points" where
  "add_callback i c m = put_state i ((spm_client_states m ! i)\<lparr>cs_release_callback_queue :=
     insort_key rc_release_count c (cs_release_callback_queue (spm_client_states m ! i))\<rparr>) m"

definition new_fence :: "nat \<Rightarrow> u64 \<Rightarrow> u32 \<Rightarrow> u64 \<Rightarrow> order_data \<Rightarrow> order_data" where
  "new_fence i release w n od = od\<lparr>od_order_fence_queue := insort_key fence_key
     \<lparr>of_order_num = min (last (od_unprocessed_order_nums od)) w, of_fence_release = release, of_client_state = i, of_callback_id = n\<rparr>
     (od_order_fence_queue od)\<rparr>"

lemma WaitForRelease_cases:
  assumes "WaitForRelease i release w callback m = Inr (ok, m')" "0 < spm_next_callback_id m" "spm_next_callback_id m + 1 < 2 ^ 64"
  obtains (no) "ok = False" "m' = m"
  | (accepted) s od m1 where "ok = True" "i < length (spm_client_states m)" "cs_order_data (spm_client_states m ! i) = Some s"
      "spm_order_data m s = Some od" "\<not> od_destroyed od" "cs_fence_sync_release (spm_client_states m ! i) < release"
      "m' = add_callback i \<lparr>rc_release_count = release, rc_callback_closure = callback, rc_callback_id = spm_next_callback_id m\<rparr> m1"
      "m1 = (if spm_graph_validation_enabled m then m\<lparr>spm_next_callback_id := spm_next_callback_id m + 1\<rparr>
         else put_order s (new_fence i release w (spm_next_callback_id m) od) (m\<lparr>spm_next_callback_id := spm_next_callback_id m + 1\<rparr>))"
      "spm_graph_validation_enabled m \<or> od_unprocessed_order_nums od \<noteq> [] \<and> hd (od_unprocessed_order_nums od) < w"
proof (cases "release \<le> cs_fence_sync_release (spm_client_states m ! i)")
  case True
  with assms(1) no show ?thesis by (simp add: WaitForRelease_def with_state_def split: if_splits)
next
  case False
  note d = WaitForRelease_def with_state_def SyncPointClientState_sequence_id_def ValidateReleaseOrderNumber_def with_order_def
  have i: "i < length (spm_client_states m)" using assms(1) by (simp add: d split: if_splits)
  obtain s where s: "cs_order_data (spm_client_states m ! i) = Some s"
    using assms(1) i False by (cases "cs_order_data (spm_client_states m ! i)") (simp_all add: d)
  obtain od where od: "spm_order_data m s = Some od"
    using assms(1) i False s by (cases "spm_order_data m s") (simp_all add: d)
  have gen: "GenerateCallbackId m = (spm_next_callback_id m, m\<lparr>spm_next_callback_id := spm_next_callback_id m + 1\<rparr>)"
    using assms(3) by (simp add: GenerateCallbackId_def u64_add_def)
  note e = d add_callback_def new_fence_def put_order_def Let_def
  consider "od_destroyed od" | "\<not> od_destroyed od" "spm_graph_validation_enabled m"
    | "\<not> od_destroyed od" "\<not> spm_graph_validation_enabled m" "od_unprocessed_order_nums od = []"
    | front rest where "\<not> od_destroyed od" "\<not> spm_graph_validation_enabled m" "od_unprocessed_order_nums od = front # rest"
    by (cases "od_unprocessed_order_nums od") auto
  then show ?thesis
  proof cases
    case 1
    with assms(1) i False s od no show ?thesis by (simp add: d)
  next
    case 2
    with assms(1,2) i False s od gen show ?thesis by (intro accepted) (auto simp: e)
  next
    case 3
    with assms(1) i False s od no show ?thesis by (simp add: d)
  next
    case 4
    show ?thesis
    proof (cases "w \<le> front")
      case True
      with 4 assms(1) i False s od no show ?thesis by (simp add: d)
    next
      case w: False
      with 4 assms(1,2) i False s od gen show ?thesis by (intro accepted) (auto simp: e)
    qed
  qed
qed

lemma distinct_map_insort: "distinct (map k (insort_key f x xs)) \<longleftrightarrow> k x \<notin> k ` set xs \<and> distinct (map k xs)"
  by (induction xs) (auto simp: set_insort_key)

lemma add_callback_ok:
  assumes "orders_ok lo ls m" "states_ok m" "i < length (spm_client_states m)" "\<not> cs_destroyed (spm_client_states m ! i)"
    and "cs_ok (rc_callback_id c) (spm_client_states m ! i)"
    and "cs_fence_sync_release (spm_client_states m ! i) < rc_release_count c" "rc_callback_id c < spm_next_callback_id m"
    and "\<not> spm_graph_validation_enabled m \<Longrightarrow> fenced (fences_of m) m"
    and "\<And>s. \<not> spm_graph_validation_enabled m \<Longrightarrow> cs_order_data (spm_client_states m ! i) = Some s \<Longrightarrow> \<exists>f \<in> fences_of m s. answers f i c"
  shows "sp_inv lo ls (add_callback i c m)" "waiting (add_callback i c m) = add_mset (rc_callback_closure c) (waiting m)"
proof -
  let ?cs = "spm_client_states m ! i"
  let ?cs1 = "?cs\<lparr>cs_release_callback_queue := insort_key rc_release_count c (cs_release_callback_queue ?cs)\<rparr>"
  have "rc_callback_id c \<notin> rc_callback_id ` set (cs_release_callback_queue ?cs)" using assms(5) by (auto simp: cs_ok_def)
  then have "cs_ok (spm_next_callback_id m) ?cs1"
    using assms(4-7) states_ok_nth [OF assms(2,3)]
    by (auto simp: cs_ok_def sorted_insort_key set_insort_key distinct_map_insort)
  moreover have sc: "same_client ?cs ?cs1" by (simp add: same_client_def)
  ultimately have "states_ok (add_callback i c m)" unfolding add_callback_def by (intro states_ok_put [OF assms(2,3)])
  moreover have "orders_ok lo ls (add_callback i c m)" using assms(1) by (simp add: orders_ok_def add_callback_def)
  moreover have "fenced (fences_of m) (add_callback i c m)" if "\<not> spm_graph_validation_enabled m"
    unfolding add_callback_def
    by (rule fenced_put_state [OF assms(8) [OF that] assms(3) sc]) (use assms(9) [OF that] in \<open>auto simp: set_insort_key\<close>)
  ultimately show "sp_inv lo ls (add_callback i c m)" by (simp add: sp_inv_def add_callback_def)
  have "closures ?cs1 = add_mset (rc_callback_closure c) (closures ?cs)" by (simp add: closures_def)
  with waiting_put_state [OF assms(3), of ?cs1] show "waiting (add_callback i c m) = add_mset (rc_callback_closure c) (waiting m)"
    by (simp add: add_callback_def)
qed
lemma next_id_simps [simp]:
  "alive (m\<lparr>spm_next_callback_id := n\<rparr>) s = alive m s" "fences_of (m\<lparr>spm_next_callback_id := n\<rparr>) = fences_of m"
  "fenced F (m\<lparr>spm_next_callback_id := n\<rparr>) = fenced F m" "orders_ok lo ls (m\<lparr>spm_next_callback_id := n\<rparr>) = orders_ok lo ls m"
  "waiting (m\<lparr>spm_next_callback_id := n\<rparr>) = waiting m"
  by (simp_all add: alive_def fences_of_def fun_eq_iff fenced_def orders_ok_def waiting_def)

lemma states_ok_later: "states_ok m \<Longrightarrow> spm_next_callback_id m \<le> n \<Longrightarrow> states_ok (m\<lparr>spm_next_callback_id := n\<rparr>)"
  unfolding states_ok_def by (auto intro: cs_ok_later)

lemma WaitForRelease_ok:
  assumes "WaitForRelease i release w callback m = Inr (ok, m')" "sp_inv lo ls m"
    and "\<not> cs_destroyed (spm_client_states m ! i)" "0 < spm_next_callback_id m" "spm_next_callback_id m + 1 < 2 ^ 64"
  shows "sp_inv lo ls m' \<and> waiting m' = (if ok then add_mset callback (waiting m) else waiting m) \<and> 0 < spm_next_callback_id m'"
  using assms(1,4,5)
proof (cases rule: WaitForRelease_cases)
  case (accepted s od m1)
  let ?c = "\<lparr>rc_release_count = release, rc_callback_closure = callback, rc_callback_id = spm_next_callback_id m\<rparr>"
  have inv: "orders_ok lo ls m" "states_ok m" "\<not> spm_graph_validation_enabled m \<Longrightarrow> fenced (fences_of m) m" using assms(2) by (simp_all add: sp_inv_def)
  have st: "spm_client_states m1 = spm_client_states m" "spm_next_callback_id m1 = spm_next_callback_id m + 1" "waiting m1 = waiting m"
    "spm_graph_validation_enabled m1 = spm_graph_validation_enabled m"
    using accepted(8) by simp_all
  have s1: "states_ok m1" unfolding accepted(8) using inv(2) by (simp add: states_ok_later states_ok_put_order)
  let ?od = "new_fence i release w (spm_next_callback_id m) od"
  have fs: "set (od_order_fence_queue ?od) = insert \<lparr>of_order_num = min (last (od_unprocessed_order_nums od)) w, of_fence_release = release,
      of_client_state = i, of_callback_id = spm_next_callback_id m\<rparr> (set (od_order_fence_queue od))"
    by (simp add: new_fence_def set_insort_key)
  have o1: "orders_ok lo ls m1"
  proof (cases "spm_graph_validation_enabled m")
    case False
    with accepted(9) obtain front rest where u: "od_unprocessed_order_nums od = front # rest" "front < w" by (cases "od_unprocessed_order_nums od") auto
    have "od_ok (lo (spm_generators m)) ?od"
      unfolding new_fence_def by (rule od_ok_fence [OF orders_ok_get(1) [OF inv(1) accepted(4)] u accepted(5)]) (simp add: u)
    moreover have "\<forall>f \<in> set (od_order_fence_queue ?od). of_client_state f < length (spm_client_states m)"
      using orders_ok_get(2) [OF inv(1) accepted(4)] accepted(2) fs by simp
    moreover have "orders_ok lo ls (m\<lparr>spm_next_callback_id := spm_next_callback_id m + 1\<rparr>)" using inv(1) by simp
    ultimately show ?thesis using False accepted(4,8) by (auto intro!: orders_ok_put)
  qed (use inv(1) accepted(8) in simp)
  have sub: "fences_of m t \<subseteq> fences_of m1 t" if "\<not> spm_graph_validation_enabled m" for t
    using that accepted(4,8) fs by (auto simp: fences_of_def)
  have f1: "fenced (fences_of m1) m1" if g: "\<not> spm_graph_validation_enabled m1"
  proof -
    have "alive m1 t \<Longrightarrow> alive m t" for t using accepted(4,5,8) st(4) g by (auto simp: alive_def split: if_splits)
    then show ?thesis using inv(3) sub st g by (fastforce simp: fenced_def)
  qed
  have a1: "\<exists>f \<in> fences_of m1 t. answers f i ?c" if "\<not> spm_graph_validation_enabled m1" "cs_order_data (spm_client_states m1 ! i) = Some t" for t
  proof -
    have "t = s" using that(2) st(1) accepted(3) by simp
    moreover have "fences_of m1 s = set (od_order_fence_queue ?od)" using that(1) st(4) accepted(8) by (simp add: fences_of_def)
    ultimately show ?thesis using fs by (simp add: answers_def)
  qed
  have "sp_inv lo ls (add_callback i ?c m1) \<and> waiting (add_callback i ?c m1) = add_mset (rc_callback_closure ?c) (waiting m1)"
    using add_callback_ok [OF o1 s1, of i ?c] accepted(2,6) assms(3) st states_ok_nth [OF inv(2) accepted(2)] f1 a1 by auto
  then show ?thesis using accepted(1,7) st(2,3) by (simp add: add_callback_def)
qed (use assms in simp)

section \<open>Finishing an order number\<close>

lemma fenced_answered:
  assumes "fenced G m" "\<And>t. G t \<subseteq> insert f (F t)" "of_client_state f < length (spm_client_states m)"
    "same_client (spm_client_states m ! of_client_state f) cs"
    "set (cs_release_callback_queue cs) = {c \<in> set (cs_release_callback_queue (spm_client_states m ! of_client_state f)).
       \<not> (rc_release_count c = of_fence_release f \<and> rc_callback_id c = of_callback_id f)}"
  shows "fenced F (put_state (of_client_state f) cs m)"
proof -
  have g: "\<exists>g \<in> F s. answers g j c"
    if c: "j < length (spm_client_states m)" "cs_order_data (spm_client_states m ! j) = Some s" "alive m s"
      "c \<in> set (cs_release_callback_queue (spm_client_states m ! j))" "\<not> answers f j c" for j s c
  proof -
    obtain g where "g \<in> G s" "answers g j c" using assms(1) c(1-4) unfolding fenced_def by blast
    with assms(2) [of s] c(5) show ?thesis by auto
  qed
  have "\<exists>g \<in> F s. answers g j c"
    if j: "j < length (spm_client_states m)" and s: "cs_order_data ((spm_client_states m)[of_client_state f := cs] ! j) = Some s" "alive m s"
      and c: "c \<in> set (cs_release_callback_queue ((spm_client_states m)[of_client_state f := cs] ! j))" for j s c
  proof (cases "j = of_client_state f")
    case True
    with s c assms(3-5) have "cs_order_data (spm_client_states m ! j) = Some s" "c \<in> set (cs_release_callback_queue (spm_client_states m ! j))"
      "\<not> answers f j c" by (auto simp: same_client_def answers_def)
    with g j s(2) show ?thesis by blast
  next
    case False
    with g [OF j _ s(2)] s c show ?thesis by (auto simp: answers_def)
  qed
  then show ?thesis by (simp add: fenced_def)
qed

text \<open>What the releases of a finished order number leave alone.\<close>

definition same_orders :: "('c, 'g) sync_points \<Rightarrow> ('c, 'g) sync_points \<Rightarrow> bool" where
  "same_orders m m' \<longleftrightarrow> spm_order_data m' = spm_order_data m \<and> spm_generators m' = spm_generators m \<and>
     spm_order_data_map m' = spm_order_data_map m \<and> spm_graph_validation_enabled m' = spm_graph_validation_enabled m \<and>
     spm_next_callback_id m' = spm_next_callback_id m \<and> length (spm_client_states m') = length (spm_client_states m)"

lemma same_orders_keeps:
  assumes "same_orders m m'"
  shows "orders_ok lo ls m' = orders_ok lo ls m" "fences_of m' = fences_of m" "alive m' = alive m"
  using assms by (simp_all add: same_orders_def orders_ok_def fences_of_def alive_def fun_eq_iff)

lemma ensure_releases_ok:
  assumes "ensure_releases fs m = Inr (run, m')" "states_ok m" "fenced G m" "\<And>t. G t \<subseteq> set fs \<union> F t"
  shows "states_ok m' \<and> fenced F m' \<and> same_orders m m' \<and> waiting m = mset run + waiting m'"
  using assms
proof (induction fs arbitrary: m run G)
  case Nil
  then have "fenced F m" unfolding fenced_def by simp blast
  with Nil show ?case by (simp add: same_orders_def)
next
  case (Cons f fs)
  obtain run1 m1 run2 where e: "EnsureWaitReleased (of_fence_release f) (of_callback_id f) (of_client_state f) m = Inr (run1, m1)"
    "ensure_releases fs m1 = Inr (run2, m')" "run = run1 @ run2" using Cons.prems(1) by (auto simp: res_simps)
  obtain cs where cs: "m1 = put_state (of_client_state f) cs m" "cs_ok (spm_next_callback_id m) cs" "same_client (spm_client_states m ! of_client_state f) cs"
    "set (cs_release_callback_queue cs) = {c \<in> set (cs_release_callback_queue (spm_client_states m ! of_client_state f)).
       \<not> (rc_release_count c = of_fence_release f \<and> rc_callback_id c = of_callback_id f)}"
    "closures (spm_client_states m ! of_client_state f) = mset run1 + closures cs"
    using EnsureWaitReleased_ok(2) [OF e(1) Cons.prems(2)] by blast
  note i = EnsureWaitReleased_ok(1) [OF e(1) Cons.prems(2)]
  have "fenced (\<lambda>t. set fs \<union> F t) m1"
    unfolding cs(1) by (rule fenced_answered [OF Cons.prems(3) _ i cs(3,4)]) (use Cons.prems(4) in auto)
  moreover have "states_ok m1" unfolding cs(1) by (rule states_ok_put [OF Cons.prems(2) i cs(2,3)])
  ultimately have "states_ok m' \<and> fenced F m' \<and> same_orders m1 m' \<and> waiting m1 = mset run2 + waiting m'"
    using Cons.IH [OF e(2)] by blast
  moreover have "waiting m = mset run1 + waiting m1" unfolding cs(1) by (rule waiting_takes [OF i cs(5)])
  moreover have "same_orders m m1" by (simp add: cs(1) same_orders_def)
  ultimately show ?case by (simp add: e(3) same_orders_def)
qed

text \<open>Once the first order number is processed, the fences before the next one are gone.\<close>

lemma od_ok_finish:
  assumes "od_ok n od" "od_unprocessed_order_nums od = front # rest"
  shows "od_ok n (od\<lparr>od_processed_order_num := front, od_unprocessed_order_nums := rest,
    od_order_fence_queue := dropWhile (fence_due (case rest of [] \<Rightarrow> 0 | n # _ \<Rightarrow> n)) (od_order_fence_queue od)\<rparr>)"
proof -
  define nxt where "nxt = (case rest of [] \<Rightarrow> 0 | n # _ \<Rightarrow> n)"
  have s: "sorted (map fence_key (od_order_fence_queue od))" using assms(1) by (simp add: od_ok_def)
  have dw: "dropWhile (fence_due nxt) (od_order_fence_queue od) = filter (\<lambda>f. \<not> fence_due nxt f) (od_order_fence_queue od)"
    by (rule takeWhile_sorted(2) [OF s]) (auto simp: fence_due_def fence_key_def)
  have "rest \<noteq> [] \<and> hd rest \<le> of_order_num f \<and> of_order_num f \<le> last rest" if "f \<in> set (od_order_fence_queue od)" "\<not> fence_due nxt f" for f
    using that assms by (cases rest) (auto simp: fence_due_def nxt_def od_ok_def)
  then show ?thesis
    using assms sorted_filter_keys [OF s] by (auto simp: od_ok_def dw simp flip: nxt_def)
qed

lemma FinishProcessing_ok:
  assumes "FinishProcessingOrderNumber order_num s m = Inr (run, m')" "sp_inv lo ls m"
  shows "sp_inv lo ls m' \<and> waiting m = mset run + waiting m' \<and> spm_next_callback_id m' = spm_next_callback_id m"
proof -
  obtain od front rest where od: "spm_order_data m s = Some od" "od_unprocessed_order_nums od = front # rest" "order_num = front"
    using assms(1) by (auto simp: FinishProcessingOrderNumber_def with_order_def res_simps Let_def split: option.splits list.splits)
  have inv: "orders_ok lo ls m" "states_ok m" "\<not> spm_graph_validation_enabled m \<Longrightarrow> fenced (fences_of m) m" using assms(2) by (simp_all add: sp_inv_def)
  define nxt where "nxt = (case rest of [] \<Rightarrow> 0 | n # _ \<Rightarrow> n)"
  define od1 where "od1 = od\<lparr>od_processed_order_num := front, od_unprocessed_order_nums := rest,
    od_order_fence_queue := dropWhile (fence_due nxt) (od_order_fence_queue od)\<rparr>"
  have ok: "od_ok (lo (spm_generators m)) od1" unfolding od1_def nxt_def by (rule od_ok_finish [OF orders_ok_get(1) [OF inv(1) od(1)] od(2)])
  have sub: "set (od_order_fence_queue od1) \<subseteq> set (od_order_fence_queue od)" by (auto simp: od1_def dest: set_dropWhileD)
  have o1: "orders_ok lo ls (put_order s od1 m)"
    using orders_ok_put [OF inv(1) _ ok] orders_ok_get(2,3) [OF inv(1) od(1)] sub od(1) by (auto simp: od1_def)
  show ?thesis
  proof (cases "spm_graph_validation_enabled m")
    case True
    then have "od_order_fence_queue od = []" using orders_ok_get(3) [OF inv(1) od(1)] by simp
    then have "od1 = od\<lparr>od_processed_order_num := front, od_unprocessed_order_nums := rest\<rparr>" by (simp add: od1_def)
    then have "run = [] \<and> m' = put_order s od1 m"
      using assms(1) True od by (auto simp: FinishProcessingOrderNumber_def with_order_def res_simps Let_def)
    with o1 inv(2) True show ?thesis by (simp add: sp_inv_def states_ok_put_order)
  next
    case False
    have e: "ensure_releases (takeWhile (fence_due nxt) (od_order_fence_queue od)) (put_order s od1 m) = Inr (run, m')"
      using assms(1) False od by (simp add: FinishProcessingOrderNumber_def with_order_def res_simps Let_def od1_def nxt_def)
    have due: "fences_of m t \<subseteq> set (takeWhile (fence_due nxt) (od_order_fence_queue od)) \<union> fences_of (put_order s od1 m) t" for t
    proof -
      have "set (od_order_fence_queue od) = set (takeWhile (fence_due nxt) (od_order_fence_queue od)) \<union> set (od_order_fence_queue od1)"
        by (simp add: od1_def flip: set_append)
      then show ?thesis using od(1) by (auto simp: fences_of_def)
    qed
    have "fenced (fences_of m) (put_order s od1 m)"
      by (rule fenced_put_order [OF inv(3) [OF False]]) (use od(1) in \<open>auto simp: alive_def od1_def split: if_splits\<close>)
    from ensure_releases_ok [OF e states_ok_put_order [OF inv(2)] this due]
    have "states_ok m' \<and> fenced (fences_of (put_order s od1 m)) m' \<and> same_orders (put_order s od1 m) m' \<and> waiting m = mset run + waiting m'" by simp
    moreover from this have "orders_ok lo ls m'" "fences_of m' = fences_of (put_order s od1 m)" using same_orders_keeps [of "put_order s od1 m" m'] o1 by simp_all
    ultimately show ?thesis by (simp add: sp_inv_def same_orders_def)
  qed
qed
section \<open>The other operations\<close>

lemma new_SyncPointManager_ok: "sp_inv lo ls (new_SyncPointManager ids g graph)" "waiting (new_SyncPointManager ids g graph) = {#}"
  "spm_next_callback_id (new_SyncPointManager ids g graph) = 1"
  by (simp_all add: sp_inv_def orders_ok_def states_ok_def fenced_def waiting_def new_SyncPointManager_def)

lemma generators_simps [simp]:
  "fences_of (m\<lparr>spm_generators := g\<rparr>) = fences_of m" "fenced F (m\<lparr>spm_generators := g\<rparr>) = fenced F m"
  "states_ok (m\<lparr>spm_generators := g\<rparr>) = states_ok m" "waiting (m\<lparr>spm_generators := g\<rparr>) = waiting m"
  by (simp_all add: alive_def fences_of_def fun_eq_iff fenced_def states_ok_def waiting_def)

lemma od_ok_later: "od_ok n od \<Longrightarrow> n \<le> n' \<Longrightarrow> od_ok n' od"
  by (auto simp: od_ok_def)

lemma sp_inv_generators:
  assumes "sp_inv lo ls m" "lo (spm_generators m) \<le> lo g" "ls (spm_generators m) \<le> ls g"
  shows "sp_inv lo ls (m\<lparr>spm_generators := g\<rparr>)"
proof -
  have "orders_ok lo ls m" using assms(1) by (simp add: sp_inv_def)
  then have "orders_ok lo ls (m\<lparr>spm_generators := g\<rparr>)"
    using assms(2,3) od_ok_later [of "lo (spm_generators m)"] unfolding orders_ok_def by (simp add: le_trans) (meson le_trans)
  then show ?thesis using assms(1) by (simp add: sp_inv_def)
qed

lemma od_ok_push:
  assumes "od_ok k od" "k < n"
  shows "od_ok n (od\<lparr>od_last_unprocessed_order_num := n, od_unprocessed_order_nums := od_unprocessed_order_nums od @ [n]\<rparr>)"
proof -
  have "u < n" if "u \<in> set (od_unprocessed_order_nums od)" for u using assms that by (force simp: od_ok_def)
  moreover have "od_processed_order_num od < n" using assms by (simp add: od_ok_def)
  moreover have "of_order_num f \<le> n" if "f \<in> set (od_order_fence_queue od)" for f
    using assms that calculation(1) [of "last (od_unprocessed_order_nums od)"] by (fastforce simp: od_ok_def)
  ultimately show ?thesis using assms(1) by (auto simp: od_ok_def sorted_wrt_append hd_append less_imp_le)
qed

lemma GenerateUnprocessedOrderNumber_ok:
  assumes "GenerateUnprocessedOrderNumber ids s m = Inr (n, m')" "sp_inv lo ls m" "base_ids_ok ids lo ls"
  shows "sp_inv lo ls m' \<and> waiting m' = waiting m \<and> spm_next_callback_id m' = spm_next_callback_id m"
proof -
  obtain od g where e: "spm_order_data m s = Some od" "bi_next_order ids (spm_generators m) = (n, g)"
    "m' = put_order s (od\<lparr>od_last_unprocessed_order_num := n, od_unprocessed_order_nums := od_unprocessed_order_nums od @ [n]\<rparr>) (m\<lparr>spm_generators := g\<rparr>)"
    using assms(1) by (auto simp: GenerateUnprocessedOrderNumber_def with_order_def SyncPointManager_GenerateOrderNumber_def res_simps split: option.splits prod.splits)
  have g: "lo (spm_generators m) < n" "lo g = n" "ls g = ls (spm_generators m)" using assms(3) e(2) by (simp_all add: base_ids_ok_def)
  have "orders_ok lo ls m" using assms(2) by (simp add: sp_inv_def)
  from od_ok_push [OF orders_ok_get(1) [OF this e(1)] g(1)] sp_inv_generators [OF assms(2), of g] g
  have "sp_inv lo ls m'" unfolding e(3) by (intro sp_inv_put_order [where od = od]) (simp_all add: e(1))
  then show ?thesis by (simp add: e(3))
qed

lemma BeginProcessingOrderNumber_ok:
  assumes "BeginProcessingOrderNumber n s m = Inr m'" "sp_inv lo ls m"
  shows "sp_inv lo ls m' \<and> waiting m' = waiting m \<and> spm_next_callback_id m' = spm_next_callback_id m"
proof -
  obtain od where e: "spm_order_data m s = Some od" "m' = put_order s (od\<lparr>od_current_order_num := n, od_paused := False\<rparr>) m"
    using assms(1) by (auto simp: BeginProcessingOrderNumber_def with_order_def res_simps split: option.splits)
  have "orders_ok lo ls m" using assms(2) by (simp add: sp_inv_def)
  from orders_ok_get(1) [OF this e(1)] sp_inv_put_order [OF assms(2) e(1)] show ?thesis by (simp add: e(2) od_ok_def)
qed

lemma PauseProcessingOrderNumber_ok:
  assumes "PauseProcessingOrderNumber n s m = Inr m'" "sp_inv lo ls m"
  shows "sp_inv lo ls m' \<and> waiting m' = waiting m \<and> spm_next_callback_id m' = spm_next_callback_id m"
proof -
  obtain od where e: "spm_order_data m s = Some od" "m' = put_order s (od\<lparr>od_paused := True\<rparr>) m"
    using assms(1) by (auto simp: PauseProcessingOrderNumber_def with_order_def res_simps split: option.splits)
  have "orders_ok lo ls m" using assms(2) by (simp add: sp_inv_def)
  from orders_ok_get(1) [OF this e(1)] sp_inv_put_order [OF assms(2) e(1)] show ?thesis by (simp add: e(2) od_ok_def)
qed

lemma SyncPointOrderData_Destroy_ok:
  assumes "SyncPointOrderData_Destroy s m = Inr m'" "sp_inv lo ls m"
  shows "sp_inv lo ls m' \<and> waiting m' = waiting m \<and> spm_next_callback_id m' = spm_next_callback_id m"
proof -
  obtain od where od: "spm_order_data m s = Some od"
    using assms(1) by (auto simp: SyncPointOrderData_Destroy_def with_order_def split: option.splits)
  let ?od = "od\<lparr>od_destroyed := True, od_order_fence_queue := []\<rparr>"
  have e: "m' = (put_order s ?od m)\<lparr>spm_order_data_map := remove1 s (spm_order_data_map m)\<rparr>"
    using assms(1) od by (auto simp: SyncPointOrderData_Destroy_def RemoveSyncPointOrderData_def with_order_def res_simps)
  have inv: "orders_ok lo ls m" "states_ok m" "\<not> spm_graph_validation_enabled m \<Longrightarrow> fenced (fences_of m) m" using assms(2) by (simp_all add: sp_inv_def)
  have "od_ok (lo (spm_generators m)) ?od" using orders_ok_get(1) [OF inv(1) od] by (simp add: od_ok_def)
  then have "orders_ok lo ls (put_order s ?od m)" by (intro orders_ok_put [OF inv(1)]) (simp_all add: od)
  then have "orders_ok lo ls m'" using notin_set_remove1 by (fastforce simp: e orders_ok_def)
  moreover have "states_ok m'" using states_ok_put_order [OF inv(2), of s ?od] by (simp add: e states_ok_def)
  moreover have "fenced (fences_of m') m'" if "\<not> spm_graph_validation_enabled m"
  proof -
    have "fences_of m t \<subseteq> fences_of (put_order s ?od m) t \<and> alive m t" if "alive (put_order s ?od m) t" for t
      using that by (auto simp: alive_def fences_of_def split: if_splits)
    then have "fenced (fences_of (put_order s ?od m)) (put_order s ?od m)" by (rule fenced_put_order [OF inv(3) [OF that]])
    then show ?thesis by (simp add: e fenced_def alive_def fences_of_def)
  qed
  ultimately show ?thesis by (simp add: sp_inv_def e waiting_def)
qed

lemma CreateSyncPointOrderData_ok:
  assumes "CreateSyncPointOrderData ids m = Inr (s, m')" "sp_inv lo ls m" "base_ids_ok ids lo ls"
  shows "sp_inv lo ls m' \<and> waiting m' = waiting m \<and> spm_next_callback_id m' = spm_next_callback_id m"
proof -
  obtain g where g: "bi_next_sequence ids (spm_generators m) = (s, g)"
    "m' = (put_order s new_SyncPointOrderData m)\<lparr>spm_generators := g, spm_order_data_map := s # spm_order_data_map m\<rparr>"
    using assms(1) by (auto simp: CreateSyncPointOrderData_def res_simps split: prod.splits)
  have gs: "ls (spm_generators m) < s" "ls g = s" "lo g = lo (spm_generators m)" using assms(3) g(1) by (simp_all add: base_ids_ok_def)
  have inv: "orders_ok lo ls m" "states_ok m" "\<not> spm_graph_validation_enabled m \<Longrightarrow> fenced (fences_of m) m" using assms(2) by (simp_all add: sp_inv_def)
  have new: "spm_order_data m s = None" using orders_ok_get(4) [OF inv(1), of s] gs(1) by (cases "spm_order_data m s") auto
  have "od_ok n new_SyncPointOrderData" for n by (simp add: od_ok_def new_SyncPointOrderData_def)
  moreover have "t \<le> s" if "spm_order_data m t = Some od" for t od using orders_ok_get(4) [OF inv(1) that] gs(1) by simp
  ultimately have "orders_ok lo ls m'"
    using inv(1) gs unfolding orders_ok_def by (auto simp: g(2) new_SyncPointOrderData_def)
  moreover have "states_ok m'" using states_ok_put_order [OF inv(2), of s new_SyncPointOrderData] by (simp add: g(2) states_ok_def)
  moreover have "fenced (fences_of m') m'" if gr: "\<not> spm_graph_validation_enabled m"
  proof -
    have "cs_order_data (spm_client_states m ! i) \<noteq> Some s" if "i < length (spm_client_states m)" for i
      using inv(2) new that unfolding states_ok_def by (metis nth_mem)
    then show ?thesis using inv(3) [OF gr] by (auto simp: g(2) fenced_def alive_def fences_of_def)
  qed
  ultimately show ?thesis by (simp add: sp_inv_def g(2) waiting_def)
qed

lemma CreateSyncPointClientState_ok:
  assumes "CreateSyncPointClientState ns cb s m = Inr (i, m')" "sp_inv lo ls m"
  shows "sp_inv lo ls m' \<and> waiting m' = waiting m \<and> spm_next_callback_id m' = spm_next_callback_id m"
proof -
  let ?cs = "new_SyncPointClientState (GetSyncPointOrderData s m) ns cb :: 'a client_state"
  have e: "m' = m\<lparr>spm_client_states := spm_client_states m @ [?cs],
      spm_client_state_maps := (spm_client_state_maps m)((ns, cb) \<mapsto> length (spm_client_states m))\<rparr>"
    using assms(1) by (auto simp: CreateSyncPointClientState_def res_simps Let_def split: if_splits)
  have inv: "orders_ok lo ls m" "states_ok m" "\<not> spm_graph_validation_enabled m \<Longrightarrow> fenced (fences_of m) m" using assms(2) by (simp_all add: sp_inv_def)
  have q: "cs_release_callback_queue ?cs = []" "cs_ok n ?cs" "\<not> cs_destroyed ?cs" "cs_namespace_id ?cs = ns" "cs_command_buffer_id ?cs = cb"
    "cs_order_data ?cs = GetSyncPointOrderData s m" for n
    by (simp_all add: new_SyncPointClientState_def cs_ok_def)
  have "orders_ok lo ls m'" using inv(1) unfolding orders_ok_def by (auto simp: e less_SucI)
  moreover have "spm_order_data m t \<noteq> None" if "GetSyncPointOrderData s m = Some t" for t
    using inv(1) that unfolding orders_ok_def by (auto simp: GetSyncPointOrderData_def split: if_splits)
  then have "states_ok m'" using inv(2) q unfolding states_ok_def by (auto simp: e nth_append less_SucI split: if_splits)
  moreover have "fenced (fences_of m') m'" if "\<not> spm_graph_validation_enabled m"
    using inv(3) [OF that] q(1) by (auto simp: fenced_def e nth_append alive_def fences_of_def less_Suc_eq)
  ultimately show ?thesis using q(1) by (simp add: sp_inv_def e waiting_def)
qed
lemma states_ok_map:
  assumes "states_ok m" "spm_client_state_maps m k = Some i"
  shows "i < length (spm_client_states m)" "\<not> cs_destroyed (spm_client_states m ! i)"
    "k = (cs_namespace_id (spm_client_states m ! i), cs_command_buffer_id (spm_client_states m ! i))"
  using assms unfolding states_ok_def by blast+

lemma DestroySyncPointClientState_ok:
  assumes "DestroySyncPointClientState i m = Inr (run, m')" "sp_inv lo ls m"
  shows "sp_inv lo ls m' \<and> waiting m = mset run + waiting m' \<and> spm_next_callback_id m' = spm_next_callback_id m"
proof -
  define cs where "cs = spm_client_states m ! i"
  define cs1 where "cs1 = cs\<lparr>cs_destroyed := True, cs_release_callback_queue := [], cs_fence_sync_release := 2 ^ 64 - 1\<rparr>"
  have i: "i < length (spm_client_states m)" using assms(1) by (simp add: DestroySyncPointClientState_def with_state_def split: if_splits)
  have e: "run = map rc_callback_closure (cs_release_callback_queue cs)"
    "m' = (put_state i cs1 m)\<lparr>spm_client_state_maps := (spm_client_state_maps m)((cs_namespace_id cs, cs_command_buffer_id cs) := None)\<rparr>"
    using assms(1) i by (auto simp: DestroySyncPointClientState_def with_state_def DestroyAndReturnCallbacks_def res_simps cs_def cs1_def)
  have inv: "orders_ok lo ls m" "states_ok m" "\<not> spm_graph_validation_enabled m \<Longrightarrow> fenced (fences_of m) m" using assms(2) by (simp_all add: sp_inv_def)
  have c1: "cs_ok n cs1" "cs_release_callback_queue cs1 = []" "cs_order_data cs1 = cs_order_data cs" for n by (simp_all add: cs_ok_def cs1_def)
  have "orders_ok lo ls m'" using inv(1) by (simp add: e(2) orders_ok_def)
  moreover have "states_ok m'"
  proof -
    have "cs \<in> set (spm_client_states m)" using i by (simp add: cs_def)
    then have "\<forall>s. cs_order_data cs1 = Some s \<longrightarrow> spm_order_data m s \<noteq> None" using inv(2) c1(3) unfolding states_ok_def by simp
    then have "\<forall>c \<in> set ((spm_client_states m)[i := cs1]). cs_ok (spm_next_callback_id m) c \<and> (\<forall>s. cs_order_data c = Some s \<longrightarrow> spm_order_data m s \<noteq> None)"
      using inv(2) c1(1) set_update_subset_insert [of "spm_client_states m" i cs1] unfolding states_ok_def by blast
    moreover have "j < length (spm_client_states m) \<and> k = (cs_namespace_id ((spm_client_states m)[i := cs1] ! j), cs_command_buffer_id ((spm_client_states m)[i := cs1] ! j)) \<and>
        \<not> cs_destroyed ((spm_client_states m)[i := cs1] ! j)"
      if k: "spm_client_state_maps m k = Some j" "k \<noteq> (cs_namespace_id cs, cs_command_buffer_id cs)" for k j
    proof -
      have "j \<noteq> i" using states_ok_map(3) [OF inv(2) k(1)] k(2) by (auto simp: cs_def)
      with states_ok_map [OF inv(2) k(1)] show ?thesis by simp
    qed
    ultimately show ?thesis unfolding states_ok_def by (simp add: e(2) del: split_paired_All)
  qed
  moreover have "fenced (fences_of m') m'" if "\<not> spm_graph_validation_enabled m"
    using inv(3) [OF that] c1(2) i by (fastforce simp: fenced_def e(2) nth_list_update alive_def fences_of_def split: if_splits)
  moreover have "closures (spm_client_states m ! i) = mset run + closures cs1" by (simp add: closures_def e(1) c1(2) cs_def)
  from waiting_takes [OF i this] have "waiting m = mset run + waiting m'" by (simp add: e(2) waiting_def)
  ultimately show ?thesis by (simp add: sp_inv_def e(2))
qed

text \<open>A release of a token on the command buffer that it names.\<close>

lemma Manager_EnsureFenceSyncReleased_cases:
  assumes "SyncPointManager_EnsureFenceSyncReleased release cause m = Inr (run, m')" "states_ok m"
  obtains (none) "run = []" "m' = m" "tk_namespace_id release < 0 \<or> spm_client_state_maps m (SyncToken_GetClientId release) = None"
  | (state) i cs where "spm_client_state_maps m (SyncToken_GetClientId release) = Some i" "i < length (spm_client_states m)"
      "tk_namespace_id release \<ge> 0" "tk_namespace_id release < NUM_COMMAND_BUFFER_NAMESPACES"
      "EnsureFenceSyncReleased (spm_suppress_fatal_log_for_testing m) (tk_release_count release) cause (spm_client_states m ! i) = Inr (run, cs)"
      "m' = put_state i cs m"
  using assms unfolding SyncPointManager_EnsureFenceSyncReleased_def GetSyncPointClientState_def with_state_def SyncToken_GetClientId_def
  by (auto simp: res_simps split: if_splits option.splits)

lemma Manager_EnsureFenceSyncReleased_ok:
  assumes "SyncPointManager_EnsureFenceSyncReleased release cause m = Inr (run, m')" "sp_inv lo ls m"
  shows "sp_inv lo ls m' \<and> waiting m = mset run + waiting m' \<and> spm_next_callback_id m' = spm_next_callback_id m"
proof -
  have st: "states_ok m" using assms(2) by (simp add: sp_inv_def)
  from assms(1) st show ?thesis
  proof (cases rule: Manager_EnsureFenceSyncReleased_cases)
    case (state i cs)
    note r = EnsureFenceSyncReleased_ok [OF state(5) states_ok_nth [OF st state(2)]]
    have "sp_inv lo ls m'" unfolding state(6) by (rule sp_inv_put_state [OF assms(2) state(2) r(1,2)]) (simp add: r(6))
    moreover have "waiting m = mset run + waiting m'" unfolding state(6) by (rule waiting_takes [OF state(2) r(3)])
    ultimately show ?thesis by (simp add: state(6))
  qed (use assms(2) in simp)
qed

lemma Manager_Wait_ok:
  assumes "SyncPointManager_Wait ids t q w callback m = Inr (ok, m')" "sp_inv lo ls m"
    and "0 < spm_next_callback_id m" "spm_next_callback_id m + 1 < 2 ^ 64"
  shows "sp_inv lo ls m' \<and> waiting m' = (if ok then add_mset callback (waiting m) else waiting m) \<and> 0 < spm_next_callback_id m'"
proof -
  consider "ok = False" "m' = m"
    | i where "spm_client_state_maps m (SyncToken_GetClientId t) = Some i" "WaitForRelease i (tk_release_count t) w callback m = Inr (ok, m')"
    using assms(1) unfolding SyncPointManager_Wait_def GetSyncPointClientState_def SyncToken_GetClientId_def
    by (auto simp: res_simps split: if_splits option.splits)
  then show ?thesis
  proof cases
    case (2 i)
    have "states_ok m" using assms(2) by (simp add: sp_inv_def)
    from states_ok_map(2) [OF this 2(1)] have "\<not> cs_destroyed (spm_client_states m ! i)" .
    from WaitForRelease_ok [OF 2(2) assms(2) this assms(3,4)] show ?thesis .
  qed (use assms in simp)
qed

section \<open>Histories\<close>

text \<open>
  The states of a manager, with the closures whose wait it accepted and the closures it ran. The last
  condition of a wait is that the counter of callback ids, of 64 bits, does not wrap.
\<close>

inductive sync_history :: "'g base_ids \<Rightarrow> ('c, 'g) sync_points \<Rightarrow> 'c multiset \<Rightarrow> 'c multiset \<Rightarrow> bool"
  for ids :: "'g base_ids" where
  sh_new: "sync_history ids (new_SyncPointManager ids g graph) {#} {#}"
| sh_order: "sync_history ids m A R \<Longrightarrow> CreateSyncPointOrderData ids m = Inr (s, m') \<Longrightarrow> sync_history ids m' A R"
| sh_destroy_order: "sync_history ids m A R \<Longrightarrow> SyncPointOrderData_Destroy s m = Inr m' \<Longrightarrow> sync_history ids m' A R"
| sh_state: "sync_history ids m A R \<Longrightarrow> CreateSyncPointClientState ns cb s m = Inr (i, m') \<Longrightarrow> sync_history ids m' A R"
| sh_destroy_state: "sync_history ids m A R \<Longrightarrow> DestroySyncPointClientState i m = Inr (run, m') \<Longrightarrow> sync_history ids m' A (R + mset run)"
| sh_number: "sync_history ids m A R \<Longrightarrow> GenerateUnprocessedOrderNumber ids s m = Inr (n, m') \<Longrightarrow> sync_history ids m' A R"
| sh_begin: "sync_history ids m A R \<Longrightarrow> BeginProcessingOrderNumber n s m = Inr m' \<Longrightarrow> sync_history ids m' A R"
| sh_pause: "sync_history ids m A R \<Longrightarrow> PauseProcessingOrderNumber n s m = Inr m' \<Longrightarrow> sync_history ids m' A R"
| sh_finish: "sync_history ids m A R \<Longrightarrow> FinishProcessingOrderNumber n s m = Inr (run, m') \<Longrightarrow> sync_history ids m' A (R + mset run)"
| sh_release: "sync_history ids m A R \<Longrightarrow> SyncPointManager_EnsureFenceSyncReleased t cause m = Inr (run, m') \<Longrightarrow>
    sync_history ids m' A (R + mset run)"
| sh_wait: "sync_history ids m A R \<Longrightarrow> SyncPointManager_Wait ids t q w c m = Inr (ok, m') \<Longrightarrow> spm_next_callback_id m + 1 < 2 ^ 64 \<Longrightarrow>
    sync_history ids m' (if ok then add_mset c A else A) R"

theorem sync_history_inv:
  assumes "sync_history ids m A R" "base_ids_ok ids lo ls"
  shows "sp_inv lo ls m \<and> 0 < spm_next_callback_id m \<and> A = R + waiting m"
  using assms(1)
proof induction
  case (sh_new g graph)
  show ?case by (simp add: new_SyncPointManager_ok)
next
  case (sh_order m A R s m')
  show ?case using CreateSyncPointOrderData_ok [OF sh_order.hyps(2) conjunct1 [OF sh_order.IH] assms(2)] sh_order.IH by simp
next
  case (sh_destroy_order m A R s m')
  show ?case using SyncPointOrderData_Destroy_ok [OF sh_destroy_order.hyps(2) conjunct1 [OF sh_destroy_order.IH]] sh_destroy_order.IH by simp
next
  case (sh_state m A R ns cb s i m')
  show ?case using CreateSyncPointClientState_ok [OF sh_state.hyps(2) conjunct1 [OF sh_state.IH]] sh_state.IH by simp
next
  case (sh_destroy_state m A R i run m')
  show ?case using DestroySyncPointClientState_ok [OF sh_destroy_state.hyps(2) conjunct1 [OF sh_destroy_state.IH]] sh_destroy_state.IH by (simp add: add.assoc)
next
  case (sh_number m A R s n m')
  show ?case using GenerateUnprocessedOrderNumber_ok [OF sh_number.hyps(2) conjunct1 [OF sh_number.IH] assms(2)] sh_number.IH by simp
next
  case (sh_begin m A R n s m')
  show ?case using BeginProcessingOrderNumber_ok [OF sh_begin.hyps(2) conjunct1 [OF sh_begin.IH]] sh_begin.IH by simp
next
  case (sh_pause m A R n s m')
  show ?case using PauseProcessingOrderNumber_ok [OF sh_pause.hyps(2) conjunct1 [OF sh_pause.IH]] sh_pause.IH by simp
next
  case (sh_finish m A R n s run m')
  show ?case using FinishProcessing_ok [OF sh_finish.hyps(2) conjunct1 [OF sh_finish.IH]] sh_finish.IH by (simp add: add.assoc)
next
  case (sh_release m A R t cause run m')
  show ?case using Manager_EnsureFenceSyncReleased_ok [OF sh_release.hyps(2) conjunct1 [OF sh_release.IH]] sh_release.IH by (simp add: add.assoc)
next
  case (sh_wait m A R t q w c ok m')
  show ?case using Manager_Wait_ok [OF sh_wait.hyps(2) conjunct1 [OF sh_wait.IH] _ sh_wait.hyps(3)] sh_wait.IH by simp
qed
section \<open>Waits end\<close>

text \<open>Nobody waits for a sequence that has processed all its order numbers.\<close>

lemma nobody_waits:
  assumes "sp_inv lo ls m" "\<not> spm_graph_validation_enabled m" "i < length (spm_client_states m)" "cs_order_data (spm_client_states m ! i) = Some s"
    "spm_order_data m s = Some od" "\<not> od_destroyed od" "od_unprocessed_order_nums od = []"
  shows "cs_release_callback_queue (spm_client_states m ! i) = []"
proof (rule ccontr)
  assume "cs_release_callback_queue (spm_client_states m ! i) \<noteq> []"
  then obtain c where "c \<in> set (cs_release_callback_queue (spm_client_states m ! i))" by (cases "cs_release_callback_queue (spm_client_states m ! i)") auto
  moreover have "fenced (fences_of m) m" "orders_ok lo ls m" using assms(1,2) by (simp_all add: sp_inv_def)
  moreover have "alive m s" using assms(5,6) by (simp add: alive_def)
  ultimately obtain f where "f \<in> fences_of m s" using assms(3,4) unfolding fenced_def by blast
  then have "f \<in> set (od_order_fence_queue od)" using assms(5) by (simp add: fences_of_def)
  then show False using orders_ok_get(1) [OF \<open>orders_ok lo ls m\<close> assms(5)] assms(7) by (auto simp: od_ok_def)
qed

lemma EnsureWaitReleased_returns:
  assumes "i < length (spm_client_states m)" "\<not> spm_graph_validation_enabled m"
  shows "\<exists>run m'. EnsureWaitReleased release n i m = Inr (run, m')"
  using assms by (cases "release \<le> cs_fence_sync_release (spm_client_states m ! i)") (simp_all add: EnsureWaitReleased_def with_state_def Let_def)

lemma EnsureWaitReleased_same:
  assumes "EnsureWaitReleased release n i m = Inr (run, m')"
  shows "same_orders m m'"
  using assms by (auto simp: EnsureWaitReleased_def with_state_def Let_def res_simps same_orders_def split: if_splits)

lemma ensure_releases_same: "ensure_releases fs m = Inr (run, m') \<Longrightarrow> same_orders m m'"
proof (induction fs arbitrary: m run)
  case (Cons f fs)
  then show ?case using EnsureWaitReleased_same by (fastforce simp: res_simps same_orders_def)
qed (simp add: same_orders_def)

lemma ensure_releases_returns:
  assumes "\<forall>f \<in> set fs. of_client_state f < length (spm_client_states m)" "\<not> spm_graph_validation_enabled m"
  shows "\<exists>run m'. ensure_releases fs m = Inr (run, m')"
  using assms
proof (induction fs arbitrary: m)
  case (Cons f fs)
  then obtain run1 m1 where e: "EnsureWaitReleased (of_fence_release f) (of_callback_id f) (of_client_state f) m = Inr (run1, m1)"
    using EnsureWaitReleased_returns by fastforce
  with EnsureWaitReleased_same [OF e] Cons.prems Cons.IH [of m1] show ?case by (auto simp: same_orders_def)
qed simp

lemma FinishProcessing_returns:
  assumes "sp_inv lo ls m" "spm_order_data m s = Some od" "od_unprocessed_order_nums od = n # rest" "od_current_order_num od = n" "\<not> od_paused od"
  shows "\<exists>run m'. FinishProcessingOrderNumber n s m = Inr (run, m')"
proof -
  have o: "orders_ok lo ls m" using assms(1) by (simp add: sp_inv_def)
  have p: "od_processed_order_num od < n" using orders_ok_get(1) [OF o assms(2)] assms(3) by (simp add: od_ok_def)
  define nxt where "nxt = (case rest of [] \<Rightarrow> 0 | k # _ \<Rightarrow> k)"
  have "\<exists>run m'. ensure_releases (takeWhile (fence_due nxt) (od_order_fence_queue od)) (put_order s od' m) = Inr (run, m')"
    if "\<not> spm_graph_validation_enabled m" for od'
    by (rule ensure_releases_returns) (use orders_ok_get(2) [OF o assms(2)] that in \<open>auto dest: set_takeWhileD\<close>)
  with p assms(2-5) show ?thesis
    by (auto simp: FinishProcessingOrderNumber_def with_order_def Let_def nxt_def)
qed

lemma FinishProcessing_order:
  assumes "FinishProcessingOrderNumber n s m = Inr (run, m')" "spm_order_data m s = Some od"
  shows "\<exists>od'. spm_order_data m' s = Some od' \<and> od_destroyed od' = od_destroyed od \<and> od_unprocessed_order_nums od' = tl (od_unprocessed_order_nums od) \<and>
    od_processed_order_num od' = n"
    "spm_graph_validation_enabled m' = spm_graph_validation_enabled m"
    "length (spm_client_states m') = length (spm_client_states m)"
proof -
  obtain rest where u: "od_unprocessed_order_nums od = n # rest"
    using assms by (auto simp: FinishProcessingOrderNumber_def with_order_def res_simps Let_def split: list.splits)
  let ?od = "od\<lparr>od_processed_order_num := n, od_unprocessed_order_nums := rest\<rparr>"
  consider "m' = put_order s ?od m"
    | q fs where "ensure_releases fs (put_order s (?od\<lparr>od_order_fence_queue := q\<rparr>) m) = Inr (run, m')"
    using assms u by (auto simp: FinishProcessingOrderNumber_def with_order_def res_simps Let_def split: if_splits)
  then have "same_orders (put_order s ?od m) m' \<or> (\<exists>q. same_orders (put_order s (?od\<lparr>od_order_fence_queue := q\<rparr>) m) m')"
  proof cases
    case 1
    then show ?thesis by (simp add: same_orders_def)
  next
    case (2 q fs)
    from ensure_releases_same [OF this] show ?thesis by blast
  qed
  then show "\<exists>od'. spm_order_data m' s = Some od' \<and> od_destroyed od' = od_destroyed od \<and> od_unprocessed_order_nums od' = tl (od_unprocessed_order_nums od) \<and>
    od_processed_order_num od' = n"
    "spm_graph_validation_enabled m' = spm_graph_validation_enabled m"
    "length (spm_client_states m') = length (spm_client_states m)"
    using u by (auto simp: same_orders_def)
qed

text \<open>
  With one order number not processed, the fence of a wait has that number: \<open>front < n\<close> of the comment on \<^verbatim>\<open>order_fence_queue_\<close> does
  not hold, as the comment in \<^verbatim>\<open>FinishProcessingOrderNumber\<close> has it.
\<close>

lemma fence_at_front:
  assumes "ValidateReleaseOrderNumber s i w release m = Inr (n, m')" "n \<noteq> 0" "\<not> spm_graph_validation_enabled m"
    "spm_order_data m s = Some od" "od_unprocessed_order_nums od = [front]"
  shows "\<exists>od' f. spm_order_data m' s = Some od' \<and> f \<in> set (od_order_fence_queue od') \<and> of_order_num f = hd (od_unprocessed_order_nums od')"
proof -
  let ?f = "\<lparr>of_order_num = front, of_fence_release = release, of_client_state = i, of_callback_id = n\<rparr>"
  have "spm_order_data m' s = Some (od\<lparr>od_order_fence_queue := insort_key fence_key ?f (od_order_fence_queue od)\<rparr>)"
    using assms by (auto simp: ValidateReleaseOrderNumber_def with_order_def GenerateCallbackId_def Let_def split: if_splits)
  then show ?thesis using assms(5) by (intro exI [of _ "od\<lparr>od_order_fence_queue := insort_key fence_key ?f (od_order_fence_queue od)\<rparr>"] exI [of _ ?f]) (simp add: set_insort_key)
qed

end
