(* ===== verification/Task_Graph.thy ===== *)
theory Task_Graph
  imports Sync_Point "HOL-Library.AList"
begin

text \<open>
  \<^verbatim>\<open>gpu/command_buffer/service/task_graph.{h,cc}\<close>: sequences of tasks, the fences that tasks wait for, and the validation that finds waits that
  would never end.

  The closure that waits in a sync point is \<^verbatim>\<open>TaskGraph::SyncTokenFenceReleased\<close> with its bound arguments, the record
  \<open>fence_closure\<close>. A task's own closure and its reporting callback are values of arbitrary types. The time is
  an argument of the operations that ask for it, in microseconds. A validation timer is the number of times it was asked to
  reset itself. The base class's \<^verbatim>\<open>OnFrontTaskUnblocked\<close> does nothing; that it is called is part of the result.
\<close>

section \<open>Data\<close>

record fence_closure =
  fc_sync_token :: sync_token
  fc_order_num :: u32
  fc_release_sequence_id :: u32
  fc_waiting_sequence_id :: u32

record wait_fence =
  wf_sync_token :: sync_token
  wf_order_num :: u32
  wf_release_sequence_id :: u32

text \<open>
  \<^verbatim>\<open>operator<\<close> and \<^verbatim>\<open>operator==\<close> of \<^verbatim>\<open>WaitFence\<close> compare the \<^verbatim>\<open>release_sequence_id\<close> of the left operand with itself.
\<close>

definition WaitFence_less :: "wait_fence \<Rightarrow> wait_fence \<Rightarrow> bool" where
  "WaitFence_less this other \<longleftrightarrow>
     (if wf_order_num this \<noteq> wf_order_num other then wf_order_num this < wf_order_num other
      else if wf_release_sequence_id this \<noteq> wf_release_sequence_id this
      then wf_release_sequence_id this < wf_release_sequence_id this
      else SyncToken_less (wf_sync_token this) (wf_sync_token other))"

definition WaitFence_equal :: "wait_fence \<Rightarrow> wait_fence \<Rightarrow> bool" where
  "WaitFence_equal this other \<longleftrightarrow> wf_order_num this = wf_order_num other \<and>
     wf_release_sequence_id this = wf_release_sequence_id this \<and> wf_sync_token this = wf_sync_token other"

text \<open>\<^verbatim>\<open>base::flat_set<WaitFence>\<close>: a list in increasing order, without two elements that compare equal.\<close>

definition same_fence :: "wait_fence \<Rightarrow> wait_fence \<Rightarrow> bool" where
  "same_fence a b \<longleftrightarrow> \<not> WaitFence_less a b \<and> \<not> WaitFence_less b a"

definition fences_find :: "wait_fence \<Rightarrow> wait_fence list \<Rightarrow> wait_fence option" where
  "fences_find f fs = find (same_fence f) fs"

fun fences_emplace :: "wait_fence \<Rightarrow> wait_fence list \<Rightarrow> wait_fence list" where
  "fences_emplace f [] = [f]"
| "fences_emplace f (g # gs) =
     (if WaitFence_less g f then g # fences_emplace f gs else if WaitFence_less f g then f # g # gs else g # gs)"

definition fences_erase :: "wait_fence \<Rightarrow> wait_fence list \<Rightarrow> wait_fence list" where
  "fences_erase f fs = remove1 f fs"

record ('k, 'r) task =
  tsk_task_closure :: 'k
  tsk_order_num :: u32
  tsk_release :: sync_token
  tsk_report_callback :: "'r option"
  tsk_running_ready :: int
  tsk_first_dependency_added :: "int option"
  tsk_registration :: int
  tsk_validated :: bool

definition new_Task :: "int \<Rightarrow> 'k \<Rightarrow> u32 \<Rightarrow> sync_token \<Rightarrow> 'r option \<Rightarrow> ('k, 'r) task" where
  "new_Task now task_closure order_num release report_callback =
     \<lparr>tsk_task_closure = task_closure, tsk_order_num = order_num, tsk_release = release, tsk_report_callback = report_callback,
      tsk_running_ready = now, tsk_first_dependency_added = None, tsk_registration = now, tsk_validated = False\<rparr>"

record ('k, 'r) sequence =
  seq_sequence_id :: u32
  seq_sync_point_states :: "nat list"
  seq_current_task_release :: sync_token
  seq_tasks :: "('k, 'r) task list"
  seq_wait_fences :: "wait_fence list"
  seq_release_upperbound :: sync_token
  seq_validation_timer :: "nat option"

text \<open>\<^verbatim>\<open>TaskGraph\<close>, with the manager of the sync points it works on.\<close>

record ('k, 'r, 'g) task_graph =
  tg_sync_points :: "(fence_closure, 'g) sync_points"
  tg_sequence_map :: "(u32 \<times> ('k, 'r) sequence) list"

definition kMaxValidationDelay :: int where
  "kMaxValidationDelay = 6000000"

definition kMinValidationDelay :: int where
  "kMinValidationDelay = 3000000"

type_synonym 'g points = "(fence_closure, 'g) sync_points"

text \<open>\<^verbatim>\<open>ReleaseMap\<close>, a \<^verbatim>\<open>base::flat_map\<close> in the order of its keys.\<close>

type_synonym release_map = "(client_id \<times> u64) list"

definition UpdateReleaseCount :: "client_id \<Rightarrow> u64 \<Rightarrow> release_map \<Rightarrow> release_map" where
  "UpdateReleaseCount client_id release release_map =
     (case map_of release_map client_id of
        None \<Rightarrow> insort_key fst (client_id, release) release_map
      | Some r \<Rightarrow> if r < release then AList.update client_id release release_map else release_map)"

section \<open>FenceSyncReleaseDelegate\<close>

definition FenceSyncReleaseDelegate_Release :: "sync_token \<Rightarrow> 'g points \<Rightarrow> (fence_closure list \<times> 'g points) res" where
  "FenceSyncReleaseDelegate_Release release_upperbound m =
     SyncPointManager_EnsureFenceSyncReleased release_upperbound kExplicitClientRelease m"

text \<open>\<^verbatim>\<open>LOG(DFATAL)\<close> ends the program where assertions are on.\<close>

definition FenceSyncReleaseDelegate_ReleaseCount ::
  "u64 \<Rightarrow> sync_token \<Rightarrow> 'g points \<Rightarrow> (fence_closure list \<times> 'g points) res" where
  "FenceSyncReleaseDelegate_ReleaseCount release release_upperbound m =
     dcheck (\<not> release > tk_release_count release_upperbound)
       (SyncPointManager_EnsureFenceSyncReleased
          (SyncToken_of (tk_namespace_id release_upperbound) (tk_command_buffer_id release_upperbound) release)
          kExplicitClientRelease m)"

section \<open>Sequence\<close>

definition Sequence_HasTasks :: "('k, 'r) sequence \<Rightarrow> bool" where
  "Sequence_HasTasks sq \<longleftrightarrow> seq_tasks sq \<noteq> []"

definition Sequence_UpdateValidationTimer :: "('k, 'r) sequence \<Rightarrow> ('k, 'r) sequence" where
  "Sequence_UpdateValidationTimer sq =
     (if seq_validation_timer sq = None \<or> \<not> Sequence_HasTasks sq then sq
      else sq\<lparr>seq_validation_timer := map_option Suc (seq_validation_timer sq)\<rparr>)"

definition new_Sequence ::
  "'g base_ids \<Rightarrow> bool \<Rightarrow> int \<Rightarrow> u64 \<Rightarrow> 'g points \<Rightarrow> (('k, 'r) sequence \<times> 'g points) res" where
  "new_Sequence ids validation_runner namespace_id command_buffer_id m =
     res_bind (CreateSyncPointOrderData ids m) (\<lambda>(s, m1).
       let sq = \<lparr>seq_sequence_id = s, seq_sync_point_states = [], seq_current_task_release = new_SyncToken ids,
                 seq_tasks = [], seq_wait_fences = [], seq_release_upperbound = new_SyncToken ids,
                 seq_validation_timer = (if spm_graph_validation_enabled m1 \<and> validation_runner then Some 0 else None)\<rparr>
       in if namespace_id \<noteq> ns_INVALID
          then res_bind (CreateSyncPointClientState namespace_id command_buffer_id s m1) (\<lambda>(i, m2).
                 Inr (sq\<lparr>seq_sync_point_states := [i]\<rparr>, m2))
          else Inr (sq, m1))"

definition Sequence_CreateSyncPointClientState ::
  "int \<Rightarrow> u64 \<Rightarrow> ('k, 'r) sequence \<Rightarrow> 'g points \<Rightarrow> (('k, 'r) sequence \<times> 'g points) res" where
  "Sequence_CreateSyncPointClientState namespace_id command_buffer_id sq m =
     res_bind (CreateSyncPointClientState namespace_id command_buffer_id (seq_sequence_id sq) m) (\<lambda>(i, m1).
       Inr (sq\<lparr>seq_sync_point_states := seq_sync_point_states sq @ [i]\<rparr>, m1))"

definition SetLastTaskFirstDependencyTimeIfNeeded :: "int \<Rightarrow> ('k, 'r) sequence \<Rightarrow> ('k, 'r) sequence res" where
  "SetLastTaskFirstDependencyTimeIfNeeded now sq =
     dcheck (seq_tasks sq \<noteq> [])
       (Inr (if tsk_first_dependency_added (last (seq_tasks sq)) = None
             then sq\<lparr>seq_tasks := butlast (seq_tasks sq) @ [(last (seq_tasks sq))\<lparr>tsk_first_dependency_added := Some now\<rparr>]\<rparr>
             else sq))"

text \<open>The loop of \<^verbatim>\<open>AddTask\<close> over the tokens to wait for.\<close>

fun add_wait_fences ::
  "'g base_ids \<Rightarrow> int \<Rightarrow> u32 \<Rightarrow> sync_token list \<Rightarrow> ('k, 'r) sequence \<Rightarrow> 'g points \<Rightarrow> (('k, 'r) sequence \<times> 'g points) res" where
  "add_wait_fences ids now order_num [] sq m = Inr (sq, m)"
| "add_wait_fences ids now order_num (sync_token # tokens) sq m =
     res_bind (GetSyncTokenReleaseSequenceId ids sync_token m) (\<lambda>release_sequence_id.
       let fence = \<lparr>wf_sync_token = sync_token, wf_order_num = order_num, wf_release_sequence_id = release_sequence_id\<rparr>;
           release_callback = \<lparr>fc_sync_token = sync_token, fc_order_num = order_num,
             fc_release_sequence_id = release_sequence_id, fc_waiting_sequence_id = seq_sequence_id sq\<rparr>
       in if fences_find fence (seq_wait_fences sq) \<noteq> None then add_wait_fences ids now order_num tokens sq m
          else res_bind (SyncPointManager_Wait ids sync_token (seq_sequence_id sq) order_num release_callback m) (\<lambda>(waits, m1).
            if \<not> waits then add_wait_fences ids now order_num tokens sq m1
            else res_bind (SetLastTaskFirstDependencyTimeIfNeeded now
                   (sq\<lparr>seq_wait_fences := fences_emplace fence (seq_wait_fences sq)\<rparr>)) (\<lambda>sq1.
                   add_wait_fences ids now order_num tokens sq1 m1)))"

definition Sequence_AddTask ::
  "'g base_ids \<Rightarrow> int \<Rightarrow> 'k \<Rightarrow> sync_token list \<Rightarrow> sync_token \<Rightarrow> 'r option \<Rightarrow> ('k, 'r) sequence \<Rightarrow> 'g points \<Rightarrow>
     (u32 \<times> ('k, 'r) sequence \<times> 'g points) res" where
  "Sequence_AddTask ids now task_closure wait_fences release report_callback sq m =
     res_bind (GenerateUnprocessedOrderNumber ids (seq_sequence_id sq) m) (\<lambda>(order_num, m1).
       res_bind (add_wait_fences ids now order_num (ReduceSyncTokens wait_fences)
                   (sq\<lparr>seq_tasks := seq_tasks sq @ [new_Task now task_closure order_num release report_callback]\<rparr>) m1) (\<lambda>(sq1, m2).
         Inr (order_num, if length (seq_tasks sq1) = 1 then Sequence_UpdateValidationTimer sq1 else sq1, m2)))"

text \<open>\<^verbatim>\<open>BeginTask\<close> returns the order number, the closure, and the report that it makes with the time the task was ready.\<close>

definition Sequence_BeginTask :: "('k, 'r) sequence \<Rightarrow> (u32 \<times> 'k \<times> ('r \<times> int) option \<times> ('k, 'r) sequence) res" where
  "Sequence_BeginTask sq =
     (case seq_tasks sq of
        [] \<Rightarrow> Inl DCHECK_failed
      | front # rest \<Rightarrow>
          Inr (tsk_order_num front, tsk_task_closure front,
               map_option (\<lambda>r. (r, tsk_running_ready front)) (tsk_report_callback front),
               sq\<lparr>seq_current_task_release := tsk_release front, seq_release_upperbound := tsk_release front, seq_tasks := rest\<rparr>))"

definition Sequence_FinishTask :: "'g base_ids \<Rightarrow> ('k, 'r) sequence \<Rightarrow> ('k, 'r) sequence" where
  "Sequence_FinishTask ids sq =
     Sequence_UpdateValidationTimer (sq\<lparr>seq_current_task_release := SyncToken_Clear ids (seq_current_task_release sq)\<rparr>)"

definition Sequence_ContinueTask ::
  "'g base_ids \<Rightarrow> int \<Rightarrow> 'k \<Rightarrow> ('k, 'r) sequence \<Rightarrow> 'g points \<Rightarrow> (('k, 'r) sequence \<times> 'g points) res" where
  "Sequence_ContinueTask ids now task_closure sq m =
     with_order (seq_sequence_id sq) m (\<lambda>od.
       let order_num = od_current_order_num od;
           sq1 = sq\<lparr>seq_tasks := new_Task now task_closure order_num (seq_current_task_release sq) None # seq_tasks sq,
                    seq_current_task_release := SyncToken_Clear ids (seq_current_task_release sq)\<rparr>
       in res_bind (PauseProcessingOrderNumber order_num (seq_sequence_id sq) m) (\<lambda>m1. Inr (sq1, m1)))"

definition FrontTaskWaitingDependencyDelta :: "('k, 'r) sequence \<Rightarrow> int res" where
  "FrontTaskWaitingDependencyDelta sq =
     (case seq_tasks sq of
        [] \<Rightarrow> Inl DCHECK_failed
      | front # _ \<Rightarrow> Inr (case tsk_first_dependency_added front of None \<Rightarrow> 0 | Some t \<Rightarrow> tsk_running_ready front - t))"

definition FrontTaskSchedulingDelay :: "int \<Rightarrow> ('k, 'r) sequence \<Rightarrow> int res" where
  "FrontTaskSchedulingDelay now sq =
     (case seq_tasks sq of [] \<Rightarrow> Inl DCHECK_failed | front # _ \<Rightarrow> Inr (now - tsk_running_ready front))"

definition IsFrontTaskUnblocked :: "('k, 'r) sequence \<Rightarrow> bool" where
  "IsFrontTaskUnblocked sq \<longleftrightarrow>
     (case seq_tasks sq of
        [] \<Rightarrow> False
      | front # _ \<Rightarrow> (case seq_wait_fences sq of [] \<Rightarrow> True | f # _ \<Rightarrow> wf_order_num f > tsk_order_num front))"

text \<open>The loop of \<^verbatim>\<open>RemoveWaitFence\<close> over the tasks.\<close>

fun bump_ready :: "int \<Rightarrow> u32 \<Rightarrow> ('k, 'r) task list \<Rightarrow> ('k, 'r) task list" where
  "bump_ready now order_num [] = []"
| "bump_ready now order_num (t # ts) =
     (if order_num = tsk_order_num t then t\<lparr>tsk_running_ready := now\<rparr> # ts
      else if order_num < tsk_order_num t then t # ts
      else t # bump_ready now order_num ts)"

text \<open>\<^verbatim>\<open>RemoveWaitFence\<close>, and whether it calls \<^verbatim>\<open>OnFrontTaskUnblocked\<close>.\<close>

definition Sequence_RemoveWaitFence ::
  "int \<Rightarrow> sync_token \<Rightarrow> u32 \<Rightarrow> u32 \<Rightarrow> ('k, 'r) sequence \<Rightarrow> (bool \<times> ('k, 'r) sequence) res" where
  "Sequence_RemoveWaitFence now sync_token order_num release_sequence_id sq =
     (case fences_find \<lparr>wf_sync_token = sync_token, wf_order_num = order_num, wf_release_sequence_id = release_sequence_id\<rparr> (seq_wait_fences sq) of
        None \<Rightarrow> Inr (False, sq)
      | Some f \<Rightarrow>
          (let sq1 = sq\<lparr>seq_wait_fences := fences_erase f (seq_wait_fences sq), seq_tasks := bump_ready now order_num (seq_tasks sq)\<rparr>
           in case seq_tasks sq1 of
                [] \<Rightarrow> Inl DCHECK_failed
              | front # _ \<Rightarrow> Inr (order_num = tsk_order_num front \<and> IsFrontTaskUnblocked sq1, sq1)))"

text \<open>\<^verbatim>\<open>Destroy\<close>: the client states that it destroys run their closures.\<close>

fun destroy_states :: "nat list \<Rightarrow> 'g points \<Rightarrow> (fence_closure list \<times> 'g points) res" where
  "destroy_states [] m = Inr ([], m)"
| "destroy_states (i # is) m =
     res_bind (DestroySyncPointClientState i m) (\<lambda>(run, m1).
       res_bind (destroy_states is m1) (\<lambda>(run1, m2). Inr (run @ run1, m2)))"

definition Sequence_Destroy :: "('k, 'r) sequence \<Rightarrow> 'g points \<Rightarrow> (fence_closure list \<times> ('k, 'r) sequence \<times> 'g points) res" where
  "Sequence_Destroy sq m =
     res_bind (destroy_states (seq_sync_point_states sq) m) (\<lambda>(run, m1).
       res_bind (SyncPointOrderData_Destroy (seq_sequence_id sq) m1) (\<lambda>m2. Inr (run, sq\<lparr>seq_sync_point_states := []\<rparr>, m2)))"

definition is_client :: "int \<Rightarrow> u64 \<Rightarrow> 'g points \<Rightarrow> nat \<Rightarrow> bool" where
  "is_client namespace_id command_buffer_id m i \<longleftrightarrow> i < length (spm_client_states m) \<and>
     cs_namespace_id (spm_client_states m ! i) = namespace_id \<and> cs_command_buffer_id (spm_client_states m ! i) = command_buffer_id"

definition TakeSyncPointClientState ::
  "int \<Rightarrow> u64 \<Rightarrow> 'g points \<Rightarrow> ('k, 'r) sequence \<Rightarrow> nat option \<times> ('k, 'r) sequence" where
  "TakeSyncPointClientState namespace_id command_buffer_id m sq =
     (case find (is_client namespace_id command_buffer_id m) (seq_sync_point_states sq) of
        None \<Rightarrow> (None, sq)
      | Some i \<Rightarrow> (Some i, sq\<lparr>seq_sync_point_states := remove1 i (seq_sync_point_states sq)\<rparr>))"

definition GetTaskWaitFences :: "('k, 'r) task \<Rightarrow> ('k, 'r) sequence \<Rightarrow> wait_fence list" where
  "GetTaskWaitFences t sq = filter (\<lambda>f. wf_order_num f = tsk_order_num t) (seq_wait_fences sq)"

definition releases_token :: "sync_token \<Rightarrow> ('k, 'r) task \<Rightarrow> bool" where
  "releases_token sync_token t \<longleftrightarrow> SyncToken_HasData (tsk_release t) \<and>
     tk_namespace_id (tsk_release t) = tk_namespace_id sync_token \<and>
     tk_command_buffer_id (tsk_release t) = tk_command_buffer_id sync_token \<and>
     tk_release_count (tsk_release t) \<ge> tk_release_count sync_token"

definition FindReleaseTask :: "sync_token \<Rightarrow> ('k, 'r) sequence \<Rightarrow> ('k, 'r) task option" where
  "FindReleaseTask sync_token sq = find (releases_token sync_token) (seq_tasks sq)"
section \<open>TaskGraph\<close>

definition TaskGraph_GetSequence :: "u32 \<Rightarrow> ('k, 'r, 'g) task_graph \<Rightarrow> ('k, 'r) sequence option" where
  "TaskGraph_GetSequence sequence_id g = map_of (tg_sequence_map g) sequence_id"

definition put_sequence :: "u32 \<Rightarrow> ('k, 'r) sequence \<Rightarrow> ('k, 'r, 'g) task_graph \<Rightarrow> ('k, 'r, 'g) task_graph" where
  "put_sequence s sq g = g\<lparr>tg_sequence_map := AList.update s sq (tg_sequence_map g)\<rparr>"

definition new_TaskGraph :: "'g points \<Rightarrow> ('k, 'r, 'g) task_graph" where
  "new_TaskGraph m = \<lparr>tg_sync_points = m, tg_sequence_map = []\<rparr>"

definition delete_TaskGraph :: "('k, 'r, 'g) task_graph \<Rightarrow> 'g points res" where
  "delete_TaskGraph g = dcheck (tg_sequence_map g = []) (Inr (tg_sync_points g))"

text \<open>\<^verbatim>\<open>emplace\<close> keeps what is there.\<close>

definition TaskGraph_AddSequence :: "('k, 'r) sequence \<Rightarrow> ('k, 'r, 'g) task_graph \<Rightarrow> ('k, 'r, 'g) task_graph" where
  "TaskGraph_AddSequence sq g =
     (if map_of (tg_sequence_map g) (seq_sequence_id sq) = None then put_sequence (seq_sequence_id sq) sq g else g)"

text \<open>\<^verbatim>\<open>SyncTokenFenceReleased\<close>, and the closures that an operation on sync points runs. The result has the sequences that were unblocked.\<close>

definition SyncTokenFenceReleased :: "int \<Rightarrow> fence_closure \<Rightarrow> ('k, 'r, 'g) task_graph \<Rightarrow> (bool \<times> ('k, 'r, 'g) task_graph) res" where
  "SyncTokenFenceReleased now c g =
     (case TaskGraph_GetSequence (fc_waiting_sequence_id c) g of
        None \<Rightarrow> Inr (False, g)
      | Some sq \<Rightarrow> res_bind (Sequence_RemoveWaitFence now (fc_sync_token c) (fc_order_num c) (fc_release_sequence_id c) sq)
          (\<lambda>(unblocked, sq1). Inr (unblocked, put_sequence (fc_waiting_sequence_id c) sq1 g)))"

fun run_closures :: "int \<Rightarrow> fence_closure list \<Rightarrow> ('k, 'r, 'g) task_graph \<Rightarrow> (u32 list \<times> ('k, 'r, 'g) task_graph) res" where
  "run_closures now [] g = Inr ([], g)"
| "run_closures now (c # cs) g =
     res_bind (SyncTokenFenceReleased now c g) (\<lambda>(unblocked, g1).
       res_bind (run_closures now cs g1) (\<lambda>(us, g2).
         Inr (if unblocked then fc_waiting_sequence_id c # us else us, g2)))"

definition with_points ::
  "int \<Rightarrow> ('g points \<Rightarrow> (fence_closure list \<times> 'g points) res) \<Rightarrow> ('k, 'r, 'g) task_graph \<Rightarrow> (u32 list \<times> ('k, 'r, 'g) task_graph) res" where
  "with_points now f g =
     res_bind (f (tg_sync_points g)) (\<lambda>(run, m). run_closures now run (g\<lparr>tg_sync_points := m\<rparr>))"

definition TaskGraph_CreateSyncPointClientState ::
  "u32 \<Rightarrow> int \<Rightarrow> u64 \<Rightarrow> ('k, 'r, 'g) task_graph \<Rightarrow> ('k, 'r, 'g) task_graph res" where
  "TaskGraph_CreateSyncPointClientState sequence_id namespace_id command_buffer_id g =
     (case TaskGraph_GetSequence sequence_id g of
        None \<Rightarrow> Inl CHECK_failed
      | Some sq \<Rightarrow> res_bind (Sequence_CreateSyncPointClientState namespace_id command_buffer_id sq (tg_sync_points g))
          (\<lambda>(sq1, m). Inr (put_sequence sequence_id sq1 (g\<lparr>tg_sync_points := m\<rparr>))))"

text \<open>
  \<^verbatim>\<open>DestroySequence\<close>: the sequence leaves the map, gives its client states back, and its tasks are destroyed, none
  of which may have a report to make. \<^verbatim>\<open>at\<close> throws for a sequence that is not there.
\<close>

definition TaskGraph_DestroySequence :: "int \<Rightarrow> u32 \<Rightarrow> ('k, 'r, 'g) task_graph \<Rightarrow> (u32 list \<times> ('k, 'r, 'g) task_graph) res" where
  "TaskGraph_DestroySequence now sequence_id g =
     (case TaskGraph_GetSequence sequence_id g of
        None \<Rightarrow> Inl CHECK_failed
      | Some sq \<Rightarrow>
          res_bind (Sequence_Destroy sq (tg_sync_points g)) (\<lambda>(run, sq1, m).
            res_bind (run_closures now run (g\<lparr>tg_sync_points := m, tg_sequence_map := AList.delete sequence_id (tg_sequence_map g)\<rparr>))
              (\<lambda>(us, g1). if list_all (\<lambda>t. tsk_report_callback t = None) (seq_tasks sq1) then Inr (us, g1) else Inl CHECK_failed)))"

definition TaskGraph_DestroySyncPointClientState ::
  "int \<Rightarrow> u32 \<Rightarrow> int \<Rightarrow> u64 \<Rightarrow> ('k, 'r, 'g) task_graph \<Rightarrow> (u32 list \<times> ('k, 'r, 'g) task_graph) res" where
  "TaskGraph_DestroySyncPointClientState now sequence_id namespace_id command_buffer_id g =
     (case TaskGraph_GetSequence sequence_id g of
        None \<Rightarrow> Inr ([], g)
      | Some sq \<Rightarrow>
          (case TakeSyncPointClientState namespace_id command_buffer_id (tg_sync_points g) sq of
             (None, sq1) \<Rightarrow> Inr ([], g)
           | (Some i, sq1) \<Rightarrow> with_points now (DestroySyncPointClientState i) (put_sequence sequence_id sq1 g)))"

text \<open>\<^verbatim>\<open>ScopedSyncPointClientState\<close>: whether it has a graph, and what it names.\<close>

record scoped_client_state =
  sc_task_graph :: bool
  sc_sequence_id :: u32
  sc_namespace_id :: int
  sc_command_buffer_id :: u64

definition ScopedSyncPointClientState_move :: "scoped_client_state \<Rightarrow> scoped_client_state \<times> scoped_client_state" where
  "ScopedSyncPointClientState_move other = (other, other\<lparr>sc_task_graph := False\<rparr>)"

definition ScopedSyncPointClientState_Reset ::
  "int \<Rightarrow> scoped_client_state \<Rightarrow> ('k, 'r, 'g) task_graph \<Rightarrow> (scoped_client_state \<times> u32 list \<times> ('k, 'r, 'g) task_graph) res" where
  "ScopedSyncPointClientState_Reset now p g =
     (if \<not> sc_task_graph p then Inr (p, [], g)
      else res_bind (TaskGraph_DestroySyncPointClientState now (sc_sequence_id p) (sc_namespace_id p) (sc_command_buffer_id p) g)
             (\<lambda>(us, g1). Inr (p\<lparr>sc_task_graph := False\<rparr>, us, g1)))"

section \<open>Validation\<close>

text \<open>
  What \<^verbatim>\<open>ValidateTaskFenceDeps\<close> works on: the sequences, whose tasks it marks as validated; \<^verbatim>\<open>pending_releases\<close> and
  \<^verbatim>\<open>force_releases\<close>; and \<^verbatim>\<open>validate_states\<close>, with an iterator into the tasks as an index.
\<close>

record ('k, 'r) validation =
  vd_sequences :: "(u32 \<times> ('k, 'r) sequence) list"
  vd_pending_releases :: release_map
  vd_force_releases :: release_map
  vd_states :: "u32 \<Rightarrow> (nat \<times> bool) option"

fun first_to_validate :: "nat \<Rightarrow> ('k, 'r) task list \<Rightarrow> release_map \<Rightarrow> nat \<times> release_map" where
  "first_to_validate i [] releases = (i, releases)"
| "first_to_validate i (t # ts) releases =
     (if \<not> tsk_validated t then (i, releases)
      else first_to_validate (i + 1) ts
             (if SyncToken_HasData (tsk_release t)
              then UpdateReleaseCount (SyncToken_GetClientId (tsk_release t)) (tk_release_count (tsk_release t)) releases
              else releases))"

definition GetSequenceValidateState :: "u32 \<Rightarrow> ('k, 'r) sequence \<Rightarrow> ('k, 'r) validation \<Rightarrow> (nat \<times> bool) \<times> ('k, 'r) validation" where
  "GetSequenceValidateState s sq v =
     (case vd_states v s of
        Some st \<Rightarrow> (st, v)
      | None \<Rightarrow>
          (let current = seq_current_task_release sq;
               pending = (if SyncToken_HasData current
                          then UpdateReleaseCount (SyncToken_GetClientId current) (tk_release_count current) (vd_pending_releases v)
                          else vd_pending_releases v)
           in case first_to_validate 0 (seq_tasks sq) pending of (i, pending1) \<Rightarrow>
                ((i, False), v\<lparr>vd_pending_releases := pending1, vd_states := (vd_states v)(s \<mapsto> (i, False))\<rparr>)))"

text \<open>A fence is released by force.\<close>

definition force_release :: "client_id \<Rightarrow> u64 \<Rightarrow> ('k, 'r) validation \<Rightarrow> ('k, 'r) validation" where
  "force_release client_id release v =
     v\<lparr>vd_pending_releases := UpdateReleaseCount client_id release (vd_pending_releases v),
       vd_force_releases := UpdateReleaseCount client_id release (vd_force_releases v)\<rparr>"

text \<open>
  The loop over the tasks of the release sequence up to the one that releases; \<open>validate\<close> is the recursive call and
  \<open>todo\<close> has the tasks from \<^verbatim>\<open>next_to_validate\<close> on.
\<close>

fun validate_deps ::
  "(u32 \<Rightarrow> nat \<Rightarrow> ('k, 'r) validation \<Rightarrow> ('k, 'r) validation res) \<Rightarrow> u32 \<Rightarrow> u32 \<Rightarrow> nat \<Rightarrow> ('k, 'r) task list \<Rightarrow>
     ('k, 'r) validation \<Rightarrow> ('k, 'r) validation res" where
  "validate_deps validate release_order s i [] v = Inr v"
| "validate_deps validate release_order s i (t # todo) v =
     (if tsk_order_num t > release_order then Inr v
      else res_bind (validate s i v) (validate_deps validate release_order s (i + 1) todo))"

text \<open>The body of the loop over the fences.\<close>

definition validate_fence ::
  "(u32 \<Rightarrow> nat \<Rightarrow> ('k, 'r) validation \<Rightarrow> ('k, 'r) validation res) \<Rightarrow> wait_fence \<Rightarrow> ('k, 'r) validation \<Rightarrow> ('k, 'r) validation res" where
  "validate_fence validate fence v =
     (let client_id = SyncToken_GetClientId (wf_sync_token fence);
          count = tk_release_count (wf_sync_token fence);
          s = wf_release_sequence_id fence
      in case map_of (vd_sequences v) s of
           None \<Rightarrow>
             (case map_of (vd_pending_releases v) client_id of
                Some r \<Rightarrow> if r \<ge> count then Inr v else Inr (force_release client_id count v)
              | None \<Rightarrow> Inr (force_release client_id count v))
         | Some sq \<Rightarrow>
             (case GetSequenceValidateState s sq v of ((next_to_validate, validating), v1) \<Rightarrow>
                if (case map_of (vd_pending_releases v1) client_id of None \<Rightarrow> False | Some r \<Rightarrow> r \<ge> count) then Inr v1
                else (case FindReleaseTask (wf_sync_token fence) sq of
                        None \<Rightarrow> Inr (force_release client_id count v1)
                      | Some release_task \<Rightarrow>
                          if validating then Inr (force_release client_id count v1)
                          else validate_deps validate (tsk_order_num release_task) s next_to_validate
                                 (drop next_to_validate (seq_tasks sq)) v1)))"

fun validate_fences ::
  "(u32 \<Rightarrow> nat \<Rightarrow> ('k, 'r) validation \<Rightarrow> ('k, 'r) validation res) \<Rightarrow> wait_fence list \<Rightarrow> ('k, 'r) validation \<Rightarrow> ('k, 'r) validation res" where
  "validate_fences validate [] v = Inr v"
| "validate_fences validate (f # fs) v = res_bind (validate_fence validate f v) (validate_fences validate fs)"

text \<open>The task \<open>i\<close> of the sequence \<open>s\<close> is validated.\<close>

definition mark_validated :: "u32 \<Rightarrow> nat \<Rightarrow> ('k, 'r) validation \<Rightarrow> ('k, 'r) validation" where
  "mark_validated s i v =
     (case map_of (vd_sequences v) s of
        None \<Rightarrow> v
      | Some sq \<Rightarrow> v\<lparr>vd_sequences := AList.update s (sq\<lparr>seq_tasks := (seq_tasks sq)[i := (seq_tasks sq ! i)\<lparr>tsk_validated := True\<rparr>]\<rparr>) (vd_sequences v)\<rparr>)"

text \<open>
  \<^verbatim>\<open>ValidateTaskFenceDeps\<close> for the task \<open>i\<close> of the sequence \<open>s\<close>, with a bound on the depth of the recursion. Each call that is
  under way has its sequence marked as validating, so that the number of sequences is enough.
\<close>

primrec ValidateTaskFenceDeps :: "nat \<Rightarrow> u32 \<Rightarrow> nat \<Rightarrow> ('k, 'r) validation \<Rightarrow> ('k, 'r) validation res" where
  "ValidateTaskFenceDeps 0 s i v = Inl Never_returns"
| "ValidateTaskFenceDeps (Suc n) s i v =
     (case map_of (vd_sequences v) s of
        None \<Rightarrow> Inl Null_dereference
      | Some sq \<Rightarrow>
          if i \<ge> length (seq_tasks sq) then Inl Null_dereference
          else (case GetSequenceValidateState s sq v of ((next_to_validate, validating), v1) \<Rightarrow>
            if next_to_validate \<noteq> i then Inl CHECK_failed
            else if validating then Inl CHECK_failed
            else let task = seq_tasks sq ! i
                 in res_bind (validate_fences (ValidateTaskFenceDeps n) (GetTaskWaitFences task sq)
                                (v1\<lparr>vd_states := (vd_states v1)(s \<mapsto> (next_to_validate, True))\<rparr>)) (\<lambda>v2.
                   let v3 = (if SyncToken_HasData (tsk_release task)
                             then v2\<lparr>vd_pending_releases := UpdateReleaseCount (SyncToken_GetClientId (tsk_release task))
                                       (tk_release_count (tsk_release task)) (vd_pending_releases v2)\<rparr>
                             else v2)
                   in Inr ((mark_validated s i v3)\<lparr>vd_states := (vd_states v3)(s \<mapsto> (i + 1, False))\<rparr>))))"

text \<open>The loop over the tasks of the root sequence; \<^verbatim>\<open>validated\<close> is read when the loop gets there.\<close>

fun validate_root :: "nat \<Rightarrow> int \<Rightarrow> u32 \<Rightarrow> nat \<Rightarrow> ('k, 'r) task list \<Rightarrow> ('k, 'r) validation \<Rightarrow> ('k, 'r) validation res" where
  "validate_root n now s i [] v = Inr v"
| "validate_root n now s i (t # ts) v =
     (if now - tsk_registration t \<le> kMinValidationDelay then Inr v
      else if (case map_of (vd_sequences v) s of None \<Rightarrow> False | Some sq \<Rightarrow> tsk_validated (seq_tasks sq ! i))
      then validate_root n now s (i + 1) ts v
      else res_bind (ValidateTaskFenceDeps n s i v) (validate_root n now s (i + 1) ts))"

text \<open>The part of \<^verbatim>\<open>ValidateSequenceTaskFenceDeps\<close> under the lock.\<close>

definition validate_sequence :: "int \<Rightarrow> ('k, 'r) sequence \<Rightarrow> (u32 \<times> ('k, 'r) sequence) list \<Rightarrow> ('k, 'r) validation res" where
  "validate_sequence now root sequences =
     validate_root (length sequences) now (seq_sequence_id root) 0 (seq_tasks root)
       \<lparr>vd_sequences = sequences, vd_pending_releases = [], vd_force_releases = [], vd_states = (\<lambda>_. None)\<rparr>"

fun force_releases :: "int \<Rightarrow> release_map \<Rightarrow> ('k, 'r, 'g) task_graph \<Rightarrow> (u32 list \<times> ('k, 'r, 'g) task_graph) res" where
  "force_releases now [] g = Inr ([], g)"
| "force_releases now ((client_id, release) # rest) g =
     res_bind (with_points now (SyncPointManager_EnsureFenceSyncReleased (SyncToken_of (fst client_id) (snd client_id) release) kForceRelease) g)
       (\<lambda>(us, g1). res_bind (force_releases now rest g1) (\<lambda>(us1, g2). Inr (us @ us1, g2)))"

definition ValidateSequenceTaskFenceDeps ::
  "int \<Rightarrow> u32 \<Rightarrow> ('k, 'r, 'g) task_graph \<Rightarrow> (u32 list \<times> ('k, 'r, 'g) task_graph) res" where
  "ValidateSequenceTaskFenceDeps now root_sequence g =
     dcheck (spm_graph_validation_enabled (tg_sync_points g))
       (case TaskGraph_GetSequence root_sequence g of
          None \<Rightarrow> Inl Null_dereference
        | Some root \<Rightarrow>
            if \<not> Sequence_HasTasks root then Inr ([], g)
            else res_bind (validate_sequence now root (tg_sequence_map g)) (\<lambda>v.
                   force_releases now (vd_force_releases v) (g\<lparr>tg_sequence_map := vd_sequences v\<rparr>)))"

end
