(* ===== verification/Scheduler.thy ===== *)
theory Scheduler
  imports Task_Graph
begin

text \<open>
  \<^verbatim>\<open>gpu/command_buffer/service/scheduler.{h,cc}\<close>: sequences of tasks with priorities, bound to the threads that run
  them, and the search for the task that a thread runs next.

  A \<^verbatim>\<open>Scheduler::Sequence\<close> is a \<^verbatim>\<open>TaskGraph::Sequence\<close>, which is kept in the graph, with members of its own, the record
  \<open>sched_sequence\<close>, kept under the same id for as long as the object lives. A \<^verbatim>\<open>base::SingleThreadTaskRunner\<close> is a value of an arbitrary type; the current one is an
  argument of the operations that ask for it, and so is the time. What \<^verbatim>\<open>PostTask\<close> has posted to a runner is a number, as
  only \<^verbatim>\<open>RunNextTask\<close> is ever posted. The operations that give up the lock on their way are cut where they do so, each part being one step. Tracing and metrics are left
  out, and with them \<^verbatim>\<open>total_blocked_time_\<close>, to which only zero is added.
\<close>

section \<open>Data\<close>

datatype scheduling_priority = kHigh | kNormal | kLow

fun priority_rank :: "scheduling_priority \<Rightarrow> nat" where
  "priority_rank kHigh = 0"
| "priority_rank kNormal = 1"
| "priority_rank kLow = 2"

instantiation scheduling_priority :: linorder
begin

definition less_eq_scheduling_priority :: "scheduling_priority \<Rightarrow> scheduling_priority \<Rightarrow> bool" where
  "less_eq_scheduling_priority a b \<longleftrightarrow> priority_rank a \<le> priority_rank b"

definition less_scheduling_priority :: "scheduling_priority \<Rightarrow> scheduling_priority \<Rightarrow> bool" where
  "less_scheduling_priority a b \<longleftrightarrow> priority_rank a < priority_rank b"

instance
proof
  fix x y :: scheduling_priority
  show "x \<le> y \<Longrightarrow> y \<le> x \<Longrightarrow> x = y" by (cases x; cases y) (simp_all add: less_eq_scheduling_priority_def)
qed (auto simp: less_eq_scheduling_priority_def less_scheduling_priority_def)

end

fun SchedulingPriorityToString :: "scheduling_priority \<Rightarrow> string" where
  "SchedulingPriorityToString kHigh = ''High''"
| "SchedulingPriorityToString kNormal = ''Normal''"
| "SchedulingPriorityToString kLow = ''Low''"

record scheduling_state =
  sst_sequence_id :: u32
  sst_priority :: scheduling_priority
  sst_order_num :: u32

definition RunsBefore :: "scheduling_state \<Rightarrow> scheduling_state \<Rightarrow> bool" where
  "RunsBefore lhs rhs \<longleftrightarrow> (sst_priority lhs, sst_order_num lhs) < (sst_priority rhs, sst_order_num rhs)"

datatype running_state = IDLE | SCHEDULED | RUNNING

record 'w sched_sequence =
  ssq_enabled :: bool
  ssq_running_state :: running_state
  ssq_scheduling_state :: scheduling_state
  ssq_task_runner :: 'w
  ssq_default_priority :: scheduling_priority
  ssq_current_priority :: scheduling_priority

record per_thread_state =
  pts_sorted_sequences :: "scheduling_state list"
  pts_running :: bool
  pts_run_next_task_scheduled :: int

definition new_PerThreadState :: per_thread_state where
  "new_PerThreadState = \<lparr>pts_sorted_sequences = [], pts_running = False, pts_run_next_task_scheduled = 0\<rparr>"

text \<open>
  \<open>sch_sequence_map\<close> has the keys of \<^verbatim>\<open>scheduler_sequence_map_\<close> in their order. An entry of \<^verbatim>\<open>per_thread_state_map_\<close> that is not there
  is made when it is asked for, with its default value.
\<close>

record ('k, 'r, 'g, 'w) scheduler =
  sch_task_graph :: "('k, 'r, 'g) task_graph"
  sch_sequences :: "u32 \<Rightarrow> 'w sched_sequence option"
  sch_sequence_map :: "u32 list"
  sch_threads :: "'w \<Rightarrow> per_thread_state"
  sch_posted :: "'w \<Rightarrow> nat"

text \<open>\<^verbatim>\<open>Scheduler::Task\<close>; a callback is bound to its argument and is a closure too.\<close>

record ('k, 'r) scheduler_task =
  stk_sequence_id :: u32
  stk_task_closure :: 'k
  stk_sync_token_fences :: "sync_token list"
  stk_release :: sync_token
  stk_report_callback :: "'r option"

definition new_Scheduler :: "'g points \<Rightarrow> ('k, 'r, 'g, 'w) scheduler" where
  "new_Scheduler m = \<lparr>sch_task_graph = new_TaskGraph m, sch_sequences = (\<lambda>_. None), sch_sequence_map = [],
     sch_threads = (\<lambda>_. new_PerThreadState), sch_posted = (\<lambda>_. 0)\<rparr>"

text \<open>The object of a sequence, whoever has a pointer to it, and what \<^verbatim>\<open>Scheduler::GetSequence\<close> finds.\<close>

definition sched_object :: "u32 \<Rightarrow> ('k, 'r, 'g, 'w) scheduler \<Rightarrow> (('k, 'r) sequence \<times> 'w sched_sequence) option" where
  "sched_object s S =
     (case TaskGraph_GetSequence s (sch_task_graph S) of
        None \<Rightarrow> None
      | Some sq \<Rightarrow> map_option (Pair sq) (sch_sequences S s))"

definition Scheduler_GetSequence :: "u32 \<Rightarrow> ('k, 'r, 'g, 'w) scheduler \<Rightarrow> (('k, 'r) sequence \<times> 'w sched_sequence) option" where
  "Scheduler_GetSequence s S = (if s \<in> set (sch_sequence_map S) then sched_object s S else None)"

definition put_sched :: "u32 \<Rightarrow> 'w sched_sequence \<Rightarrow> ('k, 'r, 'g, 'w) scheduler \<Rightarrow> ('k, 'r, 'g, 'w) scheduler" where
  "put_sched s x S = S\<lparr>sch_sequences := (sch_sequences S)(s \<mapsto> x)\<rparr>"

definition put_graph :: "u32 \<Rightarrow> ('k, 'r) sequence \<Rightarrow> ('k, 'r, 'g, 'w) scheduler \<Rightarrow> ('k, 'r, 'g, 'w) scheduler" where
  "put_graph s sq S = S\<lparr>sch_task_graph := put_sequence s sq (sch_task_graph S)\<rparr>"

definition sch_points :: "('k, 'r, 'g, 'w) scheduler \<Rightarrow> 'g points" where
  "sch_points S = tg_sync_points (sch_task_graph S)"

definition put_points :: "'g points \<Rightarrow> ('k, 'r, 'g, 'w) scheduler \<Rightarrow> ('k, 'r, 'g, 'w) scheduler" where
  "put_points m S = S\<lparr>sch_task_graph := (sch_task_graph S)\<lparr>tg_sync_points := m\<rparr>\<rparr>"

definition set_running :: "'w \<Rightarrow> bool \<Rightarrow> ('k, 'r, 'g, 'w) scheduler \<Rightarrow> ('k, 'r, 'g, 'w) scheduler" where
  "set_running w b S = S\<lparr>sch_threads := (sch_threads S)(w := (sch_threads S w)\<lparr>pts_running := b\<rparr>)\<rparr>"

text \<open>The time is recorded and \<^verbatim>\<open>RunNextTask\<close> is posted to the runner.\<close>

definition post_RunNextTask :: "int \<Rightarrow> 'w \<Rightarrow> ('k, 'r, 'g, 'w) scheduler \<Rightarrow> ('k, 'r, 'g, 'w) scheduler" where
  "post_RunNextTask now w S =
     S\<lparr>sch_threads := (sch_threads S)(w := (sch_threads S w)\<lparr>pts_run_next_task_scheduled := now\<rparr>),
       sch_posted := (sch_posted S)(w := sch_posted S w + 1)\<rparr>"

section \<open>Scheduler::Sequence\<close>

definition new_sched_sequence :: "'w \<Rightarrow> scheduling_priority \<Rightarrow> u32 \<Rightarrow> 'w sched_sequence" where
  "new_sched_sequence task_runner priority null_sequence =
     \<lparr>ssq_enabled = True, ssq_running_state = IDLE,
      ssq_scheduling_state = \<lparr>sst_sequence_id = null_sequence, sst_priority = kLow, sst_order_num = 0\<rparr>,
      ssq_task_runner = task_runner, ssq_default_priority = priority, ssq_current_priority = priority\<rparr>"

definition HasTasksAndEnabled :: "('k, 'r) sequence \<Rightarrow> 'w sched_sequence \<Rightarrow> bool" where
  "HasTasksAndEnabled sq x \<longleftrightarrow> ssq_enabled x \<and> Sequence_HasTasks sq"

definition IsRunnable :: "('k, 'r) sequence \<Rightarrow> 'w sched_sequence \<Rightarrow> bool" where
  "IsRunnable sq x \<longleftrightarrow> ssq_enabled x \<and> ssq_running_state x \<noteq> RUNNING \<and> Sequence_HasTasks sq"

definition ShouldYieldTo :: "'w sched_sequence \<Rightarrow> 'w sched_sequence \<Rightarrow> bool" where
  "ShouldYieldTo this other \<longleftrightarrow>
     (if ssq_task_runner this \<noteq> ssq_task_runner other then False
      else if ssq_running_state this \<noteq> RUNNING then False
      else RunsBefore (ssq_scheduling_state other) (ssq_scheduling_state this))"

definition SetScheduled :: "('k, 'r) sequence \<Rightarrow> 'w sched_sequence \<Rightarrow> 'w sched_sequence res" where
  "SetScheduled sq x =
     dcheck (HasTasksAndEnabled sq x)
       (dcheck (ssq_running_state x \<noteq> RUNNING)
         (Inr (x\<lparr>ssq_running_state := SCHEDULED,
                 ssq_scheduling_state := \<lparr>sst_sequence_id = seq_sequence_id sq, sst_priority = ssq_current_priority x,
                                          sst_order_num = tsk_order_num (hd (seq_tasks sq))\<rparr>\<rparr>)))"

definition UpdateRunningPriority :: "'w sched_sequence \<Rightarrow> 'w sched_sequence res" where
  "UpdateRunningPriority x =
     dcheck (ssq_running_state x = RUNNING)
       (Inr (x\<lparr>ssq_scheduling_state := (ssq_scheduling_state x)\<lparr>sst_priority := ssq_current_priority x\<rparr>\<rparr>))"

definition Sched_ContinueTask ::
  "'g base_ids \<Rightarrow> int \<Rightarrow> 'k \<Rightarrow> ('k, 'r) sequence \<Rightarrow> 'w sched_sequence \<Rightarrow> 'g points \<Rightarrow> (('k, 'r) sequence \<times> 'g points) res" where
  "Sched_ContinueTask ids now task_closure sq x m =
     dcheck (ssq_running_state x = RUNNING) (Sequence_ContinueTask ids now task_closure sq m)"

definition Sched_BeginTask ::
  "('k, 'r) sequence \<Rightarrow> 'w sched_sequence \<Rightarrow> (u32 \<times> 'k \<times> ('r \<times> int) option \<times> ('k, 'r) sequence \<times> 'w sched_sequence) res" where
  "Sched_BeginTask sq x =
     dcheck (ssq_running_state x = SCHEDULED)
       (res_bind (Sequence_BeginTask sq) (\<lambda>(order_num, task_closure, report, sq1).
          Inr (order_num, task_closure, report, sq1, x\<lparr>ssq_running_state := RUNNING\<rparr>)))"

definition Sched_FinishTask ::
  "'g base_ids \<Rightarrow> ('k, 'r) sequence \<Rightarrow> 'w sched_sequence \<Rightarrow> (('k, 'r) sequence \<times> 'w sched_sequence) res" where
  "Sched_FinishTask ids sq x =
     dcheck (ssq_running_state x = RUNNING) (Inr (Sequence_FinishTask ids sq, x\<lparr>ssq_running_state := SCHEDULED\<rparr>))"

section \<open>Waking up a thread\<close>

definition unblocked_on :: "('k, 'r, 'g, 'w) scheduler \<Rightarrow> 'w \<Rightarrow> u32 \<Rightarrow> bool" where
  "unblocked_on S w s \<longleftrightarrow>
     (case sched_object s S of
        None \<Rightarrow> False
      | Some (sq, x) \<Rightarrow> ssq_task_runner x = w \<and> ssq_enabled x \<and> IsFrontTaskUnblocked sq)"

definition HasAnyUnblockedTasksOnRunner :: "'w \<Rightarrow> ('k, 'r, 'g, 'w) scheduler \<Rightarrow> bool" where
  "HasAnyUnblockedTasksOnRunner task_runner S \<longleftrightarrow> list_ex (unblocked_on S task_runner) (sch_sequence_map S)"

definition TryScheduleSequence :: "int \<Rightarrow> u32 \<Rightarrow> ('k, 'r, 'g, 'w) scheduler \<Rightarrow> ('k, 'r, 'g, 'w) scheduler res" where
  "TryScheduleSequence now s S =
     (case sched_object s S of
        None \<Rightarrow> Inl Null_dereference
      | Some (sq, x) \<Rightarrow>
          let task_runner = ssq_task_runner x
          in if ssq_running_state x = RUNNING
             then dcheck (pts_running (sch_threads S task_runner))
                    (res_bind (UpdateRunningPriority x) (\<lambda>x1. Inr (put_sched s x1 S)))
             else res_bind (if ssq_running_state x \<noteq> SCHEDULED \<and> HasTasksAndEnabled sq x then SetScheduled sq x else Inr x) (\<lambda>x1.
               let S1 = put_sched s x1 S
               in Inr (if \<not> pts_running (sch_threads S1 task_runner) \<and> HasAnyUnblockedTasksOnRunner task_runner S1
                       then post_RunNextTask now task_runner (set_running task_runner True S1)
                       else S1)))"

definition SetEnabled :: "int \<Rightarrow> bool \<Rightarrow> u32 \<Rightarrow> 'w sched_sequence \<Rightarrow> ('k, 'r, 'g, 'w) scheduler \<Rightarrow> ('k, 'r, 'g, 'w) scheduler res" where
  "SetEnabled now enabled s x S =
     (if ssq_enabled x = enabled then Inr S
      else TryScheduleSequence now s (put_sched s (x\<lparr>ssq_enabled := enabled\<rparr>) S))"

text \<open>
  A closure that a sync point runs: \<^verbatim>\<open>SyncTokenFenceReleased\<close>, and \<^verbatim>\<open>OnFrontTaskUnblocked\<close> where it is called.
\<close>

definition Scheduler_FenceReleased :: "int \<Rightarrow> fence_closure \<Rightarrow> ('k, 'r, 'g, 'w) scheduler \<Rightarrow> ('k, 'r, 'g, 'w) scheduler res" where
  "Scheduler_FenceReleased now c S =
     res_bind (SyncTokenFenceReleased now c (sch_task_graph S)) (\<lambda>(unblocked, g).
       let S1 = S\<lparr>sch_task_graph := g\<rparr>
       in if unblocked then TryScheduleSequence now (fc_waiting_sequence_id c) S1 else Inr S1)"

fun fences_released :: "int \<Rightarrow> fence_closure list \<Rightarrow> ('k, 'r, 'g, 'w) scheduler \<Rightarrow> ('k, 'r, 'g, 'w) scheduler res" where
  "fences_released now [] S = Inr S"
| "fences_released now (c # cs) S = res_bind (Scheduler_FenceReleased now c S) (fences_released now cs)"

section \<open>Operations of clients\<close>

definition delete_Scheduler :: "'w list \<Rightarrow> ('k, 'r, 'g, 'w) scheduler \<Rightarrow> unit res" where
  "delete_Scheduler threads S =
     dcheck (sch_sequence_map S = []) (dcheck (list_all (\<lambda>w. \<not> pts_running (sch_threads S w)) threads) (Inr ()))"

definition Scheduler_CreateSequence ::
  "'g base_ids \<Rightarrow> scheduling_priority \<Rightarrow> 'w \<Rightarrow> int \<Rightarrow> u64 \<Rightarrow> ('k, 'r, 'g, 'w) scheduler \<Rightarrow> (u32 \<times> ('k, 'r, 'g, 'w) scheduler) res" where
  "Scheduler_CreateSequence ids priority task_runner namespace_id command_buffer_id S =
     res_bind (new_Sequence ids True namespace_id command_buffer_id (sch_points S)) (\<lambda>(sq, m).
       let s = seq_sequence_id sq;
           S1 = put_points m S;
           g = TaskGraph_AddSequence sq (sch_task_graph S1)
       in if TaskGraph_GetSequence s (sch_task_graph S1) \<noteq> None then Inl CHECK_failed
          else Inr (s, S1\<lparr>sch_task_graph := g,
                          sch_sequences := (sch_sequences S1)(s \<mapsto> new_sched_sequence task_runner priority (bi_null_sequence ids)),
                          sch_sequence_map := (if s \<in> set (sch_sequence_map S1) then sch_sequence_map S1 else insort s (sch_sequence_map S1))\<rparr>))"

definition Scheduler_CreateSyncPointClientState ::
  "u32 \<Rightarrow> int \<Rightarrow> u64 \<Rightarrow> ('k, 'r, 'g, 'w) scheduler \<Rightarrow> ('k, 'r, 'g, 'w) scheduler res" where
  "Scheduler_CreateSyncPointClientState sequence_id namespace_id command_buffer_id S =
     res_bind (TaskGraph_CreateSyncPointClientState sequence_id namespace_id command_buffer_id (sch_task_graph S))
       (\<lambda>g. Inr (S\<lparr>sch_task_graph := g\<rparr>))"

definition EnableSequence :: "int \<Rightarrow> u32 \<Rightarrow> ('k, 'r, 'g, 'w) scheduler \<Rightarrow> ('k, 'r, 'g, 'w) scheduler res" where
  "EnableSequence now sequence_id S =
     (case Scheduler_GetSequence sequence_id S of None \<Rightarrow> Inl DCHECK_failed | Some (sq, x) \<Rightarrow> SetEnabled now True sequence_id x S)"

definition DisableSequence :: "int \<Rightarrow> u32 \<Rightarrow> ('k, 'r, 'g, 'w) scheduler \<Rightarrow> ('k, 'r, 'g, 'w) scheduler res" where
  "DisableSequence now sequence_id S =
     (case Scheduler_GetSequence sequence_id S of None \<Rightarrow> Inl DCHECK_failed | Some (sq, x) \<Rightarrow> SetEnabled now False sequence_id x S)"

definition GetSequenceDefaultPriority :: "u32 \<Rightarrow> ('k, 'r, 'g, 'w) scheduler \<Rightarrow> scheduling_priority" where
  "GetSequenceDefaultPriority sequence_id S =
     (case Scheduler_GetSequence sequence_id S of None \<Rightarrow> kNormal | Some (sq, x) \<Rightarrow> ssq_default_priority x)"

definition SetSequencePriority :: "u32 \<Rightarrow> scheduling_priority \<Rightarrow> ('k, 'r, 'g, 'w) scheduler \<Rightarrow> ('k, 'r, 'g, 'w) scheduler" where
  "SetSequencePriority sequence_id priority S =
     (case Scheduler_GetSequence sequence_id S of
        None \<Rightarrow> S
      | Some (sq, x) \<Rightarrow> put_sched sequence_id (x\<lparr>ssq_current_priority := priority\<rparr>) S)"

text \<open>\<^verbatim>\<open>ScopedSetSequencePriority\<close>: its destructor.\<close>

definition delete_ScopedSetSequencePriority :: "u32 \<Rightarrow> ('k, 'r, 'g, 'w) scheduler \<Rightarrow> ('k, 'r, 'g, 'w) scheduler" where
  "delete_ScopedSetSequencePriority sequence_id S = SetSequencePriority sequence_id (GetSequenceDefaultPriority sequence_id S) S"

definition ScheduleTaskHelper ::
  "'g base_ids \<Rightarrow> int \<Rightarrow> ('k, 'r) scheduler_task \<Rightarrow> ('k, 'r, 'g, 'w) scheduler \<Rightarrow> ('k, 'r, 'g, 'w) scheduler res" where
  "ScheduleTaskHelper ids now t S =
     (case Scheduler_GetSequence (stk_sequence_id t) S of
        None \<Rightarrow> Inl DCHECK_failed
      | Some (sq, x) \<Rightarrow>
          res_bind (Sequence_AddTask ids now (stk_task_closure t) (stk_sync_token_fences t) (stk_release t) (stk_report_callback t) sq (sch_points S))
            (\<lambda>(order_num, sq1, m). TryScheduleSequence now (stk_sequence_id t) (put_graph (stk_sequence_id t) sq1 (put_points m S))))"

fun ScheduleTasks ::
  "'g base_ids \<Rightarrow> int \<Rightarrow> ('k, 'r) scheduler_task list \<Rightarrow> ('k, 'r, 'g, 'w) scheduler \<Rightarrow> ('k, 'r, 'g, 'w) scheduler res" where
  "ScheduleTasks ids now [] S = Inr S"
| "ScheduleTasks ids now (t # ts) S = res_bind (ScheduleTaskHelper ids now t S) (ScheduleTasks ids now ts)"

definition Scheduler_ContinueTask ::
  "'g base_ids \<Rightarrow> int \<Rightarrow> 'w \<Rightarrow> u32 \<Rightarrow> 'k \<Rightarrow> ('k, 'r, 'g, 'w) scheduler \<Rightarrow> ('k, 'r, 'g, 'w) scheduler res" where
  "Scheduler_ContinueTask ids now current_thread sequence_id task_closure S =
     (case Scheduler_GetSequence sequence_id S of
        None \<Rightarrow> Inl DCHECK_failed
      | Some (sq, x) \<Rightarrow> dcheck (ssq_task_runner x = current_thread)
          (res_bind (Sched_ContinueTask ids now task_closure sq x (sch_points S))
             (\<lambda>(sq1, m). Inr (put_graph sequence_id sq1 (put_points m S)))))"
section \<open>The next task\<close>

text \<open>The loop of \<^verbatim>\<open>GetSortedRunnableSequences\<close>.\<close>

fun schedule_runnable :: "u32 list \<Rightarrow> ('k, 'r, 'g, 'w) scheduler \<Rightarrow> (scheduling_state list \<times> ('k, 'r, 'g, 'w) scheduler) res" where
  "schedule_runnable [] S = Inr ([], S)"
| "schedule_runnable (s # ss) S =
     (case sched_object s S of
        None \<Rightarrow> Inl Null_dereference
      | Some (sq, x) \<Rightarrow>
          if IsRunnable sq x
          then res_bind (SetScheduled sq x) (\<lambda>x1.
                 res_bind (schedule_runnable ss (put_sched s x1 S)) (\<lambda>(l, S1). Inr (ssq_scheduling_state x1 # l, S1)))
          else schedule_runnable ss S)"

text \<open>\<^verbatim>\<open>stable_sort\<close> with \<^verbatim>\<open>RunsBefore\<close>: elements that compare equal keep their order.\<close>

definition GetSortedRunnableSequences ::
  "'w \<Rightarrow> ('k, 'r, 'g, 'w) scheduler \<Rightarrow> (scheduling_state list \<times> ('k, 'r, 'g, 'w) scheduler) res" where
  "GetSortedRunnableSequences task_runner S =
     res_bind (schedule_runnable (sch_sequence_map S) S) (\<lambda>(l, S1).
       let sorted_sequences = sort_key (\<lambda>st. (sst_priority st, sst_order_num st)) l
       in Inr (sorted_sequences,
               S1\<lparr>sch_threads := (sch_threads S1)(task_runner := (sch_threads S1 task_runner)\<lparr>pts_sorted_sequences := sorted_sequences\<rparr>)\<rparr>))"

text \<open>The first task of a sequence that may run, plus one, or 0: it decreases from call to call.\<close>

definition front_rank :: "('k, 'r, 'g, 'w) scheduler \<Rightarrow> u32 \<Rightarrow> nat" where
  "front_rank S s =
     (case Scheduler_GetSequence s S of
        None \<Rightarrow> 0
      | Some (sq, x) \<Rightarrow> if HasTasksAndEnabled sq x then Suc (tsk_order_num (hd (seq_tasks sq))) else 0)"

text \<open>The guard of the recursive call: whether the release sequence is passed over.\<close>

definition dependency_later :: "('k, 'r, 'g, 'w) scheduler \<Rightarrow> wait_fence \<Rightarrow> bool" where
  "dependency_later S f \<longleftrightarrow>
     (case Scheduler_GetSequence (wf_release_sequence_id f) S of
        None \<Rightarrow> False
      | Some (sq, x) \<Rightarrow> HasTasksAndEnabled sq x \<and> tsk_order_num (hd (seq_tasks sq)) \<ge> wf_order_num f)"

lemma front_rank_less: "\<not> dependency_later S f \<Longrightarrow> front_rank S (wf_release_sequence_id f) < Suc (wf_order_num f)"
  by (auto simp: dependency_later_def front_rank_def split: option.splits)

lemma front_rank_runnable:
  "Scheduler_GetSequence s S = Some (sq, x) \<Longrightarrow> IsRunnable sq x \<Longrightarrow> front_rank S s = Suc (tsk_order_num (hd (seq_tasks sq)))"
  by (simp add: front_rank_def IsRunnable_def HasTasksAndEnabled_def)

text \<open>
  \<^verbatim>\<open>FindNextTaskFromRoot\<close> on the current thread \<open>w\<close>, and its loop over the fences. A null \<^verbatim>\<open>root_sequence\<close> is one that is not found.
\<close>

function (sequential) FindNextTaskFromRoot :: "('k, 'r, 'g, 'w) scheduler \<Rightarrow> 'w \<Rightarrow> u32 \<Rightarrow> u32 option"
  and visit_fences :: "('k, 'r, 'g, 'w) scheduler \<Rightarrow> 'w \<Rightarrow> u32 \<Rightarrow> wait_fence list \<Rightarrow> u32 option" where
  "FindNextTaskFromRoot S w s =
     (case Scheduler_GetSequence s S of
        None \<Rightarrow> None
      | Some (sq, x) \<Rightarrow>
          if \<not> IsRunnable sq x then None
          else (case visit_fences S w (tsk_order_num (hd (seq_tasks sq))) (seq_wait_fences sq) of
                  Some r \<Rightarrow> Some r
                | None \<Rightarrow>
                    if (seq_wait_fences sq = [] \<or> wf_order_num (hd (seq_wait_fences sq)) > tsk_order_num (hd (seq_tasks sq))) \<and>
                       ssq_task_runner x = w
                    then Some s else None))"
| "visit_fences S w first_task_order_num [] = None"
| "visit_fences S w first_task_order_num (f # fs) =
     (if wf_order_num f > first_task_order_num then None
      else if dependency_later S f then visit_fences S w first_task_order_num fs
      else (case FindNextTaskFromRoot S w (wf_release_sequence_id f) of
              Some r \<Rightarrow> Some r
            | None \<Rightarrow> visit_fences S w first_task_order_num fs))"
  by pat_completeness auto

termination
proof (relation "measures [\<lambda>z. case z of Inl (S, w, s) \<Rightarrow> front_rank S s | Inr (S, w, n, fs) \<Rightarrow> Suc n,
    \<lambda>z. case z of Inl _ \<Rightarrow> 1 | Inr _ \<Rightarrow> 0, \<lambda>z. case z of Inl _ \<Rightarrow> 0 | Inr (S, w, n, fs) \<Rightarrow> length fs]", goal_cases)
  case 1
  show ?case by simp
next
  case (2 S w s a sq x)
  then show ?case using front_rank_runnable [of s S sq x] by simp
next
  case (3 S w n f fs)
  then show ?case by simp
next
  case (4 S w n f fs)
  then show ?case using front_rank_less [of S f] by simp
next
  case (5 S w n f fs)
  then show ?case by simp
qed

declare FindNextTaskFromRoot.simps [simp del]

fun first_root :: "('k, 'r, 'g, 'w) scheduler \<Rightarrow> 'w \<Rightarrow> scheduling_state list \<Rightarrow> u32 option" where
  "first_root S w [] = None"
| "first_root S w (state # states) =
     (case FindNextTaskFromRoot S w (sst_sequence_id state) of
        Some s \<Rightarrow> Some s
      | None \<Rightarrow> first_root S w states)"

definition FindNextTask :: "'w \<Rightarrow> ('k, 'r, 'g, 'w) scheduler \<Rightarrow> (u32 option \<times> ('k, 'r, 'g, 'w) scheduler) res" where
  "FindNextTask task_runner S =
     res_bind (GetSortedRunnableSequences task_runner S) (\<lambda>(sorted_sequences, S1). Inr (first_root S1 task_runner sorted_sequences, S1))"

definition ShouldYield :: "'w \<Rightarrow> u32 \<Rightarrow> ('k, 'r, 'g, 'w) scheduler \<Rightarrow> (bool \<times> ('k, 'r, 'g, 'w) scheduler) res" where
  "ShouldYield current_thread sequence_id S =
     (case Scheduler_GetSequence sequence_id S of
        None \<Rightarrow> Inl DCHECK_failed
      | Some (sq, x) \<Rightarrow> dcheck (ssq_running_state x = RUNNING) (dcheck (ssq_task_runner x = current_thread)
          (res_bind (FindNextTask current_thread S) (\<lambda>(next_sequence, S1).
             case next_sequence of
               None \<Rightarrow> Inr (False, S1)
             | Some n \<Rightarrow>
                 (case (sched_object sequence_id S1, sched_object n S1) of
                    (Some (_, x1), Some (_, y)) \<Rightarrow> Inr (ShouldYieldTo x1 y, S1)
                  | _ \<Rightarrow> Inl Null_dereference)))))"

section \<open>Running a task\<close>

text \<open>The first part of \<^verbatim>\<open>RunNextTask\<close>, under the lock: the sequence to execute, or none and the thread sleeps.\<close>

definition RunNextTask_pick :: "'w \<Rightarrow> ('k, 'r, 'g, 'w) scheduler \<Rightarrow> (u32 option \<times> ('k, 'r, 'g, 'w) scheduler) res" where
  "RunNextTask_pick w S =
     res_bind (FindNextTask w S) (\<lambda>(r, S1).
       case r of
         None \<Rightarrow> Inr (None, set_running w False S1)
       | Some s \<Rightarrow>
           (case sched_object s S1 of
              None \<Rightarrow> Inl Null_dereference
            | Some (sq, x) \<Rightarrow> dcheck (ssq_task_runner x = w) (Inr (Some (seq_sequence_id sq), S1))))"

text \<open>
  \<^verbatim>\<open>ExecuteSequence\<close> until it gives up the lock. The result has the order number, the closure, the release and the
  report.
\<close>

definition ExecuteSequence_begin ::
  "'w \<Rightarrow> u32 \<Rightarrow> ('k, 'r, 'g, 'w) scheduler \<Rightarrow> (u32 \<times> 'k \<times> sync_token \<times> ('r \<times> int) option \<times> ('k, 'r, 'g, 'w) scheduler) res" where
  "ExecuteSequence_begin w sequence_id S =
     (case Scheduler_GetSequence sequence_id S of
        None \<Rightarrow> Inl DCHECK_failed
      | Some (sq, x) \<Rightarrow> dcheck (HasTasksAndEnabled sq x) (dcheck (ssq_task_runner x = w)
          (res_bind (Sched_BeginTask sq x) (\<lambda>(order_num, task_closure, report, sq1, x1).
             Inr (order_num, task_closure, seq_current_task_release sq1, report, put_sched sequence_id x1 (put_graph sequence_id sq1 S))))))"

text \<open>What it does without the lock once the closure has run; the closures that sync points run are part of the result.\<close>

definition ExecuteSequence_release :: "sync_token \<Rightarrow> ('k, 'r, 'g, 'w) scheduler \<Rightarrow> (fence_closure list \<times> ('k, 'r, 'g, 'w) scheduler) res" where
  "ExecuteSequence_release release S =
     (if SyncToken_HasData release
      then res_bind (SyncPointManager_EnsureFenceSyncReleased release kTaskCompletionRelease (sch_points S)) (\<lambda>(run, m). Inr (run, put_points m S))
      else Inr ([], S))"

definition ExecuteSequence_processed :: "u32 \<Rightarrow> u32 \<Rightarrow> ('k, 'r, 'g, 'w) scheduler \<Rightarrow> (fence_closure list \<times> ('k, 'r, 'g, 'w) scheduler) res" where
  "ExecuteSequence_processed order_num sequence_id S =
     res_bind (FinishProcessingOrderNumber order_num sequence_id (sch_points S)) (\<lambda>(run, m). Inr (run, put_points m S))"

definition still_processing :: "u32 \<Rightarrow> ('k, 'r, 'g, 'w) scheduler \<Rightarrow> bool res" where
  "still_processing sequence_id S = with_order sequence_id (sch_points S) (\<lambda>od. Inr (IsProcessingOrderNumber od))"

text \<open>The end of \<^verbatim>\<open>ExecuteSequence\<close>, with the lock again.\<close>

definition ExecuteSequence_end :: "'g base_ids \<Rightarrow> u32 \<Rightarrow> ('k, 'r, 'g, 'w) scheduler \<Rightarrow> ('k, 'r, 'g, 'w) scheduler res" where
  "ExecuteSequence_end ids sequence_id S =
     (case Scheduler_GetSequence sequence_id S of
        None \<Rightarrow> Inr S
      | Some (sq, x) \<Rightarrow> res_bind (Sched_FinishTask ids sq x) (\<lambda>(sq1, x1). Inr (put_sched sequence_id x1 (put_graph sequence_id sq1 S))))"

text \<open>
  \<^verbatim>\<open>ExecuteSequence\<close> as a whole, when no other thread comes in between. What the closure does is the argument \<open>run_closure\<close>.
\<close>

definition ExecuteSequence ::
  "'g base_ids \<Rightarrow> int \<Rightarrow> ('k \<Rightarrow> ('k, 'r, 'g, 'w) scheduler \<Rightarrow> ('k, 'r, 'g, 'w) scheduler res) \<Rightarrow> 'w \<Rightarrow> u32 \<Rightarrow>
     ('k, 'r, 'g, 'w) scheduler \<Rightarrow> ('k, 'r, 'g, 'w) scheduler res" where
  "ExecuteSequence ids now run_closure w sequence_id S =
     res_bind (ExecuteSequence_begin w sequence_id S) (\<lambda>(order_num, task_closure, release, _, S1).
       res_bind (BeginProcessingOrderNumber order_num sequence_id (sch_points S1)) (\<lambda>m.
         res_bind (run_closure task_closure (put_points m S1)) (\<lambda>S2.
           res_bind (still_processing sequence_id S2) (\<lambda>processing.
             res_bind (if processing
                       then res_bind (ExecuteSequence_release release S2) (\<lambda>(run, S3).
                              res_bind (fences_released now run S3) (\<lambda>S4.
                                res_bind (ExecuteSequence_processed order_num sequence_id S4) (\<lambda>(run1, S5). fences_released now run1 S5)))
                       else Inr S2)
               (ExecuteSequence_end ids sequence_id)))))"

text \<open>The last part of \<^verbatim>\<open>RunNextTask\<close>, and the whole of it.\<close>

definition RunNextTask_again :: "int \<Rightarrow> 'w \<Rightarrow> ('k, 'r, 'g, 'w) scheduler \<Rightarrow> ('k, 'r, 'g, 'w) scheduler" where
  "RunNextTask_again now w S =
     (if \<not> HasAnyUnblockedTasksOnRunner w S then set_running w False S else post_RunNextTask now w S)"

definition RunNextTask ::
  "'g base_ids \<Rightarrow> int \<Rightarrow> ('k \<Rightarrow> ('k, 'r, 'g, 'w) scheduler \<Rightarrow> ('k, 'r, 'g, 'w) scheduler res) \<Rightarrow> 'w \<Rightarrow>
     ('k, 'r, 'g, 'w) scheduler \<Rightarrow> ('k, 'r, 'g, 'w) scheduler res" where
  "RunNextTask ids now run_closure w S =
     res_bind (RunNextTask_pick w S) (\<lambda>(r, S1).
       case r of
         None \<Rightarrow> Inr S1
       | Some s \<Rightarrow> res_bind (ExecuteSequence ids now run_closure w s S1) (\<lambda>S2. Inr (RunNextTask_again now w S2)))"

section \<open>Destroying a sequence\<close>

text \<open>
  \<^verbatim>\<open>DestroySequence\<close> in three parts: the sequence leaves the scheduler's map; it leaves the graph's map and gives back its client states and
  order data; its destructor runs, first the one of \<^verbatim>\<open>Scheduler::Sequence\<close>.
\<close>

definition DestroySequence_unmap :: "u32 \<Rightarrow> ('k, 'r, 'g, 'w) scheduler \<Rightarrow> ('k, 'r, 'g, 'w) scheduler" where
  "DestroySequence_unmap sequence_id S = S\<lparr>sch_sequence_map := remove1 sequence_id (sch_sequence_map S)\<rparr>"

definition DestroySequence_take ::
  "u32 \<Rightarrow> ('k, 'r, 'g, 'w) scheduler \<Rightarrow> (fence_closure list \<times> ('k, 'r) sequence \<times> ('k, 'r, 'g, 'w) scheduler) res" where
  "DestroySequence_take sequence_id S =
     (case TaskGraph_GetSequence sequence_id (sch_task_graph S) of
        None \<Rightarrow> Inl CHECK_failed
      | Some sq \<Rightarrow> res_bind (Sequence_Destroy sq (sch_points S)) (\<lambda>(run, sq1, m).
          Inr (run, sq1, S\<lparr>sch_task_graph := (sch_task_graph S)
             \<lparr>tg_sync_points := m, tg_sequence_map := AList.delete sequence_id (tg_sequence_map (sch_task_graph S))\<rparr>\<rparr>)))"

fun wake_releasers :: "int \<Rightarrow> wait_fence list \<Rightarrow> ('k, 'r, 'g, 'w) scheduler \<Rightarrow> ('k, 'r, 'g, 'w) scheduler res" where
  "wake_releasers now [] S = Inr S"
| "wake_releasers now (f # fs) S =
     (case Scheduler_GetSequence (wf_release_sequence_id f) S of
        None \<Rightarrow> wake_releasers now fs S
      | Some _ \<Rightarrow> res_bind (TryScheduleSequence now (wf_release_sequence_id f) S) (wake_releasers now fs))"

definition delete_Sequence :: "int \<Rightarrow> ('k, 'r) sequence \<Rightarrow> ('k, 'r, 'g, 'w) scheduler \<Rightarrow> ('k, 'r, 'g, 'w) scheduler res" where
  "delete_Sequence now sq S =
     res_bind (wake_releasers now (seq_wait_fences sq) S) (\<lambda>S1.
       if list_all (\<lambda>t. tsk_report_callback t = None) (seq_tasks sq)
       then Inr (S1\<lparr>sch_sequences := (sch_sequences S1)(seq_sequence_id sq := None)\<rparr>) else Inl CHECK_failed)"

definition Scheduler_DestroySequence :: "int \<Rightarrow> u32 \<Rightarrow> ('k, 'r, 'g, 'w) scheduler \<Rightarrow> ('k, 'r, 'g, 'w) scheduler res" where
  "Scheduler_DestroySequence now sequence_id S =
     res_bind (DestroySequence_take sequence_id (DestroySequence_unmap sequence_id S)) (\<lambda>(run, sq, S1).
       res_bind (fences_released now run S1) (delete_Sequence now sq))"

end
