(* ===== verification/Scheduler_Search.thy ===== *)
theory Scheduler_Search
  imports Scheduler
begin

text \<open>
  What \<^verbatim>\<open>FindNextTask\<close> finds: the search from a root visits just the sequences that the root's first task waits for, directly or
  through others, and finds a task if one of them has a task that can run; the roots are tried in the order of
  priority and order number.
\<close>

section \<open>Dependencies\<close>

text \<open>The first task of the sequence can run on the thread \<open>w\<close>.\<close>

definition can_run :: "('k, 'r, 'g, 'w) scheduler \<Rightarrow> 'w \<Rightarrow> u32 \<Rightarrow> bool" where
  "can_run S w s \<longleftrightarrow> (\<exists>sq x. Scheduler_GetSequence s S = Some (sq, x) \<and> IsRunnable sq x \<and> IsFrontTaskUnblocked sq \<and> ssq_task_runner x = w)"

text \<open>The first task of \<open>s\<close> waits for a fence of \<open>t\<close>, whose first task comes before the wait.\<close>

definition waits_for :: "('k, 'r, 'g, 'w) scheduler \<Rightarrow> u32 \<Rightarrow> u32 \<Rightarrow> bool" where
  "waits_for S s t \<longleftrightarrow> (\<exists>sq x f. Scheduler_GetSequence s S = Some (sq, x) \<and> IsRunnable sq x \<and> f \<in> set (seq_wait_fences sq) \<and>
     wf_order_num f \<le> tsk_order_num (hd (seq_tasks sq)) \<and> \<not> dependency_later S f \<and> t = wf_release_sequence_id f)"

definition sched_wf :: "('k, 'r, 'g, 'w) scheduler \<Rightarrow> bool" where
  "sched_wf S \<longleftrightarrow> (\<forall>s \<in> set (sch_sequence_map S). \<exists>sq x. sched_object s S = Some (sq, x) \<and> seq_sequence_id sq = s \<and>
     sorted (map wf_order_num (seq_wait_fences sq)))"

lemma sched_wf_get: "sched_wf S \<Longrightarrow> Scheduler_GetSequence s S = Some (sq, x) \<Longrightarrow> seq_sequence_id sq = s \<and> sorted (map wf_order_num (seq_wait_fences sq))"
  by (fastforce simp: sched_wf_def Scheduler_GetSequence_def split: if_splits)

lemma unblocked_iff:
  "Sequence_HasTasks sq \<Longrightarrow> IsFrontTaskUnblocked sq \<longleftrightarrow>
     seq_wait_fences sq = [] \<or> wf_order_num (hd (seq_wait_fences sq)) > tsk_order_num (hd (seq_tasks sq))"
  by (auto simp: IsFrontTaskUnblocked_def Sequence_HasTasks_def split: list.splits)

section \<open>The search from a root\<close>

lemma search_sound:
  "FindNextTaskFromRoot S w s = Some r \<Longrightarrow> can_run S w r \<and> (waits_for S)\<^sup>*\<^sup>* s r"
  "visit_fences S w n fs = Some r \<Longrightarrow> can_run S w r \<and> (\<exists>f \<in> set fs. wf_order_num f \<le> n \<and> \<not> dependency_later S f \<and>
     (waits_for S)\<^sup>*\<^sup>* (wf_release_sequence_id f) r)"
proof (induction S w s and S w n fs arbitrary: r and r rule: FindNextTaskFromRoot_visit_fences.induct)
  case (1 S w s)
  then obtain sq x where g: "Scheduler_GetSequence s S = Some (sq, x)" "IsRunnable sq x"
    by (auto simp: FindNextTaskFromRoot.simps [of S w s] split: option.splits if_splits)
  show ?case
  proof (cases "visit_fences S w (tsk_order_num (hd (seq_tasks sq))) (seq_wait_fences sq)")
    case None
    then have "r = s" "seq_wait_fences sq = [] \<or> wf_order_num (hd (seq_wait_fences sq)) > tsk_order_num (hd (seq_tasks sq))" "ssq_task_runner x = w"
      using "1.prems" g by (simp_all add: FindNextTaskFromRoot.simps [of S w s] split: if_splits)
    with g show ?thesis using unblocked_iff [of sq] by (auto simp: can_run_def IsRunnable_def)
  next
    case (Some q)
    then have "r = q" using "1.prems" g by (simp add: FindNextTaskFromRoot.simps [of S w s])
    with "1.IH" [OF g(1) refl _ Some] g(2) obtain f where "can_run S w r" "f \<in> set (seq_wait_fences sq)" "wf_order_num f \<le> tsk_order_num (hd (seq_tasks sq))"
      "\<not> dependency_later S f" "(waits_for S)\<^sup>*\<^sup>* (wf_release_sequence_id f) r" by auto
    moreover from this g have "waits_for S s (wf_release_sequence_id f)" by (auto simp: waits_for_def)
    ultimately show ?thesis by (meson converse_rtranclp_into_rtranclp)
  qed
next
  case (3 S w n f fs)
  then show ?case by (fastforce split: if_splits option.splits)
qed simp

lemma search_complete:
  assumes "sched_wf S"
  shows "FindNextTaskFromRoot S w s = None \<Longrightarrow> (waits_for S)\<^sup>*\<^sup>* s r \<Longrightarrow> \<not> can_run S w r"
    "visit_fences S w n fs = None \<Longrightarrow> sorted (map wf_order_num fs) \<Longrightarrow> f \<in> set fs \<Longrightarrow> wf_order_num f \<le> n \<Longrightarrow> \<not> dependency_later S f \<Longrightarrow>
       (waits_for S)\<^sup>*\<^sup>* (wf_release_sequence_id f) r \<Longrightarrow> \<not> can_run S w r"
  using assms
proof (induction S w s and S w n fs arbitrary: r and f r rule: FindNextTaskFromRoot_visit_fences.induct)
  case (1 S w s)
  show ?case
  proof (cases "s = r")
    case True
    show ?thesis
    proof
      assume "can_run S w r"
      then obtain sq x where g: "Scheduler_GetSequence s S = Some (sq, x)" "IsRunnable sq x" "IsFrontTaskUnblocked sq" "ssq_task_runner x = w"
        using True by (auto simp: can_run_def)
      then have d: "seq_wait_fences sq = [] \<or> wf_order_num (hd (seq_wait_fences sq)) > tsk_order_num (hd (seq_tasks sq))"
        using unblocked_iff [of sq] by (simp add: IsRunnable_def)
      then have "visit_fences S w (tsk_order_num (hd (seq_tasks sq))) (seq_wait_fences sq) = None" by (cases "seq_wait_fences sq") auto
      with g d "1.prems"(1) show False by (simp add: FindNextTaskFromRoot.simps [of S w s])
    qed
  next
    case False
    with "1.prems"(2) obtain t where t: "waits_for S s t" "(waits_for S)\<^sup>*\<^sup>* t r" by (metis converse_rtranclpE)
    then obtain sq x f where g: "Scheduler_GetSequence s S = Some (sq, x)" "IsRunnable sq x" "f \<in> set (seq_wait_fences sq)"
      "wf_order_num f \<le> tsk_order_num (hd (seq_tasks sq))" "\<not> dependency_later S f" "t = wf_release_sequence_id f" by (auto simp: waits_for_def)
    have v: "visit_fences S w (tsk_order_num (hd (seq_tasks sq))) (seq_wait_fences sq) = None"
      using "1.prems"(1) g(1,2) by (simp add: FindNextTaskFromRoot.simps [of S w s] split: option.splits)
    have "sorted (map wf_order_num (seq_wait_fences sq))" using sched_wf_get [OF "1.prems"(3) g(1)] by simp
    from "1.IH" [OF g(1) refl _ v this g(3-5)] g(2,6) t(2) "1.prems"(3) show ?thesis by simp
  qed
next
  case (3 S w n g fs)
  show ?case
  proof (cases "wf_order_num g > n")
    case True
    with "3.prems"(2-4) show ?thesis by auto
  next
    case False
    have v: "visit_fences S w n fs = None" using "3.prems"(1) False by (auto split: if_splits option.splits)
    show ?thesis
    proof (cases "f = g")
      case True
      have "FindNextTaskFromRoot S w (wf_release_sequence_id g) = None"
        using "3.prems"(1,5) False True by (auto split: if_splits option.splits)
      with "3.IH"(2) [OF _ _ this] "3.prems"(5,6,7) True False show ?thesis by blast
    next
      case f: False
      then have "f \<in> set fs" "sorted (map wf_order_num fs)" using "3.prems"(2,3) by simp_all
      show ?thesis
      proof (cases "dependency_later S g")
        case True
        from "3.IH"(1) [OF _ True v] \<open>f \<in> set fs\<close> \<open>sorted (map wf_order_num fs)\<close> "3.prems"(4-7) False show ?thesis by blast
      next
        case nl: False
        have n: "FindNextTaskFromRoot S w (wf_release_sequence_id g) = None"
          using "3.prems"(1) False nl by (auto split: option.splits)
        from "3.IH"(3) [OF _ nl n v] \<open>f \<in> set fs\<close> \<open>sorted (map wf_order_num fs)\<close> "3.prems"(4-7) False show ?thesis by blast
      qed
    qed
  qed
qed simp
section \<open>The roots\<close>

text \<open>What \<^verbatim>\<open>SetScheduled\<close> and its like leave alone.\<close>

definition same_but_scheduled :: "'w sched_sequence \<Rightarrow> 'w sched_sequence \<Rightarrow> bool" where
  "same_but_scheduled x y \<longleftrightarrow> ssq_enabled y = ssq_enabled x \<and> ssq_task_runner y = ssq_task_runner x \<and>
     ssq_default_priority y = ssq_default_priority x \<and> ssq_current_priority y = ssq_current_priority x \<and>
     (ssq_running_state y = RUNNING \<longleftrightarrow> ssq_running_state x = RUNNING)"

definition refreshed :: "('k, 'r, 'g, 'w) scheduler \<Rightarrow> ('k, 'r, 'g, 'w) scheduler \<Rightarrow> bool" where
  "refreshed S S' \<longleftrightarrow> sch_task_graph S' = sch_task_graph S \<and> sch_sequence_map S' = sch_sequence_map S \<and> sch_posted S' = sch_posted S \<and>
     (\<forall>w. pts_running (sch_threads S' w) = pts_running (sch_threads S w)) \<and>
     (\<forall>s. rel_option same_but_scheduled (sch_sequences S s) (sch_sequences S' s))"

lemma same_but_scheduled_refl [simp]: "same_but_scheduled x x"
  by (simp add: same_but_scheduled_def)

lemma refreshed_refl [simp]: "refreshed S S"
  by (simp add: refreshed_def option.rel_refl)

lemma refreshed_trans:
  assumes "refreshed S S'" "refreshed S' S''"
  shows "refreshed S S''"
proof -
  have "rel_option same_but_scheduled (sch_sequences S s) (sch_sequences S'' s)" for s
    using assms unfolding refreshed_def by (cases "sch_sequences S s"; cases "sch_sequences S' s"; cases "sch_sequences S'' s")
      (metis option.rel_distinct option.rel_inject(2) option.rel_sel same_but_scheduled_def)+
  with assms show ?thesis by (simp add: refreshed_def)
qed

lemma refreshed_put:
  assumes "sch_sequences S s = Some x" "same_but_scheduled x y"
  shows "refreshed S (put_sched s y S)"
  using assms by (simp add: refreshed_def put_sched_def option.rel_refl)

lemma refreshed_object:
  assumes "refreshed S S'" "sched_object s S = Some (sq, x)"
  obtains y where "sched_object s S' = Some (sq, y)" "same_but_scheduled x y"
proof -
  have "rel_option same_but_scheduled (sch_sequences S s) (sch_sequences S' s)" using assms(1) by (simp add: refreshed_def)
  moreover have "TaskGraph_GetSequence s (sch_task_graph S) = Some sq" "sch_sequences S s = Some x"
    using assms(2) by (auto simp: sched_object_def split: option.splits)
  ultimately show ?thesis using that assms(1) by (cases "sch_sequences S' s") (auto simp: sched_object_def refreshed_def)
qed

lemma refreshed_sym: "refreshed S S' \<Longrightarrow> refreshed S' S"
proof -
  assume r: "refreshed S S'"
  have "rel_option same_but_scheduled (sch_sequences S' s) (sch_sequences S s)" for s
  proof -
    have "rel_option same_but_scheduled (sch_sequences S s) (sch_sequences S' s)" using r by (simp add: refreshed_def)
    then show ?thesis by (cases "sch_sequences S s"; cases "sch_sequences S' s") (auto simp: same_but_scheduled_def)
  qed
  with r show ?thesis by (simp add: refreshed_def)
qed

lemma refreshed_get:
  assumes "refreshed S S'" "Scheduler_GetSequence s S = Some (sq, x)"
  obtains y where "Scheduler_GetSequence s S' = Some (sq, y)" "same_but_scheduled x y"
  using refreshed_object [of S S' s sq x] assms by (auto simp: Scheduler_GetSequence_def refreshed_def split: if_splits)

lemma same_runnable: "same_but_scheduled x y \<Longrightarrow> IsRunnable sq y = IsRunnable sq x" "same_but_scheduled x y \<Longrightarrow> HasTasksAndEnabled sq y = HasTasksAndEnabled sq x"
  by (auto simp: same_but_scheduled_def IsRunnable_def HasTasksAndEnabled_def)

lemma refreshed_later: "refreshed S S' \<Longrightarrow> dependency_later S f \<Longrightarrow> dependency_later S' f"
  unfolding dependency_later_def by (auto simp: same_runnable elim: refreshed_get split: option.splits)

lemma refreshed_can_run:
  assumes "refreshed S S'" "can_run S w s"
  shows "can_run S' w s"
proof -
  obtain sq x where x: "Scheduler_GetSequence s S = Some (sq, x)" "IsRunnable sq x" "IsFrontTaskUnblocked sq" "ssq_task_runner x = w"
    using assms(2) unfolding can_run_def by blast
  obtain y where "Scheduler_GetSequence s S' = Some (sq, y)" "same_but_scheduled x y" by (rule refreshed_get [OF assms(1) x(1)])
  with x same_runnable(1) show ?thesis by (auto simp: can_run_def same_but_scheduled_def)
qed

lemma refreshed_waits_for:
  assumes "refreshed S S'" "waits_for S s t"
  shows "waits_for S' s t"
proof -
  obtain sq x f where x: "Scheduler_GetSequence s S = Some (sq, x)" "IsRunnable sq x" "f \<in> set (seq_wait_fences sq)"
    "wf_order_num f \<le> tsk_order_num (hd (seq_tasks sq))" "\<not> dependency_later S f" "t = wf_release_sequence_id f"
    using assms(2) unfolding waits_for_def by blast
  obtain y where y: "Scheduler_GetSequence s S' = Some (sq, y)" "same_but_scheduled x y" by (rule refreshed_get [OF assms(1) x(1)])
  have "\<not> dependency_later S' f" using x(5) refreshed_later [OF refreshed_sym [OF assms(1)]] by blast
  with x(2-4,6) y same_runnable(1) [OF y(2)] show ?thesis unfolding waits_for_def by blast
qed

lemma refreshed_eq:
  assumes "refreshed S S'"
  shows "can_run S' = can_run S" "waits_for S' = waits_for S" "unblocked_on S' = unblocked_on S"
proof -
  note s = refreshed_sym [OF assms]
  show "can_run S' = can_run S" "waits_for S' = waits_for S"
    by (intro ext iffI; rule refreshed_can_run [OF assms] refreshed_can_run [OF s] refreshed_waits_for [OF assms] refreshed_waits_for [OF s]; assumption)+
  have "unblocked_on S2 w t" if "refreshed S1 S2" "unblocked_on S1 w t" for S1 S2 :: "('a, 'b, 'c, 'd) scheduler" and w t
    using that by (auto simp: unblocked_on_def same_but_scheduled_def split: option.splits elim: refreshed_object)
  from this [OF assms] this [OF s] show "unblocked_on S' = unblocked_on S" by (intro ext iffI)
qed

lemma refreshed_HasAny: "refreshed S S' \<Longrightarrow> HasAnyUnblockedTasksOnRunner w S' = HasAnyUnblockedTasksOnRunner w S"
  by (simp add: HasAnyUnblockedTasksOnRunner_def refreshed_eq) (simp add: refreshed_def)

lemma refreshed_wf:
  assumes "refreshed S S'" "sched_wf S"
  shows "sched_wf S'"
  unfolding sched_wf_def
proof
  fix s assume "s \<in> set (sch_sequence_map S')"
  then have "s \<in> set (sch_sequence_map S)" using assms(1) by (simp add: refreshed_def)
  with assms(2) obtain sq x where x: "sched_object s S = Some (sq, x)" "seq_sequence_id sq = s" "sorted (map wf_order_num (seq_wait_fences sq))"
    unfolding sched_wf_def by blast
  obtain y where "sched_object s S' = Some (sq, y)" by (rule refreshed_object [OF assms(1) x(1)])
  with x(2,3) show "\<exists>sq x. sched_object s S' = Some (sq, x) \<and> seq_sequence_id sq = s \<and> sorted (map wf_order_num (seq_wait_fences sq))" by blast
qed

definition runnable_root :: "('k, 'r, 'g, 'w) scheduler \<Rightarrow> u32 \<Rightarrow> bool" where
  "runnable_root S s \<longleftrightarrow> (case sched_object s S of None \<Rightarrow> False | Some (sq, x) \<Rightarrow> IsRunnable sq x)"

text \<open>The priority and the order number by which a root is sorted.\<close>

definition root_key :: "('k, 'r, 'g, 'w) scheduler \<Rightarrow> u32 \<Rightarrow> scheduling_priority \<times> u32" where
  "root_key S s = (case sched_object s S of None \<Rightarrow> (kLow, 0) | Some (sq, x) \<Rightarrow> (ssq_current_priority x, tsk_order_num (hd (seq_tasks sq))))"

lemma refreshed_root:
  assumes r: "refreshed S S'"
  shows "runnable_root S' s = runnable_root S s \<and> root_key S' s = root_key S s"
proof (cases "sched_object s S")
  case None
  then have "sched_object s S' = None" using refreshed_object [OF refreshed_sym [OF r]] by (metis option.distinct(1) option.exhaust surj_pair)
  with None show ?thesis by (simp add: runnable_root_def root_key_def)
next
  case (Some a)
  then obtain sq x where "sched_object s S = Some (sq, x)" by (cases a) simp
  moreover from refreshed_object [OF r this] obtain y where "sched_object s S' = Some (sq, y)" "same_but_scheduled x y" .
  ultimately show ?thesis by (simp add: runnable_root_def root_key_def same_runnable) (simp add: same_but_scheduled_def)
qed

lemma schedule_runnable_ok:
  assumes "\<forall>s \<in> set ss. \<exists>sq x. sched_object s S = Some (sq, x) \<and> seq_sequence_id sq = s"
  shows "\<exists>S'. schedule_runnable ss S =
      Inr (map (\<lambda>s. \<lparr>sst_sequence_id = s, sst_priority = fst (root_key S s), sst_order_num = snd (root_key S s)\<rparr>) (filter (runnable_root S) ss), S') \<and>
    refreshed S S'"
  using assms
proof (induction ss arbitrary: S)
  case (Cons s ss)
  obtain sq x where o: "sched_object s S = Some (sq, x)" "seq_sequence_id sq = s" using Cons.prems by auto
  show ?case
  proof (cases "IsRunnable sq x")
    case False
    with o Cons.IH [of S] Cons.prems show ?thesis by (simp add: runnable_root_def)
  next
    case True
    define y where "y = x\<lparr>ssq_running_state := SCHEDULED,
       ssq_scheduling_state := \<lparr>sst_sequence_id = s, sst_priority = ssq_current_priority x, sst_order_num = tsk_order_num (hd (seq_tasks sq))\<rparr>\<rparr>"
    have set: "SetScheduled sq x = Inr y" using True o(2) by (simp add: SetScheduled_def y_def IsRunnable_def HasTasksAndEnabled_def)
    have "same_but_scheduled x y" using True by (simp add: same_but_scheduled_def y_def IsRunnable_def)
    moreover have "sch_sequences S s = Some x" using o(1) by (auto simp: sched_object_def split: option.splits)
    ultimately have r: "refreshed S (put_sched s y S)" by (rule refreshed_put [rotated])
    have "\<exists>sq x. sched_object t (put_sched s y S) = Some (sq, x) \<and> seq_sequence_id sq = t" if "t \<in> set ss" for t
      using Cons.prems that by (metis list.set_intros(2) r refreshed_object)
    with Cons.IH [of "put_sched s y S"] obtain S' where S': "schedule_runnable ss (put_sched s y S) =
        Inr (map (\<lambda>s. \<lparr>sst_sequence_id = s, sst_priority = fst (root_key S s), sst_order_num = snd (root_key S s)\<rparr>) (filter (runnable_root S) ss), S')"
      "refreshed (put_sched s y S) S'" by (auto simp: refreshed_root [OF r])
    have "root_key S s = (ssq_current_priority x, tsk_order_num (hd (seq_tasks sq)))" "runnable_root S s" using o(1) True by (simp_all add: root_key_def runnable_root_def)
    with o(1) True set S'(1) refreshed_trans [OF r S'(2)] show ?thesis by (simp add: y_def)
  qed
qed simp

lemma first_root_None: "first_root S w l = None \<longleftrightarrow> (\<forall>st \<in> set l. FindNextTaskFromRoot S w (sst_sequence_id st) = None)"
  by (induction l) (auto split: option.splits)

lemma first_root_Some:
  assumes "first_root S w l = Some s" "sorted (map k l)"
  shows "\<exists>st \<in> set l. FindNextTaskFromRoot S w (sst_sequence_id st) = Some s \<and>
    (\<forall>st' \<in> set l. k st' < k st \<longrightarrow> FindNextTaskFromRoot S w (sst_sequence_id st') = None)"
  using assms
proof (induction l)
  case (Cons st l)
  show ?case
  proof (cases "FindNextTaskFromRoot S w (sst_sequence_id st)")
    case None
    with Cons show ?thesis by fastforce
  next
    case (Some r)
    with Cons.prems show ?thesis by fastforce
  qed
qed simp

theorem FindNextTask_ok:
  assumes "sched_wf S"
  shows "\<exists>r S'. FindNextTask w S = Inr (r, S') \<and> refreshed S S' \<and>
    (case r of
       None \<Rightarrow> \<forall>s. \<not> can_run S w s
     | Some s \<Rightarrow> can_run S w s \<and> (\<exists>root \<in> set (sch_sequence_map S). runnable_root S root \<and> (waits_for S)\<^sup>*\<^sup>* root s \<and>
         (\<forall>root' \<in> set (sch_sequence_map S). runnable_root S root' \<longrightarrow> root_key S root' < root_key S root \<longrightarrow>
            (\<forall>s'. (waits_for S)\<^sup>*\<^sup>* root' s' \<longrightarrow> \<not> can_run S w s'))))"
proof -
  let ?state = "\<lambda>s. \<lparr>sst_sequence_id = s, sst_priority = fst (root_key S s), sst_order_num = snd (root_key S s)\<rparr>"
  let ?k = "\<lambda>st. (sst_priority st, sst_order_num st)"
  define l where "l = sort_key ?k (map ?state (filter (runnable_root S) (sch_sequence_map S)))"
  obtain S1 where S1: "schedule_runnable (sch_sequence_map S) S = Inr (map ?state (filter (runnable_root S) (sch_sequence_map S)), S1)" "refreshed S S1"
    using schedule_runnable_ok [of "sch_sequence_map S" S] assms unfolding sched_wf_def by blast
  define S2 where "S2 = S1\<lparr>sch_threads := (sch_threads S1)(w := (sch_threads S1 w)\<lparr>pts_sorted_sequences := l\<rparr>)\<rparr>"
  have f: "FindNextTask w S = Inr (first_root S2 w l, S2)"
    using S1(1) by (simp add: FindNextTask_def GetSortedRunnableSequences_def Let_def l_def S2_def)
  have "refreshed S1 S2" by (simp add: refreshed_def S2_def option.rel_refl)
  from refreshed_trans [OF S1(2) this] have r: "refreshed S S2" .
  have wf: "sched_wf S2" by (rule refreshed_wf [OF r assms])
  have sl: "set l = ?state ` {s \<in> set (sch_sequence_map S). runnable_root S s}" by (simp add: l_def)
  have sorted: "sorted (map ?k l)" by (simp add: l_def)
  note eq = refreshed_eq [OF r]
  show ?thesis
  proof (cases "first_root S2 w l")
    case None
    have "\<not> can_run S w s" for s
    proof
      assume c: "can_run S w s"
      then have "s \<in> set (sch_sequence_map S)" "runnable_root S s"
        by (auto simp: can_run_def Scheduler_GetSequence_def runnable_root_def split: if_splits)
      then have "FindNextTaskFromRoot S2 w s = None" using None sl by (auto simp: first_root_None)
      from search_complete(1) [OF wf this rtranclp.rtrancl_refl] c show False by (simp add: eq)
    qed
    with f None r show ?thesis by auto
  next
    case (Some s)
    obtain st where st: "st \<in> set l" "FindNextTaskFromRoot S2 w (sst_sequence_id st) = Some s"
      "\<forall>st' \<in> set l. ?k st' < ?k st \<longrightarrow> FindNextTaskFromRoot S2 w (sst_sequence_id st') = None"
      using first_root_Some [OF Some sorted] by blast
    then obtain root where root: "st = ?state root" "root \<in> set (sch_sequence_map S)" "runnable_root S root" using sl by auto
    have found: "can_run S w s" "(waits_for S)\<^sup>*\<^sup>* root s" using search_sound(1) [OF st(2)] root(1) by (simp_all add: eq)
    have "\<not> can_run S w s'" if "root' \<in> set (sch_sequence_map S)" "runnable_root S root'" "root_key S root' < root_key S root" "(waits_for S)\<^sup>*\<^sup>* root' s'" for root' s'
    proof -
      have "?state root' \<in> set l" using that sl by simp
      moreover have "?k (?state root') < ?k st" using that(3) root(1) by simp
      ultimately have "FindNextTaskFromRoot S2 w root' = None" using st(3) by fastforce
      from search_complete(1) [OF wf this] that(4) show ?thesis by (simp add: eq)
    qed
    with found root f Some r show ?thesis by auto
  qed
qed

end
