(* ===== verification/Task_Validation.thy ===== *)
theory Task_Validation
  imports Task_Graph
begin

text \<open>
  What the validation of a task graph achieves. Every task that it marks as validated can run: there is an order of these tasks in which
  each finds the fences it waits for released, by a task before it, by a task that was running or was
  validated earlier, or by force.
\<close>

section \<open>Releases that are accounted for\<close>

definition covers :: "release_map \<Rightarrow> client_id \<Rightarrow> u64 \<Rightarrow> bool" where
  "covers rm c r \<longleftrightarrow> (\<exists>r'. map_of rm c = Some r' \<and> r \<le> r')"

lemma map_of_insort: "map_of rm c = None \<Longrightarrow> map_of (insort_key fst (c, r) rm) = (map_of rm)(c \<mapsto> r)"
  by (induction rm) (auto simp: fun_upd_twist split: if_splits)

lemma covers_Update [simp]: "covers (UpdateReleaseCount c r rm) c' r' \<longleftrightarrow> covers rm c' r' \<or> (c' = c \<and> r' \<le> r)"
  by (auto simp: covers_def UpdateReleaseCount_def update_conv' map_of_insort split: option.splits)

lemma covers_Nil [simp]: "\<not> covers [] c r"
  by (simp add: covers_def)

lemma covers_check: "(case map_of rm c of None \<Rightarrow> False | Some r' \<Rightarrow> r \<le> r') \<longleftrightarrow> covers rm c r"
  by (simp add: covers_def split: option.splits)

text \<open>A task releases at least \<open>r\<close> for the client \<open>c\<close>.\<close>

definition frees :: "sync_token \<Rightarrow> client_id \<Rightarrow> u64 \<Rightarrow> bool" where
  "frees t c r \<longleftrightarrow> SyncToken_HasData t \<and> SyncToken_GetClientId t = c \<and> r \<le> tk_release_count t"

definition add_release :: "sync_token \<Rightarrow> release_map \<Rightarrow> release_map" where
  "add_release t rm = (if SyncToken_HasData t then UpdateReleaseCount (SyncToken_GetClientId t) (tk_release_count t) rm else rm)"

lemma covers_add_release [simp]: "covers (add_release t rm) c r \<longleftrightarrow> covers rm c r \<or> frees t c r"
  by (auto simp: add_release_def frees_def)

lemma first_to_validate_eq:
  "first_to_validate i ts rm = (i + length (takeWhile tsk_validated ts), fold (\<lambda>t. add_release (tsk_release t)) (takeWhile tsk_validated ts) rm)"
  by (induction ts arbitrary: i rm) (simp_all add: add_release_def)

lemma covers_fold: "covers (fold (\<lambda>t. add_release (tsk_release t)) ts rm) c r \<longleftrightarrow> covers rm c r \<or> (\<exists>t \<in> set ts. frees (tsk_release t) c r)"
  by (induction ts arbitrary: rm) auto

lemma GetSequenceValidateState_eq:
  "GetSequenceValidateState s sq v =
     (case vd_states v s of
        Some st \<Rightarrow> (st, v)
      | None \<Rightarrow> ((length (takeWhile tsk_validated (seq_tasks sq)), False),
          v\<lparr>vd_pending_releases := fold (\<lambda>t. add_release (tsk_release t)) (takeWhile tsk_validated (seq_tasks sq))
               (add_release (seq_current_task_release sq) (vd_pending_releases v)),
            vd_states := (vd_states v)(s \<mapsto> (length (takeWhile tsk_validated (seq_tasks sq)), False))\<rparr>))"
  by (simp add: GetSequenceValidateState_def first_to_validate_eq add_release_def Let_def split: option.splits)

section \<open>Graphs up to the marks of validated tasks\<close>

definition plain :: "('k, 'r) sequence \<Rightarrow> ('k, 'r) sequence" where
  "plain sq = sq\<lparr>seq_tasks := map (\<lambda>t. t\<lparr>tsk_validated := False\<rparr>) (seq_tasks sq)\<rparr>"

lemma plain_eq:
  assumes "plain sq = plain sq'"
  shows "length (seq_tasks sq) = length (seq_tasks sq')" "seq_wait_fences sq = seq_wait_fences sq'"
    "seq_current_task_release sq = seq_current_task_release sq'"
    "i < length (seq_tasks sq) \<Longrightarrow> tsk_order_num (seq_tasks sq ! i) = tsk_order_num (seq_tasks sq' ! i)"
    "i < length (seq_tasks sq) \<Longrightarrow> tsk_release (seq_tasks sq ! i) = tsk_release (seq_tasks sq' ! i)"
proof -
  have f: "map (\<lambda>t. t\<lparr>tsk_validated := False\<rparr>) (seq_tasks sq) = map (\<lambda>t. t\<lparr>tsk_validated := False\<rparr>) (seq_tasks sq')"
    using arg_cong [OF assms, of seq_tasks] by (simp add: plain_def)
  show l: "length (seq_tasks sq) = length (seq_tasks sq')" using arg_cong [OF f, of length] by simp
  show "seq_wait_fences sq = seq_wait_fences sq'" using arg_cong [OF assms, of seq_wait_fences] by (simp add: plain_def)
  show "seq_current_task_release sq = seq_current_task_release sq'" using arg_cong [OF assms, of seq_current_task_release] by (simp add: plain_def)
  assume i: "i < length (seq_tasks sq)"
  then have t: "(seq_tasks sq ! i)\<lparr>tsk_validated := False\<rparr> = (seq_tasks sq' ! i)\<lparr>tsk_validated := False\<rparr>"
    using arg_cong [OF f, of "\<lambda>ts. ts ! i"] l by simp
  show "tsk_order_num (seq_tasks sq ! i) = tsk_order_num (seq_tasks sq' ! i)" using arg_cong [OF t, of tsk_order_num] by simp
  show "tsk_release (seq_tasks sq ! i) = tsk_release (seq_tasks sq' ! i)" using arg_cong [OF t, of tsk_release] by simp
qed

lemma plain_fences:
  assumes "plain sq = plain sq'" "i < length (seq_tasks sq)"
  shows "GetTaskWaitFences (seq_tasks sq ! i) sq = GetTaskWaitFences (seq_tasks sq' ! i) sq'"
  using plain_eq(2,4) [OF assms(1)] assms(2) by (simp add: GetTaskWaitFences_def)

definition same_graph :: "(u32 \<times> ('k, 'r) sequence) list \<Rightarrow> (u32 \<times> ('k, 'r) sequence) list \<Rightarrow> bool" where
  "same_graph S S' \<longleftrightarrow> (\<forall>s. map_option plain (map_of S' s) = map_option plain (map_of S s))"

lemma same_graph_get:
  assumes "same_graph S S'" "map_of S' s = Some sq'"
  obtains sq where "map_of S s = Some sq" "plain sq' = plain sq"
  using assms unfolding same_graph_def by (metis option.map_sel option.simps(3) option.map_disc_iff option.exhaust_sel option.sel)

definition marked :: "(u32 \<times> ('k, 'r) sequence) list \<Rightarrow> u32 \<Rightarrow> nat \<Rightarrow> bool" where
  "marked S s i \<longleftrightarrow> (\<exists>sq. map_of S s = Some sq \<and> i < length (seq_tasks sq) \<and> tsk_validated (seq_tasks sq ! i))"

text \<open>
  What is asked of the graph: the order numbers of a sequence increase, and its validated tasks come first. The second fails for a task that
  was continued in front of a validated one.
\<close>

definition graph_ok :: "(u32 \<times> ('k, 'r) sequence) list \<Rightarrow> bool" where
  "graph_ok S \<longleftrightarrow> (\<forall>s sq. map_of S s = Some sq \<longrightarrow> sorted_wrt (<) (map tsk_order_num (seq_tasks sq)) \<and>
     list_all (\<lambda>t. \<not> tsk_validated t) (dropWhile tsk_validated (seq_tasks sq)))"

lemma validated_prefix:
  assumes "list_all (\<lambda>t. \<not> P t) (dropWhile P ts)" "i < length ts"
  shows "P (ts ! i) \<longleftrightarrow> i < length (takeWhile P ts)"
proof (cases "i < length (takeWhile P ts)")
  case True
  then show ?thesis by (metis nth_mem set_takeWhileD takeWhile_nth)
next
  case False
  have "ts ! i = dropWhile P ts ! (i - length (takeWhile P ts))"
    using False by (metis not_less nth_append takeWhile_dropWhile_id)
  moreover have "i - length (takeWhile P ts) < length (dropWhile P ts)"
    using False assms(2) by (metis add_diff_inverse_nat length_append nat_add_left_cancel_less takeWhile_dropWhile_id)
  ultimately show ?thesis using assms(1) False by (simp add: list_all_length)
qed

section \<open>The invariant of the validation\<close>

text \<open>
  What supplies a release: it is forced, a running task has it, or a task that was validated before or comes
  in \<open>ord\<close>.
\<close>

definition supplied :: "(u32 \<times> ('k, 'r) sequence) list \<Rightarrow> release_map \<Rightarrow> (u32 \<times> nat) list \<Rightarrow> client_id \<Rightarrow> u64 \<Rightarrow> bool" where
  "supplied S F ord c r \<longleftrightarrow> covers F c r \<or>
     (\<exists>s sq. map_of S s = Some sq \<and> frees (seq_current_task_release sq) c r) \<or>
     (\<exists>s sq i. map_of S s = Some sq \<and> i < length (seq_tasks sq) \<and> (tsk_validated (seq_tasks sq ! i) \<or> (s, i) \<in> set ord) \<and>
        frees (tsk_release (seq_tasks sq ! i)) c r)"

text \<open>The task \<open>(s, i)\<close> may run after those of \<open>ord\<close>: its predecessors have run, and its fences are supplied.\<close>

definition may_run :: "(u32 \<times> ('k, 'r) sequence) list \<Rightarrow> release_map \<Rightarrow> (u32 \<times> nat) list \<Rightarrow> u32 \<times> nat \<Rightarrow> bool" where
  "may_run S F ord x \<longleftrightarrow> (\<exists>sq. map_of S (fst x) = Some sq \<and> snd x < length (seq_tasks sq) \<and>
     (\<forall>j < snd x. tsk_validated (seq_tasks sq ! j) \<or> (fst x, j) \<in> set ord) \<and>
     (\<forall>f \<in> set (GetTaskWaitFences (seq_tasks sq ! snd x) sq).
        supplied S F ord (SyncToken_GetClientId (wf_sync_token f)) (tk_release_count (wf_sync_token f))))"

inductive runnable :: "(u32 \<times> ('k, 'r) sequence) list \<Rightarrow> release_map \<Rightarrow> (u32 \<times> nat) list \<Rightarrow> bool"
  for S :: "(u32 \<times> ('k, 'r) sequence) list" and F :: release_map where
  run_none: "runnable S F []"
| run_task: "runnable S F ord \<Longrightarrow> may_run S F ord x \<Longrightarrow> runnable S F (ord @ [x])"

lemma supplied_mono:
  assumes "supplied S F ord c r" "\<And>c r. covers F c r \<Longrightarrow> covers F' c r" "set ord \<subseteq> set ord'"
  shows "supplied S F' ord' c r"
  using assms unfolding supplied_def by blast

lemma may_run_mono:
  assumes "may_run S F ord x" "\<And>c r. covers F c r \<Longrightarrow> covers F' c r"
  shows "may_run S F' ord x"
  using assms supplied_mono [of S F ord _ _ F' ord] unfolding may_run_def by blast

lemma runnable_mono:
  assumes "runnable S F ord" "\<And>c r. covers F c r \<Longrightarrow> covers F' c r"
  shows "runnable S F' ord"
  using assms(1)
proof induction
  case (run_task ord x)
  then show ?case using may_run_mono [OF run_task.hyps(2) assms(2)] by (auto intro: runnable.run_task)
qed (rule run_none)

text \<open>The tasks of a sequence before \<^verbatim>\<open>next_to_validate\<close> are the validated ones, and what they release is pending.\<close>

definition state_ok :: "('k, 'r) validation \<Rightarrow> u32 \<Rightarrow> nat \<Rightarrow> bool" where
  "state_ok v s nx \<longleftrightarrow> (\<exists>sq. map_of (vd_sequences v) s = Some sq \<and> nx \<le> length (seq_tasks sq) \<and>
     (\<forall>i < length (seq_tasks sq). tsk_validated (seq_tasks sq ! i) \<longleftrightarrow> i < nx) \<and>
     (\<forall>i < nx. \<forall>c r. frees (tsk_release (seq_tasks sq ! i)) c r \<longrightarrow> covers (vd_pending_releases v) c r))"

definition vd_inv :: "(u32 \<times> ('k, 'r) sequence) list \<Rightarrow> (u32 \<times> nat) list \<Rightarrow> ('k, 'r) validation \<Rightarrow> bool" where
  "vd_inv S ord v \<longleftrightarrow> same_graph S (vd_sequences v) \<and>
     (\<forall>s nx b. vd_states v s = Some (nx, b) \<longrightarrow> state_ok v s nx) \<and>
     (\<forall>s. vd_states v s = None \<longrightarrow> map_of (vd_sequences v) s = map_of S s) \<and>
     runnable S (vd_force_releases v) ord \<and>
     (\<forall>c r. covers (vd_pending_releases v) c r \<longrightarrow> supplied S (vd_force_releases v) ord c r) \<and>
     (\<forall>s i. marked (vd_sequences v) s i \<longleftrightarrow> marked S s i \<or> (s, i) \<in> set ord)"

definition busy :: "('k, 'r) validation \<Rightarrow> u32 \<Rightarrow> bool" where
  "busy v s \<longleftrightarrow> (\<exists>nx. vd_states v s = Some (nx, True))"

text \<open>What a step of the validation leaves alone: the tasks under way, and what is already pending.\<close>

definition vd_step :: "('k, 'r) validation \<Rightarrow> ('k, 'r) validation \<Rightarrow> bool" where
  "vd_step v v' \<longleftrightarrow> (\<forall>s nx. vd_states v s = Some (nx, True) \<longleftrightarrow> vd_states v' s = Some (nx, True)) \<and>
     (\<forall>c r. covers (vd_pending_releases v) c r \<longrightarrow> covers (vd_pending_releases v') c r)"

lemma vd_step_refl: "vd_step v v"
  by (simp add: vd_step_def)

lemma vd_step_trans: "vd_step v v' \<Longrightarrow> vd_step v' v'' \<Longrightarrow> vd_step v v''"
  by (simp add: vd_step_def)

lemma vd_step_states: "vd_step v v' \<Longrightarrow> vd_states v' s = Some (nx, True) \<longleftrightarrow> vd_states v s = Some (nx, True)"
  unfolding vd_step_def by blast

lemma vd_step_busy: "vd_step v v' \<Longrightarrow> busy v' s = busy v s"
  by (auto simp: vd_step_def busy_def)
lemma vd_inv_dest:
  assumes "vd_inv S ord v"
  shows "same_graph S (vd_sequences v)" "runnable S (vd_force_releases v) ord"
    "covers (vd_pending_releases v) c r \<Longrightarrow> supplied S (vd_force_releases v) ord c r"
    "marked (vd_sequences v) s i \<longleftrightarrow> marked S s i \<or> (s, i) \<in> set ord"
    "vd_states v s = None \<Longrightarrow> map_of (vd_sequences v) s = map_of S s" "vd_states v s = Some (nx, b) \<Longrightarrow> state_ok v s nx"
  using assms unfolding vd_inv_def by blast+

lemma state_ok_mono:
  assumes "state_ok v s nx" "map_of (vd_sequences v') s = map_of (vd_sequences v) s"
    "\<And>c r. covers (vd_pending_releases v) c r \<Longrightarrow> covers (vd_pending_releases v') c r"
  shows "state_ok v' s nx"
  using assms unfolding state_ok_def by simp blast

lemma vd_inv_state:
  assumes "vd_inv S ord v" "vd_states v s = Some (nx, b)" "map_of (vd_sequences v) s = Some sq"
  shows "nx \<le> length (seq_tasks sq)" "i < length (seq_tasks sq) \<Longrightarrow> tsk_validated (seq_tasks sq ! i) \<longleftrightarrow> i < nx"
    "i < nx \<Longrightarrow> frees (tsk_release (seq_tasks sq ! i)) c r \<Longrightarrow> covers (vd_pending_releases v) c r"
proof -
  obtain sq' where sq': "map_of (vd_sequences v) s = Some sq'" "nx \<le> length (seq_tasks sq')"
    "\<forall>i < length (seq_tasks sq'). tsk_validated (seq_tasks sq' ! i) \<longleftrightarrow> i < nx"
    "\<forall>i < nx. \<forall>c r. frees (tsk_release (seq_tasks sq' ! i)) c r \<longrightarrow> covers (vd_pending_releases v) c r"
    using vd_inv_dest(6) [OF assms(1,2)] unfolding state_ok_def by blast
  have "sq' = sq" using sq'(1) assms(3) by simp
  with sq'(2-4) show "nx \<le> length (seq_tasks sq)" "i < length (seq_tasks sq) \<Longrightarrow> tsk_validated (seq_tasks sq ! i) \<longleftrightarrow> i < nx"
    "i < nx \<Longrightarrow> frees (tsk_release (seq_tasks sq ! i)) c r \<Longrightarrow> covers (vd_pending_releases v) c r" by blast+
qed

lemma GetSequenceValidateState_ok:
  assumes "graph_ok S" "vd_inv S ord v" "map_of (vd_sequences v) s = Some sq" "GetSequenceValidateState s sq v = ((nx, b), v1)"
  shows "vd_inv S ord v1" "vd_step v v1" "vd_states v1 s = Some (nx, b)" "vd_sequences v1 = vd_sequences v" "b = busy v s"
    "i < length (seq_tasks sq) \<Longrightarrow> tsk_validated (seq_tasks sq ! i) \<longleftrightarrow> i < nx"
proof -
  let ?k = "length (takeWhile tsk_validated (seq_tasks sq))"
  have "vd_inv S ord v1 \<and> vd_step v v1 \<and> vd_states v1 s = Some (nx, b) \<and> vd_sequences v1 = vd_sequences v \<and> b = busy v s"
  proof (cases "vd_states v s")
    case (Some st)
    with assms(2,4) show ?thesis by (auto simp: GetSequenceValidateState_eq vd_step_refl busy_def)
  next
    case None
    have s0: "map_of S s = Some sq" using vd_inv_dest(5) [OF assms(2) None] assms(3) by simp
    then have p: "tsk_validated (seq_tasks sq ! i) \<longleftrightarrow> i < ?k" if "i < length (seq_tasks sq)" for i
      using validated_prefix [OF _ that, of tsk_validated] assms(1) by (auto simp: graph_ok_def)
    have v1: "v1 = v\<lparr>vd_pending_releases := fold (\<lambda>t. add_release (tsk_release t)) (takeWhile tsk_validated (seq_tasks sq))
               (add_release (seq_current_task_release sq) (vd_pending_releases v)), vd_states := (vd_states v)(s \<mapsto> (?k, False))\<rparr>"
      "nx = ?k" "b = False" using assms(4) None by (auto simp: GetSequenceValidateState_eq)
    have tw: "t \<in> set (takeWhile tsk_validated (seq_tasks sq)) \<longleftrightarrow> (\<exists>i < ?k. t = seq_tasks sq ! i)" for t
      by (metis in_set_conv_nth takeWhile_nth)
    have ex: "(\<exists>t \<in> set (takeWhile tsk_validated (seq_tasks sq)). Q t) \<longleftrightarrow> (\<exists>i < ?k. Q (seq_tasks sq ! i))" for Q
      unfolding Bex_def tw by blast
    have kl: "?k \<le> length (seq_tasks sq)" by (rule length_takeWhile_le)
    have cov: "covers (vd_pending_releases v1) c r \<longleftrightarrow> covers (vd_pending_releases v) c r \<or> frees (seq_current_task_release sq) c r \<or>
      (\<exists>i < ?k. frees (tsk_release (seq_tasks sq ! i)) c r)" for c r
      unfolding v1(1) by (simp add: covers_fold ex del: split_paired_Ex)
    have "supplied S (vd_force_releases v1) ord c r" if "covers (vd_pending_releases v1) c r" for c r
    proof -
      from that cov consider "covers (vd_pending_releases v) c r" | "frees (seq_current_task_release sq) c r"
        | i where "i < ?k" "frees (tsk_release (seq_tasks sq ! i)) c r" by blast
      then show ?thesis
      proof cases
        case 1
        from vd_inv_dest(3) [OF assms(2) this] show ?thesis by (simp add: v1)
      next
        case 2
        with s0 show ?thesis by (auto simp: supplied_def)
      next
        case (3 i)
        with p kl have "i < length (seq_tasks sq)" "tsk_validated (seq_tasks sq ! i)" by auto
        with 3 s0 show ?thesis unfolding supplied_def by blast
      qed
    qed
    moreover have "state_ok v1 t n" if st: "vd_states v1 t = Some (n, d)" for t n d
    proof (cases "t = s")
      case True
      with st v1(1) assms(3) p kl cov show ?thesis unfolding state_ok_def by auto
    next
      case False
      with st have "vd_states v t = Some (n, d)" by (simp add: v1(1))
      from state_ok_mono [OF vd_inv_dest(6) [OF assms(2) this]] cov show ?thesis by (simp add: v1(1))
    qed
    moreover have "map_of (vd_sequences v1) t = map_of S t" if "vd_states v1 t = None" for t
      using that vd_inv_dest(5) [OF assms(2), of t] by (simp add: v1(1) split: if_splits)
    moreover have "vd_sequences v1 = vd_sequences v" "vd_force_releases v1 = vd_force_releases v" by (simp_all add: v1(1))
    ultimately have "vd_inv S ord v1" using vd_inv_dest(1,2,4) [OF assms(2)] unfolding vd_inv_def by (simp del: split_paired_All)
    moreover have "vd_step v v1" using None cov by (auto simp: vd_step_def v1(1))
    ultimately show ?thesis using None by (simp add: v1 busy_def)
  qed
  then show "vd_inv S ord v1" "vd_step v v1" "vd_states v1 s = Some (nx, b)" "vd_sequences v1 = vd_sequences v" "b = busy v s" by simp_all
  with vd_inv_state(2) [of S ord v1 s nx b sq i] assms(3)
  show "i < length (seq_tasks sq) \<Longrightarrow> tsk_validated (seq_tasks sq ! i) \<longleftrightarrow> i < nx" by simp
qed

lemma force_release_ok:
  assumes "vd_inv S ord v"
  shows "vd_inv S ord (force_release c r v)" "vd_step v (force_release c r v)" "covers (vd_pending_releases (force_release c r v)) c r"
proof -
  have f: "covers (vd_force_releases v) c' r' \<Longrightarrow> covers (vd_force_releases (force_release c r v)) c' r'" for c' r' by (simp add: force_release_def)
  have "runnable S (vd_force_releases (force_release c r v)) ord" by (rule runnable_mono [OF vd_inv_dest(2) [OF assms] f])
  moreover have "supplied S (vd_force_releases (force_release c r v)) ord c' r'" if "covers (vd_pending_releases (force_release c r v)) c' r'" for c' r'
  proof (cases "covers (vd_pending_releases v) c' r'")
    case True
    from supplied_mono [OF vd_inv_dest(3) [OF assms this] f] show ?thesis by simp
  next
    case False
    with that show ?thesis by (simp add: supplied_def force_release_def)
  qed
  moreover have eq: "vd_sequences (force_release c r v) = vd_sequences v" "vd_states (force_release c r v) = vd_states v" by (simp_all add: force_release_def)
  moreover have "state_ok (force_release c r v) s nx" if "vd_states v s = Some (nx, b)" for s nx b
    by (rule state_ok_mono [OF vd_inv_dest(6) [OF assms that]]) (simp_all add: force_release_def)
  ultimately show "vd_inv S ord (force_release c r v)"
    using vd_inv_dest(1,4,5) [OF assms] unfolding vd_inv_def eq by blast
  show "vd_step v (force_release c r v)" "covers (vd_pending_releases (force_release c r v)) c r"
    by (simp_all add: vd_step_def force_release_def)
qed

section \<open>The recursion\<close>

text \<open>What a call for a task achieves, when at most \<open>n\<close> sequences are not under way.\<close>

definition idle_sequences :: "(u32 \<times> ('k, 'r) sequence) list \<Rightarrow> ('k, 'r) validation \<Rightarrow> u32 set" where
  "idle_sequences S v = {s \<in> dom (map_of S). \<not> busy v s}"

definition validates ::
  "(u32 \<times> ('k, 'r) sequence) list \<Rightarrow> nat \<Rightarrow> (u32 \<Rightarrow> nat \<Rightarrow> ('k, 'r) validation \<Rightarrow> ('k, 'r) validation res) \<Rightarrow> bool" where
  "validates S n f \<longleftrightarrow> (\<forall>ord v s i sq. vd_inv S ord v \<longrightarrow> map_of (vd_sequences v) s = Some sq \<longrightarrow> i < length (seq_tasks sq) \<longrightarrow>
     fst (GetSequenceValidateState s sq v) = (i, False) \<longrightarrow> card (idle_sequences S v) \<le> n \<longrightarrow>
     (\<exists>v' ord'. f s i v = Inr v' \<and> vd_inv S (ord @ ord') v' \<and> vd_step v v' \<and> vd_states v' s = Some (i + 1, False)))"

lemma validatesD:
  assumes "validates S n f" "vd_inv S ord v" "map_of (vd_sequences v) s = Some sq" "i < length (seq_tasks sq)"
    "fst (GetSequenceValidateState s sq v) = (i, False)" "card (idle_sequences S v) \<le> n"
  obtains v' ord' where "f s i v = Inr v'" "vd_inv S (ord @ ord') v'" "vd_step v v'" "vd_states v' s = Some (i + 1, False)"
  using assms unfolding validates_def by blast

lemma idle_sequences_step: "vd_step v v' \<Longrightarrow> idle_sequences S v' = idle_sequences S v"
  by (simp add: idle_sequences_def vd_step_busy)

lemma vd_inv_sequence:
  assumes "vd_inv S ord v" "map_of S s = Some sq0"
  obtains sq where "map_of (vd_sequences v) s = Some sq" "plain sq = plain sq0"
proof -
  have "map_option plain (map_of (vd_sequences v) s) = map_option plain (map_of S s)"
    using vd_inv_dest(1) [OF assms(1)] by (simp add: same_graph_def)
  with assms(2) obtain sq where "map_of (vd_sequences v) s = Some sq" "plain sq = plain sq0" by (auto simp: map_option_eq_Some)
  with that show ?thesis .
qed

text \<open>The tasks up to the one at \<open>j\<close>.\<close>

lemma validate_deps_ok:
  assumes "validates S n f" "vd_inv S ord v" "map_of S s = Some sq0" "vd_states v s = Some (i, False)" "card (idle_sequences S v) \<le> n"
    and "map tsk_order_num ts = map tsk_order_num (seq_tasks sq0)" "sorted_wrt (<) (map tsk_order_num ts)" "j < length ts" "i \<le> j + 1"
  shows "\<exists>v' ord'. validate_deps f (tsk_order_num (ts ! j)) s i (drop i ts) v = Inr v' \<and> vd_inv S (ord @ ord') v' \<and> vd_step v v' \<and>
    vd_states v' s = Some (j + 1, False)"
  using assms(2,4,5,9)
proof (induction "j + 1 - i" arbitrary: ord v i)
  case 0
  then have i: "i = j + 1" by simp
  show ?case
  proof (cases "i < length ts")
    case True
    then have "tsk_order_num (ts ! j) < tsk_order_num (ts ! i)" using assms(7) i by (simp add: sorted_wrt_iff_nth_less)
    moreover have "drop i ts = ts ! i # drop (Suc i) ts" using True by (rule Cons_nth_drop_Suc [symmetric])
    ultimately show ?thesis using "0.prems" i by (intro exI [of _ v] exI [of _ "[]"]) (simp add: vd_step_refl)
  next
    case False
    then show ?thesis using "0.prems" i by (intro exI [of _ v] exI [of _ "[]"]) (simp add: vd_step_refl)
  qed
next
  case (Suc k)
  have ij: "i \<le> j" using Suc.hyps(2) by simp
  have l: "length ts = length (seq_tasks sq0)" using arg_cong [OF assms(6), of length] by simp
  obtain sq where sq: "map_of (vd_sequences v) s = Some sq" "plain sq = plain sq0" by (rule vd_inv_sequence [OF Suc.prems(1) assms(3)])
  have il: "i < length (seq_tasks sq)" using plain_eq(1) [OF sq(2)] l ij assms(8) by simp
  have "fst (GetSequenceValidateState s sq v) = (i, False)" using Suc.prems(2) by (simp add: GetSequenceValidateState_eq)
  from validatesD [OF assms(1) Suc.prems(1) sq(1) il this Suc.prems(3)] obtain v1 ord1 where
    v1: "f s i v = Inr v1" "vd_inv S (ord @ ord1) v1" "vd_step v v1" "vd_states v1 s = Some (i + 1, False)" .
  have "card (idle_sequences S v1) \<le> n" using Suc.prems(3) idle_sequences_step [OF v1(3)] by simp
  from Suc.hyps(1) [OF _ v1(2,4) this] Suc.hyps(2) obtain v2 ord2 where
    v2: "validate_deps f (tsk_order_num (ts ! j)) s (i + 1) (drop (i + 1) ts) v1 = Inr v2" "vd_inv S ((ord @ ord1) @ ord2) v2" "vd_step v1 v2"
      "vd_states v2 s = Some (j + 1, False)" by fastforce
  have "drop i ts = ts ! i # drop (Suc i) ts" using ij assms(8) by (intro Cons_nth_drop_Suc [symmetric]) simp
  moreover have "tsk_order_num (ts ! i) \<le> tsk_order_num (ts ! j)"
    using assms(7,8) ij by (cases "i = j") (auto simp: sorted_wrt_iff_nth_less less_imp_le)
  ultimately have "validate_deps f (tsk_order_num (ts ! j)) s i (drop i ts) v = Inr v2" using v1(1) v2(1) by simp
  with v2 vd_step_trans [OF v1(3) v2(3)] show ?case by (intro exI [of _ v2] exI [of _ "ord1 @ ord2"]) simp
qed

text \<open>After the body of the loop, the fence is accounted for.\<close>

definition fence_pending :: "wait_fence \<Rightarrow> ('k, 'r) validation \<Rightarrow> bool" where
  "fence_pending f v \<longleftrightarrow> covers (vd_pending_releases v) (SyncToken_GetClientId (wf_sync_token f)) (tk_release_count (wf_sync_token f))"

lemma validate_fence_ok:
  assumes "graph_ok S" "validates S n f" "vd_inv S ord v" "card (idle_sequences S v) \<le> n"
  shows "\<exists>v' ord'. validate_fence f fence v = Inr v' \<and> vd_inv S (ord @ ord') v' \<and> vd_step v v' \<and> fence_pending fence v'"
proof -
  let ?c = "SyncToken_GetClientId (wf_sync_token fence)" and ?r = "tk_release_count (wf_sync_token fence)"
  let ?s = "wf_release_sequence_id fence"
  have force: "\<exists>v' ord'. Inr (force_release ?c ?r v1) = (Inr v' :: ('a, 'b) validation res) \<and> vd_inv S (ord @ ord') v' \<and> vd_step v v' \<and> fence_pending fence v'"
    if "vd_inv S ord v1" "vd_step v v1" for v1
    using force_release_ok [OF that(1), of ?c ?r] vd_step_trans [OF that(2)]
    by (intro exI [of _ "force_release ?c ?r v1"] exI [of _ "[]"]) (simp add: fence_pending_def)
  have same: "\<exists>v' ord'. Inr v1 = (Inr v' :: ('a, 'b) validation res) \<and> vd_inv S (ord @ ord') v' \<and> vd_step v v' \<and> fence_pending fence v'"
    if "vd_inv S ord v1" "vd_step v v1" "covers (vd_pending_releases v1) ?c ?r" for v1
    using that by (intro exI [of _ v1] exI [of _ "[]"]) (simp add: fence_pending_def)
  show ?thesis
  proof (cases "map_of (vd_sequences v) ?s")
    case None
    then show ?thesis
      using force [OF assms(3) vd_step_refl] same [OF assms(3) vd_step_refl]
      by (auto simp: validate_fence_def Let_def covers_def split: option.splits)
  next
    case (Some sq)
    obtain nx b v1 where g: "GetSequenceValidateState ?s sq v = ((nx, b), v1)" by (metis surj_pair)
    note g1 = GetSequenceValidateState_ok [OF assms(1,3) Some g]
    have e: "validate_fence f fence v = (if covers (vd_pending_releases v1) ?c ?r then Inr v1
       else (case FindReleaseTask (wf_sync_token fence) sq of
               None \<Rightarrow> Inr (force_release ?c ?r v1)
             | Some t \<Rightarrow> if b then Inr (force_release ?c ?r v1)
                 else validate_deps f (tsk_order_num t) ?s nx (drop nx (seq_tasks sq)) v1))"
      using Some g by (simp add: validate_fence_def Let_def covers_check)
    show ?thesis
    proof (cases "covers (vd_pending_releases v1) ?c ?r \<or> FindReleaseTask (wf_sync_token fence) sq = None \<or> b")
      case True
      then show ?thesis using force [OF g1(1,2)] same [OF g1(1,2)] by (auto simp: e split: option.splits)
    next
      case False
      then obtain t where t: "find (releases_token (wf_sync_token fence)) (seq_tasks sq) = Some t" by (auto simp: FindReleaseTask_def)
      then obtain j where j: "j < length (seq_tasks sq)" "seq_tasks sq ! j = t" "releases_token (wf_sync_token fence) t"
        by (auto simp: find_Some_iff)
      have fr: "frees (tsk_release t) ?c ?r" using j(3) by (simp add: releases_token_def frees_def SyncToken_GetClientId_def)
      have sv1: "map_of (vd_sequences v1) ?s = Some sq" using g1(4) Some by simp
      have "nx \<le> j" using vd_inv_state(3) [OF g1(1,3) sv1, of j ?c ?r] fr j(2) False by (meson not_less)
      moreover obtain sq0 where sq0: "map_of S ?s = Some sq0" "plain sq = plain sq0"
        by (rule same_graph_get [OF vd_inv_dest(1) [OF assms(3)] Some])
      have om: "map tsk_order_num (seq_tasks sq) = map tsk_order_num (seq_tasks sq0)"
        using plain_eq(1,4) [OF sq0(2)] by (intro nth_equalityI) simp_all
      moreover have "sorted_wrt (<) (map tsk_order_num (seq_tasks sq))" unfolding om using assms(1) sq0(1) by (simp add: graph_ok_def)
      moreover have "card (idle_sequences S v1) \<le> n" using assms(4) idle_sequences_step [OF g1(2)] by simp
      moreover have "vd_states v1 ?s = Some (nx, False)" using g1(3) False by simp
      ultimately obtain v2 ord2 where v2: "validate_deps f (tsk_order_num t) ?s nx (drop nx (seq_tasks sq)) v1 = Inr v2"
        "vd_inv S (ord @ ord2) v2" "vd_step v1 v2" "vd_states v2 ?s = Some (j + 1, False)"
        using validate_deps_ok [OF assms(2) g1(1) sq0(1), of nx "seq_tasks sq" j] j(1,2) by auto
      obtain sq2 where sq2: "map_of (vd_sequences v2) ?s = Some sq2" "plain sq2 = plain sq0" by (rule vd_inv_sequence [OF v2(2) sq0(1)])
      have "tsk_release (seq_tasks sq2 ! j) = tsk_release t"
        using plain_eq(1,5) [OF trans [OF sq2(2) sq0(2) [symmetric]]] j(1,2) by simp
      then have "fence_pending fence v2" unfolding fence_pending_def
        using vd_inv_state(3) [OF v2(2,4) sq2(1), of j] fr by simp
      with v2 vd_step_trans [OF g1(2) v2(3)] False t show ?thesis
        by (intro exI [of _ v2] exI [of _ ord2]) (simp add: e FindReleaseTask_def)
    qed
  qed
qed

lemma validate_fences_ok:
  assumes "graph_ok S" "validates S n f" "vd_inv S ord v" "card (idle_sequences S v) \<le> n"
  shows "\<exists>v' ord'. validate_fences f fs v = Inr v' \<and> vd_inv S (ord @ ord') v' \<and> vd_step v v' \<and> (\<forall>fence \<in> set fs. fence_pending fence v')"
  using assms(3,4)
proof (induction fs arbitrary: ord v)
  case Nil
  then show ?case by (intro exI [of _ v] exI [of _ "[]"]) (simp add: vd_step_refl)
next
  case (Cons fence fs)
  obtain v1 ord1 where v1: "validate_fence f fence v = Inr v1" "vd_inv S (ord @ ord1) v1" "vd_step v v1" "fence_pending fence v1"
    using validate_fence_ok [OF assms(1,2) Cons.prems] by blast
  have "card (idle_sequences S v1) \<le> n" using Cons.prems(2) idle_sequences_step [OF v1(3)] by simp
  from Cons.IH [OF v1(2) this] obtain v2 ord2 where v2: "validate_fences f fs v1 = Inr v2" "vd_inv S ((ord @ ord1) @ ord2) v2" "vd_step v1 v2"
    "\<forall>fence \<in> set fs. fence_pending fence v2" by blast
  have "fence_pending fence v2" using v1(4) v2(3) unfolding fence_pending_def vd_step_def by blast
  with v1(1) v2 vd_step_trans [OF v1(3) v2(3)] show ?case by (intro exI [of _ v2] exI [of _ "ord1 @ ord2"]) simp
qed

text \<open>A task under way does not change what is known; when it is done, it joins those that can run.\<close>

lemma vd_inv_begin:
  assumes "vd_inv S ord v" "vd_states v s = Some (i, False)"
  shows "vd_inv S ord (v\<lparr>vd_states := (vd_states v)(s \<mapsto> (i, True))\<rparr>)"
proof -
  let ?v = "v\<lparr>vd_states := (vd_states v)(s \<mapsto> (i, True))\<rparr>"
  have "state_ok ?v t nx" if "vd_states ?v t = Some (nx, b)" for t nx b
  proof (rule state_ok_mono [where v = v])
    show "state_ok v t nx" using that vd_inv_dest(6) [OF assms(1)] assms(2) by (auto split: if_splits)
  qed simp_all
  moreover have "map_of (vd_sequences ?v) t = map_of S t" if "vd_states ?v t = None" for t
    using that vd_inv_dest(5) [OF assms(1), of t] by (simp split: if_splits)
  ultimately show ?thesis using vd_inv_dest(1,2,3,4) [OF assms(1)] unfolding vd_inv_def by (simp del: split_paired_All)
qed

lemma plain_marked: "plain (sq\<lparr>seq_tasks := (seq_tasks sq)[i := (seq_tasks sq ! i)\<lparr>tsk_validated := True\<rparr>]\<rparr>) = plain sq"
proof (cases "i < length (seq_tasks sq)")
  case True
  then show ?thesis by (simp add: plain_def map_update list_update_same_conv)
qed (simp add: plain_def list_update_beyond)

lemma vd_inv_done:
  assumes "vd_inv S ord v" "vd_states v s = Some (i, True)" "map_of (vd_sequences v) s = Some sq" "i < length (seq_tasks sq)"
    and "\<forall>f \<in> set (GetTaskWaitFences (seq_tasks sq ! i) sq). fence_pending f v"
    and "v' = (mark_validated s i (v\<lparr>vd_pending_releases := add_release (tsk_release (seq_tasks sq ! i)) (vd_pending_releases v)\<rparr>))
       \<lparr>vd_states := (vd_states v)(s \<mapsto> (i + 1, False))\<rparr>"
  shows "vd_inv S (ord @ [(s, i)]) v'"
proof -
  let ?sq = "sq\<lparr>seq_tasks := (seq_tasks sq)[i := (seq_tasks sq ! i)\<lparr>tsk_validated := True\<rparr>]\<rparr>"
  have seqs: "map_of (vd_sequences v') = (map_of (vd_sequences v))(s \<mapsto> ?sq)" and
    rest: "vd_force_releases v' = vd_force_releases v" "vd_states v' = (vd_states v)(s \<mapsto> (i + 1, False))" and
    cov: "covers (vd_pending_releases v') c r \<longleftrightarrow> covers (vd_pending_releases v) c r \<or> frees (tsk_release (seq_tasks sq ! i)) c r" for c r
    using assms(3) by (simp_all add: assms(6) mark_validated_def update_conv')
  obtain sq0 where sq0: "map_of S s = Some sq0" "plain sq = plain sq0" by (rule same_graph_get [OF vd_inv_dest(1) [OF assms(1)] assms(3)])
  have i0: "i < length (seq_tasks sq0)" "tsk_release (seq_tasks sq0 ! i) = tsk_release (seq_tasks sq ! i)"
    "GetTaskWaitFences (seq_tasks sq0 ! i) sq0 = GetTaskWaitFences (seq_tasks sq ! i) sq"
    using plain_eq(1,5) [OF sq0(2)] plain_fences [OF sq0(2) assms(4)] assms(4) by simp_all
  have "same_graph S (vd_sequences v')"
    using vd_inv_dest(1) [OF assms(1)] sq0 plain_marked [of sq i] by (auto simp: same_graph_def seqs)
  moreover have "state_ok v' t nx" if "vd_states v' t = Some (nx, b)" for t nx b
  proof (cases "t = s")
    case True
    then have nx: "nx = i + 1" using that rest(2) by simp
    show ?thesis unfolding state_ok_def
    proof (intro exI [of _ ?sq] conjI allI impI)
      show "map_of (vd_sequences v') t = Some ?sq" using True seqs by simp
      show "nx \<le> length (seq_tasks ?sq)" using nx assms(4) by simp
      fix k assume "k < length (seq_tasks ?sq)"
      with nx vd_inv_state(2) [OF assms(1-3), of k] assms(4) show "tsk_validated (seq_tasks ?sq ! k) \<longleftrightarrow> k < nx"
        by (cases "k = i") (auto simp: nth_list_update)
    next
      fix k c r assume k: "k < nx" "frees (tsk_release (seq_tasks ?sq ! k)) c r"
      show "covers (vd_pending_releases v') c r"
      proof (cases "k = i")
        case True
        with k assms(4) cov show ?thesis by simp
      next
        case False
        with k nx vd_inv_state(3) [OF assms(1-3), of k c r] cov show ?thesis by simp
      qed
    qed
  next
    case False
    with that rest(2) have "vd_states v t = Some (nx, b)" by simp
    from state_ok_mono [OF vd_inv_dest(6) [OF assms(1) this]] False seqs cov show ?thesis by simp
  qed
  moreover have "map_of (vd_sequences v') t = map_of S t" if "vd_states v' t = None" for t
    using that vd_inv_dest(5) [OF assms(1), of t] by (simp add: seqs rest(2) split: if_splits)
  moreover have "runnable S (vd_force_releases v') (ord @ [(s, i)])"
  proof (rule run_task)
    show "runnable S (vd_force_releases v') ord" using vd_inv_dest(2) [OF assms(1)] rest(1) by simp
    have "tsk_validated (seq_tasks sq0 ! j) \<or> (s, j) \<in> set ord" if "j < i" for j
    proof -
      have "marked (vd_sequences v) s j" using that assms(3,4) vd_inv_state(2) [OF assms(1-3), of j] by (simp add: marked_def)
      then show ?thesis using vd_inv_dest(4) [OF assms(1)] sq0(1) by (auto simp: marked_def)
    qed
    moreover have "supplied S (vd_force_releases v') ord (SyncToken_GetClientId (wf_sync_token f)) (tk_release_count (wf_sync_token f))"
      if "f \<in> set (GetTaskWaitFences (seq_tasks sq0 ! i) sq0)" for f
      using assms(5) that vd_inv_dest(3) [OF assms(1)] rest(1) i0(3) by (simp add: fence_pending_def)
    ultimately show "may_run S (vd_force_releases v') ord (s, i)" using sq0(1) i0(1) by (simp add: may_run_def)
  qed
  moreover have "supplied S (vd_force_releases v') (ord @ [(s, i)]) c r" if "covers (vd_pending_releases v') c r" for c r
  proof (cases "covers (vd_pending_releases v) c r")
    case True
    show ?thesis by (rule supplied_mono [OF vd_inv_dest(3) [OF assms(1) True]]) (auto simp: rest(1))
  next
    case False
    with that cov have "frees (tsk_release (seq_tasks sq0 ! i)) c r" using i0(2) by simp
    with sq0(1) i0(1) show ?thesis unfolding supplied_def by (metis in_set_conv_decomp)
  qed
  moreover have "marked (vd_sequences v') t k \<longleftrightarrow> marked S t k \<or> (t, k) \<in> set (ord @ [(s, i)])" for t k
  proof -
    have "marked (vd_sequences v') t k \<longleftrightarrow> marked (vd_sequences v) t k \<or> (t, k) = (s, i)"
      using assms(3,4) by (cases "t = s"; cases "k = i") (simp_all add: marked_def seqs)
    with vd_inv_dest(4) [OF assms(1), of t k] show ?thesis by auto
  qed
  ultimately show ?thesis unfolding vd_inv_def by blast
qed

theorem ValidateTaskFenceDeps_ok:
  assumes "graph_ok S"
  shows "validates S n (ValidateTaskFenceDeps n)"
proof (induction n)
  case 0
  have "\<not> card (idle_sequences S v) \<le> 0"
    if c: "vd_inv S ord v" "map_of (vd_sequences v) s = Some sq" "fst (GetSequenceValidateState s sq v) = (i, False)" for ord v s i sq
  proof -
    obtain v1 where g: "GetSequenceValidateState s sq v = ((i, False), v1)" using c(3) by (metis prod.collapse)
    have "\<not> busy v s" using GetSequenceValidateState_ok(5) [OF assms c(1,2) g] by simp
    moreover have "s \<in> dom (map_of S)" using same_graph_get [OF vd_inv_dest(1) [OF c(1)] c(2)] by blast
    ultimately have "s \<in> idle_sequences S v" by (simp add: idle_sequences_def)
    moreover have "finite (idle_sequences S v)" by (simp add: idle_sequences_def finite_dom_map_of)
    ultimately show ?thesis by (auto simp: card_eq_0_iff)
  qed
  then show ?case unfolding validates_def by blast
next
  case (Suc n)
  show ?case unfolding validates_def
  proof (intro allI impI)
    fix ord v s i sq
    assume inv: "vd_inv S ord v" and sq: "map_of (vd_sequences v) s = Some sq" and i: "i < length (seq_tasks sq)"
      and "fst (GetSequenceValidateState s sq v) = (i, False)" and n: "card (idle_sequences S v) \<le> Suc n"
    then obtain v1 where g: "GetSequenceValidateState s sq v = ((i, False), v1)" by (metis prod.collapse)
    note g1 = GetSequenceValidateState_ok [OF assms inv sq g]
    let ?v = "v1\<lparr>vd_states := (vd_states v1)(s \<mapsto> (i, True))\<rparr>"
    have b: "vd_inv S ord ?v" by (rule vd_inv_begin [OF g1(1,3)])
    have "s \<in> idle_sequences S v"
      using g1(5) same_graph_get [OF vd_inv_dest(1) [OF inv] sq] by (auto simp: idle_sequences_def)
    moreover have "idle_sequences S ?v = idle_sequences S v - {s}"
      using vd_step_busy [OF g1(2)] by (auto simp: idle_sequences_def busy_def)
    moreover have "finite (idle_sequences S v)" by (simp add: idle_sequences_def finite_dom_map_of)
    ultimately have "card (idle_sequences S ?v) \<le> n" using n by (simp add: card_Diff_singleton)
    from validate_fences_ok [OF assms Suc.IH b this] obtain v2 ord2 where
      v2: "validate_fences (ValidateTaskFenceDeps n) (GetTaskWaitFences (seq_tasks sq ! i) sq) ?v = Inr v2" "vd_inv S (ord @ ord2) v2" "vd_step ?v v2"
        "\<forall>f \<in> set (GetTaskWaitFences (seq_tasks sq ! i) sq). fence_pending f v2" by blast
    have st2: "vd_states v2 s = Some (i, True)" by (simp add: vd_step_states [OF v2(3)])
    define v3 where "v3 = (mark_validated s i (v2\<lparr>vd_pending_releases := add_release (tsk_release (seq_tasks sq ! i)) (vd_pending_releases v2)\<rparr>))
       \<lparr>vd_states := (vd_states v2)(s \<mapsto> (i + 1, False))\<rparr>"
    obtain sq0 where sq0: "map_of S s = Some sq0" "plain sq = plain sq0" by (rule same_graph_get [OF vd_inv_dest(1) [OF inv] sq])
    obtain sq2 where sq2: "map_of (vd_sequences v2) s = Some sq2" "plain sq2 = plain sq0" by (rule vd_inv_sequence [OF v2(2) sq0(1)])
    have p2: "plain sq2 = plain sq" using sq0(2) sq2(2) by simp
    have i2: "i < length (seq_tasks sq2)" "tsk_release (seq_tasks sq2 ! i) = tsk_release (seq_tasks sq ! i)"
      "GetTaskWaitFences (seq_tasks sq2 ! i) sq2 = GetTaskWaitFences (seq_tasks sq ! i) sq"
      using plain_eq(1,5) [OF p2] plain_fences [OF p2] i by simp_all
    have inv3: "vd_inv S ((ord @ ord2) @ [(s, i)]) v3"
      by (rule vd_inv_done [OF v2(2) st2 sq2(1) i2(1)]) (use v2(4) i2 in \<open>simp_all add: v3_def\<close>)
    have pend: "vd_pending_releases v3 = add_release (tsk_release (seq_tasks sq ! i)) (vd_pending_releases v2)"
      using sq2(1) by (simp add: v3_def mark_validated_def)
    have "vd_step v v3" unfolding vd_step_def
    proof (intro conjI allI impI)
      fix t nx
      have "vd_states v s \<noteq> Some (nx, True)" using g1(5) by (auto simp: busy_def)
      then show "vd_states v t = Some (nx, True) \<longleftrightarrow> vd_states v3 t = Some (nx, True)"
        by (cases "t = s") (simp_all add: v3_def vd_step_states [OF v2(3)] vd_step_states [OF g1(2)])
    next
      fix c r assume "covers (vd_pending_releases v) c r"
      then have "covers (vd_pending_releases v1) c r" using g1(2) unfolding vd_step_def by blast
      then have "covers (vd_pending_releases ?v) c r" by simp
      then have "covers (vd_pending_releases v2) c r" using v2(3) unfolding vd_step_def by blast
      then show "covers (vd_pending_releases v3) c r" unfolding pend by simp
    qed
    moreover have "ValidateTaskFenceDeps (Suc n) s i v = Inr v3"
      using sq i g v2(1) by (simp add: v3_def add_release_def mark_validated_def sq2(1) Let_def)
    moreover have "vd_states v3 s = Some (i + 1, False)" by (simp add: v3_def)
    ultimately show "\<exists>v' ord'. ValidateTaskFenceDeps (Suc n) s i v = Inr v' \<and> vd_inv S (ord @ ord') v' \<and> vd_step v v' \<and> vd_states v' s = Some (i + 1, False)"
      using inv3 by (intro exI [of _ v3] exI [of _ "ord2 @ [(s, i)]"]) simp
  qed
qed

section \<open>Validating a sequence\<close>

text \<open>The first tasks of the root sequence, as many as are old enough, are validated.\<close>

lemma validate_root_ok:
  assumes "graph_ok S" "map_of S s = Some root" "card (dom (map_of S)) \<le> n"
    and "vd_inv S ord v" "\<And>t. \<not> busy v t" "\<forall>j < i. marked (vd_sequences v) s j" "i \<le> length (seq_tasks root)"
  shows "\<exists>v' ord'. validate_root n now s i (drop i (seq_tasks root)) v = Inr v' \<and> vd_inv S (ord @ ord') v' \<and>
    (\<forall>j < length (takeWhile (\<lambda>t. kMinValidationDelay < now - tsk_registration t) (drop i (seq_tasks root))). marked (vd_sequences v') s (i + j)) \<and>
    (\<forall>j < i. marked (vd_sequences v') s j)"
  using assms(4-7)
proof (induction "length (seq_tasks root) - i" arbitrary: i v ord)
  case 0
  then show ?case by (intro exI [of _ v] exI [of _ "[]"]) simp
next
  case (Suc k)
  let ?old = "\<lambda>t. kMinValidationDelay < now - tsk_registration t"
  have il: "i < length (seq_tasks root)" using Suc.hyps(2) by simp
  then have d: "drop i (seq_tasks root) = seq_tasks root ! i # drop (Suc i) (seq_tasks root)" by (rule Cons_nth_drop_Suc [symmetric])
  obtain sq where sq: "map_of (vd_sequences v) s = Some sq" "plain sq = plain root" by (rule vd_inv_sequence [OF Suc.prems(1) assms(2)])
  have i': "i < length (seq_tasks sq)" using plain_eq(1) [OF sq(2)] il by simp
  have step: "\<exists>v' ord'. validate_root n now s (i + 1) (drop (i + 1) (seq_tasks root)) v1 = Inr v' \<and> vd_inv S ((ord @ ord1) @ ord') v' \<and>
      (\<forall>j < length (takeWhile ?old (drop (i + 1) (seq_tasks root))). marked (vd_sequences v') s (i + 1 + j)) \<and> (\<forall>j < i + 1. marked (vd_sequences v') s j)"
    if "vd_inv S (ord @ ord1) v1" "\<And>t. \<not> busy v1 t" "\<forall>j < i + 1. marked (vd_sequences v1) s j" for v1 ord1
    using Suc.hyps(1) [OF _ that] Suc.hyps(2) il by simp
  have shift: "marked S' s (i + j)" if "\<forall>j < length (takeWhile ?old (drop (i + 1) (seq_tasks root))). marked S' s (i + 1 + j)" "marked S' s i"
    "j < Suc (length (takeWhile ?old (drop (Suc i) (seq_tasks root))))" for S' j
    using that by (cases j) simp_all
  show ?case
  proof (cases "?old (seq_tasks root ! i)")
    case False
    with Suc.prems(1,3) d show ?thesis by (intro exI [of _ v] exI [of _ "[]"]) (simp add: not_less)
  next
    case True
    show ?thesis
    proof (cases "tsk_validated (seq_tasks sq ! i)")
      case m: True
      then have "marked (vd_sequences v) s i" using sq(1) i' by (simp add: marked_def)
      with Suc.prems(3) have "\<forall>j < i + 1. marked (vd_sequences v) s j" by (auto simp: less_Suc_eq)
      from step [of "[]" v] Suc.prems(1,2) this obtain v' ord' where v': "validate_root n now s (i + 1) (drop (i + 1) (seq_tasks root)) v = Inr v'"
        "vd_inv S (ord @ ord') v'" "\<forall>j < length (takeWhile ?old (drop (i + 1) (seq_tasks root))). marked (vd_sequences v') s (i + 1 + j)"
        "\<forall>j < i + 1. marked (vd_sequences v') s j" by auto
      with d True m sq(1) shift [OF v'(3)] show ?thesis by (intro exI [of _ v'] exI [of _ ord']) (simp add: not_less)
    next
      case m: False
      obtain nx b v0 where g: "GetSequenceValidateState s sq v = ((nx, b), v0)" by (metis surj_pair)
      note g1 = GetSequenceValidateState_ok [OF assms(1) Suc.prems(1) sq(1) g]
      have "nx = i"
      proof (rule antisym)
        show "nx \<le> i" using g1(6) [OF i'] m by simp
        show "i \<le> nx"
        proof (rule ccontr)
          assume "\<not> i \<le> nx"
          then have "marked (vd_sequences v) s nx" "nx < length (seq_tasks sq)" using Suc.prems(3) i' by simp_all
          then show False using g1(6) [of nx] sq(1) by (simp add: marked_def)
        qed
      qed
      then have fs: "fst (GetSequenceValidateState s sq v) = (i, False)" using g g1(5) Suc.prems(2) by simp
      have "idle_sequences S v = dom (map_of S)" using Suc.prems(2) by (auto simp: idle_sequences_def)
      then have c: "card (idle_sequences S v) \<le> n" using assms(3) by simp
      from validatesD [OF ValidateTaskFenceDeps_ok [OF assms(1)] Suc.prems(1) sq(1) i' fs c] obtain v1 ord1 where
        v1: "ValidateTaskFenceDeps n s i v = Inr v1" "vd_inv S (ord @ ord1) v1" "vd_step v v1" "vd_states v1 s = Some (i + 1, False)" .
      obtain sq1 where sq1: "map_of (vd_sequences v1) s = Some sq1" "plain sq1 = plain root" by (rule vd_inv_sequence [OF v1(2) assms(2)])
      have "marked (vd_sequences v1) s j" if "j < i + 1" for j
        using that vd_inv_state(1) [OF v1(2,4) sq1(1)] vd_inv_state(2) [OF v1(2,4) sq1(1), of j] sq1(1) by (simp add: marked_def)
      moreover have "\<not> busy v1 t" for t using vd_step_busy [OF v1(3)] Suc.prems(2) by simp
      ultimately obtain v' ord' where v': "validate_root n now s (i + 1) (drop (i + 1) (seq_tasks root)) v1 = Inr v'"
        "vd_inv S ((ord @ ord1) @ ord') v'" "\<forall>j < length (takeWhile ?old (drop (i + 1) (seq_tasks root))). marked (vd_sequences v') s (i + 1 + j)"
        "\<forall>j < i + 1. marked (vd_sequences v') s j" using step [OF v1(2)] by blast
      with d True m sq(1) v1(1) shift [OF v'(3)] show ?thesis by (intro exI [of _ v'] exI [of _ "ord1 @ ord'"]) (simp add: not_less)
    qed
  qed
qed

theorem validate_sequence_ok:
  assumes "graph_ok S" "map_of S (seq_sequence_id root) = Some root"
  shows "\<exists>v ord. validate_sequence now root S = Inr v \<and> same_graph S (vd_sequences v) \<and> runnable S (vd_force_releases v) ord \<and>
    (\<forall>s i. marked (vd_sequences v) s i \<longleftrightarrow> marked S s i \<or> (s, i) \<in> set ord) \<and>
    (\<forall>i < length (takeWhile (\<lambda>t. kMinValidationDelay < now - tsk_registration t) (seq_tasks root)). marked (vd_sequences v) (seq_sequence_id root) i)"
proof -
  let ?v = "\<lparr>vd_sequences = S, vd_pending_releases = [], vd_force_releases = [], vd_states = (\<lambda>_. None)\<rparr>"
  have "vd_inv S [] ?v" by (simp add: vd_inv_def same_graph_def run_none)
  moreover have "card (dom (map_of S)) \<le> length S"
    by (metis card_length dom_map_of_conv_image_fst length_map list.set_map)
  moreover have "\<not> busy ?v t" for t by (simp add: busy_def)
  ultimately obtain v ord where "validate_sequence now root S = Inr v" "vd_inv S ord v"
    "\<forall>i < length (takeWhile (\<lambda>t. kMinValidationDelay < now - tsk_registration t) (seq_tasks root)). marked (vd_sequences v) (seq_sequence_id root) i"
    using validate_root_ok [OF assms, of "length S" "[]" ?v 0 now] by (auto simp: validate_sequence_def)
  with vd_inv_dest(1,2,4) show ?thesis by blast
qed

end
