(* ===== verification/Scheduler_Steps.thy ===== *)
theory Scheduler_Steps
  imports Scheduler_Search Task_Validation
begin

text \<open>
  The threads of the GPU process at work: the steps that \<^verbatim>\<open>Scheduler\<close> and its clients take, each the part of an operation between taking
  the lock and giving it up, in any order. In every state that is reached a thread with a task that it could
  run is awake.
\<close>

section \<open>Steps\<close>

text \<open>Where a thread is in \<^verbatim>\<open>RunNextTask\<close>; it may run the closure of a task in \<open>In_task\<close>.\<close>

datatype pc =
    Between
  | Picked u32
  | Begun u32 u32 sync_token
  | In_task u32 u32 sync_token
  | Released u32 u32
  | Processed u32
  | Ended

fun executing :: "pc \<Rightarrow> u32 option" where
  "executing (Begun s n r) = Some s"
| "executing (In_task s n r) = Some s"
| "executing (Released s n) = Some s"
| "executing (Processed s) = Some s"
| "executing p = None"

fun owner :: "pc \<Rightarrow> u32 option" where
  "owner (Picked s) = Some s"
| "owner p = executing p"

text \<open>
  The scheduler, the closures that sync points have yet to run, where each thread is, and the sequences whose
  destructor has yet to run.
\<close>

record ('k, 'r, 'g, 'w) world =
  wd_scheduler :: "('k, 'r, 'g, 'w) scheduler"
  wd_closures :: "fence_closure multiset"
  wd_pc :: "'w \<Rightarrow> pc"
  wd_dying :: "('k, 'r) sequence list"

abbreviation goes_on :: "('k, 'r, 'g, 'w) world \<Rightarrow> 'w \<Rightarrow> pc \<Rightarrow> fence_closure list \<Rightarrow> ('k, 'r, 'g, 'w) scheduler \<Rightarrow> ('k, 'r, 'g, 'w) world" where
  "goes_on W w p run S \<equiv> W\<lparr>wd_scheduler := S, wd_closures := wd_closures W + mset run, wd_pc := (wd_pc W)(w := p)\<rparr>"

inductive sched_step :: "'g base_ids \<Rightarrow> ('k, 'r, 'g, 'w) world \<Rightarrow> ('k, 'r, 'g, 'w) world \<Rightarrow> bool"
  for ids :: "'g base_ids" and W :: "('k, 'r, 'g, 'w) world" where
  step_create: "Scheduler_CreateSequence ids priority w namespace_id command_buffer_id (wd_scheduler W) = Inr (s, S) \<Longrightarrow>
    sched_step ids W (W\<lparr>wd_scheduler := S\<rparr>)"
| step_client_state: "Scheduler_CreateSyncPointClientState s namespace_id command_buffer_id (wd_scheduler W) = Inr S \<Longrightarrow>
    sched_step ids W (W\<lparr>wd_scheduler := S\<rparr>)"
| step_no_client_state: "TaskGraph_GetSequence s (sch_task_graph (wd_scheduler W)) = Some sq \<Longrightarrow>
    TakeSyncPointClientState namespace_id command_buffer_id (sch_points (wd_scheduler W)) sq = (Some i, sq1) \<Longrightarrow>
    DestroySyncPointClientState i (sch_points (wd_scheduler W)) = Inr (run, m) \<Longrightarrow>
    sched_step ids W (W\<lparr>wd_scheduler := put_graph s sq1 (put_points m (wd_scheduler W)), wd_closures := wd_closures W + mset run\<rparr>)"
| step_enable: "EnableSequence now s (wd_scheduler W) = Inr S \<Longrightarrow> sched_step ids W (W\<lparr>wd_scheduler := S\<rparr>)"
| step_disable: "DisableSequence now s (wd_scheduler W) = Inr S \<Longrightarrow> sched_step ids W (W\<lparr>wd_scheduler := S\<rparr>)"
| step_priority: "sched_step ids W (W\<lparr>wd_scheduler := SetSequencePriority s priority (wd_scheduler W)\<rparr>)"
| step_schedule: "ScheduleTaskHelper ids now t (wd_scheduler W) = Inr S \<Longrightarrow> sched_step ids W (W\<lparr>wd_scheduler := S\<rparr>)"
| step_release: "SyncPointManager_EnsureFenceSyncReleased token cause (sch_points (wd_scheduler W)) = Inr (run, m) \<Longrightarrow>
    sched_step ids W (W\<lparr>wd_scheduler := put_points m (wd_scheduler W), wd_closures := wd_closures W + mset run\<rparr>)"
| step_validate: "validate_sequence now root (tg_sequence_map (sch_task_graph (wd_scheduler W))) = Inr v \<Longrightarrow>
    sched_step ids W (W\<lparr>wd_scheduler := (wd_scheduler W)\<lparr>sch_task_graph := (sch_task_graph (wd_scheduler W))\<lparr>tg_sequence_map := vd_sequences v\<rparr>\<rparr>\<rparr>)"
| step_closure: "c \<in># wd_closures W \<Longrightarrow> Scheduler_FenceReleased now c (wd_scheduler W) = Inr S \<Longrightarrow>
    sched_step ids W (W\<lparr>wd_scheduler := S, wd_closures := wd_closures W - {#c#}\<rparr>)"
| step_continue: "wd_pc W w = In_task s n r \<Longrightarrow> Scheduler_ContinueTask ids now w s k (wd_scheduler W) = Inr S \<Longrightarrow>
    sched_step ids W (W\<lparr>wd_scheduler := S\<rparr>)"
| step_yield: "wd_pc W w = In_task s n r \<Longrightarrow> ShouldYield w s (wd_scheduler W) = Inr (b, S) \<Longrightarrow> sched_step ids W (W\<lparr>wd_scheduler := S\<rparr>)"
| step_pick: "wd_pc W w = Between \<Longrightarrow> 0 < sch_posted (wd_scheduler W) w \<Longrightarrow>
    RunNextTask_pick w ((wd_scheduler W)\<lparr>sch_posted := (sch_posted (wd_scheduler W))(w := sch_posted (wd_scheduler W) w - 1)\<rparr>) = Inr (r, S) \<Longrightarrow>
    sched_step ids W (goes_on W w (case r of None \<Rightarrow> Between | Some s \<Rightarrow> Picked s) [] S)"
| step_begin: "wd_pc W w = Picked s \<Longrightarrow> ExecuteSequence_begin w s (wd_scheduler W) = Inr (n, k, r, report, S) \<Longrightarrow>
    sched_step ids W (goes_on W w (Begun s n r) [] S)"
| step_process: "wd_pc W w = Begun s n r \<Longrightarrow> BeginProcessingOrderNumber n s (sch_points (wd_scheduler W)) = Inr m \<Longrightarrow>
    sched_step ids W (goes_on W w (In_task s n r) [] (put_points m (wd_scheduler W)))"
| step_done: "wd_pc W w = In_task s n r \<Longrightarrow> still_processing s (wd_scheduler W) = Inr True \<Longrightarrow>
    ExecuteSequence_release r (wd_scheduler W) = Inr (run, S) \<Longrightarrow> sched_step ids W (goes_on W w (Released s n) run S)"
| step_paused: "wd_pc W w = In_task s n r \<Longrightarrow> still_processing s (wd_scheduler W) = Inr False \<Longrightarrow>
    sched_step ids W (goes_on W w (Processed s) [] (wd_scheduler W))"
| step_finish: "wd_pc W w = Released s n \<Longrightarrow> ExecuteSequence_processed n s (wd_scheduler W) = Inr (run, S) \<Longrightarrow>
    sched_step ids W (goes_on W w (Processed s) run S)"
| step_end: "wd_pc W w = Processed s \<Longrightarrow> ExecuteSequence_end ids s (wd_scheduler W) = Inr S \<Longrightarrow> sched_step ids W (goes_on W w Ended [] S)"
| step_again: "wd_pc W w = Ended \<Longrightarrow> sched_step ids W (goes_on W w Between [] (RunNextTask_again now w (wd_scheduler W)))"
| step_unmap: "sched_step ids W (W\<lparr>wd_scheduler := DestroySequence_unmap s (wd_scheduler W)\<rparr>)"
| step_take: "s \<notin> set (sch_sequence_map (wd_scheduler W)) \<Longrightarrow> DestroySequence_take s (wd_scheduler W) = Inr (run, sq, S) \<Longrightarrow>
    sched_step ids W (W\<lparr>wd_scheduler := S, wd_closures := wd_closures W + mset run, wd_dying := sq # wd_dying W\<rparr>)"
| step_delete: "sq \<in> set (wd_dying W) \<Longrightarrow> delete_Sequence now sq (wd_scheduler W) = Inr S \<Longrightarrow>
    sched_step ids W (W\<lparr>wd_scheduler := S, wd_dying := remove1 sq (wd_dying W)\<rparr>)"

definition start_of_threads :: "'g points \<Rightarrow> ('k, 'r, 'g, 'w) world" where
  "start_of_threads m = \<lparr>wd_scheduler = new_Scheduler m, wd_closures = {#}, wd_pc = (\<lambda>_. Between), wd_dying = []\<rparr>"

inductive sched_run :: "'g base_ids \<Rightarrow> ('k, 'r, 'g, 'w) world \<Rightarrow> bool" for ids :: "'g base_ids" where
  run_start: "sched_run ids (start_of_threads m)"
| run_step: "sched_run ids W \<Longrightarrow> sched_step ids W W' \<Longrightarrow> sched_run ids W'"

section \<open>What sync points keep\<close>

text \<open>The order number that a sequence processes, and whether it has paused.\<close>

definition proc :: "('c, 'g) sync_points \<Rightarrow> u32 \<Rightarrow> (u32 \<times> bool) option" where
  "proc m s = map_option (\<lambda>od. (od_current_order_num od, od_paused od)) (spm_order_data m s)"

definition same_proc :: "('c, 'g) sync_points \<Rightarrow> ('c, 'g) sync_points \<Rightarrow> bool" where
  "same_proc m m' \<longleftrightarrow> spm_generators m' = spm_generators m \<and> proc m' = proc m"

lemma same_proc_refl [simp]: "same_proc m m"
  by (simp add: same_proc_def)

lemma same_proc_trans: "same_proc m m' \<Longrightarrow> same_proc m' m'' \<Longrightarrow> same_proc m m''"
  by (simp add: same_proc_def)

lemma same_orders_proc: "same_orders m m' \<Longrightarrow> same_proc m m'"
  by (simp add: same_orders_def same_proc_def proc_def fun_eq_iff)

lemma put_state_proc [simp]: "same_proc m (put_state i cs m)"
  by (simp add: same_proc_def proc_def put_state_def fun_eq_iff)

lemma put_order_proc:
  "spm_order_data m s = Some od \<Longrightarrow> od_current_order_num od' = od_current_order_num od \<Longrightarrow> od_paused od' = od_paused od \<Longrightarrow> same_proc m (put_order s od' m)"
  by (simp add: same_proc_def proc_def put_order_def fun_eq_iff)

lemma EnsureFenceSyncReleased_proc:
  assumes "SyncPointManager_EnsureFenceSyncReleased t cause m = Inr (run, m')"
  shows "same_proc m m'"
  using assms by (auto simp: SyncPointManager_EnsureFenceSyncReleased_def with_state_def res_simps split: if_splits option.splits)

lemma ValidateReleaseOrderNumber_proc:
  assumes "ValidateReleaseOrderNumber s i w r m = Inr (n, m')"
  shows "same_proc m m'"
  using assms by (auto simp: ValidateReleaseOrderNumber_def with_order_def GenerateCallbackId_def Let_def same_proc_def proc_def put_order_def fun_eq_iff
      split: option.splits list.splits if_splits)

lemma Wait_proc:
  assumes "SyncPointManager_Wait ids t q w c m = Inr (ok, m')"
  shows "same_proc m m'"
proof -
  have "same_proc m m'" if wr: "WaitForRelease i r w c m = Inr (ok, m')" for i r
  proof -
    have "m' = m \<or> (\<exists>s n m1. ValidateReleaseOrderNumber s i w r m = Inr (n, m1) \<and> (m' = m1 \<or> (\<exists>cs. m' = put_state i cs m1)))"
      using wr by (auto simp: WaitForRelease_def with_state_def res_simps split: if_splits)
    then show ?thesis using ValidateReleaseOrderNumber_proc same_proc_trans put_state_proc by (metis same_proc_refl)
  qed
  with assms show ?thesis by (auto simp: SyncPointManager_Wait_def res_simps split: if_splits option.splits)
qed

lemma CreateSyncPointClientState_proc:
  assumes "CreateSyncPointClientState ns cb s m = Inr (i, m')"
  shows "same_proc m m'"
  using assms by (auto simp: CreateSyncPointClientState_def Let_def res_simps same_proc_def proc_def fun_eq_iff split: if_splits)

lemma DestroySyncPointClientState_proc:
  assumes "DestroySyncPointClientState i m = Inr (run, m')"
  shows "same_proc m m'"
  using assms by (auto simp: DestroySyncPointClientState_def with_state_def res_simps same_proc_def proc_def put_state_def fun_eq_iff split: if_splits)

lemma destroy_states_proc: "destroy_states is m = Inr (run, m') \<Longrightarrow> same_proc m m'"
proof (induction "is" arbitrary: m run)
  case (Cons i "is")
  then show ?case using DestroySyncPointClientState_proc same_proc_trans by (fastforce simp: res_simps)
qed simp

lemma SyncPointOrderData_Destroy_proc:
  assumes "SyncPointOrderData_Destroy s m = Inr m'"
  shows "same_proc m m'"
  using assms by (auto simp: SyncPointOrderData_Destroy_def RemoveSyncPointOrderData_def with_order_def res_simps same_proc_def proc_def put_order_def fun_eq_iff
      split: option.splits)

lemma FinishProcessing_proc:
  assumes "FinishProcessingOrderNumber n s m = Inr (run, m')"
  shows "same_proc m m'"
proof -
  obtain od rest where od: "spm_order_data m s = Some od" "od_unprocessed_order_nums od = n # rest"
    using assms by (auto simp: FinishProcessingOrderNumber_def with_order_def res_simps Let_def split: option.splits list.splits)
  let ?od = "od\<lparr>od_processed_order_num := n, od_unprocessed_order_nums := rest\<rparr>"
  consider "m' = put_order s ?od m"
    | q fs where "ensure_releases fs (put_order s (?od\<lparr>od_order_fence_queue := q\<rparr>) m) = Inr (run, m')"
    using assms od by (auto simp: FinishProcessingOrderNumber_def with_order_def res_simps Let_def split: if_splits)
  then show ?thesis
  proof cases
    case 1
    then show ?thesis using put_order_proc [OF od(1), of ?od] by simp
  next
    case (2 q fs)
    from same_orders_proc [OF ensure_releases_same [OF this]] put_order_proc [OF od(1), of "?od\<lparr>od_order_fence_queue := q\<rparr>"] same_proc_trans
    show ?thesis by fastforce
  qed
qed
section \<open>Sequences\<close>

text \<open>The order numbers of the tasks increase, and every fence belongs to a task; the fences are in the order of their tasks.\<close>

definition orders_of :: "('k, 'r) sequence \<Rightarrow> u32 list" where
  "orders_of sq = map tsk_order_num (seq_tasks sq)"

definition seq_ok :: "nat \<Rightarrow> ('k, 'r) sequence \<Rightarrow> bool" where
  "seq_ok n sq \<longleftrightarrow> sorted_wrt (<) (orders_of sq) \<and> (\<forall>k \<in> set (orders_of sq). k \<le> n) \<and>
     (\<forall>f \<in> set (seq_wait_fences sq). wf_order_num f \<in> set (orders_of sq)) \<and> sorted (map wf_order_num (seq_wait_fences sq))"

definition front_unblocked :: "u32 list \<Rightarrow> wait_fence list \<Rightarrow> bool" where
  "front_unblocked ks fs \<longleftrightarrow> ks \<noteq> [] \<and> (\<forall>f \<in> set fs. hd ks < wf_order_num f)"

lemma IsFrontTaskUnblocked_iff:
  assumes "seq_ok n sq"
  shows "IsFrontTaskUnblocked sq \<longleftrightarrow> front_unblocked (orders_of sq) (seq_wait_fences sq)"
  using assms by (cases "seq_tasks sq"; cases "seq_wait_fences sq")
    (fastforce simp: IsFrontTaskUnblocked_def front_unblocked_def orders_of_def seq_ok_def)+

lemma emplace_set: "set (fences_emplace f fs) \<subseteq> insert f (set fs)"
  by (induction fs) auto

lemma emplace_sorted:
  assumes "sorted (map wf_order_num fs)"
  shows "sorted (map wf_order_num (fences_emplace f fs))"
  using assms
proof (induction fs)
  case (Cons g gs)
  have less: "wf_order_num a \<le> wf_order_num b" if "WaitFence_less a b" for a b using that by (auto simp: WaitFence_less_def split: if_splits)
  show ?case
  proof (cases "WaitFence_less g f")
    case True
    have "wf_order_num g \<le> wf_order_num h" if "h \<in> set (fences_emplace f gs)" for h
      using that emplace_set [of f gs] less [OF True] Cons.prems by auto
    with Cons True show ?thesis by simp
  next
    case False
    then show ?thesis using Cons.prems less [of f g] by fastforce
  qed
qed simp

text \<open>What \<^verbatim>\<open>AddTask\<close> does: a task with a new order number at the end, and fences for it.\<close>

lemma add_wait_fences_ok:
  assumes "add_wait_fences ids now n ts sq m = Inr (sq', m')" "sorted (map wf_order_num (seq_wait_fences sq))"
  shows "seq_sequence_id sq' = seq_sequence_id sq \<and> orders_of sq' = orders_of sq \<and> same_proc m m' \<and>
    sorted (map wf_order_num (seq_wait_fences sq')) \<and> (\<forall>f \<in> set (seq_wait_fences sq'). f \<in> set (seq_wait_fences sq) \<or> wf_order_num f = n)"
  using assms
proof (induction ts arbitrary: sq m)
  case (Cons t ts)
  obtain rs where rs: "GetSyncTokenReleaseSequenceId ids t m = Inr rs" using Cons.prems(1) by (auto simp: res_simps)
  define f where "f = \<lparr>wf_sync_token = t, wf_order_num = n, wf_release_sequence_id = rs\<rparr>"
  show ?case
  proof (cases "fences_find f (seq_wait_fences sq) = None")
    case False
    then show ?thesis using Cons.IH [of sq m] Cons.prems rs by (simp add: f_def Let_def)
  next
    case True
    define c where "c = \<lparr>fc_sync_token = t, fc_order_num = n, fc_release_sequence_id = rs, fc_waiting_sequence_id = seq_sequence_id sq\<rparr>"
    have "res_bind (SyncPointManager_Wait ids t (seq_sequence_id sq) n c m) (\<lambda>(waits, m1). if \<not> waits then add_wait_fences ids now n ts sq m1
        else res_bind (SetLastTaskFirstDependencyTimeIfNeeded now (sq\<lparr>seq_wait_fences := fences_emplace f (seq_wait_fences sq)\<rparr>))
          (\<lambda>sq1. add_wait_fences ids now n ts sq1 m1)) = Inr (sq', m')"
      using Cons.prems(1) rs True unfolding f_def c_def by (simp add: Let_def)
    then obtain waits m1 where w: "SyncPointManager_Wait ids t (seq_sequence_id sq) n c m = Inr (waits, m1)"
      "(if \<not> waits then add_wait_fences ids now n ts sq m1
        else res_bind (SetLastTaskFirstDependencyTimeIfNeeded now (sq\<lparr>seq_wait_fences := fences_emplace f (seq_wait_fences sq)\<rparr>))
          (\<lambda>sq1. add_wait_fences ids now n ts sq1 m1)) = Inr (sq', m')"
      unfolding res_bind_Inr_iff by auto
    note p = Wait_proc [OF w(1)]
    show ?thesis
    proof (cases waits)
      case False
      then show ?thesis using Cons.IH [of sq m1] w(2) Cons.prems(2) same_proc_trans [OF p] by simp
    next
      case True
      then obtain sq1 where sq1: "SetLastTaskFirstDependencyTimeIfNeeded now (sq\<lparr>seq_wait_fences := fences_emplace f (seq_wait_fences sq)\<rparr>) = Inr sq1"
        "add_wait_fences ids now n ts sq1 m1 = Inr (sq', m')" using w(2) by (auto simp: res_simps)
      have e: "seq_sequence_id sq1 = seq_sequence_id sq" "orders_of sq1 = orders_of sq" "seq_wait_fences sq1 = fences_emplace f (seq_wait_fences sq)"
        using sq1(1) by (auto simp: SetLastTaskFirstDependencyTimeIfNeeded_def res_simps orders_of_def map_butlast last_map snoc_eq_iff_butlast)
      have "sorted (map wf_order_num (seq_wait_fences sq1))" unfolding e(3) by (rule emplace_sorted [OF Cons.prems(2)])
      from Cons.IH [OF sq1(2) this] have "seq_sequence_id sq' = seq_sequence_id sq \<and> orders_of sq' = orders_of sq \<and> same_proc m1 m' \<and>
         sorted (map wf_order_num (seq_wait_fences sq')) \<and>
         (\<forall>g \<in> set (seq_wait_fences sq'). g \<in> set (fences_emplace f (seq_wait_fences sq)) \<or> wf_order_num g = n)" by (simp add: e)
      moreover have "wf_order_num f = n" by (simp add: f_def)
      ultimately show ?thesis using emplace_set [of f "seq_wait_fences sq"] same_proc_trans [OF p] by blast
    qed
  qed
qed simp

lemma AddTask_ok:
  assumes "Sequence_AddTask ids now k ts r report sq m = Inr (n, sq', m')" "base_ids_ok ids lo ls" "seq_ok (lo (spm_generators m)) sq"
  shows "seq_sequence_id sq' = seq_sequence_id sq" "orders_of sq' = orders_of sq @ [n]" "lo (spm_generators m) < n" "lo (spm_generators m') = n"
    "ls (spm_generators m') = ls (spm_generators m)" "proc m' = proc m" "seq_ok (lo (spm_generators m')) sq'"
    "\<forall>f \<in> set (seq_wait_fences sq'). f \<in> set (seq_wait_fences sq) \<or> wf_order_num f = n"
proof -
  let ?sq = "sq\<lparr>seq_tasks := seq_tasks sq @ [new_Task now k n r report]\<rparr>"
  obtain m1 sq1 where a: "GenerateUnprocessedOrderNumber ids (seq_sequence_id sq) m = Inr (n, m1)"
    "add_wait_fences ids now n (ReduceSyncTokens ts) ?sq m1 = Inr (sq1, m')" "sq' = (if length (seq_tasks sq1) = 1 then Sequence_UpdateValidationTimer sq1 else sq1)"
    using assms(1) by (auto simp: Sequence_AddTask_def res_simps)
  obtain od g where g: "spm_order_data m (seq_sequence_id sq) = Some od" "bi_next_order ids (spm_generators m) = (n, g)"
    "m1 = put_order (seq_sequence_id sq) (od\<lparr>od_last_unprocessed_order_num := n, od_unprocessed_order_nums := od_unprocessed_order_nums od @ [n]\<rparr>) (m\<lparr>spm_generators := g\<rparr>)"
    using a(1) by (auto simp: GenerateUnprocessedOrderNumber_def with_order_def SyncPointManager_GenerateOrderNumber_def res_simps split: option.splits prod.splits)
  have gs: "lo (spm_generators m) < n" "lo g = n" "ls g = ls (spm_generators m)" using assms(2) g(2) by (simp_all add: base_ids_ok_def)
  have m1: "spm_generators m1 = g" "proc m1 = proc m" using g(1,3) by (simp_all add: proc_def put_order_def fun_eq_iff)
  have "sorted (map wf_order_num (seq_wait_fences ?sq))" using assms(3) by (simp add: seq_ok_def)
  note f = add_wait_fences_ok [OF a(2) this]
  have same: "seq_sequence_id sq' = seq_sequence_id sq1" "orders_of sq' = orders_of sq1" "seq_wait_fences sq' = seq_wait_fences sq1"
    by (simp_all add: a(3) Sequence_UpdateValidationTimer_def orders_of_def)
  show "seq_sequence_id sq' = seq_sequence_id sq" using f same by simp
  show o: "orders_of sq' = orders_of sq @ [n]" using f same by (simp add: orders_of_def new_Task_def)
  show "lo (spm_generators m) < n" by (rule gs(1))
  show lo: "lo (spm_generators m') = n" and "ls (spm_generators m') = ls (spm_generators m)" "proc m' = proc m"
    using f m1 gs by (simp_all add: same_proc_def)
  show w: "\<forall>f \<in> set (seq_wait_fences sq'). f \<in> set (seq_wait_fences sq) \<or> wf_order_num f = n" using f same by simp
  have "k < n" if "k \<in> set (orders_of sq)" for k using assms(3) gs(1) that by (fastforce simp: seq_ok_def)
  then show "seq_ok (lo (spm_generators m')) sq'"
    using assms(3) w f gs(1) unfolding seq_ok_def o lo same(3) by (auto simp: sorted_wrt_append intro: less_imp_le)
qed

text \<open>What \<^verbatim>\<open>RemoveWaitFence\<close> does: it succeeds, and says so when it unblocks the first task.\<close>

lemma bump_ready_orders: "map tsk_order_num (bump_ready now n ts) = map tsk_order_num ts"
  by (induction ts) simp_all

lemma RemoveWaitFence_ok:
  assumes "seq_ok n sq"
  shows "\<exists>unblocked sq'. Sequence_RemoveWaitFence now t k rs sq = Inr (unblocked, sq') \<and> seq_sequence_id sq' = seq_sequence_id sq \<and>
    orders_of sq' = orders_of sq \<and> set (seq_wait_fences sq') \<subseteq> set (seq_wait_fences sq) \<and> seq_ok n sq' \<and>
    (IsFrontTaskUnblocked sq' \<longrightarrow> unblocked \<or> IsFrontTaskUnblocked sq)"
proof (cases "fences_find \<lparr>wf_sync_token = t, wf_order_num = k, wf_release_sequence_id = rs\<rparr> (seq_wait_fences sq)")
  case None
  with assms show ?thesis by (intro exI [of _ False] exI [of _ sq]) (simp add: Sequence_RemoveWaitFence_def)
next
  case (Some f)
  define sq1 where "sq1 = sq\<lparr>seq_wait_fences := fences_erase f (seq_wait_fences sq), seq_tasks := bump_ready now k (seq_tasks sq)\<rparr>"
  have f: "f \<in> set (seq_wait_fences sq)" "wf_order_num f = k"
    using Some by (auto simp: fences_find_def find_Some_iff same_fence_def WaitFence_less_def split: if_splits)
  have o: "orders_of sq1 = orders_of sq" by (simp add: orders_of_def sq1_def bump_ready_orders)
  have sub: "set (seq_wait_fences sq1) \<subseteq> set (seq_wait_fences sq)" by (simp add: sq1_def fences_erase_def set_remove1_subset)
  have "sorted (map wf_order_num (seq_wait_fences sq1))" using assms by (auto simp: sq1_def fences_erase_def seq_ok_def sorted_map_remove1)
  with assms sub have ok: "seq_ok n sq1" by (auto simp: seq_ok_def o)
  have ne: "orders_of sq \<noteq> []" using assms f(1) by (auto simp: seq_ok_def)
  then obtain front rest where fr: "seq_tasks sq1 = front # rest" using o by (cases "seq_tasks sq1") (auto simp: orders_of_def)
  then have hd: "tsk_order_num front = hd (orders_of sq)" using o by (metis list.sel(1) list.simps(9) orders_of_def)
  have "k = hd (orders_of sq)" if u: "IsFrontTaskUnblocked sq1" "\<not> IsFrontTaskUnblocked sq"
  proof -
    obtain g where g: "g \<in> set (seq_wait_fences sq)" "\<not> hd (orders_of sq) < wf_order_num g"
      using u(2) ne by (auto simp: IsFrontTaskUnblocked_iff [OF assms] front_unblocked_def)
    have "g \<notin> set (seq_wait_fences sq1)" using u(1) g(2) by (auto simp: IsFrontTaskUnblocked_iff [OF ok] front_unblocked_def o)
    then have "g \<notin> set (remove1 f (seq_wait_fences sq))" by (simp add: sq1_def fences_erase_def)
    with g(1) have "g = f" by (metis in_set_remove1)
    moreover have "hd (orders_of sq) \<le> wf_order_num g" using assms g(1) ne by (cases "orders_of sq") (fastforce simp: seq_ok_def)+
    ultimately show ?thesis using g(2) f(2) by simp
  qed
  then have "IsFrontTaskUnblocked sq1 \<longrightarrow> (k = tsk_order_num front \<and> IsFrontTaskUnblocked sq1) \<or> IsFrontTaskUnblocked sq" using hd by auto
  moreover have "Sequence_RemoveWaitFence now t k rs sq = Inr (k = tsk_order_num front \<and> IsFrontTaskUnblocked sq1, sq1)"
    using Some fr by (simp add: Sequence_RemoveWaitFence_def sq1_def Let_def)
  moreover have "seq_sequence_id sq1 = seq_sequence_id sq" by (simp add: sq1_def)
  ultimately show ?thesis using o sub ok by blast
qed
section \<open>The invariant\<close>

fun task_ok :: "nat \<Rightarrow> 'g points \<Rightarrow> ('k, 'r) sequence \<Rightarrow> pc \<Rightarrow> bool" where
  "task_ok n m sq (Picked s) \<longleftrightarrow> (s = seq_sequence_id sq \<longrightarrow> IsFrontTaskUnblocked sq)"
| "task_ok n m sq (Begun s k r) \<longleftrightarrow> (s = seq_sequence_id sq \<longrightarrow> k \<le> n \<and> (\<forall>j \<in> set (orders_of sq). k < j))"
| "task_ok n m sq (In_task s k r) \<longleftrightarrow>
     (s = seq_sequence_id sq \<longrightarrow> k \<le> n \<and> (\<exists>paused. proc m s = Some (k, paused) \<and> (paused \<or> (\<forall>j \<in> set (orders_of sq). k < j))))"
| "task_ok n m sq p \<longleftrightarrow> True"

abbreviation gens :: "('k, 'r, 'g, 'w) scheduler \<Rightarrow> 'g" where
  "gens S \<equiv> spm_generators (sch_points S)"

abbreviation seqs :: "('k, 'r, 'g, 'w) scheduler \<Rightarrow> u32 \<Rightarrow> ('k, 'r) sequence option" where
  "seqs S \<equiv> map_of (tg_sequence_map (sch_task_graph S))"

definition graph_inv :: "('g \<Rightarrow> nat) \<Rightarrow> ('g \<Rightarrow> nat) \<Rightarrow> ('k, 'r, 'g, 'w) scheduler \<Rightarrow> ('w \<Rightarrow> pc) \<Rightarrow> bool" where
  "graph_inv lo ls S pc \<longleftrightarrow> (\<forall>s sq. seqs S s = Some sq \<longrightarrow> seq_sequence_id sq = s \<and> s \<le> ls (gens S) \<and> seq_ok (lo (gens S)) sq \<and>
     sch_sequences S s \<noteq> None \<and> (\<forall>w. task_ok (lo (gens S)) (sch_points S) sq (pc w)))"

definition map_inv :: "('k, 'r, 'g, 'w) scheduler \<Rightarrow> bool" where
  "map_inv S \<longleftrightarrow> distinct (sch_sequence_map S) \<and> (\<forall>s \<in> set (sch_sequence_map S). seqs S s \<noteq> None)"

definition exec_inv :: "('g \<Rightarrow> nat) \<Rightarrow> ('k, 'r, 'g, 'w) scheduler \<Rightarrow> ('w \<Rightarrow> pc) \<Rightarrow> bool" where
  "exec_inv ls S pc \<longleftrightarrow>
     (\<forall>w s. owner (pc w) = Some s \<longrightarrow> s \<le> ls (gens S) \<and> (\<forall>x. sch_sequences S s = Some x \<longrightarrow> ssq_task_runner x = w)) \<and>
     (\<forall>s \<in> set (sch_sequence_map S). \<forall>x. sch_sequences S s = Some x \<longrightarrow>
        (ssq_running_state x = RUNNING \<longleftrightarrow> executing (pc (ssq_task_runner x)) = Some s))"

text \<open>A thread is awake just when \<^verbatim>\<open>RunNextTask\<close> is posted to it or under way, and that is so once.\<close>

definition thread_inv :: "('k, 'r, 'g, 'w) scheduler \<Rightarrow> ('w \<Rightarrow> pc) \<Rightarrow> bool" where
  "thread_inv S pc \<longleftrightarrow>
     (\<forall>w. sch_posted S w + (if pc w = Between then 0 else 1) = (if pts_running (sch_threads S w) then 1 else 0))"

text \<open>A thread that has something to run is awake; the threads of \<open>A\<close> may have to be woken up yet.\<close>

definition wake_inv :: "'w set \<Rightarrow> ('k, 'r, 'g, 'w) scheduler \<Rightarrow> bool" where
  "wake_inv A S \<longleftrightarrow> (\<forall>w. HasAnyUnblockedTasksOnRunner w S \<longrightarrow> pts_running (sch_threads S w) \<or> w \<in> A)"

definition sched_inv :: "('g \<Rightarrow> nat) \<Rightarrow> ('g \<Rightarrow> nat) \<Rightarrow> 'w set \<Rightarrow> ('k, 'r, 'g, 'w) scheduler \<Rightarrow> ('w \<Rightarrow> pc) \<Rightarrow> bool" where
  "sched_inv lo ls A S pc \<longleftrightarrow> graph_inv lo ls S pc \<and> map_inv S \<and> exec_inv ls S pc \<and> thread_inv S pc \<and> wake_inv A S"

lemma graph_invD:
  assumes "graph_inv lo ls S pc" "seqs S s = Some sq"
  shows "seq_sequence_id sq = s" "s \<le> ls (gens S)" "seq_ok (lo (gens S)) sq" "\<exists>x. sch_sequences S s = Some x" "task_ok (lo (gens S)) (sch_points S) sq (pc w)"
  using assms unfolding graph_inv_def by blast+

lemma sched_invD:
  assumes "sched_inv lo ls A S pc"
  shows "graph_inv lo ls S pc" "map_inv S" "exec_inv ls S pc" "thread_inv S pc" "wake_inv A S"
  using assms by (simp_all add: sched_inv_def)

lemma exec_invD:
  assumes "exec_inv ls S pc"
  shows "owner (pc w) = Some s \<Longrightarrow> s \<le> ls (gens S)" "owner (pc w) = Some s \<Longrightarrow> sch_sequences S s = Some x \<Longrightarrow> ssq_task_runner x = w"
    "s \<in> set (sch_sequence_map S) \<Longrightarrow> sch_sequences S s = Some x \<Longrightarrow> ssq_running_state x = RUNNING \<longleftrightarrow> executing (pc (ssq_task_runner x)) = Some s"
  using assms unfolding exec_inv_def by blast+

lemma exec_invI:
  assumes "\<And>w s. owner (pc w) = Some s \<Longrightarrow> s \<le> ls (gens S)"
    and "\<And>w s x. owner (pc w) = Some s \<Longrightarrow> sch_sequences S s = Some x \<Longrightarrow> ssq_task_runner x = w"
    and "\<And>s x. s \<in> set (sch_sequence_map S) \<Longrightarrow> sch_sequences S s = Some x \<Longrightarrow>
      ssq_running_state x = RUNNING \<longleftrightarrow> executing (pc (ssq_task_runner x)) = Some s"
  shows "exec_inv ls S pc"
  using assms unfolding exec_inv_def by blast

lemma thread_invD:
  assumes "thread_inv S pc"
  shows "sch_posted S w + (if pc w = Between then 0 else 1) = (if pts_running (sch_threads S w) then 1 else 0)"
    "pc w \<noteq> Between \<Longrightarrow> pts_running (sch_threads S w) \<and> sch_posted S w = 0"
    "\<not> pts_running (sch_threads S w) \<Longrightarrow> sch_posted S w = 0 \<and> pc w = Between"
proof -
  show *: "sch_posted S w + (if pc w = Between then 0 else 1) = (if pts_running (sch_threads S w) then 1 else 0)"
    using assms unfolding thread_inv_def by blast
  show "pc w \<noteq> Between \<Longrightarrow> pts_running (sch_threads S w) \<and> sch_posted S w = 0" "\<not> pts_running (sch_threads S w) \<Longrightarrow> sch_posted S w = 0 \<and> pc w = Between"
    using * by (simp_all split: if_splits)
qed

lemma thread_inv_pc:
  assumes "thread_inv S pc" "sch_posted S' = sch_posted S" "\<And>v. pts_running (sch_threads S' v) = pts_running (sch_threads S v)" "p = Between \<longleftrightarrow> pc w = Between"
  shows "thread_inv S' (pc(w := p))"
  unfolding thread_inv_def
proof
  fix v
  show "sch_posted S' v + (if (pc(w := p)) v = Between then 0 else 1) = (if pts_running (sch_threads S' v) then 1 else 0)"
    using thread_invD(1) [OF assms(1), of v] assms(2-4) by (cases "v = w") simp_all
qed

lemma graph_invI:
  assumes "\<And>s sq. seqs S s = Some sq \<Longrightarrow> seq_sequence_id sq = s \<and> s \<le> ls (gens S) \<and> seq_ok (lo (gens S)) sq \<and> sch_sequences S s \<noteq> None"
    and "\<And>s sq w. seqs S s = Some sq \<Longrightarrow> task_ok (lo (gens S)) (sch_points S) sq (pc w)"
  shows "graph_inv lo ls S pc"
  using assms unfolding graph_inv_def by blast

lemma object_iff: "sched_object s S = Some (sq, x) \<longleftrightarrow> seqs S s = Some sq \<and> sch_sequences S s = Some x"
  by (auto simp: sched_object_def TaskGraph_GetSequence_def split: option.splits)

lemma get_iff: "Scheduler_GetSequence s S = Some (sq, x) \<longleftrightarrow> s \<in> set (sch_sequence_map S) \<and> seqs S s = Some sq \<and> sch_sequences S s = Some x"
  by (simp add: Scheduler_GetSequence_def object_iff)

lemma HasAny_iff:
  "HasAnyUnblockedTasksOnRunner w S \<longleftrightarrow> (\<exists>s \<in> set (sch_sequence_map S). \<exists>sq x. seqs S s = Some sq \<and> sch_sequences S s = Some x \<and>
     ssq_task_runner x = w \<and> ssq_enabled x \<and> IsFrontTaskUnblocked sq)"
proof -
  have "unblocked_on S w s \<longleftrightarrow> (\<exists>sq x. seqs S s = Some sq \<and> sch_sequences S s = Some x \<and> ssq_task_runner x = w \<and> ssq_enabled x \<and> IsFrontTaskUnblocked sq)" for s
    by (auto simp: unblocked_on_def object_iff split: option.splits) (metis object_iff option.distinct(1))
  then show ?thesis by (simp add: HasAnyUnblockedTasksOnRunner_def list_ex_iff)
qed

lemma sched_inv_wf:
  assumes "graph_inv lo ls S pc" "map_inv S"
  shows "sched_wf S"
  unfolding sched_wf_def
proof
  fix s assume "s \<in> set (sch_sequence_map S)"
  then obtain sq where sq: "seqs S s = Some sq" using assms(2) by (auto simp: map_inv_def)
  obtain x where "sch_sequences S s = Some x" using graph_invD(4) [OF assms(1) sq] by blast
  with sq graph_invD(1,3) [OF assms(1) sq] show "\<exists>sq x. sched_object s S = Some (sq, x) \<and> seq_sequence_id sq = s \<and> sorted (map wf_order_num (seq_wait_fences sq))"
    by (auto simp: object_iff seq_ok_def)
qed

text \<open>What only touches when a sequence is to run.\<close>

lemma sched_inv_refreshed:
  assumes "sched_inv lo ls A S pc" "refreshed S S'"
  shows "sched_inv lo ls A S' pc"
proof -
  have e: "sch_task_graph S' = sch_task_graph S" "sch_points S' = sch_points S" "sch_sequence_map S' = sch_sequence_map S" "sch_posted S' = sch_posted S"
    "pts_running (sch_threads S' w) = pts_running (sch_threads S w)" for w
    using assms(2) by (simp_all add: refreshed_def sch_points_def)
  have old: "\<exists>y. sch_sequences S s = Some y \<and> same_but_scheduled y x" if "sch_sequences S' s = Some x" for s x
    using assms(2) that unfolding refreshed_def by (metis option_rel_Some2)
  have "sch_sequences S' s = None \<longleftrightarrow> sch_sequences S s = None" for s
    using assms(2) unfolding refreshed_def by (metis option.rel_distinct(1,2) option.exhaust)
  with assms(1) have "graph_inv lo ls S' pc" by (simp add: sched_inv_def graph_inv_def e)
  moreover have "exec_inv ls S' pc"
  proof (rule exec_invI)
    note x = exec_invD [OF sched_invD(3) [OF assms(1)]]
    show "s \<le> ls (gens S')" if "owner (pc w) = Some s" for w s using x(1) [OF that] by (simp add: e)
    show "ssq_task_runner x = w" if o: "owner (pc w) = Some s" "sch_sequences S' s = Some x" for w s x
      using old [OF o(2)] x(2) [OF o(1)] by (auto simp: same_but_scheduled_def)
    show "ssq_running_state x = RUNNING \<longleftrightarrow> executing (pc (ssq_task_runner x)) = Some s"
      if o: "s \<in> set (sch_sequence_map S')" "sch_sequences S' s = Some x" for s x
      using old [OF o(2)] x(3) [of s] o(1) by (auto simp: same_but_scheduled_def e)
  qed
  moreover have "map_inv S'" "thread_inv S' pc" "wake_inv A S'"
    using sched_invD(2,4,5) [OF assms(1)] refreshed_HasAny [OF assms(2)] by (simp_all add: map_inv_def thread_inv_def wake_inv_def e)
  ultimately show ?thesis by (simp add: sched_inv_def)
qed

lemma put_points_simps [simp]:
  "sch_points (put_points m S) = m" "sch_sequences (put_points m S) = sch_sequences S" "sch_sequence_map (put_points m S) = sch_sequence_map S"
  "sch_threads (put_points m S) = sch_threads S" "sch_posted (put_points m S) = sch_posted S"
  "tg_sequence_map (sch_task_graph (put_points m S)) = tg_sequence_map (sch_task_graph S)"
  by (simp_all add: put_points_def sch_points_def)

lemma put_graph_simps [simp]:
  "sch_points (put_graph s sq S) = sch_points S" "sch_sequences (put_graph s sq S) = sch_sequences S" "sch_sequence_map (put_graph s sq S) = sch_sequence_map S"
  "sch_threads (put_graph s sq S) = sch_threads S" "sch_posted (put_graph s sq S) = sch_posted S" "seqs (put_graph s sq S) = (seqs S)(s \<mapsto> sq)"
  by (simp_all add: put_graph_def sch_points_def put_sequence_def update_conv')

lemma put_sched_simps [simp]:
  "sch_points (put_sched s x S) = sch_points S" "sch_sequences (put_sched s x S) = (sch_sequences S)(s \<mapsto> x)" "sch_sequence_map (put_sched s x S) = sch_sequence_map S"
  "sch_threads (put_sched s x S) = sch_threads S" "sch_posted (put_sched s x S) = sch_posted S" "sch_task_graph (put_sched s x S) = sch_task_graph S"
  by (simp_all add: put_sched_def sch_points_def)

lemma set_running_simps [simp]:
  "sch_points (set_running w b S) = sch_points S" "sch_sequences (set_running w b S) = sch_sequences S" "sch_sequence_map (set_running w b S) = sch_sequence_map S"
  "sch_posted (set_running w b S) = sch_posted S" "sch_task_graph (set_running w b S) = sch_task_graph S"
  "pts_running (sch_threads (set_running w b S) v) = (if v = w then b else pts_running (sch_threads S v))"
  by (simp_all add: set_running_def sch_points_def)

lemma post_simps [simp]:
  "sch_points (post_RunNextTask now w S) = sch_points S" "sch_sequences (post_RunNextTask now w S) = sch_sequences S"
  "sch_sequence_map (post_RunNextTask now w S) = sch_sequence_map S" "sch_task_graph (post_RunNextTask now w S) = sch_task_graph S"
  "sch_posted (post_RunNextTask now w S) v = (if v = w then sch_posted S w + 1 else sch_posted S v)"
  "pts_running (sch_threads (post_RunNextTask now w S) v) = pts_running (sch_threads S v)"
  by (simp_all add: post_RunNextTask_def sch_points_def)

text \<open>The sync points change; the order numbers that are processed and the generators do not.\<close>

lemma task_ok_proc: "proc m' = proc m \<Longrightarrow> task_ok n m' sq p = task_ok n m sq p"
  by (cases p) simp_all

lemma sched_inv_points:
  assumes "sched_inv lo ls A S pc" "same_proc (sch_points S) m"
  shows "sched_inv lo ls A (put_points m S) pc"
proof -
  have e: "spm_generators m = gens S" "proc m = proc (sch_points S)" using assms(2) by (simp_all add: same_proc_def)
  with assms(1) show ?thesis by (simp add: task_ok_proc [OF e(2)] sched_inv_def graph_inv_def map_inv_def exec_inv_def thread_inv_def wake_inv_def HasAny_iff)
qed
text \<open>More generally, tasks may get newer order numbers, and a sequence may pause.\<close>

definition later_points :: "('g \<Rightarrow> nat) \<Rightarrow> ('g \<Rightarrow> nat) \<Rightarrow> 'g points \<Rightarrow> 'g points \<Rightarrow> bool" where
  "later_points lo ls m m' \<longleftrightarrow> lo (spm_generators m) \<le> lo (spm_generators m') \<and> ls (spm_generators m') = ls (spm_generators m) \<and>
     (\<forall>s. proc m' s = proc m s \<or> (\<exists>k paused. proc m s = Some (k, paused) \<and> proc m' s = Some (k, True)))"

lemma later_points_same: "same_proc m m' \<Longrightarrow> later_points lo ls m m'"
  by (simp add: same_proc_def later_points_def)

lemma seq_ok_mono: "seq_ok n sq \<Longrightarrow> n \<le> n' \<Longrightarrow> seq_ok n' sq"
  by (auto simp: seq_ok_def)

lemma task_ok_later:
  assumes "task_ok (lo (spm_generators m)) m sq p" "later_points lo ls m m'"
  shows "task_ok (lo (spm_generators m')) m' sq p"
proof (cases p)
  case (In_task s k r)
  show ?thesis
  proof (cases "s = seq_sequence_id sq")
    case True
    then obtain paused where "k \<le> lo (spm_generators m)" "proc m s = Some (k, paused)" "paused \<or> (\<forall>j \<in> set (orders_of sq). k < j)"
      using assms(1) In_task by auto
    moreover have "proc m' s = proc m s \<or> (\<exists>k paused. proc m s = Some (k, paused) \<and> proc m' s = Some (k, True))" "lo (spm_generators m) \<le> lo (spm_generators m')"
      using assms(2) unfolding later_points_def by blast+
    ultimately show ?thesis using In_task by auto
  qed (simp add: In_task)
qed (use assms in \<open>auto simp: later_points_def\<close>)

lemma sched_inv_later:
  assumes "sched_inv lo ls A S pc" "later_points lo ls (sch_points S) m"
  shows "sched_inv lo ls A (put_points m S) pc"
proof -
  note d = sched_invD [OF assms(1)]
  have l: "lo (gens S) \<le> lo (spm_generators m)" "ls (spm_generators m) = ls (gens S)" using assms(2) by (simp_all add: later_points_def)
  have "graph_inv lo ls (put_points m S) pc"
  proof (rule graph_invI)
    fix s sq assume "seqs (put_points m S) s = Some sq"
    then have sq: "seqs S s = Some sq" by simp
    note g = graph_invD [OF d(1) sq]
    show "seq_sequence_id sq = s \<and> s \<le> ls (gens (put_points m S)) \<and> seq_ok (lo (gens (put_points m S))) sq \<and> sch_sequences (put_points m S) s \<noteq> None"
      using g(1,2,4) seq_ok_mono [OF g(3) l(1)] l(2) by auto
    show "task_ok (lo (gens (put_points m S))) (sch_points (put_points m S)) sq (pc w)" for w
      using task_ok_later [OF g(5) assms(2)] by simp
  qed
  moreover have "exec_inv ls (put_points m S) pc" using d(3) l(2) by (simp add: exec_inv_def)
  ultimately show ?thesis using d(2,4,5) by (simp add: sched_inv_def map_inv_def thread_inv_def wake_inv_def HasAny_iff)
qed

lemma sched_inv_put_graph:
  assumes "sched_inv lo ls A S pc" "seqs S s = Some sq" "sch_sequences S s = Some x"
    and "seq_sequence_id sq' = s" "seq_ok (lo (gens S)) sq'" "\<And>w. task_ok (lo (gens S)) (sch_points S) sq' (pc w)"
    and "A \<subseteq> B" "IsFrontTaskUnblocked sq' \<Longrightarrow> IsFrontTaskUnblocked sq \<or> ssq_task_runner x \<in> B"
  shows "sched_inv lo ls B (put_graph s sq' S) pc"
proof -
  note d = sched_invD [OF assms(1)]
  have "graph_inv lo ls (put_graph s sq' S) pc"
    using d(1) assms(2-6) unfolding graph_inv_def by (auto simp del: split_paired_All)
  moreover have "map_inv (put_graph s sq' S)" using d(2) assms(2) by (auto simp: map_inv_def)
  moreover have "wake_inv B (put_graph s sq' S)"
    unfolding wake_inv_def
  proof (intro allI impI)
    fix w assume "HasAnyUnblockedTasksOnRunner w (put_graph s sq' S)"
    then have "HasAnyUnblockedTasksOnRunner w S \<or> w \<in> B"
      using assms(2,3,8) by (fastforce simp: HasAny_iff split: if_splits)
    with d(5) assms(7) show "pts_running (sch_threads (put_graph s sq' S) w) \<or> w \<in> B" by (auto simp: wake_inv_def)
  qed
  ultimately show ?thesis using d(3,4) by (simp add: sched_inv_def exec_inv_def thread_inv_def)
qed

lemma sched_inv_put_sched:
  assumes "sched_inv lo ls A S pc" "sch_sequences S s = Some x"
    and "ssq_task_runner y = ssq_task_runner x" "ssq_running_state y = ssq_running_state x"
    and "A \<subseteq> B" "ssq_enabled y \<Longrightarrow> ssq_enabled x \<or> ssq_task_runner x \<in> B"
  shows "sched_inv lo ls B (put_sched s y S) pc"
proof -
  note d = sched_invD [OF assms(1)]
  have "wake_inv B (put_sched s y S)"
    unfolding wake_inv_def
  proof (intro allI impI)
    fix w assume "HasAnyUnblockedTasksOnRunner w (put_sched s y S)"
    then have "HasAnyUnblockedTasksOnRunner w S \<or> w \<in> B"
      using assms(2,3,6) by (fastforce simp: HasAny_iff split: if_splits)
    with d(5) assms(5) show "pts_running (sch_threads (put_sched s y S) w) \<or> w \<in> B" by (auto simp: wake_inv_def)
  qed
  moreover have "exec_inv ls (put_sched s y S) pc"
    using d(3) assms(2-4) by (auto simp: exec_inv_def)
  moreover have "graph_inv lo ls (put_sched s y S) pc" using d(1) unfolding graph_inv_def by auto
  ultimately show ?thesis using d(2,4) by (simp add: sched_inv_def map_inv_def thread_inv_def)
qed

text \<open>\<^verbatim>\<open>TryScheduleSequence\<close> wakes up the thread of the sequence if it has to; it fails only for a sequence that has been left running.\<close>

lemma refreshed_running:
  "sch_sequences S s = Some x \<Longrightarrow> UpdateRunningPriority x = Inr y \<Longrightarrow> refreshed S (put_sched s y S)"
  by (auto simp: UpdateRunningPriority_def res_simps same_but_scheduled_def intro!: refreshed_put)

lemma refreshed_scheduled:
  "sch_sequences S s = Some x \<Longrightarrow> SetScheduled sq x = Inr y \<Longrightarrow> refreshed S (put_sched s y S)"
  by (auto simp: SetScheduled_def res_simps same_but_scheduled_def intro!: refreshed_put)

lemma sched_inv_wake:
  assumes "sched_inv lo ls (insert w A) S pc"
  shows "\<not> pts_running (sch_threads S w) \<Longrightarrow> sched_inv lo ls A (post_RunNextTask now w (set_running w True S)) pc"
    "pts_running (sch_threads S w) \<or> \<not> HasAnyUnblockedTasksOnRunner w S \<Longrightarrow> sched_inv lo ls A S pc"
proof -
  note d = sched_invD [OF assms]
  show "sched_inv lo ls A S pc" if "pts_running (sch_threads S w) \<or> \<not> HasAnyUnblockedTasksOnRunner w S"
    using d that by (auto simp: sched_inv_def wake_inv_def)
  assume off: "\<not> pts_running (sch_threads S w)"
  let ?S = "post_RunNextTask now w (set_running w True S)"
  have "thread_inv ?S pc"
    unfolding thread_inv_def
  proof
    fix v
    show "sch_posted ?S v + (if pc v = Between then 0 else 1) = (if pts_running (sch_threads ?S v) then 1 else 0)"
      using thread_invD(1) [OF d(4), of v] thread_invD(3) [OF d(4) off] by (cases "v = w") simp_all
  qed
  moreover have "wake_inv A ?S" using d(5) by (auto simp: wake_inv_def HasAny_iff)
  ultimately show "sched_inv lo ls A ?S pc" using d(1-3) by (simp add: sched_inv_def graph_inv_def map_inv_def exec_inv_def)
qed

lemma TryScheduleSequence_ok:
  assumes "sched_inv lo ls (insert (ssq_task_runner x) A) S pc" "sched_object s S = Some (sq, x)"
  shows "TryScheduleSequence now s S = Inr S' \<Longrightarrow> sched_inv lo ls A S' pc"
    "s \<in> set (sch_sequence_map S) \<Longrightarrow> \<exists>S'. TryScheduleSequence now s S = Inr S'"
    "TryScheduleSequence now s S = Inr S' \<Longrightarrow> sch_sequence_map S' = sch_sequence_map S \<and> sch_task_graph S' = sch_task_graph S \<and>
       (\<forall>t. sch_sequences S' t = None \<longleftrightarrow> sch_sequences S t = None)"
proof -
  note d = sched_invD [OF assms(1)]
  have x: "seqs S s = Some sq" "sch_sequences S s = Some x" using assms(2) by (simp_all add: object_iff)
  let ?w = "ssq_task_runner x"
  define y where "y = (if ssq_running_state x \<noteq> SCHEDULED \<and> HasTasksAndEnabled sq x then SetScheduled sq x else Inr x)"
  have y: "\<exists>x1. y = Inr x1 \<and> refreshed S (put_sched s x1 S)" if idle: "ssq_running_state x \<noteq> RUNNING"
  proof (cases "ssq_running_state x \<noteq> SCHEDULED \<and> HasTasksAndEnabled sq x")
    case True
    then obtain x1 where "SetScheduled sq x = Inr x1" using idle by (simp add: SetScheduled_def)
    with True refreshed_scheduled [OF x(2) this] show ?thesis by (simp add: y_def)
  next
    case False
    then show ?thesis using refreshed_put [OF x(2), of x] by (auto simp: y_def)
  qed
  have e: "TryScheduleSequence now s S = (if ssq_running_state x = RUNNING
       then dcheck (pts_running (sch_threads S ?w)) (res_bind (UpdateRunningPriority x) (\<lambda>x1. Inr (put_sched s x1 S)))
       else res_bind y (\<lambda>x1. Inr (if \<not> pts_running (sch_threads S ?w) \<and> HasAnyUnblockedTasksOnRunner ?w (put_sched s x1 S)
          then post_RunNextTask now ?w (set_running ?w True (put_sched s x1 S)) else put_sched s x1 S)))"
    using assms(2) by (simp add: TryScheduleSequence_def y_def Let_def)
  show "sched_inv lo ls A S' pc" if t: "TryScheduleSequence now s S = Inr S'"
  proof (cases "ssq_running_state x = RUNNING")
    case True
    then obtain x1 where x1: "pts_running (sch_threads S ?w)" "UpdateRunningPriority x = Inr x1" "S' = put_sched s x1 S"
      using t by (auto simp: e res_simps)
    have i: "sched_inv lo ls (insert ?w A) S' pc" unfolding x1(3) by (rule sched_inv_refreshed [OF assms(1) refreshed_running [OF x(2) x1(2)]])
    show ?thesis by (rule sched_inv_wake(2) [OF i]) (simp add: x1(1,3))
  next
    case False
    from y [OF this] obtain x1 where x1: "y = Inr x1" "refreshed S (put_sched s x1 S)" by blast
    note i = sched_inv_refreshed [OF assms(1) x1(2)]
    have "S' = (if \<not> pts_running (sch_threads S ?w) \<and> HasAnyUnblockedTasksOnRunner ?w (put_sched s x1 S)
          then post_RunNextTask now ?w (set_running ?w True (put_sched s x1 S)) else put_sched s x1 S)" using t False x1(1) by (simp add: e)
    with sched_inv_wake [OF i] show ?thesis by (simp split: if_splits)
  qed
  show "\<exists>S'. TryScheduleSequence now s S = Inr S'" if "s \<in> set (sch_sequence_map S)"
  proof (cases "ssq_running_state x = RUNNING")
    case True
    then have "executing (pc ?w) = Some s" using exec_invD(3) [OF d(3) that x(2)] by simp
    then have "pc ?w \<noteq> Between" by auto
    then have "pts_running (sch_threads S ?w)" using thread_invD(2) [OF d(4)] by simp
    with True show ?thesis by (simp add: e UpdateRunningPriority_def)
  next
    case False
    from y [OF this] False show ?thesis by (auto simp: e)
  qed
  show "sch_sequence_map S' = sch_sequence_map S \<and> sch_task_graph S' = sch_task_graph S \<and> (\<forall>t. sch_sequences S' t = None \<longleftrightarrow> sch_sequences S t = None)"
    if t: "TryScheduleSequence now s S = Inr S'"
    using t x(2) by (cases "ssq_running_state x = RUNNING") (auto simp: e res_simps split: if_splits)
qed
section \<open>Every operation keeps the invariant\<close>

lemma unblocked_cong:
  "orders_of sq' = orders_of sq \<Longrightarrow> seq_wait_fences sq' = seq_wait_fences sq \<Longrightarrow> IsFrontTaskUnblocked sq' = IsFrontTaskUnblocked sq"
  by (cases "seq_tasks sq"; cases "seq_tasks sq'") (auto simp: IsFrontTaskUnblocked_def orders_of_def split: list.splits)

lemma task_ok_cong:
  "seq_sequence_id sq' = seq_sequence_id sq \<Longrightarrow> orders_of sq' = orders_of sq \<Longrightarrow> seq_wait_fences sq' = seq_wait_fences sq \<Longrightarrow>
     task_ok n m sq' p = task_ok n m sq p"
  using unblocked_cong [of sq' sq] by (cases p) simp_all

text \<open>A change of a sequence that is neither in its tasks' order numbers nor in its fences.\<close>

lemma sched_inv_same_seq:
  assumes "sched_inv lo ls A S pc" "seqs S s = Some sq"
    and "seq_sequence_id sq' = seq_sequence_id sq" "orders_of sq' = orders_of sq" "seq_wait_fences sq' = seq_wait_fences sq"
  shows "sched_inv lo ls A (put_graph s sq' S) pc"
proof -
  note g = graph_invD [OF sched_invD(1) [OF assms(1)] assms(2)]
  obtain x where x: "sch_sequences S s = Some x" using g(4) by blast
  have "seq_ok (lo (gens S)) sq'" using g(3) assms(4,5) by (simp add: seq_ok_def)
  with g(1,5) assms(3-5) show ?thesis
    by (intro sched_inv_put_graph [OF assms(1,2) x]) (simp_all add: unblocked_cong [OF assms(4,5)] task_ok_cong [OF assms(3-5)])
qed

lemma SetEnabled_ok:
  assumes "sched_inv lo ls {} S pc" "Scheduler_GetSequence s S = Some (sq, x)" "SetEnabled now b s x S = Inr S'"
  shows "sched_inv lo ls {} S' pc \<and> sch_task_graph S' = sch_task_graph S"
proof (cases "ssq_enabled x = b")
  case True
  with assms(1,3) show ?thesis by (simp add: SetEnabled_def)
next
  case False
  let ?y = "x\<lparr>ssq_enabled := b\<rparr>"
  let ?S = "put_sched s ?y S"
  have x: "seqs S s = Some sq" "sch_sequences S s = Some x" using assms(2) by (simp_all add: get_iff)
  have "sched_inv lo ls {ssq_task_runner ?y} ?S pc" by (rule sched_inv_put_sched [OF assms(1) x(2)]) simp_all
  moreover have "sched_object s ?S = Some (sq, ?y)" using x(1) by (simp add: object_iff)
  moreover have "TryScheduleSequence now s ?S = Inr S'" using False assms(3) by (simp add: SetEnabled_def)
  ultimately show ?thesis using TryScheduleSequence_ok(1,3) [of lo ls ?y "{}" ?S pc s sq now S'] by simp
qed

lemma SetSequencePriority_ok:
  assumes "sched_inv lo ls {} S pc"
  shows "sched_inv lo ls {} (SetSequencePriority s p S) pc \<and> sch_task_graph (SetSequencePriority s p S) = sch_task_graph S"
proof (cases "Scheduler_GetSequence s S")
  case None
  with assms show ?thesis by (simp add: SetSequencePriority_def)
next
  case (Some a)
  then obtain sq x where x: "Scheduler_GetSequence s S = Some (sq, x)" by (cases a) simp
  then have "sch_sequences S s = Some x" by (simp add: get_iff)
  from sched_inv_put_sched [OF assms this, of "x\<lparr>ssq_current_priority := p\<rparr>" "{}"] x show ?thesis by (simp add: SetSequencePriority_def)
qed

lemma ScheduleTaskHelper_ok:
  assumes "sched_inv lo ls {} S pc" "base_ids_ok ids lo ls" "ScheduleTaskHelper ids now t S = Inr S'"
  shows "sched_inv lo ls {} S' pc \<and> ls (gens S') = ls (gens S) \<and> dom (seqs S') = dom (seqs S)"
proof -
  let ?s = "stk_sequence_id t"
  obtain sq x n sq1 m where x: "Scheduler_GetSequence ?s S = Some (sq, x)" and
    a: "Sequence_AddTask ids now (stk_task_closure t) (stk_sync_token_fences t) (stk_release t) (stk_report_callback t) sq (sch_points S) = Inr (n, sq1, m)" and
    t: "TryScheduleSequence now ?s (put_graph ?s sq1 (put_points m S)) = Inr S'"
    using assms(3) by (auto simp: ScheduleTaskHelper_def res_simps split: option.splits)
  have o: "seqs S ?s = Some sq" "sch_sequences S ?s = Some x" using x by (simp_all add: get_iff)
  note d = sched_invD [OF assms(1)]
  note g = graph_invD [OF d(1) o(1)]
  note add = AddTask_ok [OF a assms(2) g(3)]
  let ?S = "put_points m S"
  have i: "sched_inv lo ls {} ?S pc"
    by (rule sched_inv_later [OF assms(1)]) (use add in \<open>auto simp: later_points_def\<close>)
  have q: "seqs ?S ?s = Some sq" "sch_sequences ?S ?s = Some x" using o by simp_all
  have hd: "IsFrontTaskUnblocked sq1" if "IsFrontTaskUnblocked sq"
  proof -
    have u: "orders_of sq \<noteq> []" "\<forall>f \<in> set (seq_wait_fences sq). hd (orders_of sq) < wf_order_num f"
      using that by (simp_all add: IsFrontTaskUnblocked_iff [OF g(3)] front_unblocked_def)
    moreover have "hd (orders_of sq) \<le> lo (gens S)" using g(3) hd_in_set [OF u(1)] by (simp add: seq_ok_def)
    then have "hd (orders_of sq) < n" using add(3) by simp
    ultimately show ?thesis using add(2,8) by (auto simp: IsFrontTaskUnblocked_iff [OF add(7)] front_unblocked_def)
  qed
  have "task_ok (lo (gens ?S)) (sch_points ?S) sq1 (pc w)" for w
    using g(5) [of w] add(1-6) hd by (cases "pc w") auto
  then have "sched_inv lo ls {ssq_task_runner x} (put_graph ?s sq1 ?S) pc"
    using add(1,7) g(1) by (intro sched_inv_put_graph [OF i q]) simp_all
  moreover have "sched_object ?s (put_graph ?s sq1 ?S) = Some (sq1, x)" using q by (simp add: object_iff)
  ultimately have "sched_inv lo ls {} S' pc" "sch_task_graph S' = sch_task_graph (put_graph ?s sq1 ?S)"
    using TryScheduleSequence_ok(1,3) [of lo ls x "{}" "put_graph ?s sq1 ?S" pc ?s sq1 now S'] t by simp_all
  moreover from this(2) have "sch_points S' = m" "seqs S' = (seqs S)(?s \<mapsto> sq1)"
    using put_graph_simps(1,6) [of ?s sq1 ?S] put_points_simps(1,6) [of m S] by (simp_all add: sch_points_def)
  ultimately show ?thesis using add(5) o(1) by auto
qed

lemma FenceReleased_ok:
  assumes "sched_inv lo ls {} S pc"
  shows "Scheduler_FenceReleased now c S = Inr S' \<Longrightarrow> sched_inv lo ls {} S' pc \<and> sch_points S' = sch_points S \<and> dom (seqs S') = dom (seqs S)"
    "fc_waiting_sequence_id c \<in> set (sch_sequence_map S) \<or> seqs S (fc_waiting_sequence_id c) = None \<Longrightarrow> \<exists>S'. Scheduler_FenceReleased now c S = Inr S'"
proof -
  let ?s = "fc_waiting_sequence_id c"
  have "(Scheduler_FenceReleased now c S = Inr S' \<longrightarrow> sched_inv lo ls {} S' pc \<and> sch_points S' = sch_points S \<and> dom (seqs S') = dom (seqs S)) \<and>
    (?s \<in> set (sch_sequence_map S) \<or> seqs S ?s = None \<longrightarrow> (\<exists>S'. Scheduler_FenceReleased now c S = Inr S'))"
  proof (cases "seqs S ?s")
    case None
    then have "Scheduler_FenceReleased now c S = Inr S" by (simp add: Scheduler_FenceReleased_def SyncTokenFenceReleased_def TaskGraph_GetSequence_def)
    with assms show ?thesis by auto
  next
    case (Some sq)
    note g = graph_invD [OF sched_invD(1) [OF assms] Some]
    obtain x where x: "sch_sequences S ?s = Some x" using g(4) by blast
    obtain u sq1 where r: "Sequence_RemoveWaitFence now (fc_sync_token c) (fc_order_num c) (fc_release_sequence_id c) sq = Inr (u, sq1)"
      "seq_sequence_id sq1 = seq_sequence_id sq" "orders_of sq1 = orders_of sq" "set (seq_wait_fences sq1) \<subseteq> set (seq_wait_fences sq)"
      "seq_ok (lo (gens S)) sq1" "IsFrontTaskUnblocked sq1 \<longrightarrow> u \<or> IsFrontTaskUnblocked sq"
      using RemoveWaitFence_ok [OF g(3)] by blast
    let ?S = "put_graph ?s sq1 S"
    have e: "Scheduler_FenceReleased now c S = (if u then TryScheduleSequence now ?s ?S else Inr ?S)"
      using Some r(1) by (simp add: Scheduler_FenceReleased_def SyncTokenFenceReleased_def TaskGraph_GetSequence_def put_graph_def Let_def)
    have hd: "IsFrontTaskUnblocked sq1" if "IsFrontTaskUnblocked sq"
      using that r(3,4) by (auto simp: IsFrontTaskUnblocked_iff [OF g(3)] IsFrontTaskUnblocked_iff [OF r(5)] front_unblocked_def)
    have t: "task_ok (lo (gens S)) (sch_points S) sq1 (pc w)" for w using g(5) [of w] r(2,3) hd by (cases "pc w") auto
    have i: "sched_inv lo ls (if u then {ssq_task_runner x} else {}) ?S pc"
      by (rule sched_inv_put_graph [OF assms Some x _ r(5) t]) (use r(2,6) g(1) in auto)
    have o: "sched_object ?s ?S = Some (sq1, x)" using x by (simp add: object_iff)
    have dm: "sch_points ?S = sch_points S" "dom (seqs ?S) = dom (seqs S)" using Some by auto
    show ?thesis
    proof (cases u)
      case True
      with i have i': "sched_inv lo ls (insert (ssq_task_runner x) {}) ?S pc" by simp
      note ts = TryScheduleSequence_ok [OF i' o]
      have "sched_inv lo ls {} S' pc \<and> sch_points S' = sch_points S \<and> dom (seqs S') = dom (seqs S)" if "TryScheduleSequence now ?s ?S = Inr S'"
        using ts(1,3) [OF that] dm by (simp add: sch_points_def)
      with True ts(2) Some show ?thesis by (simp add: e)
    next
      case False
      with i dm show ?thesis by (auto simp: e)
    qed
  qed
  then show "Scheduler_FenceReleased now c S = Inr S' \<Longrightarrow> sched_inv lo ls {} S' pc \<and> sch_points S' = sch_points S \<and> dom (seqs S') = dom (seqs S)"
    "?s \<in> set (sch_sequence_map S) \<or> seqs S ?s = None \<Longrightarrow> \<exists>S'. Scheduler_FenceReleased now c S = Inr S'" by blast+
qed
text \<open>A new sequence has an id that nobody knows.\<close>

lemma new_Sequence_ok:
  assumes "new_Sequence ids b ns cb m = Inr (sq, m')" "base_ids_ok ids lo ls"
  shows "seq_tasks sq = [] \<and> seq_wait_fences sq = [] \<and> ls (spm_generators m) < seq_sequence_id sq \<and> ls (spm_generators m') = seq_sequence_id sq \<and>
    lo (spm_generators m') = lo (spm_generators m) \<and> (\<forall>t. t \<noteq> seq_sequence_id sq \<longrightarrow> proc m' t = proc m t)"
proof -
  obtain s m1 where c: "CreateSyncPointOrderData ids m = Inr (s, m1)" "seq_sequence_id sq = s" "seq_tasks sq = []" "seq_wait_fences sq = []" "same_proc m1 m'"
    using assms(1) CreateSyncPointClientState_proc by (fastforce simp: new_Sequence_def res_simps Let_def split: if_splits)
  obtain g where g: "bi_next_sequence ids (spm_generators m) = (s, g)" "spm_generators m1 = g" "\<And>t. t \<noteq> s \<Longrightarrow> proc m1 t = proc m t"
    using c(1) by (auto simp: CreateSyncPointOrderData_def res_simps proc_def put_order_def split: prod.splits)
  have "ls (spm_generators m) < s \<and> ls g = s \<and> lo g = lo (spm_generators m)" using assms(2) g(1) by (simp add: base_ids_ok_def)
  with c g show ?thesis by (simp add: same_proc_def)
qed

lemma task_ok_fresh: "owner p \<noteq> Some (seq_sequence_id sq) \<Longrightarrow> task_ok n m sq p"
  by (cases p) auto

lemma task_ok_other:
  assumes "task_ok n m sq p" "proc m' (seq_sequence_id sq) = proc m (seq_sequence_id sq)"
  shows "task_ok n m' sq p"
  using assms by (cases p) auto

lemma CreateSequence_ok:
  assumes "sched_inv lo ls {} S pc" "base_ids_ok ids lo ls" "Scheduler_CreateSequence ids priority w ns cb S = Inr (s, S')"
  shows "sched_inv lo ls {} S' pc" "ls (gens S) < s" "ls (gens S') = s" "dom (seqs S') = insert s (dom (seqs S))"
proof -
  obtain sq m where n: "new_Sequence ids True ns cb (sch_points S) = Inr (sq, m)" "s = seq_sequence_id sq" "seqs S s = None"
    "S' = (put_points m S)\<lparr>sch_task_graph := TaskGraph_AddSequence sq (sch_task_graph (put_points m S)),
       sch_sequences := (sch_sequences S)(s \<mapsto> new_sched_sequence w priority (bi_null_sequence ids)),
       sch_sequence_map := (if s \<in> set (sch_sequence_map S) then sch_sequence_map S else insort s (sch_sequence_map S))\<rparr>"
    using assms(3) by (auto simp: Scheduler_CreateSequence_def res_simps Let_def TaskGraph_GetSequence_def split: if_splits)
  note new = new_Sequence_ok [OF n(1) assms(2)]
  note d = sched_invD [OF assms(1)]
  let ?x = "new_sched_sequence w priority (bi_null_sequence ids)"
  have nm: "s \<notin> set (sch_sequence_map S)" using d(2) n(3) by (auto simp: map_inv_def)
  have e: "seqs S' = (seqs S)(s \<mapsto> sq)" "sch_points S' = m" "sch_sequences S' = (sch_sequences S)(s \<mapsto> ?x)" "sch_threads S' = sch_threads S"
    "sch_posted S' = sch_posted S" "sch_sequence_map S' = insort s (sch_sequence_map S)"
    using n(3) nm by (simp_all add: n(4) TaskGraph_AddSequence_def put_sequence_def update_conv' sch_points_def put_points_def flip: n(2))
  show l: "ls (gens S) < s" "ls (gens S') = s" using new n(2) by (simp_all add: e)
  show "dom (seqs S') = insert s (dom (seqs S))" by (simp add: e)
  have lo: "lo (gens S') = lo (gens S)" using new by (simp add: e)
  have owner: "owner (pc v) \<noteq> Some s" for v using exec_invD(1) [OF d(3), of v s] l(1) by auto
  have "graph_inv lo ls S' pc"
  proof (rule graph_invI)
    fix t sq' assume t: "seqs S' t = Some sq'"
    show "seq_sequence_id sq' = t \<and> t \<le> ls (gens S') \<and> seq_ok (lo (gens S')) sq' \<and> sch_sequences S' t \<noteq> None"
    proof (cases "t = s")
      case True
      then show ?thesis using t new n(2) l by (auto simp: e seq_ok_def orders_of_def)
    next
      case False
      then have "seqs S t = Some sq'" using t by (simp add: e)
      from graph_invD(1-4) [OF d(1) this] l lo False show ?thesis by (auto simp: e)
    qed
    show "task_ok (lo (gens S')) (sch_points S') sq' (pc v)" for v
    proof (cases "t = s")
      case True
      then show ?thesis using t n(2) owner by (intro task_ok_fresh) (auto simp: e)
    next
      case False
      then have s: "seqs S t = Some sq'" using t by (simp add: e)
      have "proc m t = proc (sch_points S) t" using new n(2) False by simp
      with graph_invD(1) [OF d(1) s] task_ok_other [OF graph_invD(5) [OF d(1) s, of v], of m] lo show ?thesis by (simp add: e)
    qed
  qed
  moreover have "map_inv S'" using d(2) nm by (auto simp: map_inv_def e distinct_insort set_insort_key)
  moreover have "exec_inv ls S' pc"
  proof (rule exec_invI)
    note x = exec_invD [OF d(3)]
    show "t \<le> ls (gens S')" if "owner (pc v) = Some t" for v t using x(1) [OF that] l by simp
    show "ssq_task_runner y = v" if o: "owner (pc v) = Some t" "sch_sequences S' t = Some y" for v t y
      using o owner [of v] x(2) [OF o(1)] by (auto simp: e split: if_splits)
    show "ssq_running_state y = RUNNING \<longleftrightarrow> executing (pc (ssq_task_runner y)) = Some t"
      if o: "t \<in> set (sch_sequence_map S')" "sch_sequences S' t = Some y" for t y
    proof (cases "t = s")
      case True
      have "executing (pc v) = Some s \<Longrightarrow> owner (pc v) = Some s" for v by (cases "pc v") auto
      with o(2) True owner show ?thesis by (auto simp: e new_sched_sequence_def)
    next
      case False
      with o x(3) [of t y] show ?thesis by (simp add: e set_insort_key)
    qed
  qed
  moreover have "thread_inv S' pc" using d(4) by (simp add: thread_inv_def e)
  moreover have "wake_inv {} S'"
    unfolding wake_inv_def
  proof (intro allI impI)
    fix v assume "HasAnyUnblockedTasksOnRunner v S'"
    moreover have "\<not> IsFrontTaskUnblocked sq" using new by (simp add: IsFrontTaskUnblocked_def)
    ultimately have "HasAnyUnblockedTasksOnRunner v S" by (auto simp: HasAny_iff e set_insort_key split: if_splits)
    with d(5) show "pts_running (sch_threads S' v) \<or> v \<in> {}" by (simp add: wake_inv_def e)
  qed
  ultimately show "sched_inv lo ls {} S' pc" by (simp add: sched_inv_def)
qed
text \<open>A thread goes on.\<close>

lemma sched_inv_pc:
  assumes "sched_inv lo ls A S pc" "owner p = owner (pc w) \<or> owner p = None" "executing p = executing (pc w) \<or> (executing p = None \<and>
      (\<forall>s. executing (pc w) = Some s \<longrightarrow> s \<notin> set (sch_sequence_map S)))"
    and "p = Between \<longleftrightarrow> pc w = Between" "\<And>s sq. seqs S s = Some sq \<Longrightarrow> task_ok (lo (gens S)) (sch_points S) sq p"
  shows "sched_inv lo ls A S (pc(w := p))"
proof -
  note d = sched_invD [OF assms(1)]
  note x = exec_invD [OF d(3)]
  have "graph_inv lo ls S (pc(w := p))" using d(1) assms(5) unfolding graph_inv_def by simp
  moreover have "exec_inv ls S (pc(w := p))"
  proof (rule exec_invI)
    show "s \<le> ls (gens S)" if "owner ((pc(w := p)) v) = Some s" for v s
      using that x(1) [of v s] assms(2) by (auto split: if_splits)
    show "ssq_task_runner y = v" if "owner ((pc(w := p)) v) = Some s" "sch_sequences S s = Some y" for v s y
      using that x(2) [of v s y] assms(2) by (auto split: if_splits)
    show "ssq_running_state y = RUNNING \<longleftrightarrow> executing ((pc(w := p)) (ssq_task_runner y)) = Some s"
      if "s \<in> set (sch_sequence_map S)" "sch_sequences S s = Some y" for s y
      using that x(3) [of s y] assms(3) by auto
  qed
  moreover have "thread_inv S (pc(w := p))" by (rule thread_inv_pc [OF d(4)]) (simp_all add: assms(4))
  ultimately show ?thesis using d(2,5) by (simp add: sched_inv_def)
qed

lemma FindNextTask_inv:
  assumes "sched_inv lo ls A S pc" "FindNextTask w S = Inr (r, S')"
  shows "refreshed S S'" "sched_inv lo ls A S' pc" "r = None \<Longrightarrow> \<not> can_run S w s" "r = Some s \<Longrightarrow> can_run S w s"
proof -
  note d = sched_invD [OF assms(1)]
  from FindNextTask_ok [OF sched_inv_wf [OF d(1,2)], of w] assms(2)
  show r: "refreshed S S'" and "r = None \<Longrightarrow> \<not> can_run S w s" "r = Some s \<Longrightarrow> can_run S w s" by (auto split: option.splits)
  show "sched_inv lo ls A S' pc" by (rule sched_inv_refreshed [OF assms(1) r])
qed

lemma ShouldYield_ok:
  assumes "sched_inv lo ls {} S pc" "ShouldYield w s S = Inr (b, S')"
  shows "sched_inv lo ls {} S' pc \<and> sch_task_graph S' = sch_task_graph S"
proof -
  obtain r S1 where f: "FindNextTask w S = Inr (r, S1)"
    using FindNextTask_ok [OF sched_inv_wf [OF sched_invD(1,2) [OF assms(1)]], of w] by blast
  then have "S' = S1"
    using assms(2) by (cases r; cases "sched_object s S1"; cases "sched_object (the r) S1") (auto simp: ShouldYield_def res_simps split: option.splits)
  with f FindNextTask_inv(1,2) [OF assms(1)] show ?thesis by (auto simp: refreshed_def)
qed

lemma unblocked_can_run:
  assumes "exec_inv ls S pc" "HasAnyUnblockedTasksOnRunner w S" "pc w = Between"
  shows "\<exists>s. can_run S w s"
proof -
  obtain s sq x where s: "s \<in> set (sch_sequence_map S)" "seqs S s = Some sq" "sch_sequences S s = Some x" "ssq_task_runner x = w"
    "ssq_enabled x" "IsFrontTaskUnblocked sq" using assms(2) by (auto simp: HasAny_iff)
  have "ssq_running_state x \<noteq> RUNNING" using exec_invD(3) [OF assms(1) s(1,3)] s(4) assms(3) by simp
  moreover have "Sequence_HasTasks sq" using s(6) by (auto simp: IsFrontTaskUnblocked_def Sequence_HasTasks_def)
  ultimately have "can_run S w s" using s by (auto simp: can_run_def get_iff IsRunnable_def)
  then show ?thesis by blast
qed

text \<open>The thread with nothing to run goes to sleep; otherwise it has a sequence whose first task is not blocked.\<close>

lemma RunNextTask_pick_ok:
  assumes "sched_inv lo ls {} S pc" "pc w = Between" "0 < sch_posted S w"
  defines "S1 \<equiv> S\<lparr>sch_posted := (sch_posted S)(w := sch_posted S w - 1)\<rparr>"
  shows "\<exists>r S'. RunNextTask_pick w S1 = Inr (r, S')"
    "RunNextTask_pick w S1 = Inr (r, S') \<Longrightarrow> sched_inv lo ls {} S' (pc(w := case r of None \<Rightarrow> Between | Some s \<Rightarrow> Picked s)) \<and> sch_task_graph S' = sch_task_graph S"
    "RunNextTask_pick w S1 = Inr (Some s, S') \<Longrightarrow> can_run S w s"
    "RunNextTask_pick w S1 = Inr (None, S') \<Longrightarrow> \<not> can_run S w s"
proof -
  note d = sched_invD [OF assms(1)]
  have p: "sch_posted S w = 1" "pts_running (sch_threads S w)" using thread_invD(1) [OF d(4), of w] assms(2,3) by (simp_all split: if_splits)
  have e: "sch_task_graph S1 = sch_task_graph S" "sch_points S1 = sch_points S" "sch_sequences S1 = sch_sequences S" "sch_sequence_map S1 = sch_sequence_map S"
    "sch_threads S1 = sch_threads S" by (simp_all add: S1_def sch_points_def)
  have inv1: "graph_inv lo ls S1 pc" "map_inv S1" "exec_inv ls S1 pc" "wake_inv {} S1"
    using d by (simp_all add: graph_inv_def map_inv_def exec_inv_def wake_inv_def HasAny_iff e)
  have run: "can_run S1 = can_run S" by (intro ext) (simp add: can_run_def get_iff e)
  obtain r0 S2 where f: "FindNextTask w S1 = Inr (r0, S2)" "refreshed S1 S2"
    "case r0 of None \<Rightarrow> \<forall>s. \<not> can_run S w s | Some s \<Rightarrow> can_run S w s"
    using FindNextTask_ok [OF sched_inv_wf [OF inv1(1,2)], of w] by (auto simp: run split: option.splits)
  have g: "sch_task_graph S2 = sch_task_graph S" "sch_sequence_map S2 = sch_sequence_map S" "sch_posted S2 = sch_posted S1"
    "pts_running (sch_threads S2 v) = pts_running (sch_threads S v)" for v using f(2) by (simp_all add: refreshed_def e)
  have pick: "RunNextTask_pick w S1 = (case r0 of None \<Rightarrow> Inr (None, set_running w False S2) | Some s \<Rightarrow> Inr (Some s, S2))"
  proof (cases r0)
    case None
    then show ?thesis by (simp add: RunNextTask_pick_def f(1))
  next
    case (Some s)
    then have "can_run S1 w s" using f(3) run by simp
    then obtain sq x where x: "Scheduler_GetSequence s S1 = Some (sq, x)" "ssq_task_runner x = w" unfolding can_run_def by blast
    then obtain y where y: "sched_object s S2 = Some (sq, y)" "same_but_scheduled x y"
      using refreshed_object [OF f(2)] by (metis get_iff object_iff)
    have "seq_sequence_id sq = s" using graph_invD(1) [OF inv1(1)] x(1) by (simp add: get_iff)
    with Some y x(2) show ?thesis by (simp add: RunNextTask_pick_def f(1) same_but_scheduled_def)
  qed
  then show "\<exists>r S'. RunNextTask_pick w S1 = Inr (r, S')" by (simp split: option.splits)
  show "RunNextTask_pick w S1 = Inr (Some s, S') \<Longrightarrow> can_run S w s" "RunNextTask_pick w S1 = Inr (None, S') \<Longrightarrow> \<not> can_run S w s"
    using pick f(3) by (simp_all split: option.splits)
  assume a: "RunNextTask_pick w S1 = Inr (r, S')"
  have "sched_inv lo ls {} (S1\<lparr>sch_posted := sch_posted S\<rparr>) pc" using assms(1) by (simp add: S1_def)
  moreover have "refreshed (S1\<lparr>sch_posted := sch_posted S\<rparr>) (S2\<lparr>sch_posted := sch_posted S\<rparr>)" using f(2) by (simp add: refreshed_def)
  ultimately have i: "sched_inv lo ls {} (S2\<lparr>sch_posted := sch_posted S\<rparr>) pc" by (rule sched_inv_refreshed)
  have pts: "sch_points (S2\<lparr>sch_posted := sch_posted S\<rparr>) = sch_points S2" by (simp add: sch_points_def)
  note i' = sched_invD [OF i]
  have j: "graph_inv lo ls S2 pc" "map_inv S2" "exec_inv ls S2 pc" "wake_inv {} S2"
    using i' by (simp_all add: graph_inv_def map_inv_def exec_inv_def wake_inv_def HasAny_iff pts)
  have off: "sch_posted S2 v = (if v = w then 0 else sch_posted S v)" for v using p(1) by (simp add: g S1_def)
  show "sched_inv lo ls {} S' (pc(w := case r of None \<Rightarrow> Between | Some s \<Rightarrow> Picked s)) \<and> sch_task_graph S' = sch_task_graph S"
  proof (cases r)
    case None
    then have r0: "r0 = None" "S' = set_running w False S2" using a pick by (auto split: option.splits)
    have "\<not> HasAnyUnblockedTasksOnRunner w S2"
      using unblocked_can_run [OF j(3) _ assms(2)] f(3) r0(1) refreshed_eq(1) [OF f(2)] run by auto
    then have "wake_inv {} S'" using j(4) by (auto simp: wake_inv_def r0(2) HasAny_iff)
    moreover have "thread_inv S' pc"
      unfolding thread_inv_def
    proof
      fix v
      show "sch_posted S' v + (if pc v = Between then 0 else 1) = (if pts_running (sch_threads S' v) then 1 else 0)"
        using thread_invD(1) [OF d(4), of v] assms(2) by (cases "v = w") (simp_all add: r0(2) off g(4))
    qed
    moreover have "graph_inv lo ls S' pc" "map_inv S'" "exec_inv ls S' pc" using j(1-3) by (simp_all add: r0(2) graph_inv_def map_inv_def exec_inv_def)
    moreover have "pc(w := Between) = pc" using assms(2) by auto
    ultimately show ?thesis using None g(1) by (simp add: sched_inv_def r0(2))
  next
    case (Some s)
    then have r0: "r0 = Some s" "S' = S2" using a pick by (auto split: option.splits)
    have c: "can_run S2 w s" using f(3) r0(1) refreshed_eq(1) [OF f(2)] run by simp
    then obtain sq x where x: "seqs S2 s = Some sq" "sch_sequences S2 s = Some x" "ssq_task_runner x = w" "IsFrontTaskUnblocked sq"
      by (auto simp: can_run_def get_iff)
    let ?pc = "pc(w := Picked s)"
    have ids: "seq_sequence_id sq' = t" if "seqs S2 t = Some sq'" for t sq' using graph_invD(1) [OF j(1) that] .
    have "graph_inv lo ls S2 ?pc" using j(1) x(1,4) ids unfolding graph_inv_def by auto
    moreover have "exec_inv ls S2 ?pc"
    proof (rule exec_invI)
      note y = exec_invD [OF j(3)]
      show "t \<le> ls (gens S2)" if "owner (?pc v) = Some t" for v t using that y(1) [of v t] graph_invD(2) [OF j(1) x(1)] by (auto split: if_splits)
      show "ssq_task_runner z = v" if "owner (?pc v) = Some t" "sch_sequences S2 t = Some z" for v t z
        using that y(2) [of v t z] x(2,3) by (auto split: if_splits)
      show "ssq_running_state z = RUNNING \<longleftrightarrow> executing (?pc (ssq_task_runner z)) = Some t"
        if "t \<in> set (sch_sequence_map S2)" "sch_sequences S2 t = Some z" for t z using that y(3) [of t z] assms(2) by auto
    qed
    moreover have "thread_inv S2 ?pc"
      unfolding thread_inv_def
    proof
      fix v
      show "sch_posted S2 v + (if ?pc v = Between then 0 else 1) = (if pts_running (sch_threads S2 v) then 1 else 0)"
        using thread_invD(1) [OF d(4), of v] p(2) by (cases "v = w") (simp_all add: off g(4))
    qed
    ultimately show ?thesis using Some j(2,4) g(1) by (simp add: sched_inv_def r0(2))
  qed
qed
lemma exec_other:
  assumes "exec_inv ls S pc" "sch_sequences S s = Some x" "ssq_task_runner x = w" "v \<noteq> w"
  shows "owner (pc v) \<noteq> Some s"
  using exec_invD(2) [OF assms(1) _ assms(2), of v] assms(3,4) by blast

text \<open>The first task is taken; none of the fences that are left is one of its own.\<close>

lemma ExecuteSequence_begin_ok:
  assumes "sched_inv lo ls {} S pc" "pc w = Picked s" "ExecuteSequence_begin w s S = Inr (n, k, r, report, S')"
  shows "sched_inv lo ls {} S' (pc(w := Begun s n r)) \<and> sch_points S' = sch_points S \<and> dom (seqs S') = dom (seqs S)"
proof -
  obtain sq x sq1 where x: "Scheduler_GetSequence s S = Some (sq, x)" "ssq_task_runner x = w" "ssq_running_state x = SCHEDULED"
    and b: "Sequence_BeginTask sq = Inr (n, k, report, sq1)" and r: "r = seq_current_task_release sq1"
    and S': "S' = put_sched s (x\<lparr>ssq_running_state := RUNNING\<rparr>) (put_graph s sq1 S)"
    using assms(3) by (auto simp: ExecuteSequence_begin_def Sched_BeginTask_def res_simps split: option.splits)
  have o: "seqs S s = Some sq" "sch_sequences S s = Some x" "s \<in> set (sch_sequence_map S)" using x(1) by (simp_all add: get_iff)
  note d = sched_invD [OF assms(1)]
  note g = graph_invD [OF d(1) o(1)]
  obtain front rest where t: "seq_tasks sq = front # rest" "n = tsk_order_num front" "orders_of sq1 = map tsk_order_num rest"
    "seq_sequence_id sq1 = seq_sequence_id sq" "seq_wait_fences sq1 = seq_wait_fences sq"
    using b by (auto simp: Sequence_BeginTask_def orders_of_def split: list.splits)
  have ord: "orders_of sq = n # orders_of sq1" using t by (simp add: orders_of_def)
  have "IsFrontTaskUnblocked sq" using g(1) g(5) [of w] assms(2) by simp
  then have u: "\<forall>f \<in> set (seq_wait_fences sq). n < wf_order_num f" by (simp add: IsFrontTaskUnblocked_iff [OF g(3)] front_unblocked_def ord)
  have ok: "seq_ok (lo (gens S)) sq1" using g(3) u unfolding seq_ok_def ord t(5) by (auto dest!: bspec)
  let ?y = "x\<lparr>ssq_running_state := RUNNING\<rparr>" and ?pc = "pc(w := Begun s n r)"
  have other: "owner (pc v) \<noteq> Some s" if "v \<noteq> w" for v using exec_other [OF d(3) o(2) x(2) that] .
  have e: "seqs S' = (seqs S)(s \<mapsto> sq1)" "sch_points S' = sch_points S" "sch_sequences S' = (sch_sequences S)(s \<mapsto> ?y)" "sch_threads S' = sch_threads S"
    "sch_posted S' = sch_posted S" "sch_sequence_map S' = sch_sequence_map S" by (simp_all add: S')
  have task: "task_ok (lo (gens S)) (sch_points S) sq1 (?pc v)" for v
  proof (cases "v = w")
    case True
    have "\<forall>j \<in> set (orders_of sq1). n < j" "n \<le> lo (gens S)" using g(3) by (simp_all add: seq_ok_def ord)
    with True show ?thesis by simp
  next
    case False
    with other [OF False] t(4) g(1) show ?thesis by (intro task_ok_fresh) simp
  qed
  have "graph_inv lo ls S' ?pc"
  proof (rule graph_invI)
    fix q sq' assume q: "seqs S' q = Some sq'"
    show "seq_sequence_id sq' = q \<and> q \<le> ls (gens S') \<and> seq_ok (lo (gens S')) sq' \<and> sch_sequences S' q \<noteq> None"
    proof (cases "q = s")
      case True
      then show ?thesis using q g(1,2) t(4) ok by (auto simp: e)
    next
      case False
      then have "seqs S q = Some sq'" using q by (simp add: e)
      from graph_invD(1-4) [OF d(1) this] show ?thesis by (auto simp: e)
    qed
    show "task_ok (lo (gens S')) (sch_points S') sq' (?pc v)" for v
    proof (cases "q = s")
      case True
      then show ?thesis using q task by (simp add: e)
    next
      case False
      then have "seqs S q = Some sq'" using q by (simp add: e)
      from graph_invD(1) [OF d(1) this] graph_invD(5) [OF d(1) this, of v] False show ?thesis by (simp add: e)
    qed
  qed
  moreover have "exec_inv ls S' ?pc"
  proof (rule exec_invI)
    note y = exec_invD [OF d(3)]
    show "q \<le> ls (gens S')" if "owner (?pc v) = Some q" for v q using that y(1) [of v q] g(2) by (auto simp: e split: if_splits)
    show "ssq_task_runner z = v" if "owner (?pc v) = Some q" "sch_sequences S' q = Some z" for v q z
      using that y(2) [of v q] x(2) other [of v] by (auto simp: e split: if_splits)
    show "ssq_running_state z = RUNNING \<longleftrightarrow> executing (?pc (ssq_task_runner z)) = Some q"
      if "q \<in> set (sch_sequence_map S')" "sch_sequences S' q = Some z" for q z
      using that y(3) [of q z] x(2) assms(2) by (auto simp: e split: if_splits)
  qed
  moreover have "thread_inv S' ?pc" by (rule thread_inv_pc [OF d(4)]) (simp_all add: e assms(2))
  moreover have "wake_inv {} S'"
    unfolding wake_inv_def
  proof (intro allI impI)
    fix v assume "HasAnyUnblockedTasksOnRunner v S'"
    then have "HasAnyUnblockedTasksOnRunner v S \<or> v = w" using x(2) by (fastforce simp: HasAny_iff e split: if_splits)
    moreover have "pts_running (sch_threads S w)" using thread_invD(2) [OF d(4), of w] assms(2) by simp
    ultimately show "pts_running (sch_threads S' v) \<or> v \<in> {}" using d(5) by (auto simp: wake_inv_def e)
  qed
  moreover have "map_inv S'" using d(2) by (auto simp: map_inv_def e)
  ultimately show ?thesis using o(1) by (auto simp: sched_inv_def e)
qed

text \<open>The order number is processed; no other thread works on the sequence.\<close>

lemma step_process_ok:
  assumes "sched_inv lo ls {} S pc" "pc w = Begun s n r" "BeginProcessingOrderNumber n s (sch_points S) = Inr m"
  shows "sched_inv lo ls {} (put_points m S) (pc(w := In_task s n r)) \<and> spm_generators m = gens S"
proof -
  note d = sched_invD [OF assms(1)]
  have m: "spm_generators m = gens S" "proc m = (proc (sch_points S))(s \<mapsto> (n, False))"
    using assms(3) by (auto simp: BeginProcessingOrderNumber_def with_order_def res_simps proc_def put_order_def fun_eq_iff split: option.splits)
  have other: "owner (pc v) \<noteq> Some s" if v: "v \<noteq> w" "seqs S s = Some sq" for v sq
  proof -
    obtain x where x: "sch_sequences S s = Some x" using graph_invD(4) [OF d(1) v(2)] by blast
    have "ssq_task_runner x = w" using exec_invD(2) [OF d(3) _ x, of w] assms(2) by simp
    from exec_other [OF d(3) x this v(1)] show ?thesis .
  qed
  let ?S = "put_points m S" and ?pc = "pc(w := In_task s n r)"
  have "graph_inv lo ls ?S ?pc"
  proof (rule graph_invI)
    fix q sq assume "seqs ?S q = Some sq"
    then have q: "seqs S q = Some sq" by simp
    note g = graph_invD [OF d(1) q]
    show "seq_sequence_id sq = q \<and> q \<le> ls (gens ?S) \<and> seq_ok (lo (gens ?S)) sq \<and> sch_sequences ?S q \<noteq> None" using g(1-4) m(1) by auto
    show "task_ok (lo (gens ?S)) (sch_points ?S) sq (?pc v)" for v
    proof (cases "q = s")
      case False
      then have "task_ok (lo (gens S)) m sq (pc v)" using task_ok_other [OF g(5) [of v], of m] g(1) m(2) by simp
      with False g(1) m(1) show ?thesis by simp
    next
      case True
      show ?thesis
      proof (cases "v = w")
        case True
        with g(1) g(5) [of w] assms(2) m \<open>q = s\<close> show ?thesis by auto
      next
        case False
        with other [OF False] q True g(1) show ?thesis by (intro task_ok_fresh) simp
      qed
    qed
  qed
  moreover have "exec_inv ls ?S ?pc"
  proof (rule exec_invI)
    note y = exec_invD [OF d(3)]
    show "q \<le> ls (gens ?S)" if "owner (?pc v) = Some q" for v q using that y(1) [of v q] assms(2) by (auto simp: m(1) split: if_splits)
    show "ssq_task_runner z = v" if "owner (?pc v) = Some q" "sch_sequences ?S q = Some z" for v q z
      using that y(2) [of v q z] assms(2) by (auto split: if_splits)
    show "ssq_running_state z = RUNNING \<longleftrightarrow> executing (?pc (ssq_task_runner z)) = Some q"
      if "q \<in> set (sch_sequence_map ?S)" "sch_sequences ?S q = Some z" for q z using that y(3) [of q z] assms(2) by auto
  qed
  moreover have "thread_inv ?S ?pc" by (rule thread_inv_pc [OF d(4)]) (simp_all add: assms(2))
  ultimately show ?thesis using d(2,5) m(1) by (simp add: sched_inv_def map_inv_def wake_inv_def HasAny_iff)
qed
text \<open>A task goes on: it becomes the first task again, with its order number, and the sequence pauses.\<close>

lemma ContinueTask_ok:
  assumes "sched_inv lo ls {} S pc" "pc w = In_task s n r" "Scheduler_ContinueTask ids now w s k S = Inr S'"
  shows "sched_inv lo ls {} S' pc \<and> gens S' = gens S \<and> dom (seqs S') = dom (seqs S)"
proof -
  obtain sq x sq1 m where x: "Scheduler_GetSequence s S = Some (sq, x)" "ssq_task_runner x = w"
    and c: "Sequence_ContinueTask ids now k sq (sch_points S) = Inr (sq1, m)" and S': "S' = put_graph s sq1 (put_points m S)"
    using assms(3) by (auto simp: Scheduler_ContinueTask_def Sched_ContinueTask_def res_simps split: option.splits)
  have o: "seqs S s = Some sq" "sch_sequences S s = Some x" using x(1) by (simp_all add: get_iff)
  note d = sched_invD [OF assms(1)]
  note g = graph_invD [OF d(1) o(1)]
  obtain od where od: "spm_order_data (sch_points S) s = Some od" "\<not> od_paused od" "m = put_order s (od\<lparr>od_paused := True\<rparr>) (sch_points S)"
    "seq_sequence_id sq1 = s" "orders_of sq1 = od_current_order_num od # orders_of sq" "seq_wait_fences sq1 = seq_wait_fences sq"
    using c g(1) by (auto simp: Sequence_ContinueTask_def PauseProcessingOrderNumber_def with_order_def res_simps Let_def orders_of_def new_Task_def split: option.splits)
  have t: "od_current_order_num od = n" "n \<le> lo (gens S)" "\<forall>j \<in> set (orders_of sq). n < j"
    using g(5) [of w] assms(2) g(1) od(1,2) by (auto simp: proc_def)
  have l: "later_points lo ls (sch_points S) m" "spm_generators m = gens S" "proc m s = Some (n, True)"
    using od(1,3) t(1) by (auto simp: later_points_def proc_def put_order_def)
  let ?S = "put_points m S"
  have i: "sched_inv lo ls {} ?S pc" by (rule sched_inv_later [OF assms(1) l(1)])
  have ok: "seq_ok (lo (gens ?S)) sq1" using g(3) t by (auto simp: seq_ok_def od(5,6) l(2))
  have task: "task_ok (lo (gens ?S)) (sch_points ?S) sq1 (pc v)" for v
  proof (cases "v = w")
    case True
    with assms(2) t(2) l od(4) show ?thesis by auto
  next
    case False
    with exec_other [OF d(3) o(2) x(2)] od(4) show ?thesis by (intro task_ok_fresh) simp
  qed
  have j: "sched_inv lo ls {w} (put_graph s sq1 ?S) pc"
    by (rule sched_inv_put_graph [OF i _ _ od(4) ok task, where sq = sq and x = x]) (use o x(2) in simp_all)
  have "pts_running (sch_threads S w)" using thread_invD(2) [OF d(4), of w] assms(2) by simp
  then have "sched_inv lo ls {} (put_graph s sq1 ?S) pc" by (intro sched_inv_wake(2) [OF j]) simp
  with o(1) l(2) show ?thesis by (auto simp: S')
qed

text \<open>The end of a task.\<close>

lemma ExecuteSequence_release_ok:
  assumes "sched_inv lo ls A S pc" "ExecuteSequence_release r S = Inr (run, S')"
  shows "sched_inv lo ls A S' pc \<and> gens S' = gens S \<and> seqs S' = seqs S"
proof (cases "SyncToken_HasData r")
  case True
  then obtain m where m: "SyncPointManager_EnsureFenceSyncReleased r kTaskCompletionRelease (sch_points S) = Inr (run, m)" "S' = put_points m S"
    using assms(2) by (auto simp: ExecuteSequence_release_def res_simps)
  from EnsureFenceSyncReleased_proc [OF m(1)] sched_inv_points [OF assms(1)] m(2) show ?thesis by (auto simp: same_proc_def)
qed (use assms in \<open>simp add: ExecuteSequence_release_def\<close>)

lemma ExecuteSequence_processed_ok:
  assumes "sched_inv lo ls A S pc" "ExecuteSequence_processed n s S = Inr (run, S')"
  shows "sched_inv lo ls A S' pc \<and> gens S' = gens S \<and> seqs S' = seqs S"
proof -
  obtain m where m: "FinishProcessingOrderNumber n s (sch_points S) = Inr (run, m)" "S' = put_points m S"
    using assms(2) by (auto simp: ExecuteSequence_processed_def res_simps)
  from FinishProcessing_proc [OF m(1)] sched_inv_points [OF assms(1)] m(2) show ?thesis by (auto simp: same_proc_def)
qed

lemma ExecuteSequence_end_ok:
  assumes "sched_inv lo ls {} S pc" "pc w = Processed s" "ExecuteSequence_end ids s S = Inr S'"
  shows "sched_inv lo ls {} S' (pc(w := Ended)) \<and> gens S' = gens S \<and> dom (seqs S') = dom (seqs S)"
proof (cases "Scheduler_GetSequence s S")
  case None
  note d = sched_invD [OF assms(1)]
  have "s \<notin> set (sch_sequence_map S)"
  proof
    assume m: "s \<in> set (sch_sequence_map S)"
    then obtain sq where sq: "seqs S s = Some sq" using d(2) by (auto simp: map_inv_def)
    from graph_invD(4) [OF d(1) sq] obtain x where "sch_sequences S s = Some x" by blast
    with sq m have "Scheduler_GetSequence s S = Some (sq, x)" by (simp add: get_iff)
    with None show False by simp
  qed
  then have "sched_inv lo ls {} S (pc(w := Ended))" by (intro sched_inv_pc [OF assms(1)]) (simp_all add: assms(2))
  with None assms(3) show ?thesis by (simp add: ExecuteSequence_end_def)
next
  case (Some a)
  then obtain sq x where x: "Scheduler_GetSequence s S = Some (sq, x)" by (cases a) simp
  then have o: "seqs S s = Some sq" "sch_sequences S s = Some x" "s \<in> set (sch_sequence_map S)" by (simp_all add: get_iff)
  let ?sq = "Sequence_FinishTask ids sq" and ?y = "x\<lparr>ssq_running_state := SCHEDULED\<rparr>" and ?pc = "pc(w := Ended)"
  have S': "S' = put_sched s ?y (put_graph s ?sq S)" using assms(3) x by (auto simp: ExecuteSequence_end_def Sched_FinishTask_def res_simps)
  have "sched_inv lo ls {} (put_graph s ?sq S) pc"
    by (rule sched_inv_same_seq [OF assms(1) o(1)]) (simp_all add: Sequence_FinishTask_def Sequence_UpdateValidationTimer_def orders_of_def)
  note d = sched_invD [OF this]
  have run: "ssq_task_runner x = w" using exec_invD(2) [OF sched_invD(3) [OF assms(1)] _ o(2), of w] assms(2) by simp
  have "graph_inv lo ls S' ?pc"
  proof (rule graph_invI)
    fix q sq' assume "seqs S' q = Some sq'"
    then have q: "seqs (put_graph s ?sq S) q = Some sq'" by (simp add: S')
    from graph_invD(1-4) [OF d(1) q] show "seq_sequence_id sq' = q \<and> q \<le> ls (gens S') \<and> seq_ok (lo (gens S')) sq' \<and> sch_sequences S' q \<noteq> None" by (auto simp: S')
    show "task_ok (lo (gens S')) (sch_points S') sq' (?pc v)" for v using graph_invD(5) [OF d(1) q, of v] by (simp add: S')
  qed
  moreover have "exec_inv ls S' ?pc"
  proof (rule exec_invI)
    note y = exec_invD [OF d(3)]
    show "q \<le> ls (gens S')" if "owner (?pc v) = Some q" for v q using that y(1) [of v q] by (auto simp: S' split: if_splits)
    show "ssq_task_runner z = v" if "owner (?pc v) = Some q" "sch_sequences S' q = Some z" for v q z
      using that y(2) [of v q] run o(2) by (auto simp: S' split: if_splits)
    show "ssq_running_state z = RUNNING \<longleftrightarrow> executing (?pc (ssq_task_runner z)) = Some q"
      if "q \<in> set (sch_sequence_map S')" "sch_sequences S' q = Some z" for q z
      using that y(3) [of q z] run assms(2) by (auto simp: S' split: if_splits)
  qed
  moreover have "thread_inv S' ?pc" by (rule thread_inv_pc [OF d(4)]) (simp_all add: S' assms(2))
  moreover have "wake_inv {} S'" using d(5) o(2) by (auto simp: wake_inv_def HasAny_iff S' split: if_splits)
  moreover have "map_inv S'" using d(2) by (simp add: map_inv_def S')
  ultimately show ?thesis using o(1) by (auto simp: sched_inv_def S')
qed

lemma RunNextTask_again_ok:
  assumes "sched_inv lo ls {} S pc" "pc w = Ended"
  shows "sched_inv lo ls {} (RunNextTask_again now w S) (pc(w := Between)) \<and> sch_task_graph (RunNextTask_again now w S) = sch_task_graph S"
proof -
  note d = sched_invD [OF assms(1)]
  let ?S = "RunNextTask_again now w S" and ?pc = "pc(w := Between)"
  have e: "sch_task_graph ?S = sch_task_graph S" "sch_points ?S = sch_points S" "sch_sequences ?S = sch_sequences S" "sch_sequence_map ?S = sch_sequence_map S"
    by (simp_all add: RunNextTask_again_def)
  have "graph_inv lo ls ?S ?pc" using d(1) unfolding graph_inv_def e by simp
  moreover have "exec_inv ls ?S ?pc"
  proof (rule exec_invI)
    note y = exec_invD [OF d(3)]
    show "q \<le> ls (gens ?S)" if "owner (?pc v) = Some q" for v q using that y(1) [of v q] by (auto simp: e split: if_splits)
    show "ssq_task_runner z = v" if "owner (?pc v) = Some q" "sch_sequences ?S q = Some z" for v q z
      using that y(2) [of v q z] by (auto simp: e split: if_splits)
    show "ssq_running_state z = RUNNING \<longleftrightarrow> executing (?pc (ssq_task_runner z)) = Some q"
      if "q \<in> set (sch_sequence_map ?S)" "sch_sequences ?S q = Some z" for q z using that y(3) [of q z] assms(2) by (auto simp: e)
  qed
  moreover have "thread_inv ?S ?pc"
    unfolding thread_inv_def
  proof
    fix v
    show "sch_posted ?S v + (if ?pc v = Between then 0 else 1) = (if pts_running (sch_threads ?S v) then 1 else 0)"
      using thread_invD(1) [OF d(4), of v] thread_invD(2) [OF d(4), of w] assms(2) by (cases "v = w"; cases "HasAnyUnblockedTasksOnRunner w S") (simp_all add: RunNextTask_again_def split: if_splits)
  qed
  moreover have "wake_inv {} ?S"
  proof (cases "HasAnyUnblockedTasksOnRunner w S")
    case True
    then have "?S = post_RunNextTask now w S" by (simp add: RunNextTask_again_def)
    with d(5) show ?thesis by (simp add: wake_inv_def HasAny_iff)
  next
    case False
    then have "?S = set_running w False S" by (simp add: RunNextTask_again_def)
    with d(5) False show ?thesis by (auto simp: wake_inv_def HasAny_iff)
  qed
  ultimately show ?thesis using d(2) e by (simp add: sched_inv_def map_inv_def)
qed
text \<open>Validation only marks tasks.\<close>

lemma same_graph_refl: "same_graph G G"
  by (simp add: same_graph_def)

lemma same_graph_trans: "same_graph G G' \<Longrightarrow> same_graph G' G'' \<Longrightarrow> same_graph G G''"
  by (simp add: same_graph_def)

lemma mark_validated_same: "same_graph (vd_sequences v) (vd_sequences (mark_validated s i v))"
  using plain_marked by (auto simp: mark_validated_def same_graph_def update_conv' split: option.splits)

definition only_marks :: "(u32 \<Rightarrow> nat \<Rightarrow> ('k, 'r) validation \<Rightarrow> ('k, 'r) validation res) \<Rightarrow> bool" where
  "only_marks f \<longleftrightarrow> (\<forall>s i v v'. f s i v = Inr v' \<longrightarrow> same_graph (vd_sequences v) (vd_sequences v'))"

lemma GetSequenceValidateState_same: "vd_sequences (snd (GetSequenceValidateState s sq v)) = vd_sequences v"
  by (simp add: GetSequenceValidateState_eq split: option.splits)

lemma force_release_same [simp]: "vd_sequences (force_release c r v) = vd_sequences v"
  by (simp add: force_release_def)

lemma validate_deps_same:
  assumes "only_marks f"
  shows "validate_deps f n s i ts v = Inr v' \<Longrightarrow> same_graph (vd_sequences v) (vd_sequences v')"
proof (induction ts arbitrary: i v)
  case (Cons t ts)
  show ?case
  proof (cases "n < tsk_order_num t")
    case True
    with Cons.prems show ?thesis by (simp add: same_graph_refl)
  next
    case False
    then obtain v1 where "f s i v = Inr v1" "validate_deps f n s (i + 1) ts v1 = Inr v'" using Cons.prems by (auto simp: res_simps)
    with Cons.IH assms same_graph_trans show ?thesis unfolding only_marks_def by blast
  qed
qed (simp add: same_graph_refl)

lemma validate_fence_same:
  assumes "only_marks f" "validate_fence f fence v = Inr v'"
  shows "same_graph (vd_sequences v) (vd_sequences v')"
proof (cases "map_of (vd_sequences v) (wf_release_sequence_id fence)")
  case None
  with assms(2) show ?thesis by (auto simp: validate_fence_def Let_def same_graph_refl split: option.splits if_splits)
next
  case (Some sq)
  obtain nx b v1 where g: "GetSequenceValidateState (wf_release_sequence_id fence) sq v = ((nx, b), v1)" by (metis surj_pair)
  have e: "vd_sequences v1 = vd_sequences v" using GetSequenceValidateState_same [of "wf_release_sequence_id fence" sq v] g by simp
  have "v' = v1 \<or> v' = force_release (SyncToken_GetClientId (wf_sync_token fence)) (tk_release_count (wf_sync_token fence)) v1 \<or>
    (\<exists>t. validate_deps f t (wf_release_sequence_id fence) nx (drop nx (seq_tasks sq)) v1 = Inr v')"
    using assms(2) Some g unfolding validate_fence_def Let_def by (auto split: if_splits option.splits)
  with validate_deps_same [OF assms(1)] e show ?thesis by (metis force_release_same same_graph_refl)
qed

lemma validate_fences_same:
  assumes "only_marks f"
  shows "validate_fences f fs v = Inr v' \<Longrightarrow> same_graph (vd_sequences v) (vd_sequences v')"
proof (induction fs arbitrary: v)
  case (Cons a fs)
  then obtain v1 where "validate_fence f a v = Inr v1" "validate_fences f fs v1 = Inr v'" by (auto simp: res_simps)
  with Cons.IH validate_fence_same [OF assms] same_graph_trans show ?case by blast
qed (simp add: same_graph_refl)

lemma ValidateTaskFenceDeps_same: "only_marks (ValidateTaskFenceDeps n)"
proof (induction n)
  case 0
  then show ?case by (simp add: only_marks_def)
next
  case (Suc n)
  show ?case unfolding only_marks_def
  proof (intro allI impI)
    fix s i v and v' :: "('a, 'b) validation"
    assume a: "ValidateTaskFenceDeps (Suc n) s i v = Inr v'"
    then obtain sq where sq: "map_of (vd_sequences v) s = Some sq" by (auto split: option.splits)
    obtain nx b v1 where g: "GetSequenceValidateState s sq v = ((nx, b), v1)" by (metis surj_pair)
    have e: "vd_sequences v1 = vd_sequences v" using GetSequenceValidateState_same [of s sq v] g by simp
    have c: "nx = i" "\<not> b" "i < length (seq_tasks sq)" using a sq g by (auto split: if_splits)
    then obtain v2 where v2: "validate_fences (ValidateTaskFenceDeps n) (GetTaskWaitFences (seq_tasks sq ! i) sq) (v1\<lparr>vd_states := (vd_states v1)(s \<mapsto> (i, True))\<rparr>) = Inr v2"
      and r: "v' = (mark_validated s i (if SyncToken_HasData (tsk_release (seq_tasks sq ! i))
          then v2\<lparr>vd_pending_releases := UpdateReleaseCount (SyncToken_GetClientId (tsk_release (seq_tasks sq ! i)))
             (tk_release_count (tsk_release (seq_tasks sq ! i))) (vd_pending_releases v2)\<rparr> else v2))
        \<lparr>vd_states := (vd_states v2)(s \<mapsto> (i + 1, False))\<rparr>"
      using a sq g by (auto simp: res_simps Let_def)
    have "same_graph (vd_sequences v2) (vd_sequences v')"
      using mark_validated_same [of "if SyncToken_HasData (tsk_release (seq_tasks sq ! i))
          then v2\<lparr>vd_pending_releases := UpdateReleaseCount (SyncToken_GetClientId (tsk_release (seq_tasks sq ! i)))
             (tk_release_count (tsk_release (seq_tasks sq ! i))) (vd_pending_releases v2)\<rparr> else v2" s i] by (simp add: r split: if_splits)
    moreover have "same_graph (vd_sequences v) (vd_sequences v2)" using validate_fences_same [OF Suc v2] e by simp
    ultimately show "same_graph (vd_sequences v) (vd_sequences v')" using same_graph_trans by blast
  qed
qed

lemma validate_root_same: "validate_root n now s i ts v = Inr v' \<Longrightarrow> same_graph (vd_sequences v) (vd_sequences v')"
proof (induction ts arbitrary: i v)
  case (Cons t ts)
  have "same_graph (vd_sequences v) (vd_sequences v1)" if "ValidateTaskFenceDeps n s i v = Inr v1" for v1
    using ValidateTaskFenceDeps_same that unfolding only_marks_def by blast
  with Cons same_graph_trans show ?case by (auto simp: res_simps same_graph_refl split: if_splits) blast
qed (simp add: same_graph_refl)

lemma validate_sequence_same: "validate_sequence now root G = Inr v \<Longrightarrow> same_graph G (vd_sequences v)"
  using validate_root_same by (fastforce simp: validate_sequence_def)

lemma plain_same: "plain sq' = plain sq \<Longrightarrow> seq_sequence_id sq' = seq_sequence_id sq \<and> orders_of sq' = orders_of sq \<and> seq_wait_fences sq' = seq_wait_fences sq"
proof -
  assume p: "plain sq' = plain sq"
  have "seq_sequence_id sq' = seq_sequence_id sq" using arg_cong [OF p, of seq_sequence_id] by (simp add: plain_def)
  moreover have "orders_of sq' = orders_of sq"
    using plain_eq(1,4) [OF p] by (intro nth_equalityI) (simp_all add: orders_of_def)
  ultimately show ?thesis using plain_eq(2) [OF p] by simp
qed

lemma sched_inv_marks:
  assumes "sched_inv lo ls A S pc" "same_graph (tg_sequence_map (sch_task_graph S)) G"
  shows "sched_inv lo ls A (S\<lparr>sch_task_graph := (sch_task_graph S)\<lparr>tg_sequence_map := G\<rparr>\<rparr>) pc"
    "dom (map_of G) = dom (seqs S)"
proof -
  note d = sched_invD [OF assms(1)]
  let ?S = "S\<lparr>sch_task_graph := (sch_task_graph S)\<lparr>tg_sequence_map := G\<rparr>\<rparr>"
  have e: "sch_points ?S = sch_points S" "seqs ?S = map_of G" by (simp_all add: sch_points_def)
  have old: "\<exists>sq. seqs S s = Some sq \<and> plain sq' = plain sq" if "map_of G s = Some sq'" for s sq'
    using same_graph_get [OF assms(2) that] by blast
  have new: "\<exists>sq'. map_of G s = Some sq'" if "seqs S s = Some sq" for s sq
    using assms(2) that unfolding same_graph_def by (metis map_option_eq_Some)
  show "dom (map_of G) = dom (seqs S)" using old new by blast
  have "graph_inv lo ls ?S pc"
  proof (rule graph_invI)
    fix s sq' assume "seqs ?S s = Some sq'"
    then obtain sq where sq: "seqs S s = Some sq" "plain sq' = plain sq" using old by auto
    note p = plain_same [OF sq(2)]
    note g = graph_invD [OF d(1) sq(1)]
    show "seq_sequence_id sq' = s \<and> s \<le> ls (gens ?S) \<and> seq_ok (lo (gens ?S)) sq' \<and> sch_sequences ?S s \<noteq> None"
      using g(1-4) p by (auto simp: e(1) seq_ok_def)
    show "task_ok (lo (gens ?S)) (sch_points ?S) sq' (pc w)" for w using g(5) [of w] p by (simp add: e(1) task_ok_cong [of sq' sq])
  qed
  moreover have "wake_inv A ?S"
    unfolding wake_inv_def
  proof (intro allI impI)
    fix w assume "HasAnyUnblockedTasksOnRunner w ?S"
    then obtain s sq' x where s: "s \<in> set (sch_sequence_map S)" "map_of G s = Some sq'" "sch_sequences S s = Some x" "ssq_task_runner x = w" "ssq_enabled x"
      "IsFrontTaskUnblocked sq'" by (auto simp: HasAny_iff)
    obtain sq where sq: "seqs S s = Some sq" "plain sq' = plain sq" using old [OF s(2)] by blast
    have "IsFrontTaskUnblocked sq" using s(6) plain_same [OF sq(2)] unblocked_cong [of sq' sq] by simp
    with s sq(1) have "HasAnyUnblockedTasksOnRunner w S" by (auto simp: HasAny_iff)
    with d(5) show "pts_running (sch_threads ?S w) \<or> w \<in> A" by (simp add: wake_inv_def)
  qed
  moreover have "map_inv ?S" using d(2) new by (auto simp: map_inv_def)
  ultimately show "sched_inv lo ls A ?S pc" using d(3,4) by (simp add: sched_inv_def exec_inv_def thread_inv_def e(1))
qed
text \<open>Sequences that go.\<close>

lemma unmap_ok:
  assumes "sched_inv lo ls A S pc"
  shows "sched_inv lo ls A (DestroySequence_unmap s S) pc"
proof -
  note d = sched_invD [OF assms]
  let ?S = "DestroySequence_unmap s S"
  have e: "sch_task_graph ?S = sch_task_graph S" "sch_points ?S = sch_points S" "sch_sequences ?S = sch_sequences S" "sch_threads ?S = sch_threads S"
    "sch_posted ?S = sch_posted S" "set (sch_sequence_map ?S) = set (sch_sequence_map S) - {s}" "distinct (sch_sequence_map ?S)"
    using d(2) by (simp_all add: DestroySequence_unmap_def sch_points_def map_inv_def)
  have "exec_inv ls ?S pc" by (rule exec_invI) (use exec_invD [OF d(3)] in \<open>auto simp: e\<close>)
  moreover have "wake_inv A ?S" using d(5) unfolding wake_inv_def HasAny_iff e by blast
  ultimately show ?thesis using d(1,2,4) e by (simp add: sched_inv_def graph_inv_def map_inv_def thread_inv_def)
qed

lemma DestroySequence_take_ok:
  assumes "sched_inv lo ls A S pc" "s \<notin> set (sch_sequence_map S)" "DestroySequence_take s S = Inr (run, sq, S')"
  shows "sched_inv lo ls A S' pc" "gens S' = gens S" "seqs S' = (seqs S)(s := None)" "seq_sequence_id sq = s" "s \<le> ls (gens S)"
proof -
  note d = sched_invD [OF assms(1)]
  obtain sq0 m where t: "seqs S s = Some sq0" "Sequence_Destroy sq0 (sch_points S) = Inr (run, sq, m)"
    "S' = S\<lparr>sch_task_graph := (sch_task_graph S)\<lparr>tg_sync_points := m, tg_sequence_map := AList.delete s (tg_sequence_map (sch_task_graph S))\<rparr>\<rparr>"
    using assms(3) by (auto simp: DestroySequence_take_def TaskGraph_GetSequence_def res_simps split: option.splits)
  note g = graph_invD [OF d(1) t(1)]
  have p: "same_proc (sch_points S) m" "seq_sequence_id sq = seq_sequence_id sq0"
    using t(2) destroy_states_proc SyncPointOrderData_Destroy_proc same_proc_trans by (fastforce simp: Sequence_Destroy_def res_simps)+
  then show "gens S' = gens S" "seq_sequence_id sq = s" "s \<le> ls (gens S)" using g(1,2) by (simp_all add: t(3) sch_points_def same_proc_def)
  show q: "seqs S' = (seqs S)(s := None)" by (simp add: t(3) delete_conv')
  note i = sched_invD [OF sched_inv_points [OF assms(1) p(1)]]
  have e: "sch_points S' = m" "sch_sequences S' = sch_sequences S" "sch_threads S' = sch_threads S" "sch_posted S' = sch_posted S"
    "sch_sequence_map S' = sch_sequence_map S" by (simp_all add: t(3) sch_points_def)
  have "graph_inv lo ls S' pc" using i(1) unfolding graph_inv_def q by (auto simp: e)
  moreover have "map_inv S'" using i(2) assms(2) by (auto simp: map_inv_def q e)
  moreover have "wake_inv A S'" using i(5) assms(2) unfolding wake_inv_def HasAny_iff q by (auto simp: e split: if_splits)
  ultimately show "sched_inv lo ls A S' pc" using i(3,4) by (simp add: sched_inv_def exec_inv_def thread_inv_def e)
qed

lemma wake_releasers_ok:
  "sched_inv lo ls {} S pc \<Longrightarrow> wake_releasers now fs S = Inr S' \<Longrightarrow> sched_inv lo ls {} S' pc \<and> sch_task_graph S' = sch_task_graph S"
proof (induction fs arbitrary: S)
  case (Cons f fs)
  show ?case
  proof (cases "Scheduler_GetSequence (wf_release_sequence_id f) S")
    case None
    with Cons show ?thesis by simp
  next
    case (Some a)
    then obtain sq x where x: "sched_object (wf_release_sequence_id f) S = Some (sq, x)"
      by (cases a) (auto simp: Scheduler_GetSequence_def split: if_splits)
    obtain S1 where S1: "TryScheduleSequence now (wf_release_sequence_id f) S = Inr S1" "wake_releasers now fs S1 = Inr S'"
      using Cons.prems(2) Some by (auto simp: res_simps)
    have "sched_inv lo ls (insert (ssq_task_runner x) {}) S pc" using Cons.prems(1) by (simp add: sched_inv_def wake_inv_def)
    note ts = TryScheduleSequence_ok [OF this x]
    from Cons.IH [OF ts(1) [OF S1(1)] S1(2)] ts(3) [OF S1(1)] show ?thesis by simp
  qed
qed simp

lemma delete_Sequence_ok:
  assumes "sched_inv lo ls {} S pc" "seqs S (seq_sequence_id sq) = None" "delete_Sequence now sq S = Inr S'"
  shows "sched_inv lo ls {} S' pc \<and> sch_task_graph S' = sch_task_graph S"
proof -
  obtain S1 where S1: "wake_releasers now (seq_wait_fences sq) S = Inr S1" "S' = S1\<lparr>sch_sequences := (sch_sequences S1)(seq_sequence_id sq := None)\<rparr>"
    using assms(3) by (auto simp: delete_Sequence_def res_simps split: if_splits)
  note w = wake_releasers_ok [OF assms(1) S1(1)]
  then have i: "sched_inv lo ls {} S1 pc" and g: "sch_task_graph S1 = sch_task_graph S" by simp_all
  note d = sched_invD [OF i]
  have none: "seqs S1 (seq_sequence_id sq) = None" using assms(2) g by simp
  have e: "sch_task_graph S' = sch_task_graph S1" "sch_points S' = sch_points S1" "sch_sequences S' = (sch_sequences S1)(seq_sequence_id sq := None)"
    "sch_threads S' = sch_threads S1" "sch_posted S' = sch_posted S1" "sch_sequence_map S' = sch_sequence_map S1"
    by (simp_all add: S1(2) sch_points_def)
  have "graph_inv lo ls S' pc" using d(1) none unfolding graph_inv_def e by auto
  moreover have "exec_inv ls S' pc" by (rule exec_invI) (use exec_invD [OF d(3)] in \<open>auto simp: e split: if_splits\<close>)
  moreover have "wake_inv {} S'" using d(5) none unfolding wake_inv_def HasAny_iff by (auto simp: e split: if_splits)
  ultimately show ?thesis using d(2,4) g e(1) by (simp add: sched_inv_def map_inv_def thread_inv_def e)
qed

text \<open>Client states come and go.\<close>

lemma client_state_ok:
  assumes "sched_inv lo ls A S pc" "Scheduler_CreateSyncPointClientState s ns cb S = Inr S'"
  shows "sched_inv lo ls A S' pc \<and> gens S' = gens S \<and> dom (seqs S') = dom (seqs S)"
proof -
  obtain sq i m where c: "seqs S s = Some sq" "CreateSyncPointClientState ns cb (seq_sequence_id sq) (sch_points S) = Inr (i, m)"
    "S' = put_graph s (sq\<lparr>seq_sync_point_states := seq_sync_point_states sq @ [i]\<rparr>) (put_points m S)"
    using assms(2) by (auto simp: Scheduler_CreateSyncPointClientState_def TaskGraph_CreateSyncPointClientState_def Sequence_CreateSyncPointClientState_def
        TaskGraph_GetSequence_def sch_points_def put_graph_def put_points_def put_sequence_def res_simps split: option.splits)
  have p: "same_proc (sch_points S) m" by (rule CreateSyncPointClientState_proc [OF c(2)])
  have "sched_inv lo ls A S' pc" unfolding c(3)
    by (rule sched_inv_same_seq [OF sched_inv_points [OF assms(1) p]]) (simp_all add: c(1) orders_of_def)
  with p c(1) show ?thesis by (auto simp: c(3) same_proc_def)
qed

lemma no_client_state_ok:
  assumes "sched_inv lo ls A S pc" "seqs S s = Some sq" "TakeSyncPointClientState ns cb (sch_points S) sq = (Some i, sq1)"
    "DestroySyncPointClientState i (sch_points S) = Inr (run, m)"
  shows "sched_inv lo ls A (put_graph s sq1 (put_points m S)) pc \<and> spm_generators m = gens S"
proof -
  have p: "same_proc (sch_points S) m" by (rule DestroySyncPointClientState_proc [OF assms(4)])
  have "seq_sequence_id sq1 = seq_sequence_id sq \<and> orders_of sq1 = orders_of sq \<and> seq_wait_fences sq1 = seq_wait_fences sq"
    using assms(3) by (auto simp: TakeSyncPointClientState_def orders_of_def split: option.splits)
  with sched_inv_same_seq [OF sched_inv_points [OF assms(1) p], of s sq sq1] assms(2) p show ?thesis by (simp add: same_proc_def)
qed
section \<open>Every step keeps the invariant\<close>

definition world_inv :: "('g \<Rightarrow> nat) \<Rightarrow> ('g \<Rightarrow> nat) \<Rightarrow> ('k, 'r, 'g, 'w) world \<Rightarrow> bool" where
  "world_inv lo ls W \<longleftrightarrow> sched_inv lo ls {} (wd_scheduler W) (wd_pc W) \<and>
     (\<forall>sq \<in> set (wd_dying W). seqs (wd_scheduler W) (seq_sequence_id sq) = None \<and> seq_sequence_id sq \<le> ls (gens (wd_scheduler W)))"

lemma world_invI:
  assumes "world_inv lo ls W" "sched_inv lo ls {} (wd_scheduler W') (wd_pc W')" "set (wd_dying W') \<subseteq> set (wd_dying W)"
    and "dom (seqs (wd_scheduler W')) \<subseteq> dom (seqs (wd_scheduler W))" "ls (gens (wd_scheduler W')) = ls (gens (wd_scheduler W))"
  shows "world_inv lo ls W'"
  using assms unfolding world_inv_def by (fastforce simp: domIff subset_iff)

lemma same_graph_world:
  assumes "sch_task_graph S' = sch_task_graph S"
  shows "seqs S' = seqs S" "sch_points S' = sch_points S"
  using assms by (simp_all add: sch_points_def)

theorem sched_step_inv:
  assumes "sched_step ids W W'" "world_inv lo ls W" "base_ids_ok ids lo ls"
  shows "world_inv lo ls W'"
proof -
  have inv: "sched_inv lo ls {} (wd_scheduler W) (wd_pc W)" using assms(2) by (simp add: world_inv_def)
  note I = world_invI [OF assms(2)]
  from assms(1) show ?thesis
  proof cases
    case (step_create priority w namespace_id command_buffer_id s S)
    note c = CreateSequence_ok [OF inv assms(3) step_create(2)]
    have "seqs S t = None" if "seqs (wd_scheduler W) t = None" "t \<le> ls (gens (wd_scheduler W))" for t
      using that c(2,4) by (metis domIff insert_iff not_less)
    with c assms(2) show ?thesis by (fastforce simp: world_inv_def step_create(1))
  next
    case (step_client_state s namespace_id command_buffer_id S)
    then show ?thesis using client_state_ok [OF inv step_client_state(2)] by (intro I) simp_all
  next
    case (step_no_client_state s sq namespace_id command_buffer_id i sq1 run m)
    then have sq: "seqs (wd_scheduler W) s = Some sq" by (simp add: TaskGraph_GetSequence_def)
    from no_client_state_ok [OF inv sq step_no_client_state(3,4)] sq step_no_client_state(1) show ?thesis by (intro I) auto
  next
    case (step_enable now s S)
    then obtain sq x where "Scheduler_GetSequence s (wd_scheduler W) = Some (sq, x)" "SetEnabled now True s x (wd_scheduler W) = Inr S"
      by (auto simp: EnableSequence_def split: option.splits)
    from SetEnabled_ok [OF inv this] step_enable(1) same_graph_world [of S "wd_scheduler W"] show ?thesis by (intro I) simp_all
  next
    case (step_disable now s S)
    then obtain sq x where "Scheduler_GetSequence s (wd_scheduler W) = Some (sq, x)" "SetEnabled now False s x (wd_scheduler W) = Inr S"
      by (auto simp: DisableSequence_def split: option.splits)
    from SetEnabled_ok [OF inv this] step_disable(1) same_graph_world [of S "wd_scheduler W"] show ?thesis by (intro I) simp_all
  next
    case (step_priority s priority)
    from SetSequencePriority_ok [OF inv, of s priority] step_priority same_graph_world [of "SetSequencePriority s priority (wd_scheduler W)" "wd_scheduler W"]
    show ?thesis by (intro I) simp_all
  next
    case (step_schedule now t S)
    from ScheduleTaskHelper_ok [OF inv assms(3) step_schedule(2)] step_schedule(1) show ?thesis by (intro I) simp_all
  next
    case (step_release token cause run m)
    note p = EnsureFenceSyncReleased_proc [OF step_release(2)]
    from sched_inv_points [OF inv p] p step_release(1) show ?thesis by (intro I) (simp_all add: same_proc_def)
  next
    case (step_validate now root v)
    note m = sched_inv_marks [OF inv validate_sequence_same [OF step_validate(2)]]
    from m step_validate(1) show ?thesis by (intro I) (simp_all add: sch_points_def)
  next
    case (step_closure c now S)
    from FenceReleased_ok(1) [OF inv step_closure(3)] step_closure(1) show ?thesis by (intro I) simp_all
  next
    case (step_continue w s n r now k S)
    from ContinueTask_ok [OF inv step_continue(2,3)] step_continue(1) show ?thesis by (intro I) simp_all
  next
    case (step_yield w s n r b S)
    from ShouldYield_ok [OF inv step_yield(3)] step_yield(1) same_graph_world [of S "wd_scheduler W"] show ?thesis by (intro I) simp_all
  next
    case (step_pick w r S)
    from RunNextTask_pick_ok(2) [OF inv step_pick(2,3,4)] step_pick(1) same_graph_world [of S "wd_scheduler W"] show ?thesis by (intro I) simp_all
  next
    case (step_begin w s n k r report S)
    from ExecuteSequence_begin_ok [OF inv step_begin(2,3)] step_begin(1) show ?thesis by (intro I) simp_all
  next
    case (step_process w s n r m)
    from step_process_ok [OF inv step_process(2,3)] step_process(1) show ?thesis by (intro I) simp_all
  next
    case (step_done w s n r run S)
    have "sched_inv lo ls {} (wd_scheduler W) ((wd_pc W)(w := Released s n))"
      by (rule sched_inv_pc [OF inv]) (simp_all add: step_done(2))
    from ExecuteSequence_release_ok [OF this step_done(4)] step_done(1) show ?thesis by (intro I) simp_all
  next
    case (step_paused w s n r)
    have "sched_inv lo ls {} (wd_scheduler W) ((wd_pc W)(w := Processed s))"
      by (rule sched_inv_pc [OF inv]) (simp_all add: step_paused(2))
    with step_paused(1) show ?thesis by (intro I) simp_all
  next
    case (step_finish w s n run S)
    have "sched_inv lo ls {} (wd_scheduler W) ((wd_pc W)(w := Processed s))"
      by (rule sched_inv_pc [OF inv]) (simp_all add: step_finish(2))
    from ExecuteSequence_processed_ok [OF this step_finish(3)] step_finish(1) show ?thesis by (intro I) simp_all
  next
    case (step_end w s S)
    from ExecuteSequence_end_ok [OF inv step_end(2,3)] step_end(1) show ?thesis by (intro I) simp_all
  next
    case (step_again w now)
    from RunNextTask_again_ok [OF inv step_again(2), of now] step_again(1) same_graph_world [of "RunNextTask_again now w (wd_scheduler W)" "wd_scheduler W"]
    show ?thesis by (intro I) simp_all
  next
    case (step_unmap s)
    from unmap_ok [OF inv, of s] step_unmap same_graph_world [of "DestroySequence_unmap s (wd_scheduler W)" "wd_scheduler W"]
    show ?thesis by (intro I) (simp_all add: DestroySequence_unmap_def)
  next
    case (step_take s run sq S)
    note t = DestroySequence_take_ok [OF inv step_take(2,3)]
    from t assms(2) show ?thesis by (auto simp: world_inv_def step_take(1))
  next
    case (step_delete sq now S)
    have "seqs (wd_scheduler W) (seq_sequence_id sq) = None" using assms(2) step_delete(2) by (simp add: world_inv_def)
    from delete_Sequence_ok [OF inv this step_delete(3)] step_delete(1) same_graph_world [of S "wd_scheduler W"] show ?thesis
      by (intro I) (simp_all add: set_remove1_subset)
  qed
qed

lemma start_of_threads_inv: "world_inv lo ls (start_of_threads m)"
  by (auto simp: world_inv_def start_of_threads_def sched_inv_def graph_inv_def map_inv_def exec_inv_def thread_inv_def wake_inv_def
      new_Scheduler_def new_TaskGraph_def new_PerThreadState_def HasAnyUnblockedTasksOnRunner_def)

theorem sched_run_inv:
  assumes "sched_run ids W" "base_ids_ok ids lo ls"
  shows "world_inv lo ls W"
  using assms(1) by induction (use start_of_threads_inv sched_step_inv assms(2) in blast)+

end
