(* ===== verification/Scheduler_Handover.thy ===== *)
theory Scheduler_Handover
  imports Scheduler_Steps
begin

text \<open>
  What happens between the two locks of \<^verbatim>\<open>RunNextTask\<close>: the sequence that was chosen is executed if it is still in the
  scheduler's map and enabled, and a check fails if it is not.
\<close>

section \<open>Idle sequences\<close>

text \<open>No operation makes a sequence idle again.\<close>

definition never_idle :: "('k, 'r, 'g, 'w) scheduler \<Rightarrow> ('k, 'r, 'g, 'w) scheduler \<Rightarrow> bool" where
  "never_idle S S' \<longleftrightarrow> (\<forall>s x'. sch_sequences S' s = Some x' \<longrightarrow> ssq_running_state x' = IDLE \<longrightarrow>
     (\<exists>x. sch_sequences S s = Some x \<and> ssq_running_state x = IDLE))"

lemma never_idle_refl [simp]: "never_idle S S"
  by (simp add: never_idle_def)

lemma never_idleD:
  "never_idle S S' \<Longrightarrow> sch_sequences S' s = Some x' \<Longrightarrow> ssq_running_state x' = IDLE \<Longrightarrow> \<exists>x. sch_sequences S s = Some x \<and> ssq_running_state x = IDLE"
  unfolding never_idle_def by blast

lemma never_idle_trans: "never_idle S S' \<Longrightarrow> never_idle S' S'' \<Longrightarrow> never_idle S S''"
  unfolding never_idle_def by blast

lemma never_idle_same: "sch_sequences S' = sch_sequences S \<Longrightarrow> never_idle S S'"
  by (simp add: never_idle_def)

lemma never_idle_put:
  assumes "sch_sequences S s = Some x" "ssq_running_state y = IDLE \<Longrightarrow> ssq_running_state x = IDLE" "sch_sequences S' = (sch_sequences S)(s \<mapsto> y)"
  shows "never_idle S S'"
  using assms by (auto simp: never_idle_def)

lemma TryScheduleSequence_idle:
  assumes "TryScheduleSequence now s S = Inr S'"
  shows "never_idle S S'"
proof -
  obtain sq x where x: "sched_object s S = Some (sq, x)" using assms by (auto simp: TryScheduleSequence_def split: option.splits)
  with assms show ?thesis
    by (auto simp: TryScheduleSequence_def Let_def UpdateRunningPriority_def SetScheduled_def res_simps never_idle_def object_iff split: if_splits)
qed

lemma SetEnabled_idle:
  assumes "SetEnabled now b s x S = Inr S'" "sch_sequences S s = Some x"
  shows "never_idle S S'"
proof (cases "ssq_enabled x = b")
  case True
  with assms show ?thesis by (simp add: SetEnabled_def)
next
  case False
  then have t: "TryScheduleSequence now s (put_sched s (x\<lparr>ssq_enabled := b\<rparr>) S) = Inr S'" using assms by (simp add: SetEnabled_def)
  have "never_idle S (put_sched s (x\<lparr>ssq_enabled := b\<rparr>) S)" by (rule never_idle_put [OF assms(2)]) simp_all
  from never_idle_trans [OF this TryScheduleSequence_idle [OF t]] show ?thesis .
qed

lemma SetSequencePriority_idle: "never_idle S (SetSequencePriority s p S)"
proof (cases "Scheduler_GetSequence s S")
  case (Some y)
  obtain sq x where y: "y = (sq, x)" by (cases y)
  have "never_idle S (put_sched s (x\<lparr>ssq_current_priority := p\<rparr>) S)" by (rule never_idle_put [of S s x]) (use Some in \<open>simp_all add: y get_iff\<close>)
  with Some y show ?thesis by (simp add: SetSequencePriority_def)
qed (simp add: SetSequencePriority_def)

lemma wake_releasers_idle: "wake_releasers now fs S = Inr S' \<Longrightarrow> never_idle S S'"
proof (induction fs arbitrary: S)
  case (Cons f fs)
  then show ?case using TryScheduleSequence_idle never_idle_trans by (fastforce simp: res_simps split: option.splits)
qed simp

lemma schedule_runnable_idle: "schedule_runnable ss S = Inr (l, S') \<Longrightarrow> never_idle S S'"
proof (induction ss arbitrary: S l)
  case (Cons s ss)
  then obtain sq x where x: "sched_object s S = Some (sq, x)" by (auto split: option.splits)
  show ?case
  proof (cases "IsRunnable sq x")
    case True
    then obtain x1 l1 where x1: "SetScheduled sq x = Inr x1" "schedule_runnable ss (put_sched s x1 S) = Inr (l1, S')"
      using Cons.prems x by (auto simp: res_simps)
    have "never_idle S (put_sched s x1 S)"
      using x x1(1) by (intro never_idle_put [of S s x x1]) (auto simp: object_iff SetScheduled_def res_simps)
    from never_idle_trans [OF this Cons.IH [OF x1(2)]] show ?thesis .
  next
    case False
    then show ?thesis using Cons x by simp
  qed
qed simp

text \<open>After \<^verbatim>\<open>GetSortedRunnableSequences\<close> no runnable sequence is idle.\<close>

lemma schedule_runnable_scheduled:
  "schedule_runnable ss S = Inr (l, S') \<Longrightarrow> s \<in> set ss \<Longrightarrow> sched_object s S = Some (sq, x) \<Longrightarrow> IsRunnable sq x \<Longrightarrow>
     sch_sequences S' s = Some x' \<Longrightarrow> ssq_running_state x' \<noteq> IDLE"
proof (induction ss arbitrary: S l x)
  case (Cons t ss)
  then obtain sq1 y where y: "sched_object t S = Some (sq1, y)" by (auto split: option.splits)
  show ?case
  proof (cases "IsRunnable sq1 y")
    case True
    then obtain y1 l1 where y1: "SetScheduled sq1 y = Inr y1" "schedule_runnable ss (put_sched t y1 S) = Inr (l1, S')"
      using Cons.prems(1) y by (auto simp: res_simps)
    have s: "ssq_running_state y1 = SCHEDULED" using y1(1) by (auto simp: SetScheduled_def res_simps)
    show ?thesis
    proof (cases "s = t")
      case True
      then show ?thesis using never_idleD [OF schedule_runnable_idle [OF y1(2)] Cons.prems(5)] s by auto
    next
      case False
      then have "sched_object s (put_sched t y1 S) = Some (sq, x)" using Cons.prems(3) by (simp add: object_iff)
      with Cons.IH [OF y1(2)] Cons.prems False show ?thesis by simp
    qed
  next
    case False
    then have "schedule_runnable ss S = Inr (l, S')" using Cons.prems(1) y by simp
    moreover have "s \<noteq> t" using False y Cons.prems(3,4) by auto
    ultimately show ?thesis using Cons by simp
  qed
qed simp

lemma FindNextTask_idle:
  assumes "FindNextTask w S = Inr (r, S')"
  shows "never_idle S S'" "can_run S w s \<Longrightarrow> sch_sequences S' s = Some x \<Longrightarrow> ssq_running_state x \<noteq> IDLE"
proof -
  obtain l S1 where S1: "schedule_runnable (sch_sequence_map S) S = Inr (l, S1)" "sch_sequences S' = sch_sequences S1"
    using assms by (auto simp: FindNextTask_def GetSortedRunnableSequences_def Let_def res_simps)
  show "never_idle S S'" using schedule_runnable_idle [OF S1(1)] S1(2) by (simp add: never_idle_def)
  show "ssq_running_state x \<noteq> IDLE" if c: "can_run S w s" "sch_sequences S' s = Some x"
  proof -
    obtain sq y where "Scheduler_GetSequence s S = Some (sq, y)" "IsRunnable sq y" using c(1) unfolding can_run_def by blast
    then show ?thesis using schedule_runnable_scheduled [OF S1(1), of s sq y x] c(2) S1(2) by (simp add: get_iff object_iff)
  qed
qed

section \<open>The sequence that was chosen\<close>

definition handover_inv :: "('k, 'r, 'g, 'w) world \<Rightarrow> bool" where
  "handover_inv W \<longleftrightarrow> (\<forall>w s x. wd_pc W w = Picked s \<longrightarrow> sch_sequences (wd_scheduler W) s = Some x \<longrightarrow> ssq_running_state x \<noteq> IDLE)"

lemma never_idle_by_object:
  assumes "sched_step ids W W'" "world_inv lo ls W" "base_ids_ok ids lo ls" "wd_pc W w = Picked s" "sch_sequences (wd_scheduler W') s = Some x" "ssq_running_state x = IDLE"
  shows "\<exists>x. sch_sequences (wd_scheduler W) s = Some x \<and> ssq_running_state x = IDLE"
proof -
  have inv: "sched_inv lo ls {} (wd_scheduler W) (wd_pc W)" using assms(2) by (simp add: world_inv_def)
  note same = never_idleD [OF never_idle_same assms(5,6)] and idle = never_idleD [OF _ assms(5,6)]
  from assms(1) show ?thesis
  proof cases
    case (step_create priority v namespace_id command_buffer_id t S)
    have "s \<le> ls (gens (wd_scheduler W))" using exec_invD(1) [OF sched_invD(3) [OF inv], of w s] assms(4) by simp
    moreover have "ls (gens (wd_scheduler W)) < t" by (rule CreateSequence_ok(2) [OF inv assms(3) step_create(2)])
    moreover have "\<exists>y. sch_sequences S = (sch_sequences (wd_scheduler W))(t \<mapsto> y)"
      using step_create(2) by (auto simp: Scheduler_CreateSequence_def Let_def res_simps split: if_splits)
    ultimately show ?thesis using assms(5,6) step_create(1) by auto
  next
    case (step_client_state t namespace_id command_buffer_id S)
    then show ?thesis by (intro same) (auto simp: Scheduler_CreateSyncPointClientState_def res_simps)
  next
    case (step_enable now t S)
    then obtain sq y where "Scheduler_GetSequence t (wd_scheduler W) = Some (sq, y)" "SetEnabled now True t y (wd_scheduler W) = Inr S"
      by (auto simp: EnableSequence_def split: option.splits)
    then show ?thesis using step_enable(1) by (intro idle) (auto simp: get_iff intro: SetEnabled_idle)
  next
    case (step_disable now t S)
    then obtain sq y where "Scheduler_GetSequence t (wd_scheduler W) = Some (sq, y)" "SetEnabled now False t y (wd_scheduler W) = Inr S"
      by (auto simp: DisableSequence_def split: option.splits)
    then show ?thesis using step_disable(1) by (intro idle) (auto simp: get_iff intro: SetEnabled_idle)
  next
    case (step_priority t priority)
    then show ?thesis by (intro idle) (simp add: SetSequencePriority_idle)
  next
    case (step_schedule now t S)
    then obtain sq1 m where t: "TryScheduleSequence now (stk_sequence_id t) (put_graph (stk_sequence_id t) sq1 (put_points m (wd_scheduler W))) = Inr S"
      by (auto simp: ScheduleTaskHelper_def res_simps split: option.splits)
    from never_idleD [OF TryScheduleSequence_idle [OF t] _ assms(6), of s] assms(5) step_schedule(1) show ?thesis by simp
  next
    case (step_closure c now S)
    then obtain g where "S = (wd_scheduler W)\<lparr>sch_task_graph := g\<rparr> \<or> TryScheduleSequence now (fc_waiting_sequence_id c) ((wd_scheduler W)\<lparr>sch_task_graph := g\<rparr>) = Inr S"
      by (auto simp: Scheduler_FenceReleased_def Let_def res_simps split: if_splits)
    then have "never_idle ((wd_scheduler W)\<lparr>sch_task_graph := g\<rparr>) S" using TryScheduleSequence_idle by auto
    from never_idleD [OF this _ assms(6), of s] assms(5) step_closure(1) show ?thesis by simp
  next
    case (step_continue v t n r now k S)
    then show ?thesis by (intro same) (auto simp: Scheduler_ContinueTask_def res_simps split: option.splits)
  next
    case (step_yield v t n r b S)
    obtain q S1 where f: "FindNextTask v (wd_scheduler W) = Inr (q, S1)"
      using FindNextTask_ok [OF sched_inv_wf [OF sched_invD(1,2) [OF inv]], of v] by blast
    then have "S = S1" using step_yield(3)
      by (cases q; cases "sched_object t S1"; cases "sched_object (the q) S1") (auto simp: ShouldYield_def res_simps split: option.splits)
    with f show ?thesis using FindNextTask_idle(1) step_yield(1) by (intro idle) auto
  next
    case (step_pick v r S)
    then obtain q S1 where "FindNextTask v ((wd_scheduler W)\<lparr>sch_posted := (sch_posted (wd_scheduler W))(v := sch_posted (wd_scheduler W) v - 1)\<rparr>) = Inr (q, S1)"
      "sch_sequences S = sch_sequences S1" by (auto simp: RunNextTask_pick_def res_simps split: option.splits)
    from never_idleD [OF FindNextTask_idle(1) [OF this(1)] _ assms(6), of s] this(2) assms(5) step_pick(1) show ?thesis by simp
  next
    case (step_begin v t n k r report S)
    then obtain sq y where "sch_sequences (wd_scheduler W) t = Some y" "sch_sequences S = (sch_sequences (wd_scheduler W))(t \<mapsto> y\<lparr>ssq_running_state := RUNNING\<rparr>)"
      by (auto simp: ExecuteSequence_begin_def Sched_BeginTask_def res_simps get_iff split: option.splits)
    then show ?thesis using assms(5,6) step_begin(1) by (auto split: if_splits)
  next
    case (step_done v t n r run S)
    then show ?thesis by (intro same) (auto simp: ExecuteSequence_release_def res_simps split: if_splits)
  next
    case (step_finish v t n run S)
    then show ?thesis by (intro same) (auto simp: ExecuteSequence_processed_def res_simps)
  next
    case (step_end v t S)
    show ?thesis
    proof (cases "Scheduler_GetSequence t (wd_scheduler W)")
      case None
      then show ?thesis using step_end(1,3) by (intro same) (simp add: ExecuteSequence_end_def)
    next
      case (Some z)
      then show ?thesis using step_end(1,3) assms(5,6)
        by (auto simp: ExecuteSequence_end_def Sched_FinishTask_def res_simps split: prod.splits if_splits)
    qed
  next
    case (step_again v now)
    then show ?thesis by (intro same) (auto simp: RunNextTask_again_def)
  next
    case (step_take t run sq S)
    then show ?thesis by (intro same) (auto simp: DestroySequence_take_def res_simps split: option.splits)
  next
    case (step_delete sq now S)
    then obtain S1 where "wake_releasers now (seq_wait_fences sq) (wd_scheduler W) = Inr S1" "sch_sequences S = (sch_sequences S1)(seq_sequence_id sq := None)"
      by (auto simp: delete_Sequence_def res_simps split: if_splits)
    from never_idleD [OF wake_releasers_idle [OF this(1)] _ assms(6), of s] this(2) assms(5) step_delete(1) show ?thesis by (auto split: if_splits)
  qed (intro same, simp add: DestroySequence_unmap_def)+
qed

lemma handover_step:
  assumes "sched_step ids W W'" "world_inv lo ls W" "base_ids_ok ids lo ls" "handover_inv W"
  shows "handover_inv W'"
  unfolding handover_inv_def
proof (intro allI impI notI)
  fix w s x
  assume p: "wd_pc W' w = Picked s" and x: "sch_sequences (wd_scheduler W') s = Some x" "ssq_running_state x = IDLE"
  have inv: "sched_inv lo ls {} (wd_scheduler W) (wd_pc W)" using assms(2) by (simp add: world_inv_def)
  show False
  proof (cases "wd_pc W w = Picked s")
    case True
    from never_idle_by_object [OF assms(1-3) this x] assms(4) True show False by (auto simp: handover_inv_def)
  next
    case False
    from assms(1) show False
    proof cases
      case (step_pick v r S)
      let ?S1 = "(wd_scheduler W)\<lparr>sch_posted := (sch_posted (wd_scheduler W))(v := sch_posted (wd_scheduler W) v - 1)\<rparr>"
      have v: "v = w" "r = Some s" using p False step_pick(1) by (auto split: if_splits option.splits)
      have c: "can_run (wd_scheduler W) w s"
        using RunNextTask_pick_ok(3) [OF inv step_pick(2,3), of s S] step_pick(4) v by simp
      then have "can_run ?S1 w s" by (simp add: can_run_def get_iff)
      moreover obtain q where "FindNextTask w ?S1 = Inr (q, S)" using step_pick(4) v by (auto simp: RunNextTask_pick_def res_simps split: option.splits)
      ultimately show False using FindNextTask_idle(2) [of w ?S1 q S s x] x step_pick(1) by simp
    qed (use p False in \<open>auto split: if_splits\<close>)
  qed
qed

lemma sched_run_handover:
  assumes "sched_run ids W" "base_ids_ok ids lo ls"
  shows "handover_inv W"
  using assms(1)
proof induction
  case (run_start m)
  show ?case by (simp add: handover_inv_def start_of_threads_def)
next
  case (run_step W W')
  from handover_step [OF run_step.hyps(2) sched_run_inv [OF run_step.hyps(1) assms(2)] assms(2) run_step.IH] show ?case .
qed

lemma ExecuteSequence_begin_iff:
  assumes "sched_run ids W" "base_ids_ok ids lo ls" "wd_pc W w = Picked s"
  shows "(\<exists>r. ExecuteSequence_begin w s (wd_scheduler W) = Inr r) \<longleftrightarrow>
    (\<exists>sq x. Scheduler_GetSequence s (wd_scheduler W) = Some (sq, x) \<and> ssq_enabled x)"
proof
  assume "\<exists>r. ExecuteSequence_begin w s (wd_scheduler W) = Inr r"
  then show "\<exists>sq x. Scheduler_GetSequence s (wd_scheduler W) = Some (sq, x) \<and> ssq_enabled x"
    by (auto simp: ExecuteSequence_begin_def HasTasksAndEnabled_def res_simps split: option.splits)
next
  assume "\<exists>sq x. Scheduler_GetSequence s (wd_scheduler W) = Some (sq, x) \<and> ssq_enabled x"
  then obtain sq x where x: "Scheduler_GetSequence s (wd_scheduler W) = Some (sq, x)" "ssq_enabled x" by blast
  then have o: "s \<in> set (sch_sequence_map (wd_scheduler W))" "seqs (wd_scheduler W) s = Some sq" "sch_sequences (wd_scheduler W) s = Some x" by (simp_all add: get_iff)
  from sched_run_inv [OF assms(1,2)] have "sched_inv lo ls {} (wd_scheduler W) (wd_pc W)" by (simp add: world_inv_def)
  note d = sched_invD [OF this]
  have "IsFrontTaskUnblocked sq" using graph_invD(1) [OF d(1) o(2)] graph_invD(5) [OF d(1) o(2), of w] assms(3) by simp
  then obtain t ts where t: "seq_tasks sq = t # ts" by (cases "seq_tasks sq") (auto simp: IsFrontTaskUnblocked_def)
  have r: "ssq_task_runner x = w" using exec_invD(2) [OF d(3) _ o(3), where w = w] assms(3) by simp
  have "ssq_running_state x \<noteq> RUNNING" using exec_invD(3) [OF d(3) o(1,3)] r assms(3) by simp
  moreover have "ssq_running_state x \<noteq> IDLE" using sched_run_handover [OF assms(1,2)] assms(3) o(3) by (auto simp: handover_inv_def)
  ultimately have "ssq_running_state x = SCHEDULED" by (cases "ssq_running_state x") simp_all
  with x r t show "\<exists>r. ExecuteSequence_begin w s (wd_scheduler W) = Inr r"
    by (simp add: ExecuteSequence_begin_def Sched_BeginTask_def Sequence_BeginTask_def HasTasksAndEnabled_def Sequence_HasTasks_def)
qed

end
