(* ===== verification/Discardable_Handle.thy ===== *)
theory Discardable_Handle
  imports Gpu_Buffer
begin

text \<open>
  \<^verbatim>\<open>gpu/command_buffer/common/discardable_handle.{h,cc}\<close>: a count of locks in memory that client and service share. The
  client locks, the service unlocks and, when nobody holds a lock, deletes.

  A handle is a buffer and an offset, and the count is the four bytes there; the atomic operations read and write
  these bytes in one step.
\<close>

section \<open>Atomic operations\<close>

definition atomic_load :: "heap \<Rightarrow> pointer \<Rightarrow> i32" where
  "atomic_load hp p = i32_of_u32 (LoadU32Unaligned (read_bytes hp p 4))"

definition atomic_store :: "pointer \<Rightarrow> i32 \<Rightarrow> heap \<Rightarrow> heap" where
  "atomic_store p v hp = write_bytes hp p (StoreU32Unaligned (u32_of_int v))"

text \<open>The value that was there, and the memory.\<close>

definition atomic_compare_and_swap :: "pointer \<Rightarrow> i32 \<Rightarrow> i32 \<Rightarrow> heap \<Rightarrow> i32 \<times> heap" where
  "atomic_compare_and_swap p old_value new_value hp =
     (let v = atomic_load hp p in (v, if v = old_value then atomic_store p new_value hp else hp))"

definition atomic_increment :: "pointer \<Rightarrow> i32 \<Rightarrow> heap \<Rightarrow> heap" where
  "atomic_increment p d hp = atomic_store p (atomic_load hp p + d) hp"

section \<open>Handles\<close>

definition kHandleDeleted :: i32 where "kHandleDeleted = 0"
definition kHandleUnlocked :: i32 where "kHandleUnlocked = 1"
definition kHandleLockedStart :: i32 where "kHandleLockedStart = 2"

lemmas handle_constants = kHandleDeleted_def kHandleUnlocked_def kHandleLockedStart_def

record discardable_handle =
  dh_buffer :: "gpu_buffer option"
  dh_byte_offset :: u32
  dh_shm_id :: u32

definition new_DiscardableHandle :: "gpu_buffer option \<Rightarrow> u32 \<Rightarrow> i32 \<Rightarrow> discardable_handle" where
  "new_DiscardableHandle buffer byte_offset shm_id = \<lparr>dh_buffer = buffer, dh_byte_offset = byte_offset, dh_shm_id = u32_of_int shm_id\<rparr>"

text \<open>The default constructors of both kinds of handles.\<close>

definition invalid_handle :: discardable_handle where
  "invalid_handle = new_DiscardableHandle None 0 0"

definition DiscardableHandle_shm_id :: "discardable_handle \<Rightarrow> i32" where
  "DiscardableHandle_shm_id h = i32_of_u32 (dh_shm_id h)"

definition ValidateParameters :: "gpu_buffer option \<Rightarrow> u32 \<Rightarrow> bool" where
  "ValidateParameters buffer byte_offset =
     (case buffer of
        None \<Rightarrow> False
      | Some b \<Rightarrow> if byte_offset mod 4 \<noteq> 0 then False else Buffer_GetDataAddress b byte_offset 4 \<noteq> None)"

definition AsAtomic :: "discardable_handle \<Rightarrow> pointer res" where
  "AsAtomic h =
     (case dh_buffer h of
        None \<Rightarrow> Inl Null_dereference
      | Some b \<Rightarrow> (case Buffer_GetDataAddress b (dh_byte_offset h) 4 of None \<Rightarrow> Inl Null_dereference | Some p \<Rightarrow> Inr p))"

definition handle_load :: "discardable_handle \<Rightarrow> heap \<Rightarrow> i32 res" where
  "handle_load h hp = res_bind (AsAtomic h) (\<lambda>p. Inr (atomic_load hp p))"

definition IsDeletedForTracing :: "discardable_handle \<Rightarrow> heap \<Rightarrow> bool res" where
  "IsDeletedForTracing h hp = res_bind (handle_load h hp) (\<lambda>v. Inr (kHandleDeleted = v))"

definition IsLockedForTesting :: "discardable_handle \<Rightarrow> heap \<Rightarrow> bool res" where
  "IsLockedForTesting h hp = res_bind (handle_load h hp) (\<lambda>v. Inr (kHandleLockedStart \<le> v))"

section \<open>The client's handle\<close>

definition new_ClientDiscardableHandle :: "gpu_buffer option \<Rightarrow> u32 \<Rightarrow> i32 \<Rightarrow> heap \<Rightarrow> (discardable_handle \<times> heap) res" where
  "new_ClientDiscardableHandle buffer byte_offset shm_id hp =
     (let h = new_DiscardableHandle buffer byte_offset shm_id
      in res_bind (AsAtomic h) (\<lambda>p. Inr (h, atomic_store p kHandleLockedStart hp)))"

text \<open>
  One turn of the loop of \<^verbatim>\<open>Lock\<close>: the load, which ends the loop when the handle is deleted, and the compare-and-swap, which ends
  it when the value is still the one that was loaded.
\<close>

definition Lock_load :: "discardable_handle \<Rightarrow> heap \<Rightarrow> i32 option res" where
  "Lock_load h hp = res_bind (handle_load h hp) (\<lambda>current_value. Inr (if current_value = kHandleDeleted then None else Some current_value))"

definition Lock_swap :: "discardable_handle \<Rightarrow> i32 \<Rightarrow> heap \<Rightarrow> (bool \<times> heap) res" where
  "Lock_swap h current_value hp =
     res_bind (AsAtomic h) (\<lambda>p.
       case atomic_compare_and_swap p current_value (current_value + 1) hp of (previous_value, hp1) \<Rightarrow> Inr (current_value = previous_value, hp1))"

text \<open>The whole of \<^verbatim>\<open>Lock\<close> when nobody else touches the handle: a swap that fails would fail forever.\<close>

definition ClientDiscardableHandle_Lock :: "discardable_handle \<Rightarrow> heap \<Rightarrow> (bool \<times> heap) res" where
  "ClientDiscardableHandle_Lock h hp =
     res_bind (Lock_load h hp) (\<lambda>current_value.
       case current_value of
         None \<Rightarrow> Inr (False, hp)
       | Some v \<Rightarrow> res_bind (Lock_swap h v hp) (\<lambda>(ok, hp1). if ok then Inr (True, hp1) else Inl Never_returns))"

definition CanBeReUsed :: "discardable_handle \<Rightarrow> heap \<Rightarrow> bool res" where
  "CanBeReUsed h hp = res_bind (handle_load h hp) (\<lambda>v. Inr (kHandleDeleted = v))"

definition ClientDiscardableHandle_IsValid :: "discardable_handle \<Rightarrow> bool" where
  "ClientDiscardableHandle_IsValid h \<longleftrightarrow> DiscardableHandle_shm_id h > 0"

section \<open>The service's handle\<close>

definition ServiceDiscardableHandle_Unlock :: "discardable_handle \<Rightarrow> heap \<Rightarrow> heap res" where
  "ServiceDiscardableHandle_Unlock h hp = res_bind (AsAtomic h) (\<lambda>p. Inr (atomic_increment p (-1) hp))"

definition ServiceDiscardableHandle_Delete :: "discardable_handle \<Rightarrow> heap \<Rightarrow> (bool \<times> heap) res" where
  "ServiceDiscardableHandle_Delete h hp =
     res_bind (AsAtomic h) (\<lambda>p.
       case atomic_compare_and_swap p kHandleUnlocked kHandleDeleted hp of (v, hp1) \<Rightarrow> Inr (kHandleUnlocked = v, hp1))"

definition ServiceDiscardableHandle_ForceDelete :: "discardable_handle \<Rightarrow> heap \<Rightarrow> heap res" where
  "ServiceDiscardableHandle_ForceDelete h hp = res_bind (AsAtomic h) (\<lambda>p. Inr (atomic_store p kHandleDeleted hp))"

section \<open>The value of a handle\<close>

text \<open>Where a handle's count is, in memory that holds it, and what it is.\<close>

definition handle_at :: "heap \<Rightarrow> discardable_handle \<Rightarrow> pointer \<Rightarrow> bool" where
  "handle_at hp h p \<longleftrightarrow> AsAtomic h = Inr p \<and> fst p < length hp \<and> snd p + 4 \<le> length (hp ! fst p)"

text \<open>Writing to one handle leaves the others alone.\<close>

definition words_apart :: "pointer \<Rightarrow> pointer \<Rightarrow> bool" where
  "words_apart p q \<longleftrightarrow> fst p \<noteq> fst q \<or> regions_disjoint (snd p) 4 (snd q) 4"

lemma handle_at_load [simp]: "handle_at hp h p \<Longrightarrow> handle_load h hp = Inr (atomic_load hp p)"
  by (simp add: handle_at_def handle_load_def)

lemma i32_round_trip:
  assumes "- (2 ^ 31) \<le> v" "v < 2 ^ 31"
  shows "i32_of_u32 (u32_of_int v) = v"
proof (cases "0 \<le> v")
  case True
  with assms show ?thesis by (simp add: i32_of_u32_def u32_of_int_def)
next
  case False
  have "v mod 2 ^ 32 = (v + 2 ^ 32) mod 2 ^ 32" by simp
  also have "\<dots> = v + 2 ^ 32" using assms False by (intro mod_pos_pos_trivial) simp_all
  finally show ?thesis using assms False by (simp add: i32_of_u32_def u32_of_int_def nat_less_iff)
qed

lemma load_store [simp]:
  assumes "fst p < length hp" "snd p + 4 \<le> length (hp ! fst p)" "- (2 ^ 31) \<le> v" "v < 2 ^ 31"
  shows "atomic_load (atomic_store p v hp) p = v"
proof -
  have "u32_of_int v < 2 ^ 32" by (simp add: u32_of_int_def nat_less_iff)
  then have "LoadU32Unaligned (StoreU32Unaligned (u32_of_int v)) = u32_of_int v" using Load_Store_U32 [of "u32_of_int v" "[]"] by simp
  moreover have "read_bytes (atomic_store p v hp) p 4 = StoreU32Unaligned (u32_of_int v)"
    using read_write_same [of p hp "StoreU32Unaligned (u32_of_int v)"] assms(1,2) by (simp add: atomic_store_def)
  ultimately show ?thesis using i32_round_trip [OF assms(3,4)] by (simp add: atomic_load_def)
qed

lemma load_store_other:
  assumes "fst p < length hp" "snd p + 4 \<le> length (hp ! fst p)" "words_apart p q"
  shows "atomic_load (atomic_store p v hp) q = atomic_load hp q"
  using read_write_other [of p "StoreU32Unaligned (u32_of_int v)" hp q 4] assms by (simp add: atomic_load_def atomic_store_def words_apart_def)

lemma store_shape: "fst p < length hp \<Longrightarrow> snd p + 4 \<le> length (hp ! fst p) \<Longrightarrow> map length (atomic_store p v hp) = map length hp"
  by (rule nth_equalityI) (auto simp: atomic_store_def write_bytes_def nth_list_update)

lemma handle_at_shape: "map length hp' = map length hp \<Longrightarrow> handle_at hp' h p = handle_at hp h p"
  by (metis (no_types, lifting) handle_at_def length_map nth_map)

section \<open>Operations on the value\<close>

text \<open>\<open>holds hp h p v\<close>: the handle is at \<open>p\<close> and its value is \<open>v\<close>.\<close>

definition holds :: "heap \<Rightarrow> discardable_handle \<Rightarrow> pointer \<Rightarrow> i32 \<Rightarrow> bool" where
  "holds hp h p v \<longleftrightarrow> handle_at hp h p \<and> atomic_load hp p = v \<and> v < 2 ^ 31 \<and> - (2 ^ 31) \<le> v"

text \<open>The memory after a store to \<open>p\<close>.\<close>

definition stored :: "heap \<Rightarrow> pointer \<Rightarrow> i32 \<Rightarrow> heap \<Rightarrow> bool" where
  "stored hp p v hp' \<longleftrightarrow> map length hp' = map length hp \<and> atomic_load hp' p = v \<and> (\<forall>q. words_apart p q \<longrightarrow> atomic_load hp' q = atomic_load hp q)"

lemma stored_store:
  assumes "handle_at hp h p" "- (2 ^ 31) \<le> v" "v < 2 ^ 31"
  shows "stored hp p v (atomic_store p v hp)"
  using assms by (auto simp: stored_def handle_at_def store_shape load_store_other)

lemma stored_same: "atomic_load hp p = v \<Longrightarrow> stored hp p v hp"
  by (simp add: stored_def)

lemma holds_at: "holds hp h p v \<Longrightarrow> AsAtomic h = Inr p"
  by (simp add: holds_def handle_at_def)

lemma load_ops:
  assumes "holds hp h p v"
  shows "handle_load h hp = Inr v" "Lock_load h hp = Inr (if v = 0 then None else Some v)" "CanBeReUsed h hp = Inr (v = 0)"
    "IsDeletedForTracing h hp = Inr (v = 0)"
  using assms by (auto simp: holds_def Lock_load_def CanBeReUsed_def IsDeletedForTracing_def handle_constants)

lemma Lock_swap_ok:
  assumes "holds hp h p v" "u + 1 < 2 ^ 31" "- (2 ^ 31) \<le> u"
  shows "\<exists>hp'. Lock_swap h u hp = Inr (u = v, hp') \<and> stored hp p (if u = v then v + 1 else v) hp'"
  using assms holds_at [OF assms(1)] stored_store [of hp h p "u + 1"]
  by (auto simp: holds_def Lock_swap_def atomic_compare_and_swap_def Let_def stored_same)

lemma Lock_ok:
  assumes "holds hp h p v" "v + 1 < 2 ^ 31"
  shows "\<exists>hp'. ClientDiscardableHandle_Lock h hp = Inr (v \<noteq> 0, hp') \<and> stored hp p (if v = 0 then 0 else v + 1) hp'"
proof (cases "v = 0")
  case True
  then show ?thesis using assms(1) load_ops(2) [OF assms(1)] by (auto simp: ClientDiscardableHandle_Lock_def holds_def stored_same)
next
  case False
  then show ?thesis using Lock_swap_ok [OF assms(1), of v] assms load_ops(2) [OF assms(1)]
    by (auto simp: ClientDiscardableHandle_Lock_def holds_def)
qed

lemma Unlock_ok:
  assumes "holds hp h p v" "- (2 ^ 31) < v"
  shows "\<exists>hp'. ServiceDiscardableHandle_Unlock h hp = Inr hp' \<and> stored hp p (v - 1) hp'"
  using assms holds_at [OF assms(1)] stored_store [of hp h p "v - 1"]
  by (auto simp: holds_def ServiceDiscardableHandle_Unlock_def atomic_increment_def)

lemma Delete_ok:
  assumes "holds hp h p v"
  shows "\<exists>hp'. ServiceDiscardableHandle_Delete h hp = Inr (v = 1, hp') \<and> stored hp p (if v = 1 then 0 else v) hp'"
  using assms holds_at [OF assms] stored_store [of hp h p 0]
  by (auto simp: holds_def ServiceDiscardableHandle_Delete_def atomic_compare_and_swap_def Let_def handle_constants stored_same)

lemma ForceDelete_ok:
  assumes "holds hp h p v"
  shows "\<exists>hp'. ServiceDiscardableHandle_ForceDelete h hp = Inr hp' \<and> stored hp p 0 hp'"
  using assms holds_at [OF assms] stored_store [of hp h p 0]
  by (auto simp: holds_def ServiceDiscardableHandle_ForceDelete_def handle_constants)

lemma holds_stored:
  assumes "holds hp h p v" "stored hp p u hp'" "- (2 ^ 31) \<le> u" "u < 2 ^ 31"
  shows "holds hp' h p u"
  using assms handle_at_shape [of hp' hp h p] by (auto simp: holds_def stored_def)

lemma holds_other:
  assumes "holds hp h q v" "stored hp p u hp'" "words_apart p q"
  shows "holds hp' h q v"
proof -
  have "map length hp' = map length hp" "atomic_load hp' q = atomic_load hp q" using assms(2,3) unfolding stored_def by blast+
  with assms(1) handle_at_shape [of hp' hp h q] show ?thesis by (simp add: holds_def)
qed

lemma new_handle_ok:
  assumes "handle_at hp (new_DiscardableHandle b off i) p"
  shows "\<exists>hp'. new_ClientDiscardableHandle b off i hp = Inr (new_DiscardableHandle b off i, hp') \<and> stored hp p 2 hp'"
  using assms stored_store [OF assms, of 2] by (auto simp: new_ClientDiscardableHandle_def Let_def handle_constants handle_at_def)

section \<open>Lockers and the service at once\<close>

text \<open>Where a thread of the client is in \<^verbatim>\<open>Lock\<close>.\<close>

datatype lock_pc = Outside | Loading | Swapping i32

record 'c handle_world =
  hw_heap :: heap
  hw_pc :: "'c \<Rightarrow> lock_pc"
  hw_locks :: nat
  hw_unlocks :: nat
  hw_deleted :: bool

text \<open>
  The single steps of any number of threads that lock, and of the service, which unlocks no more often than was locked and stops at the deletion. Locks that
  returned true, unlocks and the deletion are recorded.
\<close>

inductive handle_step :: "discardable_handle \<Rightarrow> 'c handle_world \<Rightarrow> 'c handle_world \<Rightarrow> bool" for h :: discardable_handle and W :: "'c handle_world" where
  hs_call: "hw_pc W c = Outside \<Longrightarrow> handle_step h W (W\<lparr>hw_pc := (hw_pc W)(c := Loading)\<rparr>)"
| hs_load: "hw_pc W c = Loading \<Longrightarrow> Lock_load h (hw_heap W) = Inr r \<Longrightarrow>
    handle_step h W (W\<lparr>hw_pc := (hw_pc W)(c := case r of None \<Rightarrow> Outside | Some v \<Rightarrow> Swapping v)\<rparr>)"
| hs_swap: "hw_pc W c = Swapping v \<Longrightarrow> Lock_swap h v (hw_heap W) = Inr (ok, hp) \<Longrightarrow>
    handle_step h W (W\<lparr>hw_heap := hp, hw_pc := (hw_pc W)(c := if ok then Outside else Loading), hw_locks := (if ok then Suc (hw_locks W) else hw_locks W)\<rparr>)"
| hs_unlock: "\<not> hw_deleted W \<Longrightarrow> hw_unlocks W < Suc (hw_locks W) \<Longrightarrow> ServiceDiscardableHandle_Unlock h (hw_heap W) = Inr hp \<Longrightarrow>
    handle_step h W (W\<lparr>hw_heap := hp, hw_unlocks := Suc (hw_unlocks W)\<rparr>)"
| hs_delete: "\<not> hw_deleted W \<Longrightarrow> ServiceDiscardableHandle_Delete h (hw_heap W) = Inr (ok, hp) \<Longrightarrow>
    handle_step h W (W\<lparr>hw_heap := hp, hw_deleted := ok\<rparr>)"
| hs_force: "\<not> hw_deleted W \<Longrightarrow> ServiceDiscardableHandle_ForceDelete h (hw_heap W) = Inr hp \<Longrightarrow>
    handle_step h W (W\<lparr>hw_heap := hp, hw_deleted := True\<rparr>)"

text \<open>A handle starts locked once, by the constructor.\<close>

inductive handle_run :: "discardable_handle \<Rightarrow> 'c handle_world \<Rightarrow> bool" for h :: discardable_handle where
  hr_new: "new_ClientDiscardableHandle b off i hp = Inr (h, hp') \<Longrightarrow> handle_at hp h p \<Longrightarrow>
    handle_run h \<lparr>hw_heap = hp', hw_pc = (\<lambda>_. Outside), hw_locks = 0, hw_unlocks = 0, hw_deleted = False\<rparr>"
| hr_step: "handle_run h W \<Longrightarrow> handle_step h W W' \<Longrightarrow> handle_run h W'"

definition handle_inv :: "discardable_handle \<Rightarrow> 'c handle_world \<Rightarrow> bool" where
  "handle_inv h W \<longleftrightarrow> (\<exists>p. holds (hw_heap W) h p (if hw_deleted W then 0 else int (hw_locks W) + 2 - int (hw_unlocks W))) \<and>
     hw_unlocks W \<le> Suc (hw_locks W) \<and> (\<forall>c v. hw_pc W c = Swapping v \<longrightarrow> 0 < v \<and> v \<le> int (hw_locks W) + 2)"

lemma handle_invI:
  assumes "holds (hw_heap W) h p v" "v = (if hw_deleted W then 0 else int (hw_locks W) + 2 - int (hw_unlocks W))" "hw_unlocks W \<le> Suc (hw_locks W)"
    and "\<And>c v. hw_pc W c = Swapping v \<Longrightarrow> 0 < v \<and> v \<le> int (hw_locks W) + 2"
  shows "handle_inv h W"
  using assms unfolding handle_inv_def by blast

lemma handle_step_locks: "handle_step h W W' \<Longrightarrow> hw_locks W \<le> hw_locks W'"
  by (erule handle_step.cases) auto

lemma handle_step_inv:
  assumes "handle_step h W W'" "handle_inv h W" "hw_locks W' + 3 < 2 ^ 31"
  shows "handle_inv h W'"
proof -
  let ?v = "if hw_deleted W then 0 else int (hw_locks W) + 2 - int (hw_unlocks W)"
  obtain p where p: "holds (hw_heap W) h p ?v" using assms(2) by (auto simp: handle_inv_def)
  have u: "hw_unlocks W \<le> Suc (hw_locks W)" and sw: "\<And>c v. hw_pc W c = Swapping v \<Longrightarrow> 0 < v \<and> v \<le> int (hw_locks W) + 2"
    using assms(2) by (auto simp: handle_inv_def)
  have l: "hw_locks W + 3 < 2 ^ 31" using handle_step_locks [OF assms(1)] assms(3) by simp
  from assms(1) show ?thesis
  proof cases
    case (hs_call c)
    with p u sw show ?thesis by (intro handle_invI [of _ _ p ?v]) (auto split: if_splits)
  next
    case (hs_load c r)
    have "r = (if ?v = 0 then None else Some ?v)" using hs_load(3) load_ops(2) [OF p] by simp
    then have "hw_pc W' d = Swapping v \<Longrightarrow> 0 < v \<and> v \<le> int (hw_locks W) + 2" for d v
      using sw [of d v] u hs_load(1) by (auto split: if_splits)
    with p u hs_load(1) show ?thesis by (intro handle_invI [of _ _ p ?v]) simp_all
  next
    case (hs_swap c v ok hp)
    have v: "0 < v" "v \<le> int (hw_locks W) + 2" using sw hs_swap(2) by auto
    then obtain hp' where s: "Lock_swap h v (hw_heap W) = Inr (v = ?v, hp')" "stored (hw_heap W) p (if v = ?v then ?v + 1 else ?v) hp'"
      using Lock_swap_ok [OF p, of v] l by auto
    then have e: "ok \<longleftrightarrow> v = ?v" "hp = hp'" using hs_swap(3) by auto
    have "holds hp' h p (if v = ?v then ?v + 1 else ?v)" using holds_stored [OF p s(2)] l u by auto
    moreover have "v = ?v \<Longrightarrow> \<not> hw_deleted W" using v(1) by auto
    ultimately show ?thesis using u sw hs_swap(1) e
      by (intro handle_invI [of _ _ p "if v = ?v then ?v + 1 else ?v"]) (fastforce split: if_splits)+
  next
    case (hs_unlock hp)
    then obtain hp' where s: "ServiceDiscardableHandle_Unlock h (hw_heap W) = Inr hp'" "stored (hw_heap W) p (?v - 1) hp'"
      using Unlock_ok [OF p] u by auto
    have "holds hp h p (?v - 1)" using holds_stored [OF p s(2)] s(1) hs_unlock l by auto
    with hs_unlock u sw show ?thesis by (intro handle_invI [of _ _ p "?v - 1"]) auto
  next
    case (hs_delete ok hp)
    obtain hp' where s: "ServiceDiscardableHandle_Delete h (hw_heap W) = Inr (?v = 1, hp')" "stored (hw_heap W) p (if ?v = 1 then 0 else ?v) hp'"
      using Delete_ok [OF p] by auto
    have "holds hp h p (if ?v = 1 then 0 else ?v)" using holds_stored [OF p s(2)] s(1) hs_delete(3) l u by auto
    with hs_delete s(1) u sw show ?thesis by (intro handle_invI [of _ _ p "if ?v = 1 then 0 else ?v"]) auto
  next
    case (hs_force hp)
    obtain hp' where s: "ServiceDiscardableHandle_ForceDelete h (hw_heap W) = Inr hp'" "stored (hw_heap W) p 0 hp'"
      using ForceDelete_ok [OF p] by auto
    have "holds hp h p 0" using holds_stored [OF p s(2)] s(1) hs_force by auto
    with hs_force u sw show ?thesis by (intro handle_invI [of _ _ p 0]) auto
  qed
qed

theorem handle_run_inv:
  assumes "handle_run h W" "hw_locks W + 3 < 2 ^ 31"
  shows "handle_inv h W"
  using assms
proof induction
  case (hr_new b off i hp hp' p)
  have "h = new_DiscardableHandle b off i" using hr_new(1) by (auto simp: new_ClientDiscardableHandle_def Let_def res_simps)
  then have "stored hp p 2 hp'" using new_handle_ok [of hp b off i p] hr_new(1,2) by auto
  then have "holds hp' h p 2" using hr_new(2) handle_at_shape [of hp' hp h p] by (simp add: holds_def stored_def)
  then show ?case by (intro handle_invI [of _ _ p 2]) auto
next
  case (hr_step W W')
  then show ?case using handle_step_inv [OF hr_step.hyps(2)] handle_step_locks [OF hr_step.hyps(2)] by simp
qed

end
