(* ===== verification/Client_Discardable.thy ===== *)
theory Client_Discardable
  imports Discardable_Handle "HOL-Library.Multiset"
begin

text \<open>
  \<^verbatim>\<open>gpu/command_buffer/client/client_discardable_manager.{h,cc}\<close> and \<^verbatim>\<open>client_discardable_texture_manager.{h,cc}\<close>: the client
  carves its handles out of transfer buffers, one element of four bytes each, and takes an element back when the service has deleted
  the handle.
\<close>

section \<open>FreeOffsetSet\<close>

text \<open>The ranges \<^verbatim>\<open>[start, end)\<close> are ordered by their start; the set keeps what it has when a range of the same start is inserted.\<close>

type_synonym free_range = "u32 \<times> u32"

record free_offset_set =
  fo_element_count :: u32
  fo_free_ranges :: "free_range list"

fun insert_range :: "free_range \<Rightarrow> free_range list \<Rightarrow> free_range list" where
  "insert_range r [] = [r]"
| "insert_range r (x # xs) = (if fst r < fst x then r # x # xs else if fst r = fst x then x # xs else x # insert_range r xs)"

definition new_FreeOffsetSet :: "u32 \<Rightarrow> free_offset_set" where
  "new_FreeOffsetSet element_count = \<lparr>fo_element_count = element_count, fo_free_ranges = [(0, element_count)]\<rparr>"

definition HasFreeOffset :: "free_offset_set \<Rightarrow> bool" where
  "HasFreeOffset f \<longleftrightarrow> fo_free_ranges f \<noteq> []"

definition HasUsedOffset :: "free_offset_set \<Rightarrow> bool" where
  "HasUsedOffset f \<longleftrightarrow>
     (length (fo_free_ranges f) \<noteq> 1 \<or> fst (hd (fo_free_ranges f)) \<noteq> 0 \<or> snd (hd (fo_free_ranges f)) \<noteq> fo_element_count f)"

definition TakeFreeOffset :: "free_offset_set \<Rightarrow> (u32 \<times> free_offset_set) res" where
  "TakeFreeOffset f =
     (case fo_free_ranges f of
        [] \<Rightarrow> Inl DCHECK_failed
      | (start, stop) # rest \<Rightarrow>
          let new_range = (u32_add start 1, stop)
          in Inr (start, f\<lparr>fo_free_ranges := (if fst new_range \<noteq> snd new_range then insert_range new_range rest else rest)\<rparr>))"

text \<open>\<open>before\<close> and \<open>after\<close> are the ranges on the two sides of \<^verbatim>\<open>lower_bound\<close>.\<close>

definition ReturnFreeOffset :: "u32 \<Rightarrow> free_offset_set \<Rightarrow> free_offset_set" where
  "ReturnFreeOffset offset f =
     (let new_range = (offset, u32_add offset 1);
          before = takeWhile (\<lambda>r. fst r < fst new_range) (fo_free_ranges f);
          after = dropWhile (\<lambda>r. fst r < fst new_range) (fo_free_ranges f);
          (before1, new_range1) =
            (if before \<noteq> [] \<and> snd (last before) = fst new_range then (butlast before, (fst (last before), snd new_range)) else (before, new_range));
          (after1, new_range2) =
            (if after \<noteq> [] \<and> fst (hd after) = snd new_range1 then (tl after, (fst new_range1, snd (hd after))) else (after, new_range1))
      in f\<lparr>fo_free_ranges := insert_range new_range2 (before1 @ after1)\<rparr>)"

section \<open>ClientDiscardableManager\<close>

text \<open>
  What the managers use of the command buffer and of the memory behind it, over the state of the other side. \<open>shm_lookup\<close> is what the service
  finds under an id.
\<close>

record 'w shared_memory =
  shm_Create :: "u32 \<Rightarrow> 'w \<Rightarrow> gpu_buffer option \<times> i32 \<times> 'w"
  shm_Destroy :: "i32 \<Rightarrow> 'w \<Rightarrow> 'w res"
  shm_lookup :: "'w \<Rightarrow> i32 \<Rightarrow> gpu_buffer option"
  shm_heap :: "'w \<Rightarrow> heap"
  shm_put :: "heap \<Rightarrow> 'w \<Rightarrow> 'w"

record client_allocation =
  ca_buffer :: gpu_buffer
  ca_shm_id :: i32
  ca_free_offsets :: free_offset_set

record discardable_manager =
  dm_allocation_size :: u64
  dm_element_size :: u64
  dm_elements_per_allocation :: u64
  dm_allocations :: "client_allocation list"
  dm_handles :: "(u32 \<times> discardable_handle) list"
  dm_pending_handles :: "discardable_handle list"

text \<open>The granularity of allocations is what the operating system says.\<close>

definition AllocationSize :: "u64 \<Rightarrow> u64" where
  "AllocationSize system_allocation_size = max 2048 system_allocation_size"

definition new_ClientDiscardableManager :: "u64 \<Rightarrow> discardable_manager" where
  "new_ClientDiscardableManager system_allocation_size =
     (let n = AllocationSize system_allocation_size
      in \<lparr>dm_allocation_size = n, dm_element_size = 4, dm_elements_per_allocation = n div 4, dm_allocations = [], dm_handles = [], dm_pending_handles = []\<rparr>)"

definition SetElementCountForTesting :: "u32 \<Rightarrow> discardable_manager \<Rightarrow> discardable_manager" where
  "SetElementCountForTesting n m = m\<lparr>dm_elements_per_allocation := n, dm_allocation_size := n * dm_element_size m\<rparr>"

text \<open>The loop of \<^verbatim>\<open>ReturnAllocation\<close>.\<close>

fun return_allocation ::
  "'w shared_memory \<Rightarrow> u64 \<Rightarrow> discardable_handle \<Rightarrow> client_allocation list \<Rightarrow> 'w \<Rightarrow> (client_allocation list \<times> 'w) res" where
  "return_allocation sm element_size h [] w = Inr ([], w)"
| "return_allocation sm element_size h (a # as) w =
     (if ca_shm_id a \<noteq> DiscardableHandle_shm_id h
      then res_bind (return_allocation sm element_size h as w) (\<lambda>(as1, w1). Inr (a # as1, w1))
      else let a1 = a\<lparr>ca_free_offsets := ReturnFreeOffset (dh_byte_offset h div element_size) (ca_free_offsets a)\<rparr>
           in if \<not> HasUsedOffset (ca_free_offsets a1)
              then res_bind (shm_Destroy sm (ca_shm_id a1) w) (\<lambda>w1. Inr (as, w1))
              else res_bind (return_allocation sm element_size h as w) (\<lambda>(as1, w1). Inr (a1 # as1, w1)))"

definition ReturnAllocation :: "'w shared_memory \<Rightarrow> discardable_handle \<Rightarrow> discardable_manager \<times> 'w \<Rightarrow> (discardable_manager \<times> 'w) res" where
  "ReturnAllocation sm h x =
     res_bind (return_allocation sm (dm_element_size (fst x)) h (dm_allocations (fst x)) (snd x))
       (\<lambda>(as, w). Inr ((fst x)\<lparr>dm_allocations := as\<rparr>, w))"

fun check_pending :: "'w shared_memory \<Rightarrow> discardable_handle list \<Rightarrow> discardable_manager \<times> 'w \<Rightarrow> (discardable_manager \<times> 'w) res" where
  "check_pending sm [] x = Inr ((fst x)\<lparr>dm_pending_handles := []\<rparr>, snd x)"
| "check_pending sm (h # hs) x =
     res_bind (CanBeReUsed h (shm_heap sm (snd x))) (\<lambda>b.
       if b then res_bind (ReturnAllocation sm h x) (\<lambda>y. check_pending sm hs y)
       else Inr ((fst x)\<lparr>dm_pending_handles := h # hs\<rparr>, snd x))"

definition CheckPending :: "'w shared_memory \<Rightarrow> discardable_manager \<times> 'w \<Rightarrow> (discardable_manager \<times> 'w) res" where
  "CheckPending sm x = check_pending sm (dm_pending_handles (fst x)) x"

text \<open>The loop over \<^verbatim>\<open>handles_\<close>: the handles that stay, in their order.\<close>

fun check_deleted ::
  "'w shared_memory \<Rightarrow> (u32 \<times> discardable_handle) list \<Rightarrow> discardable_manager \<times> 'w \<Rightarrow> (bool \<times> (u32 \<times> discardable_handle) list \<times> discardable_manager \<times> 'w) res" where
  "check_deleted sm [] x = Inr (False, [], x)"
| "check_deleted sm (e # es) x =
     res_bind (CanBeReUsed (snd e) (shm_heap sm (snd x))) (\<lambda>b.
       if b then res_bind (ReturnAllocation sm (snd e) x) (\<lambda>y. res_bind (check_deleted sm es y) (\<lambda>(_, keep, z). Inr (True, keep, z)))
       else res_bind (check_deleted sm es x) (\<lambda>(freed_entry, keep, z). Inr (freed_entry, e # keep, z)))"

definition CheckDeleted :: "'w shared_memory \<Rightarrow> discardable_manager \<times> 'w \<Rightarrow> (bool \<times> discardable_manager \<times> 'w) res" where
  "CheckDeleted sm x =
     res_bind (check_deleted sm (dm_handles (fst x)) x) (\<lambda>(freed_entry, keep, y). Inr (freed_entry, (fst y)\<lparr>dm_handles := keep\<rparr>, snd y))"

text \<open>What the source stores through three pointers: the buffer, its id and the offset.\<close>

type_synonym element = "gpu_buffer \<times> i32 \<times> u32"

fun find_existing :: "client_allocation list \<Rightarrow> (element \<times> client_allocation list) option res" where
  "find_existing [] = Inr None"
| "find_existing (a # as) =
     (if \<not> HasFreeOffset (ca_free_offsets a)
      then res_bind (find_existing as) (\<lambda>r. Inr (map_option (\<lambda>(e, as1). (e, a # as1)) r))
      else res_bind (TakeFreeOffset (ca_free_offsets a)) (\<lambda>(offset, f).
             Inr (Some ((ca_buffer a, ca_shm_id a, offset), a\<lparr>ca_free_offsets := f\<rparr> # as))))"

definition FindExistingAllocation :: "discardable_manager \<Rightarrow> (element option \<times> discardable_manager) res" where
  "FindExistingAllocation m =
     res_bind (find_existing (dm_allocations m)) (\<lambda>r.
       case r of None \<Rightarrow> Inr (None, m) | Some (e, as) \<Rightarrow> Inr (Some e, m\<lparr>dm_allocations := as\<rparr>))"

text \<open>The last part of \<^verbatim>\<open>FindAllocation\<close>: a new transfer buffer.\<close>

definition new_allocation :: "'w shared_memory \<Rightarrow> discardable_manager \<times> 'w \<Rightarrow> (element option \<times> discardable_manager \<times> 'w) res" where
  "new_allocation sm x =
     (if \<not> dm_allocation_size (fst x) < 2 ^ 32 then Inl CHECK_failed
      else case shm_Create sm (dm_allocation_size (fst x)) (snd x) of (buffer, shm_id, w) \<Rightarrow>
        (case buffer of
           None \<Rightarrow> Inr (None, fst x, w)
         | Some b \<Rightarrow>
             res_bind (TakeFreeOffset (new_FreeOffsetSet (dm_elements_per_allocation (fst x)))) (\<lambda>(offset, f).
               Inr (Some (b, shm_id, offset),
                    (fst x)\<lparr>dm_allocations := dm_allocations (fst x) @ [\<lparr>ca_buffer = b, ca_shm_id = shm_id, ca_free_offsets = f\<rparr>]\<rparr>, w))))"

definition FindAllocation :: "'w shared_memory \<Rightarrow> discardable_manager \<times> 'w \<Rightarrow> (element option \<times> discardable_manager \<times> 'w) res" where
  "FindAllocation sm x =
     res_bind (CheckPending sm x) (\<lambda>x1.
     res_bind (FindExistingAllocation (fst x1)) (\<lambda>(r, m1).
       case r of
         Some e \<Rightarrow> Inr (Some e, m1, snd x1)
       | None \<Rightarrow>
           res_bind (CheckDeleted sm (m1, snd x1)) (\<lambda>(deleted, x2).
           res_bind (if deleted then FindExistingAllocation (fst x2) else Inr (None, fst x2)) (\<lambda>(r1, m2).
             case r1 of
               Some e \<Rightarrow> Inr (Some e, m2, snd x2)
             | None \<Rightarrow> new_allocation sm (m2, snd x2)))))"

text \<open>\<open>handle_id\<close> is what \<^verbatim>\<open>GetNextHandleId\<close> returns; 0 is the null id.\<close>

definition CreateHandle :: "'w shared_memory \<Rightarrow> u32 \<Rightarrow> discardable_manager \<times> 'w \<Rightarrow> (u32 \<times> discardable_manager \<times> 'w) res" where
  "CreateHandle sm handle_id x =
     res_bind (FindAllocation sm x) (\<lambda>(r, m, w).
       case r of
         None \<Rightarrow> Inr (0, m, w)
       | Some (buffer, shm_id, offset) \<Rightarrow>
           if \<not> offset * dm_element_size m < 2 ^ 32 then Inl CHECK_failed
           else res_bind (new_ClientDiscardableHandle (Some buffer) (offset * dm_element_size m) shm_id (shm_heap sm w)) (\<lambda>(h, hp).
             Inr (handle_id, m\<lparr>dm_handles := (if map_of (dm_handles m) handle_id \<noteq> None then dm_handles m
                                              else insort_key fst (handle_id, h) (dm_handles m))\<rparr>, shm_put sm hp w)))"

definition LockHandle :: "'w shared_memory \<Rightarrow> u32 \<Rightarrow> discardable_manager \<times> 'w \<Rightarrow> (bool \<times> discardable_manager \<times> 'w) res" where
  "LockHandle sm handle_id x =
     (case map_of (dm_handles (fst x)) handle_id of
        None \<Rightarrow> Inr (False, x)
      | Some h \<Rightarrow> res_bind (ClientDiscardableHandle_Lock h (shm_heap sm (snd x))) (\<lambda>(b, hp). Inr (b, fst x, shm_put sm hp (snd x))))"

definition FreeHandle :: "u32 \<Rightarrow> discardable_manager \<Rightarrow> discardable_manager" where
  "FreeHandle handle_id m =
     (case map_of (dm_handles m) handle_id of
        None \<Rightarrow> m
      | Some h \<Rightarrow> m\<lparr>dm_pending_handles := dm_pending_handles m @ [h], dm_handles := filter (\<lambda>e. fst e \<noteq> handle_id) (dm_handles m)\<rparr>)"

definition HandleIsValid :: "u32 \<Rightarrow> discardable_manager \<Rightarrow> bool" where
  "HandleIsValid handle_id m \<longleftrightarrow> map_of (dm_handles m) handle_id \<noteq> None"

definition GetHandle :: "u32 \<Rightarrow> discardable_manager \<Rightarrow> discardable_handle" where
  "GetHandle handle_id m = (case map_of (dm_handles m) handle_id of None \<Rightarrow> invalid_handle | Some h \<Rightarrow> h)"

definition HandleIsDeleted :: "u32 \<Rightarrow> heap \<Rightarrow> discardable_manager \<Rightarrow> (bool \<times> discardable_manager) res" where
  "HandleIsDeleted handle_id hp m =
     (case map_of (dm_handles m) handle_id of
        None \<Rightarrow> Inr (True, m)
      | Some h \<Rightarrow> res_bind (CanBeReUsed h hp) (\<lambda>b.
          if b then Inr (True, m\<lparr>dm_handles := filter (\<lambda>e. fst e \<noteq> handle_id) (dm_handles m)\<rparr>) else Inr (False, m)))"

definition HandleIsDeletedForTracing :: "u32 \<Rightarrow> heap \<Rightarrow> discardable_manager \<Rightarrow> bool res" where
  "HandleIsDeletedForTracing handle_id hp m =
     (case map_of (dm_handles m) handle_id of None \<Rightarrow> Inr True | Some h \<Rightarrow> IsDeletedForTracing h hp)"

section \<open>ClientDiscardableTextureManager\<close>

record texture_entry =
  te_id :: u32
  te_client_lock_count :: u32

record texture_discardables =
  td_texture_entries :: "u32 \<rightharpoonup> texture_entry"
  td_discardable_manager :: discardable_manager

definition InitializeTexture ::
  "'w shared_memory \<Rightarrow> u32 \<Rightarrow> u32 \<Rightarrow> texture_discardables \<times> 'w \<Rightarrow> (discardable_handle \<times> texture_discardables \<times> 'w) res" where
  "InitializeTexture sm handle_id texture_id x =
     dcheck (td_texture_entries (fst x) texture_id = None)
       (res_bind (CreateHandle sm handle_id (td_discardable_manager (fst x), snd x)) (\<lambda>(i, m, w).
          if i = 0 then Inr (invalid_handle, (fst x)\<lparr>td_discardable_manager := m\<rparr>, w)
          else Inr (GetHandle i m,
                    \<lparr>td_texture_entries = (td_texture_entries (fst x))(texture_id \<mapsto> \<lparr>te_id = i, te_client_lock_count = 1\<rparr>), td_discardable_manager = m\<rparr>, w)))"

definition TextureManager_LockTexture ::
  "'w shared_memory \<Rightarrow> u32 \<Rightarrow> texture_discardables \<times> 'w \<Rightarrow> (bool \<times> texture_discardables \<times> 'w) res" where
  "TextureManager_LockTexture sm texture_id x =
     (case td_texture_entries (fst x) texture_id of
        None \<Rightarrow> Inr (False, x)
      | Some e \<Rightarrow>
          res_bind (LockHandle sm (te_id e) (td_discardable_manager (fst x), snd x)) (\<lambda>(ok, m, w).
            let d = (fst x)\<lparr>td_discardable_manager := m\<rparr>
            in if \<not> ok then dcheck (te_client_lock_count e = 0) (Inr (False, d, w))
               else Inr (True, d\<lparr>td_texture_entries := (td_texture_entries d)
                      (texture_id \<mapsto> e\<lparr>te_client_lock_count := u32_add (te_client_lock_count e) 1\<rparr>)\<rparr>, w)))"

text \<open>The result has \<^verbatim>\<open>should_unbind_texture\<close>.\<close>

definition TextureManager_UnlockTexture :: "u32 \<Rightarrow> texture_discardables \<Rightarrow> (bool \<times> texture_discardables) res" where
  "TextureManager_UnlockTexture texture_id d =
     (case td_texture_entries d texture_id of
        None \<Rightarrow> Inl CHECK_failed
      | Some e \<Rightarrow> dcheck (te_client_lock_count e > 0)
          (let n = u32_sub (te_client_lock_count e) 1
           in Inr (n = 0, d\<lparr>td_texture_entries := (td_texture_entries d)(texture_id \<mapsto> e\<lparr>te_client_lock_count := n\<rparr>)\<rparr>)))"

definition TextureManager_FreeTexture :: "u32 \<Rightarrow> texture_discardables \<Rightarrow> texture_discardables" where
  "TextureManager_FreeTexture texture_id d =
     (case td_texture_entries d texture_id of
        None \<Rightarrow> d
      | Some e \<Rightarrow> \<lparr>td_texture_entries = (td_texture_entries d)(texture_id := None), td_discardable_manager = FreeHandle (te_id e) (td_discardable_manager d)\<rparr>)"

definition TextureIsValid :: "u32 \<Rightarrow> texture_discardables \<Rightarrow> bool" where
  "TextureIsValid texture_id d \<longleftrightarrow> td_texture_entries d texture_id \<noteq> None"

definition TextureIsDeletedForTracing :: "u32 \<Rightarrow> heap \<Rightarrow> texture_discardables \<Rightarrow> bool res" where
  "TextureIsDeletedForTracing texture_id hp d =
     (case td_texture_entries d texture_id of None \<Rightarrow> Inr True | Some e \<Rightarrow> HandleIsDeletedForTracing (te_id e) hp (td_discardable_manager d))"
section \<open>The set of free offsets\<close>

text \<open>What a manager asks of a set of offsets below a bound.\<close>

locale offset_set =
  fixes take_offset :: "'s \<Rightarrow> (nat \<times> 's) res" and give :: "nat \<Rightarrow> 's \<Rightarrow> 's" and has_free :: "'s \<Rightarrow> bool" and has_used :: "'s \<Rightarrow> bool"
    and members :: "'s \<Rightarrow> nat set" and bound :: "'s \<Rightarrow> nat" and ok :: "'s \<Rightarrow> bool"
  assumes free_iff: "ok s \<Longrightarrow> has_free s \<longleftrightarrow> members s \<noteq> {}"
    and used_iff: "ok s \<Longrightarrow> has_used s \<longleftrightarrow> members s \<noteq> {..<bound s}"
    and members_below: "ok s \<Longrightarrow> members s \<subseteq> {..<bound s}"
    and take_ok: "ok s \<Longrightarrow> has_free s \<Longrightarrow>
      \<exists>x s'. take_offset s = Inr (x, s') \<and> x \<in> members s \<and> members s' = members s - {x} \<and> ok s' \<and> bound s' = bound s"
    and give_ok: "ok s \<Longrightarrow> x < bound s \<Longrightarrow> x \<notin> members s \<Longrightarrow> ok (give x s) \<and> members (give x s) = insert x (members s) \<and> bound (give x s) = bound s"
begin

lemma take_give:
  assumes "ok s" "has_free s" "take_offset s = Inr (x, s')"
  shows "ok (give x s')" "members (give x s') = members s" "has_used s'"
proof -
  have x: "x \<in> members s" "members s' = members s - {x}" "ok s'" "bound s' = bound s" using take_ok [OF assms(1,2)] assms(3) by auto
  have b: "x < bound s'" using members_below [OF assms(1)] x(1,4) by auto
  from give_ok [OF x(3) b] x show "ok (give x s')" "members (give x s') = members s" by auto
  show "has_used s'" using used_iff [OF x(3)] x(2) b by auto
qed

end

definition fo_members :: "free_offset_set \<Rightarrow> nat set" where
  "fo_members f = (\<Union>r \<in> set (fo_free_ranges f). {fst r..<snd r})"

definition fo_inv :: "free_offset_set \<Rightarrow> bool" where
  "fo_inv f \<longleftrightarrow> sorted_wrt (\<lambda>a b. snd a < fst b) (fo_free_ranges f) \<and> (\<forall>r \<in> set (fo_free_ranges f). fst r < snd r \<and> snd r \<le> fo_element_count f) \<and>
     0 < fo_element_count f \<and> fo_element_count f < 2 ^ 32"

lemma insert_range_between:
  assumes "\<forall>b \<in> set bs. fst b < fst r" "as = [] \<or> fst r < fst (hd as)"
  shows "insert_range r (bs @ as) = bs @ r # as"
  using assms by (induction bs) (cases as; auto)+

lemma new_FreeOffsetSet_ok:
  assumes "0 < n" "n < 2 ^ 32"
  shows "fo_inv (new_FreeOffsetSet n)" "fo_members (new_FreeOffsetSet n) = {..<n}" "fo_element_count (new_FreeOffsetSet n) = n"
  using assms by (auto simp: fo_inv_def fo_members_def new_FreeOffsetSet_def)

lemma TakeFreeOffset_ok:
  assumes "fo_inv f" "HasFreeOffset f"
  shows "\<exists>x f'. TakeFreeOffset f = Inr (x, f') \<and> x \<in> fo_members f \<and> fo_members f' = fo_members f - {x} \<and> fo_inv f' \<and> fo_element_count f' = fo_element_count f"
proof -
  obtain s e rest where r: "fo_free_ranges f = (s, e) # rest" using assms(2) by (cases "fo_free_ranges f") (auto simp: HasFreeOffset_def)
  have i: "s < e" "e \<le> fo_element_count f" "fo_element_count f < 2 ^ 32" "\<forall>b \<in> set rest. e < fst b" "sorted_wrt (\<lambda>a b. snd a < fst b) rest"
    "\<forall>b \<in> set rest. fst b < snd b \<and> snd b \<le> fo_element_count f" "0 < fo_element_count f"
    using assms(1) by (auto simp: fo_inv_def r)
  have s1: "u32_add s (Suc 0) = Suc s" using i by (simp add: u32_add_nowrap)
  let ?new = "if Suc s \<noteq> e then (Suc s, e) # rest else rest"
  have t: "TakeFreeOffset f = Inr (s, f\<lparr>fo_free_ranges := ?new\<rparr>)"
    using i insert_range_between [of "[]" "(Suc s, e)" rest] by (cases rest) (auto simp: TakeFreeOffset_def r s1)
  have "s \<notin> {fst b..<snd b}" if "b \<in> set rest" for b using i(1,4) that by auto
  then have "fo_members (f\<lparr>fo_free_ranges := ?new\<rparr>) = fo_members f - {s}"
    using i(1) by (auto simp: fo_members_def r)
  moreover have "fo_inv (f\<lparr>fo_free_ranges := ?new\<rparr>)" using i by (auto simp: fo_inv_def)
  moreover have "s \<in> fo_members f" using i(1) by (simp add: fo_members_def r)
  ultimately show ?thesis using t by auto
qed

lemma ReturnFreeOffset_ok:
  assumes "fo_inv f" "x < fo_element_count f" "x \<notin> fo_members f"
  shows "fo_inv (ReturnFreeOffset x f) \<and> fo_members (ReturnFreeOffset x f) = insert x (fo_members f) \<and>
    fo_element_count (ReturnFreeOffset x f) = fo_element_count f"
proof -
  define bs as where "bs = takeWhile (\<lambda>r. fst r < x) (fo_free_ranges f)" and "as = dropWhile (\<lambda>r. fst r < x) (fo_free_ranges f)"
  let ?c = "fo_element_count f" and ?R = "\<lambda>a b :: free_range. snd a < fst b"
  have split: "fo_free_ranges f = bs @ as" by (simp add: bs_def as_def)
  have n: "u32_add x 1 = Suc x" "Suc x \<le> ?c" using assms(1,2) by (simp_all add: u32_add_nowrap fo_inv_def)
  have so: "sorted_wrt ?R bs" "sorted_wrt ?R as" "\<forall>b \<in> set bs. \<forall>a \<in> set as. snd b < fst a"
    and w: "\<forall>r \<in> set bs \<union> set as. fst r < snd r \<and> snd r \<le> ?c"
    using assms(1) by (auto simp: fo_inv_def split sorted_wrt_append)
  have out: "x < fst r \<or> snd r \<le> x" if "r \<in> set bs \<union> set as" for r using assms(3) that by (auto simp: fo_members_def split not_less not_le)
  have b: "fst b < x \<and> snd b \<le> x" if "b \<in> set bs" for b
    using that out [of b] set_takeWhileD [of b "\<lambda>r. fst r < x" "fo_free_ranges f"] by (auto simp: bs_def)
  have a: "x < fst r" if r: "r \<in> set as" for r
  proof -
    obtain y ys where as: "as = y # ys" using r by (metis empty_iff list.exhaust list.set(1))
    have "\<not> fst y < x" using as hd_dropWhile [of "\<lambda>r. fst r < x" "fo_free_ranges f"] by (auto simp: as_def)
    then have "x < fst y" using out [of y] w as by fastforce
    moreover have "r = y \<or> fst y < fst r" using so(2) w r as by fastforce
    ultimately show ?thesis by auto
  qed
  define B r1 where "B = (if bs \<noteq> [] \<and> snd (last bs) = x then butlast bs else bs)"
    and "r1 = (if bs \<noteq> [] \<and> snd (last bs) = x then (fst (last bs), Suc x) else (x, Suc x))"
  define A r2 where "A = (if as \<noteq> [] \<and> fst (hd as) = Suc x then tl as else as)"
    and "r2 = (if as \<noteq> [] \<and> fst (hd as) = Suc x then (fst r1, snd (hd as)) else r1)"
  have ret: "ReturnFreeOffset x f = f\<lparr>fo_free_ranges := insert_range r2 (B @ A)\<rparr>"
    unfolding ReturnFreeOffset_def Let_def bs_def [symmetric] as_def [symmetric] fst_conv snd_conv n(1) B_def A_def r1_def r2_def by auto
  have bl: "\<forall>b \<in> set B. snd b < fst r1" "set B \<subseteq> set bs" "sorted_wrt ?R B" "fst r1 \<le> x" "snd r1 = Suc x"
    and bm: "(\<Union>r \<in> set bs. {fst r..<snd r}) \<union> {x} = (\<Union>r \<in> set B. {fst r..<snd r}) \<union> {fst r1..<Suc x}"
  proof -
    have "(\<forall>b \<in> set B. snd b < fst r1) \<and> set B \<subseteq> set bs \<and> sorted_wrt ?R B \<and> fst r1 \<le> x \<and> snd r1 = Suc x \<and>
      (\<Union>r \<in> set bs. {fst r..<snd r}) \<union> {x} = (\<Union>r \<in> set B. {fst r..<snd r}) \<union> {fst r1..<Suc x}"
    proof (cases "bs \<noteq> [] \<and> snd (last bs) = x")
      case True
      then obtain cs l where cs: "bs = cs @ [l]" "snd l = x" by (metis append_butlast_last_id)
      have "fst l < x" using b [of l] cs by simp
      then have "{fst l..<snd l} \<union> {x} = {fst l..<Suc x}" using cs(2) by auto
      then show ?thesis using cs so(1) b by (auto simp: B_def r1_def sorted_wrt_append)
    next
      case False
      have "snd c < x" if c: "c \<in> set bs" for c
      proof (cases "c = last bs")
        case True
        then show ?thesis using False b [OF c] c by (cases "snd c = x") auto
      next
        case False
        then have "c \<in> set (butlast bs)" using c by (metis append_butlast_last_id empty_iff insert_iff list.set(1) list.simps(15) rotate1.simps(2) set_rotate1)
        moreover have "bs = butlast bs @ [last bs]" using c by (cases bs) auto
        ultimately have "snd c < fst (last bs)" using so(1) by (metis sorted_wrt_append list.set_intros(1))
        moreover have "last bs \<in> set bs" using c by (metis empty_iff last_in_set list.set(1))
        ultimately show ?thesis using b [of "last bs"] by simp
      qed
      then show ?thesis using False so(1) by (auto simp: B_def r1_def)
    qed
    then show "\<forall>b \<in> set B. snd b < fst r1" "set B \<subseteq> set bs" "sorted_wrt ?R B" "fst r1 \<le> x" "snd r1 = Suc x"
      "(\<Union>r \<in> set bs. {fst r..<snd r}) \<union> {x} = (\<Union>r \<in> set B. {fst r..<snd r}) \<union> {fst r1..<Suc x}" by blast+
  qed
  have al: "(\<forall>r \<in> set A. snd r2 < fst r) \<and> set A \<subseteq> set as \<and> sorted_wrt ?R A \<and> fst r2 = fst r1 \<and> Suc x \<le> snd r2 \<and> snd r2 \<le> ?c \<and>
    {fst r1..<Suc x} \<union> (\<Union>r \<in> set as. {fst r..<snd r}) = {fst r2..<snd r2} \<union> (\<Union>r \<in> set A. {fst r..<snd r})"
  proof (cases "as \<noteq> [] \<and> fst (hd as) = Suc x")
    case True
    then obtain y ys where y: "as = y # ys" "fst y = Suc x" by (cases as) auto
    have "fst y < snd y" "snd y \<le> ?c" using w y by auto
    moreover from this have "{fst r1..<Suc x} \<union> {fst y..<snd y} = {fst r1..<snd y}" using y(2) bl(4) by auto
    ultimately show ?thesis using y so(2) by (auto simp: A_def r2_def)
  next
    case False
    have "Suc x < fst r" if r: "r \<in> set as" for r
    proof -
      obtain y ys where y: "as = y # ys" using r by (metis empty_iff list.exhaust list.set(1))
      have "Suc x < fst y" using a [of y] y False by auto
      moreover have "r = y \<or> fst y < fst r" using so(2) w r y by fastforce
      ultimately show ?thesis by auto
    qed
    then show ?thesis using False so(2) bl(5) n(2) by (auto simp: A_def r2_def)
  qed
  have "insert_range r2 (B @ A) = B @ r2 # A"
  proof (rule insert_range_between)
    have "fst b < fst r1" if "b \<in> set B" for b using that bl(1,2) w by (meson Un_iff less_trans subsetD)
    then show "\<forall>b \<in> set B. fst b < fst r2" using al by simp
    show "A = [] \<or> fst r2 < fst (hd A)" using al bl(4) by (cases A) auto
  qed
  then have fr: "fo_free_ranges (ReturnFreeOffset x f) = B @ r2 # A" "fo_element_count (ReturnFreeOffset x f) = ?c" by (simp_all add: ret)
  have sub: "set A \<subseteq> set as" "sorted_wrt ?R A" "\<forall>r \<in> set A. snd r2 < fst r" using al by blast+
  have ba: "\<forall>p \<in> set B. \<forall>q \<in> set A. snd p < fst q" using so(3) bl(2) sub(1) by (meson subsetD)
  have "sorted_wrt ?R (B @ r2 # A)" using bl(1,3) sub(2,3) al ba by (simp add: sorted_wrt_append)
  moreover have "\<forall>r \<in> set B \<union> set A. fst r < snd r \<and> snd r \<le> ?c" using w bl(2) sub(1) by (meson Un_iff subsetD)
  moreover have "fst r2 < snd r2" using bl(4) al by simp
  ultimately have "fo_inv (ReturnFreeOffset x f)" using assms(1) al by (simp add: fo_inv_def fr ball_Un)
  moreover have "fo_members (ReturnFreeOffset x f) = insert x (fo_members f)"
  proof -
    have "insert x (fo_members f) = ((\<Union>r \<in> set bs. {fst r..<snd r}) \<union> {x}) \<union> (\<Union>r \<in> set as. {fst r..<snd r})"
      by (auto simp: fo_members_def split)
    also have "\<dots> = (\<Union>r \<in> set B. {fst r..<snd r}) \<union> ({fst r1..<Suc x} \<union> (\<Union>r \<in> set as. {fst r..<snd r}))" unfolding bm by blast
    also have "\<dots> = (\<Union>r \<in> set B. {fst r..<snd r}) \<union> ({fst r2..<snd r2} \<union> (\<Union>r \<in> set A. {fst r..<snd r}))" using al by simp
    finally show ?thesis by (auto simp: fo_members_def fr)
  qed
  ultimately show ?thesis by (simp add: fr)
qed

lemma fo_members_below: "fo_inv f \<Longrightarrow> fo_members f \<subseteq> {..<fo_element_count f}"
  by (fastforce simp: fo_inv_def fo_members_def)

lemma HasUsedOffset_iff:
  assumes "fo_inv f"
  shows "HasUsedOffset f \<longleftrightarrow> fo_members f \<noteq> {..<fo_element_count f}"
proof -
  let ?c = "fo_element_count f"
  have "\<not> HasUsedOffset f" if m: "fo_members f = {..<?c}"
  proof -
    have "0 \<in> fo_members f" using m assms by (simp add: fo_inv_def)
    then obtain r rs where r: "fo_free_ranges f = r # rs" by (cases "fo_free_ranges f") (auto simp: fo_members_def)
    have later: "snd r < fst q" if "q \<in> set rs" for q using assms that by (simp add: fo_inv_def r)
    have "fst r = 0" using \<open>0 \<in> fo_members f\<close> later by (fastforce simp: fo_members_def r)
    moreover have "snd r = ?c"
    proof (rule ccontr)
      assume "snd r \<noteq> ?c"
      then have "snd r \<in> fo_members f" using assms m by (auto simp: fo_inv_def r)
      then show False using later by (fastforce simp: fo_members_def r)
    qed
    moreover have "rs = []"
    proof (rule ccontr)
      assume "rs \<noteq> []"
      then have "hd rs \<in> set rs" by simp
      moreover from this have "fst (hd rs) < ?c" using assms by (fastforce simp: fo_inv_def r)
      ultimately show False using later [of "hd rs"] \<open>snd r = ?c\<close> by simp
    qed
    ultimately show ?thesis by (simp add: HasUsedOffset_def r)
  qed
  moreover have "fo_members f = {..<?c}" if u: "\<not> HasUsedOffset f"
  proof -
    have "fo_free_ranges f = [(0, ?c)]" using u by (cases "fo_free_ranges f") (auto simp: HasUsedOffset_def)
    then show ?thesis by (auto simp: fo_members_def)
  qed
  ultimately show ?thesis by blast
qed

interpretation fo: offset_set TakeFreeOffset ReturnFreeOffset HasFreeOffset HasUsedOffset fo_members fo_element_count fo_inv
proof
  show "HasFreeOffset f \<longleftrightarrow> fo_members f \<noteq> {}" if "fo_inv f" for f
    using that by (cases "fo_free_ranges f") (auto simp: HasFreeOffset_def fo_members_def fo_inv_def)
  show "HasUsedOffset f \<longleftrightarrow> fo_members f \<noteq> {..<fo_element_count f}" if "fo_inv f" for f by (rule HasUsedOffset_iff [OF that])
  show "fo_members f \<subseteq> {..<fo_element_count f}" if "fo_inv f" for f by (rule fo_members_below [OF that])
qed (use TakeFreeOffset_ok ReturnFreeOffset_ok in blast)+
section \<open>Elements and allocations\<close>

text \<open>What the managers ask of the memory; \<open>room\<close> says that an id is left for another buffer.\<close>

locale memory_provider =
  fixes sm :: "'w shared_memory" and inv :: "'w \<Rightarrow> bool" and room :: "'w \<Rightarrow> bool"
  assumes create: "inv w \<Longrightarrow> room w \<Longrightarrow> sz < 2 ^ 32 \<Longrightarrow> shm_Create sm sz w = (bo, i, w') \<Longrightarrow> inv w' \<and> (\<exists>bs. shm_heap sm w' = shm_heap sm w @ bs) \<and>
      (case bo of
         None \<Rightarrow> shm_lookup sm w' = shm_lookup sm w
       | Some b \<Rightarrow> 0 < i \<and> i < 2 ^ 31 \<and> shm_lookup sm w i = None \<and> shm_lookup sm w' = (shm_lookup sm w)(i \<mapsto> b) \<and>
           buf_size b = sz \<and> buf_memory b = length (shm_heap sm w))"
    and lookup: "inv w \<Longrightarrow> shm_lookup sm w i = Some b \<Longrightarrow> buffer_ok (shm_heap sm w) b"
    and destroy: "inv w \<Longrightarrow> \<exists>w'. shm_Destroy sm i w = Inr w' \<and> inv w' \<and> room w' = room w \<and> shm_heap sm w' = shm_heap sm w \<and>
      shm_lookup sm w' = (shm_lookup sm w)(i := None)"
    and put: "inv w \<Longrightarrow> map length hp = map length (shm_heap sm w) \<Longrightarrow>
      inv (shm_put sm hp w) \<and> shm_heap sm (shm_put sm hp w) = hp \<and> shm_lookup sm (shm_put sm hp w) = shm_lookup sm w"

text \<open>The handle of an element, and where it is.\<close>

definition elem :: "client_allocation \<Rightarrow> nat \<Rightarrow> discardable_handle" where
  "elem a j = new_DiscardableHandle (Some (ca_buffer a)) (4 * j) (ca_shm_id a)"

definition place_of :: "client_allocation \<Rightarrow> nat \<Rightarrow> pointer" where
  "place_of a j = (buf_memory (ca_buffer a), 4 * j)"

definition alloc_ok :: "(i32 \<Rightarrow> gpu_buffer option) \<Rightarrow> heap \<Rightarrow> nat \<Rightarrow> client_allocation \<Rightarrow> bool" where
  "alloc_ok look hp n a \<longleftrightarrow> 0 < ca_shm_id a \<and> ca_shm_id a < 2 ^ 31 \<and> look (ca_shm_id a) = Some (ca_buffer a) \<and> buffer_ok hp (ca_buffer a) \<and>
     4 * n \<le> buf_size (ca_buffer a) \<and> fo_inv (ca_free_offsets a) \<and> fo_element_count (ca_free_offsets a) = n"

text \<open>
  The allocations of a manager whose handles are \<open>H\<close>: no element is both free and held. When the pool is full, every element is one or
  the other.
\<close>

definition pool_ok :: "(i32 \<Rightarrow> gpu_buffer option) \<Rightarrow> heap \<Rightarrow> nat \<Rightarrow> client_allocation list \<Rightarrow> discardable_handle set \<Rightarrow> bool" where
  "pool_ok look hp n as H \<longleftrightarrow> distinct (map ca_shm_id as) \<and> distinct (map (buf_memory \<circ> ca_buffer) as) \<and> (\<forall>a \<in> set as. alloc_ok look hp n a) \<and>
     (\<forall>h \<in> H. \<exists>a \<in> set as. \<exists>j < n. h = elem a j \<and> j \<notin> fo_members (ca_free_offsets a))"

definition pool_full :: "nat \<Rightarrow> client_allocation list \<Rightarrow> discardable_handle set \<Rightarrow> bool" where
  "pool_full n as H \<longleftrightarrow> (\<forall>a \<in> set as. \<forall>j < n. j \<in> fo_members (ca_free_offsets a) \<or> elem a j \<in> H)"

lemma elem_simps [simp]: "dh_buffer (elem a j) = Some (ca_buffer a)" "dh_byte_offset (elem a j) = 4 * j"
  by (simp_all add: elem_def new_DiscardableHandle_def)

lemma elem_shm_id: "alloc_ok look hp n a \<Longrightarrow> DiscardableHandle_shm_id (elem a j) = ca_shm_id a"
  using i32_round_trip [of "ca_shm_id a"] by (simp add: alloc_ok_def elem_def DiscardableHandle_shm_id_def new_DiscardableHandle_def)

lemma elem_free [simp]: "elem (a\<lparr>ca_free_offsets := f\<rparr>) j = elem a j"
  by (simp add: elem_def)

lemma elem_eq:
  assumes "pool_ok look hp n as H" "a \<in> set as" "b \<in> set as" "elem a i = elem b j"
  shows "a = b" "i = j"
proof -
  have "distinct (map (buf_memory \<circ> ca_buffer) as)" using assms(1) by (simp add: pool_ok_def)
  moreover have "ca_buffer a = ca_buffer b" "4 * i = 4 * j" using assms(4) by (auto simp: elem_def new_DiscardableHandle_def)
  ultimately show "a = b" "i = j" using assms(2,3) by (auto simp: distinct_map inj_on_def)
qed

lemma elem_at:
  assumes "alloc_ok look hp n a" "j < n"
  shows "handle_at hp (elem a j) (place_of a j)"
  using assms by (auto simp: alloc_ok_def handle_at_def AsAtomic_def place_of_def buffer_ok_def Buffer_GetDataAddress_def)

lemma places_apart:
  assumes "pool_ok look hp n as H" "a \<in> set as" "b \<in> set as" "elem a i \<noteq> elem b j"
  shows "words_apart (place_of a i) (place_of b j)"
proof (cases "a = b")
  case True
  then have "i \<noteq> j" using assms(4) by auto
  then show ?thesis using True by (auto simp: words_apart_def place_of_def regions_disjoint_def)
next
  case False
  then have "buf_memory (ca_buffer a) \<noteq> buf_memory (ca_buffer b)" using assms(1-3) by (auto simp: pool_ok_def distinct_map inj_on_def)
  then show ?thesis by (simp add: words_apart_def place_of_def)
qed

lemma pool_ok_held:
  assumes "pool_ok look hp n as H" "h \<in> H"
  obtains a j where "a \<in> set as" "j < n" "h = elem a j" "j \<notin> fo_members (ca_free_offsets a)" "handle_at hp h (place_of a j)"
  using assms elem_at by (metis pool_ok_def)

text \<open>Whether the service has deleted a handle.\<close>

definition is_deleted :: "heap \<Rightarrow> discardable_handle \<Rightarrow> bool" where
  "is_deleted hp h \<longleftrightarrow> handle_load h hp = Inr 0"

lemma held_reuse:
  assumes "pool_ok look hp n as H" "h \<in> H"
  shows "CanBeReUsed h hp = Inr (is_deleted hp h)"
proof -
  obtain a j where "handle_at hp h (place_of a j)" using pool_ok_held [OF assms] by blast
  then show ?thesis by (auto simp: CanBeReUsed_def is_deleted_def handle_constants)
qed

text \<open>\<^verbatim>\<open>ReturnAllocation\<close> finds one allocation.\<close>

lemma return_allocation_none:
  "\<forall>a \<in> set as. ca_shm_id a \<noteq> DiscardableHandle_shm_id h \<Longrightarrow> return_allocation sm e h as w = Inr (as, w)"
  by (induction as) simp_all

lemma return_allocation_split:
  fixes e :: nat
  assumes "distinct (map ca_shm_id (pre @ a # post))" "ca_shm_id a = DiscardableHandle_shm_id h"
  defines "a1 \<equiv> a\<lparr>ca_free_offsets := ReturnFreeOffset (dh_byte_offset h div e) (ca_free_offsets a)\<rparr>"
  shows "return_allocation sm e h (pre @ a # post) w =
    (if \<not> HasUsedOffset (ca_free_offsets a1) then res_bind (shm_Destroy sm (ca_shm_id a) w) (\<lambda>w1. Inr (pre @ post, w1)) else Inr (pre @ a1 # post, w))"
  using assms(1)
proof (induction pre)
  case Nil
  then have "\<forall>b \<in> set post. ca_shm_id b \<noteq> DiscardableHandle_shm_id h" using assms(2) by (auto simp: image_iff)
  from return_allocation_none [OF this, of sm e w] show ?case using assms(2) by (simp add: a1_def Let_def)
next
  case (Cons b pre)
  then have "ca_shm_id b \<noteq> DiscardableHandle_shm_id h" using assms(2) by auto
  then show ?case using Cons by (cases "shm_Destroy sm (ca_shm_id a) w") simp_all
qed

lemma pool_ok_mono: "pool_ok look hp n as H \<Longrightarrow> H' \<subseteq> H \<Longrightarrow> pool_ok look hp n as H'"
  unfolding pool_ok_def by blast

lemma pool_ok_memory:
  assumes "pool_ok look hp n as H" "\<And>a. a \<in> set as \<Longrightarrow> look' (ca_shm_id a) = look (ca_shm_id a)" "\<And>b. buffer_ok hp b \<Longrightarrow> buffer_ok hp' b"
  shows "pool_ok look' hp' n as H"
  using assms by (simp add: pool_ok_def alloc_ok_def)

lemma buffer_ok_shape: "map length hp' = map length hp \<Longrightarrow> buffer_ok hp' b = buffer_ok hp b"
  by (metis (no_types, lifting) buffer_ok_def length_map nth_map)

text \<open>The pool after an element is given back to one allocation, and after an allocation without used elements is dropped.\<close>

lemma pool_give:
  assumes "pool_ok look hp n (pre @ a # post) H" "j < n" "j \<notin> fo_members (ca_free_offsets a)" "elem a j \<in> H"
  defines "a1 \<equiv> a\<lparr>ca_free_offsets := ReturnFreeOffset j (ca_free_offsets a)\<rparr>"
  shows "pool_ok look hp n (pre @ a1 # post) (H - {elem a j})" "pool_full n (pre @ a # post) H \<Longrightarrow> pool_full n (pre @ a1 # post) (H - {elem a j})"
    "fo_members (ca_free_offsets a1) = insert j (fo_members (ca_free_offsets a))" "fo_inv (ca_free_offsets a1)" "fo_element_count (ca_free_offsets a1) = n"
proof -
  have a: "alloc_ok look hp n a" using assms(1) by (simp add: pool_ok_def)
  show f: "fo_members (ca_free_offsets a1) = insert j (fo_members (ca_free_offsets a))" "fo_inv (ca_free_offsets a1)" "fo_element_count (ca_free_offsets a1) = n"
    using ReturnFreeOffset_ok [of "ca_free_offsets a" j] a assms(2,3) by (auto simp: a1_def alloc_ok_def)
  have e: "elem a1 = elem a" by (simp add: a1_def fun_eq_iff)
  have h: "\<exists>b \<in> set (pre @ a1 # post). \<exists>i < n. h = elem b i \<and> i \<notin> fo_members (ca_free_offsets b)" if hH: "h \<in> H - {elem a j}" for h
  proof -
    obtain b i where b: "b \<in> set (pre @ a # post)" "i < n" "h = elem b i" "i \<notin> fo_members (ca_free_offsets b)"
      using assms(1) hH unfolding pool_ok_def by blast
    show ?thesis
    proof (cases "b = a")
      case True
      then have "i \<noteq> j" using b(3) hH by auto
      then show ?thesis using b True f(1) e by (intro bexI [of _ a1]) auto
    next
      case False
      then show ?thesis using b by (intro bexI [of _ b]) auto
    qed
  qed
  moreover have "alloc_ok look hp n a1" using a f(2,3) by (simp add: alloc_ok_def a1_def)
  moreover have "ca_shm_id a1 = ca_shm_id a" "ca_buffer a1 = ca_buffer a" by (simp_all add: a1_def)
  ultimately show ok: "pool_ok look hp n (pre @ a1 # post) (H - {elem a j})" using assms(1) unfolding pool_ok_def by auto
  show "pool_full n (pre @ a1 # post) (H - {elem a j})" if full: "pool_full n (pre @ a # post) H"
    unfolding pool_full_def
  proof (intro ballI allI impI)
    fix b i
    assume b: "b \<in> set (pre @ a1 # post)" "i < n"
    show "i \<in> fo_members (ca_free_offsets b) \<or> elem b i \<in> H - {elem a j}"
    proof (cases "b = a1")
      case True
      then show ?thesis using full b(2) f(1) e elem_eq(2) [OF assms(1), of a a] by (auto simp: pool_full_def)
    next
      case False
      then have "b \<in> set pre \<union> set post" using b(1) by auto
      moreover from this have "b \<noteq> a" using assms(1) by (auto simp: pool_ok_def)
      ultimately show ?thesis using full b(2) elem_eq(1) [OF assms(1), of b a i j] by (auto simp: pool_full_def)
    qed
  qed
qed

lemma pool_drop:
  assumes "pool_ok look hp n (pre @ a # post) H" "fo_members (ca_free_offsets a) = {..<n}"
  shows "pool_ok (look(ca_shm_id a := None)) hp n (pre @ post) H" "pool_full n (pre @ a # post) H \<Longrightarrow> pool_full n (pre @ post) H"
proof -
  have "\<exists>b \<in> set (pre @ post). \<exists>i < n. h = elem b i \<and> i \<notin> fo_members (ca_free_offsets b)" if "h \<in> H" for h
    using assms that unfolding pool_ok_def by fastforce
  moreover have "ca_shm_id b \<noteq> ca_shm_id a \<and> alloc_ok look hp n b" if "b \<in> set (pre @ post)" for b using assms(1) that by (auto simp: pool_ok_def image_iff)
  then have "\<forall>b \<in> set (pre @ post). alloc_ok (look(ca_shm_id a := None)) hp n b" by (simp add: alloc_ok_def)
  ultimately show "pool_ok (look(ca_shm_id a := None)) hp n (pre @ post) H" using assms(1) unfolding pool_ok_def by simp
  show "pool_full n (pre @ a # post) H \<Longrightarrow> pool_full n (pre @ post) H" by (simp add: pool_full_def)
qed

context memory_provider
begin

abbreviation pool :: "nat \<Rightarrow> client_allocation list \<Rightarrow> discardable_handle set \<Rightarrow> 'w \<Rightarrow> bool" where
  "pool n as H w \<equiv> inv w \<and> pool_ok (shm_lookup sm w) (shm_heap sm w) n as H"

lemma return_allocation_ok:
  assumes "pool n as H w" "h \<in> H"
  shows "\<exists>as' w'. return_allocation sm 4 h as w = Inr (as', w') \<and> pool n as' (H - {h}) w' \<and> shm_heap sm w' = shm_heap sm w \<and> room w' = room w \<and>
    (pool_full n as H \<longrightarrow> pool_full n as' (H - {h}))"
proof -
  have p: "pool_ok (shm_lookup sm w) (shm_heap sm w) n as H" using assms(1) by blast
  obtain a j where a: "a \<in> set as" "j < n" "h = elem a j" "j \<notin> fo_members (ca_free_offsets a)" using pool_ok_held [OF p assms(2)] by blast
  obtain pre post where s: "as = pre @ a # post" using a(1) by (meson split_list)
  have ok: "alloc_ok (shm_lookup sm w) (shm_heap sm w) n a" using p a(1) by (simp add: pool_ok_def)
  let ?a = "a\<lparr>ca_free_offsets := ReturnFreeOffset j (ca_free_offsets a)\<rparr>"
  note g = pool_give [OF p [unfolded s] a(2,4) assms(2) [unfolded a(3)]]
  have d: "distinct (map ca_shm_id (pre @ a # post))" using p s by (simp add: pool_ok_def)
  have r: "return_allocation sm 4 h as w = (if \<not> HasUsedOffset (ca_free_offsets ?a)
      then res_bind (shm_Destroy sm (ca_shm_id a) w) (\<lambda>w1. Inr (pre @ post, w1)) else Inr (pre @ ?a # post, w))"
    using return_allocation_split [OF d, of h sm 4 w] elem_shm_id [OF ok, of j] by (simp add: s a(3))
  show ?thesis
  proof (cases "HasUsedOffset (ca_free_offsets ?a)")
    case True
    then show ?thesis using r assms(1) g(1,2) by (auto simp: a(3) s)
  next
    case False
    then have full: "fo_members (ca_free_offsets ?a) = {..<n}" using HasUsedOffset_iff [OF g(4)] g(5) by auto
    obtain w' where w': "shm_Destroy sm (ca_shm_id a) w = Inr w'" "inv w'" "room w' = room w" "shm_heap sm w' = shm_heap sm w"
      "shm_lookup sm w' = (shm_lookup sm w)(ca_shm_id a := None)" using destroy assms(1) by blast
    have "pool_ok (shm_lookup sm w') (shm_heap sm w') n (pre @ post) (H - {h})" using pool_drop(1) [OF g(1) full] by (simp add: w'(4,5) a(3))
    moreover have "pool_full n as H \<longrightarrow> pool_full n (pre @ post) (H - {h})" using g(2) pool_drop(2) [OF g(1) full] by (simp add: s a(3))
    ultimately show ?thesis using r False w' by auto
  qed
qed

end

section \<open>The operations of the manager\<close>

definition dm_held :: "discardable_manager \<Rightarrow> discardable_handle set" where
  "dm_held m = snd ` set (dm_handles m) \<union> set (dm_pending_handles m)"

definition dm_inv :: "(i32 \<Rightarrow> gpu_buffer option) \<Rightarrow> heap \<Rightarrow> discardable_manager \<Rightarrow> bool" where
  "dm_inv look hp m \<longleftrightarrow> dm_element_size m = 4 \<and> 0 < dm_elements_per_allocation m \<and> 4 * dm_elements_per_allocation m \<le> dm_allocation_size m \<and>
     dm_allocation_size m < 2 ^ 32 \<and> distinct (map fst (dm_handles m)) \<and> distinct (map snd (dm_handles m) @ dm_pending_handles m) \<and>
     pool_ok look hp (dm_elements_per_allocation m) (dm_allocations m) (dm_held m)"

definition dm_full :: "discardable_manager \<Rightarrow> bool" where
  "dm_full m \<longleftrightarrow> pool_full (dm_elements_per_allocation m) (dm_allocations m) (dm_held m)"

text \<open>Taking a free element.\<close>

lemma pool_take:
  assumes "pool_ok look hp n (pre @ a # post) H" "HasFreeOffset (ca_free_offsets a)"
  shows "\<exists>j f. TakeFreeOffset (ca_free_offsets a) = Inr (j, f) \<and> j < n \<and> elem a j \<notin> H \<and>
    pool_ok look hp n (pre @ a\<lparr>ca_free_offsets := f\<rparr> # post) (insert (elem a j) H) \<and>
    (pool_full n (pre @ a # post) H \<longrightarrow> pool_full n (pre @ a\<lparr>ca_free_offsets := f\<rparr> # post) (insert (elem a j) H))"
proof -
  have a: "alloc_ok look hp n a" using assms(1) by (simp add: pool_ok_def)
  then have i: "fo_inv (ca_free_offsets a)" "fo_element_count (ca_free_offsets a) = n" by (simp_all add: alloc_ok_def)
  obtain j f where t: "TakeFreeOffset (ca_free_offsets a) = Inr (j, f)" "j \<in> fo_members (ca_free_offsets a)"
    "fo_members f = fo_members (ca_free_offsets a) - {j}" "fo_inv f" "fo_element_count f = n" using TakeFreeOffset_ok [OF i(1) assms(2)] i(2) by auto
  have j: "j < n" using fo_members_below [OF i(1)] t(2) i(2) by auto
  let ?a = "a\<lparr>ca_free_offsets := f\<rparr>"
  have new: "elem a j \<notin> H"
  proof
    assume "elem a j \<in> H"
    then obtain b k where b: "b \<in> set (pre @ a # post)" "elem a j = elem b k" "k \<notin> fo_members (ca_free_offsets b)" using assms(1) unfolding pool_ok_def by blast
    from elem_eq [OF assms(1) _ b(1,2)] b(3) t(2) show False by simp
  qed
  have "\<exists>b \<in> set (pre @ ?a # post). \<exists>i < n. h = elem b i \<and> i \<notin> fo_members (ca_free_offsets b)" if h: "h \<in> insert (elem a j) H" for h
  proof (cases "h = elem a j")
    case True
    then show ?thesis using j t(3) by (intro bexI [of _ ?a]) auto
  next
    case False
    then obtain b k where b: "b \<in> set (pre @ a # post)" "k < n" "h = elem b k" "k \<notin> fo_members (ca_free_offsets b)" using assms(1) h unfolding pool_ok_def by blast
    then show ?thesis using t(3) by (cases "b = a") (auto intro: bexI [of _ ?a] bexI [of _ b])
  qed
  moreover have "alloc_ok look hp n ?a" using a t(4,5) by (simp add: alloc_ok_def)
  ultimately have "pool_ok look hp n (pre @ ?a # post) (insert (elem a j) H)" using assms(1) unfolding pool_ok_def by auto
  moreover have "pool_full n (pre @ a # post) H \<longrightarrow> pool_full n (pre @ ?a # post) (insert (elem a j) H)" using t(3) by (auto simp: pool_full_def)
  ultimately show ?thesis using t(1) j new by blast
qed

lemma find_existing_split:
  assumes "\<forall>b \<in> set pre. \<not> HasFreeOffset (ca_free_offsets b)" "HasFreeOffset (ca_free_offsets a)" "TakeFreeOffset (ca_free_offsets a) = Inr (j, f)"
  shows "find_existing (pre @ a # post) = Inr (Some ((ca_buffer a, ca_shm_id a, j), pre @ a\<lparr>ca_free_offsets := f\<rparr> # post))"
  using assms by (induction pre) simp_all

lemma find_existing_none: "\<forall>b \<in> set as. \<not> HasFreeOffset (ca_free_offsets b) \<Longrightarrow> find_existing as = Inr None"
  by (induction as) simp_all

lemma find_existing_ok:
  assumes "pool_ok look hp n as H"
  obtains (none) "find_existing as = Inr None" "\<forall>b \<in> set as. \<not> HasFreeOffset (ca_free_offsets b)"
  | (some) a j as' where "find_existing as = Inr (Some ((ca_buffer a, ca_shm_id a, j), as'))" "a \<in> set as" "j < n" "elem a j \<notin> H"
      "pool_ok look hp n as' (insert (elem a j) H)" "pool_full n as H \<Longrightarrow> pool_full n as' (insert (elem a j) H)"
proof (cases "\<exists>b \<in> set as. HasFreeOffset (ca_free_offsets b)")
  case False
  then show ?thesis using none find_existing_none by blast
next
  case True
  from split_list_first_prop [OF this] obtain pre a post where
    s: "as = pre @ a # post" "HasFreeOffset (ca_free_offsets a)" "\<forall>b \<in> set pre. \<not> HasFreeOffset (ca_free_offsets b)" by blast
  obtain j f where t: "TakeFreeOffset (ca_free_offsets a) = Inr (j, f)" "j < n" "elem a j \<notin> H"
    "pool_ok look hp n (pre @ a\<lparr>ca_free_offsets := f\<rparr> # post) (insert (elem a j) H)"
    "pool_full n as H \<Longrightarrow> pool_full n (pre @ a\<lparr>ca_free_offsets := f\<rparr> # post) (insert (elem a j) H)"
    using pool_take [OF assms [unfolded s(1)] s(2)] s(1) by blast
  from find_existing_split [OF s(3,2) t(1), of post] s(1) show ?thesis by (intro some [OF _ _ t(2-5)]) auto
qed

context memory_provider
begin

lemma check_pending_ok:
  assumes "pool n (dm_allocations m) (H \<union> set hs) w" "distinct hs" "H \<inter> set hs = {}" "dm_element_size m = 4"
  shows "\<exists>as w'. check_pending sm hs (m, w) = Inr (m\<lparr>dm_allocations := as, dm_pending_handles := dropWhile (is_deleted (shm_heap sm w)) hs\<rparr>, w') \<and>
    pool n as (H \<union> set (dropWhile (is_deleted (shm_heap sm w)) hs)) w' \<and> shm_heap sm w' = shm_heap sm w \<and> room w' = room w \<and>
    (pool_full n (dm_allocations m) (H \<union> set hs) \<longrightarrow> pool_full n as (H \<union> set (dropWhile (is_deleted (shm_heap sm w)) hs)))"
  using assms
proof (induction hs arbitrary: m w)
  case Nil
  then show ?case by (intro exI [of _ "dm_allocations m"] exI [of _ w]) simp
next
  case (Cons h hs)
  have reuse: "CanBeReUsed h (shm_heap sm w) = Inr (is_deleted (shm_heap sm w) h)" using held_reuse Cons.prems(1) by (metis Un_iff list.set_intros(1))
  show ?case
  proof (cases "is_deleted (shm_heap sm w) h")
    case False
    then show ?thesis using Cons.prems(1) reuse by (intro exI [of _ "dm_allocations m"] exI [of _ w]) simp
  next
    case True
    obtain as1 w1 where r: "return_allocation sm 4 h (dm_allocations m) w = Inr (as1, w1)" "pool n as1 (H \<union> set (h # hs) - {h}) w1"
      "shm_heap sm w1 = shm_heap sm w" "room w1 = room w"
      "pool_full n (dm_allocations m) (H \<union> set (h # hs)) \<longrightarrow> pool_full n as1 (H \<union> set (h # hs) - {h})"
      using return_allocation_ok [OF Cons.prems(1), of h] by auto
    have e: "H \<union> set (h # hs) - {h} = H \<union> set hs" using Cons.prems(2,3) by auto
    have "ReturnAllocation sm h (m, w) = Inr (m\<lparr>dm_allocations := as1\<rparr>, w1)" using r(1) Cons.prems(4) by (simp add: ReturnAllocation_def)
    moreover have "pool n (dm_allocations (m\<lparr>dm_allocations := as1\<rparr>)) (H \<union> set hs) w1" using r(2) e by simp
    from Cons.IH [OF this] obtain as2 w2 where c: "check_pending sm hs (m\<lparr>dm_allocations := as1\<rparr>, w1) =
        Inr (m\<lparr>dm_allocations := as1\<rparr>\<lparr>dm_allocations := as2, dm_pending_handles := dropWhile (is_deleted (shm_heap sm w1)) hs\<rparr>, w2)"
      "pool n as2 (H \<union> set (dropWhile (is_deleted (shm_heap sm w1)) hs)) w2" "shm_heap sm w2 = shm_heap sm w1" "room w2 = room w1"
      "pool_full n as1 (H \<union> set hs) \<longrightarrow> pool_full n as2 (H \<union> set (dropWhile (is_deleted (shm_heap sm w1)) hs))"
      using Cons.prems(2-4) by auto
    ultimately show ?thesis using reuse True r(3-5) e by (intro exI [of _ as2] exI [of _ w2]) simp
  qed
qed

lemma check_deleted_ok:
  assumes "pool n (dm_allocations m) (H \<union> snd ` set es) w" "distinct (map snd es)" "H \<inter> snd ` set es = {}" "dm_element_size m = 4"
  defines "keep \<equiv> \<lambda>es. filter (\<lambda>e. \<not> is_deleted (shm_heap sm w) (snd e)) es"
  shows "\<exists>b as w'. check_deleted sm es (m, w) = Inr (b, keep es, m\<lparr>dm_allocations := as\<rparr>, w') \<and>
    pool n as (H \<union> snd ` set (keep es)) w' \<and> shm_heap sm w' = shm_heap sm w \<and> room w' = room w \<and>
    (pool_full n (dm_allocations m) (H \<union> snd ` set es) \<longrightarrow> pool_full n as (H \<union> snd ` set (keep es)))"
proof -
  let ?hp = "shm_heap sm w"
  have "\<exists>b as w'. check_deleted sm es (m, v) = Inr (b, keep es, m\<lparr>dm_allocations := as\<rparr>, w') \<and>
    pool n as (H \<union> snd ` set (keep es)) w' \<and> shm_heap sm w' = ?hp \<and> room w' = room v \<and>
    (pool_full n (dm_allocations m) (H \<union> snd ` set es) \<longrightarrow> pool_full n as (H \<union> snd ` set (keep es)))"
    if "pool n (dm_allocations m) (H \<union> snd ` set es) v" "distinct (map snd es)" "H \<inter> snd ` set es = {}" "dm_element_size m = 4" "shm_heap sm v = ?hp"
    for es m v H
    using that
  proof (induction es arbitrary: m v H)
    case Nil
    then show ?case by (intro exI [of _ False] exI [of _ "dm_allocations m"] exI [of _ v]) (simp add: keep_def)
  next
    case (Cons e es)
    let ?h = "snd e"
    have reuse: "CanBeReUsed ?h (shm_heap sm v) = Inr (is_deleted ?hp ?h)"
      using held_reuse [of "shm_lookup sm v" "shm_heap sm v" n "dm_allocations m"] Cons.prems(1,5) by auto
    show ?case
    proof (cases "is_deleted ?hp ?h")
      case False
      have "H \<union> snd ` set (e # es) = insert ?h H \<union> snd ` set es" by auto
      with Cons.prems have "pool n (dm_allocations m) (insert ?h H \<union> snd ` set es) v" "insert ?h H \<inter> snd ` set es = {}" by (auto simp: image_iff)
      from Cons.IH [OF this(1) _ this(2) Cons.prems(4,5)] Cons.prems(2) obtain b as w' where
        c: "check_deleted sm es (m, v) = Inr (b, keep es, m\<lparr>dm_allocations := as\<rparr>, w')" "pool n as (insert ?h H \<union> snd ` set (keep es)) w'"
        "shm_heap sm w' = ?hp" "room w' = room v"
        "pool_full n (dm_allocations m) (insert ?h H \<union> snd ` set es) \<longrightarrow> pool_full n as (insert ?h H \<union> snd ` set (keep es))" by auto
      have k: "keep (e # es) = e # keep es" using False by (simp add: keep_def)
      show ?thesis using c reuse False by (intro exI [of _ b] exI [of _ as] exI [of _ w']) (simp add: k)
    next
      case True
      obtain as1 v1 where r: "return_allocation sm 4 ?h (dm_allocations m) v = Inr (as1, v1)" "pool n as1 (H \<union> snd ` set (e # es) - {?h}) v1"
        "shm_heap sm v1 = shm_heap sm v" "room v1 = room v"
        "pool_full n (dm_allocations m) (H \<union> snd ` set (e # es)) \<longrightarrow> pool_full n as1 (H \<union> snd ` set (e # es) - {?h})"
        using return_allocation_ok [OF Cons.prems(1), of ?h] by auto
      have x: "H \<union> snd ` set (e # es) - {?h} = H \<union> snd ` set es" using Cons.prems(2,3) by auto
      have ra: "ReturnAllocation sm ?h (m, v) = Inr (m\<lparr>dm_allocations := as1\<rparr>, v1)" using r(1) Cons.prems(4) by (simp add: ReturnAllocation_def)
      have "pool n (dm_allocations (m\<lparr>dm_allocations := as1\<rparr>)) (H \<union> snd ` set es) v1" using r(2) x by simp
      from Cons.IH [OF this] Cons.prems(2-5) r(3) obtain b as w' where
        c: "check_deleted sm es (m\<lparr>dm_allocations := as1\<rparr>, v1) = Inr (b, keep es, m\<lparr>dm_allocations := as\<rparr>, w')" "pool n as (H \<union> snd ` set (keep es)) w'"
        "shm_heap sm w' = ?hp" "room w' = room v1"
        "pool_full n as1 (H \<union> snd ` set es) \<longrightarrow> pool_full n as (H \<union> snd ` set (keep es))" by auto
      have k: "keep (e # es) = keep es" using True by (simp add: keep_def)
      show ?thesis using c reuse True ra r(4,5) x by (intro exI [of _ True] exI [of _ as] exI [of _ w']) (simp add: k)
    qed
  qed
  from this [OF assms(1-4)] show ?thesis by simp
qed

lemma new_allocation_ok:
  assumes "pool n (dm_allocations m) H w" "room w" "n = dm_elements_per_allocation m" "0 < n" "4 * n \<le> dm_allocation_size m" "dm_allocation_size m < 2 ^ 32"
  shows "(\<exists>w'. new_allocation sm (m, w) = Inr (None, m, w') \<and> pool n (dm_allocations m) H w' \<and> (\<exists>bs. shm_heap sm w' = shm_heap sm w @ bs)) \<or>
    (\<exists>a j as w'. new_allocation sm (m, w) = Inr (Some (ca_buffer a, ca_shm_id a, j), m\<lparr>dm_allocations := as\<rparr>, w') \<and> a \<in> set as \<and> j < n \<and> elem a j \<notin> H \<and>
       pool n as (insert (elem a j) H) w' \<and> (\<exists>bs. shm_heap sm w' = shm_heap sm w @ bs) \<and>
       (pool_full n (dm_allocations m) H \<longrightarrow> pool_full n as (insert (elem a j) H)))"
proof -
  have p: "pool_ok (shm_lookup sm w) (shm_heap sm w) n (dm_allocations m) H" using assms(1) by blast
  obtain bo i w' where c: "shm_Create sm (dm_allocation_size m) w = (bo, i, w')" by (metis surj_pair)
  note k = create [OF _ assms(2,6) c]
  obtain bs where bs: "shm_heap sm w' = shm_heap sm w @ bs" "inv w'" using k assms(1) by blast
  have grow: "buffer_ok (shm_heap sm w') b" if "buffer_ok (shm_heap sm w) b" for b using that bs by simp
  show ?thesis
  proof (cases bo)
    case None
    then have "shm_lookup sm w' = shm_lookup sm w" using k assms(1) by simp
    then have "pool_ok (shm_lookup sm w') (shm_heap sm w') n (dm_allocations m) H" using pool_ok_memory [OF p _ grow] by simp
    then show ?thesis using c None bs assms(6) by (auto simp: new_allocation_def)
  next
    case (Some b)
    then have b: "0 < i" "i < 2 ^ 31" "shm_lookup sm w i = None" "shm_lookup sm w' = (shm_lookup sm w)(i \<mapsto> b)" "buf_size b = dm_allocation_size m"
      "buf_memory b = length (shm_heap sm w)" using k assms(1) by auto
    define a where "a = \<lparr>ca_buffer = b, ca_shm_id = i, ca_free_offsets = new_FreeOffsetSet n\<rparr>"
    have f: "fo_inv (new_FreeOffsetSet n)" "fo_members (new_FreeOffsetSet n) = {..<n}" "fo_element_count (new_FreeOffsetSet n) = n"
      using new_FreeOffsetSet_ok [of n] assms(4-6) by simp_all
    have old: "ca_shm_id x \<noteq> i \<and> buf_memory (ca_buffer x) \<noteq> buf_memory b" if "x \<in> set (dm_allocations m)" for x
      using p that b(3,6) by (auto simp: pool_ok_def alloc_ok_def buffer_ok_def)
    have "pool_ok (shm_lookup sm w') (shm_heap sm w') n (dm_allocations m) H" using pool_ok_memory [OF p _ grow] old b(4) by simp
    moreover have "buffer_ok (shm_heap sm w') b" using lookup [OF bs(2), of i b] b(4) by simp
    then have "alloc_ok (shm_lookup sm w') (shm_heap sm w') n a" using b f assms(5) by (simp add: alloc_ok_def a_def)
    ultimately have q: "pool_ok (shm_lookup sm w') (shm_heap sm w') n (dm_allocations m @ a # []) H"
      using old unfolding pool_ok_def by (fastforce simp: a_def)
    have asel: "ca_buffer a = b" "ca_shm_id a = i" by (simp_all add: a_def)
    have "HasFreeOffset (ca_free_offsets a)" by (simp add: a_def HasFreeOffset_def new_FreeOffsetSet_def)
    from pool_take [OF q this] obtain j g where t: "TakeFreeOffset (new_FreeOffsetSet n) = Inr (j, g)" "j < n" "elem a j \<notin> H"
      "pool_ok (shm_lookup sm w') (shm_heap sm w') n (dm_allocations m @ [a\<lparr>ca_free_offsets := g\<rparr>]) (insert (elem a j) H)"
      "pool_full n (dm_allocations m @ [a]) H \<longrightarrow> pool_full n (dm_allocations m @ [a\<lparr>ca_free_offsets := g\<rparr>]) (insert (elem a j) H)" by (auto simp: a_def)
    have "pool_full n (dm_allocations m) H \<longrightarrow> pool_full n (dm_allocations m @ [a]) H" using f(2) by (auto simp: pool_full_def a_def)
    moreover have "new_allocation sm (m, w) = Inr (Some (b, i, j), m\<lparr>dm_allocations := dm_allocations m @ [a\<lparr>ca_free_offsets := g\<rparr>]\<rparr>, w')"
      using c Some t(1) assms(3,6) by (simp add: new_allocation_def a_def)
    ultimately show ?thesis using t(2-5) bs
      by (intro disjI2 exI [of _ "a\<lparr>ca_free_offsets := g\<rparr>"] exI [of _ j] exI [of _ "dm_allocations m @ [a\<lparr>ca_free_offsets := g\<rparr>]"] exI [of _ w']) (simp add: asel)
  qed
qed

end

text \<open>The handles that go when room is made: handles that the service has deleted.\<close>

definition shrunk :: "heap \<Rightarrow> discardable_manager \<Rightarrow> discardable_manager \<Rightarrow> bool" where
  "shrunk hp m m' \<longleftrightarrow> dm_pending_handles m' = dropWhile (is_deleted hp) (dm_pending_handles m) \<and>
     (\<exists>P. dm_handles m' = filter P (dm_handles m) \<and> (\<forall>e. \<not> P e \<longrightarrow> is_deleted hp (snd e))) \<and>
     dm_element_size m' = dm_element_size m \<and> dm_elements_per_allocation m' = dm_elements_per_allocation m \<and> dm_allocation_size m' = dm_allocation_size m"

lemma shrunk_distinct:
  assumes "shrunk hp m m'" "distinct (map fst (dm_handles m))" "distinct (map snd (dm_handles m) @ dm_pending_handles m)"
  shows "distinct (map fst (dm_handles m'))" "distinct (map snd (dm_handles m') @ dm_pending_handles m')" "dm_held m' \<subseteq> dm_held m"
proof -
  obtain P where p: "dm_handles m' = filter P (dm_handles m)" "dm_pending_handles m' = dropWhile (is_deleted hp) (dm_pending_handles m)"
    using assms(1) by (auto simp: shrunk_def)
  have sub: "set (dm_handles m') \<subseteq> set (dm_handles m)" "set (dm_pending_handles m') \<subseteq> set (dm_pending_handles m)"
    using p set_dropWhileD by fastforce+
  show "distinct (map fst (dm_handles m'))" using assms(2) by (simp add: p distinct_map_filter)
  show "dm_held m' \<subseteq> dm_held m" using sub by (auto simp: dm_held_def)
  have "distinct (map snd (dm_handles m'))" using assms(3) by (simp add: p distinct_map_filter)
  moreover have "distinct (dm_pending_handles m')" using assms(3) by (simp add: p distinct_dropWhile)
  moreover have "set (map snd (dm_handles m')) \<inter> set (dm_pending_handles m') = {}" using assms(3) sub by (auto simp: disjoint_iff)
  ultimately show "distinct (map snd (dm_handles m') @ dm_pending_handles m')" by simp
qed

context memory_provider
begin

abbreviation dm_pool :: "discardable_manager \<Rightarrow> 'w \<Rightarrow> bool" where
  "dm_pool m w \<equiv> inv w \<and> dm_inv (shm_lookup sm w) (shm_heap sm w) m"

lemma CheckPending_ok:
  assumes "dm_pool m w"
  shows "\<exists>m' w'. CheckPending sm (m, w) = Inr (m', w') \<and> dm_pool m' w' \<and> dm_handles m' = dm_handles m \<and> shrunk (shm_heap sm w) m m' \<and>
    shm_heap sm w' = shm_heap sm w \<and> room w' = room w \<and> (dm_full m \<longrightarrow> dm_full m')"
proof -
  let ?n = "dm_elements_per_allocation m" and ?H = "snd ` set (dm_handles m)" and ?ps = "dm_pending_handles m"
  have i: "pool ?n (dm_allocations m) (?H \<union> set ?ps) w" "distinct ?ps" "?H \<inter> set ?ps = {}" "dm_element_size m = 4"
    using assms by (auto simp: dm_inv_def dm_held_def)
  obtain as w' where c: "check_pending sm ?ps (m, w) = Inr (m\<lparr>dm_allocations := as, dm_pending_handles := dropWhile (is_deleted (shm_heap sm w)) ?ps\<rparr>, w')"
    "pool ?n as (?H \<union> set (dropWhile (is_deleted (shm_heap sm w)) ?ps)) w'" "shm_heap sm w' = shm_heap sm w" "room w' = room w"
    "pool_full ?n (dm_allocations m) (?H \<union> set ?ps) \<longrightarrow> pool_full ?n as (?H \<union> set (dropWhile (is_deleted (shm_heap sm w)) ?ps))"
    using check_pending_ok [OF i] by blast
  let ?m = "m\<lparr>dm_allocations := as, dm_pending_handles := dropWhile (is_deleted (shm_heap sm w)) ?ps\<rparr>"
  have s: "shrunk (shm_heap sm w) m ?m" by (auto simp: shrunk_def intro!: exI [of _ "\<lambda>_. True"])
  have "distinct (map fst (dm_handles m))" "distinct (map snd (dm_handles m) @ dm_pending_handles m)" using assms by (auto simp: dm_inv_def)
  note d = shrunk_distinct [OF s this]
  have "dm_pool ?m w'" using c(2) d assms by (simp add: dm_inv_def dm_held_def)
  with c s show ?thesis by (simp add: CheckPending_def dm_full_def dm_held_def)
qed

lemma CheckDeleted_ok:
  assumes "dm_pool m w"
  shows "\<exists>b m' w'. CheckDeleted sm (m, w) = Inr (b, m', w') \<and> dm_pool m' w' \<and> dm_pending_handles m' = dm_pending_handles m \<and>
    dm_handles m' = filter (\<lambda>e. \<not> is_deleted (shm_heap sm w) (snd e)) (dm_handles m) \<and>
    dm_element_size m' = dm_element_size m \<and> dm_elements_per_allocation m' = dm_elements_per_allocation m \<and> dm_allocation_size m' = dm_allocation_size m \<and>
    shm_heap sm w' = shm_heap sm w \<and> room w' = room w \<and> (dm_full m \<longrightarrow> dm_full m')"
proof -
  let ?n = "dm_elements_per_allocation m" and ?H = "set (dm_pending_handles m)" and ?es = "dm_handles m"
  let ?keep = "filter (\<lambda>e. \<not> is_deleted (shm_heap sm w) (snd e)) ?es"
  have i: "pool ?n (dm_allocations m) (?H \<union> snd ` set ?es) w" "distinct (map snd ?es)" "?H \<inter> snd ` set ?es = {}" "dm_element_size m = 4"
    using assms by (auto simp: dm_inv_def dm_held_def Un_commute)
  obtain b as w' where c: "check_deleted sm ?es (m, w) = Inr (b, ?keep, m\<lparr>dm_allocations := as\<rparr>, w')" "pool ?n as (?H \<union> snd ` set ?keep) w'"
    "shm_heap sm w' = shm_heap sm w" "room w' = room w"
    "pool_full ?n (dm_allocations m) (?H \<union> snd ` set ?es) \<longrightarrow> pool_full ?n as (?H \<union> snd ` set ?keep)"
    using check_deleted_ok [OF i] by blast
  let ?m = "m\<lparr>dm_allocations := as, dm_handles := ?keep\<rparr>"
  have d: "distinct (map fst (dm_handles m))" "distinct (map snd (dm_handles m) @ dm_pending_handles m)" using assms by (auto simp: dm_inv_def)
  have "distinct (map fst ?keep)" using d(1) by (simp add: distinct_map_filter)
  moreover have "distinct (map snd ?keep @ dm_pending_handles m)" using d(2) by (auto simp: distinct_map_filter)
  ultimately have "dm_pool ?m w'" using c(2) assms by (simp add: dm_inv_def dm_held_def Un_commute)
  with c show ?thesis by (simp add: CheckDeleted_def dm_full_def dm_held_def Un_commute)
qed

text \<open>\<^verbatim>\<open>FindAllocation\<close> finds an element that no handle holds, or no memory.\<close>

lemma FindAllocation_ok:
  assumes "dm_pool m w" "room w"
  obtains (lost) m' w' where "FindAllocation sm (m, w) = Inr (None, m', w')" "dm_pool m' w'" "shrunk (shm_heap sm w) m m'"
      "\<exists>bs. shm_heap sm w' = shm_heap sm w @ bs" "dm_full m \<Longrightarrow> dm_full m'"
  | (found) a j m' w' where "FindAllocation sm (m, w) = Inr (Some (ca_buffer a, ca_shm_id a, j), m', w')" "elem a j \<notin> dm_held m'"
      "j < dm_elements_per_allocation m'" "pool (dm_elements_per_allocation m') (dm_allocations m') (insert (elem a j) (dm_held m')) w'"
      "shrunk (shm_heap sm w) m m'" "\<exists>bs. shm_heap sm w' = shm_heap sm w @ bs"
      "dm_full m \<Longrightarrow> pool_full (dm_elements_per_allocation m') (dm_allocations m') (insert (elem a j) (dm_held m'))"
proof -
  obtain m1 w1 where p: "CheckPending sm (m, w) = Inr (m1, w1)" "dm_pool m1 w1" "dm_handles m1 = dm_handles m" "shrunk (shm_heap sm w) m m1"
    "shm_heap sm w1 = shm_heap sm w" "room w1 = room w" "dm_full m \<Longrightarrow> dm_full m1" using CheckPending_ok [OF assms(1)] by blast
  have p1: "pool_ok (shm_lookup sm w1) (shm_heap sm w1) (dm_elements_per_allocation m1) (dm_allocations m1) (dm_held m1)" using p(2) by (simp add: dm_inv_def)
  show thesis
  proof (rule find_existing_ok [OF p1], goal_cases)
    case (2 a j as)
    then show ?thesis using p
      by (intro found [of a j "m1\<lparr>dm_allocations := as\<rparr>" w1]) (simp_all add: FindAllocation_def FindExistingAllocation_def dm_held_def dm_full_def shrunk_def)
  next
    case none: 1
    obtain b m2 w2 where d: "CheckDeleted sm (m1, w1) = Inr (b, m2, w2)" "dm_pool m2 w2" "dm_pending_handles m2 = dm_pending_handles m1"
      "dm_handles m2 = filter (\<lambda>e. \<not> is_deleted (shm_heap sm w1) (snd e)) (dm_handles m1)" "dm_element_size m2 = dm_element_size m1"
      "dm_elements_per_allocation m2 = dm_elements_per_allocation m1" "dm_allocation_size m2 = dm_allocation_size m1"
      "shm_heap sm w2 = shm_heap sm w1" "room w2 = room w1" "dm_full m1 \<Longrightarrow> dm_full m2" using CheckDeleted_ok [OF p(2)] by blast
    have sh: "shrunk (shm_heap sm w) m m2" using p(3-5) d(3-7)
      by (auto simp: shrunk_def intro!: exI [of _ "\<lambda>e. \<not> is_deleted (shm_heap sm w) (snd e)"])
    have full: "dm_full m \<Longrightarrow> dm_full m2" using p(7) d(10) by blast
    have p2: "pool_ok (shm_lookup sm w2) (shm_heap sm w2) (dm_elements_per_allocation m2) (dm_allocations m2) (dm_held m2)" using d(2) by (simp add: dm_inv_def)
    have heap: "shm_heap sm w2 = shm_heap sm w" using d(8) p(5) by simp
    have fe: "FindExistingAllocation m1 = Inr (None, m1)" using none by (simp add: FindExistingAllocation_def)
    have last_try: thesis if f: "FindAllocation sm (m, w) = new_allocation sm (m2, w2)"
    proof -
      have "room w2" using p(6) d(9) assms(2) by simp
      note n = new_allocation_ok [where n = "dm_elements_per_allocation m2" and m = m2 and H = "dm_held m2" and w = w2, OF _ this]
      consider w' where "new_allocation sm (m2, w2) = Inr (None, m2, w')" "pool (dm_elements_per_allocation m2) (dm_allocations m2) (dm_held m2) w'"
          "\<exists>bs. shm_heap sm w' = shm_heap sm w2 @ bs"
        | a j as w' where "new_allocation sm (m2, w2) = Inr (Some (ca_buffer a, ca_shm_id a, j), m2\<lparr>dm_allocations := as\<rparr>, w')"
          "j < dm_elements_per_allocation m2" "elem a j \<notin> dm_held m2" "pool (dm_elements_per_allocation m2) as (insert (elem a j) (dm_held m2)) w'"
          "\<exists>bs. shm_heap sm w' = shm_heap sm w2 @ bs"
          "pool_full (dm_elements_per_allocation m2) (dm_allocations m2) (dm_held m2) \<longrightarrow> pool_full (dm_elements_per_allocation m2) as (insert (elem a j) (dm_held m2))"
        using n d(2) by (auto simp: dm_inv_def)
      then show thesis
      proof cases
        case (1 w')
        have q: "FindAllocation sm (m, w) = Inr (None, m2, w')" "dm_pool m2 w'" "\<exists>bs. shm_heap sm w' = shm_heap sm w @ bs"
          using 1 f heap d(2) by (simp_all add: dm_inv_def)
        show ?thesis by (rule lost [OF q(1,2) sh q(3) full])
      next
        case (2 a j as w')
        then show ?thesis using f sh heap full
          by (intro found [of a j "m2\<lparr>dm_allocations := as\<rparr>" w']) (simp_all add: dm_held_def dm_full_def shrunk_def)
      qed
    qed
    show ?thesis
    proof (cases b)
      case False
      then show ?thesis using last_try p(1) fe d(1) by (simp add: FindAllocation_def)
    next
      case True
      show ?thesis
      proof (rule find_existing_ok [OF p2], goal_cases)
        case (2 a j as)
        then show ?thesis using True p(1) fe d(1) sh heap full d(2)
          by (intro found [of a j "m2\<lparr>dm_allocations := as\<rparr>" w2]) (simp_all add: FindAllocation_def FindExistingAllocation_def dm_held_def dm_full_def shrunk_def)
      next
        case 1
        then show ?thesis using last_try True p(1) fe d(1) by (simp add: FindAllocation_def FindExistingAllocation_def)
      qed
    qed
  qed
qed

end

text \<open>
  \<^verbatim>\<open>CreateHandle\<close>: the new handle is locked once, is none of the handles that are held, and no held handle changes
  its value.
\<close>

lemma dm_inv_shape:
  assumes "dm_inv look hp m" "map length hp' = map length hp"
  shows "dm_inv look hp' m"
  using assms pool_ok_memory [of look hp "dm_elements_per_allocation m" "dm_allocations m" "dm_held m" look hp'] buffer_ok_shape [OF assms(2)]
  by (simp add: dm_inv_def)

lemma pool_holds:
  assumes "pool_ok look hp n as H" "h \<in> H"
  obtains a j v where "a \<in> set as" "j < n" "h = elem a j" "holds hp h (place_of a j) v"
proof -
  obtain a j where a: "a \<in> set as" "j < n" "h = elem a j" "handle_at hp h (place_of a j)" using pool_ok_held [OF assms] by blast
  have "- (2 ^ 31) \<le> atomic_load hp (place_of a j) \<and> atomic_load hp (place_of a j) < 2 ^ 31"
    using mod_less_divisor [of "2 ^ 32" "LoadU32Unaligned (read_bytes hp (place_of a j) 4)"] by (auto simp: atomic_load_def i32_of_u32_def)
  with a that show ?thesis by (simp add: holds_def)
qed

lemma pool_apart:
  assumes "pool_ok look hp n as H" "g \<in> H" "h \<in> H" "g \<noteq> h" "holds hp g p u" "holds hp h q v"
  shows "words_apart p q"
proof -
  obtain a i where a: "a \<in> set as" "g = elem a i" "handle_at hp g (place_of a i)" using pool_ok_held [OF assms(1,2)] by blast
  obtain b j where b: "b \<in> set as" "h = elem b j" "handle_at hp h (place_of b j)" using pool_ok_held [OF assms(1,3)] by blast
  have "p = place_of a i" "q = place_of b j" using a(3) b(3) assms(5,6) by (auto simp: holds_def handle_at_def)
  with places_apart [OF assms(1) a(1) b(1)] a(2) b(2) assms(4) show ?thesis by simp
qed

context memory_provider
begin

lemma CreateHandle_ok:
  assumes "dm_pool m w" "room w" "map_of (dm_handles m) i = None" "0 < i"
  obtains (lost) m' w' where "CreateHandle sm i (m, w) = Inr (0, m', w')" "dm_pool m' w'" "shrunk (shm_heap sm w) m m'"
      "\<exists>bs. shm_heap sm w' = shm_heap sm w @ bs" "dm_full m \<Longrightarrow> dm_full m'"
  | (made) h p bs m1 m' w' where "CreateHandle sm i (m, w) = Inr (i, m', w')" "dm_pool m' w'" "shrunk (shm_heap sm w) m m1"
      "m' = m1\<lparr>dm_handles := insort_key fst (i, h) (dm_handles m1)\<rparr>" "h \<notin> dm_held m1" "ClientDiscardableHandle_IsValid h"
      "holds (shm_heap sm w') h p 2" "stored (shm_heap sm w @ bs) p 2 (shm_heap sm w')" "dm_full m \<Longrightarrow> dm_full m'"
proof -
  show thesis
  proof (rule FindAllocation_ok [OF assms(1,2)], goal_cases)
  case (1 m' w')
  then show ?case by (intro lost [of m' w']) (simp_all add: CreateHandle_def)
next
  case (2 a j m1 w1)
  let ?n = "dm_elements_per_allocation m1" and ?hp = "shm_heap sm w1"
  obtain bs where bs: "?hp = shm_heap sm w @ bs" using 2(6) by blast
  have p: "pool_ok (shm_lookup sm w1) ?hp ?n (dm_allocations m1) (insert (elem a j) (dm_held m1))" and inv1: "inv w1" using 2(4) by auto
  obtain b k where b: "b \<in> set (dm_allocations m1)" "k < ?n" "elem a j = elem b k" "handle_at ?hp (elem a j) (place_of b k)"
    using pool_ok_held [OF p insertI1] by blast
  have ab: "alloc_ok (shm_lookup sm w1) ?hp ?n b" using p b(1) by (simp add: pool_ok_def)
  have m1: "dm_element_size m1 = 4" "?n = dm_elements_per_allocation m" "dm_allocation_size m1 = dm_allocation_size m" and m0: "dm_element_size m = 4"
    "0 < ?n" "4 * ?n \<le> dm_allocation_size m1" "dm_allocation_size m1 < 2 ^ 32" "distinct (map fst (dm_handles m))" "distinct (map snd (dm_handles m) @ dm_pending_handles m)"
    using 2(5) assms(1) by (auto simp: shrunk_def dm_inv_def)
  note d = shrunk_distinct [OF 2(5) m0(5,6)]
  have small: "j * 4 < 2 ^ 32" using 2(3) m0(3,4) by simp
  have h: "elem a j = new_DiscardableHandle (Some (ca_buffer a)) (j * 4) (ca_shm_id a)" by (simp add: elem_def mult.commute)
  obtain hp' where n: "new_ClientDiscardableHandle (Some (ca_buffer a)) (j * 4) (ca_shm_id a) ?hp = Inr (elem a j, hp')" "stored ?hp (place_of b k) 2 hp'"
    using new_handle_ok [of ?hp "Some (ca_buffer a)" "j * 4" "ca_shm_id a" "place_of b k"] b(4) h by auto
  have shape: "map length hp' = map length ?hp" using n(2) by (simp add: stored_def)
  have none: "map_of (dm_handles m1) i = None" using assms(3) 2(5) by (auto simp: shrunk_def map_of_eq_None_iff)
  define m' where "m' = m1\<lparr>dm_handles := insort_key fst (i, elem a j) (dm_handles m1)\<rparr>"
  have held: "dm_held m' = insert (elem a j) (dm_held m1)" by (auto simp: dm_held_def m'_def set_insort_key)
  have c: "CreateHandle sm i (m, w) = Inr (i, m', shm_put sm hp' w1)"
    using 2(1) small n(1) none m1(1) by (simp add: CreateHandle_def m'_def)
  note put' = put [OF inv1 shape]
  have "mset (map fst (dm_handles m')) = mset (i # map fst (dm_handles m1))" by (simp add: m'_def mset_insort)
  then have "distinct (map fst (dm_handles m')) = distinct (i # map fst (dm_handles m1))" by (rule mset_eq_imp_distinct_iff)
  then have "distinct (map fst (dm_handles m'))" using d(1) none by (simp add: map_of_eq_None_iff)
  moreover have "distinct (map snd (dm_handles m') @ dm_pending_handles m')"
  proof -
    have "mset (map snd (dm_handles m')) = mset (elem a j # map snd (dm_handles m1))" by (simp add: m'_def mset_insort)
    then have "distinct (map snd (dm_handles m')) = distinct (elem a j # map snd (dm_handles m1))" by (rule mset_eq_imp_distinct_iff)
    then show ?thesis using d(2) 2(2) by (auto simp: m'_def dm_held_def set_insort_key)
  qed
  moreover have "pool_ok (shm_lookup sm (shm_put sm hp' w1)) hp' ?n (dm_allocations m1) (insert (elem a j) (dm_held m1))"
    using put' pool_ok_memory [OF p, of "shm_lookup sm w1" hp'] buffer_ok_shape [OF shape] by simp
  ultimately have inv': "dm_pool m' (shm_put sm hp' w1)" using put' m0 m1 held by (simp add: dm_inv_def m'_def)
  have "holds hp' (elem a j) (place_of b k) 2"
    using n(2) b(4) handle_at_shape [OF shape, of "elem a j" "place_of b k"] by (simp add: holds_def stored_def)
  moreover have "ClientDiscardableHandle_IsValid (elem a j)"
    using elem_shm_id [OF ab, of k] ab by (simp add: ClientDiscardableHandle_IsValid_def b(3) alloc_ok_def)
  moreover have "dm_full m \<Longrightarrow> dm_full m'" using 2(7) held by (simp add: dm_full_def m'_def)
  ultimately show ?case using made [OF c inv' 2(5) m'_def 2(2)] put' n(2) bs by simp
  qed
qed

end

lemma dm_handle_held: "map_of (dm_handles m) i = Some h \<Longrightarrow> h \<in> dm_held m"
  by (force simp: dm_held_def dest: map_of_SomeD)

lemma value_unique:
  assumes "distinct (map snd es)" "(i, h) \<in> set es" "e \<in> set es" "snd e = h"
  shows "e = (i, h)"
proof -
  have "inj_on snd (set es)" using assms(1) by (simp add: distinct_map)
  from inj_onD [OF this, of e "(i, h)"] assms show ?thesis by simp
qed

context memory_provider
begin

lemma LockHandle_ok:
  assumes "dm_pool m w" "map_of (dm_handles m) i = Some h" "holds (shm_heap sm w) h p v" "v + 1 < 2 ^ 31"
  shows "\<exists>w'. LockHandle sm i (m, w) = Inr (v \<noteq> 0, m, w') \<and> dm_pool m w' \<and> stored (shm_heap sm w) p (if v = 0 then 0 else v + 1) (shm_heap sm w')"
proof -
  obtain hp where l: "ClientDiscardableHandle_Lock h (shm_heap sm w) = Inr (v \<noteq> 0, hp)" "stored (shm_heap sm w) p (if v = 0 then 0 else v + 1) hp"
    using Lock_ok [OF assms(3,4)] by blast
  have shape: "map length hp = map length (shm_heap sm w)" using l(2) by (simp add: stored_def)
  note q = put [OF _ shape]
  have "dm_pool m (shm_put sm hp w)" using q assms(1) dm_inv_shape [OF _ shape] by simp
  with l q assms(1,2) show ?thesis by (simp add: LockHandle_def)
qed

end

lemma FreeHandle_ok:
  assumes "dm_inv look hp m"
  shows "dm_inv look hp (FreeHandle i m)" "dm_held (FreeHandle i m) = dm_held m" "dm_full (FreeHandle i m) = dm_full m"
proof -
  have "dm_held (FreeHandle i m) = dm_held m \<and> distinct (map fst (dm_handles (FreeHandle i m))) \<and>
    distinct (map snd (dm_handles (FreeHandle i m)) @ dm_pending_handles (FreeHandle i m)) \<and> dm_allocations (FreeHandle i m) = dm_allocations m \<and>
    dm_element_size (FreeHandle i m) = dm_element_size m \<and> dm_elements_per_allocation (FreeHandle i m) = dm_elements_per_allocation m \<and>
    dm_allocation_size (FreeHandle i m) = dm_allocation_size m"
  proof (cases "map_of (dm_handles m) i")
    case None
    then show ?thesis using assms by (simp add: FreeHandle_def dm_inv_def)
  next
    case (Some h)
    have d: "distinct (map fst (dm_handles m))" "distinct (map snd (dm_handles m) @ dm_pending_handles m)" using assms by (auto simp: dm_inv_def)
    have i: "(i, h) \<in> set (dm_handles m)" using Some by (rule map_of_SomeD)
    have rest: "e \<in> set (dm_handles m) \<Longrightarrow> fst e = i \<Longrightarrow> e = (i, h)" for e using d(1) i by (metis eq_key_imp_eq_value prod.collapse)
    have other: "e \<in> set (dm_handles m) \<Longrightarrow> snd e = h \<Longrightarrow> e = (i, h)" for e using d(2) value_unique [OF _ i] by simp
    have "set (dm_handles m) = insert (i, h) (set (filter (\<lambda>e. fst e \<noteq> i) (dm_handles m)))" unfolding set_filter using i rest by blast
    then have "snd ` set (dm_handles m) = insert h (snd ` set (filter (\<lambda>e. fst e \<noteq> i) (dm_handles m)))" by (metis image_insert snd_conv)
    then have "dm_held (FreeHandle i m) = dm_held m" using Some by (auto simp: FreeHandle_def dm_held_def)
    moreover have "h \<notin> snd ` set (filter (\<lambda>e. fst e \<noteq> i) (dm_handles m))" using other by fastforce
    moreover have "h \<in> snd ` set (dm_handles m)" using i by (metis image_eqI snd_conv)
    then have "h \<notin> set (dm_pending_handles m)" using d(2) by auto
    moreover have "distinct (map snd (filter (\<lambda>e. fst e \<noteq> i) (dm_handles m)))" using d(2) by (simp add: distinct_map_filter)
    moreover have "snd ` set (filter (\<lambda>e. fst e \<noteq> i) (dm_handles m)) \<inter> set (dm_pending_handles m) = {}" using d(2) by auto
    ultimately show ?thesis using Some d by (simp add: FreeHandle_def distinct_map_filter)
  qed
  then show "dm_inv look hp (FreeHandle i m)" "dm_held (FreeHandle i m) = dm_held m" "dm_full (FreeHandle i m) = dm_full m"
    using assms by (simp_all add: dm_inv_def dm_full_def)
qed

text \<open>\<^verbatim>\<open>HandleIsDeleted\<close> forgets a handle without giving its element back: nobody holds the element, and it is not free.\<close>

lemma HandleIsDeleted_leaks:
  assumes "dm_inv look hp m" "map_of (dm_handles m) i = Some h" "is_deleted hp h"
  shows "\<exists>m' a j. HandleIsDeleted i hp m = Inr (True, m') \<and> a \<in> set (dm_allocations m') \<and> j < dm_elements_per_allocation m' \<and> h = elem a j \<and>
    j \<notin> fo_members (ca_free_offsets a) \<and> h \<notin> dm_held m' \<and> dm_inv look hp m' \<and> \<not> dm_full m'"
proof -
  let ?es = "filter (\<lambda>e. fst e \<noteq> i) (dm_handles m)"
  let ?m = "m\<lparr>dm_handles := ?es\<rparr>"
  have p: "pool_ok look hp (dm_elements_per_allocation m) (dm_allocations m) (dm_held m)" using assms(1) by (simp add: dm_inv_def)
  have hh: "h \<in> dm_held m" by (rule dm_handle_held [OF assms(2)])
  obtain a j where a: "a \<in> set (dm_allocations m)" "j < dm_elements_per_allocation m" "h = elem a j" "j \<notin> fo_members (ca_free_offsets a)"
    using pool_ok_held [OF p hh] by blast
  have d: "distinct (map snd (dm_handles m) @ dm_pending_handles m)" "distinct (map fst (dm_handles m))" using assms(1) by (auto simp: dm_inv_def)
  have i: "(i, h) \<in> set (dm_handles m)" using assms(2) by (rule map_of_SomeD)
  have "e \<in> set (dm_handles m) \<Longrightarrow> snd e = h \<Longrightarrow> e = (i, h)" for e using d(1) value_unique [OF _ i] by simp
  then have "h \<notin> snd ` set ?es" by fastforce
  moreover have "h \<in> snd ` set (dm_handles m)" using i by (metis image_eqI snd_conv)
  then have "h \<notin> set (dm_pending_handles m)" using d(1) by auto
  ultimately have gone: "h \<notin> dm_held ?m" by (simp add: dm_held_def)
  have r: "HandleIsDeleted i hp m = Inr (True, ?m)" using assms(2,3) held_reuse [OF p hh] by (simp add: HandleIsDeleted_def)
  have sub: "dm_held ?m \<subseteq> dm_held m" by (auto simp: dm_held_def)
  have "distinct (map snd ?es @ dm_pending_handles m)" using d(1) by (auto simp: distinct_map_filter)
  then have "dm_inv look hp ?m" using assms(1) d(2) pool_ok_mono [OF p sub] by (simp add: dm_inv_def distinct_map_filter)
  moreover have "\<not> dm_full ?m" using a gone by (auto simp: dm_full_def pool_full_def)
  ultimately show ?thesis using r a gone by (intro exI [of _ ?m] exI [of _ a] exI [of _ j]) simp
qed

end
