(* ===== verification/Discardable_Memory.thy ===== *)
theory Discardable_Memory
  imports Client_Discardable Helper_Space
begin

text \<open>
  The client's discardable handles over \<^verbatim>\<open>CommandBufferDirect\<close>: its transfer buffers are the memory that the manager of \<open>Client_Discardable\<close>
  asks for.
\<close>

definition direct_memory :: "'x dworld shared_memory" where
  "direct_memory =
     \<lparr>shm_Create = Direct_CreateTransferBuffer, shm_Destroy = Direct_DestroyTransferBuffer, shm_lookup = (\<lambda>w i. Service_GetTransferBuffer i (fst w)),
      shm_heap = (\<lambda>w. sv_heap (fst w)), shm_put = (\<lambda>hp w. ((fst w)\<lparr>sv_heap := hp\<rparr>, snd w))\<rparr>"

lemma direct_memory_simps [simp]:
  "shm_Create direct_memory = Direct_CreateTransferBuffer" "shm_Destroy direct_memory = Direct_DestroyTransferBuffer"
  "shm_lookup direct_memory w = (\<lambda>i. Service_GetTransferBuffer i (fst w))" "shm_heap direct_memory w = sv_heap (fst w)"
  "shm_put direct_memory hp w = ((fst w)\<lparr>sv_heap := hp\<rparr>, snd w)"
  by (simp_all add: direct_memory_def)

text \<open>The service keeps its invariant; ids count up from one and have room until they reach the end of their type.\<close>

definition direct_ok :: "'x dworld \<Rightarrow> bool" where
  "direct_ok w \<longleftrightarrow> sv_inv (fst w) \<and> error_ok (fst w)"

definition id_left :: "'x dworld \<Rightarrow> bool" where
  "id_left w \<longleftrightarrow> sv_next_buffer_id (fst w) + 1 < 2 ^ 31"

lemma create_registers:
  fixes w :: "'x dworld"
  assumes "Direct_CreateTransferBuffer sz w = (bo, bid, w')"
  shows "case bo of
      None \<Rightarrow> sv_tbm (fst w') = sv_tbm (fst w)
    | Some b \<Rightarrow> bid = sv_next_buffer_id (fst w) + 1 \<and> Service_GetTransferBuffer bid (fst w) = None"
  using assms
  by (auto simp: Direct_CreateTransferBuffer_def Service_CreateTransferBuffer_def GetNextBufferId_def Service_CreateTransferBufferWithId_def
      MakeMemoryBuffer_def Service_RegisterTransferBuffer_def TransferBufferManager_RegisterTransferBuffer_def Service_SetParseError_def
      Service_GetTransferBuffer_def TransferBufferManager_GetTransferBuffer_def Direct_client_def Direct_OnParseError_def split: if_splits option.splits)

lemma direct_create:
  fixes w :: "'x dworld"
  assumes "direct_ok w" "id_left w" "sz < 2 ^ 32" "Direct_CreateTransferBuffer sz w = (bo, i, w')"
  shows "direct_ok w' \<and> (\<exists>bs. sv_heap (fst w') = sv_heap (fst w) @ bs) \<and>
    (case bo of
       None \<Rightarrow> (\<lambda>k. Service_GetTransferBuffer k (fst w')) = (\<lambda>k. Service_GetTransferBuffer k (fst w))
     | Some b \<Rightarrow> 0 < i \<and> i < 2 ^ 31 \<and> Service_GetTransferBuffer i (fst w) = None \<and>
         (\<lambda>k. Service_GetTransferBuffer k (fst w')) = (\<lambda>k. Service_GetTransferBuffer k (fst w))(i \<mapsto> b) \<and>
         buf_size b = sz \<and> buf_memory b = length (sv_heap (fst w)))"
proof -
  have ok: "sv_inv (fst w)" "error_ok (fst w)" using assms(1) by (simp_all add: direct_ok_def)
  show ?thesis
  proof (rule Direct_CreateTransferBuffer_cases [OF assms(4) ok assms(3)], goal_cases)
    case (1 b)
    then show ?case using create_registers [OF assms(4)] assms(2) by (auto simp: direct_ok_def id_left_def grown_def)
  next
    case 2
    then show ?case using create_registers [OF assms(4)] by (auto simp: direct_ok_def grown_def Service_GetTransferBuffer_def)
  qed
qed

lemma direct_destroy:
  fixes w :: "'x dworld"
  assumes "direct_ok w"
  shows "\<exists>w'. Direct_DestroyTransferBuffer i w = Inr w' \<and> direct_ok w' \<and> id_left w' = id_left w \<and> sv_heap (fst w') = sv_heap (fst w) \<and>
    (\<lambda>k. Service_GetTransferBuffer k (fst w')) = (\<lambda>k. Service_GetTransferBuffer k (fst w))(i := None)"
proof -
  have ok: "sv_inv (fst w)" "error_ok (fst w)" "tbm_inv (sv_tbm (fst w))" using assms by (auto simp: direct_ok_def sv_inv_def registry_ok_def)
  obtain s' where s': "Service_DestroyTransferBuffer i (fst w) = Inr s'" "sv_inv s'" using DestroyTransferBuffer_inv [OF ok(1)] by blast
  obtain m where m: "TransferBufferManager_DestroyTransferBuffer i (sv_tbm (fst w)) = Inr m"
    "\<And>k. TransferBufferManager_GetTransferBuffer k m = (if k = i then None else TransferBufferManager_GetTransferBuffer k (sv_tbm (fst w)))"
    using DestroyTransferBuffer_spec [OF ok(3), of i] by blast
  have "s' = (fst w)\<lparr>sv_tbm := m\<rparr>" using s'(1) m(1) by (simp add: Service_DestroyTransferBuffer_def)
  with s' ok(2) m(2) show ?thesis
    by (auto simp: Direct_DestroyTransferBuffer_def direct_ok_def id_left_def error_ok_def Service_GetTransferBuffer_def fun_eq_iff)
qed

interpretation dmem: memory_provider "direct_memory :: 'x dworld shared_memory" direct_ok id_left
proof (unfold_locales, goal_cases)
  case (1 w sz bo i w')
  then show ?case using direct_create [of w sz bo i w'] by (simp split: option.splits)
next
  case (2 w i b)
  then show ?case by (auto simp: direct_ok_def sv_inv_def intro: GetTransferBuffer_ok)
next
  case (3 w i)
  then show ?case using direct_destroy [of w i] by simp
next
  case (4 w hp)
  then have "sv_frame (fst w) ((fst w)\<lparr>sv_heap := hp\<rparr>)" by (simp add: sv_frame_def)
  with 4 show ?case using sv_inv_frame by (auto simp: direct_ok_def error_ok_def Service_GetTransferBuffer_def)
qed
section \<open>The manager over the direct command buffer\<close>

definition manager_ok :: "discardable_manager \<Rightarrow> 'x dworld \<Rightarrow> bool" where
  "manager_ok m w \<longleftrightarrow> direct_ok w \<and> dm_inv (\<lambda>i. Service_GetTransferBuffer i (fst w)) (sv_heap (fst w)) m"

lemma new_manager_ok: "direct_ok w \<Longrightarrow> AllocationSize n < 2 ^ 32 \<Longrightarrow> manager_ok (new_ClientDiscardableManager n) w"
  by (simp add: manager_ok_def new_ClientDiscardableManager_def Let_def dm_inv_def dm_held_def pool_ok_def AllocationSize_def)

text \<open>
  What a new handle is: valid, at the value of a handle locked once, and at a place that no other handle has; no other handle has changed.
\<close>

definition new_handle_in :: "u32 \<Rightarrow> discardable_handle \<Rightarrow> discardable_manager \<Rightarrow> heap \<Rightarrow> heap \<Rightarrow> bool" where
  "new_handle_in i h m hp hp' \<longleftrightarrow> map_of (dm_handles m) i = Some h \<and> ClientDiscardableHandle_IsValid h \<and> handle_load h hp' = Inr 2 \<and>
     (\<forall>g \<in> dm_held m. g \<noteq> h \<longrightarrow> handle_load g hp' = handle_load g hp)"

lemma load_old_block:
  assumes "fst p < length hp"
  shows "atomic_load (hp @ bs) p = atomic_load hp p"
  using assms by (simp add: atomic_load_def read_bytes_def nth_append)

lemma shrunk_held:
  assumes "shrunk hp m m1"
  shows "dm_held m1 \<subseteq> dm_held m"
proof -
  obtain P where "dm_handles m1 = filter P (dm_handles m)" "dm_pending_handles m1 = dropWhile (is_deleted hp) (dm_pending_handles m)"
    using assms unfolding shrunk_def by blast
  then show ?thesis using set_dropWhileD [of _ "is_deleted hp" "dm_pending_handles m"] by (auto simp: dm_held_def)
qed

lemma CreateHandle_direct:
  fixes w :: "'x dworld"
  assumes ok: "manager_ok m w" and id: "id_left w" and i: "map_of (dm_handles m) i = None" "0 < i"
  shows "\<exists>j m' w'. CreateHandle direct_memory i (m, w) = Inr (j, m', w') \<and> manager_ok m' w' \<and>
    (j = 0 \<or> j = i \<and> (\<exists>h. new_handle_in i h m' (sv_heap (fst w)) (sv_heap (fst w'))))"
proof -
  have pool: "direct_ok w" "dm_inv (shm_lookup direct_memory w) (shm_heap direct_memory w) m" using ok by (simp_all add: manager_ok_def)
  show ?thesis
  proof (rule dmem.CreateHandle_ok [of w m i], goal_cases)
    case (5 m' w')
    then show ?thesis by (auto simp: manager_ok_def)
  next
    case (6 h p bs m1 m' w')
    have ok': "manager_ok m' w'" using 6 by (simp add: manager_ok_def)
    let ?hp = "sv_heap (fst w)" and ?hp' = "sv_heap (fst w')"
    have inv': "dm_inv (\<lambda>k. Service_GetTransferBuffer k (fst w')) ?hp' m'" using ok' by (simp add: manager_ok_def)
    then have pool': "pool_ok (\<lambda>k. Service_GetTransferBuffer k (fst w')) ?hp' (dm_elements_per_allocation m') (dm_allocations m') (dm_held m')"
      and d: "distinct (map fst (dm_handles m'))" by (simp_all add: dm_inv_def)
    have held: "dm_held m' = insert h (dm_held m1)" using 6(4) by (auto simp: dm_held_def set_insort_key)
    have sub: "dm_held m1 \<subseteq> dm_held m" by (rule shrunk_held [OF 6(3)])
    have h: "holds ?hp' h p 2" using 6(7) by simp
    have "(i, h) \<in> set (dm_handles m')" using 6(4) by (simp add: set_insort_key)
    then have "map_of (dm_handles m') i = Some h" using d by simp
    moreover have "handle_load g ?hp' = handle_load g ?hp" if g: "g \<in> dm_held m'" "g \<noteq> h" for g
    proof -
      obtain q v where q: "holds ?hp' g q v" by (rule pool_holds [OF pool' g(1)])
      have "words_apart p q" using pool_apart [OF pool' _ g(1) _ h q] held g(2) by blast
      then have new: "atomic_load ?hp' q = atomic_load (?hp @ bs) q" using 6(8) unfolding stored_def direct_memory_simps by blast
      have "g \<in> dm_held m" using g held sub by blast
      moreover have "pool_ok (\<lambda>k. Service_GetTransferBuffer k (fst w)) ?hp (dm_elements_per_allocation m) (dm_allocations m) (dm_held m)"
        using ok by (simp add: manager_ok_def dm_inv_def)
      ultimately obtain q' v' where q': "holds ?hp g q' v'" by (meson pool_holds)
      have "q' = q" using holds_at [OF q] holds_at [OF q'] by simp
      then have "fst q < length ?hp" using q' by (simp add: holds_def handle_at_def)
      then show ?thesis using new load_old_block [of q ?hp bs] load_ops(1) [OF q] load_ops(1) [OF q'] q q' \<open>q' = q\<close> by (simp add: holds_def)
    qed
    ultimately have "new_handle_in i h m' ?hp ?hp'" using 6(6) load_ops(1) [OF h] unfolding new_handle_in_def by blast
    then show ?thesis using 6(1) ok' by blast
  qed (use pool id i in simp_all)
qed
lemma LockHandle_direct:
  fixes w :: "'x dworld"
  assumes ok: "manager_ok m w" and h: "map_of (dm_handles m) i = Some h" "handle_load h (sv_heap (fst w)) = Inr v" "v + 1 < 2 ^ 31"
  shows "\<exists>w'. LockHandle direct_memory i (m, w) = Inr (v \<noteq> 0, m, w') \<and> manager_ok m w' \<and>
    handle_load h (sv_heap (fst w')) = Inr (if v = 0 then 0 else v + 1)"
proof -
  have pool: "pool_ok (\<lambda>k. Service_GetTransferBuffer k (fst w)) (sv_heap (fst w)) (dm_elements_per_allocation m) (dm_allocations m) (dm_held m)"
    using ok by (simp add: manager_ok_def dm_inv_def)
  obtain p u where p: "holds (sv_heap (fst w)) h p u" by (rule pool_holds [OF pool dm_handle_held [OF h(1)]])
  have u: "u = v" using load_ops(1) [OF p] h(2) by simp
  have all: "direct_ok w \<and> dm_inv (shm_lookup direct_memory w) (shm_heap direct_memory w) m" using ok by (simp add: manager_ok_def)
  have p': "holds (shm_heap direct_memory w) h p v" using p u by simp
  obtain w' where w': "LockHandle direct_memory i (m, w) = Inr (v \<noteq> 0, m, w')" "direct_ok w' \<and> dm_inv (shm_lookup direct_memory w') (shm_heap direct_memory w') m"
    "stored (shm_heap direct_memory w) p (if v = 0 then 0 else v + 1) (shm_heap direct_memory w')"
    using dmem.LockHandle_ok [OF all h(1) p' h(3)] by blast
  have "holds (shm_heap direct_memory w') h p (if v = 0 then 0 else v + 1)"
    by (rule holds_stored [OF p' w'(3)]) (use p' h(3) in \<open>auto simp: holds_def\<close>)
  then have "handle_load h (sv_heap (fst w')) = Inr (if v = 0 then 0 else v + 1)" by (metis direct_memory_simps(4) load_ops(1))
  moreover have "manager_ok m w'" using w'(2) by (simp add: manager_ok_def)
  ultimately show ?thesis using w'(1) by blast
qed

lemma FreeHandle_direct: "manager_ok m w \<Longrightarrow> manager_ok (FreeHandle i m) w"
  using FreeHandle_ok(1) by (simp add: manager_ok_def)

lemma HandleIsDeleted_direct:
  assumes "manager_ok m w"
  shows "\<exists>b m'. HandleIsDeleted i (sv_heap (fst w)) m = Inr (b, m') \<and> manager_ok m' w"
proof (cases "map_of (dm_handles m) i")
  case None
  then have "HandleIsDeleted i (sv_heap (fst w)) m = Inr (True, m)" by (simp add: HandleIsDeleted_def)
  with assms show ?thesis by blast
next
  case (Some h)
  have inv: "dm_inv (\<lambda>k. Service_GetTransferBuffer k (fst w)) (sv_heap (fst w)) m" using assms by (simp add: manager_ok_def)
  then have pool: "pool_ok (\<lambda>k. Service_GetTransferBuffer k (fst w)) (sv_heap (fst w)) (dm_elements_per_allocation m) (dm_allocations m) (dm_held m)"
    by (simp add: dm_inv_def)
  show ?thesis
  proof (cases "is_deleted (sv_heap (fst w)) h")
    case True
    then show ?thesis using HandleIsDeleted_leaks [OF inv Some] assms unfolding manager_ok_def by blast
  next
    case False
    then show ?thesis using Some held_reuse [OF pool dm_handle_held [OF Some]] assms by (auto simp: HandleIsDeleted_def)
  qed
qed

end
