(* ===== verification/Service_Discardable.thy ===== *)
theory Service_Discardable
  imports Discardable_Handle "HOL-Library.AList"
begin

text \<open>
  \<^verbatim>\<open>gpu/command_buffer/service/service_discardable_manager.{h,cc}\<close>, with the functions of \<^verbatim>\<open>texture_manager.cc\<close> and \<^verbatim>\<open>gles2_cmd_decoder.cc\<close> that it
  works with: the service's cache of textures that the client may lose when it does not hold them locked.

  A texture manager is known by a value of an arbitrary type and is the map of its textures. Of a texture its client id is
  modelled; its other holders, the bindings, are not. The cache is a \<^verbatim>\<open>base::LRUCache\<close>, which is not part of the sources: a list of its items, the most recent first, and
  operations on it that are an argument.
\<close>

section \<open>Data\<close>

record ('k, 'v) lru_ops =
  lru_Get :: "'k \<Rightarrow> ('k \<times> 'v) list \<Rightarrow> ('k \<times> 'v) list"
  lru_Put :: "'k \<Rightarrow> 'v \<Rightarrow> ('k \<times> 'v) list \<Rightarrow> ('k \<times> 'v) list"
  lru_Erase :: "'k \<Rightarrow> ('k \<times> 'v) list \<Rightarrow> ('k \<times> 'v) list"

text \<open>
  Its documentation: \<^verbatim>\<open>Get\<close> moves the item to the front, \<^verbatim>\<open>Put\<close> replaces or inserts at the front, \<^verbatim>\<open>Erase\<close> removes. (\<^verbatim>\<open>Peek\<close> finds
  the item and moves nothing, which is \<open>map_of\<close>.)
\<close>

definition lru_ok :: "('k, 'v) lru_ops \<Rightarrow> bool" where
  "lru_ok c \<longleftrightarrow> (\<forall>k es. lru_Get c k es = (case map_of es k of None \<Rightarrow> es | Some v \<Rightarrow> (k, v) # AList.delete k es)) \<and>
     (\<forall>k v es. lru_Put c k v es = (k, v) # AList.delete k es) \<and> (\<forall>k es. lru_Erase c k es = AList.delete k es)"

record texture_ref =
  tref_client_id :: u32
  tref_name :: nat

record discardable_entry =
  gde_handle :: discardable_handle
  gde_unlocked_texture_ref :: "texture_ref option"
  gde_service_ref_count :: u32
  gde_size :: u64

type_synonym 'm entry_key = "u32 \<times> 'm"

record 'm service_discardables =
  sd_entries :: "('m entry_key \<times> discardable_entry) list"
  sd_total_size :: u64
  sd_cache_size_limit :: u64

record 'm texture_world =
  tw_discardables :: "'m service_discardables"
  tw_textures :: "'m \<Rightarrow> u32 \<rightharpoonup> texture_ref"
  tw_heap :: heap

type_synonym 'm entry_cache = "('m entry_key, discardable_entry) lru_ops"

abbreviation put_entries :: "('m entry_key \<times> discardable_entry) list \<Rightarrow> 'm texture_world \<Rightarrow> 'm texture_world" where
  "put_entries es W \<equiv> W\<lparr>tw_discardables := (tw_discardables W)\<lparr>sd_entries := es\<rparr>\<rparr>"

abbreviation put_total :: "u64 \<Rightarrow> 'm texture_world \<Rightarrow> 'm texture_world" where
  "put_total n W \<equiv> W\<lparr>tw_discardables := (tw_discardables W)\<lparr>sd_total_size := n\<rparr>\<rparr>"

abbreviation entries_of :: "'m texture_world \<Rightarrow> ('m entry_key \<times> discardable_entry) list" where
  "entries_of W \<equiv> sd_entries (tw_discardables W)"

abbreviation total_of :: "'m texture_world \<Rightarrow> u64" where
  "total_of W \<equiv> sd_total_size (tw_discardables W)"

section \<open>Limits\<close>

text \<open>The platform, and what it says of the device, are arguments.\<close>

definition DiscardableCacheSizeLimit :: "bool \<Rightarrow> bool \<Rightarrow> int \<Rightarrow> u64" where
  "DiscardableCacheSizeLimit is_android low_end_device physical_memory_mb =
     (if is_android then (if low_end_device then 1024 * 1024 else 128 * 1024 * 1024)
      else if physical_memory_mb < 4 * 1024 then 192 * 1024 * 1024 else 256 * 1024 * 1024)"

datatype memory_pressure_level = MEMORY_PRESSURE_LEVEL_NONE | MEMORY_PRESSURE_LEVEL_MODERATE | MEMORY_PRESSURE_LEVEL_CRITICAL

fun DiscardableCacheSizeLimitForPressure :: "u64 \<Rightarrow> memory_pressure_level \<Rightarrow> u64" where
  "DiscardableCacheSizeLimitForPressure base_cache_limit MEMORY_PRESSURE_LEVEL_NONE = base_cache_limit"
| "DiscardableCacheSizeLimitForPressure base_cache_limit MEMORY_PRESSURE_LEVEL_MODERATE = base_cache_limit div 4"
| "DiscardableCacheSizeLimitForPressure base_cache_limit MEMORY_PRESSURE_LEVEL_CRITICAL = 0"

definition new_ServiceDiscardableManager :: "u64 \<Rightarrow> u64 \<Rightarrow> 'm service_discardables" where
  "new_ServiceDiscardableManager force_limit default_limit =
     \<lparr>sd_entries = [], sd_total_size = 0, sd_cache_size_limit = (if force_limit \<noteq> 0 then force_limit else default_limit)\<rparr>"

definition delete_ServiceDiscardableManager :: "'m service_discardables \<Rightarrow> unit res" where
  "delete_ServiceDiscardableManager d = dcheck (list_all (\<lambda>e. gde_unlocked_texture_ref (snd e) = None) (sd_entries d)) (Inr ())"

definition SetCacheSizeLimitForTesting :: "u64 \<Rightarrow> 'm service_discardables \<Rightarrow> 'm service_discardables" where
  "SetCacheSizeLimitForTesting cache_size_limit d = d\<lparr>sd_cache_size_limit := cache_size_limit\<rparr>"

section \<open>Textures\<close>

definition TakeTexture :: "'m \<Rightarrow> u32 \<Rightarrow> 'm texture_world \<Rightarrow> texture_ref option \<times> 'm texture_world" where
  "TakeTexture tm client_id W =
     (tw_textures W tm client_id, W\<lparr>tw_textures := (tw_textures W)(tm := (tw_textures W tm)(client_id := None))\<rparr>)"

text \<open>A reference that is not taken back loses its client id and is dropped.\<close>

definition ReturnTexture :: "'m \<Rightarrow> texture_ref option \<Rightarrow> 'm texture_world \<Rightarrow> 'm texture_world res" where
  "ReturnTexture tm texture_ref W =
     (case texture_ref of
        None \<Rightarrow> Inl Null_dereference
      | Some r \<Rightarrow>
          if tw_textures W tm (tref_client_id r) \<noteq> None then Inr W
          else Inr (W\<lparr>tw_textures := (tw_textures W)(tm := (tw_textures W tm)(tref_client_id r \<mapsto> r))\<rparr>))"

definition OnTextureDeleted :: "'m entry_cache \<Rightarrow> u32 \<Rightarrow> 'm \<Rightarrow> 'm texture_world \<Rightarrow> 'm texture_world res" where
  "OnTextureDeleted c texture_id tm W =
     (case map_of (entries_of W) (texture_id, tm) of
        None \<Rightarrow> Inr W
      | Some e \<Rightarrow>
          res_bind (ServiceDiscardableHandle_ForceDelete (gde_handle e) (tw_heap W)) (\<lambda>hp.
            let W1 = put_entries (lru_Get c (texture_id, tm) (entries_of W)) (W\<lparr>tw_heap := hp\<rparr>);
                W2 = put_total (u64_sub (total_of W1) (gde_size e)) W1
            in Inr (put_entries (lru_Erase c (texture_id, tm) (entries_of W2)) W2)))"

definition RemoveTexture :: "'m entry_cache \<Rightarrow> 'm \<Rightarrow> u32 \<Rightarrow> 'm texture_world \<Rightarrow> 'm texture_world res" where
  "RemoveTexture c tm client_id W =
     (case tw_textures W tm client_id of
        None \<Rightarrow> Inr W
      | Some r \<Rightarrow>
          res_bind (OnTextureDeleted c client_id tm W) (\<lambda>W1.
            Inr (W1\<lparr>tw_textures := (tw_textures W1)(tm := (tw_textures W1 tm)(client_id := None))\<rparr>)))"

section \<open>ServiceDiscardableManager\<close>

text \<open>The loop of \<^verbatim>\<open>EnforceCacheSizeLimit\<close> over the items, the least recent first.\<close>

fun enforce_limit :: "'m entry_cache \<Rightarrow> u64 \<Rightarrow> 'm entry_key list \<Rightarrow> 'm texture_world \<Rightarrow> 'm texture_world res" where
  "enforce_limit c limit [] W = Inr W"
| "enforce_limit c limit (k # ks) W =
     (if total_of W \<le> limit then Inr W
      else case map_of (entries_of W) k of
        None \<Rightarrow> Inl Null_dereference
      | Some e \<Rightarrow>
          res_bind (ServiceDiscardableHandle_Delete (gde_handle e) (tw_heap W)) (\<lambda>(deleted, hp).
            let W1 = W\<lparr>tw_heap := hp\<rparr>
            in if \<not> deleted then enforce_limit c limit ks W1
               else let W2 = put_total (u64_sub (total_of W1) (gde_size e)) W1
                    in res_bind (ReturnTexture (snd k) (gde_unlocked_texture_ref e) W2) (\<lambda>W3.
                       res_bind (RemoveTexture c (snd k) (fst k) (put_entries (lru_Erase c k (entries_of W3)) W3))
                         (enforce_limit c limit ks))))"

definition EnforceCacheSizeLimit :: "'m entry_cache \<Rightarrow> u64 \<Rightarrow> 'm texture_world \<Rightarrow> 'm texture_world res" where
  "EnforceCacheSizeLimit c limit W = enforce_limit c limit (rev (map fst (entries_of W))) W"

definition InsertLockedTexture ::
  "'m entry_cache \<Rightarrow> u32 \<Rightarrow> u64 \<Rightarrow> 'm \<Rightarrow> discardable_handle \<Rightarrow> 'm texture_world \<Rightarrow> 'm texture_world res" where
  "InsertLockedTexture c texture_id texture_size tm h W =
     (let k = (texture_id, tm)
      in res_bind
           (case map_of (entries_of W) k of
              None \<Rightarrow> Inr W
            | Some e \<Rightarrow>
                let W1 = put_total (u64_sub (total_of W) (gde_size e)) (put_entries (lru_Get c k (entries_of W)) W)
                in res_bind (if gde_unlocked_texture_ref e \<noteq> None then ReturnTexture tm (gde_unlocked_texture_ref e) W1 else Inr W1)
                     (\<lambda>W2. Inr (put_entries (lru_Erase c k (entries_of W2)) W2)))
           (\<lambda>W3.
              let W4 = put_total (u64_add (total_of W3) texture_size) W3;
                  e = \<lparr>gde_handle = h, gde_unlocked_texture_ref = None, gde_service_ref_count = 1, gde_size = texture_size\<rparr>
              in EnforceCacheSizeLimit c (sd_cache_size_limit (tw_discardables W4)) (put_entries (lru_Put c k e (entries_of W4)) W4)))"

text \<open>The result has \<^verbatim>\<open>texture_to_unbind\<close>.\<close>

definition ServiceDiscardableManager_UnlockTexture ::
  "'m entry_cache \<Rightarrow> u32 \<Rightarrow> 'm \<Rightarrow> 'm texture_world \<Rightarrow> (bool \<times> texture_ref option \<times> 'm texture_world) res" where
  "ServiceDiscardableManager_UnlockTexture c texture_id tm W =
     (let k = (texture_id, tm)
      in case map_of (entries_of W) k of
           None \<Rightarrow> Inr (False, None, W)
         | Some e \<Rightarrow>
             res_bind (ServiceDiscardableHandle_Unlock (gde_handle e) (tw_heap W)) (\<lambda>hp.
               let W1 = put_entries (lru_Get c k (entries_of W)) (W\<lparr>tw_heap := hp\<rparr>);
                   e1 = e\<lparr>gde_service_ref_count := u32_sub (gde_service_ref_count e) 1\<rparr>
               in if gde_service_ref_count e1 = 0
                  then (case TakeTexture tm texture_id W1 of (r, W2) \<Rightarrow>
                          Inr (True, r, put_entries (AList.update k (e1\<lparr>gde_unlocked_texture_ref := r\<rparr>) (entries_of W2)) W2))
                  else Inr (True, None, put_entries (AList.update k e1 (entries_of W1)) W1)))"

definition ServiceDiscardableManager_LockTexture :: "u32 \<Rightarrow> 'm \<Rightarrow> 'm texture_world \<Rightarrow> (bool \<times> 'm texture_world) res" where
  "ServiceDiscardableManager_LockTexture texture_id tm W =
     (let k = (texture_id, tm)
      in case map_of (entries_of W) k of
           None \<Rightarrow> Inr (False, W)
         | Some e \<Rightarrow>
             let e1 = e\<lparr>gde_service_ref_count := u32_add (gde_service_ref_count e) 1\<rparr>
             in if gde_unlocked_texture_ref e1 \<noteq> None
                then res_bind (ReturnTexture tm (gde_unlocked_texture_ref e1) W) (\<lambda>W1.
                       Inr (True, put_entries (AList.update k (e1\<lparr>gde_unlocked_texture_ref := None\<rparr>) (entries_of W1)) W1))
                else Inr (True, put_entries (AList.update k e1 (entries_of W)) W))"

fun return_textures :: "'m \<Rightarrow> ('m entry_key \<times> discardable_entry) list \<Rightarrow> 'm texture_world \<Rightarrow> 'm texture_world res" where
  "return_textures tm [] W = Inr W"
| "return_textures tm (x # xs) W =
     (if snd (fst x) = tm \<and> gde_unlocked_texture_ref (snd x) \<noteq> None
      then res_bind (ReturnTexture tm (gde_unlocked_texture_ref (snd x)) W) (\<lambda>W1.
             return_textures tm xs (put_entries (AList.update (fst x) ((snd x)\<lparr>gde_unlocked_texture_ref := None\<rparr>) (entries_of W1)) W1))
      else return_textures tm xs W)"

definition OnTextureManagerDestruction :: "'m \<Rightarrow> 'm texture_world \<Rightarrow> 'm texture_world res" where
  "OnTextureManagerDestruction tm W = return_textures tm (entries_of W) W"

fun lose_entries :: "'m entry_cache \<Rightarrow> ('m entry_key \<times> discardable_entry) list \<Rightarrow> 'm texture_world \<Rightarrow> 'm texture_world res" where
  "lose_entries c [] W = Inr W"
| "lose_entries c (x # xs) W =
     res_bind (ServiceDiscardableHandle_ForceDelete (gde_handle (snd x)) (tw_heap W)) (\<lambda>hp.
       let W1 = put_total (u64_sub (total_of W) (gde_size (snd x))) (W\<lparr>tw_heap := hp\<rparr>)
       in lose_entries c xs (put_entries (lru_Erase c (fst x) (entries_of W1)) W1))"

definition OnContextLost :: "'m entry_cache \<Rightarrow> 'm texture_world \<Rightarrow> 'm texture_world res" where
  "OnContextLost c W = lose_entries c (entries_of W) W"

definition OnTextureSizeChanged :: "'m entry_cache \<Rightarrow> u32 \<Rightarrow> 'm \<Rightarrow> u64 \<Rightarrow> 'm texture_world \<Rightarrow> 'm texture_world res" where
  "OnTextureSizeChanged c texture_id tm new_size W =
     (let k = (texture_id, tm)
      in case map_of (entries_of W) k of
           None \<Rightarrow> Inr W
         | Some e \<Rightarrow>
             let W1 = put_entries (AList.update k (e\<lparr>gde_size := new_size\<rparr>) (lru_Get c k (entries_of W))) W;
                 W2 = put_total (u64_add (u64_sub (total_of W1) (gde_size e)) new_size) W1
             in EnforceCacheSizeLimit c (sd_cache_size_limit (tw_discardables W2)) W2)"

definition HandleMemoryPressure :: "'m entry_cache \<Rightarrow> memory_pressure_level \<Rightarrow> 'm texture_world \<Rightarrow> 'm texture_world res" where
  "HandleMemoryPressure c level W =
     EnforceCacheSizeLimit c (DiscardableCacheSizeLimitForPressure (sd_cache_size_limit (tw_discardables W)) level) W"

section \<open>The decoder\<close>

datatype discardable_error = kDiscardableNoError | kDiscardableInvalidArguments

text \<open>
  The handlers of the commands. \<open>look\<close> is \<^verbatim>\<open>GetSharedMemoryBuffer\<close> and \<open>estimated_size\<close> what the texture says. An error of GL is reported to the client
  and changes nothing here.
\<close>

definition HandleInitializeDiscardableTextureCHROMIUM ::
  "'m entry_cache \<Rightarrow> (i32 \<Rightarrow> gpu_buffer option) \<Rightarrow> u64 \<Rightarrow> 'm \<Rightarrow> u32 \<Rightarrow> i32 \<Rightarrow> u32 \<Rightarrow> 'm texture_world \<Rightarrow> (discardable_error \<times> 'm texture_world) res" where
  "HandleInitializeDiscardableTextureCHROMIUM c look estimated_size tm texture_id shm_id shm_offset W =
     (if tw_textures W tm texture_id = None then Inr (kDiscardableNoError, W)
      else if \<not> ValidateParameters (look shm_id) shm_offset then Inr (kDiscardableInvalidArguments, W)
      else res_bind (InsertLockedTexture c texture_id estimated_size tm (new_DiscardableHandle (look shm_id) shm_offset shm_id) W)
             (\<lambda>W1. Inr (kDiscardableNoError, W1)))"

definition HandleUnlockDiscardableTextureCHROMIUM :: "'m entry_cache \<Rightarrow> 'm \<Rightarrow> u32 \<Rightarrow> 'm texture_world \<Rightarrow> 'm texture_world res" where
  "HandleUnlockDiscardableTextureCHROMIUM c tm texture_id W =
     res_bind (ServiceDiscardableManager_UnlockTexture c texture_id tm W) (\<lambda>(_, _, W1). Inr W1)"

definition HandleLockDiscardableTextureCHROMIUM :: "'m \<Rightarrow> u32 \<Rightarrow> 'm texture_world \<Rightarrow> 'm texture_world res" where
  "HandleLockDiscardableTextureCHROMIUM tm texture_id W =
     res_bind (ServiceDiscardableManager_LockTexture texture_id tm W) (\<lambda>(_, W1). Inr W1)"

definition delete_texture :: "'m entry_cache \<Rightarrow> 'm \<Rightarrow> u32 \<Rightarrow> 'm texture_world \<Rightarrow> 'm texture_world res" where
  "delete_texture c tm client_id W = (if tw_textures W tm client_id \<noteq> None then RemoveTexture c tm client_id W else Inr W)"

fun DeleteTexturesHelper :: "'m entry_cache \<Rightarrow> 'm \<Rightarrow> u32 list \<Rightarrow> 'm texture_world \<Rightarrow> 'm texture_world res" where
  "DeleteTexturesHelper c tm [] W = Inr W"
| "DeleteTexturesHelper c tm (client_id # ids) W = res_bind (delete_texture c tm client_id W) (DeleteTexturesHelper c tm ids)"
section \<open>What the cache evicts\<close>

text \<open>
  The sizes add up, the handles are in memory and do not overlap, and for an entry that nobody has locked the manager has the texture.
\<close>

definition entries_size :: "('m entry_key \<times> discardable_entry) list \<Rightarrow> nat" where
  "entries_size xs = sum_list (map (gde_size \<circ> snd) xs)"

definition entry_ok :: "heap \<Rightarrow> 'm entry_key \<times> discardable_entry \<Rightarrow> bool" where
  "entry_ok hp x \<longleftrightarrow> (\<exists>p v. holds hp (gde_handle (snd x)) p v \<and>
     (v = 1 \<longrightarrow> (\<exists>r. gde_unlocked_texture_ref (snd x) = Some r \<and> tref_client_id r = fst (fst x))))"

definition handles_apart :: "heap \<Rightarrow> ('m entry_key \<times> discardable_entry) list \<Rightarrow> bool" where
  "handles_apart hp xs \<longleftrightarrow> (\<forall>x \<in> set xs. \<forall>y \<in> set xs. \<forall>p u q v. x \<noteq> y \<longrightarrow> holds hp (gde_handle (snd x)) p u \<longrightarrow> holds hp (gde_handle (snd y)) q v \<longrightarrow> words_apart p q)"

definition cache_ok :: "'m texture_world \<Rightarrow> bool" where
  "cache_ok W \<longleftrightarrow> distinct (map fst (entries_of W)) \<and> (\<forall>x \<in> set (entries_of W). entry_ok (tw_heap W) x) \<and> handles_apart (tw_heap W) (entries_of W) \<and>
     total_of W = entries_size (entries_of W) \<and> total_of W < 2 ^ 64"

definition unlocked :: "heap \<Rightarrow> 'm entry_key \<times> discardable_entry \<Rightarrow> bool" where
  "unlocked hp x \<longleftrightarrow> handle_load (gde_handle (snd x)) hp = Inr 1"

text \<open>The entries to evict, of a list from the least recent on: the unlocked ones, until the limit is kept.\<close>

fun evicted :: "heap \<Rightarrow> u64 \<Rightarrow> u64 \<Rightarrow> ('m entry_key \<times> discardable_entry) list \<Rightarrow> ('m entry_key \<times> discardable_entry) list" where
  "evicted hp limit n [] = []"
| "evicted hp limit n (x # xs) =
     (if n \<le> limit then [] else if unlocked hp x then x # evicted hp limit (n - gde_size (snd x)) xs else evicted hp limit n xs)"

lemma evicted_sub: "set (evicted hp limit n xs) \<subseteq> {x \<in> set xs. unlocked hp x}"
  by (induction xs arbitrary: n) (auto split: if_splits)

lemma evicted_cong: "(\<And>x. x \<in> set xs \<Longrightarrow> unlocked hp' x = unlocked hp x) \<Longrightarrow> evicted hp' limit n xs = evicted hp limit n xs"
  by (induction xs arbitrary: n) auto

lemma evicted_enough:
  assumes "\<not> n - entries_size (evicted hp limit n xs) \<le> limit" "x \<in> set xs" "unlocked hp x"
  shows "x \<in> set (evicted hp limit n xs)"
  using assms by (induction xs arbitrary: n) (auto simp: entries_size_def split: if_splits)


lemma lru_simps:
  assumes "lru_ok c"
  shows "lru_Get c k es = (case map_of es k of None \<Rightarrow> es | Some v \<Rightarrow> (k, v) # AList.delete k es)"
    and "lru_Put c k v es = (k, v) # AList.delete k es" and "lru_Erase c k es = AList.delete k es"
  using assms unfolding lru_ok_def by blast+

lemma u64_sub_le: "b \<le> a \<Longrightarrow> a < 2 ^ 64 \<Longrightarrow> u64_sub a b = a - b"
  by (simp add: u64_sub_def mod_if)

lemma unlocked_holds: "holds hp (gde_handle (snd x)) p v \<Longrightarrow> unlocked hp x \<longleftrightarrow> v = 1"
  using load_ops(1) by (fastforce simp: unlocked_def)

lemma entries_size_delete:
  assumes "distinct (map fst xs)" "(k, e) \<in> set xs"
  shows "entries_size (AList.delete k xs) + gde_size e = entries_size xs"
  using assms
proof (induction xs)
  case (Cons x xs)
  show ?case
  proof (cases "fst x = k")
    case True
    then have "k \<notin> fst ` set xs" using Cons.prems(1) by simp
    moreover from this have "x = (k, e)" using Cons.prems(2) by force
    ultimately show ?thesis by (simp add: entries_size_def AList.delete_id)
  next
    case False
    then show ?thesis using Cons by (auto simp: entries_size_def AList.delete_eq)
  qed
qed simp

lemma load_iff_holds: "holds hp h p v \<Longrightarrow> holds hp h q u \<Longrightarrow> p = q \<and> v = u"
  by (auto simp: holds_def handle_at_def)

lemma entry_ok_other:
  assumes "stored hp p u hp'" "entry_ok hp x" "\<And>q v. holds hp (gde_handle (snd x)) q v \<Longrightarrow> words_apart p q"
  shows "entry_ok hp' x" "unlocked hp' x = unlocked hp x"
proof -
  obtain q v where q: "holds hp (gde_handle (snd x)) q v" "v = 1 \<longrightarrow> (\<exists>r. gde_unlocked_texture_ref (snd x) = Some r \<and> tref_client_id r = fst (fst x))"
    using assms(2) unfolding entry_ok_def by blast
  have h: "holds hp' (gde_handle (snd x)) q v" by (rule holds_other [OF q(1) assms(1) assms(3) [OF q(1)]])
  with q(2) show "entry_ok hp' x" unfolding entry_ok_def by blast
  show "unlocked hp' x = unlocked hp x" using unlocked_holds [OF h] unlocked_holds [OF q(1)] by simp
qed

lemma holds_back:
  assumes "map length hp' = map length hp" "holds hp' h p v"
  shows "\<exists>u. holds hp h p u"
proof -
  have "- (2 ^ 31) \<le> atomic_load hp p \<and> atomic_load hp p < 2 ^ 31"
    using mod_less_divisor [of "2 ^ 32" "LoadU32Unaligned (read_bytes hp p 4)"] by (auto simp: atomic_load_def i32_of_u32_def)
  with assms handle_at_shape [OF assms(1), of h p] show ?thesis by (auto simp: holds_def)
qed

lemma handles_apart_shape:
  assumes "map length hp' = map length hp" "handles_apart hp xs" "set ys \<subseteq> set xs"
  shows "handles_apart hp' ys"
  using assms holds_back [OF assms(1)] unfolding handles_apart_def by (meson subsetD)

text \<open>One eviction.\<close>

lemma evict_one:
  assumes "lru_ok c" "cache_ok W" "(k, e) \<in> set (entries_of W)" "unlocked (tw_heap W) (k, e)"
  shows "\<exists>hp W1 W'. ServiceDiscardableHandle_Delete (gde_handle e) (tw_heap W) = Inr (True, hp) \<and>
    ReturnTexture (snd k) (gde_unlocked_texture_ref e) (put_total (u64_sub (total_of W) (gde_size e)) (W\<lparr>tw_heap := hp\<rparr>)) = Inr W1 \<and>
    RemoveTexture c (snd k) (fst k) (put_entries (lru_Erase c k (entries_of W1)) W1) = Inr W' \<and> cache_ok W' \<and>
    entries_of W' = AList.delete k (entries_of W) \<and> total_of W' = total_of W - gde_size e \<and>
    tw_textures W' = (tw_textures W)(snd k := (tw_textures W (snd k))(fst k := None)) \<and>
    sd_cache_size_limit (tw_discardables W') = sd_cache_size_limit (tw_discardables W) \<and>
    (\<exists>p. holds (tw_heap W) (gde_handle e) p 1 \<and> stored (tw_heap W) p 0 (tw_heap W')) \<and>
    (\<forall>x \<in> set (entries_of W'). unlocked (tw_heap W') x = unlocked (tw_heap W) x)"
proof -
  obtain p v where h: "holds (tw_heap W) (gde_handle e) p v" and ref: "v = 1 \<Longrightarrow> \<exists>r. gde_unlocked_texture_ref e = Some r \<and> tref_client_id r = fst k"
    using assms(2,3) unfolding cache_ok_def entry_ok_def by fastforce
  have v: "v = 1" using unlocked_holds [of "tw_heap W" "(k, e)"] h assms(4) by simp
  obtain r where r: "gde_unlocked_texture_ref e = Some r" "tref_client_id r = fst k" using ref v by blast
  obtain hp where d: "ServiceDiscardableHandle_Delete (gde_handle e) (tw_heap W) = Inr (True, hp)" "stored (tw_heap W) p 0 hp"
    using Delete_ok [OF h] v by auto
  define W0 where "W0 = put_total (u64_sub (total_of W) (gde_size e)) (W\<lparr>tw_heap := hp\<rparr>)"
  define W1 where "W1 = (if tw_textures W (snd k) (fst k) \<noteq> None then W0 else W0\<lparr>tw_textures := (tw_textures W)(snd k := (tw_textures W (snd k))(fst k \<mapsto> r))\<rparr>)"
  have ret: "ReturnTexture (snd k) (gde_unlocked_texture_ref e) W0 = Inr W1" using r by (simp add: ReturnTexture_def W1_def W0_def)
  let ?es = "AList.delete k (entries_of W)"
  let ?W2 = "put_entries ?es W1"
  have erase: "lru_Erase c k (entries_of W1) = ?es" by (simp add: lru_simps(3) [OF assms(1)] W1_def W0_def)
  have gone: "map_of ?es (fst k, snd k) = None" by (simp add: map_of_eq_None_iff dom_map_of_conv_image_fst [symmetric] AList.delete_conv)
  define W' where "W' = ?W2\<lparr>tw_textures := (tw_textures W)(snd k := (tw_textures W (snd k))(fst k := None))\<rparr>"
  have there: "tw_textures ?W2 (snd k) (fst k) \<noteq> None" by (simp add: W1_def W0_def)
  have "OnTextureDeleted c (fst k) (snd k) ?W2 = Inr ?W2" using gone by (simp add: OnTextureDeleted_def)
  then have rem: "RemoveTexture c (snd k) (fst k) ?W2 = Inr W'" using there by (auto simp: RemoveTexture_def W'_def W1_def W0_def)
  have sel: "entries_of W' = ?es" "tw_heap W' = hp" "total_of W' = u64_sub (total_of W) (gde_size e)" "sd_cache_size_limit (tw_discardables W') = sd_cache_size_limit (tw_discardables W)"
    by (simp_all add: W'_def W1_def W0_def)
  have c: "distinct (map fst (entries_of W))" "\<forall>x \<in> set (entries_of W). entry_ok (tw_heap W) x" "handles_apart (tw_heap W) (entries_of W)"
    "total_of W = entries_size (entries_of W)" "total_of W < 2 ^ 64" using assms(2) by (auto simp: cache_ok_def)
  note sum = entries_size_delete [OF c(1) assms(3)]
  have tot: "total_of W' = total_of W - gde_size e" "total_of W' = entries_size ?es" using sum c(4,5) by (simp_all add: sel u64_sub_le)
  have sub: "set ?es \<subseteq> set (entries_of W)" by (auto simp: AList.delete_eq)
  have ap: "words_apart p q" if "x \<in> set ?es" "holds (tw_heap W) (gde_handle (snd x)) q u" for x q u
  proof -
    have ne: "(k, e) \<noteq> x" using that(1) by (auto simp: AList.delete_eq)
    have "holds (tw_heap W) (gde_handle (snd (k, e))) p v" using h by simp
    then show ?thesis using c(3) assms(3) subsetD [OF sub that(1)] ne that(2) unfolding handles_apart_def by blast
  qed
  have keep: "entry_ok hp x \<and> unlocked hp x = unlocked (tw_heap W) x" if "x \<in> set ?es" for x
    using entry_ok_other [OF d(2), of x] c(2) sub that ap [OF that] by blast
  have "handles_apart hp ?es" using handles_apart_shape [OF _ c(3) sub] d(2) by (simp add: stored_def)
  moreover have "distinct (map fst ?es)" using c(1) by (simp add: AList.distinct_delete)
  ultimately have "cache_ok W'" using keep tot c(5) by (auto simp: cache_ok_def sel)
  moreover have "tw_textures W' = (tw_textures W)(snd k := (tw_textures W (snd k))(fst k := None))" by (simp add: W'_def)
  ultimately show ?thesis using d ret rem erase sel tot(1) keep h v unfolding W0_def by (intro exI [of _ hp] exI [of _ W1] exI [of _ W'] conjI exI [of _ p] ballI) simp_all
qed
text \<open>
  What an eviction of the entries \<open>ev\<close> does: they are out of the list, their sizes are off the total, their textures are gone, their handles say so, and
  no other handle, the client's own ones included, has changed.
\<close>

definition evicts :: "('m entry_key \<times> discardable_entry) list \<Rightarrow> 'm texture_world \<Rightarrow> 'm texture_world \<Rightarrow> bool" where
  "evicts ev W W' \<longleftrightarrow> entries_of W' = filter (\<lambda>x. fst x \<notin> fst ` set ev) (entries_of W) \<and> total_of W' = total_of W - entries_size ev \<and>
     tw_textures W' = (\<lambda>m i. if (i, m) \<in> fst ` set ev then None else tw_textures W m i) \<and>
     sd_cache_size_limit (tw_discardables W') = sd_cache_size_limit (tw_discardables W) \<and> map length (tw_heap W') = map length (tw_heap W) \<and>
     (\<forall>x \<in> set ev. handle_load (gde_handle (snd x)) (tw_heap W') = Inr 0) \<and>
     (\<forall>h p v. holds (tw_heap W) h p v \<longrightarrow> (\<forall>x \<in> set ev. \<forall>q u. holds (tw_heap W) (gde_handle (snd x)) q u \<longrightarrow> words_apart q p) \<longrightarrow> holds (tw_heap W') h p v)"

lemma evicts_none: "evicts [] W W"
  by (simp add: evicts_def entries_size_def)

lemma evicts_kept:
  assumes "evicts ev W W'" "holds (tw_heap W) h p v" "\<And>x q u. x \<in> set ev \<Longrightarrow> holds (tw_heap W) (gde_handle (snd x)) q u \<Longrightarrow> words_apart q p"
  shows "holds (tw_heap W') h p v"
  using assms unfolding evicts_def by blast

lemma evicts_one:
  assumes es: "entries_of W' = AList.delete (fst x) (entries_of W)" and tot: "total_of W' = total_of W - gde_size (snd x)"
    and tex: "tw_textures W' = (tw_textures W)(snd (fst x) := (tw_textures W (snd (fst x)))(fst (fst x) := None))"
    and lim: "sd_cache_size_limit (tw_discardables W') = sd_cache_size_limit (tw_discardables W)"
    and h: "holds (tw_heap W) (gde_handle (snd x)) p v" and st: "stored (tw_heap W) p 0 (tw_heap W')"
  shows "evicts [x] W W'"
proof -
  have "holds (tw_heap W') (gde_handle (snd x)) p 0" by (rule holds_stored [OF h st]) auto
  then have "handle_load (gde_handle (snd x)) (tw_heap W') = Inr 0" by (rule load_ops(1))
  moreover have "AList.delete (fst x) (entries_of W) = filter (\<lambda>y. fst y \<notin> {fst x}) (entries_of W)"
    unfolding AList.delete_eq by (rule filter_cong) auto
  moreover have "holds (tw_heap W') h' q u" if "holds (tw_heap W) h' q u"
    and "\<forall>x' \<in> set [x]. \<forall>q' u. holds (tw_heap W) (gde_handle (snd x')) q' u \<longrightarrow> words_apart q' q" for h' q u
    by (rule holds_other [OF that(1) st]) (use that(2) h in \<open>meson list.set_intros(1)\<close>)
  moreover have "map length (tw_heap W') = map length (tw_heap W)" using st by (simp add: stored_def)
  moreover have "tw_textures W' = (\<lambda>m i. if (i, m) \<in> fst ` set [x] then None else tw_textures W m i)"
    unfolding tex by (cases "fst x") (auto simp: fun_eq_iff)
  ultimately show ?thesis unfolding evicts_def using es tot lim by (simp add: entries_size_def)
qed

lemma evicts_step:
  assumes first: "evicts [x] W W1" and rest: "evicts ev W1 W2" and x: "holds (tw_heap W1) (gde_handle (snd x)) p 0"
    and ap: "\<And>y q u. y \<in> set ev \<Longrightarrow> holds (tw_heap W) (gde_handle (snd y)) q u \<Longrightarrow> words_apart q p"
  shows "evicts (x # ev) W W2"
proof -
  have len: "map length (tw_heap W1) = map length (tw_heap W)" using first by (simp add: evicts_def)
  have "holds (tw_heap W2) (gde_handle (snd x)) p 0"
    by (rule evicts_kept [OF rest x]) (use ap holds_back [OF len] in blast)
  then have "handle_load (gde_handle (snd x)) (tw_heap W2) = Inr 0" by (rule load_ops(1))
  moreover have "holds (tw_heap W2) h q v" if q: "holds (tw_heap W) h q v"
    and far: "\<forall>y \<in> set (x # ev). \<forall>q' u. holds (tw_heap W) (gde_handle (snd y)) q' u \<longrightarrow> words_apart q' q" for h q v
  proof (rule evicts_kept [OF rest])
    show "holds (tw_heap W1) h q v" by (rule evicts_kept [OF first q]) (use far in \<open>metis empty_iff empty_set list.set_intros(1) set_ConsD\<close>)
    show "words_apart q' q" if "y \<in> set ev" "holds (tw_heap W1) (gde_handle (snd y)) q' u" for y q' u
      using that far holds_back [OF len] by (meson list.set_intros(2))
  qed
  moreover have "entries_of W2 = filter (\<lambda>y. fst y \<notin> fst ` set (x # ev)) (entries_of W)"
    using first rest by (simp add: evicts_def conj_commute)
  moreover have "tw_textures W2 = (\<lambda>m i. if (i, m) \<in> fst ` set (x # ev) then None else tw_textures W m i)"
    using first rest by (simp add: evicts_def fun_eq_iff)
  ultimately show ?thesis using first rest unfolding evicts_def by (simp add: entries_size_def)
qed

lemma Delete_kept: "holds hp h p v \<Longrightarrow> v \<noteq> 1 \<Longrightarrow> ServiceDiscardableHandle_Delete h hp = Inr (False, hp)"
  using holds_at [of hp h p v]
  by (auto simp: holds_def ServiceDiscardableHandle_Delete_def atomic_compare_and_swap_def Let_def handle_constants)

text \<open>The loop takes what \<^const>\<open>evicted\<close> says, in order.\<close>

lemma enforce_limit_ok:
  assumes "lru_ok c"
  shows "cache_ok W \<Longrightarrow> distinct (map fst xs) \<Longrightarrow> set xs \<subseteq> set (entries_of W) \<Longrightarrow>
    \<exists>W'. enforce_limit c limit (map fst xs) W = Inr W' \<and> cache_ok W' \<and> evicts (evicted (tw_heap W) limit (total_of W) xs) W W'"
proof (induction xs arbitrary: W)
  case Nil
  then show ?case by (simp add: evicts_none)
next
  case (Cons x xs)
  obtain k e where x: "x = (k, e)" by (cases x)
  have ke: "(k, e) \<in> set (entries_of W)" using Cons.prems(3) x by simp
  have c: "distinct (map fst (entries_of W))" "entry_ok (tw_heap W) (k, e)" "handles_apart (tw_heap W) (entries_of W)"
    using Cons.prems(1) ke by (auto simp: cache_ok_def)
  have look: "map_of (entries_of W) k = Some e" using c(1) ke by simp
  obtain p v where h: "holds (tw_heap W) (gde_handle (snd x)) p v" using c(2) x unfolding entry_ok_def by blast
  have xs: "distinct (map fst xs)" "set xs \<subseteq> set (entries_of W)" "k \<notin> fst ` set xs" using Cons.prems(2,3) x by auto
  consider (enough) "total_of W \<le> limit" | (locked) "\<not> total_of W \<le> limit" "\<not> unlocked (tw_heap W) x"
    | (free) "\<not> total_of W \<le> limit" "unlocked (tw_heap W) x" by blast
  then show ?case
  proof cases
    case enough
    then show ?thesis using Cons.prems(1) by (simp add: evicts_none)
  next
    case locked
    then have "ServiceDiscardableHandle_Delete (gde_handle e) (tw_heap W) = Inr (False, tw_heap W)"
      using Delete_kept [OF h] unlocked_holds [OF h] x by simp
    then have "enforce_limit c limit (map fst (x # xs)) W = enforce_limit c limit (map fst xs) W" using locked look x by (simp add: Let_def)
    then show ?thesis using Cons.IH [OF Cons.prems(1) xs(1,2)] locked by simp
  next
    case free
    obtain hp W1 W2 p' where d: "ServiceDiscardableHandle_Delete (gde_handle e) (tw_heap W) = Inr (True, hp)"
      "ReturnTexture (snd k) (gde_unlocked_texture_ref e) (put_total (u64_sub (total_of W) (gde_size e)) (W\<lparr>tw_heap := hp\<rparr>)) = Inr W1"
      "RemoveTexture c (snd k) (fst k) (put_entries (lru_Erase c k (entries_of W1)) W1) = Inr W2"
      and ok: "cache_ok W2" and es: "entries_of W2 = AList.delete k (entries_of W)" and tot: "total_of W2 = total_of W - gde_size e"
      and tex: "tw_textures W2 = (tw_textures W)(snd k := (tw_textures W (snd k))(fst k := None))"
      and lim: "sd_cache_size_limit (tw_discardables W2) = sd_cache_size_limit (tw_discardables W)"
      and p': "holds (tw_heap W) (gde_handle e) p' 1" "stored (tw_heap W) p' 0 (tw_heap W2)"
      and same: "\<forall>y \<in> set (entries_of W2). unlocked (tw_heap W2) y = unlocked (tw_heap W) y"
      using evict_one [OF assms Cons.prems(1) ke] free(2) x by blast
    have run: "enforce_limit c limit (map fst (x # xs)) W = enforce_limit c limit (map fst xs) W2" using free(1) look d x by (simp add: Let_def)
    have in2: "set xs \<subseteq> set (entries_of W2)" using xs(2,3) unfolding es AList.delete_eq by force
    obtain W' where W': "enforce_limit c limit (map fst xs) W2 = Inr W'" "cache_ok W'"
      "evicts (evicted (tw_heap W2) limit (total_of W2) xs) W2 W'" using Cons.IH [OF ok xs(1) in2] by blast
    have ev: "evicted (tw_heap W2) limit (total_of W2) xs = evicted (tw_heap W) limit (total_of W - gde_size e) xs" (is "_ = ?ev")
      unfolding tot by (rule evicted_cong) (use same in2 in blast)
    have "evicts (x # ?ev) W W'"
    proof (rule evicts_step)
      show "evicts [x] W W2" by (rule evicts_one [where p = p']) (use es tot tex lim p' x in simp_all)
      show "evicts ?ev W2 W'" using W'(3) ev by simp
      show "holds (tw_heap W2) (gde_handle (snd x)) p' 0" using holds_stored [OF p'(1) p'(2)] x by simp
      show "words_apart q p'" if "y \<in> set ?ev" "holds (tw_heap W) (gde_handle (snd y)) q u" for y q u
      proof -
        have y: "y \<in> set xs" using that(1) evicted_sub by blast
        then have "y \<noteq> x" using xs(3) x by force
        moreover have "y \<in> set (entries_of W)" "x \<in> set (entries_of W)" using y xs(2) ke x by auto
        ultimately show ?thesis using c(3) that(2) p'(1) x unfolding handles_apart_def by (metis snd_conv)
      qed
    qed
    then show ?thesis using run W'(1,2) free x by simp
  qed
qed
lemma EnforceCacheSizeLimit_ok:
  fixes limit :: u64
  assumes "lru_ok c" "cache_ok W"
  defines "ev \<equiv> evicted (tw_heap W) limit (total_of W) (rev (entries_of W))"
  shows "\<exists>W'. EnforceCacheSizeLimit c limit W = Inr W' \<and> cache_ok W' \<and> evicts ev W W' \<and>
    (total_of W' \<le> limit \<or> (\<forall>x \<in> set (entries_of W'). \<not> unlocked (tw_heap W') x))"
proof -
  have "distinct (map fst (rev (entries_of W)))" using assms(2) by (simp add: cache_ok_def rev_map [symmetric])
  then obtain W' where W': "EnforceCacheSizeLimit c limit W = Inr W'" "cache_ok W'" "evicts ev W W'"
    using enforce_limit_ok [OF assms(1,2), of "rev (entries_of W)" limit] unfolding EnforceCacheSizeLimit_def ev_def rev_map by auto
  have "\<not> unlocked (tw_heap W') x" if over: "\<not> total_of W' \<le> limit" and x: "x \<in> set (entries_of W')" for x
  proof
    assume u: "unlocked (tw_heap W') x"
    have xe: "x \<in> set (entries_of W)" "fst x \<notin> fst ` set ev" using x W'(3) by (auto simp: evicts_def)
    obtain p v where h: "holds (tw_heap W) (gde_handle (snd x)) p v" using assms(2) xe(1) unfolding cache_ok_def entry_ok_def by blast
    have "holds (tw_heap W') (gde_handle (snd x)) p v"
    proof (rule evicts_kept [OF W'(3) h])
      fix y q u'
      assume y: "y \<in> set ev" "holds (tw_heap W) (gde_handle (snd y)) q u'"
      have ye: "y \<in> set (entries_of W)" using y(1) evicted_sub unfolding ev_def by fastforce
      have "y \<noteq> x" using y(1) xe(2) by auto
      with y(2) xe(1) ye assms(2) h show "words_apart q p" unfolding cache_ok_def handles_apart_def by blast
    qed
    then have "unlocked (tw_heap W) x" using u unlocked_holds h by metis
    moreover have "\<not> total_of W - entries_size ev \<le> limit" using over W'(3) by (simp add: evicts_def)
    ultimately have "x \<in> set ev" unfolding ev_def by (intro evicted_enough) (use xe(1) in auto)
    then show False using xe(2) by blast
  qed
  with W' show ?thesis by blast
qed

text \<open>
  What \<^const>\<open>entry_ok\<close> asks of an unlocked entry is needed: with no texture kept for it the loop follows a null reference.
\<close>

lemma enforce_limit_null:
  assumes "distinct (map fst (entries_of W))" "entries_of W = es @ [(k, e)]" "limit < total_of W"
    "holds (tw_heap W) (gde_handle e) p 1" "gde_unlocked_texture_ref e = None"
  shows "EnforceCacheSizeLimit c limit W = Inl Null_dereference"
proof -
  have look: "map_of (entries_of W) k = Some e" using assms(1,2) by (simp add: map_of_eq_Some_iff del: map_of_append)
  obtain hp where "ServiceDiscardableHandle_Delete (gde_handle e) (tw_heap W) = Inr (True, hp)" using Delete_ok [OF assms(4)] by auto
  moreover have "rev (map fst (entries_of W)) = k # rev (map fst es)" using assms(2) by simp
  ultimately show ?thesis unfolding EnforceCacheSizeLimit_def using assms(3,5) look by (simp add: ReturnTexture_def Let_def del: map_map)
qed

text \<open>
  A client brings the service there with three commands: it initializes a texture, sends the command that locks it without having locked the handle, and
  unlocks it.
\<close>

lemma unbalanced_lock:
  assumes c: "lru_ok c" and empty: "entries_of W = []" "total_of W = 0" and limit: "n \<le> sd_cache_size_limit (tw_discardables W)" "0 < n" "n < 2 ^ 64"
    and tex: "tw_textures W tm i = Some r" and buf: "ValidateParameters (look shm) off"
    and h: "holds (tw_heap W) (new_DiscardableHandle (look shm) off shm) p 2"
  shows "\<exists>W1 W2 W3. HandleInitializeDiscardableTextureCHROMIUM c look n tm i shm off W = Inr (kDiscardableNoError, W1) \<and>
    HandleLockDiscardableTextureCHROMIUM tm i W1 = Inr W2 \<and> HandleUnlockDiscardableTextureCHROMIUM c tm i W2 = Inr W3 \<and>
    HandleMemoryPressure c MEMORY_PRESSURE_LEVEL_CRITICAL W3 = Inl Null_dereference"
proof -
  let ?k = "(i, tm)" and ?h = "new_DiscardableHandle (look shm) off shm"
  let ?e = "\<lambda>j. \<lparr>gde_handle = ?h, gde_unlocked_texture_ref = None, gde_service_ref_count = j, gde_size = n\<rparr>"
  let ?W = "\<lambda>j. put_entries [(?k, ?e j)] (put_total n W)"
  have init: "HandleInitializeDiscardableTextureCHROMIUM c look n tm i shm off W = Inr (kDiscardableNoError, ?W 1)"
    using tex buf empty limit
    by (simp add: HandleInitializeDiscardableTextureCHROMIUM_def InsertLockedTexture_def lru_simps [OF c] EnforceCacheSizeLimit_def Let_def u64_add_def)
  have lock: "HandleLockDiscardableTextureCHROMIUM tm i (?W 1) = Inr (?W 2)"
    by (simp add: HandleLockDiscardableTextureCHROMIUM_def ServiceDiscardableManager_LockTexture_def Let_def u32_add_def)
  obtain hp where hp: "ServiceDiscardableHandle_Unlock ?h (tw_heap W) = Inr hp" "stored (tw_heap W) p 1 hp"
    using Unlock_ok [OF h] by auto
  have unlock: "HandleUnlockDiscardableTextureCHROMIUM c tm i (?W 2) = Inr ((?W 1)\<lparr>tw_heap := hp\<rparr>)" (is "_ = Inr ?W3")
    using hp(1) by (simp add: HandleUnlockDiscardableTextureCHROMIUM_def ServiceDiscardableManager_UnlockTexture_def lru_simps [OF c] Let_def u32_sub_def)
  have "holds hp ?h p 1" by (rule holds_stored [OF h hp(2)]) auto
  then have "EnforceCacheSizeLimit c 0 ?W3 = Inl Null_dereference"
    by (intro enforce_limit_null [where es = "[]" and k = ?k and e = "?e 1" and p = p]) (use limit in simp_all)
  then have "HandleMemoryPressure c MEMORY_PRESSURE_LEVEL_CRITICAL ?W3 = Inl Null_dereference" by (simp add: HandleMemoryPressure_def)
  with init lock unlock show ?thesis by blast
qed
lemma apart_sym: "words_apart p q \<Longrightarrow> words_apart q p"
  by (auto simp: words_apart_def regions_disjoint_def)

section \<open>The end of a context and of a texture manager\<close>

lemma OnContextLost_loop:
  assumes c: "lru_ok c"
  shows "entries_of W = xs \<Longrightarrow> distinct (map fst xs) \<Longrightarrow> \<forall>x \<in> set xs. entry_ok (tw_heap W) x \<Longrightarrow> handles_apart (tw_heap W) xs \<Longrightarrow> total_of W = entries_size xs \<Longrightarrow>
    total_of W < 2 ^ 64 \<Longrightarrow> \<exists>W'. lose_entries c xs W = Inr W' \<and> entries_of W' = [] \<and> total_of W' = 0 \<and> (\<forall>x \<in> set xs. handle_load (gde_handle (snd x)) (tw_heap W') = Inr 0) \<and>
      (\<forall>h p v. holds (tw_heap W) h p v \<longrightarrow> (\<forall>x \<in> set xs. \<forall>q u. holds (tw_heap W) (gde_handle (snd x)) q u \<longrightarrow> words_apart q p) \<longrightarrow> holds (tw_heap W') h p v)"
proof (induction xs arbitrary: W)
  case Nil
  then show ?case by (simp add: entries_size_def)
next
  case (Cons x xs)
  obtain p v where h: "holds (tw_heap W) (gde_handle (snd x)) p v" using Cons.prems(3) unfolding entry_ok_def by fastforce
  obtain hp where hp: "ServiceDiscardableHandle_ForceDelete (gde_handle (snd x)) (tw_heap W) = Inr hp" "stored (tw_heap W) p 0 hp" using ForceDelete_ok [OF h] by blast
  define W1 where "W1 = put_entries xs (put_total (entries_size xs) (W\<lparr>tw_heap := hp\<rparr>))"
  have fresh: "fst x \<notin> fst ` set xs" using Cons.prems(2) by simp
  have "u64_sub (total_of W) (gde_size (snd x)) = entries_size xs" using Cons.prems(5,6) by (simp add: u64_sub_le entries_size_def)
  moreover have "lru_Erase c (fst x) (x # xs) = xs" using fresh by (simp add: lru_simps(3) [OF c])
  ultimately have run: "lose_entries c (x # xs) W = lose_entries c xs W1" using hp(1) Cons.prems(1) by (simp add: Let_def W1_def)
  have len: "map length hp = map length (tw_heap W)" using hp(2) by (simp add: stored_def)
  have far: "words_apart p q" if "y \<in> set xs" "holds (tw_heap W) (gde_handle (snd y)) q u" for y q u
    using Cons.prems(4) that h fresh unfolding handles_apart_def by (metis image_eqI list.set_intros)
  have ok: "\<forall>y \<in> set xs. entry_ok hp y" using entry_ok_other(1) [OF hp(2)] Cons.prems(3) far by (meson list.set_intros(2))
  have ap: "handles_apart hp xs" by (rule handles_apart_shape [OF len Cons.prems(4)]) auto
  have "\<exists>W'. lose_entries c xs W1 = Inr W' \<and> entries_of W' = [] \<and> total_of W' = 0 \<and> (\<forall>x \<in> set xs. handle_load (gde_handle (snd x)) (tw_heap W') = Inr 0) \<and>
      (\<forall>h p v. holds (tw_heap W1) h p v \<longrightarrow> (\<forall>x \<in> set xs. \<forall>q u. holds (tw_heap W1) (gde_handle (snd x)) q u \<longrightarrow> words_apart q p) \<longrightarrow> holds (tw_heap W') h p v)"
    by (rule Cons.IH) (use Cons.prems(2,5,6) ok ap in \<open>simp_all add: W1_def entries_size_def\<close>)
  moreover have heap1: "tw_heap W1 = hp" by (simp add: W1_def)
  ultimately obtain W' where W': "lose_entries c xs W1 = Inr W'" "entries_of W' = []" "total_of W' = 0" "\<forall>x \<in> set xs. handle_load (gde_handle (snd x)) (tw_heap W') = Inr 0"
    and keep: "\<And>h p v. holds hp h p v \<Longrightarrow> (\<And>x q u. x \<in> set xs \<Longrightarrow> holds hp (gde_handle (snd x)) q u \<Longrightarrow> words_apart q p) \<Longrightarrow> holds (tw_heap W') h p v"
    unfolding heap1 by blast
  have x0: "holds hp (gde_handle (snd x)) p 0" by (rule holds_stored [OF h hp(2)]) simp_all
  have "holds (tw_heap W') (gde_handle (snd x)) p 0" by (rule keep [OF x0]) (use far holds_back [OF len] apart_sym in blast)
  then have "handle_load (gde_handle (snd x)) (tw_heap W') = Inr 0" by (rule load_ops(1))
  moreover have "holds (tw_heap W') g q u" if q: "holds (tw_heap W) g q u"
    and away: "\<forall>y \<in> set (x # xs). \<forall>q' u. holds (tw_heap W) (gde_handle (snd y)) q' u \<longrightarrow> words_apart q' q" for g q u
  proof (rule keep)
    show "holds hp g q u" by (rule holds_other [OF q hp(2)]) (use away h in \<open>meson list.set_intros(1)\<close>)
    show "words_apart q' q" if "y \<in> set xs" "holds hp (gde_handle (snd y)) q' u'" for y q' u' using that away holds_back [OF len] by (meson list.set_intros(2))
  qed
  ultimately show ?case using run W' by (intro exI [of _ W']) (simp del: lose_entries.simps)
qed

lemma OnContextLost_ok:
  assumes "lru_ok c" "cache_ok W"
  shows "\<exists>W'. OnContextLost c W = Inr W' \<and> entries_of W' = [] \<and> total_of W' = 0 \<and> (\<forall>x \<in> set (entries_of W). handle_load (gde_handle (snd x)) (tw_heap W') = Inr 0)"
  using OnContextLost_loop [OF assms(1) refl, of W] assms(2) unfolding OnContextLost_def cache_ok_def by blast

text \<open>After the destruction of a texture manager the cache has none of its textures, which is what the destructor of the cache checks.\<close>

definition drop_texture :: "'m \<Rightarrow> 'm entry_key \<times> discardable_entry \<Rightarrow> 'm entry_key \<times> discardable_entry" where
  "drop_texture tm x = (if snd (fst x) = tm then (fst x, (snd x)\<lparr>gde_unlocked_texture_ref := None\<rparr>) else x)"

lemma update_middle: "k \<notin> fst ` set ys \<Longrightarrow> AList.update k v (ys @ (k, u) # xs) = ys @ (k, v) # xs"
  by (induction ys) auto

lemma return_textures_ok:
  "distinct (map fst (ys @ xs)) \<Longrightarrow> entries_of W = ys @ xs \<Longrightarrow> \<exists>W'. return_textures tm xs W = Inr W' \<and> entries_of W' = ys @ map (drop_texture tm) xs"
proof (induction xs arbitrary: ys W)
  case Nil
  then show ?case by simp
next
  case (Cons x xs)
  obtain k e where x: "x = (k, e)" by (cases x)
  have k: "k \<notin> fst ` set ys" using Cons.prems(1) x by auto
  show ?case
  proof (cases "snd k = tm \<and> gde_unlocked_texture_ref e \<noteq> None")
    case True
    then obtain r where r: "gde_unlocked_texture_ref e = Some r" by blast
    obtain W1 where W1: "ReturnTexture tm (Some r) W = Inr W1" "entries_of W1 = ys @ (k, e) # xs"
      using Cons.prems(2) x by (cases "tw_textures W tm (tref_client_id r)") (auto simp: ReturnTexture_def)
    let ?W2 = "put_entries (AList.update k (e\<lparr>gde_unlocked_texture_ref := None\<rparr>) (entries_of W1)) W1"
    have es: "entries_of ?W2 = (ys @ [drop_texture tm x]) @ xs" using W1(2) True x update_middle [OF k] by (simp add: drop_texture_def)
    have "distinct (map fst ((ys @ [drop_texture tm x]) @ xs))" using Cons.prems(1) by (auto simp: drop_texture_def)
    from Cons.IH [OF this es] obtain W' where "return_textures tm xs ?W2 = Inr W'" "entries_of W' = ys @ map (drop_texture tm) (x # xs)" by auto
    then show ?thesis using True r W1(1) x by auto
  next
    case False
    have same: "drop_texture tm x = x" using False x by (cases e) (auto simp: drop_texture_def)
    have "distinct (map fst ((ys @ [x]) @ xs))" "entries_of W = (ys @ [x]) @ xs" using Cons.prems by simp_all
    from Cons.IH [OF this] obtain W' where "return_textures tm xs W = Inr W'" "entries_of W' = ys @ x # map (drop_texture tm) xs" by auto
    then show ?thesis using False x same by auto
  qed
qed

lemma OnTextureManagerDestruction_ok:
  assumes "cache_ok W"
  shows "\<exists>W'. OnTextureManagerDestruction tm W = Inr W' \<and> entries_of W' = map (drop_texture tm) (entries_of W) \<and>
    ((\<forall>x \<in> set (entries_of W). snd (fst x) = tm) \<longrightarrow> delete_ServiceDiscardableManager (tw_discardables W') = Inr ())"
proof -
  obtain W' where W': "return_textures tm (entries_of W) W = Inr W'" "entries_of W' = map (drop_texture tm) (entries_of W)"
    using return_textures_ok [of "[]" "entries_of W" W tm] assms by (auto simp: cache_ok_def)
  have "delete_ServiceDiscardableManager (tw_discardables W') = Inr ()" if "\<forall>x \<in> set (entries_of W). snd (fst x) = tm"
    using that by (simp add: delete_ServiceDiscardableManager_def W'(2) list_all_iff drop_texture_def dcheck_def)
  with W' show ?thesis by (auto simp: OnTextureManagerDestruction_def)
qed

text \<open>The client's command to delete a texture does nothing to one that is unlocked: its entry stays, and its handle is not deleted.\<close>

lemma DeleteTextures_unlocked:
  assumes "tw_textures W tm i = None"
  shows "DeleteTexturesHelper c tm [i] W = Inr W"
  using assms by (simp add: delete_texture_def)

end
