(* ===== verification/Discardable_Protocol.thy ===== *)
theory Discardable_Protocol
  imports Service_Discardable "HOL-Library.Multiset"
begin

text \<open>
  A client that uses discardable textures as \<^verbatim>\<open>gles2_implementation.cc\<close> does, and the service: the client locks the handle in the memory they share before it sends the command
  that locks, commands wait in a queue, and the service may discard what is unlocked at any moment in between.
\<close>

section \<open>The steps\<close>

datatype texture_command = Initialize_cmd u32 i32 u32 | Lock_cmd u32 | Unlock_cmd u32

fun command_texture :: "texture_command \<Rightarrow> u32" where
  "command_texture (Initialize_cmd i shm_id shm_offset) = i"
| "command_texture (Lock_cmd i) = i"
| "command_texture (Unlock_cmd i) = i"

text \<open>Of the client's textures, the handle and \<^verbatim>\<open>client_lock_count\<close>.\<close>

record 'm texture_session =
  ts_world :: "'m texture_world"
  ts_queue :: "texture_command list"
  ts_client :: "u32 \<rightharpoonup> discardable_handle \<times> nat"

text \<open>\<open>look\<close> gives the transfer buffers, \<open>sz\<close> the estimated sizes of the textures.\<close>

fun execute_command :: "'m entry_cache \<Rightarrow> (i32 \<Rightarrow> gpu_buffer option) \<Rightarrow> (u32 \<Rightarrow> u64) \<Rightarrow> 'm \<Rightarrow> texture_command \<Rightarrow> 'm texture_world \<Rightarrow> 'm texture_world res" where
  "execute_command c look sz tm (Initialize_cmd i shm_id shm_offset) W =
     res_bind (HandleInitializeDiscardableTextureCHROMIUM c look (sz i) tm i shm_id shm_offset W) (\<lambda>(_, W1). Inr W1)"
| "execute_command c look sz tm (Lock_cmd i) W = HandleLockDiscardableTextureCHROMIUM tm i W"
| "execute_command c look sz tm (Unlock_cmd i) W = HandleUnlockDiscardableTextureCHROMIUM c tm i W"

fun fits :: "(u32 \<Rightarrow> u64) \<Rightarrow> texture_command \<Rightarrow> 'm texture_world \<Rightarrow> bool" where
  "fits sz (Initialize_cmd i shm_id shm_offset) W \<longleftrightarrow> total_of W + sz i < 2 ^ 64"
| "fits sz _ W \<longleftrightarrow> True"

definition put_heap :: "heap \<Rightarrow> 'm texture_session \<Rightarrow> 'm texture_session" where
  "put_heap hp P = P\<lparr>ts_world := (ts_world P)\<lparr>tw_heap := hp\<rparr>\<rparr>"

definition send :: "texture_command list \<Rightarrow> (u32 \<rightharpoonup> discardable_handle \<times> nat) \<Rightarrow> 'm texture_session \<Rightarrow> 'm texture_session" where
  "send cs cl P = P\<lparr>ts_queue := ts_queue P @ cs, ts_client := cl\<rparr>"

text \<open>
  The handle of a new texture does not overlap those in use, which is what \<^verbatim>\<open>CreateHandle\<close> sees to. A texture that cannot be locked is gone, and the client forgets it.
  No more than \<open>2 ^ 31\<close> locks are held or on their way.
\<close>

inductive session_step :: "'m entry_cache \<Rightarrow> (i32 \<Rightarrow> gpu_buffer option) \<Rightarrow> (u32 \<Rightarrow> u64) \<Rightarrow> 'm \<Rightarrow> 'm texture_session \<Rightarrow> 'm texture_session \<Rightarrow> bool"
  for c look sz tm where
  create: "ts_client P i = None \<Longrightarrow> tw_textures (ts_world P) tm i = Some r \<Longrightarrow> tref_client_id r = i \<Longrightarrow>
    h = new_DiscardableHandle (look shm_id) shm_offset shm_id \<Longrightarrow> ValidateParameters (look shm_id) shm_offset \<Longrightarrow> holds (tw_heap (ts_world P)) h p u \<Longrightarrow>
    (\<And>j h' n q v. ts_client P j = Some (h', n) \<Longrightarrow> holds (tw_heap (ts_world P)) h' q v \<Longrightarrow> words_apart p q) \<Longrightarrow>
    new_ClientDiscardableHandle (look shm_id) shm_offset shm_id (tw_heap (ts_world P)) = Inr (h, hp) \<Longrightarrow>
    session_step c look sz tm P (send [Initialize_cmd i shm_id shm_offset] ((ts_client P)(i \<mapsto> (h, 1))) (put_heap hp P))"
| lock: "ts_client P i = Some (h, n) \<Longrightarrow> n + length (ts_queue P) + 3 < 2 ^ 31 \<Longrightarrow> ClientDiscardableHandle_Lock h (tw_heap (ts_world P)) = Inr (True, hp) \<Longrightarrow>
    session_step c look sz tm P (send [Lock_cmd i] ((ts_client P)(i \<mapsto> (h, n + 1))) (put_heap hp P))"
| lock_fails: "ts_client P i = Some (h, n) \<Longrightarrow> ClientDiscardableHandle_Lock h (tw_heap (ts_world P)) = Inr (False, hp) \<Longrightarrow>
    session_step c look sz tm P (send [] ((ts_client P)(i := None)) (put_heap hp P))"
| unlock: "ts_client P i = Some (h, n) \<Longrightarrow> 0 < n \<Longrightarrow> session_step c look sz tm P (send [Unlock_cmd i] ((ts_client P)(i \<mapsto> (h, n - 1))) P)"
| execute: "ts_queue P = cmd # q \<Longrightarrow> fits sz cmd (ts_world P) \<Longrightarrow>
    execute_command c look sz tm cmd (ts_world P) = Inr W \<Longrightarrow> session_step c look sz tm P (P\<lparr>ts_world := W, ts_queue := q\<rparr>)"
| pressure: "HandleMemoryPressure c level (ts_world P) = Inr W \<Longrightarrow> session_step c look sz tm P (P\<lparr>ts_world := W\<rparr>)"
section \<open>The invariant\<close>

text \<open>The commands about a texture, the locks among them, and the lock count of the service after them.\<close>

definition of_texture :: "u32 \<Rightarrow> texture_command list \<Rightarrow> texture_command list" where
  "of_texture i q = filter (\<lambda>cmd. command_texture cmd = i) q"

fun locks_in :: "texture_command list \<Rightarrow> nat" where
  "locks_in [] = 0"
| "locks_in (Lock_cmd i # q) = Suc (locks_in q)"
| "locks_in (cmd # q) = locks_in q"

fun run_count :: "nat \<Rightarrow> texture_command list \<Rightarrow> nat option" where
  "run_count k [] = Some k"
| "run_count k (Lock_cmd i # q) = run_count (Suc k) q"
| "run_count k (Unlock_cmd i # q) = (if k = 0 then None else run_count (k - 1) q)"
| "run_count k (Initialize_cmd i shm_id shm_offset # q) = None"

text \<open>
  A texture of the client whose handle has the value \<open>v\<close>, with \<open>q\<close> on the way and \<open>n\<close> locks held: the service has an entry for it, and the value counts its locks and those on the way; or the
  command that initializes it is on the way; or the service has discarded it, and then the client holds no lock.
\<close>

definition texture_inv :: "(i32 \<Rightarrow> gpu_buffer option) \<Rightarrow> 'm \<Rightarrow> u32 \<Rightarrow> discardable_handle \<Rightarrow> nat \<Rightarrow> i32 \<Rightarrow> texture_command list \<Rightarrow> 'm texture_world \<Rightarrow> bool" where
  "texture_inv look tm i h n v q W \<longleftrightarrow>
     (case map_of (entries_of W) (i, tm) of
        Some e \<Rightarrow>
          gde_handle e = h \<and> v = 1 + int (gde_service_ref_count e) + int (locks_in q) \<and> run_count (gde_service_ref_count e) q = Some n \<and>
          (if gde_service_ref_count e = 0 then tw_textures W tm i = None \<and> (\<exists>r. gde_unlocked_texture_ref e = Some r \<and> tref_client_id r = i)
           else gde_unlocked_texture_ref e = None \<and> (\<exists>r. tw_textures W tm i = Some r \<and> tref_client_id r = i))
      | None \<Rightarrow>
          q = [] \<and> n = 0 \<and> v = 0 \<or>
          (\<exists>shm_id shm_offset rest. q = Initialize_cmd i shm_id shm_offset # rest \<and> h = new_DiscardableHandle (look shm_id) shm_offset shm_id \<and>
             ValidateParameters (look shm_id) shm_offset \<and> v = 2 + int (locks_in rest) \<and> run_count 1 rest = Some n \<and>
             (\<exists>r. tw_textures W tm i = Some r \<and> tref_client_id r = i)))"

definition client_inv :: "(i32 \<Rightarrow> gpu_buffer option) \<Rightarrow> 'm \<Rightarrow> 'm texture_session \<Rightarrow> u32 \<Rightarrow> bool" where
  "client_inv look tm P i \<longleftrightarrow>
     (case ts_client P i of
        None \<Rightarrow> map_of (entries_of (ts_world P)) (i, tm) = None \<and> of_texture i (ts_queue P) = []
      | Some (h, n) \<Rightarrow> \<exists>p v. holds (tw_heap (ts_world P)) h p v \<and> texture_inv look tm i h n v (of_texture i (ts_queue P)) (ts_world P))"

definition clients_apart :: "heap \<Rightarrow> (u32 \<rightharpoonup> discardable_handle \<times> nat) \<Rightarrow> bool" where
  "clients_apart hp cl \<longleftrightarrow> (\<forall>i j g m h n p q u v. i \<noteq> j \<longrightarrow> cl i = Some (g, m) \<longrightarrow> cl j = Some (h, n) \<longrightarrow> holds hp g p u \<longrightarrow> holds hp h q v \<longrightarrow> words_apart p q)"

definition list_inv :: "'m \<Rightarrow> 'm texture_world \<Rightarrow> bool" where
  "list_inv tm W \<longleftrightarrow> distinct (map fst (entries_of W)) \<and> (\<forall>x \<in> set (entries_of W). snd (fst x) = tm) \<and> total_of W = entries_size (entries_of W) \<and> total_of W < 2 ^ 64"

definition session_inv :: "(i32 \<Rightarrow> gpu_buffer option) \<Rightarrow> 'm \<Rightarrow> 'm texture_session \<Rightarrow> bool" where
  "session_inv look tm P \<longleftrightarrow> list_inv tm (ts_world P) \<and> clients_apart (tw_heap (ts_world P)) (ts_client P) \<and> (\<forall>i. client_inv look tm P i)"

text \<open>Commands that are added and commands that are executed.\<close>

lemma locks_in_append [simp]: "locks_in (xs @ ys) = locks_in xs + locks_in ys"
  by (induction xs rule: locks_in.induct) auto

lemma run_count_append [simp]: "run_count k (xs @ ys) = Option.bind (run_count k xs) (\<lambda>m. run_count m ys)"
  by (induction k xs rule: run_count.induct) auto

lemma of_texture_append [simp]: "of_texture i (q @ [cmd]) = (if command_texture cmd = i then of_texture i q @ [cmd] else of_texture i q)"
  by (simp add: of_texture_def)

lemma of_texture_Cons: "of_texture i (cmd # q) = (if command_texture cmd = i then cmd # of_texture i q else of_texture i q)"
  by (simp add: of_texture_def)

lemma run_count_none: "run_count 0 q = Some n \<Longrightarrow> locks_in q = 0 \<Longrightarrow> q = [] \<and> n = 0"
  by (cases q rule: locks_in.cases) auto

lemma locks_below: "locks_in q \<le> length q"
  by (induction q rule: locks_in.induct) auto

lemma texture_inv_cong:
  "map_of (entries_of W') (i, tm) = map_of (entries_of W) (i, tm) \<Longrightarrow> tw_textures W' tm i = tw_textures W tm i \<Longrightarrow>
     texture_inv look tm i h n v q W' = texture_inv look tm i h n v q W"
  by (cases "map_of (entries_of W) (i, tm)") (simp_all add: texture_inv_def)

lemma client_invI:
  assumes "ts_client P i = Some (h, n)" "holds (tw_heap (ts_world P)) h p v" "texture_inv look tm i h n v (of_texture i (ts_queue P)) (ts_world P)"
  shows "client_inv look tm P i"
  unfolding client_inv_def assms(1) option.case prod.case using assms(2,3) by blast

lemma client_invD:
  assumes "client_inv look tm P i" "ts_client P i = Some (h, n)"
  obtains p v where "holds (tw_heap (ts_world P)) h p v" "texture_inv look tm i h n v (of_texture i (ts_queue P)) (ts_world P)"
  using assms(1) unfolding client_inv_def assms(2) option.case prod.case by blast

text \<open>What concerns one texture leaves the others as they are.\<close>

lemma client_inv_other:
  assumes "client_inv look tm P j" "ts_client P' j = ts_client P j" "of_texture j (ts_queue P') = of_texture j (ts_queue P)"
    and "map_of (entries_of (ts_world P')) (j, tm) = map_of (entries_of (ts_world P)) (j, tm)" "tw_textures (ts_world P') tm j = tw_textures (ts_world P) tm j"
    and "\<And>h n q v. ts_client P j = Some (h, n) \<Longrightarrow> holds (tw_heap (ts_world P)) h q v \<Longrightarrow> holds (tw_heap (ts_world P')) h q v"
  shows "client_inv look tm P' j"
proof (cases "ts_client P j")
  case None
  then show ?thesis using assms(1-4) by (simp add: client_inv_def)
next
  case (Some hn)
  obtain h n where hn: "hn = (h, n)" by (cases hn)
  obtain p v where v: "holds (tw_heap (ts_world P)) h p v" "texture_inv look tm j h n v (of_texture j (ts_queue P)) (ts_world P)"
    using client_invD [OF assms(1)] Some hn by blast
  have "holds (tw_heap (ts_world P')) h p v" using assms(6) [of h n p v] v(1) Some hn by simp
  moreover have "texture_inv look tm j h n v (of_texture j (ts_queue P')) (ts_world P')"
    using v(2) assms(3) texture_inv_cong [OF assms(4,5)] by simp
  ultimately show ?thesis using assms(2) Some hn by (intro client_invI) simp_all
qed

lemma clients_apart_shape:
  assumes "clients_apart hp cl" "map length hp' = map length hp" "\<And>i h n. cl' i = Some (h, n) \<Longrightarrow> \<exists>m. cl i = Some (h, m)"
  shows "clients_apart hp' cl'"
  unfolding clients_apart_def
proof (intro allI impI)
  fix i j g m h n p q u v
  assume ne: "i \<noteq> j" and cl: "cl' i = Some (g, m)" "cl' j = Some (h, n)" and hold: "holds hp' g p u" "holds hp' h q v"
  show "words_apart p q"
    using assms(1) ne assms(3) [OF cl(1)] assms(3) [OF cl(2)] holds_back [OF assms(2) hold(1)] holds_back [OF assms(2) hold(2)]
    unfolding clients_apart_def by blast
qed

text \<open>A step about the texture \<open>i\<close> that writes at most to its handle.\<close>

lemma session_inv_one:
  assumes inv: "session_inv look tm P" and i: "client_inv look tm P' i" and list: "list_inv tm (ts_world P')"
    and cl: "clients_apart (tw_heap (ts_world P')) (ts_client P')"
    and rest: "\<And>j. j \<noteq> i \<Longrightarrow> ts_client P' j = ts_client P j" "\<And>j. j \<noteq> i \<Longrightarrow> of_texture j (ts_queue P') = of_texture j (ts_queue P)"
      "\<And>j. j \<noteq> i \<Longrightarrow> map_of (entries_of (ts_world P')) (j, tm) = map_of (entries_of (ts_world P)) (j, tm)"
      "\<And>j. j \<noteq> i \<Longrightarrow> tw_textures (ts_world P') tm j = tw_textures (ts_world P) tm j"
    and st: "stored (tw_heap (ts_world P)) p u (tw_heap (ts_world P'))"
    and far: "\<And>j h n q v. j \<noteq> i \<Longrightarrow> ts_client P j = Some (h, n) \<Longrightarrow> holds (tw_heap (ts_world P)) h q v \<Longrightarrow> words_apart p q"
  shows "session_inv look tm P'"
  unfolding session_inv_def
proof (intro conjI allI list cl)
  fix j
  show "client_inv look tm P' j"
  proof (cases "j = i")
    case False
    have "client_inv look tm P j" using inv by (simp add: session_inv_def)
    then show ?thesis by (rule client_inv_other) (use rest [OF False] False far holds_other [OF _ st] in blast)+
  qed (simp add: i)
qed
section \<open>The client\<close>

lemma session_parts:
  assumes "session_inv look tm P"
  shows "list_inv tm (ts_world P)" "clients_apart (tw_heap (ts_world P)) (ts_client P)" "client_inv look tm P i"
  using assms by (simp_all add: session_inv_def)

lemma apart_of:
  assumes "clients_apart hp cl" "cl i = Some (g, m)" "holds hp g p u" "i \<noteq> j" "cl j = Some (h, n)" "holds hp h q v"
  shows "words_apart p q"
  using assms unfolding clients_apart_def by blast

lemma send_simps [simp]:
  "ts_world (send cs cl P) = ts_world P" "ts_queue (send cs cl P) = ts_queue P @ cs" "ts_client (send cs cl P) = cl"
  "ts_world (put_heap hp P) = (ts_world P)\<lparr>tw_heap := hp\<rparr>" "ts_queue (put_heap hp P) = ts_queue P" "ts_client (put_heap hp P) = ts_client P"
  by (simp_all add: send_def put_heap_def)

lemma texture_inv_heap [simp]: "texture_inv look tm i h n v q (W\<lparr>tw_heap := hp\<rparr>) = texture_inv look tm i h n v q W"
  by (rule texture_inv_cong) simp_all

lemma texture_inv_send:
  assumes "texture_inv look tm i h n v q W" "v \<noteq> 0"
  shows "texture_inv look tm i h (n + 1) (v + 1) (q @ [Lock_cmd i]) W" "0 < n \<Longrightarrow> texture_inv look tm i h (n - 1) v (q @ [Unlock_cmd i]) W"
  using assms by (cases "map_of (entries_of W) (i, tm)"; auto simp: texture_inv_def)+

text \<open>A step of the client about a texture it has: the service's state is the same but for the handle.\<close>

lemma client_step:
  assumes inv: "session_inv look tm P" and cl: "ts_client P i = Some (h, n)" and p: "holds (tw_heap (ts_world P)) h p v"
    and st: "stored (tw_heap (ts_world P)) p v' hp" "- (2 ^ 31) \<le> v'" "v' < 2 ^ 31"
    and new: "texture_inv look tm i h n' v' (of_texture i (ts_queue P @ [cmd])) (ts_world P)" and cmd: "command_texture cmd = i"
  shows "session_inv look tm (send [cmd] ((ts_client P)(i \<mapsto> (h, n'))) (put_heap hp P))"
proof (rule session_inv_one [OF inv, where i = i and p = p and u = v'])
  let ?P = "send [cmd] ((ts_client P)(i \<mapsto> (h, n'))) (put_heap hp P)"
  note parts = session_parts [OF inv]
  have len: "map length hp = map length (tw_heap (ts_world P))" using st(1) by (simp add: stored_def)
  have hold: "holds hp h p v'" by (rule holds_stored [OF p st])
  show "client_inv look tm ?P i" by (rule client_invI [where h = h and n = n' and p = p and v = v']) (use hold new in simp_all)
  show "list_inv tm (ts_world ?P)" using parts(1) by (simp add: list_inv_def)
  show "clients_apart (tw_heap (ts_world ?P)) (ts_client ?P)"
    by (rule clients_apart_shape [OF parts(2)]) (use len cl in \<open>auto split: if_splits\<close>)
  show "stored (tw_heap (ts_world P)) p v' (tw_heap (ts_world ?P))" using st(1) by simp
  show "words_apart p q" if "j \<noteq> i" "ts_client P j = Some (g, m)" "holds (tw_heap (ts_world P)) g q u" for j g m q u
    using apart_of [OF parts(2) cl p that(1) [symmetric] that(2,3)] .
qed (use cmd in auto)

lemma holds_range: "holds hp h p v \<Longrightarrow> - (2 ^ 31) \<le> v \<and> v < 2 ^ 31"
  by (simp add: holds_def)

text \<open>The value of a handle is bounded by the locks the client holds and the commands on the way.\<close>

lemma run_count_bound: "run_count k q = Some n \<Longrightarrow> k + locks_in q \<le> n + length q"
  by (induction k q rule: run_count.induct) (auto split: if_splits)

lemma value_bound:
  assumes "texture_inv look tm i h n v q W"
  shows "0 \<le> v" "v \<le> int n + int (length q) + 2"
  using assms run_count_bound [of _ q n] run_count_bound [of 1 _ n]
  by (cases "map_of (entries_of W) (i, tm)"; fastforce simp: texture_inv_def)+

lemma length_of_texture: "length (of_texture i q) \<le> length q"
  by (simp add: of_texture_def)

lemma lock_inv:
  assumes inv: "session_inv look tm P" and cl: "ts_client P i = Some (h, n)" and few: "n + length (ts_queue P) + 3 < 2 ^ 31"
    and lock: "ClientDiscardableHandle_Lock h (tw_heap (ts_world P)) = Inr (True, hp)"
  shows "session_inv look tm (send [Lock_cmd i] ((ts_client P)(i \<mapsto> (h, n + 1))) (put_heap hp P))"
proof -
  obtain p v where p: "holds (tw_heap (ts_world P)) h p v" and t: "texture_inv look tm i h n v (of_texture i (ts_queue P)) (ts_world P)"
    using client_invD [OF session_parts(3) [OF inv] cl] by blast
  have small: "0 \<le> v" "v + 1 < 2 ^ 31" using value_bound [OF t] length_of_texture [of i "ts_queue P"] few by auto
  have v: "v \<noteq> 0" "stored (tw_heap (ts_world P)) p (v + 1) hp" using Lock_ok [OF p small(2)] lock by (auto split: if_splits)
  show ?thesis by (rule client_step [OF inv cl p v(2)]) (use small texture_inv_send(1) [OF t v(1)] in simp_all)
qed

lemma unlock_inv:
  assumes inv: "session_inv look tm P" and cl: "ts_client P i = Some (h, n)" and n: "0 < n"
  shows "session_inv look tm (send [Unlock_cmd i] ((ts_client P)(i \<mapsto> (h, n - 1))) P)"
proof -
  obtain p v where p: "holds (tw_heap (ts_world P)) h p v" and t: "texture_inv look tm i h n v (of_texture i (ts_queue P)) (ts_world P)"
    using client_invD [OF session_parts(3) [OF inv] cl] by blast
  have v: "v \<noteq> 0" using t n by (cases "map_of (entries_of (ts_world P)) (i, tm)") (auto simp: texture_inv_def)
  have same: "put_heap (tw_heap (ts_world P)) P = P" by (simp add: put_heap_def)
  have st: "stored (tw_heap (ts_world P)) p v (tw_heap (ts_world P))" using p by (intro stored_same) (simp add: holds_def)
  have "session_inv look tm (send [Unlock_cmd i] ((ts_client P)(i \<mapsto> (h, n - 1))) (put_heap (tw_heap (ts_world P)) P))"
    by (rule client_step [OF inv cl p st]) (use holds_range [OF p] texture_inv_send(2) [OF t v n] in simp_all)
  then show ?thesis unfolding same .
qed

text \<open>A lock fails just for a texture that is gone.\<close>

lemma lock_fails_inv:
  assumes inv: "session_inv look tm P" and cl: "ts_client P i = Some (h, n)"
    and lock: "ClientDiscardableHandle_Lock h (tw_heap (ts_world P)) = Inr (False, hp)"
  shows "session_inv look tm (send [] ((ts_client P)(i := None)) (put_heap hp P))" "n = 0"
proof -
  obtain p v where p: "holds (tw_heap (ts_world P)) h p v" and t: "texture_inv look tm i h n v (of_texture i (ts_queue P)) (ts_world P)"
    using client_invD [OF session_parts(3) [OF inv] cl] by blast
  have v: "v = 0" using lock load_ops(2) [OF p] by (auto simp: ClientDiscardableHandle_Lock_def res_simps split: option.splits if_splits prod.splits)
  then have hp: "hp = tw_heap (ts_world P)" using lock load_ops(2) [OF p] by (simp add: ClientDiscardableHandle_Lock_def)
  have gone: "map_of (entries_of (ts_world P)) (i, tm) = None" "of_texture i (ts_queue P) = []" "n = 0"
    using t v by (cases "map_of (entries_of (ts_world P)) (i, tm)"; auto simp: texture_inv_def)+
  then show "n = 0" by simp
  let ?P = "send [] ((ts_client P)(i := None)) (put_heap hp P)"
  note parts = session_parts [OF inv]
  show "session_inv look tm ?P"
  proof (rule session_inv_one [OF inv, where i = i and p = p and u = v])
    show "client_inv look tm ?P i" using gone by (simp add: client_inv_def)
    show "list_inv tm (ts_world ?P)" using parts(1) by (simp add: list_inv_def)
    show "clients_apart (tw_heap (ts_world ?P)) (ts_client ?P)"
      by (rule clients_apart_shape [OF parts(2)]) (use hp in \<open>auto split: if_splits\<close>)
    show "stored (tw_heap (ts_world P)) p v (tw_heap (ts_world ?P))" using p hp by (auto simp: holds_def intro: stored_same)
    show "words_apart p q" if "j \<noteq> i" "ts_client P j = Some (g, m)" "holds (tw_heap (ts_world P)) g q u" for j g m q u
      using apart_of [OF parts(2) cl p that(1) [symmetric] that(2,3)] .
  qed auto
qed

lemma create_inv:
  assumes inv: "session_inv look tm P" and none: "ts_client P i = None" and r: "tw_textures (ts_world P) tm i = Some r" "tref_client_id r = i"
    and h: "h = new_DiscardableHandle (look shm_id) shm_offset shm_id" "ValidateParameters (look shm_id) shm_offset" and p: "holds (tw_heap (ts_world P)) h p u"
    and far: "\<And>j h' n q v. ts_client P j = Some (h', n) \<Longrightarrow> holds (tw_heap (ts_world P)) h' q v \<Longrightarrow> words_apart p q"
    and new: "new_ClientDiscardableHandle (look shm_id) shm_offset shm_id (tw_heap (ts_world P)) = Inr (h, hp)"
  shows "session_inv look tm (send [Initialize_cmd i shm_id shm_offset] ((ts_client P)(i \<mapsto> (h, 1))) (put_heap hp P))"
proof (rule session_inv_one [OF inv, where i = i and p = p and u = 2])
  let ?P = "send [Initialize_cmd i shm_id shm_offset] ((ts_client P)(i \<mapsto> (h, 1))) (put_heap hp P)"
  note parts = session_parts [OF inv]
  have st: "stored (tw_heap (ts_world P)) p 2 hp" using new_handle_ok [of "tw_heap (ts_world P)" "look shm_id" shm_offset shm_id p] p h(1) new by (auto simp: holds_def)
  then show "stored (tw_heap (ts_world P)) p 2 (tw_heap (ts_world ?P))" by simp
  have len: "map length hp = map length (tw_heap (ts_world P))" using st by (simp add: stored_def)
  have old: "map_of (entries_of (ts_world P)) (i, tm) = None" "of_texture i (ts_queue P) = []" using parts(3) [of i] none by (simp_all add: client_inv_def)
  have "holds hp h p 2" by (rule holds_stored [OF p st]) simp_all
  moreover have "texture_inv look tm i h 1 2 (of_texture i (ts_queue P @ [Initialize_cmd i shm_id shm_offset])) (ts_world P)"
    using old r h by (simp add: texture_inv_def)
  ultimately show "client_inv look tm ?P i" by (intro client_invI [where h = h and n = 1 and p = p and v = 2]) simp_all
  show "list_inv tm (ts_world ?P)" using parts(1) by (simp add: list_inv_def)
  show "clients_apart (tw_heap (ts_world ?P)) (ts_client ?P)" unfolding clients_apart_def
  proof (intro allI impI)
    fix a b g m g' m' pa pb ua ub
    assume ne: "a \<noteq> b" and cl: "ts_client ?P a = Some (g, m)" "ts_client ?P b = Some (g', m')"
      and hold: "holds (tw_heap (ts_world ?P)) g pa ua" "holds (tw_heap (ts_world ?P)) g' pb ub"
    obtain va where va: "holds (tw_heap (ts_world P)) g pa va" using holds_back [OF len, of g pa ua] hold(1) by auto
    obtain vb where vb: "holds (tw_heap (ts_world P)) g' pb vb" using holds_back [OF len, of g' pb ub] hold(2) by auto
    consider "a = i" "b \<noteq> i" | "b = i" "a \<noteq> i" | "a \<noteq> i" "b \<noteq> i" using ne by blast
    then show "words_apart pa pb"
    proof cases
      case 1
      then have "pa = p" using cl(1) va p load_iff_holds by (metis fun_upd_same option.inject prod.inject send_simps(3))
      then show ?thesis using 1 cl(2) vb far by simp
    next
      case 2
      then have "pb = p" using cl(2) vb p load_iff_holds by (metis fun_upd_same option.inject prod.inject send_simps(3))
      then show ?thesis using 2 cl(1) va far apart_sym by simp
    next
      case 3
      then show ?thesis using apart_of [OF parts(2) _ va ne _ vb] cl by simp
    qed
  qed
  show "words_apart p q" if "j \<noteq> i" "ts_client P j = Some (g, m)" "holds (tw_heap (ts_world P)) g q v" for j g m q v by (rule far [OF that(2,3)])
qed auto
section \<open>The service\<close>

lemma entry_client:
  assumes "session_inv look tm P" "((i, m), e) \<in> set (entries_of (ts_world P))"
  obtains n p v where "m = tm" "ts_client P i = Some (gde_handle e, n)" "holds (tw_heap (ts_world P)) (gde_handle e) p v"
    "texture_inv look tm i (gde_handle e) n v (of_texture i (ts_queue P)) (ts_world P)" "map_of (entries_of (ts_world P)) (i, tm) = Some e"
proof -
  note parts = session_parts [OF assms(1)]
  have m: "m = tm" "distinct (map fst (entries_of (ts_world P)))" using parts(1) assms(2) by (fastforce simp: list_inv_def)+
  then have e: "map_of (entries_of (ts_world P)) (i, tm) = Some e" using assms(2) by simp
  obtain h n where cl: "ts_client P i = Some (h, n)" using parts(3) [of i] e by (cases "ts_client P i") (auto simp: client_inv_def)
  obtain p v where p: "holds (tw_heap (ts_world P)) h p v" "texture_inv look tm i h n v (of_texture i (ts_queue P)) (ts_world P)"
    by (rule client_invD [OF parts(3) cl])
  have "gde_handle e = h" using p(2) e by (simp add: texture_inv_def)
  with that m(1) cl p e show thesis by blast
qed

lemma session_cache_ok:
  assumes "session_inv look tm P"
  shows "cache_ok (ts_world P)"
proof -
  note parts = session_parts [OF assms]
  have "entry_ok (tw_heap (ts_world P)) x" if x: "x \<in> set (entries_of (ts_world P))" for x
  proof -
    obtain i m e where xe: "x = ((i, m), e)" by (metis prod.exhaust)
    obtain n p v where p: "holds (tw_heap (ts_world P)) (gde_handle e) p v"
      "texture_inv look tm i (gde_handle e) n v (of_texture i (ts_queue P)) (ts_world P)" "map_of (entries_of (ts_world P)) (i, tm) = Some e"
      by (rule entry_client [OF assms x [unfolded xe]])
    then have "v = 1 \<longrightarrow> (\<exists>r. gde_unlocked_texture_ref e = Some r \<and> tref_client_id r = i)" by (auto simp: texture_inv_def split: if_splits)
    with p(1) show ?thesis unfolding entry_ok_def xe fst_conv snd_conv by blast
  qed
  moreover have "handles_apart (tw_heap (ts_world P)) (entries_of (ts_world P))" unfolding handles_apart_def
  proof (intro ballI allI impI)
    fix x y p u q v
    assume x: "x \<in> set (entries_of (ts_world P))" and y: "y \<in> set (entries_of (ts_world P))" and ne: "x \<noteq> y"
      and hold: "holds (tw_heap (ts_world P)) (gde_handle (snd x)) p u" "holds (tw_heap (ts_world P)) (gde_handle (snd y)) q v"
    obtain i m e j m' e' where xe: "x = ((i, m), e)" "y = ((j, m'), e')" by (metis prod.exhaust)
    obtain n where a: "m = tm" "ts_client P i = Some (gde_handle e, n)" "map_of (entries_of (ts_world P)) (i, tm) = Some e" by (rule entry_client [OF assms x [unfolded xe]])
    obtain n' where b: "m' = tm" "ts_client P j = Some (gde_handle e', n')" "map_of (entries_of (ts_world P)) (j, tm) = Some e'" by (rule entry_client [OF assms y [unfolded xe]])
    have "i \<noteq> j" using ne a(1,3) b(1,3) xe by auto
    with apart_of [OF parts(2) a(2) _ _ b(2)] hold xe show "words_apart p q" by simp
  qed
  ultimately show ?thesis using parts(1) by (simp add: cache_ok_def list_inv_def)
qed

text \<open>What is discarded had no lock, and no command on the way.\<close>

lemma evicted_client:
  assumes "session_inv look tm P" "x \<in> set (evicted (tw_heap (ts_world P)) limit k (rev (entries_of (ts_world P))))"
  obtains i e where "x = ((i, tm), e)" "map_of (entries_of (ts_world P)) (i, tm) = Some e" "ts_client P i = Some (gde_handle e, 0)" "of_texture i (ts_queue P) = []"
proof -
  obtain i m e where xe: "x = ((i, m), e)" by (metis prod.exhaust)
  have x: "x \<in> set (entries_of (ts_world P))" "unlocked (tw_heap (ts_world P)) x" using assms(2) evicted_sub by fastforce+
  obtain n p v where c: "m = tm" "ts_client P i = Some (gde_handle e, n)" "holds (tw_heap (ts_world P)) (gde_handle e) p v"
    "texture_inv look tm i (gde_handle e) n v (of_texture i (ts_queue P)) (ts_world P)" "map_of (entries_of (ts_world P)) (i, tm) = Some e"
    by (rule entry_client [OF assms(1) x(1) [unfolded xe]])
  have "v = 1" using unlocked_holds [of "tw_heap (ts_world P)" x p v] x(2) c(3) xe by simp
  then have z: "gde_service_ref_count e = 0" "locks_in (of_texture i (ts_queue P)) = 0" using c(4,5) by (auto simp: texture_inv_def split: if_splits)
  then have "run_count 0 (of_texture i (ts_queue P)) = Some n" using c(4,5) by (simp add: texture_inv_def)
  with run_count_none [OF _ z(2)] that [OF _ c(5)] c(1,2) xe show thesis by simp
qed

lemma filter_map_of:
  "map_of (filter (\<lambda>x. fst x \<notin> K) es) k = (if k \<in> K then None else map_of es k)"
  by (induction es) auto

lemma enforce_session:
  assumes inv: "session_inv look tm P" and c: "lru_ok c"
  shows "\<exists>W'. EnforceCacheSizeLimit c limit (ts_world P) = Inr W' \<and> session_inv look tm (P\<lparr>ts_world := W'\<rparr>)"
proof -
  let ?W = "ts_world P"
  let ?ev = "evicted (tw_heap ?W) limit (total_of ?W) (rev (entries_of ?W))"
  note parts = session_parts [OF inv]
  obtain W' where W': "EnforceCacheSizeLimit c limit ?W = Inr W'" "cache_ok W'" and ev: "evicts ?ev ?W W'"
    using EnforceCacheSizeLimit_ok [OF c session_cache_ok [OF inv], of limit] by blast
  have es: "entries_of W' = filter (\<lambda>x. fst x \<notin> fst ` set ?ev) (entries_of ?W)"
    and tex: "tw_textures W' tm i = (if (i, tm) \<in> fst ` set ?ev then None else tw_textures ?W tm i)"
    and len: "map length (tw_heap W') = map length (tw_heap ?W)" for i using ev by (simp_all add: evicts_def)
  have "list_inv tm W'" using W'(2) parts(1) es by (simp add: cache_ok_def list_inv_def)
  moreover have "clients_apart (tw_heap W') (ts_client P)" by (rule clients_apart_shape [OF parts(2) len]) blast
  moreover have "client_inv look tm (P\<lparr>ts_world := W'\<rparr>) i" for i
  proof (cases "(i, tm) \<in> fst ` set ?ev")
    case True
    then obtain x where x: "x \<in> set ?ev" "fst x = (i, tm)" by auto
    obtain e where e: "x = ((i, tm), e)" "ts_client P i = Some (gde_handle e, 0)" "of_texture i (ts_queue P) = []"
      by (rule evicted_client [OF inv x(1)]) (use x(2) in auto)
    obtain p v where p: "holds (tw_heap ?W) (gde_handle e) p v" by (rule client_invD [OF parts(3) e(2)])
    have "handle_load (gde_handle e) (tw_heap W') = Inr 0" using ev x(1) e(1) unfolding evicts_def by fastforce
    moreover obtain u where u: "holds (tw_heap W') (gde_handle e) p u" using holds_back [OF len [symmetric] p] by blast
    ultimately have "u = 0" using load_ops(1) [OF u] by simp
    moreover have "map_of (entries_of W') (i, tm) = None" using True by (simp add: es filter_map_of)
    ultimately show ?thesis using u e(2,3) by (intro client_invI [where h = "gde_handle e" and n = 0 and p = p and v = u]) (simp_all add: texture_inv_def)
  next
    case False
    show ?thesis
    proof (rule client_inv_other [OF parts(3)])
      fix h n q v
      assume cl: "ts_client P i = Some (h, n)" and q: "holds (tw_heap ?W) h q v"
      have "holds (tw_heap W') h q v"
      proof (rule evicts_kept [OF ev q])
        fix x p u
        assume x: "x \<in> set ?ev" "holds (tw_heap ?W) (gde_handle (snd x)) p u"
        obtain j e where e: "x = ((j, tm), e)" "ts_client P j = Some (gde_handle e, 0)" by (rule evicted_client [OF inv x(1)])
        have "j \<noteq> i" using False x(1) e(1) by (metis fst_conv image_eqI)
        with apart_of [OF parts(2) e(2) _ _ cl q] x(2) e(1) show "words_apart p q" by simp
      qed
      then show "holds (tw_heap (ts_world (P\<lparr>ts_world := W'\<rparr>))) h q v" by simp
    qed (use False tex in \<open>simp_all add: es filter_map_of\<close>)
  qed
  ultimately have "session_inv look tm (P\<lparr>ts_world := W'\<rparr>)" by (simp add: session_inv_def)
  with W'(1) show ?thesis by blast
qed
text \<open>The entries after a change of one of them, and after a look at one.\<close>

lemma list_inv_update:
  assumes "list_inv tm W" "map_of (entries_of W) (i, tm) = Some e" "gde_size e' = gde_size e" "set es = set (entries_of W)" "distinct (map fst es)"
    and "entries_of W' = AList.update (i, tm) e' es" "total_of W' = total_of W"
  shows "list_inv tm W'" "map_of (entries_of W') = (map_of (entries_of W))((i, tm) \<mapsto> e')"
proof -
  have l: "distinct (map fst (entries_of W))" "\<forall>x \<in> set (entries_of W). snd (fst x) = tm" "total_of W = entries_size (entries_of W)" "total_of W < 2 ^ 64"
    using assms(1) by (simp_all add: list_inv_def)
  have in_es: "((i, tm), e) \<in> set es" using assms(2,4) by (simp add: map_of_SomeD)
  have m: "map_of es = map_of (entries_of W)" using map_of_inject_set [OF assms(5) l(1)] assms(4) by simp
  have "distinct es" "distinct (entries_of W)" using assms(5) l(1) by (simp_all add: distinct_map)
  then have "mset es = mset (entries_of W)" using assms(4) set_eq_iff_mset_eq_distinct by blast
  then have "mset (map (gde_size \<circ> snd) es) = mset (map (gde_size \<circ> snd) (entries_of W))" by simp
  then have s: "entries_size es = entries_size (entries_of W)" unfolding entries_size_def by (metis sum_mset_sum_list)
  have s': "entries_size (AList.update (i, tm) e' es) = entries_size es" using in_es assms(3,5)
  proof (induction es)
    case (Cons x xs)
    show ?case
    proof (cases "fst x = (i, tm)")
      case True
      then have "x = ((i, tm), e)" using Cons.prems(1,3) by force
      then show ?thesis using assms(3) by (simp add: entries_size_def)
    next
      case False
      then show ?thesis using Cons by (cases x) (auto simp: entries_size_def)
    qed
  qed simp
  have "set (AList.update (i, tm) e' es) \<subseteq> insert ((i, tm), e') (set es)" by (induction es) auto
  then have "\<forall>x \<in> set (entries_of W'). snd (fst x) = tm" using l(2) assms(4,6) by fastforce
  with s s' l assms(5-7) AList.distinct_update [OF assms(5)] show "list_inv tm W'" by (simp add: list_inv_def)
  show "map_of (entries_of W') = (map_of (entries_of W))((i, tm) \<mapsto> e')" using m by (simp add: assms(6) AList.update_conv')
qed

lemma lru_Get_entries:
  assumes "lru_ok c" "distinct (map fst es)" "map_of es k = Some e"
  shows "set (lru_Get c k es) = set es" "distinct (map fst (lru_Get c k es))"
proof -
  have g: "lru_Get c k es = (k, e) # AList.delete k es" using lru_simps(1) [OF assms(1)] assms(3) by simp
  have ke: "(k, e) \<in> set es" using assms(3) by (rule map_of_SomeD)
  have one: "x = (k, e)" if "x \<in> set es" "fst x = k" for x using eq_key_imp_eq_value [OF assms(2), of k "snd x" e] that ke by (cases x) auto
  have del: "set (AList.delete k es) = {x \<in> set es. fst x \<noteq> k}" unfolding AList.delete_eq set_filter by (simp add: split_def eq_commute)
  have "set es = insert (k, e) (set (AList.delete k es))" unfolding del using ke one by blast
  then show "set (lru_Get c k es) = set es" unfolding g list.set by (rule sym)
  show "distinct (map fst (lru_Get c k es))" using AList.distinct_delete [OF assms(2)] AList.delete_notin_dom [of k es] by (simp add: g)
qed

text \<open>What the head of the queue says of its texture.\<close>

lemma head_client:
  assumes "session_inv look tm P" "ts_queue P = cmd # q" "command_texture cmd = i"
  obtains h n p v where "ts_client P i = Some (h, n)" "holds (tw_heap (ts_world P)) h p v" "texture_inv look tm i h n v (cmd # of_texture i q) (ts_world P)"
proof -
  have q: "of_texture i (ts_queue P) = cmd # of_texture i q" using assms(2,3) by (simp add: of_texture_Cons)
  have c: "client_inv look tm P i" by (rule session_parts(3) [OF assms(1)])
  obtain h n where cl: "ts_client P i = Some (h, n)" using c q by (cases "ts_client P i") (auto simp: client_inv_def)
  show thesis by (rule client_invD [OF c cl]) (use that cl q in simp)
qed

text \<open>A command that changes the entry of its texture, the texture and the value of the handle.\<close>

lemma executed_one:
  assumes inv: "session_inv look tm P" and q: "ts_queue P = cmd # q" "command_texture cmd = i" and cl: "ts_client P i = Some (h, n)"
    and p: "holds (tw_heap (ts_world P)) h p v" and list: "list_inv tm W" and es: "map_of (entries_of W) = (map_of (entries_of (ts_world P)))((i, tm) \<mapsto> e)"
    and tex: "\<And>j. j \<noteq> i \<Longrightarrow> tw_textures W tm j = tw_textures (ts_world P) tm j" and st: "stored (tw_heap (ts_world P)) p v' (tw_heap W)" "- (2 ^ 31) \<le> v'" "v' < 2 ^ 31"
    and new: "texture_inv look tm i h n v' (of_texture i q) W"
  shows "session_inv look tm (P\<lparr>ts_world := W, ts_queue := q\<rparr>)"
proof (rule session_inv_one [OF inv, where i = i and p = p and u = v'])
  let ?P = "P\<lparr>ts_world := W, ts_queue := q\<rparr>"
  note parts = session_parts [OF inv]
  have len: "map length (tw_heap W) = map length (tw_heap (ts_world P))" using st(1) by (simp add: stored_def)
  have "holds (tw_heap W) h p v'" by (rule holds_stored [OF p st])
  then show "client_inv look tm ?P i" by (intro client_invI [where h = h and n = n and p = p and v = v']) (use new cl in simp_all)
  show "clients_apart (tw_heap (ts_world ?P)) (ts_client ?P)" by (rule clients_apart_shape [OF parts(2)]) (use len in auto)
  show "words_apart p q" if "j \<noteq> i" "ts_client P j = Some (g, m)" "holds (tw_heap (ts_world P)) g q u" for j g m q u
    using apart_of [OF parts(2) cl p that(1) [symmetric] that(2,3)] .
qed (use q list es tex st(1) in \<open>auto simp: of_texture_Cons\<close>)

lemma execute_lock:
  assumes inv: "session_inv look tm P" and q: "ts_queue P = Lock_cmd i # q"
  shows "\<exists>W. HandleLockDiscardableTextureCHROMIUM tm i (ts_world P) = Inr W \<and> session_inv look tm (P\<lparr>ts_world := W, ts_queue := q\<rparr>)"
proof -
  let ?W = "ts_world P"
  obtain h n p v where c: "ts_client P i = Some (h, n)" "holds (tw_heap ?W) h p v" "texture_inv look tm i h n v (Lock_cmd i # of_texture i q) ?W"
    by (rule head_client [OF inv q]) simp_all
  obtain e where e: "map_of (entries_of ?W) (i, tm) = Some e" using c(3) by (cases "map_of (entries_of ?W) (i, tm)") (auto simp: texture_inv_def)
  have t: "gde_handle e = h" "v = 2 + int (gde_service_ref_count e) + int (locks_in (of_texture i q))" "run_count (Suc (gde_service_ref_count e)) (of_texture i q) = Some n"
    "if gde_service_ref_count e = 0 then tw_textures ?W tm i = None \<and> (\<exists>r. gde_unlocked_texture_ref e = Some r \<and> tref_client_id r = i)
     else gde_unlocked_texture_ref e = None \<and> (\<exists>r. tw_textures ?W tm i = Some r \<and> tref_client_id r = i)"
    using c(3) e by (auto simp: texture_inv_def split: if_splits)
  let ?e = "e\<lparr>gde_service_ref_count := Suc (gde_service_ref_count e), gde_unlocked_texture_ref := None\<rparr>"
  define W where "W = put_entries (AList.update (i, tm) ?e (entries_of ?W))
    (case gde_unlocked_texture_ref e of None \<Rightarrow> ?W | Some r \<Rightarrow> ?W\<lparr>tw_textures := (tw_textures ?W)(tm := (tw_textures ?W tm)(i \<mapsto> r))\<rparr>)"
  have "gde_service_ref_count e + 1 < 2 ^ 32" using t(2) holds_range [OF c(2)] by simp
  then have add: "u32_add (gde_service_ref_count e) 1 = Suc (gde_service_ref_count e)" by (simp add: u32_add_def)
  have e1: "gde_unlocked_texture_ref e = None \<Longrightarrow> ?e = e\<lparr>gde_service_ref_count := Suc (gde_service_ref_count e)\<rparr>" by simp
  have run: "HandleLockDiscardableTextureCHROMIUM tm i ?W = Inr W"
    using e add t(4) by (auto simp: HandleLockDiscardableTextureCHROMIUM_def ServiceDiscardableManager_LockTexture_def ReturnTexture_def W_def Let_def e1 split: if_splits)
  note parts = session_parts [OF inv]
  have sel: "entries_of W = AList.update (i, tm) ?e (entries_of ?W)" "total_of W = total_of ?W" "tw_heap W = tw_heap ?W"
    by (simp_all add: W_def split: option.splits)
  have d: "distinct (map fst (entries_of ?W))" using parts(1) by (simp add: list_inv_def)
  note up = list_inv_update [OF parts(1) e _ refl d sel(1,2)]
  have "session_inv look tm (P\<lparr>ts_world := W, ts_queue := q\<rparr>)"
  proof (rule executed_one [OF inv q _ c(1,2) up(1) up(2)])
    show "stored (tw_heap ?W) p v (tw_heap W)" using c(2) by (auto simp: sel(3) holds_def intro: stored_same)
    show "texture_inv look tm i h n v (of_texture i q) W" using t up(2) by (auto simp: texture_inv_def W_def split: option.splits if_splits)
    show "tw_textures W tm j = tw_textures ?W tm j" if "j \<noteq> i" for j using that by (simp add: W_def split: option.splits)
  qed (use holds_range [OF c(2)] in simp_all)
  with run show ?thesis by blast
qed

lemma execute_unlock:
  assumes inv: "session_inv look tm P" and q: "ts_queue P = Unlock_cmd i # q" and c: "lru_ok c"
  shows "\<exists>W. HandleUnlockDiscardableTextureCHROMIUM c tm i (ts_world P) = Inr W \<and> session_inv look tm (P\<lparr>ts_world := W, ts_queue := q\<rparr>)"
proof -
  let ?W = "ts_world P"
  obtain h n p v where cl: "ts_client P i = Some (h, n)" "holds (tw_heap ?W) h p v" "texture_inv look tm i h n v (Unlock_cmd i # of_texture i q) ?W"
    by (rule head_client [OF inv q]) simp_all
  obtain e where e: "map_of (entries_of ?W) (i, tm) = Some e" using cl(3) by (cases "map_of (entries_of ?W) (i, tm)") (auto simp: texture_inv_def)
  obtain k r where t: "gde_handle e = h" "gde_service_ref_count e = Suc k" "v = 2 + int k + int (locks_in (of_texture i q))" "run_count k (of_texture i q) = Some n"
    "gde_unlocked_texture_ref e = None" "tw_textures ?W tm i = Some r" "tref_client_id r = i"
    using cl(3) e by (cases "gde_service_ref_count e") (auto simp: texture_inv_def)
  obtain hp where hp: "ServiceDiscardableHandle_Unlock h (tw_heap ?W) = Inr hp" "stored (tw_heap ?W) p (v - 1) hp"
    using Unlock_ok [OF cl(2)] t(3) by auto
  let ?e = "e\<lparr>gde_service_ref_count := k, gde_unlocked_texture_ref := (if k = 0 then Some r else None)\<rparr>"
  let ?es = "lru_Get c (i, tm) (entries_of ?W)"
  define W where "W = put_entries (AList.update (i, tm) ?e ?es)
    (if k = 0 then ?W\<lparr>tw_heap := hp, tw_textures := (tw_textures ?W)(tm := (tw_textures ?W tm)(i := None))\<rparr> else ?W\<lparr>tw_heap := hp\<rparr>)"
  have "Suc k < 2 ^ 32" using t(3) holds_range [OF cl(2)] by simp
  then have sub: "u32_sub (gde_service_ref_count e) 1 = k" by (simp add: t(2) u32_sub_def)
  have e1: "e\<lparr>gde_service_ref_count := k, gde_unlocked_texture_ref := None\<rparr> = e\<lparr>gde_service_ref_count := k\<rparr>" using t(5) by simp
  have run: "HandleUnlockDiscardableTextureCHROMIUM c tm i ?W = Inr W"
    using e t(1,6) hp(1) sub e1
    by (simp add: HandleUnlockDiscardableTextureCHROMIUM_def ServiceDiscardableManager_UnlockTexture_def TakeTexture_def W_def Let_def)
  note parts = session_parts [OF inv]
  have d: "distinct (map fst (entries_of ?W))" using parts(1) by (simp add: list_inv_def)
  have sel: "entries_of W = AList.update (i, tm) ?e ?es" "total_of W = total_of ?W" "tw_heap W = hp" by (simp_all add: W_def)
  note up = list_inv_update [OF parts(1) e _ lru_Get_entries [OF c d e] sel(1,2)]
  have "session_inv look tm (P\<lparr>ts_world := W, ts_queue := q\<rparr>)"
  proof (rule executed_one [OF inv q _ cl(1,2) up(1) up(2)])
    show "stored (tw_heap ?W) p (v - 1) (tw_heap W)" using hp(2) by (simp add: sel(3))
    show "texture_inv look tm i h n (v - 1) (of_texture i q) W" using t up(2) by (simp add: texture_inv_def W_def)
    show "tw_textures W tm j = tw_textures ?W tm j" if "j \<noteq> i" for j using that by (simp add: W_def)
  qed (use holds_range [OF cl(2)] t(3) in simp_all)
  with run show ?thesis by blast
qed
lemma execute_initialize:
  assumes inv: "session_inv look tm P" and q: "ts_queue P = Initialize_cmd i shm_id shm_offset # q" and c: "lru_ok c" and fits: "total_of (ts_world P) + sz i < 2 ^ 64"
  shows "\<exists>W. HandleInitializeDiscardableTextureCHROMIUM c look (sz i) tm i shm_id shm_offset (ts_world P) = Inr (kDiscardableNoError, W) \<and>
    session_inv look tm (P\<lparr>ts_world := W, ts_queue := q\<rparr>)"
proof -
  let ?W = "ts_world P" and ?k = "(i, tm)"
  obtain h n p v where cl: "ts_client P i = Some (h, n)" "holds (tw_heap ?W) h p v" "texture_inv look tm i h n v (Initialize_cmd i shm_id shm_offset # of_texture i q) ?W"
    by (rule head_client [OF inv q]) simp_all
  have none: "map_of (entries_of ?W) ?k = None" using cl(3) by (cases "map_of (entries_of ?W) ?k") (auto simp: texture_inv_def)
  have t: "h = new_DiscardableHandle (look shm_id) shm_offset shm_id" "ValidateParameters (look shm_id) shm_offset" "v = 2 + int (locks_in (of_texture i q))"
    "run_count 1 (of_texture i q) = Some n" "\<exists>r. tw_textures ?W tm i = Some r \<and> tref_client_id r = i" using cl(3) none by (auto simp: texture_inv_def)
  let ?e = "\<lparr>gde_handle = h, gde_unlocked_texture_ref = None, gde_service_ref_count = 1, gde_size = sz i\<rparr>"
  define W where "W = put_entries ((?k, ?e) # entries_of ?W) (put_total (total_of ?W + sz i) ?W)"
  have fresh: "?k \<notin> fst ` set (entries_of ?W)" using none by (simp add: map_of_eq_None_iff)
  have run: "HandleInitializeDiscardableTextureCHROMIUM c look (sz i) tm i shm_id shm_offset ?W =
      res_bind (EnforceCacheSizeLimit c (sd_cache_size_limit (tw_discardables W)) W) (\<lambda>W1. Inr (kDiscardableNoError, W1))"
    using t(1,2,5) none fits AList.delete_id [OF fresh]
    by (auto simp: HandleInitializeDiscardableTextureCHROMIUM_def InsertLockedTexture_def lru_simps [OF c] Let_def u64_add_def W_def)
  have list: "list_inv tm W" using session_parts(1) [OF inv] fits fresh by (simp add: list_inv_def W_def entries_size_def)
  have es: "map_of (entries_of W) = (map_of (entries_of ?W))(?k \<mapsto> ?e)" by (simp add: W_def)
  have st: "stored (tw_heap ?W) p v (tw_heap W)" using cl(2) by (auto simp: W_def holds_def intro: stored_same)
  have "session_inv look tm (P\<lparr>ts_world := W, ts_queue := q\<rparr>)"
    by (rule executed_one [OF inv q _ cl(1,2) list es _ st]) (use holds_range [OF cl(2)] t in \<open>auto simp: texture_inv_def W_def\<close>)
  note enforce_session [OF this c, of "sd_cache_size_limit (tw_discardables W)"]
  moreover have "(P\<lparr>ts_world := W, ts_queue := q\<rparr>)\<lparr>ts_world := W'\<rparr> = P\<lparr>ts_world := W', ts_queue := q\<rparr>" for W' by simp
  ultimately obtain W' where "EnforceCacheSizeLimit c (sd_cache_size_limit (tw_discardables W)) W = Inr W'" "session_inv look tm (P\<lparr>ts_world := W', ts_queue := q\<rparr>)" by (auto simp del: texture_session.update_convs)
  with run show ?thesis by auto
qed

section \<open>Every run\<close>

lemma execute_ok:
  assumes "session_inv look tm P" "lru_ok c" "ts_queue P = cmd # q" "fits sz cmd (ts_world P)"
  shows "\<exists>W. execute_command c look sz tm cmd (ts_world P) = Inr W \<and> session_inv look tm (P\<lparr>ts_world := W, ts_queue := q\<rparr>)"
proof (cases cmd)
  case (Initialize_cmd i shm_id shm_offset)
  then show ?thesis using execute_initialize [of look tm P i shm_id shm_offset q c sz] assms by fastforce
next
  case (Lock_cmd i)
  then show ?thesis using execute_lock [of look tm P i q] assms by simp
next
  case (Unlock_cmd i)
  then show ?thesis using execute_unlock [of look tm P i q c] assms by simp
qed

lemma pressure_ok:
  assumes "session_inv look tm P" "lru_ok c"
  shows "\<exists>W. HandleMemoryPressure c level (ts_world P) = Inr W \<and> session_inv look tm (P\<lparr>ts_world := W\<rparr>)"
  unfolding HandleMemoryPressure_def by (rule enforce_session [OF assms])

lemma session_step_inv:
  assumes "session_step c look sz tm P P'" "session_inv look tm P" "lru_ok c"
  shows "session_inv look tm P'"
  using assms(1)
proof cases
  case (create i r h shm_id shm_offset p u hp)
  show ?thesis unfolding create(1) by (rule create_inv [OF assms(2) create(2-7) create(8) create(9)])
next
  case (lock i h n hp)
  then show ?thesis using lock_inv [OF assms(2)] by simp
next
  case (lock_fails i h n hp)
  then show ?thesis using lock_fails_inv [OF assms(2)] by simp
next
  case (unlock i h n)
  then show ?thesis using unlock_inv [OF assms(2)] by simp
next
  case (execute cmd q W)
  then show ?thesis using execute_ok [OF assms(2,3)] by fastforce
next
  case (pressure level W)
  then show ?thesis using pressure_ok [OF assms(2,3), of level] by simp
qed

definition session_start :: "'m texture_session \<Rightarrow> bool" where
  "session_start P \<longleftrightarrow> entries_of (ts_world P) = [] \<and> total_of (ts_world P) = 0 \<and> ts_queue P = [] \<and> ts_client P = (\<lambda>_. None)"

lemma session_start_inv: "session_start P \<Longrightarrow> session_inv look tm P"
  by (simp add: session_start_def session_inv_def list_inv_def entries_size_def clients_apart_def client_inv_def of_texture_def)

lemma session_run_inv:
  assumes "(session_step c look sz tm)\<^sup>*\<^sup>* P P'" "session_start P" "lru_ok c"
  shows "session_inv look tm P'"
  using assms(1)
proof (induction rule: rtranclp_induct)
  case base
  show ?case by (rule session_start_inv [OF assms(2)])
next
  case (step Q R)
  show ?case by (rule session_step_inv [OF step.hyps(2) step.IH assms(3)])
qed

text \<open>A texture that the client has locked is alive: its handle can be locked again, and once the commands on the way are executed the manager has the texture.\<close>

lemma locked_texture_there:
  assumes "session_inv look tm P" "ts_client P i = Some (h, n)" "0 < n"
  shows "\<exists>v > 0. handle_load h (tw_heap (ts_world P)) = Inr v" "of_texture i (ts_queue P) = [] \<Longrightarrow> tw_textures (ts_world P) tm i \<noteq> None"
proof -
  obtain p v where p: "holds (tw_heap (ts_world P)) h p v" "texture_inv look tm i h n v (of_texture i (ts_queue P)) (ts_world P)"
    by (rule client_invD [OF session_parts(3) [OF assms(1)] assms(2)])
  have "v > 0" using p(2) assms(3) by (cases "map_of (entries_of (ts_world P)) (i, tm)") (auto simp: texture_inv_def)
  with load_ops(1) [OF p(1)] show "\<exists>v > 0. handle_load h (tw_heap (ts_world P)) = Inr v" by blast
  show "tw_textures (ts_world P) tm i \<noteq> None" if "of_texture i (ts_queue P) = []"
    using p(2) assms(3) that by (cases "map_of (entries_of (ts_world P)) (i, tm)") (auto simp: texture_inv_def split: if_splits)
qed

end
