(* ===== verification/Discardable_Properties.thy ===== *)
theory Discardable_Properties
  imports Discardable_Memory Discardable_Protocol
begin

text \<open>
  What the discardable handles and textures promise, with examples: a buffer of two handles, a cache over lists and one texture manager.
\<close>

section \<open>Examples\<close>

definition example_block :: gpu_buffer where
  "example_block = \<lparr>buf_memory = 0, buf_size = 8\<rparr>"

definition example_handle :: "nat \<Rightarrow> discardable_handle" where
  "example_handle j = new_DiscardableHandle (Some example_block) (4 * j) 1"

definition example_heap :: "u32 \<Rightarrow> u32 \<Rightarrow> heap" where
  "example_heap u v = [StoreU32Unaligned u @ StoreU32Unaligned v]"

definition example_lru :: "('k, 'v) lru_ops" where
  "example_lru = \<lparr>lru_Get = (\<lambda>k es. case map_of es k of None \<Rightarrow> es | Some v \<Rightarrow> (k, v) # AList.delete k es),
     lru_Put = (\<lambda>k v es. (k, v) # AList.delete k es), lru_Erase = AList.delete\<rparr>"

definition example_textures :: "heap \<Rightarrow> unit texture_world" where
  "example_textures hp = \<lparr>tw_discardables = new_ServiceDiscardableManager 0 100, tw_textures = (\<lambda>_. [7 \<mapsto> \<lparr>tref_client_id = 7, tref_name = 0\<rparr>]), tw_heap = hp\<rparr>"

lemma example_lru_ok: "lru_ok example_lru"
  by (simp add: lru_ok_def example_lru_def)

lemma example_at: "j < 2 \<Longrightarrow> handle_at (example_heap u v) (example_handle j) (0, 4 * j)"
  by (simp add: handle_at_def example_handle_def example_heap_def example_block_def new_DiscardableHandle_def AsAtomic_def Buffer_GetDataAddress_def)

lemma example_holds:
  assumes "u < 2 ^ 31" "v < 2 ^ 31"
  shows "holds (example_heap u v) (example_handle 0) (0, 0) (int u)" "holds (example_heap u v) (example_handle 1) (0, 4) (int v)"
proof -
  have "read_bytes (example_heap u v) (0, 0) 4 = StoreU32Unaligned u" "read_bytes (example_heap u v) (0, 4) 4 = StoreU32Unaligned v"
    by (simp_all add: read_bytes_def example_heap_def StoreU32Unaligned_def)
  moreover have "LoadU32Unaligned (StoreU32Unaligned u) = u" "LoadU32Unaligned (StoreU32Unaligned v) = v"
    using Load_Store_U32 [of u "[]"] Load_Store_U32 [of v "[]"] assms by simp_all
  ultimately have "atomic_load (example_heap u v) (0, 0) = int u" "atomic_load (example_heap u v) (0, 4) = int v"
    using assms by (simp_all add: atomic_load_def i32_of_u32_small)
  then show "holds (example_heap u v) (example_handle 0) (0, 0) (int u)" "holds (example_heap u v) (example_handle 1) (0, 4) (int v)"
    using example_at [of 0 u v] example_at [of 1 u v] assms by (simp_all add: holds_def)
qed

section \<open>Handles\<close>

text \<open>
  C15. Whatever threads of the client lock a \<^verbatim>\<open>DiscardableHandle\<close> and the service unlocks or deletes it, one atomic operation at a time and in any order, its value counts: one more than
  the locks that are not unlocked, the first of them the constructor's, until the service has deleted it, and then 0. \<^verbatim>\<open>Delete\<close> succeeds just when every lock is unlocked, and a lock that has loaded the value
  before the deletion does not succeed after it.
\<close>

theorem discardable_handle_counts:
  assumes "handle_run h W" "hw_locks W + 3 < 2 ^ 31"
  shows "handle_load h (hw_heap W) = Inr (if hw_deleted W then 0 else int (hw_locks W) + 2 - int (hw_unlocks W)) \<and>
    (\<exists>hp. ServiceDiscardableHandle_Delete h (hw_heap W) = Inr (\<not> hw_deleted W \<and> hw_unlocks W = Suc (hw_locks W), hp)) \<and>
    (\<forall>c v. hw_deleted W \<and> hw_pc W c = Swapping v \<longrightarrow> (\<exists>hp. Lock_swap h v (hw_heap W) = Inr (False, hp)))"
proof -
  let ?v = "if hw_deleted W then 0 else int (hw_locks W) + 2 - int (hw_unlocks W)"
  obtain p where p: "holds (hw_heap W) h p ?v" and u: "hw_unlocks W \<le> Suc (hw_locks W)"
    and sw: "\<And>c v. hw_pc W c = Swapping v \<Longrightarrow> 0 < v \<and> v \<le> int (hw_locks W) + 2"
    using handle_run_inv [OF assms] unfolding handle_inv_def by blast
  have one: "?v = 1 \<longleftrightarrow> \<not> hw_deleted W \<and> hw_unlocks W = Suc (hw_locks W)" by auto
  have "\<exists>hp. ServiceDiscardableHandle_Delete h (hw_heap W) = Inr (?v = 1, hp)" using Delete_ok [OF p] by blast
  then have "\<exists>hp. ServiceDiscardableHandle_Delete h (hw_heap W) = Inr (\<not> hw_deleted W \<and> hw_unlocks W = Suc (hw_locks W), hp)" unfolding one .
  moreover have "\<exists>hp. Lock_swap h v (hw_heap W) = Inr (False, hp)" if d: "hw_deleted W" and pc: "hw_pc W c = Swapping v" for c v
    using Lock_swap_ok [OF p, of v] sw [OF pc] d assms(2) by fastforce
  ultimately show ?thesis using load_ops(1) [OF p] by blast
qed

theorem discardable_handle_counts_witness:
  "\<exists>W :: nat handle_world. handle_run (example_handle 0) W \<and> handle_load (example_handle 0) (hw_heap W) = Inr 1 \<and>
     (\<exists>hp. ServiceDiscardableHandle_Delete (example_handle 0) (hw_heap W) = Inr (True, hp))"
proof -
  have at: "handle_at (example_heap 0 0) (example_handle 0) (0, 0)" using example_at [of 0 0 0] by simp
  obtain hp where hp: "new_ClientDiscardableHandle (Some example_block) 0 1 (example_heap 0 0) = Inr (example_handle 0, hp)" "stored (example_heap 0 0) (0, 0) 2 hp"
    using new_handle_ok [of "example_heap 0 0" "Some example_block" 0 1 "(0, 0)"] at by (auto simp: example_handle_def)
  have h: "holds hp (example_handle 0) (0, 0) 2" by (rule holds_stored [OF example_holds(1) [of 0 0] hp(2)]) simp_all
  let ?W = "\<lparr>hw_heap = hp, hw_pc = (\<lambda>_. Outside), hw_locks = 0, hw_unlocks = 0, hw_deleted = False\<rparr> :: nat handle_world"
  obtain hp1 where hp1: "ServiceDiscardableHandle_Unlock (example_handle 0) hp = Inr hp1" using Unlock_ok [OF h] by auto
  let ?W1 = "?W\<lparr>hw_heap := hp1, hw_unlocks := Suc (hw_unlocks ?W)\<rparr>"
  have "handle_run (example_handle 0) ?W" by (rule hr_new [OF hp(1) at])
  moreover have "handle_step (example_handle 0) ?W ?W1" by (rule hs_unlock) (use hp1 in simp_all)
  ultimately have r: "handle_run (example_handle 0) ?W1" by (rule hr_step)
  from discardable_handle_counts [OF r] r show ?thesis by (intro exI [of _ ?W1]) simp
qed


text \<open>
  C35. \<^verbatim>\<open>HandleIsDeleted\<close> loses memory: when the service has deleted a handle it forgets the handle, but unlike \<^verbatim>\<open>CheckDeleted\<close> it does not give the element back. Nobody holds the element any more,
  and it is not free: neither a later handle nor a release of the buffer will come to it.
\<close>

theorem HandleIsDeleted_loses_the_element:
  assumes "dm_inv look hp m" "map_of (dm_handles m) i = Some h" "handle_load h hp = Inr 0"
  shows "\<exists>m' a j. HandleIsDeleted i hp m = Inr (True, m') \<and> a \<in> set (dm_allocations m') \<and> j < dm_elements_per_allocation m' \<and> h = elem a j \<and>
    j \<notin> fo_members (ca_free_offsets a) \<and> h \<notin> dm_held m' \<and> dm_inv look hp m'"
  using HandleIsDeleted_leaks [OF assms(1,2)] assms(3) unfolding is_deleted_def by blast

definition example_pool :: discardable_manager where
  "example_pool = \<lparr>dm_allocation_size = 8, dm_element_size = 4, dm_elements_per_allocation = 2,
     dm_allocations = [\<lparr>ca_buffer = example_block, ca_shm_id = 1, ca_free_offsets = \<lparr>fo_element_count = 2, fo_free_ranges = [(1, 2)]\<rparr>\<rparr>],
     dm_handles = [(3, example_handle 0)], dm_pending_handles = []\<rparr>"

lemma example_pool_inv: "dm_inv [1 \<mapsto> example_block] (example_heap 0 0) example_pool"
  by (auto simp: dm_inv_def example_pool_def dm_held_def pool_ok_def alloc_ok_def buffer_ok_def example_block_def example_heap_def fo_inv_def fo_members_def
      elem_def example_handle_def intro: exI [of _ 0])

theorem HandleIsDeleted_loses_the_element_witness:
  "\<exists>m' a j. HandleIsDeleted 3 (example_heap 0 0) example_pool = Inr (True, m') \<and> a \<in> set (dm_allocations m') \<and> j < 2 \<and> example_handle 0 = elem a j \<and>
     j \<notin> fo_members (ca_free_offsets a) \<and> example_handle 0 \<notin> dm_held m'"
proof -
  have h: "map_of (dm_handles example_pool) 3 = Some (example_handle 0)" by (simp add: example_pool_def)
  have z: "handle_load (example_handle 0) (example_heap 0 0) = Inr 0" using load_ops(1) [OF example_holds(1) [of 0 0]] by simp
  obtain m' a j where r: "HandleIsDeleted 3 (example_heap 0 0) example_pool = Inr (True, m')" "a \<in> set (dm_allocations m')" "j < dm_elements_per_allocation m'"
    "example_handle 0 = elem a j" "j \<notin> fo_members (ca_free_offsets a)" "example_handle 0 \<notin> dm_held m'"
    using HandleIsDeleted_loses_the_element [OF example_pool_inv h z] by blast
  moreover have "dm_elements_per_allocation m' = 2" using r(1) h by (auto simp: HandleIsDeleted_def res_simps example_pool_def split: if_splits)
  ultimately show ?thesis by auto
qed
section \<open>Textures\<close>

text \<open>
  C28. \<^verbatim>\<open>EnforceCacheSizeLimit\<close> comes back, with the cache's invariant kept. It evicts just what \<open>evicted\<close> says, the entries that nobody has locked, the least recently used first, and no more of them than it takes
  to get below the limit; the evicted textures are gone and their handles deleted, the total is the sum of the sizes left, and no other handle has changed. The limit is kept then, or every texture left is locked.
\<close>

theorem EnforceCacheSizeLimit_evicts:
  fixes limit :: u64
  assumes "lru_ok c" "cache_ok W"
  defines "ev \<equiv> evicted (tw_heap W) limit (total_of W) (rev (entries_of W))"
  shows "\<exists>W'. EnforceCacheSizeLimit c limit W = Inr W' \<and> cache_ok W' \<and> evicts ev W W' \<and>
    (total_of W' \<le> limit \<or> (\<forall>x \<in> set (entries_of W'). \<not> unlocked (tw_heap W') x))"
  unfolding ev_def by (rule EnforceCacheSizeLimit_ok [OF assms(1,2)])

text \<open>Two entries, of which the first is unlocked.\<close>

definition example_entry :: "nat \<Rightarrow> texture_ref option \<Rightarrow> (u32 \<times> unit) \<times> discardable_entry" where
  "example_entry j r = ((7 + j, ()), \<lparr>gde_handle = example_handle j, gde_unlocked_texture_ref = r, gde_service_ref_count = j, gde_size = 50\<rparr>)"

definition example_cache :: "unit texture_world" where
  "example_cache = \<lparr>tw_discardables = \<lparr>sd_entries = [example_entry 0 (Some \<lparr>tref_client_id = 7, tref_name = 0\<rparr>), example_entry 1 None], sd_total_size = 100,
     sd_cache_size_limit = 60\<rparr>, tw_textures = (\<lambda>_. [8 \<mapsto> \<lparr>tref_client_id = 8, tref_name = 1\<rparr>]), tw_heap = example_heap 1 2\<rparr>"

lemma example_cache_ok: "cache_ok example_cache"
proof -
  let ?x = "example_entry 0 (Some \<lparr>tref_client_id = 7, tref_name = 0\<rparr>)" and ?y = "example_entry 1 None" and ?hp = "example_heap 1 2"
  have h: "holds ?hp (gde_handle (snd ?x)) (0, 0) 1" "holds ?hp (gde_handle (snd ?y)) (0, 4) 2"
    using example_holds [of 1 2] by (simp_all add: example_entry_def)
  have "entry_ok ?hp ?x" unfolding entry_ok_def by (intro exI conjI, rule h(1)) (simp add: example_entry_def)
  moreover have "entry_ok ?hp ?y" unfolding entry_ok_def by (intro exI conjI, rule h(2)) simp
  moreover have "handles_apart ?hp [?x, ?y]" unfolding handles_apart_def
  proof (intro ballI allI impI)
    fix x y p u q v
    assume e: "x \<in> set [?x, ?y]" "y \<in> set [?x, ?y]" "x \<noteq> y" and hold: "holds ?hp (gde_handle (snd x)) p u" "holds ?hp (gde_handle (snd y)) q v"
    have "words_apart (0, 0) (0, 4)" "words_apart (0, 4) (0, 0)" by (simp_all add: words_apart_def regions_disjoint_def)
    moreover have "p = (0, 0) \<and> q = (0, 4) \<or> p = (0, 4) \<and> q = (0, 0)" using e hold h load_iff_holds by (metis empty_iff empty_set set_ConsD)
    ultimately show "words_apart p q" by blast
  qed
  ultimately show ?thesis by (auto simp: cache_ok_def example_cache_def entries_size_def) (simp_all add: example_entry_def)
qed

theorem EnforceCacheSizeLimit_evicts_witness:
  "\<exists>W'. EnforceCacheSizeLimit example_lru 60 example_cache = Inr W' \<and> entries_of W' = [example_entry 1 None] \<and> total_of W' = 50 \<and>
     handle_load (example_handle 0) (tw_heap W') = Inr 0"
proof -
  let ?x = "example_entry 0 (Some \<lparr>tref_client_id = 7, tref_name = 0\<rparr>)" and ?y = "example_entry 1 None"
  have u: "unlocked (example_heap 1 2) ?x" "\<not> unlocked (example_heap 1 2) ?y"
    using load_ops(1) [OF example_holds(1) [of 1 2]] load_ops(1) [OF example_holds(2) [of 1 2]] by (simp_all add: unlocked_def example_entry_def)
  then have ev: "evicted (tw_heap example_cache) 60 (total_of example_cache) (rev (entries_of example_cache)) = [?x]"
    by (simp add: example_cache_def)
  obtain W' where "EnforceCacheSizeLimit example_lru 60 example_cache = Inr W'" "evicts [?x] example_cache W'"
    using EnforceCacheSizeLimit_evicts [OF example_lru_ok example_cache_ok, of 60] unfolding ev by blast
  then show ?thesis by (intro exI [of _ W']) (simp add: evicts_def example_cache_def entries_size_def example_entry_def)
qed

text \<open>
  C19. The service trusts the client's balance of locks. A client that initializes a texture, sends the command that locks it without having locked its handle, and unlocks it, leaves an entry whose handle is unlocked
  while the service has no texture for it; when the cache is to shrink, \<^verbatim>\<open>EnforceCacheSizeLimit\<close> returns a null texture to the texture manager, which dereferences it.
\<close>

theorem unbalanced_lock_crashes:
  assumes "lru_ok c" "entries_of W = []" "total_of W = 0" "n \<le> sd_cache_size_limit (tw_discardables W)" "0 < n" "n < 2 ^ 64"
    and "tw_textures W tm i = Some r" "ValidateParameters (look shm_id) shm_offset" "holds (tw_heap W) (new_DiscardableHandle (look shm_id) shm_offset shm_id) p 2"
  shows "\<exists>W1 W2 W3. HandleInitializeDiscardableTextureCHROMIUM c look n tm i shm_id shm_offset W = Inr (kDiscardableNoError, W1) \<and>
    HandleLockDiscardableTextureCHROMIUM tm i W1 = Inr W2 \<and> HandleUnlockDiscardableTextureCHROMIUM c tm i W2 = Inr W3 \<and>
    HandleMemoryPressure c MEMORY_PRESSURE_LEVEL_CRITICAL W3 = Inl Null_dereference"
  by (rule unbalanced_lock [where look = look and shm = shm_id and off = shm_offset]) (use assms in simp_all)

theorem unbalanced_lock_crashes_witness:
  "\<exists>W1 W2 W3. HandleInitializeDiscardableTextureCHROMIUM example_lru [1 \<mapsto> example_block] 50 () 7 1 0 (example_textures (example_heap 2 0)) = Inr (kDiscardableNoError, W1) \<and>
     HandleLockDiscardableTextureCHROMIUM () 7 W1 = Inr W2 \<and> HandleUnlockDiscardableTextureCHROMIUM example_lru () 7 W2 = Inr W3 \<and>
     HandleMemoryPressure example_lru MEMORY_PRESSURE_LEVEL_CRITICAL W3 = Inl Null_dereference"
  by (rule unbalanced_lock_crashes [OF example_lru_ok, where p = "(0, 0)" and r = "\<lparr>tref_client_id = 7, tref_name = 0\<rparr>"])
    (use example_holds(1) [of 2 0] in \<open>simp_all add: example_textures_def new_ServiceDiscardableManager_def ValidateParameters_def example_block_def
      Buffer_GetDataAddress_def example_handle_def\<close>)

text \<open>
  C29. With a client that keeps to the protocol, which locks the handle before it sends the command that locks and sends no more unlocks than it has locks, and with the service executing the commands and shrinking its cache at any moment:
  a texture that the client has locked is never discarded. Its handle is not deleted, and once the commands about it are executed the texture manager has the texture. Neither the execution of the commands nor the
  shrinking of the cache fails.
\<close>

theorem locked_textures_stay:
  assumes "lru_ok c" "session_start P" "(session_step c look sz tm)\<^sup>*\<^sup>* P P'"
  shows "(\<forall>i h n. ts_client P' i = Some (h, n) \<and> 0 < n \<longrightarrow> (\<exists>v > 0. handle_load h (tw_heap (ts_world P')) = Inr v) \<and>
      (of_texture i (ts_queue P') = [] \<longrightarrow> tw_textures (ts_world P') tm i \<noteq> None)) \<and>
    (\<forall>cmd q. ts_queue P' = cmd # q \<and> fits sz cmd (ts_world P') \<longrightarrow> (\<exists>W. execute_command c look sz tm cmd (ts_world P') = Inr W)) \<and>
    (\<forall>level. \<exists>W. HandleMemoryPressure c level (ts_world P') = Inr W)"
proof -
  note inv = session_run_inv [OF assms(3,2,1)]
  show ?thesis using locked_texture_there [OF inv] execute_ok [OF inv assms(1)] pressure_ok [OF inv assms(1)] by meson
qed

theorem locked_textures_stay_witness:
  "\<exists>P' h. (session_step example_lru [1 \<mapsto> example_block] (\<lambda>_. 50) ())\<^sup>*\<^sup>* \<lparr>ts_world = example_textures (example_heap 0 0), ts_queue = [], ts_client = Map.empty\<rparr> P' \<and>
     ts_client P' 7 = Some (h, 1) \<and> ts_queue P' = [] \<and> tw_textures (ts_world P') () 7 \<noteq> None \<and>
     (\<exists>W. HandleMemoryPressure example_lru MEMORY_PRESSURE_LEVEL_CRITICAL (ts_world P') = Inr W)"
proof -
  let ?look = "[1 \<mapsto> example_block]" and ?h = "example_handle 0" and ?sz = "\<lambda>_ :: u32. 50 :: u64"
  let ?P = "\<lparr>ts_world = example_textures (example_heap 0 0), ts_queue = [], ts_client = Map.empty\<rparr>"
  let ?run = "(session_step example_lru ?look ?sz ())\<^sup>*\<^sup>*"
  have start: "session_start ?P" by (simp add: session_start_def example_textures_def new_ServiceDiscardableManager_def)
  have hd: "?h = new_DiscardableHandle (?look 1) 0 1" by (simp add: example_handle_def)
  have h: "holds (tw_heap (ts_world ?P)) ?h (0, 0) 0" using example_holds(1) [of 0 0] by (simp add: example_textures_def)
  obtain hp where hp: "new_ClientDiscardableHandle (?look 1) 0 1 (tw_heap (ts_world ?P)) = Inr (?h, hp)"
    using new_handle_ok [of "tw_heap (ts_world ?P)" "?look 1" 0 1 "(0, 0)"] h unfolding hd [symmetric] holds_def by blast
  let ?P1 = "send [Initialize_cmd 7 1 0] ((ts_client ?P)(7 \<mapsto> (?h, 1))) (put_heap hp ?P)"
  have "session_step example_lru ?look ?sz () ?P ?P1"
    by (rule session_step.create [where r = "\<lparr>tref_client_id = 7, tref_name = 0\<rparr>" and p = "(0, 0)" and u = 0])
      (use hd h hp in \<open>simp_all add: example_textures_def ValidateParameters_def example_block_def Buffer_GetDataAddress_def\<close>)
  moreover define P1 where "P1 = ?P1"
  ultimately have r1: "?run ?P P1" by (simp add: r_into_rtranclp)
  have q: "ts_queue P1 = Initialize_cmd 7 1 0 # []" and c1: "ts_client P1 7 = Some (?h, 1)" by (simp_all add: P1_def)
  have f: "fits ?sz (Initialize_cmd 7 1 0) (ts_world P1)" by (simp add: P1_def example_textures_def new_ServiceDiscardableManager_def)
  note s1 = locked_textures_stay [OF example_lru_ok start r1]
  have "\<exists>W. execute_command example_lru ?look ?sz () (Initialize_cmd 7 1 0) (ts_world P1) = Inr W"
    by (rule conjunct1 [OF conjunct2 [OF s1], rule_format, OF conjI [OF q f]])
  then obtain W where W: "execute_command example_lru ?look ?sz () (Initialize_cmd 7 1 0) (ts_world P1) = Inr W" ..
  let ?P2 = "P1\<lparr>ts_world := W, ts_queue := []\<rparr>"
  have r2: "?run ?P ?P2" by (rule rtranclp.rtrancl_into_rtrancl [OF r1]) (rule session_step.execute [OF q f W])
  note s2 = locked_textures_stay [OF example_lru_ok start r2]
  have cl: "ts_client ?P2 7 = Some (?h, 1)" "ts_queue ?P2 = []" using c1 by simp_all
  have "tw_textures (ts_world ?P2) () 7 \<noteq> None"
    using conjunct1 [OF s2, rule_format, of 7 ?h 1] cl by (simp add: of_texture_def)
  moreover have "\<exists>W. HandleMemoryPressure example_lru MEMORY_PRESSURE_LEVEL_CRITICAL (ts_world ?P2) = Inr W" by (rule conjunct2 [OF conjunct2 [OF s2], rule_format])
  ultimately show ?thesis using r2 cl by (intro exI [of _ ?P2] exI [of _ ?h] conjI) assumption+
qed

end
