(* ===== verification/Gles2_Utils.thy ===== *)
theory Gles2_Utils
  imports Prelude
begin

text \<open>
  From \<^verbatim>\<open>gpu/command_buffer/common/gles2_cmd_utils.{h,cc}\<close>: how much memory an image occupies, which the decoders check before they let the driver read it, and
  the functions that take numbers and names apart and put them together.

  The values of the enums of OpenGL are not part of the sources: an enum is a datatype with the names that the sources use and one more for the others.
\<close>

section \<open>Checked arithmetic\<close>

text \<open>
  \<^verbatim>\<open>base::CheckMul\<close> and its like compute in the integers; the result is valid if it fits the type with the larger range of the two operands'.
\<close>

definition chk_u32 :: "int \<Rightarrow> u32 option" where
  "chk_u32 x = (if 0 \<le> x \<and> x < 2 ^ 32 then Some (nat x) else None)"

definition chk_i32 :: "int \<Rightarrow> i32 option" where
  "chk_i32 x = (if - (2 ^ 31) \<le> x \<and> x < 2 ^ 31 then Some x else None)"

section \<open>Sizes of images\<close>

datatype gl_type = GL_FLOAT_32_UNSIGNED_INT_24_8_REV | GL_FLOAT | GL_UNSIGNED_INT_24_8_OES | GL_UNSIGNED_INT | GL_INT | GL_UNSIGNED_INT_2_10_10_10_REV
  | GL_UNSIGNED_INT_10F_11F_11F_REV | GL_UNSIGNED_INT_5_9_9_9_REV | GL_HALF_FLOAT | GL_HALF_FLOAT_OES | GL_UNSIGNED_SHORT | GL_SHORT | GL_UNSIGNED_SHORT_5_6_5
  | GL_UNSIGNED_SHORT_4_4_4_4 | GL_UNSIGNED_SHORT_5_5_5_1 | GL_UNSIGNED_BYTE | GL_BYTE | GL_FIXED | GL_INT_2_10_10_10_REV | GL_other_type u32

datatype gl_format = GL_RGB | GL_RGB_INTEGER | GL_SRGB_EXT | GL_LUMINANCE_ALPHA | GL_RG_EXT | GL_RG_INTEGER | GL_RGBA | GL_RGBA_INTEGER | GL_BGRA_EXT | GL_SRGB_ALPHA_EXT
  | GL_ALPHA | GL_LUMINANCE | GL_DEPTH_COMPONENT | GL_DEPTH_COMPONENT24_OES | GL_DEPTH_COMPONENT32_OES | GL_DEPTH_COMPONENT16 | GL_DEPTH24_STENCIL8_OES | GL_DEPTH_STENCIL_OES
  | GL_RED_EXT | GL_RED_INTEGER | GL_other_format u32

definition BytesPerElement :: "gl_type \<Rightarrow> u32" where
  "BytesPerElement type =
     (if type = GL_FLOAT_32_UNSIGNED_INT_24_8_REV then 8
      else if type \<in> {GL_FLOAT, GL_UNSIGNED_INT_24_8_OES, GL_UNSIGNED_INT, GL_INT, GL_UNSIGNED_INT_2_10_10_10_REV, GL_UNSIGNED_INT_10F_11F_11F_REV, GL_UNSIGNED_INT_5_9_9_9_REV} then 4
      else if type \<in> {GL_HALF_FLOAT, GL_HALF_FLOAT_OES, GL_UNSIGNED_SHORT, GL_SHORT, GL_UNSIGNED_SHORT_5_6_5, GL_UNSIGNED_SHORT_4_4_4_4, GL_UNSIGNED_SHORT_5_5_5_1} then 2
      else if type \<in> {GL_UNSIGNED_BYTE, GL_BYTE} then 1
      else 0)"

definition ElementsPerGroup :: "gl_format \<Rightarrow> gl_type \<Rightarrow> u32" where
  "ElementsPerGroup format type =
     (if type \<in> {GL_UNSIGNED_SHORT_5_6_5, GL_UNSIGNED_SHORT_4_4_4_4, GL_UNSIGNED_SHORT_5_5_5_1, GL_UNSIGNED_INT_24_8_OES, GL_UNSIGNED_INT_2_10_10_10_REV,
        GL_UNSIGNED_INT_10F_11F_11F_REV, GL_UNSIGNED_INT_5_9_9_9_REV, GL_FLOAT_32_UNSIGNED_INT_24_8_REV} then 1
      else if format \<in> {GL_RGB, GL_RGB_INTEGER, GL_SRGB_EXT} then 3
      else if format \<in> {GL_LUMINANCE_ALPHA, GL_RG_EXT, GL_RG_INTEGER} then 2
      else if format \<in> {GL_RGBA, GL_RGBA_INTEGER, GL_BGRA_EXT, GL_SRGB_ALPHA_EXT} then 4
      else if format \<in> {GL_ALPHA, GL_LUMINANCE, GL_DEPTH_COMPONENT, GL_DEPTH_COMPONENT24_OES, GL_DEPTH_COMPONENT32_OES, GL_DEPTH_COMPONENT16, GL_DEPTH24_STENCIL8_OES,
        GL_DEPTH_STENCIL_OES, GL_RED_EXT, GL_RED_INTEGER} then 1
      else 0)"

definition ComputeImageGroupSize :: "gl_format \<Rightarrow> gl_type \<Rightarrow> u32 res" where
  "ComputeImageGroupSize format type =
     (let bytes_per_element = BytesPerElement type
      in dcheck (8 \<ge> bytes_per_element)
           (let elements_per_group = ElementsPerGroup format type
            in dcheck (4 \<ge> elements_per_group) (Inr (bytes_per_element * elements_per_group))))"

text \<open>The three sizes that the source stores through pointers, or none when it returns false.\<close>

record row_sizes =
  rt_unpadded_row_size :: u32
  rt_padded_row_size :: u32
  rt_padding :: u32

definition ComputeImageRowSizeHelper :: "i32 \<Rightarrow> u32 \<Rightarrow> i32 \<Rightarrow> row_sizes option res" where
  "ComputeImageRowSizeHelper width bytes_per_group alignment =
     dcheck (alignment = 1 \<or> alignment = 2 \<or> alignment = 4 \<or> alignment = 8)
       (case chk_u32 (width * int bytes_per_group) of
          None \<Rightarrow> Inr None
        | Some unpadded_row_size \<Rightarrow>
            let residual = unpadded_row_size mod nat alignment
            in if residual > 0
               then let padding = nat alignment - residual
                    in (case chk_u32 (int unpadded_row_size + int padding) of
                          None \<Rightarrow> Inr None
                        | Some padded_row_size \<Rightarrow>
                            Inr (Some \<lparr>rt_unpadded_row_size = unpadded_row_size, rt_padded_row_size = padded_row_size, rt_padding = padding\<rparr>))
               else Inr (Some \<lparr>rt_unpadded_row_size = unpadded_row_size, rt_padded_row_size = unpadded_row_size, rt_padding = 0\<rparr>))"

definition ComputeImagePaddedRowSize :: "i32 \<Rightarrow> gl_format \<Rightarrow> gl_type \<Rightarrow> i32 \<Rightarrow> u32 option res" where
  "ComputeImagePaddedRowSize width format type alignment =
     res_bind (ComputeImageGroupSize format type) (\<lambda>bytes_per_group.
     res_bind (ComputeImageRowSizeHelper width bytes_per_group alignment) (\<lambda>r. Inr (map_option rt_padded_row_size r)))"

record pixel_store_params =
  ps_alignment :: i32
  ps_row_length :: i32
  ps_image_height :: i32
  ps_skip_pixels :: i32
  ps_skip_rows :: i32
  ps_skip_images :: i32

definition new_PixelStoreParams :: pixel_store_params where
  "new_PixelStoreParams = \<lparr>ps_alignment = 4, ps_row_length = 0, ps_image_height = 0, ps_skip_pixels = 0, ps_skip_rows = 0, ps_skip_images = 0\<rparr>"

record image_sizes =
  im_size :: u32
  im_unpadded_row_size :: u32
  im_padded_row_size :: u32
  im_skip_size :: u32
  im_padding :: u32

text \<open>\<^verbatim>\<open>skip_size\<close>, a checked number that may be invalid.\<close>

definition image_skip_size :: "i32 \<Rightarrow> u32 \<Rightarrow> u32 \<Rightarrow> pixel_store_params \<Rightarrow> u32 option" where
  "image_skip_size image_height padded_row_size bytes_per_group params =
     (let s0 = (if ps_skip_images params > 0
                then Option.bind (chk_u32 image_height) (\<lambda>a. Option.bind (chk_u32 (int a * int padded_row_size)) (\<lambda>b. chk_u32 (int b * ps_skip_images params)))
                else Some 0);
          s1 = (if ps_skip_rows params > 0
                then Option.bind s0 (\<lambda>a. Option.bind (chk_u32 (int padded_row_size * ps_skip_rows params)) (\<lambda>b. chk_u32 (int a + int b))) else s0)
      in if ps_skip_pixels params > 0
         then Option.bind s1 (\<lambda>a. Option.bind (chk_u32 (int bytes_per_group * ps_skip_pixels params)) (\<lambda>b. chk_u32 (int a + int b))) else s1)"

definition ComputeImageDataSizesES3 :: "i32 \<Rightarrow> i32 \<Rightarrow> i32 \<Rightarrow> gl_format \<Rightarrow> gl_type \<Rightarrow> pixel_store_params \<Rightarrow> image_sizes option res" where
  "ComputeImageDataSizesES3 width height depth format type params =
     dcheck (width \<ge> 0 \<and> height \<ge> 0 \<and> depth \<ge> 0)
       (res_bind (ComputeImageGroupSize format type) (\<lambda>bytes_per_group.
        res_bind (ComputeImageRowSizeHelper width bytes_per_group (ps_alignment params)) (\<lambda>r.
        case r of None \<Rightarrow> Inr None | Some row \<Rightarrow>
        res_bind (if ps_row_length params > 0
                  then ComputeImageRowSizeHelper (ps_row_length params) bytes_per_group (ps_alignment params)
                  else Inr (Some row)) (\<lambda>r1.
        case r1 of None \<Rightarrow> Inr None | Some row1 \<Rightarrow>
        let unpadded_row_size = rt_unpadded_row_size row;
            padded_row_size = rt_padded_row_size row1;
            image_height = (if ps_image_height params > 0 then ps_image_height params else height)
        in (case (if depth > 0
                  then Option.bind (chk_i32 (image_height * (depth - 1))) (\<lambda>a. Option.bind (chk_i32 (a + height)) chk_u32)
                  else Some 0) of
              None \<Rightarrow> Inr None
            | Some num_of_rows \<Rightarrow>
                (case (if num_of_rows > 0
                       then Option.bind (chk_u32 (int (num_of_rows - 1) * int padded_row_size)) (\<lambda>a. chk_u32 (int a + int unpadded_row_size))
                       else Some 0) of
                   None \<Rightarrow> Inr None
                 | Some sz \<Rightarrow>
                     let skip_size = image_skip_size image_height padded_row_size bytes_per_group params
                     in if Option.bind skip_size (\<lambda>a. chk_u32 (int sz + int a)) = None then Inr None
                        else Inr (Some \<lparr>im_size = sz, im_unpadded_row_size = unpadded_row_size, im_padded_row_size = padded_row_size,
                                        im_skip_size = (case skip_size of None \<Rightarrow> 0 | Some a \<Rightarrow> a), im_padding = rt_padding row1\<rparr>)))))))"

definition ComputeImageDataSizes :: "i32 \<Rightarrow> i32 \<Rightarrow> i32 \<Rightarrow> gl_format \<Rightarrow> gl_type \<Rightarrow> i32 \<Rightarrow> image_sizes option res" where
  "ComputeImageDataSizes width height depth format type alignment =
     ComputeImageDataSizesES3 width height depth format type (new_PixelStoreParams\<lparr>ps_alignment := alignment\<rparr>)"

section \<open>Which bytes an image has\<close>

text \<open>
  The specification of OpenGL: where byte \<open>k\<close> of the pixel at \<open>(x, y, z)\<close> is, for groups of \<open>g\<close> bytes in rows of \<open>row\<close> bytes and images of \<open>rows\<close> rows.
\<close>

definition round_up :: "nat \<Rightarrow> nat \<Rightarrow> nat" where
  "round_up n a = (n + a - 1) div a * a"

definition row_stride :: "i32 \<Rightarrow> nat \<Rightarrow> pixel_store_params \<Rightarrow> nat" where
  "row_stride width g params = round_up (nat (if ps_row_length params > 0 then ps_row_length params else width) * g) (nat (ps_alignment params))"

definition pixel_byte :: "i32 \<Rightarrow> i32 \<Rightarrow> nat \<Rightarrow> pixel_store_params \<Rightarrow> nat \<Rightarrow> nat \<Rightarrow> nat \<Rightarrow> nat \<Rightarrow> nat" where
  "pixel_byte width height g params x y z k =
     (let row = row_stride width g params; rows = nat (if ps_image_height params > 0 then ps_image_height params else height)
      in (nat (ps_skip_images params) + z) * rows * row + (nat (ps_skip_rows params) + y) * row + (nat (ps_skip_pixels params) + x) * g + k)"

lemma group_size_ok: "ComputeImageGroupSize format type = Inr (BytesPerElement type * ElementsPerGroup format type)"
  by (simp add: ComputeImageGroupSize_def BytesPerElement_def ElementsPerGroup_def Let_def dcheck_def)

lemma chk_u32_Some [simp]: "chk_u32 x = Some n \<longleftrightarrow> x = int n \<and> n < 2 ^ 32"
  by (auto simp: chk_u32_def)

lemma chk_i32_Some [simp]: "chk_i32 x = Some y \<longleftrightarrow> y = x \<and> - (2 ^ 31) \<le> x \<and> x < 2 ^ 31"
  by (auto simp: chk_i32_def)

lemma round_up_eq: "0 < a \<Longrightarrow> round_up n a = (if n mod a = 0 then n else n + (a - n mod a))"
proof -
  assume a: "0 < a"
  obtain q r where n: "n = a * q + r" "r < a" using a by (metis mult_div_mod_eq mod_less_divisor)
  show ?thesis
  proof (cases "r = 0")
    case True
    then have "(n + a - 1) div a = q" using n a by (intro div_nat_eqI) auto
    then show ?thesis using n True by (simp add: round_up_def mult.commute)
  next
    case False
    have "(n + a - 1) div a = q + 1" using n False by (intro div_nat_eqI) auto
    then show ?thesis using n False by (simp add: round_up_def algebra_simps)
  qed
qed

lemma chk_u32_nat: "chk_u32 (int n) = (if n < 2 ^ 32 then Some n else None)"
  by (simp add: chk_u32_def)

text \<open>The two sizes of a row, in numbers that are not negative.\<close>

lemma row_helper_eq:
  assumes "a = 1 \<or> a = 2 \<or> a = 4 \<or> a = 8"
  shows "ComputeImageRowSizeHelper (int w) g (int a) = Inr (if w * g < 2 ^ 32 \<and> round_up (w * g) a < 2 ^ 32
    then Some \<lparr>rt_unpadded_row_size = w * g, rt_padded_row_size = round_up (w * g) a, rt_padding = round_up (w * g) a - w * g\<rparr> else None)"
proof -
  have a: "0 < a" "int a = 1 \<or> int a = 2 \<or> int a = 4 \<or> int a = 8" using assms by auto
  define n where "n = w * g"
  have m: "int w * int g = int n" by (simp add: n_def)
  show ?thesis
  proof (cases "n mod a = 0")
    case True
    then show ?thesis unfolding ComputeImageRowSizeHelper_def m n_def [symmetric] chk_u32_nat using a by (simp add: dcheck_def Let_def round_up_eq)
  next
    case False
    have p: "int n + int (a - n mod a) = int (n + (a - n mod a))" by simp
    have r: "0 < n mod a" "round_up n a = n + (a - n mod a)" using False a by (simp_all add: round_up_eq)
    then have "int n mod int a \<noteq> 0" by (simp add: zmod_int [symmetric])
    have "chk_u32 (int n + int (a - n mod a)) = (if round_up n a < 2 ^ 32 then Some (round_up n a) else None)" unfolding p chk_u32_nat r(2) ..
    then show ?thesis unfolding ComputeImageRowSizeHelper_def m n_def [symmetric] chk_u32_nat using a r(1) by (simp add: dcheck_def Let_def r(2))
  qed
qed
lemma chk_u32_ops:
  "chk_u32 (int a * int b) = Some n \<longleftrightarrow> n = a * b \<and> n < 2 ^ 32" "chk_u32 (int a + int b) = Some n \<longleftrightarrow> n = a + b \<and> n < 2 ^ 32"
  "chk_u32 (int a) = Some n \<longleftrightarrow> n = a \<and> n < 2 ^ 32"
  by (auto simp: of_nat_mult [symmetric] of_nat_add [symmetric] simp del: of_nat_mult of_nat_add)

lemma skip_stage:
  assumes "(if int k > 0 then Option.bind s (\<lambda>a. Option.bind (chk_u32 (int m * int k)) (\<lambda>b. chk_u32 (int a + int b))) else s) = Some t"
  shows "\<exists>a. s = Some a \<and> t = a + m * k"
  using assms by (cases "k = 0") (auto simp: bind_eq_Some_conv chk_u32_ops simp del: chk_u32_Some)

lemma skip_first:
  assumes "(if int k > 0 then Option.bind (chk_u32 (int ih)) (\<lambda>a. Option.bind (chk_u32 (int a * int row)) (\<lambda>b. chk_u32 (int b * int k))) else Some 0) = Some t"
  shows "t = ih * row * k"
  using assms by (cases "k = 0") (auto simp: bind_eq_Some_conv chk_u32_ops simp del: chk_u32_Some)

lemma skip_size_exact:
  assumes "image_skip_size (int ih) row g params = Some s" "ps_skip_images params = int si" "ps_skip_rows params = int sr" "ps_skip_pixels params = int sp"
  shows "s = si * ih * row + sr * row + sp * g"
proof -
  obtain a where a: "(if int sr > 0 then Option.bind (if int si > 0 then Option.bind (chk_u32 (int ih)) (\<lambda>a. Option.bind (chk_u32 (int a * int row)) (\<lambda>b. chk_u32 (int b * int si))) else Some 0)
      (\<lambda>a. Option.bind (chk_u32 (int row * int sr)) (\<lambda>b. chk_u32 (int a + int b)))
    else (if int si > 0 then Option.bind (chk_u32 (int ih)) (\<lambda>a. Option.bind (chk_u32 (int a * int row)) (\<lambda>b. chk_u32 (int b * int si))) else Some 0)) = Some a" "s = a + g * sp"
    using skip_stage [OF assms(1) [unfolded image_skip_size_def Let_def assms(2-4)]] by blast
  obtain b where b: "a = b + row * sr" "b = ih * row * si" using skip_stage [OF a(1)] skip_first by blast
  then show ?thesis using a(2) by (simp add: mult_ac)
qed

text \<open>The rows that are touched, and the size up to the last byte of the last of them.\<close>

lemma rows_exact:
  assumes "(if 0 < int d then Option.bind (chk_i32 (int ih * (int d - 1))) (\<lambda>a. Option.bind (chk_i32 (a + int h)) chk_u32) else Some 0) = Some rows"
  shows "rows = (if d = 0 then 0 else ih * (d - 1) + h)"
proof (cases d)
  case (Suc e)
  have "int ih * (int d - 1) + int h = int rows" using assms Suc by (auto simp: bind_eq_Some_conv)
  then have "int (ih * e + h) = int rows" using Suc by simp
  then show ?thesis using Suc by (simp only: of_nat_eq_iff) simp
qed (use assms in simp)

lemma data_sizes_exact:
  assumes r: "ComputeImageDataSizesES3 (int w) (int h) (int d) format type params = Inr (Some s)"
    and p: "ps_alignment params = int al" "al = 1 \<or> al = 2 \<or> al = 4 \<or> al = 8" "ps_row_length params = int rl" "ps_image_height params = int ph"
      "ps_skip_images params = int si" "ps_skip_rows params = int sr" "ps_skip_pixels params = int sp"
  defines "g \<equiv> BytesPerElement type * ElementsPerGroup format type" and "ih \<equiv> (if ph > 0 then ph else h)"
  defines "row \<equiv> round_up ((if rl > 0 then rl else w) * g) al"
  shows "im_unpadded_row_size s = w * g" "im_padded_row_size s = row" "im_skip_size s = si * ih * row + sr * row + sp * g"
    "im_size s = (if d = 0 \<or> ih * (d - 1) + h = 0 then 0 else (ih * (d - 1) + h - 1) * row + w * g)" "im_skip_size s + im_size s < 2 ^ 32"
proof -
  let ?ih = "if ps_image_height params > 0 then ps_image_height params else int h"
  have ih: "?ih = int ih" by (simp add: p(4) ih_def)
  note helper = row_helper_eq [OF p(2)]
  obtain r1 where r1: "ComputeImageRowSizeHelper (int w) g (int al) = Inr (Some r1)" "rt_unpadded_row_size r1 = w * g" "rt_padded_row_size r1 = round_up (w * g) al"
    using r helper [of w g] unfolding ComputeImageDataSizesES3_def group_size_ok p(1) g_def [symmetric] by (auto split: if_splits)
  obtain r2 where r2: "(if 0 < ps_row_length params then ComputeImageRowSizeHelper (ps_row_length params) g (int al) else Inr (Some r1)) = Inr (Some r2)" "rt_padded_row_size r2 = row"
  proof (cases "0 < rl")
    case True
    then have "ComputeImageRowSizeHelper (int rl) g (int al) \<noteq> Inr None"
      using r r1(1) unfolding ComputeImageDataSizesES3_def group_size_ok p(1) g_def [symmetric] by (auto simp: p(3))
    then show thesis using that True helper [of rl g] by (auto simp: p(3) row_def split: if_splits)
  next
    case False
    then show thesis using that [of r1] r1(3) by (simp add: p(3) row_def)
  qed
  have nonneg: "(int w \<ge> 0 \<and> int h \<ge> 0 \<and> int d \<ge> 0) = True" by simp
  note r' = r [unfolded ComputeImageDataSizesES3_def group_size_ok p(1) g_def [symmetric] Let_def dcheck_def nonneg if_True res_bind_simps r1(1) r2(1) option.case ih r1(2) r2(2)]
  obtain rows where rows: "(if 0 < int d then Option.bind (chk_i32 (int ih * (int d - 1))) (\<lambda>a. Option.bind (chk_i32 (a + int h)) chk_u32) else Some 0) = Some rows"
    using r' by (cases "if 0 < int d then Option.bind (chk_i32 (int ih * (int d - 1))) (\<lambda>a. Option.bind (chk_i32 (a + int h)) chk_u32) else Some 0") (auto simp only: option.case sum.inject option.distinct)
  note r'' = r' [unfolded rows option.case]
  obtain sz where sz: "(if rows > 0 then Option.bind (chk_u32 (int (rows - 1) * int row)) (\<lambda>a. chk_u32 (int a + int (w * g))) else Some 0) = Some sz"
    using r'' by (cases "if rows > 0 then Option.bind (chk_u32 (int (rows - 1) * int row)) (\<lambda>a. chk_u32 (int a + int (w * g))) else Some 0") (auto simp only: option.case sum.inject option.distinct)
  note r3 = r'' [unfolded sz option.case]
  obtain k where k: "image_skip_size (int ih) row g params = Some k" "sz + k < 2 ^ 32"
    and s: "s = \<lparr>im_size = sz, im_unpadded_row_size = w * g, im_padded_row_size = row, im_skip_size = k, im_padding = rt_padding r2\<rparr>"
    using r3 by (cases "image_skip_size (int ih) row g params") (auto simp: chk_u32_def split: if_splits)
  have "sz = (if rows = 0 then 0 else (rows - 1) * row + w * g)"
    using sz by (cases rows) (auto simp: bind_eq_Some_conv chk_u32_ops simp del: chk_u32_Some of_nat_mult)
  with rows_exact [OF rows] skip_size_exact [OF k(1) p(5-7)] k(2) s
  show "im_unpadded_row_size s = w * g" "im_padded_row_size s = row" "im_skip_size s = si * ih * row + sr * row + sp * g"
    "im_size s = (if d = 0 \<or> ih * (d - 1) + h = 0 then 0 else (ih * (d - 1) + h - 1) * row + w * g)" "im_skip_size s + im_size s < 2 ^ 32" by auto
qed

text \<open>Every byte of every pixel lies within the sizes, and the last byte of the last pixel is the last of them.\<close>

lemma rows_below:
  assumes "y < h" "z < (d :: nat)"
  shows "z * ih + y \<le> ih * (d - 1) + h - 1"
proof -
  have "z * ih \<le> (d - 1) * ih" using assms(2) by (intro mult_le_mono1) simp
  then have "z * ih \<le> ih * (d - 1)" by (simp only: mult.commute)
  then show ?thesis using assms(1) by linarith
qed

lemma pixel_byte_below:
  assumes r: "ComputeImageDataSizesES3 (int w) (int h) (int d) format type params = Inr (Some s)"
    and p: "ps_alignment params = int al" "al = 1 \<or> al = 2 \<or> al = 4 \<or> al = 8" "ps_row_length params = int rl" "ps_image_height params = int ph"
      "ps_skip_images params = int si" "ps_skip_rows params = int sr" "ps_skip_pixels params = int sp"
  defines "g \<equiv> BytesPerElement type * ElementsPerGroup format type"
  assumes x: "x < w" "y < h" "z < d" "k < g"
  shows "im_skip_size s \<le> pixel_byte (int w) (int h) g params x y z k" "pixel_byte (int w) (int h) g params x y z k < im_skip_size s + im_size s"
    and "x = w - 1 \<Longrightarrow> y = h - 1 \<Longrightarrow> z = d - 1 \<Longrightarrow> k = g - 1 \<Longrightarrow> Suc (pixel_byte (int w) (int h) g params x y z k) = im_skip_size s + im_size s"
proof -
  define ih where "ih = (if ph > 0 then ph else h)"
  define row where "row = round_up ((if rl > 0 then rl else w) * g) al"
  note e = data_sizes_exact [OF r p, folded g_def, folded ih_def row_def]
  have stride: "row_stride (int w) g params = row" by (simp add: row_stride_def p row_def)
  have rows: "nat (if ps_image_height params > 0 then ps_image_height params else int h) = ih" by (simp add: p ih_def)
  have b: "pixel_byte (int w) (int h) g params x y z k = im_skip_size s + ((z * ih + y) * row + (x * g + k))"
    unfolding pixel_byte_def Let_def stride rows e(3) p(5-7) nat_int by (simp add: algebra_simps)
  have sz: "im_size s = (ih * (d - 1) + h - 1) * row + w * g" using e(4) x(2,3) by simp
  have "x * g + k < w * g"
  proof -
    have "x * g + k < Suc x * g" using x(4) by simp
    also have "\<dots> \<le> w * g" using x(1) by (intro mult_le_mono1) simp
    finally show ?thesis .
  qed
  moreover have "(z * ih + y) * row \<le> (ih * (d - 1) + h - 1) * row" by (intro mult_le_mono1 rows_below x)
  ultimately show "pixel_byte (int w) (int h) g params x y z k < im_skip_size s + im_size s" unfolding b sz by linarith
  show "im_skip_size s \<le> pixel_byte (int w) (int h) g params x y z k" unfolding b by simp
  show "Suc (pixel_byte (int w) (int h) g params x y z k) = im_skip_size s + im_size s" if l: "x = w - 1" "y = h - 1" "z = d - 1" "k = g - 1"
  proof -
    have last: "Suc (x * g + k) = w * g" using x(1,4) l by (cases w) auto
    have top: "z * ih + y = ih * (d - 1) + h - 1" using x(2) l by (simp add: mult.commute)
    show ?thesis unfolding b sz top last [symmetric] by simp
  qed
qed
section \<open>Names of array elements\<close>

record glsl_array_name =
  gan_base_name :: string
  gan_element_index :: i32

definition no_array_name :: glsl_array_name where
  "no_array_name = \<lparr>gan_base_name = [], gan_element_index = -1\<rparr>"

fun find_last_of :: "char \<Rightarrow> string \<Rightarrow> nat option" where
  "find_last_of c [] = None"
| "find_last_of c (x # xs) = (case find_last_of c xs of Some i \<Rightarrow> Some (Suc i) | None \<Rightarrow> if x = c then Some 0 else None)"

text \<open>The difference of two characters, in eight bits with a sign.\<close>

definition char_digit :: "char \<Rightarrow> int" where
  "char_digit c = (of_char c - of_char (CHR ''0'') + 128) mod 256 - 128"

text \<open>The loop over the digits: \<open>None\<close> when it returns early. The checked \<open>index\<close> stays invalid once it is.\<close>

fun parse_index :: "string \<Rightarrow> i32 option \<Rightarrow> i32 option option" where
  "parse_index [] index = Some index"
| "parse_index (c # cs) index =
     (let digit = char_digit c
      in if digit < 0 \<or> digit > 9 then None
         else parse_index cs (Option.bind index (\<lambda>a. Option.bind (chk_i32 (a * 10)) (\<lambda>b. chk_i32 (b + digit)))))"

definition new_GLSLArrayName :: "string \<Rightarrow> glsl_array_name" where
  "new_GLSLArrayName name =
     (if length name < 4 then no_array_name
      else if last name \<noteq> CHR '']'' then no_array_name
      else case find_last_of (CHR ''['') name of
        None \<Rightarrow> no_array_name
      | Some open_pos \<Rightarrow>
          if open_pos \<ge> length name - 2 then no_array_name
          else case parse_index (take (length name - 1 - (open_pos + 1)) (drop (open_pos + 1) name)) (Some 0) of
            None \<Rightarrow> no_array_name
          | Some None \<Rightarrow> no_array_name
          | Some (Some index) \<Rightarrow> \<lparr>gan_base_name = take open_pos name, gan_element_index = index\<rparr>)"

definition IsArrayName :: "glsl_array_name \<Rightarrow> bool" where
  "IsArrayName n \<longleftrightarrow> gan_element_index n \<ge> 0"

text \<open>Decimal digits, and what a string of them means.\<close>

fun decimal :: "nat \<Rightarrow> string" where
  "decimal n = (if n < 10 then [char_of (48 + n)] else decimal (n div 10) @ [char_of (48 + n mod 10)])"

declare decimal.simps [simp del]

definition digits_value :: "nat \<Rightarrow> string \<Rightarrow> nat" where
  "digits_value n cs = foldl (\<lambda>a c. 10 * a + (of_char c - 48)) n cs"

definition is_digit :: "char \<Rightarrow> bool" where
  "is_digit c \<longleftrightarrow> 48 \<le> (of_char c :: nat) \<and> (of_char c :: nat) \<le> 57"

lemma char_digit_iff: "0 \<le> char_digit c \<and> char_digit c \<le> 9 \<longleftrightarrow> is_digit c" "is_digit c \<Longrightarrow> char_digit c = int (of_char c - 48)"
proof -
  define n :: nat where "n = of_char c"
  have n: "n < 256" "(of_char c :: int) = int n" unfolding n_def by (simp_all add: of_char_def horner_sum_of_bool_2_less)
  have e: "char_digit c = (int n + 80) mod 256 - 128" unfolding char_digit_def n(2) by (simp add: add.commute)
  have m: "(int n + 80) mod 256 = (if n < 176 then int n + 80 else int n - 176)" 
  proof (cases "n < 176")
    case True
    then show ?thesis by simp
  next
    case False
    have "(int n + 80) mod 256 = (int n - 176 + 256) mod 256" by (rule arg_cong [where f = "\<lambda>x. x mod 256"]) simp
    also have "\<dots> = (int n - 176) mod 256" by (rule mod_add_self2)
    also have "\<dots> = int n - 176" using False n(1) by (intro mod_pos_pos_trivial) auto
    finally show ?thesis using False by simp
  qed
  show "0 \<le> char_digit c \<and> char_digit c \<le> 9 \<longleftrightarrow> is_digit c" unfolding e m is_digit_def n_def [symmetric] using n(1) by auto
  show "is_digit c \<Longrightarrow> char_digit c = int (of_char c - 48)" unfolding e m is_digit_def n_def [symmetric] by simp
qed

lemma digits_value_Cons [simp]: "digits_value n (c # cs) = digits_value (10 * n + (of_char c - 48)) cs" "digits_value n [] = n"
  by (simp_all add: digits_value_def)

lemma digits_value_ge: "n \<le> digits_value n cs"
proof (induction cs arbitrary: n)
  case (Cons c cs)
  have "n \<le> 10 * n + (of_char c - 48)" by simp
  also have "\<dots> \<le> digits_value n (c # cs)" using Cons.IH by simp
  finally show ?case .
qed simp

lemma parse_invalid: "parse_index cs None = (if list_all is_digit cs then Some None else None)"
  by (induction cs) (auto simp: Let_def char_digit_iff(1) [symmetric] not_less)

lemma parse_index_eq:
  "n < 2 ^ 31 \<Longrightarrow> parse_index cs (Some (int n)) =
     (if list_all is_digit cs then Some (if digits_value n cs < 2 ^ 31 then Some (int (digits_value n cs)) else None) else None)"
proof (induction cs arbitrary: n)
  case (Cons c cs)
  show ?case
  proof (cases "is_digit c")
    case False
    then show ?thesis using char_digit_iff(1) [of c] by (auto simp: Let_def)
  next
    case True
    let ?d = "of_char c - 48 :: nat"
    have d: "char_digit c = int ?d" "\<not> (char_digit c < 0 \<or> char_digit c > 9)" using char_digit_iff [of c] True by auto
    have step: "Option.bind (chk_i32 (int n * 10)) (\<lambda>b. chk_i32 (b + int ?d)) = (if 10 * n + ?d < 2 ^ 31 then Some (int (10 * n + ?d)) else None)"
      by (auto simp: chk_i32_def mult.commute)
    show ?thesis
    proof (cases "10 * n + ?d < 2 ^ 31")
      case small: True
      then show ?thesis using Cons.IH [OF small] True d step by (simp add: Let_def)
    next
      case big: False
      then have "\<not> digits_value n (c # cs) < 2 ^ 31" using digits_value_ge [of "10 * n + ?d" cs] by simp
      then show ?thesis using True d step big parse_invalid [of cs] by (simp add: Let_def)
    qed
  qed
qed simp

lemma decimal_digits: "list_all is_digit (decimal n)" "digits_value 0 (decimal n) = n" "decimal n \<noteq> []"
proof -
  have "list_all is_digit (decimal n) \<and> digits_value 0 (decimal n) = n \<and> decimal n \<noteq> []"
  proof (induction n rule: decimal.induct)
    case (1 n)
    have c: "(of_char (char_of (48 + m)) :: nat) = 48 + m" if "m < 10" for m :: nat using that by simp
    show ?case
    proof (cases "n < 10")
      case True
      then show ?thesis using c [of n] by (simp add: decimal.simps [of n] is_digit_def)
    next
      case False
      then show ?thesis using 1 c [of "n mod 10"] by (simp add: decimal.simps [of n] is_digit_def digits_value_def)
    qed
  qed
  then show "list_all is_digit (decimal n)" "digits_value 0 (decimal n) = n" "decimal n \<noteq> []" by blast+
qed

lemma find_last_of_skip: "c \<notin> set ys \<Longrightarrow> find_last_of c (xs @ c # ys) = Some (length xs)"
proof -
  assume c: "c \<notin> set ys"
  then have "find_last_of c ys = None" by (induction ys) auto
  then show ?thesis by (induction xs) auto
qed

lemma find_last_of_Some: "find_last_of c name = Some i \<Longrightarrow> i < length name \<and> name ! i = c"
  by (induction name arbitrary: i) (auto split: option.splits if_splits)

text \<open>The parser takes just what is a name, an index in decimal digits between brackets, and nothing after.\<close>

lemma GLSLArrayName_print:
  assumes "cs \<noteq> []" "list_all is_digit cs" "digits_value 0 cs < 2 ^ 31" "b \<noteq> [] \<or> length cs \<ge> 2"
  shows "new_GLSLArrayName (b @ ''['' @ cs @ '']'') = \<lparr>gan_base_name = b, gan_element_index = int (digits_value 0 cs)\<rparr>"
proof -
  let ?name = "b @ CHR ''['' # (cs @ '']'')"
  have "\<not> is_digit (CHR ''['')" by (simp add: is_digit_def of_char_def)
  then have "CHR ''['' \<notin> set (cs @ '']'')" using assms(2) by (auto simp: list_all_iff)
  then have f: "find_last_of (CHR ''['') ?name = Some (length b)" by (rule find_last_of_skip)
  have l: "\<not> length ?name < 4" "\<not> length b \<ge> length ?name - 2" "last ?name = CHR '']''" using assms(1,4) by (cases cs; cases b; auto)+
  have "take (length ?name - 1 - (length b + 1)) (drop (length b + 1) ?name) = cs" by simp
  then show ?thesis using f l parse_index_eq [of 0 cs] assms(2,3) by (simp add: new_GLSLArrayName_def)
qed

lemma GLSLArrayName_parse:
  assumes "IsArrayName (new_GLSLArrayName name)"
  obtains cs where "name = gan_base_name (new_GLSLArrayName name) @ ''['' @ cs @ '']''" "list_all is_digit cs" "cs \<noteq> []"
    "gan_element_index (new_GLSLArrayName name) = int (digits_value 0 cs)" "digits_value 0 cs < 2 ^ 31"
proof -
  obtain i where i: "find_last_of (CHR ''['') name = Some i" "\<not> i \<ge> length name - 2" and len: "\<not> length name < 4" and last: "last name = CHR '']''"
    using assms by (auto simp: new_GLSLArrayName_def IsArrayName_def no_array_name_def split: if_splits option.splits)
  let ?cs = "take (length name - 1 - (i + 1)) (drop (i + 1) name)"
  have p: "list_all is_digit ?cs" "digits_value 0 ?cs < 2 ^ 31" "new_GLSLArrayName name = \<lparr>gan_base_name = take i name, gan_element_index = int (digits_value 0 ?cs)\<rparr>"
    using assms i len last parse_index_eq [of 0 ?cs] by (auto simp: new_GLSLArrayName_def IsArrayName_def no_array_name_def split: if_splits)
  have A: "name = take i name @ name ! i # drop (Suc i) name" using find_last_of_Some [OF i(1)] id_take_nth_drop by blast
  have B: "drop (Suc i) name = ?cs @ [last name]"
  proof -
    have "drop (Suc i) name \<noteq> []" using i(2) by auto
    then have "drop (Suc i) name = butlast (drop (Suc i) name) @ [last name]" using append_butlast_last_id [of "drop (Suc i) name"] by simp
    moreover have "butlast (drop (Suc i) name) = ?cs" by (simp add: butlast_conv_take)
    ultimately show ?thesis by simp
  qed
  have C: "name ! i = CHR ''[''" using find_last_of_Some [OF i(1)] by blast
  have D: "name = take i name @ CHR ''['' # (?cs @ [CHR '']''])" using A unfolding B C last .
  have E: "?cs \<noteq> []" using i(2) by auto
  show thesis by (rule that [of ?cs]) (use D E p in \<open>simp_all only: p(3) glsl_array_name.select_convs append.simps not_False_eq_True\<close>)
qed
section \<open>Small functions\<close>

definition GetGLTypeSizeForTextures :: "gl_type \<Rightarrow> u32" where
  "GetGLTypeSizeForTextures type = BytesPerElement type"

definition GetGLTypeSizeForBuffers :: "gl_type \<Rightarrow> u32" where
  "GetGLTypeSizeForBuffers type =
     (if type \<in> {GL_BYTE, GL_UNSIGNED_BYTE} then 1
      else if type \<in> {GL_SHORT, GL_UNSIGNED_SHORT, GL_HALF_FLOAT} then 2
      else if type \<in> {GL_INT, GL_UNSIGNED_INT, GL_FLOAT, GL_FIXED, GL_INT_2_10_10_10_REV, GL_UNSIGNED_INT_2_10_10_10_REV} then 4
      else 0)"

definition GetGroupSizeForBufferType :: "u32 \<Rightarrow> gl_type \<Rightarrow> u32 res" where
  "GetGroupSizeForBufferType n type =
     dcheck (n \<le> 4)
       (let type_size = GetGLTypeSizeForBuffers type
        in if type = GL_INT_2_10_10_10_REV \<or> type = GL_UNSIGNED_INT_2_10_10_10_REV then dcheck (4 = n) (Inr type_size)
           else Inr (type_size * n))"

datatype gl_error = GL_NO_ERROR | GL_INVALID_ENUM | GL_INVALID_VALUE | GL_INVALID_OPERATION | GL_OUT_OF_MEMORY | GL_INVALID_FRAMEBUFFER_OPERATION | GL_CONTEXT_LOST_KHR

fun GLErrorToErrorBit :: "gl_error \<Rightarrow> u32 res" where
  "GLErrorToErrorBit GL_INVALID_ENUM = Inr (2 ^ 0)"
| "GLErrorToErrorBit GL_INVALID_VALUE = Inr (2 ^ 1)"
| "GLErrorToErrorBit GL_INVALID_OPERATION = Inr (2 ^ 2)"
| "GLErrorToErrorBit GL_OUT_OF_MEMORY = Inr (2 ^ 3)"
| "GLErrorToErrorBit GL_INVALID_FRAMEBUFFER_OPERATION = Inr (2 ^ 4)"
| "GLErrorToErrorBit GL_CONTEXT_LOST_KHR = Inr (2 ^ 5)"
| "GLErrorToErrorBit GL_NO_ERROR = Inl NOTREACHED_hit"

definition GLErrorBitToGLError :: "u32 \<Rightarrow> gl_error res" where
  "GLErrorBitToGLError error_bit =
     (if error_bit = 2 ^ 0 then Inr GL_INVALID_ENUM
      else if error_bit = 2 ^ 1 then Inr GL_INVALID_VALUE
      else if error_bit = 2 ^ 2 then Inr GL_INVALID_OPERATION
      else if error_bit = 2 ^ 3 then Inr GL_OUT_OF_MEMORY
      else if error_bit = 2 ^ 4 then Inr GL_INVALID_FRAMEBUFFER_OPERATION
      else if error_bit = 2 ^ 5 then Inr GL_CONTEXT_LOST_KHR
      else Inl NOTREACHED_hit)"

datatype gl_target = GL_TEXTURE_2D | GL_TEXTURE_EXTERNAL_OES | GL_TEXTURE_RECTANGLE_ARB | GL_TEXTURE_3D | GL_TEXTURE_2D_ARRAY | GL_TEXTURE_CUBE_MAP
  | GL_TEXTURE_CUBE_MAP_POSITIVE_X | GL_TEXTURE_CUBE_MAP_NEGATIVE_X | GL_TEXTURE_CUBE_MAP_POSITIVE_Y | GL_TEXTURE_CUBE_MAP_NEGATIVE_Y
  | GL_TEXTURE_CUBE_MAP_POSITIVE_Z | GL_TEXTURE_CUBE_MAP_NEGATIVE_Z

text \<open>\<^verbatim>\<open>std::array\<close> checks the index.\<close>

definition IndexToGLFaceTarget :: "nat \<Rightarrow> gl_target res" where
  "IndexToGLFaceTarget index =
     (let faces = [GL_TEXTURE_CUBE_MAP_POSITIVE_X, GL_TEXTURE_CUBE_MAP_NEGATIVE_X, GL_TEXTURE_CUBE_MAP_POSITIVE_Y, GL_TEXTURE_CUBE_MAP_NEGATIVE_Y,
        GL_TEXTURE_CUBE_MAP_POSITIVE_Z, GL_TEXTURE_CUBE_MAP_NEGATIVE_Z]
      in if index < length faces then Inr (faces ! index) else Inl CHECK_failed)"

fun GLTargetToFaceIndex :: "gl_target \<Rightarrow> nat res" where
  "GLTargetToFaceIndex GL_TEXTURE_2D = Inr 0"
| "GLTargetToFaceIndex GL_TEXTURE_EXTERNAL_OES = Inr 0"
| "GLTargetToFaceIndex GL_TEXTURE_RECTANGLE_ARB = Inr 0"
| "GLTargetToFaceIndex GL_TEXTURE_3D = Inr 0"
| "GLTargetToFaceIndex GL_TEXTURE_2D_ARRAY = Inr 0"
| "GLTargetToFaceIndex GL_TEXTURE_CUBE_MAP_POSITIVE_X = Inr 0"
| "GLTargetToFaceIndex GL_TEXTURE_CUBE_MAP_NEGATIVE_X = Inr 1"
| "GLTargetToFaceIndex GL_TEXTURE_CUBE_MAP_POSITIVE_Y = Inr 2"
| "GLTargetToFaceIndex GL_TEXTURE_CUBE_MAP_NEGATIVE_Y = Inr 3"
| "GLTargetToFaceIndex GL_TEXTURE_CUBE_MAP_POSITIVE_Z = Inr 4"
| "GLTargetToFaceIndex GL_TEXTURE_CUBE_MAP_NEGATIVE_Z = Inr 5"
| "GLTargetToFaceIndex GL_TEXTURE_CUBE_MAP = Inl NOTREACHED_hit"

fun GLFaceTargetToTextureTarget :: "gl_target \<Rightarrow> gl_target res" where
  "GLFaceTargetToTextureTarget GL_TEXTURE_2D = Inr GL_TEXTURE_2D"
| "GLFaceTargetToTextureTarget GL_TEXTURE_EXTERNAL_OES = Inr GL_TEXTURE_EXTERNAL_OES"
| "GLFaceTargetToTextureTarget GL_TEXTURE_RECTANGLE_ARB = Inr GL_TEXTURE_RECTANGLE_ARB"
| "GLFaceTargetToTextureTarget GL_TEXTURE_3D = Inr GL_TEXTURE_3D"
| "GLFaceTargetToTextureTarget GL_TEXTURE_2D_ARRAY = Inr GL_TEXTURE_2D_ARRAY"
| "GLFaceTargetToTextureTarget GL_TEXTURE_CUBE_MAP = Inl NOTREACHED_hit"
| "GLFaceTargetToTextureTarget _ = Inr GL_TEXTURE_CUBE_MAP"

definition MapUint64ToTwoUint32 :: "u64 \<Rightarrow> u32 \<times> u32" where
  "MapUint64ToTwoUint32 v64 = (v64 mod 2 ^ 32, v64 div 2 ^ 32 mod 2 ^ 32)"

definition MapTwoUint32ToUint64 :: "u32 \<Rightarrow> u32 \<Rightarrow> u64" where
  "MapTwoUint32ToUint64 v32_0 v32_1 = v32_1 * 2 ^ 32 + v32_0"

text \<open>\<^verbatim>\<open>ComputeDataSize\<close>, for elements of \<open>sizeof(VALUE_TYPE) * ELEMENTS_PER_UNIT\<close> bytes.\<close>

definition ComputeDataSize :: "u32 \<Rightarrow> u32 \<Rightarrow> u32 option" where
  "ComputeDataSize element_size n = chk_u32 (int n * int element_size)"

lemma error_bits:
  "e \<noteq> GL_NO_ERROR \<Longrightarrow> res_bind (GLErrorToErrorBit e) GLErrorBitToGLError = Inr e"
  "GLErrorBitToGLError b = Inr e \<Longrightarrow> GLErrorToErrorBit e = Inr b"
  by (cases e; simp add: GLErrorBitToGLError_def) (auto simp: GLErrorBitToGLError_def split: if_splits)

lemma faces:
  assumes "i < 6"
  shows "res_bind (IndexToGLFaceTarget i) GLTargetToFaceIndex = Inr i" "res_bind (IndexToGLFaceTarget i) GLFaceTargetToTextureTarget = Inr GL_TEXTURE_CUBE_MAP"
proof -
  have "i = 0 \<or> i = 1 \<or> i = 2 \<or> i = 3 \<or> i = 4 \<or> i = 5" using assms by auto
  then show "res_bind (IndexToGLFaceTarget i) GLTargetToFaceIndex = Inr i" "res_bind (IndexToGLFaceTarget i) GLFaceTargetToTextureTarget = Inr GL_TEXTURE_CUBE_MAP"
    by (auto simp: IndexToGLFaceTarget_def Let_def)
qed

lemma uint64_halves:
  assumes "v < 2 ^ 64" "a < 2 ^ 32" "b < 2 ^ 32"
  shows "(case MapUint64ToTwoUint32 v of (x, y) \<Rightarrow> MapTwoUint32ToUint64 x y) = v" "MapUint64ToTwoUint32 (MapTwoUint32ToUint64 a b) = (a, b)"
proof -
  have "v div 2 ^ 32 < 2 ^ 32" using assms(1) by (simp add: less_mult_imp_div_less)
  then show "(case MapUint64ToTwoUint32 v of (x, y) \<Rightarrow> MapTwoUint32ToUint64 x y) = v" by (simp add: MapUint64ToTwoUint32_def MapTwoUint32ToUint64_def)
  show "MapUint64ToTwoUint32 (MapTwoUint32ToUint64 a b) = (a, b)" using assms(2,3) by (simp add: MapUint64ToTwoUint32_def MapTwoUint32ToUint64_def)
qed
section \<open>Properties\<close>

text \<open>
  C33. When \<^verbatim>\<open>ComputeImageDataSizesES3\<close> gives the sizes of an image, whatever the parameters of the pixel store, then every byte that OpenGL reads for its pixels lies behind the skipped ones and within
  the size, none of the sums having wrapped, and the size is tight: its last byte is the last byte of the last pixel.
\<close>

theorem image_sizes_cover_the_pixels:
  assumes "ComputeImageDataSizesES3 w h d format type params = Inr (Some s)" "0 \<le> w" "0 \<le> h" "0 \<le> d"
    and "ps_alignment params = 1 \<or> ps_alignment params = 2 \<or> ps_alignment params = 4 \<or> ps_alignment params = 8" "0 \<le> ps_row_length params" "0 \<le> ps_image_height params"
      "0 \<le> ps_skip_images params" "0 \<le> ps_skip_rows params" "0 \<le> ps_skip_pixels params"
  defines "g \<equiv> BytesPerElement type * ElementsPerGroup format type"
  shows "im_skip_size s + im_size s < 2 ^ 32 \<and>
    (\<forall>x y z k. x < nat w \<and> y < nat h \<and> z < nat d \<and> k < g \<longrightarrow> im_skip_size s \<le> pixel_byte w h g params x y z k \<and> pixel_byte w h g params x y z k < im_skip_size s + im_size s) \<and>
    (0 < w \<and> 0 < h \<and> 0 < d \<and> 0 < g \<longrightarrow> Suc (pixel_byte w h g params (nat w - 1) (nat h - 1) (nat d - 1) (g - 1)) = im_skip_size s + im_size s)"
proof -
  obtain w' h' d' where n: "w = int w'" "h = int h'" "d = int d'" using assms(2-4) by (metis nonneg_int_cases)
  obtain al rl ph si sr sp where p: "ps_alignment params = int al" "ps_row_length params = int rl" "ps_image_height params = int ph"
    "ps_skip_images params = int si" "ps_skip_rows params = int sr" "ps_skip_pixels params = int sp"
    using assms(5-10) by (metis nonneg_int_cases of_nat_1 of_nat_numeral)
  have al: "al = 1 \<or> al = 2 \<or> al = 4 \<or> al = 8" using assms(5) p(1) by auto
  note r = assms(1) [unfolded n]
  note below = pixel_byte_below [OF r p(1) al p(2-6), folded g_def]
  have "im_skip_size s + im_size s < 2 ^ 32" by (rule data_sizes_exact(5) [OF r p(1) al p(2-6)])
  then show ?thesis using below unfolding n nat_int by auto
qed

theorem image_sizes_cover_the_pixels_witness:
  "\<exists>s. ComputeImageDataSizesES3 3 2 2 GL_RGB GL_UNSIGNED_BYTE new_PixelStoreParams = Inr (Some s) \<and> im_skip_size s + im_size s = 45 \<and>
     Suc (pixel_byte 3 2 3 new_PixelStoreParams 2 1 1 2) = 45"
proof -
  let ?s = "\<lparr>im_size = 45, im_unpadded_row_size = 9, im_padded_row_size = 12, im_skip_size = 0, im_padding = 3\<rparr>"
  have s: "ComputeImageDataSizesES3 3 2 2 GL_RGB GL_UNSIGNED_BYTE new_PixelStoreParams = Inr (Some ?s)" by code_simp
  have g: "BytesPerElement GL_UNSIGNED_BYTE * ElementsPerGroup GL_RGB GL_UNSIGNED_BYTE = 3" by code_simp
  from image_sizes_cover_the_pixels [OF s, unfolded g] s show ?thesis by (simp add: new_PixelStoreParams_def)
qed

text \<open>
  The name of an element of an array, in decimal digits between brackets, is read back by \<^verbatim>\<open>GLSLArrayName\<close>, for every index of 31 bits; and whatever it accepts is a name of that form, with the digits of the index that it
  gives.
\<close>

theorem array_name_round_trip:
  assumes "n < 2 ^ 31" "b \<noteq> []"
  shows "new_GLSLArrayName (b @ ''['' @ decimal n @ '']'') = \<lparr>gan_base_name = b, gan_element_index = int n\<rparr> \<and>
    (IsArrayName (new_GLSLArrayName name) \<longrightarrow> (\<exists>cs. name = gan_base_name (new_GLSLArrayName name) @ ''['' @ cs @ '']'' \<and> list_all is_digit cs \<and> cs \<noteq> [] \<and>
      gan_element_index (new_GLSLArrayName name) = int (digits_value 0 cs)))"
proof -
  have "new_GLSLArrayName (b @ ''['' @ decimal n @ '']'') = \<lparr>gan_base_name = b, gan_element_index = int (digits_value 0 (decimal n))\<rparr>"
    by (rule GLSLArrayName_print) (use assms decimal_digits [of n] in simp_all)
  then show ?thesis using decimal_digits(2) [of n] GLSLArrayName_parse [of name] by auto
qed

theorem array_name_round_trip_witness:
  "new_GLSLArrayName ''foo[1][27]'' = \<lparr>gan_base_name = ''foo[1]'', gan_element_index = 27\<rparr> \<and> \<not> IsArrayName (new_GLSLArrayName ''foo[2147483648]'')"
proof -
  have "decimal 27 = ''27''" by (simp add: decimal.simps) code_simp
  moreover have "\<not> IsArrayName (new_GLSLArrayName ''foo[2147483648]'')" by code_simp
  ultimately show ?thesis using array_name_round_trip [of 27 "''foo[1]''"] by simp
qed

end
