(* ===== verification/Query_Manager.thy ===== *)
theory Query_Manager
  imports Discardable_Handle Command_Buffer Gles2_Utils
begin

text \<open>
  \<^verbatim>\<open>gpu/command_buffer/service/query_manager.{h,cc}\<close>: the queries of a context on the side of the service, and the handlers of
  \<^verbatim>\<open>gpu/command_buffer/service/raster_decoder.cc\<close> that run them for a client. A query ends with a number the client chose; when its
  result is there, the result and that number are stored in memory that client and service share.

  The queries are objects in a store, under a name that is never used again. An object lives as long as a \<^verbatim>\<open>scoped_refptr\<close> in \<open>queries_\<close>,
  \<open>active_queries_\<close> or \<open>pending_queries_\<close> holds it; a raw pointer is a name, and the use of one whose object is gone has the value of a null dereference.
  Callbacks are names as well; \<open>qm_ran\<close> is the list of those that were run. Times are in microseconds, and the null time is 0.

  \<^verbatim>\<open>gl::GLFence\<close> is not part of the sources: its operations are a parameter, over the state of the driver.
\<close>

section \<open>Queries\<close>

record ('f, 'g) gl_fences =
  GLFence_Create :: "'g \<Rightarrow> 'f option \<times> 'g"
  GLFence_ResetSupported :: "'f \<Rightarrow> bool"
  GLFence_ResetState :: "'f \<Rightarrow> 'g \<Rightarrow> 'f \<times> 'g"
  GLFence_HasCompleted :: "'f \<Rightarrow> 'g \<Rightarrow> bool \<times> 'g"
  GLFence_Invalidate :: "'f \<Rightarrow> 'f"

datatype query_state = kQueryState_Initialize | kQueryState_Active | kQueryState_Paused | kQueryState_Pending | kQueryState_Finished

datatype command_processing_state = kNotStarted | kProcessingCommands | kNotProcessingCommands

text \<open>
  The classes of queries with their fields: \<open>command_processing_state_\<close>, \<open>elapsed_time_\<close> and \<open>begin_command_processing_time_\<close>;
  none; \<open>fence_\<close> and \<open>begin_time_\<close>.
\<close>

datatype 'f query_class = CommandsIssuedQuery command_processing_state int int | CommandsIssuedTimestampQuery | CommandsCompletedQuery "'f option" int

record 'f gpu_query =
  gq_class :: "'f query_class"
  gq_target :: u32
  gq_buffer :: gpu_buffer
  gq_sync :: pointer
  gq_submit_count :: i32
  gq_state :: query_state
  gq_deleted :: bool
  gq_callbacks :: "nat list"

record ('f, 'g) query_manager =
  qm_query_count :: u32
  qm_queries :: "(u32 \<times> nat) list"
  qm_generated_query_ids :: "u32 set"
  qm_active_queries :: "(u32 \<times> nat) list"
  qm_pending_queries :: "nat list"
  qm_objects :: "nat \<Rightarrow> 'f gpu_query option"
  qm_fresh :: nat
  qm_heap :: heap
  qm_gl :: 'g
  qm_ran :: "nat list"

definition new_QueryManager :: "heap \<Rightarrow> 'g \<Rightarrow> ('f, 'g) query_manager" where
  "new_QueryManager hp g =
     \<lparr>qm_query_count = 0, qm_queries = [], qm_generated_query_ids = {}, qm_active_queries = [], qm_pending_queries = [],
      qm_objects = (\<lambda>_. None), qm_fresh = 0, qm_heap = hp, qm_gl = g, qm_ran = []\<rparr>"

section \<open>Objects and references\<close>

definition the_query :: "nat \<Rightarrow> ('f, 'g) query_manager \<Rightarrow> 'f gpu_query res" where
  "the_query o1 m = (case qm_objects m o1 of None \<Rightarrow> Inl Null_dereference | Some q \<Rightarrow> Inr q)"

definition put_query :: "nat \<Rightarrow> 'f gpu_query \<Rightarrow> ('f, 'g) query_manager \<Rightarrow> ('f, 'g) query_manager" where
  "put_query o1 q m = m\<lparr>qm_objects := (qm_objects m)(o1 := Some q)\<rparr>"

definition update_query :: "nat \<Rightarrow> ('f gpu_query \<Rightarrow> 'f gpu_query res) \<Rightarrow> ('f, 'g) query_manager \<Rightarrow> ('f, 'g) query_manager res" where
  "update_query o1 f m = res_bind (the_query o1 m) (\<lambda>q. res_bind (f q) (\<lambda>q'. Inr (put_query o1 q' m)))"

definition query_held :: "('f, 'g) query_manager \<Rightarrow> nat \<Rightarrow> bool" where
  "query_held m o1 \<longleftrightarrow> o1 \<in> snd ` set (qm_queries m) \<or> o1 \<in> snd ` set (qm_active_queries m) \<or> o1 \<in> set (qm_pending_queries m)"

definition Query_RunCallbacks :: "nat \<Rightarrow> ('f, 'g) query_manager \<Rightarrow> ('f, 'g) query_manager res" where
  "Query_RunCallbacks o1 m =
     res_bind (the_query o1 m) (\<lambda>q. Inr (put_query o1 (q\<lparr>gq_callbacks := []\<rparr>) (m\<lparr>qm_ran := qm_ran m @ gq_callbacks q\<rparr>)))"

definition delete_Query :: "nat \<Rightarrow> ('f, 'g) query_manager \<Rightarrow> ('f, 'g) query_manager" where
  "delete_Query o1 m =
     (case Query_RunCallbacks o1 m of
        Inl _ \<Rightarrow> m
      | Inr m1 \<Rightarrow> m1\<lparr>qm_query_count := u32_sub (qm_query_count m1) 1, qm_objects := (qm_objects m1)(o1 := None)\<rparr>)"

text \<open>What follows when references to these objects went away.\<close>

fun release_queries :: "nat list \<Rightarrow> ('f, 'g) query_manager \<Rightarrow> ('f, 'g) query_manager" where
  "release_queries [] m = m"
| "release_queries (o1 # os) m = release_queries os (if query_held m o1 then m else delete_Query o1 m)"

fun for_each :: "('a \<Rightarrow> 's \<Rightarrow> 's res) \<Rightarrow> 'a list \<Rightarrow> 's \<Rightarrow> 's res" where
  "for_each f [] s = Inr s"
| "for_each f (x # xs) s = res_bind (f x s) (for_each f xs)"

section \<open>The states of a query\<close>

definition Query_MarkAsActive :: "'f gpu_query \<Rightarrow> 'f gpu_query res" where
  "Query_MarkAsActive q =
     dcheck (gq_state q = kQueryState_Initialize \<or> gq_state q = kQueryState_Paused \<or> gq_state q = kQueryState_Finished)
       (Inr (q\<lparr>gq_state := kQueryState_Active\<rparr>))"

definition Query_MarkAsPaused :: "'f gpu_query \<Rightarrow> 'f gpu_query res" where
  "Query_MarkAsPaused q = dcheck (gq_state q = kQueryState_Active) (Inr (q\<lparr>gq_state := kQueryState_Paused\<rparr>))"

definition Query_MarkAsPending :: "i32 \<Rightarrow> 'f gpu_query \<Rightarrow> 'f gpu_query res" where
  "Query_MarkAsPending submit_count q =
     dcheck (gq_state q = kQueryState_Active) (Inr (q\<lparr>gq_state := kQueryState_Pending, gq_submit_count := submit_count\<rparr>))"

definition Query_UnmarkAsPending :: "'f gpu_query \<Rightarrow> 'f gpu_query res" where
  "Query_UnmarkAsPending q = dcheck (gq_state q = kQueryState_Pending) (Inr (q\<lparr>gq_state := kQueryState_Finished\<rparr>))"

definition Query_MarkAsDeleted :: "'f gpu_query \<Rightarrow> 'f gpu_query" where
  "Query_MarkAsDeleted q = q\<lparr>gq_deleted := True\<rparr>"

definition Query_IsValid :: "'f gpu_query \<Rightarrow> bool" where
  "Query_IsValid q \<longleftrightarrow> gq_target q \<noteq> 0 \<and> \<not> gq_deleted q"

text \<open>\<^verbatim>\<open>sync_->result = result\<close>, a packed field of eight bytes, and the store of \<open>process_count\<close>.\<close>

definition store_result :: "pointer \<Rightarrow> u64 \<Rightarrow> heap \<Rightarrow> heap" where
  "store_result p result hp = write_bytes hp (fst p, snd p + 4) (StoreU32Unaligned (result mod 2 ^ 32) @ StoreU32Unaligned (result div 2 ^ 32 mod 2 ^ 32))"

definition Query_MarkAsCompleted :: "int \<Rightarrow> nat \<Rightarrow> ('f, 'g) query_manager \<Rightarrow> ('f, 'g) query_manager res" where
  "Query_MarkAsCompleted result o1 m =
     res_bind (update_query o1 Query_UnmarkAsPending m) (\<lambda>m1.
       res_bind (the_query o1 m1) (\<lambda>q.
         Query_RunCallbacks o1
           (m1\<lparr>qm_heap := atomic_store (gq_sync q) (gq_submit_count q) (store_result (gq_sync q) (nat (result mod 2 ^ 64)) (qm_heap m1))\<rparr>)))"

definition Query_AddCallback :: "nat \<Rightarrow> nat \<Rightarrow> ('f, 'g) query_manager \<Rightarrow> ('f, 'g) query_manager res" where
  "Query_AddCallback callback o1 m =
     res_bind (the_query o1 m) (\<lambda>q.
       if gq_state q = kQueryState_Pending then Inr (put_query o1 (q\<lparr>gq_callbacks := gq_callbacks q @ [callback]\<rparr>) m)
       else Inr (m\<lparr>qm_ran := qm_ran m @ [callback]\<rparr>))"

section \<open>The queue of pending queries\<close>

definition RemovePendingQuery :: "nat \<Rightarrow> ('f, 'g) query_manager \<Rightarrow> ('f, 'g) query_manager res" where
  "RemovePendingQuery o1 m =
     res_bind (the_query o1 m) (\<lambda>q.
       if gq_state q = kQueryState_Pending
       then Query_MarkAsCompleted 0 o1 (release_queries [o1] (m\<lparr>qm_pending_queries := remove1 o1 (qm_pending_queries m)\<rparr>))
       else Inr m)"

definition AddPendingQuery :: "nat \<Rightarrow> i32 \<Rightarrow> ('f, 'g) query_manager \<Rightarrow> ('f, 'g) query_manager res" where
  "AddPendingQuery o1 submit_count m =
     res_bind (the_query o1 m) (\<lambda>q.
       dcheck (\<not> gq_deleted q)
         (res_bind (RemovePendingQuery o1 m) (\<lambda>m1.
            res_bind (update_query o1 (Query_MarkAsPending submit_count) m1) (\<lambda>m2.
              Inr (m2\<lparr>qm_pending_queries := qm_pending_queries m2 @ [o1]\<rparr>)))))"
section \<open>The operations of the classes\<close>

text \<open>An operation of a class has the fields of the class as arguments; the operations of \<^verbatim>\<open>Query\<close> choose by the class.\<close>

definition CommandsIssuedQuery_Reset :: "'f gpu_query \<Rightarrow> 'f gpu_query" where
  "CommandsIssuedQuery_Reset q = q\<lparr>gq_class := CommandsIssuedQuery kNotStarted 0 0\<rparr>"

definition CommandsIssuedQuery_BeginProcessingCommands :: "int \<Rightarrow> command_processing_state \<Rightarrow> int \<Rightarrow> int \<Rightarrow> 'f gpu_query \<Rightarrow> 'f gpu_query res" where
  "CommandsIssuedQuery_BeginProcessingCommands now state elapsed_time begin_time q =
     dcheck (state \<noteq> kProcessingCommands)
       (dcheck (begin_time = 0) (Inr (q\<lparr>gq_class := CommandsIssuedQuery kProcessingCommands elapsed_time now\<rparr>)))"

definition CommandsIssuedQuery_EndProcessingCommands :: "int \<Rightarrow> command_processing_state \<Rightarrow> int \<Rightarrow> int \<Rightarrow> 'f gpu_query \<Rightarrow> 'f gpu_query res" where
  "CommandsIssuedQuery_EndProcessingCommands now state elapsed_time begin_time q =
     dcheck (state \<noteq> kNotProcessingCommands)
       (if state = kNotStarted then Inr q
        else Inr (q\<lparr>gq_class := CommandsIssuedQuery kNotProcessingCommands (elapsed_time + (now - begin_time)) 0\<rparr>))"

definition CommandsIssuedQuery_Begin :: "int \<Rightarrow> command_processing_state \<Rightarrow> int \<Rightarrow> int \<Rightarrow> 'f gpu_query \<Rightarrow> 'f gpu_query res" where
  "CommandsIssuedQuery_Begin now state elapsed_time begin_time q =
     dcheck (state = kNotStarted)
       (res_bind (Query_MarkAsActive q) (CommandsIssuedQuery_BeginProcessingCommands now state elapsed_time begin_time))"

definition CommandsIssuedQuery_End :: "int \<Rightarrow> i32 \<Rightarrow> int \<Rightarrow> int \<Rightarrow> nat \<Rightarrow> ('f, 'g) query_manager \<Rightarrow> ('f, 'g) query_manager res" where
  "CommandsIssuedQuery_End now submit_count elapsed_time begin_time o1 m =
     (let elapsed = (if begin_time \<noteq> 0 then elapsed_time + (now - begin_time) else elapsed_time)
      in res_bind (update_query o1 (Query_MarkAsPending submit_count) m) (\<lambda>m1.
           res_bind (Query_MarkAsCompleted elapsed o1 m1) (update_query o1 (\<lambda>q. Inr (CommandsIssuedQuery_Reset q)))))"

text \<open>\<^verbatim>\<open>Destroy\<close> of \<^verbatim>\<open>CommandsIssuedQuery\<close> and of \<^verbatim>\<open>CommandsIssuedTimestampQuery\<close>.\<close>

definition CommandsIssuedQuery_Destroy :: "'f gpu_query \<Rightarrow> 'f gpu_query" where
  "CommandsIssuedQuery_Destroy q = (if \<not> gq_deleted q then Query_MarkAsDeleted q else q)"

definition CommandsIssuedTimestampQuery_QueryCounter :: "int \<Rightarrow> i32 \<Rightarrow> nat \<Rightarrow> ('f, 'g) query_manager \<Rightarrow> ('f, 'g) query_manager res" where
  "CommandsIssuedTimestampQuery_QueryCounter now submit_count o1 m =
     dcheck (now \<ge> 0)
       (res_bind (update_query o1 Query_MarkAsActive m) (\<lambda>m1.
          res_bind (update_query o1 (Query_MarkAsPending submit_count) m1) (Query_MarkAsCompleted now o1)))"

definition CommandsCompletedQuery_Begin :: "int \<Rightarrow> 'f option \<Rightarrow> 'f gpu_query \<Rightarrow> 'f gpu_query res" where
  "CommandsCompletedQuery_Begin now fence q =
     res_bind (Query_MarkAsActive q) (\<lambda>q1. Inr (q1\<lparr>gq_class := CommandsCompletedQuery fence now\<rparr>))"

text \<open>The fence of a query that ends: the one it has when that can be reset, else a new one.\<close>

definition renew_fence :: "('f, 'g) gl_fences \<Rightarrow> 'f option \<Rightarrow> 'g \<Rightarrow> 'f option \<times> 'g" where
  "renew_fence F fence g =
     (case fence of
        None \<Rightarrow> GLFence_Create F g
      | Some f \<Rightarrow> if GLFence_ResetSupported F f then (case GLFence_ResetState F f g of (f1, g1) \<Rightarrow> (Some f1, g1)) else GLFence_Create F g)"

definition CommandsCompletedQuery_End ::
  "('f, 'g) gl_fences \<Rightarrow> i32 \<Rightarrow> 'f option \<Rightarrow> int \<Rightarrow> nat \<Rightarrow> ('f, 'g) query_manager \<Rightarrow> ('f, 'g) query_manager res" where
  "CommandsCompletedQuery_End F submit_count fence begin_time o1 m =
     (case renew_fence F fence (qm_gl m) of (fence1, g1) \<Rightarrow>
        dcheck (fence1 \<noteq> None)
          (res_bind (update_query o1 (\<lambda>q. Inr (q\<lparr>gq_class := CommandsCompletedQuery fence1 begin_time\<rparr>)) (m\<lparr>qm_gl := g1\<rparr>))
             (AddPendingQuery o1 submit_count)))"

text \<open>Whether the query is to complete; the fence is asked only when \<^verbatim>\<open>did_finish\<close> does not say so.\<close>

definition fence_done :: "('f, 'g) gl_fences \<Rightarrow> bool \<Rightarrow> 'f option \<Rightarrow> 'g \<Rightarrow> bool \<times> 'g" where
  "fence_done F did_finish fence g =
     (if did_finish then (True, g) else (case fence of None \<Rightarrow> (True, g) | Some f \<Rightarrow> GLFence_HasCompleted F f g))"

definition CommandsCompletedQuery_Process ::
  "('f, 'g) gl_fences \<Rightarrow> int \<Rightarrow> bool \<Rightarrow> 'f option \<Rightarrow> int \<Rightarrow> nat \<Rightarrow> ('f, 'g) query_manager \<Rightarrow> ('f, 'g) query_manager res" where
  "CommandsCompletedQuery_Process F now did_finish fence begin_time o1 m =
     (case fence_done F did_finish fence (qm_gl m) of (completed, g1) \<Rightarrow>
        if \<not> completed then Inr (m\<lparr>qm_gl := g1\<rparr>) else Query_MarkAsCompleted (now - begin_time) o1 (m\<lparr>qm_gl := g1\<rparr>))"

definition CommandsCompletedQuery_Destroy :: "('f, 'g) gl_fences \<Rightarrow> bool \<Rightarrow> 'f option \<Rightarrow> int \<Rightarrow> 'f gpu_query \<Rightarrow> 'f gpu_query" where
  "CommandsCompletedQuery_Destroy F have_context fence begin_time q =
     (if have_context \<and> \<not> gq_deleted q then Query_MarkAsDeleted (q\<lparr>gq_class := CommandsCompletedQuery None begin_time\<rparr>)
      else (case fence of
              None \<Rightarrow> q
            | Some f \<Rightarrow> if \<not> have_context then q\<lparr>gq_class := CommandsCompletedQuery (Some (GLFence_Invalidate F f)) begin_time\<rparr> else q))"

section \<open>The virtual operations\<close>

definition Query_BeginProcessingCommands :: "int \<Rightarrow> 'f gpu_query \<Rightarrow> 'f gpu_query res" where
  "Query_BeginProcessingCommands now q =
     (case gq_class q of
        CommandsIssuedQuery state elapsed_time begin_time \<Rightarrow> CommandsIssuedQuery_BeginProcessingCommands now state elapsed_time begin_time q
      | _ \<Rightarrow> Inr q)"

definition Query_EndProcessingCommands :: "int \<Rightarrow> 'f gpu_query \<Rightarrow> 'f gpu_query res" where
  "Query_EndProcessingCommands now q =
     (case gq_class q of
        CommandsIssuedQuery state elapsed_time begin_time \<Rightarrow> CommandsIssuedQuery_EndProcessingCommands now state elapsed_time begin_time q
      | _ \<Rightarrow> Inr q)"

definition Query_Begin :: "int \<Rightarrow> 'f gpu_query \<Rightarrow> 'f gpu_query res" where
  "Query_Begin now q =
     (case gq_class q of
        CommandsIssuedQuery state elapsed_time begin_time \<Rightarrow> CommandsIssuedQuery_Begin now state elapsed_time begin_time q
      | CommandsIssuedTimestampQuery \<Rightarrow> Inl NOTREACHED_hit
      | CommandsCompletedQuery fence _ \<Rightarrow> CommandsCompletedQuery_Begin now fence q)"

definition Query_End :: "('f, 'g) gl_fences \<Rightarrow> int \<Rightarrow> i32 \<Rightarrow> nat \<Rightarrow> ('f, 'g) query_manager \<Rightarrow> ('f, 'g) query_manager res" where
  "Query_End F now submit_count o1 m =
     res_bind (the_query o1 m) (\<lambda>q.
       case gq_class q of
         CommandsIssuedQuery _ elapsed_time begin_time \<Rightarrow> CommandsIssuedQuery_End now submit_count elapsed_time begin_time o1 m
       | CommandsIssuedTimestampQuery \<Rightarrow> Inl NOTREACHED_hit
       | CommandsCompletedQuery fence begin_time \<Rightarrow> CommandsCompletedQuery_End F submit_count fence begin_time o1 m)"

definition Query_QueryCounter :: "int \<Rightarrow> i32 \<Rightarrow> nat \<Rightarrow> ('f, 'g) query_manager \<Rightarrow> ('f, 'g) query_manager res" where
  "Query_QueryCounter now submit_count o1 m =
     res_bind (the_query o1 m) (\<lambda>q.
       case gq_class q of
         CommandsIssuedTimestampQuery \<Rightarrow> CommandsIssuedTimestampQuery_QueryCounter now submit_count o1 m
       | _ \<Rightarrow> Inl NOTREACHED_hit)"

definition Query_Process :: "('f, 'g) gl_fences \<Rightarrow> int \<Rightarrow> bool \<Rightarrow> nat \<Rightarrow> ('f, 'g) query_manager \<Rightarrow> ('f, 'g) query_manager res" where
  "Query_Process F now did_finish o1 m =
     res_bind (the_query o1 m) (\<lambda>q.
       case gq_class q of
         CommandsCompletedQuery fence begin_time \<Rightarrow> CommandsCompletedQuery_Process F now did_finish fence begin_time o1 m
       | _ \<Rightarrow> Inl NOTREACHED_hit)"

text \<open>\<^verbatim>\<open>Pause\<close> and \<^verbatim>\<open>Resume\<close> are \<open>Query_MarkAsPaused\<close> and \<open>Query_MarkAsActive\<close> in all classes.\<close>

definition Query_Destroy :: "('f, 'g) gl_fences \<Rightarrow> bool \<Rightarrow> 'f gpu_query \<Rightarrow> 'f gpu_query" where
  "Query_Destroy F have_context q =
     (case gq_class q of
        CommandsCompletedQuery fence begin_time \<Rightarrow> CommandsCompletedQuery_Destroy F have_context fence begin_time q
      | _ \<Rightarrow> CommandsIssuedQuery_Destroy q)"

section \<open>QueryManager\<close>

text \<open>The targets, from \<^verbatim>\<open>gpu/GLES2/gl2extchromium.h\<close>.\<close>

definition GL_COMMANDS_ISSUED_CHROMIUM :: u32 where "GL_COMMANDS_ISSUED_CHROMIUM = 0x6004"
definition GL_COMMANDS_ISSUED_TIMESTAMP_CHROMIUM :: u32 where "GL_COMMANDS_ISSUED_TIMESTAMP_CHROMIUM = 0x6005"
definition GL_COMMANDS_COMPLETED_CHROMIUM :: u32 where "GL_COMMANDS_COMPLETED_CHROMIUM = 0x84F7"
definition GL_READBACK_SHADOW_COPIES_UPDATED_CHROMIUM :: u32 where "GL_READBACK_SHADOW_COPIES_UPDATED_CHROMIUM = 0x84F8"

lemmas query_targets = GL_COMMANDS_ISSUED_CHROMIUM_def GL_COMMANDS_ISSUED_TIMESTAMP_CHROMIUM_def GL_COMMANDS_COMPLETED_CHROMIUM_def
  GL_READBACK_SHADOW_COPIES_UPDATED_CHROMIUM_def

definition new_Query :: "'f query_class \<Rightarrow> u32 \<Rightarrow> gpu_buffer \<Rightarrow> pointer \<Rightarrow> 'f gpu_query" where
  "new_Query c target buffer sync =
     \<lparr>gq_class = c, gq_target = target, gq_buffer = buffer, gq_sync = sync, gq_submit_count = 0, gq_state = kQueryState_Initialize,
      gq_deleted = False, gq_callbacks = []\<rparr>"

definition class_of_target :: "u32 \<Rightarrow> 'f query_class res" where
  "class_of_target target =
     (if target = GL_COMMANDS_ISSUED_CHROMIUM then Inr (CommandsIssuedQuery kNotStarted 0 0)
      else if target = GL_COMMANDS_ISSUED_TIMESTAMP_CHROMIUM then Inr CommandsIssuedTimestampQuery
      else if target = GL_READBACK_SHADOW_COPIES_UPDATED_CHROMIUM \<or> target = GL_COMMANDS_COMPLETED_CHROMIUM then Inr (CommandsCompletedQuery None 0)
      else Inl NOTREACHED_hit)"

definition QueryManager_CreateQuery ::
  "u32 \<Rightarrow> u32 \<Rightarrow> gpu_buffer \<Rightarrow> pointer \<Rightarrow> ('f, 'g) query_manager \<Rightarrow> (nat \<times> ('f, 'g) query_manager) res" where
  "QueryManager_CreateQuery target client_id buffer sync m =
     res_bind (class_of_target target) (\<lambda>c.
       let o1 = qm_fresh m;
           m1 = put_query o1 (new_Query c target buffer sync) (m\<lparr>qm_query_count := u32_add (qm_query_count m) 1, qm_fresh := Suc o1\<rparr>)
       in dcheck (map_of (qm_queries m1) client_id = None) (Inr (o1, m1\<lparr>qm_queries := (client_id, o1) # qm_queries m1\<rparr>)))"

definition QueryManager_GenQueries :: "u32 list \<Rightarrow> ('f, 'g) query_manager \<Rightarrow> ('f, 'g) query_manager" where
  "QueryManager_GenQueries queries m = m\<lparr>qm_generated_query_ids := qm_generated_query_ids m \<union> set queries\<rparr>"

definition QueryManager_IsValidQuery :: "u32 \<Rightarrow> ('f, 'g) query_manager \<Rightarrow> bool" where
  "QueryManager_IsValidQuery i m \<longleftrightarrow> i \<in> qm_generated_query_ids m"

definition QueryManager_GetQuery :: "u32 \<Rightarrow> ('f, 'g) query_manager \<Rightarrow> nat option" where
  "QueryManager_GetQuery client_id m = map_of (qm_queries m) client_id"

definition QueryManager_GetActiveQuery :: "u32 \<Rightarrow> ('f, 'g) query_manager \<Rightarrow> nat option" where
  "QueryManager_GetActiveQuery target m = map_of (qm_active_queries m) target"

definition QueryManager_HavePendingQueries :: "('f, 'g) query_manager \<Rightarrow> bool" where
  "QueryManager_HavePendingQueries m \<longleftrightarrow> qm_pending_queries m \<noteq> []"
definition erase_key :: "'k \<Rightarrow> ('k \<times> 'v) list \<Rightarrow> ('k \<times> 'v) list" where
  "erase_key k xs = filter (\<lambda>e. fst e \<noteq> k) xs"

definition QueryManager_RemoveQuery :: "('f, 'g) gl_fences \<Rightarrow> u32 \<Rightarrow> ('f, 'g) query_manager \<Rightarrow> ('f, 'g) query_manager res" where
  "QueryManager_RemoveQuery F client_id m =
     res_bind
       (case map_of (qm_queries m) client_id of
          None \<Rightarrow> Inr m
        | Some o1 \<Rightarrow>
            res_bind (the_query o1 m) (\<lambda>q.
              let is_active = (map_of (qm_active_queries m) (gq_target q) = Some o1)
              in dcheck (is_active = (gq_state q = kQueryState_Active))
                   (let m1 = (if is_active then release_queries [o1] (m\<lparr>qm_active_queries := erase_key (gq_target q) (qm_active_queries m)\<rparr>) else m)
                    in res_bind (update_query o1 (\<lambda>q. Inr (Query_Destroy F True q)) m1) (\<lambda>m2.
                         res_bind (RemovePendingQuery o1 m2) (\<lambda>m3.
                           res_bind (update_query o1 (\<lambda>q. Inr (Query_MarkAsDeleted q)) m3) (\<lambda>m4.
                             Inr (release_queries [o1] (m4\<lparr>qm_queries := erase_key client_id (qm_queries m4)\<rparr>))))))))
       (\<lambda>m5. Inr (m5\<lparr>qm_generated_query_ids := qm_generated_query_ids m5 - {client_id}\<rparr>))"

definition QueryManager_RemoveAllQueries :: "('f, 'g) query_manager \<Rightarrow> ('f, 'g) query_manager" where
  "QueryManager_RemoveAllQueries m = release_queries (map snd (qm_queries m)) (m\<lparr>qm_queries := []\<rparr>)"

text \<open>The loop of \<^verbatim>\<open>ProcessPendingQueries\<close>, over the queue, and its assertion.\<close>

fun process_pending :: "('f, 'g) gl_fences \<Rightarrow> int \<Rightarrow> bool \<Rightarrow> nat list \<Rightarrow> ('f, 'g) query_manager \<Rightarrow> ('f, 'g) query_manager res" where
  "process_pending F now did_finish [] m = Inr m"
| "process_pending F now did_finish (o1 # os) m =
     res_bind (Query_Process F now did_finish o1 m) (\<lambda>m1.
       res_bind (the_query o1 m1) (\<lambda>q.
         if gq_state q = kQueryState_Pending then Inr m1
         else process_pending F now did_finish os (release_queries [o1] (m1\<lparr>qm_pending_queries := os\<rparr>))))"

definition QueryManager_ProcessPendingQueries ::
  "('f, 'g) gl_fences \<Rightarrow> int \<Rightarrow> bool \<Rightarrow> ('f, 'g) query_manager \<Rightarrow> ('f, 'g) query_manager res" where
  "QueryManager_ProcessPendingQueries F now did_finish m =
     res_bind (process_pending F now did_finish (qm_pending_queries m) m) (\<lambda>m1.
       dcheck (\<not> did_finish \<or> qm_pending_queries m1 = []) (Inr m1))"

definition QueryManager_BeginQuery :: "int \<Rightarrow> nat \<Rightarrow> ('f, 'g) query_manager \<Rightarrow> ('f, 'g) query_manager res" where
  "QueryManager_BeginQuery now o1 m =
     res_bind (RemovePendingQuery o1 m) (\<lambda>m1.
       res_bind (update_query o1 (Query_Begin now) m1) (\<lambda>m2.
         res_bind (the_query o1 m2) (\<lambda>q.
           Inr (release_queries (case map_of (qm_active_queries m2) (gq_target q) of None \<Rightarrow> [] | Some old \<Rightarrow> [old])
                  (m2\<lparr>qm_active_queries := insort_key fst (gq_target q, o1) (erase_key (gq_target q) (qm_active_queries m2))\<rparr>)))))"

definition QueryManager_EndQuery :: "('f, 'g) gl_fences \<Rightarrow> int \<Rightarrow> nat \<Rightarrow> i32 \<Rightarrow> ('f, 'g) query_manager \<Rightarrow> ('f, 'g) query_manager res" where
  "QueryManager_EndQuery F now o1 submit_count m =
     res_bind (RemovePendingQuery o1 m) (\<lambda>m1.
       res_bind (the_query o1 m1) (\<lambda>q.
         case map_of (qm_active_queries m1) (gq_target q) of
           None \<Rightarrow> Inl CHECK_failed
         | Some a \<Rightarrow>
             dcheck (o1 = a)
               (Query_End F now submit_count o1
                  (release_queries [o1] (m1\<lparr>qm_active_queries := erase_key (gq_target q) (qm_active_queries m1)\<rparr>)))))"

definition QueryManager_QueryCounter :: "int \<Rightarrow> nat \<Rightarrow> i32 \<Rightarrow> ('f, 'g) query_manager \<Rightarrow> ('f, 'g) query_manager res" where
  "QueryManager_QueryCounter now o1 submit_count m = res_bind (RemovePendingQuery o1 m) (Query_QueryCounter now submit_count o1)"

definition QueryManager_PauseQueries :: "('f, 'g) query_manager \<Rightarrow> ('f, 'g) query_manager res" where
  "QueryManager_PauseQueries m =
     for_each (\<lambda>e. update_query (snd e) (\<lambda>q. if gq_state q = kQueryState_Active then Query_MarkAsPaused q else Inr q)) (qm_active_queries m) m"

definition QueryManager_ResumeQueries :: "('f, 'g) query_manager \<Rightarrow> ('f, 'g) query_manager res" where
  "QueryManager_ResumeQueries m =
     for_each (\<lambda>e. update_query (snd e) (\<lambda>q. if gq_state q = kQueryState_Paused then Query_MarkAsActive q else Inr q)) (qm_active_queries m) m"

definition QueryManager_BeginProcessingCommands :: "int \<Rightarrow> ('f, 'g) query_manager \<Rightarrow> ('f, 'g) query_manager res" where
  "QueryManager_BeginProcessingCommands now m = for_each (\<lambda>e. update_query (snd e) (Query_BeginProcessingCommands now)) (qm_active_queries m) m"

definition QueryManager_EndProcessingCommands :: "int \<Rightarrow> ('f, 'g) query_manager \<Rightarrow> ('f, 'g) query_manager res" where
  "QueryManager_EndProcessingCommands now m = for_each (\<lambda>e. update_query (snd e) (Query_EndProcessingCommands now)) (qm_active_queries m) m"

text \<open>\<open>Destroy\<close>, and the destructor with its two assertions.\<close>

definition destroy_query :: "('f, 'g) gl_fences \<Rightarrow> bool \<Rightarrow> u32 \<times> nat \<Rightarrow> ('f, 'g) query_manager \<Rightarrow> ('f, 'g) query_manager res" where
  "destroy_query F have_context e m =
     res_bind (update_query (snd e) (\<lambda>q. Inr (Query_Destroy F have_context q)) m) (\<lambda>m1.
       Inr (release_queries [snd e] (m1\<lparr>qm_queries := tl (qm_queries m1)\<rparr>)))"

definition QueryManager_Destroy :: "('f, 'g) gl_fences \<Rightarrow> bool \<Rightarrow> ('f, 'g) query_manager \<Rightarrow> ('f, 'g) query_manager res" where
  "QueryManager_Destroy F have_context m =
     (let m1 = release_queries (map snd (qm_active_queries m)) (m\<lparr>qm_active_queries := []\<rparr>);
          m2 = release_queries (qm_pending_queries m1) (m1\<lparr>qm_pending_queries := []\<rparr>)
      in for_each (destroy_query F have_context) (qm_queries m2) m2)"

definition delete_QueryManager :: "('f, 'g) query_manager \<Rightarrow> unit res" where
  "delete_QueryManager m = dcheck (qm_queries m = []) (if qm_query_count m \<noteq> 0 then Inl CHECK_failed else Inr ())"

section \<open>The handlers of the raster decoder\<close>

text \<open>
  A handler returns the error of the command and the error it records for \<^verbatim>\<open>glGetError\<close>, if any. \<open>lookup\<close> is \<^verbatim>\<open>GetSharedMemoryBuffer\<close>, and
  \<open>sync_query\<close> is \<^verbatim>\<open>features().chromium_sync_query\<close>.
\<close>

type_synonym ('f, 'g) handled = "(gpu_error \<times> gl_error option \<times> ('f, 'g) query_manager) res"

definition sizeof_QuerySync :: u32 where
  "sizeof_QuerySync = 12"

text \<open>The part that begin and counter share: the memory of the query, and the query itself, which is made when there is none.\<close>

definition query_for_command ::
  "(i32 \<Rightarrow> gpu_buffer option) \<Rightarrow> u32 \<Rightarrow> u32 \<Rightarrow> i32 \<Rightarrow> u32 \<Rightarrow> (nat \<Rightarrow> ('f, 'g) query_manager \<Rightarrow> ('f, 'g) query_manager res) \<Rightarrow> ('f, 'g) query_manager \<Rightarrow>
     ('f, 'g) handled" where
  "query_for_command lookup target client_id sync_shm_id sync_shm_offset run m =
     (case lookup sync_shm_id of
        None \<Rightarrow> Inr (kInvalidArguments, None, m)
      | Some buffer \<Rightarrow>
          (case Buffer_GetDataAddress buffer sync_shm_offset sizeof_QuerySync of
             None \<Rightarrow> Inr (kOutOfBounds, None, m)
           | Some sync \<Rightarrow>
               (case QueryManager_GetQuery client_id m of
                  None \<Rightarrow>
                    if \<not> QueryManager_IsValidQuery client_id m then Inr (kNoError, Some GL_INVALID_OPERATION, m)
                    else res_bind (QueryManager_CreateQuery target client_id buffer sync m) (\<lambda>(o1, m1).
                      res_bind (run o1 m1) (\<lambda>m2. Inr (kNoError, None, m2)))
                | Some o1 \<Rightarrow>
                    res_bind (the_query o1 m) (\<lambda>q.
                      if gq_target q \<noteq> target then Inr (kNoError, Some GL_INVALID_OPERATION, m)
                      else if gq_sync q \<noteq> sync then Inr (kInvalidArguments, None, m)
                      else res_bind (run o1 m) (\<lambda>m2. Inr (kNoError, None, m2))))))"

definition HandleBeginQueryEXT ::
  "bool \<Rightarrow> (i32 \<Rightarrow> gpu_buffer option) \<Rightarrow> int \<Rightarrow> u32 \<Rightarrow> u32 \<Rightarrow> i32 \<Rightarrow> u32 \<Rightarrow> ('f, 'g) query_manager \<Rightarrow> ('f, 'g) handled" where
  "HandleBeginQueryEXT sync_query lookup now target client_id sync_shm_id sync_shm_offset m =
     (if target \<noteq> GL_COMMANDS_ISSUED_CHROMIUM \<and> target \<noteq> GL_COMMANDS_COMPLETED_CHROMIUM then Inr (kNoError, Some GL_INVALID_ENUM, m)
      else if target = GL_COMMANDS_COMPLETED_CHROMIUM \<and> \<not> sync_query then Inr (kNoError, Some GL_INVALID_OPERATION, m)
      else if QueryManager_GetActiveQuery target m \<noteq> None then Inr (kNoError, Some GL_INVALID_OPERATION, m)
      else if client_id = 0 then Inr (kNoError, Some GL_INVALID_OPERATION, m)
      else query_for_command lookup target client_id sync_shm_id sync_shm_offset (QueryManager_BeginQuery now) m)"

definition HandleEndQueryEXT :: "('f, 'g) gl_fences \<Rightarrow> int \<Rightarrow> u32 \<Rightarrow> u32 \<Rightarrow> ('f, 'g) query_manager \<Rightarrow> ('f, 'g) handled" where
  "HandleEndQueryEXT F now target submit_count m =
     (case QueryManager_GetActiveQuery target m of
        None \<Rightarrow> Inr (kNoError, Some GL_INVALID_OPERATION, m)
      | Some o1 \<Rightarrow> res_bind (QueryManager_EndQuery F now o1 (i32_of_u32 submit_count) m) (\<lambda>m1. Inr (kNoError, None, m1)))"

definition HandleQueryCounterEXT ::
  "(i32 \<Rightarrow> gpu_buffer option) \<Rightarrow> int \<Rightarrow> u32 \<Rightarrow> u32 \<Rightarrow> i32 \<Rightarrow> u32 \<Rightarrow> u32 \<Rightarrow> ('f, 'g) query_manager \<Rightarrow> ('f, 'g) handled" where
  "HandleQueryCounterEXT lookup now client_id target sync_shm_id sync_shm_offset submit_count m =
     (if target \<noteq> GL_COMMANDS_ISSUED_TIMESTAMP_CHROMIUM then Inr (kNoError, Some GL_INVALID_ENUM, m)
      else query_for_command lookup target client_id sync_shm_id sync_shm_offset
        (\<lambda>o1. QueryManager_QueryCounter now o1 (i32_of_u32 submit_count)) m)"

definition CheckUniqueAndNonNullIds :: "u32 list \<Rightarrow> bool" where
  "CheckUniqueAndNonNullIds client_ids \<longleftrightarrow> distinct client_ids \<and> 0 \<notin> set client_ids"

definition GenQueriesEXTHelper :: "u32 list \<Rightarrow> ('f, 'g) query_manager \<Rightarrow> bool \<times> ('f, 'g) query_manager" where
  "GenQueriesEXTHelper client_ids m =
     (if list_ex (\<lambda>i. QueryManager_IsValidQuery i m) client_ids then (False, m) else (True, QueryManager_GenQueries client_ids m))"

text \<open>The ids of the immediate commands are those of their data; the check that the data is there is that of the format.\<close>

definition HandleGenQueriesEXTImmediate :: "u32 list \<Rightarrow> ('f, 'g) query_manager \<Rightarrow> ('f, 'g) handled" where
  "HandleGenQueriesEXTImmediate client_ids m =
     (if \<not> CheckUniqueAndNonNullIds client_ids then Inr (kInvalidArguments, None, m)
      else (case GenQueriesEXTHelper client_ids m of (ok, m1) \<Rightarrow> Inr (if ok then kNoError else kInvalidArguments, None, m1)))"

definition HandleDeleteQueriesEXTImmediate :: "('f, 'g) gl_fences \<Rightarrow> u32 list \<Rightarrow> ('f, 'g) query_manager \<Rightarrow> ('f, 'g) handled" where
  "HandleDeleteQueriesEXTImmediate F client_ids m =
     res_bind (for_each (QueryManager_RemoveQuery F) client_ids m) (\<lambda>m1. Inr (kNoError, None, m1))"

definition RasterDecoder_SetQueryCallback :: "u32 \<Rightarrow> nat \<Rightarrow> ('f, 'g) query_manager \<Rightarrow> ('f, 'g) query_manager res" where
  "RasterDecoder_SetQueryCallback query_client_id callback m =
     (case QueryManager_GetQuery query_client_id m of
        Some o1 \<Rightarrow> Query_AddCallback callback o1 m
      | None \<Rightarrow> Inr (m\<lparr>qm_ran := qm_ran m @ [callback]\<rparr>))"

end
