(* ===== verification/Query_Invariant.thy ===== *)
theory Query_Invariant
  imports Query_Manager
begin

text \<open>
  The invariant of a \<open>query_manager\<close> that serves a client through the handlers of the raster decoder, and that every operation
  keeps it: what is active is in \<open>active_queries_\<close>, what is pending in \<open>pending_queries_\<close>, and no assertion fails.
\<close>

section \<open>Memory\<close>

text \<open>The blocks stay as long as they are, and new ones may follow.\<close>

definition same_blocks :: "heap \<Rightarrow> heap \<Rightarrow> bool" where
  "same_blocks hp hp' \<longleftrightarrow> length hp \<le> length hp' \<and> (\<forall>i < length hp. length (hp' ! i) = length (hp ! i))"

definition sync_in :: "heap \<Rightarrow> pointer \<Rightarrow> bool" where
  "sync_in hp p \<longleftrightarrow> fst p < length hp \<and> snd p + sizeof_QuerySync \<le> length (hp ! fst p)"

lemma same_blocks_refl [simp]: "same_blocks hp hp"
  by (simp add: same_blocks_def)

lemma same_blocks_trans: "same_blocks a b \<Longrightarrow> same_blocks b c \<Longrightarrow> same_blocks a c"
  by (simp add: same_blocks_def)

lemma sync_in_mono: "sync_in hp p \<Longrightarrow> same_blocks hp hp' \<Longrightarrow> sync_in hp' p"
  by (auto simp: sync_in_def same_blocks_def)

lemma same_blocks_write:
  "snd p + length bs \<le> length (hp ! fst p) \<Longrightarrow> same_blocks hp (write_bytes hp p bs)"
  by (cases "fst p < length hp") (auto simp: same_blocks_def write_bytes_def nth_list_update list_update_beyond)

text \<open>The memory after a query has been completed with a result.\<close>

definition completed_heap :: "int \<Rightarrow> 'f gpu_query \<Rightarrow> heap \<Rightarrow> heap" where
  "completed_heap result q hp = atomic_store (gq_sync q) (gq_submit_count q) (store_result (gq_sync q) (nat (result mod 2 ^ 64)) hp)"

lemma completed_heap_blocks:
  assumes "sync_in hp (gq_sync q)"
  shows "same_blocks hp (completed_heap result q hp)"
proof -
  let ?h = "store_result (gq_sync q) (nat (result mod 2 ^ 64)) hp"
  have 1: "same_blocks hp ?h"
    unfolding store_result_def by (rule same_blocks_write) (use assms in \<open>simp add: sync_in_def sizeof_QuerySync_def\<close>)
  have "sync_in ?h (gq_sync q)" by (rule sync_in_mono [OF assms 1])
  then have "same_blocks ?h (completed_heap result q hp)"
    unfolding completed_heap_def atomic_store_def by (intro same_blocks_write) (simp add: sync_in_def sizeof_QuerySync_def)
  with 1 show ?thesis by (rule same_blocks_trans)
qed

lemma completed_heap_count:
  assumes "sync_in hp (gq_sync q)" "- (2 ^ 31) \<le> gq_submit_count q" "gq_submit_count q < 2 ^ 31"
  shows "atomic_load (completed_heap result q hp) (gq_sync q) = gq_submit_count q"
proof -
  let ?h = "store_result (gq_sync q) (nat (result mod 2 ^ 64)) hp"
  have "same_blocks hp ?h"
    unfolding store_result_def by (rule same_blocks_write) (use assms(1) in \<open>simp add: sync_in_def sizeof_QuerySync_def\<close>)
  from sync_in_mono [OF assms(1) this] show ?thesis
    unfolding completed_heap_def by (intro load_store assms(2,3)) (simp_all add: sync_in_def sizeof_QuerySync_def)
qed

section \<open>Objects\<close>

lemma the_query_Some [simp]: "qm_objects m o1 = Some q \<Longrightarrow> the_query o1 m = Inr q"
  by (simp add: the_query_def)

lemma the_query_None [simp]: "qm_objects m o1 = None \<Longrightarrow> the_query o1 m = Inl Null_dereference"
  by (simp add: the_query_def)

lemma put_query_simps [simp]:
  "qm_queries (put_query o1 q m) = qm_queries m" "qm_active_queries (put_query o1 q m) = qm_active_queries m"
  "qm_pending_queries (put_query o1 q m) = qm_pending_queries m" "qm_objects (put_query o1 q m) = (qm_objects m)(o1 := Some q)"
  "qm_fresh (put_query o1 q m) = qm_fresh m" "qm_heap (put_query o1 q m) = qm_heap m" "qm_query_count (put_query o1 q m) = qm_query_count m"
  "qm_gl (put_query o1 q m) = qm_gl m" "qm_ran (put_query o1 q m) = qm_ran m" "qm_generated_query_ids (put_query o1 q m) = qm_generated_query_ids m"
  by (simp_all add: put_query_def)

lemma update_query_Some: "qm_objects m o1 = Some q \<Longrightarrow> update_query o1 f m = res_bind (f q) (\<lambda>q'. Inr (put_query o1 q' m))"
  by (simp add: update_query_def)

lemma release_held: "(\<And>x. x \<in> set os \<Longrightarrow> query_held m x) \<Longrightarrow> release_queries os m = m"
  by (induction os) auto

text \<open>A completed query: finished, its callbacks run, its result and its number in memory.\<close>

definition completed :: "int \<Rightarrow> nat \<Rightarrow> 'f gpu_query \<Rightarrow> ('f, 'g) query_manager \<Rightarrow> ('f, 'g) query_manager" where
  "completed result o1 q m =
     put_query o1 (q\<lparr>gq_state := kQueryState_Finished, gq_callbacks := []\<rparr>)
       (m\<lparr>qm_heap := completed_heap result q (qm_heap m), qm_ran := qm_ran m @ gq_callbacks q\<rparr>)"

lemma completed_simps [simp]:
  "qm_queries (completed r o1 q m) = qm_queries m" "qm_active_queries (completed r o1 q m) = qm_active_queries m"
  "qm_pending_queries (completed r o1 q m) = qm_pending_queries m"
  "qm_objects (completed r o1 q m) = (qm_objects m)(o1 := Some (q\<lparr>gq_state := kQueryState_Finished, gq_callbacks := []\<rparr>))"
  "qm_fresh (completed r o1 q m) = qm_fresh m" "qm_heap (completed r o1 q m) = completed_heap r q (qm_heap m)"
  "qm_query_count (completed r o1 q m) = qm_query_count m" "qm_gl (completed r o1 q m) = qm_gl m"
  "qm_ran (completed r o1 q m) = qm_ran m @ gq_callbacks q" "qm_generated_query_ids (completed r o1 q m) = qm_generated_query_ids m"
  by (simp_all add: completed_def)

lemma MarkAsCompleted_pending:
  assumes "qm_objects m o1 = Some q" "gq_state q = kQueryState_Pending"
  shows "Query_MarkAsCompleted r o1 m = Inr (completed r o1 q m)"
  using assms by (simp add: Query_MarkAsCompleted_def update_query_Some Query_UnmarkAsPending_def Query_RunCallbacks_def completed_def completed_heap_def
      put_query_def)

section \<open>The invariant\<close>

text \<open>
  A query by itself: its class is that of its target, and a \<^verbatim>\<open>CommandsIssuedQuery\<close> that is active runs its clock just while commands are processed.
  \<open>decoding\<close> says whether they are.
\<close>

definition query_ok :: "bool \<Rightarrow> bool \<Rightarrow> heap \<Rightarrow> 'f gpu_query \<Rightarrow> bool" where
  "query_ok sync_query decoding hp q \<longleftrightarrow> \<not> gq_deleted q \<and> sync_in hp (gq_sync q) \<and> gq_state q \<noteq> kQueryState_Paused \<and>
     (case gq_class q of
        CommandsIssuedQuery state elapsed_time begin_time \<Rightarrow>
          gq_target q = GL_COMMANDS_ISSUED_CHROMIUM \<and> gq_state q \<noteq> kQueryState_Pending \<and>
          (if gq_state q = kQueryState_Active then (if decoding then state = kProcessingCommands else state = kNotProcessingCommands \<and> begin_time = 0)
           else state = kNotStarted \<and> begin_time = 0)
      | CommandsIssuedTimestampQuery \<Rightarrow>
          gq_target q = GL_COMMANDS_ISSUED_TIMESTAMP_CHROMIUM \<and> gq_state q \<noteq> kQueryState_Active \<and> gq_state q \<noteq> kQueryState_Pending
      | CommandsCompletedQuery _ _ \<Rightarrow> gq_target q = GL_COMMANDS_COMPLETED_CHROMIUM \<and> sync_query)"

definition query_inv :: "bool \<Rightarrow> bool \<Rightarrow> ('f, 'g) query_manager \<Rightarrow> bool" where
  "query_inv sync_query decoding m \<longleftrightarrow>
     distinct (map fst (qm_queries m)) \<and> distinct (map snd (qm_queries m)) \<and> dom (qm_objects m) = snd ` set (qm_queries m) \<and>
     (\<forall>o1 \<in> dom (qm_objects m). o1 < qm_fresh m) \<and>
     (\<forall>o1 q. qm_objects m o1 = Some q \<longrightarrow> query_ok sync_query decoding (qm_heap m) q) \<and>
     distinct (map fst (qm_active_queries m)) \<and>
     set (qm_active_queries m) = {(t, o1). \<exists>q. qm_objects m o1 = Some q \<and> gq_target q = t \<and> gq_state q = kQueryState_Active} \<and>
     distinct (qm_pending_queries m) \<and> set (qm_pending_queries m) = {o1. \<exists>q. qm_objects m o1 = Some q \<and> gq_state q = kQueryState_Pending} \<and>
     qm_query_count m = length (qm_queries m) mod 2 ^ 32"

lemma query_inv_ok: "query_inv s d m \<Longrightarrow> qm_objects m o1 = Some q \<Longrightarrow> query_ok s d (qm_heap m) q"
  unfolding query_inv_def by blast

lemma query_inv_active:
  "query_inv s d m \<Longrightarrow> (t, o1) \<in> set (qm_active_queries m) \<longleftrightarrow> (\<exists>q. qm_objects m o1 = Some q \<and> gq_target q = t \<and> gq_state q = kQueryState_Active)"
  unfolding query_inv_def by (elim conjE) (simp only: mem_Collect_eq case_prod_conv)

lemma query_inv_pending:
  "query_inv s d m \<Longrightarrow> o1 \<in> set (qm_pending_queries m) \<longleftrightarrow> (\<exists>q. qm_objects m o1 = Some q \<and> gq_state q = kQueryState_Pending)"
  unfolding query_inv_def by (elim conjE) (simp only: mem_Collect_eq)

lemma query_inv_find:
  assumes "query_inv s d m"
  shows "map_of (qm_active_queries m) t = Some o1 \<longleftrightarrow> (\<exists>q. qm_objects m o1 = Some q \<and> gq_target q = t \<and> gq_state q = kQueryState_Active)"
proof -
  have "distinct (map fst (qm_active_queries m))" using assms by (simp add: query_inv_def)
  then have "map_of (qm_active_queries m) t = Some o1 \<longleftrightarrow> (t, o1) \<in> set (qm_active_queries m)" by (rule map_of_eq_Some_iff)
  then show ?thesis using query_inv_active [OF assms] by simp
qed

lemma query_inv_dom: "query_inv s d m \<Longrightarrow> dom (qm_objects m) = snd ` set (qm_queries m)"
  unfolding query_inv_def by blast

lemma query_inv_GetQuery:
  assumes "query_inv s d m" "map_of (qm_queries m) i = Some o1"
  obtains q where "qm_objects m o1 = Some q"
proof -
  have "o1 \<in> dom (qm_objects m)" unfolding query_inv_dom [OF assms(1)] using map_of_SomeD [OF assms(2)] by (metis image_eqI snd_conv)
  then show thesis using that by blast
qed

lemma query_inv_held: "query_inv s d m \<Longrightarrow> qm_objects m o1 = Some q \<Longrightarrow> o1 \<in> snd ` set (qm_queries m)"
  unfolding query_inv_def by blast

lemma new_QueryManager_inv: "query_inv s d (new_QueryManager hp g)"
  by (simp add: query_inv_def new_QueryManager_def)

lemma query_ok_mono: "query_ok s d hp q \<Longrightarrow> same_blocks hp hp' \<Longrightarrow> query_ok s d hp' q"
  by (auto simp: query_ok_def intro: sync_in_mono)

text \<open>One query changes, and the two lists with it.\<close>

lemma query_inv_change:
  assumes inv: "query_inv s d m" and q: "qm_objects m o1 = Some q" and ok: "query_ok s d (qm_heap m) q'" "gq_target q' = gq_target q"
    and same: "qm_queries m' = qm_queries m" "qm_fresh m' = qm_fresh m" "qm_query_count m' = qm_query_count m" "qm_objects m' = (qm_objects m)(o1 := Some q')"
    and blocks: "same_blocks (qm_heap m) (qm_heap m')"
    and act: "distinct (map fst (qm_active_queries m'))"
      "set (qm_active_queries m') = set (qm_active_queries m) - {(gq_target q, o1)} \<union> (if gq_state q' = kQueryState_Active then {(gq_target q, o1)} else {})"
    and pend: "distinct (qm_pending_queries m')"
      "set (qm_pending_queries m') = set (qm_pending_queries m) - {o1} \<union> (if gq_state q' = kQueryState_Pending then {o1} else {})"
  shows "query_inv s d m'"
proof -
  have dom: "dom (qm_objects m') = dom (qm_objects m)" using q by (auto simp: same)
  have oks: "query_ok s d (qm_heap m') r" if "qm_objects m' x = Some r" for x r
    by (rule query_ok_mono [OF _ blocks]) (use that ok(1) query_inv_ok [OF inv, of x] in \<open>auto simp: same split: if_splits\<close>)
  have a: "set (qm_active_queries m') = {(t, x). \<exists>r. qm_objects m' x = Some r \<and> gq_target r = t \<and> gq_state r = kQueryState_Active}"
    unfolding act(2) using query_inv_active [OF inv] q ok(2) by (auto simp: same split: if_splits)
  have p: "set (qm_pending_queries m') = {x. \<exists>r. qm_objects m' x = Some r \<and> gq_state r = kQueryState_Pending}"
    unfolding pend(2) using query_inv_pending [OF inv] by (auto simp: same split: if_splits)
  show ?thesis
    unfolding query_inv_def dom same(1-3) using inv act(1) pend(1) a p oks by (simp add: query_inv_def)
qed
section \<open>The operations keep the invariant\<close>

lemma query_ok_finish:
  "query_ok s d hp q \<Longrightarrow> gq_state q = kQueryState_Pending \<Longrightarrow> query_ok s d hp (q\<lparr>gq_state := kQueryState_Finished, gq_callbacks := cs\<rparr>)"
  by (cases "gq_class q") (auto simp: query_ok_def)

lemma query_inv_sync: "query_inv s d m \<Longrightarrow> qm_objects m o1 = Some q \<Longrightarrow> sync_in (qm_heap m) (gq_sync q)"
  using query_inv_ok [of s d m o1 q] by (simp add: query_ok_def)

lemma query_inv_distinct:
  "query_inv s d m \<Longrightarrow> distinct (map fst (qm_active_queries m))" "query_inv s d m \<Longrightarrow> distinct (qm_pending_queries m)"
  "query_inv s d m \<Longrightarrow> distinct (map fst (qm_queries m))" "query_inv s d m \<Longrightarrow> distinct (map snd (qm_queries m))"
  unfolding query_inv_def by blast+

text \<open>\<^verbatim>\<open>RemovePendingQuery\<close> completes a query that is pending with the result 0.\<close>

definition after_remove :: "nat \<Rightarrow> 'f gpu_query \<Rightarrow> ('f, 'g) query_manager \<Rightarrow> ('f, 'g) query_manager" where
  "after_remove o1 q m =
     (if gq_state q = kQueryState_Pending then completed 0 o1 q (m\<lparr>qm_pending_queries := remove1 o1 (qm_pending_queries m)\<rparr>) else m)"

lemma RemovePendingQuery_eq:
  assumes "qm_objects m o1 = Some q" "o1 \<in> snd ` set (qm_queries m)"
  shows "RemovePendingQuery o1 m = Inr (after_remove o1 q m)"
proof -
  let ?m = "m\<lparr>qm_pending_queries := remove1 o1 (qm_pending_queries m)\<rparr>"
  have "release_queries [o1] ?m = ?m" using assms(2) by (intro release_held) (simp add: query_held_def)
  then show ?thesis using assms(1) by (simp add: RemovePendingQuery_def after_remove_def MarkAsCompleted_pending)
qed

lemma after_remove_simps [simp]:
  "qm_queries (after_remove o1 q m) = qm_queries m" "qm_active_queries (after_remove o1 q m) = qm_active_queries m"
  "qm_fresh (after_remove o1 q m) = qm_fresh m" "qm_query_count (after_remove o1 q m) = qm_query_count m" "qm_gl (after_remove o1 q m) = qm_gl m"
  "qm_generated_query_ids (after_remove o1 q m) = qm_generated_query_ids m"
  by (simp_all add: after_remove_def)

lemma RemovePendingQuery_inv:
  assumes inv: "query_inv s d m" and q: "qm_objects m o1 = Some q"
  obtains q' where "RemovePendingQuery o1 m = Inr (after_remove o1 q m)" "query_inv s d (after_remove o1 q m)"
    "qm_objects (after_remove o1 q m) = (qm_objects m)(o1 := Some q')" "gq_state q' \<noteq> kQueryState_Pending"
    "gq_target q' = gq_target q" "gq_class q' = gq_class q" "gq_sync q' = gq_sync q" "gq_state q \<noteq> kQueryState_Pending \<longrightarrow> q' = q"
    "gq_state q = kQueryState_Pending \<longrightarrow> gq_state q' = kQueryState_Finished"
proof (cases "gq_state q = kQueryState_Pending")
  case True
  let ?q = "q\<lparr>gq_state := kQueryState_Finished, gq_callbacks := []\<rparr>"
  have "query_inv s d (after_remove o1 q m)"
  proof (rule query_inv_change [OF inv q query_ok_finish [OF query_inv_ok [OF inv q] True]])
    show "same_blocks (qm_heap m) (qm_heap (after_remove o1 q m))"
      using completed_heap_blocks [OF query_inv_sync [OF inv q]] True by (simp add: after_remove_def)
    show "set (qm_active_queries (after_remove o1 q m)) = set (qm_active_queries m) - {(gq_target q, o1)} \<union>
        (if gq_state ?q = kQueryState_Active then {(gq_target q, o1)} else {})"
      using query_inv_active [OF inv, of "gq_target q" o1] q True by auto
  qed (use True query_inv_distinct [OF inv] in \<open>simp_all add: after_remove_def distinct_remove1\<close>)
  then show thesis by (rule that [OF RemovePendingQuery_eq [OF q query_inv_held [OF inv q]], of ?q]) (use True in \<open>simp_all add: after_remove_def\<close>)
next
  case False
  then show thesis
    by (intro that [OF RemovePendingQuery_eq [OF q query_inv_held [OF inv q]], of q]) (use inv q in \<open>simp_all add: after_remove_def fun_upd_idem\<close>)
qed

lemma insort_key_keys: "distinct (map fst xs) \<Longrightarrow> fst e \<notin> fst ` set xs \<Longrightarrow> distinct (map fst (insort_key fst e xs)) \<and> set (insort_key fst e xs) = insert e (set xs)"
  by (induction xs) (auto simp: set_insort_key)

lemma set_erase_key: "distinct (map fst xs) \<Longrightarrow> (k, v) \<in> set xs \<Longrightarrow> set (erase_key k xs) = set xs - {(k, v)}"
  unfolding erase_key_def by (induction xs) (auto simp: rev_image_eqI)

lemma erase_key_none: "k \<notin> fst ` set xs \<Longrightarrow> erase_key k xs = xs"
  unfolding erase_key_def by (induction xs) auto

lemma distinct_erase_key: "distinct (map fst xs) \<Longrightarrow> distinct (map fst (erase_key k xs))" "distinct (map snd xs) \<Longrightarrow> distinct (map snd (erase_key k xs))"
  by (simp_all add: erase_key_def distinct_map_filter)

text \<open>Beginning a query whose target is not active.\<close>

lemma BeginQuery_inv:
  assumes inv: "query_inv s True m" and q: "qm_objects m o1 = Some q" and t: "map_of (qm_active_queries m) (gq_target q) = None"
    and c: "gq_target q = GL_COMMANDS_ISSUED_CHROMIUM \<or> gq_target q = GL_COMMANDS_COMPLETED_CHROMIUM"
  shows "\<exists>m'. QueryManager_BeginQuery now o1 m = Inr m' \<and> query_inv s True m'"
proof -
  obtain r where r: "RemovePendingQuery o1 m = Inr (after_remove o1 q m)" "query_inv s True (after_remove o1 q m)"
    "qm_objects (after_remove o1 q m) o1 = Some r" "gq_state r \<noteq> kQueryState_Pending" "gq_target r = gq_target q" "gq_class r = gq_class q"
    by (rule RemovePendingQuery_inv [OF inv q]) auto
  let ?m = "after_remove o1 q m"
  have t1: "map_of (qm_active_queries ?m) (gq_target q) = None" using t by simp
  then have na: "gq_state r \<noteq> kQueryState_Active" using query_inv_find [OF r(2), of "gq_target q" o1] r(3,5) by auto
  have ok: "query_ok s True (qm_heap ?m) r" by (rule query_inv_ok [OF r(2,3)])
  obtain r' where b: "Query_Begin now r = Inr r'" "gq_state r' = kQueryState_Active" "gq_target r' = gq_target r" "query_ok s True (qm_heap ?m) r'"
    using ok na r(4,5) c by (cases "gq_class r"; cases "gq_state r")
      (auto simp: query_ok_def Query_Begin_def CommandsIssuedQuery_Begin_def CommandsCompletedQuery_Begin_def Query_MarkAsActive_def
        CommandsIssuedQuery_BeginProcessingCommands_def query_targets)
  let ?a = "insort_key fst (gq_target r', o1) (erase_key (gq_target r') (qm_active_queries m))"
  let ?m' = "(put_query o1 r' ?m)\<lparr>qm_active_queries := ?a\<rparr>"
  have no: "gq_target r' \<notin> fst ` set (qm_active_queries m)" using t b(3) r(5) by (simp add: map_of_eq_None_iff)
  have eq: "QueryManager_BeginQuery now o1 m = Inr ?m'"
    using r(1,3) b t r(5) by (simp add: QueryManager_BeginQuery_def update_query_Some)
  have "query_inv s True ?m'"
  proof (rule query_inv_change [OF r(2,3) b(4,3)])
    have ins: "distinct (map fst ?a) \<and> set ?a = insert (gq_target r', o1) (set (qm_active_queries m))"
      using insort_key_keys [of "qm_active_queries m" "(gq_target r', o1)"] no query_inv_distinct(1) [OF r(2)] by (simp add: erase_key_none)
    show "distinct (map fst (qm_active_queries ?m'))" using ins by simp
    show "set (qm_active_queries ?m') = set (qm_active_queries ?m) - {(gq_target r, o1)} \<union> (if gq_state r' = kQueryState_Active then {(gq_target r, o1)} else {})"
      using ins b(2,3) by auto
    show "set (qm_pending_queries ?m') = set (qm_pending_queries ?m) - {o1} \<union> (if gq_state r' = kQueryState_Pending then {o1} else {})"
      using query_inv_pending [OF r(2), of o1] r(3,4) b(2) by auto
  qed (use query_inv_distinct [OF r(2)] in simp_all)
  with eq show ?thesis by blast
qed
text \<open>A driver that has fences, where the commands-completed queries are enabled.\<close>

definition fences_ok :: "('f, 'g) gl_fences \<Rightarrow> bool \<Rightarrow> bool" where
  "fences_ok F sync_query \<longleftrightarrow> (sync_query \<longrightarrow> (\<forall>g. fst (GLFence_Create F g) \<noteq> None))"

lemma renew_fence_ok:
  assumes "fences_ok F s" s
  shows "\<exists>f g1. renew_fence F fence g = (Some f, g1)"
proof -
  obtain f g1 where "GLFence_Create F g = (Some f, g1)" using assms by (metis fences_ok_def not_None_eq prod.collapse)
  then show ?thesis by (simp add: renew_fence_def split: option.split prod.split)
qed

text \<open>What ending a query does: a \<^verbatim>\<open>CommandsIssuedQuery\<close> is complete at once, a \<^verbatim>\<open>CommandsCompletedQuery\<close> goes to the end of the queue.\<close>

lemma EndQuery_Issued:
  fixes now begin_time elapsed_time :: int
  assumes inv: "query_inv s d m" and q: "qm_objects m o1 = Some q" "gq_state q = kQueryState_Active" "gq_class q = CommandsIssuedQuery st elapsed_time begin_time"
  defines "elapsed \<equiv> if begin_time \<noteq> 0 then elapsed_time + (now - begin_time) else elapsed_time"
  shows "\<exists>m'. QueryManager_EndQuery F now o1 n m = Inr m' \<and> query_inv s d m' \<and>
    qm_heap m' = completed_heap elapsed (q\<lparr>gq_submit_count := n\<rparr>) (qm_heap m)"
proof -
  have ok: "query_ok s d (qm_heap m) q" by (rule query_inv_ok [OF inv q(1)])
  have h: "o1 \<in> snd ` set (qm_queries m)" by (rule query_inv_held [OF inv q(1)])
  have f: "map_of (qm_active_queries m) (gq_target q) = Some o1" using query_inv_find [OF inv] q by blast
  let ?m1 = "m\<lparr>qm_active_queries := erase_key (gq_target q) (qm_active_queries m)\<rparr>"
  have rel: "release_queries [o1] ?m1 = ?m1" by (rule release_held) (use h in \<open>simp add: query_held_def\<close>)
  let ?q = "q\<lparr>gq_state := kQueryState_Pending, gq_submit_count := n\<rparr>" and ?r = "CommandsIssuedQuery_Reset (q\<lparr>gq_submit_count := n, gq_state := kQueryState_Finished, gq_callbacks := []\<rparr>)"
  let ?m2 = "put_query o1 ?r (completed elapsed o1 ?q (put_query o1 ?q ?m1))"
  have eq: "QueryManager_EndQuery F now o1 n m = Inr ?m2"
    using q f rel h by (simp add: QueryManager_EndQuery_def RemovePendingQuery_def Query_End_def CommandsIssuedQuery_End_def update_query_Some
        Query_MarkAsPending_def MarkAsCompleted_pending elapsed_def)
  have ha: "completed_heap elapsed ?q (qm_heap m) = completed_heap elapsed (q\<lparr>gq_submit_count := n\<rparr>) (qm_heap m)" by (simp add: completed_heap_def)
  have "query_inv s d ?m2"
  proof (rule query_inv_change [OF inv q(1)])
    show "query_ok s d (qm_heap m) ?r" using ok q by (auto simp: query_ok_def CommandsIssuedQuery_Reset_def)
    show "same_blocks (qm_heap m) (qm_heap ?m2)" using completed_heap_blocks [of "qm_heap m" ?q elapsed] query_inv_sync [OF inv q(1)] by simp
    have "set (erase_key (gq_target q) (qm_active_queries m)) = set (qm_active_queries m) - {(gq_target q, o1)}"
      using query_inv_active [OF inv, of "gq_target q" o1] q by (intro set_erase_key query_inv_distinct [OF inv]) blast
    then show "set (qm_active_queries ?m2) = set (qm_active_queries m) - {(gq_target q, o1)} \<union> (if gq_state ?r = kQueryState_Active then {(gq_target q, o1)} else {})"
      by (simp add: CommandsIssuedQuery_Reset_def)
    show "set (qm_pending_queries ?m2) = set (qm_pending_queries m) - {o1} \<union> (if gq_state ?r = kQueryState_Pending then {o1} else {})"
      using query_inv_pending [OF inv, of o1] q by (auto simp: CommandsIssuedQuery_Reset_def)
  qed (use query_inv_distinct [OF inv] distinct_erase_key in \<open>simp_all add: CommandsIssuedQuery_Reset_def\<close>)
  with eq ha show ?thesis by auto
qed

lemma EndQuery_Completed:
  assumes inv: "query_inv s d m" and q: "qm_objects m o1 = Some q" "gq_state q = kQueryState_Active" "gq_class q = CommandsCompletedQuery fence begin_time"
    and F: "fences_ok F s"
  shows "\<exists>m' fence'. QueryManager_EndQuery F now o1 n m = Inr m' \<and> query_inv s d m' \<and> qm_heap m' = qm_heap m \<and>
    qm_pending_queries m' = qm_pending_queries m @ [o1] \<and>
    qm_objects m' o1 = Some (q\<lparr>gq_class := CommandsCompletedQuery (Some fence') begin_time, gq_state := kQueryState_Pending, gq_submit_count := n\<rparr>) \<and>
    (\<forall>x. x \<noteq> o1 \<longrightarrow> qm_objects m' x = qm_objects m x)"
proof -
  have ok: "query_ok s d (qm_heap m) q" by (rule query_inv_ok [OF inv q(1)])
  then have s using q by (simp add: query_ok_def)
  from renew_fence_ok [OF F this] obtain f g1 where ren: "renew_fence F fence (qm_gl m) = (Some f, g1)" by blast
  have h: "o1 \<in> snd ` set (qm_queries m)" by (rule query_inv_held [OF inv q(1)])
  have f: "map_of (qm_active_queries m) (gq_target q) = Some o1" using query_inv_find [OF inv] q by blast
  let ?m1 = "m\<lparr>qm_active_queries := erase_key (gq_target q) (qm_active_queries m)\<rparr>"
  have rel: "release_queries [o1] ?m1 = ?m1" by (rule release_held) (use h in \<open>simp add: query_held_def\<close>)
  let ?q = "q\<lparr>gq_class := CommandsCompletedQuery (Some f) begin_time\<rparr>"
  let ?r = "?q\<lparr>gq_state := kQueryState_Pending, gq_submit_count := n\<rparr>"
  let ?m2 = "(put_query o1 ?r (put_query o1 ?q (?m1\<lparr>qm_gl := g1\<rparr>)))\<lparr>qm_pending_queries := qm_pending_queries m @ [o1]\<rparr>"
  have del: "\<not> gq_deleted q" using ok by (simp add: query_ok_def)
  have eq: "QueryManager_EndQuery F now o1 n m = Inr ?m2"
    using q f rel h ren del by (simp add: QueryManager_EndQuery_def RemovePendingQuery_def Query_End_def CommandsCompletedQuery_End_def update_query_Some
        Query_MarkAsPending_def AddPendingQuery_def)
  have no: "o1 \<notin> set (qm_pending_queries m)" using query_inv_pending [OF inv, of o1] q by simp
  have "query_inv s d ?m2"
  proof (rule query_inv_change [OF inv q(1)])
    show "query_ok s d (qm_heap m) ?r" using ok q by (simp add: query_ok_def)
    have "set (erase_key (gq_target q) (qm_active_queries m)) = set (qm_active_queries m) - {(gq_target q, o1)}"
      using query_inv_active [OF inv, of "gq_target q" o1] q by (intro set_erase_key query_inv_distinct [OF inv]) blast
    then show "set (qm_active_queries ?m2) = set (qm_active_queries m) - {(gq_target q, o1)} \<union> (if gq_state ?r = kQueryState_Active then {(gq_target q, o1)} else {})"
      by simp
    show "set (qm_pending_queries ?m2) = set (qm_pending_queries m) - {o1} \<union> (if gq_state ?r = kQueryState_Pending then {o1} else {})"
      using no by auto
  qed (use query_inv_distinct [OF inv] distinct_erase_key no in simp_all)
  with eq show ?thesis by (intro exI [of _ ?m2] exI [of _ f]) simp
qed

lemma EndQuery_inv:
  assumes inv: "query_inv s d m" and a: "map_of (qm_active_queries m) t = Some o1" and F: "fences_ok F s"
  shows "\<exists>m'. QueryManager_EndQuery F now o1 n m = Inr m' \<and> query_inv s d m'"
proof -
  obtain q where q: "qm_objects m o1 = Some q" "gq_state q = kQueryState_Active" using query_inv_find [OF inv] a by blast
  have ok: "query_ok s d (qm_heap m) q" by (rule query_inv_ok [OF inv q(1)])
  show ?thesis
  proof (cases "gq_class q")
    case (CommandsIssuedQuery st e b)
    from EndQuery_Issued [OF inv q this] show ?thesis by blast
  next
    case CommandsIssuedTimestampQuery
    with ok q show ?thesis by (simp add: query_ok_def)
  next
    case (CommandsCompletedQuery f b)
    from EndQuery_Completed [OF inv q this F] show ?thesis by blast
  qed
qed

lemma QueryCounter_inv:
  assumes inv: "query_inv s d m" and q: "qm_objects m o1 = Some q" and t: "gq_target q = GL_COMMANDS_ISSUED_TIMESTAMP_CHROMIUM" and now: "0 \<le> now"
  shows "\<exists>m'. QueryManager_QueryCounter now o1 n m = Inr m' \<and> query_inv s d m' \<and>
    qm_heap m' = completed_heap now (q\<lparr>gq_submit_count := n\<rparr>) (qm_heap m)"
proof -
  have ok: "query_ok s d (qm_heap m) q" by (rule query_inv_ok [OF inv q])
  then have c: "gq_class q = CommandsIssuedTimestampQuery" "gq_state q = kQueryState_Initialize \<or> gq_state q = kQueryState_Finished"
    using t by (cases "gq_class q"; cases "gq_state q"; simp add: query_ok_def query_targets)+
  let ?q = "q\<lparr>gq_state := kQueryState_Pending, gq_submit_count := n\<rparr>"
  let ?m1 = "put_query o1 ?q (put_query o1 (q\<lparr>gq_state := kQueryState_Active\<rparr>) m)"
  let ?m2 = "completed now o1 ?q ?m1" and ?r = "?q\<lparr>gq_state := kQueryState_Finished, gq_callbacks := []\<rparr>"
  have np: "gq_state q \<noteq> kQueryState_Pending" "gq_state q \<noteq> kQueryState_Active" using c(2) by auto
  have eq: "QueryManager_QueryCounter now o1 n m = Inr ?m2"
    using q c now np by (auto simp: QueryManager_QueryCounter_def RemovePendingQuery_def Query_QueryCounter_def CommandsIssuedTimestampQuery_QueryCounter_def
        update_query_Some Query_MarkAsActive_def Query_MarkAsPending_def MarkAsCompleted_pending)
  have "query_inv s d ?m2"
  proof (rule query_inv_change [OF inv q])
    show "query_ok s d (qm_heap m) ?r" using ok c by (simp add: query_ok_def)
    show "same_blocks (qm_heap m) (qm_heap ?m2)" using completed_heap_blocks [of "qm_heap m" ?q now] query_inv_sync [OF inv q] by simp
    show "set (qm_active_queries ?m2) = set (qm_active_queries m) - {(gq_target q, o1)} \<union> (if gq_state ?r = kQueryState_Active then {(gq_target q, o1)} else {})"
      using query_inv_active [OF inv, of "gq_target q" o1] q np by auto
    show "set (qm_pending_queries ?m2) = set (qm_pending_queries m) - {o1} \<union> (if gq_state ?r = kQueryState_Pending then {o1} else {})"
      using query_inv_pending [OF inv, of o1] q np by auto
  qed (use query_inv_distinct [OF inv] in simp_all)
  with eq show ?thesis by (auto simp: completed_heap_def)
qed
text \<open>A new query, and one that goes away.\<close>

lemma CreateQuery_inv:
  assumes inv: "query_inv s d m" and i: "map_of (qm_queries m) i = None" and c: "class_of_target target = Inr c"
    and ok: "query_ok s d (qm_heap m) (new_Query c target buffer sync)"
  shows "\<exists>m'. QueryManager_CreateQuery target i buffer sync m = Inr (qm_fresh m, m') \<and> query_inv s d m' \<and>
    qm_objects m' (qm_fresh m) = Some (new_Query c target buffer sync) \<and> qm_active_queries m' = qm_active_queries m"
proof -
  let ?o = "qm_fresh m" and ?q = "new_Query c target buffer sync"
  let ?m1 = "put_query ?o ?q (m\<lparr>qm_query_count := u32_add (qm_query_count m) 1, qm_fresh := Suc ?o\<rparr>)"
  let ?m2 = "?m1\<lparr>qm_queries := (i, ?o) # qm_queries ?m1\<rparr>"
  have eq: "QueryManager_CreateQuery target i buffer sync m = Inr (?o, ?m2)" using c i by (simp add: QueryManager_CreateQuery_def Let_def)
  have below: "x < ?o" if "x \<in> dom (qm_objects m)" for x using inv that unfolding query_inv_def by blast
  then have new: "qm_objects m ?o = None" by (meson domIff less_irrefl)
  have st: "gq_state ?q = kQueryState_Initialize" by (simp add: new_Query_def)
  have "query_inv s d ?m2"
    unfolding query_inv_def
  proof (intro conjI)
    show "distinct (map fst (qm_queries ?m2))" using i query_inv_distinct(3) [OF inv] by (simp add: map_of_eq_None_iff)
    show "distinct (map snd (qm_queries ?m2))" using new query_inv_distinct(4) [OF inv] domIff [of ?o "qm_objects m"] unfolding query_inv_dom [OF inv] by simp
    show "dom (qm_objects ?m2) = snd ` set (qm_queries ?m2)" using query_inv_dom [OF inv] by simp
    show "\<forall>o1\<in>dom (qm_objects ?m2). o1 < qm_fresh ?m2" using below by (auto intro: less_SucI)
    show "\<forall>o1 q. qm_objects ?m2 o1 = Some q \<longrightarrow> query_ok s d (qm_heap ?m2) q"
    proof (intro allI impI)
      fix x r assume "qm_objects ?m2 x = Some r"
      then show "query_ok s d (qm_heap ?m2) r" using ok query_inv_ok [OF inv, of x r] by (cases "x = ?o") simp_all
    qed
    show "set (qm_active_queries ?m2) = {(t, o1). \<exists>q. qm_objects ?m2 o1 = Some q \<and> gq_target q = t \<and> gq_state q = kQueryState_Active}"
    proof (intro set_eqI iffI)
      fix e assume "e \<in> set (qm_active_queries ?m2)"
      then show "e \<in> {(t, o1). \<exists>q. qm_objects ?m2 o1 = Some q \<and> gq_target q = t \<and> gq_state q = kQueryState_Active}"
        using query_inv_active [OF inv, of "fst e" "snd e"] new by (cases e) auto
    next
      fix e assume "e \<in> {(t, o1). \<exists>q. qm_objects ?m2 o1 = Some q \<and> gq_target q = t \<and> gq_state q = kQueryState_Active}"
      then show "e \<in> set (qm_active_queries ?m2)"
        using query_inv_active [OF inv, of "fst e" "snd e"] st by (cases e) (auto split: if_splits)
    qed
    show "set (qm_pending_queries ?m2) = {o1. \<exists>q. qm_objects ?m2 o1 = Some q \<and> gq_state q = kQueryState_Pending}"
      using query_inv_pending [OF inv] st new by (auto split: if_splits)
    show "qm_query_count ?m2 = length (qm_queries ?m2) mod 2 ^ 32"
      using inv unfolding query_inv_def by (simp add: u32_add_def mod_Suc_eq)
  qed (use query_inv_distinct [OF inv] in simp_all)
  with eq show ?thesis by simp
qed

lemma delete_Query_simps:
  assumes "qm_objects m o1 = Some q"
  shows "qm_objects (delete_Query o1 m) = (qm_objects m)(o1 := None)" "qm_query_count (delete_Query o1 m) = u32_sub (qm_query_count m) 1"
    "qm_queries (delete_Query o1 m) = qm_queries m" "qm_active_queries (delete_Query o1 m) = qm_active_queries m"
    "qm_pending_queries (delete_Query o1 m) = qm_pending_queries m" "qm_fresh (delete_Query o1 m) = qm_fresh m" "qm_heap (delete_Query o1 m) = qm_heap m"
    "qm_ran (delete_Query o1 m) = qm_ran m @ gq_callbacks q"
  using assms by (simp_all add: delete_Query_def Query_RunCallbacks_def)

lemma length_erase_key:
  assumes "distinct (map fst xs)" "(i, v) \<in> set xs"
  shows "length (erase_key i xs) = length xs - 1"
proof -
  have d: "distinct xs" using assms(1) by (simp add: distinct_map)
  then have "distinct (erase_key i xs)" by (simp add: erase_key_def)
  then have "length (erase_key i xs) = card (set xs - {(i, v)})" using set_erase_key [OF assms] by (metis distinct_card)
  then show ?thesis using d assms(2) by (simp add: distinct_card)
qed

lemma query_inv_gone:
  assumes inv: "query_inv s d m" and q: "qm_objects m o1 = Some q" and i: "(i, o1) \<in> set (qm_queries m)"
    and same: "qm_queries m' = erase_key i (qm_queries m)" "qm_fresh m' = qm_fresh m" "qm_query_count m' = u32_sub (qm_query_count m) 1"
      "qm_objects m' = (qm_objects m)(o1 := None)"
    and blocks: "same_blocks (qm_heap m) (qm_heap m')"
    and act: "distinct (map fst (qm_active_queries m'))" "set (qm_active_queries m') = set (qm_active_queries m) - {(gq_target q, o1)}"
    and pend: "distinct (qm_pending_queries m')" "set (qm_pending_queries m') = set (qm_pending_queries m) - {o1}"
  shows "query_inv s d m'"
  unfolding query_inv_def
proof (intro conjI)
  note dst = query_inv_distinct [OF inv]
  show "distinct (map fst (qm_queries m'))" "distinct (map snd (qm_queries m'))" unfolding same by (rule distinct_erase_key dst)+
  have er: "set (erase_key i (qm_queries m)) = set (qm_queries m) - {(i, o1)}" by (rule set_erase_key [OF dst(3) i])
  have inj: "inj_on snd (set (qm_queries m))" using dst(4) by (simp add: distinct_map)
  have "snd ` (set (qm_queries m) - {(i, o1)}) = snd ` set (qm_queries m) - {o1}" using inj_on_image_set_diff [OF inj, of "set (qm_queries m)" "{(i, o1)}"] i by simp
  then show "dom (qm_objects m') = snd ` set (qm_queries m')" unfolding same er using query_inv_dom [OF inv] by simp
  show "\<forall>o1\<in>dom (qm_objects m'). o1 < qm_fresh m'" using inv unfolding query_inv_def same by auto
  show "\<forall>o1 q. qm_objects m' o1 = Some q \<longrightarrow> query_ok s d (qm_heap m') q"
  proof (intro allI impI)
    fix x r assume "qm_objects m' x = Some r"
    then have "qm_objects m x = Some r" by (simp add: same split: if_splits)
    then show "query_ok s d (qm_heap m') r" by (intro query_ok_mono [OF query_inv_ok [OF inv] blocks])
  qed
  show "set (qm_active_queries m') = {(t, o1). \<exists>q. qm_objects m' o1 = Some q \<and> gq_target q = t \<and> gq_state q = kQueryState_Active}"
  proof (intro set_eqI)
    fix e :: "nat \<times> nat"
    show "e \<in> set (qm_active_queries m') \<longleftrightarrow> e \<in> {(t, o1). \<exists>q. qm_objects m' o1 = Some q \<and> gq_target q = t \<and> gq_state q = kQueryState_Active}"
      unfolding act(2) same using query_inv_active [OF inv, of "fst e" "snd e"] q by (cases e) auto
  qed
  show "set (qm_pending_queries m') = {o1. \<exists>q. qm_objects m' o1 = Some q \<and> gq_state q = kQueryState_Pending}"
    unfolding pend(2) same using query_inv_pending [OF inv] by auto
  have pos: "0 < length (qm_queries m)" using i by (cases "qm_queries m") auto
  have cnt: "qm_query_count m = length (qm_queries m) mod 2 ^ 32" using inv unfolding query_inv_def by blast
  obtain k where k: "length (qm_queries m) = Suc k" using pos by (cases "length (qm_queries m)") auto
  have "u32_sub (Suc k mod 2 ^ 32) 1 = k mod 2 ^ 32"
  proof -
    have "(a :: nat) + 2 ^ 32 - 1 mod 2 ^ 32 = a + (2 ^ 32 - 1)" for a by simp
    then have "u32_sub (Suc k mod 2 ^ 32) 1 = (Suc k mod 2 ^ 32 + (2 ^ 32 - 1)) mod 2 ^ 32" by (simp only: u32_sub_def)
    also have "\<dots> = (Suc k + (2 ^ 32 - 1)) mod 2 ^ 32" by (rule mod_add_left_eq)
    also have "Suc k + (2 ^ 32 - 1) = k + 2 ^ 32" by simp
    finally show ?thesis by simp
  qed
  then show "qm_query_count m' = length (qm_queries m') mod 2 ^ 32" unfolding same cnt length_erase_key [OF dst(3) i] k by simp
qed (use act(1) pend(1) in simp_all)
lemma query_inv_frame [simp]:
  "query_inv s d (m\<lparr>qm_generated_query_ids := X\<rparr>) = query_inv s d m" "query_inv s d (m\<lparr>qm_gl := g\<rparr>) = query_inv s d m"
  "query_inv s d (m\<lparr>qm_ran := r\<rparr>) = query_inv s d m"
  unfolding query_inv_def by simp_all

lemma Query_Destroy_simps [simp]:
  "gq_state (Query_Destroy F b q) = gq_state q" "gq_target (Query_Destroy F b q) = gq_target q" "gq_sync (Query_Destroy F b q) = gq_sync q"
  "gq_submit_count (Query_Destroy F b q) = gq_submit_count q" "gq_callbacks (Query_Destroy F b q) = gq_callbacks q"
  by (simp_all add: Query_Destroy_def CommandsIssuedQuery_Destroy_def CommandsCompletedQuery_Destroy_def Query_MarkAsDeleted_def split: query_class.split option.split)

lemma after_remove_pending [simp]:
  "qm_pending_queries (after_remove o1 q m) = (if gq_state q = kQueryState_Pending then remove1 o1 (qm_pending_queries m) else qm_pending_queries m)"
  by (simp add: after_remove_def)

lemma RemoveQuery_inv:
  assumes inv: "query_inv s d m"
  shows "\<exists>m'. QueryManager_RemoveQuery F i m = Inr m' \<and> query_inv s d m' \<and> map_of (qm_queries m') i = None \<and> same_blocks (qm_heap m) (qm_heap m')"
proof (cases "map_of (qm_queries m) i")
  case None
  then show ?thesis using inv by (simp add: QueryManager_RemoveQuery_def)
next
  case (Some o1)
  note inv_dist = query_inv_distinct [OF inv]
  obtain q where q: "qm_objects m o1 = Some q" by (rule query_inv_GetQuery [OF inv Some])
  have h: "o1 \<in> snd ` set (qm_queries m)" by (rule query_inv_held [OF inv q])
  have mem: "(i, o1) \<in> set (qm_queries m)" by (rule map_of_SomeD [OF Some])
  have act: "map_of (qm_active_queries m) (gq_target q) = Some o1 \<longleftrightarrow> gq_state q = kQueryState_Active" using query_inv_find [OF inv] q by simp
  have acts: "(t, o1) \<in> set (qm_active_queries m) \<longleftrightarrow> gq_target q = t \<and> gq_state q = kQueryState_Active" for t using query_inv_active [OF inv] q by simp
  have pends: "o1 \<in> set (qm_pending_queries m) \<longleftrightarrow> gq_state q = kQueryState_Pending" using query_inv_pending [OF inv] q by simp
  let ?e = "m\<lparr>qm_active_queries := erase_key (gq_target q) (qm_active_queries m)\<rparr>"
  define m1 where "m1 = (if gq_state q = kQueryState_Active then ?e else m)"
  have "release_queries [o1] ?e = ?e" by (rule release_held) (use h in \<open>simp add: query_held_def\<close>)
  then have m1: "(if gq_state q = kQueryState_Active then release_queries [o1] ?e else m) = m1" by (simp add: m1_def)
  have m1s: "qm_objects m1 = qm_objects m" "qm_queries m1 = qm_queries m" "qm_pending_queries m1 = qm_pending_queries m" "qm_fresh m1 = qm_fresh m"
    "qm_heap m1 = qm_heap m" "qm_query_count m1 = qm_query_count m" "distinct (map fst (qm_active_queries m1))"
    "set (qm_active_queries m1) = set (qm_active_queries m) - {(gq_target q, o1)}"
    using inv_dist(1) distinct_erase_key(1) [OF inv_dist(1)] set_erase_key [OF inv_dist(1), of "gq_target q" o1] acts [of "gq_target q"]
    by (simp_all add: m1_def)
  let ?d = "Query_Destroy F True q"
  let ?m2 = "put_query o1 ?d m1"
  define m3 where "m3 = after_remove o1 ?d ?m2"
  have m3: "RemovePendingQuery o1 ?m2 = Inr m3" unfolding m3_def by (rule RemovePendingQuery_eq) (use h m1s in simp_all)
  obtain r where r: "qm_objects m3 = (qm_objects m)(o1 := Some r)" by (cases "gq_state q = kQueryState_Pending") (simp_all add: m3_def after_remove_def m1s)
  have blocks: "same_blocks (qm_heap m) (qm_heap m3)"
    using completed_heap_blocks [of "qm_heap m" ?d 0] query_inv_sync [OF inv q] by (simp add: m3_def after_remove_def m1s)
  define m5 where "m5 = (put_query o1 (Query_MarkAsDeleted r) m3)\<lparr>qm_queries := erase_key i (qm_queries m3)\<rparr>"
  have m5s: "qm_queries m5 = erase_key i (qm_queries m)" "qm_fresh m5 = qm_fresh m" "qm_query_count m5 = qm_query_count m"
    "qm_heap m5 = qm_heap m3" "qm_active_queries m5 = qm_active_queries m1"
    "qm_pending_queries m5 = (if gq_state q = kQueryState_Pending then remove1 o1 (qm_pending_queries m) else qm_pending_queries m)"
    by (simp_all add: m5_def m3_def m1s)
  have pend: "distinct (qm_pending_queries m5)" "set (qm_pending_queries m5) = set (qm_pending_queries m) - {o1}"
    unfolding m5s using inv_dist(2) pends by simp_all
  have gone: "\<not> query_held m5 o1"
  proof -
    have "(k, o1) \<in> set (qm_queries m) \<Longrightarrow> k = i" for k using mem inv_dist(4) by (metis (no_types) distinct_map inj_onD prod.inject snd_conv)
    then have "o1 \<notin> snd ` set (erase_key i (qm_queries m))" by (auto simp: erase_key_def)
    moreover have "o1 \<notin> snd ` set (qm_active_queries m1)" unfolding m1s(8) using acts by auto
    ultimately show ?thesis unfolding query_held_def m5s(1,5) using pend(2) by auto
  qed
  let ?m6 = "delete_Query o1 m5"
  have o5: "qm_objects m5 o1 = Some (Query_MarkAsDeleted r)" by (simp add: m5_def)
  note dl = delete_Query_simps [OF o5]
  have eq: "QueryManager_RemoveQuery F i m = Inr (?m6\<lparr>qm_generated_query_ids := qm_generated_query_ids ?m6 - {i}\<rparr>)"
    using Some q act m1 m3 r gone by (simp add: QueryManager_RemoveQuery_def Let_def update_query_Some m1s m5_def)
  have "query_inv s d ?m6"
    by (rule query_inv_gone [OF inv q mem]) (use m5s m1s(7,8) pend blocks r in \<open>simp_all add: dl, simp_all add: m5_def\<close>)
  moreover have "map_of (qm_queries ?m6) i = None" by (auto simp: dl m5s erase_key_def map_of_eq_None_iff)
  ultimately show ?thesis using eq blocks by (simp add: dl m5s(4))
qed
section \<open>Processing the queue\<close>

definition query_fence :: "'f gpu_query \<Rightarrow> 'f option" where
  "query_fence q = (case gq_class q of CommandsCompletedQuery fence _ \<Rightarrow> fence | _ \<Rightarrow> None)"

definition query_begin :: "'f gpu_query \<Rightarrow> int" where
  "query_begin q = (case gq_class q of CommandsCompletedQuery _ begin_time \<Rightarrow> begin_time | _ \<Rightarrow> 0)"

text \<open>The memory after these queries have been completed, one after the other.\<close>

definition completed_in_order :: "int \<Rightarrow> 'f gpu_query list \<Rightarrow> heap \<Rightarrow> heap" where
  "completed_in_order now qs = fold (\<lambda>q. completed_heap (now - query_begin q) q) qs"

definition pending_objects :: "('f, 'g) query_manager \<Rightarrow> 'f gpu_query list" where
  "pending_objects m = map (\<lambda>o1. the (qm_objects m o1)) (qm_pending_queries m)"

text \<open>\<open>k\<close> queries at the front of the queue are completed, and the rest stays as it is.\<close>

definition processed :: "('f, 'g) gl_fences \<Rightarrow> int \<Rightarrow> bool \<Rightarrow> nat \<Rightarrow> ('f, 'g) query_manager \<Rightarrow> ('f, 'g) query_manager \<Rightarrow> bool" where
  "processed F now did_finish k m m' \<longleftrightarrow>
     k \<le> length (qm_pending_queries m) \<and> qm_pending_queries m' = drop k (qm_pending_queries m) \<and>
     qm_heap m' = completed_in_order now (take k (pending_objects m)) (qm_heap m) \<and>
     qm_ran m' = qm_ran m @ concat (map gq_callbacks (take k (pending_objects m))) \<and>
     qm_objects m' = (\<lambda>o1. if o1 \<in> set (take k (qm_pending_queries m))
                            then map_option (\<lambda>q. q\<lparr>gq_state := kQueryState_Finished, gq_callbacks := []\<rparr>) (qm_objects m o1) else qm_objects m o1) \<and>
     (\<forall>i < k. \<exists>g. fst (fence_done F did_finish (query_fence (pending_objects m ! i)) g)) \<and>
     (k < length (qm_pending_queries m) \<longrightarrow> (\<exists>g. \<not> fst (fence_done F did_finish (query_fence (pending_objects m ! k)) g)))"

lemma process_pending_front:
  assumes inv: "query_inv s d m" and os: "qm_pending_queries m = o1 # os"
  shows "\<exists>q m1. qm_objects m o1 = Some q \<and>
    (if fst (fence_done F fin (query_fence q) (qm_gl m))
     then query_inv s d m1 \<and> qm_pending_queries m1 = os \<and> process_pending F now fin (o1 # os) m = process_pending F now fin os m1 \<and>
       qm_heap m1 = completed_heap (now - query_begin q) q (qm_heap m) \<and> qm_ran m1 = qm_ran m @ gq_callbacks q \<and>
       qm_objects m1 = (qm_objects m)(o1 := Some (q\<lparr>gq_state := kQueryState_Finished, gq_callbacks := []\<rparr>))
     else process_pending F now fin (o1 # os) m = Inr m1 \<and> query_inv s d m1 \<and> (\<exists>g. m1 = m\<lparr>qm_gl := g\<rparr>))"
proof -
  obtain q where q: "qm_objects m o1 = Some q" "gq_state q = kQueryState_Pending" using query_inv_pending [OF inv, of o1] os by auto
  have ok: "query_ok s d (qm_heap m) q" by (rule query_inv_ok [OF inv q(1)])
  then obtain f b where c: "gq_class q = CommandsCompletedQuery f b" using q(2) by (cases "gq_class q") (auto simp: query_ok_def)
  obtain dn g1 where fd: "fence_done F fin f (qm_gl m) = (dn, g1)" by (rule prod.exhaust)
  have fb: "query_fence q = f" "query_begin q = b" by (simp_all add: query_fence_def query_begin_def c)
  show ?thesis
  proof (cases dn)
    case False
    then have "process_pending F now fin (o1 # os) m = Inr (m\<lparr>qm_gl := g1\<rparr>)"
      using q c fd by (simp add: Query_Process_def CommandsCompletedQuery_Process_def)
    then show ?thesis using q(1) fd fb False inv by (intro exI [of _ q] exI [of _ "m\<lparr>qm_gl := g1\<rparr>"]) auto
  next
    case True
    let ?m1 = "completed (now - b) o1 q (m\<lparr>qm_gl := g1\<rparr>)"
    let ?m2 = "?m1\<lparr>qm_pending_queries := os\<rparr>" and ?r = "q\<lparr>gq_state := kQueryState_Finished, gq_callbacks := []\<rparr>"
    have rel: "release_queries [o1] ?m2 = ?m2"
      by (rule release_held) (use query_inv_held [OF inv q(1)] in \<open>simp add: query_held_def\<close>)
    have eq: "process_pending F now fin (o1 # os) m = process_pending F now fin os ?m2"
      using q c fd True rel by (simp add: Query_Process_def CommandsCompletedQuery_Process_def MarkAsCompleted_pending)
    have dp: "distinct (o1 # os)" using query_inv_distinct(2) [OF inv] os by simp
    have "query_inv s d ?m2"
    proof (rule query_inv_change [OF inv q(1) query_ok_finish [OF ok q(2)]])
      show "same_blocks (qm_heap m) (qm_heap ?m2)" using completed_heap_blocks [of "qm_heap m" q "now - b"] query_inv_sync [OF inv q(1)] by simp
      show "set (qm_active_queries ?m2) = set (qm_active_queries m) - {(gq_target q, o1)} \<union>
          (if gq_state ?r = kQueryState_Active then {(gq_target q, o1)} else {})"
        using query_inv_active [OF inv, of "gq_target q" o1] q by auto
      show "set (qm_pending_queries ?m2) = set (qm_pending_queries m) - {o1} \<union> (if gq_state ?r = kQueryState_Pending then {o1} else {})"
        using dp os by auto
    qed (use query_inv_distinct [OF inv] dp in simp_all)
    with eq q(1) fd fb True show ?thesis by (intro exI [of _ q] exI [of _ ?m2]) simp
  qed
qed

lemma process_pending_processed:
  assumes "query_inv s d m" "qm_pending_queries m = os"
  shows "\<exists>m' k. process_pending F now fin os m = Inr m' \<and> query_inv s d m' \<and> processed F now fin k m m'"
  using assms
proof (induction os arbitrary: m)
  case Nil
  then show ?case by (intro exI [of _ m] exI [of _ 0]) (simp add: processed_def completed_in_order_def)
next
  case (Cons o1 os)
  obtain q m1 where q: "qm_objects m o1 = Some q" and
    c: "if fst (fence_done F fin (query_fence q) (qm_gl m))
     then query_inv s d m1 \<and> qm_pending_queries m1 = os \<and> process_pending F now fin (o1 # os) m = process_pending F now fin os m1 \<and>
       qm_heap m1 = completed_heap (now - query_begin q) q (qm_heap m) \<and> qm_ran m1 = qm_ran m @ gq_callbacks q \<and>
       qm_objects m1 = (qm_objects m)(o1 := Some (q\<lparr>gq_state := kQueryState_Finished, gq_callbacks := []\<rparr>))
     else process_pending F now fin (o1 # os) m = Inr m1 \<and> query_inv s d m1 \<and> (\<exists>g. m1 = m\<lparr>qm_gl := g\<rparr>)"
    using process_pending_front [OF Cons.prems, of F fin now] by blast
  show ?case
  proof (cases "fst (fence_done F fin (query_fence q) (qm_gl m))")
    case True
    note m1 = c [unfolded if_P [OF True]]
    obtain m' k where m': "process_pending F now fin os m1 = Inr m'" "query_inv s d m'" "processed F now fin k m1 m'"
      using Cons.IH [of m1] m1 by blast
    have new: "o1 \<notin> set os" using query_inv_distinct(2) [OF Cons.prems(1)] Cons.prems(2) by simp
    have po: "pending_objects m = q # pending_objects m1"
      using new m1 q Cons.prems(2) by (auto simp: pending_objects_def)
    have "processed F now fin (Suc k) m m'"
      unfolding processed_def
    proof (intro conjI)
      note pr = m'(3) [unfolded processed_def]
      show "Suc k \<le> length (qm_pending_queries m)" "qm_pending_queries m' = drop (Suc k) (qm_pending_queries m)"
        using pr m1 Cons.prems(2) by simp_all
      show "qm_heap m' = completed_in_order now (take (Suc k) (pending_objects m)) (qm_heap m)"
        using pr m1 by (simp add: po completed_in_order_def)
      show "qm_ran m' = qm_ran m @ concat (map gq_callbacks (take (Suc k) (pending_objects m)))" using pr m1 by (simp add: po)
      show "qm_objects m' = (\<lambda>x. if x \<in> set (take (Suc k) (qm_pending_queries m))
          then map_option (\<lambda>q. q\<lparr>gq_state := kQueryState_Finished, gq_callbacks := []\<rparr>) (qm_objects m x) else qm_objects m x)"
      proof (rule ext)
        fix x
        have "o1 \<notin> set (take k os)" using new by (meson in_set_takeD)
        then show "qm_objects m' x = (if x \<in> set (take (Suc k) (qm_pending_queries m))
          then map_option (\<lambda>q. q\<lparr>gq_state := kQueryState_Finished, gq_callbacks := []\<rparr>) (qm_objects m x) else qm_objects m x)"
          using pr m1 q Cons.prems(2) by (cases "x = o1") simp_all
      qed
      show "\<forall>i < Suc k. \<exists>g. fst (fence_done F fin (query_fence (pending_objects m ! i)) g)"
      proof (intro allI impI)
        fix i assume "i < Suc k"
        then show "\<exists>g. fst (fence_done F fin (query_fence (pending_objects m ! i)) g)" using pr True by (cases i) (auto simp: po)
      qed
      show "Suc k < length (qm_pending_queries m) \<longrightarrow> (\<exists>g. \<not> fst (fence_done F fin (query_fence (pending_objects m ! Suc k)) g))"
        using pr m1 Cons.prems(2) by (simp add: po)
    qed
    with m' m1 show ?thesis by metis
  next
    case False
    note m1 = c [unfolded if_not_P [OF False]]
    have "processed F now fin 0 m m1" using m1 False q Cons.prems(2) by (auto simp: processed_def completed_in_order_def pending_objects_def)
    with m1 show ?thesis by blast
  qed
qed

lemma processed_finish: "processed F now True k m m' \<Longrightarrow> k = length (qm_pending_queries m) \<and> qm_pending_queries m' = []"
  by (auto simp: processed_def fence_done_def)

lemma ProcessPendingQueries_processed:
  assumes "query_inv s d m"
  shows "\<exists>m' k. QueryManager_ProcessPendingQueries F now fin m = Inr m' \<and> query_inv s d m' \<and> processed F now fin k m m'"
proof -
  obtain m' k where p: "process_pending F now fin (qm_pending_queries m) m = Inr m'" "query_inv s d m'" "processed F now fin k m m'"
    using process_pending_processed [OF assms refl] by blast
  then show ?thesis using processed_finish [of F now k m m'] by (intro exI [of _ m'] exI [of _ k]) (cases fin; simp add: QueryManager_ProcessPendingQueries_def)
qed
section \<open>The other operations\<close>

lemma class_of_target_ok:
  assumes "target = GL_COMMANDS_ISSUED_CHROMIUM \<or> target = GL_COMMANDS_ISSUED_TIMESTAMP_CHROMIUM \<or> target = GL_COMMANDS_COMPLETED_CHROMIUM \<and> s"
    and "sync_in hp sync"
  obtains c where "class_of_target target = Inr c" "query_ok s d hp (new_Query c target buffer sync)"
  using assms by (auto simp: class_of_target_def query_ok_def new_Query_def query_targets)

text \<open>The part that begin and counter share, for a client that may send anything.\<close>

lemma query_for_command_inv:
  fixes m :: "('f, 'g) query_manager"
  assumes inv: "query_inv s d m" and bufs: "\<forall>i b. lookup i = Some b \<longrightarrow> buffer_ok (qm_heap m) b"
    and t: "target = GL_COMMANDS_ISSUED_CHROMIUM \<or> target = GL_COMMANDS_ISSUED_TIMESTAMP_CHROMIUM \<or> target = GL_COMMANDS_COMPLETED_CHROMIUM \<and> s"
    and run: "\<And>o1 q n. query_inv s d n \<Longrightarrow> qm_objects n o1 = Some q \<Longrightarrow> gq_target q = target \<Longrightarrow> qm_active_queries n = qm_active_queries m \<Longrightarrow>
      \<exists>n'. run o1 n = Inr n' \<and> query_inv s d n'"
  shows "\<exists>e g m'. query_for_command lookup target i shm off run m = Inr (e, g, m') \<and> query_inv s d m'"
proof (cases "lookup shm")
  case None
  then show ?thesis using inv by (simp add: query_for_command_def)
next
  case (Some b)
  note b = this
  show ?thesis
  proof (cases "Buffer_GetDataAddress b off sizeof_QuerySync")
    case None
    then show ?thesis using inv b by (simp add: query_for_command_def)
  next
    case (Some sync)
    have "buffer_ok (qm_heap m) b" using bufs b by blast
    from GetDataAddress_in_bounds [OF Some this] have sy: "sync_in (qm_heap m) sync" by (auto simp: sync_in_def)
    show ?thesis
    proof (cases "map_of (qm_queries m) i")
      case None
      obtain c :: "'f query_class" where c: "class_of_target target = Inr c" "query_ok s d (qm_heap m) (new_Query c target b sync)"
        by (rule class_of_target_ok [OF t sy])
      obtain m1 where m1: "QueryManager_CreateQuery target i b sync m = Inr (qm_fresh m, m1)" "query_inv s d m1"
        "qm_objects m1 (qm_fresh m) = Some (new_Query c target b sync)" "qm_active_queries m1 = qm_active_queries m"
        using CreateQuery_inv [OF inv None c] by blast
      obtain m2 where "run (qm_fresh m) m1 = Inr m2" "query_inv s d m2" using run [OF m1(2,3) _ m1(4)] by (auto simp: new_Query_def)
      then show ?thesis
        using b Some None m1(1) inv by (cases "QueryManager_IsValidQuery i m") (simp_all add: query_for_command_def QueryManager_GetQuery_def)
    next
      case (Some o1)
      obtain q where q: "qm_objects m o1 = Some q" by (rule query_inv_GetQuery [OF inv Some])
      show ?thesis
      proof (cases "gq_target q = target \<and> gq_sync q = sync")
        case True
        then obtain m2 where "run o1 m = Inr m2" "query_inv s d m2" using run [OF inv q] by auto
        then show ?thesis using b \<open>Buffer_GetDataAddress b off sizeof_QuerySync = Some sync\<close> Some q True
          by (simp add: query_for_command_def QueryManager_GetQuery_def)
      next
        case False
        then show ?thesis using b \<open>Buffer_GetDataAddress b off sizeof_QuerySync = Some sync\<close> Some q inv
          by (simp add: query_for_command_def QueryManager_GetQuery_def)
      qed
    qed
  qed
qed

lemma HandleBeginQueryEXT_inv:
  assumes inv: "query_inv s True m" and bufs: "\<forall>i b. lookup i = Some b \<longrightarrow> buffer_ok (qm_heap m) b"
  shows "\<exists>e g m'. HandleBeginQueryEXT s lookup now target i shm off m = Inr (e, g, m') \<and> query_inv s True m'"
proof (cases "(target = GL_COMMANDS_ISSUED_CHROMIUM \<or> target = GL_COMMANDS_COMPLETED_CHROMIUM \<and> s) \<and> map_of (qm_active_queries m) target = None \<and> i \<noteq> 0")
  case True
  have "\<exists>e g m'. query_for_command lookup target i shm off (QueryManager_BeginQuery now) m = Inr (e, g, m') \<and> query_inv s True m'"
    by (rule query_for_command_inv [OF inv bufs]) (use True in blast, rule BeginQuery_inv, use True in auto)
  then show ?thesis using True by (auto simp: HandleBeginQueryEXT_def QueryManager_GetActiveQuery_def query_targets)
next
  case False
  then show ?thesis using inv by (auto simp: HandleBeginQueryEXT_def QueryManager_GetActiveQuery_def query_targets)
qed

lemma HandleEndQueryEXT_inv:
  assumes "query_inv s d m" "fences_ok F s"
  shows "\<exists>e g m'. HandleEndQueryEXT F now target n m = Inr (e, g, m') \<and> query_inv s d m'"
proof (cases "map_of (qm_active_queries m) target")
  case None
  then show ?thesis using assms(1) by (simp add: HandleEndQueryEXT_def QueryManager_GetActiveQuery_def)
next
  case (Some o1)
  from EndQuery_inv [OF assms(1) Some assms(2), of now "i32_of_u32 n"] show ?thesis
    using Some by (auto simp: HandleEndQueryEXT_def QueryManager_GetActiveQuery_def)
qed

lemma HandleQueryCounterEXT_inv:
  assumes inv: "query_inv s d m" and bufs: "\<forall>i b. lookup i = Some b \<longrightarrow> buffer_ok (qm_heap m) b" and now: "0 \<le> now"
  shows "\<exists>e g m'. HandleQueryCounterEXT lookup now i target shm off n m = Inr (e, g, m') \<and> query_inv s d m'"
proof (cases "target = GL_COMMANDS_ISSUED_TIMESTAMP_CHROMIUM")
  case True
  have "\<exists>e g m'. query_for_command lookup target i shm off (\<lambda>o1. QueryManager_QueryCounter now o1 (i32_of_u32 n)) m = Inr (e, g, m') \<and> query_inv s d m'"
    by (rule query_for_command_inv [OF inv bufs]) (use True QueryCounter_inv now in blast)+
  then show ?thesis using True by (simp add: HandleQueryCounterEXT_def)
next
  case False
  then show ?thesis using inv by (simp add: HandleQueryCounterEXT_def)
qed

lemma DeleteQueries_inv:
  assumes "query_inv s d m"
  shows "\<exists>m'. for_each (QueryManager_RemoveQuery F) is m = Inr m' \<and> query_inv s d m'"
  using assms
proof (induction "is" arbitrary: m)
  case (Cons i "is")
  obtain m1 where "QueryManager_RemoveQuery F i m = Inr m1" "query_inv s d m1" using RemoveQuery_inv [OF Cons.prems] by blast
  with Cons.IH [of m1] show ?case by simp
qed simp

lemma SetQueryCallback_inv:
  assumes "query_inv s d m"
  shows "\<exists>m'. RasterDecoder_SetQueryCallback i cb m = Inr m' \<and> query_inv s d m'"
proof (cases "map_of (qm_queries m) i")
  case None
  then show ?thesis using assms by (simp add: RasterDecoder_SetQueryCallback_def QueryManager_GetQuery_def)
next
  case (Some o1)
  obtain q where q: "qm_objects m o1 = Some q" by (rule query_inv_GetQuery [OF assms Some])
  let ?q = "q\<lparr>gq_callbacks := gq_callbacks q @ [cb]\<rparr>"
  show ?thesis
  proof (cases "gq_state q = kQueryState_Pending")
    case True
    have "query_inv s d (put_query o1 ?q m)"
    proof (rule query_inv_change [OF assms q])
      show "query_ok s d (qm_heap m) ?q" using query_inv_ok [OF assms q] by (simp add: query_ok_def cong: query_class.case_cong)
      show "set (qm_active_queries (put_query o1 ?q m)) = set (qm_active_queries m) - {(gq_target q, o1)} \<union>
          (if gq_state ?q = kQueryState_Active then {(gq_target q, o1)} else {})"
        using query_inv_active [OF assms, of "gq_target q" o1] q True by auto
      show "set (qm_pending_queries (put_query o1 ?q m)) = set (qm_pending_queries m) - {o1} \<union> (if gq_state ?q = kQueryState_Pending then {o1} else {})"
        using query_inv_pending [OF assms, of o1] q True by auto
    qed (use query_inv_distinct [OF assms] in simp_all)
    then show ?thesis using Some q True by (simp add: RasterDecoder_SetQueryCallback_def QueryManager_GetQuery_def Query_AddCallback_def)
  next
    case False
    then show ?thesis using Some q assms by (simp add: RasterDecoder_SetQueryCallback_def QueryManager_GetQuery_def Query_AddCallback_def)
  qed
qed

lemma client_writes_inv: "query_inv s d m \<Longrightarrow> same_blocks (qm_heap m) hp \<Longrightarrow> query_inv s d (m\<lparr>qm_heap := hp\<rparr>)"
  unfolding query_inv_def by (simp, blast intro: query_ok_mono)
section \<open>Beginning and ending the processing of commands\<close>

lemma for_each_update:
  assumes "\<forall>e \<in> set es. \<exists>q q'. qm_objects m (snd e) = Some q \<and> f q = Inr q'" "distinct (map snd es)"
  shows "\<exists>m'. for_each (\<lambda>e. update_query (snd e) f) es m = Inr m' \<and> (\<exists>ob. m' = m\<lparr>qm_objects := ob\<rparr> \<and>
    (\<forall>x. if x \<in> snd ` set es then \<exists>q q'. qm_objects m x = Some q \<and> f q = Inr q' \<and> ob x = Some q' else ob x = qm_objects m x))"
  using assms
proof (induction es arbitrary: m)
  case Nil
  then show ?case by (intro exI [of _ m] conjI exI [of _ "qm_objects m"]) simp_all
next
  case (Cons e es)
  obtain q q' where q: "qm_objects m (snd e) = Some q" "f q = Inr q'" using Cons.prems(1) by auto
  let ?m = "put_query (snd e) q' m"
  have new: "snd e \<notin> snd ` set es" using Cons.prems(2) by simp
  then have same: "qm_objects ?m (snd x) = qm_objects m (snd x)" if "x \<in> set es" for x using that by (auto simp: image_iff)
  have pre: "\<forall>e \<in> set es. \<exists>q q'. qm_objects ?m (snd e) = Some q \<and> f q = Inr q'" using Cons.prems(1) same by auto
  have dist: "distinct (map snd es)" using Cons.prems(2) by simp
  obtain m' ob where ob: "for_each (\<lambda>e. update_query (snd e) f) es ?m = Inr m'" "m' = ?m\<lparr>qm_objects := ob\<rparr>"
    "\<forall>x. if x \<in> snd ` set es then \<exists>q q'. qm_objects ?m x = Some q \<and> f q = Inr q' \<and> ob x = Some q' else ob x = qm_objects ?m x"
    using Cons.IH [OF pre dist] by blast
  have m': "m' = m\<lparr>qm_objects := ob\<rparr>" by (simp add: ob(2) put_query_def)
  have eq: "for_each (\<lambda>e. update_query (snd e) f) (e # es) m = Inr m'" using ob(1) q by (simp add: update_query_Some)
  have "if x \<in> snd ` set (e # es) then \<exists>q q'. qm_objects m x = Some q \<and> f q = Inr q' \<and> ob x = Some q' else ob x = qm_objects m x" for x
    using ob(3) [rule_format, of x] q new by (cases "x = snd e") (auto split: if_splits)
  then show ?case using eq m' by blast
qed

lemma active_distinct: "query_inv s d m \<Longrightarrow> distinct (map snd (qm_active_queries m))"
proof -
  assume inv: "query_inv s d m"
  have "distinct (qm_active_queries m)" using query_inv_distinct(1) [OF inv] by (simp add: distinct_map)
  moreover have "inj_on snd (set (qm_active_queries m))"
  proof (rule inj_onI)
    fix a b assume a: "a \<in> set (qm_active_queries m)" "b \<in> set (qm_active_queries m)" "snd a = snd b"
    have "(fst a, snd a) \<in> set (qm_active_queries m)" using a(1) by simp
    moreover have "(fst b, snd a) \<in> set (qm_active_queries m)" unfolding a(3) using a(2) by simp
    ultimately have "fst a = fst b" unfolding query_inv_active [OF inv] by auto
    with a(3) show "a = b" by (simp add: prod_eq_iff)
  qed
  ultimately show ?thesis by (simp add: distinct_map)
qed

text \<open>The clock of every active query is started, or stopped.\<close>

lemma processing_inv:
  assumes inv: "query_inv s d m"
    and f: "\<And>q. query_ok s d (qm_heap m) q \<Longrightarrow> gq_state q = kQueryState_Active \<Longrightarrow>
      \<exists>q'. f q = Inr q' \<and> query_ok s (\<not> d) (qm_heap m) q' \<and> gq_state q' = kQueryState_Active \<and> gq_target q' = gq_target q"
  shows "\<exists>m'. for_each (\<lambda>e. update_query (snd e) f) (qm_active_queries m) m = Inr m' \<and> query_inv s (\<not> d) m'"
proof -
  have act: "x \<in> snd ` set (qm_active_queries m) \<longleftrightarrow> (\<exists>q. qm_objects m x = Some q \<and> gq_state q = kQueryState_Active)" for x
  proof
    assume "x \<in> snd ` set (qm_active_queries m)"
    then obtain t where "(t, x) \<in> set (qm_active_queries m)" by auto
    then show "\<exists>q. qm_objects m x = Some q \<and> gq_state q = kQueryState_Active" unfolding query_inv_active [OF inv] by blast
  next
    assume "\<exists>q. qm_objects m x = Some q \<and> gq_state q = kQueryState_Active"
    then obtain q where q: "qm_objects m x = Some q" "gq_state q = kQueryState_Active" by blast
    have "(gq_target q, x) \<in> set (qm_active_queries m)" unfolding query_inv_active [OF inv] using q by simp
    then show "x \<in> snd ` set (qm_active_queries m)" by (metis image_eqI snd_conv)
  qed
  have pre: "\<forall>e \<in> set (qm_active_queries m). \<exists>q q'. qm_objects m (snd e) = Some q \<and> f q = Inr q'"
  proof
    fix e assume "e \<in> set (qm_active_queries m)"
    then obtain q where q: "qm_objects m (snd e) = Some q" "gq_state q = kQueryState_Active" using act [of "snd e"] by auto
    with f [OF query_inv_ok [OF inv q(1)] q(2)] show "\<exists>q q'. qm_objects m (snd e) = Some q \<and> f q = Inr q'" by blast
  qed
  obtain m' ob where ob: "for_each (\<lambda>e. update_query (snd e) f) (qm_active_queries m) m = Inr m'" "m' = m\<lparr>qm_objects := ob\<rparr>"
    "\<And>x. if x \<in> snd ` set (qm_active_queries m) then \<exists>q q'. qm_objects m x = Some q \<and> f q = Inr q' \<and> ob x = Some q' else ob x = qm_objects m x"
    using for_each_update [OF pre active_distinct [OF inv]] by metis
  have each: "case qm_objects m x of None \<Rightarrow> ob x = None
    | Some q \<Rightarrow> \<exists>q'. ob x = Some q' \<and> gq_state q' = gq_state q \<and> gq_target q' = gq_target q \<and> query_ok s (\<not> d) (qm_heap m) q'" for x
  proof (cases "qm_objects m x")
    case None
    then show ?thesis using ob(3) [of x] act [of x] by simp
  next
    case (Some q)
    show ?thesis
    proof (cases "gq_state q = kQueryState_Active")
      case True
      then have "x \<in> snd ` set (qm_active_queries m)" using act Some by blast
      with ob(3) [of x] Some obtain q' where "f q = Inr q'" "ob x = Some q'" by auto
      with f [OF query_inv_ok [OF inv Some] True] True Some show ?thesis by auto
    next
      case False
      then have "ob x = Some q" using ob(3) [of x] act [of x] Some by simp
      moreover have "query_ok s (\<not> d) (qm_heap m) q" using query_inv_ok [OF inv Some] False by (simp add: query_ok_def cong: query_class.case_cong)
      ultimately show ?thesis using Some by simp
    qed
  qed
  have each1: "(\<exists>q. ob x = Some q \<and> P (gq_target q) (gq_state q)) \<longleftrightarrow> (\<exists>q. qm_objects m x = Some q \<and> P (gq_target q) (gq_state q))" for x P
    using each [of x] by (cases "qm_objects m x") auto
  have "query_inv s (\<not> d) m'"
    unfolding query_inv_def
  proof (intro conjI)
    have dm: "dom ob = dom (qm_objects m)"
    proof (rule set_eqI)
      fix x show "x \<in> dom ob \<longleftrightarrow> x \<in> dom (qm_objects m)" using each [of x] by (cases "qm_objects m x") auto
    qed
    show "dom (qm_objects m') = snd ` set (qm_queries m')" using query_inv_dom [OF inv] dm ob(2) by simp
    show "\<forall>o1\<in>dom (qm_objects m'). o1 < qm_fresh m'" using inv dm unfolding query_inv_def ob(2) by simp
    show "\<forall>o1 q. qm_objects m' o1 = Some q \<longrightarrow> query_ok s (\<not> d) (qm_heap m') q"
    proof (intro allI impI)
      fix x q assume "qm_objects m' x = Some q"
      then show "query_ok s (\<not> d) (qm_heap m') q" using each [of x] by (cases "qm_objects m x") (auto simp: ob(2))
    qed
    show "set (qm_active_queries m') = {(t, o1). \<exists>q. qm_objects m' o1 = Some q \<and> gq_target q = t \<and> gq_state q = kQueryState_Active}"
      using each1 [where P = "\<lambda>a b. a = _ \<and> b = kQueryState_Active"] query_inv_active [OF inv] by (auto simp: ob(2))
    show "set (qm_pending_queries m') = {o1. \<exists>q. qm_objects m' o1 = Some q \<and> gq_state q = kQueryState_Pending}"
      using each1 [where P = "\<lambda>a b. b = kQueryState_Pending"] query_inv_pending [OF inv] by (auto simp: ob(2))
    show "qm_query_count m' = length (qm_queries m') mod 2 ^ 32" using inv unfolding query_inv_def ob(2) by simp
  qed (use query_inv_distinct [OF inv] in \<open>simp_all add: ob(2)\<close>)
  with ob(1) show ?thesis by blast
qed

lemma BeginProcessingCommands_inv:
  assumes "query_inv s False m"
  shows "\<exists>m'. QueryManager_BeginProcessingCommands now m = Inr m' \<and> query_inv s True m'"
  unfolding QueryManager_BeginProcessingCommands_def
proof (rule processing_inv [OF assms, simplified])
  fix q :: "'a gpu_query" assume "query_ok s False (qm_heap m) q" "gq_state q = kQueryState_Active"
  then show "\<exists>q'. Query_BeginProcessingCommands now q = Inr q' \<and> query_ok s True (qm_heap m) q' \<and> gq_state q' = kQueryState_Active \<and> gq_target q' = gq_target q"
    by (cases "gq_class q") (auto simp: query_ok_def Query_BeginProcessingCommands_def CommandsIssuedQuery_BeginProcessingCommands_def)
qed

lemma EndProcessingCommands_inv:
  assumes "query_inv s True m"
  shows "\<exists>m'. QueryManager_EndProcessingCommands now m = Inr m' \<and> query_inv s False m'"
  unfolding QueryManager_EndProcessingCommands_def
proof (rule processing_inv [OF assms, simplified])
  fix q :: "'a gpu_query" assume "query_ok s True (qm_heap m) q" "gq_state q = kQueryState_Active"
  then show "\<exists>q'. Query_EndProcessingCommands now q = Inr q' \<and> query_ok s False (qm_heap m) q' \<and> gq_state q' = kQueryState_Active \<and> gq_target q' = gq_target q"
    by (cases "gq_class q") (auto simp: query_ok_def Query_EndProcessingCommands_def CommandsIssuedQuery_EndProcessingCommands_def)
qed

section \<open>Destroying the manager\<close>

lemma destroy_all:
  assumes "qm_active_queries m = []" "qm_pending_queries m = []" "qm_queries m = es" "distinct (map snd es)" "snd ` set es \<subseteq> dom (qm_objects m)"
    "qm_query_count m = length es mod 2 ^ 32"
  shows "\<exists>m'. for_each (destroy_query F b) es m = Inr m' \<and> qm_queries m' = [] \<and> qm_query_count m' = 0"
  using assms
proof (induction es arbitrary: m)
  case (Cons e es)
  obtain q where q: "qm_objects m (snd e) = Some q" using Cons.prems(5) by auto
  define m1 where "m1 = (put_query (snd e) (Query_Destroy F b q) m)\<lparr>qm_queries := es\<rparr>"
  have new: "snd e \<notin> snd ` set es" using Cons.prems(4) by simp
  then have nh: "\<not> query_held m1 (snd e)" using Cons.prems(1,2) by (simp add: query_held_def m1_def)
  have o1: "qm_objects m1 (snd e) = Some (Query_Destroy F b q)" by (simp add: m1_def)
  note dl = delete_Query_simps [OF o1]
  have eq: "destroy_query F b e m = Inr (delete_Query (snd e) m1)"
    using q nh Cons.prems(3) by (simp add: destroy_query_def update_query_Some m1_def)
  have cnt: "u32_sub (length (e # es) mod 2 ^ 32) 1 = length es mod 2 ^ 32"
  proof -
    have "(a :: nat) + 2 ^ 32 - 1 mod 2 ^ 32 = a + (2 ^ 32 - 1)" for a by simp
    then have "u32_sub (length (e # es) mod 2 ^ 32) 1 = (length (e # es) mod 2 ^ 32 + (2 ^ 32 - 1)) mod 2 ^ 32" by (simp only: u32_sub_def)
    also have "\<dots> = (length (e # es) + (2 ^ 32 - 1)) mod 2 ^ 32" by (rule mod_add_left_eq)
    also have "length (e # es) + (2 ^ 32 - 1) = length es + 2 ^ 32" by simp
    finally show ?thesis by simp
  qed
  have "\<exists>m'. for_each (destroy_query F b) es (delete_Query (snd e) m1) = Inr m' \<and> qm_queries m' = [] \<and> qm_query_count m' = 0"
  proof (rule Cons.IH)
    show "snd ` set es \<subseteq> dom (qm_objects (delete_Query (snd e) m1))" unfolding dl using Cons.prems(5) new by (auto simp: m1_def image_iff)
    show "qm_query_count (delete_Query (snd e) m1) = length es mod 2 ^ 32" using cnt Cons.prems(6) by (simp add: dl) (simp add: m1_def)
  qed (use Cons.prems in \<open>simp_all add: dl, simp_all add: m1_def\<close>)
  with eq show ?case by simp
qed simp

lemma QueryManager_Destroy_ok:
  assumes inv: "query_inv s d m"
  shows "\<exists>m'. QueryManager_Destroy F b m = Inr m' \<and> delete_QueryManager m' = Inr ()"
proof -
  let ?m1 = "m\<lparr>qm_active_queries := []\<rparr>" and ?m2 = "m\<lparr>qm_active_queries := [], qm_pending_queries := []\<rparr>"
  have held: "x \<in> snd ` set (qm_queries m)" if "x \<in> snd ` set (qm_active_queries m) \<or> x \<in> set (qm_pending_queries m)" for x
    using that query_inv_active [OF inv, of _ x] query_inv_pending [OF inv, of x] query_inv_held [OF inv, of x] by (auto simp: image_iff)
  have r1: "release_queries (map snd (qm_active_queries m)) ?m1 = ?m1" by (rule release_held) (use held in \<open>simp add: query_held_def\<close>)
  have r2: "release_queries (qm_pending_queries m) ?m2 = ?m2" by (rule release_held) (use held in \<open>simp add: query_held_def\<close>)
  have "\<exists>m'. for_each (destroy_query F b) (qm_queries m) ?m2 = Inr m' \<and> qm_queries m' = [] \<and> qm_query_count m' = 0"
    by (rule destroy_all) (use query_inv_distinct(4) [OF inv] query_inv_dom [OF inv] inv in \<open>simp_all add: query_inv_def\<close>)
  then show ?thesis using r1 r2 by (auto simp: QueryManager_Destroy_def Let_def delete_QueryManager_def)
qed

end
