(* ===== verification/Query_Properties.thy ===== *)
theory Query_Properties
  imports Query_Invariant
begin

text \<open>
  The sessions of a raster decoder with a client that sends what it likes: \<open>query_session\<close> is every order of commands, of stretches in which commands are
  processed, of polling, of callbacks, of writes to the shared memory and of changes in the driver. Here are the properties of the queries.
\<close>

section \<open>Sessions\<close>

datatype 'g query_event =
    Begin_decoding int
  | End_decoding int
  | Begin_query "i32 \<Rightarrow> gpu_buffer option" int u32 u32 i32 u32
  | End_query int u32 u32
  | Query_counter "i32 \<Rightarrow> gpu_buffer option" int u32 u32 i32 u32 u32
  | Gen_queries "u32 list"
  | Delete_queries "u32 list"
  | Process_queries int bool
  | Set_callback u32 nat
  | Memory_changes heap
  | Driver_changes 'g

definition result_of :: "('f, 'g) handled \<Rightarrow> ('f, 'g) query_manager res" where
  "result_of r = res_bind r (\<lambda>x. Inr (snd (snd x)))"

fun handle_event :: "('f, 'g) gl_fences \<Rightarrow> bool \<Rightarrow> 'g query_event \<Rightarrow> ('f, 'g) query_manager \<Rightarrow> ('f, 'g) query_manager res" where
  "handle_event F s (Begin_decoding now) m = QueryManager_BeginProcessingCommands now m"
| "handle_event F s (End_decoding now) m = QueryManager_EndProcessingCommands now m"
| "handle_event F s (Begin_query lookup now target i shm off) m = result_of (HandleBeginQueryEXT s lookup now target i shm off m)"
| "handle_event F s (End_query now target n) m = result_of (HandleEndQueryEXT F now target n m)"
| "handle_event F s (Query_counter lookup now i target shm off n) m = result_of (HandleQueryCounterEXT lookup now i target shm off n m)"
| "handle_event F s (Gen_queries is) m = result_of (HandleGenQueriesEXTImmediate is m)"
| "handle_event F s (Delete_queries is) m = result_of (HandleDeleteQueriesEXTImmediate F is m)"
| "handle_event F s (Process_queries now fin) m = QueryManager_ProcessPendingQueries F now fin m"
| "handle_event F s (Set_callback i cb) m = RasterDecoder_SetQueryCallback i cb m"
| "handle_event F s (Memory_changes hp) m = Inr (m\<lparr>qm_heap := hp\<rparr>)"
| "handle_event F s (Driver_changes g) m = Inr (m\<lparr>qm_gl := g\<rparr>)"

text \<open>
  Commands come between \<^verbatim>\<open>BeginDecoding\<close> and \<^verbatim>\<open>EndDecoding\<close>, and what the registry of buffers finds is in memory. Of the numbers in a command nothing is
  asked.
\<close>

fun event_possible :: "bool \<Rightarrow> ('f, 'g) query_manager \<Rightarrow> 'g query_event \<Rightarrow> bool" where
  "event_possible decoding m (Begin_decoding now) \<longleftrightarrow> \<not> decoding"
| "event_possible decoding m (End_decoding now) \<longleftrightarrow> decoding"
| "event_possible decoding m (Begin_query lookup now target i shm off) \<longleftrightarrow> decoding \<and> (\<forall>j b. lookup j = Some b \<longrightarrow> buffer_ok (qm_heap m) b)"
| "event_possible decoding m (End_query now target n) \<longleftrightarrow> decoding"
| "event_possible decoding m (Query_counter lookup now i target shm off n) \<longleftrightarrow>
     decoding \<and> 0 \<le> now \<and> (\<forall>j b. lookup j = Some b \<longrightarrow> buffer_ok (qm_heap m) b)"
| "event_possible decoding m (Gen_queries is) \<longleftrightarrow> decoding"
| "event_possible decoding m (Delete_queries is) \<longleftrightarrow> decoding"
| "event_possible decoding m (Memory_changes hp) \<longleftrightarrow> same_blocks (qm_heap m) hp"
| "event_possible decoding m _ \<longleftrightarrow> True"

fun decoding_after :: "bool \<Rightarrow> 'g query_event \<Rightarrow> bool" where
  "decoding_after decoding (Begin_decoding now) = True"
| "decoding_after decoding (End_decoding now) = False"
| "decoding_after decoding _ = decoding"

inductive query_session :: "('f, 'g) gl_fences \<Rightarrow> bool \<Rightarrow> bool \<Rightarrow> ('f, 'g) query_manager \<Rightarrow> bool" for F s where
  session_starts: "query_session F s False (new_QueryManager hp g)"
| session_goes_on: "query_session F s decoding m \<Longrightarrow> event_possible decoding m e \<Longrightarrow> handle_event F s e m = Inr m' \<Longrightarrow>
    query_session F s (decoding_after decoding e) m'"

lemma result_of_Inr [simp]: "result_of (Inr (e, g, m)) = Inr m"
  by (simp add: result_of_def)

lemma query_event_inv:
  assumes "query_inv s d m" "event_possible d m e" "fences_ok F s"
  shows "\<exists>m'. handle_event F s e m = Inr m' \<and> query_inv s (decoding_after d e) m'"
proof (cases e)
  case (Begin_query lookup now target i shm off)
  have "query_inv s True m" "\<forall>j b. lookup j = Some b \<longrightarrow> buffer_ok (qm_heap m) b" using assms(1,2) Begin_query by simp_all
  from HandleBeginQueryEXT_inv [OF this, of now target i shm off] show ?thesis using assms(2) Begin_query by auto
next
  case (End_query now target n)
  from HandleEndQueryEXT_inv [OF assms(1,3), of now target n] show ?thesis using End_query by auto
next
  case (Query_counter lookup now i target shm off n)
  have "\<forall>j b. lookup j = Some b \<longrightarrow> buffer_ok (qm_heap m) b" "0 \<le> now" using assms(2) Query_counter by simp_all
  from HandleQueryCounterEXT_inv [OF assms(1) this, of i target shm off n] show ?thesis using Query_counter by auto
next
  case (Delete_queries "is")
  from DeleteQueries_inv [OF assms(1), of F "is"] show ?thesis using Delete_queries by (auto simp: HandleDeleteQueriesEXTImmediate_def)
next
  case (Gen_queries "is")
  then show ?thesis using assms(1) by (auto simp: HandleGenQueriesEXTImmediate_def GenQueriesEXTHelper_def QueryManager_GenQueries_def)
next
  case (Process_queries now fin)
  from ProcessPendingQueries_processed [OF assms(1), of F now fin] show ?thesis using Process_queries by auto
next
  case (Set_callback i cb)
  from SetQueryCallback_inv [OF assms(1), of i cb] show ?thesis using Set_callback by simp
next
  case (Begin_decoding now)
  with assms(1,2) BeginProcessingCommands_inv [of s m now] show ?thesis by simp
next
  case (End_decoding now)
  with assms(1,2) EndProcessingCommands_inv [of s m now] show ?thesis by simp
qed (use assms client_writes_inv in simp_all)

lemma session_inv: "query_session F s d m \<Longrightarrow> fences_ok F s \<Longrightarrow> query_inv s d m"
proof (induction rule: query_session.induct)
  case (session_starts hp g)
  show ?case by (rule new_QueryManager_inv)
next
  case (session_goes_on d m e m')
  then obtain m'' where "handle_event F s e m = Inr m''" "query_inv s (decoding_after d e) m''" using query_event_inv [of s d m e F] by blast
  with session_goes_on.hyps(3) show ?case by simp
qed
section \<open>What the properties need\<close>




text \<open>What letting go of references does.\<close>

lemma delete_Query_lists:
  "qm_queries (delete_Query o1 m) = qm_queries m \<and> qm_active_queries (delete_Query o1 m) = qm_active_queries m \<and>
    qm_pending_queries (delete_Query o1 m) = qm_pending_queries m \<and> qm_objects (delete_Query o1 m) = (qm_objects m)(o1 := None)"
  by (cases "qm_objects m o1") (simp_all add: delete_Query_simps, simp add: delete_Query_def Query_RunCallbacks_def fun_upd_idem)

lemma query_held_delete [simp]: "query_held (delete_Query o1 m) = query_held m"
  by (rule ext) (simp add: query_held_def delete_Query_lists)

lemma release_lists:
  "qm_queries (release_queries os m) = qm_queries m" "qm_active_queries (release_queries os m) = qm_active_queries m"
  "qm_pending_queries (release_queries os m) = qm_pending_queries m"
  "qm_objects (release_queries os m) x = (if x \<in> set os \<and> \<not> query_held m x then None else qm_objects m x)"
proof (induction os arbitrary: m)
  case (Cons o1 os)
  {
    case 1 show ?case using Cons.IH by (simp add: delete_Query_lists)
  next
    case 2 show ?case using Cons.IH by (simp add: delete_Query_lists)
  next
    case 3 show ?case using Cons.IH by (simp add: delete_Query_lists)
  next
    case 4 show ?case using Cons.IH by (auto simp: delete_Query_lists)
  }
qed simp_all

text \<open>\<open>RemoveAllQueries\<close> leaves what is active or pending alone, with its callbacks.\<close>

lemma RemoveAllQueries_keeps:
  "qm_queries (QueryManager_RemoveAllQueries m) = []" "qm_active_queries (QueryManager_RemoveAllQueries m) = qm_active_queries m"
    "qm_pending_queries (QueryManager_RemoveAllQueries m) = qm_pending_queries m"
    "o1 \<in> snd ` set (qm_active_queries m) \<or> o1 \<in> set (qm_pending_queries m) \<Longrightarrow> qm_objects (QueryManager_RemoveAllQueries m) o1 = qm_objects m o1"
  by (simp_all add: QueryManager_RemoveAllQueries_def release_lists query_held_def)
section \<open>An example\<close>

text \<open>A driver whose fences pass at once, a buffer of 64 bytes, and a client that begins a query.\<close>

definition example_driver :: "(unit, unit) gl_fences" where
  "example_driver = \<lparr>GLFence_Create = (\<lambda>g. (Some (), g)), GLFence_ResetSupported = (\<lambda>_. False), GLFence_ResetState = (\<lambda>f g. (f, g)),
     GLFence_HasCompleted = (\<lambda>_ g. (True, g)), GLFence_Invalidate = (\<lambda>f. f)\<rparr>"

definition example_buffers :: "i32 \<Rightarrow> gpu_buffer option" where
  "example_buffers i = (if i = 7 then Some \<lparr>buf_memory = 0, buf_size = 64\<rparr> else None)"

definition example_begin :: "unit query_event list" where
  "example_begin = [Begin_decoding 1, Gen_queries [1], Begin_query example_buffers 2 GL_COMMANDS_COMPLETED_CHROMIUM 1 7 16]"

definition example_queries :: "(unit, unit) query_manager res" where
  "example_queries = for_each (handle_event example_driver True) example_begin (new_QueryManager [replicate 64 0] ())"

definition example_view :: "(unit, unit) query_manager \<Rightarrow> nat option \<times> (pointer \<times> i32) option \<times> bytes list" where
  "example_view m = (map_of (qm_active_queries m) GL_COMMANDS_COMPLETED_CHROMIUM,
     map_option (\<lambda>q. (gq_sync q, gq_submit_count q)) (qm_objects m 0), qm_heap m)"

lemma example_fences: "fences_ok example_driver True"
  by (simp add: fences_ok_def example_driver_def)

lemmas example_steps = example_begin_def new_QueryManager_def QueryManager_BeginProcessingCommands_def HandleGenQueriesEXTImmediate_def CheckUniqueAndNonNullIds_def
  GenQueriesEXTHelper_def QueryManager_IsValidQuery_def QueryManager_GenQueries_def HandleBeginQueryEXT_def QueryManager_GetActiveQuery_def query_for_command_def
  example_buffers_def Buffer_GetDataAddress_def sizeof_QuerySync_def QueryManager_GetQuery_def QueryManager_CreateQuery_def class_of_target_def Let_def
  QueryManager_BeginQuery_def RemovePendingQuery_def update_query_Some Query_Begin_def CommandsCompletedQuery_Begin_def Query_MarkAsActive_def new_Query_def
  erase_key_def query_targets

lemma example_view_begun: "res_bind example_queries (\<lambda>m. Inr (example_view m)) = Inr (Some 0, Some ((0, 16), 0), [replicate 64 0])"
  by (simp add: example_queries_def example_steps example_view_def)

lemma example_heap_before:
  "res_bind (for_each (handle_event example_driver True) [Begin_decoding 1, Gen_queries [1]] (new_QueryManager [replicate 64 0] ())) (\<lambda>m. Inr (qm_heap m)) =
     Inr [replicate 64 0]"
  by (simp add: example_steps)

text \<open>The session up to there.\<close>

lemma example_session:
  obtains m q where "query_session example_driver True True m" "QueryManager_GetActiveQuery GL_COMMANDS_COMPLETED_CHROMIUM m = Some 0"
    "qm_objects m 0 = Some q" "gq_sync q = (0, 16)" "qm_heap m = [replicate 64 0]"
proof -
  let ?F = example_driver and ?m0 = "new_QueryManager [replicate 64 0] () :: (unit, unit) query_manager"
  have s0: "query_session ?F True False ?m0" by (rule session_starts)
  have p1: "event_possible False ?m0 (Begin_decoding 1)" by simp
  obtain m1 where m1: "handle_event ?F True (Begin_decoding 1) ?m0 = Inr m1"
    using query_event_inv [OF session_inv [OF s0 example_fences] p1 example_fences] by blast
  have s1: "query_session ?F True True m1" using session_goes_on [OF s0 p1 m1] by simp
  have p2: "event_possible True m1 (Gen_queries [1])" by simp
  obtain m2 where m2: "handle_event ?F True (Gen_queries [1]) m1 = Inr m2"
    using query_event_inv [OF session_inv [OF s1 example_fences] p2 example_fences] by blast
  have s2: "query_session ?F True True m2" using session_goes_on [OF s1 p2 m2] by simp
  have heap2: "qm_heap m2 = [replicate 64 0]" using example_heap_before m1 m2 by (simp del: handle_event.simps)
  let ?b = "Begin_query example_buffers 2 GL_COMMANDS_COMPLETED_CHROMIUM 1 7 16"
  have p3: "event_possible True m2 ?b" by (simp add: heap2 example_buffers_def buffer_ok_def)
  obtain m3 where m3: "handle_event ?F True ?b m2 = Inr m3"
    using query_event_inv [OF session_inv [OF s2 example_fences] p3 example_fences] by blast
  have s3: "query_session ?F True True m3" using session_goes_on [OF s2 p3 m3] by simp
  have e: "example_queries = Inr m3" using m1 m2 m3 by (simp add: example_queries_def example_begin_def del: handle_event.simps)
  have v: "example_view m3 = (Some 0, Some ((0, 16), 0), [replicate 64 0])" proof -
    have "res_bind example_queries (\<lambda>m. Inr (example_view m)) = Inr (example_view m3)" unfolding e by (rule res_bind_simps)
    then have "Inr (example_view m3) = (Inr (Some 0, Some ((0, 16), 0), [replicate 64 0]) :: (nat option \<times> (pointer \<times> i32) option \<times> bytes list) res)"
      using example_view_begun by (rule trans [OF sym])
    then show ?thesis by (rule sum.inject(2) [THEN iffD1])
  qed
  then obtain q where "qm_objects m3 0 = Some q" "gq_sync q = (0, 16)" by (auto simp: example_view_def)
  with that [OF s3 _ this] v show thesis by (simp add: example_view_def QueryManager_GetActiveQuery_def)
qed

section \<open>The properties\<close>



text \<open>
  C21. \<open>RemoveAllQueries\<close> drops the references of \<open>queries_\<close> and leaves \<open>active_queries_\<close> alone. When a query is active, the next \<^verbatim>\<open>EndQueryEXT\<close> of its target takes the raw pointer from the
  active queries, erases the last reference, and goes on to end the destroyed query: a use after free. What is pending stays in the queue.
\<close>

theorem cancelled_query_is_ended_after_free:
  assumes "fences_ok F s" "query_session F s decoding m" "QueryManager_GetActiveQuery target m = Some o1"
  shows "HandleEndQueryEXT F now target n (QueryManager_RemoveAllQueries m) = Inl Null_dereference \<and>
    qm_pending_queries (QueryManager_RemoveAllQueries m) = qm_pending_queries m"
proof -
  let ?m = "QueryManager_RemoveAllQueries m"
  have inv: "query_inv s decoding m" by (rule session_inv [OF assms(2,1)])
  have a: "map_of (qm_active_queries m) target = Some o1" using assms(3) by (simp add: QueryManager_GetActiveQuery_def)
  then obtain q where q: "qm_objects m o1 = Some q" "gq_target q = target" "gq_state q = kQueryState_Active" using query_inv_find [OF inv] by blast
  have act: "o1 \<in> snd ` set (qm_active_queries m)" using map_of_SomeD [OF a] by (metis image_eqI snd_conv)
  have o1: "qm_objects ?m o1 = Some q" using RemoveAllQueries_keeps(4) [of o1 m] act q(1) by simp
  let ?e = "?m\<lparr>qm_active_queries := erase_key target (qm_active_queries m)\<rparr>"
  have "o1 \<notin> snd ` set (erase_key target (qm_active_queries m))"
  proof
    assume "o1 \<in> snd ` set (erase_key target (qm_active_queries m))"
    then obtain t where "(t, o1) \<in> set (qm_active_queries m)" "t \<noteq> target" by (auto simp: erase_key_def)
    then show False using query_inv_active [OF inv, of t o1] q by simp
  qed
  moreover have "o1 \<notin> set (qm_pending_queries m)" using query_inv_pending [OF inv, of o1] q by simp
  ultimately have "\<not> query_held ?e o1" by (simp add: query_held_def RemoveAllQueries_keeps)
  then have "qm_objects (release_queries [o1] ?e) o1 = None" by (simp only: release_lists list.set_intros simp_thms if_True)
  then show ?thesis
    using a q o1 by (simp add: HandleEndQueryEXT_def QueryManager_GetActiveQuery_def RemoveAllQueries_keeps QueryManager_EndQuery_def RemovePendingQuery_def
        Query_End_def del: release_queries.simps)
qed

lemma cancelled_query_is_ended_after_free_witness:
  "\<exists>m. query_session example_driver True True m \<and>
    HandleEndQueryEXT example_driver 9 GL_COMMANDS_COMPLETED_CHROMIUM 1 (QueryManager_RemoveAllQueries m) = Inl Null_dereference"
proof -
  obtain m where m: "query_session example_driver True True m" "QueryManager_GetActiveQuery GL_COMMANDS_COMPLETED_CHROMIUM m = Some 0"
    by (rule example_session)
  from cancelled_query_is_ended_after_free [OF example_fences m, of 9 1] m(1) show ?thesis by blast
qed





end
