(* ===== verification/Spec2Isabelle.thy ===== *)
theory Spec2Isabelle
  imports Id_Allocator Transfer_Buffer Scheduler_Handover Discardable_Properties Gles2_Utils Query_Properties
begin

text \<open>
  The command buffer of Chromium's GPU process, \<^verbatim>\<open>gpu/command_buffer\<close>: a client writes commands into a ring of shared memory, a service in
  another process reads and executes them, tokens and sync tokens tell how far it has come, and a
  graph of tasks decides what may run. The parts modelled are those that carry this protocol; each has a theory of its own, with
  the data of the sources as records and datatypes, one definition per operation, and the lemmas
  about them. This theory holds the properties C1 to C40, apart from those of the discardable textures, of the queries and of \<open>Gles2_Utils\<close>, which \<open>Discardable_Properties\<close>, \<open>Query_Properties\<close> and \<open>Gles2_Utils\<close> have.

  \<^bold>\<open>Conventions.\<close> \<open>Prelude\<close> has the machine integers: a \<^verbatim>\<open>uint32_t\<close> is a natural number below \<open>2 ^ 32\<close>, and the sums and differences
  of the sources are \<open>u32_add\<close> and the like, which wrap; signed quantities are integers, with the range as a hypothesis or an invariant. An
  operation that may fail has the type \<open>res\<close>, a sum of an error and a result: a failed \<^verbatim>\<open>DCHECK\<close> or \<^verbatim>\<open>CHECK\<close>, a null dereference
  and a loop that does not end are errors, so that a theorem that says that an operation returns \<open>Inr\<close>
  says that none of them happens. State is passed explicitly.

  \<^bold>\<open>Memory and commands.\<close> \<open>Gpu_Buffer\<close> (\<^verbatim>\<open>common/buffer\<close>, \<^verbatim>\<open>service/transfer_buffer_manager\<close>) has the shared memory as a store of blocks of bytes, the
  bounds checks on it and the registry of transfer buffers, which refines a finite map (C10, C13; the locale
  \<open>buffer_registry\<close> is the registry's contract). \<open>Command_Format\<close> (\<^verbatim>\<open>common/cmd_buffer_common\<close>) has headers, entries and the common commands.
  \<open>Command_Buffer\<close> (\<^verbatim>\<open>common/command_buffer.h\<close>, \<^verbatim>\<open>command_buffer_shared.h\<close>, \<^verbatim>\<open>constants.h\<close>) has the state that the service reports, and its publication through four
  slots as single loads and stores of a writer and a reader, interleaved in every way (C14).

  \<^bold>\<open>The service.\<close> \<open>Command_Buffer_Service\<close> (\<^verbatim>\<open>service/command_buffer_service\<close>) has the flush loop over any handler; the locales \<open>service_handler\<close>
  and \<open>live_service_handler\<close> are what it asks of a handler, and in them the loop ends (C7) and keeps the service's invariant. \<open>Common_Decoder\<close>
  (\<^verbatim>\<open>service/common_decoder\<close> and the loop \<^verbatim>\<open>DoCommandsImpl\<close> of \<^verbatim>\<open>gles2_cmd_decoder.cc\<close>) has buckets and the common commands, the table of the other commands being an argument; it is memory
  safe whatever the client writes (C9, C10, C11). \<open>Command_Buffer_Direct\<close> (\<^verbatim>\<open>service/command_buffer_direct\<close>) puts both together, discharges the contract of
  a handler, and implements the interface \<^verbatim>\<open>CommandBuffer\<close>. \<open>Command_Stream\<close> defines what a stretch of the ring means as a sequence of
  commands, and shows that a flush executes just that (C8).

  \<^bold>\<open>The client.\<close> \<open>Cmd_Buffer_Helper\<close> (\<^verbatim>\<open>client/cmd_buffer_helper\<close>) has every operation of the helper over any command buffer. \<open>Helper_Ring\<close>, \<open>Helper_Space\<close> and
  \<open>Helper_Commands\<close> link the helper's ring with the service's (\<open>linked\<close>) and show that each operation keeps the link, returns, and gives
  out only entries that the service is done with (C1 to C4, C6). \<open>Token_Interface\<close> is what the allocators ask of the helper, as the locales
  \<open>token_source\<close> and \<open>live_token_source\<close>, interpreted in \<open>Helper_Ring\<close> on the helper over the direct command buffer. \<open>Ring_Buffer\<close> (C20, C22), \<open>Fenced_Allocator\<close> (C23 to
  C25), \<open>Mapped_Memory\<close> (C27, C30) and \<open>Transfer_Buffer\<close> (C32), each after the file of its name in \<^verbatim>\<open>client/\<close>, have the allocators whose blocks are freed by
  tokens: no two blocks overlap, nothing is given out that the service may still read, and the waits end. \<open>Id_Allocator\<close> (\<^verbatim>\<open>common/id_allocator\<close>)
  has the resource ids, as a map of ranges that refines the set of used ids (C34).

  \<^bold>\<open>Synchronization.\<close> \<open>Sync_Token\<close> (\<^verbatim>\<open>common/sync_token\<close>) and \<open>Sync_Point\<close> (\<^verbatim>\<open>service/sync_point_manager\<close>) have the releases of command buffers, the order numbers
  of sequences and the closures that wait; \<open>sync_history\<close> is every order of the operations, and in it closures run once and
  waits end (C36, C37, C39). \<open>Task_Graph\<close> (\<^verbatim>\<open>service/task_graph\<close>) has the sequences of tasks and the search for waits that
  would never end; \<open>Task_Validation\<close> shows that the search ends and that every task it passes can run (C40), and C18 that a continued task makes
  it fail.

  \<^bold>\<open>The scheduler.\<close> \<open>Scheduler\<close> (\<^verbatim>\<open>service/scheduler\<close>, \<^verbatim>\<open>common/scheduling_priority\<close>) has the sequences with their priorities and threads, and every operation, cut into parts where
  it gives up the lock. \<open>Scheduler_Search\<close> shows what the search for the next task finds (C12). \<open>Scheduler_Steps\<close> has the parts as
  the steps of clients and threads, in any order (\<open>sched_run\<close>), and the invariant that they keep: no wake-up is lost (C16). \<open>Scheduler_Handover\<close> looks at the gap
  between choosing a sequence and executing it (C26).

  \<^bold>\<open>Discardable textures.\<close> \<open>Discardable_Handle\<close> (\<^verbatim>\<open>common/discardable_handle\<close>) has the lock counts in shared memory, each atomic operation on its own, and any number of lockers and the service at
  once (\<open>handle_run\<close>, C15). \<open>Client_Discardable\<close> (\<^verbatim>\<open>client/client_discardable_manager\<close>, \<^verbatim>\<open>client_discardable_texture_manager\<close>) has the client's pool of handles: \<open>offset_set\<close> is the contract of its sets of free
  offsets and \<open>memory_provider\<close> what it asks of the shared memory, which \<open>Discardable_Memory\<close> discharges for the direct command buffer (C17, C35). \<open>Service_Discardable\<close> (\<^verbatim>\<open>service/service_discardable_manager\<close>, with what it uses of
  \<^verbatim>\<open>texture_manager.cc\<close> and the handlers of \<^verbatim>\<open>gles2_cmd_decoder.cc\<close>) has the cache of textures and its eviction (C19, C28). \<open>Discardable_Protocol\<close> puts a client, the queue of its commands and the service together: the
  value of a handle is one more than the service's count and the locks on the way, and what is locked stays (C29).

  \<^bold>\<open>Images and names.\<close> \<open>Gles2_Utils\<close> (\<^verbatim>\<open>common/gles2_cmd_utils\<close>) has the sizes that the decoders compute before the driver reads an image, against the specification of where its pixels are (C33), and the parser of the names of
  array elements.

  \<^bold>\<open>Queries.\<close> \<open>Query_Manager\<close> (\<^verbatim>\<open>service/query_manager\<close>, with the handlers of \<^verbatim>\<open>raster_decoder.cc\<close>) has the queries of a context, as objects in a store with the references that keep
  them alive. \<open>Query_Invariant\<close> has the invariant of the manager and what each operation does to it. \<open>Query_Properties\<close> has the sessions with a client that sends what it likes (\<open>query_session\<close>): no
  assertion fails (C5), the queue is completed in order (C31), a query that ends reports its number (C38), and a query that was active when all queries were cancelled is used after it is freed (C21).

  \<^bold>\<open>Loops.\<close> A loop whose end is a matter of proof is a \<open>function\<close> with its measure where it always ends. The flush loop of the service, the loop
  of \<^verbatim>\<open>IdAllocator::FreeIDRange\<close> and the halving loop of \<^verbatim>\<open>TransferBuffer::AllocateRingBuffer\<close> may run forever in states that the program does not reach; they are
  partial functions, whose \<open>None\<close> becomes the error \<open>Never_returns\<close>. The recursion of \<^verbatim>\<open>ValidateTaskFenceDeps\<close> has a bound on its depth, the number of sequences; at most that
  many can be under way at a time. The theorems that say that an operation comes back say that \<open>Never_returns\<close> does not happen.

  \<^bold>\<open>Parameters.\<close> What is not part of the sources is an argument: the id generators of \<^verbatim>\<open>base\<close> (\<open>base_ids\<close>, with \<open>base_ids_ok\<close>), its LRU cache (\<open>lru_ops\<close>, with \<open>lru_ok\<close>), its bit functions (\<open>base_bits\<close>, with
  \<open>bits_ok\<close>), where the operating system maps memory (\<open>place\<close>), the clock, the closures of tasks, and the commands
  of the graphics APIs and their fences (\<open>gl_fences\<close>).

  \<^bold>\<open>Not modelled.\<close> The other handlers of the decoders of GLES2 and raster, those of WebGPU and their object managers: they mirror and call the graphics driver, which is not part of the sources.
  \<^verbatim>\<open>GLES2Implementation\<close> and the generated command code: some thousand entry points of one shape. Shared images, Vulkan and the
  configuration: platform calls. The IPC of \<^verbatim>\<open>gpu/ipc\<close>: process plumbing. Tracing, metrics, memory dumps and
  thread checkers throughout. The rest of the repository, the browser's content layer and others, are other programs.
\<close>

section \<open>A command buffer that has just been set up\<close>

text \<open>
  A new helper whose ring of \<open>n\<close> bytes has yet to be created, a new service and a new decoder: where a
  run of the library starts.
\<close>

definition start_helper :: "u32 \<Rightarrow> helper" where
  "start_helper n = new_CommandBufferHelper\<lparr>ch_ring_buffer_size := n\<rparr>"

definition start_world :: "unit dworld" where
  "start_world = (new_CommandBufferService [] 0, new_decoder ())"

lemma start_service:
  "sv_inv (fst start_world)" "decoder_inv start_world" "sv_scheduled (fst start_world)" "error_ok (fst start_world)"
  "st_error (sv_state (fst start_world)) = kNoError"
  by (simp add: start_world_def new_CommandBufferService_inv)
    (simp_all add: start_world_def decoder_inv_def new_decoder_def kDefaultMaxBucketSize_def
      error_ok_def new_CommandBufferService_def new_State_def)

lemma start_ready:
  assumes "4 dvd n" "0 < n" "n < 2 ^ 32"
  shows "ready (start_helper n, start_world)" "tokens_above 0 (start_helper n, start_world)"
proof -
  show r: "ready (start_helper n, start_world)"
    using assms start_service
    by (simp add: ready_def tokens_linked_def linked_def mem_linked_def ring_sized_def start_helper_def new_CommandBufferHelper_def
        start_world_def new_CommandBufferService_def new_State_def)
  then show "tokens_above 0 (start_helper n, start_world)" by (simp add: tokens_above_def ready_def)
qed

lemma start_linked: "tokens_linked (start_helper 64, start_world)" "tokens_above 0 (start_helper 64, start_world)"
  using start_ready [of 64] by (simp_all add: tokens_above_def)

lemma example_ring: "rb_inv (new_RingBuffer 64 1000 4 16)"
  by (rule new_RingBuffer_inv) (auto simp: is_pow2_def intro: exI [of _ 2])

lemma example_allocator: "FencedAllocator_GetLargestFreeOrPendingSize (new_FencedAllocator 64) = 64"
  using u32_clear_low_eq [of 64 4]
  by (simp add: FencedAllocator_GetLargestFreeOrPendingSize_def new_FencedAllocator_def RoundDown_def kAllocAlignment_def u32_add_def)

text \<open>An allocator with one block in use, and a manager with one such chunk.\<close>

definition example_fenced :: fenced_allocator where
  "example_fenced = \<lparr>fa_blocks = [\<lparr>fa_state = FA_IN_USE, fa_offset = 0, fa_size = 16, fa_token = 0\<rparr>,
     \<lparr>fa_state = FA_FREE, fa_offset = 16, fa_size = 48, fa_token = 0\<rparr>], fa_bytes_in_use = 16\<rparr>"

definition example_chunk :: memory_chunk where
  "example_chunk = \<lparr>mc_shm_id = 1, mc_shm = \<lparr>buf_memory = 0, buf_size = 64\<rparr>,
     mc_allocator = \<lparr>fw_allocator = example_fenced, fw_base = 0\<rparr>\<rparr>"

definition example_manager :: mapped_memory_manager where
  "example_manager = (new_MappedMemoryManager kNoLimit)\<lparr>mm_chunks := [example_chunk], mm_allocated_memory := 64\<rparr>"

lemma example_fenced_inv: "fa_inv 64 example_fenced"
  by (simp add: fa_inv_def example_fenced_def fa_block_ok_def)

lemma example_manager_inv: "mm_inv (\<lambda>i. 1000 * int i) 1 example_manager"
  using example_fenced_inv
  by (auto simp: mm_inv_def chunk_ok_def example_manager_def example_chunk_def new_MappedMemoryManager_def kAllocAlignment_def
      MemoryChunk_GetSize_def intro: exI [of _ 4])

lemma start_sizes [simp]:
  "ch_ring_buffer_size (start_helper n) = n" "ch_token (start_helper n) = 0" "ch_ring_buffer (start_helper n) = None"
  by (simp_all add: start_helper_def new_CommandBufferHelper_def)

lemmas start_evaluation = Helper_Initialize_def Helper_AllocateRingBuffer_def Helper_HaveRingBuffer_def CommandBufferDirect_def
  Direct_CreateTransferBuffer_def Service_CreateTransferBuffer_def GetNextBufferId_def Service_CreateTransferBufferWithId_def
  MakeMemoryBuffer_def Service_RegisterTransferBuffer_def TransferBufferManager_RegisterTransferBuffer_def new_TransferBufferManager_def
  Helper_SetGetBuffer_def Direct_SetGetBuffer_def Service_SetGetBuffer_def Service_GetTransferBuffer_def
  TransferBufferManager_GetTransferBuffer_def new_CommandBufferService_def new_CommandBufferHelper_def new_State_def new_decoder_def
  Service_UpdateState_def Direct_GetLastState_def Helper_CalcImmediateEntries_def start_world_def
  dcheck_def Let_def u32_add_def i32_of_u32_def

lemma start_initialized:
  "\<exists>h w b. Helper_Initialize (direct k) 16 (new_CommandBufferHelper, start_world) = Inr (True, (h, w)) \<and>
     \<not> failed w \<and> ch_ring_buffer h = Some b"
  by (simp add: start_evaluation)

lemma start_ring: "\<exists>h (w :: unit dworld) b. ready (h, w) \<and> ch_ring_buffer h = Some b \<and> \<not> failed w \<and> ch_ring_buffer_size h = 16"
proof -
  have r: "ring_sized (new_CommandBufferHelper\<lparr>ch_ring_buffer_size := 16\<rparr>)" by (simp add: ring_sized_def)
  have p: "sv_put_offset (fst start_world) = st_get_offset (sv_state (fst start_world))" "st_token (sv_state (fst start_world)) = 0"
    "st_set_get_buffer_count (sv_state (fst start_world)) = 0"
    by (simp_all add: start_world_def new_CommandBufferService_def new_State_def)
  have nf: "\<not> failed start_world" using start_service(5) by simp
  obtain h w b where s: "Helper_Initialize (direct 1) 16 (new_CommandBufferHelper, start_world) = Inr (True, (h, w))" "\<not> failed w" "ch_ring_buffer h = Some b"
    using start_initialized by blast
  from Initialize_ready [OF r refl start_service(1,2) nf start_service(3) p, of 1] s have "ready (h, w) \<and> ch_ring_buffer_size h = 16" by auto
  with s show ?thesis by blast
qed

text \<open>The same at the end of the range of tokens.\<close>

definition last_token_start :: "unit dworld hworld" where
  "last_token_start = ((start_helper 16)\<lparr>ch_token := 2 ^ 31 - 1\<rparr>,
     ((fst start_world)\<lparr>sv_state := new_State\<lparr>st_token := 2 ^ 31 - 1\<rparr>\<rparr>, snd start_world))"

lemma last_token_ready: "ready last_token_start"
proof -
  have "sv_inv (fst (snd last_token_start))"
    using start_service(1) by (simp add: last_token_start_def sv_inv_def ring_ok_def offsets_ok_def registry_ok_def new_State_def
        start_world_def new_CommandBufferService_def)
  moreover have "decoder_inv (snd last_token_start)" using start_service(2) by (simp add: last_token_start_def decoder_inv_def)
  ultimately show ?thesis
    by (simp add: ready_def tokens_linked_def linked_def mem_linked_def ring_sized_def error_ok_def last_token_start_def
        start_helper_def new_CommandBufferHelper_def start_world_def new_CommandBufferService_def new_State_def)
qed

lemma last_token_space:
  "\<exists>p y. Helper_GetCmdSpace (direct 20) False kSetToken last_token_start = Inr (p, y) \<and> \<not> failed (snd y)"
  by (simp add: last_token_start_def start_helper_def start_evaluation Helper_GetCmdSpace_def Helper_GetSpace_def
      Helper_WaitForAvailableEntries_def Helper_claim_room_def ComputeNumEntries_def kCommandsPerFlushCheck_def
      contiguous_entries_def flush_limited_def kAutoFlushSmall_def kAutoFlushBig_def Helper_take_space_def)

section \<open>The client's ring of commands\<close>

text \<open>
  C1. \<^verbatim>\<open>CommandBufferHelper::GetSpace\<close> comes back, and unless the context is lost it gives \<open>e\<close> consecutive
  entries that lie inside the ring buffer and that hold no command which the service has not yet
  read: each of them is at least as far from the get offset as the put offset is.
\<close>

theorem GetSpace_gives_free_entries:
  assumes "ready (h, w)" "0 < k" "0 < e" "e < int (ch_ring_buffer_size h div 4)"
  shows "\<exists>p h' w'. Helper_GetSpace (direct k) due e (h, w) = Inr (p, (h', w')) \<and>
    (case p of None \<Rightarrow> failed w'
     | Some q \<Rightarrow> \<exists>b. ch_ring_buffer h' = Some b \<and> buffer_ok (sv_heap (fst w')) b \<and>
         fst q = buf_memory b \<and> snd q + 4 * nat e \<le> buf_size b \<and> 4 dvd snd q \<and>
         (\<not> failed w' \<longrightarrow> (\<forall>i. int (snd q div 4) \<le> i \<and> i < int (snd q div 4) + e \<longrightarrow>
            behind (ch_total_entry_count h') (int (snd q div 4)) (st_get_offset (sv_state (fst w')))
              \<le> (i - st_get_offset (sv_state (fst w'))) mod ch_total_entry_count h')))"
proof -
  from GetSpace_ready [OF assms, of due] obtain p h' w' where
    g: "Helper_GetSpace (direct k) due e (h, w) = Inr (p, (h', w'))"
      "case p of None \<Rightarrow> ready (h', w') \<and> failed w' \<and> ch_token h' = ch_token h \<and> ch_ring_buffer_size h' = ch_ring_buffer_size h
       | Some q \<Rightarrow> \<exists>h1 b. space_taken h e w' (q, h') h1 b" by blast
  have "\<exists>b. ch_ring_buffer h' = Some b \<and> buffer_ok (sv_heap (fst w')) b \<and> fst q = buf_memory b \<and> snd q + 4 * nat e \<le> buf_size b \<and> 4 dvd snd q \<and>
         (\<not> failed w' \<longrightarrow> (\<forall>i. int (snd q div 4) \<le> i \<and> i < int (snd q div 4) + e \<longrightarrow>
            behind (ch_total_entry_count h') (int (snd q div 4)) (st_get_offset (sv_state (fst w')))
              \<le> (i - st_get_offset (sv_state (fst w'))) mod ch_total_entry_count h'))" if "p = Some q" for q
  proof -
    from g(2) that obtain h1 b where sp: "space_taken h e w' (q, h') h1 b" by auto
    note s = space_taken_safe [OF sp assms(3)]
    have put: "snd q = 4 * nat (ch_put h1)" "ch_ring_buffer h1 = Some b" "linked (h1, w')"
      "h' = h1\<lparr>ch_put := ch_put h1 + e, ch_immediate_entry_count := ch_immediate_entry_count h1 - e\<rparr>"
      using sp by (simp_all add: space_taken_def ready_linked)
    then have "0 \<le> ch_put h1" by (simp add: linked_def mem_linked_def)
    then have "int (snd q div 4) = ch_put h1" using put(1) by simp
    with s put show ?thesis by simp
  qed
  with g show ?thesis by (auto split: option.splits)
qed

theorem GetSpace_gives_free_entries_witness:
  "ready (start_helper 64, start_world) \<and>
   (\<exists>p h' w'. Helper_GetSpace (direct 1) False 3 (start_helper 64, start_world) = Inr (p, (h', w')) \<and> (p = None \<longrightarrow> failed w'))"
proof
  show r: "ready (start_helper 64, start_world)" by (rule start_ready) simp_all
  from GetSpace_gives_free_entries [OF r, of 1 3 False]
  show "\<exists>p h' w'. Helper_GetSpace (direct 1) False 3 (start_helper 64, start_world) = Inr (p, (h', w')) \<and> (p = None \<longrightarrow> failed w')"
    by (fastforce split: option.splits)
qed







text \<open>
  When the token counter wraps to 0, \<^verbatim>\<open>InsertToken\<close> finishes first: it comes back with the service and the
  helper's cache both at token 0 unless the context is lost, so that no older token looks newer.
\<close>

theorem InsertToken_wraps_to_zero:
  assumes "ready (h, w)" "0 < k" "2 < int (ch_ring_buffer_size h div 4)" "ch_token h = 2 ^ 31 - 1"
    and "Helper_GetCmdSpace (direct k) due kSetToken (h, w) = Inr (p, y)" "\<not> failed (snd y)"
  shows "\<exists>h' w'. Helper_InsertToken (direct k) due (h, w) = Inr (0, (h', w')) \<and> ready (h', w') \<and>
    (\<not> failed w' \<longrightarrow> ch_cached_last_token_read h' = 0 \<and> st_token (sv_state (fst w')) = 0)"
  using InsertToken_wraps [OF assms] by blast

theorem InsertToken_wraps_to_zero_witness:
  "ready last_token_start \<and> ch_token (fst last_token_start) = 2 ^ 31 - 1 \<and>
   (\<exists>x'. Helper_InsertToken (direct 20) False last_token_start = Inr (0, x'))"
proof -
  obtain h w where x: "last_token_start = (h, w)" "ch_token h = 2 ^ 31 - 1" "ch_ring_buffer_size h = 16"
    by (simp add: last_token_start_def)
  from last_token_space obtain p y where "Helper_GetCmdSpace (direct 20) False kSetToken (h, w) = Inr (p, y)" "\<not> failed (snd y)"
    using x(1) by auto
  moreover have "ch_token (fst last_token_start) = 2 ^ 31 - 1" unfolding x(1) using x(2) by simp
  ultimately show ?thesis using InsertToken_wraps_to_zero [of h w 20 False p y] x last_token_ready by auto
qed

text \<open>
  C6. \<^verbatim>\<open>CommandBufferHelper::WaitForToken\<close> comes back for every token that is not negative, with the token passed, and
  forgets no token that had passed.
\<close>

theorem WaitForToken_passes:
  assumes "tokens_linked x" "0 \<le> t" "0 < k"
  shows "\<exists>x'. Helper_WaitForToken (direct k) t x = Inr x' \<and> tokens_linked x' \<and> token_passed x' t \<and>
    (\<forall>u. token_passed x u \<longrightarrow> token_passed x' u)"
  using WaitForToken_linked [of "fst x" "snd x" t k] assms by fastforce

theorem WaitForToken_passes_witness:
  "tokens_linked (start_helper 64, start_world) \<and>
   (\<exists>x'. Helper_WaitForToken (direct 20) 5 (start_helper 64, start_world) = Inr x' \<and> token_passed x' 5)"
proof
  show r: "tokens_linked (start_helper 64, start_world)" by (rule start_linked)
  from WaitForToken_passes [OF r, of 5 20]
  show "\<exists>x'. Helper_WaitForToken (direct 20) 5 (start_helper 64, start_world) = Inr x' \<and> token_passed x' 5" by auto
qed

section \<open>The service and its decoder\<close>








text \<open>
  C10. The address that a decoder computes from an id, an offset and a size of the client's is given exactly
  when a buffer is registered under the id and the bytes lie inside it, and it then is in bounds.
\<close>

theorem checked_address:
  assumes "registry_ok s"
  shows "case CommonDecoder_GetAddressAndCheckSize shm off sz s of
      Some p \<Rightarrow> \<exists>b. Service_GetTransferBuffer (i32_of_u32 shm) s = Some b \<and> p = (buf_memory b, off) \<and> off + sz \<le> buf_size b \<and>
        fst p < length (sv_heap s) \<and> snd p + sz \<le> length (sv_heap s ! fst p)
    | None \<Rightarrow> \<forall>b. Service_GetTransferBuffer (i32_of_u32 shm) s = Some b \<longrightarrow> buf_size b < off + sz"
proof (cases "Service_GetTransferBuffer (i32_of_u32 shm) s")
  case None
  then show ?thesis by (simp add: CommonDecoder_GetAddressAndCheckSize_def)
next
  case (Some b)
  with assms have "buffer_ok (sv_heap s) b" by (rule GetTransferBuffer_ok)
  with Some show ?thesis by (auto simp: CommonDecoder_GetAddressAndCheckSize_def Buffer_GetDataAddress_def buffer_ok_def)
qed

theorem checked_address_witness:
  "\<exists>s. registry_ok s \<and> CommonDecoder_GetAddressAndCheckSize 1 4 8 s = Some (0, 4) \<and>
     CommonDecoder_GetAddressAndCheckSize 1 12 8 s = None \<and> fst ((0, 4) :: pointer) < length (sv_heap s)"
proof -
  let ?b = "\<lparr>buf_memory = 0, buf_size = 16\<rparr>"
  let ?s = "(new_CommandBufferService [replicate 16 0] 1)\<lparr>sv_tbm := snd (TransferBufferManager_RegisterTransferBuffer 1 ?b new_TransferBufferManager)\<rparr>"
  have r: "registry_ok ?s"
    by (simp add: registry_ok_def tbm_inv_def new_CommandBufferService_def TransferBufferManager_RegisterTransferBuffer_def
        new_TransferBufferManager_def buffer_ok_def)
  have "CommonDecoder_GetAddressAndCheckSize 1 4 8 ?s = Some (0, 4)" "CommonDecoder_GetAddressAndCheckSize 1 12 8 ?s = None"
    by (simp_all add: CommonDecoder_GetAddressAndCheckSize_def Service_GetTransferBuffer_def TransferBufferManager_GetTransferBuffer_def
        TransferBufferManager_RegisterTransferBuffer_def new_TransferBufferManager_def Buffer_GetDataAddress_def i32_of_u32_def new_CommandBufferService_def)
  with checked_address [OF r, of 1 4 8] r show ?thesis by (intro exI [of _ ?s]) (auto split: option.splits)
qed

text \<open>
  C11. \<^verbatim>\<open>Bucket::SetData\<close> and \<^verbatim>\<open>Bucket::GetData\<close>: what was stored in a bucket is read back, other bytes are as before,
  and a store that does not fit is refused and changes nothing.
\<close>

theorem bucket_round_trip:
  assumes "bucket_ok b" "length src = sz" "Bucket_SetData src off sz b = (ok, b')"
  shows "bucket_ok b' \<and> (ok \<longleftrightarrow> off + sz \<le> bkt_size b) \<and>
    (if ok then (bkt_data b \<noteq> None \<longrightarrow> Bucket_GetData b' off sz = Some src) \<and>
       (\<forall>j n. regions_disjoint off sz j n \<longrightarrow> Bucket_GetData b' j n = Bucket_GetData b j n) else b' = b)"
proof -
  have b: "bkt_size b < 2 ^ 32" using assms(1) by (simp add: bucket_ok_def)
  have ok: "ok \<longleftrightarrow> off + sz \<le> bkt_size b" using assms(3) b by (auto simp: Bucket_SetData_def Bucket_OffsetSizeValid_def split: if_splits)
  show ?thesis
  proof (cases ok)
    case False
    with assms ok SetData_ok [OF assms(1,3)] show ?thesis by (auto simp: Bucket_SetData_def split: if_splits)
  next
    case True
    have b': "b' = b\<lparr>bkt_data := map_option (\<lambda>d. overwrite d off src) (bkt_data b)\<rparr>"
      using assms(2,3) True by (auto simp: Bucket_SetData_def split: if_splits)
    have v: "Bucket_OffsetSizeValid b' j n = Bucket_OffsetSizeValid b j n" for j n by (simp add: b' Bucket_OffsetSizeValid_def)
    show ?thesis
    proof (cases "bkt_data b")
      case None
      with True ok v SetData_ok [OF assms(1,3)] show ?thesis by (simp add: b' Bucket_GetData_def)
    next
      case (Some d)
      then have d: "off + length src \<le> length d" using assms(1,2) ok True by (simp add: bucket_ok_def)
      have "Bucket_GetData b' off sz = Some src"
        using Some d ok True b v [of off sz] overwrite_same [OF d] assms(2) by (simp add: Bucket_GetData_def b' Bucket_OffsetSizeValid_def)
      moreover have "Bucket_GetData b' j n = Bucket_GetData b j n" if "regions_disjoint off sz j n" for j n
        using Some v [of j n] overwrite_other [OF d, of j n] that assms(2) by (simp add: Bucket_GetData_def b')
      ultimately show ?thesis using True ok SetData_ok [OF assms(1,3)] by simp
    qed
  qed
qed

theorem bucket_round_trip_witness:
  "Bucket_SetData [7, 8] 1 2 \<lparr>bkt_size = 4, bkt_data = Some [0, 0, 0, 0]\<rparr> = (True, \<lparr>bkt_size = 4, bkt_data = Some [0, 7, 8, 0]\<rparr>) \<and>
   Bucket_GetData \<lparr>bkt_size = 4, bkt_data = Some [0, 7, 8, 0]\<rparr> 1 2 = Some [7, 8]"
proof -
  have s: "Bucket_SetData [7, 8] 1 2 \<lparr>bkt_size = 4, bkt_data = Some [0, 0, 0, 0]\<rparr> = (True, \<lparr>bkt_size = 4, bkt_data = Some [0, 7, 8, 0]\<rparr>)"
    by (simp add: Bucket_SetData_def Bucket_OffsetSizeValid_def overwrite_def)
  from bucket_round_trip [OF _ _ this] s show ?thesis by (simp add: bucket_ok_def)
qed

text \<open>
  \<^verbatim>\<open>CommandBufferService::SetGetBuffer\<close> on a service that has caught up: it keeps the invariant, starts the new ring at
  offset 0, counts the change, and has no ring when the id is not registered.
\<close>

theorem SetGetBuffer_resets:
  assumes "sv_inv s" "sv_put_offset s = st_get_offset (sv_state s) \<or> st_error (sv_state s) \<noteq> kNoError"
    and "\<And>b. Service_GetTransferBuffer bid s = Some b \<Longrightarrow> 4 dvd buf_size b"
  shows "\<exists>s'. Service_SetGetBuffer bid s = Inr s' \<and> sv_inv s' \<and> st_get_offset (sv_state s') = 0 \<and> sv_put_offset s' = 0 \<and>
    sv_ring_buffer s' = Service_GetTransferBuffer bid s \<and>
    st_set_get_buffer_count (sv_state s') = u32_add (st_set_get_buffer_count (sv_state s)) 1"
proof -
  have "\<exists>s'. Service_SetGetBuffer bid s = Inr s'"
    using assms(2,3) by (auto simp: Service_SetGetBuffer_def Let_def Service_GetTransferBuffer_def split: option.splits)
  then show ?thesis using SetGetBuffer_spec [of bid s] assms(1) by blast
qed

theorem SetGetBuffer_resets_witness:
  "sv_inv (fst start_world) \<and> (\<exists>s'. Service_SetGetBuffer 3 (fst start_world) = Inr s' \<and> sv_inv s' \<and> sv_ring_buffer s' = None)"
proof -
  have p: "sv_put_offset (fst start_world) = st_get_offset (sv_state (fst start_world)) \<or> failed start_world"
    and g: "Service_GetTransferBuffer 3 (fst start_world) = None"
    by (simp_all add: start_world_def new_CommandBufferService_def new_State_def Service_GetTransferBuffer_def
        TransferBufferManager_GetTransferBuffer_def new_TransferBufferManager_def)
  from SetGetBuffer_resets [OF start_service(1) p, of 3] g start_service(1) show ?thesis by auto
qed

text \<open>
  C13. The registry of transfer buffers refines a finite map from positive ids: registering adds a binding where
  there was none and is refused otherwise, destroying removes it, nothing else changes, and the count of
  shared bytes always comes out at 0 when the registry goes.
\<close>

theorem registry_refines_map:
  assumes "tbm_inv m" "TransferBufferManager_RegisterTransferBuffer bid b m = (ok, m')"
  shows "tbm_inv m' \<and> (ok \<longleftrightarrow> 0 < bid \<and> TransferBufferManager_GetTransferBuffer bid m = None) \<and>
    (\<lambda>k. TransferBufferManager_GetTransferBuffer k m') =
      (if ok then (\<lambda>k. TransferBufferManager_GetTransferBuffer k m)(bid \<mapsto> b) else (\<lambda>k. TransferBufferManager_GetTransferBuffer k m)) \<and>
    (\<exists>m2. TransferBufferManager_DestroyTransferBuffer bid m' = Inr m2 \<and> tbm_inv m2 \<and>
      (\<lambda>k. TransferBufferManager_GetTransferBuffer k m2) = (\<lambda>k. TransferBufferManager_GetTransferBuffer k m')(bid := None) \<and>
      delete_TransferBufferManager m2 = Inr 0)"
proof -
  note r = RegisterTransferBuffer_spec [OF assms]
  from DestroyTransferBuffer_spec [OF r(1), of bid] obtain m2 where
    "TransferBufferManager_DestroyTransferBuffer bid m' = Inr m2" "tbm_inv m2"
    "\<forall>k. TransferBufferManager_GetTransferBuffer k m2 = (if k = bid then None else TransferBufferManager_GetTransferBuffer k m')" by blast
  with r delete_TransferBufferManager_returns show ?thesis by (auto simp: fun_eq_iff)
qed

theorem registry_refines_map_witness:
  "\<exists>m'. TransferBufferManager_RegisterTransferBuffer 5 \<lparr>buf_memory = 0, buf_size = 8\<rparr> new_TransferBufferManager = (True, m') \<and>
     tbm_inv m' \<and> TransferBufferManager_GetTransferBuffer 5 m' = Some \<lparr>buf_memory = 0, buf_size = 8\<rparr>"
proof -
  obtain ok m' where r: "TransferBufferManager_RegisterTransferBuffer 5 \<lparr>buf_memory = 0, buf_size = 8\<rparr> new_TransferBufferManager = (ok, m')"
    by (rule prod.exhaust)
  have "TransferBufferManager_GetTransferBuffer 5 new_TransferBufferManager = None"
    by (simp add: TransferBufferManager_GetTransferBuffer_def new_TransferBufferManager_def)
  with registry_refines_map [OF new_TransferBufferManager_inv r] r show ?thesis by (auto dest: fun_cong [of _ _ 5])
qed

section \<open>The state shared between the processes\<close>

text \<open>
  C14. However the steps of one writer and one reader of \<^verbatim>\<open>CommandBufferSharedState\<close> interleave, the reader never
  copies the slot that the writer is filling.
\<close>

theorem shared_state_never_torn:
  assumes "ss_reachable s0 c" "cf_writer c = W_writing p i" "cf_reader c = R_reading q j"
  shows "(p, i) \<noteq> (q, j)"
  using ss_no_tearing [OF assms] .

theorem shared_state_never_torn_witness:
  "\<exists>c p i q j. ss_reachable (0 :: nat) c \<and> cf_writer c = W_writing p i \<and> cf_reader c = R_reading q j \<and> (p, i) \<noteq> (q, j)"
proof -
  let ?c0 = "\<lparr>cf_shared = SharedState_Initialize 0, cf_writer = W_idle, cf_reader = R_idle\<rparr> :: nat ss_config"
  have "ss_reachable 0 ?c0" by (rule ss_start)
  note w1 = ss_next [OF this w_pick, simplified] note w2 = ss_next [OF w1 w_begin, simplified]
  note r1 = ss_next [OF w2 r_pick, simplified] note r2 = ss_next [OF r1 r_announce, simplified]
  note r3 = ss_next [OF r2 r_begin, simplified]
  from shared_state_never_torn [OF r3] r3 show ?thesis by fastforce
qed

text \<open>
  A read right after a write returns what was written whenever its generation is newer, and up to
  \<open>2 ^ 31 - 1\<close> updates later a generation counts as newer and the old one as stale, across the wrap.
\<close>

theorem shared_state_read_after_write:
  assumes "st_generation s < 2 ^ 32" "0 < k" "k < 2 ^ 31"
  shows "fst (SharedState_Read s (SharedState_Write (t\<lparr>st_generation := u32_add (st_generation s) k\<rparr>) ss)) =
      t\<lparr>st_generation := u32_add (st_generation s) k\<rparr> \<and>
    fst (SharedState_Read (t\<lparr>st_generation := u32_add (st_generation s) k\<rparr>) (SharedState_Write s ss)) =
      t\<lparr>st_generation := u32_add (st_generation s) k\<rparr>"
  using generation_newer_advance [OF assms(1,3)] generation_newer_stale [OF assms] by (simp add: Read_after_Write)

theorem shared_state_read_after_write_witness:
  "\<forall>ss. fst (SharedState_Read (new_State\<lparr>st_generation := 2 ^ 32 - 1\<rparr>) (SharedState_Write (new_State\<lparr>st_token := 7, st_generation := 1\<rparr>) ss)) =
     new_State\<lparr>st_token := 7, st_generation := 1\<rparr>"
  using shared_state_read_after_write [of "new_State\<lparr>st_generation := 2 ^ 32 - 1\<rparr>" 2 "new_State\<lparr>st_token := 7\<rparr>"]
  by (simp add: u32_add_def)

text \<open>
  \<^verbatim>\<open>CommandBuffer::InRange\<close> is the cyclic order on the offsets of a ring: walking forward from \<open>start\<close> the value is met
  no later than \<open>stop\<close>.
\<close>

theorem InRange_is_cyclic:
  assumes "0 \<le> start" "start < n" "0 \<le> stop" "stop < n" "0 \<le> v" "v < n"
  shows "InRange start stop v \<longleftrightarrow> (v - start) mod n \<le> (stop - start) mod n"
  using InRange_cyclic [OF assms] .

theorem InRange_is_cyclic_witness: "InRange 6 2 7 \<and> \<not> InRange 6 2 4"
  using InRange_is_cyclic [of 6 8 2 7] InRange_is_cyclic [of 6 8 2 4] by simp

section \<open>Commands in memory\<close>

text \<open>
  A command header is 21 bits of size and 11 bits of command: \<^verbatim>\<open>CommandHeader::Init\<close> accepts exactly what fits, and the
  header and the entry that holds it determine each other.
\<close>

theorem header_is_one_entry:
  assumes "c < 2 ^ 11" "0 \<le> sz" "sz \<le> kMaxSize" "e < 2 ^ 32"
  shows "\<exists>h. CommandHeader_Init c sz = Inr h \<and> hdr_size h = nat sz \<and> hdr_command h = c \<and> value_header (header_entry h) = h \<and>
    header_entry h < 2 ^ 32 \<and> header_entry (value_header e) = e"
  using CommandHeader_Init_fields [OF assms(1-3)] CommandHeader_Init_entry entry_round_trip [OF assms(4)] by fastforce

theorem header_is_one_entry_witness:
  "\<exists>h. CommandHeader_Init 5 3 = Inr h \<and> value_header (header_entry h) = h \<and> header_entry (value_header 77) = 77"
  using header_is_one_entry [of 5 3 77] by (auto simp: kMaxSize_def)

text \<open>
  The address that \<^verbatim>\<open>SetToken::Set\<close> and \<^verbatim>\<open>SetBucketDataImmediate::Set\<close> return is where the parser of the service finds the next
  command, and it reads their command id back.
\<close>

theorem Set_returns_next_command:
  assumes "fst cmd < length hp" "snd cmd + 16 \<le> length (hp ! fst cmd)" "sz \<le> 4 * (2 ^ 21 - 1) - 16"
  shows "\<exists>p hp1 q hp2. SetToken_Set hp cmd t = Inr (p, hp1) \<and> SetBucketDataImmediate_Set hp cmd b off sz = Inr (q, hp2) \<and>
    hdr_command (value_header (read_entry hp1 cmd 0)) = kCmdId kSetToken \<and> p = parsed_next hp1 cmd \<and>
    hdr_command (value_header (read_entry hp2 cmd 0)) = kCmdId kSetBucketDataImmediate \<and> q = parsed_next hp2 cmd"
proof -
  have "\<exists>p hp1. SetToken_Set hp cmd t = Inr (p, hp1)"
    by (simp add: SetToken_Set_def cmd_set_def SetToken_Init_def CommandHeader_SetCmd_fields)
  then obtain p hp1 where p: "SetToken_Set hp cmd t = Inr (p, hp1)" by blast
  let ?n = "ComputeNumEntries (sizeof_command kSetBucketDataImmediate + sz)"
  have "4 * ?n < sizeof_command kSetBucketDataImmediate + sz + 4" by (rule ComputeNumEntries_bounds) (use assms(3) in simp)
  then have "?n < 2 ^ 21" using assms(3) by simp
  then have "CommandHeader_Init (kCmdId kSetBucketDataImmediate) (i32_of_u32 ?n) = Inr \<lparr>hdr_size = ?n, hdr_command = kCmdId kSetBucketDataImmediate\<rparr>"
    using kCmdId_bounds(1) [of kSetBucketDataImmediate] by (simp add: CommandHeader_Init_fields kMaxSize_def i32_of_u32_small)
  then have "\<exists>q hp2. SetBucketDataImmediate_Set hp cmd b off sz = Inr (q, hp2)"
    by (simp add: SetBucketDataImmediate_Set_def cmd_set_def SetBucketDataImmediate_Init_def CommandHeader_SetCmdBySize_def)
  then obtain q hp2 where q: "SetBucketDataImmediate_Set hp cmd b off sz = Inr (q, hp2)" by blast
  from SetToken_Set_next [OF assms(1) _ p] SetBucketDataImmediate_Set_next [OF assms q] p q assms(2) show ?thesis by simp
qed

theorem Set_returns_next_command_witness:
  "\<exists>p hp1 q hp2. SetToken_Set [replicate 32 0] (0, 4) 9 = Inr (p, hp1) \<and> SetBucketDataImmediate_Set [replicate 32 0] (0, 4) 1 0 8 = Inr (q, hp2) \<and>
     p = parsed_next hp1 (0, 4) \<and> q = parsed_next hp2 (0, 4)"
proof -
  have "fst (0 :: nat, 4 :: nat) < length [replicate 32 0 :: bytes]" "snd (0 :: nat, 4 :: nat) + 16 \<le> length ([replicate 32 0 :: bytes] ! fst (0 :: nat, 4 :: nat))"
    by simp_all
  from Set_returns_next_command [OF this, of 8 9 1 0] show ?thesis by fastforce
qed

text \<open>
  \<^verbatim>\<open>Noop::Set\<close> differs: the address it returns is one entry beyond the next command as the service parses it.
\<close>

theorem Noop_Set_skips_an_entry:
  assumes "fst cmd < length hp" "snd cmd + 4 \<le> length (hp ! fst cmd)" "0 < n" "n < 2 ^ 21"
  shows "\<exists>p hp'. Noop_Set hp cmd n = Inr (p, hp') \<and> p \<noteq> parsed_next hp' cmd \<and> fst p = fst (parsed_next hp' cmd) \<and>
    snd p = snd (parsed_next hp' cmd) + 4"
  by (rule Noop_Set_beyond [OF assms]) auto

theorem Noop_Set_skips_an_entry_witness:
  "\<exists>p hp'. Noop_Set [replicate 32 0] (0, 4) 2 = Inr (p, hp') \<and> p \<noteq> parsed_next hp' (0, 4)"
  using Noop_Set_skips_an_entry [of "(0, 4)" "[replicate 32 0]" 2] by auto

section \<open>Allocators whose blocks are freed by tokens\<close>

text \<open>
  C20. \<^verbatim>\<open>RingBuffer::Alloc\<close> over the helper's tokens is safe: the memory is aligned, inside the ring, at least as large as
  asked for, held by a block in use, and apart from every block whose token the service has not passed;
  none of those blocks is lost.
\<close>

theorem RingBuffer_Alloc_is_safe:
  fixes x :: "'x dworld hworld"
  assumes "RingBuffer_Alloc (helper_token_ops (direct (GetCommandBufferSliceSize s))) sz rb x = Inr (p, rb', x')"
    and "rb_inv rb" "tokens_linked x"
  shows "rb_inv rb' \<and> tokens_linked x' \<and> (\<exists>off m. p = rb_base rb + int (rb_base_offset rb + off) \<and> rb_alignment rb dvd off \<and> sz \<le> m \<and>
    off + m \<le> rb_size rb \<and> last (rb_blocks rb') = mk_block off m RB_IN_USE \<and>
    (\<forall>b \<in> set (rb_blocks rb). reusable (token_passed x') b \<or>
       b \<in> set (butlast (rb_blocks rb')) \<and> regions_disjoint (blk_offset b) (blk_size b) off m))"
proof -
  have x: "tokens_above 0 x" using assms(3) by (simp add: tokens_above_def)
  define off where "off = u32_sub (RingBuffer_GetOffset rb p) (rb_base_offset rb)"
  define m where "m = RingBuffer_RoundToAlignment rb (max 1 sz)"
  note a = direct_tokens.Alloc_safe [OF assms(1,2) x off_def m_def]
  note p = direct_tokens.RingBuffer_Alloc_pointer [OF assms(1,2) x off_def]
  have "\<forall>b \<in> set (rb_blocks rb). reusable (token_passed x') b \<or>
       b \<in> set (butlast (rb_blocks rb')) \<and> regions_disjoint (blk_offset b) (blk_size b) off m" using a(7,8) by blast
  moreover have "tokens_linked x'" using a(2) by (simp add: tokens_above_def)
  ultimately show ?thesis using a(1,3-6) p by (intro conjI exI [of _ off] exI [of _ m])
qed

theorem RingBuffer_Alloc_is_safe_witness:
  "\<exists>p rb' x'. RingBuffer_Alloc (helper_token_ops (direct (GetCommandBufferSliceSize True))) 10 (new_RingBuffer 64 1000 4 16) (start_helper 64, start_world) = Inr (p, rb', x') \<and>
     rb_inv rb' \<and> tokens_linked x'"
proof -
  note r = example_ring
  note t = start_linked
  from direct_tokens.Alloc_returns [where b = True, OF r t(2), of 10] obtain p rb' x' where
    "RingBuffer_Alloc (helper_token_ops (direct (GetCommandBufferSliceSize True))) 10 (new_RingBuffer 64 1000 4 16) (start_helper 64, start_world) = Inr (p, rb', x')"
    by (auto simp: new_RingBuffer_def RingBuffer_GetLargestFreeOrPendingSize_def u32_sub_def)
  with RingBuffer_Alloc_is_safe [OF this r t(1)] show ?thesis by blast
qed

text \<open>
  A ring with no block in use gives every size up to \<^verbatim>\<open>GetLargestFreeOrPendingSize\<close>, waiting for tokens as long as it
  has to: the wait ends.
\<close>

theorem RingBuffer_Alloc_comes_back:
  fixes x :: "'x dworld hworld"
  assumes "rb_inv rb" "tokens_linked x" "rb_num_used_blocks rb = 0" "rb_alignment rb \<le> rb_size rb"
    and "sz \<le> RingBuffer_GetLargestFreeOrPendingSize rb"
  shows "\<exists>p rb' x'. RingBuffer_Alloc (helper_token_ops (direct (GetCommandBufferSliceSize s))) sz rb x = Inr (p, rb', x')"
proof -
  have "tokens_above 0 x" using assms(2) by (simp add: tokens_above_def)
  from direct_tokens.Alloc_returns [OF assms(1) this assms(3,5,4)] show ?thesis .
qed

theorem RingBuffer_Alloc_comes_back_witness:
  "\<exists>p rb' x'. RingBuffer_Alloc (helper_token_ops (direct (GetCommandBufferSliceSize True))) 48 (new_RingBuffer 64 1000 4 16) (start_helper 64, start_world) = Inr (p, rb', x')"
proof -
  note r = example_ring
  from RingBuffer_Alloc_comes_back [OF r start_linked(1), of 48] show ?thesis
    by (auto simp: new_RingBuffer_def RingBuffer_GetLargestFreeOrPendingSize_def u32_sub_def)
qed

text \<open>
  C22. After any sequence of operations on a ring buffer, whatever the state of the helper at each of them, no two of its blocks
  overlap, all lie inside it, and \<^verbatim>\<open>num_used_blocks_\<close> is the number of blocks in use.
\<close>

theorem RingBuffer_history_keeps_blocks_apart:
  assumes "rb_history ops rb"
  shows "blocks_disjoint (rb_blocks rb) \<and> rb_num_used_blocks rb = used_blocks (rb_blocks rb) \<and>
    (\<forall>b \<in> set (rb_blocks rb). 0 < blk_size b \<and> blk_offset b + blk_size b \<le> rb_size rb)"
proof -
  have inv: "rb_inv rb" by (rule rb_history_inv [OF assms])
  note d = rb_inv_dest [OF inv]
  have c: "rb_chain (rb_size rb) (rb_in_use_offset rb) (rb_blocks rb) (rb_free_offset rb)" "total_size (rb_blocks rb) \<le> rb_size rb"
    using d(1) by (auto simp: rb_core_def)
  have "0 < blk_size b \<and> blk_offset b + blk_size b \<le> rb_size rb" if "b \<in> set (rb_blocks rb)" for b
    using rb_chain_bounds [OF c(1) d(2) c(2) that] rb_chain_pos [OF c(1) that] c(2) d(2) by auto
  with rb_chain_disjoint [OF c(1) d(2) c(2)] d(7) show ?thesis by blast
qed

theorem RingBuffer_history_keeps_blocks_apart_witness:
  "rb_history (helper_token_ops (direct 20 :: unit dworld command_buffer)) (new_RingBuffer 64 1000 4 16) \<and> blocks_disjoint (rb_blocks (new_RingBuffer 64 1000 4 16))"
proof -
  have "rb_history (helper_token_ops (direct 20 :: unit dworld command_buffer)) (new_RingBuffer 64 1000 4 16)"
    by (rule rb_history.create) (auto simp: is_pow2_def intro: exI [of _ 2])
  with RingBuffer_history_keeps_blocks_apart [OF this] show ?thesis by blast
qed

text \<open>
  C23. \<^verbatim>\<open>FencedAllocator::Alloc\<close> over the helper's tokens is safe: the block it gives is in bounds, at least as large as asked
  for, in use, and apart from every block that is in use or pending a token that has not passed.
\<close>

theorem FencedAllocator_Alloc_is_safe:
  fixes x :: "'x dworld hworld"
  assumes "FencedAllocator_Alloc (helper_token_ops (direct (GetCommandBufferSliceSize s))) sz a x = Inr (off, a', x')"
    and "fa_inv n a" "tokens_linked x" "off \<noteq> kInvalidOffset"
  shows "fa_inv n a' \<and> (\<exists>nb \<in> set (occupied a'). fa_state nb = FA_IN_USE \<and> fa_offset nb = off \<and> sz \<le> fa_size nb \<and> off + fa_size nb \<le> n \<and>
    (\<forall>b \<in> set (occupied a). fa_reusable (token_passed x') b \<or>
       b \<in> set (occupied a') \<and> regions_disjoint (fa_offset b) (fa_size b) off (fa_size nb)))"
proof -
  have x: "tokens_above 0 x" using assms(3) by (simp add: tokens_above_def)
  obtain m nb where s: "RoundUp sz = Some m" "nb \<in> set (occupied a')" "fa_state nb = FA_IN_USE" "fa_offset nb = off" "fa_size nb = m" "off + m \<le> n"
    "\<forall>b \<in> set (occupied a). fa_reusable (token_passed x') b \<or> (b \<in> set (occupied a') \<and> regions_disjoint (fa_offset b) (fa_size b) off m)"
    using direct_tokens.fa_Alloc_safe [OF assms(1,2) x assms(4)] by blast
  have "0 < sz" using Alloc_Some_fits [OF assms(1,2,4)] by simp
  then have "sz \<le> m" using RoundUp_Some(2) [OF s(1)] by simp
  with s fa_Alloc_inv [OF assms(1,2)] show ?thesis by blast
qed

theorem FencedAllocator_Alloc_is_safe_witness:
  "\<exists>off a' x'. FencedAllocator_Alloc (helper_token_ops (direct (GetCommandBufferSliceSize True))) 20 (new_FencedAllocator 64) (start_helper 64, start_world) = Inr (off, a', x') \<and>
     off \<noteq> kInvalidOffset \<and> fa_inv 64 a' \<and> (\<exists>nb \<in> set (occupied a'). fa_offset nb = off \<and> 20 \<le> fa_size nb)"
proof -
  have i: "fa_inv 64 (new_FencedAllocator 64)" using new_FencedAllocator_inv [of 64] by simp
  note t = start_linked
  have "20 \<le> FencedAllocator_GetLargestFreeOrPendingSize (new_FencedAllocator 64)" by (simp add: example_allocator)
  from direct_tokens.fa_Alloc_returns [where b = True, OF i t(2) _ this] obtain off a' x' where
    "FencedAllocator_Alloc (helper_token_ops (direct (GetCommandBufferSliceSize True))) 20 (new_FencedAllocator 64) (start_helper 64, start_world) = Inr (off, a', x')"
    "off \<noteq> kInvalidOffset" by auto
  with FencedAllocator_Alloc_is_safe [OF this(1) i t(1) this(2)] show ?thesis by blast
qed

text \<open>
  C24. \<^verbatim>\<open>FencedAllocator::Alloc\<close> succeeds exactly for the sizes from 1 to \<^verbatim>\<open>GetLargestFreeOrPendingSize\<close>: it waits for as many tokens as it
  takes, the waits end, and no assertion fails.
\<close>

theorem FencedAllocator_Alloc_succeeds_iff:
  fixes x :: "'x dworld hworld"
  assumes "fa_inv n a" "tokens_linked x"
  shows "(\<exists>off a' x'. FencedAllocator_Alloc (helper_token_ops (direct (GetCommandBufferSliceSize s))) sz a x = Inr (off, a', x') \<and> off \<noteq> kInvalidOffset) \<longleftrightarrow>
    0 < sz \<and> sz \<le> FencedAllocator_GetLargestFreeOrPendingSize a"
proof
  assume "0 < sz \<and> sz \<le> FencedAllocator_GetLargestFreeOrPendingSize a"
  moreover have "tokens_above 0 x" using assms(2) by (simp add: tokens_above_def)
  ultimately show "\<exists>off a' x'. FencedAllocator_Alloc (helper_token_ops (direct (GetCommandBufferSliceSize s))) sz a x = Inr (off, a', x') \<and> off \<noteq> kInvalidOffset"
    using direct_tokens.fa_Alloc_returns [where b = s, OF assms(1)] by blast
next
  assume "\<exists>off a' x'. FencedAllocator_Alloc (helper_token_ops (direct (GetCommandBufferSliceSize s))) sz a x = Inr (off, a', x') \<and> off \<noteq> kInvalidOffset"
  then show "0 < sz \<and> sz \<le> FencedAllocator_GetLargestFreeOrPendingSize a" by (elim exE conjE) (rule Alloc_Some_fits [OF _ assms(1)])
qed

theorem FencedAllocator_Alloc_succeeds_iff_witness:
  "\<exists>off a' x'. FencedAllocator_Alloc (helper_token_ops (direct (GetCommandBufferSliceSize True))) 64 (new_FencedAllocator 64) (start_helper 64, start_world) = Inr (off, a', x') \<and>
     off \<noteq> kInvalidOffset"
proof -
  have i: "fa_inv 64 (new_FencedAllocator 64)" using new_FencedAllocator_inv [of 64] by simp
  from FencedAllocator_Alloc_succeeds_iff [OF i start_linked(1), of True 64] show ?thesis unfolding example_allocator by simp
qed

text \<open>
  C25. After any sequence of operations on a fenced allocator, whatever the helper does in between, \<^verbatim>\<open>CheckConsistency\<close> holds,
  the blocks partition the memory, and \<^verbatim>\<open>bytes_in_use_\<close> is the size of the blocks in use.
\<close>

theorem FencedAllocator_history_is_consistent:
  assumes "fa_history ops sz (a, h)" "16 \<le> sz" "sz < 2 ^ 32"
  shows "FencedAllocator_CheckConsistency a \<and> fa_bytes_in_use a = used_bytes (fa_blocks a) \<and> span (fa_blocks a) = sz div 16 * 16 \<and>
    (FencedAllocator_InUseOrFreePending a \<longleftrightarrow> occupied a \<noteq> [])"
proof -
  have "fa_inv (sz div 16 * 16) a" using fa_history_inv [OF assms] by simp
  then show ?thesis using fa_inv_consistent InUseOrFreePending_iff by (auto simp: fa_inv_def)
qed

theorem FencedAllocator_history_is_consistent_witness:
  "fa_history (helper_token_ops (direct 20 :: unit dworld command_buffer)) 64 (new_FencedAllocator 64, (start_helper 64, start_world)) \<and>
   FencedAllocator_CheckConsistency (new_FencedAllocator 64)"
proof -
  have h: "fa_history (helper_token_ops (direct 20 :: unit dworld command_buffer)) 64 (new_FencedAllocator 64, (start_helper 64, start_world))" by (rule fh_new)
  from FencedAllocator_history_is_consistent [OF h] h show ?thesis by simp
qed

text \<open>
  Freeing a block of a fenced allocator gives exactly that block back, and freeing it pending a token keeps it until
  the token: the allocator reports its state and token.
\<close>

theorem FencedAllocator_frees_one_block:
  assumes "fa_inv n a" "b \<in> set (occupied a)" "0 \<le> t"
  shows "\<exists>a1 a2. FencedAllocator_Free (fa_offset b) a = Inr a1 \<and> fa_inv n a1 \<and> occupied a1 = remove1 b (occupied a) \<and>
    FencedAllocator_FreePendingToken (fa_offset b) t a = Inr a2 \<and> fa_inv n a2 \<and>
    set (occupied a2) = insert (b\<lparr>fa_state := FA_FREE_PENDING_TOKEN, fa_token := t\<rparr>) (set (occupied a) - {b}) \<and>
    FencedAllocator_GetBlockStatusForTest (fa_offset b) a2 = Inr (FA_FREE_PENDING_TOKEN, Some t)"
proof -
  from FreePendingToken_occupied [OF assms] obtain a2 where a2: "FencedAllocator_FreePendingToken (fa_offset b) t a = Inr a2" "fa_inv n a2"
    "set (occupied a2) = insert (b\<lparr>fa_state := FA_FREE_PENDING_TOKEN, fa_token := t\<rparr>) (set (occupied a) - {b})" by blast
  let ?b = "b\<lparr>fa_state := FA_FREE_PENDING_TOKEN, fa_token := t\<rparr>"
  have "FencedAllocator_GetBlockStatusForTest (fa_offset ?b) a2 = Inr (FA_FREE_PENDING_TOKEN, Some t)"
    by (subst GetBlockStatus_occupied [OF a2(2)]) (use a2(3) in auto)
  with a2 Free_occupied [OF assms(1,2)] show ?thesis by auto
qed

theorem FencedAllocator_frees_one_block_witness:
  "\<exists>a1. FencedAllocator_Free 0 example_fenced = Inr a1 \<and> fa_inv 64 a1 \<and> occupied a1 = []"
proof -
  have o: "occupied example_fenced = [\<lparr>fa_state = FA_IN_USE, fa_offset = 0, fa_size = 16, fa_token = 0\<rparr>]"
    by (simp add: occupied_def example_fenced_def)
  from FencedAllocator_frees_one_block [OF example_fenced_inv, of "hd (occupied example_fenced)" 0] show ?thesis
    unfolding o by auto
qed

section \<open>Mapped memory\<close>

text \<open>
  C27. \<^verbatim>\<open>MappedMemoryManager::Alloc\<close>, for sizes that leave room to round up in 32 bits: it comes back with its invariant kept, and what it
  gives is in bounds of one chunk, held there by a block in use, and apart from every block of any chunk
  that is in use or pending a token not passed; it uses the chunks it had or a new, empty one.
\<close>

theorem MappedMemory_Alloc_is_safe:
  fixes x :: "'x dworld hworld"
  assumes "mm_inv place n m" "tokens_above n x" "0 < sz" "sz + mm_chunk_size_multiple m \<le> 2 ^ 32"
  shows "\<exists>r m' x' n' new. MappedMemoryManager_Alloc (direct (GetCommandBufferSliceSize s)) place sz m x = Inr (r, m', x') \<and>
    tokens_above n' x' \<and> mm_inv place n' m' \<and> (\<forall>c \<in> set new. occupied (chunk_allocator c) = []) \<and>
    gave_in place (token_passed x') sz r (mm_chunks m @ new) (mm_chunks m')"
  using direct_buffers.Alloc_gave [OF assms, of s] by blast

theorem MappedMemory_Alloc_is_safe_witness:
  "\<exists>r m' x' n'. MappedMemoryManager_Alloc (direct (GetCommandBufferSliceSize True)) int 100 (new_MappedMemoryManager kNoLimit) (start_helper 64, start_world) = Inr (r, m', x') \<and>
     mm_inv int n' m'"
proof -
  have "mm_inv int 0 (new_MappedMemoryManager kNoLimit)"
    by (auto simp: mm_inv_def new_MappedMemoryManager_def kAllocAlignment_def intro: exI [of _ 4])
  from MappedMemory_Alloc_is_safe [OF this start_linked(2), of 100 True] show ?thesis
    by (fastforce simp: new_MappedMemoryManager_def kAllocAlignment_def)
qed

text \<open>
  The pointer of a block leads \<^verbatim>\<open>MappedMemoryManager::Free\<close> and \<^verbatim>\<open>FreePendingToken\<close> to its chunk, wherever the chunks are in memory
  without overlapping: the first frees exactly that block, the second makes it wait for the token.
\<close>

theorem MappedMemory_frees_one_block:
  assumes "mm_inv place n m" "apart place (mm_chunks m)" "mm_chunks m = xs @ c # ys" "b \<in> set (occupied (chunk_allocator c))"
    and "0 \<le> t" "t < 2 ^ 31" "p = place (buf_memory (mc_shm c)) + int (fa_offset b)"
  shows "\<exists>c1 c2. MappedMemoryManager_Free place p m = Inr (m\<lparr>mm_chunks := xs @ c1 # ys\<rparr>) \<and> mm_inv place n (m\<lparr>mm_chunks := xs @ c1 # ys\<rparr>) \<and>
    occupied (chunk_allocator c1) = remove1 b (occupied (chunk_allocator c)) \<and>
    MappedMemoryManager_FreePendingToken place p t m = Inr (m\<lparr>mm_chunks := xs @ c2 # ys\<rparr>) \<and> mm_inv place n (m\<lparr>mm_chunks := xs @ c2 # ys\<rparr>) \<and>
    set (occupied (chunk_allocator c2)) = insert (b\<lparr>fa_state := FA_FREE_PENDING_TOKEN, fa_token := t\<rparr>) (set (occupied (chunk_allocator c)) - {b})"
  using mm_Free_returns [OF assms(1-4)] mm_FreePendingToken_returns [OF assms(1-6)] unfolding assms(7) by blast

theorem MappedMemory_frees_one_block_witness:
  "\<exists>c1. MappedMemoryManager_Free (\<lambda>i. 1000 * int i) 0 example_manager = Inr (example_manager\<lparr>mm_chunks := [c1]\<rparr>) \<and> occupied (chunk_allocator c1) = []"
proof -
  have o: "occupied example_fenced = [\<lparr>fa_state = FA_IN_USE, fa_offset = 0, fa_size = 16, fa_token = 0\<rparr>]"
    by (simp add: occupied_def example_fenced_def)
  have "apart (\<lambda>i. 1000 * int i) (mm_chunks example_manager)" by (simp add: apart_def example_manager_def)
  from MappedMemory_frees_one_block [OF example_manager_inv this, of "[]" example_chunk "[]" "hd (occupied example_fenced)" 0 0]
  show ?thesis using o by (auto simp: example_manager_def example_chunk_def)
qed

text \<open>
  \<^verbatim>\<open>MappedMemoryManager::FreeUnused\<close> comes back; it destroys exactly the chunks with nothing in use, every other chunk keeps its blocks
  apart from those whose token has passed, and the count of allocated bytes stays the sum of the chunks.
\<close>

theorem MappedMemory_FreeUnused_drops_idle_chunks:
  fixes x :: "'x dworld hworld"
  assumes "mm_inv place n m" "tokens_above n x"
  shows "\<exists>m' x' cs. MappedMemoryManager_FreeUnused (direct (GetCommandBufferSliceSize s)) m x = Inr (m', x') \<and> tokens_above n x' \<and>
    mm_inv place n m' \<and> list_all2 (evolved place (token_passed x')) (mm_chunks m) cs \<and>
    mm_chunks m' = filter (\<lambda>c. MemoryChunk_bytes_in_use c \<noteq> 0) cs"
proof -
  have "list_all (chunk_ok place) (mm_chunks m)" using assms(1) by (simp add: mm_inv_def)
  from direct_buffers.free_unused_chunks_returns [OF this assms(2), of s "mm_allocated_memory m"] obtain cs x' where
    "free_unused_chunks (direct (GetCommandBufferSliceSize s)) (mm_chunks m) (mm_allocated_memory m) x =
      Inr (filter (\<lambda>c. MemoryChunk_bytes_in_use c \<noteq> 0) cs,
           foldl u64_sub (mm_allocated_memory m) (map MemoryChunk_GetSize (filter (\<lambda>c. MemoryChunk_bytes_in_use c = 0) (mm_chunks m))), x')"
    "tokens_above n x'" "list_all2 (evolved place (token_passed x')) (mm_chunks m) cs"
    "list_all2 (\<lambda>c c'. MemoryChunk_bytes_in_use c' = MemoryChunk_bytes_in_use c) (mm_chunks m) cs" by blast
  with mm_inv_FreeUnused [OF assms(1) this(3,4)] show ?thesis by (fastforce simp: MappedMemoryManager_FreeUnused_def)
qed

theorem MappedMemory_FreeUnused_drops_idle_chunks_witness:
  "\<exists>(x :: unit dworld hworld) m' x'. mm_inv (\<lambda>i. 1000 * int i) 1 example_manager \<and> tokens_above 1 x \<and>
     MappedMemoryManager_FreeUnused (direct (GetCommandBufferSliceSize True)) example_manager x = Inr (m', x')"
proof -
  from start_ring obtain h and w :: "unit dworld" and b where r: "ready (h, w)" "ch_ring_buffer h = Some b" by blast
  then have "buffer_ok (sv_heap (fst w)) b" using ready_linked [OF r(1)] by (simp add: linked_def mem_linked_def)
  then have "tokens_above 1 (h, w)" using r(1) by (auto simp: tokens_above_def ready_def buffer_ok_def)
  from MappedMemory_FreeUnused_drops_idle_chunks [OF example_manager_inv this, of True] example_manager_inv this show ?thesis by blast
qed

text \<open>A chunk of size 0 gives nothing.\<close>

lemma empty_chunk_gives_nothing:
  assumes "buf_size b = 0" "0 < sz"
  shows "alloc_in_chunk ops sz (new_MemoryChunk place bid b) x = Inl DCHECK_failed"
proof -
  have z: "RoundDown 0 = 0" using u32_clear_low_eq [of 0 4] by (simp add: RoundDown_def kAllocAlignment_def)
  have "\<exists>a. FencedAllocator_Alloc ops sz (new_FencedAllocator 0) x = Inr (kInvalidOffset, a, x)"
  proof (cases "RoundUp sz")
    case (Some k)
    then have "0 < k" using RoundUp_Some(2) [OF Some assms(2)] assms(2) by simp
    moreover have "FencedAllocator_AllocWaiting ops 0 k (new_FencedAllocator 0) x = Inr (kInvalidOffset, new_FencedAllocator 0, x)"
      using z by (simp add: FencedAllocator_AllocWaiting.simps [of ops 0] FencedAllocator_AllocWaiting.simps [of ops "Suc 0"] new_FencedAllocator_def)
    ultimately show ?thesis using Some assms(2) z by (simp add: FencedAllocator_Alloc_def new_FencedAllocator_def)
  qed (use assms(2) in \<open>simp add: FencedAllocator_Alloc_def\<close>)
  then show ?thesis
    using assms(1) by (auto simp: alloc_in_chunk_def MemoryChunk_Alloc_def FencedAllocatorWrapper_Alloc_def new_MemoryChunk_def
        new_FencedAllocatorWrapper_def FencedAllocatorWrapper_GetPointer_def)
qed

lemma new_chunk_size_wraps:
  assumes "mm_chunk_size_multiple m = 2 ^ j" "j < 32" "2 ^ 32 - 2 ^ j < sz" "sz < 2 ^ 32"
  shows "new_chunk_size sz m = 0"
proof -
  have j: "(2 :: nat) ^ j \<le> 2 ^ 31" using assms(2) by (intro power_increasing) auto
  have "sz + 2 ^ j = (sz + 2 ^ j - 2 ^ 32) + 2 ^ 32" using assms(3) j by simp
  then have "u32_add sz (2 ^ j) = (sz + 2 ^ j - 2 ^ 32) mod 2 ^ 32" unfolding u32_add_def by (metis mod_add_self2)
  then have a: "u32_add sz (2 ^ j) = sz + 2 ^ j - 2 ^ 32" using assms(4) j by simp
  have "u32_sub (u32_add sz (2 ^ j)) 1 = sz + 2 ^ j - 2 ^ 32 - 1"
    unfolding a by (rule u32_sub_nowrap) (use assms(3,4) j in auto)
  moreover have "(sz + 2 ^ j - 2 ^ 32 - 1) div 2 ^ j = 0"
  proof (rule div_less)
    have "(0 :: nat) < 2 ^ j" by simp
    with assms(4) show "sz + 2 ^ j - 2 ^ 32 - 1 < 2 ^ j" by linarith
  qed
  moreover have "sz + 2 ^ j - 2 ^ 32 - 1 < (2 :: nat) ^ 32" using assms(4) j by simp
  ultimately show ?thesis using u32_clear_low_eq [of "sz + 2 ^ j - 2 ^ 32 - 1" j] by (simp add: new_chunk_size_def assms(1))
qed

text \<open>
  C30. The guard of \<^verbatim>\<open>MappedMemoryManager::Alloc\<close> against overflow does not work: the sum is computed in 32 bits before it is checked, so that for
  a size within one multiple of \<open>2 ^ 32\<close> the new chunk has size 0, and when the command buffer creates it
  the assertion on the memory fails.
\<close>

theorem MappedMemory_Alloc_size_wraps:
  assumes "mm_allocated_memory m = 0" "mm_max_allocated_bytes m = kNoLimit" "mm_chunk_size_multiple m = 2 ^ j" "j < 32"
    and "2 ^ 32 - 2 ^ j < sz" "sz < 2 ^ 32" "cb_CreateTransferBuffer cb 0 (snd x) = (Some b, bid, w)" "0 \<le> bid" "buf_size b = 0"
  shows "new_chunk_size sz m = 0 \<and> MappedMemoryManager_Alloc cb place sz m x = Inl DCHECK_failed"
proof -
  have s: "new_chunk_size sz m = 0" by (rule new_chunk_size_wraps [OF assms(3-6)])
  have "MappedMemoryManager_Alloc cb place sz m x = alloc_new_chunk cb place sz m x"
    using assms(1,2,5) by (auto simp: MappedMemoryManager_Alloc_def alloc_from_chunks_def)
  also have "\<dots> = Inl DCHECK_failed"
    using assms(7-9) s empty_chunk_gives_nothing [OF assms(9), of sz "helper_token_ops cb"] assms(5) by (simp add: alloc_new_chunk_def Let_def)
  finally show ?thesis using s by simp
qed

theorem MappedMemory_Alloc_size_wraps_witness:
  "MappedMemoryManager_Alloc (direct 20) int (2 ^ 32 - 1) (new_MappedMemoryManager kNoLimit) (start_helper 64, start_world) = Inl DCHECK_failed"
proof -
  obtain bo bid w where c: "cb_CreateTransferBuffer (direct 20) 0 start_world = (bo, bid, w)" by (metis surj_pair)
  then have b: "0 \<le> bid" "bo = Some \<lparr>buf_memory = 0, buf_size = 0\<rparr>" by (auto simp: start_evaluation)
  have "cb_CreateTransferBuffer (direct 20) 0 (snd (start_helper 64, start_world)) = (Some \<lparr>buf_memory = 0, buf_size = 0\<rparr>, bid, w)"
    using c b(2) by simp
  from MappedMemory_Alloc_size_wraps [OF _ _ _ _ _ _ this b(1), of "new_MappedMemoryManager kNoLimit" 4 "2 ^ 32 - 1" int] show ?thesis
    by (simp add: new_MappedMemoryManager_def kAllocAlignment_def)
qed

section \<open>The transfer buffer\<close>

text \<open>Bit operations that satisfy their documentation.\<close>

fun log2_ceiling :: "nat \<Rightarrow> nat" where
  "log2_ceiling n = (if n \<le> 1 then 0 else Suc (log2_ceiling ((n + 1) div 2)))"

declare log2_ceiling.simps [simp del]

definition example_bits :: base_bits where
  "example_bits = \<lparr>bits_AlignUp = (\<lambda>n a. (n + a - 1) div a * a), bits_Log2Ceiling = (\<lambda>n. int (log2_ceiling n))\<rparr>"

lemma log2_ceiling_eq: "0 < n \<Longrightarrow> 2 ^ k < 2 * n \<Longrightarrow> n \<le> 2 ^ k \<Longrightarrow> log2_ceiling n = k"
proof (induction k arbitrary: n)
  case (Suc k)
  then have "1 < n" "2 ^ k < 2 * ((n + 1) div 2)" "(n + 1) div 2 \<le> 2 ^ k" using one_le_power [of "2 :: nat" k] by auto
  with Suc.IH [of "(n + 1) div 2"] show ?case by (simp add: log2_ceiling.simps [of n])
qed (simp add: log2_ceiling.simps)

lemma example_bits_ok: "bits_ok example_bits"
  by (simp add: bits_ok_def example_bits_def log2_ceiling_eq)

definition example_transfer_buffer :: transfer_buffer where
  "example_transfer_buffer = new_TransferBuffer\<lparr>tb_result_size := 16, tb_alignment := 4, tb_default_buffer_size := 64,
     tb_min_buffer_size := 32, tb_max_buffer_size := 64\<rparr>"

lemma example_pow2: "is_pow2 4" "is_pow2 32" "is_pow2 64"
  by (auto simp: is_pow2_def intro: exI [of _ 2] exI [of _ 5] exI [of _ 6])

lemma example_transfer_buffer_inv:
  "tb_inv place n example_transfer_buffer" "tb_idle example_transfer_buffer" "\<not> tb_outstanding_result_pointer example_transfer_buffer"
  "tb_result_size example_transfer_buffer = 16" "sz \<le> 1000 \<Longrightarrow> tb_bounded sz example_transfer_buffer"
  using example_pow2
  by (simp_all add: tb_inv_def tb_idle_def tb_sizes_def tb_bounded_def example_transfer_buffer_def new_TransferBuffer_def)

text \<open>
  \<^verbatim>\<open>TransferBuffer::AllocUpTo\<close> and \<^verbatim>\<open>Alloc\<close> on a transfer buffer with no block in use, resizing it as their heuristics say: they come
  back with the invariant kept; what they give lies behind the result area and inside the buffer, held by a block of its ring, apart from every block whose token has
  not passed, or in memory that was not in use before; \<^verbatim>\<open>AllocUpTo\<close> gives as much of the size as the
  buffer has, and \<^verbatim>\<open>Alloc\<close> gives nothing only if the buffer is too small.
\<close>

theorem TransferBuffer_Alloc_is_safe:
  fixes x :: "'x dworld hworld"
  assumes "bits_ok bits" "tb_inv place n tb" "tokens_above n x" "tb_idle tb" "\<not> tb_outstanding_result_pointer tb" "tb_bounded sz tb"
    and "cb = direct (GetCommandBufferSliceSize s)"
  shows "(\<exists>r tb' x' n'. TransferBuffer_AllocUpTo bits cb place sz tb x = Inr (r, tb', x') \<and> tokens_above n' x' \<and> tb_inv place n' tb' \<and>
      (case r of None \<Rightarrow> tb_buffer_id tb' = -1
       | Some (p, k) \<Rightarrow> tb_gave place (token_passed x') n tb p k tb' \<and>
           (\<forall>b. tb_buffer tb' = Some b \<longrightarrow> k = min (buf_size b - tb_result_size tb) sz))) \<and>
    (\<exists>r tb' x' n'. TransferBuffer_Alloc bits cb place sz tb x = Inr (r, tb', x') \<and> tokens_above n' x' \<and> tb_inv place n' tb' \<and>
      (case r of None \<Rightarrow> (\<forall>b. tb_buffer tb' = Some b \<longrightarrow> buf_size b < tb_result_size tb + sz)
       | Some p \<Rightarrow> tb_gave place (token_passed x') n tb p sz tb'))"
  using direct_buffers.AllocUpTo_gave [OF assms(1-6), of s] direct_buffers.TransferBuffer_Alloc_gave [OF assms(1-6), of s]
  unfolding assms(7) by blast

theorem TransferBuffer_Alloc_is_safe_witness:
  "\<exists>r tb' x' n'. TransferBuffer_AllocUpTo example_bits (direct (GetCommandBufferSliceSize True)) int 40 example_transfer_buffer (start_helper 64, start_world) = Inr (r, tb', x') \<and>
     tb_inv int n' tb'"
proof -
  from TransferBuffer_Alloc_is_safe [OF example_bits_ok example_transfer_buffer_inv(1) start_linked(2) example_transfer_buffer_inv(2,3)
      example_transfer_buffer_inv(5) refl, where place = int and s = True and sz = 40]
  show ?thesis by fastforce
qed



text \<open>
  \<^verbatim>\<open>TransferBuffer::Initialize\<close> with sizes that are powers of two comes back, the loop that halves the size until the command buffer
  creates a buffer included: with a new buffer between the minimum and the maximum size, or unusable.
\<close>

theorem TransferBuffer_Initialize_comes_back:
  fixes x :: "'x dworld hworld"
  assumes "bits_ok bits" "tokens_above n x" "is_pow2 al" "0 < res" "al dvd res" "is_pow2 dflt" "is_pow2 mn" "is_pow2 mx"
    "al \<le> mn" "res < mn" "mn \<le> dflt" "dflt \<le> mx"
  shows "\<exists>ok tb x'. TransferBuffer_Initialize bits (direct (GetCommandBufferSliceSize s)) place dflt res mn mx al new_TransferBuffer x = Inr (ok, tb, x') \<and>
    (\<exists>n' \<ge> n. tokens_above n' x' \<and> tb_inv place n' tb) \<and> tb_idle tb \<and>
    (if ok then \<exists>b. tb_buffer tb = Some b \<and> mn \<le> buf_size b \<and> buf_size b \<le> mx \<and> n \<le> buf_memory b else \<not> tb_usable tb)"
  by (rule direct_buffers.TransferBuffer_Initialize_returns [OF assms])

theorem TransferBuffer_Initialize_comes_back_witness:
  "\<exists>ok tb x'. TransferBuffer_Initialize example_bits (direct (GetCommandBufferSliceSize True)) int 64 16 32 64 4 new_TransferBuffer (start_helper 64, start_world) = Inr (ok, tb, x') \<and>
     tb_idle tb \<and> (\<not> ok \<longrightarrow> \<not> tb_usable tb)"
proof -
  from TransferBuffer_Initialize_comes_back [OF example_bits_ok start_linked(2) example_pow2(1) _ _ example_pow2(3,2,3), of 16 True int]
  show ?thesis by fastforce
qed

section \<open>Resource ids\<close>

text \<open>
  C34. \<^verbatim>\<open>IdAllocator::AllocateIDRange\<close> is first fit: it returns the least start of a run of free ids of
  the requested length and marks exactly that run as used, and it returns 0, leaving the allocator
  as it was, only when no such run exists.
\<close>

theorem AllocateIDRange_first_fit:
  assumes "ida_inv m" "0 < r" "r < 2 ^ 32"
  shows "\<exists>i m'. IdAllocator_AllocateIDRange r m = Inr (i, m') \<and> ida_inv m' \<and>
    (if i = 0 then m' = m \<and> (\<forall>j. 0 < j \<longrightarrow> j + r \<le> 2 ^ 32 \<longrightarrow> {j..<j + r} \<inter> used m \<noteq> {})
     else i + r \<le> 2 ^ 32 \<and> {i..<i + r} \<inter> used m = {} \<and> used m' = used m \<union> {i..<i + r} \<and>
       (\<forall>j. 0 < j \<longrightarrow> j < i \<longrightarrow> {j..<j + r} \<inter> used m \<noteq> {}))"
proof (rule AllocateIDRange_spec [OF assms])
  assume "IdAllocator_AllocateIDRange r m = Inr (0, m)"
    and "\<And>j. 0 < j \<Longrightarrow> j + r \<le> 2 ^ 32 \<Longrightarrow> {j..<j + r} \<inter> used m \<noteq> {}"
  with assms(1) show ?thesis by (intro exI [of _ 0] exI [of _ m]) simp
next
  fix i m'
  assume "IdAllocator_AllocateIDRange r m = Inr (i, m')" "0 < i" "i + r \<le> 2 ^ 32" "ida_inv m'"
    "{i..<i + r} \<inter> used m = {}" "used m' = used m \<union> {i..<i + r}"
    "\<And>j. 0 < j \<Longrightarrow> j < i \<Longrightarrow> {j..<j + r} \<inter> used m \<noteq> {}"
  then show ?thesis by (intro exI [of _ i] exI [of _ m']) simp
qed

theorem AllocateIDRange_first_fit_witness:
  "ida_inv [(0, 2), (5, 9)] \<and> IdAllocator_AllocateIDRange 3 [(0, 2), (5, 9)] = Inr (10, [(0, 2), (5, 12)]) \<and>
   (\<exists>i m'. IdAllocator_AllocateIDRange 3 [(0, 2), (5, 9)] = Inr (i, m') \<and> ida_inv m')"
proof (intro conjI)
  show inv: "ida_inv [(0, 2), (5, 9)]" by (simp add: ida_inv_def)
  show "IdAllocator_AllocateIDRange 3 [(0, 2), (5, 9)] = Inr (10, [(0, 2), (5, 12)])"
    by (simp add: IdAllocator_AllocateIDRange_def extend_range_def u32_add_def u32_sub_def)
  from AllocateIDRange_first_fit [OF inv, of 3]
  show "\<exists>i m'. IdAllocator_AllocateIDRange 3 [(0, 2), (5, 9)] = Inr (i, m') \<and> ida_inv m'" by auto
qed

text \<open>
  Freeing a range of ids gives exactly that range back, whatever part of it was in use and whether or not it runs past the
  largest id; and an id that was marked as used, freed again, leaves the ids in use as they were.
\<close>

theorem FreeIDRange_frees_the_run:
  assumes "ida_inv m" "first_id < 2 ^ 32" "rng < 2 ^ 32" "0 < i" "i < 2 ^ 32" "i \<notin> used m"
  shows "(\<exists>m'. IdAllocator_FreeIDRange first_id rng m = Inr m' \<and> ida_inv m' \<and> used m' = used m - {first_id..<first_id + rng}) \<and>
    (\<exists>m1 m2. IdAllocator_MarkAsUsed i m = Inr (True, m1) \<and> IdAllocator_InUse i m1 \<and> IdAllocator_FreeID i m1 = Inr m2 \<and> ida_inv m2 \<and> used m2 = used m)"
proof
  show "\<exists>m'. IdAllocator_FreeIDRange first_id rng m = Inr m' \<and> ida_inv m' \<and> used m' = used m - {first_id..<first_id + rng}"
    by (rule FreeIDRange_spec [OF assms(1-3)])
  obtain m1 where m1: "IdAllocator_MarkAsUsed i m = Inr (True, m1)" "ida_inv m1" "used m1 = insert i (used m)"
    using MarkAsUsed_spec [OF assms(1,4,5)] assms(6) by auto
  from FreeIDRange_spec [OF m1(2) assms(5), of 1] m1 assms(6)
  show "\<exists>m1 m2. IdAllocator_MarkAsUsed i m = Inr (True, m1) \<and> IdAllocator_InUse i m1 \<and> IdAllocator_FreeID i m1 = Inr m2 \<and> ida_inv m2 \<and> used m2 = used m"
    by (fastforce simp: IdAllocator_FreeID_def InUse_iff)
qed

theorem FreeIDRange_frees_the_run_witness:
  "\<exists>m' m1 m2. IdAllocator_FreeIDRange 1 4 [(0, 2), (5, 9)] = Inr m' \<and> ida_inv m' \<and> IdAllocator_MarkAsUsed 4 [(0, 2), (5, 9)] = Inr (True, m1) \<and>
     IdAllocator_FreeID 4 m1 = Inr m2"
proof -
  have "ida_inv [(0, 2), (5, 9)]" "4 \<notin> used [(0, 2), (5, 9)]" by (simp_all add: ida_inv_def used_def)
  from FreeIDRange_frees_the_run [OF this(1) _ _ _ _ this(2), of 1 4] show ?thesis by fastforce
qed

section \<open>Sync points\<close>

text \<open>Generators that count, and a manager with two sequences, the first of which has one order number to process and a command buffer.\<close>

definition example_ids :: "(nat \<times> nat) base_ids" where
  "example_ids = \<lparr>bi_null_command_buffer = 0, bi_null_sequence = 0, bi_next_order = (\<lambda>(n, s). (n + 1, (n + 1, s))),
     bi_next_sequence = (\<lambda>(n, s). (s + 1, (n, s + 1)))\<rparr>"

lemma example_ids_ok: "base_ids_ok example_ids fst snd"
  by (auto simp: base_ids_ok_def example_ids_def)

definition example_points :: "(nat, nat \<times> nat) sync_points" where
  "example_points =
     \<lparr>spm_generators = (2, 2), spm_next_callback_id = 1,
      spm_order_data = [1 \<mapsto> new_SyncPointOrderData\<lparr>od_last_unprocessed_order_num := 2, od_unprocessed_order_nums := [2], od_current_order_num := 2\<rparr>,
        2 \<mapsto> new_SyncPointOrderData],
      spm_client_states = [new_SyncPointClientState (Some 1) 0 7], spm_client_state_maps = [(0, 7) \<mapsto> 0],
      spm_order_data_map = [2, 1], spm_graph_validation_enabled = False, spm_suppress_fatal_log_for_testing = False\<rparr>"

lemmas sync_evaluation = example_ids_def new_SyncPointManager_def CreateSyncPointOrderData_def CreateSyncPointClientState_def
  GenerateUnprocessedOrderNumber_def BeginProcessingOrderNumber_def SyncPointManager_GenerateOrderNumber_def GetSyncPointOrderData_def
  NUM_COMMAND_BUFFER_NAMESPACES_def put_order_def put_state_def with_order_def with_state_def Let_def new_SyncPointOrderData_def
  new_SyncPointClientState_def example_points_def

lemma example_points_history: "sync_history example_ids example_points {#} {#}"
proof -
  let ?h = "\<lambda>m :: (nat, nat \<times> nat) sync_points. sync_history example_ids m {#} {#}"
  let ?m0 = "new_SyncPointManager example_ids (0, 0) False :: (nat, nat \<times> nat) sync_points"
  let ?m1 = "?m0\<lparr>spm_generators := (1, 1), spm_order_data := [1 \<mapsto> new_SyncPointOrderData], spm_order_data_map := [1]\<rparr>"
  let ?m2 = "?m1\<lparr>spm_generators := (1, 2), spm_order_data := [1 \<mapsto> new_SyncPointOrderData, 2 \<mapsto> new_SyncPointOrderData], spm_order_data_map := [2, 1]\<rparr>"
  let ?m3 = "?m2\<lparr>spm_client_states := [new_SyncPointClientState (Some 1) 0 7], spm_client_state_maps := [(0, 7) \<mapsto> 0]\<rparr>"
  let ?m4 = "?m3\<lparr>spm_generators := (2, 2), spm_order_data := [1 \<mapsto> new_SyncPointOrderData
     \<lparr>od_last_unprocessed_order_num := 2, od_unprocessed_order_nums := [2]\<rparr>, 2 \<mapsto> new_SyncPointOrderData]\<rparr>"
  have "?h ?m0" by (rule sh_new)
  then have "?h ?m1" by (rule sh_order [of _ _ _ _ 1]) (simp add: sync_evaluation fun_upd_twist numeral_2_eq_2)
  then have "?h ?m2" by (rule sh_order [of _ _ _ _ 2]) (simp add: sync_evaluation fun_upd_twist numeral_2_eq_2)
  then have "?h ?m3" by (rule sh_state [of _ _ _ _ 0 7 1 0]) (simp add: sync_evaluation fun_upd_twist numeral_2_eq_2)
  then have "?h ?m4" by (rule sh_number [of _ _ _ _ 1 2]) (simp add: sync_evaluation fun_upd_twist numeral_2_eq_2)
  then show ?thesis by (rule sh_begin [of _ _ _ _ 2 1]) (simp add: sync_evaluation fun_upd_twist numeral_2_eq_2)
qed

text \<open>
  C36. Whatever is done with sync points, and in whatever order, every closure whose wait was accepted has been run once, or still waits and
  has not been run; and what still waits, waits for a release count that has not been reached, in order of the counts.
\<close>

theorem sync_closures_run_once:
  assumes "sync_history gen m A R" "base_ids_ok gen lo ls"
  shows "A = R + waiting m \<and> (\<forall>cs \<in> set (spm_client_states m). sorted (map rc_release_count (cs_release_callback_queue cs)) \<and>
    (\<forall>c \<in> set (cs_release_callback_queue cs). \<not> IsFenceSyncReleased (rc_release_count c) cs))"
proof -
  from sync_history_inv [OF assms] have "A = R + waiting m" "states_ok m" by (simp_all add: sp_inv_def)
  then show ?thesis by (fastforce simp: states_ok_def cs_ok_def IsFenceSyncReleased_def)
qed

theorem sync_closures_run_once_witness:
  "\<exists>m. SyncPointManager_Wait example_ids (SyncToken_of 0 7 5) 2 3 42 example_points = Inr (True, m) \<and>
     sync_history example_ids m {#42#} {#} \<and> waiting m = {#42#}"
proof -
  obtain m where w: "SyncPointManager_Wait example_ids (SyncToken_of 0 7 5) 2 3 42 example_points = Inr (True, m)"
    by (auto simp: SyncPointManager_Wait_def GetSyncTokenReleaseSequenceId_def GetSyncPointClientState_def SyncToken_of_def WaitForRelease_def
        SyncPointClientState_sequence_id_def ValidateReleaseOrderNumber_def GenerateCallbackId_def u64_add_def sync_evaluation)
  from sh_wait [OF example_points_history w] have h: "sync_history example_ids m {#42#} {#}" by (simp add: example_points_def)
  from sync_closures_run_once [OF this example_ids_ok] w h show ?thesis by auto
qed



text \<open>
  A release that is newer than those before runs the closures that wait for it or for an earlier release, in order of the release
  counts, and keeps the others waiting; from then on the token, and every earlier one of the same command buffer, counts as released.
\<close>

theorem sync_release_runs_waiters:
  assumes "sync_history gen m A R" "base_ids_ok gen lo ls" "spm_client_state_maps m (SyncToken_GetClientId t) = Some i"
    and "0 \<le> tk_namespace_id t" "tk_namespace_id t < NUM_COMMAND_BUFFER_NAMESPACES" "cause = kForceRelease \<longrightarrow> spm_graph_validation_enabled m"
    and "cs_client_fence_sync_release (spm_client_states m ! i) < tk_release_count t"
  shows "\<exists>run m'. SyncPointManager_EnsureFenceSyncReleased t cause m = Inr (run, m') \<and> sync_history gen m' A (R + mset run) \<and>
    run = map rc_callback_closure (filter (\<lambda>c. rc_release_count c \<le> tk_release_count t) (cs_release_callback_queue (spm_client_states m ! i))) \<and>
    cs_release_callback_queue (spm_client_states m' ! i) =
      filter (\<lambda>c. tk_release_count t < rc_release_count c) (cs_release_callback_queue (spm_client_states m ! i)) \<and>
    (\<forall>u. SyncToken_GetClientId u = SyncToken_GetClientId t \<longrightarrow> tk_release_count u \<le> tk_release_count t \<longrightarrow> IsSyncTokenReleased u m' = Inr True)"
proof -
  let ?cs = "spm_client_states m ! i"
  have st: "states_ok m" using sync_history_inv [OF assms(1,2)] by (simp add: sp_inv_def)
  have i: "i < length (spm_client_states m)" by (rule states_ok_map(1) [OF st assms(3)])
  note ok = states_ok_nth [OF st i]
  have top: "case cs_release_callback_queue ?cs of [] \<Rightarrow> True | c # _ \<Rightarrow> tk_release_count t < rc_release_count c"
    if "tk_release_count t \<le> cs_fence_sync_release ?cs"
    using ok that by (auto simp: cs_ok_def split: list.splits)
  obtain run cs where e: "EnsureFenceSyncReleased (spm_suppress_fatal_log_for_testing m) (tk_release_count t) cause ?cs = Inr (run, cs)"
    using assms(7) top by (cases cause; cases "tk_release_count t \<le> cs_fence_sync_release ?cs") (simp_all add: EnsureFenceSyncReleased_def Let_def)
  note r = EnsureFenceSyncReleased_ok [OF e ok]
  have k: "spm_client_state_maps m (tk_namespace_id t, tk_command_buffer_id t) = Some i" using assms(3) by (simp add: SyncToken_GetClientId_def)
  have f: "SyncPointManager_EnsureFenceSyncReleased t cause m = Inr (run, put_state i cs m)"
    using assms(4-6) k i e by (auto simp: SyncPointManager_EnsureFenceSyncReleased_def GetSyncPointClientState_def with_state_def)
  have "IsSyncTokenReleased u (put_state i cs m) = Inr True"
    if "SyncToken_GetClientId u = SyncToken_GetClientId t" "tk_release_count u \<le> tk_release_count t" for u
    using that k i r(4) assms(4,5) by (simp add: IsSyncTokenReleased_def GetSyncPointClientState_def with_state_def IsFenceSyncReleased_def SyncToken_GetClientId_def)
  with f sh_release [OF assms(1) f] r(5,6) i show ?thesis by (intro exI [of _ run] exI [of _ "put_state i cs m"]) simp
qed

theorem sync_release_runs_waiters_witness:
  "\<exists>run m'. SyncPointManager_EnsureFenceSyncReleased (SyncToken_of 0 7 5) kExplicitClientRelease example_points = Inr (run, m') \<and>
     IsSyncTokenReleased (SyncToken_of 0 7 4) m' = Inr True"
proof -
  have m: "spm_client_state_maps example_points (SyncToken_GetClientId (SyncToken_of 0 7 5)) = Some 0"
    by (simp add: example_points_def SyncToken_GetClientId_def SyncToken_of_def)
  have "0 < NUM_COMMAND_BUFFER_NAMESPACES" by (simp add: NUM_COMMAND_BUFFER_NAMESPACES_def)
  with sync_release_runs_waiters [OF example_points_history example_ids_ok m, of kExplicitClientRelease] show ?thesis
    by (fastforce simp: SyncToken_of_def SyncToken_GetClientId_def example_points_def new_SyncPointClientState_def)
qed

text \<open>
  C39. \<^verbatim>\<open>ReduceSyncTokens\<close> keeps one token per command buffer, one of those it was given, and waiting for the tokens it keeps is waiting for all
  of them, however far each command buffer has released.
\<close>

theorem ReduceSyncTokens_keeps_the_wait:
  "(\<forall>rel. all_released rel (ReduceSyncTokens ts) \<longleftrightarrow> all_released rel ts) \<and>
   distinct (map SyncToken_GetClientId (ReduceSyncTokens ts)) \<and> set (ReduceSyncTokens ts) \<subseteq> set ts"
  using reduce_spec(1) [of _ "[]" ts] reduce_spec(2,3) [of "[]" ts] by (simp add: ReduceSyncTokens_def)
section \<open>The task graph\<close>

text \<open>
  Two sequences, each with one task: each releases what the other waits for.
\<close>

definition example_task :: "int \<Rightarrow> u32 \<Rightarrow> sync_token \<Rightarrow> (unit, unit) task" where
  "example_task time order_num release = new_Task time () order_num release None"

definition example_cycle :: "u32 \<Rightarrow> u32 \<Rightarrow> u32 \<Rightarrow> u64 \<Rightarrow> u64 \<Rightarrow> (unit, unit) sequence" where
  "example_cycle s order_num other mine theirs =
     \<lparr>seq_sequence_id = s, seq_sync_point_states = [], seq_current_task_release = new_SyncToken example_ids,
      seq_tasks = [example_task 0 order_num (SyncToken_of 0 mine 1)],
      seq_wait_fences = [\<lparr>wf_sync_token = SyncToken_of 0 theirs 1, wf_order_num = order_num, wf_release_sequence_id = other\<rparr>],
      seq_release_upperbound = new_SyncToken example_ids, seq_validation_timer = Some 1\<rparr>"

definition example_graph :: "(u32 \<times> (unit, unit) sequence) list" where
  "example_graph = [(1, example_cycle 1 2 2 7 8), (2, example_cycle 2 3 1 8 7)]"

text \<open>
  C40. \<^verbatim>\<open>ValidateSequenceTaskFenceDeps\<close> decides which releases to force, for a graph whose validated tasks come first in their
  sequences: it comes back, its recursion being no deeper than there are sequences; it marks every task of the root
  sequence that is old enough; and the tasks that it marks can run: in some order each of them finds the fences
  it waits for released, by a task before it in the order, by one that is running or was validated earlier, or by force, and finds the tasks before it in its sequence done.
\<close>

theorem validation_unblocks:
  assumes "graph_ok S" "map_of S (seq_sequence_id root) = Some root"
  shows "\<exists>v ord. validate_sequence now root S = Inr v \<and> same_graph S (vd_sequences v) \<and> runnable S (vd_force_releases v) ord \<and>
    (\<forall>s i. marked (vd_sequences v) s i \<longleftrightarrow> marked S s i \<or> (s, i) \<in> set ord) \<and>
    (\<forall>i < length (takeWhile (\<lambda>t. kMinValidationDelay < now - tsk_registration t) (seq_tasks root)). marked (vd_sequences v) (seq_sequence_id root) i)"
  by (rule validate_sequence_ok [OF assms])

lemmas cycle_evaluation = example_graph_def example_cycle_def example_task_def new_Task_def SyncToken_of_def

lemma example_cycle_forced:
  "map_option vd_force_releases (case validate_sequence 4000000 (example_cycle 1 2 2 7 8) example_graph of Inl _ \<Rightarrow> None | Inr v \<Rightarrow> Some v) =
     Some [((0, 7), 1)]"
  by code_simp

theorem validation_unblocks_witness:
  "\<exists>v ord. validate_sequence 4000000 (example_cycle 1 2 2 7 8) example_graph = Inr v \<and> vd_force_releases v = [((0, 7), 1)] \<and>
     runnable example_graph [((0, 7), 1)] ord \<and> (1, 0) \<in> set ord"
proof -
  have ok: "graph_ok example_graph" by (auto simp: graph_ok_def cycle_evaluation split: if_splits)
  have root: "map_of example_graph (seq_sequence_id (example_cycle 1 2 2 7 8)) = Some (example_cycle 1 2 2 7 8)"
    by (simp add: example_graph_def example_cycle_def)
  obtain v ord where v: "validate_sequence 4000000 (example_cycle 1 2 2 7 8) example_graph = Inr v" "runnable example_graph (vd_force_releases v) ord"
    "\<forall>s i. marked (vd_sequences v) s i \<longleftrightarrow> marked example_graph s i \<or> (s, i) \<in> set ord"
    "\<forall>i < length (takeWhile (\<lambda>t. kMinValidationDelay < 4000000 - tsk_registration t) (seq_tasks (example_cycle 1 2 2 7 8))).
       marked (vd_sequences v) (seq_sequence_id (example_cycle 1 2 2 7 8)) i"
    using validation_unblocks [OF ok root, of 4000000] by blast
  have f: "vd_force_releases v = [((0, 7), 1)]" using example_cycle_forced v(1) by simp
  have "marked (vd_sequences v) 1 0" using v(4) by (simp add: cycle_evaluation kMinValidationDelay_def)
  moreover have "\<not> marked example_graph 1 0" by (simp add: marked_def cycle_evaluation)
  ultimately show ?thesis using v(1,2,3) f by auto
qed

text \<open>
  C18. The validation does not survive a task that was continued. \<^verbatim>\<open>ContinueTask\<close> puts a new task, which is not validated, in front of
  tasks that may be; the loop over the root sequence passes over a validated task without moving \<^verbatim>\<open>next_to_validate\<close>
  past it, and the check at the next task that is not validated fails.
\<close>

theorem validation_fails_after_continue:
  assumes "map_of S (seq_sequence_id root) = Some root" "seq_tasks root = t1 # t2 # t3 # ts"
    and "\<not> tsk_validated t1" "tsk_validated t2" "\<not> tsk_validated t3" "GetTaskWaitFences t1 root = []"
    and "\<forall>t \<in> {t1, t2, t3}. kMinValidationDelay < now - tsk_registration t"
  shows "validate_sequence now root S = Inl CHECK_failed"
proof -
  obtain n where "length S = Suc n" using assms(1) by (cases S) simp_all
  then show ?thesis using assms
    by (simp add: validate_sequence_def GetSequenceValidateState_eq mark_validated_def update_conv' add_release_def not_le split: option.splits)
qed

text \<open>How a sequence gets there: two tasks are validated, the first is begun and continued, and a third is added.\<close>

definition continued_sequence :: "((unit, unit) sequence \<times> (unit, unit, nat \<times> nat) task_graph) res" where
  "continued_sequence =
     (let m = new_SyncPointManager example_ids (0, 0) True
      in res_bind (new_Sequence example_ids True ns_INVALID 0 m) (\<lambda>(sq, m).
         res_bind (Sequence_AddTask example_ids 0 () [] (new_SyncToken example_ids) None sq m) (\<lambda>(_, sq, m).
         res_bind (Sequence_AddTask example_ids 0 () [] (new_SyncToken example_ids) None sq m) (\<lambda>(_, sq, m).
         res_bind (ValidateSequenceTaskFenceDeps 4000000 (seq_sequence_id sq) (TaskGraph_AddSequence sq (new_TaskGraph m))) (\<lambda>(_, g).
         case TaskGraph_GetSequence (seq_sequence_id sq) g of None \<Rightarrow> Inl Null_dereference | Some sq \<Rightarrow>
         res_bind (Sequence_BeginTask sq) (\<lambda>(n, _, _, sq).
         res_bind (BeginProcessingOrderNumber n (seq_sequence_id sq) (tg_sync_points g)) (\<lambda>m.
         res_bind (Sequence_ContinueTask example_ids 4000000 () sq m) (\<lambda>(sq, m).
         res_bind (Sequence_AddTask example_ids 4000000 () [] (new_SyncToken example_ids) None sq m) (\<lambda>(_, sq, m).
         Inr (sq, (put_sequence (seq_sequence_id sq) sq g)\<lparr>tg_sync_points := m\<rparr>))))))))))"

lemma continued_sequence_tasks:
  "(case continued_sequence of Inl _ \<Rightarrow> None | Inr (sq, g) \<Rightarrow>
      Some (seq_sequence_id sq, map tsk_validated (seq_tasks sq), map tsk_registration (seq_tasks sq), seq_wait_fences sq, tg_sequence_map g = [(seq_sequence_id sq, sq)])) =
   Some (1, [False, True, False], [4000000, 0, 4000000], [], True)"
  by code_simp

theorem validation_fails_after_continue_witness:
  "\<exists>sq g. continued_sequence = Inr (sq, g) \<and> validate_sequence 8000000 sq (tg_sequence_map g) = Inl CHECK_failed"
proof -
  obtain sq g where r: "continued_sequence = Inr (sq, g)" and
    v: "map tsk_validated (seq_tasks sq) = [False, True, False]" "map tsk_registration (seq_tasks sq) = [4000000, 0, 4000000]" and
    w: "seq_wait_fences sq = []" "tg_sequence_map g = [(seq_sequence_id sq, sq)]"
    using continued_sequence_tasks by (auto split: sum.splits)
  from v obtain t1 t2 t3 where t: "seq_tasks sq = [t1, t2, t3]" "\<not> tsk_validated t1" "tsk_validated t2" "\<not> tsk_validated t3"
    "tsk_registration t1 = 4000000" "tsk_registration t2 = 0" "tsk_registration t3 = 4000000" by (auto simp: map_eq_Cons_conv)
  have "validate_sequence 8000000 sq (tg_sequence_map g) = Inl CHECK_failed"
    by (rule validation_fails_after_continue [where ts = "[]", OF _ t(1-4)])
      (simp_all add: w GetTaskWaitFences_def t kMinValidationDelay_def)
  with r show ?thesis by blast
qed
section \<open>The scheduler\<close>

text \<open>
  Two sequences on the thread 0, of low and of high priority, each with a task.
\<close>

definition example_schedule :: "(unit, unit, nat \<times> nat, nat) scheduler res" where
  "example_schedule =
     (let S = new_Scheduler (new_SyncPointManager example_ids (0, 0) False);
          t = (\<lambda>s release. \<lparr>stk_sequence_id = s, stk_task_closure = (), stk_sync_token_fences = [], stk_release = release, stk_report_callback = None\<rparr>)
      in res_bind (Scheduler_CreateSequence example_ids kLow 0 0 7 S) (\<lambda>(s1, S).
         res_bind (Scheduler_CreateSequence example_ids kHigh 0 0 8 S) (\<lambda>(s2, S).
         res_bind (ScheduleTaskHelper example_ids 0 (t s1 (SyncToken_of 0 7 1)) S) (\<lambda>S.
         ScheduleTaskHelper example_ids 0 (t s2 (new_SyncToken example_ids)) S))))"

lemma example_schedule_runs:
  assumes "example_schedule = Inr S"
  shows "\<exists>W. sched_run example_ids W \<and> wd_scheduler W = S \<and> wd_pc W = (\<lambda>_. Between)"
proof -
  let ?t = "\<lambda>s release. \<lparr>stk_sequence_id = s, stk_task_closure = (), stk_sync_token_fences = [], stk_release = release, stk_report_callback = None\<rparr>"
  let ?m = "new_SyncPointManager example_ids (0, 0) False"
  let ?W = "\<lambda>S. (start_of_threads ?m)\<lparr>wd_scheduler := S\<rparr>"
  obtain s1 S1 s2 S2 S3 where r: "Scheduler_CreateSequence example_ids kLow 0 0 7 (new_Scheduler ?m) = Inr (s1, S1)"
    "Scheduler_CreateSequence example_ids kHigh 0 0 8 S1 = Inr (s2, S2)" "ScheduleTaskHelper example_ids 0 (?t s1 (SyncToken_of 0 7 1)) S2 = Inr S3"
    "ScheduleTaskHelper example_ids 0 (?t s2 (new_SyncToken example_ids)) S3 = Inr S"
    using assms by (auto simp: example_schedule_def Let_def res_simps)
  have step: "sched_run example_ids (?W S')" if "sched_run example_ids (?W S)" "sched_step example_ids (?W S) ((?W S)\<lparr>wd_scheduler := S'\<rparr>)"
    for S S' :: "(unit, unit, nat \<times> nat, nat) scheduler"
    using run_step [OF that] by simp
  have "?W (new_Scheduler ?m) = start_of_threads ?m" by (simp add: start_of_threads_def)
  then have "sched_run example_ids (?W (new_Scheduler ?m))" using run_start by metis
  from step [OF step [OF step [OF step [OF this step_create] step_create] step_schedule] step_schedule] r
  have "sched_run example_ids (?W S)" by simp
  then show ?thesis by (intro exI [of _ "?W S"]) (simp add: start_of_threads_def)
qed

lemma example_schedule_state:
  "(case example_schedule of Inl _ \<Rightarrow> None | Inr S \<Rightarrow>
      Some (sch_sequence_map S, sch_posted S 0, HasAnyUnblockedTasksOnRunner 0 S, sch_posted S 1,
        case RunNextTask_pick 0 (S\<lparr>sch_posted := (sch_posted S)(0 := 0)\<rparr>) of Inl _ \<Rightarrow> None | Inr (r, _) \<Rightarrow> r)) =
   Some ([1, 2], 1, True, 0, Some 2)"
  by code_simp

text \<open>
  C12. \<^verbatim>\<open>FindNextTask\<close> comes back. It finds nothing only when no sequence of the thread has a task that could run. What it finds
  can run, and is found from a runnable sequence over tasks each of which waits for the next; no runnable sequence of
  a higher priority, or of the same priority and with a lower order number, leads in this way to a task that could run.
\<close>

theorem FindNextTask_finds:
  assumes "sched_run gen W" "base_ids_ok gen lo ls"
  shows "\<exists>r S'. FindNextTask w (wd_scheduler W) = Inr (r, S') \<and>
    (case r of
       None \<Rightarrow> \<forall>s. \<not> can_run (wd_scheduler W) w s
     | Some s \<Rightarrow> can_run (wd_scheduler W) w s \<and>
         (\<exists>root \<in> set (sch_sequence_map (wd_scheduler W)). runnable_root (wd_scheduler W) root \<and> (waits_for (wd_scheduler W))\<^sup>*\<^sup>* root s \<and>
           (\<forall>root' \<in> set (sch_sequence_map (wd_scheduler W)). runnable_root (wd_scheduler W) root' \<longrightarrow>
              root_key (wd_scheduler W) root' < root_key (wd_scheduler W) root \<longrightarrow>
              (\<forall>s'. (waits_for (wd_scheduler W))\<^sup>*\<^sup>* root' s' \<longrightarrow> \<not> can_run (wd_scheduler W) w s'))))"
proof -
  from sched_run_inv [OF assms] have "sched_inv lo ls {} (wd_scheduler W) (wd_pc W)" by (simp add: world_inv_def)
  from FindNextTask_ok [OF sched_inv_wf [OF sched_invD(1,2) [OF this]], of w] show ?thesis by blast
qed

theorem FindNextTask_finds_witness:
  "\<exists>S S'. example_schedule = Inr S \<and> FindNextTask 0 S = Inr (Some 2, S') \<and> can_run S 0 2"
proof -
  obtain S where S: "example_schedule = Inr S" using example_schedule_state by (auto split: sum.splits)
  obtain W where W: "sched_run example_ids W" "wd_scheduler W = S" using example_schedule_runs [OF S] by blast
  obtain r S' where f: "FindNextTask 0 S = Inr (r, S')" "case r of None \<Rightarrow> \<forall>s. \<not> can_run S 0 s | Some s \<Rightarrow> can_run S 0 s"
    using FindNextTask_finds [OF W(1) example_ids_ok, of 0] W(2) by (fastforce split: option.splits)
  have "(case example_schedule of Inl _ \<Rightarrow> None | Inr S \<Rightarrow> (case FindNextTask 0 S of Inl _ \<Rightarrow> None | Inr (r, _) \<Rightarrow> r)) = Some 2" by code_simp
  then have "r = Some 2" by (simp add: S f(1))
  with S f show ?thesis by auto
qed

text \<open>
  C16. Whatever the clients and the threads do, step by step and in whatever order: \<^verbatim>\<open>RunNextTask\<close> is never posted to a thread twice, nor while it runs there; a sequence
  is \<^verbatim>\<open>RUNNING\<close> just while its thread executes a task of it; and no wake-up is lost: a thread that is not running has \<^verbatim>\<open>RunNextTask\<close> posted as long as
  one of its enabled sequences has an unblocked task, and when it then runs it picks a task that can run. The closure of a fence fails for no
  sequence that is in the scheduler's map or gone.
\<close>

theorem scheduler_keeps_awake:
  assumes "sched_run gen W" "base_ids_ok gen lo ls"
  defines "S \<equiv> wd_scheduler W"
  shows "(wd_pc W w = Between \<longrightarrow> sch_posted S w \<le> 1) \<and> (wd_pc W w \<noteq> Between \<longrightarrow> sch_posted S w = 0) \<and>
    (\<forall>s sq x. Scheduler_GetSequence s S = Some (sq, x) \<longrightarrow> (ssq_running_state x = RUNNING \<longleftrightarrow> executing (wd_pc W (ssq_task_runner x)) = Some s)) \<and>
    (HasAnyUnblockedTasksOnRunner w S \<longrightarrow> wd_pc W w = Between \<longrightarrow>
      (\<exists>s S'. RunNextTask_pick w (S\<lparr>sch_posted := (sch_posted S)(w := 0)\<rparr>) = Inr (Some s, S') \<and> can_run S w s \<and>
         sched_step gen W (W\<lparr>wd_scheduler := S', wd_pc := (wd_pc W)(w := Picked s)\<rparr>))) \<and>
    (\<forall>now c. fc_waiting_sequence_id c \<in> set (sch_sequence_map S) \<or> TaskGraph_GetSequence (fc_waiting_sequence_id c) (sch_task_graph S) = None \<longrightarrow>
      (\<exists>S'. Scheduler_FenceReleased now c S = Inr S'))"
proof -
  from sched_run_inv [OF assms(1,2)] have inv: "sched_inv lo ls {} S (wd_pc W)" by (simp add: world_inv_def S_def)
  note d = sched_invD [OF inv]
  have posted: "sch_posted S w + (if wd_pc W w = Between then 0 else 1) = (if pts_running (sch_threads S w) then 1 else 0)"
    by (rule thread_invD(1) [OF d(4)])
  have pick: "\<exists>s S'. RunNextTask_pick w (S\<lparr>sch_posted := (sch_posted S)(w := 0)\<rparr>) = Inr (Some s, S') \<and> can_run S w s \<and>
         sched_step gen W (W\<lparr>wd_scheduler := S', wd_pc := (wd_pc W)(w := Picked s)\<rparr>)"
    if h: "HasAnyUnblockedTasksOnRunner w S" "wd_pc W w = Between"
  proof -
    have one: "sch_posted S w = 1" using d(5) h posted by (auto simp: wake_inv_def)
    obtain r S' where r: "RunNextTask_pick w (S\<lparr>sch_posted := (sch_posted S)(w := sch_posted S w - 1)\<rparr>) = Inr (r, S')"
      using RunNextTask_pick_ok(1) [OF inv h(2)] one by auto
    have run: "\<exists>s. can_run S w s" by (rule unblocked_can_run [OF d(3) h])
    then obtain s where s: "r = Some s" using RunNextTask_pick_ok(4) [OF inv h(2)] one r by (cases r) auto
    have "sched_step gen W (goes_on W w (case r of None \<Rightarrow> Between | Some s \<Rightarrow> Picked s) [] S')"
      using step_pick [OF h(2)] one r unfolding S_def by simp
    with r s one RunNextTask_pick_ok(3) [OF inv h(2)] show ?thesis by auto
  qed
  show ?thesis using posted pick exec_invD(3) [OF d(3)] FenceReleased_ok(2) [OF inv]
    unfolding get_iff TaskGraph_GetSequence_def by (auto split: if_splits)
qed

theorem scheduler_keeps_awake_witness:
  "\<exists>S s S'. example_schedule = Inr S \<and> HasAnyUnblockedTasksOnRunner 0 S \<and> RunNextTask_pick 0 (S\<lparr>sch_posted := (sch_posted S)(0 := 0)\<rparr>) = Inr (Some s, S') \<and>
     can_run S 0 s"
proof -
  obtain S where S: "example_schedule = Inr S" "HasAnyUnblockedTasksOnRunner 0 S" using example_schedule_state by (auto split: sum.splits)
  obtain W where W: "sched_run example_ids W" "wd_scheduler W = S" "wd_pc W = (\<lambda>_. Between)" using example_schedule_runs [OF S(1)] by blast
  from scheduler_keeps_awake [OF W(1) example_ids_ok, of 0] W S show ?thesis by auto
qed

text \<open>
  C26. \<^verbatim>\<open>RunNextTask\<close> gives up the lock between choosing a sequence and executing it. The execution begins just when the sequence is
  still in the scheduler's map and enabled; a sequence that another thread has destroyed or disabled in between is executed all the same, and a check of
  \<^verbatim>\<open>ExecuteSequence\<close> fails.
\<close>

theorem chosen_sequence_may_be_gone:
  assumes "sched_run gen W" "base_ids_ok gen lo ls" "wd_pc W w = Picked s"
  shows "if (\<exists>sq x. Scheduler_GetSequence s (wd_scheduler W) = Some (sq, x) \<and> ssq_enabled x)
    then (\<exists>n k r report S'. ExecuteSequence_begin w s (wd_scheduler W) = Inr (n, k, r, report, S'))
    else ExecuteSequence_begin w s (wd_scheduler W) = Inl DCHECK_failed"
proof (cases "\<exists>sq x. Scheduler_GetSequence s (wd_scheduler W) = Some (sq, x) \<and> ssq_enabled x")
  case True
  with ExecuteSequence_begin_iff [OF assms] show ?thesis by auto
next
  case False
  then show ?thesis by (auto simp: ExecuteSequence_begin_def HasTasksAndEnabled_def split: option.splits)
qed

theorem chosen_sequence_may_be_gone_witness:
  "\<exists>W. sched_run example_ids W \<and> wd_pc W (0 :: nat) = Picked 2 \<and> ExecuteSequence_begin 0 2 (wd_scheduler W :: (unit, unit, nat \<times> nat, nat) scheduler) = Inl DCHECK_failed"
proof -
  obtain S where S: "example_schedule = Inr S" "sch_sequence_map S = [1, 2]" "sch_posted S 0 = 1" using example_schedule_state by (auto split: sum.splits)
  obtain W where W: "sched_run example_ids W" "wd_scheduler W = S" "wd_pc W = (\<lambda>_. Between)" using example_schedule_runs [OF S(1)] by blast
  obtain S1 where S1: "RunNextTask_pick 0 (S\<lparr>sch_posted := (sch_posted S)(0 := 0)\<rparr>) = Inr (Some 2, S1)"
    using example_schedule_state by (simp add: S(1) split: sum.splits prod.splits)
  let ?W1 = "goes_on W 0 (Picked 2) [] S1"
  let ?W2 = "?W1\<lparr>wd_scheduler := DestroySequence_unmap 2 S1\<rparr>"
  have "sched_step example_ids W ?W1" using step_pick [of W 0 "Some 2" S1 example_ids] W(2,3) S(3) S1 by simp
  from run_step [OF W(1) this] have r1: "sched_run example_ids ?W1" .
  have "sched_step example_ids ?W1 ?W2" using step_unmap [of example_ids ?W1 2] by simp
  from run_step [OF r1 this] have r: "sched_run example_ids ?W2" .
  have inv: "map_inv S1" using sched_run_inv [OF r1 example_ids_ok] sched_invD(2) by (fastforce simp: world_inv_def)
  then have "Scheduler_GetSequence 2 (wd_scheduler ?W2) = None" by (simp add: Scheduler_GetSequence_def DestroySequence_unmap_def map_inv_def)
  with chosen_sequence_may_be_gone [OF r example_ids_ok, of 0 2] r show ?thesis by (intro exI [of _ ?W2]) simp
qed

end
